(* ===== verification/Prelude.thy ===== *)
theory Prelude
  imports Main "HOL-Library.Word" "HOL-Library.Multiset"
begin

text \<open>
  The prelude of the development: the error codes of \<^verbatim>\<open>common/unicode/utypes.h\<close>,
  the memory interface of \<^verbatim>\<open>common/cmemory.c\<close>, the limits of the machine types, and
  the lemmas on lists and index loops that the component theories share.

  Conventions. A C++ \<^verbatim>\<open>int32_t\<close> used as an index, a length or a capacity is an \<open>int\<close>;
  the operations are stated so that every value the code computes can be read off, and the
  invariants of the components keep those values inside the 32-bit range.
  A block of memory is a list of its cells. A counting loop
  \<^verbatim>\<open>for (i = a; i < b; ++i) body\<close> is a \<open>fold\<close> over the index list \<open>[a..<b]\<close>, a loop that
  counts down is a \<open>fold\<close> over the reversed index list, and a loop with an early
  \<^verbatim>\<open>return\<close> is \<open>find\<close> or \<open>list_all\<close> over the index list.
\<close>

named_theorems vec_simps \<open>facts about index loops and blocks of memory\<close>

section \<open>Error codes\<close>

text \<open>The values of \<^verbatim>\<open>UErrorCode\<close> that the modelled code uses.\<close>

datatype UErrorCode =
    U_STRING_NOT_TERMINATED_WARNING
  | U_ZERO_ERROR
  | U_ILLEGAL_ARGUMENT_ERROR
  | U_INVALID_FORMAT_ERROR
  | U_INTERNAL_PROGRAM_ERROR
  | U_MEMORY_ALLOCATION_ERROR
  | U_INDEX_OUTOFBOUNDS_ERROR
  | U_INVALID_CHAR_FOUND
  | U_TRUNCATED_CHAR_FOUND
  | U_ILLEGAL_CHAR_FOUND
  | U_BUFFER_OVERFLOW_ERROR

primrec error_value :: "UErrorCode \<Rightarrow> int" where
  "error_value U_STRING_NOT_TERMINATED_WARNING = -124"
| "error_value U_ZERO_ERROR = 0"
| "error_value U_ILLEGAL_ARGUMENT_ERROR = 1"
| "error_value U_INVALID_FORMAT_ERROR = 3"
| "error_value U_INTERNAL_PROGRAM_ERROR = 5"
| "error_value U_MEMORY_ALLOCATION_ERROR = 7"
| "error_value U_INDEX_OUTOFBOUNDS_ERROR = 8"
| "error_value U_INVALID_CHAR_FOUND = 10"
| "error_value U_TRUNCATED_CHAR_FOUND = 11"
| "error_value U_ILLEGAL_CHAR_FOUND = 12"
| "error_value U_BUFFER_OVERFLOW_ERROR = 15"

definition U_FAILURE :: "UErrorCode \<Rightarrow> bool" where
  "U_FAILURE code \<longleftrightarrow> error_value code > error_value U_ZERO_ERROR"

abbreviation U_SUCCESS :: "UErrorCode \<Rightarrow> bool" where
  "U_SUCCESS code \<equiv> \<not> U_FAILURE code"

lemma U_FAILURE_simps [simp]:
  "\<not> U_FAILURE U_ZERO_ERROR"
  "\<not> U_FAILURE U_STRING_NOT_TERMINATED_WARNING"
  "U_FAILURE U_ILLEGAL_ARGUMENT_ERROR"
  "U_FAILURE U_INVALID_FORMAT_ERROR"
  "U_FAILURE U_INTERNAL_PROGRAM_ERROR"
  "U_FAILURE U_MEMORY_ALLOCATION_ERROR"
  "U_FAILURE U_INDEX_OUTOFBOUNDS_ERROR"
  "U_FAILURE U_INVALID_CHAR_FOUND"
  "U_FAILURE U_TRUNCATED_CHAR_FOUND"
  "U_FAILURE U_ILLEGAL_CHAR_FOUND"
  "U_FAILURE U_BUFFER_OVERFLOW_ERROR"
  by (simp_all add: U_FAILURE_def)

section \<open>Machine limits and memory\<close>

definition INT32_MAX :: int where
  "INT32_MAX = 2147483647"

text \<open>
  The allocator is the C library's, so it is a parameter: \<open>grants n\<close> says whether a request
  for \<open>n > 0\<close> bytes succeeds, \<open>junk\<close> is what an uninitialised cell holds.
  \<^verbatim>\<open>uprv_malloc\<close> and \<^verbatim>\<open>uprv_realloc\<close> never fail for 0 bytes: they return the address of
  a static block.
\<close>

record 'e heap =
  grants :: "int \<Rightarrow> bool"
  junk :: 'e

definition uprv_malloc :: "'e heap \<Rightarrow> int \<Rightarrow> int \<Rightarrow> 'e list option" where
  "uprv_malloc h sz n =
     (if sz * n > 0 then
        (if grants h (sz * n) then Some (replicate (nat n) (junk h)) else None)
      else Some [])"

definition uprv_realloc :: "'e heap \<Rightarrow> 'e list \<Rightarrow> int \<Rightarrow> int \<Rightarrow> 'e list option" where
  "uprv_realloc h block sz n =
     (if sz * n = 0 then Some []
      else if grants h (sz * n)
      then Some (take (nat n) block @ replicate (nat n - length block) (junk h))
      else None)"

lemma uprv_realloc_Some:
  assumes "uprv_realloc h xs sz n = Some ys" "0 \<le> n" "sz > 0"
  shows "int (length ys) = n" "take (min (nat n) (length xs)) ys = take (nat n) xs"
  using assms by (auto simp: uprv_realloc_def min_def split: if_splits)

lemma uprv_malloc_Some:
  assumes "uprv_malloc h sz n = Some ys" "0 \<le> n" "sz > 0"
  shows "int (length ys) = n"
  using assms by (auto simp: uprv_malloc_def mult_le_0_iff not_less split: if_splits)

section \<open>Index loops over a block\<close>

text \<open>
  \<^verbatim>\<open>for (i = n; i > index; --i) e[i] = e[i-1];\<close> opens a gap at \<open>index\<close>, and
  \<^verbatim>\<open>for (i = index; i < n; ++i) e[i] = e[i+1];\<close> closes one.
\<close>

definition shift_up :: "nat \<Rightarrow> nat \<Rightarrow> 'a list \<Rightarrow> 'a list" where
  "shift_up index n xs = fold (\<lambda>i e. e[i := e ! (i - 1)]) (rev [Suc index..<Suc n]) xs"

definition shift_down :: "nat \<Rightarrow> nat \<Rightarrow> 'a list \<Rightarrow> 'a list" where
  "shift_down index n xs = fold (\<lambda>i e. e[i := e ! Suc i]) [index..<n] xs"

text \<open>\<^verbatim>\<open>uprv_memmove(p + index + k, p + index, n)\<close> on cells.\<close>

definition memmove_up :: "nat \<Rightarrow> nat \<Rightarrow> nat \<Rightarrow> 'a list \<Rightarrow> 'a list" where
  "memmove_up index k n p = take (index + k) p @ take n (drop index p) @ drop (index + k + n) p"

lemma length_shift_up [simp]: "length (shift_up i n xs) = length xs"
proof -
  have "length (fold (\<lambda>i e. e[i := e ! (i - 1)]) is xs) = length xs" for "is" :: "nat list" and xs :: "'a list"
    by (induction "is" arbitrary: xs) auto
  then show ?thesis by (simp add: shift_up_def)
qed

lemma length_shift_down [simp]: "length (shift_down i n xs) = length xs"
proof -
  have "length (fold (\<lambda>i e. e[i := e ! Suc i]) is xs) = length xs" for "is" :: "nat list" and xs :: "'a list"
    by (induction "is" arbitrary: xs) auto
  then show ?thesis by (simp add: shift_down_def)
qed

lemma shift_up_nth:
  assumes "n < length xs" "index \<le> n" "j < length xs"
  shows "shift_up index n xs ! j = (if index < j \<and> j \<le> n then xs ! (j - 1) else xs ! j)"
  using assms
proof (induction n arbitrary: xs)
  case 0
  then show ?case by (simp add: shift_up_def)
next
  case (Suc n)
  show ?case
  proof (cases "index = Suc n")
    case True
    then show ?thesis by (auto simp: shift_up_def)
  next
    case False
    with Suc.prems have le: "index \<le> n" by simp
    let ?ys = "xs[Suc n := xs ! n]"
    have "shift_up index (Suc n) xs = shift_up index n ?ys"
      using le by (simp add: shift_up_def)
    then have "shift_up index (Suc n) xs ! j =
        (if index < j \<and> j \<le> n then ?ys ! (j - 1) else ?ys ! j)"
      using Suc.IH [of ?ys] Suc.prems le by simp
    then show ?thesis
      using Suc.prems le by (auto simp: nth_list_update)
  qed
qed

lemma shift_down_nth:
  assumes "n < length xs" "index \<le> n" "j < length xs"
  shows "shift_down index n xs ! j = (if index \<le> j \<and> j < n then xs ! Suc j else xs ! j)"
  using assms
proof (induction n arbitrary: j)
  case 0
  then show ?case by (simp add: shift_down_def)
next
  case (Suc n)
  show ?case
  proof (cases "index = Suc n")
    case True
    then show ?thesis by (auto simp: shift_down_def)
  next
    case False
    with Suc.prems have le: "index \<le> n" by simp
    let ?ys = "shift_down index n xs"
    have eq: "shift_down index (Suc n) xs = ?ys[n := ?ys ! Suc n]"
      using le by (simp add: shift_down_def)
    show ?thesis
      using Suc.prems le Suc.IH [of j] Suc.IH [of "Suc n"]
      by (auto simp: eq nth_list_update)
  qed
qed

lemma shift_up_insert [vec_simps]:
  assumes "n < length xs" "index \<le> n"
  shows "take (Suc n) ((shift_up index n xs)[index := x]) =
         take index (take n xs) @ x # drop index (take n xs)"
  using assms
  by (intro nth_equalityI)
     (auto simp: shift_up_nth nth_list_update nth_append nth_Cons' less_Suc_eq_le)

lemma shift_down_remove [vec_simps]:
  assumes "n < length xs" "index \<le> n"
  shows "take n (shift_down index n xs) =
         take index (take (Suc n) xs) @ drop (Suc index) (take (Suc n) xs)"
  using assms
  by (intro nth_equalityI) (auto simp: shift_down_nth nth_append)

section \<open>The binary search of the sorted vectors\<close>

text \<open>
  The search loop of \<^verbatim>\<open>sortedInsert\<close>: \<open>gt i\<close> is the test that element \<open>i\<close> is greater than
  the new one. The loop runs while \<^verbatim>\<open>min != max\<close>; it keeps \<open>min \<le> max\<close>, so the test is
  the same as \<open>min < max\<close>.
\<close>

function sorted_position :: "(nat \<Rightarrow> bool) \<Rightarrow> nat \<Rightarrow> nat \<Rightarrow> nat" where
  "sorted_position gt mn mx =
     (if mn < mx then
        (let probe = (mn + mx) div 2 in
         if gt probe then sorted_position gt mn probe
         else sorted_position gt (probe + 1) mx)
      else mn)"
  by pat_completeness auto
termination
  by (relation "measure (\<lambda>(gt, mn, mx). mx - mn)") auto

declare sorted_position.simps [simp del]

lemma sorted_position_bounds:
  assumes "mn \<le> mx"
  shows "mn \<le> sorted_position gt mn mx \<and> sorted_position gt mn mx \<le> mx"
  using assms
proof (induction gt mn mx rule: sorted_position.induct)
  case (1 gt mn mx)
  show ?case
  proof (cases "mn < mx")
    case True
    let ?p = "(mn + mx) div 2"
    have p: "mn \<le> ?p" "?p < mx" using True by auto
    show ?thesis
    proof (cases "gt ?p")
      case g: True
      have "mn \<le> sorted_position gt mn ?p \<and> sorted_position gt mn ?p \<le> ?p"
        using "1.IH"(1) [OF True refl g] p by simp
      then show ?thesis using True g p
        by (subst (1 2) sorted_position.simps) (auto simp: Let_def)
    next
      case g: False
      have "?p + 1 \<le> sorted_position gt (?p + 1) mx \<and> sorted_position gt (?p + 1) mx \<le> mx"
        using "1.IH"(2) [OF True refl g] p by simp
      then show ?thesis using True g p
        by (subst (1 2) sorted_position.simps) (auto simp: Let_def)
    qed
  next
    case False
    then show ?thesis using "1.prems" by (subst (1 2) sorted_position.simps) simp
  qed
qed

text \<open>
  With a monotone test the loop finds the boundary: nothing before the position is greater,
  everything from it on is.
\<close>

lemma sorted_position_split:
  assumes "mn \<le> mx"
    and "\<forall>i j. i \<le> j \<and> j < N \<and> gt i \<longrightarrow> gt j"
    and "\<forall>i < mn. \<not> gt i"
    and "\<forall>i. mx \<le> i \<and> i < N \<longrightarrow> gt i" and "mx \<le> N"
  shows "(\<forall>i < sorted_position gt mn mx. \<not> gt i) \<and>
         (\<forall>i. sorted_position gt mn mx \<le> i \<and> i < N \<longrightarrow> gt i)"
  using assms
proof (induction gt mn mx rule: sorted_position.induct)
  case (1 gt mn mx)
  show ?case
  proof (cases "mn < mx")
    case True
    let ?p = "(mn + mx) div 2"
    have p: "mn \<le> ?p" "?p < mx" using True by auto
    show ?thesis
    proof (cases "gt ?p")
      case g: True
      have eq: "sorted_position gt mn mx = sorted_position gt mn ?p"
        using True g by (subst sorted_position.simps) (simp add: Let_def)
      have "\<forall>i. ?p \<le> i \<and> i < N \<longrightarrow> gt i"
        using "1.prems"(2) g by blast
      moreover have "?p \<le> N" using p "1.prems"(5) by simp
      ultimately show ?thesis
        unfolding eq using "1.IH"(1) [OF True refl g p(1) "1.prems"(2,3)] by blast
    next
      case g: False
      have eq: "sorted_position gt mn mx = sorted_position gt (?p + 1) mx"
        using True g by (subst sorted_position.simps) (simp add: Let_def)
      have "?p < N" using p "1.prems"(5) by simp
      then have "\<forall>i < ?p + 1. \<not> gt i"
        using "1.prems"(2) g by (metis Suc_eq_plus1 less_Suc_eq_le)
      moreover have "?p + 1 \<le> mx" using p by simp
      ultimately show ?thesis
        unfolding eq using "1.IH"(2) [OF True refl g _ "1.prems"(2) _ "1.prems"(4,5)] by blast
    qed
  next
    case False
    then have "sorted_position gt mn mx = mn" "mn = mx"
      using "1.prems" by (simp_all add: sorted_position.simps)
    then show ?thesis using "1.prems" by auto
  qed
qed

section \<open>Lists\<close>

lemma sorted_insert_at:
  fixes xs :: "'a::linorder list"
  assumes "sorted xs" "k \<le> length xs"
    and "\<And>i. i < k \<Longrightarrow> xs ! i \<le> x" and "\<And>i. k \<le> i \<Longrightarrow> i < length xs \<Longrightarrow> x \<le> xs ! i"
  shows "sorted (take k xs @ x # drop k xs)"
proof -
  have "\<And>y. y \<in> set (take k xs) \<Longrightarrow> y \<le> x"
    using assms by (auto simp: in_set_conv_nth)
  moreover have "\<And>y. y \<in> set (drop k xs) \<Longrightarrow> x \<le> y"
    using assms by (auto simp: in_set_conv_nth)
  ultimately show ?thesis
    using assms(1) by (fastforce simp: sorted_append intro: sorted_wrt_take sorted_wrt_drop)
qed

lemma mset_insert_at:
  "mset (take k xs @ x # drop k xs) = add_mset x (mset xs)"
  by (metis append_take_drop_id mset.simps(2) mset_append union_mset_add_mset_right)

section \<open>Enumeration\<close>

text \<open>All items a loop \<^verbatim>\<open>while(it.next())\<close> sees, and whether it ended, within the given number of calls.\<close>

fun drain :: "('s \<Rightarrow> bool \<times> 's) \<Rightarrow> ('s \<Rightarrow> 'a) \<Rightarrow> nat \<Rightarrow> 's \<Rightarrow> 'a list \<times> bool" where
  "drain step item 0 s = ([], False)"
| "drain step item (Suc n) s =
     (case step s of (found, s') \<Rightarrow>
        if found then (case drain step item n s' of (xs, fin) \<Rightarrow> (item s' # xs, fin)) else ([], True))"

locale enumerator =
  fixes ok :: "'s \<Rightarrow> bool" and todo :: "'s \<Rightarrow> 'a list" and step :: "'s \<Rightarrow> bool \<times> 's" and item :: "'s \<Rightarrow> 'a"
  assumes step_more: "ok s \<Longrightarrow> todo s = x # xs \<Longrightarrow> \<exists>s'. step s = (True, s') \<and> ok s' \<and> item s' = x \<and> todo s' = xs"
    and step_end: "ok s \<Longrightarrow> todo s = [] \<Longrightarrow> \<exists>s'. step s = (False, s') \<and> ok s' \<and> todo s' = []"
begin

lemma drain_todo:
  "ok s \<Longrightarrow> length (todo s) < n \<Longrightarrow> drain step item n s = (todo s, True)"
proof (induction n arbitrary: s)
  case (Suc n)
  show ?case
  proof (cases "todo s")
    case Nil
    then show ?thesis using step_end [OF Suc.prems(1)] by auto
  next
    case (Cons x xs)
    then obtain s' where "step s = (True, s')" "ok s'" "item s' = x" "todo s' = xs" using step_more [OF Suc.prems(1)] by blast
    then show ?thesis using Suc.IH [of s'] Suc.prems(2) Cons by simp
  qed
qed simp

end

end
