(* ===== verification/InversionList.thy ===== *)
theory InversionList
  imports Prelude
begin

text \<open>
  Inversion lists: the representation of a set of code points in \<^verbatim>\<open>common/uniset.cpp\<close>, and its
  three merge loops (\<^verbatim>\<open>exclusiveOr\<close>, \<^verbatim>\<open>add\<close>, \<^verbatim>\<open>retain\<close>) and binary search (\<^verbatim>\<open>findCodePoint\<close>).
  A list \<open>[start\<^sub>0, limit\<^sub>0, start\<^sub>1, limit\<^sub>1, \<dots>, HIGH]\<close> in ascending order holds the code points
  at which membership changes.
\<close>

section \<open>The representation\<close>

definition UNICODESET_HIGH :: int where
  "UNICODESET_HIGH = 0x110000"

definition UNICODESET_LOW :: int where
  "UNICODESET_LOW = 0"

text \<open>
  \<open>inside c l\<close>: an odd number of entries is at most \<open>c\<close>. This is the meaning of the list for
  every \<open>c\<close>, ascending or not, and it is additive over append.
\<close>

fun inside :: "int \<Rightarrow> int list \<Rightarrow> bool" where
  "inside c [] = False"
| "inside c (x # xs) = ((x \<le> c) \<noteq> inside c xs)"

definition inv_set :: "int list \<Rightarrow> int set" where
  "inv_set l = {c. UNICODESET_LOW \<le> c \<and> c < UNICODESET_HIGH \<and> inside c l}"

definition ilist :: "int list \<Rightarrow> bool" where
  "ilist l \<longleftrightarrow> l \<noteq> [] \<and> last l = UNICODESET_HIGH \<and> sorted_wrt (<) l \<and> UNICODESET_LOW \<le> hd l"

lemma inside_append [simp]: "inside c (xs @ ys) = (inside c xs \<noteq> inside c ys)"
  by (induction xs) auto

lemma inside_rev [simp]: "inside c (rev xs) = inside c xs"
  by (induction xs) auto

lemma inside_lower: "inside c xs \<Longrightarrow> \<forall>x \<in> set xs. m < x \<Longrightarrow> m < c"
  by (induction xs) (auto split: if_splits)

lemma inside_lower_le: "inside c xs \<Longrightarrow> \<forall>x \<in> set xs. m \<le> x \<Longrightarrow> m \<le> c"
  by (induction xs) (auto split: if_splits)

lemma inside_above: "\<forall>x \<in> set xs. x \<le> c \<Longrightarrow> inside c xs \<longleftrightarrow> odd (length xs)"
  by (induction xs) auto

lemma inside_take:
  "sorted_wrt (<) l \<Longrightarrow> i \<le> length l \<Longrightarrow> (\<And>j. j < i \<Longrightarrow> l ! j \<le> c) \<Longrightarrow>
     (\<And>j. i \<le> j \<Longrightarrow> j < length l \<Longrightarrow> c < l ! j) \<Longrightarrow> inside c l \<longleftrightarrow> odd i"
proof -
  assume a: "sorted_wrt (<) l" "i \<le> length l" "\<And>j. j < i \<Longrightarrow> l ! j \<le> c"
    "\<And>j. i \<le> j \<Longrightarrow> j < length l \<Longrightarrow> c < l ! j"
  have "\<forall>x \<in> set (take i l). x \<le> c" "\<forall>x \<in> set (drop i l). c < x"
    using a by (auto simp: in_set_conv_nth)
  then have "inside c (take i l) \<longleftrightarrow> odd i" "\<not> inside c (drop i l)"
    using inside_above [of "take i l" c] inside_lower [of c "drop i l" c] a(2) by auto
  then show ?thesis by (metis inside_append append_take_drop_id)
qed

section \<open>The merge loops\<close>

text \<open>
  The state of a merge loop. The index variables \<open>i\<close> and \<open>j\<close> of the code only move forward by
  one, so the entries still to be read are kept as lists: \<open>a\<close> is the current entry of
  \<^verbatim>\<open>list\<close> and \<open>xs\<close> is \<^verbatim>\<open>list[i..]\<close>, \<open>b\<close> and \<open>ys\<close> the same of \<^verbatim>\<open>other\<close>. \<open>buf\<close> is
  \<^verbatim>\<open>buffer[0..k-1]\<close> with the last entry first. A read past the end of an array is
  \<open>OutOfBounds\<close>.
\<close>

datatype mstate = MS (polarity: nat) int "int list" int "int list" "int list"

datatype mresult = Continue mstate | Finish "int list" | OutOfBounds

partial_function (option) merge_loop :: "(mstate \<Rightarrow> mresult) \<Rightarrow> mstate \<Rightarrow> int list option" where
  "merge_loop body s =
     (case body s of
        Continue s' \<Rightarrow> merge_loop body s'
      | Finish buf \<Rightarrow> Some (rev (UNICODESET_HIGH # buf))
      | OutOfBounds \<Rightarrow> None)"

fun exclusiveOr_body :: "mstate \<Rightarrow> mresult" where
  "exclusiveOr_body (MS p a xs b ys buf) =
     (if a < b then
        (case xs of x # xs' \<Rightarrow> Continue (MS p x xs' b ys (a # buf)) | [] \<Rightarrow> OutOfBounds)
      else if b < a then
        (case ys of y # ys' \<Rightarrow> Continue (MS p a xs y ys' (b # buf)) | [] \<Rightarrow> OutOfBounds)
      else if a \<noteq> UNICODESET_HIGH then
        (case (xs, ys) of (x # xs', y # ys') \<Rightarrow> Continue (MS p x xs' y ys' buf) | _ \<Rightarrow> OutOfBounds)
      else Finish buf)"

text \<open>
  In the union loop, \<open>overlaps a buf\<close> is the test \<^verbatim>\<open>k > 0 && a <= buffer[k-1]\<close>; when it holds
  the loop takes back the last limit it wrote and continues that range.
\<close>

definition overlaps :: "int \<Rightarrow> int list \<Rightarrow> bool" where
  "overlaps a buf \<longleftrightarrow> buf \<noteq> [] \<and> a \<le> hd buf"

fun add_body :: "mstate \<Rightarrow> mresult" where
  "add_body (MS p a xs b ys buf) =
     (if p = 0 then \<comment> \<open>both first; take lower if unequal\<close>
        (if a < b then
           (case xs of
              x # xs' \<Rightarrow>
                if overlaps a buf then Continue (MS 1 (max x (hd buf)) xs' b ys (tl buf))
                else Continue (MS 1 x xs' b ys (a # buf))
            | [] \<Rightarrow> OutOfBounds)
         else if b < a then
           (case ys of
              y # ys' \<Rightarrow>
                if overlaps b buf then Continue (MS 2 a xs (max y (hd buf)) ys' (tl buf))
                else Continue (MS 2 a xs y ys' (b # buf))
            | [] \<Rightarrow> OutOfBounds)
         else if a = UNICODESET_HIGH then Finish buf
         else
           (case (xs, ys) of
              (x # xs', y # ys') \<Rightarrow>
                if overlaps a buf then Continue (MS 3 (max x (hd buf)) xs' y ys' (tl buf))
                else Continue (MS 3 x xs' y ys' (a # buf))
            | _ \<Rightarrow> OutOfBounds))
      else if p = 3 then \<comment> \<open>both second; take higher if unequal, and drop other\<close>
        (if b \<le> a then
           (if a = UNICODESET_HIGH then Finish buf
            else case (xs, ys) of (x # xs', y # ys') \<Rightarrow> Continue (MS 0 x xs' y ys' (a # buf)) | _ \<Rightarrow> OutOfBounds)
         else
           (if b = UNICODESET_HIGH then Finish buf
            else case (xs, ys) of (x # xs', y # ys') \<Rightarrow> Continue (MS 0 x xs' y ys' (b # buf)) | _ \<Rightarrow> OutOfBounds))
      else if p = 1 then \<comment> \<open>a second, b first; if b < a, overlap\<close>
        (if a < b then
           (case xs of x # xs' \<Rightarrow> Continue (MS 0 x xs' b ys (a # buf)) | [] \<Rightarrow> OutOfBounds)
         else if b < a then
           (case ys of y # ys' \<Rightarrow> Continue (MS 3 a xs y ys' buf) | [] \<Rightarrow> OutOfBounds)
         else if a = UNICODESET_HIGH then Finish buf
         else
           (case (xs, ys) of (x # xs', y # ys') \<Rightarrow> Continue (MS 2 x xs' y ys' buf) | _ \<Rightarrow> OutOfBounds))
      else \<comment> \<open>a first, b second; if a < b, overlap\<close>
        (if b < a then
           (case ys of y # ys' \<Rightarrow> Continue (MS 0 a xs y ys' (b # buf)) | [] \<Rightarrow> OutOfBounds)
         else if a < b then
           (case xs of x # xs' \<Rightarrow> Continue (MS 3 x xs' b ys buf) | [] \<Rightarrow> OutOfBounds)
         else if a = UNICODESET_HIGH then Finish buf
         else
           (case (xs, ys) of (x # xs', y # ys') \<Rightarrow> Continue (MS 1 x xs' y ys' buf) | _ \<Rightarrow> OutOfBounds)))"

fun retain_body :: "mstate \<Rightarrow> mresult" where
  "retain_body (MS p a xs b ys buf) =
     (if p = 0 then \<comment> \<open>both first; drop the smaller\<close>
        (if a < b then
           (case xs of x # xs' \<Rightarrow> Continue (MS 1 x xs' b ys buf) | [] \<Rightarrow> OutOfBounds)
         else if b < a then
           (case ys of y # ys' \<Rightarrow> Continue (MS 2 a xs y ys' buf) | [] \<Rightarrow> OutOfBounds)
         else if a = UNICODESET_HIGH then Finish buf
         else
           (case (xs, ys) of (x # xs', y # ys') \<Rightarrow> Continue (MS 3 x xs' y ys' (a # buf)) | _ \<Rightarrow> OutOfBounds))
      else if p = 3 then \<comment> \<open>both second; take lower if unequal\<close>
        (if a < b then
           (case xs of x # xs' \<Rightarrow> Continue (MS 2 x xs' b ys (a # buf)) | [] \<Rightarrow> OutOfBounds)
         else if b < a then
           (case ys of y # ys' \<Rightarrow> Continue (MS 1 a xs y ys' (b # buf)) | [] \<Rightarrow> OutOfBounds)
         else if a = UNICODESET_HIGH then Finish buf
         else
           (case (xs, ys) of (x # xs', y # ys') \<Rightarrow> Continue (MS 0 x xs' y ys' (a # buf)) | _ \<Rightarrow> OutOfBounds))
      else if p = 1 then \<comment> \<open>a second, b first\<close>
        (if a < b then
           (case xs of x # xs' \<Rightarrow> Continue (MS 0 x xs' b ys buf) | [] \<Rightarrow> OutOfBounds)
         else if b < a then
           (case ys of y # ys' \<Rightarrow> Continue (MS 3 a xs y ys' (b # buf)) | [] \<Rightarrow> OutOfBounds)
         else if a = UNICODESET_HIGH then Finish buf
         else
           (case (xs, ys) of (x # xs', y # ys') \<Rightarrow> Continue (MS 2 x xs' y ys' buf) | _ \<Rightarrow> OutOfBounds))
      else \<comment> \<open>a first, b second; if a < b, overlap\<close>
        (if b < a then
           (case ys of y # ys' \<Rightarrow> Continue (MS 0 a xs y ys' buf) | [] \<Rightarrow> OutOfBounds)
         else if a < b then
           (case xs of x # xs' \<Rightarrow> Continue (MS 3 x xs' b ys (a # buf)) | [] \<Rightarrow> OutOfBounds)
         else if a = UNICODESET_HIGH then Finish buf
         else
           (case (xs, ys) of (x # xs', y # ys') \<Rightarrow> Continue (MS 1 x xs' y ys' buf) | _ \<Rightarrow> OutOfBounds)))"

text \<open>
  The three routines on the arrays. \<^verbatim>\<open>exclusiveOr\<close> with polarity 1 or 2 is meant to complement
  \<^verbatim>\<open>other\<close>: it starts with an extra \<^verbatim>\<open>LOW\<close>, or skips the first entry if that is already
  \<^verbatim>\<open>LOW\<close>. In that case the code sets \<^verbatim>\<open>b = other[j]\<close> without moving \<^verbatim>\<open>j\<close> past it.
\<close>

definition exclusiveOr_lists :: "int list \<Rightarrow> int list \<Rightarrow> nat \<Rightarrow> int list option" where
  "exclusiveOr_lists list other pol =
     (case (list, other) of
        (a # xs, b # ys) \<Rightarrow>
          if pol = 1 \<or> pol = 2 then
            (if b = UNICODESET_LOW then
               (case ys of
                  b' # ys' \<Rightarrow> merge_loop exclusiveOr_body (MS pol a xs b' (b' # ys') [])
                | [] \<Rightarrow> None)
             else merge_loop exclusiveOr_body (MS pol a xs UNICODESET_LOW (b # ys) []))
          else merge_loop exclusiveOr_body (MS pol a xs b ys [])
      | _ \<Rightarrow> None)"

definition add_lists :: "int list \<Rightarrow> int list \<Rightarrow> nat \<Rightarrow> int list option" where
  "add_lists list other pol =
     (case (list, other) of (a # xs, b # ys) \<Rightarrow> merge_loop add_body (MS pol a xs b ys []) | _ \<Rightarrow> None)"

definition retain_lists :: "int list \<Rightarrow> int list \<Rightarrow> nat \<Rightarrow> int list option" where
  "retain_lists list other pol =
     (case (list, other) of (a # xs, b # ys) \<Rightarrow> merge_loop retain_body (MS pol a xs b ys []) | _ \<Rightarrow> None)"

section \<open>Total correctness of a merge loop\<close>

fun remaining :: "mstate \<Rightarrow> nat" where
  "remaining (MS p a xs b ys buf) = length xs + length ys"

lemma merge_loop_total:
  assumes "I s"
    and "\<And>s. I s \<Longrightarrow> case body s of
           Continue s' \<Rightarrow> I s' \<and> remaining s' < remaining s
         | Finish buf \<Rightarrow> P (rev (UNICODESET_HIGH # buf))
         | OutOfBounds \<Rightarrow> False"
  shows "\<exists>r. merge_loop body s = Some r \<and> P r"
  using assms(1)
proof (induction s rule: measure_induct_rule [of remaining])
  case (less s)
  from assms(2) [OF less.prems] less.IH show ?case
    by (subst merge_loop.simps) (auto split: mresult.splits)
qed

text \<open>
  What a merge loop needs of an array: ascending up to the first \<^verbatim>\<open>HIGH\<close>. An array may have
  further \<^verbatim>\<open>HIGH\<close> entries behind it, as \<^verbatim>\<open>{ start, end+1, HIGH }\<close> has when \<^verbatim>\<open>end\<close> is the last
  code point; they are never read.
\<close>

fun asc :: "int list \<Rightarrow> bool" where
  "asc [] = False"
| "asc (a # xs) =
     (if a = UNICODESET_HIGH then \<forall>x \<in> set xs. x = UNICODESET_HIGH
      else 0 \<le> a \<and> a < UNICODESET_HIGH \<and> asc xs \<and> (\<forall>x \<in> set xs. a < x))"

lemma asc_bounds: "asc l \<Longrightarrow> \<forall>x \<in> set l. 0 \<le> x \<and> x \<le> UNICODESET_HIGH"
  by (induction l) (auto simp: UNICODESET_HIGH_def split: if_splits)

lemma asc_hd: "asc (a # xs) \<Longrightarrow> 0 \<le> a \<and> a \<le> UNICODESET_HIGH"
  using asc_bounds [of "a # xs"] by (simp del: asc.simps)

lemma ilist_tl: "ilist (a # l) \<Longrightarrow> l \<noteq> [] \<Longrightarrow> ilist l \<and> 0 \<le> a \<and> a < UNICODESET_HIGH"
proof -
  assume il: "ilist (a # l)" "l \<noteq> []"
  have "last l \<in> set l" using il(2) by (rule last_in_set)
  moreover have "last l = UNICODESET_HIGH" using il by (simp add: ilist_def)
  ultimately have "a < UNICODESET_HIGH" using il by (auto simp: ilist_def)
  moreover have "hd l \<in> set l" using il(2) by simp
  then have "a < hd l" using il(1) by (simp add: ilist_def)
  moreover have "0 \<le> a" using il(1) by (simp add: ilist_def UNICODESET_LOW_def)
  with \<open>a < hd l\<close> have "0 \<le> hd l" by linarith
  ultimately show ?thesis using il by (auto simp: ilist_def UNICODESET_LOW_def)
qed

lemma ilist_asc: "ilist l \<Longrightarrow> asc l"
proof (induction l)
  case (Cons a l)
  show ?case
  proof (cases "l = []")
    case True
    then show ?thesis using Cons.prems by (simp add: ilist_def)
  next
    case False
    from ilist_tl [OF Cons.prems False] Cons.IH Cons.prems show ?thesis
      by (auto simp: ilist_def)
  qed
qed (simp add: ilist_def)

lemma inside_HIGH:
  "\<forall>x \<in> set xs. x = UNICODESET_HIGH \<Longrightarrow> c < UNICODESET_HIGH \<Longrightarrow> \<not> inside c xs"
  by (induction xs) auto

lemma asc_next:
  assumes "asc (a # xs)" "a \<noteq> UNICODESET_HIGH"
  obtains x xs' where "xs = x # xs'" "asc (x # xs')" "a < x"
  using assms by (cases xs) (auto split: if_splits)

lemma asc_end: "asc (UNICODESET_HIGH # xs) \<Longrightarrow> c < UNICODESET_HIGH \<Longrightarrow> \<not> inside c (UNICODESET_HIGH # xs)"
  using inside_HIGH [of "UNICODESET_HIGH # xs" c] by simp

lemma asc_le: "asc (a # xs) \<Longrightarrow> \<forall>z \<in> set xs. a \<le> z"
  by (auto split: if_splits)

lemma asc_inside: "asc (a # xs) \<Longrightarrow> inside c (a # xs) \<Longrightarrow> a \<le> c"
  using asc_le inside_lower_le [of c "a # xs" a] by (simp del: asc.simps inside.simps)

declare asc.simps [simp del]

text \<open>The part of the buffer already written.\<close>

definition buf_ok :: "int list \<Rightarrow> bool" where
  "buf_ok buf \<longleftrightarrow> sorted_wrt (>) buf \<and> (\<forall>z \<in> set buf. 0 \<le> z \<and> z < UNICODESET_HIGH)"

lemma buf_ok_ilist: "buf_ok buf \<Longrightarrow> ilist (rev (UNICODESET_HIGH # buf))"
proof -
  assume b: "buf_ok buf"
  have "sorted_wrt (<) (rev buf)" using b by (simp add: buf_ok_def sorted_wrt_rev)
  moreover have "hd (rev buf @ [UNICODESET_HIGH]) \<ge> 0"
    using b by (cases "rev buf") (auto simp: buf_ok_def UNICODESET_HIGH_def dest: arg_cong [of _ _ set])
  ultimately show ?thesis
    using b by (auto simp: ilist_def buf_ok_def sorted_wrt_append UNICODESET_LOW_def)
qed

abbreviation legal :: "int \<Rightarrow> bool" where
  "legal c \<equiv> 0 \<le> c \<and> c < UNICODESET_HIGH"

subsection \<open>Symmetric difference\<close>

fun xor_inv :: "(int \<Rightarrow> bool) \<Rightarrow> mstate \<Rightarrow> bool" where
  "xor_inv T (MS p a xs b ys buf) \<longleftrightarrow>
     asc (a # xs) \<and> asc (b # ys) \<and> buf_ok buf \<and> (\<forall>z \<in> set buf. z < a \<and> z < b) \<and>
     (\<forall>c. legal c \<longrightarrow> (inside c buf \<noteq> (inside c (a # xs) \<noteq> inside c (b # ys))) = T c)"

lemma xor_step:
  assumes "xor_inv T s"
  shows "case exclusiveOr_body s of
           Continue s' \<Rightarrow> xor_inv T s' \<and> remaining s' < remaining s
         | Finish buf \<Rightarrow> buf_ok buf \<and> (\<forall>c. legal c \<longrightarrow> inside c buf = T c)
         | OutOfBounds \<Rightarrow> False"
proof (cases s)
  case (MS p a xs b ys buf)
  then have A: "asc (a # xs)" "asc (b # ys)" "buf_ok buf" "\<forall>z \<in> set buf. z < a \<and> z < b"
    and S: "\<forall>c. legal c \<longrightarrow> (inside c buf \<noteq> (inside c (a # xs) \<noteq> inside c (b # ys))) = T c"
    using assms unfolding MS xor_inv.simps by blast+
  then have bounds: "0 \<le> a" "a \<le> UNICODESET_HIGH" "0 \<le> b" "b \<le> UNICODESET_HIGH"
    using asc_hd by blast+
  consider "a < b" | "b < a" | "a = b" "a \<noteq> UNICODESET_HIGH" | "a = b" "a = UNICODESET_HIGH"
    by linarith
  then show ?thesis
  proof cases
    case 1
    with bounds have "a \<noteq> UNICODESET_HIGH" by linarith
    from asc_next [OF A(1) this] obtain x xs' where
      xs: "xs = x # xs'" "asc (x # xs')" "a < x" by blast
    have "(inside c (a # buf) \<noteq> (inside c xs \<noteq> inside c (b # ys))) =
          (inside c buf \<noteq> (inside c (a # xs) \<noteq> inside c (b # ys)))" for c by auto
    moreover have "\<forall>z \<in> set (a # buf). z < x \<and> z < b" "buf_ok (a # buf)"
      using A 1 bounds xs by (auto simp: buf_ok_def)
    ultimately show ?thesis using A S 1 xs by (simp add: MS del: inside.simps)
  next
    case 2
    with bounds have "b \<noteq> UNICODESET_HIGH" by linarith
    from asc_next [OF A(2) this] obtain y ys' where
      ys: "ys = y # ys'" "asc (y # ys')" "b < y" by blast
    have "(inside c (b # buf) \<noteq> (inside c (a # xs) \<noteq> inside c ys)) =
          (inside c buf \<noteq> (inside c (a # xs) \<noteq> inside c (b # ys)))" for c by auto
    moreover have "\<forall>z \<in> set (b # buf). z < a \<and> z < y" "buf_ok (b # buf)"
      using A 2 bounds ys by (auto simp: buf_ok_def)
    ultimately show ?thesis using A S 2 ys by (simp add: MS del: inside.simps)
  next
    case 3
    then have "a \<noteq> UNICODESET_HIGH" "b \<noteq> UNICODESET_HIGH" by auto
    from asc_next [OF A(1) this(1)] asc_next [OF A(2) this(2)] obtain x xs' y ys' where
      l: "xs = x # xs'" "asc (x # xs')" "a < x" "ys = y # ys'" "asc (y # ys')" "b < y" by metis
    have "(inside c buf \<noteq> (inside c xs \<noteq> inside c ys)) =
          (inside c buf \<noteq> (inside c (a # xs) \<noteq> inside c (b # ys)))" for c using 3 by auto
    moreover have "\<forall>z \<in> set buf. z < x \<and> z < y" using A l by auto
    ultimately show ?thesis using A S 3 l by (simp add: MS del: inside.simps)
  next
    case 4
    then have "\<not> inside c (a # xs) \<and> \<not> inside c (b # ys)" if "legal c" for c
      using A(1,2) that asc_end by simp
    then show ?thesis using 4 A S by (simp add: MS del: inside.simps)
  qed
qed


lemma inv_set_result:
  assumes "buf_ok buf" "\<And>c. legal c \<Longrightarrow> inside c buf = T c"
  shows "ilist (rev (UNICODESET_HIGH # buf)) \<and> inv_set (rev (UNICODESET_HIGH # buf)) = {c. legal c \<and> T c}"
  using assms buf_ok_ilist [OF assms(1)]
  by (auto simp: inv_set_def UNICODESET_LOW_def)

lemma merge_correct:
  assumes "I (MS p a xs b ys [])"
    and "\<And>s. I s \<Longrightarrow> case body s of
           Continue s' \<Rightarrow> I s' \<and> remaining s' < remaining s
         | Finish buf \<Rightarrow> buf_ok buf \<and> (\<forall>c. legal c \<longrightarrow> inside c buf = T c)
         | OutOfBounds \<Rightarrow> False"
  shows "\<exists>r. merge_loop body (MS p a xs b ys []) = Some r \<and> ilist r \<and> inv_set r = {c. legal c \<and> T c}"
proof (rule merge_loop_total [of I])
  fix s assume "I s"
  from assms(2) [OF this] show "case body s of
           Continue s' \<Rightarrow> I s' \<and> remaining s' < remaining s
         | Finish buf \<Rightarrow> ilist (rev (UNICODESET_HIGH # buf)) \<and>
             inv_set (rev (UNICODESET_HIGH # buf)) = {c. legal c \<and> T c}
         | OutOfBounds \<Rightarrow> False"
    using inv_set_result by (auto split: mresult.splits)
qed (rule assms(1))

lemma asc_Cons: "asc l \<Longrightarrow> \<exists>a xs. l = a # xs"
  by (cases l) (auto simp: asc.simps)

lemma buf_ok_Nil [simp]: "buf_ok []"
  by (simp add: buf_ok_def)

lemma exclusiveOr_lists_correct:
  assumes "asc l" "asc other"
  shows "\<exists>r. exclusiveOr_lists l other 0 = Some r \<and> ilist r \<and>
             inv_set r = (inv_set l - inv_set other) \<union> (inv_set other - inv_set l)"
proof -
  obtain a xs b ys where l: "l = a # xs" "other = b # ys" using assms asc_Cons by metis
  let ?T = "\<lambda>c. inside c (a # xs) \<noteq> inside c (b # ys)"
  have "xor_inv ?T (MS 0 a xs b ys [])" using assms l by simp
  then have "\<exists>r. merge_loop exclusiveOr_body (MS 0 a xs b ys []) = Some r \<and> ilist r \<and>
      inv_set r = {c. legal c \<and> ?T c}"
    by (rule merge_correct) (rule xor_step)
  then show ?thesis
    unfolding l exclusiveOr_lists_def inv_set_def UNICODESET_LOW_def by (auto simp del: inside.simps)
qed

subsection \<open>Intersection and difference\<close>

text \<open>
  The polarity has one bit per list that says whether the current entry is a limit. All sixteen
  branches of the retain loop follow one rule: an entry is written iff it changes the
  conjunction of the two bits.
\<close>

definition flip_a :: "nat \<Rightarrow> nat" where
  "flip_a p = (if odd p then p - 1 else p + 1)"

definition flip_b :: "nat \<Rightarrow> nat" where
  "flip_b p = (if 2 \<le> p then p - 2 else p + 2)"

lemma flip_simps:
  "p < 4 \<Longrightarrow> flip_a p < 4" "p < 4 \<Longrightarrow> flip_b p < 4"
  "p < 4 \<Longrightarrow> odd (flip_a p) = even p" "p < 4 \<Longrightarrow> 2 \<le> flip_a p \<longleftrightarrow> 2 \<le> p"
  "p < 4 \<Longrightarrow> odd (flip_b p) = odd p" "p < 4 \<Longrightarrow> 2 \<le> flip_b p \<longleftrightarrow> \<not> 2 \<le> p"
  unfolding flip_a_def flip_b_def by (auto, presburger+)

lemma retain_body_eq:
  "p < 4 \<Longrightarrow> retain_body (MS p a xs b ys buf) =
     (if a < b then
        (case xs of x # xs' \<Rightarrow> Continue (MS (flip_a p) x xs' b ys (if 2 \<le> p then a # buf else buf))
         | [] \<Rightarrow> OutOfBounds)
      else if b < a then
        (case ys of y # ys' \<Rightarrow> Continue (MS (flip_b p) a xs y ys' (if odd p then b # buf else buf))
         | [] \<Rightarrow> OutOfBounds)
      else if a = UNICODESET_HIGH then Finish buf
      else
        (case (xs, ys) of
           (x # xs', y # ys') \<Rightarrow>
              Continue (MS (flip_a (flip_b p)) x xs' y ys' (if odd p = (2 \<le> p) then a # buf else buf))
         | _ \<Rightarrow> OutOfBounds))"
proof -
  assume "p < 4"
  then consider "p = 0" | "p = 1" | "p = 2" | "p = 3" by linarith
  then show ?thesis
    by cases (auto simp: flip_a_def flip_b_def split: list.splits)
qed

fun retain_inv :: "(int \<Rightarrow> bool) \<Rightarrow> mstate \<Rightarrow> bool" where
  "retain_inv T (MS p a xs b ys buf) \<longleftrightarrow>
     p < 4 \<and> asc (a # xs) \<and> asc (b # ys) \<and> buf_ok buf \<and> (\<forall>z \<in> set buf. z < a \<and> z < b) \<and>
     (\<forall>c. legal c \<longrightarrow>
        (inside c buf \<noteq>
           ((odd p \<and> 2 \<le> p) \<noteq> ((odd p \<noteq> inside c (a # xs)) \<and> ((2 \<le> p) \<noteq> inside c (b # ys))))) = T c)"

lemma asc_not_inside: "asc (a # xs) \<Longrightarrow> c < a \<Longrightarrow> \<not> inside c (a # xs)"
  using asc_inside [of a xs c] by auto

lemma retain_step:
  assumes "retain_inv T s"
  shows "case retain_body s of
           Continue s' \<Rightarrow> retain_inv T s' \<and> remaining s' < remaining s
         | Finish buf \<Rightarrow> buf_ok buf \<and> (\<forall>c. legal c \<longrightarrow> inside c buf = T c)
         | OutOfBounds \<Rightarrow> False"
proof (cases s)
  case (MS p a xs b ys buf)
  then have A: "p < 4" "asc (a # xs)" "asc (b # ys)" "buf_ok buf" "\<forall>z \<in> set buf. z < a \<and> z < b"
    and S: "\<forall>c. legal c \<longrightarrow> (inside c buf \<noteq>
           ((odd p \<and> 2 \<le> p) \<noteq> ((odd p \<noteq> inside c (a # xs)) \<and> ((2 \<le> p) \<noteq> inside c (b # ys))))) = T c"
    using assms unfolding MS retain_inv.simps by blast+
  then have bounds: "0 \<le> a" "a \<le> UNICODESET_HIGH" "0 \<le> b" "b \<le> UNICODESET_HIGH"
    using asc_hd by blast+
  have out: "c < a \<Longrightarrow> \<not> inside c (a # xs)" "c < b \<Longrightarrow> \<not> inside c (b # ys)" for c
    using A asc_not_inside by blast+
  note body = retain_body_eq [OF A(1)] flip_simps [OF A(1)]
  consider "a < b" | "b < a" | "a = b" "a \<noteq> UNICODESET_HIGH" | "a = b" "a = UNICODESET_HIGH"
    by linarith
  then show ?thesis
  proof cases
    case 1
    with bounds have "a \<noteq> UNICODESET_HIGH" by linarith
    from asc_next [OF A(2) this] obtain x xs' where
      xs: "xs = x # xs'" "asc (x # xs')" "a < x" by blast
    let ?buf = "if 2 \<le> p then a # buf else buf"
    have "c < a \<Longrightarrow> \<not> inside c xs" for c using asc_not_inside xs by force
    then have "(inside c ?buf \<noteq>
         ((even p \<and> 2 \<le> p) \<noteq> ((even p \<noteq> inside c xs) \<and> ((2 \<le> p) \<noteq> inside c (b # ys))))) = T c"
      if "legal c" for c using S [rule_format, OF that] out [of c] 1 by (cases "c < a") auto
    moreover have "\<forall>z \<in> set ?buf. z < x \<and> z < b" "buf_ok ?buf"
      using A 1 bounds xs by (auto simp: buf_ok_def)
    ultimately show ?thesis using A 1 xs by (simp add: MS body del: inside.simps retain_body.simps)
  next
    case 2
    with bounds have "b \<noteq> UNICODESET_HIGH" by linarith
    from asc_next [OF A(3) this] obtain y ys' where
      ys: "ys = y # ys'" "asc (y # ys')" "b < y" by blast
    let ?buf = "if odd p then b # buf else buf"
    have "c < b \<Longrightarrow> \<not> inside c ys" for c using asc_not_inside ys by force
    then have "(inside c ?buf \<noteq>
         ((odd p \<and> \<not> 2 \<le> p) \<noteq> ((odd p \<noteq> inside c (a # xs)) \<and> ((\<not> 2 \<le> p) \<noteq> inside c ys)))) = T c"
      if "legal c" for c using S [rule_format, OF that] out [of c] 2 by (cases "c < b") auto
    moreover have "\<forall>z \<in> set ?buf. z < a \<and> z < y" "buf_ok ?buf"
      using A 2 bounds ys by (auto simp: buf_ok_def)
    ultimately show ?thesis using A 2 ys by (simp add: MS body del: inside.simps retain_body.simps)
  next
    case 3
    then have "a \<noteq> UNICODESET_HIGH" "b \<noteq> UNICODESET_HIGH" by auto
    from asc_next [OF A(2) this(1)] asc_next [OF A(3) this(2)] obtain x xs' y ys' where
      l: "xs = x # xs'" "asc (x # xs')" "a < x" "ys = y # ys'" "asc (y # ys')" "b < y" by metis
    let ?buf = "if odd p = (2 \<le> p) then b # buf else buf"
    have "c < a \<Longrightarrow> \<not> inside c xs \<and> \<not> inside c ys" for c using asc_not_inside l 3 by force
    then have "(inside c ?buf \<noteq>
         ((even p \<and> \<not> 2 \<le> p) \<noteq> ((even p \<noteq> inside c xs) \<and> ((\<not> 2 \<le> p) \<noteq> inside c ys)))) = T c"
      if "legal c" for c using S [rule_format, OF that] out [of c] 3 by (cases "c < a") auto
    moreover have "\<forall>z \<in> set ?buf. z < x \<and> z < y" "buf_ok ?buf"
      using A 3 bounds l by (auto simp: buf_ok_def)
    ultimately show ?thesis using A 3 l body(2-) flip_simps [of "flip_b p"]
      by (simp add: MS body(1) del: inside.simps retain_body.simps split del: if_split)
  next
    case 4
    then have "\<not> inside c (a # xs) \<and> \<not> inside c (b # ys)" if "legal c" for c
      using A(2,3) that asc_end by simp
    then show ?thesis using 4 A S by (simp add: MS body del: inside.simps retain_body.simps)
  qed
qed

lemma retain_lists_correct:
  assumes "asc l" "asc other"
  shows "\<exists>r. retain_lists l other 0 = Some r \<and> ilist r \<and> inv_set r = inv_set l \<inter> inv_set other"
    and "\<exists>r. retain_lists l other 2 = Some r \<and> ilist r \<and> inv_set r = inv_set l - inv_set other"
proof -
  obtain a xs b ys where l: "l = a # xs" "other = b # ys" using assms asc_Cons by metis
  have run: "\<exists>r. merge_loop retain_body (MS p a xs b ys []) = Some r \<and> ilist r \<and>
      inv_set r = {c. legal c \<and> inside c (a # xs) \<and> ((2 \<le> p) \<noteq> inside c (b # ys))}"
    if "p = 0 \<or> p = 2" for p
  proof -
    have "retain_inv (\<lambda>c. inside c (a # xs) \<and> ((2 \<le> p) \<noteq> inside c (b # ys))) (MS p a xs b ys [])"
      using assms l that by auto
    then show ?thesis by (rule merge_correct) (rule retain_step)
  qed
  show "\<exists>r. retain_lists l other 0 = Some r \<and> ilist r \<and> inv_set r = inv_set l \<inter> inv_set other"
    using run [of 0] unfolding l retain_lists_def inv_set_def UNICODESET_LOW_def by (auto simp del: inside.simps)
  show "\<exists>r. retain_lists l other 2 = Some r \<and> ilist r \<and> inv_set r = inv_set l - inv_set other"
    using run [of 2] unfolding l retain_lists_def inv_set_def UNICODESET_LOW_def by (auto simp del: inside.simps)
qed

subsection \<open>Union\<close>

text \<open>
  In the states 1, 2 and 3 the buffer ends with the start \<open>s\<close> of an open range. The current
  limit may have been taken back from the buffer, so it need not be below the entries that
  follow it in its list.
\<close>

definition limit_ok :: "int \<Rightarrow> int list \<Rightarrow> bool" where
  "limit_ok a xs \<longleftrightarrow>
     a = UNICODESET_HIGH \<and> (\<forall>x \<in> set xs. x = UNICODESET_HIGH) \<or> 0 \<le> a \<and> a < UNICODESET_HIGH \<and> asc xs"

definition open_range :: "int list \<Rightarrow> int \<Rightarrow> int list \<Rightarrow> bool" where
  "open_range buf s buf' \<longleftrightarrow> buf = s # buf' \<and> buf_ok buf \<and> even (length buf')"

fun add_inv :: "(int \<Rightarrow> bool) \<Rightarrow> mstate \<Rightarrow> bool" where
  "add_inv T (MS p a xs b ys buf) \<longleftrightarrow>
     (p = 0 \<and> asc (a # xs) \<and> asc (b # ys) \<and> buf_ok buf \<and> even (length buf) \<and>
        (\<forall>z \<in> set (tl buf). z < a \<and> z < b) \<and>
        (\<forall>c. legal c \<longrightarrow> (inside c buf \<or> inside c (a # xs) \<or> inside c (b # ys)) = T c)) \<or>
     (\<exists>s buf'. open_range buf s buf' \<and> s < a \<and> s < b \<and> (\<forall>z \<in> set xs \<union> set ys. s < z) \<and>
        (p = 1 \<and> limit_ok a xs \<and> asc (b # ys) \<and>
           (\<forall>c. legal c \<longrightarrow> (inside c buf' \<or> s \<le> c \<and> c < a \<or> inside c xs \<or> inside c (b # ys)) = T c) \<or>
         p = 2 \<and> asc (a # xs) \<and> limit_ok b ys \<and>
           (\<forall>c. legal c \<longrightarrow> (inside c buf' \<or> s \<le> c \<and> c < b \<or> inside c (a # xs) \<or> inside c ys) = T c) \<or>
         p = 3 \<and> limit_ok a xs \<and> limit_ok b ys \<and>
           (\<forall>c. legal c \<longrightarrow> (inside c buf' \<or> s \<le> c \<and> c < max a b \<or> inside c xs \<or> inside c ys) = T c)))"

lemma buf_above:
  "buf_ok (s # buf) \<Longrightarrow> even (length buf) \<Longrightarrow> s \<le> c \<Longrightarrow> \<not> inside c buf"
  using inside_above [of buf c] by (force simp: buf_ok_def)

lemma inside_open_range:
  "open_range buf s buf' \<Longrightarrow> inside c buf \<longleftrightarrow> s \<le> c \<or> inside c buf'"
  using buf_above [of s buf' c] by (auto simp: open_range_def)

lemma inside_closed_range:
  "open_range buf s buf' \<Longrightarrow> s < l \<Longrightarrow> inside c (l # buf) \<longleftrightarrow> inside c buf' \<or> s \<le> c \<and> c < l"
  using buf_above [of s buf' c] by (auto simp: open_range_def)

lemma open_range_close:
  "open_range buf s buf' \<Longrightarrow> s < l \<Longrightarrow> l < UNICODESET_HIGH \<Longrightarrow> buf_ok (l # buf) \<and> even (length (l # buf))"
  by (force simp: open_range_def buf_ok_def)

lemma open_range_below: "open_range buf s buf' \<Longrightarrow> s < x \<Longrightarrow> \<forall>z \<in> set buf. z < x"
  by (force simp: open_range_def buf_ok_def)

lemma open_range_start:
  assumes "buf_ok buf" "even (length buf)" "0 \<le> a" "a < UNICODESET_HIGH" "\<not> overlaps a buf"
  shows "open_range (a # buf) a buf"
proof -
  have "\<forall>z \<in> set buf. z < a" using assms(1,5) by (cases buf) (auto simp: overlaps_def buf_ok_def)
  then show ?thesis using assms by (auto simp: open_range_def buf_ok_def)
qed

lemma open_range_back:
  assumes "buf_ok buf" "even (length buf)" "overlaps a buf"
  obtains l s buf' where "buf = l # s # buf'" "open_range (s # buf') s buf'" "s < l" "a \<le> l"
    "0 \<le> l" "l < UNICODESET_HIGH"
proof (cases buf)
  case (Cons l buf1)
  then show ?thesis
  proof (cases buf1)
    case (Cons s buf')
    with \<open>buf = l # buf1\<close> show ?thesis
      using assms that [of l s buf'] by (simp add: open_range_def buf_ok_def overlaps_def)
  qed (use assms Cons in simp)
qed (use assms in \<open>simp add: overlaps_def\<close>)

lemma asc_pair:
  assumes "asc (a # x # xs)" "a < UNICODESET_HIGH" "c < UNICODESET_HIGH"
  shows "inside c (a # x # xs) \<longleftrightarrow> a \<le> c \<and> c < x \<or> inside c xs"
proof (cases "x = UNICODESET_HIGH")
  case True
  then have "\<not> inside c xs" using assms inside_HIGH [of xs c] by (simp add: asc.simps)
  then show ?thesis using assms True by (simp add: asc.simps)
next
  case False
  then have "a < x" "\<forall>z \<in> set xs. x < z" using assms by (auto simp: asc.simps)
  then show ?thesis using inside_lower [of c xs x] by auto
qed

lemma limit_ok_asc: "asc (a # x # xs) \<Longrightarrow> a < UNICODESET_HIGH \<Longrightarrow> limit_ok x xs"
  by (auto simp: limit_ok_def asc.simps split: if_splits)

lemma limit_ok_max: "limit_ok x xs \<Longrightarrow> 0 \<le> l \<Longrightarrow> l < UNICODESET_HIGH \<Longrightarrow> limit_ok (max x l) xs"
  by (auto simp: limit_ok_def max_def)

lemma limit_ok_next:
  assumes "limit_ok a xs" "a < UNICODESET_HIGH"
  obtains x xs' where "xs = x # xs'" "asc (x # xs')"
  using assms asc_Cons [of xs] by (auto simp: limit_ok_def)

lemma limit_ok_le: "limit_ok a xs \<Longrightarrow> 0 \<le> a \<and> a \<le> UNICODESET_HIGH"
  by (auto simp: limit_ok_def UNICODESET_HIGH_def)

lemma limit_ok_end: "limit_ok UNICODESET_HIGH xs \<Longrightarrow> c < UNICODESET_HIGH \<Longrightarrow> \<not> inside c xs"
  using inside_HIGH [of xs c] by (simp add: limit_ok_def)

lemma add_inv_1I:
  assumes "open_range buf s buf'" "s < a" "s < b" "\<forall>z \<in> set xs \<union> set ys. s < z" "limit_ok a xs" "asc (b # ys)"
    and "\<And>c. legal c \<Longrightarrow> (inside c buf' \<or> s \<le> c \<and> c < a \<or> inside c xs \<or> inside c (b # ys)) = T c"
  shows "add_inv T (MS 1 a xs b ys buf)"
  using assms unfolding add_inv.simps by blast

lemma add_inv_2I:
  assumes "open_range buf s buf'" "s < a" "s < b" "\<forall>z \<in> set xs \<union> set ys. s < z" "asc (a # xs)" "limit_ok b ys"
    and "\<And>c. legal c \<Longrightarrow> (inside c buf' \<or> s \<le> c \<and> c < b \<or> inside c (a # xs) \<or> inside c ys) = T c"
  shows "add_inv T (MS 2 a xs b ys buf)"
  using assms unfolding add_inv.simps by blast

lemma add_inv_3I:
  assumes "open_range buf s buf'" "s < a" "s < b" "\<forall>z \<in> set xs \<union> set ys. s < z" "limit_ok a xs" "limit_ok b ys"
    and "\<And>c. legal c \<Longrightarrow> (inside c buf' \<or> s \<le> c \<and> c < max a b \<or> inside c xs \<or> inside c ys) = T c"
  shows "add_inv T (MS 3 a xs b ys buf)"
  using assms unfolding add_inv.simps by blast

text \<open>What one turn of the loop has to establish.\<close>

definition add_turn :: "(int \<Rightarrow> bool) \<Rightarrow> mstate \<Rightarrow> bool" where
  "add_turn T s \<longleftrightarrow> (case add_body s of
       Continue s' \<Rightarrow> add_inv T s' \<and> remaining s' < remaining s
     | Finish buf \<Rightarrow> buf_ok buf \<and> (\<forall>c. legal c \<longrightarrow> inside c buf = T c)
     | OutOfBounds \<Rightarrow> False)"

lemma add_turn_1:
  assumes o: "open_range buf s buf'" and s: "s < a" "s < b" "\<forall>z \<in> set xs \<union> set ys. s < z"
    and l: "limit_ok a xs" "asc (b # ys)"
    and S: "\<forall>c. legal c \<longrightarrow> (inside c buf' \<or> s \<le> c \<and> c < a \<or> inside c xs \<or> inside c (b # ys)) = T c"
  shows "add_turn T (MS 1 a xs b ys buf)"
proof -
  have bounds: "a \<le> UNICODESET_HIGH" "b \<le> UNICODESET_HIGH" using asc_hd l limit_ok_le by blast+
  consider "a < b" | "b < a" | "a = b" "a < UNICODESET_HIGH" | "a = b" "a = UNICODESET_HIGH"
    using bounds by linarith
  then show ?thesis
  proof cases
    case 1
    with l bounds obtain x xs' where xs: "xs = x # xs'" "asc (x # xs')" by (metis limit_ok_next less_le_trans)
    have "\<forall>z \<in> set buf. z < x \<and> z < b" using open_range_below [OF o] s xs by auto
    then show ?thesis
      using open_range_close [OF o s(1)] inside_closed_range [OF o s(1)] 1 xs l S bounds
      by (simp add: add_turn_def del: inside.simps)
  next
    case 2
    then have b: "b < UNICODESET_HIGH" using bounds by linarith
    with asc_next [OF l(2)] obtain y ys' where ys: "ys = y # ys'" by blast
    have "(s \<le> c \<and> c < a \<or> inside c (b # ys)) = (s \<le> c \<and> c < max a y \<or> inside c ys')" if "legal c" for c
      using asc_pair [of b y ys' c] l(2) b that s 2 unfolding ys by (auto simp del: inside.simps)
    then have "add_inv T (MS 3 a xs y ys' buf)"
      using o s l limit_ok_asc [of b y ys'] b S unfolding ys
      by (intro add_inv_3I) (auto simp del: inside.simps)
    then show ?thesis using 2 by (simp add: add_turn_def ys del: add_inv.simps)
  next
    case 3
    with l obtain x xs' where xs: "xs = x # xs'" "asc (x # xs')" by (metis limit_ok_next)
    from 3 asc_next [OF l(2)] obtain y ys' where ys: "ys = y # ys'" by blast
    have "(s \<le> c \<and> c < a \<or> inside c (b # ys)) = (s \<le> c \<and> c < y \<or> inside c ys')" if "legal c" for c
      using asc_pair [of b y ys' c] asc_next [OF l(2)] 3 l(2) that s unfolding ys by (fastforce simp del: inside.simps)
    then have "add_inv T (MS 2 x xs' y ys' buf)"
      using o s l limit_ok_asc [of b y ys'] xs 3 S unfolding ys
      by (intro add_inv_2I) (auto simp del: inside.simps)
    then show ?thesis using 3 by (simp add: add_turn_def xs ys del: add_inv.simps)
  next
    case 4
    have "\<not> inside c xs \<and> \<not> inside c (b # ys)" if "legal c" for c
      using l 4 that limit_ok_end asc_end by simp
    then show ?thesis
      using inside_open_range [OF o] o 4 S by (auto simp: add_turn_def open_range_def simp del: inside.simps)
  qed
qed

lemma add_turn_3:
  assumes o: "open_range buf s buf'" and s: "s < a" "s < b" "\<forall>z \<in> set xs \<union> set ys. s < z"
    and l: "limit_ok a xs" "limit_ok b ys"
    and S: "\<forall>c. legal c \<longrightarrow> (inside c buf' \<or> s \<le> c \<and> c < max a b \<or> inside c xs \<or> inside c ys) = T c"
  shows "add_turn T (MS 3 a xs b ys buf)"
proof (cases "max a b = UNICODESET_HIGH")
  case True
  have "s < c" if "inside c xs \<or> inside c ys" for c using that inside_lower s by blast
  then show ?thesis
    using inside_open_range [OF o] o S True
    by (auto simp: add_turn_def open_range_def max_def split: if_splits simp del: inside.simps) force+
next
  case False
  let ?m = "max a b"
  have m: "?m < UNICODESET_HIGH" "s < ?m" using limit_ok_le [OF l(1)] limit_ok_le [OF l(2)] False s by linarith+
  from l m obtain x xs' y ys' where xs: "xs = x # xs'" "asc (x # xs')" and ys: "ys = y # ys'" "asc (y # ys')"
    by (metis limit_ok_next max_less_iff_conj)
  have "\<forall>z \<in> set buf. z < x \<and> z < y" using open_range_below [OF o] s xs ys by auto
  moreover have "add_body (MS 3 a xs b ys buf) = Continue (MS 0 x xs' y ys' (?m # buf))"
    using m(1) xs ys by (cases "b \<le> a") (simp_all add: max_def)
  ultimately show ?thesis
    using open_range_close [OF o m(2) m(1)] inside_closed_range [OF o m(2)] xs ys S
    by (simp add: add_turn_def del: inside.simps add_body.simps)
qed

text \<open>State 2 is state 1 with the two lists exchanged.\<close>

fun swap_lists :: "mstate \<Rightarrow> mstate" where
  "swap_lists (MS p a xs b ys buf) = MS (if p = 1 then 2 else if p = 2 then 1 else p) b ys a xs buf"

lemma add_inv_swap: "add_inv T (swap_lists s) = add_inv T s"
proof (cases s)
  case (MS p a xs b ys buf)
  have max: "max b a = max a b" by simp
  show ?thesis
    unfolding MS swap_lists.simps add_inv.simps Un_commute [of "set ys"] disj_commute [of "inside _ (b # ys)"]
      disj_commute [of "inside _ ys"] max by (auto simp del: inside.simps)
qed

lemma remaining_swap [simp]: "remaining (swap_lists s) = remaining s"
  by (cases s) simp

lemma add_body_swap:
  "add_body (MS 2 a xs b ys buf) =
     (case add_body (MS 1 b ys a xs buf) of Continue s \<Rightarrow> Continue (swap_lists s) | r \<Rightarrow> r)"
  by (auto split: list.splits)

lemma add_turn_2:
  assumes "open_range buf s buf'" "s < a" "s < b" "\<forall>z \<in> set xs \<union> set ys. s < z"
    and "asc (a # xs)" "limit_ok b ys"
    and "\<forall>c. legal c \<longrightarrow> (inside c buf' \<or> s \<le> c \<and> c < b \<or> inside c (a # xs) \<or> inside c ys) = T c"
  shows "add_turn T (MS 2 a xs b ys buf)"
proof -
  have "add_turn T (MS 1 b ys a xs buf)"
    using assms by (intro add_turn_1 [of buf s buf']) (auto simp del: inside.simps)
  then show ?thesis
    by (auto simp: add_turn_def add_body_swap add_inv_swap simp del: add_body.simps split: mresult.splits)
qed

text \<open>
  In state 0 a start is read. Whether or not it falls into the range that was written last,
  the buffer then ends with an open range, and that range together with the new limit
  covers what the buffer and the pair covered.
\<close>

lemma take_start:
  assumes b: "buf_ok buf" "even (length buf)" "\<forall>z \<in> set (tl buf). z < a"
    and a: "asc (a # x # xs)" "a < UNICODESET_HIGH"
  obtains m s buf' where
    "(if overlaps a buf then (max x (hd buf), tl buf) else (x, a # buf)) = (m, s # buf')"
    "open_range (s # buf') s buf'" "s < m" "s \<le> a" "x \<le> m" "limit_ok m xs" "\<forall>z \<in> set xs. s < z"
    "\<forall>c. legal c \<longrightarrow> (inside c buf \<or> inside c (a # x # xs)) = (inside c buf' \<or> s \<le> c \<and> c < m \<or> inside c xs)"
proof (cases "overlaps a buf")
  case True
  from open_range_back [OF b(1,2) True] obtain l s buf' where
    l: "buf = l # s # buf'" "open_range (s # buf') s buf'" "s < l" "a \<le> l" "0 \<le> l" "l < UNICODESET_HIGH" .
  have sa: "s < a" "a < x" "\<forall>z \<in> set xs. a < z" using b l a by (auto simp: asc.simps)
  have "inside c buf \<or> inside c (a # x # xs) \<longleftrightarrow> inside c buf' \<or> s \<le> c \<and> c < max x l \<or> inside c xs"
    if "legal c" for c
    using asc_pair [OF a, of c] inside_closed_range [OF l(2,3), of c] that sa l unfolding l(1)
    by (auto simp del: inside.simps)
  moreover have "limit_ok (max x l) xs" using limit_ok_asc [OF a] limit_ok_max l by blast
  ultimately show ?thesis using that [of "max x l" s buf'] True l sa by force
next
  case False
  have "0 \<le> a" "a < x" "\<forall>z \<in> set xs. a < z" using a by (auto simp: asc.simps)
  moreover have "open_range (a # buf) a buf" using open_range_start [OF b(1,2) \<open>0 \<le> a\<close> a(2) False] .
  moreover have "inside c buf \<or> inside c (a # x # xs) \<longleftrightarrow> inside c buf \<or> a \<le> c \<and> c < x \<or> inside c xs"
    if "legal c" for c using asc_pair [OF a, of c] that by auto
  ultimately show ?thesis using that [of x a buf] False limit_ok_asc [OF a] by auto
qed

lemma add_turn_0:
  assumes l: "asc (a # xs)" "asc (b # ys)" and b: "buf_ok buf" "even (length buf)" "\<forall>z \<in> set (tl buf). z < a \<and> z < b"
    and S: "\<forall>c. legal c \<longrightarrow> (inside c buf \<or> inside c (a # xs) \<or> inside c (b # ys)) = T c"
  shows "add_turn T (MS 0 a xs b ys buf)"
proof -
  have bounds: "a \<le> UNICODESET_HIGH" "b \<le> UNICODESET_HIGH" using asc_hd l by blast+
  have ba: "\<forall>z \<in> set (tl buf). z < a" "\<forall>z \<in> set (tl buf). z < b" using b by auto
  consider "a < b" | "b < a" | "a = b" "a < UNICODESET_HIGH" | "a = b" "a = UNICODESET_HIGH"
    using bounds by linarith
  then show ?thesis
  proof cases
    case 1
    then have a: "a < UNICODESET_HIGH" using bounds by linarith
    with asc_next [OF l(1)] obtain x xs' where xs: "xs = x # xs'" by blast
    from take_start [OF b(1,2) ba(1) l(1) [unfolded xs] a] obtain m s buf' where
      m: "(if overlaps a buf then (max x (hd buf), tl buf) else (x, a # buf)) = (m, s # buf')"
      and o: "open_range (s # buf') s buf'" "s < m" "s \<le> a" "x \<le> m" "limit_ok m xs'" "\<forall>z \<in> set xs'. s < z"
      and c: "\<forall>c. legal c \<longrightarrow> (inside c buf \<or> inside c (a # x # xs')) = (inside c buf' \<or> s \<le> c \<and> c < m \<or> inside c xs')" .
    have "add_body (MS 0 a xs b ys buf) = Continue (MS 1 m xs' b ys (s # buf'))"
      using 1 xs m by (simp split: if_splits)
    moreover have "\<forall>z \<in> set xs' \<union> set ys. s < z" using o asc_le [OF l(2)] 1 by fastforce
    then have "add_inv T (MS 1 m xs' b ys (s # buf'))"
      using o l(2) 1 c S unfolding xs by (intro add_inv_1I) (auto simp del: inside.simps)
    ultimately show ?thesis unfolding add_turn_def xs by simp
  next
    case 2
    then have a: "b < UNICODESET_HIGH" using bounds by linarith
    with asc_next [OF l(2)] obtain y ys' where ys: "ys = y # ys'" by blast
    from take_start [OF b(1,2) ba(2) l(2) [unfolded ys] a] obtain m s buf' where
      m: "(if overlaps b buf then (max y (hd buf), tl buf) else (y, b # buf)) = (m, s # buf')"
      and o: "open_range (s # buf') s buf'" "s < m" "s \<le> b" "y \<le> m" "limit_ok m ys'" "\<forall>z \<in> set ys'. s < z"
      and c: "\<forall>c. legal c \<longrightarrow> (inside c buf \<or> inside c (b # y # ys')) = (inside c buf' \<or> s \<le> c \<and> c < m \<or> inside c ys')" .
    have "add_body (MS 0 a xs b ys buf) = Continue (MS 2 a xs m ys' (s # buf'))"
      using 2 ys m by (simp split: if_splits)
    moreover have "\<forall>z \<in> set xs \<union> set ys'. s < z" using o asc_le [OF l(1)] 2 by fastforce
    then have "add_inv T (MS 2 a xs m ys' (s # buf'))"
      using o l(1) 2 c S unfolding ys by (intro add_inv_2I) (auto simp del: inside.simps)
    ultimately show ?thesis unfolding add_turn_def ys by simp
  next
    case 3
    with asc_next [OF l(1)] asc_next [OF l(2)] obtain x xs' y ys' where
      xs: "xs = x # xs'" and ys: "ys = y # ys'" "asc (y # ys')" "b < y" by (metis less_irrefl)
    from take_start [OF b(1,2) ba(1) l(1) [unfolded xs] 3(2)] obtain m s buf' where
      m: "(if overlaps a buf then (max x (hd buf), tl buf) else (x, a # buf)) = (m, s # buf')"
      and o: "open_range (s # buf') s buf'" "s < m" "s \<le> a" "x \<le> m" "limit_ok m xs'" "\<forall>z \<in> set xs'. s < z"
      and c: "\<forall>c. legal c \<longrightarrow> (inside c buf \<or> inside c (a # x # xs')) = (inside c buf' \<or> s \<le> c \<and> c < m \<or> inside c xs')" .
    have "add_body (MS 0 a xs b ys buf) = Continue (MS 3 m xs' y ys' (s # buf'))"
      using 3 xs ys m by (simp split: if_splits)
    moreover have "s < y" "\<forall>z \<in> set xs' \<union> set ys'. s < z" using o asc_le [OF ys(2)] ys 3 by fastforce+
    moreover have "limit_ok y ys'" using limit_ok_asc l(2) ys 3 by blast
    moreover have "(s \<le> c \<and> c < max m y) = (s \<le> c \<and> c < m \<or> b \<le> c \<and> c < y)" for c using o l(1) 3 xs by (auto simp: asc.simps)
    then have "(inside c buf' \<or> s \<le> c \<and> c < max m y \<or> inside c xs' \<or> inside c ys') = T c" if "legal c" for c
      using c [rule_format, OF that] S asc_pair [of b y ys' c] l(2) 3 that unfolding xs ys(1) by (auto simp del: inside.simps)
    ultimately show ?thesis
      using o add_inv_3I [of "s # buf'" s buf' m y xs' ys' T] by (simp add: add_turn_def xs ys(1) del: add_body.simps add_inv.simps)
  next
    case 4
    then have "\<not> inside c (a # xs) \<and> \<not> inside c (b # ys)" if "legal c" for c
      using l that asc_end by simp
    then show ?thesis using 4 b S by (simp add: add_turn_def del: inside.simps)
  qed
qed

lemma add_step: "add_inv T s \<Longrightarrow> add_turn T s"
  by (cases s, simp only: add_inv.simps, elim disjE exE conjE)
    (simp_all only: add_turn_0 add_turn_1 add_turn_2 add_turn_3)

lemma add_lists_correct:
  assumes "asc l" "asc other"
  shows "\<exists>r. add_lists l other 0 = Some r \<and> ilist r \<and> inv_set r = inv_set l \<union> inv_set other"
proof -
  obtain a xs b ys where l: "l = a # xs" "other = b # ys" using assms asc_Cons by metis
  let ?T = "\<lambda>c. inside c (a # xs) \<or> inside c (b # ys)"
  have "add_inv ?T (MS 0 a xs b ys [])" using assms l by simp
  then have "\<exists>r. merge_loop add_body (MS 0 a xs b ys []) = Some r \<and> ilist r \<and> inv_set r = {c. legal c \<and> ?T c}"
    by (rule merge_correct) (rule add_step [unfolded add_turn_def])
  then show ?thesis
    unfolding l add_lists_def inv_set_def UNICODESET_LOW_def by (auto simp del: inside.simps)
qed

section \<open>The buffer is large enough\<close>

text \<open>
  A turn writes at most one entry and reads at least one, so the loops stay within a buffer of
  as many cells as the two arrays have together.
\<close>

fun out_buf :: "mstate \<Rightarrow> int list" where
  "out_buf (MS p a xs b ys buf) = buf"

definition frugal :: "(mstate \<Rightarrow> mresult) \<Rightarrow> bool" where
  "frugal body \<longleftrightarrow>
     (\<forall>s. case body s of
            Continue s' \<Rightarrow> length (out_buf s') + remaining s' \<le> length (out_buf s) + remaining s
          | Finish buf \<Rightarrow> buf = out_buf s
          | OutOfBounds \<Rightarrow> True)"

lemma frugalI:
  assumes "\<And>p a xs b ys buf. case body (MS p a xs b ys buf) of
            Continue s' \<Rightarrow> length (out_buf s') + remaining s' \<le> length buf + (length xs + length ys)
          | Finish buf' \<Rightarrow> buf' = buf
          | OutOfBounds \<Rightarrow> True"
  shows "frugal body"
  unfolding frugal_def
proof
  fix s
  show "case body s of
            Continue s' \<Rightarrow> length (out_buf s') + remaining s' \<le> length (out_buf s) + remaining s
          | Finish buf \<Rightarrow> buf = out_buf s
          | OutOfBounds \<Rightarrow> True"
  proof (cases s)
    case (MS p a xs b ys buf)
    show ?thesis unfolding MS out_buf.simps remaining.simps by (rule assms)
  qed
qed

lemma frugal_bodies: "frugal exclusiveOr_body" "frugal add_body" "frugal retain_body"
  by (rule frugalI, simp add: le_diff_conv split: list.split)+

lemma merge_loop_length:
  assumes "merge_loop body s = Some r" "frugal body"
  shows "length r \<le> Suc (length (out_buf s) + remaining s)"
proof -
  have "frugal body \<longrightarrow> length r \<le> Suc (length (out_buf s) + remaining s)"
  proof (rule merge_loop.raw_induct [OF _ assms(1)], intro impI)
    fix loop body s r
    assume IH: "\<And>body s r. loop body s = Some r \<Longrightarrow> frugal body \<longrightarrow> length r \<le> Suc (length (out_buf s) + remaining s)"
      and step: "(case body s of Continue s' \<Rightarrow> loop body s' | Finish buf \<Rightarrow> Some (rev (UNICODESET_HIGH # buf))
        | OutOfBounds \<Rightarrow> None) = Some r" and f: "frugal body"
    from f have "case body s of
            Continue s' \<Rightarrow> length (out_buf s') + remaining s' \<le> length (out_buf s) + remaining s
          | Finish buf \<Rightarrow> buf = out_buf s
          | OutOfBounds \<Rightarrow> True" by (simp add: frugal_def)
    then show "length r \<le> Suc (length (out_buf s) + remaining s)"
      using step f by (auto split: mresult.splits dest!: IH)
  qed
  then show ?thesis using assms(2) by simp
qed

lemma merge_lists_length:
  "add_lists l other pol = Some r \<Longrightarrow> length r < length l + length other"
  "retain_lists l other pol = Some r \<Longrightarrow> length r < length l + length other"
  "exclusiveOr_lists l other 0 = Some r \<Longrightarrow> length r < length l + length other"
  by (auto simp: add_lists_def retain_lists_def exclusiveOr_lists_def split: list.splits
        dest!: merge_loop_length [OF _ frugal_bodies(1)] merge_loop_length [OF _ frugal_bodies(2)]
          merge_loop_length [OF _ frugal_bodies(3)])

section \<open>Properties\<close>

text \<open>
  C3. The merge loops behind \<^verbatim>\<open>add\<close>, \<^verbatim>\<open>retain\<close> and \<^verbatim>\<open>exclusiveOr\<close> terminate on every two inversion lists,
  write a canonical inversion list of the union, intersection, difference or symmetric difference,
  and write fewer entries than the two lists have together, the size of the buffer.
\<close>

theorem merges_correct:
  assumes "asc l" "asc other"
  shows "(\<exists>r. add_lists l other 0 = Some r \<and> ilist r \<and> inv_set r = inv_set l \<union> inv_set other \<and>
            length r < length l + length other) \<and>
         (\<exists>r. retain_lists l other 0 = Some r \<and> ilist r \<and> inv_set r = inv_set l \<inter> inv_set other \<and>
            length r < length l + length other) \<and>
         (\<exists>r. retain_lists l other 2 = Some r \<and> ilist r \<and> inv_set r = inv_set l - inv_set other \<and>
            length r < length l + length other) \<and>
         (\<exists>r. exclusiveOr_lists l other 0 = Some r \<and> ilist r \<and>
            inv_set r = (inv_set l - inv_set other) \<union> (inv_set other - inv_set l) \<and> length r < length l + length other)"
  using add_lists_correct [OF assms] retain_lists_correct [OF assms] exclusiveOr_lists_correct [OF assms]
    merge_lists_length [where l = l and other = other] by blast

theorem merges_correct_witness:
  "\<exists>r. add_lists [0x41, 0x5b, UNICODESET_HIGH] [0x50, 0x60, UNICODESET_HIGH] 0 = Some r \<and> ilist r \<and> length r < 6 \<and> 0x5f \<in> inv_set r"
proof -
  have "asc [0x41, 0x5b, UNICODESET_HIGH]" "asc [0x50, 0x60, UNICODESET_HIGH]"
    by (auto intro!: ilist_asc simp: ilist_def UNICODESET_HIGH_def UNICODESET_LOW_def)
  moreover have "0x5f \<in> inv_set [0x50, 0x60, UNICODESET_HIGH]"
    by (simp add: inv_set_def UNICODESET_HIGH_def UNICODESET_LOW_def)
  ultimately show ?thesis using merges_correct [of "[0x41, 0x5b, UNICODESET_HIGH]" "[0x50, 0x60, UNICODESET_HIGH]"] by auto
qed

end
