(* ===== verification/RangeOps.thy ===== *)
theory RangeOps
  imports InversionList
begin

text \<open>
  The operations of \<^verbatim>\<open>common/uniset.cpp\<close> that read or edit one inversion list: the binary search
  \<^verbatim>\<open>findCodePoint\<close> (and its copy in \<^verbatim>\<open>common/bmpset.cpp\<close>), the range accessors, \<^verbatim>\<open>size\<close>,
  \<^verbatim>\<open>indexOf\<close>, \<^verbatim>\<open>charAt\<close>, the range tests, the insertion of one code point, and the complement.
\<close>

section \<open>Binary search\<close>

text \<open>
  \<open>lo\<close> and \<open>hi\<close> are the bounds of the loop; \<open>hi \<le> lo\<close> never holds when it is entered and
  only makes the recursion total.
\<close>

function search_loop :: "int list \<Rightarrow> int \<Rightarrow> nat \<Rightarrow> nat \<Rightarrow> nat" where
  "search_loop list c lo hi =
     (let i = (lo + hi) div 2 in
      if i = lo \<or> hi \<le> lo then hi
      else if c < list ! i then search_loop list c lo i
      else search_loop list c i hi)"
  by pat_completeness auto
termination
  by (relation "measure (\<lambda>(l, c, lo, hi). hi - lo)") auto

declare search_loop.simps [simp del]

definition findCodePoint :: "int list \<Rightarrow> int \<Rightarrow> nat \<Rightarrow> nat \<Rightarrow> nat" where
  "findCodePoint list c lo hi =
     (if c < list ! lo then lo
      else if lo \<ge> hi \<or> c \<ge> list ! (hi - 1) then hi
      else search_loop list c lo hi)"

definition UnicodeSet_findCodePoint :: "int list \<Rightarrow> int \<Rightarrow> nat" where
  "UnicodeSet_findCodePoint list c = findCodePoint list c 0 (length list - 1)"

definition containsSlow :: "int list \<Rightarrow> int \<Rightarrow> nat \<Rightarrow> nat \<Rightarrow> bool" where
  "containsSlow list c lo hi = odd (findCodePoint list c lo hi)"

text \<open>\<open>is_rank l c r\<close>: \<open>r\<close> is the smallest index whose entry exceeds \<open>c\<close>.\<close>

definition is_rank :: "int list \<Rightarrow> int \<Rightarrow> nat \<Rightarrow> bool" where
  "is_rank l c r \<longleftrightarrow> r < length l \<and> c < l ! r \<and> (\<forall>j < r. l ! j \<le> c)"

lemma search_loop_rank:
  assumes "sorted_wrt (<) l" "lo < hi" "hi < length l" "l ! lo \<le> c" "c < l ! hi"
  shows "is_rank l c (search_loop l c lo hi) \<and> lo \<le> search_loop l c lo hi \<and> search_loop l c lo hi \<le> hi"
  using assms
proof (induction l c lo hi rule: search_loop.induct)
  case (1 l c lo hi)
  let ?i = "(lo + hi) div 2"
  show ?case
  proof (cases "?i = lo \<or> hi \<le> lo")
    case True
    then have hi: "hi = Suc lo" using "1.prems"(2) by linarith
    have "l ! j \<le> c" if "j < hi" for j
    proof (cases "j = lo")
      case False
      then have "l ! j < l ! lo"
        using sorted_wrt_nth_less [OF "1.prems"(1), of j lo] that hi "1.prems"(3) by simp
      then show ?thesis using "1.prems"(4) by linarith
    qed (use "1.prems" in simp)
    moreover have "search_loop l c lo hi = hi" using True by (simp add: search_loop.simps Let_def)
    ultimately show ?thesis using "1.prems" by (simp add: is_rank_def)
  next
    case False
    then have i: "lo < ?i" "?i < hi" by auto
    show ?thesis
    proof (cases "c < l ! ?i")
      case True
      then have "search_loop l c lo hi = search_loop l c lo ?i"
        using False by (subst search_loop.simps) (simp add: Let_def)
      then show ?thesis using "1.IH"(1) [OF refl False True "1.prems"(1)] i "1.prems" True by simp
    next
      case c: False
      then have "search_loop l c lo hi = search_loop l c ?i hi"
        using False by (subst search_loop.simps) (simp add: Let_def)
      then show ?thesis using "1.IH"(2) [OF refl False c "1.prems"(1)] i "1.prems" c by simp
    qed
  qed
qed

text \<open>
  The restricted search is right whenever the answer lies between \<open>lo\<close> and \<open>hi\<close>.
\<close>

lemma findCodePoint_rank:
  assumes l: "sorted_wrt (<) l" "lo \<le> hi" "hi < length l" and c: "lo = 0 \<or> l ! (lo - 1) \<le> c" "c < l ! hi"
  shows "is_rank l c (findCodePoint l c lo hi) \<and> lo \<le> findCodePoint l c lo hi \<and> findCodePoint l c lo hi \<le> hi"
proof -
  have below: "\<forall>j < k. l ! j \<le> c" if "k = 0 \<or> l ! (k - 1) \<le> c" "k \<le> hi" for k
  proof (intro allI impI)
    fix j assume "j < k"
    then have "l ! j \<le> l ! (k - 1)"
      using sorted_wrt_nth_less [OF l(1), of j "k - 1"] that(2) l(3)
      by (cases "j = k - 1") (auto intro: less_imp_le)
    then show "l ! j \<le> c" using that(1) \<open>j < k\<close> by auto
  qed
  consider "c < l ! lo" | "\<not> c < l ! lo" "lo \<ge> hi \<or> c \<ge> l ! (hi - 1)"
    | "\<not> c < l ! lo" "lo < hi" "c < l ! (hi - 1)" by linarith
  then show ?thesis
  proof cases
    case 1
    then show ?thesis using below [of lo] c l by (simp add: findCodePoint_def is_rank_def)
  next
    case 2
    moreover have "hi = 0 \<or> l ! (hi - 1) \<le> c" using 2 c l by (cases "lo < hi") auto
    ultimately show ?thesis using below [of hi] c l by (simp add: findCodePoint_def is_rank_def)
  next
    case 3
    then have "findCodePoint l c lo hi = search_loop l c lo hi" by (simp add: findCodePoint_def)
    then show ?thesis using search_loop_rank [OF l(1) 3(2) l(3) _ c(2)] 3 by simp
  qed
qed

lemma is_rank_inside: "sorted_wrt (<) l \<Longrightarrow> is_rank l c r \<Longrightarrow> inside c l \<longleftrightarrow> odd r"
proof (rule inside_take)
  assume *: "sorted_wrt (<) l" "is_rank l c r"
  show "c < l ! j" if "r \<le> j" "j < length l" for j
    using * that sorted_wrt_nth_less [of "(<)" l r j] by (cases "j = r") (auto simp: is_rank_def)
qed (auto simp: is_rank_def)

lemma ilist_last: "ilist l \<Longrightarrow> l ! (length l - 1) = UNICODESET_HIGH"
  using last_conv_nth [of l] by (simp add: ilist_def)

lemma ilist_sorted: "ilist l \<Longrightarrow> sorted_wrt (<) l"
  by (simp add: ilist_def)

lemma ilist_length: "ilist l \<Longrightarrow> 0 < length l"
  by (simp add: ilist_def)

lemma ilist_bounds: "ilist l \<Longrightarrow> i < length l \<Longrightarrow> 0 \<le> l ! i \<and> l ! i \<le> UNICODESET_HIGH"
  using asc_bounds [OF ilist_asc] nth_mem by blast

lemma ilist_nth_less: "ilist l \<Longrightarrow> i < j \<Longrightarrow> j < length l \<Longrightarrow> l ! i < l ! j"
  using sorted_wrt_nth_less [of "(<)" l i j] by (simp add: ilist_def)

lemma containsSlow_inside:
  assumes "ilist l" "lo \<le> hi" "hi < length l" "lo = 0 \<or> l ! (lo - 1) \<le> c" "c < l ! hi"
  shows "containsSlow l c lo hi = inside c l"
  using findCodePoint_rank [OF ilist_sorted [OF assms(1)] assms(2-)] is_rank_inside [OF ilist_sorted [OF assms(1)]]
  unfolding containsSlow_def by blast

lemma UnicodeSet_findCodePoint_rank:
  assumes "ilist l" "c < UNICODESET_HIGH"
  shows "is_rank l c (UnicodeSet_findCodePoint l c)"
  using findCodePoint_rank [of l 0 "length l - 1" c] assms ilist_last [OF assms(1)] ilist_length [OF assms(1)]
  by (simp add: UnicodeSet_findCodePoint_def ilist_def)

lemma findCodePoint_odd:
  "ilist l \<Longrightarrow> c < UNICODESET_HIGH \<Longrightarrow> odd (UnicodeSet_findCodePoint l c) \<longleftrightarrow> inside c l"
  using UnicodeSet_findCodePoint_rank [of l c] is_rank_inside [OF ilist_sorted] by blast

lemma rank_count:
  assumes "sorted_wrt (<) l" "is_rank l c r"
  shows "length (filter (\<lambda>x. x \<le> c) l) = r"
proof -
  have "c < l ! j" if "r \<le> j" "j < length l" for j
    using assms that sorted_wrt_nth_less [of "(<)" l r j] by (cases "j = r") (auto simp: is_rank_def)
  then have "\<forall>x \<in> set (drop r l). \<not> x \<le> c" by (auto simp: in_set_conv_nth not_le)
  moreover have "\<forall>x \<in> set (take r l). x \<le> c" using assms(2) by (auto simp: in_set_conv_nth is_rank_def)
  ultimately have "filter (\<lambda>x. x \<le> c) (take r l @ drop r l) = take r l" by (simp del: append_take_drop_id)
  then show ?thesis using assms(2) by (simp add: is_rank_def)
qed

section \<open>Ranges\<close>

definition getRangeCount :: "int list \<Rightarrow> nat" where
  "getRangeCount list = length list div 2"

definition getRangeStart :: "int list \<Rightarrow> nat \<Rightarrow> int" where
  "getRangeStart list index = list ! (index * 2)"

definition getRangeEnd :: "int list \<Rightarrow> nat \<Rightarrow> int" where
  "getRangeEnd list index = list ! (index * 2 + 1) - 1"

text \<open>The loop of \<^verbatim>\<open>size\<close>, without the strings.\<close>

definition range_sizes :: "int list \<Rightarrow> int" where
  "range_sizes list =
     fold (\<lambda>i n. n + (getRangeEnd list i - getRangeStart list i + 1)) [0..<getRangeCount list] 0"

definition contains_range :: "int list \<Rightarrow> int \<Rightarrow> int \<Rightarrow> bool" where
  "contains_range list start end =
     (let i = UnicodeSet_findCodePoint list start in odd i \<and> end < list ! i)"

definition containsNone_range :: "int list \<Rightarrow> int \<Rightarrow> int \<Rightarrow> bool" where
  "containsNone_range list start end =
     (let i = UnicodeSet_findCodePoint list start in even i \<and> end < list ! i)"

text \<open>
  \<^verbatim>\<open>indexOf\<close> and \<^verbatim>\<open>charAt\<close> walk over pairs of entries; the list argument is \<^verbatim>\<open>list + i\<close>.
  \<open>None\<close> is a read past the end.
\<close>

fun indexOf_loop :: "int \<Rightarrow> int \<Rightarrow> int list \<Rightarrow> int option" where
  "indexOf_loop c n [] = None"
| "indexOf_loop c n (start # rest) =
     (if c < start then Some (-1)
      else case rest of
             [] \<Rightarrow> None
           | limit # rest' \<Rightarrow>
               if c < limit then Some (n + c - start)
               else indexOf_loop c (n + (limit - start)) rest')"

definition UnicodeSet_indexOf :: "int list \<Rightarrow> int \<Rightarrow> int option" where
  "UnicodeSet_indexOf list c = (if c < 0 \<or> c > 0x10FFFF then Some (-1) else indexOf_loop c 0 list)"

fun charAt_loop :: "int \<Rightarrow> int list \<Rightarrow> int" where
  "charAt_loop index (start # limit # rest) =
     (let count = limit - start in
      if index < count then start + index else charAt_loop (index - count) rest)"
| "charAt_loop index _ = -1"

definition UnicodeSet_charAt :: "int list \<Rightarrow> int \<Rightarrow> int" where
  "UnicodeSet_charAt list index =
     (if index \<ge> 0 then charAt_loop index (take (2 * (length list div 2)) list) else -1)"

subsection \<open>Induction over ranges\<close>

lemma ilist_cases:
  assumes "ilist l"
  obtains "l = [UNICODESET_HIGH]"
  | s where "l = [s, UNICODESET_HIGH]" "0 \<le> s" "s < UNICODESET_HIGH"
  | s t l' where "l = s # t # l'" "ilist l'" "0 \<le> s" "s < t" "t < UNICODESET_HIGH" "\<forall>x \<in> set l'. t < x"
proof (cases l)
  case (Cons s l1)
  note l = this
  show ?thesis
  proof (cases l1)
    case Nil
    then show ?thesis using that(1) assms l by (simp add: ilist_def)
  next
    case (Cons t l')
    then have 1: "ilist l1" "0 \<le> s" "s < t" using ilist_tl [of s l1] assms l by (auto simp: ilist_def)
    show ?thesis
    proof (cases "l' = []")
      case True
      then show ?thesis using that(2) [of s] l Cons 1 by (auto simp: ilist_def)
    next
      case False
      then show ?thesis using that(3) [of s t l'] l Cons 1 ilist_tl [of t l'] by (auto simp: ilist_def)
    qed
  qed
qed (use assms in \<open>simp add: ilist_def\<close>)

lemma inv_set_HIGH: "inv_set [UNICODESET_HIGH] = {}"
  by (auto simp: inv_set_def)

lemma inv_set_open: "0 \<le> s \<Longrightarrow> inv_set [s, UNICODESET_HIGH] = {s..<UNICODESET_HIGH}"
  by (auto simp: inv_set_def UNICODESET_LOW_def)

lemma inv_set_Cons2:
  assumes "0 \<le> s" "s < t" "t < UNICODESET_HIGH" "\<forall>x \<in> set l. t < x"
  shows "inv_set (s # t # l) = {s..<t} \<union> inv_set l" "\<forall>x \<in> inv_set l. t < x" "{s..<t} \<inter> inv_set l = {}"
proof -
  have *: "inside c l \<Longrightarrow> t < c" for c using inside_lower assms(4) by blast
  then show "inv_set (s # t # l) = {s..<t} \<union> inv_set l" using assms(1-3)
    by (fastforce simp: inv_set_def UNICODESET_LOW_def)
  show "\<forall>x \<in> inv_set l. t < x" "{s..<t} \<inter> inv_set l = {}" using * by (auto simp: inv_set_def dest!: *)
qed

lemma finite_inv_set [simp]: "finite (inv_set l)"
  by (rule finite_subset [of _ "{0..<UNICODESET_HIGH}"]) (auto simp: inv_set_def UNICODESET_LOW_def)

lemma ilist_induct [consumes 1, case_names empty last range]:
  assumes "ilist l" and "P [UNICODESET_HIGH]"
    and "\<And>s. 0 \<le> s \<Longrightarrow> s < UNICODESET_HIGH \<Longrightarrow> P [s, UNICODESET_HIGH]"
    and "\<And>s t l. ilist l \<Longrightarrow> 0 \<le> s \<Longrightarrow> s < t \<Longrightarrow> t < UNICODESET_HIGH \<Longrightarrow> \<forall>x \<in> set l. t < x \<Longrightarrow> P l \<Longrightarrow> P (s # t # l)"
  shows "P l"
  using assms(1)
proof (induction "length l" arbitrary: l rule: less_induct)
  case less
  from less.prems show ?case
  proof (cases rule: ilist_cases)
    case (3 s t l')
    then show ?thesis using assms(4) less.hyps [of l'] by simp
  qed (use assms(2,3) in auto)
qed

lemma range_sizes_Cons2: "range_sizes (s # t # l) = (t - s) + range_sizes l"
proof -
  let ?f = "\<lambda>i. getRangeEnd l i - getRangeStart l i + 1"
  have shift: "fold (\<lambda>i n. n + f i) is (k :: int) = k + fold (\<lambda>i n. n + f i) is 0"
    for f :: "nat \<Rightarrow> int" and "is" k
  proof (induction "is" arbitrary: k)
    case (Cons a "is")
    from Cons.IH [of "k + f a"] Cons.IH [of "f a"] show ?case by simp
  qed simp
  have "[0..<Suc n] = 0 # map Suc [0..<n]" for n by (simp add: upt_conv_Cons map_Suc_upt del: upt_Suc)
  then have "range_sizes (s # t # l) = fold (\<lambda>i n. n + ?f i) [0..<getRangeCount l] (t - s)"
    by (simp add: range_sizes_def getRangeCount_def getRangeStart_def getRangeEnd_def fold_map comp_def del: upt_Suc)
  also have "\<dots> = (t - s) + range_sizes l"
    unfolding range_sizes_def by (rule shift)
  finally show ?thesis .
qed

lemma range_sizes_card: "ilist l \<Longrightarrow> range_sizes l = int (card (inv_set l))"
proof (induction rule: ilist_induct)
  case (last s)
  then show ?case using range_sizes_Cons2 [of s UNICODESET_HIGH "[]"]
    by (simp add: inv_set_open) (simp add: range_sizes_def getRangeCount_def)
next
  case (range s t l)
  have "card ({s..<t} \<union> inv_set l) = card {s..<t} + card (inv_set l)"
    using inv_set_Cons2(3) [of s t l] range by (intro card_Un_disjoint) auto
  then show ?case using range by (simp add: inv_set_Cons2(1) range_sizes_Cons2)
qed (simp add: inv_set_HIGH range_sizes_def getRangeCount_def)

lemma contains_range_iff:
  assumes l: "ilist l" and r: "0 \<le> a" "a < UNICODESET_HIGH" "a \<le> b" "b < UNICODESET_HIGH"
  shows "contains_range l a b \<longleftrightarrow> {a..b} \<subseteq> inv_set l" (is ?P)
    and "containsNone_range l a b \<longleftrightarrow> {a..b} \<inter> inv_set l = {}" (is ?Q)
proof -
  define i where "i = UnicodeSet_findCodePoint l a"
  have i: "is_rank l a i" using UnicodeSet_findCodePoint_rank l r by (simp add: i_def)
  have below: "inside c l \<longleftrightarrow> odd i" if "a \<le> c" "c < l ! i" for c
  proof (rule is_rank_inside [OF ilist_sorted [OF l]])
    show "is_rank l c i" using i that by (auto simp: is_rank_def)
  qed
  have above: "inside (l ! i) l \<longleftrightarrow> even i" if "l ! i < UNICODESET_HIGH"
  proof -
    have "Suc i < length l"
      using i that ilist_last [OF l] by (cases "i = length l - 1") (auto simp: is_rank_def)
    then have "is_rank l (l ! i) (Suc i)"
      using ilist_nth_less [OF l] by (auto simp: is_rank_def less_Suc_eq intro: less_imp_le)
    from is_rank_inside [OF ilist_sorted [OF l] this] show ?thesis by simp
  qed
  have mid: "l ! i \<in> {a..b}" "l ! i < UNICODESET_HIGH" if "\<not> b < l ! i" using i r that by (auto simp: is_rank_def)
  have legal: "UNICODESET_LOW \<le> c \<and> c < UNICODESET_HIGH" if "c \<in> {a..b}" for c
    using that r by (auto simp: UNICODESET_LOW_def)
  show ?P
  proof (cases "b < l ! i")
    case True
    then show ?thesis using below legal r by (auto simp: contains_range_def Let_def i_def [symmetric] inv_set_def)
  next
    case False
    then have "l ! i \<notin> inv_set l \<or> a \<notin> inv_set l"
      using above mid below [of a] i by (auto simp: inv_set_def is_rank_def)
    moreover have "a \<in> {a..b}" using r by simp
    ultimately have "\<not> {a..b} \<subseteq> inv_set l" using mid(1) [OF False] by blast
    then show ?thesis using False by (simp add: contains_range_def Let_def i_def [symmetric])
  qed
  show ?Q
  proof (cases "b < l ! i")
    case True
    then have "a \<in> {a..b}" "{a..b} \<inter> inv_set l = (if odd i then {a..b} else {})"
      using below legal r by (auto simp: inv_set_def)
    then show ?thesis using True by (auto simp: containsNone_range_def Let_def i_def [symmetric])
  next
    case False
    then have "l ! i \<in> inv_set l \<or> a \<in> inv_set l"
      using above mid below [of a] i legal r by (auto simp: inv_set_def is_rank_def)
    moreover have "a \<in> {a..b}" using r by simp
    ultimately have "{a..b} \<inter> inv_set l \<noteq> {}" using mid(1) [OF False] by blast
    then show ?thesis using False by (simp add: containsNone_range_def Let_def i_def [symmetric])
  qed
qed

subsection \<open>\<open>indexOf\<close> and \<open>charAt\<close>\<close>

lemma indexOf_loop_spec:
  assumes "ilist l" "legal c"
  shows "indexOf_loop c n l = Some (if c \<in> inv_set l then n + int (card {x \<in> inv_set l. x < c}) else -1)"
  using assms
proof (induction arbitrary: n rule: ilist_induct)
  case (last s)
  have "{x \<in> {s..<UNICODESET_HIGH}. x < c} = {s..<c}" using last by auto
  then show ?case using last by (auto simp: inv_set_open)
next
  case (range s t l)
  note u = inv_set_Cons2 [OF range(2-5)]
  consider "c < s" | "s \<le> c" "c < t" | "t \<le> c" by linarith
  then show ?case
  proof cases
    case 1
    then have "c \<notin> inv_set (s # t # l)" using u range by fastforce
    then show ?thesis using 1 by simp
  next
    case 2
    then have "{x \<in> inv_set (s # t # l). x < c} = {s..<c}" using u by fastforce
    moreover have "c \<in> inv_set (s # t # l)" using 2 u by simp
    ultimately show ?thesis using 2 by simp
  next
    case 3
    have "{x \<in> inv_set (s # t # l). x < c} = {s..<t} \<union> {x \<in> inv_set l. x < c}" using u 3 by auto
    then have "card {x \<in> inv_set (s # t # l). x < c} = card {s..<t} + card {x \<in> inv_set l. x < c}"
      using u(3) by (simp add: card_Un_disjoint disjoint_iff)
    moreover have "c \<in> inv_set (s # t # l) \<longleftrightarrow> c \<in> inv_set l" using u(1) 3 by auto
    ultimately show ?thesis using 3 range.IH range.hyps range.prems by simp
  qed
qed (auto simp: inv_set_HIGH)

lemma UnicodeSet_indexOf_spec:
  assumes "ilist l"
  shows "UnicodeSet_indexOf l c = Some (if c \<in> inv_set l then int (card {x \<in> inv_set l. x < c}) else -1)"
proof (cases "legal c")
  case True
  then show ?thesis using indexOf_loop_spec [OF assms True, of 0] by (simp add: UnicodeSet_indexOf_def UNICODESET_HIGH_def)
next
  case False
  then show ?thesis by (auto simp: UnicodeSet_indexOf_def inv_set_def UNICODESET_HIGH_def UNICODESET_LOW_def)
qed

lemma charAt_loop_spec:
  assumes "ilist l" "0 \<le> k"
  shows "if k < int (card (inv_set l))
         then charAt_loop k (take (2 * (length l div 2)) l) \<in> inv_set l \<and>
              int (card {x \<in> inv_set l. x < charAt_loop k (take (2 * (length l div 2)) l)}) = k
         else charAt_loop k (take (2 * (length l div 2)) l) = -1"
  using assms
proof (induction arbitrary: k rule: ilist_induct)
  case (last s)
  have "{x \<in> {s..<UNICODESET_HIGH}. x < s + k} = {s..<s + k}" if "s + k < UNICODESET_HIGH"
    using that by auto
  then show ?case using last by (auto simp: inv_set_open)
next
  case (range s t l)
  note u = inv_set_Cons2 [OF range(2-5)]
  let ?r = "\<lambda>k. charAt_loop k (take (2 * (length l div 2)) l)"
  have cd: "int (card (inv_set (s # t # l))) = (t - s) + int (card (inv_set l))"
    using u(1,3) range by (simp add: card_Un_disjoint)
  show ?case
  proof (cases "k < t - s")
    case True
    then have "{x \<in> inv_set (s # t # l). x < s + k} = {s..<s + k}" using u range by fastforce
    moreover have "s + k \<in> inv_set (s # t # l)" using True u range by simp
    ultimately show ?thesis using True cd range by simp
  next
    case False
    have IH: "if k - (t - s) < int (card (inv_set l))
        then ?r (k - (t - s)) \<in> inv_set l \<and> int (card {x \<in> inv_set l. x < ?r (k - (t - s))}) = k - (t - s)
        else ?r (k - (t - s)) = -1" using range.IH [of "k - (t - s)"] False by simp
    have "int (card {x \<in> inv_set (s # t # l). x < c}) = (t - s) + int (card {x \<in> inv_set l. x < c})"
      if "c \<in> inv_set l" for c
    proof -
      have "{x \<in> inv_set (s # t # l). x < c} = {s..<t} \<union> {x \<in> inv_set l. x < c}" using u that by fastforce
      then show ?thesis using u(3) range by (simp add: card_Un_disjoint disjoint_iff)
    qed
    then show ?thesis using IH False cd u(1) by (auto split: if_splits)
  qed
qed (simp add: inv_set_HIGH)

lemma UnicodeSet_charAt_spec:
  assumes "ilist l"
  shows "0 \<le> k \<and> k < int (card (inv_set l)) \<Longrightarrow>
           UnicodeSet_charAt l k \<in> inv_set l \<and> int (card {x \<in> inv_set l. x < UnicodeSet_charAt l k}) = k"
    and "\<not> (0 \<le> k \<and> k < int (card (inv_set l))) \<Longrightarrow> UnicodeSet_charAt l k = -1"
  using charAt_loop_spec [OF assms, of k] by (auto simp: UnicodeSet_charAt_def split: if_splits)

lemma count_below_inj:
  fixes x y :: int
  assumes "finite A" "x \<in> A" "y \<in> A" "card {z \<in> A. z < x} = card {z \<in> A. z < y}"
  shows "x = y"
proof -
  have lt: "card {z \<in> A. z < u} < card {z \<in> A. z < v}" if "u < v" "u \<in> A" for u v
    using that assms(1) by (intro psubset_card_mono) auto
  show ?thesis using lt [of x y] lt [of y x] assms by linarith
qed

section \<open>Adding one code point\<close>

text \<open>
  The two copy loops of \<^verbatim>\<open>add(UChar32 c)\<close>. The first removes the entries \<open>i - 1\<close> and \<open>i\<close>; the
  second makes room at \<open>i\<close> for the two entries \<open>x\<close> and \<open>y\<close> (the two cells behind the list are
  there because the capacity was ensured; they hold nothing yet).
\<close>

definition close_gap :: "nat \<Rightarrow> int list \<Rightarrow> int list" where
  "close_gap i l = take (length l - 2) (fold (\<lambda>k e. e[k := e ! (k + 2)]) [i - 1..<length l - 2] l)"

definition open_gap :: "nat \<Rightarrow> int \<Rightarrow> int \<Rightarrow> int list \<Rightarrow> int list" where
  "open_gap i x y l = (fold (\<lambda>k e. e[k + 2 := e ! k]) (rev [i..<length l]) (l @ [0, 0]))[i := x, i + 1 := y]"

definition add_char :: "int list \<Rightarrow> nat \<Rightarrow> int \<Rightarrow> int list" where
  "add_char list i c =
     (if c = list ! i - 1 then
        let l1 = list[i := c];
            l2 = (if c = UNICODESET_HIGH - 1 then l1 @ [UNICODESET_HIGH] else l1)
        in if i > 0 \<and> c = l2 ! (i - 1) then close_gap i l2 else l2
      else if i > 0 \<and> c = list ! (i - 1) then list[i - 1 := list ! (i - 1) + 1]
      else open_gap i c (c + 1) list)"

definition complement_list :: "int list \<Rightarrow> int list" where
  "complement_list list = (if list ! 0 = UNICODESET_LOW then tl list else UNICODESET_LOW # list)"

lemma fold_copy_down:
  "k + n + 2 \<le> length l \<Longrightarrow>
   length (fold (\<lambda>k e. e[k := e ! (k + 2)]) [k..<k + n] l) = length l \<and>
   (\<forall>j < length l. fold (\<lambda>k e. e[k := e ! (k + 2)]) [k..<k + n] l ! j =
      (if k \<le> j \<and> j < k + n then l ! (j + 2) else l ! j))"
  by (induction n) (auto simp: nth_list_update)

lemma fold_copy_up:
  "n + i + 2 \<le> length l \<Longrightarrow>
   length (fold (\<lambda>k e. e[k + 2 := e ! k]) (rev [i..<i + n]) l) = length l \<and>
   (\<forall>j < length l. fold (\<lambda>k e. e[k + 2 := e ! k]) (rev [i..<i + n]) l ! j =
      (if i + 2 \<le> j \<and> j < i + n + 2 then l ! (j - 2) else l ! j))"
proof (induction n arbitrary: l)
  case (Suc n)
  from Suc.prems Suc.IH [of "l[i + n + 2 := l ! (i + n)]"] show ?case
    by (auto simp: nth_list_update dest!: less_antisym)
qed auto

lemma close_gap_eq:
  assumes "0 < i" "i < length l" "2 \<le> length l"
  shows "close_gap i l = take (i - 1) l @ drop (i + 1) l"
proof -
  let ?n = "length l - 2 - (i - 1)"
  have n: "i - 1 + ?n = length l - 2" using assms by linarith
  have f: "length (fold (\<lambda>k e. e[k := e ! (k + 2)]) [i - 1..<length l - 2] l) = length l"
    "\<forall>j < length l. fold (\<lambda>k e. e[k := e ! (k + 2)]) [i - 1..<length l - 2] l ! j =
      (if i - 1 \<le> j \<and> j < length l - 2 then l ! (j + 2) else l ! j)"
    using fold_copy_down [of "i - 1" ?n l] assms unfolding n by auto
  show ?thesis
  proof (rule nth_equalityI)
    show "length (close_gap i l) = length (take (i - 1) l @ drop (i + 1) l)"
      using f assms by (simp add: close_gap_def)
    fix j assume "j < length (close_gap i l)"
    then have j: "j < length l - 2" using f by (simp add: close_gap_def)
    have "j + 2 = i + 1 + (j - (i - 1))" if "i - 1 \<le> j" using that assms(1) by linarith
    then show "close_gap i l ! j = (take (i - 1) l @ drop (i + 1) l) ! j"
      using f j assms by (auto simp: close_gap_def nth_append min_def)
  qed
qed

lemma open_gap_eq:
  assumes "i \<le> length l"
  shows "open_gap i x y l = take i l @ x # y # drop i l"
proof -
  let ?n = "length l - i"
  have n: "i + ?n = length l" using assms by simp
  let ?f = "fold (\<lambda>k e. e[k + 2 := e ! k]) (rev [i..<length l]) (l @ [0, 0])"
  have f: "length ?f = length l + 2"
    "\<forall>j < length l + 2. ?f ! j = (if i + 2 \<le> j \<and> j < length l + 2 then (l @ [0, 0]) ! (j - 2) else (l @ [0, 0]) ! j)"
    using fold_copy_up [of ?n i "l @ [0, 0]"] assms unfolding n by auto
  show ?thesis
  proof (rule nth_equalityI)
    show "length (open_gap i x y l) = length (take i l @ x # y # drop i l)"
      using f assms by (simp add: open_gap_def)
    fix j assume "j < length (open_gap i x y l)"
    then have j: "j < length l + 2" using f by (simp add: open_gap_def)
    consider "j < i" | "j = i" | "j = i + 1" | k where "j = i + 2 + k"
      by (metis add_2_eq_Suc' add.commute less_antisym not_less_eq less_iff_Suc_add nat_arith.suc1 Suc_eq_plus1 plus_nat.add_Suc)
    then show "open_gap i x y l ! j = (take i l @ x # y # drop i l) ! j"
      using f j assms by cases (auto simp: open_gap_def nth_append nth_list_update)
  qed
qed

text \<open>
  At an even index the code point is outside, so all three edits change membership of \<open>c\<close>
  and of nothing else.
\<close>

lemma ilist_Cons: "0 \<le> a \<Longrightarrow> a < hd R \<Longrightarrow> ilist R \<Longrightarrow> ilist (a # R)"
  by (cases R) (auto simp: ilist_def UNICODESET_LOW_def)

lemma ilist_append:
  "sorted_wrt (<) P \<Longrightarrow> \<forall>x \<in> set P. 0 \<le> x \<and> x < hd R \<Longrightarrow> ilist R \<Longrightarrow> ilist (P @ R)"
  by (induction P) (auto simp: hd_append intro!: ilist_Cons)

lemma ilist_HIGH [simp]: "ilist [UNICODESET_HIGH]"
  by (simp add: ilist_def UNICODESET_HIGH_def UNICODESET_LOW_def)

lemma ilist_hd: "ilist (q # Q) \<Longrightarrow> Q \<noteq> [] \<Longrightarrow> q < hd Q"
  by (simp add: ilist_def)

text \<open>The list around the index that the search returns.\<close>

definition around :: "int list \<Rightarrow> nat \<Rightarrow> int \<Rightarrow> int list \<Rightarrow> int \<Rightarrow> int list \<Rightarrow> bool" where
  "around l i c P q Q \<longleftrightarrow> l = P @ q # Q \<and> length P = i \<and> c < q \<and> ilist (q # Q) \<and>
     sorted_wrt (<) P \<and> (\<forall>x \<in> set P. 0 \<le> x \<and> x \<le> c)"

lemma around_ex:
  assumes l: "ilist l" and c: "is_rank l c i"
  shows "\<exists>P q Q. around l i c P q Q"
proof (intro exI)
  have i: "i < length l" using c by (simp add: is_rank_def)
  have eq: "l = take i l @ l ! i # drop (Suc i) l" using id_take_nth_drop [OF i] by simp
  then have srt: "sorted_wrt (<) (take i l @ l ! i # drop (Suc i) l)" using l by (simp add: ilist_def)
  have "last (l ! i # drop (Suc i) l) = UNICODESET_HIGH"
    using l eq by (metis ilist_def last_appendR list.distinct(1))
  moreover have "0 \<le> l ! i" using ilist_bounds [OF l i] by simp
  ultimately have "ilist (l ! i # drop (Suc i) l)"
    using srt unfolding sorted_wrt_append by (simp add: ilist_def UNICODESET_LOW_def)
  moreover have "\<forall>x \<in> set (take i l). 0 \<le> x \<and> x \<le> c"
    using c ilist_bounds [OF l] by (auto simp: is_rank_def in_set_conv_nth)
  ultimately show "around l i c (take i l) (l ! i) (drop (Suc i) l)"
    using c eq srt i unfolding around_def sorted_wrt_append by (auto simp: is_rank_def)
qed

lemma around_touching:
  assumes "around l i c P q Q"
  shows "0 < i \<and> c = P ! (i - 1) \<and> (\<exists>P'. P = P' @ [c] \<and> (\<forall>x \<in> set P'. 0 \<le> x \<and> x < c) \<and> sorted_wrt (<) P') \<or>
         \<not> (0 < i \<and> c = P ! (i - 1)) \<and> (\<forall>x \<in> set P. 0 \<le> x \<and> x < c)"
proof (cases P rule: rev_cases)
  case (snoc P' y)
  then have P: "P ! (i - 1) = y" "0 < i" "\<forall>x \<in> set P'. 0 \<le> x \<and> x < y" "sorted_wrt (<) P'" "y \<le> c" "0 \<le> y"
    using assms by (auto simp: around_def sorted_wrt_append)
  show ?thesis
  proof (cases "y = c")
    case True
    then show ?thesis using snoc P by simp
  next
    case False
    then have "\<forall>x \<in> set P. 0 \<le> x \<and> x < c" using P snoc by auto
    then show ?thesis using False P(1) by blast
  qed
qed (use assms in \<open>simp add: around_def\<close>)

lemma add_char_before:
  assumes a: "around l i c P q Q" and c: "legal c" "c = q - 1"
  shows "ilist (add_char l i c) \<and> (\<forall>d. legal d \<longrightarrow> inside d (add_char l i c) = (inside d l \<noteq> (d = c)))"
proof -
  from a have lq: "l = P @ q # Q" "length P = i" "c < q" "ilist (q # Q)" "sorted_wrt (<) P"
    "\<forall>x \<in> set P. 0 \<le> x \<and> x \<le> c" by (auto simp: around_def)
  let ?R = "if c = UNICODESET_HIGH - 1 then Q @ [UNICODESET_HIGH] else Q"
  have "Q = []" if "c = UNICODESET_HIGH - 1" using lq(4) c(2) that ilist_tl by fastforce
  moreover have "Q \<noteq> []" if "c \<noteq> UNICODESET_HIGH - 1" using lq(4) c(2) that by (auto simp: ilist_def)
  ultimately have R: "ilist ?R" "c < hd ?R" and inR: "legal d \<Longrightarrow> inside d ?R = inside d Q" for d
    using lq(4) c ilist_tl [of q Q] ilist_hd [of q Q] by auto
  have l2: "(if c = UNICODESET_HIGH - 1 then l[i := c] @ [UNICODESET_HIGH] else l[i := c]) = P @ c # ?R"
    using lq(1,2) by auto
  have li: "l ! i = q" using lq by (auto simp: nth_append)
  from around_touching [OF a] show ?thesis
  proof (elim disjE conjE exE)
    fix P' assume P: "P = P' @ [c]" "\<forall>x \<in> set P'. 0 \<le> x \<and> x < c" "sorted_wrt (<) P'" "0 < i" "c = P ! (i - 1)"
    have "add_char l i c = close_gap i (P @ c # ?R)"
      using P c li lq(2) unfolding add_char_def l2 Let_def by (simp add: nth_append)
    also have "\<dots> = P' @ ?R" using P(1,4) lq(2) by (subst close_gap_eq) auto
    finally have eq: "add_char l i c = P' @ ?R" .
    have "ilist (P' @ ?R)" using P R by (intro ilist_append) auto
    moreover have "legal d \<Longrightarrow> inside d (P' @ ?R) = (inside d l \<noteq> (d = c))" for d
      using inR [of d] c unfolding lq(1) P(1) by auto
    ultimately show ?thesis unfolding eq by blast
  next
    assume P: "\<not> (0 < i \<and> c = P ! (i - 1))" "\<forall>x \<in> set P. 0 \<le> x \<and> x < c"
    have eq: "add_char l i c = P @ c # ?R"
      using P c li lq(2) unfolding add_char_def l2 Let_def by (auto simp: nth_append)
    have "ilist (P @ c # ?R)" using P R lq c by (intro ilist_append ilist_Cons) auto
    moreover have "legal d \<Longrightarrow> inside d (P @ c # ?R) = (inside d l \<noteq> (d = c))" for d
      using inR [of d] c unfolding lq(1) by auto
    ultimately show ?thesis unfolding eq by blast
  qed
qed

lemma add_char_apart:
  assumes a: "around l i c P q Q" and c: "legal c" "c \<noteq> q - 1"
  shows "ilist (add_char l i c) \<and> (\<forall>d. legal d \<longrightarrow> inside d (add_char l i c) = (inside d l \<noteq> (d = c)))"
proof -
  from a have lq: "l = P @ q # Q" "length P = i" "c < q" "ilist (q # Q)" "sorted_wrt (<) P"
    by (auto simp: around_def)
  have li: "l ! i = q" using lq by (auto simp: nth_append)
  have R: "ilist ((c + 1) # q # Q)" using lq c ilist_Cons [of "c + 1" "q # Q"] by simp
  from around_touching [OF a] show ?thesis
  proof (elim disjE conjE exE)
    fix P' assume P: "P = P' @ [c]" "\<forall>x \<in> set P'. 0 \<le> x \<and> x < c" "sorted_wrt (<) P'" "0 < i" "c = P ! (i - 1)"
    have eq: "add_char l i c = P' @ (c + 1) # q # Q"
      using P(1,4) c li lq(1,2) by (auto simp: add_char_def nth_append)
    have "ilist (P' @ (c + 1) # q # Q)" using P R by (intro ilist_append) auto
    moreover have "inside d (P' @ (c + 1) # q # Q) = (inside d l \<noteq> (d = c))" for d
      unfolding lq(1) P(1) by auto
    ultimately show ?thesis unfolding eq by blast
  next
    assume P: "\<not> (0 < i \<and> c = P ! (i - 1))" "\<forall>x \<in> set P. 0 \<le> x \<and> x < c"
    have eq: "add_char l i c = P @ c # (c + 1) # q # Q"
      using P c li lq(1,2) by (auto simp: add_char_def open_gap_eq nth_append)
    have "ilist (P @ c # (c + 1) # q # Q)"
      using P(2) ilist_Cons [OF _ _ R, of c] lq(5) c by (intro ilist_append) auto
    moreover have "inside d (P @ c # (c + 1) # q # Q) = (inside d l \<noteq> (d = c))" for d
      unfolding lq(1) by auto
    ultimately show ?thesis unfolding eq by blast
  qed
qed

lemma add_char_toggles:
  assumes l: "ilist l" and c: "legal c" "is_rank l c i"
  shows "ilist (add_char l i c) \<and> (\<forall>d. legal d \<longrightarrow> inside d (add_char l i c) = (inside d l \<noteq> (d = c)))"
  using around_ex [OF l c(2)] add_char_before [OF _ c(1)] add_char_apart [OF _ c(1)] by blast

lemma length_add_char:
  assumes "i < length l"
  shows "length (add_char l i c) \<le> length l + (if c = l ! i - 1 then (if c = UNICODESET_HIGH - 1 then 1 else 0) else 2)"
proof -
  have "length (close_gap i l') \<le> length l'" for l' by (simp add: close_gap_def le_diff_conv)
  from le_trans [OF this] show ?thesis
    using assms by (auto simp: add_char_def Let_def open_gap_eq)
qed

lemma complement_list_correct:
  assumes l: "ilist l"
  shows "ilist (complement_list l)" "inv_set (complement_list l) = {UNICODESET_LOW..<UNICODESET_HIGH} - inv_set l"
proof -
  from l obtain a xs where ax: "l = a # xs" by (cases l) (auto simp: ilist_def)
  have "xs \<noteq> []" if "a = 0" using l ax that by (auto simp: ilist_def UNICODESET_HIGH_def)
  then show "ilist (complement_list l)"
    using l ax ilist_tl [of a xs] ilist_Cons [of 0 l] ilist_asc [OF l] asc_hd [of a xs]
    by (auto simp: complement_list_def UNICODESET_LOW_def)
  show "inv_set (complement_list l) = {UNICODESET_LOW..<UNICODESET_HIGH} - inv_set l"
    using ax by (auto simp: complement_list_def inv_set_def UNICODESET_LOW_def)
qed

section \<open>Properties\<close>

text \<open>
  The binary search \<^verbatim>\<open>findCodePoint\<close> returns the number of entries not above \<open>c\<close>, for every
  argument below the terminator; its parity tells whether \<open>c\<close> is in the set.
\<close>

theorem findCodePoint_counts:
  assumes "ilist l" "c < UNICODESET_HIGH"
  shows "UnicodeSet_findCodePoint l c = length (filter (\<lambda>x. x \<le> c) l) \<and>
         (odd (UnicodeSet_findCodePoint l c) \<longleftrightarrow> c \<in> inv_set l)"
proof -
  have "inside c l \<longleftrightarrow> c \<in> inv_set l"
    using inside_lower_le [of c l 0] asc_bounds [OF ilist_asc [OF assms(1)]] assms(2)
    by (cases "c < 0") (auto simp: inv_set_def UNICODESET_LOW_def)
  then show ?thesis
    using rank_count [OF ilist_sorted [OF assms(1)] UnicodeSet_findCodePoint_rank [OF assms]] findCodePoint_odd [OF assms] by simp
qed

theorem findCodePoint_counts_witness:
  "UnicodeSet_findCodePoint [0x41, 0x5b, 0x61, 0x7b, UNICODESET_HIGH] 0x62 = 3"
  using findCodePoint_counts [of "[0x41, 0x5b, 0x61, 0x7b, UNICODESET_HIGH]" "0x62"]
  by (auto simp: ilist_def UNICODESET_HIGH_def UNICODESET_LOW_def)

end
