(* ===== verification/Utf16.thy ===== *)
theory Utf16
  imports Prelude
begin

text \<open>
  UTF-16 (\<^verbatim>\<open>common/unicode/utf16.h\<close>): a string is the list of its 16-bit code units. The code points of
  a string read forwards and backwards, the units of a code point, and moving an index by code
  points.
\<close>

definition is_lead :: "int \<Rightarrow> bool" where
  "is_lead c \<longleftrightarrow> 0xd800 \<le> c \<and> c < 0xdc00"

definition is_trail :: "int \<Rightarrow> bool" where
  "is_trail c \<longleftrightarrow> 0xdc00 \<le> c \<and> c < 0xe000"

definition is_surrogate :: "int \<Rightarrow> bool" where
  "is_surrogate c \<longleftrightarrow> 0xd800 \<le> c \<and> c < 0xe000"

definition get_supplementary :: "int \<Rightarrow> int \<Rightarrow> int" where
  "get_supplementary lead trail = lead * 1024 + trail - (0xd800 * 1024 + 0xdc00 - 0x10000)"

definition U16_LENGTH :: "int \<Rightarrow> int" where
  "U16_LENGTH c = (if c \<le> 0xffff then 1 else 2)"

definition U16_LEAD :: "int \<Rightarrow> int" where
  "U16_LEAD c = c div 1024 + 0xd7c0"

definition U16_TRAIL :: "int \<Rightarrow> int" where
  "U16_TRAIL c = c mod 1024 + 0xdc00"

text \<open>The code points of a string with the number of units of each, read forwards and backwards.\<close>

fun code_points :: "int list \<Rightarrow> (int \<times> nat) list" where
  "code_points [] = []"
| "code_points [c] = [(c, 1)]"
| "code_points (c # c2 # rest) =
     (if is_lead c \<and> is_trail c2 then (get_supplementary c c2, 2) # code_points rest
      else (c, 1) # code_points (c2 # rest))"

fun code_points_back :: "int list \<Rightarrow> (int \<times> nat) list" where
  "code_points_back [] = []"
| "code_points_back [c] = [(c, 1)]"
| "code_points_back (c # c2 # rest) =
     (if is_trail c \<and> is_lead c2 then (get_supplementary c2 c, 2) # code_points_back rest
      else (c, 1) # code_points_back (c2 # rest))"

definition units_of :: "(int \<times> nat) list \<Rightarrow> nat" where
  "units_of cps = sum_list (map snd cps)"

lemma units_of_code_points: "units_of (code_points us) = length us"
  by (induction us rule: code_points.induct) (auto simp: units_of_def)

lemma units_of_code_points_back: "units_of (code_points_back us) = length us"
  by (induction us rule: code_points_back.induct) (auto simp: units_of_def)

section \<open>The units of code points\<close>

definition cp_units :: "int \<Rightarrow> int list" where
  "cp_units c = (if c \<le> 0xffff then [c] else [U16_LEAD c, U16_TRAIL c])"

definition utf16 :: "int list \<Rightarrow> int list" where
  "utf16 cs = concat (map cp_units cs)"

text \<open>A Unicode scalar value: a code point that is not a surrogate.\<close>

definition scalar :: "int \<Rightarrow> bool" where
  "scalar c \<longleftrightarrow> 0 \<le> c \<and> c \<le> 0x10ffff \<and> \<not> is_surrogate c"

lemma utf16_simps [simp]: "utf16 [] = []" "utf16 (c # cs) = cp_units c @ utf16 cs" "utf16 (as @ bs) = utf16 as @ utf16 bs"
  by (simp_all add: utf16_def)

lemma length_cp_units: "int (length (cp_units c)) = U16_LENGTH c"
  by (simp add: cp_units_def U16_LENGTH_def)

lemma supplementary_units:
  assumes "0xffff < c" "c \<le> 0x10ffff"
  shows "is_lead (U16_LEAD c)" "is_trail (U16_TRAIL c)" "get_supplementary (U16_LEAD c) (U16_TRAIL c) = c"
proof -
  have "64 \<le> c div 1024" "c div 1024 < 1088" "0 \<le> c mod 1024" "c mod 1024 < 1024" using assms by auto
  then show "is_lead (U16_LEAD c)" "is_trail (U16_TRAIL c)" by (auto simp: is_lead_def is_trail_def U16_LEAD_def U16_TRAIL_def)
  have "c = c div 1024 * 1024 + c mod 1024" by simp
  then show "get_supplementary (U16_LEAD c) (U16_TRAIL c) = c" by (simp add: get_supplementary_def U16_LEAD_def U16_TRAIL_def)
qed

section \<open>Moving an index\<close>

definition U16_FWD_1 :: "int list \<Rightarrow> int \<Rightarrow> int \<Rightarrow> int" where
  "U16_FWD_1 s i len =
     (if is_lead (s ! nat i) \<and> i + 1 \<noteq> len \<and> is_trail (s ! nat (i + 1)) then i + 2 else i + 1)"

function U16_FWD_N :: "int list \<Rightarrow> int \<Rightarrow> int \<Rightarrow> int \<Rightarrow> int" where
  "U16_FWD_N s i len n = (if n > 0 \<and> (i < len \<or> (len < 0 \<and> s ! nat i \<noteq> 0)) then U16_FWD_N s (U16_FWD_1 s i len) len (n - 1) else i)"
  by auto
termination by (relation "measure (\<lambda>(s, i, len, n). nat n)") auto

declare U16_FWD_N.simps [simp del]

text \<open>Moving over \<open>n\<close> code points of well-formed text moves over their units.\<close>

lemma FWD_N_utf16:
  assumes "\<forall>c \<in> set bs. scalar c" "length bs = n" "s = as @ utf16 bs @ cs" "length as = i" "len = int (length as + length (utf16 (bs @ ds)))"
    "take (length (utf16 ds)) cs = utf16 ds"
  shows "U16_FWD_N s (int i) len (int n) = int (i + length (utf16 bs))"
  using assms
proof (induction n arbitrary: as i bs)
  case 0
  then show ?case by (simp add: U16_FWD_N.simps)
next
  case (Suc n)
  then obtain b bs' where bs: "bs = b # bs'" by (cases bs) auto
  have b: "scalar b" using Suc.prems bs by simp
  have i: "int i < len" using Suc.prems(4,5) bs by (auto simp: cp_units_def)
  have "U16_FWD_1 s (int i) len = int (i + length (cp_units b))"
  proof (cases "b \<le> 0xffff")
    case True
    then have "s ! i = b" using Suc.prems(3,4) bs by (simp add: nth_append cp_units_def)
    moreover have "\<not> is_lead b" using b by (auto simp: scalar_def is_lead_def is_surrogate_def)
    ultimately show ?thesis using True by (simp add: U16_FWD_1_def cp_units_def)
  next
    case False
    then have u: "cp_units b = [U16_LEAD b, U16_TRAIL b]" by (simp add: cp_units_def)
    have "s ! i = U16_LEAD b" "s ! Suc i = U16_TRAIL b" using Suc.prems(3,4) bs u by (auto simp: nth_append)
    moreover have "int i + 1 \<noteq> len" using Suc.prems(4,5) bs u by simp
    moreover have "nat (int i + 1) = Suc i" by simp
    ultimately show ?thesis using supplementary_units [of b] b False u by (simp add: U16_FWD_1_def scalar_def)
  qed
  moreover have "U16_FWD_N s (int (i + length (cp_units b))) len (int n) = int (i + length (cp_units b) + length (utf16 bs'))"
    using Suc.IH [of bs' "as @ cp_units b" "i + length (cp_units b)"] Suc.prems bs by simp
  moreover have "int (Suc n) - 1 = int n" by simp
  ultimately show ?case using i bs by (subst U16_FWD_N.simps) simp
qed

end
