(* ===== verification/BmpSet.thy ===== *)
theory BmpSet
  imports RangeOps Utf16
begin

unbundle bit_operations_syntax

text \<open>
  \<^verbatim>\<open>common/bmpset.cpp\<close>: the lookup tables that a frozen set builds from its inversion list.
  One byte per ASCII character, one bit per code point below U+0800 and two bits per block of 64
  code points below U+10000 (the upper bit marks a block that is neither full nor empty). The
  result of the theory is that the table lookup agrees with the inversion list for every code
  point, and that the string spans stop where the first code point fails the test.
\<close>

section \<open>Construction\<close>

record BMPSet =
  asciiBytes :: "bool list"
  table7FF :: "32 word list"
  bmpBlockBits :: "32 word list"
  list4kStarts :: "nat list"
  bmp_list :: "int list"

text \<open>The loop \<^verbatim>\<open>for(i=from; i<to; ++i) t[i]=f(t[i]);\<close>\<close>

definition for_each :: "nat \<Rightarrow> nat \<Rightarrow> ('a \<Rightarrow> 'a) \<Rightarrow> 'a list \<Rightarrow> 'a list" where
  "for_each from to f table = fold (\<lambda>i t. t[i := f (t ! i)]) [from..<to] table"

abbreviation or_words :: "nat \<Rightarrow> nat \<Rightarrow> 32 word \<Rightarrow> 32 word list \<Rightarrow> 32 word list" where
  "or_words from to bits \<equiv> for_each from to (\<lambda>w. w OR bits)"

definition set32x64Bits :: "32 word list \<Rightarrow> nat \<Rightarrow> nat \<Rightarrow> 32 word list" where
  "set32x64Bits table start limit =
     (let lead = start div 64; trail = start mod 64; bits = push_bit lead 1 in
      if start + 1 = limit then table[trail := table ! trail OR bits]
      else
        let limitLead = limit div 64; limitTrail = limit mod 64 in
        if lead = limitLead then or_words trail limitTrail bits table
        else
          let (table1, lead1) = (if trail > 0 then (or_words trail 64 bits table, lead + 1) else (table, lead));
              table2 =
                (if lead1 < limitLead then
                   let b1 = NOT (push_bit lead1 1 - 1);
                       b2 = (if limitLead < 0x20 then b1 AND (push_bit limitLead 1 - 1) else b1)
                   in or_words 0 64 b2 table1
                 else table1);
              bits3 = push_bit (if limitLead = 0x20 then limitLead - 1 else limitLead) 1
          in or_words 0 limitTrail bits3 table2)"

text \<open>
  \<^verbatim>\<open>start=list[listIndex++]; if(listIndex<listLength) limit=list[listIndex++]; else limit=0x110000;\<close>
\<close>

fun next_range :: "int list \<Rightarrow> (int \<times> int \<times> int list) option" where
  "next_range (start # limit # rest) = Some (start, limit, rest)"
| "next_range [start] = Some (start, 0x110000, [])"
| "next_range [] = None"

lemma next_range_shorter: "next_range l = Some (s, t, r) \<Longrightarrow> length r < length l"
  by (cases l rule: next_range.cases) auto

text \<open>The inner \<^verbatim>\<open>do \<dots> while\<close> of the first loop.\<close>

function ascii_run :: "int \<Rightarrow> int \<Rightarrow> bool list \<Rightarrow> int \<times> bool list" where
  "ascii_run start limit bytes =
     (let bytes' = bytes[nat start := True]; start' = start + 1 in
      if start' < limit \<and> start' < 0x80 then ascii_run start' limit bytes' else (start', bytes'))"
  by pat_completeness auto
termination
  by (relation "measure (\<lambda>(s, l, b). nat (0x80 - s))") auto

declare ascii_run.simps [simp del]

function ascii_loop :: "int list \<Rightarrow> bool list \<Rightarrow> (int \<times> int \<times> int list \<times> bool list) option" where
  "ascii_loop rest bytes =
     (case next_range rest of
        None \<Rightarrow> None
      | Some (start, limit, rest') \<Rightarrow>
          if start \<ge> 0x80 then Some (start, limit, rest', bytes)
          else
            let (start', bytes') = ascii_run start limit bytes in
            if limit \<le> 0x80 then ascii_loop rest' bytes' else Some (start', limit, rest', bytes'))"
  by pat_completeness auto
termination
  by (relation "measure (\<lambda>(r, b). length r)") (auto dest: next_range_shorter)

declare ascii_loop.simps [simp del]

function table_loop ::
    "int \<Rightarrow> int \<Rightarrow> int list \<Rightarrow> 32 word list \<Rightarrow> (int \<times> int \<times> int list \<times> 32 word list) option" where
  "table_loop start limit rest table =
     (if start < 0x800 then
        let table' = set32x64Bits table (nat start) (nat (if limit \<le> 0x800 then limit else 0x800)) in
        if limit > 0x800 then Some (0x800, limit, rest, table')
        else case next_range rest of
               None \<Rightarrow> None
             | Some (start', limit', rest') \<Rightarrow> table_loop start' limit' rest' table'
      else Some (start, limit, rest, table))"
  by pat_completeness auto
termination
  by (relation "measure (\<lambda>(s, t, r, b). length r)") (auto dest: next_range_shorter)

declare table_loop.simps [simp del]

definition mark_mixed :: "nat \<Rightarrow> 32 word list \<Rightarrow> 32 word list" where
  "mark_mixed block bits = bits[block mod 64 := bits ! (block mod 64) OR push_bit (block div 64) 0x10001]"

text \<open>One turn of the loop over the blocks: the new \<^verbatim>\<open>limit\<close>, \<^verbatim>\<open>minStart\<close> and table.\<close>

definition block_step :: "int \<Rightarrow> int \<Rightarrow> int \<Rightarrow> 32 word list \<Rightarrow> int \<times> int \<times> 32 word list" where
  "block_step start0 limit0 minStart0 bits0 =
     (let limit = (if limit0 > 0x10000 then 0x10000 else limit0);
          start = (if start0 < minStart0 then minStart0 else start0) in
      if start < limit then
        let (start1, minStart1, bits1) =
              (if start mod 64 \<noteq> 0
               then let s = (start div 64 + 1) * 64 in (s, s, mark_mixed (nat (start div 64)) bits0)
               else (start, minStart0, bits0))
        in if start1 < limit then
             let bits2 = (if start1 < (limit div 64) * 64
                          then set32x64Bits bits1 (nat (start1 div 64)) (nat (limit div 64)) else bits1)
             in if limit mod 64 \<noteq> 0
                then let t = (limit div 64 + 1) * 64 in (t, t, mark_mixed (nat (limit div 64)) bits2)
                else (limit, minStart1, bits2)
           else (limit, minStart1, bits1)
      else (limit, minStart0, bits0))"

function block_loop :: "int \<Rightarrow> int \<Rightarrow> int \<Rightarrow> int list \<Rightarrow> 32 word list \<Rightarrow> 32 word list option" where
  "block_loop start limit minStart rest bits =
     (if start < 0x10000 then
        case block_step start limit minStart bits of
          (limit', minStart', bits') \<Rightarrow>
            if limit' = 0x10000 then Some bits'
            else case next_range rest of
                   None \<Rightarrow> None
                 | Some (start'', limit'', rest'') \<Rightarrow> block_loop start'' limit'' minStart' rest'' bits'
      else Some bits)"
  by pat_completeness auto
termination
  by (relation "measure (\<lambda>(s, t, m, r, b). length r)") (auto dest: next_range_shorter)

declare block_loop.simps [simp del]

definition BMPSet_initBits :: "BMPSet \<Rightarrow> BMPSet option" where
  "BMPSet_initBits s =
     (case ascii_loop (bmp_list s) (asciiBytes s) of
        None \<Rightarrow> None
      | Some (start, limit, rest, bytes) \<Rightarrow>
          (case table_loop start limit rest (table7FF s) of
             None \<Rightarrow> None
           | Some (start', limit', rest', table) \<Rightarrow>
               (case block_loop start' limit' 0x800 rest' (bmpBlockBits s) of
                  None \<Rightarrow> None
                | Some bits \<Rightarrow> Some (s\<lparr>asciiBytes := bytes, table7FF := table, bmpBlockBits := bits\<rparr>))))"

definition BMPSet_overrideIllegal :: "BMPSet \<Rightarrow> BMPSet" where
  "BMPSet_overrideIllegal s =
     (let mask = NOT (push_bit 0xd 0x10001); bits = push_bit 0xd 1 in
      if containsSlow (bmp_list s) 0xfffd (list4kStarts s ! 0xf) (list4kStarts s ! 0x10) then
        s\<lparr>asciiBytes := for_each 0x80 0xc0 (\<lambda>_. True) (asciiBytes s),
          table7FF := or_words 0 64 3 (table7FF s),
          bmpBlockBits :=
            for_each 32 64 (\<lambda>w. (w AND mask) OR bits) (or_words 0 32 1 (bmpBlockBits s))\<rparr>
      else s\<lparr>bmpBlockBits := for_each 32 64 (\<lambda>w. w AND mask) (bmpBlockBits s)\<rparr>)"

definition find4kStarts :: "int list \<Rightarrow> nat list" where
  "find4kStarts list =
     (let n = length list - 1 in
      fold (\<lambda>i starts. starts @ [findCodePoint list (int i * 0x1000) (starts ! (i - 1)) n])
           [1..<0x11] [findCodePoint list 0x800 0 n] @ [n])"

definition BMPSet_new :: "int list \<Rightarrow> BMPSet option" where
  "BMPSet_new parentList =
     map_option BMPSet_overrideIllegal
       (BMPSet_initBits
          \<lparr>asciiBytes = replicate 0xc0 False, table7FF = replicate 64 0, bmpBlockBits = replicate 64 0,
           list4kStarts = find4kStarts parentList, bmp_list = parentList\<rparr>)"

definition BMPSet_copy :: "BMPSet \<Rightarrow> int list \<Rightarrow> BMPSet" where
  "BMPSet_copy other newParentList =
     \<lparr>asciiBytes = asciiBytes other, table7FF = table7FF other, bmpBlockBits = bmpBlockBits other,
      list4kStarts = list4kStarts other, bmp_list = newParentList\<rparr>"

section \<open>Lookup\<close>

definition uint32 :: "int \<Rightarrow> int" where
  "uint32 c = c mod 4294967296"

definition in_table7FF :: "BMPSet \<Rightarrow> int \<Rightarrow> bool" where
  "in_table7FF s c \<longleftrightarrow> (table7FF s ! nat (c mod 64)) AND push_bit (nat (c div 64)) 1 \<noteq> 0"

definition twoBits :: "BMPSet \<Rightarrow> int \<Rightarrow> 32 word" where
  "twoBits s c = drop_bit (nat (c div 4096)) (bmpBlockBits s ! nat ((c div 64) mod 64)) AND 0x10001"

definition in_bmpBlock :: "BMPSet \<Rightarrow> int \<Rightarrow> bool" where
  "in_bmpBlock s c =
     (if twoBits s c \<le> 1 then twoBits s c \<noteq> 0
      else containsSlow (bmp_list s) c (list4kStarts s ! nat (c div 4096)) (list4kStarts s ! (nat (c div 4096) + 1)))"

definition BMPSet_contains :: "BMPSet \<Rightarrow> int \<Rightarrow> bool" where
  "BMPSet_contains s c =
     (if uint32 c \<le> 0x7f then asciiBytes s ! nat c
      else if uint32 c \<le> 0x7ff then in_table7FF s c
      else if uint32 c < 0xd800 \<or> c \<ge> 0xe000 \<and> c \<le> 0xffff then in_bmpBlock s c
      else if uint32 c \<le> 0x10ffff
      then containsSlow (bmp_list s) c (list4kStarts s ! 0xd) (list4kStarts s ! 0x11)
      else False)"

section \<open>The bit tables\<close>

text \<open>Bit \<open>n\<close> of a table in vertical organisation: bit \<open>n div 64\<close> of word \<open>n mod 64\<close>.\<close>

definition vbit :: "32 word list \<Rightarrow> nat \<Rightarrow> bool" where
  "vbit table n = bit (table ! (n mod 64)) (n div 64)"

lemma length_for_each [simp]: "length (for_each a b f t) = length t"
proof -
  have "length (fold (\<lambda>i t. t[i := f (t ! i)]) is t) = length t" for "is"
    by (induction "is" arbitrary: t) auto
  then show ?thesis by (simp add: for_each_def)
qed

lemma nth_for_each:
  "b \<le> length t \<Longrightarrow> j < length t \<Longrightarrow> for_each a b f t ! j = (if a \<le> j \<and> j < b then f (t ! j) else t ! j)"
proof (induction b)
  case (Suc b)
  have "for_each a (Suc b) f t = (if a \<le> b then (for_each a b f t)[b := f (for_each a b f t ! b)] else for_each a b f t)"
    by (auto simp: for_each_def)
  then show ?case using Suc by (auto simp: nth_list_update less_Suc_eq)
qed (simp add: for_each_def)

lemma bit_one_shift: "n < 32 \<Longrightarrow> bit (push_bit m (1 :: 32 word)) n \<longleftrightarrow> n = m"
  by (auto simp: bit_exp_iff)

lemma bit_below: "n < 32 \<Longrightarrow> bit (push_bit m (1 :: 32 word) - 1) n \<longleftrightarrow> n < m"
  using bit_mask_iff [of m n, where ?'a = "32 word"]
  by (simp add: push_bit_eq_mult mask_eq_exp_minus_1)

lemma vbit_or_words:
  assumes "length t = 64" "n < 2048" "b \<le> 64"
  shows "vbit (or_words a b w t) n \<longleftrightarrow> vbit t n \<or> a \<le> n mod 64 \<and> n mod 64 < b \<and> bit w (n div 64)"
  using assms by (auto simp: vbit_def nth_for_each bit_or_iff)

lemma length_set32x64Bits [simp]: "length (set32x64Bits t a b) = length t"
  by (simp add: set32x64Bits_def Let_def split_beta)

lemma vbit_set32x64Bits:
  assumes t: "length t = 64" and r: "start < limit" "limit \<le> 2048" and n: "n < 2048"
  shows "vbit (set32x64Bits t start limit) n \<longleftrightarrow> vbit t n \<or> start \<le> n \<and> n < limit"
proof -
  define lead trail where lt: "lead = start div 64" "trail = start mod 64"
  define ll lr where ll: "ll = limit div 64" "lr = limit mod 64"
  define b u where bu: "b = n div 64" "u = n mod 64"
  have d: "start = 64 * lead + trail" "trail < 64" "limit = 64 * ll + lr" "lr < 64" "n = 64 * b + u" "u < 64"
    and b32: "b < 32" "lead < 32"
    using r n by (auto simp: lt ll bu)
  have ll32: "ll \<le> 32" "lead \<le> ll" using r d by auto
  have vb: "vbit (or_words x y w t') n \<longleftrightarrow> vbit t' n \<or> x \<le> u \<and> u < y \<and> bit w b"
    if "length t' = 64" "y \<le> 64" for x y w t'
    using vbit_or_words [OF that(1) n that(2)] by (simp add: bu)
  note bits = bit_one_shift [OF b32(1)] bit_below [OF b32(1)]
  consider "start + 1 = limit" | "start + 1 \<noteq> limit" "lead = ll" | "start + 1 \<noteq> limit" "lead \<noteq> ll" by blast
  then show ?thesis
  proof cases
    case 1
    have "vbit (t[trail := t ! trail OR push_bit lead 1]) n \<longleftrightarrow> vbit t n \<or> u = trail \<and> b = lead"
      using t d b32 bits(1) [of lead] by (auto simp: vbit_def bu [symmetric] nth_list_update bit_or_iff)
    moreover have "u = trail \<and> b = lead \<longleftrightarrow> n = start" unfolding bu lt by (metis div_mult_mod_eq)
    moreover have "n = start \<longleftrightarrow> start \<le> n \<and> n < limit" using 1 by auto
    ultimately show ?thesis using 1 by (simp add: set32x64Bits_def Let_def lt [symmetric])
  next
    case 2
    have "trail \<le> u \<and> u < lr \<and> b = lead \<longleftrightarrow> start \<le> n \<and> n < limit"
      using 2 d by (cases b ll rule: linorder_cases) auto
    then show ?thesis using 2 vb [OF t, of lr trail] d bits
      by (simp add: set32x64Bits_def Let_def lt [symmetric] ll [symmetric])
  next
    case 3
    define l1 where "l1 = (if trail > 0 then lead + 1 else lead)"
    define t1 where "t1 = (if trail > 0 then or_words trail 64 (push_bit lead 1) t else t)"
    define m where "m = (let b1 = NOT (push_bit l1 1 - 1) :: 32 word in if ll < 32 then b1 AND (push_bit ll 1 - 1) else b1)"
    define t2 where "t2 = (if l1 < ll then or_words 0 64 m t1 else t1)"
    have eq: "set32x64Bits t start limit = or_words 0 lr (push_bit (if ll = 32 then ll - 1 else ll) 1) t2"
      using 3 by (simp add: set32x64Bits_def Let_def lt [symmetric] ll [symmetric] t2_def m_def t1_def l1_def)
    have len: "length t1 = 64" "length t2 = 64" by (simp_all add: t1_def t2_def t)
    have m: "bit m b \<longleftrightarrow> l1 \<le> b \<and> b < ll"
      using b32 bits ll32 by (auto simp: m_def Let_def bit_and_iff bit_not_iff)
    have v1: "vbit t1 n \<longleftrightarrow> vbit t n \<or> trail > 0 \<and> b = lead \<and> trail \<le> u" using vb [OF t] bits d by (auto simp: t1_def)
    have v2: "vbit t2 n \<longleftrightarrow> vbit t1 n \<or> l1 \<le> b \<and> b < ll" using vb [OF len(1)] m d(6) by (auto simp: t2_def)
    have v3: "vbit (set32x64Bits t start limit) n \<longleftrightarrow> vbit t2 n \<or> u < lr \<and> b = ll"
      unfolding eq using vb [OF len(2), of lr] d bits r by auto
    have "trail > 0 \<and> b = lead \<and> trail \<le> u \<or> l1 \<le> b \<and> b < ll \<or> u < lr \<and> b = ll \<longleftrightarrow> start \<le> n \<and> n < limit"
      using 3 d ll32 by (cases "trail > 0") (auto simp: l1_def)
    then show ?thesis using v1 v2 v3 by blast
  qed
qed

section \<open>The loops over the inversion list\<close>

text \<open>
  What is left of the list at the head of a loop: \<open>covers s t r T m\<close> says that from \<open>m\<close> on the
  current range \<open>s..<t\<close> and the entries \<open>r\<close> still to be read make up the set \<open>T\<close>.
\<close>

definition covers :: "int \<Rightarrow> int \<Rightarrow> int list \<Rightarrow> (int \<Rightarrow> bool) \<Rightarrow> int \<Rightarrow> bool" where
  "covers s t r T m \<longleftrightarrow> (\<forall>c. m \<le> c \<and> c < UNICODESET_HIGH \<longrightarrow> (s \<le> c \<and> c < t \<or> inside c r) = T c)"

text \<open>A cursor that has not run off the end: what remains is a list again, above \<open>t\<close>.\<close>

definition cursor :: "int \<Rightarrow> int \<Rightarrow> int list \<Rightarrow> bool" where
  "cursor s t r \<longleftrightarrow> 0 \<le> s \<and> s \<le> t \<and> (s < UNICODESET_HIGH \<longrightarrow> s < t) \<and> t \<le> UNICODESET_HIGH \<and>
     (t < UNICODESET_HIGH \<longrightarrow> ilist r \<and> (\<forall>x \<in> set r. t < x)) \<and>
     (t = UNICODESET_HIGH \<longrightarrow> (\<forall>c < UNICODESET_HIGH. \<not> inside c r))"

lemma cursor_above: "cursor s t r \<Longrightarrow> inside c r \<Longrightarrow> c < UNICODESET_HIGH \<Longrightarrow> t < c"
  using inside_lower [of c r t] by (auto simp: cursor_def)

lemma next_range_ilist:
  assumes "ilist l"
  obtains s t r where "next_range l = Some (s, t, r)" "cursor s t r" "s \<in> set l"
    "\<And>c. c < UNICODESET_HIGH \<Longrightarrow> inside c l \<longleftrightarrow> s \<le> c \<and> c < t \<or> inside c r"
  using assms
proof (cases rule: ilist_cases)
  case 1
  then show ?thesis using that [of UNICODESET_HIGH UNICODESET_HIGH "[]"]
    by (simp add: cursor_def UNICODESET_HIGH_def)
next
  case (2 s)
  then show ?thesis using that [of s UNICODESET_HIGH "[]"] by (simp add: cursor_def)
next
  case (3 s t l')
  have "inside c l \<longleftrightarrow> s \<le> c \<and> c < t \<or> inside c l'" for c
    using inside_lower [of c l' t] 3 by auto
  then show ?thesis using that [of s t l'] 3 by (simp add: cursor_def)
qed

lemma ascii_run_spec:
  assumes "0 \<le> start" "start < limit" "start < 0x80" "length bytes = 0xc0"
    and "ascii_run start limit bytes = (start', bytes')"
  shows "start' = min limit 0x80 \<and> length bytes' = 0xc0 \<and>
         (\<forall>c < 0xc0. bytes' ! c = (bytes ! c \<or> start \<le> int c \<and> int c < min limit 0x80))"
  using assms
proof (induction start limit bytes rule: ascii_run.induct)
  case (1 start limit bytes)
  let ?b = "bytes[nat start := True]"
  have nb: "?b ! c = (bytes ! c \<or> int c = start)" if "c < 0xc0" for c
    using "1.prems" that by (auto simp: nth_list_update)
  show ?case
  proof (cases "start + 1 < limit \<and> start + 1 < 0x80")
    case True
    then have "ascii_run (start + 1) limit ?b = (start', bytes')"
      using "1.prems"(5) by (subst (asm) ascii_run.simps) (simp add: Let_def)
    from "1.IH" [OF refl refl True _ _ _ _ this] "1.prems" True nb show ?thesis by auto
  next
    case False
    then have "start' = start + 1" "bytes' = ?b"
      using "1.prems"(5) by (subst (asm) ascii_run.simps, auto simp: Let_def split: if_splits)+
    then show ?thesis using False "1.prems" nb by auto
  qed
qed

lemma ascii_loop_spec:
  assumes "ilist rest" "length bytes = 0xc0"
    and "\<And>c. 0 \<le> c \<Longrightarrow> c < 0x80 \<Longrightarrow> (bytes ! nat c \<or> inside c rest) = T c"
    and "\<And>c. 0x80 \<le> c \<Longrightarrow> c < UNICODESET_HIGH \<Longrightarrow> inside c rest = T c"
  shows "\<exists>s t r bytes'. ascii_loop rest bytes = Some (s, t, r, bytes') \<and> cursor s t r \<and> 0x80 \<le> s \<and>
           length bytes' = 0xc0 \<and> covers s t r T 0x80 \<and> (\<forall>c. 0 \<le> c \<and> c < 0x80 \<longrightarrow> bytes' ! nat c = T c)"
  using assms
proof (induction rest bytes rule: ascii_loop.induct)
  case (1 rest bytes)
  obtain s t r where n: "next_range rest = Some (s, t, r)" and cu: "cursor s t r"
    and i: "\<And>c. c < UNICODESET_HIGH \<Longrightarrow> inside c rest \<longleftrightarrow> s \<le> c \<and> c < t \<or> inside c r"
    using next_range_ilist [OF "1.prems"(1)] by metis
  have H: "0x80 < UNICODESET_HIGH" by (simp add: UNICODESET_HIGH_def)
  show ?case
  proof (cases "0x80 \<le> s")
    case True
    have "\<not> inside c rest" if "c < 0x80" for c
      using i [of c] cursor_above [OF cu, of c] cu that True H by (auto simp: cursor_def)
    moreover have "ascii_loop rest bytes = Some (s, t, r, bytes)"
      using n True by (simp add: ascii_loop.simps)
    moreover have "covers s t r T 0x80" using i "1.prems"(4) by (auto simp: covers_def)
    ultimately show ?thesis using True cu "1.prems"(2,3) by simp
  next
    case False
    obtain s' b' where run: "ascii_run s t bytes = (s', b')" by fastforce
    have st: "0 \<le> s" "s < t" using cu False H by (auto simp: cursor_def)
    from ascii_run_spec [OF st _ "1.prems"(2) run] False
    have r': "s' = min t 0x80" "length b' = 0xc0"
      "\<forall>c < 0xc0. b' ! c = (bytes ! c \<or> s \<le> int c \<and> int c < min t 0x80)" by auto
    have b': "b' ! nat c = (bytes ! nat c \<or> s \<le> c \<and> c < t)" if "0 \<le> c" "c < 0x80" for c
      using r'(3) that by auto
    show ?thesis
    proof (cases "t \<le> 0x80")
      case True
      have il: "ilist r" using cu True H by (auto simp: cursor_def)
      have "ascii_loop rest bytes = ascii_loop r b'"
        using n False run True by (subst ascii_loop.simps) simp
      moreover have "(b' ! nat c \<or> inside c r) = T c" if "0 \<le> c" "c < 0x80" for c
        using b' [OF that] i [of c] "1.prems"(3) [OF that] that H by auto
      moreover have "inside c r = T c" if "0x80 \<le> c" "c < UNICODESET_HIGH" for c
        using i [of c] "1.prems"(4) [OF that] that True by auto
      ultimately show ?thesis
        using "1.IH" [OF n refl refl False run [symmetric] refl True il r'(2)] by simp
    next
      case t: False
      have "ascii_loop rest bytes = Some (s', t, r, b')"
        using n False run t by (subst ascii_loop.simps) simp
      moreover have "cursor s' t r" using cu r'(1) t H by (auto simp: cursor_def)
      moreover have "b' ! nat c = T c" if "0 \<le> c" "c < 0x80" for c
        using b' [OF that] i [of c] "1.prems"(3) [OF that] cursor_above [OF cu, of c] that H t by auto
      moreover have "covers s' t r T 0x80"
        using i "1.prems"(4) r'(1) t False by (auto simp: covers_def)
      ultimately show ?thesis using r'(1,2) t by simp
    qed
  qed
qed

lemma table_loop_spec:
  assumes "cursor s t r" "0x80 \<le> s" "length table = 64" "covers s t r T 0x800"
    and "\<And>c. 0x80 \<le> c \<Longrightarrow> c < 0x800 \<Longrightarrow> (vbit table (nat c) \<or> s \<le> c \<and> c < t \<or> inside c r) = T c"
  shows "\<exists>s' t' r' table'. table_loop s t r table = Some (s', t', r', table') \<and> cursor s' t' r' \<and> 0x800 \<le> s' \<and>
           length table' = 64 \<and> covers s' t' r' T 0x800 \<and> (\<forall>c. 0x80 \<le> c \<and> c < 0x800 \<longrightarrow> vbit table' (nat c) = T c)"
  using assms
proof (induction s t r table rule: table_loop.induct)
  case (1 s t r table)
  have H: "0x800 < UNICODESET_HIGH" by (simp add: UNICODESET_HIGH_def)
  show ?case
  proof (cases "s < 0x800")
    case False
    have "\<not> inside c r" if "c < 0x800" for c
      using cursor_above [OF "1.prems"(1), of c] "1.prems"(1) that False H by (auto simp: cursor_def)
    then show ?thesis using False "1.prems" by (subst table_loop.simps) simp
  next
    case True
    let ?t = "if t \<le> 0x800 then t else 0x800"
    let ?tab = "set32x64Bits table (nat s) (nat ?t)"
    have st: "0 \<le> s" "s < t" using "1.prems"(1) True H by (auto simp: cursor_def)
    have v: "vbit ?tab (nat c) = (vbit table (nat c) \<or> s \<le> c \<and> c < t)" if "0x80 \<le> c" "c < 0x800" for c
    proof -
      have b: "nat s < nat ?t" "nat ?t \<le> 2048" "nat c < 2048" using True st that by auto
      have "nat s \<le> nat c \<and> nat c < nat ?t \<longleftrightarrow> s \<le> c \<and> c < t" using True st that by auto
      then show ?thesis using vbit_set32x64Bits [OF "1.prems"(3) b] by simp
    qed
    show ?thesis
    proof (cases "0x800 < t")
      case t: True
      have "\<not> inside c r" if "c < 0x800" for c
        using cursor_above [OF "1.prems"(1), of c] that t H by auto
      moreover have "table_loop s t r table = Some (0x800, t, r, ?tab)"
        using True t by (subst table_loop.simps) (simp add: Let_def)
      moreover have "cursor 0x800 t r" "covers 0x800 t r T 0x800"
        using "1.prems"(1,4) t True H by (auto simp: cursor_def covers_def)
      ultimately show ?thesis using v "1.prems"(3,5) by simp
    next
      case t: False
      then have il: "ilist r" "\<forall>x \<in> set r. t < x" using "1.prems"(1) H by (auto simp: cursor_def)
      obtain s' t' r' where n: "next_range r = Some (s', t', r')" and cu: "cursor s' t' r'" "s' \<in> set r"
        and i: "\<And>c. c < UNICODESET_HIGH \<Longrightarrow> inside c r \<longleftrightarrow> s' \<le> c \<and> c < t' \<or> inside c r'"
        using next_range_ilist [OF il(1)] by metis
      have "table_loop s t r table = table_loop s' t' r' ?tab"
        using True t n by (subst table_loop.simps) (simp add: Let_def)
      moreover have "0x80 \<le> s'" using cu(2) il(2) "1.prems"(2) st by force
      moreover have "covers s' t' r' T 0x800" using "1.prems"(4) i t by (auto simp: covers_def)
      moreover have "(vbit ?tab (nat c) \<or> s' \<le> c \<and> c < t' \<or> inside c r') = T c" if "0x80 \<le> c" "c < 0x800" for c
        using v [OF that] i [of c] "1.prems"(5) [OF that] that H by auto
      ultimately show ?thesis
        using "1.IH" [OF True refl t n refl refl cu(1)] "1.prems"(3) by simp
    qed
  qed
qed

subsection \<open>Blocks of 64\<close>

definition mixed_block :: "32 word list \<Rightarrow> int \<Rightarrow> bool" where
  "mixed_block bits c = vbit bits (nat (c div 64) + 1024)"

definition full_block :: "32 word list \<Rightarrow> int \<Rightarrow> bool" where
  "full_block bits c = vbit bits (nat (c div 64))"

definition blocks_ok :: "32 word list \<Rightarrow> (int \<Rightarrow> bool) \<Rightarrow> (int \<Rightarrow> bool) \<Rightarrow> bool" where
  "blocks_ok bits P T \<longleftrightarrow>
     (\<forall>c. 0x800 \<le> c \<and> c < 0x10000 \<longrightarrow> mixed_block bits c \<or> (full_block bits c \<or> P c) = T c)"

lemma bit_two: "n < 32 \<Longrightarrow> m < 16 \<Longrightarrow> bit (push_bit m (0x10001 :: 32 word)) n \<longleftrightarrow> n = m \<or> n = m + 16"
proof -
  assume n: "n < 32" "m < 16"
  have "(0x10001 :: 32 word) = 1 OR push_bit 16 1" by simp
  moreover have "bit ((1 :: 32 word) OR push_bit 16 1) i \<longleftrightarrow> i = 0 \<or> i = 16" for i
    unfolding bit_or_iff bit_push_bit_iff bit_1_iff by auto
  ultimately have two: "bit (0x10001 :: 32 word) i \<longleftrightarrow> i = 0 \<or> i = 16" for i by (simp only:)
  have "bit (push_bit m (0x10001 :: 32 word)) n \<longleftrightarrow> m \<le> n \<and> (n - m = 0 \<or> n - m = 16)"
    unfolding bit_push_bit_iff two using n(1) by simp
  also have "\<dots> \<longleftrightarrow> n = m \<or> n = m + 16" by auto
  finally show ?thesis .
qed

lemma length_mark_mixed [simp]: "length (mark_mixed k bits) = length bits"
  by (simp add: mark_mixed_def)

lemma vbit_mark_mixed:
  assumes "length bits = 64" "k < 1024" "n < 2048"
  shows "vbit (mark_mixed k bits) n \<longleftrightarrow> vbit bits n \<or> n = k \<or> n = k + 1024"
proof -
  have "vbit (mark_mixed k bits) n \<longleftrightarrow> vbit bits n \<or> n mod 64 = k mod 64 \<and> (n div 64 = k div 64 \<or> n div 64 = k div 64 + 16)"
    using assms bit_two [of "n div 64" "k div 64"]
    by (auto simp: vbit_def mark_mixed_def nth_list_update bit_or_iff)
  moreover have "n mod 64 = k mod 64 \<and> n div 64 = k div 64 \<longleftrightarrow> n = k" by (metis div_mult_mod_eq)
  moreover have "n mod 64 = k mod 64 \<and> n div 64 = k div 64 + 16 \<longleftrightarrow> n = k + 1024"
  proof
    have "n = 64 * (n div 64) + n mod 64" "k = 64 * (k div 64) + k mod 64" by simp_all
    moreover assume "n mod 64 = k mod 64 \<and> n div 64 = k div 64 + 16"
    ultimately show "n = k + 1024" by linarith
  qed (use mod_mult_self1 [of k 16 64] in simp)
  ultimately show ?thesis by blast
qed

lemma block_bounds: "0x800 \<le> c \<Longrightarrow> c < 0x10000 \<Longrightarrow> nat (c div 64) < 1024 \<and> 0 \<le> c div 64"
  by linarith

text \<open>Marking the block of \<open>x\<close> as mixed leaves only the code points of other blocks to be settled.\<close>

lemma blocks_ok_mixed:
  assumes b: "blocks_ok bits P T" and len: "length bits = 64" and x: "0 \<le> x" "x < 0x10000"
    and P: "\<And>c. 0x800 \<le> c \<Longrightarrow> c < 0x10000 \<Longrightarrow> c div 64 \<noteq> x div 64 \<Longrightarrow> P' c = P c"
  shows "blocks_ok (mark_mixed (nat (x div 64)) bits) P' T"
  unfolding blocks_ok_def
proof (intro allI impI)
  fix c :: int assume c: "0x800 \<le> c \<and> c < 0x10000"
  have k: "nat (x div 64) < 1024" "nat (c div 64) < 1024" using x c by linarith+
  have v: "mixed_block (mark_mixed (nat (x div 64)) bits) c \<longleftrightarrow> mixed_block bits c \<or> c div 64 = x div 64"
    "full_block (mark_mixed (nat (x div 64)) bits) c \<longleftrightarrow> full_block bits c \<or> c div 64 = x div 64"
    using vbit_mark_mixed [OF len k(1)] k c x unfolding mixed_block_def full_block_def by auto
  show "mixed_block (mark_mixed (nat (x div 64)) bits) c \<or> (full_block (mark_mixed (nat (x div 64)) bits) c \<or> P' c) = T c"
    using v P b c by (auto simp: blocks_ok_def)
qed

lemma blocks_ok_full:
  assumes b: "blocks_ok bits P T" and len: "length bits = 64" and r: "0 \<le> a" "a < b'" "b' \<le> 1024"
    and P: "\<And>c. 0x800 \<le> c \<Longrightarrow> c < 0x10000 \<Longrightarrow> P c \<longleftrightarrow> a \<le> c div 64 \<and> c div 64 < b' \<or> P' c"
  shows "blocks_ok (set32x64Bits bits (nat a) (nat b')) P' T"
  unfolding blocks_ok_def
proof (intro allI impI)
  fix c :: int assume c: "0x800 \<le> c \<and> c < 0x10000"
  have k: "nat (c div 64) < 1024" "0 \<le> c div 64" using c by linarith+
  have v: "mixed_block (set32x64Bits bits (nat a) (nat b')) c \<longleftrightarrow> mixed_block bits c"
    "full_block (set32x64Bits bits (nat a) (nat b')) c \<longleftrightarrow> full_block bits c \<or> a \<le> c div 64 \<and> c div 64 < b'"
    using vbit_set32x64Bits [OF len, of "nat a" "nat b'"] r k unfolding mixed_block_def full_block_def by auto
  show "mixed_block (set32x64Bits bits (nat a) (nat b')) c \<or> (full_block (set32x64Bits bits (nat a) (nat b')) c \<or> P' c) = T c"
    using v P [of c] b c by (auto simp: blocks_ok_def)
qed

lemma blocks_ok_cong:
  "blocks_ok bits P T \<Longrightarrow> (\<And>c. 0x800 \<le> c \<Longrightarrow> c < 0x10000 \<Longrightarrow> P' c = P c) \<Longrightarrow> blocks_ok bits P' T"
  by (auto simp: blocks_ok_def)

lemma le_block: "k * 64 \<le> c \<longleftrightarrow> k \<le> c div 64" for k c :: int
  by (rule iffI) linarith+

lemma le_other_block: "c div 64 \<noteq> s div 64 \<Longrightarrow> s \<le> c \<longleftrightarrow> s div 64 + 1 \<le> c div 64" for s c :: int
  using zdiv_mono1 [of s c 64] by (intro iffI) linarith+

lemma le_start_of_block: "s mod 64 = 0 \<Longrightarrow> s \<le> c \<longleftrightarrow> s div 64 \<le> c div 64" for s c :: int
  using le_block [of "s div 64" c] by (metis add.right_neutral div_mult_mod_eq)

lemma round_up: "s < (s div 64 + 1) * 64" for s :: int
  using le_block [of "s div 64 + 1" s] by linarith

text \<open>The first half of a turn: a range that starts inside a block makes that block mixed.\<close>

lemma block_start:
  assumes b: "blocks_ok bits (\<lambda>c. s \<le> c \<and> c < t \<or> m \<le> c \<and> R c) T" and len: "length bits = 64"
    and m: "0x800 \<le> m" "m \<le> s" "s < t" "t \<le> 0x10000" "m mod 64 = 0" and R: "\<And>c. c < 0x10000 \<Longrightarrow> R c \<Longrightarrow> t < c"
    and res: "(if s mod 64 \<noteq> 0 then let u = (s div 64 + 1) * 64 in (u, u, mark_mixed (nat (s div 64)) bits)
               else (s, m, bits)) = (s1, m1, bits1)"
  shows "blocks_ok bits1 (\<lambda>c. s1 \<le> c \<and> c < t \<or> m1 \<le> c \<and> R c) T \<and> length bits1 = 64 \<and>
         0x800 \<le> m1 \<and> m1 \<le> s1 \<and> m1 mod 64 = 0 \<and> s1 mod 64 = 0"
proof (cases "s mod 64 = 0")
  case True
  then show ?thesis using res b len m by auto
next
  case False
  let ?u = "(s div 64 + 1) * 64"
  have eq: "s1 = ?u" "m1 = ?u" "bits1 = mark_mixed (nat (s div 64)) bits" using res False by (auto simp: Let_def)
  have "(?u \<le> c \<and> c < t \<or> ?u \<le> c \<and> R c) = (s \<le> c \<and> c < t \<or> m \<le> c \<and> R c)"
    if c: "0x800 \<le> c" "c < 0x10000" "c div 64 \<noteq> s div 64" for c
  proof -
    have "s \<le> c \<longleftrightarrow> ?u \<le> c" using le_other_block [OF c(3)] le_block [of "s div 64 + 1" c] by simp
    moreover have "m \<le> c \<and> ?u \<le> c" if "R c" using R [OF c(2) that] m calculation by linarith
    ultimately show ?thesis by blast
  qed
  then have "blocks_ok bits1 (\<lambda>c. ?u \<le> c \<and> c < t \<or> ?u \<le> c \<and> R c) T"
    using blocks_ok_mixed [OF b len] m unfolding eq(3) by simp
  moreover have "0x800 \<le> ?u" using m(1,2) round_up [of s] by linarith
  ultimately show ?thesis using len by (simp add: eq)
qed

text \<open>The second half: the full blocks up to the limit, and the block of the limit.\<close>

lemma block_limit:
  assumes b: "blocks_ok bits (\<lambda>c. s \<le> c \<and> c < t \<or> m \<le> c \<and> R c) T" and len: "length bits = 64"
    and m: "0x800 \<le> m" "m \<le> s" "s < t" "t \<le> 0x10000" "m mod 64 = 0" "s mod 64 = 0"
    and R: "\<And>c. c < 0x10000 \<Longrightarrow> R c \<Longrightarrow> t < c"
    and res: "(let bits2 = (if s < (t div 64) * 64 then set32x64Bits bits (nat (s div 64)) (nat (t div 64)) else bits)
               in if t mod 64 \<noteq> 0 then let u = (t div 64 + 1) * 64 in (u, u, mark_mixed (nat (t div 64)) bits2)
                  else (t, m, bits2)) = (t', m', bits')"
  shows "blocks_ok bits' (\<lambda>c. m' \<le> c \<and> R c) T \<and> length bits' = 64 \<and> 0x800 \<le> m' \<and> m' mod 64 = 0 \<and>
         (t' = 0x10000 \<longrightarrow> t = 0x10000 \<or> m' = 0x10000) \<and> (t = 0x10000 \<longrightarrow> t' = 0x10000)"
proof -
  let ?k = "t div 64"
  define bits2 where "bits2 = (if s < ?k * 64 then set32x64Bits bits (nat (s div 64)) (nat ?k) else bits)"
  have len2: "length bits2 = 64" using len by (simp add: bits2_def)
  have b2: "blocks_ok bits2 (\<lambda>c. ?k * 64 \<le> c \<and> c < t \<or> m \<le> c \<and> R c) T"
  proof (cases "s < ?k * 64")
    case True
    have "s \<le> c \<and> c < t \<or> m \<le> c \<and> R c \<longleftrightarrow>
        s div 64 \<le> c div 64 \<and> c div 64 < ?k \<or> (?k * 64 \<le> c \<and> c < t \<or> m \<le> c \<and> R c)" for c
    proof -
      have "s \<le> c \<longleftrightarrow> s div 64 \<le> c div 64" "?k * 64 \<le> c \<longleftrightarrow> \<not> c div 64 < ?k"
        using le_start_of_block [OF m(6)] le_block [of ?k c] by auto
      moreover have "c < t" if "c div 64 < ?k" using that by linarith
      moreover have "s \<le> c" if "?k * 64 \<le> c" using that True by linarith
      ultimately show ?thesis by blast
    qed
    then have "blocks_ok (set32x64Bits bits (nat (s div 64)) (nat ?k)) (\<lambda>c. ?k * 64 \<le> c \<and> c < t \<or> m \<le> c \<and> R c) T"
      using True m by (intro blocks_ok_full [OF b len]) auto
    then show ?thesis using True by (simp add: bits2_def)
  next
    case False
    moreover have "s div 64 \<le> ?k" "s div 64 * 64 = s" using le_start_of_block [OF m(6), of t] m(3,6) by auto
    ultimately have "s = ?k * 64" by linarith
    then show ?thesis using b False by (simp add: bits2_def)
  qed
  show ?thesis
  proof (cases "t mod 64 = 0")
    case True
    then have eq: "t' = t" "m' = m" "bits' = bits2" using res by (auto simp: bits2_def Let_def)
    have "?k * 64 = t" using True div_mult_mod_eq [of t 64] by simp
    then have "blocks_ok bits2 (\<lambda>c. m \<le> c \<and> R c) T" by (intro blocks_ok_cong [OF b2]) auto
    then show ?thesis using len2 m by (simp add: eq)
  next
    case False
    let ?u = "(?k + 1) * 64"
    have eq: "t' = ?u" "m' = ?u" "bits' = mark_mixed (nat ?k) bits2"
      using res False by (auto simp: bits2_def Let_def)
    have "(?u \<le> c \<and> R c) = (?k * 64 \<le> c \<and> c < t \<or> m \<le> c \<and> R c)"
      if c: "0x800 \<le> c" "c < 0x10000" "c div 64 \<noteq> ?k" for c
    proof -
      have "\<not> (?k * 64 \<le> c \<and> c < t)"
        using c(3) le_block [of ?k c] zdiv_mono1 [of c t 64] by linarith
      moreover have "m \<le> c \<and> ?u \<le> c" if "R c"
        using R [OF c(2) that] m(2,3) le_other_block [OF c(3)] le_block [of "?k + 1" c] by simp
      ultimately show ?thesis by blast
    qed
    moreover have "t < 0x10000" using m False by (cases "t = 0x10000") auto
    ultimately have "blocks_ok bits' (\<lambda>c. ?u \<le> c \<and> R c) T"
      using blocks_ok_mixed [OF b2 len2, of t] m unfolding eq(3) by simp
    moreover have "0x800 \<le> ?u" using m(1-3) round_up [of t] by linarith
    ultimately show ?thesis using len2 \<open>t < 0x10000\<close> by (simp add: eq)
  qed
qed

lemma block_step_spec:
  assumes cu: "cursor s t r" "s < 0x10000" and len: "length bits = 64" and m: "0x800 \<le> m" "m mod 64 = 0"
    and b: "blocks_ok bits (\<lambda>c. m \<le> c \<and> (s \<le> c \<and> c < t \<or> inside c r)) T"
    and res: "block_step s t m bits = (t', m', bits')"
  shows "blocks_ok bits' (\<lambda>c. m' \<le> c \<and> inside c r) T \<and> length bits' = 64 \<and> 0x800 \<le> m' \<and> m' mod 64 = 0 \<and>
         (t' = 0x10000 \<longrightarrow> 0x10000 \<le> t \<or> m' = 0x10000) \<and> (0x10000 \<le> t \<longrightarrow> t' = 0x10000)"
proof -
  let ?t = "if t > 0x10000 then 0x10000 else t" and ?s = "if s < m then m else s"
  have R: "inside c r \<Longrightarrow> ?t < c" if "c < 0x10000" for c
    using cursor_above [OF cu(1), of c] that by (auto simp: UNICODESET_HIGH_def)
  have b1: "blocks_ok bits (\<lambda>c. ?s \<le> c \<and> c < ?t \<or> m \<le> c \<and> inside c r) T"
    by (rule blocks_ok_cong [OF b]) auto
  have t: "?t \<le> 0x10000" "?t = 0x10000 \<longleftrightarrow> 0x10000 \<le> t" by auto
  show ?thesis
  proof (cases "?s < ?t")
    case False
    then have eq: "t' = ?t" "m' = m" "bits' = bits" using res by (auto simp: block_step_def Let_def)
    have "blocks_ok bits (\<lambda>c. m \<le> c \<and> inside c r) T"
      by (rule blocks_ok_cong [OF b1]) (use False in auto)
    then show ?thesis using len m by (simp add: eq)
  next
    case True
    obtain s1 m1 bits1 where start:
      "(if ?s mod 64 \<noteq> 0 then let u = (?s div 64 + 1) * 64 in (u, u, mark_mixed (nat (?s div 64)) bits)
        else (?s, m, bits)) = (s1, m1, bits1)" by (metis prod_cases3)
    have s1: "blocks_ok bits1 (\<lambda>c. s1 \<le> c \<and> c < ?t \<or> m1 \<le> c \<and> inside c r) T" "length bits1 = 64"
      "0x800 \<le> m1" "m1 \<le> s1" "m1 mod 64 = 0" "s1 mod 64 = 0"
      using block_start [OF b1 len m(1) _ True t(1) m(2) R start] by auto
    have step: "block_step s t m bits =
      (if s1 < ?t then
         let bits2 = (if s1 < (?t div 64) * 64 then set32x64Bits bits1 (nat (s1 div 64)) (nat (?t div 64)) else bits1)
         in if ?t mod 64 \<noteq> 0 then let u = (?t div 64 + 1) * 64 in (u, u, mark_mixed (nat (?t div 64)) bits2)
            else (?t, m1, bits2)
       else (?t, m1, bits1))"
      unfolding block_step_def Let_def using start [unfolded Let_def] True by (simp only: if_True prod.case)
    show ?thesis
    proof (cases "s1 < ?t")
      case l: True
      note lim = res [unfolded step if_P [OF l]]
      show ?thesis using block_limit [OF s1(1,2,3,4) l t(1) s1(5,6) R lim] unfolding t(2) by blast
    next
      case l: False
      have "blocks_ok bits1 (\<lambda>c. m1 \<le> c \<and> inside c r) T"
        by (rule blocks_ok_cong [OF s1(1)]) (use l in auto)
      moreover have "t' = ?t" "m' = m1" "bits' = bits1" using res [unfolded step if_not_P [OF l]] by simp_all
      ultimately show ?thesis using s1 t(2) by simp
    qed
  qed
qed

lemma block_loop_spec:
  assumes "cursor s t r" "length bits = 64" "0x800 \<le> m" "m mod 64 = 0"
    and "blocks_ok bits (\<lambda>c. m \<le> c \<and> (s \<le> c \<and> c < t \<or> inside c r)) T"
  shows "\<exists>bits'. block_loop s t m r bits = Some bits' \<and> length bits' = 64 \<and> blocks_ok bits' (\<lambda>c. False) T"
  using assms
proof (induction s t m r bits rule: block_loop.induct)
  case (1 s t m r bits)
  note above = cursor_above [OF "1.prems"(1)]
  have H: "0x10000 < UNICODESET_HIGH" by (simp add: UNICODESET_HIGH_def)
  show ?case
  proof (cases "s < 0x10000")
    case False
    have "blocks_ok bits (\<lambda>c. False) T"
      by (rule blocks_ok_cong [OF "1.prems"(5)]) (use False above "1.prems"(1) H in \<open>force simp: cursor_def\<close>)
    then show ?thesis using False "1.prems"(2) by (subst block_loop.simps) simp
  next
    case True
    obtain t' m' bits' where st: "block_step s t m bits = (t', m', bits')" by (metis prod_cases3)
    from block_step_spec [OF "1.prems"(1) True "1.prems"(2-5) st]
    have sp: "blocks_ok bits' (\<lambda>c. m' \<le> c \<and> inside c r) T" "length bits' = 64" "0x800 \<le> m'" "m' mod 64 = 0"
      "t' = 0x10000 \<longrightarrow> 0x10000 \<le> t \<or> m' = 0x10000" "0x10000 \<le> t \<longrightarrow> t' = 0x10000" by auto
    show ?thesis
    proof (cases "t' = 0x10000")
      case t: True
      have "blocks_ok bits' (\<lambda>c. False) T"
        by (rule blocks_ok_cong [OF sp(1)]) (use sp(5) t above H in force)
      then show ?thesis using True t st sp(2) by (subst block_loop.simps) simp
    next
      case t: False
      then have il: "ilist r" using sp(6) "1.prems"(1) H by (auto simp: cursor_def)
      obtain s2 t2 r2 where n: "next_range r = Some (s2, t2, r2)" and cu: "cursor s2 t2 r2"
        and i: "\<And>c. c < UNICODESET_HIGH \<Longrightarrow> inside c r \<longleftrightarrow> s2 \<le> c \<and> c < t2 \<or> inside c r2"
        using next_range_ilist [OF il] by metis
      have "blocks_ok bits' (\<lambda>c. m' \<le> c \<and> (s2 \<le> c \<and> c < t2 \<or> inside c r2)) T"
        by (rule blocks_ok_cong [OF sp(1)]) (use i H in auto)
      from "1.IH" [OF True st [symmetric] refl t n refl refl cu sp(2-4) this]
      show ?thesis using True t st n by (subst block_loop.simps) simp
    qed
  qed
qed

section \<open>The lookup agrees with the list\<close>

definition tables_ok :: "int list \<Rightarrow> BMPSet \<Rightarrow> bool" where
  "tables_ok l s \<longleftrightarrow>
     bmp_list s = l \<and> length (asciiBytes s) = 0xc0 \<and> length (table7FF s) = 64 \<and> length (bmpBlockBits s) = 64 \<and>
     list4kStarts s = find4kStarts l \<and>
     (\<forall>c. 0 \<le> c \<and> c < 0x80 \<longrightarrow> asciiBytes s ! nat c = inside c l) \<and>
     (\<forall>c. 0x80 \<le> c \<and> c < 0x800 \<longrightarrow> vbit (table7FF s) (nat c) = inside c l) \<and>
     (\<forall>c. 0x800 \<le> c \<and> c < 0xd800 \<or> 0xe000 \<le> c \<and> c < 0x10000 \<longrightarrow>
        mixed_block (bmpBlockBits s) c \<or> full_block (bmpBlockBits s) c = inside c l)"

lemma vbit_zero: "n < 2048 \<Longrightarrow> \<not> vbit (replicate 64 0) n"
  by (simp add: vbit_def)

lemma initBits_ok:
  assumes l: "ilist l"
  shows "\<exists>s. BMPSet_initBits \<lparr>asciiBytes = replicate 0xc0 False, table7FF = replicate 64 0,
            bmpBlockBits = replicate 64 0, list4kStarts = find4kStarts l, bmp_list = l\<rparr> = Some s \<and> tables_ok l s"
proof -
  let ?T = "\<lambda>c. inside c l"
  obtain s t r bytes where a: "ascii_loop l (replicate 0xc0 False) = Some (s, t, r, bytes)" "cursor s t r" "0x80 \<le> s"
    "length bytes = 0xc0" "covers s t r ?T 0x80" "\<forall>c. 0 \<le> c \<and> c < 0x80 \<longrightarrow> bytes ! nat c = ?T c"
    using ascii_loop_spec [OF l, of "replicate 0xc0 False" ?T] by auto
  have "covers s t r ?T 0x800" using a(5) by (auto simp: covers_def)
  moreover have "(vbit (replicate 64 0) (nat c) \<or> s \<le> c \<and> c < t \<or> inside c r) = ?T c" if "0x80 \<le> c" "c < 0x800" for c
    using a(5) that vbit_zero [of "nat c"] by (auto simp: covers_def UNICODESET_HIGH_def)
  ultimately obtain s' t' r' table where b: "table_loop s t r (replicate 64 0) = Some (s', t', r', table)"
    "cursor s' t' r'" "length table = 64" "covers s' t' r' ?T 0x800"
    "\<forall>c. 0x80 \<le> c \<and> c < 0x800 \<longrightarrow> vbit table (nat c) = ?T c"
    using table_loop_spec [OF a(2,3), of "replicate 64 0" ?T] by auto
  have "blocks_ok (replicate 64 0) (\<lambda>c. 0x800 \<le> c \<and> (s' \<le> c \<and> c < t' \<or> inside c r')) ?T"
    unfolding blocks_ok_def
  proof (intro allI impI)
    fix c :: int assume c: "0x800 \<le> c \<and> c < 0x10000"
    then have "\<not> full_block (replicate 64 0) c"
      using vbit_zero [of "nat (c div 64)"] block_bounds [of c] by (simp add: full_block_def)
    then show "mixed_block (replicate 64 0) c \<or>
        (full_block (replicate 64 0) c \<or> 0x800 \<le> c \<and> (s' \<le> c \<and> c < t' \<or> inside c r')) = ?T c"
      using b(4) c by (auto simp: covers_def UNICODESET_HIGH_def)
  qed
  then obtain bits where "block_loop s' t' 0x800 r' (replicate 64 0) = Some bits" "length bits = 64"
    "blocks_ok bits (\<lambda>c. False) ?T"
    using block_loop_spec [OF b(2), of "replicate 64 0" "0x800" ?T] by auto
  then show ?thesis using a b by (auto simp: BMPSet_initBits_def tables_ok_def blocks_ok_def)
qed

lemma bit_ed_mask:
  assumes "n < 32" "n \<noteq> 13" "n \<noteq> 29"
  shows "bit (w AND NOT (push_bit 0xd 0x10001)) n = bit (w :: 32 word) n" "\<not> bit (push_bit 0xd (1 :: 32 word)) n"
proof -
  have "\<not> bit (push_bit 0xd (0x10001 :: 32 word)) n" "\<not> bit (push_bit 0xd (1 :: 32 word)) n"
    using assms by (subst bit_two [OF assms(1)] bit_one_shift [OF assms(1)]; simp)+
  then show "bit (w AND NOT (push_bit 0xd 0x10001)) n = bit w n" "\<not> bit (push_bit 0xd (1 :: 32 word)) n"
    unfolding bit_and_iff bit_not_iff using assms(1) by auto
qed

text \<open>Rewriting bits 13 and 29 of the upper 32 words touches the blocks D800..DFFF only.\<close>

lemma blocks_keep:
  assumes t: "length t = 64" and c: "0x800 \<le> c \<and> c < 0xd800 \<or> 0xe000 \<le> c \<and> c < 0x10000"
    and f: "\<And>w n. n < 32 \<Longrightarrow> n \<noteq> 13 \<Longrightarrow> n \<noteq> 29 \<Longrightarrow> bit (f w) n = bit w n"
  shows "mixed_block (for_each 32 64 f t) c = mixed_block t c" "full_block (for_each 32 64 f t) c = full_block t c"
proof -
  have keep: "vbit (for_each 32 64 f t) n = vbit t n" if "n < 2048" "n mod 64 < 32 \<or> n div 64 \<noteq> 13 \<and> n div 64 \<noteq> 29" for n
  proof -
    have "n div 64 < 32" using that(1) by linarith
    then show ?thesis using nth_for_each [of 64 t "n mod 64" 32 f] t that(2) f [of "n div 64"]
      by (auto simp: vbit_def)
  qed
  define k where "k = nat (c div 64)"
  have k: "k < 864 \<or> 896 \<le> k \<and> k < 1024" using c unfolding k_def by linarith
  have "k mod 64 < 32 \<or> k div 64 \<noteq> 13" using k div_mult_mod_eq [of k 64] mod_less_divisor [of 64 k] by linarith
  moreover have "(k + 1024) mod 64 = k mod 64" "(k + 1024) div 64 = k div 64 + 16" "k div 64 < 16"
    using mod_mult_self1 [of k 16 64] k by auto
  ultimately have "k mod 64 < 32 \<or> k div 64 \<noteq> 13 \<and> k div 64 \<noteq> 29"
    "(k + 1024) mod 64 < 32 \<or> (k + 1024) div 64 \<noteq> 13 \<and> (k + 1024) div 64 \<noteq> 29" by auto
  with k show "mixed_block (for_each 32 64 f t) c = mixed_block t c" "full_block (for_each 32 64 f t) c = full_block t c"
    unfolding mixed_block_def full_block_def k_def [symmetric] by (auto intro!: keep)
qed

lemma blocks_low:
  assumes "length t = 64" "0x800 \<le> c" "c < 0x10000"
  shows "mixed_block (or_words 0 32 1 t) c = mixed_block t c" "full_block (or_words 0 32 1 t) c = full_block t c"
proof -
  have low: "vbit (or_words 0 32 1 t) n = vbit t n" if "32 \<le> n" "n < 2048" for n
    using vbit_or_words [OF assms(1) that(2), of 32 0 1] that by (auto simp: bit_1_iff)
  have "32 \<le> nat (c div 64)" "nat (c div 64) < 1024" using assms by linarith+
  then show "mixed_block (or_words 0 32 1 t) c = mixed_block t c" "full_block (or_words 0 32 1 t) c = full_block t c"
    unfolding mixed_block_def full_block_def by (auto intro!: low)
qed

lemma table_low:
  assumes "length t = 64" "128 \<le> n" "n < 2048"
  shows "vbit (or_words 0 64 3 t) n = vbit t n"
proof -
  have "bit (3 :: 32 word) i \<longleftrightarrow> i < 2" if "i < 32" for i
    using bit_mask_iff [of 2 i, where ?'a = "32 word"] that by (simp add: mask_eq_exp_minus_1)
  moreover have "2 \<le> n div 64" "n div 64 < 32" using assms by linarith+
  ultimately show ?thesis using vbit_or_words [OF assms(1,3)] by simp
qed

lemma overrideIllegal_ok:
  assumes "tables_ok l s"
  shows "tables_ok l (BMPSet_overrideIllegal s)"
proof -
  have len: "length (asciiBytes s) = 0xc0" "length (table7FF s) = 64" "length (bmpBlockBits s) = 64"
    using assms by (auto simp: tables_ok_def)
  have ascii: "for_each 0x80 0xc0 (\<lambda>_. True) (asciiBytes s) ! nat c = asciiBytes s ! nat c" if "0 \<le> c" "c < 0x80" for c
  proof -
    have "nat c < 128" using that by simp
    then show ?thesis using nth_for_each [of "0xc0" "asciiBytes s" "nat c"] len by simp
  qed
  have tab: "vbit (or_words 0 64 3 (table7FF s)) (nat c) = vbit (table7FF s) (nat c)" if "0x80 \<le> c" "c < 0x800" for c
    using table_low [OF len(2)] that by simp
  let ?t = "bmpBlockBits s"
  define f1 f2 :: "32 word \<Rightarrow> 32 word" where
    f: "f1 = (\<lambda>w. (w AND NOT (push_bit 0xd 0x10001)) OR push_bit 0xd 1)" "f2 = (\<lambda>w. w AND NOT (push_bit 0xd 0x10001))"
  have keep1: "bit (f1 w) n = bit w n" and keep2: "bit (f2 w) n = bit w n" if "n < 32" "n \<noteq> 13" "n \<noteq> 29" for w n
    unfolding f bit_or_iff using bit_ed_mask [OF that] by blast+
  have blk: "mixed_block (for_each 32 64 f1 (or_words 0 32 1 ?t)) c = mixed_block ?t c \<and>
      full_block (for_each 32 64 f1 (or_words 0 32 1 ?t)) c = full_block ?t c \<and>
      mixed_block (for_each 32 64 f2 ?t) c = mixed_block ?t c \<and> full_block (for_each 32 64 f2 ?t) c = full_block ?t c"
    if r: "0x800 \<le> c \<and> c < 0xd800 \<or> 0xe000 \<le> c \<and> c < 0x10000" for c
  proof -
    have c: "0x800 \<le> c" "c < 0x10000" using r by auto
    show ?thesis
      using blocks_keep [OF _ r keep1, of "or_words 0 32 1 ?t"] blocks_keep [OF _ r keep2, of ?t] len(3)
        blocks_low [OF len(3) c] by simp
  qed
  show ?thesis
  proof (cases "containsSlow (bmp_list s) 0xfffd (list4kStarts s ! 0xf) (list4kStarts s ! 0x10)")
    case True
    then have "BMPSet_overrideIllegal s = s\<lparr>asciiBytes := for_each 0x80 0xc0 (\<lambda>_. True) (asciiBytes s),
          table7FF := or_words 0 64 3 (table7FF s), bmpBlockBits := for_each 32 64 f1 (or_words 0 32 1 ?t)\<rparr>"
      unfolding BMPSet_overrideIllegal_def Let_def f by (simp only: if_True)
    then show ?thesis using assms ascii tab blk len unfolding tables_ok_def by simp
  next
    case False
    then have "BMPSet_overrideIllegal s = s\<lparr>bmpBlockBits := for_each 32 64 f2 ?t\<rparr>"
      unfolding BMPSet_overrideIllegal_def Let_def f by (simp only: if_False)
    then show ?thesis using assms blk len unfolding tables_ok_def by simp
  qed
qed

text \<open>The starts of the 4k blocks.\<close>

definition key4k :: "nat \<Rightarrow> int" where
  "key4k i = (if i = 0 then 0x800 else int i * 0x1000)"

lemma is_rank_mono: "is_rank l a r \<Longrightarrow> is_rank l b r' \<Longrightarrow> a \<le> b \<Longrightarrow> r \<le> r'"
proof (rule ccontr)
  assume r: "is_rank l a r" "is_rank l b r'" "a \<le> b" "\<not> r \<le> r'"
  then have "l ! r' \<le> a" "b < l ! r'" by (auto simp: is_rank_def)
  then show False using r(3) by linarith
qed

lemma is_rank_le: "is_rank l a r \<Longrightarrow> r \<le> length l - 1"
  by (auto simp: is_rank_def)

lemma is_rank_before: "is_rank l a r \<Longrightarrow> a \<le> c \<Longrightarrow> r = 0 \<or> l ! (r - 1) \<le> c"
  by (cases r) (auto simp: is_rank_def intro: order_trans)

lemma find4kStarts_prefix:
  assumes l: "ilist l" and n: "n \<le> 16"
  defines "xs \<equiv> fold (\<lambda>i starts. starts @ [findCodePoint l (int i * 0x1000) (starts ! (i - 1)) (length l - 1)])
                [1..<Suc n] [findCodePoint l 0x800 0 (length l - 1)]"
  shows "length xs = Suc n \<and> (\<forall>i \<le> n. is_rank l (key4k i) (xs ! i))"
  unfolding xs_def using n
proof (induction n)
  case 0
  have "is_rank l 0x800 (findCodePoint l 0x800 0 (length l - 1))"
    using UnicodeSet_findCodePoint_rank [OF l, of "0x800"] by (simp add: UnicodeSet_findCodePoint_def UNICODESET_HIGH_def)
  then show ?case by (simp add: key4k_def)
next
  case (Suc n)
  let ?xs = "fold (\<lambda>i starts. starts @ [findCodePoint l (int i * 0x1000) (starts ! (i - 1)) (length l - 1)])
                [1..<Suc n] [findCodePoint l 0x800 0 (length l - 1)]"
  have IH: "length ?xs = Suc n" "\<forall>i \<le> n. is_rank l (key4k i) (?xs ! i)" using Suc by auto
  let ?lo = "?xs ! n" and ?c = "int (Suc n) * 0x1000"
  have lo: "is_rank l (key4k n) ?lo" using IH by simp
  have c: "key4k n \<le> ?c" "?c < UNICODESET_HIGH" using Suc.prems by (auto simp: key4k_def UNICODESET_HIGH_def)
  have "?lo = 0 \<or> l ! (?lo - 1) \<le> ?c" by (rule is_rank_before [OF lo c(1)])
  moreover have "?lo \<le> length l - 1" by (rule is_rank_le [OF lo])
  ultimately have "is_rank l ?c (findCodePoint l ?c ?lo (length l - 1))"
    using findCodePoint_rank [OF ilist_sorted [OF l]] ilist_last [OF l] ilist_length [OF l] c(2) by simp
  then have "is_rank l (key4k (Suc n)) (findCodePoint l ?c ?lo (length l - 1))" by (simp add: key4k_def)
  moreover have "[1..<Suc (Suc n)] = [1..<Suc n] @ [Suc n]" by simp
  ultimately show ?case using IH by (auto simp: nth_append le_Suc_eq simp del: upt_Suc)
qed

lemma find4kStarts_rank:
  assumes l: "ilist l"
  shows "i \<le> 16 \<Longrightarrow> is_rank l (key4k i) (find4kStarts l ! i)" "find4kStarts l ! 17 = length l - 1"
proof -
  have "[1..<0x11] = [1..<Suc 16]" by simp
  with find4kStarts_prefix [OF l, of 16]
  show "i \<le> 16 \<Longrightarrow> is_rank l (key4k i) (find4kStarts l ! i)" "find4kStarts l ! 17 = length l - 1"
    unfolding find4kStarts_def Let_def by (auto simp: nth_append simp del: upt_Suc upt_rec_numeral fold_simps)
qed

lemma containsSlow_between:
  assumes l: "ilist l" and r: "is_rank l a lo" "is_rank l b hi" and c: "a \<le> c" "c \<le> b"
  shows "containsSlow l c lo hi = inside c l"
proof (rule containsSlow_inside [OF l])
  show "lo \<le> hi" using is_rank_mono [OF r] c by simp
  show "hi < length l" "c < l ! hi" using r c by (auto simp: is_rank_def)
  show "lo = 0 \<or> l ! (lo - 1) \<le> c" by (rule is_rank_before [OF r(1) c(1)])
qed

lemma rank_last: "ilist l \<Longrightarrow> is_rank l (UNICODESET_HIGH - 1) (length l - 1)"
  using ilist_last [of l] ilist_length [of l] ilist_nth_less [of l _ "length l - 1"]
  by (auto simp: is_rank_def)

lemma containsSlow_4k:
  assumes l: "ilist l" and i: "i < 16" and c: "key4k i \<le> c" "c \<le> key4k (i + 1)"
  shows "containsSlow l c (find4kStarts l ! i) (find4kStarts l ! (i + 1)) = inside c l"
  using containsSlow_between [OF l find4kStarts_rank(1) [OF l] find4kStarts_rank(1) [OF l] c] i by simp

lemma twoBits_cases:
  fixes v :: "32 word"
  shows "v AND 0x10001 \<le> 1 \<longleftrightarrow> \<not> bit v 16" "\<not> bit v 16 \<Longrightarrow> v AND 0x10001 \<noteq> 0 \<longleftrightarrow> bit v 0"
proof -
  have "v AND 0x10001 = (if bit v 0 then 1 else 0) OR (if bit v 16 then push_bit 16 1 else 0)"
  proof (rule bit_word_eqI)
    fix n assume "n < LENGTH(32)"
    then have n: "n < 32" by simp
    have "bit (push_bit 0 (0x10001 :: 32 word)) n \<longleftrightarrow> n = 0 \<or> n = 16" using bit_two [OF n, of 0] by simp
    then have "bit (v AND 0x10001) n \<longleftrightarrow> bit v n \<and> (n = 0 \<or> n = 16)" by (simp add: bit_and_iff)
    also have "\<dots> \<longleftrightarrow> bit (if bit v 0 then 1 else 0 :: 32 word) n \<or> bit (if bit v 16 then push_bit 16 1 else 0 :: 32 word) n"
      using bit_one_shift [OF n, of 16] by (cases "n = 0"; cases "n = 16") (auto simp: bit_1_iff)
    finally show "bit (v AND 0x10001) n = bit ((if bit v 0 then 1 else 0) OR (if bit v 16 then push_bit 16 1 else 0) :: 32 word) n"
      by (simp only: bit_or_iff)
  qed
  then show "v AND 0x10001 \<le> 1 \<longleftrightarrow> \<not> bit v 16" "\<not> bit v 16 \<Longrightarrow> v AND 0x10001 \<noteq> 0 \<longleftrightarrow> bit v 0"
    by (auto simp: word_le_nat_alt split: if_splits)
qed

lemma twoBits_eq:
  assumes "0 \<le> c" "c < 0x10000"
  shows "bit (drop_bit (nat (c div 4096)) (t ! nat ((c div 64) mod 64))) 0 = full_block t c"
    "bit (drop_bit (nat (c div 4096)) (t ! nat ((c div 64) mod 64))) 16 = mixed_block t c"
proof -
  define k where "k = nat (c div 64)"
  have c: "c div 64 = int k" "k < 1024" using assms by (auto simp: k_def)
  have "c div 4096 = c div 64 div 64" by (simp add: zdiv_zmult2_eq [symmetric])
  then have "nat (c div 4096) = k div 64" "nat ((c div 64) mod 64) = k mod 64"
    unfolding c(1) by (simp_all add: nat_div_distrib nat_mod_distrib)
  moreover have "(k + 1024) mod 64 = k mod 64" "(k + 1024) div 64 = k div 64 + 16"
    using mod_mult_self1 [of k 16 64] by auto
  ultimately show "bit (drop_bit (nat (c div 4096)) (t ! nat ((c div 64) mod 64))) 0 = full_block t c"
    "bit (drop_bit (nat (c div 4096)) (t ! nat ((c div 64) mod 64))) 16 = mixed_block t c"
    by (simp_all add: full_block_def mixed_block_def vbit_def k_def [symmetric] bit_drop_bit_eq)
qed

lemma in_bmpBlock_inside:
  assumes l: "ilist l" and s: "tables_ok l s" and c: "0x800 \<le> c \<and> c < 0xd800 \<or> 0xe000 \<le> c \<and> c < 0x10000"
  shows "in_bmpBlock s c = inside c l"
proof -
  have c0: "0 \<le> c" "c < 0x10000" using c by auto
  note b = twoBits_eq [OF c0, of "bmpBlockBits s"]
  show ?thesis
  proof (cases "mixed_block (bmpBlockBits s) c")
    case False
    then show ?thesis using s c twoBits_cases b unfolding in_bmpBlock_def twoBits_def tables_ok_def by auto
  next
    case True
    define i where "i = nat (c div 4096)"
    have "i < 16" "key4k i \<le> c" "c \<le> key4k (i + 1)" using c by (auto simp: i_def key4k_def)
    from containsSlow_4k [OF l this] s True twoBits_cases(1) b show ?thesis
      unfolding in_bmpBlock_def twoBits_def tables_ok_def i_def by auto
  qed
qed

lemma in_table7FF_inside:
  assumes "tables_ok l s" "0x80 \<le> c" "c < 0x800"
  shows "in_table7FF s c = inside c l"
proof -
  have "nat (c mod 64) = nat c mod 64" "nat (c div 64) = nat c div 64"
    using assms by (auto simp: nat_div_distrib nat_mod_distrib)
  moreover have "x AND push_bit n 1 \<noteq> 0 \<longleftrightarrow> bit x n" for x :: "32 word" and n
    by (simp add: and_exp_eq_0_iff_not_bit)
  ultimately show ?thesis using assms by (simp add: in_table7FF_def tables_ok_def vbit_def)
qed

lemma BMPSet_new_ok: "ilist l \<Longrightarrow> \<exists>s. BMPSet_new l = Some s \<and> tables_ok l s"
  using initBits_ok [of l] overrideIllegal_ok [of l] by (auto simp: BMPSet_new_def)

lemma BMPSet_contains_inside:
  assumes l: "ilist l" and s: "tables_ok l s" and c: "- 2147483648 \<le> c" "c < 2147483648"
  shows "BMPSet_contains s c \<longleftrightarrow> c \<in> inv_set l"
proof -
  have L: "UNICODESET_LOW = 0" "UNICODESET_HIGH = 0x110000" by (simp_all add: UNICODESET_LOW_def UNICODESET_HIGH_def)
  consider "c < 0" | "0 \<le> c" "c < 0x80" | "0x80 \<le> c" "c < 0x800"
    | "0x800 \<le> c \<and> c < 0xd800 \<or> 0xe000 \<le> c \<and> c < 0x10000"
    | "0xd800 \<le> c" "c < 0xe000 \<or> 0x10000 \<le> c" "c < UNICODESET_HIGH" | "UNICODESET_HIGH \<le> c" by linarith
  then show ?thesis
  proof cases
    case 1
    have "c mod 4294967296 = (c + 4294967296) mod 4294967296" by simp
    also have "\<dots> = c + 4294967296" by (rule mod_pos_pos_trivial) (use 1 c in auto)
    finally have "uint32 c = c + 4294967296" by (simp add: uint32_def)
    then show ?thesis using 1 c by (simp add: BMPSet_contains_def inv_set_def L)
  next
    case 2
    then show ?thesis using s by (simp add: BMPSet_contains_def uint32_def tables_ok_def inv_set_def L)
  next
    case 3
    then show ?thesis using in_table7FF_inside [OF s] by (simp add: BMPSet_contains_def uint32_def inv_set_def L)
  next
    case 4
    then show ?thesis using in_bmpBlock_inside [OF l s 4] c
      by (auto simp: BMPSet_contains_def uint32_def inv_set_def L)
  next
    case 5
    have r: "is_rank l (key4k 0xd) (find4kStarts l ! 0xd)" using find4kStarts_rank(1) [OF l] by simp
    have "containsSlow l c (find4kStarts l ! 0xd) (find4kStarts l ! 0x11) = inside c l"
      using containsSlow_between [OF l r rank_last [OF l], of c] 5 find4kStarts_rank(2) [OF l] by (simp add: key4k_def)
    then show ?thesis using 5 c s by (auto simp: BMPSet_contains_def uint32_def inv_set_def L tables_ok_def)
  next
    case 6
    then show ?thesis using c by (simp add: BMPSet_contains_def uint32_def inv_set_def L)
  qed
qed

section \<open>Spans of UTF-16 text\<close>

text \<open>The test that the loops of \<^verbatim>\<open>span\<close> and \<^verbatim>\<open>spanBack\<close> apply to a single unit and to a pair.\<close>

definition span_unit :: "BMPSet \<Rightarrow> int \<Rightarrow> bool" where
  "span_unit s c =
     (if c \<le> 0x7f then asciiBytes s ! nat c
      else if c \<le> 0x7ff then in_table7FF s c
      else if c < 0xd800 \<or> c \<ge> 0xe000 then in_bmpBlock s c
      else containsSlow (bmp_list s) c (list4kStarts s ! 0xd) (list4kStarts s ! 0xe))"

definition span_pair :: "BMPSet \<Rightarrow> int \<Rightarrow> int \<Rightarrow> bool" where
  "span_pair s lead trail =
     containsSlow (bmp_list s) (get_supplementary lead trail) (list4kStarts s ! 0x10) (list4kStarts s ! 0x11)"

text \<open>\<open>BMPSet_span\<close> is the number of units spanned from the start of the string.\<close>

fun BMPSet_span :: "BMPSet \<Rightarrow> bool \<Rightarrow> int list \<Rightarrow> nat" where
  "BMPSet_span s spanCondition [] = 0"
| "BMPSet_span s spanCondition [c] = (if span_unit s c = spanCondition then 1 else 0)"
| "BMPSet_span s spanCondition (c # c2 # rest) =
     (if \<not> (0xd800 \<le> c \<and> c < 0xe000) \<or> c \<ge> 0xdc00 \<or> c2 < 0xdc00 \<or> c2 \<ge> 0xe000 then
        (if span_unit s c = spanCondition then 1 + BMPSet_span s spanCondition (c2 # rest) else 0)
      else
        (if span_pair s c c2 = spanCondition then 2 + BMPSet_span s spanCondition rest else 0))"

text \<open>The loop of \<^verbatim>\<open>spanBack\<close> runs over the units before \<^verbatim>\<open>limit\<close>, the nearest one first.\<close>

fun spanBack_loop :: "BMPSet \<Rightarrow> bool \<Rightarrow> int list \<Rightarrow> nat" where
  "spanBack_loop s spanCondition [] = 0"
| "spanBack_loop s spanCondition [c] = (if span_unit s c = spanCondition then 0 else 1)"
| "spanBack_loop s spanCondition (c # c2 # rest) =
     (if \<not> (0xd800 \<le> c \<and> c < 0xe000) \<or> c < 0xdc00 \<or> c2 < 0xd800 \<or> c2 \<ge> 0xdc00 then
        (if span_unit s c = spanCondition then spanBack_loop s spanCondition (c2 # rest) else length rest + 2)
      else
        (if span_pair s c2 c = spanCondition then spanBack_loop s spanCondition rest else length rest + 2))"

definition BMPSet_spanBack :: "BMPSet \<Rightarrow> bool \<Rightarrow> int list \<Rightarrow> nat" where
  "BMPSet_spanBack s spanCondition units = spanBack_loop s spanCondition (rev units)"

lemma span_unit_inside:
  assumes l: "ilist l" and s: "tables_ok l s" and c: "0 \<le> c" "c \<le> 0xffff"
  shows "span_unit s c = inside c l"
proof -
  consider "c < 0x80" | "0x80 \<le> c" "c < 0x800"
    | "0x800 \<le> c \<and> c < 0xd800 \<or> 0xe000 \<le> c \<and> c < 0x10000" | "0xd800 \<le> c" "c < 0xe000" using c by linarith
  then show ?thesis
  proof cases
    case 4
    have "containsSlow l c (find4kStarts l ! 0xd) (find4kStarts l ! (0xd + 1)) = inside c l"
      using 4 by (intro containsSlow_4k [OF l]) (auto simp: key4k_def)
    then show ?thesis using 4 s by (simp add: span_unit_def tables_ok_def)
  qed (use s c in_table7FF_inside [OF s] in_bmpBlock_inside [OF l s] in \<open>auto simp: span_unit_def tables_ok_def\<close>)
qed

lemma span_pair_inside:
  assumes l: "ilist l" and s: "tables_ok l s" and c: "is_lead c" "is_trail c2"
  shows "span_pair s c c2 = inside (get_supplementary c c2) l"
proof -
  have r: "is_rank l (key4k 0x10) (find4kStarts l ! 0x10)" using find4kStarts_rank(1) [OF l] by simp
  have "0x10000 \<le> get_supplementary c c2" "get_supplementary c c2 \<le> UNICODESET_HIGH - 1"
    using c by (auto simp: is_lead_def is_trail_def get_supplementary_def UNICODESET_HIGH_def)
  then show ?thesis
    using containsSlow_between [OF l r rank_last [OF l]] find4kStarts_rank(2) [OF l] s
    by (simp add: span_pair_def tables_ok_def key4k_def)
qed

lemma BMPSet_span_inside:
  assumes l: "ilist l" and s: "tables_ok l s" and u: "\<forall>c \<in> set us. 0 \<le> c \<and> c \<le> 0xffff"
  shows "BMPSet_span s cond us = units_of (takeWhile (\<lambda>(c, n). inside c l = cond) (code_points us))"
  using u
proof (induction us rule: code_points.induct)
  case (3 c c2 rest)
  have pair: "\<not> (\<not> (0xd800 \<le> c \<and> c < 0xe000) \<or> c \<ge> 0xdc00 \<or> c2 < 0xdc00 \<or> c2 \<ge> 0xe000) \<longleftrightarrow> is_lead c \<and> is_trail c2"
    by (auto simp: is_lead_def is_trail_def)
  show ?case
  proof (cases "is_lead c \<and> is_trail c2")
    case True
    then show ?thesis using 3 pair span_pair_inside [OF l s, of c c2] by (simp add: units_of_def)
  next
    case False
    then show ?thesis using 3 pair span_unit_inside [OF l s, of c] by (auto simp: units_of_def)
  qed
qed (use span_unit_inside [OF l s] in \<open>auto simp: units_of_def\<close>)

lemma spanBack_loop_inside:
  assumes l: "ilist l" and s: "tables_ok l s" and u: "\<forall>c \<in> set us. 0 \<le> c \<and> c \<le> 0xffff"
  shows "spanBack_loop s cond us + units_of (takeWhile (\<lambda>(c, n). inside c l = cond) (code_points_back us)) = length us"
  using u
proof (induction us rule: code_points_back.induct)
  case (3 c c2 rest)
  have pair: "\<not> (\<not> (0xd800 \<le> c \<and> c < 0xe000) \<or> c < 0xdc00 \<or> c2 < 0xd800 \<or> c2 \<ge> 0xdc00) \<longleftrightarrow> is_trail c \<and> is_lead c2"
    by (auto simp: is_lead_def is_trail_def)
  show ?case
  proof (cases "is_trail c \<and> is_lead c2")
    case True
    then show ?thesis using 3 pair span_pair_inside [OF l s, of c2 c] by (simp add: units_of_def)
  next
    case False
    then show ?thesis using 3 pair span_unit_inside [OF l s, of c] by (auto simp: units_of_def)
  qed
qed (use span_unit_inside [OF l s] in \<open>auto simp: units_of_def\<close>)

section \<open>Properties\<close>

text \<open>
  C4. The tables built by the constructor answer \<^verbatim>\<open>contains\<close> as the inversion list does, for every
  inversion list and every 32-bit argument: ASCII, two-byte and three-byte UTF-8, surrogates,
  supplementary and illegal code points. Building them terminates and stays inside the tables.
\<close>

theorem BMPSet_represents:
  assumes "ilist l"
  shows "\<exists>s. BMPSet_new l = Some s \<and>
    (\<forall>c. - 2147483648 \<le> c \<and> c < 2147483648 \<longrightarrow> (BMPSet_contains s c \<longleftrightarrow> c \<in> inv_set l))"
  using BMPSet_new_ok [OF assms] BMPSet_contains_inside [OF assms] by blast

theorem BMPSet_represents_witness:
  "\<exists>s. BMPSet_new [0x41, 0x3000, UNICODESET_HIGH] = Some s \<and> BMPSet_contains s 0x2fff \<and> \<not> BMPSet_contains s 0x3000"
proof -
  have "ilist [0x41, 0x3000, UNICODESET_HIGH]" by (auto simp: ilist_def UNICODESET_HIGH_def UNICODESET_LOW_def)
  from BMPSet_represents [OF this] obtain s where s: "BMPSet_new [0x41, 0x3000, UNICODESET_HIGH] = Some s"
    "\<forall>c. - 2147483648 \<le> c \<and> c < 2147483648 \<longrightarrow> (BMPSet_contains s c \<longleftrightarrow> c \<in> inv_set [0x41, 0x3000, UNICODESET_HIGH])" by blast
  have "0x2fff \<in> inv_set [0x41, 0x3000, UNICODESET_HIGH]" "0x3000 \<notin> inv_set [0x41, 0x3000, UNICODESET_HIGH]"
    by (simp_all add: inv_set_def UNICODESET_HIGH_def UNICODESET_LOW_def)
  then show ?thesis using s by auto
qed

text \<open>
  C34. \<^verbatim>\<open>span\<close> returns the length of the longest prefix of UTF-16 code units whose code points, unpaired
  surrogates as themselves, all are in the set (or all are not); \<^verbatim>\<open>spanBack\<close> is the start of the longest such suffix.
\<close>

theorem BMPSet_spans:
  assumes "ilist l" "BMPSet_new l = Some s" "\<forall>c \<in> set us. 0 \<le> c \<and> c \<le> 0xffff"
  shows "BMPSet_span s cond us = units_of (takeWhile (\<lambda>(c, n). inside c l = cond) (code_points us)) \<and>
    BMPSet_spanBack s cond us =
      length us - units_of (takeWhile (\<lambda>(c, n). inside c l = cond) (code_points_back (rev us)))"
proof -
  have t: "tables_ok l s" using BMPSet_new_ok [OF assms(1)] assms(2) by auto
  show ?thesis
    using BMPSet_span_inside [OF assms(1) t assms(3)] spanBack_loop_inside [OF assms(1) t, of "rev us" cond] assms(3)
    by (simp add: BMPSet_spanBack_def)
qed

theorem BMPSet_spans_witness:
  "\<exists>s. BMPSet_new [0x41, 0x5b, 0x10000, UNICODESET_HIGH] = Some s \<and> BMPSet_span s True [0x41, 0xd800, 0xdc00, 0xd800] = 3"
proof -
  let ?l = "[0x41, 0x5b, 0x10000, UNICODESET_HIGH]"
  have l: "ilist ?l" by (auto simp: ilist_def UNICODESET_HIGH_def UNICODESET_LOW_def)
  then obtain s where s: "BMPSet_new ?l = Some s" using BMPSet_new_ok by blast
  from BMPSet_spans [OF l s, of "[0x41, 0xd800, 0xdc00, 0xd800]" True] show ?thesis
    using s by (simp add: is_lead_def is_trail_def get_supplementary_def units_of_def UNICODESET_HIGH_def)
qed

end
