(* ===== verification/IntVector.thy ===== *)
theory IntVector
  imports Prelude
begin

text \<open>
  The growable vectors of machine integers: \<^verbatim>\<open>common/uvectr32.cpp\<close> (\<^verbatim>\<open>UVector32\<close>, cells of
  4 bytes) and \<^verbatim>\<open>common/uvectr64.cpp\<close> (\<^verbatim>\<open>UVector64\<close>, the same code for cells of 8 bytes).
  The operations \<open>ivec_\<dots>\<close> translate the code of \<^verbatim>\<open>UVector32\<close> with the cell size
  \<^verbatim>\<open>sizeof\<close> as the argument \<open>sz\<close>; the operations of each class are their instances at 4 and
  at 8. \<open>view v\<close> is the contents a client sees: the first \<^verbatim>\<open>count\<close> cells of the block.
\<close>

section \<open>State\<close>

record ivector =
  vcount :: int
  vcapacity :: int
  vmaxCapacity :: int
  velements :: "int list"

definition DEFAULT_CAPACITY :: int where
  "DEFAULT_CAPACITY = 8"

definition view :: "ivector \<Rightarrow> int list" where
  "view v = take (nat (vcount v)) (velements v)"

definition ivec_inv :: "int \<Rightarrow> ivector \<Rightarrow> bool" where
  "ivec_inv sz v \<longleftrightarrow>
     0 \<le> vcount v \<and> vcount v \<le> vcapacity v \<and> vcapacity v = int (length (velements v)) \<and>
     vcapacity v \<le> INT32_MAX div sz \<and> 0 \<le> vmaxCapacity v \<and> vmaxCapacity v \<le> INT32_MAX div sz"

section \<open>Construction and capacity\<close>

definition ivec_init :: "int \<Rightarrow> int heap \<Rightarrow> int \<Rightarrow> ivector \<Rightarrow> UErrorCode \<Rightarrow> ivector \<times> UErrorCode" where
  "ivec_init sz h initialCapacity v status =
     (let c1 = (if initialCapacity < 1 then DEFAULT_CAPACITY else initialCapacity);
          c2 = (if vmaxCapacity v > 0 \<and> vmaxCapacity v < c1 then vmaxCapacity v else c1);
          c3 = (if c2 > INT32_MAX div sz then min DEFAULT_CAPACITY (vmaxCapacity v) else c2)
      in case uprv_malloc h sz c3 of
           None \<Rightarrow> (v, U_MEMORY_ALLOCATION_ERROR)
         | Some block \<Rightarrow> (v\<lparr>velements := block, vcapacity := c3\<rparr>, status))"

definition ivec_new :: "int \<Rightarrow> int heap \<Rightarrow> int \<Rightarrow> UErrorCode \<Rightarrow> ivector \<times> UErrorCode" where
  "ivec_new sz h initialCapacity status =
     ivec_init sz h initialCapacity
       \<lparr>vcount = 0, vcapacity = 0, vmaxCapacity = 0, velements = []\<rparr> status"

definition ivec_expandCapacity ::
    "int \<Rightarrow> int heap \<Rightarrow> int \<Rightarrow> ivector \<Rightarrow> UErrorCode \<Rightarrow> bool \<times> ivector \<times> UErrorCode" where
  "ivec_expandCapacity sz h minimumCapacity v status =
     (if minimumCapacity < 0 then (False, v, U_ILLEGAL_ARGUMENT_ERROR)
      else if vcapacity v \<ge> minimumCapacity then (True, v, status)
      else if vmaxCapacity v > 0 \<and> minimumCapacity > vmaxCapacity v
        then (False, v, U_BUFFER_OVERFLOW_ERROR)
      else if vcapacity v > (INT32_MAX - 1) div 2 then (False, v, U_ILLEGAL_ARGUMENT_ERROR)
      else
        let n1 = vcapacity v * 2;
            n2 = (if n1 < minimumCapacity then minimumCapacity else n1);
            newCap = (if vmaxCapacity v > 0 \<and> n2 > vmaxCapacity v then vmaxCapacity v else n2)
        in if newCap > INT32_MAX div sz then (False, v, U_ILLEGAL_ARGUMENT_ERROR)
           else case uprv_realloc h (velements v) sz newCap of
                  None \<Rightarrow> (False, v, U_MEMORY_ALLOCATION_ERROR)
                | Some newElems \<Rightarrow>
                    (True, v\<lparr>velements := newElems, vcapacity := newCap\<rparr>, status))"

definition ivec_ensureCapacity ::
    "int \<Rightarrow> int heap \<Rightarrow> int \<Rightarrow> ivector \<Rightarrow> UErrorCode \<Rightarrow> bool \<times> ivector \<times> UErrorCode" where
  "ivec_ensureCapacity sz h minimumCapacity v status =
     (if minimumCapacity \<ge> 0 \<and> vcapacity v \<ge> minimumCapacity then (True, v, status)
      else ivec_expandCapacity sz h minimumCapacity v status)"

definition ivec_setMaxCapacity :: "int \<Rightarrow> int heap \<Rightarrow> int \<Rightarrow> ivector \<Rightarrow> ivector" where
  "ivec_setMaxCapacity sz h lim v =
     (let limit = (if lim < 0 then 0 else lim) in
      if limit > INT32_MAX div sz then v
      else
        let v1 = v\<lparr>vmaxCapacity := limit\<rparr> in
        if vcapacity v1 \<le> vmaxCapacity v1 \<or> vmaxCapacity v1 = 0 then v1
        else case uprv_realloc h (velements v1) sz (vmaxCapacity v1) of
               None \<Rightarrow> v1
             | Some newElems \<Rightarrow>
                 let v2 = v1\<lparr>velements := newElems, vcapacity := vmaxCapacity v1\<rparr> in
                 if vcount v2 > vcapacity v2 then v2\<lparr>vcount := vcapacity v2\<rparr> else v2)"

section \<open>Elements\<close>

definition ivec_setSize :: "int \<Rightarrow> int heap \<Rightarrow> int \<Rightarrow> ivector \<Rightarrow> ivector" where
  "ivec_setSize sz h newSize v =
     (if newSize < 0 then v
      else if newSize > vcount v then
        (case ivec_ensureCapacity sz h newSize v U_ZERO_ERROR of
           (ok, v1, ec) \<Rightarrow>
             if \<not> ok then v1
             else v1\<lparr>velements := fold (\<lambda>i e. e[i := 0]) [nat (vcount v1)..<nat newSize] (velements v1),
                     vcount := newSize\<rparr>)
      else v\<lparr>vcount := newSize\<rparr>)"

definition ivec_assign ::
    "int \<Rightarrow> int heap \<Rightarrow> ivector \<Rightarrow> ivector \<Rightarrow> UErrorCode \<Rightarrow> ivector \<times> UErrorCode" where
  "ivec_assign sz h other v ec =
     (case ivec_ensureCapacity sz h (vcount other) v ec of
        (ok, v1, ec1) \<Rightarrow>
          if ok then
            let v2 = ivec_setSize sz h (vcount other) v1 in
            (v2\<lparr>velements := fold (\<lambda>i e. e[i := velements other ! i])
                                  [0..<nat (vcount other)] (velements v2)\<rparr>, ec1)
          else (v1, ec1))"

definition ivec_equals :: "ivector \<Rightarrow> ivector \<Rightarrow> bool" where
  "ivec_equals v other \<longleftrightarrow>
     vcount v = vcount other \<and>
     list_all (\<lambda>i. velements v ! i = velements other ! i) [0..<nat (vcount v)]"

definition ivec_elementAti :: "ivector \<Rightarrow> int \<Rightarrow> int" where
  "ivec_elementAti v index =
     (if index \<ge> 0 \<and> vcount v > 0 \<and> vcount v - index > 0 then velements v ! nat index else 0)"

definition ivec_lastElementi :: "ivector \<Rightarrow> int" where
  "ivec_lastElementi v = ivec_elementAti v (vcount v - 1)"

definition ivec_setElementAt :: "int \<Rightarrow> int \<Rightarrow> ivector \<Rightarrow> ivector" where
  "ivec_setElementAt elem index v =
     (if 0 \<le> index \<and> index < vcount v
      then v\<lparr>velements := (velements v)[nat index := elem]\<rparr> else v)"

definition ivec_addElement ::
    "int \<Rightarrow> int heap \<Rightarrow> int \<Rightarrow> ivector \<Rightarrow> UErrorCode \<Rightarrow> ivector \<times> UErrorCode" where
  "ivec_addElement sz h elem v status =
     (case ivec_ensureCapacity sz h (vcount v + 1) v status of
        (ok, v1, st) \<Rightarrow>
          if ok then
            (v1\<lparr>velements := (velements v1)[nat (vcount v1) := elem], vcount := vcount v1 + 1\<rparr>, st)
          else (v1, st))"

definition ivec_insertElementAt ::
    "int \<Rightarrow> int heap \<Rightarrow> int \<Rightarrow> int \<Rightarrow> ivector \<Rightarrow> UErrorCode \<Rightarrow> ivector \<times> UErrorCode" where
  "ivec_insertElementAt sz h elem index v status =
     (if 0 \<le> index \<and> index \<le> vcount v then
        (case ivec_ensureCapacity sz h (vcount v + 1) v status of
           (ok, v1, st) \<Rightarrow>
             if ok then
               (v1\<lparr>velements := (shift_up (nat index) (nat (vcount v1)) (velements v1))[nat index := elem],
                   vcount := vcount v1 + 1\<rparr>, st)
             else (v1, st))
      else (v, status))"

definition ivec_sortedInsert ::
    "int \<Rightarrow> int heap \<Rightarrow> int \<Rightarrow> ivector \<Rightarrow> UErrorCode \<Rightarrow> ivector \<times> UErrorCode" where
  "ivec_sortedInsert sz h tok v ec =
     (let pos = sorted_position (\<lambda>probe. velements v ! probe > tok) 0 (nat (vcount v)) in
      case ivec_ensureCapacity sz h (vcount v + 1) v ec of
        (ok, v1, st) \<Rightarrow>
          if ok then
            (v1\<lparr>velements := (shift_up pos (nat (vcount v1)) (velements v1))[pos := tok],
                vcount := vcount v1 + 1\<rparr>, st)
          else (v1, st))"

definition ivec_indexOf :: "ivector \<Rightarrow> int \<Rightarrow> int \<Rightarrow> int" where
  "ivec_indexOf v key startIndex =
     (case find (\<lambda>i. key = velements v ! i) [nat startIndex..<nat (vcount v)] of
        Some i \<Rightarrow> int i | None \<Rightarrow> -1)"

definition ivec_containsAll :: "ivector \<Rightarrow> ivector \<Rightarrow> bool" where
  "ivec_containsAll v other \<longleftrightarrow>
     list_all (\<lambda>i. \<not> ivec_indexOf v (velements other ! i) 0 < 0) [0..<nat (vcount other)]"

definition ivec_containsNone :: "ivector \<Rightarrow> ivector \<Rightarrow> bool" where
  "ivec_containsNone v other \<longleftrightarrow>
     list_all (\<lambda>i. \<not> ivec_indexOf v (velements other ! i) 0 \<ge> 0) [0..<nat (vcount other)]"

definition ivec_removeElementAt :: "int \<Rightarrow> ivector \<Rightarrow> ivector" where
  "ivec_removeElementAt index v =
     (if index \<ge> 0 then
        v\<lparr>velements := shift_down (nat index) (nat (vcount v - 1)) (velements v),
          vcount := vcount v - 1\<rparr>
      else v)"

definition ivec_removeAll :: "ivector \<Rightarrow> ivector \<Rightarrow> bool \<times> ivector" where
  "ivec_removeAll other v =
     fold (\<lambda>i (changed, w).
             let j = ivec_indexOf w (velements other ! i) 0 in
             if j \<ge> 0 then (True, ivec_removeElementAt j w) else (changed, w))
          [0..<nat (vcount other)] (False, v)"

definition ivec_retainAll :: "ivector \<Rightarrow> ivector \<Rightarrow> bool \<times> ivector" where
  "ivec_retainAll other v =
     fold (\<lambda>j (changed, w).
             let i = ivec_indexOf other (velements w ! j) 0 in
             if i < 0 then (True, ivec_removeElementAt (int j) w) else (changed, w))
          (rev [0..<nat (vcount v)]) (False, v)"

definition ivec_removeAllElements :: "ivector \<Rightarrow> ivector" where
  "ivec_removeAllElements v = v\<lparr>vcount := 0\<rparr>"

section \<open>The stack operations\<close>

definition ivec_push ::
    "int \<Rightarrow> int heap \<Rightarrow> int \<Rightarrow> ivector \<Rightarrow> UErrorCode \<Rightarrow> ivector \<times> UErrorCode" where
  "ivec_push sz h i v status = ivec_addElement sz h i v status"

definition ivec_popi :: "ivector \<Rightarrow> int \<times> ivector" where
  "ivec_popi v =
     (if vcount v > 0 then
        let v1 = v\<lparr>vcount := vcount v - 1\<rparr> in (velements v1 ! nat (vcount v1), v1)
      else (0, v))"

text \<open>A returned pointer into the block is its index; \<open>None\<close> is \<^verbatim>\<open>NULL\<close>.\<close>

definition ivec_reserveBlock ::
    "int \<Rightarrow> int heap \<Rightarrow> int \<Rightarrow> ivector \<Rightarrow> UErrorCode \<Rightarrow> int option \<times> ivector \<times> UErrorCode" where
  "ivec_reserveBlock sz h n v status =
     (case ivec_ensureCapacity sz h (vcount v + n) v status of
        (ok, v1, st) \<Rightarrow>
          if \<not> ok then (None, v1, st)
          else (Some (vcount v1), v1\<lparr>vcount := vcount v1 + n\<rparr>, st))"

definition ivec_popFrame :: "int \<Rightarrow> ivector \<Rightarrow> int \<times> ivector" where
  "ivec_popFrame n v =
     (let c = vcount v - n; c' = (if c < 0 then 0 else c) in
      (c' - n, v\<lparr>vcount := c'\<rparr>))"

section \<open>Correctness for every cell size\<close>

lemma ivec_count_nat: "ivec_inv sz v \<Longrightarrow> nat (vcount v) \<le> length (velements v)"
  unfolding ivec_inv_def by linarith

lemma length_view: "ivec_inv sz v \<Longrightarrow> length (view v) = nat (vcount v)"
  by (simp add: view_def ivec_count_nat)

lemma nth_view: "i < nat (vcount v) \<Longrightarrow> velements v ! i = view v ! i"
  by (simp add: view_def)

lemma set_view: "ivec_inv sz v \<Longrightarrow> set (view v) = (!) (velements v) ` {0..<nat (vcount v)}"
  by (simp add: view_def ivec_count_nat nth_image)

lemma ensureCapacity_outcomes:
  assumes "ivec_ensureCapacity sz h n v st = (ok, v', st')"
  shows "ok \<and> v' = v \<and> st' = st \<and> 0 \<le> n \<and> n \<le> vcapacity v \<or>
         \<not> ok \<and> v' = v \<and> U_FAILURE st' \<or>
         ok \<and> st' = st \<and> 0 \<le> n \<and> n \<le> vcapacity v' \<and> vcapacity v < n \<and>
         vcapacity v' \<le> INT32_MAX div sz \<and>
         uprv_realloc h (velements v) sz (vcapacity v') = Some (velements v') \<and>
         v' = v\<lparr>velements := velements v', vcapacity := vcapacity v'\<rparr>"
  using assms
  by (auto simp: ivec_ensureCapacity_def ivec_expandCapacity_def Let_def
           split: if_splits option.splits)

text \<open>
  The laws below hold for both classes: all they need of the cell size is that the byte limit
  leaves room for the default capacity and that doubling a legal capacity cannot overflow.
\<close>

locale int_vector =
  fixes sz :: int
  assumes sz_low: "2 \<le> sz" and sz_high: "sz \<le> 8"
begin

lemma limit_default: "DEFAULT_CAPACITY \<le> INT32_MAX div sz"
proof -
  have "INT32_MAX div 8 \<le> INT32_MAX div sz"
    using sz_low sz_high by (intro zdiv_mono2) (auto simp: INT32_MAX_def)
  then show ?thesis by (simp add: INT32_MAX_def DEFAULT_CAPACITY_def)
qed

lemma limit_half: "INT32_MAX div sz \<le> (INT32_MAX - 1) div 2"
proof -
  have "INT32_MAX div sz \<le> INT32_MAX div 2"
    using sz_low by (intro zdiv_mono2) (auto simp: INT32_MAX_def)
  then show ?thesis by (simp add: INT32_MAX_def)
qed

lemma ensureCapacity_cases:
  assumes inv: "ivec_inv sz v" and res: "ivec_ensureCapacity sz h n v st = (ok, v', st')"
  shows "(ok \<and> st' = st \<and> ivec_inv sz v' \<and> 0 \<le> n \<and> n \<le> vcapacity v' \<and>
            vcount v' = vcount v \<and> vmaxCapacity v' = vmaxCapacity v \<and> view v' = view v \<and>
            take (length (velements v)) (velements v') = velements v) \<or>
         (\<not> ok \<and> v' = v \<and> U_FAILURE st')"
  using ensureCapacity_outcomes [OF res]
proof (elim disjE)
  let ?c = "vcapacity v'" and ?block = "velements v'"
  assume *: "ok \<and> st' = st \<and> 0 \<le> n \<and> n \<le> ?c \<and> vcapacity v < n \<and> ?c \<le> INT32_MAX div sz \<and>
    uprv_realloc h (velements v) sz ?c = Some ?block \<and>
    v' = v\<lparr>velements := ?block, vcapacity := ?c\<rparr>"
  then have c: "0 \<le> ?c" and lt: "length (velements v) < nat ?c"
    using inv by (auto simp: ivec_inv_def)
  have len: "int (length ?block) = ?c"
    and tk: "take (min (nat ?c) (length (velements v))) ?block = take (nat ?c) (velements v)"
    using uprv_realloc_Some [of h "velements v" sz ?c ?block] c * sz_low by auto
  from tk lt have tk': "take (length (velements v)) ?block = velements v" by simp
  then have vw: "take (nat (vcount v)) ?block = take (nat (vcount v)) (velements v)"
    using ivec_count_nat [OF inv] by (metis min.absorb1 take_take)
  from * have "vcount v' = vcount v" "vmaxCapacity v' = vmaxCapacity v"
    by (metis ivector.select_convs ivector.surjective ivector.update_convs(2,4))+
  then show ?thesis
    using * inv len tk' vw by (auto simp: ivec_inv_def view_def)
qed (use inv in \<open>auto simp: view_def\<close>)

text \<open>The common step of the three insertions: grow, open a gap at \<open>k\<close>, fill it.\<close>

lemma insert_step:
  assumes inv: "ivec_inv sz v" and k: "k \<le> nat (vcount v)"
    and res: "ivec_ensureCapacity sz h (vcount v + 1) v st = (True, v1, st1)"
    and w: "w = v1\<lparr>velements := (shift_up k (nat (vcount v1)) (velements v1))[k := x],
                   vcount := vcount v1 + 1\<rparr>"
  shows "ivec_inv sz w \<and> view w = take k (view v) @ x # drop k (view v) \<and> st1 = st"
proof -
  from ensureCapacity_cases [OF inv res]
  have *: "st1 = st" "ivec_inv sz v1" "vcount v + 1 \<le> vcapacity v1" "vcount v1 = vcount v"
      "view v1 = view v"
    by auto
  then have lt: "nat (vcount v1) < length (velements v1)" "0 \<le> vcount v1"
    by (auto simp: ivec_inv_def)
  have "take (Suc (nat (vcount v1))) ((shift_up k (nat (vcount v1)) (velements v1))[k := x]) =
        take k (view v1) @ x # drop k (view v1)"
    using shift_up_insert [OF lt(1), of k x] k *(4) by (simp add: view_def)
  moreover have "nat (vcount w) = Suc (nat (vcount v1))" using lt by (simp add: w)
  ultimately have "view w = take k (view v) @ x # drop k (view v)"
    unfolding view_def [of w] using *(5) by (simp add: w)
  moreover have "ivec_inv sz w"
    using * lt unfolding ivec_inv_def by (simp add: w)
  ultimately show ?thesis using *(1) by blast
qed

lemma addElement_spec:
  assumes inv: "ivec_inv sz v" and res: "ivec_addElement sz h x v st = (v', st')"
  shows "ivec_inv sz v' \<and> (view v' = view v @ [x] \<and> st' = st \<or> v' = v \<and> U_FAILURE st')"
proof (cases "ivec_ensureCapacity sz h (vcount v + 1) v st")
  case (fields ok v1 st1)
  show ?thesis
  proof (cases ok)
    case True
    let ?k = "nat (vcount v)"
    have "vcount v1 = vcount v" using ensureCapacity_cases [OF inv fields] True by simp
    then have "v' = v1\<lparr>velements := (shift_up ?k (nat (vcount v1)) (velements v1))[?k := x],
                       vcount := vcount v1 + 1\<rparr>" and "st' = st1"
      using res fields True by (auto simp: ivec_addElement_def shift_up_def)
    from insert_step [OF inv _ fields [unfolded eqTrueI [OF True]] this(1)] this(2)
    show ?thesis using length_view [OF inv] by simp
  next
    case False
    then have "v1 = v \<and> U_FAILURE st1" using ensureCapacity_cases [OF inv fields] by simp
    then show ?thesis
      using res fields inv False by (auto simp: ivec_addElement_def Let_def)
  qed
qed

lemma insertElementAt_spec:
  assumes inv: "ivec_inv sz v" and res: "ivec_insertElementAt sz h x index v st = (v', st')"
    and index: "0 \<le> index" "index \<le> vcount v"
  shows "ivec_inv sz v' \<and>
         (view v' = take (nat index) (view v) @ x # drop (nat index) (view v) \<and> st' = st \<or>
          v' = v \<and> U_FAILURE st')"
proof (cases "ivec_ensureCapacity sz h (vcount v + 1) v st")
  case (fields ok v1 st1)
  show ?thesis
  proof (cases ok)
    case True
    then have "v' = v1\<lparr>velements := (shift_up (nat index) (nat (vcount v1)) (velements v1))[nat index := x],
                       vcount := vcount v1 + 1\<rparr>" and "st' = st1"
      using res fields index by (auto simp: ivec_insertElementAt_def)
    from insert_step [OF inv _ fields [unfolded eqTrueI [OF True]] this(1)] this(2) index
    show ?thesis by simp
  next
    case False
    then have "v1 = v \<and> U_FAILURE st1" using ensureCapacity_cases [OF inv fields] by simp
    then show ?thesis
      using res fields inv index False by (auto simp: ivec_insertElementAt_def Let_def)
  qed
qed

lemma sortedInsert_places:
  assumes inv: "ivec_inv sz v" and res: "ivec_sortedInsert sz h x v st = (v', st')"
  defines "k \<equiv> sorted_position (\<lambda>probe. velements v ! probe > x) 0 (nat (vcount v))"
  shows "ivec_inv sz v' \<and> (view v' = take k (view v) @ x # drop k (view v) \<and> st' = st \<or> v' = v \<and> U_FAILURE st')"
proof (cases "ivec_ensureCapacity sz h (vcount v + 1) v st")
  case (fields ok v1 st1)
  have kn: "k \<le> nat (vcount v)"
    using sorted_position_bounds [of 0 "nat (vcount v)" "\<lambda>probe. velements v ! probe > x"] by (simp add: k_def)
  show ?thesis
  proof (cases ok)
    case True
    then have w: "v' = v1\<lparr>velements := (shift_up k (nat (vcount v1)) (velements v1))[k := x],
                       vcount := vcount v1 + 1\<rparr>" and st: "st' = st1"
      using res fields by (auto simp: ivec_sortedInsert_def Let_def k_def)
    have "ivec_inv sz v' \<and> view v' = take k (view v) @ x # drop k (view v) \<and> st1 = st"
      by (rule insert_step [OF inv kn fields [unfolded eqTrueI [OF True]] w])
    then show ?thesis using st by simp
  next
    case False
    then have "v1 = v \<and> U_FAILURE st1" using ensureCapacity_cases [OF inv fields] by simp
    then show ?thesis
      using res fields inv False by (auto simp: ivec_sortedInsert_def Let_def)
  qed
qed

lemma sortedInsert_spec:
  assumes inv: "ivec_inv sz v" and res: "ivec_sortedInsert sz h x v st = (v', st')"
    and srt: "sorted (view v)"
  shows "ivec_inv sz v' \<and>
         (sorted (view v') \<and> mset (view v') = add_mset x (mset (view v)) \<and> st' = st \<or>
          v' = v \<and> U_FAILURE st')"
proof -
  let ?n = "nat (vcount v)"
  let ?gt = "\<lambda>probe. velements v ! probe > x"
  let ?k = "sorted_position ?gt 0 ?n"
  have len: "length (view v) = ?n" by (rule length_view [OF inv])
  have gt: "i < ?n \<Longrightarrow> ?gt i \<longleftrightarrow> view v ! i > x" for i by (simp add: nth_view)
  have kn: "?k \<le> ?n" using sorted_position_bounds [of 0 ?n ?gt] by simp
  have split: "(\<forall>i < ?k. \<not> ?gt i) \<and> (\<forall>i. ?k \<le> i \<and> i < ?n \<longrightarrow> ?gt i)"
    by (rule sorted_position_split)
       (use srt len gt in \<open>auto, metis (mono_tags) order.strict_trans1 order.strict_trans2 sorted_nth_mono\<close>)
  have "sorted (take ?k (view v) @ x # drop ?k (view v))"
    using split kn len gt by (intro sorted_insert_at [OF srt]) (auto simp: not_less)
  moreover have "mset (take ?k (view v) @ x # drop ?k (view v)) = add_mset x (mset (view v))" by (rule mset_insert_at)
  ultimately show ?thesis using sortedInsert_places [OF inv res] by auto
qed

lemma removeElementAt_spec:
  assumes inv: "ivec_inv sz v" and index: "0 \<le> index" "index < vcount v"
  shows "ivec_inv sz (ivec_removeElementAt index v) \<and>
         view (ivec_removeElementAt index v) =
           take (nat index) (view v) @ drop (Suc (nat index)) (view v)"
proof -
  have lt: "nat (vcount v - 1) < length (velements v)" and le: "nat index \<le> nat (vcount v - 1)"
    and suc: "Suc (nat (vcount v - 1)) = nat (vcount v)"
    using inv index by (auto simp: ivec_inv_def)
  from shift_down_remove [OF lt le] suc index inv show ?thesis
    by (auto simp: ivec_removeElementAt_def ivec_inv_def view_def)
qed

lemma init_spec:
  assumes "ivec_new sz h n st = (v, st')"
  shows "ivec_inv sz v \<and> view v = [] \<and> (st' = st \<or> st' = U_MEMORY_ALLOCATION_ERROR)"
  using assms limit_default sz_low uprv_malloc_Some [of h sz]
  by (fastforce simp: ivec_new_def ivec_init_def ivec_inv_def view_def Let_def DEFAULT_CAPACITY_def
                      INT32_MAX_def min_def
                split: option.splits if_splits)

lemma fold_zero_take:
  assumes "a \<le> b" "b \<le> length xs"
  shows "take b (fold (\<lambda>i e. e[i := 0]) [a..<b] xs) = take a xs @ replicate (b - a) (0::int) \<and>
         length (fold (\<lambda>i e. e[i := (0::int)]) [a..<b] xs) = length xs"
  using assms
proof (induction b)
  case (Suc b)
  show ?case
  proof (cases "a = Suc b")
    case False
    then have le: "a \<le> b" "b \<le> length xs" using Suc.prems by auto
    let ?ys = "fold (\<lambda>i e. e[i := (0::int)]) [a..<b] xs"
    have "take (Suc b) (?ys[b := 0]) = take b ?ys @ [0]"
      using Suc.IH [OF le] Suc.prems by (simp add: take_Suc_conv_app_nth)
    then show ?thesis using Suc.IH [OF le] le
      by (simp add: Suc_diff_le replicate_append_same)
  qed simp
qed simp

lemma setSize_spec:
  assumes inv: "ivec_inv sz v"
  shows "ivec_inv sz (ivec_setSize sz h n v) \<and>
         (ivec_setSize sz h n v = v \<or>
          0 \<le> n \<and> view (ivec_setSize sz h n v) =
            take (nat n) (view v) @ replicate (nat n - length (view v)) 0)"
proof (cases "n > vcount v")
  case False
  then have "view (v\<lparr>vcount := n\<rparr>) = take (nat n) (view v)" by (simp add: view_def)
  then show ?thesis using False inv length_view [OF inv]
    by (auto simp: ivec_setSize_def ivec_inv_def view_def)
next
  case True
  obtain ok v1 st1 where res: "ivec_ensureCapacity sz h n v U_ZERO_ERROR = (ok, v1, st1)"
    by (metis prod_cases3)
  show ?thesis
  proof (cases ok)
    case ok: True
    from ensureCapacity_cases [OF inv res] ok
    have *: "ivec_inv sz v1" "n \<le> vcapacity v1" "vcount v1 = vcount v" "view v1 = view v" by auto
    let ?ys = "fold (\<lambda>i e. e[i := (0::int)]) [nat (vcount v1)..<nat n] (velements v1)"
    have le: "nat (vcount v1) \<le> nat n" "nat n \<le> length (velements v1)"
      using * True by (auto simp: ivec_inv_def)
    from fold_zero_take [OF le] * res True ok inv
    show ?thesis using length_view [OF inv]
      by (auto simp: ivec_setSize_def ivec_inv_def view_def)
  next
    case False
    then have "v1 = v" using ensureCapacity_cases [OF inv res] by simp
    then show ?thesis using False res True inv by (auto simp: ivec_setSize_def)
  qed
qed

lemma fold_copy_take:
  assumes "n \<le> length xs"
  shows "take n (fold (\<lambda>i e. e[i := f i]) [0..<n] xs) = map f [0..<n] \<and>
         length (fold (\<lambda>i e. e[i := f i]) [0..<n] xs) = length xs"
  using assms by (induction n) (auto simp: take_Suc_conv_app_nth)

lemma assign_spec:
  assumes inv: "ivec_inv sz v" and other: "ivec_inv sz w"
    and res: "ivec_assign sz h w v st = (v', st')"
  shows "ivec_inv sz v' \<and> (view v' = view w \<and> st' = st \<or> v' = v \<and> U_FAILURE st')"
proof (cases "ivec_ensureCapacity sz h (vcount w) v st")
  case (fields ok v1 st1)
  show ?thesis
  proof (cases ok)
    case True
    from ensureCapacity_cases [OF inv fields] True
    have *: "ivec_inv sz v1" "vcount w \<le> vcapacity v1" "st1 = st" by auto
    let ?v2 = "ivec_setSize sz h (vcount w) v1" and ?n = "nat (vcount w)"
    have v2: "vcount ?v2 = vcount w" "ivec_inv sz ?v2"
      using *(1,2) other setSize_spec [OF *(1), of h "vcount w"]
      by (auto simp: ivec_setSize_def ivec_ensureCapacity_def ivec_inv_def)
    have "map ((!) (velements w)) [0..<?n] = view w"
      using ivec_count_nat [OF other] length_view [OF other]
      by (intro nth_equalityI) (auto simp: nth_view)
    moreover have "v' = ?v2\<lparr>velements := fold (\<lambda>i e. e[i := velements w ! i]) [0..<?n] (velements ?v2)\<rparr>"
      "st' = st" using res fields True * by (auto simp: ivec_assign_def Let_def)
    ultimately show ?thesis
      using fold_copy_take [of ?n "velements ?v2" "(!) (velements w)"] v2 ivec_count_nat [OF v2(2)]
      by (auto simp: view_def ivec_inv_def)
  next
    case False
    then have "v1 = v \<and> U_FAILURE st1" using ensureCapacity_cases [OF inv fields] by simp
    then show ?thesis using res fields inv False by (auto simp: ivec_assign_def)
  qed
qed

lemma setMaxCapacity_spec:
  assumes inv: "ivec_inv sz v"
  shows "ivec_inv sz (ivec_setMaxCapacity sz h n v) \<and>
         (\<exists>k. view (ivec_setMaxCapacity sz h n v) = take k (view v))"
proof -
  define l where "l = (if n < 0 then 0 else n)"
  let ?v' = "ivec_setMaxCapacity sz h n v"
  have "0 \<le> l" by (simp add: l_def)
  have same: "ivec_inv sz w \<and> (\<exists>k. view w = take k (view v))"
    if "w = v \<or> w = v\<lparr>vmaxCapacity := l\<rparr> \<and> l \<le> INT32_MAX div sz" for w
    using that inv \<open>0 \<le> l\<close> by (auto simp: ivec_inv_def view_def intro: exI [of _ "nat (vcount v)"])
  show ?thesis
  proof (cases "l \<le> INT32_MAX div sz \<and> 0 < l \<and> l < vcapacity v")
    case False
    then have "?v' = v \<or> ?v' = v\<lparr>vmaxCapacity := l\<rparr> \<and> l \<le> INT32_MAX div sz"
      using \<open>0 \<le> l\<close> by (auto simp: ivec_setMaxCapacity_def Let_def l_def split: if_splits)
    then show ?thesis by (rule same)
  next
    case True
    show ?thesis
    proof (cases "uprv_realloc h (velements v) sz l")
      case None
      then have "?v' = v\<lparr>vmaxCapacity := l\<rparr>"
        using True by (auto simp: ivec_setMaxCapacity_def Let_def l_def split: if_splits)
      then show ?thesis using same True by blast
    next
      case (Some block)
      have len: "int (length block) = l" and
        tk: "take (min (nat l) (length (velements v))) block = take (nat l) (velements v)"
        using uprv_realloc_Some [OF Some] True sz_low by auto
      from len have n: "nat l = length block" by simp
      have "block = take (nat l) (velements v)"
        using tk len True inv by (auto simp: n ivec_inv_def min_def split: if_splits)
      moreover have "?v' = v\<lparr>vmaxCapacity := l, velements := block, vcapacity := l,
          vcount := (if vcount v > l then l else vcount v)\<rparr>"
        using True Some by (auto simp: ivec_setMaxCapacity_def Let_def l_def split: if_splits)
      ultimately have "view ?v' = take (nat l) (view v)" and "ivec_inv sz ?v'"
        using inv True len by (simp_all add: view_def ivec_inv_def min_def)
      then show ?thesis by blast
    qed
  qed
qed

lemma popi_spec:
  assumes inv: "ivec_inv sz v"
  shows "ivec_inv sz (snd (ivec_popi v)) \<and> view (snd (ivec_popi v)) = butlast (view v) \<and>
         fst (ivec_popi v) = (if view v = [] then 0 else last (view v))"
proof (cases "vcount v > 0")
  case True
  then have eq: "nat (vcount v) = Suc (nat (vcount v - 1))" by simp
  have lt: "nat (vcount v - 1) < length (velements v)" using inv True by (auto simp: ivec_inv_def)
  then have "view v = take (nat (vcount v - 1)) (velements v) @ [velements v ! nat (vcount v - 1)]"
    by (simp add: view_def eq take_Suc_conv_app_nth)
  then show ?thesis using True inv by (auto simp: ivec_popi_def ivec_inv_def view_def)
next
  case False
  then have "view v = []" by (simp add: view_def)
  then show ?thesis using False inv by (simp add: ivec_popi_def)
qed

end

section \<open>Searching\<close>

lemma indexOf_found:
  assumes inv: "ivec_inv sz v" and start: "0 \<le> start" and i: "ivec_indexOf v key start = i" "0 \<le> i"
  shows "start \<le> i \<and> i < vcount v \<and> view v ! nat i = key \<and>
         (\<forall>j. nat start \<le> j \<and> j < nat i \<longrightarrow> view v ! j \<noteq> key)"
proof -
  let ?P = "\<lambda>i. key = velements v ! i" and ?is = "[nat start..<nat (vcount v)]"
  from i obtain k where k: "find ?P ?is = Some k" "i = int k"
    by (auto simp: ivec_indexOf_def split: option.splits)
  then obtain m where m: "m < length ?is" "?P (?is ! m)" "k = ?is ! m"
      "\<forall>j<m. \<not> ?P (?is ! j)"
    by (auto simp: find_Some_iff)
  then have k': "k = nat start + m" by simp
  have "view v ! j \<noteq> key" if "nat start \<le> j" "j < k" for j
  proof -
    have "j - nat start < m" "?is ! (j - nat start) = j" "j < nat (vcount v)"
      using that k' m(1) by auto
    then have "velements v ! j \<noteq> key" using m(4) by metis
    then show ?thesis using \<open>j < nat (vcount v)\<close> by (simp add: nth_view)
  qed
  then show ?thesis using k k' m(1,2) start by (auto simp: nth_view nat_add_distrib)
qed

lemma indexOf_absent:
  assumes inv: "ivec_inv sz v"
  shows "ivec_indexOf v key 0 < 0 \<longleftrightarrow> key \<notin> set (view v)"
  using set_view [OF inv]
  by (auto simp: ivec_indexOf_def find_None_iff find_Some_iff image_iff split: option.splits)

lemma containsAll_spec:
  assumes "ivec_inv sz v" "ivec_inv sz w"
  shows "ivec_containsAll v w \<longleftrightarrow> set (view w) \<subseteq> set (view v)"
  using set_view [OF assms(2)]
  by (auto simp: ivec_containsAll_def list_all_iff indexOf_absent [OF assms(1)])

lemma containsNone_spec:
  assumes "ivec_inv sz v" "ivec_inv sz w"
  shows "ivec_containsNone v w \<longleftrightarrow> set (view w) \<inter> set (view v) = {}"
  using set_view [OF assms(2)] indexOf_absent [OF assms(1)]
  by (auto simp: ivec_containsNone_def list_all_iff not_le)

lemma equals_spec:
  assumes "ivec_inv sz v" "ivec_inv sz w"
  shows "ivec_equals v w \<longleftrightarrow> view v = view w"
proof
  assume "ivec_equals v w"
  then show "view v = view w"
    using length_view [OF assms(1)] length_view [OF assms(2)]
    by (intro nth_equalityI) (auto simp: ivec_equals_def list_all_iff nth_view)
next
  assume eq: "view v = view w"
  then have "vcount v = vcount w"
    using length_view [OF assms(1)] length_view [OF assms(2)] assms by (auto simp: ivec_inv_def)
  then show "ivec_equals v w" using eq by (auto simp: ivec_equals_def list_all_iff nth_view)
qed

section \<open>Removing several elements\<close>

context int_vector
begin

lemma remove_found:
  assumes inv: "ivec_inv sz v" and j: "ivec_indexOf v x 0 = j" "0 \<le> j"
  shows "ivec_inv sz (ivec_removeElementAt j v) \<and>
         view (ivec_removeElementAt j v) = remove1 x (view v) \<and> x \<in> set (view v)"
proof -
  from indexOf_found [OF inv order_refl j]
  have jv: "j < vcount v" "view v ! nat j = x" "\<forall>k < nat j. view v ! k \<noteq> x" by auto
  have lt: "nat j < length (view v)" using length_view [OF inv] jv(1) j(2) by simp
  have split: "view v = take (nat j) (view v) @ x # drop (Suc (nat j)) (view v)"
    using id_take_nth_drop [OF lt] jv(2) by simp
  have "x \<notin> set (take (nat j) (view v))"
    using jv(3) lt by (auto simp: in_set_conv_nth)
  then have "remove1 x (view v) = take (nat j) (view v) @ drop (Suc (nat j)) (view v)"
    by (subst split) (simp add: remove1_append)
  then show ?thesis
    using removeElementAt_spec [OF inv j(2) jv(1)] jv(2) lt by auto
qed

lemma removeAll_spec:
  assumes inv: "ivec_inv sz v" and other: "ivec_inv sz w"
    and res: "ivec_removeAll w v = (changed, v')"
  shows "ivec_inv sz v' \<and> view v' = fold remove1 (view w) (view v) \<and>
         mset (view v') = mset (view v) - mset (view w) \<and>
         (changed \<longleftrightarrow> set (view v) \<inter> set (view w) \<noteq> {})"
proof -
  let ?f = "\<lambda>x (changed, u). let j = ivec_indexOf u x 0 in
             if j \<ge> 0 then (True, ivec_removeElementAt j u) else (changed, u)"
  have step: "ivec_inv sz u \<Longrightarrow> fold ?f xs (c, u) = (c', u') \<Longrightarrow>
      ivec_inv sz u' \<and> view u' = fold remove1 xs (view u) \<and>
      (c' \<longleftrightarrow> c \<or> set (view u) \<inter> set xs \<noteq> {})" for xs c u c' u'
  proof (induction xs arbitrary: c u)
    case (Cons x xs)
    show ?case
    proof (cases "ivec_indexOf u x 0 \<ge> 0")
      case True
      from remove_found [OF Cons.prems(1) refl True] Cons.IH Cons.prems True
      show ?thesis by (auto simp: Let_def)
    next
      case False
      then have "ivec_indexOf u x 0 < 0" by simp
      then have "x \<notin> set (view u)" using indexOf_absent [OF Cons.prems(1)] by blast
      with False Cons.IH [OF Cons.prems(1)] Cons.prems show ?thesis
        by (auto simp: Let_def remove1_idem)
    qed
  qed simp
  have "ivec_removeAll w v = fold ?f (map ((!) (velements w)) [0..<nat (vcount w)]) (False, v)"
    unfolding ivec_removeAll_def by (simp add: fold_map comp_def)
  moreover have "map ((!) (velements w)) [0..<nat (vcount w)] = view w"
    using length_view [OF other] by (intro nth_equalityI) (auto simp: nth_view)
  ultimately have "fold ?f (view w) (False, v) = (changed, v')" using res by simp
  note step [OF inv this]
  moreover have "mset (fold remove1 ys xs) = mset xs - mset ys" for ys xs :: "int list"
    by (induction ys arbitrary: xs) (auto simp: diff_right_commute)
  ultimately show ?thesis by auto
qed

lemma retainAll_spec:
  assumes inv: "ivec_inv sz v" and other: "ivec_inv sz w"
    and res: "ivec_retainAll w v = (changed, v')"
  shows "ivec_inv sz v' \<and> view v' = filter (\<lambda>x. x \<in> set (view w)) (view v) \<and>
         (changed \<longleftrightarrow> \<not> set (view v) \<subseteq> set (view w))"
proof -
  let ?P = "\<lambda>x. x \<in> set (view w)"
  let ?f = "\<lambda>j (changed, u). let i = ivec_indexOf w (velements u ! j) 0 in
             if i < 0 then (True, ivec_removeElementAt (int j) u) else (changed, u)"
  have step: "ivec_inv sz u \<Longrightarrow> n \<le> nat (vcount u) \<Longrightarrow> fold ?f (rev [0..<n]) (c, u) = (c', u') \<Longrightarrow>
      ivec_inv sz u' \<and> view u' = filter ?P (take n (view u)) @ drop n (view u) \<and>
      (c' \<longleftrightarrow> c \<or> \<not> (\<forall>x \<in> set (take n (view u)). ?P x))" for n c u c' u'
  proof (induction n arbitrary: c u)
    case (Suc n)
    have lt: "n < length (view u)" using length_view [OF Suc.prems(1)] Suc.prems(2) by simp
    have tk: "take (Suc n) (view u) = take n (view u) @ [view u ! n]"
      "drop n (view u) = view u ! n # drop (Suc n) (view u)"
      using lt by (simp_all add: take_Suc_conv_app_nth Cons_nth_drop_Suc)
    have el: "velements u ! n = view u ! n" using Suc.prems(2) by (simp add: nth_view)
    show ?case
    proof (cases "?P (view u ! n)")
      case True
      then have "\<not> ivec_indexOf w (view u ! n) 0 < 0" by (simp add: indexOf_absent [OF other])
      then have "fold ?f (rev [0..<n]) (c, u) = (c', u')" using Suc.prems(3) el by (simp add: Let_def)
      from Suc.IH [OF Suc.prems(1) _ this] Suc.prems(2) True show ?thesis by (auto simp: tk)
    next
      case False
      then have neg: "ivec_indexOf w (view u ! n) 0 < 0" by (simp add: indexOf_absent [OF other])
      let ?u = "ivec_removeElementAt (int n) u"
      have rm: "ivec_inv sz ?u" "view ?u = take n (view u) @ drop (Suc n) (view u)"
        using removeElementAt_spec [OF Suc.prems(1), of "int n"] Suc.prems(2) by auto
      have "n \<le> nat (vcount ?u)" using length_view [OF rm(1)] rm(2) lt by simp
      moreover have "fold ?f (rev [0..<n]) (True, ?u) = (c', u')"
        using Suc.prems(3) el neg by (simp add: Let_def)
      ultimately show ?thesis
        using Suc.IH [OF rm(1)] rm(2) lt False by (auto simp: tk)
    qed
  qed simp
  have "fold ?f (rev [0..<nat (vcount v)]) (False, v) = (changed, v')"
    using res by (simp add: ivec_retainAll_def)
  from step [OF inv order_refl this] length_view [OF inv] show ?thesis by auto
qed

end

section \<open>The stack contract\<close>

text \<open>
  What the clients of the vectors rely on (the regex engine keeps its backtracking stack in
  a \<^verbatim>\<open>UVector64\<close>): a push either appends one element or fails with an error code and
  changes nothing, and a pop returns the last element.
\<close>

fun push_all ::
    "('e \<Rightarrow> 'v \<Rightarrow> UErrorCode \<Rightarrow> 'v \<times> UErrorCode) \<Rightarrow> 'e list \<Rightarrow> 'v \<Rightarrow> UErrorCode \<Rightarrow> 'v \<times> UErrorCode" where
  "push_all push [] v st = (v, st)"
| "push_all push (x # xs) v st =
     (if U_FAILURE st then (v, st)
      else case push x v st of (v', st') \<Rightarrow> push_all push xs v' st')"

fun pop_all :: "('v \<Rightarrow> 'e \<times> 'v) \<Rightarrow> nat \<Rightarrow> 'v \<Rightarrow> 'e list \<times> 'v" where
  "pop_all pop 0 v = ([], v)"
| "pop_all pop (Suc n) v =
     (case pop v of (x, v') \<Rightarrow> case pop_all pop n v' of (xs, v'') \<Rightarrow> (x # xs, v''))"

locale vector_stack =
  fixes inv :: "'v \<Rightarrow> bool" and contents :: "'v \<Rightarrow> 'e list"
    and push :: "'e \<Rightarrow> 'v \<Rightarrow> UErrorCode \<Rightarrow> 'v \<times> UErrorCode"
    and pop :: "'v \<Rightarrow> 'e \<times> 'v"
  assumes push_inv: "inv v \<Longrightarrow> push x v st = (v', st') \<Longrightarrow> inv v'"
    and push_contents: "inv v \<Longrightarrow> push x v st = (v', st') \<Longrightarrow>
          contents v' = contents v @ [x] \<and> st' = st \<or> contents v' = contents v \<and> U_FAILURE st'"
    and pop_contents: "inv v \<Longrightarrow> contents v = xs @ [x] \<Longrightarrow> pop v = (y, v') \<Longrightarrow>
          y = x \<and> contents v' = xs \<and> inv v'"
begin

lemma push_all_prefix:
  "inv v \<Longrightarrow> push_all push xs v st = (v', st') \<Longrightarrow> U_SUCCESS st \<Longrightarrow>
     inv v' \<and> (\<exists>k \<le> length xs. contents v' = contents v @ take k xs \<and>
                (k = length xs \<and> st' = st \<or> U_FAILURE st'))"
proof (induction xs arbitrary: v st)
  case (Cons x xs)
  obtain w st1 where p: "push x v st = (w, st1)" by fastforce
  have w: "inv w" by (rule push_inv [OF Cons.prems(1) p])
  from push_contents [OF Cons.prems(1) p] show ?case
  proof (elim disjE conjE)
    assume c: "contents w = contents v @ [x]" "st1 = st"
    then have "push_all push xs w st = (v', st')" using Cons.prems p by simp
    from Cons.IH [OF w this Cons.prems(3)] obtain k where
      "inv v'" "k \<le> length xs" "contents v' = contents w @ take k xs"
      "k = length xs \<and> st' = st \<or> U_FAILURE st'" by blast
    then show ?thesis using c by (intro conjI exI [of _ "Suc k"]) auto
  next
    assume c: "contents w = contents v" "U_FAILURE st1"
    then have "(v', st') = (w, st1)" using Cons.prems p by (cases xs) auto
    then show ?thesis using c w by (auto intro: exI [of _ 0])
  qed
qed auto

lemma pop_all_rev:
  "inv v \<Longrightarrow> contents v = ys @ xs \<Longrightarrow> pop_all pop (length xs) v = (zs, v') \<Longrightarrow>
     zs = rev xs \<and> contents v' = ys \<and> inv v'"
proof (induction xs arbitrary: v zs v' rule: rev_induct)
  case (snoc x xs)
  obtain y w where p: "pop v = (y, w)" by fastforce
  from pop_contents [OF snoc.prems(1) _ p, of "ys @ xs" x] snoc.prems(2)
  have w: "y = x" "contents w = ys @ xs" "inv w" by auto
  obtain us u where q: "pop_all pop (length xs) w = (us, u)" by fastforce
  from snoc.IH [OF w(3,2) q] snoc.prems(3) p q w(1) show ?case by auto
qed auto

lemma lifo:
  assumes "inv v" "push_all push xs v st = (w, st)" "U_SUCCESS st" "pop_all pop (length xs) w = (zs, v')"
  shows "zs = rev xs \<and> contents v' = contents v"
proof -
  from push_all_prefix [OF assms(1,2,3)] assms(3)
  have "inv w" "contents w = contents v @ xs" by auto
  from pop_all_rev [OF this assms(4)] show ?thesis by simp
qed

end

sublocale int_vector \<subseteq> stk: vector_stack "ivec_inv sz" view "ivec_push sz h" ivec_popi for h
proof unfold_locales
  fix v x st v' st'
  assume "ivec_inv sz v" "ivec_push sz h x v st = (v', st')"
  from addElement_spec [OF this(1) this(2) [unfolded ivec_push_def]]
  show "ivec_inv sz v'"
    and "view v' = view v @ [x] \<and> st' = st \<or> view v' = view v \<and> U_FAILURE st'" by auto
next
  fix v xs x y v'
  assume "ivec_inv sz v" "view v = xs @ [x]" "ivec_popi v = (y, v')"
  with popi_spec [of v] show "y = x \<and> view v' = xs \<and> ivec_inv sz v'" by auto
qed

interpretation v32: int_vector 4
  by unfold_locales auto

interpretation v64: int_vector 8
  by unfold_locales auto

section \<open>The two classes\<close>

text \<open>\<^verbatim>\<open>UVector32\<close> is the code above at 4 bytes per cell.\<close>

abbreviation UVector32_inv :: "ivector \<Rightarrow> bool" where
  "UVector32_inv \<equiv> ivec_inv 4"

text \<open>
  \<^verbatim>\<open>UVector64\<close> repeats that code at 8 bytes per cell, without the searching and removing
  operations; its \<^verbatim>\<open>elementAti\<close> tests the index in a simpler way.
\<close>

definition UVector64_new :: "int heap \<Rightarrow> int \<Rightarrow> UErrorCode \<Rightarrow> ivector \<times> UErrorCode" where
  "UVector64_new h initialCapacity status = ivec_new 8 h initialCapacity status"

definition UVector64_assign ::
    "int heap \<Rightarrow> ivector \<Rightarrow> ivector \<Rightarrow> UErrorCode \<Rightarrow> ivector \<times> UErrorCode" where
  "UVector64_assign h other v ec = ivec_assign 8 h other v ec"

definition UVector64_equals :: "ivector \<Rightarrow> ivector \<Rightarrow> bool" where
  "UVector64_equals v other \<longleftrightarrow> ivec_equals v other"

definition UVector64_setElementAt :: "int \<Rightarrow> int \<Rightarrow> ivector \<Rightarrow> ivector" where
  "UVector64_setElementAt elem index v = ivec_setElementAt elem index v"

definition UVector64_insertElementAt ::
    "int heap \<Rightarrow> int \<Rightarrow> int \<Rightarrow> ivector \<Rightarrow> UErrorCode \<Rightarrow> ivector \<times> UErrorCode" where
  "UVector64_insertElementAt h elem index v status = ivec_insertElementAt 8 h elem index v status"

definition UVector64_removeAllElements :: "ivector \<Rightarrow> ivector" where
  "UVector64_removeAllElements v = ivec_removeAllElements v"

definition UVector64_expandCapacity ::
    "int heap \<Rightarrow> int \<Rightarrow> ivector \<Rightarrow> UErrorCode \<Rightarrow> bool \<times> ivector \<times> UErrorCode" where
  "UVector64_expandCapacity h minimumCapacity v status =
     ivec_expandCapacity 8 h minimumCapacity v status"

definition UVector64_setMaxCapacity :: "int heap \<Rightarrow> int \<Rightarrow> ivector \<Rightarrow> ivector" where
  "UVector64_setMaxCapacity h limit v = ivec_setMaxCapacity 8 h limit v"

definition UVector64_setSize :: "int heap \<Rightarrow> int \<Rightarrow> ivector \<Rightarrow> ivector" where
  "UVector64_setSize h newSize v = ivec_setSize 8 h newSize v"

definition UVector64_elementAti :: "ivector \<Rightarrow> int \<Rightarrow> int" where
  "UVector64_elementAti v index =
     (if 0 \<le> index \<and> index < vcount v then velements v ! nat index else 0)"

definition UVector64_push :: "int heap \<Rightarrow> int \<Rightarrow> ivector \<Rightarrow> UErrorCode \<Rightarrow> ivector \<times> UErrorCode" where
  "UVector64_push h i v status = ivec_push 8 h i v status"

lemma UVector64_elementAti_eq: "UVector64_elementAti v index = ivec_elementAti v index"
  by (auto simp: UVector64_elementAti_def ivec_elementAti_def)

section \<open>Reachable vectors\<close>

text \<open>
  Every public operation as a step. The guard on \<^verbatim>\<open>removeElementAt\<close> is not in the code: see
  \<open>removeElementAt_past_end\<close>. \<^verbatim>\<open>reserveBlock\<close> and \<^verbatim>\<open>popFrame\<close> take non-negative sizes.
\<close>

inductive ivec_step :: "int \<Rightarrow> ivector \<Rightarrow> ivector \<Rightarrow> bool" for sz where
  step_assign: "ivec_inv sz w \<Longrightarrow> ivec_assign sz h w v st = (v', st') \<Longrightarrow> ivec_step sz v v'"
| step_add: "ivec_addElement sz h x v st = (v', st') \<Longrightarrow> ivec_step sz v v'"
| step_insert: "ivec_insertElementAt sz h x index v st = (v', st') \<Longrightarrow> ivec_step sz v v'"
| step_sortedInsert: "ivec_sortedInsert sz h x v st = (v', st') \<Longrightarrow> ivec_step sz v v'"
| step_set: "ivec_step sz v (ivec_setElementAt x index v)"
| step_remove: "index < vcount v \<Longrightarrow> ivec_step sz v (ivec_removeElementAt index v)"
| step_removeAll: "ivec_inv sz w \<Longrightarrow> ivec_removeAll w v = (c, v') \<Longrightarrow> ivec_step sz v v'"
| step_retainAll: "ivec_inv sz w \<Longrightarrow> ivec_retainAll w v = (c, v') \<Longrightarrow> ivec_step sz v v'"
| step_clear: "ivec_step sz v (ivec_removeAllElements v)"
| step_setSize: "ivec_step sz v (ivec_setSize sz h n v)"
| step_setMaxCapacity: "ivec_step sz v (ivec_setMaxCapacity sz h n v)"
| step_pop: "ivec_step sz v (snd (ivec_popi v))"
| step_reserve: "0 \<le> n \<Longrightarrow> ivec_reserveBlock sz h n v st = (p, v', st') \<Longrightarrow> ivec_step sz v v'"
| step_popFrame: "0 \<le> n \<Longrightarrow> ivec_step sz v (snd (ivec_popFrame n v))"

inductive ivec_reachable :: "int \<Rightarrow> ivector \<Rightarrow> bool" for sz where
  new: "ivec_new sz h n st = (v, st') \<Longrightarrow> ivec_reachable sz v"
| step: "ivec_reachable sz v \<Longrightarrow> ivec_step sz v v' \<Longrightarrow> ivec_reachable sz v'"

lemma ivec_inv_setElementAt: "ivec_inv sz v \<Longrightarrow> ivec_inv sz (ivec_setElementAt x index v)"
  by (auto simp: ivec_inv_def ivec_setElementAt_def)

lemma ivec_inv_removeAllElements: "ivec_inv sz v \<Longrightarrow> ivec_inv sz (ivec_removeAllElements v)"
  by (auto simp: ivec_inv_def ivec_removeAllElements_def)

lemma ivec_inv_popFrame: "ivec_inv sz v \<Longrightarrow> 0 \<le> n \<Longrightarrow> ivec_inv sz (snd (ivec_popFrame n v))"
  by (auto simp: ivec_inv_def ivec_popFrame_def Let_def)

context int_vector
begin

lemma reserveBlock_inv:
  assumes "ivec_inv sz v" "0 \<le> n" "ivec_reserveBlock sz h n v st = (p, v', st')"
  shows "ivec_inv sz v'"
proof (cases "ivec_ensureCapacity sz h (vcount v + n) v st")
  case (fields ok v1 st1)
  from ensureCapacity_cases [OF assms(1) fields] assms fields show ?thesis
    by (auto simp: ivec_reserveBlock_def ivec_inv_def split: if_splits)
qed

lemma insertElementAt_inv:
  "ivec_inv sz v \<Longrightarrow> ivec_insertElementAt sz h x index v st = (v', st') \<Longrightarrow> ivec_inv sz v'"
  using insertElementAt_spec [of v h x index st v' st']
  by (cases "0 \<le> index \<and> index \<le> vcount v") (auto simp: ivec_insertElementAt_def)

lemma removeElementAt_inv:
  "ivec_inv sz v \<Longrightarrow> index < vcount v \<Longrightarrow> ivec_inv sz (ivec_removeElementAt index v)"
  using removeElementAt_spec [of v index]
  by (cases "0 \<le> index") (auto simp: ivec_removeElementAt_def)

lemma step_inv: "ivec_step sz v v' \<Longrightarrow> ivec_inv sz v \<Longrightarrow> ivec_inv sz v'"
proof (induction rule: ivec_step.induct)
  case step_assign
  then show ?case using assign_spec by blast
next
  case step_add
  then show ?case using addElement_spec by blast
next
  case step_insert
  then show ?case using insertElementAt_inv by blast
next
  case step_sortedInsert
  then show ?case using sortedInsert_places by blast
next
  case step_set
  then show ?case using ivec_inv_setElementAt by blast
next
  case step_remove
  then show ?case using removeElementAt_inv by blast
next
  case step_removeAll
  then show ?case using removeAll_spec by blast
next
  case step_retainAll
  then show ?case using retainAll_spec by blast
next
  case step_clear
  then show ?case using ivec_inv_removeAllElements by blast
next
  case step_setSize
  then show ?case using setSize_spec by blast
next
  case step_setMaxCapacity
  then show ?case using setMaxCapacity_spec by blast
next
  case step_pop
  then show ?case using popi_spec by blast
next
  case step_reserve
  then show ?case using reserveBlock_inv by blast
next
  case step_popFrame
  then show ?case using ivec_inv_popFrame by blast
qed

lemma reachable_inv: "ivec_reachable sz v \<Longrightarrow> ivec_inv sz v"
  by (induction rule: ivec_reachable.induct) (use init_spec step_inv in \<open>blast\<close>)+

end

section \<open>Properties\<close>

text \<open>A heap that grants every request, for concrete runs.\<close>

definition ample_heap :: "int heap" where
  "ample_heap = \<lparr>grants = (\<lambda>_. True), junk = 99\<rparr>"

definition sample_vec :: ivector where
  "sample_vec = \<lparr>vcount = 3, vcapacity = 4, vmaxCapacity = 0, velements = [10, 20, 30, 99]\<rparr>"

lemma sample_vec_inv: "ivec_inv 4 sample_vec" "ivec_inv 8 sample_vec" "view sample_vec = [10, 20, 30]"
  by (simp_all add: sample_vec_def ivec_inv_def INT32_MAX_def view_def)

lemmas ivec_eval = ivec_new_def ivec_init_def ivec_addElement_def ivec_insertElementAt_def
  ivec_sortedInsert_def ivec_ensureCapacity_def ivec_expandCapacity_def ivec_removeElementAt_def
  ivec_indexOf_def ivec_retainAll_def ivec_push_def ivec_popi_def uprv_malloc_def uprv_realloc_def
  shift_up_def shift_down_def sorted_position.simps sample_vec_def ample_heap_def
  DEFAULT_CAPACITY_def INT32_MAX_def Let_def view_def



text \<open>
  \<^verbatim>\<open>UVector32::insertElementAt\<close> at a legal index inserts the element there and keeps
  all others in order, or reports an error and leaves the vector as it was.
\<close>

theorem insertElementAt_refines:
  assumes "UVector32_inv v" "0 \<le> index" "index \<le> vcount v"
    and "ivec_insertElementAt 4 h x index v st = (v', st')"
  shows "UVector32_inv v' \<and>
         (view v' = take (nat index) (view v) @ x # drop (nat index) (view v) \<and> st' = st \<or>
          v' = v \<and> U_FAILURE st')"
  by (rule v32.insertElementAt_spec [OF assms(1,4,2,3)])

theorem insertElementAt_refines_witness:
  "view (fst (ivec_insertElementAt 4 ample_heap 15 1 sample_vec U_ZERO_ERROR)) = [10, 15, 20, 30]"
  using insertElementAt_refines
    [OF sample_vec_inv(1), of 1 ample_heap 15 U_ZERO_ERROR
       "fst (ivec_insertElementAt 4 ample_heap 15 1 sample_vec U_ZERO_ERROR)"
       "snd (ivec_insertElementAt 4 ample_heap 15 1 sample_vec U_ZERO_ERROR)"]
  by (simp add: ivec_eval)

text \<open>
  \<^verbatim>\<open>UVector32::sortedInsert\<close>: in a sorted vector the binary search finds a place that
  keeps it sorted, and exactly the new element is added; on failure nothing changes.
\<close>

theorem sortedInsert_keeps_sorted:
  assumes "UVector32_inv v" "sorted (view v)" "ivec_sortedInsert 4 h x v st = (v', st')"
  shows "UVector32_inv v' \<and>
         (sorted (view v') \<and> mset (view v') = add_mset x (mset (view v)) \<and> st' = st \<or>
          v' = v \<and> U_FAILURE st')"
  by (rule v32.sortedInsert_spec [OF assms(1,3,2)])

theorem sortedInsert_keeps_sorted_witness:
  "sorted (view (fst (ivec_sortedInsert 4 ample_heap 25 sample_vec U_ZERO_ERROR)))"
  using sortedInsert_keeps_sorted
    [OF sample_vec_inv(1), of ample_heap 25 U_ZERO_ERROR
       "fst (ivec_sortedInsert 4 ample_heap 25 sample_vec U_ZERO_ERROR)"
       "snd (ivec_sortedInsert 4 ample_heap 25 sample_vec U_ZERO_ERROR)"]
  by (simp add: ivec_eval)

text \<open>
  \<^verbatim>\<open>UVector32::retainAll\<close> keeps exactly the elements that occur in the other vector, in
  their order, and reports whether it removed any.
\<close>

theorem retainAll_filters:
  assumes "UVector32_inv v" "UVector32_inv w" "ivec_retainAll w v = (changed, v')"
  shows "UVector32_inv v' \<and> view v' = filter (\<lambda>x. x \<in> set (view w)) (view v) \<and>
         (changed \<longleftrightarrow> \<not> set (view v) \<subseteq> set (view w))"
  by (rule v32.retainAll_spec [OF assms])

theorem retainAll_filters_witness:
  "view (snd (ivec_retainAll (ivec_removeElementAt 1 sample_vec) sample_vec)) = [10, 30]"
proof -
  have w: "UVector32_inv (ivec_removeElementAt 1 sample_vec)"
    by (rule v32.removeElementAt_inv [OF sample_vec_inv(1)]) (simp add: sample_vec_def)
  have "view (ivec_removeElementAt 1 sample_vec) = [10, 30]" by (simp add: ivec_eval upt_rec)
  with retainAll_filters [OF sample_vec_inv(1) w prod.collapse [symmetric]] show ?thesis
    by (simp add: sample_vec_inv)
qed

text \<open>
  The backtracking stack: pushing a list of values onto a \<^verbatim>\<open>UVector64\<close> and popping as
  many returns them last-in first-out and restores the contents.
\<close>

theorem UVector64_stack_lifo:
  assumes "ivec_inv 8 v" "push_all (UVector64_push h) xs v U_ZERO_ERROR = (w, U_ZERO_ERROR)"
    and "pop_all ivec_popi (length xs) w = (zs, v')"
  shows "zs = rev xs \<and> view v' = view v"
proof -
  have eq: "UVector64_push h = ivec_push 8 h" by (simp add: UVector64_push_def fun_eq_iff)
  show ?thesis
    using v64.stk.lifo [OF assms(1) assms(2) [unfolded eq] _ assms(3)] by simp
qed

theorem UVector64_stack_lifo_witness:
  "fst (pop_all ivec_popi 2 (fst (push_all (UVector64_push ample_heap) [5, 6] sample_vec U_ZERO_ERROR))) = [6, 5]"
proof -
  let ?p = "push_all (UVector64_push ample_heap) [5, 6] sample_vec U_ZERO_ERROR"
  have st: "?p = (fst ?p, U_ZERO_ERROR)"
    by (simp add: UVector64_push_def ivec_eval)
  have two: "(2::nat) = length [5::int, 6]" by simp
  from UVector64_stack_lifo [OF sample_vec_inv(2) st prod.collapse [symmetric]] show ?thesis
    unfolding two by simp
qed

text \<open>
  \<^verbatim>\<open>UVector32::removeElementAt\<close> does not test its index against the count: an index at or
  past the end removes the last element, and on an empty vector the count becomes -1, after
  which the vector is no longer well formed.
\<close>

theorem removeElementAt_past_end:
  assumes "UVector32_inv v" "vcount v \<le> index"
  shows "vcount (ivec_removeElementAt index v) = vcount v - 1 \<and>
         view (ivec_removeElementAt index v) = butlast (view v) \<and>
         (UVector32_inv (ivec_removeElementAt index v) \<longleftrightarrow> view v \<noteq> [])"
proof -
  have c: "0 \<le> vcount v" "nat (vcount v) \<le> length (velements v)" "0 \<le> index"
    using assms ivec_count_nat [OF assms(1)] by (auto simp: ivec_inv_def)
  have none: "shift_down (nat index) (nat (vcount v - 1)) (velements v) = velements v"
    using assms(2) c by (simp add: shift_down_def)
  have rm: "ivec_removeElementAt index v = v\<lparr>vcount := vcount v - 1\<rparr>"
    using c none by (simp add: ivec_removeElementAt_def)
  have "nat (vcount v - 1) = nat (vcount v) - 1" by simp
  then have "view (ivec_removeElementAt index v) = butlast (view v)"
    using c by (simp add: rm view_def butlast_take)
  moreover have "view v = [] \<longleftrightarrow> vcount v = 0"
    using length_view [OF assms(1)] c by (metis length_0_conv nat_0_iff order_antisym)
  ultimately show ?thesis using assms(1) by (auto simp: rm ivec_inv_def)
qed

theorem removeElementAt_past_end_witness:
  "vcount (ivec_removeElementAt 0 (fst (ivec_new 4 ample_heap 8 U_ZERO_ERROR))) = -1"
proof -
  have "UVector32_inv (fst (ivec_new 4 ample_heap 8 U_ZERO_ERROR))"
    using v32.init_spec [OF prod.collapse [symmetric]] by blast
  from removeElementAt_past_end [OF this, of 0] show ?thesis by (simp add: ivec_eval)
qed

end
