(* ===== verification/PtrVector.thy ===== *)
theory PtrVector
  imports IntVector
begin

text \<open>
  The vector of pointers, \<^verbatim>\<open>common/uvector.cpp\<close> (\<^verbatim>\<open>UVector\<close>), and the stack built on it,
  \<^verbatim>\<open>common/ustack.cpp\<close> (\<^verbatim>\<open>UStack\<close>). A cell holds the \<^verbatim>\<open>pointer\<close> member of a
  \<^verbatim>\<open>UElement\<close>: \<open>None\<close> is \<^verbatim>\<open>NULL\<close>, \<open>Some p\<close> an object \<open>p\<close>. The vector may own its elements: with
  a deleter set, an element it drops is handed to the deleter, and the model records every such
  call in \<open>udeleted\<close>. The \<^verbatim>\<open>integer\<close> member of a cell that holds a pointer shares its bytes; \<open>uinteger\<close> gives it,
  a function of the address, which the model takes as a parameter. The integer overloads of the API are not modelled; the
  sorting methods are in \<^verbatim>\<open>ArraySort\<close>.
\<close>

section \<open>State\<close>

record 'a uvector =
  ucount :: int
  ucapacity :: int
  uelements :: "'a option list"
  udeleter :: bool
  ucomparer :: "('a option \<Rightarrow> 'a option \<Rightarrow> bool) option"
  udeleted :: "'a list"
  uinteger :: "'a option \<Rightarrow> int"

definition sizeof_UElement :: int where
  "sizeof_UElement = 8"

definition uview :: "'a uvector \<Rightarrow> 'a option list" where
  "uview v = take (nat (ucount v)) (uelements v)"

definition uvec_inv :: "'a uvector \<Rightarrow> bool" where
  "uvec_inv v \<longleftrightarrow>
     0 \<le> ucount v \<and> ucount v \<le> ucapacity v \<and> ucapacity v = int (length (uelements v)) \<and>
     ucapacity v \<le> INT32_MAX div sizeof_UElement"

section \<open>Construction and capacity\<close>

definition UVector_init ::
    "'a option heap \<Rightarrow> int \<Rightarrow> 'a uvector \<Rightarrow> UErrorCode \<Rightarrow> 'a uvector \<times> UErrorCode" where
  "UVector_init h initialCapacity v status =
     (if U_FAILURE status then (v, status)
      else
        let c = (if initialCapacity < 1 \<or> initialCapacity > INT32_MAX div sizeof_UElement
                 then DEFAULT_CAPACITY else initialCapacity)
        in case uprv_malloc h sizeof_UElement c of
             None \<Rightarrow> (v, U_MEMORY_ALLOCATION_ERROR)
           | Some block \<Rightarrow> (v\<lparr>uelements := block, ucapacity := c\<rparr>, status))"

definition UVector_new ::
    "'a option heap \<Rightarrow> ('a option \<Rightarrow> int) \<Rightarrow> bool \<Rightarrow> ('a option \<Rightarrow> 'a option \<Rightarrow> bool) option \<Rightarrow> int \<Rightarrow> UErrorCode \<Rightarrow>
     'a uvector \<times> UErrorCode" where
  "UVector_new h integer d c initialCapacity status =
     UVector_init h initialCapacity
       \<lparr>ucount = 0, ucapacity = 0, uelements = [], udeleter = d, ucomparer = c, udeleted = [], uinteger = integer\<rparr> status"

definition UVector_ensureCapacity ::
    "'a option heap \<Rightarrow> int \<Rightarrow> 'a uvector \<Rightarrow> UErrorCode \<Rightarrow> bool \<times> 'a uvector \<times> UErrorCode" where
  "UVector_ensureCapacity h minimumCapacity v status =
     (if minimumCapacity < 0 then (False, v, U_ILLEGAL_ARGUMENT_ERROR)
      else if ucapacity v < minimumCapacity then
        (if ucapacity v > (INT32_MAX - 1) div 2 then (False, v, U_ILLEGAL_ARGUMENT_ERROR)
         else
           let n1 = ucapacity v * 2;
               newCap = (if n1 < minimumCapacity then minimumCapacity else n1)
           in if newCap > INT32_MAX div sizeof_UElement then (False, v, U_ILLEGAL_ARGUMENT_ERROR)
              else case uprv_realloc h (uelements v) sizeof_UElement newCap of
                     None \<Rightarrow> (False, v, U_MEMORY_ALLOCATION_ERROR)
                   | Some newElems \<Rightarrow>
                       (True, v\<lparr>uelements := newElems, ucapacity := newCap\<rparr>, status))
      else (True, v, status))"

section \<open>Elements\<close>

text \<open>Handing a pointer to the deleter, where one is set and the pointer is not \<^verbatim>\<open>NULL\<close>.\<close>

definition run_deleter :: "'a option \<Rightarrow> 'a uvector \<Rightarrow> 'a uvector" where
  "run_deleter e v =
     (case e of Some p \<Rightarrow> if udeleter v then v\<lparr>udeleted := udeleted v @ [p]\<rparr> else v | None \<Rightarrow> v)"

definition UVector_addElement ::
    "'a option heap \<Rightarrow> 'a option \<Rightarrow> 'a uvector \<Rightarrow> UErrorCode \<Rightarrow> 'a uvector \<times> UErrorCode" where
  "UVector_addElement h obj v status =
     (case UVector_ensureCapacity h (ucount v + 1) v status of
        (ok, v1, st) \<Rightarrow>
          if ok then
            (v1\<lparr>uelements := (uelements v1)[nat (ucount v1) := obj], ucount := ucount v1 + 1\<rparr>, st)
          else (v1, st))"

definition UVector_setElementAt :: "'a option \<Rightarrow> int \<Rightarrow> 'a uvector \<Rightarrow> 'a uvector" where
  "UVector_setElementAt obj index v =
     (if 0 \<le> index \<and> index < ucount v then
        let v1 = run_deleter (uelements v ! nat index) v
        in v1\<lparr>uelements := (uelements v1)[nat index := obj]\<rparr>
      else v)"

definition UVector_insertElementAt ::
    "'a option heap \<Rightarrow> 'a option \<Rightarrow> int \<Rightarrow> 'a uvector \<Rightarrow> UErrorCode \<Rightarrow> 'a uvector \<times> UErrorCode" where
  "UVector_insertElementAt h obj index v status =
     (if 0 \<le> index \<and> index \<le> ucount v then
        (case UVector_ensureCapacity h (ucount v + 1) v status of
           (ok, v1, st) \<Rightarrow>
             if ok then
               (v1\<lparr>uelements := (shift_up (nat index) (nat (ucount v1)) (uelements v1))[nat index := obj],
                   ucount := ucount v1 + 1\<rparr>, st)
             else (v1, st))
      else (v, status))"

definition UVector_elementAt :: "'a uvector \<Rightarrow> int \<Rightarrow> 'a option" where
  "UVector_elementAt v index =
     (if 0 \<le> index \<and> index < ucount v then uelements v ! nat index else None)"

definition HINT_KEY_POINTER :: int where
  "HINT_KEY_POINTER = 1"

text \<open>The private overload for a \<^verbatim>\<open>UElement\<close>, whose default hint is 0, and the one for a pointer.\<close>

definition UVector_indexOf_element :: "'a uvector \<Rightarrow> 'a option \<Rightarrow> int \<Rightarrow> int \<Rightarrow> int" where
  "UVector_indexOf_element v key startIndex hint =
     (let is = [nat startIndex..<nat (ucount v)] in
      case (case ucomparer v of
              Some comparer \<Rightarrow> find (\<lambda>i. comparer key (uelements v ! i)) is
            | None \<Rightarrow>
                find (\<lambda>i. if and hint HINT_KEY_POINTER \<noteq> 0 then key = uelements v ! i
                          else uinteger v key = uinteger v (uelements v ! i)) is) of
        Some i \<Rightarrow> int i | None \<Rightarrow> -1)"

definition UVector_indexOf :: "'a uvector \<Rightarrow> 'a option \<Rightarrow> int \<Rightarrow> int" where
  "UVector_indexOf v obj startIndex = UVector_indexOf_element v obj startIndex HINT_KEY_POINTER"

definition UVector_contains :: "'a uvector \<Rightarrow> 'a option \<Rightarrow> bool" where
  "UVector_contains v obj \<longleftrightarrow> UVector_indexOf v obj 0 \<ge> 0"

definition UVector_containsAll :: "'a uvector \<Rightarrow> 'a uvector \<Rightarrow> bool" where
  "UVector_containsAll v other \<longleftrightarrow>
     list_all (\<lambda>i. \<not> UVector_indexOf_element v (uelements other ! i) 0 0 < 0) [0..<nat (ucount other)]"

definition UVector_containsNone :: "'a uvector \<Rightarrow> 'a uvector \<Rightarrow> bool" where
  "UVector_containsNone v other \<longleftrightarrow>
     list_all (\<lambda>i. \<not> UVector_indexOf_element v (uelements other ! i) 0 0 \<ge> 0) [0..<nat (ucount other)]"

definition UVector_orphanElementAt :: "int \<Rightarrow> 'a uvector \<Rightarrow> 'a option \<times> 'a uvector" where
  "UVector_orphanElementAt index v =
     (if 0 \<le> index \<and> index < ucount v then
        (uelements v ! nat index,
         v\<lparr>uelements := shift_down (nat index) (nat (ucount v - 1)) (uelements v),
           ucount := ucount v - 1\<rparr>)
      else (None, v))"

definition UVector_removeElementAt :: "int \<Rightarrow> 'a uvector \<Rightarrow> 'a uvector" where
  "UVector_removeElementAt index v =
     (case UVector_orphanElementAt index v of (e, v1) \<Rightarrow> run_deleter e v1)"

definition UVector_removeElement :: "'a option \<Rightarrow> 'a uvector \<Rightarrow> bool \<times> 'a uvector" where
  "UVector_removeElement obj v =
     (let i = UVector_indexOf v obj 0 in
      if i \<ge> 0 then (True, UVector_removeElementAt i v) else (False, v))"

definition UVector_removeAll :: "'a uvector \<Rightarrow> 'a uvector \<Rightarrow> bool \<times> 'a uvector" where
  "UVector_removeAll other v =
     fold (\<lambda>i (changed, w).
             let j = UVector_indexOf_element w (uelements other ! i) 0 0 in
             if j \<ge> 0 then (True, UVector_removeElementAt j w) else (changed, w))
          [0..<nat (ucount other)] (False, v)"

definition UVector_retainAll :: "'a uvector \<Rightarrow> 'a uvector \<Rightarrow> bool \<times> 'a uvector" where
  "UVector_retainAll other v =
     fold (\<lambda>j (changed, w).
             let i = UVector_indexOf_element other (uelements w ! j) 0 0 in
             if i < 0 then (True, UVector_removeElementAt (int j) w) else (changed, w))
          (rev [0..<nat (ucount v)]) (False, v)"

definition UVector_removeAllElements :: "'a uvector \<Rightarrow> 'a uvector" where
  "UVector_removeAllElements v =
     (if udeleter v then fold (\<lambda>i w. run_deleter (uelements w ! i) w) [0..<nat (ucount v)] v else v)
       \<lparr>ucount := 0\<rparr>"

definition UVector_setSize ::
    "'a option heap \<Rightarrow> int \<Rightarrow> 'a uvector \<Rightarrow> UErrorCode \<Rightarrow> 'a uvector \<times> UErrorCode" where
  "UVector_setSize h newSize v status =
     (if newSize < 0 then (v, status)
      else if newSize > ucount v then
        (case UVector_ensureCapacity h newSize v status of
           (ok, v1, st) \<Rightarrow>
             if \<not> ok then (v1, st)
             else (v1\<lparr>uelements := fold (\<lambda>i e. e[i := None]) [nat (ucount v1)..<nat newSize] (uelements v1),
                      ucount := newSize\<rparr>, st))
      else
        ((fold (\<lambda>i w. UVector_removeElementAt (int i) w) (rev [nat newSize..<nat (ucount v)]) v)
           \<lparr>ucount := newSize\<rparr>, status))"

text \<open>\<^verbatim>\<open>assign\<close> copies an element with the function the caller passes.\<close>

definition UVector_assign ::
    "'a option heap \<Rightarrow> 'a uvector \<Rightarrow> ('a option \<Rightarrow> 'a option) \<Rightarrow> 'a uvector \<Rightarrow> UErrorCode \<Rightarrow>
     'a uvector \<times> UErrorCode" where
  "UVector_assign h other assigner v ec =
     (case UVector_ensureCapacity h (ucount other) v ec of
        (ok, v1, ec1) \<Rightarrow>
          if ok then
            (case UVector_setSize h (ucount other) v1 ec1 of
               (v2, ec2) \<Rightarrow>
                 if U_SUCCESS ec2 then
                   (fold (\<lambda>i w.
                            let w1 = run_deleter (uelements w ! i) w
                            in w1\<lparr>uelements := (uelements w1)[i := assigner (uelements other ! i)]\<rparr>)
                         [0..<nat (ucount other)] v2, ec2)
                 else (v2, ec2))
          else (v1, ec1))"

definition UVector_eq :: "'a uvector \<Rightarrow> 'a uvector \<Rightarrow> bool" where
  "UVector_eq v other \<longleftrightarrow>
     ucount v = ucount other \<and>
     (case ucomparer v of
        Some comparer \<Rightarrow>
          list_all (\<lambda>i. comparer (uelements v ! i) (uelements other ! i)) [0..<nat (ucount v)]
      | None \<Rightarrow> True)"

definition UVector_sortedInsert ::
    "'a option heap \<Rightarrow> 'a option \<Rightarrow> ('a option \<Rightarrow> 'a option \<Rightarrow> int) \<Rightarrow> 'a uvector \<Rightarrow> UErrorCode \<Rightarrow>
     'a uvector \<times> UErrorCode" where
  "UVector_sortedInsert h e compare v ec =
     (let pos = sorted_position (\<lambda>probe. compare (uelements v ! probe) e > 0) 0 (nat (ucount v)) in
      case UVector_ensureCapacity h (ucount v + 1) v ec of
        (ok, v1, st) \<Rightarrow>
          if ok then
            (v1\<lparr>uelements := (shift_up pos (nat (ucount v1)) (uelements v1))[pos := e],
                ucount := ucount v1 + 1\<rparr>, st)
          else (v1, st))"

definition UVector_toArray :: "'a uvector \<Rightarrow> 'a option list" where
  "UVector_toArray v = map (\<lambda>i. uelements v ! i) [0..<nat (ucount v)]"

definition UVector_setDeleter :: "bool \<Rightarrow> 'a uvector \<Rightarrow> bool \<times> 'a uvector" where
  "UVector_setDeleter d v = (udeleter v, v\<lparr>udeleter := d\<rparr>)"

section \<open>\<open>UStack\<close>\<close>

definition UStack_push ::
    "'a option heap \<Rightarrow> 'a option \<Rightarrow> 'a uvector \<Rightarrow> UErrorCode \<Rightarrow> 'a uvector \<times> UErrorCode" where
  "UStack_push h obj v status = UVector_addElement h obj v status"

definition UStack_pop :: "'a uvector \<Rightarrow> 'a option \<times> 'a uvector" where
  "UStack_pop v =
     (let n = ucount v - 1 in
      if n \<ge> 0 then (UVector_elementAt v n, UVector_removeElementAt n v) else (None, v))"

definition UStack_search :: "'a uvector \<Rightarrow> 'a option \<Rightarrow> int" where
  "UStack_search v obj =
     (let i = UVector_indexOf v obj 0 in if i \<ge> 0 then ucount v - i else i)"

section \<open>Correctness\<close>

lemma sizeof_limit: "INT32_MAX div sizeof_UElement = 268435455"
  by (simp add: INT32_MAX_def sizeof_UElement_def)

lemma uvec_count_nat: "uvec_inv v \<Longrightarrow> nat (ucount v) \<le> length (uelements v)"
  unfolding uvec_inv_def by linarith

lemma length_uview: "uvec_inv v \<Longrightarrow> length (uview v) = nat (ucount v)"
  by (simp add: uview_def uvec_count_nat)

lemma nth_uview: "i < nat (ucount v) \<Longrightarrow> uelements v ! i = uview v ! i"
  by (simp add: uview_def)

lemma set_uview: "uvec_inv v \<Longrightarrow> set (uview v) = (!) (uelements v) ` {0..<nat (ucount v)}"
  by (simp add: uview_def uvec_count_nat nth_image)

lemma map_nth_uview: "uvec_inv v \<Longrightarrow> map ((!) (uelements v)) [0..<nat (ucount v)] = uview v"
  using length_uview [of v] by (intro nth_equalityI) (auto simp: nth_uview)

lemma run_deleter_simps [simp]:
  "ucount (run_deleter e v) = ucount v" "ucapacity (run_deleter e v) = ucapacity v"
  "uelements (run_deleter e v) = uelements v" "udeleter (run_deleter e v) = udeleter v"
  "ucomparer (run_deleter e v) = ucomparer v" "uinteger (run_deleter e v) = uinteger v" "uview (run_deleter e v) = uview v"
  "uvec_inv (run_deleter e v) = uvec_inv v"
  by (auto simp: run_deleter_def uview_def uvec_inv_def split: option.splits)

lemma uensureCapacity_cases:
  assumes inv: "uvec_inv v" and res: "UVector_ensureCapacity h n v st = (ok, v', st')"
  shows "ok \<and> st' = st \<and> uvec_inv v' \<and> 0 \<le> n \<and> n \<le> ucapacity v' \<and> uview v' = uview v \<and>
           v' = v\<lparr>uelements := uelements v', ucapacity := ucapacity v'\<rparr> \<or>
         \<not> ok \<and> v' = v \<and> U_FAILURE st'"
proof (cases "ok \<and> ucapacity v < n")
  case False
  then show ?thesis using inv res
    by (auto simp: UVector_ensureCapacity_def Let_def split: if_splits option.splits)
next
  case True
  let ?c = "ucapacity v'" and ?b = "uelements v'"
  from True res inv have *: "st' = st" "0 \<le> n" "n \<le> ?c" "?c \<le> INT32_MAX div sizeof_UElement"
    "uprv_realloc h (uelements v) sizeof_UElement ?c = Some ?b"
    "v' = v\<lparr>uelements := ?b, ucapacity := ?c\<rparr>"
    by (auto simp: UVector_ensureCapacity_def Let_def split: if_splits option.splits)
  have len: "int (length ?b) = ?c"
    and tk: "take (min (nat ?c) (length (uelements v))) ?b = take (nat ?c) (uelements v)"
    using uprv_realloc_Some [OF *(5)] *(2,3) by (auto simp: sizeof_UElement_def)
  have lt: "length (uelements v) < nat ?c" using True *(3) inv by (auto simp: uvec_inv_def)
  with tk have "take (length (uelements v)) ?b = uelements v" by simp
  then have "take (nat (ucount v)) ?b = take (nat (ucount v)) (uelements v)"
    using uvec_count_nat [OF inv] by (metis min.absorb1 take_take)
  moreover have "ucount v' = ucount v" by (subst *(6)) simp
  ultimately show ?thesis using True * len inv by (auto simp: uview_def uvec_inv_def)
qed

lemma uinsert_step:
  assumes inv: "uvec_inv v" and k: "k \<le> nat (ucount v)"
    and res: "UVector_ensureCapacity h (ucount v + 1) v st = (True, v1, st1)"
    and w: "w = v1\<lparr>uelements := (shift_up k (nat (ucount v1)) (uelements v1))[k := x],
                   ucount := ucount v1 + 1\<rparr>"
  shows "uvec_inv w \<and> uview w = take k (uview v) @ x # drop k (uview v) \<and> st1 = st \<and>
         udeleter w = udeleter v \<and> ucomparer w = ucomparer v \<and> udeleted w = udeleted v"
proof -
  from uensureCapacity_cases [OF inv res]
  have *: "st1 = st" "uvec_inv v1" "ucount v + 1 \<le> ucapacity v1" "uview v1 = uview v"
    and eq: "v1 = v\<lparr>uelements := uelements v1, ucapacity := ucapacity v1\<rparr>" by auto
  have fr: "ucount v1 = ucount v" "udeleter v1 = udeleter v" "ucomparer v1 = ucomparer v"
      "udeleted v1 = udeleted v"
    by (subst eq, simp)+
  have lt: "nat (ucount v1) < length (uelements v1)" "0 \<le> ucount v1"
    using * fr by (auto simp: uvec_inv_def)
  have "take (Suc (nat (ucount v1))) ((shift_up k (nat (ucount v1)) (uelements v1))[k := x]) =
        take k (uview v1) @ x # drop k (uview v1)"
    using shift_up_insert [OF lt(1), of k x] k fr(1) by (simp add: uview_def)
  moreover have "nat (ucount w) = Suc (nat (ucount v1))" using lt by (simp add: w)
  ultimately have "uview w = take k (uview v) @ x # drop k (uview v)"
    unfolding uview_def [of w] using *(4) by (simp add: w)
  moreover have "uvec_inv w" using * fr lt unfolding uvec_inv_def by (simp add: w)
  ultimately show ?thesis using * fr by (simp add: w)
qed

lemma uaddElement_spec:
  assumes inv: "uvec_inv v" and res: "UVector_addElement h x v st = (v', st')"
  shows "uvec_inv v' \<and> (uview v' = uview v @ [x] \<and> st' = st \<and> udeleted v' = udeleted v \<and>
           udeleter v' = udeleter v \<and> ucomparer v' = ucomparer v \<or> v' = v \<and> U_FAILURE st')"
proof (cases "UVector_ensureCapacity h (ucount v + 1) v st")
  case (fields ok v1 st1)
  show ?thesis
  proof (cases ok)
    case True
    let ?k = "nat (ucount v)"
    have "ucount v1 = ucount v"
      using uensureCapacity_cases [OF inv fields] True by (metis uvector.select_convs(1) uvector.surjective uvector.update_convs(2,3))
    then have w: "v' = v1\<lparr>uelements := (shift_up ?k (nat (ucount v1)) (uelements v1))[?k := x],
                       ucount := ucount v1 + 1\<rparr>" and st: "st' = st1"
      using res fields True by (auto simp: UVector_addElement_def shift_up_def)
    from uinsert_step [OF inv _ fields [unfolded eqTrueI [OF True]] w] st
    show ?thesis using length_uview [OF inv] by simp
  next
    case False
    then have "v1 = v \<and> U_FAILURE st1" using uensureCapacity_cases [OF inv fields] by simp
    then show ?thesis using res fields inv False by (auto simp: UVector_addElement_def)
  qed
qed

lemma orphanElementAt_spec:
  assumes inv: "uvec_inv v" and index: "0 \<le> index" "index < ucount v"
  shows "fst (UVector_orphanElementAt index v) = uview v ! nat index \<and>
         uvec_inv (snd (UVector_orphanElementAt index v)) \<and>
         uview (snd (UVector_orphanElementAt index v)) =
           take (nat index) (uview v) @ drop (Suc (nat index)) (uview v)"
proof -
  have lt: "nat (ucount v - 1) < length (uelements v)" and le: "nat index \<le> nat (ucount v - 1)"
    and suc: "Suc (nat (ucount v - 1)) = nat (ucount v)"
    using inv index by (auto simp: uvec_inv_def)
  from shift_down_remove [OF lt le] suc index inv show ?thesis
    by (auto simp: UVector_orphanElementAt_def uvec_inv_def uview_def)
qed

lemma orphanElementAt_frame [simp]:
  "udeleter (snd (UVector_orphanElementAt i v)) = udeleter v"
  "ucomparer (snd (UVector_orphanElementAt i v)) = ucomparer v"
  "udeleted (snd (UVector_orphanElementAt i v)) = udeleted v"
  "uinteger (snd (UVector_orphanElementAt i v)) = uinteger v"
  by (auto simp: UVector_orphanElementAt_def)

lemma removeElementAt_frame [simp]:
  "udeleter (UVector_removeElementAt i v) = udeleter v"
  "ucomparer (UVector_removeElementAt i v) = ucomparer v"
  "uinteger (UVector_removeElementAt i v) = uinteger v"
  by (auto simp: UVector_removeElementAt_def split: prod.splits dest: arg_cong [of _ _ snd])
     (metis orphanElementAt_frame snd_conv)+

lemma uremoveElementAt_spec:
  assumes inv: "uvec_inv v" and index: "0 \<le> index" "index < ucount v"
  shows "uvec_inv (UVector_removeElementAt index v) \<and>
         uview (UVector_removeElementAt index v) =
           take (nat index) (uview v) @ drop (Suc (nat index)) (uview v)"
  using orphanElementAt_spec [OF assms] by (simp add: UVector_removeElementAt_def split_beta)

section \<open>Ownership\<close>

text \<open>
  The objects a vector holds, and its ledger: what it holds together with what it has handed
  to the deleter. With a deleter set, dropping elements keeps the ledger, so no object is
  leaked and none is deleted twice.
\<close>

fun pointers :: "'a option list \<Rightarrow> 'a multiset" where
  "pointers [] = {#}"
| "pointers (None # es) = pointers es"
| "pointers (Some p # es) = add_mset p (pointers es)"

definition ledger :: "'a uvector \<Rightarrow> 'a multiset" where
  "ledger v = pointers (uview v) + mset (udeleted v)"

lemma pointers_append [simp]: "pointers (xs @ ys) = pointers xs + pointers ys"
  by (induction xs rule: pointers.induct) auto

lemma pointers_remove_nth:
  assumes "i < length xs"
  shows "pointers xs = pointers [xs ! i] + pointers (take i xs @ drop (Suc i) xs)"
proof -
  have "xs = take i xs @ [xs ! i] @ drop (Suc i) xs"
    using id_take_nth_drop [OF assms] by simp
  then have "pointers xs = pointers (take i xs @ [xs ! i] @ drop (Suc i) xs)" by (rule arg_cong)
  then show ?thesis by (simp only: pointers_append ac_simps)
qed

lemma mset_run_deleter:
  "udeleter v \<Longrightarrow> mset (udeleted (run_deleter e v)) = pointers [e] + mset (udeleted v)"
  by (cases e) (auto simp: run_deleter_def)

lemma ledger_removeElementAt:
  assumes inv: "uvec_inv v" and d: "udeleter v"
  shows "ledger (UVector_removeElementAt index v) = ledger v"
proof (cases "0 \<le> index \<and> index < ucount v")
  case True
  note o = orphanElementAt_spec [OF inv, of index]
  have lt: "nat index < length (uview v)" using length_uview [OF inv] True by simp
  show ?thesis
    using o True d pointers_remove_nth [OF lt]
    by (simp add: ledger_def UVector_removeElementAt_def split_beta mset_run_deleter)
next
  case False
  then show ?thesis
    by (auto simp: UVector_removeElementAt_def UVector_orphanElementAt_def run_deleter_def)
qed

lemma fold_run_deleter:
  "udeleter v \<Longrightarrow> mset (udeleted (fold (\<lambda>i w. run_deleter (uelements w ! i) w) is v)) =
     pointers (map ((!) (uelements v)) is) + mset (udeleted v) \<and>
   uelements (fold (\<lambda>i w. run_deleter (uelements w ! i) w) is v) = uelements v"
proof (induction "is" arbitrary: v)
  case (Cons i "is")
  from Cons.IH [of "run_deleter (uelements v ! i) v"] Cons.prems show ?case
    by (cases "uelements v ! i") (auto simp: mset_run_deleter)
qed simp

lemma ledger_removeAllElements:
  assumes inv: "uvec_inv v" and d: "udeleter v"
  shows "ledger (UVector_removeAllElements v) = ledger v \<and> uview (UVector_removeAllElements v) = []"
  using fold_run_deleter [OF d, of "[0..<nat (ucount v)]"] d map_nth_uview [OF inv]
  by (auto simp: ledger_def UVector_removeAllElements_def uview_def)

section \<open>Searching with an equality comparer\<close>

definition eq_comparer :: "'a uvector \<Rightarrow> bool" where
  "eq_comparer v \<longleftrightarrow> ucomparer v = Some (=) \<or> ucomparer v = None \<and> inj (uinteger v)"

lemma uindexOf_element_eq:
  assumes "eq_comparer v"
  shows "UVector_indexOf_element v key start 0 = UVector_indexOf v key start"
  using assms by (auto simp: UVector_indexOf_def UVector_indexOf_element_def eq_comparer_def HINT_KEY_POINTER_def inj_eq split: option.split)

lemma uindexOf_eq:
  assumes "eq_comparer v"
  shows "UVector_indexOf v key start =
     (case find (\<lambda>i. key = uelements v ! i) [nat start..<nat (ucount v)] of Some i \<Rightarrow> int i | None \<Rightarrow> -1)"
  using assms by (auto simp: UVector_indexOf_def UVector_indexOf_element_def HINT_KEY_POINTER_def eq_comparer_def Let_def)

lemma uindexOf_found:
  assumes inv: "uvec_inv v" and c: "eq_comparer v" and i: "UVector_indexOf v key 0 = i" "0 \<le> i"
  shows "i < ucount v \<and> uview v ! nat i = key \<and> (\<forall>j < nat i. uview v ! j \<noteq> key)"
proof -
  from i obtain k where k: "find (\<lambda>i. key = uelements v ! i) [0..<nat (ucount v)] = Some k" "i = int k"
    by (auto simp: uindexOf_eq [OF c] split: option.splits)
  then have "k < nat (ucount v)" "key = uelements v ! k" "\<forall>j<k. key \<noteq> uelements v ! j"
    by (auto simp: find_Some_iff)
  then show ?thesis using k(2) by (auto simp: nth_uview)
qed

lemma ucontains_iff:
  assumes inv: "uvec_inv v" and c: "eq_comparer v"
  shows "UVector_contains v key \<longleftrightarrow> key \<in> set (uview v)"
  using set_uview [OF inv]
  by (auto simp: UVector_contains_def uindexOf_eq [OF c] find_None_iff find_Some_iff image_iff
           split: option.splits)

lemma uindexOf_neg_iff:
  assumes "uvec_inv v" "eq_comparer v"
  shows "UVector_indexOf v key 0 < 0 \<longleftrightarrow> key \<notin> set (uview v)"
  using ucontains_iff [OF assms, of key] by (auto simp: UVector_contains_def not_less)

lemma ucontainsAll_iff:
  assumes "uvec_inv v" "eq_comparer v" "uvec_inv w"
  shows "UVector_containsAll v w \<longleftrightarrow> set (uview w) \<subseteq> set (uview v)"
  using set_uview [OF assms(3)]
  by (auto simp: UVector_containsAll_def list_all_iff uindexOf_element_eq [OF assms(2)] uindexOf_neg_iff [OF assms(1,2)])

lemma ucontainsNone_iff:
  assumes "uvec_inv v" "eq_comparer v" "uvec_inv w"
  shows "UVector_containsNone v w \<longleftrightarrow> set (uview w) \<inter> set (uview v) = {}"
  using set_uview [OF assms(3)] uindexOf_neg_iff [OF assms(1,2)]
  by (auto simp: UVector_containsNone_def list_all_iff uindexOf_element_eq [OF assms(2)] not_le)

lemma uremove_found:
  assumes inv: "uvec_inv v" and c: "eq_comparer v" and j: "UVector_indexOf v x 0 = j" "0 \<le> j"
  shows "uvec_inv (UVector_removeElementAt j v) \<and> eq_comparer (UVector_removeElementAt j v) \<and>
         uview (UVector_removeElementAt j v) = remove1 x (uview v) \<and> x \<in> set (uview v)"
proof -
  from uindexOf_found [OF inv c j]
  have jv: "j < ucount v" "uview v ! nat j = x" "\<forall>k < nat j. uview v ! k \<noteq> x" by auto
  have lt: "nat j < length (uview v)" using length_uview [OF inv] jv(1) j(2) by simp
  have split: "uview v = take (nat j) (uview v) @ x # drop (Suc (nat j)) (uview v)"
    using id_take_nth_drop [OF lt] jv(2) by simp
  have "x \<notin> set (take (nat j) (uview v))"
    using jv(3) lt by (auto simp: in_set_conv_nth)
  then have "remove1 x (uview v) = take (nat j) (uview v) @ drop (Suc (nat j)) (uview v)"
    by (subst split) (simp add: remove1_append)
  then show ?thesis
    using uremoveElementAt_spec [OF inv j(2) jv(1)] jv(2) lt c by (auto simp: eq_comparer_def)
qed

lemma uremoveElement_spec:
  assumes inv: "uvec_inv v" and c: "eq_comparer v" and res: "UVector_removeElement x v = (b, v')"
  shows "uvec_inv v' \<and> eq_comparer v' \<and> uview v' = remove1 x (uview v) \<and> (b \<longleftrightarrow> x \<in> set (uview v))"
proof (cases "UVector_indexOf v x 0 \<ge> 0")
  case True
  from uremove_found [OF inv c refl True] True res show ?thesis
    by (auto simp: UVector_removeElement_def)
next
  case False
  then have "UVector_indexOf v x 0 < 0" by simp
  then have "x \<notin> set (uview v)" using uindexOf_neg_iff [OF inv c] by blast
  with False inv c res show ?thesis by (auto simp: UVector_removeElement_def remove1_idem)
qed

lemma uremoveAll_spec:
  assumes inv: "uvec_inv v" and c: "eq_comparer v" and other: "uvec_inv w"
    and res: "UVector_removeAll w v = (changed, v')"
  shows "uvec_inv v' \<and> eq_comparer v' \<and> uview v' = fold remove1 (uview w) (uview v)"
proof -
  let ?f = "\<lambda>x (changed, u). let j = UVector_indexOf_element u x 0 0 in
             if j \<ge> 0 then (True, UVector_removeElementAt j u) else (changed, u)"
  have step: "uvec_inv u \<Longrightarrow> eq_comparer u \<Longrightarrow> fold ?f xs (c, u) = (c', u') \<Longrightarrow>
      uvec_inv u' \<and> eq_comparer u' \<and> uview u' = fold remove1 xs (uview u)" for xs c u c' u'
  proof (induction xs arbitrary: c u)
    case (Cons x xs)
    obtain b u1 where r: "UVector_removeElement x u = (b, u1)" by fastforce
    have "?f x (c, u) = (if b then True else c, u1)"
      using r by (auto simp: UVector_removeElement_def uindexOf_element_eq [OF Cons.prems(2)] Let_def split: if_splits)
    then have "fold ?f xs (if b then True else c, u1) = (c', u')"
      using Cons.prems(3) by simp
    from Cons.IH [OF _ _ this] uremoveElement_spec [OF Cons.prems(1,2) r] show ?case by simp
  qed simp
  have "UVector_removeAll w v = fold ?f (uview w) (False, v)"
    unfolding UVector_removeAll_def map_nth_uview [OF other, symmetric] by (simp add: fold_map comp_def)
  then have "fold ?f (uview w) (False, v) = (changed, v')" using res by simp
  then show ?thesis by (rule step [OF inv c])
qed

lemma uretainAll_spec:
  assumes inv: "uvec_inv v" and other: "uvec_inv w" "eq_comparer w"
    and res: "UVector_retainAll w v = (changed, v')"
  shows "uvec_inv v' \<and> ucomparer v' = ucomparer v \<and> uview v' = filter (\<lambda>x. x \<in> set (uview w)) (uview v)"
proof -
  let ?P = "\<lambda>x. x \<in> set (uview w)"
  let ?f = "\<lambda>j (changed, u). let i = UVector_indexOf_element w (uelements u ! j) 0 0 in
             if i < 0 then (True, UVector_removeElementAt (int j) u) else (changed, u)"
  have step: "uvec_inv u \<Longrightarrow> n \<le> nat (ucount u) \<Longrightarrow> fold ?f (rev [0..<n]) (c, u) = (c', u') \<Longrightarrow>
      uvec_inv u' \<and> ucomparer u' = ucomparer u \<and> uview u' = filter ?P (take n (uview u)) @ drop n (uview u)"
    for n c u c' u'
  proof (induction n arbitrary: c u)
    case (Suc n)
    have lt: "n < length (uview u)" using length_uview [OF Suc.prems(1)] Suc.prems(2) by simp
    have tk: "take (Suc n) (uview u) = take n (uview u) @ [uview u ! n]"
      "drop n (uview u) = uview u ! n # drop (Suc n) (uview u)"
      using lt by (simp_all add: take_Suc_conv_app_nth Cons_nth_drop_Suc)
    have el: "uelements u ! n = uview u ! n" using Suc.prems(2) by (simp add: nth_uview)
    show ?case
    proof (cases "?P (uview u ! n)")
      case True
      then have "\<not> UVector_indexOf_element w (uview u ! n) 0 0 < 0" by (simp add: uindexOf_element_eq [OF other(2)] uindexOf_neg_iff [OF other])
      then have "fold ?f (rev [0..<n]) (c, u) = (c', u')" using Suc.prems(3) el by (simp add: Let_def)
      from Suc.IH [OF Suc.prems(1) _ this] Suc.prems(2) True show ?thesis by (auto simp: tk)
    next
      case False
      then have neg: "UVector_indexOf_element w (uview u ! n) 0 0 < 0" by (simp add: uindexOf_element_eq [OF other(2)] uindexOf_neg_iff [OF other])
      let ?u = "UVector_removeElementAt (int n) u"
      have rm: "uvec_inv ?u" "uview ?u = take n (uview u) @ drop (Suc n) (uview u)"
        using uremoveElementAt_spec [OF Suc.prems(1), of "int n"] Suc.prems(2) by auto
      have "n \<le> nat (ucount ?u)" using length_uview [OF rm(1)] rm(2) lt by simp
      moreover have "fold ?f (rev [0..<n]) (True, ?u) = (c', u')"
        using Suc.prems(3) el neg by (simp add: Let_def)
      ultimately show ?thesis
        using Suc.IH [OF rm(1)] rm(2) lt False by (auto simp: tk)
    qed
  qed simp
  have "fold ?f (rev [0..<nat (ucount v)]) (False, v) = (changed, v')"
    using res by (simp add: UVector_retainAll_def)
  from step [OF inv order_refl this] length_uview [OF inv] show ?thesis by auto
qed

section \<open>Sorted insertion\<close>

lemma sorted_wrt_insert_at:
  assumes "sorted_wrt P xs" "\<And>i. i < k \<Longrightarrow> i < length xs \<Longrightarrow> P (xs ! i) x"
    and "\<And>i. k \<le> i \<Longrightarrow> i < length xs \<Longrightarrow> P x (xs ! i)"
  shows "sorted_wrt P (take k xs @ x # drop k xs)"
proof -
  have "\<And>y. y \<in> set (take k xs) \<Longrightarrow> P y x" "\<And>y. y \<in> set (drop k xs) \<Longrightarrow> P x y"
    using assms(2,3) by (auto simp: in_set_conv_nth)
  moreover have "sorted_wrt P (take k xs @ drop k xs)" using assms(1) by simp
  ultimately show ?thesis unfolding sorted_wrt_append by auto
qed

lemma usortedInsert_spec:
  fixes cmp :: "'a option \<Rightarrow> 'a option \<Rightarrow> int"
  assumes inv: "uvec_inv v" and res: "UVector_sortedInsert h x cmp v st = (v', st')"
    and srt: "sorted_wrt (\<lambda>a b. cmp a b \<le> 0) (uview v)"
    and trans: "\<And>a b c. cmp a b \<le> 0 \<Longrightarrow> cmp b c \<le> 0 \<Longrightarrow> cmp a c \<le> 0"
    and flip: "\<And>a b. cmp a b > 0 \<Longrightarrow> cmp b a \<le> 0"
  shows "uvec_inv v' \<and>
         (sorted_wrt (\<lambda>a b. cmp a b \<le> 0) (uview v') \<and> mset (uview v') = add_mset x (mset (uview v)) \<and>
          st' = st \<and> ucomparer v' = ucomparer v \<and> udeleter v' = udeleter v \<and> udeleted v' = udeleted v \<or>
          v' = v \<and> U_FAILURE st')"
proof (cases "UVector_ensureCapacity h (ucount v + 1) v st")
  case (fields ok v1 st1)
  let ?n = "nat (ucount v)"
  let ?gt = "\<lambda>probe. cmp (uelements v ! probe) x > 0"
  let ?k = "sorted_position ?gt 0 ?n"
  have len: "length (uview v) = ?n" by (rule length_uview [OF inv])
  have gt: "i < ?n \<Longrightarrow> ?gt i \<longleftrightarrow> cmp (uview v ! i) x > 0" for i by (simp add: nth_uview)
  have kn: "?k \<le> ?n" using sorted_position_bounds [of 0 ?n ?gt] by simp
  have mono: "?gt j" if "i \<le> j" "j < ?n" "?gt i" for i j
  proof (rule ccontr)
    assume "\<not> ?gt j"
    then have j: "cmp (uview v ! j) x \<le> 0" using gt [OF that(2)] by simp
    have i: "cmp (uview v ! i) x > 0" using gt [of i] that by simp
    then have "i \<noteq> j" using j by auto
    then have "cmp (uview v ! i) (uview v ! j) \<le> 0"
      using sorted_wrt_nth_less [OF srt] that len by simp
    then show False using trans [OF _ j] i by fastforce
  qed
  have split: "(\<forall>i < ?k. \<not> ?gt i) \<and> (\<forall>i. ?k \<le> i \<and> i < ?n \<longrightarrow> ?gt i)"
    by (rule sorted_position_split) (use mono in auto)
  have srt': "sorted_wrt (\<lambda>a b. cmp a b \<le> 0) (take ?k (uview v) @ x # drop ?k (uview v))"
    using split kn len gt flip by (intro sorted_wrt_insert_at [OF srt]) (auto simp: not_less)
  show ?thesis
  proof (cases ok)
    case True
    then have w: "v' = v1\<lparr>uelements := (shift_up ?k (nat (ucount v1)) (uelements v1))[?k := x],
                       ucount := ucount v1 + 1\<rparr>" and st: "st' = st1"
      using res fields by (auto simp: UVector_sortedInsert_def Let_def)
    from uinsert_step [OF inv kn fields [unfolded eqTrueI [OF True]] w] srt' st
    show ?thesis by (metis mset_insert_at)
  next
    case False
    then have "v1 = v \<and> U_FAILURE st1" using uensureCapacity_cases [OF inv fields] by simp
    then show ?thesis using res fields inv False by (auto simp: UVector_sortedInsert_def Let_def)
  qed
qed

section \<open>The stack\<close>

lemma UStack_pop_spec:
  assumes inv: "uvec_inv v" and xs: "uview v = xs @ [x]" and res: "UStack_pop v = (y, v')"
  shows "y = x \<and> uview v' = xs \<and> uvec_inv v' \<and> udeleter v' = udeleter v"
proof -
  have n: "nat (ucount v) = Suc (length xs)" using length_uview [OF inv] xs by simp
  then have c: "0 \<le> ucount v - 1" "ucount v - 1 < ucount v" "nat (ucount v - 1) = length xs" by auto
  then have "uelements v ! nat (ucount v - 1) = x"
    using n nth_uview [of "length xs" v] xs by simp
  moreover have "uview (UVector_removeElementAt (ucount v - 1) v) = xs \<and>
      uvec_inv (UVector_removeElementAt (ucount v - 1) v)"
    using uremoveElementAt_spec [OF inv c(1,2)] c(3) xs by simp
  ultimately show ?thesis
    using res c by (auto simp: UStack_pop_def UVector_elementAt_def Let_def)
qed

interpretation ustk: vector_stack uvec_inv uview "UStack_push h" UStack_pop for h
proof unfold_locales
  fix v :: "'a uvector" and x st v' st'
  assume "uvec_inv v" "UStack_push h x v st = (v', st')"
  from uaddElement_spec [OF this(1) this(2) [unfolded UStack_push_def]]
  show "uvec_inv v'"
    and "uview v' = uview v @ [x] \<and> st' = st \<or> uview v' = uview v \<and> U_FAILURE st'" by auto
next
  fix v :: "'a uvector" and xs x y v'
  assume "uvec_inv v" "uview v = xs @ [x]" "UStack_pop v = (y, v')"
  then show "y = x \<and> uview v' = xs \<and> uvec_inv v'" using UStack_pop_spec by blast
qed

section \<open>Properties\<close>

lemma fold_ledger:
  assumes "\<And>i b w. uvec_inv w \<Longrightarrow> udeleter w \<Longrightarrow>
      uvec_inv (snd (f i (b, w))) \<and> udeleter (snd (f i (b, w))) \<and> ledger (snd (f i (b, w))) = ledger w"
  shows "uvec_inv v \<Longrightarrow> udeleter v \<Longrightarrow> ledger (snd (fold f is (b, v))) = ledger v"
proof (induction "is" arbitrary: b v)
  case (Cons i "is")
  obtain c w where r: "f i (b, v) = (c, w)" by fastforce
  with assms [OF Cons.prems] have "uvec_inv w" "udeleter w" "ledger w = ledger v" by (metis snd_conv)+
  with Cons.IH [OF this(1,2)] r show ?case by simp
qed simp

lemma uremoveElementAt_inv:
  "uvec_inv v \<Longrightarrow> uvec_inv (UVector_removeElementAt index v)"
  using uremoveElementAt_spec [of v index]
  by (cases "0 \<le> index \<and> index < ucount v")
     (auto simp: UVector_removeElementAt_def UVector_orphanElementAt_def)

text \<open>
  What an operation does to the ledger: the objects \<open>new\<close> come in, and if the client puts no object in twice, the deleter
  gets none twice.
\<close>

definition accounts :: "'a uvector \<Rightarrow> 'a option list \<Rightarrow> 'a uvector \<Rightarrow> bool" where
  "accounts v new v' \<longleftrightarrow> ledger v' = ledger v + pointers new \<and>
     ((\<forall>p. count (ledger v + pointers new) p \<le> 1) \<longrightarrow> distinct (udeleted v'))"

lemma accounts_ledger: "accounts v new v' \<longleftrightarrow> ledger v' = ledger v + pointers new"
proof -
  have "distinct (udeleted v')" if "ledger v' = M" "\<forall>p. count M p \<le> 1" for M
  proof -
    have "count (mset (udeleted v')) p \<le> 1" for p using that by (auto simp: ledger_def dest: spec [of _ p])
    then show ?thesis by (simp add: distinct_count_atmost_1 le_Suc_eq count_eq_zero_iff)
  qed
  then show ?thesis by (auto simp: accounts_def)
qed

lemma ledger_set_nth:
  assumes "uvec_inv v" "udeleter v" "i < nat (ucount v)"
  shows "ledger (run_deleter (uelements v ! i) v\<lparr>uelements := (uelements v)[i := x]\<rparr>) = ledger v + pointers [x]"
proof -
  let ?w = "run_deleter (uelements v ! i) v\<lparr>uelements := (uelements v)[i := x]\<rparr>"
  have l: "i < length (uview v)" using assms(3) length_uview [OF assms(1)] by simp
  have "uview ?w = (uview v)[i := x]" using assms(3) by (simp add: uview_def take_update_swap)
  moreover have "pointers ((uview v)[i := x]) + pointers [uview v ! i] = pointers (uview v) + pointers [x]"
    using pointers_remove_nth [of i "(uview v)[i := x]"] pointers_remove_nth [OF l] l by (simp add: ac_simps)
  moreover have "mset (udeleted ?w) = pointers [uview v ! i] + mset (udeleted v)"
    using mset_run_deleter [OF assms(2), of "uelements v ! i"] nth_uview [OF assms(3)] by simp
  ultimately show ?thesis by (simp add: ledger_def ac_simps)
qed

lemma accounts_setElementAt:
  assumes "uvec_inv v" "udeleter v"
  shows "accounts v (if 0 \<le> index \<and> index < ucount v then [x] else []) (UVector_setElementAt x index v)"
  using ledger_set_nth [OF assms, of "nat index" x] by (auto simp: accounts_ledger UVector_setElementAt_def Let_def)

lemma fold_remove_ledger:
  assumes "uvec_inv v" "udeleter v" "n \<le> ucount v" "0 \<le> n"
  defines "w \<equiv> fold (\<lambda>i w. UVector_removeElementAt (int i) w) (rev [nat n..<nat (ucount v)]) v"
  shows "uvec_inv w" "udeleter w" "ucount w = n" "ledger w = ledger v"
proof -
  have "uvec_inv u \<Longrightarrow> udeleter u \<Longrightarrow> ucount u = int m \<Longrightarrow> nat n \<le> m \<Longrightarrow>
    (let w = fold (\<lambda>i w. UVector_removeElementAt (int i) w) (rev [nat n..<m]) u in
      uvec_inv w \<and> udeleter w \<and> ucount w = n \<and> ledger w = ledger u)" for u :: "'a uvector" and m
  proof (induction m arbitrary: u)
    case (Suc m)
    show ?case
    proof (cases "nat n = Suc m")
      case False
      let ?u = "UVector_removeElementAt (int m) u"
      have c: "ucount ?u = int m" using Suc.prems by (simp add: UVector_removeElementAt_def UVector_orphanElementAt_def)
      have "uvec_inv ?u" by (rule uremoveElementAt_inv [OF Suc.prems(1)])
      from Suc.IH [OF this _ c] Suc.prems False ledger_removeElementAt [OF Suc.prems(1,2)] show ?thesis by (simp add: Let_def)
    qed (use Suc.prems assms(4) in \<open>auto simp: Let_def\<close>)
  qed (use assms(4) in \<open>auto simp: Let_def\<close>)
  from this [of v "nat (ucount v)"] assms(1-4) show "uvec_inv w" "udeleter w" "ucount w = n" "ledger w = ledger v"
    by (simp_all add: w_def Let_def uvec_inv_def nat_mono)
qed

lemma fold_clear_cells:
  "fold (\<lambda>i e. e[i := None]) [a..<b] es = map (\<lambda>k. if a \<le> k \<and> k < b then None else es ! k) [0..<length es]"
proof (induction b)
  case (Suc b)
  show ?case
  proof (cases "a \<le> b")
    case True
    then have "fold (\<lambda>i e. e[i := None]) [a..<Suc b] es = (map (\<lambda>k. if a \<le> k \<and> k < b then None else es ! k) [0..<length es])[b := None]"
      using Suc.IH by simp
    also have "\<dots> = map (\<lambda>k. if a \<le> k \<and> k < Suc b then None else es ! k) [0..<length es]"
      by (rule nth_equalityI) (use True in \<open>auto simp: nth_list_update less_Suc_eq\<close>)
    finally show ?thesis .
  qed (auto intro!: nth_equalityI)
qed (simp add: map_nth)

lemma pointers_None: "pointers (replicate n None) = {#}"
  by (induction n) auto

text \<open>\<^verbatim>\<open>setSize\<close> deletes what it cuts off, and fills with \<^verbatim>\<open>NULL\<close>.\<close>

lemma usetSize_spec:
  assumes v: "uvec_inv v" "udeleter v" and r: "UVector_setSize h n v st = (v', st')"
  shows "uvec_inv v' \<and> udeleter v' \<and> ledger v' = ledger v \<and> (st' = st \<and> (0 \<le> n \<longrightarrow> ucount v' = n) \<or> v' = v \<and> U_FAILURE st' \<and> ucapacity v < n)"
proof (cases "n < 0 \<or> n \<le> ucount v")
  case True
  define w where "w = fold (\<lambda>i w. UVector_removeElementAt (int i) w) (rev [nat n..<nat (ucount v)]) v"
  note f = fold_remove_ledger [OF v, of n, folded w_def]
  have "w\<lparr>ucount := n\<rparr> = w" if "ucount w = n" using that by auto
  then show ?thesis using r f True v by (cases "n < 0") (auto simp: UVector_setSize_def w_def [symmetric])
next
  case False
  obtain ok v1 st1 where e: "UVector_ensureCapacity h n v st = (ok, v1, st1)" by (metis surj_pair)
  show ?thesis
  proof (cases ok)
    case True
    from uensureCapacity_cases [OF v(1) e] True
    have 1: "st1 = st" "uvec_inv v1" "n \<le> ucapacity v1" "uview v1 = uview v" and eq: "v1 = v\<lparr>uelements := uelements v1, ucapacity := ucapacity v1\<rparr>" by auto
    have fr: "ucount v1 = ucount v" "udeleter v1 = udeleter v" "udeleted v1 = udeleted v" by (subst eq, simp)+
    let ?es = "fold (\<lambda>i e. e[i := None]) [nat (ucount v1)..<nat n] (uelements v1)"
    have v': "v' = v1\<lparr>uelements := ?es, ucount := n\<rparr>" "st' = st1" using r e True False by (auto simp: UVector_setSize_def)
    have len: "nat n \<le> length (uelements v1)" "nat (ucount v1) \<le> nat n" using 1 False fr by (auto simp: uvec_inv_def)
    have "uview v' = uview v1 @ replicate (nat n - nat (ucount v1)) None"
      using len by (auto simp: v' uview_def fold_clear_cells nth_append intro!: nth_equalityI)
    then have "ledger v' = ledger v" using 1(4) fr by (simp add: ledger_def v' pointers_None)
    moreover have "length ?es = length (uelements v1)" by (simp add: fold_clear_cells)
    ultimately show ?thesis using 1 fr v v' False by (auto simp: uvec_inv_def)
  next
    case f: False
    then have "v1 = v" "U_FAILURE st1" "ucapacity v < n" using uensureCapacity_cases [OF v(1) e] e False v(1) by (auto simp: UVector_ensureCapacity_def uvec_inv_def split: if_splits)
    then show ?thesis using r e f False v by (auto simp: UVector_setSize_def)
  qed
qed

lemma fold_assign_ledger:
  fixes f :: "nat \<Rightarrow> 'a option"
  assumes "uvec_inv v" "udeleter v" "n \<le> nat (ucount v)"
  defines "w \<equiv> fold (\<lambda>i w. let w1 = run_deleter (uelements w ! i) w in w1\<lparr>uelements := (uelements w1)[i := f i]\<rparr>) [0..<n] v"
  shows "uvec_inv w \<and> udeleter w \<and> ucount w = ucount v \<and> ledger w = ledger v + pointers (map f [0..<n])"
  using assms(3) unfolding w_def
proof (induction n)
  case (Suc n)
  let ?w = "fold (\<lambda>i w. let w1 = run_deleter (uelements w ! i) w in w1\<lparr>uelements := (uelements w1)[i := f i]\<rparr>) [0..<n] v"
  have w: "uvec_inv ?w" "udeleter ?w" "ucount ?w = ucount v" "ledger ?w = ledger v + pointers (map f [0..<n])" using Suc by auto
  then have "ledger (run_deleter (uelements ?w ! n) ?w\<lparr>uelements := (uelements ?w)[n := f n]\<rparr>) = ledger ?w + pointers [f n]"
    by (intro ledger_set_nth) (use Suc.prems in auto)
  then show ?case using w by (simp add: Let_def uvec_inv_def ac_simps)
qed (use assms(1,2) in auto)

lemma accounts_assign:
  assumes v: "uvec_inv v" "udeleter v" and other: "uvec_inv other" and r: "UVector_assign h other assigner v st = (v', st')"
  shows "accounts v (if U_SUCCESS st' then map assigner (uview other) else []) v'"
proof -
  obtain ok v1 st1 where e: "UVector_ensureCapacity h (ucount other) v st = (ok, v1, st1)" by (metis surj_pair)
  show ?thesis
  proof (cases ok)
    case True
    from uensureCapacity_cases [OF v(1) e] True
    have 1: "st1 = st" "uvec_inv v1" "ucount other \<le> ucapacity v1" "uview v1 = uview v" and eq: "v1 = v\<lparr>uelements := uelements v1, ucapacity := ucapacity v1\<rparr>" by auto
    have fr: "udeleter v1 = udeleter v" "udeleted v1 = udeleted v" by (subst eq, simp)+
    obtain v2 st2 where s: "UVector_setSize h (ucount other) v1 st1 = (v2, st2)" by (metis surj_pair)
    have 2: "uvec_inv v2" "udeleter v2" "ledger v2 = ledger v" "ucount v2 = ucount other" "st2 = st"
      using usetSize_spec [OF 1(2) _ s] fr v(2) 1 other by (auto simp: ledger_def uvec_inv_def)
    have "map (\<lambda>i. assigner (uelements other ! i)) [0..<nat (ucount other)] = map assigner (uview other)"
      unfolding map_nth_uview [OF other, symmetric] by simp
    then show ?thesis
      using r e True s 2 fold_assign_ledger [OF 2(1,2), of "nat (ucount other)" "\<lambda>i. assigner (uelements other ! i)"]
      by (auto simp: UVector_assign_def accounts_ledger split: if_splits)
  next
    case False
    then have "v1 = v" "U_FAILURE st1" using uensureCapacity_cases [OF v(1) e] by auto
    then show ?thesis using r e False by (auto simp: UVector_assign_def accounts_ledger)
  qed
qed

text \<open>
  C37. Ownership in a \<^verbatim>\<open>UVector\<close> with a deleter: what the vector holds together with what it has handed to the deleter stays
  the same when it drops elements (removing by index or value, removing or retaining those of another vector, clearing,
  \<^verbatim>\<open>setSize\<close>), and grows exactly by the objects that \<^verbatim>\<open>setElementAt\<close> and \<^verbatim>\<open>assign\<close> put in place of those they delete. So nothing
  leaks, and no object is deleted twice unless the client has put it in twice.
\<close>

theorem UVector_ownership:
  assumes "uvec_inv v" "udeleter v" "uvec_inv other"
  shows "accounts v [] (UVector_removeElementAt index v) \<and>
         accounts v [] (snd (UVector_removeElement x v)) \<and>
         accounts v [] (snd (UVector_removeAll other v)) \<and>
         accounts v [] (snd (UVector_retainAll other v)) \<and>
         accounts v [] (UVector_removeAllElements v) \<and>
         accounts v [] (fst (UVector_setSize h n v st)) \<and>
         accounts v (if 0 \<le> index \<and> index < ucount v then [x] else []) (UVector_setElementAt x index v) \<and>
         (let (v', st') = UVector_assign h other assigner v st
          in accounts v (if U_SUCCESS st' then map assigner (uview other) else []) v')"
proof -
  have "ledger (snd (UVector_removeAll other v)) = ledger v" "ledger (snd (UVector_retainAll other v)) = ledger v"
    using assms ledger_removeElementAt unfolding UVector_removeAll_def UVector_retainAll_def Let_def
    by (auto intro!: fold_ledger simp: uremoveElementAt_inv)
  moreover have "ledger (fst (UVector_setSize h n v st)) = ledger v" using usetSize_spec [OF assms(1,2)] by (metis prod.collapse)
  moreover have "let (v', st') = UVector_assign h other assigner v st
      in accounts v (if U_SUCCESS st' then map assigner (uview other) else []) v'"
    by (cases "UVector_assign h other assigner v st") (use accounts_assign [OF assms] in simp)
  ultimately show ?thesis
    using ledger_removeElementAt [OF assms(1,2)] ledger_removeAllElements [OF assms(1,2)] accounts_setElementAt [OF assms(1,2)]
    by (simp add: accounts_ledger [of v "[]"] UVector_removeElement_def Let_def)
qed

theorem UVector_ownership_witness:
  "let v = \<lparr>ucount = 2, ucapacity = 2, uelements = [Some ''a'', Some ''b''], udeleter = True, ucomparer = None, udeleted = [], uinteger = (\<lambda>p. 0)\<rparr>
   in accounts v [] (UVector_removeAllElements v) \<and> accounts v [Some ''c''] (UVector_setElementAt (Some ''c'') 0 v) \<and>
      distinct (udeleted (UVector_removeAllElements v))"
proof -
  let ?v = "\<lparr>ucount = 2, ucapacity = 2, uelements = [Some ''a'', Some ''b''], udeleter = True, ucomparer = None, udeleted = [], uinteger = (\<lambda>p. 0)\<rparr> :: string uvector"
  have i: "uvec_inv ?v" by (simp add: uvec_inv_def sizeof_limit)
  have l: "ledger ?v = {#''a'', ''b''#}" by (simp add: ledger_def uview_def numeral_2_eq_2)
  have a: "accounts ?v [] (UVector_removeAllElements ?v)" "accounts ?v [Some ''c''] (UVector_setElementAt (Some ''c'') 0 ?v)"
    using UVector_ownership [OF i _ i, where index = 0 and x = "Some ''c''"] by auto
  then show ?thesis using l by (auto simp: Let_def accounts_def)
qed

text \<open>
  \<^verbatim>\<open>UStack::pop\<close> returns the top element, but removes it with \<^verbatim>\<open>removeElementAt\<close>: when the
  stack has a deleter, the pointer it returns has just been handed to that deleter.
\<close>

theorem UStack_pop_returns_deleted:
  assumes "uvec_inv v" "udeleter v" "uview v = xs @ [Some p]" "UStack_pop v = (r, v')"
  shows "r = Some p \<and> udeleted v' = udeleted v @ [p]"
proof -
  have r: "r = Some p" using UStack_pop_spec [OF assms(1,3,4)] by simp
  have n: "nat (ucount v) = Suc (length xs)" using length_uview [OF assms(1)] assms(3) by simp
  then have c: "0 \<le> ucount v - 1" "ucount v - 1 < ucount v" "nat (ucount v - 1) = length xs" by auto
  from orphanElementAt_spec [OF assms(1) c(1,2)] c(3) assms(3)
  have "fst (UVector_orphanElementAt (ucount v - 1) v) = Some p" by simp
  then have "udeleted v' = udeleted v @ [p]"
    using assms(2,4) c orphanElementAt_frame [of "ucount v - 1" v]
    by (auto simp: UStack_pop_def Let_def UVector_removeElementAt_def split_beta run_deleter_def
             split: if_splits)
  with r show ?thesis ..
qed

theorem UStack_pop_returns_deleted_witness:
  "udeleted (snd (UStack_pop
     \<lparr>ucount = 1, ucapacity = 1, uelements = [Some ''a''], udeleter = True,
      ucomparer = None, udeleted = [], uinteger = (\<lambda>p. 0)\<rparr>)) = [''a'']"
proof -
  let ?v = "\<lparr>ucount = 1, ucapacity = 1, uelements = [Some ''a''], udeleter = True,
      ucomparer = None, udeleted = [], uinteger = (\<lambda>p. 0)\<rparr> :: string uvector"
  have "uvec_inv ?v" by (simp add: uvec_inv_def sizeof_limit)
  from UStack_pop_returns_deleted [OF this, of "[]" "''a''", OF _ _ prod.collapse [symmetric]]
  show ?thesis by (simp add: uview_def)
qed

end
