(* ===== verification/UnicodeSetModel.thy ===== *)
theory UnicodeSetModel
  imports BmpSet PtrVector
begin

text \<open>
  The class \<^verbatim>\<open>UnicodeSet\<close> of \<^verbatim>\<open>common/uniset.cpp\<close>: a set of code points, kept as an inversion list in
  a growing array with a second array as buffer of the merge operations, and a vector of the
  strings that are not single code points. This theory holds the state and the operations.

  The array \<^verbatim>\<open>list\<close> is given by its \<^verbatim>\<open>len\<close> entries in use and its \<^verbatim>\<open>capacity\<close>; the cells behind
  \<^verbatim>\<open>len\<close> and the content of \<^verbatim>\<open>buffer\<close> between two operations are never read. \<^verbatim>\<open>NULL\<close> is the empty
  list. An operation that can read or write outside of an array returns an option, \<open>None\<close> being
  such an access; the theory \<open>UnicodeSetProofs\<close> shows that it does not occur.
\<close>

type_synonym ustring = "int list"

record UnicodeSet =
  us_list :: "int list"
  us_len :: int
  us_capacity :: int
  us_buffer :: bool
  us_bufferCapacity :: int
  us_strings :: "ustring uvector option"
  us_pat :: "ustring option"
  us_bmpSet :: "BMPSet option"
  us_stringSpan :: "BMPSet option"
  us_bogus :: bool

text \<open>
  What the operations get from outside: the allocator for arrays, the one for the vector of
  strings, whether operator \<^verbatim>\<open>new\<close> succeeds for a \<^verbatim>\<open>UnicodeSetStringSpan\<close> and for the other objects, and the \<^verbatim>\<open>integer\<close>
  member of a \<^verbatim>\<open>UElement\<close> that holds a pointer to a string. Each call has an environment of its own. \<^verbatim>\<open>us_stringSpan\<close>
  stands for a \<^verbatim>\<open>UnicodeSetStringSpan\<close>, of which \<^verbatim>\<open>contains\<close> uses the tables of its frozen span set.
\<close>

record env =
  array_heap :: "int heap"
  vector_heap :: "ustring option heap"
  new_ok :: bool
  span_ok :: bool
  string_integer :: "ustring option \<Rightarrow> int"

definition START_EXTRA :: int where
  "START_EXTRA = 16"

definition GROW_EXTRA :: int where
  "GROW_EXTRA = START_EXTRA"

definition sizeof_UChar32 :: int where
  "sizeof_UChar32 = 4"

definition malloc_ok :: "env \<Rightarrow> int \<Rightarrow> int \<Rightarrow> bool" where
  "malloc_ok e sz n = (uprv_malloc (array_heap e) sz n \<noteq> None)"

definition realloc_ok :: "env \<Rightarrow> int \<Rightarrow> int \<Rightarrow> bool" where
  "realloc_ok e sz n = (uprv_realloc (array_heap e) [] sz n \<noteq> None)"

definition pinCodePoint :: "int \<Rightarrow> int" where
  "pinCodePoint c =
     (if c < UNICODESET_LOW then UNICODESET_LOW
      else if c > UNICODESET_HIGH - 1 then UNICODESET_HIGH - 1 else c)"

section \<open>Strings\<close>

text \<open>
  \<^verbatim>\<open>compareUnicodeString\<close> calls \<^verbatim>\<open>UnicodeString::compare\<close>, the order by code units.
\<close>

fun ustring_compare :: "ustring \<Rightarrow> ustring \<Rightarrow> int" where
  "ustring_compare [] [] = 0"
| "ustring_compare [] (b # bs) = -1"
| "ustring_compare (a # as) [] = 1"
| "ustring_compare (a # as) (b # bs) =
     (if a < b then -1 else if b < a then 1 else ustring_compare as bs)"

fun compareUnicodeString :: "ustring option \<Rightarrow> ustring option \<Rightarrow> int" where
  "compareUnicodeString (Some a) (Some b) = ustring_compare a b"
| "compareUnicodeString None None = 0"
| "compareUnicodeString None (Some b) = -1"
| "compareUnicodeString (Some a) None = 1"

definition getSingleCP :: "ustring \<Rightarrow> int" where
  "getSingleCP s =
     (if length s > 2 then -1
      else if length s = 1 then s ! 0
      else case s of
             [a, b] \<Rightarrow> let cp = (if is_lead a \<and> is_trail b then get_supplementary a b else a)
                       in if cp > 0xFFFF then cp else -1
           | _ \<Rightarrow> -1)"

section \<open>Storage\<close>

definition isFrozen :: "UnicodeSet \<Rightarrow> bool" where
  "isFrozen s \<longleftrightarrow> us_bmpSet s \<noteq> None \<or> us_stringSpan s \<noteq> None"

definition isBogus :: "UnicodeSet \<Rightarrow> bool" where
  "isBogus s \<longleftrightarrow> us_bogus s"

definition releasePattern :: "UnicodeSet \<Rightarrow> UnicodeSet" where
  "releasePattern s = s\<lparr>us_pat := None\<rparr>"

definition setPattern :: "env \<Rightarrow> ustring \<Rightarrow> UnicodeSet \<Rightarrow> UnicodeSet" where
  "setPattern e newPat s =
     (releasePattern s)\<lparr>us_pat := (if malloc_ok e 2 (int (length newPat) + 1) then Some newPat else None)\<rparr>"

definition put_list :: "int list \<Rightarrow> UnicodeSet \<Rightarrow> UnicodeSet" where
  "put_list l s = s\<lparr>us_list := l, us_len := int (length l)\<rparr>"

definition UnicodeSet_clear :: "UnicodeSet \<Rightarrow> UnicodeSet" where
  "UnicodeSet_clear s =
     (if isFrozen s then s
      else
        let s1 = (if us_list s \<noteq> [] then s\<lparr>us_list := [UNICODESET_HIGH]\<rparr> else s)\<lparr>us_len := 1\<rparr>;
            s2 = releasePattern s1;
            s3 = s2\<lparr>us_strings := map_option UVector_removeAllElements (us_strings s2)\<rparr>
        in if us_list s3 \<noteq> [] \<and> us_strings s3 \<noteq> None then s3\<lparr>us_bogus := False\<rparr> else s3)"

definition setToBogus :: "UnicodeSet \<Rightarrow> UnicodeSet" where
  "setToBogus s = (UnicodeSet_clear s)\<lparr>us_bogus := True\<rparr>"

definition UnicodeSet_ensureCapacity :: "env \<Rightarrow> int \<Rightarrow> UnicodeSet \<Rightarrow> UErrorCode \<Rightarrow> UnicodeSet \<times> UErrorCode" where
  "UnicodeSet_ensureCapacity e newLen s ec =
     (if newLen \<le> us_capacity s then (s, ec)
      else if \<not> realloc_ok e sizeof_UChar32 (newLen + GROW_EXTRA)
      then (setToBogus s, U_MEMORY_ALLOCATION_ERROR)
      else (s\<lparr>us_capacity := newLen + GROW_EXTRA\<rparr>, ec))"

definition ensureBufferCapacity :: "env \<Rightarrow> int \<Rightarrow> UnicodeSet \<Rightarrow> UErrorCode \<Rightarrow> UnicodeSet \<times> UErrorCode" where
  "ensureBufferCapacity e newLen s ec =
     (if us_buffer s \<and> newLen \<le> us_bufferCapacity s then (s, ec)
      else if \<not> realloc_ok e sizeof_UChar32 (newLen + GROW_EXTRA)
      then (setToBogus s, U_MEMORY_ALLOCATION_ERROR)
      else (s\<lparr>us_buffer := True, us_bufferCapacity := newLen + GROW_EXTRA\<rparr>, ec))"

text \<open>
  \<^verbatim>\<open>swapBuffers\<close> after \<open>r\<close> was written to the buffer; the old \<^verbatim>\<open>list\<close> becomes the buffer.
\<close>

definition swapBuffers :: "int list \<Rightarrow> UnicodeSet \<Rightarrow> UnicodeSet" where
  "swapBuffers r s =
     s\<lparr>us_list := r, us_buffer := (us_list s \<noteq> []),
       us_capacity := us_bufferCapacity s, us_bufferCapacity := us_capacity s\<rparr>"

definition finish_merge :: "int list \<Rightarrow> UnicodeSet \<Rightarrow> UnicodeSet option" where
  "finish_merge r s =
     (if int (length r) \<le> us_bufferCapacity s
      then Some (releasePattern (swapBuffers r (s\<lparr>us_len := int (length r)\<rparr>)))
      else None)"

section \<open>The merge operations\<close>

definition UnicodeSet_exclusiveOr :: "env \<Rightarrow> int list \<Rightarrow> int \<Rightarrow> nat \<Rightarrow> UnicodeSet \<Rightarrow> UnicodeSet option" where
  "UnicodeSet_exclusiveOr e other otherLen pol s =
     (if isFrozen s \<or> isBogus s then Some s
      else case ensureBufferCapacity e (us_len s + otherLen) s U_ZERO_ERROR of
             (s1, status) \<Rightarrow>
               if U_FAILURE status then Some s1
               else Option.bind (exclusiveOr_lists (us_list s1) other pol) (\<lambda>r. finish_merge r s1))"

definition UnicodeSet_add_merge :: "env \<Rightarrow> int list \<Rightarrow> int \<Rightarrow> nat \<Rightarrow> UnicodeSet \<Rightarrow> UnicodeSet option" where
  "UnicodeSet_add_merge e other otherLen pol s =
     (if isFrozen s \<or> isBogus s \<or> other = [] then Some s
      else case ensureBufferCapacity e (us_len s + otherLen) s U_ZERO_ERROR of
             (s1, status) \<Rightarrow>
               if U_FAILURE status then Some s1
               else Option.bind (add_lists (us_list s1) other pol) (\<lambda>r. finish_merge r s1))"

definition UnicodeSet_retain_merge :: "env \<Rightarrow> int list \<Rightarrow> int \<Rightarrow> nat \<Rightarrow> UnicodeSet \<Rightarrow> UnicodeSet option" where
  "UnicodeSet_retain_merge e other otherLen pol s =
     (if isFrozen s \<or> isBogus s then Some s
      else case ensureBufferCapacity e (us_len s + otherLen) s U_ZERO_ERROR of
             (s1, status) \<Rightarrow>
               if U_FAILURE status then Some s1
               else Option.bind (retain_lists (us_list s1) other pol) (\<lambda>r. finish_merge r s1))"

section \<open>Operations on code points\<close>

definition range_array :: "int \<Rightarrow> int \<Rightarrow> int list" where
  "range_array start end = [start, end + 1, UNICODESET_HIGH]"

text \<open>
  \<^verbatim>\<open>findCodePoint\<close> with its reads: \<open>None\<close> when one is outside of the array, and when \<^verbatim>\<open>list\<close> is \<^verbatim>\<open>NULL\<close>, the empty list here.
\<close>

function search_reads :: "int list \<Rightarrow> int \<Rightarrow> nat \<Rightarrow> nat \<Rightarrow> nat option" where
  "search_reads list c lo hi =
     (let i = (lo + hi) div 2 in
      if i = lo \<or> hi \<le> lo then Some hi
      else if length list \<le> i then None
      else if c < list ! i then search_reads list c lo i
      else search_reads list c i hi)"
  by pat_completeness auto
termination
  by (relation "measure (\<lambda>(l, c, lo, hi). hi - lo)") auto

declare search_reads.simps [simp del]

definition findCodePoint_reads :: "int list \<Rightarrow> int \<Rightarrow> nat option" where
  "findCodePoint_reads list c =
     (if list = [] then None
      else if c < list ! 0 then Some 0
      else
        let hi = length list - 1 in
        if 0 \<ge> hi then Some hi
        else if length list \<le> hi - 1 then None
        else if c \<ge> list ! (hi - 1) then Some hi
        else search_reads list c 0 hi)"

lemma search_reads_eq: "hi < length list \<Longrightarrow> search_reads list c lo hi = Some (search_loop list c lo hi)"
proof (induction list c lo hi rule: search_reads.induct)
  case (1 list c lo hi)
  then show ?case by (subst search_reads.simps, subst search_loop.simps) (auto simp: Let_def)
qed

lemma findCodePoint_reads_eq: "findCodePoint_reads list c = (if list = [] then None else Some (UnicodeSet_findCodePoint list c))"
  by (auto simp: findCodePoint_reads_def UnicodeSet_findCodePoint_def findCodePoint_def Let_def search_reads_eq)

text \<open>
  The search comes before the test for a frozen or bogus set. The edit of the list reads and shifts the cells from \<open>i - 1\<close> (for \<open>i > 0\<close>)
  up to the length, and writes up to the new length, which must lie within the capacity.
\<close>

definition UnicodeSet_add_char :: "env \<Rightarrow> int \<Rightarrow> UnicodeSet \<Rightarrow> UnicodeSet option" where
  "UnicodeSet_add_char e c0 s =
     (let c = pinCodePoint c0; l = us_list s in
      case findCodePoint_reads l c of None \<Rightarrow> None | Some i \<Rightarrow>
      if odd i \<or> isFrozen s \<or> isBogus s then Some s
      else if i \<ge> length l then None
      else
        let (s1, status) =
              (if c = l ! i - 1 then
                 (if c = UNICODESET_HIGH - 1 then UnicodeSet_ensureCapacity e (us_len s + 1) s U_ZERO_ERROR
                  else (s, U_ZERO_ERROR))
               else if i > 0 \<and> c = l ! (i - 1) then (s, U_ZERO_ERROR)
               else UnicodeSet_ensureCapacity e (us_len s + 2) s U_ZERO_ERROR);
            l' = add_char l i c
        in if U_FAILURE status then Some s1
           else if int (length l') \<le> us_capacity s1 then Some (releasePattern (put_list l' s1))
           else None)"

definition UnicodeSet_add_range :: "env \<Rightarrow> int \<Rightarrow> int \<Rightarrow> UnicodeSet \<Rightarrow> UnicodeSet option" where
  "UnicodeSet_add_range e start0 end0 s =
     (let start = pinCodePoint start0; end = pinCodePoint end0 in
      if start < end then UnicodeSet_add_merge e (range_array start end) 2 0 s
      else if start = end then UnicodeSet_add_char e start s
      else Some s)"

definition UnicodeSet_retain_range :: "env \<Rightarrow> int \<Rightarrow> int \<Rightarrow> UnicodeSet \<Rightarrow> UnicodeSet option" where
  "UnicodeSet_retain_range e start0 end0 s =
     (let start = pinCodePoint start0; end = pinCodePoint end0 in
      if start \<le> end then UnicodeSet_retain_merge e (range_array start end) 2 0 s
      else Some (UnicodeSet_clear s))"

definition UnicodeSet_retain_char :: "env \<Rightarrow> int \<Rightarrow> UnicodeSet \<Rightarrow> UnicodeSet option" where
  "UnicodeSet_retain_char e c s = UnicodeSet_retain_range e c c s"

definition UnicodeSet_remove_range :: "env \<Rightarrow> int \<Rightarrow> int \<Rightarrow> UnicodeSet \<Rightarrow> UnicodeSet option" where
  "UnicodeSet_remove_range e start0 end0 s =
     (let start = pinCodePoint start0; end = pinCodePoint end0 in
      if start \<le> end then UnicodeSet_retain_merge e (range_array start end) 2 2 s
      else Some s)"

definition UnicodeSet_remove_char :: "env \<Rightarrow> int \<Rightarrow> UnicodeSet \<Rightarrow> UnicodeSet option" where
  "UnicodeSet_remove_char e c s = UnicodeSet_remove_range e c c s"

definition UnicodeSet_complement_range :: "env \<Rightarrow> int \<Rightarrow> int \<Rightarrow> UnicodeSet \<Rightarrow> UnicodeSet option" where
  "UnicodeSet_complement_range e start0 end0 s =
     (if isFrozen s \<or> isBogus s then Some s
      else
        let start = pinCodePoint start0; end = pinCodePoint end0 in
        map_option releasePattern
          (if start \<le> end then UnicodeSet_exclusiveOr e (range_array start end) 2 0 s else Some s))"

definition UnicodeSet_complement_char :: "env \<Rightarrow> int \<Rightarrow> UnicodeSet \<Rightarrow> UnicodeSet option" where
  "UnicodeSet_complement_char e c s = UnicodeSet_complement_range e c c s"

definition UnicodeSet_complement :: "env \<Rightarrow> UnicodeSet \<Rightarrow> UnicodeSet option" where
  "UnicodeSet_complement e s =
     (if isFrozen s \<or> isBogus s then Some s
      else if us_list s = [] then None
      else
        case ensureBufferCapacity e
               (if us_list s ! 0 = UNICODESET_LOW then us_len s - 1 else us_len s + 1) s U_ZERO_ERROR of
          (s1, status) \<Rightarrow>
            if U_FAILURE status then Some s1
            else finish_merge (complement_list (us_list s1)) s1)"

definition UnicodeSet_set :: "env \<Rightarrow> int \<Rightarrow> int \<Rightarrow> UnicodeSet \<Rightarrow> UnicodeSet option" where
  "UnicodeSet_set e start end s = UnicodeSet_complement_range e start end (UnicodeSet_clear s)"

section \<open>Operations on strings\<close>

text \<open>\<^verbatim>\<open>strings\<close> is \<^verbatim>\<open>NULL\<close> when the constructor could not allocate it; using it then is \<open>None\<close>.\<close>

definition UnicodeSet_add_to_strings :: "env \<Rightarrow> ustring \<Rightarrow> UnicodeSet \<Rightarrow> UnicodeSet" where
  "UnicodeSet_add_to_strings e t s =
     (if isFrozen s \<or> isBogus s then s
      else if \<not> new_ok e then setToBogus s
      else
        case UVector_sortedInsert (vector_heap e) (Some t) compareUnicodeString (the (us_strings s)) U_ZERO_ERROR of
          (v, ec) \<Rightarrow>
            let s1 = s\<lparr>us_strings := Some v\<rparr> in if U_FAILURE ec then setToBogus s1 else s1)"

definition has_string :: "UnicodeSet \<Rightarrow> ustring \<Rightarrow> bool" where
  "has_string s t = UVector_contains (the (us_strings s)) (Some t)"

definition remove_string_elem :: "ustring \<Rightarrow> UnicodeSet \<Rightarrow> bool \<times> UnicodeSet" where
  "remove_string_elem t s =
     (case UVector_removeElement (Some t) (the (us_strings s)) of (b, v) \<Rightarrow> (b, s\<lparr>us_strings := Some v\<rparr>))"

definition UnicodeSet_add_string :: "env \<Rightarrow> ustring \<Rightarrow> UnicodeSet \<Rightarrow> UnicodeSet option" where
  "UnicodeSet_add_string e t s =
     (if length t = 0 \<or> isFrozen s \<or> isBogus s then Some s
      else
        let cp = getSingleCP t in
        if cp < 0 then
          if us_strings s = None then None else
          (if \<not> has_string s t then Some (releasePattern (UnicodeSet_add_to_strings e t s)) else Some s)
        else UnicodeSet_add_char e cp s)"

definition UnicodeSet_remove_string :: "env \<Rightarrow> ustring \<Rightarrow> UnicodeSet \<Rightarrow> UnicodeSet option" where
  "UnicodeSet_remove_string e t s =
     (if length t = 0 \<or> isFrozen s \<or> isBogus s then Some s
      else
        let cp = getSingleCP t in
        if cp < 0 then (if us_strings s = None then None else Some (releasePattern (snd (remove_string_elem t s))))
        else UnicodeSet_remove_range e cp cp s)"

definition UnicodeSet_complement_string :: "env \<Rightarrow> ustring \<Rightarrow> UnicodeSet \<Rightarrow> UnicodeSet option" where
  "UnicodeSet_complement_string e t s =
     (if length t = 0 \<or> isFrozen s \<or> isBogus s then Some s
      else
        let cp = getSingleCP t in
        if cp < 0 then
          if us_strings s = None then None else
          Some (releasePattern
            (if has_string s t then snd (remove_string_elem t s) else UnicodeSet_add_to_strings e t s))
        else UnicodeSet_complement_range e cp cp s)"

definition removeAllStrings :: "UnicodeSet \<Rightarrow> UnicodeSet" where
  "removeAllStrings s = s\<lparr>us_strings := map_option UVector_removeAllElements (us_strings s)\<rparr>"

text \<open>\<^verbatim>\<open>addAll(const UnicodeString& s)\<close> adds every code point of the string.\<close>

definition UnicodeSet_addAll_chars :: "env \<Rightarrow> ustring \<Rightarrow> UnicodeSet \<Rightarrow> UnicodeSet option" where
  "UnicodeSet_addAll_chars e t s =
     fold (\<lambda>(cp, n) s. Option.bind s (UnicodeSet_add_char e cp)) (code_points t) (Some s)"

section \<open>Operations on sets\<close>

definition add_strings_of :: "env \<Rightarrow> ustring uvector \<Rightarrow> UnicodeSet \<Rightarrow> UnicodeSet" where
  "add_strings_of e other s =
     fold (\<lambda>i s. let t = the (UVector_elementAt other (int i)) in
                 if \<not> has_string s t then UnicodeSet_add_to_strings e t s else s)
          [0..<nat (ucount other)] s"

definition UnicodeSet_addAll :: "env \<Rightarrow> UnicodeSet \<Rightarrow> UnicodeSet \<Rightarrow> UnicodeSet option" where
  "UnicodeSet_addAll e c s =
     Option.bind
       (if us_len c > 0 \<and> us_list c \<noteq> [] then UnicodeSet_add_merge e (us_list c) (us_len c) 0 s else Some s)
       (\<lambda>s1. Some (case us_strings c of Some v \<Rightarrow> add_strings_of e v s1 | None \<Rightarrow> s1))"

definition UnicodeSet_retainAll :: "env \<Rightarrow> UnicodeSet \<Rightarrow> UnicodeSet \<Rightarrow> UnicodeSet option" where
  "UnicodeSet_retainAll e c s =
     (if isFrozen s \<or> isBogus s then Some s
      else if us_strings s = None \<or> us_strings c = None then None
      else
        map_option
          (\<lambda>s1. s1\<lparr>us_strings := Some (snd (UVector_retainAll (the (us_strings c)) (the (us_strings s1))))\<rparr>)
          (UnicodeSet_retain_merge e (us_list c) (us_len c) 0 s))"

definition UnicodeSet_removeAll :: "env \<Rightarrow> UnicodeSet \<Rightarrow> UnicodeSet \<Rightarrow> UnicodeSet option" where
  "UnicodeSet_removeAll e c s =
     (if isFrozen s \<or> isBogus s then Some s
      else if us_strings s = None \<or> us_strings c = None then None
      else
        map_option
          (\<lambda>s1. s1\<lparr>us_strings := Some (snd (UVector_removeAll (the (us_strings c)) (the (us_strings s1))))\<rparr>)
          (UnicodeSet_retain_merge e (us_list c) (us_len c) 2 s))"

definition toggle_strings_of :: "env \<Rightarrow> ustring uvector \<Rightarrow> UnicodeSet \<Rightarrow> UnicodeSet" where
  "toggle_strings_of e other s =
     fold (\<lambda>i s. let t = the (UVector_elementAt other (int i)) in
                 case remove_string_elem t s of
                   (removed, s1) \<Rightarrow> if \<not> removed then UnicodeSet_add_to_strings e t s1 else s1)
          [0..<nat (ucount other)] s"

definition UnicodeSet_complementAll :: "env \<Rightarrow> UnicodeSet \<Rightarrow> UnicodeSet \<Rightarrow> UnicodeSet option" where
  "UnicodeSet_complementAll e c s =
     (if isFrozen s \<or> isBogus s then Some s
      else if us_strings s = None \<or> us_strings c = None then None
      else map_option (toggle_strings_of e (the (us_strings c)))
             (UnicodeSet_exclusiveOr e (us_list c) (us_len c) 0 s))"

definition UnicodeSet_compact :: "env \<Rightarrow> UnicodeSet \<Rightarrow> UnicodeSet" where
  "UnicodeSet_compact e s =
     (if isFrozen s \<or> isBogus s then s
      else
        let s1 = s\<lparr>us_buffer := False\<rparr> in
        if us_len s1 < us_capacity s1 then
          let newCapacity = us_len s1 + (if us_len s1 = 0 then 1 else 0) in
          if realloc_ok e sizeof_UChar32 newCapacity then s1\<lparr>us_capacity := newCapacity\<rparr> else s1
        else s1)"

section \<open>Construction, assignment, freezing\<close>

definition blank_set :: "int \<Rightarrow> int \<Rightarrow> UnicodeSet" where
  "blank_set len capacity =
     \<lparr>us_list = [], us_len = len, us_capacity = capacity, us_buffer = False, us_bufferCapacity = 0,
      us_strings = None, us_pat = None, us_bmpSet = None, us_stringSpan = None, us_bogus = False\<rparr>"

definition allocateStrings :: "env \<Rightarrow> UnicodeSet \<Rightarrow> UErrorCode \<Rightarrow> UnicodeSet \<times> UErrorCode" where
  "allocateStrings e s status =
     (if U_FAILURE status then (s, status)
      else if \<not> new_ok e then (s\<lparr>us_strings := None\<rparr>, U_MEMORY_ALLOCATION_ERROR)
      else case UVector_new (vector_heap e) (string_integer e) True (Some (=)) 1 status of
             (v, st) \<Rightarrow> if U_FAILURE st then (s\<lparr>us_strings := None\<rparr>, st) else (s\<lparr>us_strings := Some v\<rparr>, st))"

definition UnicodeSet_new :: "env \<Rightarrow> UnicodeSet" where
  "UnicodeSet_new e =
     (case allocateStrings e (blank_set 1 (1 + START_EXTRA)) U_ZERO_ERROR of
        (s, status) \<Rightarrow>
          if U_FAILURE status then s
          else if malloc_ok e sizeof_UChar32 (us_capacity s) then s\<lparr>us_list := [UNICODESET_HIGH]\<rparr>
          else setToBogus s)"

definition UnicodeSet_new_range :: "env \<Rightarrow> int \<Rightarrow> int \<Rightarrow> UnicodeSet option" where
  "UnicodeSet_new_range e start end =
     (case allocateStrings e (blank_set 1 (1 + START_EXTRA)) U_ZERO_ERROR of
        (s, status) \<Rightarrow>
          if U_FAILURE status then Some s
          else if malloc_ok e sizeof_UChar32 (us_capacity s)
          then UnicodeSet_complement_range e start end (s\<lparr>us_list := [UNICODESET_HIGH]\<rparr>)
          else Some (setToBogus s))"

text \<open>\<^verbatim>\<open>operator=\<close>, for another object.\<close>

definition UnicodeSet_assign :: "env \<Rightarrow> UnicodeSet \<Rightarrow> UnicodeSet \<Rightarrow> UnicodeSet" where
  "UnicodeSet_assign e other s =
     (if isFrozen s then s
      else if isBogus other then setToBogus s
      else
        case UnicodeSet_ensureCapacity e (us_len other) s U_ZERO_ERROR of
          (s1, ec) \<Rightarrow>
            if U_FAILURE ec then s1
            else
              let s2 = s1\<lparr>us_list := us_list other, us_len := us_len other\<rparr> in
              if us_bmpSet other \<noteq> None \<and> \<not> new_ok e then setToBogus (s2\<lparr>us_bmpSet := None\<rparr>)
              else
                let s3 = s2\<lparr>us_bmpSet := map_option (\<lambda>b. BMPSet_copy b (us_list s2)) (us_bmpSet other)\<rparr> in
                case (us_strings s3, us_strings other) of
                  (Some v, Some w) \<Rightarrow>
                    (case UVector_assign (vector_heap e) w (\<lambda>x. x) v ec of
                       (v', ec') \<Rightarrow>
                         let s4 = s3\<lparr>us_strings := Some v'\<rparr> in
                         if us_stringSpan other \<noteq> None \<and> \<not> span_ok e then setToBogus (s4\<lparr>us_stringSpan := None\<rparr>)
                         else
                           let s5 = releasePattern (s4\<lparr>us_stringSpan := us_stringSpan other\<rparr>)
                           in case us_pat other of Some p \<Rightarrow> setPattern e p s5 | None \<Rightarrow> s5)
                | _ \<Rightarrow> setToBogus s3)"

text \<open>
  The test of \<^verbatim>\<open>UnicodeSetStringSpan\<close> for a string that matters to spans: its code points are not
  all in the set.
\<close>

definition relevant_string :: "int list \<Rightarrow> ustring \<Rightarrow> bool" where
  "relevant_string l t \<longleftrightarrow>
     units_of (takeWhile (\<lambda>(c, n). c < UNICODESET_HIGH \<and> odd (UnicodeSet_findCodePoint l c)) (code_points t)) < length t"

text \<open>
  \<^verbatim>\<open>freeze\<close>. When the \<^verbatim>\<open>UnicodeSetStringSpan\<close> cannot be allocated or no string matters to it, the set gets a \<^verbatim>\<open>BMPSet\<close>. The tables
  of the span set in the former are those of the same list.
\<close>

definition UnicodeSet_freeze :: "env \<Rightarrow> UnicodeSet \<Rightarrow> UnicodeSet option" where
  "UnicodeSet_freeze e s =
     (if isFrozen s \<or> isBogus s then Some s
      else
        let s1 = s\<lparr>us_buffer := False\<rparr>;
            shrink = us_capacity s1 > us_len s1 + GROW_EXTRA;
            s2 = (if shrink then s1\<lparr>us_capacity := us_len s1 + (if us_len s1 = 0 then 1 else 0)\<rparr> else s1)
        in if shrink \<and> \<not> realloc_ok e sizeof_UChar32 (us_capacity s2) then Some (setToBogus (s2\<lparr>us_list := []\<rparr>))
           else if us_strings s2 = None then None
           else
             Option.bind (BMPSet_new (us_list s2))
               (\<lambda>tables.
                  let v = the (us_strings s2);
                      relevant = list_ex (\<lambda>i. relevant_string (us_list s2) (the (UVector_elementAt v (int i))))
                                   [0..<nat (ucount v)]
                  in if ucount v \<noteq> 0 \<and> relevant \<and> span_ok e then Some (s2\<lparr>us_stringSpan := Some tables\<rparr>)
                     else if new_ok e then Some (s2\<lparr>us_bmpSet := Some tables\<rparr>)
                     else Some (setToBogus s2)))"

section \<open>Queries\<close>

definition UnicodeSet_contains :: "UnicodeSet \<Rightarrow> int \<Rightarrow> bool" where
  "UnicodeSet_contains s c =
     (case us_bmpSet s of
        Some b \<Rightarrow> BMPSet_contains b c
      | None \<Rightarrow>
          (case us_stringSpan s of
             Some b \<Rightarrow> BMPSet_contains b c
           | None \<Rightarrow> if c \<ge> UNICODESET_HIGH then False else odd (UnicodeSet_findCodePoint (us_list s) c)))"

definition UnicodeSet_contains_string :: "UnicodeSet \<Rightarrow> ustring \<Rightarrow> bool" where
  "UnicodeSet_contains_string s t =
     (if length t = 0 then False
      else let cp = getSingleCP t in if cp < 0 then has_string s t else UnicodeSet_contains s cp)"

definition UnicodeSet_containsAll :: "UnicodeSet \<Rightarrow> UnicodeSet \<Rightarrow> bool" where
  "UnicodeSet_containsAll s c \<longleftrightarrow>
     list_all (\<lambda>i. contains_range (us_list s) (getRangeStart (us_list c) i) (getRangeEnd (us_list c) i))
       [0..<getRangeCount (us_list c)] \<and>
     UVector_containsAll (the (us_strings s)) (the (us_strings c))"

definition UnicodeSet_containsNone :: "UnicodeSet \<Rightarrow> UnicodeSet \<Rightarrow> bool" where
  "UnicodeSet_containsNone s c \<longleftrightarrow>
     list_all (\<lambda>i. containsNone_range (us_list s) (getRangeStart (us_list c) i) (getRangeEnd (us_list c) i))
       [0..<getRangeCount (us_list c)] \<and>
     UVector_containsNone (the (us_strings s)) (the (us_strings c))"

definition UnicodeSet_size :: "UnicodeSet \<Rightarrow> int" where
  "UnicodeSet_size s = range_sizes (us_list s) + ucount (the (us_strings s))"

definition UnicodeSet_isEmpty :: "UnicodeSet \<Rightarrow> bool" where
  "UnicodeSet_isEmpty s \<longleftrightarrow> us_len s = 1 \<and> ucount (the (us_strings s)) = 0"

definition UnicodeSet_eq :: "UnicodeSet \<Rightarrow> UnicodeSet \<Rightarrow> bool" where
  "UnicodeSet_eq s other \<longleftrightarrow>
     us_len s = us_len other \<and> list_all (\<lambda>i. us_list s ! i = us_list other ! i) [0..<nat (us_len s)] \<and>
     UVector_eq (the (us_strings s)) (the (us_strings other))"

text \<open>The hash code is computed in 32-bit arithmetic.\<close>

definition UnicodeSet_hashCode :: "UnicodeSet \<Rightarrow> 32 word" where
  "UnicodeSet_hashCode s =
     fold (\<lambda>i result. result * 1000003 + word_of_int (us_list s ! i)) [0..<nat (us_len s)] (word_of_int (us_len s))"

text \<open>\<open>v\<close> is a byte. \<^verbatim>\<open>low & ~0xFF\<close> and \<^verbatim>\<open>low & 0xFF\<close> of a code point are its quotient and remainder by 256.\<close>

definition matchesIndexValue :: "UnicodeSet \<Rightarrow> int \<Rightarrow> bool" where
  "matchesIndexValue s v \<longleftrightarrow>
     list_ex (\<lambda>i. let low = getRangeStart (us_list s) i; high = getRangeEnd (us_list s) i in
                  if low div 256 = high div 256 then low mod 256 \<le> v \<and> v \<le> high mod 256
                  else low mod 256 \<le> v \<or> v \<le> high mod 256)
       [0..<getRangeCount (us_list s)] \<or>
     list_ex (\<lambda>i. let t = the (UVector_elementAt (the (us_strings s)) (int i)) in
                  fst (hd (code_points t)) mod 256 = v)
       [0..<nat (ucount (the (us_strings s)))]"

end
