(* ===== verification/UnicodeSetProofs.thy ===== *)
theory UnicodeSetProofs
  imports UnicodeSetModel
begin

text \<open>
  Correctness of the class \<^verbatim>\<open>UnicodeSet\<close>: the invariant of its state, and for every operation that it
  keeps the invariant, that it stays inside its arrays, and which set of code points and strings
  it leaves. A failed allocation makes the set bogus and empty; \<open>outcome\<close> says that this is the
  only other result.
\<close>

section \<open>Invariant and abstraction\<close>

definition multi_char :: "ustring \<Rightarrow> bool" where
  "multi_char t \<longleftrightarrow> t \<noteq> [] \<and> getSingleCP t < 0"

definition strings_inv :: "ustring uvector \<Rightarrow> bool" where
  "strings_inv v \<longleftrightarrow> uvec_inv v \<and> ucomparer v = Some (=) \<and> distinct (uview v) \<and>
     sorted_wrt (\<lambda>a b. compareUnicodeString a b \<le> 0) (uview v) \<and>
     (\<forall>x \<in> set (uview v). \<exists>t. x = Some t \<and> multi_char t)"

definition us_inv :: "UnicodeSet \<Rightarrow> bool" where
  "us_inv s \<longleftrightarrow>
     ilist (us_list s) \<and> us_len s = int (length (us_list s)) \<and> us_len s \<le> us_capacity s \<and>
     (\<exists>v. us_strings s = Some v \<and> strings_inv v) \<and>
     (\<forall>b. us_bmpSet s = Some b \<or> us_stringSpan s = Some b \<longrightarrow> tables_ok (us_list s) b)"

definition us_chars :: "UnicodeSet \<Rightarrow> int set" where
  "us_chars s = inv_set (us_list s)"

definition us_strs :: "UnicodeSet \<Rightarrow> ustring set" where
  "us_strs s = {t. Some t \<in> set (uview (the (us_strings s)))}"

definition string_count :: "UnicodeSet \<Rightarrow> int" where
  "string_count s = ucount (the (us_strings s))"

text \<open>An environment in which no allocation fails.\<close>

definition ample :: "env \<Rightarrow> bool" where
  "ample e \<longleftrightarrow> (\<forall>n. grants (array_heap e) n) \<and> (\<forall>n. grants (vector_heap e) n) \<and> new_ok e \<and> span_ok e"

definition thawed :: "UnicodeSet \<Rightarrow> bool" where
  "thawed s \<longleftrightarrow> us_inv s \<and> \<not> isFrozen s"

text \<open>
  The result of an operation: the code points \<open>C\<close> and strings \<open>S\<close>, or, where an allocation may
  fail, a bogus set.
\<close>

definition outcome :: "bool \<Rightarrow> int set \<Rightarrow> ustring set \<Rightarrow> UnicodeSet \<Rightarrow> bool" where
  "outcome may_fail C S s \<longleftrightarrow> thawed s \<and>
     (\<not> us_bogus s \<and> us_chars s = C \<and> us_strs s = S \<or>
      may_fail \<and> us_bogus s \<and> us_chars s = {} \<and> us_strs s = {})"

lemmas us_simps = releasePattern_def put_list_def swapBuffers_def isFrozen_def isBogus_def us_chars_def us_strs_def

lemma strings_inv_eq: "strings_inv v \<Longrightarrow> eq_comparer v \<and> uvec_inv v"
  by (simp add: strings_inv_def eq_comparer_def)

lemma us_inv_strings:
  assumes "us_inv s"
  obtains v where "us_strings s = Some v" "strings_inv v" "uvec_inv v" "eq_comparer v"
  using assms strings_inv_eq by (auto simp: us_inv_def)

lemma us_inv_not_null: "us_inv s \<Longrightarrow> us_list s \<noteq> [] \<and> (\<exists>v. us_strings s = Some v)"
  by (auto simp: us_inv_def ilist_def)

lemma thawed_not_null: "thawed s \<Longrightarrow> us_list s \<noteq> [] \<and> (\<exists>v. us_strings s = Some v)"
  by (simp add: thawed_def us_inv_not_null)

section \<open>Code unit order\<close>

lemma ustring_compare_refl [simp]: "ustring_compare a a = 0"
  by (induction a) auto

lemma ustring_compare_eq: "ustring_compare a b = 0 \<longleftrightarrow> a = b"
  by (induction a b rule: ustring_compare.induct) auto

lemma ustring_compare_flip: "ustring_compare a b > 0 \<longleftrightarrow> ustring_compare b a < 0"
proof (induction a b rule: ustring_compare.induct)
  case (4 a as b bs)
  consider "a < b" | "b < a" | "a = b" "\<not> a < b" "\<not> b < a" by linarith
  then show ?case
  proof cases
    case 3
    then have eq: "ustring_compare (a # as) (b # bs) = ustring_compare as bs"
      "ustring_compare (b # bs) (a # as) = ustring_compare bs as" by simp_all
    show ?thesis unfolding eq by (rule "4.IH" [OF 3(2,3)])
  qed simp_all
qed simp_all

lemma ustring_compare_trans: "ustring_compare a b \<le> 0 \<Longrightarrow> ustring_compare b c \<le> 0 \<Longrightarrow> ustring_compare a c \<le> 0"
proof (induction a b arbitrary: c rule: ustring_compare.induct)
  case (4 a as b bs)
  show ?case
  proof (cases c)
    case (Cons c1 cs)
    have p: "a < b \<or> a = b \<and> ustring_compare as bs \<le> 0" "b < c1 \<or> b = c1 \<and> ustring_compare bs cs \<le> 0"
      using "4.prems" unfolding Cons by (simp_all split: if_splits)
    have "a = b \<Longrightarrow> ustring_compare as bs \<le> 0 \<Longrightarrow> ustring_compare bs cs \<le> 0 \<Longrightarrow> ustring_compare as cs \<le> 0"
      using "4.IH" [of cs] by blast
    then have "a < c1 \<or> a = c1 \<and> ustring_compare as cs \<le> 0" using p by fastforce
    then show ?thesis unfolding Cons by force
  qed (use "4.prems" in simp)
next
  case (2 b bs)
  then show ?case by (cases c) auto
qed auto

lemma compare_trans:
  "compareUnicodeString a b \<le> 0 \<Longrightarrow> compareUnicodeString b c \<le> 0 \<Longrightarrow> compareUnicodeString a c \<le> 0"
  by (cases a; cases b; cases c) (auto intro: ustring_compare_trans)

lemma compare_flip: "compareUnicodeString a b > 0 \<Longrightarrow> compareUnicodeString b a \<le> 0"
  using ustring_compare_flip by (cases a; cases b) (auto intro: less_imp_le)

section \<open>Clearing and growing\<close>

lemma removeAllElements_inv:
  assumes "strings_inv v"
  shows "strings_inv (UVector_removeAllElements v) \<and> uview (UVector_removeAllElements v) = []"
proof -
  have frame: "ucapacity (fold (\<lambda>i w. run_deleter (uelements w ! i) w) is w) = ucapacity w \<and>
      uelements (fold (\<lambda>i w. run_deleter (uelements w ! i) w) is w) = uelements w \<and>
      ucomparer (fold (\<lambda>i w. run_deleter (uelements w ! i) w) is w) = ucomparer w" for "is" and w :: "ustring uvector"
    by (induction "is" arbitrary: w) auto
  then show ?thesis using assms
    by (auto simp: strings_inv_def UVector_removeAllElements_def uvec_inv_def uview_def)
qed

lemma clear_spec:
  assumes "us_inv s" "\<not> isFrozen s"
  shows "thawed (UnicodeSet_clear s) \<and> \<not> us_bogus (UnicodeSet_clear s) \<and>
         us_chars (UnicodeSet_clear s) = {} \<and> us_strs (UnicodeSet_clear s) = {}"
proof -
  from assms(1) obtain v where v: "us_strings s = Some v" "strings_inv v" by (rule us_inv_strings)
  have l: "us_list s \<noteq> []" using assms(1) by (auto simp: us_inv_def ilist_def)
  moreover from l have "1 \<le> int (length (us_list s))" by (cases "us_list s") auto
  ultimately have l: "us_list s \<noteq> []" "1 \<le> us_capacity s" using assms(1) unfolding us_inv_def by linarith+
  show ?thesis
    using assms v l removeAllElements_inv [OF v(2)]
    by (auto simp: UnicodeSet_clear_def Let_def us_simps us_inv_def thawed_def inv_set_HIGH)
qed

lemma setToBogus_spec:
  assumes "us_inv s" "\<not> isFrozen s"
  shows "thawed (setToBogus s) \<and> us_bogus (setToBogus s) \<and> us_chars (setToBogus s) = {} \<and> us_strs (setToBogus s) = {}"
  using clear_spec [OF assms] by (simp add: setToBogus_def thawed_def us_inv_def us_simps)

lemma setToBogus_outcome: "thawed s \<Longrightarrow> m \<Longrightarrow> outcome m C S (setToBogus s)"
  using setToBogus_spec by (simp add: outcome_def thawed_def)

lemma realloc_ample: "ample e \<Longrightarrow> realloc_ok e sz n"
  by (simp add: ample_def realloc_ok_def uprv_realloc_def)

lemma ensureBufferCapacity_cases:
  assumes "ensureBufferCapacity e n s U_ZERO_ERROR = (s1, st)"
  shows "\<not> U_FAILURE st \<and> us_buffer s1 \<and> n \<le> us_bufferCapacity s1 \<and>
           s1 = s\<lparr>us_buffer := True, us_bufferCapacity := us_bufferCapacity s1\<rparr> \<or>
         U_FAILURE st \<and> s1 = setToBogus s \<and> \<not> ample e"
proof (cases "us_buffer s \<and> n \<le> us_bufferCapacity s")
  case True
  then have "s = s\<lparr>us_buffer := True, us_bufferCapacity := us_bufferCapacity s\<rparr>" by simp
  then show ?thesis using assms True by (auto simp: ensureBufferCapacity_def)
next
  case False
  then show ?thesis using assms realloc_ample [of e]
    by (auto simp: ensureBufferCapacity_def GROW_EXTRA_def START_EXTRA_def split: if_splits)
qed

lemma us_ensureCapacity_cases:
  assumes "UnicodeSet_ensureCapacity e n s U_ZERO_ERROR = (s1, st)"
  shows "\<not> U_FAILURE st \<and> n \<le> us_capacity s1 \<and> us_capacity s \<le> us_capacity s1 \<and> s1 = s\<lparr>us_capacity := us_capacity s1\<rparr> \<or>
         U_FAILURE st \<and> s1 = setToBogus s \<and> \<not> ample e"
  using assms realloc_ample [of e]
  by (auto simp: UnicodeSet_ensureCapacity_def GROW_EXTRA_def START_EXTRA_def split: if_splits)

section \<open>The merge operations\<close>

lemma finish_merge_spec:
  assumes s: "thawed s" "\<not> us_bogus s" and r: "ilist r" "int (length r) \<le> us_bufferCapacity s"
  shows "\<exists>s'. finish_merge r s = Some s' \<and> outcome m (inv_set r) (us_strs s) s'"
  using assms by (auto simp: finish_merge_def us_simps outcome_def thawed_def us_inv_def)

text \<open>
  The three merges have one shape: grow the buffer, run the loop, swap the arrays.
\<close>

lemma merge_outcome:
  assumes s: "thawed s" "\<not> us_bogus s"
    and r: "merge (us_list s) = Some r" "ilist r" "inv_set r = C" "int (length r) \<le> us_len s + n"
  shows "\<exists>s'. (case ensureBufferCapacity e (us_len s + n) s U_ZERO_ERROR of
                 (s1, status) \<Rightarrow> if U_FAILURE status then Some s1
                                 else Option.bind (merge (us_list s1)) (\<lambda>r. finish_merge r s1)) = Some s' \<and>
              outcome (\<not> ample e) C (us_strs s) s'"
proof (cases "ensureBufferCapacity e (us_len s + n) s U_ZERO_ERROR")
  case (Pair s1 st)
  from ensureBufferCapacity_cases [OF this] show ?thesis
  proof (elim disjE conjE)
    assume ok: "\<not> U_FAILURE st" "us_len s + n \<le> us_bufferCapacity s1"
      and s1: "s1 = s\<lparr>us_buffer := True, us_bufferCapacity := us_bufferCapacity s1\<rparr>"
    have f: "us_list s1 = us_list s" "us_strs s1 = us_strs s" "us_bogus s1 = us_bogus s" "thawed s1 = thawed s"
      by (subst s1, simp add: us_simps thawed_def us_inv_def)+
    then show ?thesis
      using finish_merge_spec [of s1 r "\<not> ample e"] Pair ok r s by simp
  next
    assume "U_FAILURE st" "s1 = setToBogus s" "\<not> ample e"
    then show ?thesis using Pair setToBogus_outcome [OF s(1)] by simp
  qed
qed

lemma thawed_facts: "thawed s \<Longrightarrow> asc (us_list s) \<and> us_len s = int (length (us_list s)) \<and> \<not> isFrozen s \<and> us_inv s"
  by (simp add: thawed_def us_inv_def ilist_asc)

lemma add_merge_outcome:
  assumes "thawed s" "\<not> us_bogus s" "asc other" "int (length other) \<le> n + 1"
  shows "\<exists>s'. UnicodeSet_add_merge e other n 0 s = Some s' \<and> outcome (\<not> ample e) (us_chars s \<union> inv_set other) (us_strs s) s'"
proof -
  note t = thawed_facts [OF assms(1)]
  obtain r where r: "add_lists (us_list s) other 0 = Some r" "ilist r" "inv_set r = inv_set (us_list s) \<union> inv_set other"
    using add_lists_correct [of "us_list s" other] t assms(3) by blast
  have "int (length r) \<le> us_len s + n" using merge_lists_length(1) [OF r(1)] t assms(4) by simp
  from merge_outcome [of s "\<lambda>l. add_lists l other 0", OF assms(1,2) r(1,2) refl this] r(3) t asc_Cons [OF assms(3)] assms(2)
  show ?thesis by (auto simp: UnicodeSet_add_merge_def us_chars_def isBogus_def)
qed

lemma retain_merge_outcome:
  assumes "thawed s" "\<not> us_bogus s" "asc other" "int (length other) \<le> n + 1"
  shows "\<exists>s'. UnicodeSet_retain_merge e other n 0 s = Some s' \<and> outcome (\<not> ample e) (us_chars s \<inter> inv_set other) (us_strs s) s'"
    and "\<exists>s'. UnicodeSet_retain_merge e other n 2 s = Some s' \<and> outcome (\<not> ample e) (us_chars s - inv_set other) (us_strs s) s'"
proof -
  note t = thawed_facts [OF assms(1)]
  have run: "\<exists>s'. UnicodeSet_retain_merge e other n p s = Some s' \<and> outcome (\<not> ample e) C (us_strs s) s'"
    if r: "retain_lists (us_list s) other p = Some r" "ilist r" "inv_set r = C" for p r C
  proof -
    have "int (length r) \<le> us_len s + n" using merge_lists_length(2) [OF r(1)] t assms(4) by simp
    from merge_outcome [of s "\<lambda>l. retain_lists l other p", OF assms(1,2) r this] t assms(2)
    show ?thesis by (auto simp: UnicodeSet_retain_merge_def isBogus_def)
  qed
  show "\<exists>s'. UnicodeSet_retain_merge e other n 0 s = Some s' \<and> outcome (\<not> ample e) (us_chars s \<inter> inv_set other) (us_strs s) s'"
    using retain_lists_correct(1) [of "us_list s" other] t assms(3) run by (auto simp: us_chars_def)
  show "\<exists>s'. UnicodeSet_retain_merge e other n 2 s = Some s' \<and> outcome (\<not> ample e) (us_chars s - inv_set other) (us_strs s) s'"
    using retain_lists_correct(2) [of "us_list s" other] t assms(3) run by (auto simp: us_chars_def)
qed

lemma exclusiveOr_outcome:
  assumes "thawed s" "\<not> us_bogus s" "asc other" "int (length other) \<le> n + 1"
  shows "\<exists>s'. UnicodeSet_exclusiveOr e other n 0 s = Some s' \<and>
           outcome (\<not> ample e) ((us_chars s - inv_set other) \<union> (inv_set other - us_chars s)) (us_strs s) s'"
proof -
  note t = thawed_facts [OF assms(1)]
  obtain r where r: "exclusiveOr_lists (us_list s) other 0 = Some r" "ilist r"
    "inv_set r = (inv_set (us_list s) - inv_set other) \<union> (inv_set other - inv_set (us_list s))"
    using exclusiveOr_lists_correct [of "us_list s" other] t assms(3) by blast
  have "int (length r) \<le> us_len s + n" using merge_lists_length(3) [OF r(1)] t assms(4) by simp
  from merge_outcome [of s "\<lambda>l. exclusiveOr_lists l other 0", OF assms(1,2) r(1,2) refl this] r(3) t assms(2)
  show ?thesis by (auto simp: UnicodeSet_exclusiveOr_def us_chars_def isBogus_def)
qed

section \<open>Ranges\<close>

lemma pinCodePoint_legal: "0 \<le> pinCodePoint c \<and> pinCodePoint c < UNICODESET_HIGH"
  by (auto simp: pinCodePoint_def UNICODESET_HIGH_def UNICODESET_LOW_def)

lemma pinCodePoint_id [simp]: "0 \<le> c \<Longrightarrow> c < UNICODESET_HIGH \<Longrightarrow> pinCodePoint c = c"
  by (auto simp: pinCodePoint_def UNICODESET_LOW_def)

lemma range_array_spec:
  assumes "0 \<le> a" "a \<le> b" "b < UNICODESET_HIGH"
  shows "asc (range_array a b)" "inv_set (range_array a b) = {a..b}" "length (range_array a b) = 3"
  using assms by (auto simp: range_array_def asc.simps inv_set_def UNICODESET_LOW_def UNICODESET_HIGH_def)

definition pin_range :: "int \<Rightarrow> int \<Rightarrow> int set" where
  "pin_range a b = {pinCodePoint a..pinCodePoint b}"

lemma outcome_weaken: "outcome m C S s \<Longrightarrow> (m \<Longrightarrow> m') \<Longrightarrow> outcome m' C S s"
  by (auto simp: outcome_def)

lemma outcome_same: "thawed s \<Longrightarrow> \<not> us_bogus s \<Longrightarrow> C = us_chars s \<Longrightarrow> S = us_strs s \<Longrightarrow> outcome m C S s"
  by (simp add: outcome_def)

lemma outcome_releasePattern: "outcome m C S s \<Longrightarrow> outcome m C S (releasePattern s)"
  by (simp add: outcome_def thawed_def us_inv_def us_simps)

lemma add_char_outcome:
  assumes s: "thawed s" "\<not> us_bogus s"
  shows "\<exists>s'. UnicodeSet_add_char e c0 s = Some s' \<and> outcome (\<not> ample e) (insert (pinCodePoint c0) (us_chars s)) (us_strs s) s'"
proof -
  define c l i where d: "c = pinCodePoint c0" "l = us_list s" "i = UnicodeSet_findCodePoint l c"
  have l: "ilist l" "us_len s = int (length l)" "us_len s \<le> us_capacity s" "\<not> isFrozen s" "\<not> isBogus s"
    using s by (auto simp: thawed_def us_inv_def d isBogus_def)
  have c: "legal c" using pinCodePoint_legal d by simp
  have rank: "is_rank l c i" using UnicodeSet_findCodePoint_rank [OF l(1)] c by (simp add: d)
  have ne: "l \<noteq> []" using l(1) by (auto simp: ilist_def)
  have lt: "i < length l" using rank by (simp add: is_rank_def)
  have odd: "odd i \<longleftrightarrow> c \<in> us_chars s" using is_rank_inside [OF ilist_sorted [OF l(1)] rank] c
    by (simp add: us_chars_def inv_set_def d UNICODESET_LOW_def)
  define l' where "l' = add_char l i c"
  have l': "ilist l'" "inv_set l' = insert c (inv_set l)" if "even i"
    using add_char_toggles [OF l(1) c rank] odd that c unfolding l'_def
    by (auto simp: inv_set_def us_chars_def d UNICODESET_LOW_def)
  have len: "length l' \<le> length l + (if c = l ! i - 1 then (if c = UNICODESET_HIGH - 1 then 1 else 0) else 2)"
    using length_add_char rank by (simp add: l'_def is_rank_def)
  have len': "length l' = length l" if "c \<noteq> l ! i - 1" "i > 0 \<and> c = l ! (i - 1)"
    using that by (simp add: l'_def add_char_def)
  define grow where "grow = (if c = l ! i - 1 then
                 (if c = UNICODESET_HIGH - 1 then UnicodeSet_ensureCapacity e (us_len s + 1) s U_ZERO_ERROR
                  else (s, U_ZERO_ERROR))
               else if i > 0 \<and> c = l ! (i - 1) then (s, U_ZERO_ERROR)
               else UnicodeSet_ensureCapacity e (us_len s + 2) s U_ZERO_ERROR)"
  obtain s1 st where g: "grow = (s1, st)" by fastforce
  have cases: "\<not> U_FAILURE st \<and> s1 = s\<lparr>us_capacity := us_capacity s1\<rparr> \<and> int (length l') \<le> us_capacity s1 \<or>
      U_FAILURE st \<and> s1 = setToBogus s \<and> \<not> ample e"
    using g len len' l(2,3) us_ensureCapacity_cases [of e "us_len s + 1" s s1 st]
      us_ensureCapacity_cases [of e "us_len s + 2" s s1 st]
    unfolding grow_def by (auto split: if_splits)
  have i: "findCodePoint_reads l c = Some i" using ne by (simp add: findCodePoint_reads_eq d)
  have eq: "UnicodeSet_add_char e c0 s = (if odd i then Some s else if U_FAILURE st then Some s1
      else if int (length l') \<le> us_capacity s1 then Some (releasePattern (put_list l' s1)) else None)"
    unfolding UnicodeSet_add_char_def Let_def d(1) [symmetric] d(2) [symmetric] i option.case grow_def [symmetric] g l'_def
    using l(4,5) lt by simp
  show ?thesis
  proof (cases "odd i")
    case True
    then show ?thesis using eq odd s by (auto simp: outcome_def d insert_absorb)
  next
    case False
    from cases show ?thesis
    proof (elim disjE conjE)
      assume ok: "\<not> U_FAILURE st" "int (length l') \<le> us_capacity s1" and s1: "s1 = s\<lparr>us_capacity := us_capacity s1\<rparr>"
      then have "UnicodeSet_add_char e c0 s = Some (releasePattern (put_list l' s1))" using eq False by simp
      moreover have "outcome (\<not> ample e) (insert c (us_chars s)) (us_strs s) (releasePattern (put_list l' s1))"
        using s l' False ok(2) by (subst s1) (simp add: outcome_def thawed_def us_inv_def us_simps d(2))
      ultimately show ?thesis by (simp add: d)
    qed (use eq False setToBogus_outcome [OF s(1)] in simp)
  qed
qed

lemma pinned: "pin_range a b \<noteq> {} \<Longrightarrow> asc (range_array (pinCodePoint a) (pinCodePoint b)) \<and>
    inv_set (range_array (pinCodePoint a) (pinCodePoint b)) = pin_range a b \<and> int (length (range_array (pinCodePoint a) (pinCodePoint b))) \<le> 2 + 1"
  using range_array_spec [of "pinCodePoint a" "pinCodePoint b"] pinCodePoint_legal by (auto simp: pin_range_def)

lemma add_range_outcome:
  assumes s: "thawed s" "\<not> us_bogus s"
  shows "\<exists>s'. UnicodeSet_add_range e a b s = Some s' \<and> outcome (\<not> ample e) (us_chars s \<union> pin_range a b) (us_strs s) s'"
proof -
  consider "pinCodePoint a < pinCodePoint b" | "pinCodePoint a = pinCodePoint b" | "pinCodePoint a > pinCodePoint b" by linarith
  then show ?thesis
  proof cases
    case 1
    then have "pin_range a b \<noteq> {}" by (simp add: pin_range_def)
    from pinned [OF this] add_merge_outcome [OF s, of "range_array (pinCodePoint a) (pinCodePoint b)" 2 e] 1
    show ?thesis by (auto simp: UnicodeSet_add_range_def)
  next
    case 2
    then have "us_chars s \<union> pin_range a b = insert (pinCodePoint (pinCodePoint a)) (us_chars s)"
      using pinCodePoint_legal [of a] by (auto simp: pin_range_def)
    then show ?thesis using add_char_outcome [OF s, of e "pinCodePoint a"] 2 by (simp add: UnicodeSet_add_range_def)
  next
    case 3
    then show ?thesis using s outcome_same by (simp add: UnicodeSet_add_range_def pin_range_def)
  qed
qed

lemma retain_range_outcome:
  assumes s: "thawed s" "\<not> us_bogus s"
  shows "\<exists>s'. UnicodeSet_retain_range e a b s = Some s' \<and>
           outcome (\<not> ample e) (us_chars s \<inter> pin_range a b) (if pin_range a b = {} then {} else us_strs s) s'"
proof (cases "pinCodePoint a \<le> pinCodePoint b")
  case True
  then have ne: "pin_range a b \<noteq> {}" by (simp add: pin_range_def)
  from pinned [OF this] retain_merge_outcome(1) [OF s, of "range_array (pinCodePoint a) (pinCodePoint b)" 2 e] True
  show ?thesis using ne by (auto simp: UnicodeSet_retain_range_def)
next
  case False
  then show ?thesis using clear_spec [of s] s
    by (auto simp: UnicodeSet_retain_range_def pin_range_def outcome_def thawed_def)
qed

lemma remove_range_outcome:
  assumes s: "thawed s" "\<not> us_bogus s"
  shows "\<exists>s'. UnicodeSet_remove_range e a b s = Some s' \<and> outcome (\<not> ample e) (us_chars s - pin_range a b) (us_strs s) s'"
proof (cases "pinCodePoint a \<le> pinCodePoint b")
  case True
  then have ne: "pin_range a b \<noteq> {}" by (simp add: pin_range_def)
  from pinned [OF this] retain_merge_outcome(2) [OF s, of "range_array (pinCodePoint a) (pinCodePoint b)" 2 e] True
  show ?thesis by (auto simp: UnicodeSet_remove_range_def)
next
  case False
  then show ?thesis using s outcome_same by (simp add: UnicodeSet_remove_range_def pin_range_def)
qed

lemma complement_range_outcome:
  assumes s: "thawed s" "\<not> us_bogus s"
  shows "\<exists>s'. UnicodeSet_complement_range e a b s = Some s' \<and>
           outcome (\<not> ample e) ((us_chars s - pin_range a b) \<union> (pin_range a b - us_chars s)) (us_strs s) s'"
proof (cases "pinCodePoint a \<le> pinCodePoint b")
  case True
  then have ne: "pin_range a b \<noteq> {}" by (simp add: pin_range_def)
  from pinned [OF this] exclusiveOr_outcome [OF s, of "range_array (pinCodePoint a) (pinCodePoint b)" 2 e] True s
  show ?thesis by (auto simp: UnicodeSet_complement_range_def thawed_def isBogus_def intro: outcome_releasePattern)
next
  case False
  then show ?thesis using s outcome_releasePattern [OF outcome_same [of s]]
    by (simp add: UnicodeSet_complement_range_def pin_range_def thawed_def isBogus_def)
qed

lemma complement_outcome:
  assumes s: "thawed s" "\<not> us_bogus s"
  shows "\<exists>s'. UnicodeSet_complement e s = Some s' \<and>
           outcome (\<not> ample e) ({UNICODESET_LOW..<UNICODESET_HIGH} - us_chars s) (us_strs s) s'"
proof -
  define n :: int where "n = (if us_list s ! 0 = UNICODESET_LOW then -1 else 1)"
  have l: "ilist (us_list s)" "us_len s = int (length (us_list s))" "\<not> isFrozen s" using s by (auto simp: thawed_def us_inv_def)
  note c = complement_list_correct [OF l(1)]
  have "int (length (complement_list (us_list s))) \<le> us_len s + n"
    using l ilist_length [OF l(1)] by (auto simp: complement_list_def n_def)
  from merge_outcome [of s "\<lambda>l. Some (complement_list l)", OF s refl c this, of e]
  have "\<exists>s'. (case ensureBufferCapacity e (us_len s + n) s U_ZERO_ERROR of
                 (s1, status) \<Rightarrow> if U_FAILURE status then Some s1 else finish_merge (complement_list (us_list s1)) s1) = Some s' \<and>
              outcome (\<not> ample e) ({UNICODESET_LOW..<UNICODESET_HIGH} - us_chars s) (us_strs s) s'"
    unfolding us_chars_def bind.bind_lunit .
  moreover have "(if us_list s ! 0 = UNICODESET_LOW then us_len s - 1 else us_len s + 1) = us_len s + n" by (simp add: n_def)
  ultimately show ?thesis using l s thawed_not_null [OF s(1)] by (simp add: UnicodeSet_complement_def isBogus_def)
qed

section \<open>Strings\<close>

definition string_room :: "env \<Rightarrow> UnicodeSet \<Rightarrow> int \<Rightarrow> bool" where
  "string_room e s n \<longleftrightarrow> ample e \<and> string_count s + n \<le> 134217728"

lemma ensureCapacity_room:
  assumes "uvec_inv v" "\<And>n. grants h n" "ucount v \<le> 134217727"
  shows "fst (UVector_ensureCapacity h (ucount v + 1) v st)"
  using assms
  by (auto simp: UVector_ensureCapacity_def uvec_inv_def uprv_realloc_def Let_def sizeof_limit INT32_MAX_def sizeof_UElement_def)

lemma strs_view: "us_strings s = Some v \<Longrightarrow> us_strs s = {t. Some t \<in> set (uview v)}"
  by (simp add: us_strs_def)

lemma has_string_iff: "us_inv s \<Longrightarrow> has_string s t \<longleftrightarrow> t \<in> us_strs s"
  by (erule us_inv_strings) (simp add: has_string_def ucontains_iff us_strs_def)

lemma set_strings_thawed:
  "thawed s \<Longrightarrow> strings_inv v \<Longrightarrow> thawed (s\<lparr>us_strings := Some v\<rparr>)"
  by (simp add: thawed_def us_inv_def isFrozen_def)

lemma add_to_strings_outcome:
  assumes s: "thawed s" "\<not> us_bogus s" and t: "multi_char t" "t \<notin> us_strs s"
  shows "outcome (\<not> string_room e s 1) (us_chars s) (insert t (us_strs s)) (UnicodeSet_add_to_strings e t s)"
    "\<not> us_bogus (UnicodeSet_add_to_strings e t s) \<Longrightarrow>
       string_count (UnicodeSet_add_to_strings e t s) = string_count s + 1"
proof -
  obtain v where v: "us_strings s = Some v" "strings_inv v" "uvec_inv v"
    using s(1) us_inv_strings [of s] by (auto simp: thawed_def)
  obtain v' ec where r: "UVector_sortedInsert (vector_heap e) (Some t) compareUnicodeString v U_ZERO_ERROR = (v', ec)"
    by fastforce
  have fr: "\<not> isFrozen s" "\<not> isBogus s" using s by (auto simp: thawed_def isBogus_def)
  have room: "\<not> U_FAILURE ec" if "string_room e s 1" "new_ok e"
  proof -
    have "fst (UVector_ensureCapacity (vector_heap e) (ucount v + 1) v U_ZERO_ERROR)"
      using that ensureCapacity_room [OF v(3)] v(1) by (simp add: string_room_def string_count_def ample_def)
    then obtain v1 st1 where en: "UVector_ensureCapacity (vector_heap e) (ucount v + 1) v U_ZERO_ERROR = (True, v1, st1)"
      by (cases "UVector_ensureCapacity (vector_heap e) (ucount v + 1) v U_ZERO_ERROR") auto
    then have "ec = st1" using r by (auto simp: UVector_sortedInsert_def Let_def)
    then show ?thesis using uensureCapacity_cases [OF v(3) en] by simp
  qed
  have sp: "uvec_inv v' \<and>
      (sorted_wrt (\<lambda>a b. compareUnicodeString a b \<le> 0) (uview v') \<and> mset (uview v') = add_mset (Some t) (mset (uview v)) \<and>
       ec = U_ZERO_ERROR \<and> ucomparer v' = ucomparer v \<or> v' = v \<and> U_FAILURE ec)"
    using usortedInsert_spec [OF v(3) r _ compare_trans compare_flip] v(2) by (auto simp: strings_inv_def)
  have ok: "strings_inv v' \<and> {t. Some t \<in> set (uview v')} = insert t (us_strs s) \<and> ucount v' = ucount v + 1" if "\<not> U_FAILURE ec"
  proof -
    from sp that have m: "mset (uview v') = add_mset (Some t) (mset (uview v))" and o: "uvec_inv v'"
      "sorted_wrt (\<lambda>a b. compareUnicodeString a b \<le> 0) (uview v')" "ucomparer v' = ucomparer v" by auto
    have set: "set (uview v') = insert (Some t) (set (uview v))" using m by (metis set_mset_add_mset_insert set_mset_mset)
    moreover have "Some t \<notin> set (uview v)" using t(2) strs_view [OF v(1)] by simp
    then have "distinct (uview v')" using m v(2) mset_eq_imp_distinct_iff [of "uview v'" "Some t # uview v"]
      by (simp add: strings_inv_def)
    moreover have "length (uview v') = Suc (length (uview v))" using m by (metis size_add_mset size_mset)
    ultimately show ?thesis
      using o v t(1) length_uview [OF o(1)] length_uview [OF v(3)] strs_view [OF v(1)]
      by (auto simp: strings_inv_def uvec_inv_def)
  qed
  have eq: "UnicodeSet_add_to_strings e t s = (if \<not> new_ok e then setToBogus s
      else if U_FAILURE ec then setToBogus (s\<lparr>us_strings := Some v'\<rparr>) else s\<lparr>us_strings := Some v'\<rparr>)"
    using fr v(1) r by (simp add: UnicodeSet_add_to_strings_def Let_def)
  have fail: "v' = v" if "U_FAILURE ec" using sp that by auto
  show "outcome (\<not> string_room e s 1) (us_chars s) (insert t (us_strs s)) (UnicodeSet_add_to_strings e t s)"
  proof -
    have 1: ?thesis if "\<not> new_ok e"
    proof -
      have "\<not> string_room e s 1" using that by (simp add: string_room_def ample_def)
      then show ?thesis using that setToBogus_outcome [OF s(1)] by (simp add: eq)
    qed
    have 2: ?thesis if "new_ok e" "U_FAILURE ec"
    proof -
      have "\<not> string_room e s 1" using room that by blast
      then show ?thesis
        using that fail [OF that(2)] setToBogus_outcome [OF set_strings_thawed [OF s(1) v(2)]] by (simp add: eq)
    qed
    have 3: ?thesis if "new_ok e" "\<not> U_FAILURE ec"
      using that ok [OF that(2)] set_strings_thawed [OF s(1)] s by (simp add: eq outcome_def us_chars_def us_strs_def)
    from 1 2 3 show ?thesis by blast
  qed
  show "\<not> us_bogus (UnicodeSet_add_to_strings e t s) \<Longrightarrow>
       string_count (UnicodeSet_add_to_strings e t s) = string_count s + 1"
    unfolding eq using ok v(1) by (auto simp: string_count_def setToBogus_def split: if_splits)
qed

lemma remove_string_outcome:
  assumes s: "thawed s" "\<not> us_bogus s"
  shows "thawed (snd (remove_string_elem t s)) \<and> \<not> us_bogus (snd (remove_string_elem t s)) \<and>
         us_chars (snd (remove_string_elem t s)) = us_chars s \<and>
         us_strs (snd (remove_string_elem t s)) = us_strs s - {t} \<and>
         (fst (remove_string_elem t s) \<longleftrightarrow> t \<in> us_strs s) \<and>
         string_count (snd (remove_string_elem t s)) = string_count s - (if t \<in> us_strs s then 1 else 0)"
proof -
  obtain v where v: "us_strings s = Some v" "strings_inv v" "uvec_inv v" "eq_comparer v"
    using s(1) us_inv_strings [of s] by (auto simp: thawed_def)
  obtain b v' where r: "UVector_removeElement (Some t) v = (b, v')" by fastforce
  have v': "uvec_inv v'" "uview v' = remove1 (Some t) (uview v)" "b \<longleftrightarrow> Some t \<in> set (uview v)"
    using uremoveElement_spec [OF v(3,4) r] by auto
  have cmp: "ucomparer v' = ucomparer v" using r by (auto simp: UVector_removeElement_def Let_def split: if_splits)
  have d: "distinct (uview v)" using v(2) by (simp add: strings_inv_def)
  have set: "set (uview v') = set (uview v) - {Some t}" using v'(2) set_remove1_eq [OF d] by simp
  have "uview v' = filter (\<lambda>x. Some t \<noteq> x) (uview v)"
    using v'(2) d by (simp add: distinct_remove1_removeAll removeAll_filter_not_eq)
  then have "strings_inv v'"
    using v(2) v'(1) cmp by (auto simp: strings_inv_def sorted_wrt_filter)
  then have th: "thawed (s\<lparr>us_strings := Some v'\<rparr>)" by (rule set_strings_thawed [OF s(1)])
  have "length (uview v') = length (uview v) - (if Some t \<in> set (uview v) then 1 else 0)"
    using v'(2) by (simp add: length_remove1)
  moreover have "Some t \<in> set (uview v) \<Longrightarrow> 0 < length (uview v)" by (cases "uview v") auto
  ultimately have "ucount v' = ucount v - (if Some t \<in> set (uview v) then 1 else 0)"
    using length_uview [OF v'(1)] length_uview [OF v(3)] v'(1) v(3) by (auto simp: uvec_inv_def)
  then show ?thesis
    using th s v(1) r set v'(3) by (auto simp: remove_string_elem_def us_chars_def us_strs_def string_count_def)
qed

lemma single_cp_or_multi: "t \<noteq> [] \<Longrightarrow> getSingleCP t < 0 \<Longrightarrow> multi_char t"
  by (simp add: multi_char_def)

definition char_of :: "ustring \<Rightarrow> int set" where
  "char_of t = (if getSingleCP t < 0 then {} else {pinCodePoint (getSingleCP t)})"

definition str_of :: "ustring \<Rightarrow> ustring set" where
  "str_of t = (if getSingleCP t < 0 then {t} else {})"

lemma char_of_range: "\<not> getSingleCP t < 0 \<Longrightarrow> pin_range (getSingleCP t) (getSingleCP t) = char_of t"
  by (simp add: pin_range_def char_of_def)

lemma room_ample: "\<not> ample e \<Longrightarrow> \<not> string_room e s n"
  by (simp add: string_room_def)

lemma add_string_outcome:
  assumes s: "thawed s" "\<not> us_bogus s" and t: "t \<noteq> []"
  shows "\<exists>s'. UnicodeSet_add_string e t s = Some s' \<and>
           outcome (\<not> string_room e s 1) (us_chars s \<union> char_of t) (us_strs s \<union> str_of t) s'"
proof (cases "getSingleCP t < 0")
  case True
  have "has_string s t \<longleftrightarrow> t \<in> us_strs s" using has_string_iff s by (simp add: thawed_def)
  then show ?thesis
    using True s t thawed_not_null [OF s(1)] outcome_same [OF s] outcome_releasePattern [OF add_to_strings_outcome(1) [OF s single_cp_or_multi [OF t True]]]
    by (auto simp: UnicodeSet_add_string_def thawed_def isBogus_def char_of_def str_of_def insert_absorb)
next
  case False
  then show ?thesis using add_char_outcome [OF s, of e "getSingleCP t"] s t room_ample outcome_weaken
    by (fastforce simp: UnicodeSet_add_string_def thawed_def isBogus_def char_of_def str_of_def)
qed

lemma remove_string_op_outcome:
  assumes s: "thawed s" "\<not> us_bogus s" and t: "t \<noteq> []"
  shows "\<exists>s'. UnicodeSet_remove_string e t s = Some s' \<and>
           outcome (\<not> ample e) (us_chars s - char_of t) (us_strs s - str_of t) s'"
proof (cases "getSingleCP t < 0")
  case True
  then show ?thesis using remove_string_outcome [OF s, of t] s t thawed_not_null [OF s(1)]
      outcome_releasePattern [OF outcome_same, of "snd (remove_string_elem t s)"]
    by (auto simp: UnicodeSet_remove_string_def thawed_def isBogus_def char_of_def str_of_def)
next
  case False
  then show ?thesis using remove_range_outcome [OF s, of e "getSingleCP t" "getSingleCP t"] char_of_range [OF False] s t
    by (auto simp: UnicodeSet_remove_string_def thawed_def isBogus_def str_of_def)
qed

lemma complement_string_outcome:
  assumes s: "thawed s" "\<not> us_bogus s" and t: "t \<noteq> []"
  shows "\<exists>s'. UnicodeSet_complement_string e t s = Some s' \<and>
           outcome (\<not> string_room e s 1) ((us_chars s - char_of t) \<union> (char_of t - us_chars s))
             ((us_strs s - str_of t) \<union> (str_of t - us_strs s)) s'"
proof (cases "getSingleCP t < 0")
  case True
  have h: "has_string s t \<longleftrightarrow> t \<in> us_strs s" using has_string_iff s by (simp add: thawed_def)
  show ?thesis
  proof (cases "t \<in> us_strs s")
    case T: True
    then show ?thesis using True h s t thawed_not_null [OF s(1)] remove_string_outcome [OF s, of t]
        outcome_releasePattern [OF outcome_same, of "snd (remove_string_elem t s)"]
      by (auto simp: UnicodeSet_complement_string_def thawed_def isBogus_def char_of_def str_of_def)
  next
    case F: False
    then show ?thesis
      using True h s t thawed_not_null [OF s(1)] outcome_releasePattern [OF add_to_strings_outcome(1) [OF s single_cp_or_multi [OF t True] F]]
      by (auto simp: UnicodeSet_complement_string_def thawed_def isBogus_def char_of_def str_of_def)
  qed
next
  case False
  obtain s' where "UnicodeSet_complement_range e (getSingleCP t) (getSingleCP t) s = Some s'"
    "outcome (\<not> ample e) ((us_chars s - char_of t) \<union> (char_of t - us_chars s)) (us_strs s) s'"
    using complement_range_outcome [OF s, of e "getSingleCP t" "getSingleCP t"] char_of_range [OF False] by auto
  then show ?thesis using False s t outcome_weaken [of "\<not> ample e"] room_ample [of e]
    by (auto simp: UnicodeSet_complement_string_def thawed_def isBogus_def str_of_def)
qed

section \<open>Operations on whole sets\<close>

text \<open>The strings of a set as a list, in the order the loops visit them.\<close>

definition strs_list :: "ustring uvector \<Rightarrow> ustring list" where
  "strs_list v = map the (uview v)"

lemma strs_list_spec:
  assumes "strings_inv v"
  shows "distinct (strs_list v)" "\<forall>t \<in> set (strs_list v). multi_char t"
    "us_strings s = Some v \<Longrightarrow> set (strs_list v) = us_strs s"
    "int (length (strs_list v)) = ucount v"
    "map (\<lambda>i. the (UVector_elementAt v (int i))) [0..<nat (ucount v)] = strs_list v"
proof -
  have el: "\<forall>x \<in> set (uview v). \<exists>t. x = Some t \<and> multi_char t" and d: "distinct (uview v)" and inv: "uvec_inv v"
    using assms by (auto simp: strings_inv_def)
  have "inj_on the (set (uview v))" using el by (metis inj_onI option.sel)
  then show "distinct (strs_list v)" using d by (simp add: strs_list_def distinct_map)
  show "\<forall>t \<in> set (strs_list v). multi_char t" using el by (auto simp: strs_list_def)
  show "us_strings s = Some v \<Longrightarrow> set (strs_list v) = us_strs s"
    using el by (force simp: strs_list_def us_strs_def)
  show "int (length (strs_list v)) = ucount v" using length_uview [OF inv] inv by (simp add: strs_list_def uvec_inv_def)
  show "map (\<lambda>i. the (UVector_elementAt v (int i))) [0..<nat (ucount v)] = strs_list v"
    using length_uview [OF inv]
    by (intro nth_equalityI) (auto simp: strs_list_def UVector_elementAt_def nth_uview)
qed

lemma outcome_cases:
  assumes "outcome m C S s"
  obtains "thawed s" "\<not> us_bogus s" "us_chars s = C" "us_strs s = S"
  | "m" "thawed s" "us_bogus s" "us_chars s = {}" "us_strs s = {}"
  using assms by (auto simp: outcome_def)

lemma outcome_bogus: "m \<Longrightarrow> thawed s \<Longrightarrow> us_bogus s \<Longrightarrow> us_chars s = {} \<Longrightarrow> us_strs s = {} \<Longrightarrow> outcome m C S s"
  by (simp add: outcome_def)

lemma add_to_strings_bogus: "us_bogus s \<Longrightarrow> UnicodeSet_add_to_strings e t s = s"
  by (simp add: UnicodeSet_add_to_strings_def isBogus_def)

lemma add_strings_fold:
  assumes "outcome m C S s" "\<forall>t \<in> set ts. multi_char t" "\<not> m \<Longrightarrow> string_room e s (int (length ts))"
  shows "outcome m C (S \<union> set ts)
     (fold (\<lambda>t s. if \<not> has_string s t then UnicodeSet_add_to_strings e t s else s) ts s)"
  using assms
proof (induction ts arbitrary: S s)
  case (Cons t ts)
  let ?f = "\<lambda>t s. if \<not> has_string s t then UnicodeSet_add_to_strings e t s else s"
  have "outcome m C (S \<union> {t}) (?f t s) \<and> (\<not> m \<longrightarrow> string_room e (?f t s) (int (length ts)))"
    using Cons.prems(1)
  proof (cases rule: outcome_cases)
    case 1
    have h: "has_string s t \<longleftrightarrow> t \<in> S" using has_string_iff 1 by (auto simp: thawed_def)
    show ?thesis
    proof (cases "t \<in> S")
      case True
      then show ?thesis using h 1 Cons.prems(3) by (auto simp: outcome_def insert_absorb string_room_def)
    next
      case False
      have m: "multi_char t" "t \<notin> us_strs s" using Cons.prems(2) False 1 by auto
      have "\<not> string_room e s 1 \<Longrightarrow> m" using Cons.prems(3) by (cases m) (auto simp: string_room_def)
      then have o: "outcome m C (S \<union> {t}) (?f t s)"
        using add_to_strings_outcome(1) [OF 1(1,2) m, of e] h False 1 by (auto intro: outcome_weaken)
      then show ?thesis
        using add_to_strings_outcome(2) [OF 1(1,2) m, of e] Cons.prems(3) h False
        by (auto simp: string_room_def outcome_def)
    qed
  next
    case 2
    then show ?thesis by (simp add: add_to_strings_bogus outcome_bogus)
  qed
  with Cons.IH [of "S \<union> {t}" "?f t s"] Cons.prems(2) show ?case by simp
qed simp

lemma toggle_strings_fold:
  assumes "outcome m C S s" "\<forall>t \<in> set ts. multi_char t" "distinct ts" "\<not> m \<Longrightarrow> string_room e s (int (length ts))"
  shows "outcome m C ((S - set ts) \<union> (set ts - S))
     (fold (\<lambda>t s. case remove_string_elem t s of
                    (removed, s1) \<Rightarrow> if \<not> removed then UnicodeSet_add_to_strings e t s1 else s1) ts s)"
  using assms
proof (induction ts arbitrary: S s)
  case (Cons t ts)
  let ?f = "\<lambda>t s. case remove_string_elem t s of
                    (removed, s1) \<Rightarrow> if \<not> removed then UnicodeSet_add_to_strings e t s1 else s1"
  let ?s = "snd (remove_string_elem t s)"
  have "outcome m C ((S - {t}) \<union> ({t} - S)) (?f t s) \<and> (\<not> m \<longrightarrow> string_room e (?f t s) (int (length ts)))"
    using Cons.prems(1)
  proof (cases rule: outcome_cases)
    case 1
    note r = remove_string_outcome [OF 1(1,2), of t]
    show ?thesis
    proof (cases "t \<in> S")
      case True
      then show ?thesis using r 1 Cons.prems(4) by (auto simp: split_beta outcome_def string_room_def)
    next
      case False
      have m: "multi_char t" "t \<notin> us_strs ?s" using Cons.prems(2) r by auto
      have "\<not> string_room e ?s 1 \<Longrightarrow> m" using Cons.prems(4) r False 1 by (cases m) (auto simp: string_room_def)
      moreover have s: "thawed ?s" "\<not> us_bogus ?s" using r by auto
      ultimately have o: "outcome m C ((S - {t}) \<union> ({t} - S)) (?f t s)"
        using add_to_strings_outcome(1) [OF s m, of e] r False 1 outcome_weaken by (fastforce simp: split_beta)
      then show ?thesis
        using add_to_strings_outcome(2) [OF s m, of e] Cons.prems(4) r False 1
        by (auto simp: string_room_def outcome_def split_beta)
    qed
  next
    case 2
    obtain v where v: "us_strings s = Some v" "uvec_inv v" "eq_comparer v"
      using 2(2) us_inv_strings [of s] by (auto simp: thawed_def)
    then have "UVector_indexOf v (Some t) 0 < 0" using 2(5) uindexOf_neg_iff by (auto simp: us_strs_def)
    then have "remove_string_elem t s = (False, s)"
      using v(1) by (simp add: remove_string_elem_def UVector_removeElement_def)
    then show ?thesis using 2 by (simp add: add_to_strings_bogus outcome_bogus)
  qed
  moreover have "(((S - {t}) \<union> ({t} - S)) - set ts) \<union> (set ts - ((S - {t}) \<union> ({t} - S))) =
      (S - set (t # ts)) \<union> (set (t # ts) - S)" using Cons.prems(3) by auto
  ultimately show ?case using Cons.IH [of "(S - {t}) \<union> ({t} - S)" "?f t s"] Cons.prems(2,3) by simp
qed simp

lemma fold_over_strings:
  assumes "strings_inv v"
  shows "fold (\<lambda>i s. g (the (UVector_elementAt v (int i))) s) [0..<nat (ucount v)] s = fold g (strs_list v) s"
  unfolding strs_list_spec(5) [OF assms, symmetric] by (simp add: fold_map comp_def)

lemma us_inv_other:
  assumes "us_inv c"
  obtains v where "us_strings c = Some v" "strings_inv v" "uvec_inv v" "eq_comparer v"
    "asc (us_list c)" "int (length (us_list c)) \<le> us_len c + 1" "us_len c > 0" "us_list c \<noteq> []"
    "set (strs_list v) = us_strs c" "int (length (strs_list v)) = string_count c"
proof -
  obtain v where v: "us_strings c = Some v" "strings_inv v" "uvec_inv v" "eq_comparer v"
    using us_inv_strings [OF assms] .
  have l: "ilist (us_list c)" "us_len c = int (length (us_list c))" using assms by (auto simp: us_inv_def)
  show ?thesis
  proof (rule that [OF v])
    show "asc (us_list c)" by (rule ilist_asc [OF l(1)])
    show "int (length (us_list c)) \<le> us_len c + 1" using l by simp
    show "us_len c > 0" "us_list c \<noteq> []" using l ilist_length [OF l(1)] by auto
    show "set (strs_list v) = us_strs c" by (rule strs_list_spec(3) [OF v(2,1)])
    show "int (length (strs_list v)) = string_count c" using strs_list_spec(4) [OF v(2)] v(1) by (simp add: string_count_def)
  qed
qed

lemma string_count_card: "us_inv s \<Longrightarrow> string_count s = int (card (us_strs s))"
  by (erule us_inv_other) (metis distinct_card strs_list_spec(1))

lemma addAll_outcome:
  assumes s: "thawed s" "\<not> us_bogus s" and c: "us_inv c"
  shows "\<exists>s'. UnicodeSet_addAll e c s = Some s' \<and>
           outcome (\<not> string_room e s (string_count c)) (us_chars s \<union> us_chars c) (us_strs s \<union> us_strs c) s'"
proof -
  obtain v where v: "us_strings c = Some v" "strings_inv v" "asc (us_list c)" "int (length (us_list c)) \<le> us_len c + 1"
    "us_len c > 0" "us_list c \<noteq> []" "set (strs_list v) = us_strs c" "int (length (strs_list v)) = string_count c"
    using us_inv_other [OF c] by metis
  let ?m = "\<not> string_room e s (string_count c)"
  obtain s1 where s1: "UnicodeSet_add_merge e (us_list c) (us_len c) 0 s = Some s1"
    "outcome (\<not> ample e) (us_chars s \<union> us_chars c) (us_strs s) s1"
    using add_merge_outcome [OF s v(3,4)] by (auto simp: us_chars_def)
  have o: "outcome ?m (us_chars s \<union> us_chars c) (us_strs s) s1"
    using s1(2) room_ample by (rule outcome_weaken)
  have "string_room e s1 (int (length (strs_list v)))" if "\<not> ?m"
    using that v(8) s1(2) s(1) string_count_card by (auto simp: string_room_def outcome_def thawed_def)
  from add_strings_fold [OF o strs_list_spec(2) [OF v(2)] this]
  show ?thesis using s1(1) v fold_over_strings [OF v(2), of "\<lambda>t s. if \<not> has_string s t then UnicodeSet_add_to_strings e t s else s"]
    by (simp add: UnicodeSet_addAll_def add_strings_of_def Let_def)
qed

lemma complementAll_outcome:
  assumes s: "thawed s" "\<not> us_bogus s" and c: "us_inv c"
  shows "\<exists>s'. UnicodeSet_complementAll e c s = Some s' \<and>
           outcome (\<not> string_room e s (string_count c)) ((us_chars s - us_chars c) \<union> (us_chars c - us_chars s))
             ((us_strs s - us_strs c) \<union> (us_strs c - us_strs s)) s'"
proof -
  obtain v where v: "us_strings c = Some v" "strings_inv v" "asc (us_list c)" "int (length (us_list c)) \<le> us_len c + 1"
    "set (strs_list v) = us_strs c" "int (length (strs_list v)) = string_count c"
    using us_inv_other [OF c] by metis
  let ?m = "\<not> string_room e s (string_count c)" and ?C = "(us_chars s - us_chars c) \<union> (us_chars c - us_chars s)"
  obtain s1 where s1: "UnicodeSet_exclusiveOr e (us_list c) (us_len c) 0 s = Some s1" "outcome (\<not> ample e) ?C (us_strs s) s1"
    using exclusiveOr_outcome [OF s v(3,4)] by (auto simp: us_chars_def)
  have o: "outcome ?m ?C (us_strs s) s1" using s1(2) room_ample by (rule outcome_weaken)
  have "string_room e s1 (int (length (strs_list v)))" if "\<not> ?m"
    using that v(6) s1(2) s(1) string_count_card by (auto simp: string_room_def outcome_def thawed_def)
  from toggle_strings_fold [OF o strs_list_spec(2,1) [OF v(2)] this]
  show ?thesis
    using s1(1) v(1,5) s thawed_not_null [OF s(1)] fold_over_strings [OF v(2), of "\<lambda>t s. case remove_string_elem t s of
         (removed, s1) \<Rightarrow> if \<not> removed then UnicodeSet_add_to_strings e t s1 else s1"]
    by (simp add: UnicodeSet_complementAll_def toggle_strings_of_def Let_def thawed_def isBogus_def)
qed

text \<open>Filtering the strings of a set, whether or not the merge before it has failed.\<close>

lemma outcome_filter_strings:
  assumes o: "outcome m C S s" and v: "us_strings s = Some v" and w: "strings_inv w"
    "{t. Some t \<in> set (uview w)} = {t. Some t \<in> set (uview v)} \<inter> A"
  shows "outcome m C (S \<inter> A) (s\<lparr>us_strings := Some w\<rparr>)"
  using o
proof (cases rule: outcome_cases)
  case 1
  then show ?thesis using set_strings_thawed [OF 1(1) w(1)] w(2) v by (simp add: outcome_def us_chars_def us_strs_def)
next
  case 2
  then show ?thesis using set_strings_thawed [OF 2(2) w(1)] w(2) v
    by (intro outcome_bogus) (simp_all add: us_chars_def us_strs_def)
qed

lemma strings_inv_filter:
  assumes "strings_inv v" "uvec_inv w" "ucomparer w = ucomparer v" "uview w = filter P (uview v)"
  shows "strings_inv w"
  using assms by (auto simp: strings_inv_def sorted_wrt_filter)

lemma retainAll_outcome:
  assumes s: "thawed s" "\<not> us_bogus s" and c: "us_inv c"
  shows "\<exists>s'. UnicodeSet_retainAll e c s = Some s' \<and>
           outcome (\<not> ample e) (us_chars s \<inter> us_chars c) (us_strs s \<inter> us_strs c) s'"
proof -
  obtain w where w: "us_strings c = Some w" "uvec_inv w" "eq_comparer w" "asc (us_list c)" "int (length (us_list c)) \<le> us_len c + 1"
    using us_inv_other [OF c] by metis
  obtain s1 where s1: "UnicodeSet_retain_merge e (us_list c) (us_len c) 0 s = Some s1"
    "outcome (\<not> ample e) (us_chars s \<inter> us_chars c) (us_strs s) s1"
    using retain_merge_outcome(1) [OF s w(4,5)] by (auto simp: us_chars_def)
  have "us_inv s1" using s1(2) by (auto simp: outcome_def thawed_def)
  then obtain v where v: "us_strings s1 = Some v" "strings_inv v" "uvec_inv v"
    using us_inv_strings by metis
  obtain b v' where r: "UVector_retainAll w v = (b, v')" by fastforce
  have v': "uvec_inv v'" "ucomparer v' = ucomparer v" "uview v' = filter (\<lambda>x. x \<in> set (uview w)) (uview v)"
    using uretainAll_spec [OF v(3) w(2,3) r] by auto
  have "outcome (\<not> ample e) (us_chars s \<inter> us_chars c) (us_strs s \<inter> us_strs c) (s1\<lparr>us_strings := Some v'\<rparr>)"
    using strings_inv_filter [OF v(2) v'] v'(3) w(1) by (intro outcome_filter_strings [OF s1(2) v(1)]) (auto simp: us_strs_def)
  then show ?thesis using s1(1) v(1) w(1) r s thawed_not_null [OF s(1)] by (simp add: UnicodeSet_retainAll_def thawed_def isBogus_def)
qed

lemma fold_remove1_distinct:
  "distinct xs \<Longrightarrow> fold remove1 ys xs = filter (\<lambda>x. x \<notin> set ys) xs"
proof (induction ys arbitrary: xs)
  case (Cons y ys)
  then have "fold remove1 ys (remove1 y xs) = filter (\<lambda>x. x \<notin> set ys) (remove1 y xs)" by simp
  also have "\<dots> = filter (\<lambda>x. x \<notin> set (y # ys)) xs"
    using Cons.prems by (auto simp: distinct_remove1_removeAll removeAll_filter_not_eq intro: filter_cong)
  finally show ?case by simp
qed simp

lemma removeAll_comparer:
  "ucomparer (snd (UVector_removeAll w v)) = ucomparer v"
proof -
  have "ucomparer (snd (fold (\<lambda>i (changed, u). let j = UVector_indexOf_element u (uelements w ! i) 0 0 in
             if j \<ge> 0 then (True, UVector_removeElementAt j u) else (changed, u)) is p)) = ucomparer (snd p)" for "is" p
    by (induction "is" arbitrary: p) (auto simp: Let_def split_beta)
  from this [of _ "(False, v)"] show ?thesis unfolding UVector_removeAll_def by simp
qed

lemma removeAll_outcome:
  assumes s: "thawed s" "\<not> us_bogus s" and c: "us_inv c"
  shows "\<exists>s'. UnicodeSet_removeAll e c s = Some s' \<and>
           outcome (\<not> ample e) (us_chars s - us_chars c) (us_strs s - us_strs c) s'"
proof -
  obtain w where w: "us_strings c = Some w" "uvec_inv w" "asc (us_list c)" "int (length (us_list c)) \<le> us_len c + 1"
    using us_inv_other [OF c] by metis
  obtain s1 where s1: "UnicodeSet_retain_merge e (us_list c) (us_len c) 2 s = Some s1"
    "outcome (\<not> ample e) (us_chars s - us_chars c) (us_strs s) s1"
    using retain_merge_outcome(2) [OF s w(3,4)] by (auto simp: us_chars_def)
  have "us_inv s1" using s1(2) by (auto simp: outcome_def thawed_def)
  then obtain v where v: "us_strings s1 = Some v" "strings_inv v" "uvec_inv v" "eq_comparer v"
    using us_inv_strings by metis
  obtain b v' where r: "UVector_removeAll w v = (b, v')" by fastforce
  have v': "uvec_inv v'" "ucomparer v' = ucomparer v" "uview v' = filter (\<lambda>x. x \<notin> set (uview w)) (uview v)"
    using uremoveAll_spec [OF v(3,4) w(2) r] removeAll_comparer [of w v] r v(2) fold_remove1_distinct [of "uview v" "uview w"]
    by (auto simp: strings_inv_def)
  have "outcome (\<not> ample e) (us_chars s - us_chars c) (us_strs s \<inter> - us_strs c) (s1\<lparr>us_strings := Some v'\<rparr>)"
    using strings_inv_filter [OF v(2) v'] v'(3) w(1) by (intro outcome_filter_strings [OF s1(2) v(1)]) (auto simp: us_strs_def)
  then show ?thesis using s1(1) v(1) w(1) r s thawed_not_null [OF s(1)] by (simp add: UnicodeSet_removeAll_def thawed_def isBogus_def Diff_eq)
qed

section \<open>Queries\<close>

lemma contains_iff:
  assumes "us_inv s" "- 2147483648 \<le> c" "c < 2147483648"
  shows "UnicodeSet_contains s c \<longleftrightarrow> c \<in> us_chars s"
proof -
  have l: "ilist (us_list s)" using assms by (simp add: us_inv_def)
  have t: "tables_ok (us_list s) b" if "us_bmpSet s = Some b \<or> us_stringSpan s = Some b" for b
    using assms(1) that by (auto simp: us_inv_def)
  note b = BMPSet_contains_inside [OF l t assms(2,3)]
  have n: "odd (UnicodeSet_findCodePoint (us_list s) c) \<longleftrightarrow> c \<in> us_chars s" if "c < UNICODESET_HIGH"
  proof -
    have "0 \<le> c" if "inside c (us_list s)" using that inside_lower_le [of c "us_list s" 0] asc_bounds [OF ilist_asc [OF l]] by auto
    then show ?thesis using findCodePoint_odd [OF l that] that by (auto simp: us_chars_def inv_set_def UNICODESET_LOW_def)
  qed
  have h: "c \<notin> us_chars s" if "\<not> c < UNICODESET_HIGH" using that by (simp add: us_chars_def inv_set_def)
  show ?thesis
  proof (cases "us_bmpSet s")
    case (Some x)
    then show ?thesis using b by (simp add: UnicodeSet_contains_def us_chars_def)
  next
    case None
    then show ?thesis using b n h by (cases "us_stringSpan s") (auto simp: UnicodeSet_contains_def us_chars_def)
  qed
qed

lemma inv_set_ranges:
  "ilist l \<Longrightarrow> inv_set l = (\<Union>i \<in> {0..<getRangeCount l}. {getRangeStart l i..getRangeEnd l i}) \<and>
     (\<forall>i < getRangeCount l. 0 \<le> getRangeStart l i \<and> getRangeStart l i \<le> getRangeEnd l i \<and> getRangeEnd l i < UNICODESET_HIGH)"
proof (induction rule: ilist_induct)
  case (last s)
  then show ?case by (auto simp: inv_set_open getRangeCount_def getRangeStart_def getRangeEnd_def)
next
  case (range s t l)
  have suc: "getRangeStart (s # t # l) (Suc i) = getRangeStart l i" "getRangeEnd (s # t # l) (Suc i) = getRangeEnd l i" for i
    by (simp_all add: getRangeStart_def getRangeEnd_def)
  have zero: "getRangeStart (s # t # l) 0 = s" "getRangeEnd (s # t # l) 0 = t - 1" by (simp_all add: getRangeStart_def getRangeEnd_def)
  have cnt: "getRangeCount (s # t # l) = Suc (getRangeCount l)" by (simp add: getRangeCount_def)
  have "{0..<Suc n} = insert 0 (Suc ` {0..<n})" for n by (auto simp: image_iff less_Suc_eq_0_disj)
  then have "(\<Union>i \<in> {0..<getRangeCount (s # t # l)}. {getRangeStart (s # t # l) i..getRangeEnd (s # t # l) i}) =
      {s..t - 1} \<union> (\<Union>i \<in> {0..<getRangeCount l}. {getRangeStart l i..getRangeEnd l i})"
    by (simp add: cnt zero suc del: image_Suc_atLeastLessThan)
  also have "\<dots> = inv_set (s # t # l)" using inv_set_Cons2(1) [of s t l] range by auto
  finally show ?case using range by (auto simp: cnt zero suc less_Suc_eq_0_disj)
qed (simp add: inv_set_HIGH getRangeCount_def)

lemma containsAll_iff:
  assumes s: "us_inv s" and c: "us_inv c"
  shows "UnicodeSet_containsAll s c \<longleftrightarrow> us_chars c \<subseteq> us_chars s \<and> us_strs c \<subseteq> us_strs s"
    and "UnicodeSet_containsNone s c \<longleftrightarrow> us_chars c \<inter> us_chars s = {} \<and> us_strs c \<inter> us_strs s = {}"
proof -
  obtain v where v: "us_strings s = Some v" "strings_inv v" "uvec_inv v" "eq_comparer v" using us_inv_strings [OF s] .
  obtain w where w: "us_strings c = Some w" "strings_inv w" "uvec_inv w" "eq_comparer w" using us_inv_strings [OF c] .
  have l: "ilist (us_list s)" "ilist (us_list c)" using s c by (auto simp: us_inv_def)
  let ?R = "\<lambda>i. {getRangeStart (us_list c) i..getRangeEnd (us_list c) i}"
  note rc = inv_set_ranges [OF l(2)]
  have r: "contains_range (us_list s) (getRangeStart (us_list c) i) (getRangeEnd (us_list c) i) \<longleftrightarrow> ?R i \<subseteq> us_chars s"
    "containsNone_range (us_list s) (getRangeStart (us_list c) i) (getRangeEnd (us_list c) i) \<longleftrightarrow> ?R i \<inter> us_chars s = {}"
    if "i < getRangeCount (us_list c)" for i
    using contains_range_iff [OF l(1), of "getRangeStart (us_list c) i" "getRangeEnd (us_list c) i"] rc that
    by (auto simp: us_chars_def)
  have some: "\<forall>x \<in> set (uview w). \<exists>t. x = Some t" using w(2) by (auto simp: strings_inv_def)
  have "set (uview w) \<subseteq> set (uview v) \<longleftrightarrow> us_strs c \<subseteq> us_strs s" "set (uview w) \<inter> set (uview v) = {} \<longleftrightarrow> us_strs c \<inter> us_strs s = {}"
    using some v(1) w(1) by (fastforce simp: us_strs_def)+
  then show "UnicodeSet_containsAll s c \<longleftrightarrow> us_chars c \<subseteq> us_chars s \<and> us_strs c \<subseteq> us_strs s"
    "UnicodeSet_containsNone s c \<longleftrightarrow> us_chars c \<inter> us_chars s = {} \<and> us_strs c \<inter> us_strs s = {}"
    using r rc ucontainsAll_iff [OF v(3,4) w(3)] ucontainsNone_iff [OF v(3,4) w(3)] v(1) w(1)
    by (auto simp: UnicodeSet_containsAll_def UnicodeSet_containsNone_def list_all_iff us_chars_def)
qed

lemma size_card: "us_inv s \<Longrightarrow> UnicodeSet_size s = int (card (us_chars s)) + int (card (us_strs s))"
  using range_sizes_card [of "us_list s"] string_count_card [of s]
  by (simp add: UnicodeSet_size_def us_inv_def us_chars_def string_count_def)

lemma isEmpty_iff: "us_inv s \<Longrightarrow> UnicodeSet_isEmpty s \<longleftrightarrow> us_chars s = {} \<and> us_strs s = {}"
proof -
  assume s: "us_inv s"
  then have l: "ilist (us_list s)" "us_len s = int (length (us_list s))" by (auto simp: us_inv_def)
  have "us_len s = 1 \<longleftrightarrow> us_chars s = {}" using l(1)
  proof (cases rule: ilist_cases)
    case (3 a b l')
    have "a \<in> inv_set (us_list s)" using inv_set_Cons2(1) [of a b l'] 3 by simp
    then show ?thesis using 3 l(2) by (auto simp: us_chars_def)
  qed (use l(2) in \<open>auto simp: us_chars_def inv_set_HIGH inv_set_open\<close>)
  moreover have "finite (us_strs s)" using us_inv_other [OF s] by (metis List.finite_set)
  ultimately show ?thesis using string_count_card [OF s] by (simp add: UnicodeSet_isEmpty_def string_count_def)
qed

end
