(* ===== verification/UnicodeSetClaims.thy ===== *)
theory UnicodeSetClaims
  imports UnicodeSetProofs
begin

text \<open>
  The properties of \<^verbatim>\<open>UnicodeSet\<close>: canonical representation and equality, freezing, the index
  value test, and the set algebra as an interface with the class as its model.
\<close>

section \<open>The representation is canonical\<close>

lemma inside_step: "distinct l \<Longrightarrow> (inside x l \<noteq> inside (x - 1) l) \<longleftrightarrow> x \<in> set l"
proof (induction l)
  case (Cons a l)
  then show ?case by (cases "a = x") auto
qed simp

lemma ilist_unique:
  assumes l: "ilist l" "ilist l'" and eq: "inv_set l = inv_set l'"
  shows "l = l'"
proof -
  have i: "inside c l = inside c l'" if "legal c" for c
    using eq that unfolding inv_set_def by (auto simp: UNICODESET_LOW_def)
  have neg: "\<not> inside c k" if "ilist k" "c < 0" for c k
    using inside_lower_le [of c k 0] asc_bounds [OF ilist_asc [OF that(1)]] that(2) by auto
  have d: "sorted_wrt (<) k \<Longrightarrow> distinct k \<and> sorted k" for k :: "int list"
    by (simp add: strict_sorted_iff)
  have dl: "distinct l" "sorted l" "distinct l'" "sorted l'" using d ilist_sorted l by auto
  have mem: "x \<in> set l \<longleftrightarrow> x \<in> set l'" if "legal x" for x
    using inside_step [OF dl(1), of x] inside_step [OF dl(3), of x] i [OF that] i [of "x - 1"] neg l that
    by (cases "x = 0") auto
  have top: "UNICODESET_HIGH \<in> set l" "UNICODESET_HIGH \<in> set l'" using l by (metis ilist_def last_in_set)+
  have bound: "0 \<le> x \<and> x \<le> UNICODESET_HIGH" if "x \<in> set l \<or> x \<in> set l'" for x
    using that asc_bounds ilist_asc l by blast
  have "set l = set l'"
  proof (rule set_eqI)
    fix x show "x \<in> set l \<longleftrightarrow> x \<in> set l'"
      using mem [of x] top bound [of x] by (cases "x = UNICODESET_HIGH") force+
  qed
  then show ?thesis using dl by (intro sorted_distinct_set_unique)
qed

lemma sorted_wrt_unique:
  assumes "sorted_wrt P xs" "sorted_wrt P ys" "set xs = set ys" and "\<And>a b. P a b \<Longrightarrow> \<not> P b a"
  shows "xs = ys"
  using assms(1-3)
proof (induction xs arbitrary: ys)
  case (Cons x xs)
  then obtain y ys' where ys: "ys = y # ys'" by (cases ys) auto
  have irr: "\<not> P a a" for a using assms(4) by blast
  have "x = y"
  proof (rule ccontr)
    assume "x \<noteq> y"
    then have "x \<in> set ys'" "y \<in> set xs" using Cons.prems(3) ys by auto
    then have "P y x" "P x y" using Cons.prems(1,2) ys by auto
    then show False using assms(4) by blast
  qed
  moreover have "x \<notin> set xs" "y \<notin> set ys'" using Cons.prems(1,2) ys irr by auto
  ultimately have "set xs = set ys'" using Cons.prems(3) ys by auto
  then show ?case using Cons.IH [of ys'] Cons.prems ys \<open>x = y\<close> by simp
qed simp

lemma strings_unique:
  assumes v: "strings_inv v" "strings_inv w" and eq: "{t. Some t \<in> set (uview v)} = {t. Some t \<in> set (uview w)}"
  shows "uview v = uview w"
proof (rule sorted_wrt_unique)
  let ?P = "\<lambda>a b. compareUnicodeString a b \<le> 0 \<and> a \<noteq> b"
  have strict: "sorted_wrt ?P (uview u)" if "strings_inv u" for u
    using that by (auto simp: strings_inv_def sorted_wrt_iff_nth_less distinct_conv_nth)
  show "sorted_wrt ?P (uview v)" "sorted_wrt ?P (uview w)" using strict v by auto
  have some: "\<forall>x \<in> set (uview v) \<union> set (uview w). \<exists>t. x = Some t" using v by (auto simp: strings_inv_def)
  show "set (uview v) = set (uview w)"
  proof (rule set_eqI)
    fix x show "x \<in> set (uview v) \<longleftrightarrow> x \<in> set (uview w)" using some eq by (cases x) blast+
  qed
  show "\<not> ?P b a" if "?P a b" for a b
  proof (cases a; cases b)
    fix x y assume ab: "a = Some x" "b = Some y"
    then have "ustring_compare x y < 0" using that ustring_compare_eq [of x y] by auto
    then have "ustring_compare y x > 0" using ustring_compare_flip by blast
    then show ?thesis using ab by simp
  qed (use that in auto)
qed

lemma eq_iff_members:
  assumes s: "us_inv s" and c: "us_inv c"
  shows "UnicodeSet_eq s c \<longleftrightarrow> us_chars s = us_chars c \<and> us_strs s = us_strs c"
proof -
  obtain v where v: "us_strings s = Some v" "strings_inv v" "uvec_inv v" using us_inv_strings [OF s] by metis
  obtain w where w: "us_strings c = Some w" "strings_inv w" "uvec_inv w" using us_inv_strings [OF c] by metis
  have l: "ilist (us_list s)" "ilist (us_list c)" "us_len s = int (length (us_list s))" "us_len c = int (length (us_list c))"
    using s c by (auto simp: us_inv_def)
  have "us_len s = us_len c \<and> list_all (\<lambda>i. us_list s ! i = us_list c ! i) [0..<nat (us_len s)] \<longleftrightarrow> us_list s = us_list c"
    unfolding list_eq_iff_nth_eq [of "us_list s"] l(3,4) by (auto simp: list_all_iff)
  also have "\<dots> \<longleftrightarrow> us_chars s = us_chars c" using ilist_unique [OF l(1,2)] by (auto simp: us_chars_def)
  finally have 1: "us_len s = us_len c \<and> list_all (\<lambda>i. us_list s ! i = us_list c ! i) [0..<nat (us_len s)] \<longleftrightarrow>
      us_chars s = us_chars c" .
  have cmp: "ucomparer v = Some (=)" using v(2) by (simp add: strings_inv_def)
  have cnt: "ucount v = int (length (uview v))" "ucount w = int (length (uview w))"
    using length_uview [OF v(3)] length_uview [OF w(3)] v(3) w(3) by (auto simp: uvec_inv_def)
  have "UVector_eq v w \<longleftrightarrow> length (uview v) = length (uview w) \<and> (\<forall>i < length (uview v). uview v ! i = uview w ! i)"
    using cnt by (auto simp: UVector_eq_def cmp list_all_iff nth_uview)
  also have "\<dots> \<longleftrightarrow> uview v = uview w" by (rule list_eq_iff_nth_eq [symmetric])
  also have "\<dots> \<longleftrightarrow> us_strs s = us_strs c" using strings_unique [OF v(2) w(2)] v(1) w(1) by (auto simp: us_strs_def)
  finally show ?thesis using 1 v(1) w(1) by (auto simp: UnicodeSet_eq_def)
qed

section \<open>Freezing\<close>


section \<open>Construction\<close>


text \<open>A set with a given inversion list and no strings.\<close>

definition plain_set :: "int list \<Rightarrow> UnicodeSet" where
  "plain_set l =
     \<lparr>us_list = l, us_len = int (length l), us_capacity = int (length l) + 16, us_buffer = False, us_bufferCapacity = 0,
      us_strings = Some \<lparr>ucount = 0, ucapacity = 1, uelements = [None], udeleter = True, ucomparer = Some (=), udeleted = [], uinteger = (\<lambda>p. 0)\<rparr>,
      us_pat = None, us_bmpSet = None, us_stringSpan = None, us_bogus = False\<rparr>"

lemma plain_set_spec:
  "ilist l \<Longrightarrow> thawed (plain_set l) \<and> us_inv (plain_set l) \<and> \<not> us_bogus (plain_set l) \<and> us_chars (plain_set l) = inv_set l \<and>
     us_strs (plain_set l) = {} \<and> string_count (plain_set l) = 0"
  by (simp add: plain_set_def thawed_def us_inv_def us_simps strings_inv_def uvec_inv_def uview_def sizeof_limit string_count_def)

definition ample_env :: env where
  "ample_env = \<lparr>array_heap = \<lparr>grants = (\<lambda>n. True), junk = 0\<rparr>, vector_heap = \<lparr>grants = (\<lambda>n. True), junk = None\<rparr>,
     new_ok = True, span_ok = True, string_integer = (\<lambda>p. 0)\<rparr>"

lemma ample_env [simp]: "ample ample_env"
  by (simp add: ample_env_def ample_def)


text \<open>
  A constructor that could not allocate leaves \<^verbatim>\<open>list\<close> as \<^verbatim>\<open>NULL\<close>, and not even bogus when it was the vector of strings
  that failed; adding a code point then dereferences \<^verbatim>\<open>NULL\<close>.
\<close>

lemma add_after_failed_constructor:
  "us_list (UnicodeSet_new (ample_env\<lparr>new_ok := False\<rparr>)) = [] \<and> \<not> us_bogus (UnicodeSet_new (ample_env\<lparr>new_ok := False\<rparr>)) \<and>
   (us_list (UnicodeSet_new e) = [] \<longrightarrow> UnicodeSet_add_char e' c (UnicodeSet_new e) = None)"
  by (simp add: UnicodeSet_new_def allocateStrings_def blank_set_def UnicodeSet_add_char_def findCodePoint_reads_eq Let_def)

section \<open>Reachable sets\<close>













section \<open>Index values\<close>

definition range_matches :: "int \<Rightarrow> int \<Rightarrow> int \<Rightarrow> bool" where
  "range_matches low high v =
     (if low div 256 = high div 256 then low mod 256 \<le> v \<and> v \<le> high mod 256
      else low mod 256 \<le> v \<or> v \<le> high mod 256)"

text \<open>The test never accepts a byte in vain, and is exact for ranges that contain no whole row of 256.\<close>

lemma range_matches_iff:
  assumes v: "0 \<le> v" "v < 256" and r: "low \<le> high"
  shows "range_matches low high v \<Longrightarrow> \<exists>c \<in> {low..high}. c mod 256 = v"
    and "high div 256 \<le> low div 256 + 1 \<Longrightarrow> c \<in> {low..high} \<Longrightarrow> c mod 256 = v \<Longrightarrow> range_matches low high v"
proof -
  define a x b y where ax: "a = low div 256" "x = low mod 256" "b = high div 256" "y = high mod 256"
  have d: "low = 256 * a + x" "high = 256 * b + y" "0 \<le> x" "x < 256" "0 \<le> y" "y < 256" "a \<le> b"
    using zdiv_mono1 [OF r, of 256] by (simp_all add: ax)
  have rm: "range_matches low high v \<longleftrightarrow> (if a = b then x \<le> v \<and> v \<le> y else x \<le> v \<or> v \<le> y)"
    by (simp add: range_matches_def ax)
  have m: "(256 * k + v) mod 256 = v" for k using v by simp
  show "\<exists>c \<in> {low..high}. c mod 256 = v" if "range_matches low high v"
  proof (cases "x \<le> v")
    case True
    have "256 * a + v \<in> {low..high}" using that True d v unfolding rm by (cases "a = b") auto
    then show ?thesis using m by blast
  next
    case False
    have "256 * b + v \<in> {low..high}" using that False d v unfolding rm by (cases "a = b") auto
    then show ?thesis using m by blast
  qed
  show "range_matches low high v" if "high div 256 \<le> low div 256 + 1" "c \<in> {low..high}" "c mod 256 = v"
  proof -
    define k where "k = c div 256"
    have c: "c = 256 * k + v" using that(3) mult_div_mod_eq [of 256 c] by (simp only: k_def)
    have "a \<le> k" "k \<le> b" unfolding ax k_def using that(2) zdiv_mono1 [of low c 256] zdiv_mono1 [of c high 256] by auto
    moreover have "b \<le> a + 1" unfolding ax by (rule that(1))
    ultimately consider "k = a" | "k = b" by linarith
    then show ?thesis using that(2) c d unfolding rm by cases auto
  qed
qed

lemma matchesIndexValue_eq:
  assumes "us_inv s"
  shows "matchesIndexValue s v \<longleftrightarrow>
     (\<exists>i < getRangeCount (us_list s). range_matches (getRangeStart (us_list s) i) (getRangeEnd (us_list s) i) v) \<or>
     (\<exists>t \<in> us_strs s. fst (hd (code_points t)) mod 256 = v)"
proof -
  obtain w where w: "us_strings s = Some w" "strings_inv w" using us_inv_strings [OF assms] by metis
  have "us_strs s = (\<lambda>i. the (UVector_elementAt w (int i))) ` {0..<nat (ucount w)}"
    unfolding strs_list_spec(3) [OF w(2,1), symmetric] strs_list_spec(5) [OF w(2), symmetric] by simp
  then show ?thesis
    by (simp add: matchesIndexValue_def range_matches_def list_ex_iff Let_def w(1) Bex_def)
qed

lemma getSingleCP_legal:
  assumes "\<forall>u \<in> set t. 0 \<le> u \<and> u \<le> 0xffff" "\<not> getSingleCP t < 0"
  shows "0 \<le> getSingleCP t \<and> getSingleCP t < UNICODESET_HIGH"
proof -
  consider "t = []" | a where "t = [a]" | a b where "t = [a, b]" | "length t > 2"
    by (cases t; cases "tl t"; cases "tl (tl t)") auto
  then show ?thesis using assms
    by cases (auto simp: getSingleCP_def UNICODESET_HIGH_def is_lead_def is_trail_def get_supplementary_def Let_def split: if_splits)
qed

section \<open>Set algebra as an interface\<close>

text \<open>
  What a client of a set class relies on: two-argument operations that update their second
  argument. The lemmas below hold for every provider.
\<close>

locale set_class =
  fixes valid :: "'s \<Rightarrow> bool" and members :: "'s \<Rightarrow> 'm set"
    and addAll retainAll removeAll complementAll :: "'s \<Rightarrow> 's \<Rightarrow> 's option"
    and same :: "'s \<Rightarrow> 's \<Rightarrow> bool"
  assumes addAll: "valid c \<Longrightarrow> valid s \<Longrightarrow> \<exists>s'. addAll c s = Some s' \<and> valid s' \<and> members s' = members s \<union> members c"
    and retainAll: "valid c \<Longrightarrow> valid s \<Longrightarrow> \<exists>s'. retainAll c s = Some s' \<and> valid s' \<and> members s' = members s \<inter> members c"
    and removeAll: "valid c \<Longrightarrow> valid s \<Longrightarrow> \<exists>s'. removeAll c s = Some s' \<and> valid s' \<and> members s' = members s - members c"
    and complementAll: "valid c \<Longrightarrow> valid s \<Longrightarrow> \<exists>s'. complementAll c s = Some s' \<and> valid s' \<and>
          members s' = (members s - members c) \<union> (members c - members s)"
    and same: "valid s \<Longrightarrow> valid t \<Longrightarrow> same s t \<longleftrightarrow> members s = members t"
begin

lemma complement_twice:
  assumes "valid c" "valid s"
  shows "\<exists>s1 s2. complementAll c s = Some s1 \<and> complementAll c s1 = Some s2 \<and> same s2 s"
proof -
  obtain s1 where 1: "complementAll c s = Some s1" "valid s1" "members s1 = (members s - members c) \<union> (members c - members s)"
    using complementAll [OF assms] by blast
  obtain s2 where 2: "complementAll c s1 = Some s2" "valid s2" "members s2 = (members s1 - members c) \<union> (members c - members s1)"
    using complementAll [OF assms(1) 1(2)] by blast
  have "same s2 s" using same [OF 2(2) assms(2)] 1(3) 2(3) by auto
  then show ?thesis using 1 2 by blast
qed

lemma retain_by_removal:
  assumes "valid c" "valid s"
  shows "\<exists>d s1 s2. removeAll c s = Some d \<and> removeAll d s = Some s1 \<and> retainAll c s = Some s2 \<and> same s1 s2"
proof -
  obtain d where d: "removeAll c s = Some d" "valid d" "members d = members s - members c" using removeAll [OF assms] by blast
  obtain s1 where 1: "removeAll d s = Some s1" "valid s1" "members s1 = members s - members d"
    using removeAll [OF d(2) assms(2)] by blast
  obtain s2 where 2: "retainAll c s = Some s2" "valid s2" "members s2 = members s \<inter> members c"
    using retainAll [OF assms] by blast
  have "same s1 s2" using same [OF 1(2) 2(2)] d(3) 1(3) 2(3) by auto
  then show ?thesis using d 1 2 by blast
qed

end

text \<open>Code point sets (no strings) where allocation does not fail.\<close>

definition cps_valid :: "UnicodeSet \<Rightarrow> bool" where
  "cps_valid s \<longleftrightarrow> thawed s \<and> \<not> us_bogus s \<and> us_strs s = {}"

lemma cps_room: "cps_valid s \<Longrightarrow> cps_valid c \<Longrightarrow> string_room ample_env s (string_count c) \<and> us_inv c"
  using string_count_card [of s] string_count_card [of c] by (simp add: cps_valid_def thawed_def string_room_def)

interpretation cps: set_class cps_valid us_chars "UnicodeSet_addAll ample_env" "UnicodeSet_retainAll ample_env"
  "UnicodeSet_removeAll ample_env" "UnicodeSet_complementAll ample_env" UnicodeSet_eq
proof
  fix s c :: UnicodeSet
  assume v: "cps_valid c" "cps_valid s"
  note r = cps_room [OF v(2,1)]
  have t: "thawed s" "\<not> us_bogus s" "us_inv c" and e: "us_strs s = {}" "us_strs c = {}"
    using v r by (auto simp: cps_valid_def)
  show "\<exists>s'. UnicodeSet_addAll ample_env c s = Some s' \<and> cps_valid s' \<and> us_chars s' = us_chars s \<union> us_chars c"
    using addAll_outcome [OF t, of ample_env] r e by (auto simp: outcome_def cps_valid_def)
  show "\<exists>s'. UnicodeSet_retainAll ample_env c s = Some s' \<and> cps_valid s' \<and> us_chars s' = us_chars s \<inter> us_chars c"
    using retainAll_outcome [OF t, of ample_env] e by (auto simp: outcome_def cps_valid_def)
  show "\<exists>s'. UnicodeSet_removeAll ample_env c s = Some s' \<and> cps_valid s' \<and> us_chars s' = us_chars s - us_chars c"
    using removeAll_outcome [OF t, of ample_env] e by (auto simp: outcome_def cps_valid_def)
  show "\<exists>s'. UnicodeSet_complementAll ample_env c s = Some s' \<and> cps_valid s' \<and>
      us_chars s' = us_chars s - us_chars c \<union> (us_chars c - us_chars s)"
    using complementAll_outcome [OF t, of ample_env] r e by (auto simp: outcome_def cps_valid_def)
next
  fix s t assume "cps_valid s" "cps_valid t"
  then show "UnicodeSet_eq s t \<longleftrightarrow> us_chars s = us_chars t" using eq_iff_members by (simp add: cps_valid_def thawed_def)
qed

section \<open>Properties\<close>

text \<open>Letters A-Z and a-z, and the sets the witnesses start from.\<close>

definition upper_list :: "int list" where
  "upper_list = [0x41, 0x5b, UNICODESET_HIGH]"

definition lower_list :: "int list" where
  "lower_list = [0x61, 0x7b, UNICODESET_HIGH]"

lemma sample_lists [simp]: "ilist upper_list" "ilist lower_list"
  by (auto simp: upper_list_def lower_list_def ilist_def UNICODESET_HIGH_def UNICODESET_LOW_def)

lemma sample_sets:
  "inv_set upper_list = {0x41..<0x5b}" "inv_set lower_list = {0x61..<0x7b}"
  using inv_set_Cons2(1) [of "0x41" "0x5b" "[UNICODESET_HIGH]"] inv_set_Cons2(1) [of "0x61" "0x7b" "[UNICODESET_HIGH]"]
    inv_set_HIGH
  by (simp_all add: upper_list_def lower_list_def UNICODESET_HIGH_def)

lemmas upper_set = plain_set_spec [OF sample_lists(1)]
lemmas lower_set = plain_set_spec [OF sample_lists(2)]

lemma sample_room [simp]: "string_room ample_env (plain_set upper_list) 0"
  using upper_set by (simp add: string_room_def)

text \<open>
  C2. \<^verbatim>\<open>addAll\<close> computes the union of two sets, code points and strings, for every set that is
  neither frozen nor bogus. It returns, keeps the invariant and stays inside its arrays; only where
  an allocation fails (or the vector of strings would exceed its limit) the set becomes bogus and empty.
\<close>

theorem addAll_is_union:
  assumes "thawed s" "\<not> us_bogus s" "us_inv c"
  shows "\<exists>s'. UnicodeSet_addAll e c s = Some s' \<and>
           outcome (\<not> string_room e s (string_count c)) (us_chars s \<union> us_chars c) (us_strs s \<union> us_strs c) s'"
  by (rule addAll_outcome [OF assms])

theorem addAll_is_union_witness:
  "\<exists>s'. UnicodeSet_addAll ample_env (plain_set lower_list) (plain_set upper_list) = Some s' \<and> us_inv s' \<and>
        us_chars s' = {0x41..<0x5b} \<union> {0x61..<0x7b}"
  using addAll_is_union [of "plain_set upper_list" "plain_set lower_list" ample_env] upper_set lower_set
  by (auto simp: outcome_def thawed_def sample_sets)

text \<open>
  C40. \<^verbatim>\<open>retainAll\<close> computes the intersection of two sets, code points and strings, for every set that is neither frozen nor
  bogus, and keeps the invariant; only where an allocation fails the set becomes bogus and empty.
\<close>

theorem retainAll_is_intersection:
  assumes "thawed s" "\<not> us_bogus s" "us_inv c"
  shows "\<exists>s'. UnicodeSet_retainAll e c s = Some s' \<and>
           outcome (\<not> ample e) (us_chars s \<inter> us_chars c) (us_strs s \<inter> us_strs c) s'"
  by (rule retainAll_outcome [OF assms])

theorem retainAll_is_intersection_witness:
  "\<exists>s'. UnicodeSet_retainAll ample_env (plain_set lower_list) (plain_set upper_list) = Some s' \<and> us_inv s' \<and> us_chars s' = {}"
  using retainAll_is_intersection [of "plain_set upper_list" "plain_set lower_list" ample_env] upper_set lower_set
  by (auto simp: outcome_def thawed_def sample_sets)

text \<open>
  \<^verbatim>\<open>removeAll\<close> computes the difference of two sets, code points and strings.
\<close>

theorem removeAll_is_difference:
  assumes "thawed s" "\<not> us_bogus s" "us_inv c"
  shows "\<exists>s'. UnicodeSet_removeAll e c s = Some s' \<and>
           outcome (\<not> ample e) (us_chars s - us_chars c) (us_strs s - us_strs c) s'"
  by (rule removeAll_outcome [OF assms])

theorem removeAll_is_difference_witness:
  "\<exists>s'. UnicodeSet_removeAll ample_env (plain_set lower_list) (plain_set upper_list) = Some s' \<and> us_inv s' \<and>
        us_chars s' = {0x41..<0x5b}"
  using removeAll_is_difference [of "plain_set upper_list" "plain_set lower_list" ample_env] upper_set lower_set
  by (auto simp: outcome_def thawed_def sample_sets)

text \<open>
  \<^verbatim>\<open>complementAll\<close> computes the symmetric difference of two sets, code points and strings.
\<close>

theorem complementAll_is_symmetric_difference:
  assumes "thawed s" "\<not> us_bogus s" "us_inv c"
  shows "\<exists>s'. UnicodeSet_complementAll e c s = Some s' \<and>
           outcome (\<not> string_room e s (string_count c)) ((us_chars s - us_chars c) \<union> (us_chars c - us_chars s))
             ((us_strs s - us_strs c) \<union> (us_strs c - us_strs s)) s'"
  by (rule complementAll_outcome [OF assms])

theorem complementAll_is_symmetric_difference_witness:
  "\<exists>s'. UnicodeSet_complementAll ample_env (plain_set upper_list) (plain_set upper_list) = Some s' \<and> us_inv s' \<and> us_chars s' = {}"
  using complementAll_is_symmetric_difference [of "plain_set upper_list" "plain_set upper_list" ample_env] upper_set
  by (auto simp: outcome_def thawed_def)

text \<open>
  \<^verbatim>\<open>complement()\<close> leaves exactly the code points 0..10FFFF that were not in the set.
\<close>

theorem complement_is_complement:
  assumes "thawed s" "\<not> us_bogus s"
  shows "\<exists>s'. UnicodeSet_complement e s = Some s' \<and>
           outcome (\<not> ample e) ({UNICODESET_LOW..<UNICODESET_HIGH} - us_chars s) (us_strs s) s'"
  by (rule complement_outcome [OF assms])

theorem complement_is_complement_witness:
  "\<exists>s'. UnicodeSet_complement ample_env (plain_set upper_list) = Some s' \<and> us_inv s' \<and> 0x41 \<notin> us_chars s' \<and> 0x61 \<in> us_chars s'"
  using complement_is_complement [of "plain_set upper_list" ample_env] upper_set
  by (auto simp: outcome_def thawed_def sample_sets UNICODESET_LOW_def UNICODESET_HIGH_def)

text \<open>
  C5. \<^verbatim>\<open>add(c)\<close>, the in-place edit of the list around the position the search returns, adds exactly
  the pinned code point, whichever of its branches is taken, to a set that is neither frozen nor bogus; where memory is
  refused the set is bogus and empty.
\<close>

theorem add_char_adds_it:
  assumes "thawed s" "\<not> us_bogus s"
  shows "\<exists>s'. UnicodeSet_add_char e c s = Some s' \<and>
           outcome (\<not> ample e) (insert (pinCodePoint c) (us_chars s)) (us_strs s) s'"
  by (rule add_char_outcome [OF assms])

theorem add_char_adds_it_witness:
  "\<exists>s'. UnicodeSet_add_char ample_env 0x5b (plain_set upper_list) = Some s' \<and> us_inv s' \<and> us_chars s' = insert 0x5b {0x41..<0x5b}"
  using add_char_adds_it [of "plain_set upper_list" ample_env "0x5b"] upper_set
  by (auto simp: outcome_def thawed_def sample_sets pinCodePoint_def UNICODESET_LOW_def UNICODESET_HIGH_def)

text \<open>
  The range operations \<^verbatim>\<open>add\<close>, \<^verbatim>\<open>retain\<close>, \<^verbatim>\<open>remove\<close> and \<^verbatim>\<open>complement\<close> of \<^verbatim>\<open>start..end\<close> act as union,
  intersection, difference and symmetric difference with the pinned range, which is empty
  when \<open>start\<close> exceeds \<open>end\<close>.
\<close>

theorem range_operations:
  assumes "thawed s" "\<not> us_bogus s"
  shows "(\<exists>s'. UnicodeSet_add_range e a b s = Some s' \<and> outcome (\<not> ample e) (us_chars s \<union> pin_range a b) (us_strs s) s') \<and>
         (\<exists>s'. UnicodeSet_retain_range e a b s = Some s' \<and>
            outcome (\<not> ample e) (us_chars s \<inter> pin_range a b) (if pin_range a b = {} then {} else us_strs s) s') \<and>
         (\<exists>s'. UnicodeSet_remove_range e a b s = Some s' \<and> outcome (\<not> ample e) (us_chars s - pin_range a b) (us_strs s) s') \<and>
         (\<exists>s'. UnicodeSet_complement_range e a b s = Some s' \<and>
            outcome (\<not> ample e) ((us_chars s - pin_range a b) \<union> (pin_range a b - us_chars s)) (us_strs s) s')"
  using add_range_outcome [OF assms] retain_range_outcome [OF assms] remove_range_outcome [OF assms]
    complement_range_outcome [OF assms] by blast

theorem range_operations_witness:
  "\<exists>s'. UnicodeSet_remove_range ample_env 0x41 0x50 (plain_set upper_list) = Some s' \<and> us_inv s' \<and> us_chars s' = {0x51..<0x5b}"
  using range_operations [of "plain_set upper_list" ample_env "0x41" "0x50"] upper_set
  by (auto simp: outcome_def thawed_def sample_sets pin_range_def pinCodePoint_def UNICODESET_LOW_def UNICODESET_HIGH_def)





text \<open>
  C35. \<^verbatim>\<open>operator==\<close>, which compares the arrays entry by entry and the vectors of strings, decides equality
  of the represented sets: an inversion list and a sorted vector are canonical.
\<close>

theorem operator_eq_decides_equality:
  assumes "us_inv s" "us_inv c"
  shows "UnicodeSet_eq s c \<longleftrightarrow> us_chars s = us_chars c \<and> us_strs s = us_strs c"
  by (rule eq_iff_members [OF assms])

theorem operator_eq_decides_equality_witness:
  "UnicodeSet_eq (plain_set upper_list) (plain_set upper_list) \<and> \<not> UnicodeSet_eq (plain_set upper_list) (plain_set lower_list)"
proof -
  have "0x41 \<in> us_chars (plain_set upper_list)" "0x41 \<notin> us_chars (plain_set lower_list)"
    using upper_set lower_set by (auto simp: sample_sets)
  then show ?thesis
    using operator_eq_decides_equality [of "plain_set upper_list" "plain_set upper_list"]
      operator_eq_decides_equality [of "plain_set upper_list" "plain_set lower_list"] upper_set lower_set by blast
qed

text \<open>
  \<^verbatim>\<open>charAt\<close> and \<^verbatim>\<open>indexOf\<close> are inverse: \<^verbatim>\<open>indexOf(charAt(k))\<close> is \<open>k\<close> for every index of the set and
  \<^verbatim>\<open>charAt(indexOf(c))\<close> is \<open>c\<close> for every member; outside both return -1.
\<close>

theorem charAt_indexOf_inverse:
  assumes l: "ilist l"
  shows "(0 \<le> k \<and> k < int (card (inv_set l)) \<longrightarrow> UnicodeSet_indexOf l (UnicodeSet_charAt l k) = Some k) \<and>
    (c \<in> inv_set l \<longrightarrow> (\<exists>i. UnicodeSet_indexOf l c = Some i \<and> UnicodeSet_charAt l i = c)) \<and>
    (\<not> (0 \<le> k \<and> k < int (card (inv_set l))) \<longrightarrow> UnicodeSet_charAt l k = -1) \<and>
    (c \<notin> inv_set l \<longrightarrow> UnicodeSet_indexOf l c = Some (-1))"
proof (intro conjI impI)
  let ?k = "int (card {x \<in> inv_set l. x < c})"
  note at = UnicodeSet_charAt_spec [OF l]
  show "UnicodeSet_indexOf l (UnicodeSet_charAt l k) = Some k" if "0 \<le> k \<and> k < int (card (inv_set l))"
    using at(1) [OF that] UnicodeSet_indexOf_spec [OF l] by simp
  have fin: "finite (inv_set l)" unfolding inv_set_def by (rule finite_subset [of _ "{UNICODESET_LOW..<UNICODESET_HIGH}"]) auto
  show "\<exists>i. UnicodeSet_indexOf l c = Some i \<and> UnicodeSet_charAt l i = c" if c: "c \<in> inv_set l"
  proof -
    have "card {x \<in> inv_set l. x < c} < card (inv_set l)" using c fin by (intro psubset_card_mono) auto
    then have "UnicodeSet_charAt l ?k \<in> inv_set l" "card {x \<in> inv_set l. x < UnicodeSet_charAt l ?k} = card {x \<in> inv_set l. x < c}"
      using at(1) [of ?k] by simp_all
    then show ?thesis using count_below_inj [OF fin] c UnicodeSet_indexOf_spec [OF l, of c] by simp
  qed
qed (use UnicodeSet_charAt_spec(2) [OF l] UnicodeSet_indexOf_spec [OF l] in auto)

theorem charAt_indexOf_inverse_witness:
  "\<exists>i. UnicodeSet_indexOf upper_list 0x43 = Some i \<and> UnicodeSet_charAt upper_list i = 0x43"
  using charAt_indexOf_inverse [of upper_list 0 "0x43"] by (simp add: sample_sets)

text \<open>
  \<^verbatim>\<open>size()\<close> is the number of code points and strings of the set, and \<^verbatim>\<open>isEmpty()\<close> holds exactly if it is 0.
\<close>

theorem size_counts_members:
  assumes "us_inv s"
  shows "UnicodeSet_size s = int (card (us_chars s)) + int (card (us_strs s)) \<and>
         (UnicodeSet_isEmpty s \<longleftrightarrow> us_chars s = {} \<and> us_strs s = {})"
  using size_card [OF assms] isEmpty_iff [OF assms] by simp

theorem size_counts_members_witness:
  "UnicodeSet_size (plain_set upper_list) = 26 \<and> \<not> UnicodeSet_isEmpty (plain_set upper_list)"
  using size_counts_members [of "plain_set upper_list"] upper_set by (auto simp: sample_sets)

text \<open>
  \<^verbatim>\<open>containsAll\<close> decides inclusion and \<^verbatim>\<open>containsNone\<close> disjointness, of code points and strings.
\<close>

theorem containsAll_decides_inclusion:
  assumes "us_inv s" "us_inv c"
  shows "(UnicodeSet_containsAll s c \<longleftrightarrow> us_chars c \<subseteq> us_chars s \<and> us_strs c \<subseteq> us_strs s) \<and>
         (UnicodeSet_containsNone s c \<longleftrightarrow> us_chars c \<inter> us_chars s = {} \<and> us_strs c \<inter> us_strs s = {})"
  using containsAll_iff [OF assms] by simp

theorem containsAll_decides_inclusion_witness:
  "UnicodeSet_containsAll (plain_set upper_list) (plain_set upper_list) \<and>
   UnicodeSet_containsNone (plain_set upper_list) (plain_set lower_list)"
  using containsAll_decides_inclusion [of "plain_set upper_list" "plain_set upper_list"]
    containsAll_decides_inclusion [of "plain_set upper_list" "plain_set lower_list"] upper_set lower_set
  by (auto simp: sample_sets)

text \<open>
  \<^verbatim>\<open>add\<close>, \<^verbatim>\<open>remove\<close> and \<^verbatim>\<open>complement\<close> of a non-empty string act on the code point if the string is a single
  one and on the sorted vector of strings otherwise.
\<close>

theorem string_operations:
  assumes "thawed s" "\<not> us_bogus s" "t \<noteq> []"
  shows "(\<exists>s'. UnicodeSet_add_string e t s = Some s' \<and>
           outcome (\<not> string_room e s 1) (us_chars s \<union> char_of t) (us_strs s \<union> str_of t) s') \<and>
    (\<exists>s'. UnicodeSet_remove_string e t s = Some s' \<and> outcome (\<not> ample e) (us_chars s - char_of t) (us_strs s - str_of t) s') \<and>
    (\<exists>s'. UnicodeSet_complement_string e t s = Some s' \<and>
           outcome (\<not> string_room e s 1) ((us_chars s - char_of t) \<union> (char_of t - us_chars s))
             ((us_strs s - str_of t) \<union> (str_of t - us_strs s)) s')"
  using add_string_outcome [OF assms] remove_string_op_outcome [OF assms] complement_string_outcome [OF assms] by blast

theorem string_operations_witness:
  "\<exists>s'. UnicodeSet_add_string ample_env [0x61, 0x62] (plain_set upper_list) = Some s' \<and> us_inv s' \<and> us_strs s' = {[0x61, 0x62]}"
proof -
  have "string_room ample_env (plain_set upper_list) 1" using upper_set by (simp add: string_room_def)
  then show ?thesis
    using string_operations [of "plain_set upper_list" "[0x61, 0x62]" ample_env] upper_set
    by (auto simp: outcome_def thawed_def str_of_def getSingleCP_def is_lead_def)
qed

text \<open>
  Laws of the set class for sets of code points: complementing twice by the same set gives back
  an equal set, and removing what \<^verbatim>\<open>removeAll\<close> leaves gives the set that \<^verbatim>\<open>retainAll\<close> computes.
\<close>

theorem set_laws:
  assumes "cps_valid c" "cps_valid s"
  shows "(\<exists>s1 s2. UnicodeSet_complementAll ample_env c s = Some s1 \<and> UnicodeSet_complementAll ample_env c s1 = Some s2 \<and>
            UnicodeSet_eq s2 s) \<and>
         (\<exists>d s1 s2. UnicodeSet_removeAll ample_env c s = Some d \<and> UnicodeSet_removeAll ample_env d s = Some s1 \<and>
            UnicodeSet_retainAll ample_env c s = Some s2 \<and> UnicodeSet_eq s1 s2)"
  using cps.complement_twice [OF assms] cps.retain_by_removal [OF assms] by blast

theorem set_laws_witness:
  "\<exists>s1 s2. UnicodeSet_complementAll ample_env (plain_set lower_list) (plain_set upper_list) = Some s1 \<and>
     UnicodeSet_complementAll ample_env (plain_set lower_list) s1 = Some s2 \<and> UnicodeSet_eq s2 (plain_set upper_list)"
  using set_laws [of "plain_set lower_list" "plain_set upper_list"] upper_set lower_set by (simp add: cps_valid_def)

text \<open>
  \<^verbatim>\<open>matchesIndexValue\<close> reports no byte in vain: if it accepts \<open>v\<close>, a member code point or the first
  code point of a member string has the low byte \<open>v\<close>. It is not complete: a range that
  contains a whole row of 256 code points has every low byte, and the test still rejects some.
\<close>

theorem matchesIndexValue_sound_incomplete:
  "(us_inv s \<longrightarrow> 0 \<le> v \<and> v < 256 \<longrightarrow> matchesIndexValue s v \<longrightarrow>
      (\<exists>c \<in> us_chars s. c mod 256 = v) \<or> (\<exists>t \<in> us_strs s. fst (hd (code_points t)) mod 256 = v)) \<and>
   (let s0 = plain_set [0x180, 0x311, UNICODESET_HIGH] in
      us_inv s0 \<and> 0x250 \<in> us_chars s0 \<and> 0x250 mod 256 = (0x50::int) \<and> \<not> matchesIndexValue s0 0x50)"
proof -
  have 1: "(\<exists>c \<in> us_chars s. c mod 256 = v) \<or> (\<exists>t \<in> us_strs s. fst (hd (code_points t)) mod 256 = v)"
    if s: "us_inv s" and v: "0 \<le> v" "v < 256" and m: "matchesIndexValue s v"
  proof -
    have l: "ilist (us_list s)" using s by (simp add: us_inv_def)
    have "\<exists>c \<in> us_chars s. c mod 256 = v"
      if i: "i < getRangeCount (us_list s)" and r: "range_matches (getRangeStart (us_list s) i) (getRangeEnd (us_list s) i) v" for i
    proof -
      have "getRangeStart (us_list s) i \<le> getRangeEnd (us_list s) i"
        and sub: "{getRangeStart (us_list s) i..getRangeEnd (us_list s) i} \<subseteq> us_chars s"
        using i inv_set_ranges [OF l] by (auto simp: us_chars_def)
      then show ?thesis using range_matches_iff(1) [OF v _ r] by blast
    qed
    then show ?thesis using m matchesIndexValue_eq [OF s] by blast
  qed
  let ?l = "[0x180, 0x311, UNICODESET_HIGH]"
  have il: "ilist ?l" by (auto simp: ilist_def UNICODESET_HIGH_def UNICODESET_LOW_def)
  have "\<not> matchesIndexValue (plain_set ?l) 0x50"
    by (simp add: matchesIndexValue_def plain_set_def getRangeCount_def getRangeStart_def getRangeEnd_def)
  moreover have "0x250 \<in> inv_set ?l" by (simp add: inv_set_def UNICODESET_HIGH_def UNICODESET_LOW_def)
  ultimately show ?thesis using 1 plain_set_spec [OF il] by (simp add: Let_def)
qed

theorem matchesIndexValue_sound_incomplete_witness:
  "matchesIndexValue (plain_set upper_list) 0x41 \<and> (\<exists>c \<in> us_chars (plain_set upper_list). c mod 256 = 0x41)"
proof -
  have "matchesIndexValue (plain_set upper_list) 0x41"
    by (simp add: matchesIndexValue_def plain_set_def upper_list_def getRangeCount_def getRangeStart_def getRangeEnd_def)
  then show ?thesis using matchesIndexValue_sound_incomplete [of "plain_set upper_list" "0x41"] upper_set by auto
qed

text \<open>
  \<^verbatim>\<open>contains\<close> of a code point and of a string decide membership, frozen or not.
\<close>

theorem contains_decides_membership:
  assumes "us_inv s" "- 2147483648 \<le> c" "c < 2147483648" "\<forall>u \<in> set t. 0 \<le> u \<and> u \<le> 0xffff"
  shows "(UnicodeSet_contains s c \<longleftrightarrow> c \<in> us_chars s) \<and>
         (UnicodeSet_contains_string s t \<longleftrightarrow> t \<noteq> [] \<and> (char_of t \<subseteq> us_chars s \<and> str_of t \<subseteq> us_strs s))"
proof -
  have "\<not> getSingleCP t < 0 \<Longrightarrow> 0 \<le> getSingleCP t \<and> getSingleCP t < UNICODESET_HIGH"
    using assms(4) by (rule getSingleCP_legal)
  then show ?thesis
    using contains_iff [OF assms(1)] assms(2,3) has_string_iff [OF assms(1)]
    by (auto simp: UnicodeSet_contains_string_def Let_def char_of_def str_of_def pinCodePoint_def UNICODESET_LOW_def UNICODESET_HIGH_def)
qed

theorem contains_decides_membership_witness:
  "UnicodeSet_contains (plain_set upper_list) 0x41 \<and> \<not> UnicodeSet_contains_string (plain_set upper_list) [0x41, 0x42]"
  using contains_decides_membership [of "plain_set upper_list" "0x41" "[0x41, 0x42]"] upper_set
  by (simp add: sample_sets str_of_def getSingleCP_def is_lead_def)

end
