(* ===== verification/SerializedSet.thy ===== *)
theory SerializedSet
  imports UnicodeSetProofs
begin

text \<open>
  Serialized sets: \<^verbatim>\<open>UnicodeSet::serialize\<close> of \<^verbatim>\<open>common/uniset.cpp\<close> and the functions on a
  \<^verbatim>\<open>USerializedSet\<close> of \<^verbatim>\<open>common/uset.cpp\<close>.

  A serialized set points into an array of 16-bit units. The pointer is modelled as the function
  from offsets to the units found there, for every offset, so that a read outside of the
  array is a read of some unknown unit. The search loops are partial functions: \<open>None\<close> is a
  search that does not end.
\<close>

section \<open>Writing\<close>

text \<open>
  \<^verbatim>\<open>serialize\<close> returns the units it writes to \<^verbatim>\<open>dest\<close>, its result and the error code. The
  conversion to \<^verbatim>\<open>uint16_t\<close> is the remainder by \<open>0x10000\<close>.
\<close>

definition uint16 :: "int \<Rightarrow> int" where
  "uint16 x = x mod 0x10000"

definition bmp_prefix :: "int list \<Rightarrow> int \<Rightarrow> int" where
  "bmp_prefix list n = int (length (takeWhile (\<lambda>x. x \<le> 0xffff) (take (nat n) list)))"

definition UnicodeSet_serialize :: "UnicodeSet \<Rightarrow> bool \<Rightarrow> int \<Rightarrow> UErrorCode \<Rightarrow> int list \<times> int \<times> UErrorCode" where
  "UnicodeSet_serialize s dest_null destCapacity ec =
     (if U_FAILURE ec then ([], 0, ec)
      else if destCapacity < 0 \<or> (destCapacity > 0 \<and> dest_null) then ([], 0, U_ILLEGAL_ARGUMENT_ERROR)
      else
        let n = us_len s - 1 in
        if n = 0 then
          (if destCapacity > 0 then ([0], 1, ec) else ([], 1, U_BUFFER_OVERFLOW_ERROR))
        else
          let (bmpLength, length') =
                (if us_list s ! nat (n - 1) \<le> 0xffff then (n, n)
                 else if us_list s ! 0 \<ge> 0x10000 then (0, n * 2)
                 else let b = bmp_prefix (us_list s) n in (b, b + 2 * (n - b)))
          in if length' > 0x7fff then ([], 0, U_INDEX_OUTOFBOUNDS_ERROR)
             else
               let destLength = length' + (if length' > bmpLength then 2 else 1) in
               if destLength \<le> destCapacity then
                 ((if length' > bmpLength then [uint16 length' + 0x8000, uint16 bmpLength] else [uint16 length']) @
                  map uint16 (take (nat bmpLength) (us_list s)) @
                  concat (map (\<lambda>x. [uint16 (x div 0x10000), uint16 x])
                            (take (nat ((length' - bmpLength) div 2)) (drop (nat bmpLength) (us_list s)))),
                  destLength, ec)
               else ([], destLength, U_BUFFER_OVERFLOW_ERROR))"

section \<open>Reading\<close>

record USerializedSet =
  ss_array :: "int \<Rightarrow> int"
  ss_bmpLength :: int
  ss_length :: int

text \<open>The memory that a list of units occupies, inside of some other memory.\<close>

definition place :: "int list \<Rightarrow> (int \<Rightarrow> int) \<Rightarrow> int \<Rightarrow> int" where
  "place units mem k = (if 0 \<le> k \<and> k < int (length units) then units ! nat k else mem k)"

text \<open>\<open>src\<close> is \<open>None\<close> for \<^verbatim>\<open>NULL\<close>; \<^verbatim>\<open>src++\<close> moves the offsets by one.\<close>

definition uset_getSerializedSet :: "USerializedSet \<Rightarrow> (int \<Rightarrow> int) option \<Rightarrow> int \<Rightarrow> bool \<times> USerializedSet" where
  "uset_getSerializedSet fillSet src srcLength =
     (if src = None \<or> srcLength \<le> 0 then (False, fillSet\<lparr>ss_length := 0, ss_bmpLength := 0\<rparr>)
      else
        let p = the src; length0 = p 0 in
        if length0 \<ge> 0x8000 then
          let length1 = length0 mod 0x8000 in
          if srcLength < 2 + length1 then (False, fillSet\<lparr>ss_length := 0, ss_bmpLength := 0\<rparr>)
          else (True, fillSet\<lparr>ss_bmpLength := p 1, ss_array := (\<lambda>k. p (k + 2)), ss_length := length1\<rparr>)
        else if srcLength < 1 + length0 then (False, fillSet\<lparr>ss_length := 0, ss_bmpLength := 0\<rparr>)
        else (True, fillSet\<lparr>ss_bmpLength := length0, ss_array := (\<lambda>k. p (k + 1)), ss_length := length0\<rparr>))"

text \<open>\<open>old\<close> is what the offsets around \<^verbatim>\<open>staticArray\<close> held before.\<close>

definition uset_setSerializedToOne :: "(int \<Rightarrow> int) \<Rightarrow> int \<Rightarrow> USerializedSet \<Rightarrow> USerializedSet" where
  "uset_setSerializedToOne old c fillSet =
     (if c < 0 \<or> c > 0x10ffff then fillSet
      else if c < 0xffff then fillSet\<lparr>ss_array := place [c, c + 1] old, ss_bmpLength := 2, ss_length := 2\<rparr>
      else if c = 0xffff then fillSet\<lparr>ss_array := place [0xffff, 1, 0] old, ss_bmpLength := 1, ss_length := 3\<rparr>
      else if c < 0x10ffff then
        fillSet\<lparr>ss_array := place [uint16 (c div 0x10000), uint16 c, uint16 ((c + 1) div 0x10000), uint16 (c + 1)] old,
                ss_bmpLength := 0, ss_length := 4\<rparr>
      else fillSet\<lparr>ss_array := place [0x10, 0xffff] old, ss_bmpLength := 0, ss_length := 2\<rparr>)"

partial_function (option) bmp_search :: "(int \<Rightarrow> int) \<Rightarrow> int \<Rightarrow> int \<Rightarrow> int \<Rightarrow> int option" where
  "bmp_search array c lo hi =
     (let i = (lo + hi) div 2 in
      if i = lo then Some hi
      else if c < array i then bmp_search array c lo i
      else bmp_search array c i hi)"

definition before_pair :: "(int \<Rightarrow> int) \<Rightarrow> int \<Rightarrow> int \<Rightarrow> int \<Rightarrow> bool" where
  "before_pair array k high low \<longleftrightarrow> high < array k \<or> (high = array k \<and> low < array (k + 1))"

partial_function (option) supp_search :: "(int \<Rightarrow> int) \<Rightarrow> int \<Rightarrow> int \<Rightarrow> int \<Rightarrow> int \<Rightarrow> int \<Rightarrow> int option" where
  "supp_search array base high low lo hi =
     (let i = (lo + hi) div 2 div 2 * 2 in
      if i = lo then Some hi
      else if before_pair array (i + base) high low then supp_search array base high low lo i
      else supp_search array base high low i hi)"

definition uset_serializedContains :: "USerializedSet \<Rightarrow> int \<Rightarrow> bool option" where
  "uset_serializedContains sset c =
     (let array = ss_array sset in
      if c < 0 \<or> c > 0x10ffff then Some False
      else if c \<le> 0xffff then
        let hi = ss_bmpLength sset - 1 in
        map_option odd
          (if c < array 0 then Some 0
           else if c < array hi then bmp_search array c 0 hi
           else Some (hi + 1))
      else
        let high = uint16 (c div 0x10000); low = uint16 c; base = ss_bmpLength sset;
            hi = ss_length sset - 2 - base
        in map_option (\<lambda>hi. (hi + base * 2) div 2 mod 2 \<noteq> 0)
             (if before_pair array base high low then Some 0
              else if before_pair array (base + hi) high low then supp_search array base high low 0 hi
              else Some (hi + 2)))"

definition uset_getSerializedRangeCount :: "USerializedSet \<Rightarrow> int" where
  "uset_getSerializedRangeCount sset = (ss_bmpLength sset + (ss_length sset - ss_bmpLength sset) div 2 + 1) div 2"

definition pair_value :: "(int \<Rightarrow> int) \<Rightarrow> int \<Rightarrow> int" where
  "pair_value array k = array k * 0x10000 + array (k + 1)"

text \<open>
  The range with a given index, a value of type \<^verbatim>\<open>int32_t\<close>: \<open>Some None\<close> is \<^verbatim>\<open>FALSE\<close>. The index is doubled, and doubled again for the
  supplementary part; \<open>None\<close> is an overflow of these products.
\<close>

definition uset_getSerializedRange :: "USerializedSet \<Rightarrow> int \<Rightarrow> (int \<times> int) option option" where
  "uset_getSerializedRange sset rangeIndex0 =
     (if rangeIndex0 < 0 then Some None
      else
        let array = ss_array sset; length0 = ss_length sset; bmpLength = ss_bmpLength sset; rangeIndex = rangeIndex0 * 2 in
        if rangeIndex > INT32_MAX then None
        else if rangeIndex < bmpLength then
          Some (Some (array rangeIndex,
                if rangeIndex + 1 < bmpLength then array (rangeIndex + 1) - 1
                else if rangeIndex + 1 < length0 then pair_value array (rangeIndex + 1) - 1
                else 0x10ffff))
        else
          let k = (rangeIndex - bmpLength) * 2; n = length0 - bmpLength in
          if k > INT32_MAX then None
          else if k < n then
            Some (Some (pair_value array (bmpLength + k),
                  if k + 2 < n then pair_value array (bmpLength + (k + 2)) - 1 else 0x10ffff))
          else Some None)"

section \<open>Layout\<close>

text \<open>
  \<open>layout ss l b\<close>: the array holds the entries of \<open>l\<close> but the terminator, the first \<open>b\<close> as one
  unit each, the others, which are supplementary, as two.
\<close>

definition layout :: "USerializedSet \<Rightarrow> int list \<Rightarrow> nat \<Rightarrow> bool" where
  "layout ss l b \<longleftrightarrow> b < length l \<and> ss_bmpLength ss = int b \<and> ss_length ss = int b + 2 * int (length l - 1 - b) \<and>
     (\<forall>k < b. ss_array ss (int k) = l ! k \<and> l ! k \<le> 0xffff) \<and>
     (\<forall>p. b + p < length l - 1 \<longrightarrow> 0x10000 \<le> l ! (b + p) \<and>
        ss_array ss (int b + 2 * int p) = l ! (b + p) div 0x10000 \<and>
        ss_array ss (int b + 2 * int p + 1) = l ! (b + p) mod 0x10000)"

lemma layout_pair:
  "layout ss l b \<Longrightarrow> b + p < length l - 1 \<Longrightarrow> pair_value (ss_array ss) (int b + 2 * int p) = l ! (b + p)"
  by (simp add: layout_def pair_value_def mult.commute)

lemma div_mod_less:
  fixes c x :: int
  shows "c div 65536 < x div 65536 \<or> (c div 65536 = x div 65536 \<and> c mod 65536 < x mod 65536) \<longleftrightarrow> c < x"
proof -
  have less: "q < p \<or> (q = p \<and> r < s) \<longleftrightarrow> 65536 * q + r < 65536 * p + s"
    if "0 \<le> r" "r < 65536" "0 \<le> s" "s < 65536" for q r p s :: int
    using that by linarith
  show ?thesis using less [of "c mod 65536" "x mod 65536" "c div 65536" "x div 65536"] by simp
qed

lemma layout_before:
  assumes "layout ss l b" "b + p < length l - 1"
  shows "before_pair (ss_array ss) (int b + 2 * int p) (c div 0x10000) (c mod 0x10000) \<longleftrightarrow> c < l ! (b + p)"
proof -
  have "c div 65536 < x div 65536 \<or> (c div 65536 = x div 65536 \<and> c mod 65536 < x mod 65536) \<longleftrightarrow> c < x" for x :: int
    by (rule div_mod_less)
  then show ?thesis using assms by (simp add: layout_def before_pair_def)
qed

section \<open>Searching\<close>

lemma bmp_search_rank:
  assumes "0 \<le> lo" "lo < hi" "array lo \<le> c" "c < array hi"
  shows "\<exists>r. bmp_search array c lo hi = Some r \<and> lo < r \<and> r \<le> hi \<and> array (r - 1) \<le> c \<and> c < array r"
  using assms
proof (induction "nat (hi - lo)" arbitrary: lo hi rule: less_induct)
  case less
  define i where "i = (lo + hi) div 2"
  have i: "lo \<le> i" "i < hi" "i = lo \<Longrightarrow> hi = lo + 1" using less.prems by (auto simp: i_def)
  show ?case
  proof (cases "i = lo")
    case True
    then show ?thesis using less.prems i(3) by (simp add: bmp_search.simps i_def [symmetric] Let_def)
  next
    case False
    then have s: "bmp_search array c lo hi = (if c < array i then bmp_search array c lo i else bmp_search array c i hi)"
      by (subst bmp_search.simps) (simp add: i_def [symmetric] Let_def)
    show ?thesis
    proof (cases "c < array i")
      case True
      then show ?thesis using less.hyps [of i lo] less.prems i False s by fastforce
    next
      case c: False
      then show ?thesis using less.hyps [of hi i] less.prems i False s by fastforce
    qed
  qed
qed

lemma supp_search_rank:
  assumes "0 \<le> lo" "lo < hi" "\<not> before_pair array (base + 2 * lo) h l" "before_pair array (base + 2 * hi) h l"
  shows "\<exists>r. supp_search array base h l (2 * lo) (2 * hi) = Some (2 * r) \<and> lo < r \<and> r \<le> hi \<and>
     \<not> before_pair array (base + 2 * (r - 1)) h l \<and> before_pair array (base + 2 * r) h l"
  using assms
proof (induction "nat (hi - lo)" arbitrary: lo hi rule: less_induct)
  case less
  define i where "i = (lo + hi) div 2"
  have i: "lo \<le> i" "i < hi" "i = lo \<Longrightarrow> hi = lo + 1" using less.prems by (auto simp: i_def)
  have "(2 * lo + 2 * hi) div 2 = lo + hi" by presburger
  then have m: "(2 * lo + 2 * hi) div 2 div 2 * 2 = 2 * i" by (simp add: i_def)
  show ?case
  proof (cases "i = lo")
    case True
    then have "supp_search array base h l (2 * lo) (2 * hi) = Some (2 * hi)"
      by (subst supp_search.simps) (simp only: m Let_def if_True simp_thms)
    then show ?thesis using less.prems i(3) True by (intro exI [of _ hi]) simp
  next
    case False
    then have s: "supp_search array base h l (2 * lo) (2 * hi) =
       (if before_pair array (base + 2 * i) h l then supp_search array base h l (2 * lo) (2 * i)
        else supp_search array base h l (2 * i) (2 * hi))"
      by (subst supp_search.simps) (simp only: m Let_def add.commute [of "2 * i" base] mult_cancel_left, simp)
    show ?thesis
    proof (cases "before_pair array (base + 2 * i) h l")
      case True
      then show ?thesis using less.hyps [of i lo] less.prems i False s by fastforce
    next
      case c: False
      then show ?thesis using less.hyps [of hi i] less.prems i False s by fastforce
    qed
  qed
qed

lemma is_rank_step:
  assumes "sorted_wrt (<) l" "r < length l" "c < l ! r" "r = 0 \<or> l ! (r - 1) \<le> c"
  shows "is_rank l c r"
proof -
  have "l ! j \<le> c" if "j < r" for j
  proof (cases "j = r - 1")
    case False
    then have "l ! j < l ! (r - 1)" using sorted_wrt_nth_less [OF assms(1), of j "r - 1"] that assms(2) by simp
    then show ?thesis using assms(4) that by auto
  qed (use assms(4) that in auto)
  then show ?thesis using assms by (simp add: is_rank_def)
qed

lemma serializedContains_layout:
  assumes l: "ilist l" and lay: "layout ss l b" and c: "legal c" and part: "c \<le> 0xffff \<longrightarrow> 0 < b" "0xffff < c \<longrightarrow> b < length l - 1"
  shows "uset_serializedContains ss c = Some (c \<in> inv_set l)"
proof -
  let ?a = "ss_array ss"
  have sorted: "sorted_wrt (<) l" by (rule ilist_sorted [OF l])
  have last: "l ! (length l - 1) = UNICODESET_HIGH" by (rule ilist_last [OF l])
  have len: "0 < length l" by (rule ilist_length [OF l])
  have bl: "b < length l" "ss_bmpLength ss = int b" "ss_length ss = int b + 2 * int (length l - 1 - b)"
    using lay by (auto simp: layout_def)
  have mem: "c \<in> inv_set l \<longleftrightarrow> odd r" if "is_rank l c r" for r
    using is_rank_inside [OF sorted that] c by (auto simp: inv_set_def UNICODESET_LOW_def)
  have c': "\<not> c < 0" "\<not> c > 0x10ffff" using c by (auto simp: UNICODESET_HIGH_def)
  show ?thesis
  proof (cases "c \<le> 0xffff")
    case True
    then have b: "0 < b" using part by simp
    have at: "?a (int k) = l ! k" if "k < b" for k using lay that by (simp add: layout_def)
    have hi: "ss_bmpLength ss - 1 = int (b - 1)" "?a (ss_bmpLength ss - 1) = l ! (b - 1)" "?a 0 = l ! 0"
      using bl b at [of "b - 1"] at [of 0] by (simp_all add: of_nat_diff)
    have above: "c < l ! b"
    proof (cases "b = length l - 1")
      case False
      then have "b + 0 < length l - 1" using bl(1) by simp
      then have "0x10000 \<le> l ! (b + 0)" using lay unfolding layout_def by blast
      then show ?thesis using True by simp
    qed (use last c in simp)
    consider "c < l ! 0" | "\<not> c < l ! 0" "c < l ! (b - 1)" | "\<not> c < l ! (b - 1)" "\<not> c < l ! 0"
      using sorted_wrt_nth_less [OF sorted, of 0 "b - 1"] bl b by (cases "b = 1") auto
    then show ?thesis
    proof cases
      case 1
      have "is_rank l c 0" using is_rank_step [OF sorted len] 1 by simp
      then show ?thesis using mem [of 0] 1 hi c' True by (simp add: uset_serializedContains_def Let_def)
    next
      case 2
      then have "0 < int (b - 1)" by (cases "b = 1") auto
      moreover have "?a (int (b - 1)) = l ! (b - 1)" by (rule at) (use b in simp)
      ultimately obtain r where r: "bmp_search ?a c 0 (int (b - 1)) = Some r" "0 < r" "r \<le> int (b - 1)" "?a (r - 1) \<le> c" "c < ?a r"
        using bmp_search_rank [of 0 "int (b - 1)" ?a c] 2 hi by auto
      have "?a (int (nat r)) = l ! nat r" "?a (int (nat r - 1)) = l ! (nat r - 1)"
        using r(2,3) b by (intro at; simp; linarith)+
      then have "is_rank l c (nat r)" using is_rank_step [OF sorted, of "nat r" c] r bl b by (auto simp: of_nat_diff)
      then show ?thesis using mem r 2 hi c' True by (simp add: uset_serializedContains_def Let_def even_nat_iff)
    next
      case 3
      have "is_rank l c b" using is_rank_step [OF sorted bl(1) above] 3 by simp
      then show ?thesis using mem [of b] 3 hi c' True b bl by (simp add: uset_serializedContains_def Let_def)
    qed
  next
    case False
    define n where "n = length l - 1 - b"
    have n: "0 < n" using part False by (simp add: n_def)
    have before: "before_pair ?a (int b + 2 * int p) (uint16 (c div 0x10000)) (uint16 c) \<longleftrightarrow> c < l ! (b + p)" if "p < n" for p
      using layout_before [OF lay, of p c] that c' by (simp add: n_def uint16_def)
    have hi: "ss_length ss - 2 - int b = 2 * int (n - 1)" using bl n by (simp add: n_def)
    have below: "l ! j \<le> c" if "j < b" for j using lay that False by (fastforce simp: layout_def)
    have rank: "is_rank l c (b + q)" if "q \<le> n" "c < l ! (b + q)" "q = 0 \<or> l ! (b + q - 1) \<le> c" for q
      using is_rank_step [OF sorted, of "b + q" c] that below [of "b - 1"] bl n by (cases "q = 0"; cases "b = 0") (auto simp: n_def)
    have res: "((2 * q + int b * 2) div 2 mod 2 \<noteq> 0) = odd (int b + q)" for q :: int by presburger
    have hi2: "2 * int (n - 1) + 2 = 2 * int n" using n by simp
    have run: "uset_serializedContains ss c = map_option (\<lambda>h. (h + int b * 2) div 2 mod 2 \<noteq> 0)
       (if c < l ! b then Some 0
        else if c < l ! (b + (n - 1)) then supp_search ?a (int b) (uint16 (c div 0x10000)) (uint16 c) (2 * 0) (2 * int (n - 1))
        else Some (2 * int n))"
      using before [of 0] before [of "n - 1"] n False c'
      unfolding uset_serializedContains_def Let_def hi bl(2) hi2 by simp
    consider "c < l ! b" | "\<not> c < l ! b" "c < l ! (b + (n - 1))" | "\<not> c < l ! (b + (n - 1))" "\<not> c < l ! b"
      using sorted_wrt_nth_less [OF sorted, of b "b + (n - 1)"] bl n by (cases "n = 1") (auto simp: n_def)
    then show ?thesis
    proof cases
      case 1
      then have "is_rank l c b" using rank [of 0] by simp
      then show ?thesis using mem [of b] 1 res [of 0] unfolding run by simp
    next
      case 2
      then have "0 < int (n - 1)" using n by (cases "n = 1") auto
      then obtain r where r: "supp_search ?a (int b) (uint16 (c div 0x10000)) (uint16 c) (2 * 0) (2 * int (n - 1)) = Some (2 * r)"
         "0 < r" "r \<le> int (n - 1)" "\<not> before_pair ?a (int b + 2 * (r - 1)) (uint16 (c div 0x10000)) (uint16 c)"
         "before_pair ?a (int b + 2 * r) (uint16 (c div 0x10000)) (uint16 c)"
        using supp_search_rank [of 0 "int (n - 1)" ?a "int b" "uint16 (c div 0x10000)" "uint16 c"] 2 n before [of 0] before [of "n - 1"] by auto
      have "r = int (nat r)" "r - 1 = int (nat r - 1)" using r(2) by auto
      then have "\<not> c < l ! (b + (nat r - 1))" "c < l ! (b + nat r)"
        using r before [of "nat r"] before [of "nat r - 1"] n by (simp_all add: nat_less_iff)
      then have "is_rank l c (b + nat r)" using rank [of "nat r"] r(2,3) by auto
      moreover have "odd (b + nat r) \<longleftrightarrow> odd (int b + r)" using r(2) by (simp add: even_nat_iff)
      ultimately show ?thesis using mem 2 r(1) res [of r] unfolding run by (simp add: add.commute)
    next
      case 3
      have "c < l ! (b + n)" using last c bl by (simp add: n_def)
      then have "is_rank l c (b + n)" using rank [of n] 3 n by (simp add: not_less)
      then show ?thesis using mem [of "b + n"] 3 res [of "int n"] unfolding run by (simp add: add.commute)
    qed
  qed
qed

section \<open>Ranges of a serialized set\<close>

lemma serializedRangeCount_layout:
  "ilist l \<Longrightarrow> layout ss l b \<Longrightarrow> uset_getSerializedRangeCount ss = int (getRangeCount l)"
  by (auto simp: uset_getSerializedRangeCount_def getRangeCount_def layout_def zdiv_int of_nat_diff)

lemma serializedRange_layout:
  assumes l: "ilist l" and lay: "layout ss l b" and small: "i < 0x20000000"
  shows "uset_getSerializedRange ss (int i) =
     Some (if i < getRangeCount l then Some (getRangeStart l i, getRangeEnd l i) else None)"
proof -
  have fits: "\<not> int i * 2 > INT32_MAX" "\<not> (int i * 2 - int b) * 2 > INT32_MAX" using small by (simp_all add: INT32_MAX_def)
  then have fit: "\<not> INT32_MAX < (int i * 2 - ss_bmpLength ss) * 2" using lay by (simp add: layout_def)
  define R where "R = (let array = ss_array ss; length0 = ss_length ss; bmpLength = ss_bmpLength ss; rangeIndex = int i * 2 in
    if rangeIndex < bmpLength then
      Some (array rangeIndex,
            if rangeIndex + 1 < bmpLength then array (rangeIndex + 1) - 1
            else if rangeIndex + 1 < length0 then pair_value array (rangeIndex + 1) - 1
            else 0x10ffff)
    else
      let k = (rangeIndex - bmpLength) * 2; n = length0 - bmpLength in
      if k < n then
        Some (pair_value array (bmpLength + k),
              if k + 2 < n then pair_value array (bmpLength + (k + 2)) - 1 else 0x10ffff)
      else None)"
  have R: "uset_getSerializedRange ss (int i) = Some R"
    unfolding uset_getSerializedRange_def R_def Let_def if_not_P [OF fits(1)] if_not_P [OF fit] by simp
  have "R = (if i < getRangeCount l then Some (getRangeStart l i, getRangeEnd l i) else None)"
  proof -
    let ?a = "ss_array ss"
    define n where "n = length l - 1"
    have bl: "b \<le> n" "length l = Suc n" "ss_bmpLength ss = int b" "ss_length ss = int b + 2 * int (n - b)"
      using lay by (auto simp: layout_def n_def)
    have last: "l ! n = 0x110000" using ilist_last [OF l] by (simp add: n_def UNICODESET_HIGH_def)
    have at: "?a (int k) = l ! k" if "k < b" for k using lay that by (simp add: layout_def)
    have pair: "pair_value ?a (int b + 2 * int p) = l ! (b + p)" if "b + p < n" for p
      using layout_pair [OF lay] that by (simp add: n_def)
    have cnt: "i < getRangeCount l \<longleftrightarrow> 2 * i < n" using bl(2) by (auto simp: getRangeCount_def)
    consider "2 * i + 1 < b" | "2 * i + 1 = b" "b < n" | "2 * i + 1 = b" "b = n"
      | "b \<le> 2 * i" "2 * i + 1 < n" | "b \<le> 2 * i" "2 * i + 1 = n" | "b \<le> 2 * i" "n \<le> 2 * i"
      using bl(1) by linarith
    then show ?thesis
    proof cases
      case 1
      then show ?thesis using at [of "2 * i"] at [of "2 * i + 1"] bl cnt
        by (simp add: R_def Let_def getRangeStart_def getRangeEnd_def mult.commute add.commute)
    next
      case 2
      then have b: "b = Suc (i * 2)" by simp
      show ?thesis using at [of "2 * i"] pair [of 0] bl cnt 2(2) unfolding b
        by (simp add: R_def Let_def getRangeStart_def getRangeEnd_def mult.commute add.commute)
    next
      case 3
      then show ?thesis using at [of "2 * i"] last bl cnt
        by (simp add: R_def Let_def getRangeStart_def getRangeEnd_def mult.commute add.commute)
    next
      case 4
      then obtain p where p: "2 * i = b + p" "b + p + 1 < n" using le_Suc_ex by metis
      have k1: "int b + 2 * int p = int i * 4 - int b" using p(1) by linarith
      then have k2: "int b + 2 * int (Suc p) = 2 + int i * 4 - int b" by simp
      note k = k1 k2
      show ?thesis using p pair [of p, unfolded k] pair [of "Suc p", unfolded k] bl cnt
        by (simp add: R_def Let_def getRangeStart_def getRangeEnd_def mult.commute add.commute)
    next
      case 5
      then obtain p where p: "2 * i = b + p" "b + p + 1 = n" using le_Suc_ex by metis
      then have k: "int b + 2 * int p = int i * 4 - int b" by linarith
      show ?thesis using p pair [of p, unfolded k] last bl cnt
        by (simp add: R_def Let_def getRangeStart_def getRangeEnd_def mult.commute add.commute)
    next
      case 6
      then show ?thesis using bl cnt by (simp add: R_def Let_def)
    qed
  qed
  then show ?thesis using R by simp
qed

section \<open>What serialize writes\<close>

lemma concat_pairs:
  "length (concat (map (\<lambda>x. [f x, g x]) xs)) = 2 * length xs"
  "p < length xs \<Longrightarrow> concat (map (\<lambda>x. [f x, g x]) xs) ! (2 * p) = f (xs ! p)"
  "p < length xs \<Longrightarrow> concat (map (\<lambda>x. [f x, g x]) xs) ! Suc (2 * p) = g (xs ! p)"
proof -
  show "length (concat (map (\<lambda>x. [f x, g x]) xs)) = 2 * length xs" by (induction xs) auto
  have "p < length xs \<longrightarrow> concat (map (\<lambda>x. [f x, g x]) xs) ! (2 * p) = f (xs ! p) \<and>
      concat (map (\<lambda>x. [f x, g x]) xs) ! Suc (2 * p) = g (xs ! p)"
  proof (induction xs arbitrary: p)
    case (Cons x xs)
    then show ?case by (cases p) auto
  qed simp
  then show "p < length xs \<Longrightarrow> concat (map (\<lambda>x. [f x, g x]) xs) ! (2 * p) = f (xs ! p)"
    "p < length xs \<Longrightarrow> concat (map (\<lambda>x. [f x, g x]) xs) ! Suc (2 * p) = g (xs ! p)" by auto
qed

text \<open>The number of BMP entries before the terminator, and the units after the header.\<close>

definition bmp_count :: "int list \<Rightarrow> nat" where
  "bmp_count l = length (takeWhile (\<lambda>x. x \<le> 0xffff) (butlast l))"

definition body_units :: "int list \<Rightarrow> int list" where
  "body_units l = take (bmp_count l) l @
     concat (map (\<lambda>x. [x div 0x10000, x mod 0x10000]) (drop (bmp_count l) (butlast l)))"

definition serial_units :: "int list \<Rightarrow> int list" where
  "serial_units l =
     (let n = int (length (body_units l)) in
      if bmp_count l < length l - 1 then [n + 0x8000, int (bmp_count l)] @ body_units l else n # body_units l)"

lemma bmp_count_le: "bmp_count l \<le> length l - 1"
  using length_takeWhile_le [of "\<lambda>x. x \<le> 0xffff" "butlast l"] by (simp add: bmp_count_def)

lemma length_body_units: "length (body_units l) = bmp_count l + 2 * (length l - 1 - bmp_count l)"
  using bmp_count_le [of l] by (simp add: body_units_def concat_pairs(1))

lemma bmp_count_spec:
  assumes l: "ilist l"
  shows "k < bmp_count l \<Longrightarrow> 0 \<le> l ! k \<and> l ! k \<le> 0xffff"
    and "bmp_count l \<le> k \<Longrightarrow> k < length l - 1 \<Longrightarrow> 0x10000 \<le> l ! k \<and> l ! k < 0x110000"
proof -
  have b: "0 \<le> l ! k" if "k < length l" for k using asc_bounds [OF ilist_asc [OF l]] that by auto
  have bu: "butlast l ! k = l ! k" if "k < length l - 1" for k using that by (simp add: nth_butlast)
  show "0 \<le> l ! k \<and> l ! k \<le> 0xffff" if "k < bmp_count l"
    using that bmp_count_le [of l] b [of k] bu [of k] takeWhile_nth [of k "\<lambda>x. x \<le> 0xffff" "butlast l"]
      nth_mem [of k "takeWhile (\<lambda>x. x \<le> 0xffff) (butlast l)"] set_takeWhileD
    unfolding bmp_count_def by fastforce
  show "0x10000 \<le> l ! k \<and> l ! k < 0x110000" if k: "bmp_count l \<le> k" "k < length l - 1"
  proof -
    have "\<not> l ! bmp_count l \<le> 0xffff"
      using nth_length_takeWhile [of "\<lambda>x. x \<le> 0xffff" "butlast l"] k bu [of "bmp_count l"] by (simp add: bmp_count_def)
    moreover have "k < length l" using k(2) by simp
    then have "l ! bmp_count l \<le> l ! k"
      using sorted_wrt_nth_less [OF ilist_sorted [OF l], of "bmp_count l" k] k by (cases "bmp_count l = k") simp_all
    moreover have "l ! k < l ! (length l - 1)"
      using sorted_wrt_nth_less [OF ilist_sorted [OF l], of k "length l - 1"] k by simp
    ultimately show ?thesis using ilist_last [OF l] by (simp add: UNICODESET_HIGH_def)
  qed
qed

lemma serialize_lengths:
  assumes l: "ilist l" and n: "n = int (length l) - 1" "n \<noteq> 0"
  shows "(if l ! nat (n - 1) \<le> 0xffff then (n, n)
          else if l ! 0 \<ge> 0x10000 then (0, n * 2)
          else let b = bmp_prefix l n in (b, b + 2 * (n - b))) = (int (bmp_count l), int (length (body_units l)))"
proof -
  have len: "0 < length l - 1" "nat (n - 1) = length l - 1 - 1" "nat n = length l - 1" using ilist_length [OF l] n by linarith+
  have p: "bmp_prefix l n = int (bmp_count l)" unfolding bmp_prefix_def bmp_count_def len(3) by (simp add: butlast_conv_take)
  have 1: "l ! (length l - 1 - 1) \<le> 0xffff \<Longrightarrow> bmp_count l = length l - 1"
    using bmp_count_spec(2) [OF l, of "length l - 1 - 1"] len(1) bmp_count_le [of l] by linarith
  have 2: "l ! 0 \<ge> 0x10000 \<Longrightarrow> bmp_count l = 0" using bmp_count_spec(1) [OF l, of 0] by (cases "bmp_count l") auto
  show ?thesis using 1 2 len n(1) bmp_count_le [of l] p by (auto simp: length_body_units Let_def of_nat_diff)
qed

lemma high_unit: "0x10000 \<le> x \<Longrightarrow> x < 0x110000 \<Longrightarrow> x div 0x10000 mod 0x10000 = x div (0x10000 :: int)"
  using zdiv_mono1 [of x "0x10ffff" "0x10000"] by (intro mod_pos_pos_trivial) (auto simp: pos_imp_zdiv_nonneg_iff)

lemma serialize_units:
  assumes l: "ilist (us_list s)" "us_len s = int (length (us_list s))" and fit: "length (body_units (us_list s)) \<le> 0x7fff"
    and cap: "0 \<le> cap" "null \<longrightarrow> cap = 0"
  shows "UnicodeSet_serialize s null cap U_ZERO_ERROR =
     (let u = serial_units (us_list s) in
      if int (length u) \<le> cap then (u, int (length u), U_ZERO_ERROR) else ([], int (length u), U_BUFFER_OVERFLOW_ERROR))"
proof -
  let ?l = "us_list s"
  let ?b = "bmp_count ?l"
  note b = bmp_count_spec [OF l(1)] bmp_count_le [of ?l]
  have len: "0 < length ?l" by (rule ilist_length [OF l(1)])
  have u1: "map uint16 (take ?b ?l) = take ?b ?l"
    using b(1,3) len by (intro nth_equalityI) (force simp: uint16_def intro!: mod_pos_pos_trivial)+
  have "\<forall>x \<in> set (drop ?b (butlast ?l)). 0x10000 \<le> x \<and> x < 0x110000"
    using b(2) by (auto simp: in_set_conv_nth nth_butlast)
  moreover have "take (length ?l - 1 - ?b) (drop ?b ?l) = drop ?b (butlast ?l)" by (simp add: butlast_conv_take drop_take)
  ultimately have u2: "concat (map (\<lambda>x. [uint16 (x div 0x10000), uint16 x]) (take (length ?l - 1 - ?b) (drop ?b ?l))) =
      concat (map (\<lambda>x. [x div 0x10000, x mod 0x10000]) (drop ?b (butlast ?l)))"
    by (auto simp: uint16_def high_unit intro!: arg_cong [of _ _ concat])
  have n: "nat ((int (length (body_units ?l)) - int ?b) div 2) = length ?l - 1 - ?b" using b(3) by (simp add: length_body_units)
  have small: "int ?b \<le> 0x7fff" using fit b(3) by (simp add: length_body_units)
  show ?thesis
  proof (cases "length ?l = 1")
    case True
    then show ?thesis using cap l(2) by (simp add: UnicodeSet_serialize_def serial_units_def body_units_def bmp_count_def Let_def butlast_conv_take)
  next
    case False
    then have nz: "us_len s - 1 \<noteq> 0" using len l(2) by simp
    have more: "int ?b < int (length (body_units ?l)) \<longleftrightarrow> ?b < length ?l - 1" using b(3) by (auto simp: length_body_units)
    have u3: "uint16 (int (length (body_units ?l))) = int (length (body_units ?l))" "uint16 (int ?b) = int ?b"
      using fit small by (simp_all add: uint16_def)
    have body: "map uint16 (take (nat (int ?b)) ?l) @ concat (map (\<lambda>x. [uint16 (x div 0x10000), uint16 x])
        (take (nat ((int (length (body_units ?l)) - int ?b) div 2)) (drop (nat (int ?b)) ?l))) = body_units ?l"
      unfolding n nat_int u1 u2 by (simp add: body_units_def)
    have fits: "\<not> int (length (body_units ?l)) > 0x7fff" using fit by simp
    have args: "\<not> U_FAILURE U_ZERO_ERROR" "\<not> (cap < 0 \<or> (cap > 0 \<and> null))" using cap by auto
    note lengths = serialize_lengths [OF l(1) _ nz, unfolded l(2), OF refl, unfolded Let_def]
    show ?thesis
      unfolding UnicodeSet_serialize_def Let_def serial_units_def if_not_P [OF args(1)] if_not_P [OF args(2)] l(2)
        if_not_P [OF nz [unfolded l(2)]] lengths prod.case if_not_P [OF fits] body u3 more
      by (cases "?b < length ?l - 1") simp_all
  qed
qed

lemma getSerializedSet_layout:
  assumes l: "ilist l" and fit: "length (body_units l) \<le> 0x7fff" and n: "int (length (serial_units l)) \<le> n"
  shows "\<exists>ss. uset_getSerializedSet fs (Some (place (serial_units l) mem)) n = (True, ss) \<and> layout ss l (bmp_count l)"
proof -
  define b where "b = bmp_count l"
  define B where "B = body_units l"
  note bs = bmp_count_spec [OF l] bmp_count_le [of l]
  have len: "0 < length l" by (rule ilist_length [OF l])
  have B: "length B = b + 2 * (length l - 1 - b)" "length B \<le> 0x7fff" using fit by (simp_all add: B_def b_def length_body_units)
  have low: "B ! k = l ! k" if "k < b" for k using that bs(3) by (simp add: B_def body_units_def b_def [symmetric] nth_append)
  have high: "B ! (b + 2 * p) = l ! (b + p) div 0x10000" "B ! (b + 2 * p + 1) = l ! (b + p) mod 0x10000"
    if "b + p < length l - 1" for p
    using that concat_pairs(2,3) [of p "drop b (butlast l)" "\<lambda>x. x div 0x10000" "\<lambda>x. x mod 0x10000"] bs(3)
    by (simp_all add: B_def body_units_def b_def [symmetric] nth_append nth_butlast)
  have at: "place (h @ B) mem (int k + int (length h)) = B ! k" if "k < length B" for k h
    using that by (simp add: place_def nth_append nat_add_distrib)
  have lay: "layout ss l b"
    if "ss_bmpLength ss = int b" "ss_length ss = int (length B)" "\<And>k. k < length B \<Longrightarrow> ss_array ss (int k) = B ! k" for ss
  proof -
    have "ss_array ss (int b + 2 * int p) = B ! (b + 2 * p)" "ss_array ss (int b + 2 * int p + 1) = B ! (b + 2 * p + 1)"
      if "b + p < length l - 1" for p
      using that(1) \<open>\<And>k. k < length B \<Longrightarrow> ss_array ss (int k) = B ! k\<close> [of "b + 2 * p"]
        \<open>\<And>k. k < length B \<Longrightarrow> ss_array ss (int k) = B ! k\<close> [of "b + 2 * p + 1"] B(1) by (simp_all add: ac_simps)
    moreover have "b < length l" using bs(3) len unfolding b_def by linarith
    ultimately show ?thesis using that bs low high B(1) by (auto simp: layout_def b_def [symmetric])
  qed
  show ?thesis
  proof (cases "b < length l - 1")
    case True
    then have u: "serial_units l = [int (length B) + 0x8000, int b] @ B" by (simp add: serial_units_def b_def B_def Let_def)
    let ?ss = "fs\<lparr>ss_bmpLength := int b, ss_array := (\<lambda>k. place (serial_units l) mem (k + 2)), ss_length := int (length B)\<rparr>"
    have "place (serial_units l) mem 0 = int (length B) + 0x8000" "place (serial_units l) mem 1 = int b"
      by (simp_all add: u place_def)
    then have "uset_getSerializedSet fs (Some (place (serial_units l) mem)) n = (True, ?ss)"
      using B(2) n u by (simp add: uset_getSerializedSet_def Let_def)
    moreover have "layout ?ss l b" using at [of _ "[int (length B) + 0x8000, int b]"] by (intro lay) (simp_all add: u)
    ultimately show ?thesis unfolding b_def by blast
  next
    case False
    then have u: "serial_units l = [int (length B)] @ B" "length B = b" using bs(3) B(1) by (simp_all add: serial_units_def b_def B_def Let_def)
    let ?ss = "fs\<lparr>ss_bmpLength := int b, ss_array := (\<lambda>k. place (serial_units l) mem (k + 1)), ss_length := int (length B)\<rparr>"
    have "place (serial_units l) mem 0 = int (length B)" by (simp add: u(1) place_def)
    then have "uset_getSerializedSet fs (Some (place (serial_units l) mem)) n = (True, ?ss)"
      using B(2) n u by (simp add: uset_getSerializedSet_def Let_def)
    moreover have "layout ?ss l b" using at [of _ "[int (length B)]"] by (intro lay) (simp_all add: u(1))
    ultimately show ?thesis unfolding b_def by blast
  qed
qed

lemma setSerializedToOne_layout:
  assumes c: "legal c"
  shows "layout (uset_setSerializedToOne old c fs)
     (if c = 0x10ffff then [c, UNICODESET_HIGH] else [c, c + 1, UNICODESET_HIGH])
     (if c < 0xffff then 2 else if c = 0xffff then 1 else 0)"
proof -
  have two: "(\<forall>p. p < Suc (Suc 0) \<longrightarrow> P p) \<longleftrightarrow> P 0 \<and> P 1" "(\<forall>p. p < Suc 0 \<longrightarrow> P p) \<longleftrightarrow> P 0"
    "(\<forall>p < 2. P p) \<longleftrightarrow> P 0 \<and> P (1::nat)" for P
    by (auto simp: less_Suc_eq numeral_2_eq_2)
  have u: "uint16 (x div 0x10000) = x div 0x10000" if "0x10000 \<le> x" "x < 0x110000" for x
    using high_unit [OF that] by (simp add: uint16_def)
  consider "c < 0xffff" | "c = 0xffff" | "0xffff < c" "c < 0x10ffff" | "c = 0x10ffff"
    using c unfolding UNICODESET_HIGH_def by linarith
  then show ?thesis
  proof cases
    case 3
    then show ?thesis using u [of c] u [of "c + 1"]
      by (simp add: uset_setSerializedToOne_def layout_def place_def two uint16_def)
  qed (use c in \<open>simp_all add: uset_setSerializedToOne_def layout_def place_def two\<close>)
qed

lemma one_list:
  assumes c: "legal c"
  shows "ilist (if c = 0x10ffff then [c, UNICODESET_HIGH] else [c, c + 1, UNICODESET_HIGH])"
    and "inv_set (if c = 0x10ffff then [c, UNICODESET_HIGH] else [c, c + 1, UNICODESET_HIGH]) = {c}"
  using c by (auto simp: ilist_def inv_set_def UNICODESET_HIGH_def UNICODESET_LOW_def)

text \<open>A search that starts on the empty supplementary part and finds larger units there stays where it is.\<close>

lemma supp_search_stuck:
  assumes "before_pair array (base - 2) high low"
  shows "supp_search array base high low 0 (- 2) = None"
proof -
  have "array = a \<longrightarrow> base = b \<longrightarrow> high = h \<longrightarrow> low = l \<longrightarrow> lo = 0 \<longrightarrow> hi = - 2 \<longrightarrow> False"
    if "supp_search a b h l lo hi = Some r" for a b h l lo hi r
  proof (rule supp_search.raw_induct [OF _ that], intro impI)
    fix search a b h l lo hi r
    assume IH: "\<And>a b h l lo hi r. search a b h l lo hi = Some r \<Longrightarrow>
        array = a \<longrightarrow> base = b \<longrightarrow> high = h \<longrightarrow> low = l \<longrightarrow> lo = 0 \<longrightarrow> hi = - 2 \<longrightarrow> False"
      and step: "(let i = (lo + hi) div 2 div 2 * 2 in if i = lo then Some hi
          else if before_pair a (i + b) h l then search a b h l lo i else search a b h l i hi) = Some r"
      and eqs: "array = a" "base = b" "high = h" "low = l" "lo = 0" "hi = - 2"
    then have "search array base high low 0 (- 2) = Some r" using assms by (simp add: Let_def split: if_splits)
    then show False using IH by blast
  qed
  then show ?thesis by (metis not_Some_eq)
qed

section \<open>Properties\<close>

text \<open>
  C6. A set written by \<^verbatim>\<open>serialize\<close> is read back: given room for its units, \<^verbatim>\<open>serialize\<close> returns their
  number, and \<^verbatim>\<open>getSerializedSet\<close> of them accepts, reports the number of ranges of the set and returns each of
  its ranges, for range indexes below \<open>2^29\<close>, from where on the code's doubling of the index may overflow, and \<^verbatim>\<open>FALSE\<close> behind the last one,
  whatever the memory around the units holds; for sets whose serialized body has at most 0x7fff units. With too little room \<^verbatim>\<open>serialize\<close> reports
  the same number together with an overflow.
\<close>

theorem serialize_roundtrip:
  assumes s: "us_inv s" and fit: "length (body_units (us_list s)) \<le> 0x7fff"
  shows "\<exists>u. (\<forall>cap. int (length u) \<le> cap \<longrightarrow> UnicodeSet_serialize s False cap U_ZERO_ERROR = (u, int (length u), U_ZERO_ERROR)) \<and>
     (\<forall>cap null. 0 \<le> cap \<and> cap < int (length u) \<and> (null \<longrightarrow> cap = 0) \<longrightarrow>
        UnicodeSet_serialize s null cap U_ZERO_ERROR = ([], int (length u), U_BUFFER_OVERFLOW_ERROR)) \<and>
     (\<exists>ss. uset_getSerializedSet fs (Some (place u mem)) (int (length u)) = (True, ss) \<and>
        uset_getSerializedRangeCount ss = int (getRangeCount (us_list s)) \<and>
        (\<forall>i < 0x20000000. uset_getSerializedRange ss (int i) =
           Some (if i < getRangeCount (us_list s) then Some (getRangeStart (us_list s) i, getRangeEnd (us_list s) i) else None)))"
proof -
  have l: "ilist (us_list s)" "us_len s = int (length (us_list s))" using s by (auto simp: us_inv_def)
  let ?u = "serial_units (us_list s)"
  obtain ss where ss: "uset_getSerializedSet fs (Some (place ?u mem)) (int (length ?u)) = (True, ss)"
    "layout ss (us_list s) (bmp_count (us_list s))"
    using getSerializedSet_layout [OF l(1) fit order_refl] by blast
  show ?thesis
    using serialize_units [OF l fit] ss serializedRangeCount_layout [OF l(1) ss(2)] serializedRange_layout [OF l(1) ss(2)]
    by (intro exI [of _ ?u]) (auto simp: Let_def)
qed

definition sample_set :: UnicodeSet where
  "sample_set =
     \<lparr>us_list = [0x61, 0x10000, UNICODESET_HIGH], us_len = 3, us_capacity = 20, us_buffer = False, us_bufferCapacity = 0,
      us_strings = Some \<lparr>ucount = 0, ucapacity = 1, uelements = [None], udeleter = True, ucomparer = Some (=), udeleted = [], uinteger = (\<lambda>p. 0)\<rparr>,
      us_pat = None, us_bmpSet = None, us_stringSpan = None, us_bogus = False\<rparr>"

definition empty_serialized :: USerializedSet where
  "empty_serialized = \<lparr>ss_array = (\<lambda>k. 0), ss_bmpLength = 0, ss_length = 0\<rparr>"

lemma sample_inv: "us_inv sample_set" "ilist (us_list sample_set)"
  by (auto simp: sample_set_def us_inv_def ilist_def UNICODESET_HIGH_def UNICODESET_LOW_def strings_inv_def uvec_inv_def
      uview_def sizeof_limit)

lemma sample_body: "length (body_units (us_list sample_set)) \<le> 0x7fff" "bmp_count (us_list sample_set) = 1"
  by (simp_all add: sample_set_def length_body_units bmp_count_def)

theorem serialize_roundtrip_witness:
  "\<exists>u ss. UnicodeSet_serialize sample_set False 100 U_ZERO_ERROR = (u, 5, U_ZERO_ERROR) \<and>
     uset_getSerializedSet empty_serialized (Some (place u (\<lambda>k. 0))) 5 = (True, ss) \<and>
     uset_getSerializedRange ss 0 = Some (Some (0x61, 0xffff))"
proof -
  have "length (body_units (us_list sample_set)) = 3" by (simp add: sample_set_def length_body_units bmp_count_def)
  then have five: "length (serial_units (us_list sample_set)) = 5"
    using sample_body(2) by (simp add: serial_units_def Let_def) (simp add: sample_set_def)
  have l: "us_len sample_set = int (length (us_list sample_set))" by (simp add: sample_set_def)
  obtain u ss where u: "\<forall>cap. int (length u) \<le> cap \<longrightarrow> UnicodeSet_serialize sample_set False cap U_ZERO_ERROR = (u, int (length u), U_ZERO_ERROR)"
    and ss: "uset_getSerializedSet empty_serialized (Some (place u (\<lambda>k. 0))) (int (length u)) = (True, ss)"
      "\<forall>i < 0x20000000. uset_getSerializedRange ss (int i) =
           Some (if i < getRangeCount (us_list sample_set) then Some (getRangeStart (us_list sample_set) i, getRangeEnd (us_list sample_set) i) else None)"
    using serialize_roundtrip [OF sample_inv(1) sample_body(1), of empty_serialized "\<lambda>k. 0"] by blast
  have "UnicodeSet_serialize sample_set False (max 100 (int (length u))) U_ZERO_ERROR = (u, int (length u), U_ZERO_ERROR)" using u by simp
  then have "length u = 5" using serialize_units [OF sample_inv(2) l sample_body(1), of "max 100 (int (length u))" False] five
    by (auto simp: Let_def le_max_iff_disj split: if_splits)
  moreover have "uset_getSerializedRange ss 0 = Some (Some (0x61, 0xffff))"
    using ss(2) [rule_format, of 0] by (simp add: sample_set_def getRangeCount_def getRangeStart_def getRangeEnd_def)
  ultimately show ?thesis using u ss(1) by auto
qed

text \<open>
  \<^verbatim>\<open>serializedContains\<close> on a set that was read back terminates and decides membership, for every code
  point whose part of the array, BMP or supplementary, is not empty.
\<close>

theorem serializedContains_correct:
  assumes "us_inv s" "length (body_units (us_list s)) \<le> 0x7fff"
    and "uset_getSerializedSet fs (Some (place (serial_units (us_list s)) mem)) (int (length (serial_units (us_list s)))) = (True, ss)"
    and "0 \<le> c" "c \<le> 0x10ffff" "if c \<le> 0xffff then 0 < ss_bmpLength ss else ss_bmpLength ss < ss_length ss"
  shows "uset_serializedContains ss c = Some (c \<in> us_chars s)"
proof -
  have l: "ilist (us_list s)" using assms(1) by (auto simp: us_inv_def)
  have lay: "layout ss (us_list s) (bmp_count (us_list s))"
    using getSerializedSet_layout [OF l assms(2) order_refl] assms(3) by (metis prod.inject)
  then have b: "ss_bmpLength ss = int (bmp_count (us_list s))"
    "ss_length ss = int (bmp_count (us_list s)) + 2 * int (length (us_list s) - 1 - bmp_count (us_list s))" by (auto simp: layout_def)
  show ?thesis unfolding us_chars_def
    by (rule serializedContains_layout [OF l lay]) (use assms(4-6) b in \<open>auto simp: UNICODESET_HIGH_def split: if_splits\<close>)
qed

theorem serializedContains_correct_witness:
  "\<exists>ss. uset_getSerializedSet empty_serialized (Some (place (serial_units (us_list sample_set)) (\<lambda>k. 0)))
          (int (length (serial_units (us_list sample_set)))) = (True, ss) \<and>
     uset_serializedContains ss 0x100 = Some True \<and> uset_serializedContains ss 0x10000 = Some False"
proof -
  obtain ss where ss: "uset_getSerializedSet empty_serialized (Some (place (serial_units (us_list sample_set)) (\<lambda>k. 0)))
          (int (length (serial_units (us_list sample_set)))) = (True, ss)" "layout ss (us_list sample_set) 1"
    using getSerializedSet_layout [OF sample_inv(2) sample_body(1) order_refl] sample_body(2) by metis
  then have "ss_bmpLength ss = 1" "ss_length ss = 3" by (auto simp: layout_def sample_set_def)
  moreover have "0x100 \<in> us_chars sample_set" "0x10000 \<notin> us_chars sample_set"
    by (simp_all add: us_chars_def sample_set_def inv_set_def UNICODESET_HIGH_def UNICODESET_LOW_def)
  ultimately show ?thesis
    using ss(1) serializedContains_correct [OF sample_inv(1) sample_body(1) ss(1), of "0x100"]
      serializedContains_correct [OF sample_inv(1) sample_body(1) ss(1), of "0x10000"] by auto
qed

text \<open>
  \<^verbatim>\<open>setSerializedToOne\<close> makes a set of exactly one code point, as \<^verbatim>\<open>serializedContains\<close> reports on the same plane part.
  But a supplementary argument on a set of BMP code points makes \<^verbatim>\<open>serializedContains\<close> search an empty
  part: where the unit behind the array is 0, the search for U+10000 in the set of U+0061 never ends.
\<close>

theorem serializedContains_one_and_hang:
  "(legal c \<longrightarrow> legal d \<longrightarrow> (if d \<le> 0xffff then c \<le> 0xffff else 0xffff \<le> c) \<longrightarrow>
      uset_serializedContains (uset_setSerializedToOne old c fs) d = Some (d = c)) \<and>
   uset_serializedContains (uset_setSerializedToOne (\<lambda>k. 0) 0x61 fs) 0x10000 = None"
proof (intro conjI impI)
  assume c: "legal c" "legal d" and part: "if d \<le> 0xffff then c \<le> 0xffff else 0xffff \<le> c"
  show "uset_serializedContains (uset_setSerializedToOne old c fs) d = Some (d = c)"
    using serializedContains_layout [OF one_list(1) [OF c(1)] setSerializedToOne_layout [OF c(1)] c(2)] part
    unfolding one_list(2) [OF c(1)] by (auto split: if_splits)
next
  have "before_pair (place [0x61, 0x62] (\<lambda>k. 0)) (2 - 2) 1 0" by (simp add: before_pair_def place_def)
  from supp_search_stuck [OF this]
  show "uset_serializedContains (uset_setSerializedToOne (\<lambda>k. 0) 0x61 fs) 0x10000 = None"
    by (simp add: uset_serializedContains_def uset_setSerializedToOne_def uint16_def before_pair_def place_def)
qed

theorem serializedContains_one_and_hang_witness:
  "uset_serializedContains (uset_setSerializedToOne (\<lambda>k. 0) 0x10ffff empty_serialized) 0x10ffff = Some True"
  using serializedContains_one_and_hang [of "0x10ffff" "0x10ffff" "\<lambda>k. 0" empty_serialized] by (simp add: UNICODESET_HIGH_def)

end
