(* ===== verification/UnicodeSetIter.thy ===== *)
theory UnicodeSetIter
  imports UnicodeSetProofs
begin

text \<open>
  \<^verbatim>\<open>UnicodeSetIterator\<close> of \<^verbatim>\<open>common/usetiter.cpp\<close>: iteration over the code points or the ranges of a
  set and then over its strings. The contract of such an iterator is the locale \<open>enumerator\<close>;
  \<open>next\<close> and \<open>nextRange\<close> are its two models.
\<close>

section \<open>State and operations\<close>

definition IS_STRING :: int where
  "IS_STRING = -1"

text \<open>\<open>it_set\<close> and \<open>it_string\<close> are the pointers \<^verbatim>\<open>set\<close> and \<^verbatim>\<open>string\<close>, \<open>it_cpString\<close> is \<^verbatim>\<open>cpString\<close>; \<open>None\<close> is \<^verbatim>\<open>NULL\<close>.\<close>

record UnicodeSetIterator =
  it_codepoint :: int
  it_codepointEnd :: int
  it_string :: "ustring option"
  it_set :: "UnicodeSet option"
  it_endRange :: int
  it_range :: int
  it_endElement :: int
  it_nextElement :: int
  it_nextString :: int
  it_stringCount :: int
  it_cpString :: "ustring option"

definition loadRange :: "int \<Rightarrow> UnicodeSetIterator \<Rightarrow> UnicodeSetIterator" where
  "loadRange iRange it =
     it\<lparr>it_nextElement := getRangeStart (us_list (the (it_set it))) (nat iRange),
        it_endElement := getRangeEnd (us_list (the (it_set it))) (nat iRange)\<rparr>"

definition iter_reset :: "UnicodeSetIterator \<Rightarrow> UnicodeSetIterator" where
  "iter_reset it =
     (let it1 = (case it_set it of
                   None \<Rightarrow> it\<lparr>it_endRange := -1, it_stringCount := 0\<rparr>
                 | Some s \<Rightarrow> it\<lparr>it_endRange := int (getRangeCount (us_list s)) - 1,
                               it_stringCount := ucount (the (us_strings s))\<rparr>);
          it2 = it1\<lparr>it_range := 0, it_endElement := -1, it_nextElement := 0\<rparr>;
          it3 = (if it_endRange it2 \<ge> 0 then loadRange (it_range it2) it2 else it2)
      in it3\<lparr>it_nextString := 0, it_string := None\<rparr>)"

definition iter_reset_to :: "UnicodeSet \<Rightarrow> UnicodeSetIterator \<Rightarrow> UnicodeSetIterator" where
  "iter_reset_to uSet it = iter_reset (it\<lparr>it_set := Some uSet\<rparr>)"

text \<open>The constructors; \<open>raw\<close> is the uninitialized object.\<close>

definition iter_new :: "UnicodeSet \<Rightarrow> UnicodeSetIterator \<Rightarrow> UnicodeSetIterator" where
  "iter_new uSet raw = iter_reset_to uSet (raw\<lparr>it_cpString := None\<rparr>)"

definition iter_new_empty :: "UnicodeSetIterator \<Rightarrow> UnicodeSetIterator" where
  "iter_new_empty raw = iter_reset (raw\<lparr>it_set := None, it_cpString := None\<rparr>)"

definition next_string :: "UnicodeSetIterator \<Rightarrow> bool \<times> UnicodeSetIterator" where
  "next_string it =
     (if it_nextString it \<ge> it_stringCount it then (False, it)
      else (True, it\<lparr>it_codepoint := IS_STRING,
                     it_string := UVector_elementAt (the (us_strings (the (it_set it)))) (it_nextString it),
                     it_nextString := it_nextString it + 1\<rparr>))"

definition take_element :: "UnicodeSetIterator \<Rightarrow> UnicodeSetIterator" where
  "take_element it =
     it\<lparr>it_codepoint := it_nextElement it, it_codepointEnd := it_nextElement it,
        it_nextElement := it_nextElement it + 1, it_string := None\<rparr>"

definition iter_next :: "UnicodeSetIterator \<Rightarrow> bool \<times> UnicodeSetIterator" where
  "iter_next it =
     (if it_nextElement it \<le> it_endElement it then (True, take_element it)
      else if it_range it < it_endRange it then
        (True, take_element (loadRange (it_range it + 1) (it\<lparr>it_range := it_range it + 1\<rparr>)))
      else next_string it)"

definition take_range :: "UnicodeSetIterator \<Rightarrow> UnicodeSetIterator" where
  "take_range it =
     it\<lparr>it_codepointEnd := it_endElement it, it_codepoint := it_nextElement it,
        it_nextElement := it_endElement it + 1\<rparr>"

definition iter_nextRange :: "UnicodeSetIterator \<Rightarrow> bool \<times> UnicodeSetIterator" where
  "iter_nextRange it0 =
     (let it = it0\<lparr>it_string := None\<rparr> in
      if it_nextElement it \<le> it_endElement it then (True, take_range it)
      else if it_range it < it_endRange it then
        (True, take_range (loadRange (it_range it + 1) (it\<lparr>it_range := it_range it + 1\<rparr>)))
      else next_string it)"

text \<open>
  \<^verbatim>\<open>getString\<close> makes a string of the current code point on demand. The result is \<open>None\<close>
  where the code dereferences \<^verbatim>\<open>NULL\<close>; \<open>ok\<close> tells whether operator \<^verbatim>\<open>new\<close> succeeds.
\<close>

definition iter_getString :: "bool \<Rightarrow> UnicodeSetIterator \<Rightarrow> ustring option \<times> UnicodeSetIterator" where
  "iter_getString ok it =
     (if it_string it = None \<and> it_codepoint it \<noteq> IS_STRING then
        let it1 = (if it_cpString it = None \<and> ok then it\<lparr>it_cpString := Some []\<rparr> else it);
            it2 = (if it_cpString it1 \<noteq> None then it1\<lparr>it_cpString := Some (cp_units (it_codepoint it1))\<rparr> else it1);
            it3 = it2\<lparr>it_string := it_cpString it2\<rparr>
        in (it_string it3, it3)
      else (it_string it, it))"

section \<open>The iterator meets the contract\<close>

definition iter_ok :: "UnicodeSetIterator \<Rightarrow> bool" where
  "iter_ok it \<longleftrightarrow> (\<exists>s v. it_set it = Some s \<and> us_inv s \<and> us_strings s = Some v \<and>
     it_endRange it = int (getRangeCount (us_list s)) - 1 \<and> it_stringCount it = ucount v \<and>
     0 \<le> it_range it \<and> 0 \<le> it_nextString it \<and> it_nextString it \<le> it_stringCount it \<and>
     (it_nextElement it \<le> it_endElement it \<longrightarrow> 0 \<le> it_nextElement it))"

text \<open>The ranges behind the current one, and the strings not yet visited.\<close>

definition later_ranges :: "UnicodeSetIterator \<Rightarrow> (int \<times> int) list" where
  "later_ranges it =
     map (\<lambda>i. (getRangeStart (us_list (the (it_set it))) i, getRangeEnd (us_list (the (it_set it))) i))
       [nat (it_range it + 1)..<nat (it_endRange it + 1)]"

definition later_strings :: "UnicodeSetIterator \<Rightarrow> ustring option list" where
  "later_strings it = drop (nat (it_nextString it)) (uview (the (us_strings (the (it_set it)))))"

text \<open>What the loops see: a code point or a range, or the marker with a string.\<close>

definition item_of :: "UnicodeSetIterator \<Rightarrow> int \<times> ustring option" where
  "item_of it = (it_codepoint it, it_string it)"

definition range_of :: "UnicodeSetIterator \<Rightarrow> int \<times> int option \<times> ustring option" where
  "range_of it = (it_codepoint it, if it_codepoint it = IS_STRING then None else Some (it_codepointEnd it), it_string it)"

definition todo_items :: "UnicodeSetIterator \<Rightarrow> (int \<times> ustring option) list" where
  "todo_items it =
     map (\<lambda>c. (c, None)) ([it_nextElement it..it_endElement it] @ concat (map (\<lambda>(a, b). [a..b]) (later_ranges it))) @
     map (\<lambda>t. (IS_STRING, t)) (later_strings it)"

definition todo_ranges :: "UnicodeSetIterator \<Rightarrow> (int \<times> int option \<times> ustring option) list" where
  "todo_ranges it =
     map (\<lambda>(a, b). (a, Some b, None))
       ((if it_nextElement it \<le> it_endElement it then [(it_nextElement it, it_endElement it)] else []) @ later_ranges it) @
     map (\<lambda>t. (IS_STRING, None, t)) (later_strings it)"

lemma later_ranges_step:
  assumes "iter_ok it" "it_range it < it_endRange it"
  shows "\<exists>a b. loadRange (it_range it + 1) (it\<lparr>it_range := it_range it + 1\<rparr>) =
       it\<lparr>it_range := it_range it + 1, it_nextElement := a, it_endElement := b\<rparr> \<and> 0 \<le> a \<and> a \<le> b \<and>
     later_ranges it = (a, b) # later_ranges (it\<lparr>it_range := it_range it + 1\<rparr>)"
proof -
  obtain s v where s: "it_set it = Some s" "us_inv s" "it_endRange it = int (getRangeCount (us_list s)) - 1" "0 \<le> it_range it"
    using assms(1) by (auto simp: iter_ok_def)
  let ?k = "nat (it_range it + 1)"
  have k: "?k < getRangeCount (us_list s)" "nat (it_endRange it + 1) = getRangeCount (us_list s)"
    "nat (it_range it + 1 + 1) = Suc ?k" using s assms(2) by auto
  have "ilist (us_list s)" using s(2) by (simp add: us_inv_def)
  then have "0 \<le> getRangeStart (us_list s) ?k \<and> getRangeStart (us_list s) ?k \<le> getRangeEnd (us_list s) ?k"
    using inv_set_ranges k(1) by blast
  then show ?thesis using k s(1) by (simp add: loadRange_def later_ranges_def upt_conv_Cons)
qed

lemma later_strings_step:
  assumes "iter_ok it"
  shows "it_nextString it \<ge> it_stringCount it \<longleftrightarrow> later_strings it = []"
    and "\<not> it_nextString it \<ge> it_stringCount it \<Longrightarrow>
      later_strings it = UVector_elementAt (the (us_strings (the (it_set it)))) (it_nextString it) #
        later_strings (it\<lparr>it_nextString := it_nextString it + 1\<rparr>)"
proof -
  obtain s v where s: "it_set it = Some s" "us_inv s" "us_strings s = Some v" "it_stringCount it = ucount v"
     "0 \<le> it_nextString it" "it_nextString it \<le> it_stringCount it"
    using assms by (auto simp: iter_ok_def)
  have v: "uvec_inv v" using us_inv_strings [OF s(2)] s(3) by auto
  have len: "int (length (uview v)) = ucount v" using length_uview [OF v] v by (auto simp: uvec_inv_def)
  show "it_nextString it \<ge> it_stringCount it \<longleftrightarrow> later_strings it = []" using s len by (auto simp: later_strings_def)
  show "later_strings it = UVector_elementAt (the (us_strings (the (it_set it)))) (it_nextString it) #
        later_strings (it\<lparr>it_nextString := it_nextString it + 1\<rparr>)" if "\<not> it_nextString it \<ge> it_stringCount it"
  proof -
    have n: "nat (it_nextString it) < length (uview v)" "nat (it_nextString it + 1) = Suc (nat (it_nextString it))"
      using that s len by auto
    have "UVector_elementAt v (it_nextString it) = uview v ! nat (it_nextString it)"
      using that s n nth_uview [of "nat (it_nextString it)" v] by (simp add: UVector_elementAt_def)
    then show ?thesis using n s by (simp add: later_strings_def Cons_nth_drop_Suc)
  qed
qed

lemma next_string_step:
  assumes "iter_ok it"
  shows "later_strings it = [] \<Longrightarrow> next_string it = (False, it)"
    and "later_strings it = t # ts \<Longrightarrow> \<exists>it'. next_string it = (True, it') \<and> iter_ok it' \<and> it_codepoint it' = IS_STRING \<and>
       it_string it' = t \<and> later_strings it' = ts \<and> later_ranges it' = later_ranges it \<and>
       it_nextElement it' = it_nextElement it \<and> it_endElement it' = it_endElement it"
proof -
  note st = later_strings_step [OF assms]
  show "next_string it = (False, it)" if "later_strings it = []" using st(1) that by (simp add: next_string_def)
  show "\<exists>it'. next_string it = (True, it') \<and> iter_ok it' \<and> it_codepoint it' = IS_STRING \<and>
       it_string it' = t \<and> later_strings it' = ts \<and> later_ranges it' = later_ranges it \<and>
       it_nextElement it' = it_nextElement it \<and> it_endElement it' = it_endElement it" if "later_strings it = t # ts"
  proof -
    have n: "\<not> it_nextString it \<ge> it_stringCount it" using st(1) that by auto
    then show ?thesis using st(2) [OF n] that assms
      by (auto simp: next_string_def iter_ok_def later_ranges_def later_strings_def)
  qed
qed

lemma no_later_ranges: "\<not> it_range it < it_endRange it \<Longrightarrow> later_ranges it = []"
  by (simp add: later_ranges_def)

interpretation items: enumerator iter_ok todo_items iter_next item_of
proof
  fix it x xs
  assume ok: "iter_ok it" and t: "todo_items it = x # xs"
  consider "it_nextElement it \<le> it_endElement it"
    | "\<not> it_nextElement it \<le> it_endElement it" "it_range it < it_endRange it"
    | "\<not> it_nextElement it \<le> it_endElement it" "\<not> it_range it < it_endRange it" by blast
  then show "\<exists>it'. iter_next it = (True, it') \<and> iter_ok it' \<and> item_of it' = x \<and> todo_items it' = xs"
  proof cases
    case 1
    then show ?thesis using ok t
      by (auto simp: iter_next_def take_element_def iter_ok_def item_of_def todo_items_def upto_rec1
          later_ranges_def later_strings_def)
  next
    case 2
    obtain a b where ab: "loadRange (it_range it + 1) (it\<lparr>it_range := it_range it + 1\<rparr>) =
         it\<lparr>it_range := it_range it + 1, it_nextElement := a, it_endElement := b\<rparr>" "0 \<le> a" "a \<le> b"
       "later_ranges it = (a, b) # later_ranges (it\<lparr>it_range := it_range it + 1\<rparr>)"
      using later_ranges_step [OF ok 2(2)] by blast
    have "x = (a, None)" "xs = map (\<lambda>c. (c, None)) ([a + 1..b] @
        concat (map (\<lambda>(a, b). [a..b]) (later_ranges (it\<lparr>it_range := it_range it + 1\<rparr>)))) @ map (\<lambda>t. (IS_STRING, t)) (later_strings it)"
      using t 2 ab(3,4) by (auto simp: todo_items_def upto_rec1 [of a b])
    then show ?thesis using ok 2 ab(1,2)
      by (auto simp: iter_next_def take_element_def iter_ok_def item_of_def todo_items_def later_ranges_def later_strings_def)
  next
    case 3
    then obtain u us where "later_strings it = u # us" "x = (IS_STRING, u)" "xs = map (\<lambda>t. (IS_STRING, t)) us"
      using t no_later_ranges by (auto simp: todo_items_def)
    then show ?thesis using next_string_step(2) [OF ok] 3 no_later_ranges [OF 3(2)]
      by (fastforce simp: iter_next_def item_of_def todo_items_def)
  qed
next
  fix it
  assume ok: "iter_ok it" and t: "todo_items it = []"
  then have n: "\<not> it_nextElement it \<le> it_endElement it" "later_strings it = []" by (auto simp: todo_items_def)
  have "\<not> it_range it < it_endRange it"
  proof
    assume "it_range it < it_endRange it"
    from later_ranges_step [OF ok this] show False using t by (fastforce simp: todo_items_def)
  qed
  then show "\<exists>it'. iter_next it = (False, it') \<and> iter_ok it' \<and> todo_items it' = []"
    using n ok t next_string_step(1) [OF ok] by (simp add: iter_next_def)
qed

lemma nextRange_more:
  assumes ok: "iter_ok it" and t: "todo_ranges it = x # xs" and n: "it_string it = None"
  shows "\<exists>it'. iter_nextRange it = (True, it') \<and> iter_ok it' \<and> range_of it' = x \<and> todo_ranges it' = xs"
proof -
  have same: "it\<lparr>it_string := None\<rparr> = it" using n by simp
  consider "it_nextElement it \<le> it_endElement it"
    | "\<not> it_nextElement it \<le> it_endElement it" "it_range it < it_endRange it"
    | "\<not> it_nextElement it \<le> it_endElement it" "\<not> it_range it < it_endRange it" by blast
  then show ?thesis
  proof cases
    case 1
    then have "0 \<le> it_nextElement it" using ok by (auto simp: iter_ok_def)
    moreover have "iter_nextRange it = (True, take_range it)" using 1 by (simp add: iter_nextRange_def same)
    ultimately show ?thesis using ok t 1 n
      by (auto simp: take_range_def iter_ok_def range_of_def todo_ranges_def IS_STRING_def later_ranges_def later_strings_def)
  next
    case 2
    obtain a b where ab: "loadRange (it_range it + 1) (it\<lparr>it_range := it_range it + 1\<rparr>) =
         it\<lparr>it_range := it_range it + 1, it_nextElement := a, it_endElement := b\<rparr>" "0 \<le> a" "a \<le> b"
       "later_ranges it = (a, b) # later_ranges (it\<lparr>it_range := it_range it + 1\<rparr>)"
      using later_ranges_step [OF ok 2(2)] by blast
    have "x = (a, Some b, None)" "xs = map (\<lambda>(a, b). (a, Some b, None)) (later_ranges (it\<lparr>it_range := it_range it + 1\<rparr>)) @
        map (\<lambda>t. (IS_STRING, None, t)) (later_strings it)"
      using t 2 ab(4) by (auto simp: todo_ranges_def)
    moreover have "iter_nextRange it =
        (True, take_range (it\<lparr>it_range := it_range it + 1, it_nextElement := a, it_endElement := b\<rparr>))"
      using 2 by (simp add: iter_nextRange_def same ab(1))
    ultimately show ?thesis using ok ab(2) n
      by (auto simp: take_range_def iter_ok_def range_of_def todo_ranges_def IS_STRING_def later_ranges_def later_strings_def)
  next
    case 3
    then obtain u us where "later_strings it = u # us" "x = (IS_STRING, None, u)" "xs = map (\<lambda>t. (IS_STRING, None, t)) us"
      using t no_later_ranges by (auto simp: todo_ranges_def)
    moreover have "iter_nextRange it = next_string it" using 3 by (simp add: iter_nextRange_def same)
    ultimately show ?thesis using next_string_step(2) [OF ok] 3 no_later_ranges [OF 3(2)]
      by (fastforce simp: range_of_def todo_ranges_def)
  qed
qed

lemma string_irrelevant:
  "iter_nextRange (it\<lparr>it_string := t\<rparr>) = iter_nextRange it" "iter_ok (it\<lparr>it_string := t\<rparr>) = iter_ok it"
  "todo_ranges (it\<lparr>it_string := t\<rparr>) = todo_ranges it"
  by (simp_all add: iter_nextRange_def iter_ok_def todo_ranges_def later_ranges_def later_strings_def)

interpretation ranges: enumerator iter_ok todo_ranges iter_nextRange range_of
proof
  fix it x xs
  assume "iter_ok it" "todo_ranges it = x # xs"
  then show "\<exists>it'. iter_nextRange it = (True, it') \<and> iter_ok it' \<and> range_of it' = x \<and> todo_ranges it' = xs"
    using nextRange_more [of "it\<lparr>it_string := None\<rparr>" x xs] by (simp add: string_irrelevant)
next
  fix it
  assume ok: "iter_ok it" and t: "todo_ranges it = []"
  then have n: "\<not> it_nextElement it \<le> it_endElement it" "later_strings it = []" by (auto simp: todo_ranges_def)
  have "\<not> it_range it < it_endRange it"
  proof
    assume "it_range it < it_endRange it"
    from later_ranges_step [OF ok this] show False using t by (auto simp: todo_ranges_def)
  qed
  then have "iter_nextRange it = next_string (it\<lparr>it_string := None\<rparr>)" using n(1) by (simp add: iter_nextRange_def Let_def)
  moreover have "later_strings (it\<lparr>it_string := None\<rparr>) = []" using n(2) by (simp add: later_strings_def)
  ultimately show "\<exists>it'. iter_nextRange it = (False, it') \<and> iter_ok it' \<and> todo_ranges it' = []"
    using next_string_step(1) [of "it\<lparr>it_string := None\<rparr>"] ok t by (simp add: string_irrelevant)
qed

section \<open>A fresh iterator\<close>

lemma ranges_sorted:
  "ilist l \<Longrightarrow> concat (map (\<lambda>i. [getRangeStart l i..getRangeEnd l i]) [0..<getRangeCount l]) = sorted_list_of_set (inv_set l)"
proof (induction rule: ilist_induct)
  case (last s)
  then show ?case
    by (auto simp: inv_set_open getRangeCount_def getRangeStart_def getRangeEnd_def intro!: sorted_distinct_set_unique)
next
  case (range s t l)
  have suc: "getRangeStart (s # t # l) (Suc i) = getRangeStart l i" "getRangeEnd (s # t # l) (Suc i) = getRangeEnd l i" for i
    by (simp_all add: getRangeStart_def getRangeEnd_def)
  have cnt: "getRangeCount (s # t # l) = Suc (getRangeCount l)" by (simp add: getRangeCount_def)
  have "concat (map (\<lambda>i. [getRangeStart (s # t # l) i..getRangeEnd (s # t # l) i]) [0..<getRangeCount (s # t # l)]) =
      [s..t - 1] @ sorted_list_of_set (inv_set l)"
    unfolding cnt upt_conv_Cons [OF zero_less_Suc] map_Suc_upt [symmetric] range.IH [symmetric]
    by (simp add: suc comp_def) (simp add: getRangeStart_def getRangeEnd_def)
  also have "\<dots> = sorted_list_of_set (inv_set (s # t # l))"
    using inv_set_Cons2 [of s t l] range.hyps
    by (intro sorted_distinct_set_unique) (fastforce simp: sorted_append)+
  finally show ?case .
qed (simp add: inv_set_HIGH getRangeCount_def)

lemma reset_spec:
  assumes "us_inv s"
  shows "iter_ok (iter_reset_to s it)"
    and "todo_items (iter_reset_to s it) =
       map (\<lambda>c. (c, None)) (sorted_list_of_set (us_chars s)) @ map (\<lambda>t. (IS_STRING, t)) (uview (the (us_strings s)))"
    and "todo_ranges (iter_reset_to s it) =
       map (\<lambda>i. (getRangeStart (us_list s) i, Some (getRangeEnd (us_list s) i), None)) [0..<getRangeCount (us_list s)] @
       map (\<lambda>t. (IS_STRING, None, t)) (uview (the (us_strings s)))"
proof -
  obtain v where v: "us_strings s = Some v" "uvec_inv v" using us_inv_strings [OF assms] by metis
  have l: "ilist (us_list s)" using assms by (simp add: us_inv_def)
  note r = inv_set_ranges [OF l, THEN conjunct2, rule_format, of 0]
  let ?n = "getRangeCount (us_list s)"
  have "0 \<le> ucount v" using v(2) by (simp add: uvec_inv_def)
  then show "iter_ok (iter_reset_to s it)" using assms v r
    by (auto simp: iter_reset_to_def iter_reset_def Let_def loadRange_def iter_ok_def)
  have upt: "0 < ?n \<Longrightarrow> [0..<?n] = 0 # [1..<?n]" by (simp add: upt_conv_Cons)
  show "todo_items (iter_reset_to s it) =
       map (\<lambda>c. (c, None)) (sorted_list_of_set (us_chars s)) @ map (\<lambda>t. (IS_STRING, t)) (uview (the (us_strings s)))"
    unfolding us_chars_def ranges_sorted [OF l, symmetric]
    by (cases "0 < ?n") (auto simp: iter_reset_to_def iter_reset_def Let_def loadRange_def todo_items_def later_ranges_def
        later_strings_def upt comp_def)
  show "todo_ranges (iter_reset_to s it) =
       map (\<lambda>i. (getRangeStart (us_list s) i, Some (getRangeEnd (us_list s) i), None)) [0..<?n] @
       map (\<lambda>t. (IS_STRING, None, t)) (uview (the (us_strings s)))"
    using r by (cases "0 < ?n") (auto simp: iter_reset_to_def iter_reset_def Let_def loadRange_def todo_ranges_def
        later_ranges_def later_strings_def upt comp_def)
qed

lemma todo_items_size: "us_inv s \<Longrightarrow> int (length (todo_items (iter_reset_to s it))) = UnicodeSet_size s"
proof -
  assume s: "us_inv s"
  obtain v where v: "us_strings s = Some v" "uvec_inv v" using us_inv_strings [OF s] by metis
  have "int (length (uview v)) = ucount v" using length_uview [OF v(2)] v(2) by (simp add: uvec_inv_def)
  then show ?thesis using size_card [OF s] string_count_card [OF s] v(1) by (simp add: reset_spec [OF s] string_count_def)
qed

lemma cp_units_code_points: "0 \<le> c \<Longrightarrow> c < UNICODESET_HIGH \<Longrightarrow> code_points (cp_units c) = [(c, length (cp_units c))]"
proof -
  assume c: "0 \<le> c" "c < UNICODESET_HIGH"
  show ?thesis
  proof (cases "c \<le> 0xffff")
    case False
    have d: "c = 1024 * (c div 1024) + c mod 1024" "0 \<le> c mod 1024" "c mod 1024 < 1024" by simp_all
    then have "64 \<le> c div 1024" "c div 1024 < 1088" using False c(2) unfolding UNICODESET_HIGH_def by linarith+
    then show ?thesis using False d by (simp add: cp_units_def U16_LEAD_def U16_TRAIL_def is_lead_def is_trail_def get_supplementary_def)
  qed (simp add: cp_units_def)
qed

section \<open>Properties\<close>

text \<open>
  C39. A loop \<^verbatim>\<open>while(it.next())\<close> over a reset iterator ends after \<^verbatim>\<open>size()\<close> rounds, having visited every code point
  of the set once in ascending order and then every string in the order of the vector; a loop
  \<^verbatim>\<open>while(it.nextRange())\<close> visits the ranges instead of the code points.
\<close>

theorem iterator_visits_all:
  assumes "us_inv s" "UnicodeSet_size s < int n"
  shows "drain iter_next item_of n (iter_reset_to s it) =
      (map (\<lambda>c. (c, None)) (sorted_list_of_set (us_chars s)) @ map (\<lambda>t. (IS_STRING, t)) (uview (the (us_strings s))), True) \<and>
    (length (todo_ranges (iter_reset_to s it)) < n \<longrightarrow>
      drain iter_nextRange range_of n (iter_reset_to s it) =
       (map (\<lambda>i. (getRangeStart (us_list s) i, Some (getRangeEnd (us_list s) i), None)) [0..<getRangeCount (us_list s)] @
        map (\<lambda>t. (IS_STRING, None, t)) (uview (the (us_strings s))), True))"
  using items.drain_todo [OF reset_spec(1) [OF assms(1), of it], of n] ranges.drain_todo [OF reset_spec(1) [OF assms(1), of it], of n]
    todo_items_size [OF assms(1), of it] assms(2)
  by (simp add: reset_spec(2,3) [OF assms(1)])

definition digits_set :: UnicodeSet where
  "digits_set =
     \<lparr>us_list = [0x30, 0x32, UNICODESET_HIGH], us_len = 3, us_capacity = 20, us_buffer = False, us_bufferCapacity = 0,
      us_strings = Some \<lparr>ucount = 1, ucapacity = 1, uelements = [Some [0x61, 0x62]], udeleter = True, ucomparer = Some (=), udeleted = [], uinteger = (\<lambda>p. 0)\<rparr>,
      us_pat = None, us_bmpSet = None, us_stringSpan = None, us_bogus = False\<rparr>"

lemma digits_set_inv: "us_inv digits_set"
  by (auto simp: digits_set_def us_inv_def ilist_def UNICODESET_HIGH_def UNICODESET_LOW_def strings_inv_def uvec_inv_def
      uview_def sizeof_limit multi_char_def getSingleCP_def is_lead_def)

definition raw_iterator :: UnicodeSetIterator where
  "raw_iterator =
     \<lparr>it_codepoint = 0, it_codepointEnd = 0, it_string = None, it_set = None, it_endRange = 0, it_range = 0, it_endElement = 0,
      it_nextElement = 0, it_nextString = 0, it_stringCount = 0, it_cpString = None\<rparr>"

theorem iterator_visits_all_witness:
  "drain iter_next item_of 4 (iter_reset_to digits_set raw_iterator) =
     ([(0x30, None), (0x31, None), (IS_STRING, Some [0x61, 0x62])], True)"
proof -
  have c: "us_chars digits_set = {0x30, 0x31}"
    by (auto simp: us_chars_def digits_set_def inv_set_def UNICODESET_HIGH_def UNICODESET_LOW_def)
  have "UnicodeSet_size digits_set = 3"
    by (simp add: UnicodeSet_size_def range_sizes_def getRangeCount_def getRangeStart_def getRangeEnd_def digits_set_def)
  then show ?thesis using iterator_visits_all [OF digits_set_inv, of 4 raw_iterator]
    by (simp add: c) (simp add: digits_set_def uview_def)
qed

text \<open>
  After \<^verbatim>\<open>next\<close> has delivered a code point, \<^verbatim>\<open>getString\<close> returns its UTF-16 form, which reads back as that one
  code point, and a second call returns the same; after a string has been delivered it returns that string.
\<close>

theorem iterator_getString:
  "(it_string it = None \<and> 0 \<le> it_codepoint it \<and> it_codepoint it < UNICODESET_HIGH \<longrightarrow>
     (\<exists>t it'. iter_getString True it = (Some t, it') \<and> code_points t = [(it_codepoint it, length t)] \<and>
        iter_getString b it' = (Some t, it'))) \<and>
   (it_string it = Some t \<longrightarrow> iter_getString b it = (Some t, it))"
proof (intro impI conjI)
  assume "it_string it = None \<and> 0 \<le> it_codepoint it \<and> it_codepoint it < UNICODESET_HIGH"
  then show "\<exists>t it'. iter_getString True it = (Some t, it') \<and> code_points t = [(it_codepoint it, length t)] \<and>
        iter_getString b it' = (Some t, it')"
    using cp_units_code_points [of "it_codepoint it"] by (auto simp: iter_getString_def Let_def IS_STRING_def)
qed (simp add: iter_getString_def)

theorem iterator_getString_witness:
  "\<exists>t it'. iter_getString True (raw_iterator\<lparr>it_codepoint := 0x10400\<rparr>) = (Some t, it') \<and> code_points t = [(0x10400, length t)]"
  using iterator_getString [where it = "raw_iterator\<lparr>it_codepoint := 0x10400\<rparr>" and b = True]
  by (auto simp: raw_iterator_def UNICODESET_HIGH_def)

end
