(* ===== verification/UHash.thy ===== *)
theory UHash
  imports Prelude "HOL-Library.Word"
begin

unbundle bit_operations_syntax

text \<open>
  The hash table of \<^verbatim>\<open>common/uhash.c\<close>: open addressing with double hashing in an array of prime
  length, deleted slots marked, growing and shrinking by water marks. This theory holds the
  state and the operations.

  A \<^verbatim>\<open>UHashTok\<close>, the union of a pointer and an integer, is an integer whose value 0 is both
  \<^verbatim>\<open>NULL\<close> and 0. The hash function and the comparators are parameters of the table, fields of its
  state as in the code. Deleters are given by whether they are set; the tokens handed to
  them are recorded. A result \<open>None\<close> of an operation is a search that does not end, an
  access through \<^verbatim>\<open>NULL\<close> or an overflow of \<^verbatim>\<open>int32_t\<close>.
\<close>

section \<open>State\<close>

type_synonym tok = int

record UHashElement =
  he_hashcode :: int
  he_value :: tok
  he_key :: tok

text \<open>The ratios 0.0F, 0.1F, 0.5F and 1.0F of the resize policies.\<close>

datatype ratio = Ratio_0 | Ratio_01 | Ratio_05 | Ratio_1

datatype UHashResizePolicy = U_GROW | U_GROW_AND_SHRINK | U_FIXED

record UHashtable =
  ht_elements :: "UHashElement list"
  ht_keyHasher :: "tok \<Rightarrow> int"
  ht_keyComparator :: "tok \<Rightarrow> tok \<Rightarrow> bool"
  ht_valueComparator :: "(tok \<Rightarrow> tok \<Rightarrow> bool) option"
  ht_keyDeleter :: bool
  ht_valueDeleter :: bool
  ht_count :: int
  ht_length :: int
  ht_highWaterMark :: int
  ht_lowWaterMark :: int
  ht_highWaterRatio :: ratio
  ht_lowWaterRatio :: ratio
  ht_primeIndex :: int
  ht_allocated :: bool
  ht_deletedKeys :: "tok list"
  ht_deletedValues :: "tok list"

definition PRIMES :: "int list" where
  "PRIMES =
     [13, 31, 61, 127, 251, 509, 1021, 2039, 4093, 8191, 16381, 32749,
      65521, 131071, 262139, 524287, 1048573, 2097143, 4194301, 8388593,
      16777213, 33554393, 67108859, 134217689, 268435399, 536870909,
      1073741789, 2147483647]"

definition PRIMES_LENGTH :: int where
  "PRIMES_LENGTH = 28"

definition DEFAULT_PRIME_INDEX :: int where
  "DEFAULT_PRIME_INDEX = 3"

definition HASH_DELETED :: int where
  "HASH_DELETED = - 0x80000000"

definition HASH_EMPTY :: int where
  "HASH_EMPTY = HASH_DELETED + 1"

definition IS_EMPTY_OR_DELETED :: "int \<Rightarrow> bool" where
  "IS_EMPTY_OR_DELETED x \<longleftrightarrow> x < 0"

definition UHASH_FIRST :: int where
  "UHASH_FIRST = -1"

section \<open>Water marks\<close>

text \<open>
  \<^verbatim>\<open>(int32_t)(length * ratio)\<close> in single precision: the length and the product are rounded to 24
  significant bits, to the nearest value and to the even one of two, and the result is
  truncated. 0.1F is \<open>13421773 / 2\<^sup>2\<^sup>7\<close>.
\<close>

function excess :: "int \<Rightarrow> nat" where
  "excess n = (if n < 0x1000000 then 0 else Suc (excess (n div 2)))"
  by auto
termination by (relation "measure nat") auto

definition round24 :: "int \<Rightarrow> int" where
  "round24 n =
     (let u = 2 ^ excess n; q = n div u; r = n mod u in
      (if 2 * r > u \<or> (2 * r = u \<and> odd q) then q + 1 else q) * u)"

fun water_mark :: "int \<Rightarrow> ratio \<Rightarrow> int" where
  "water_mark n Ratio_0 = 0"
| "water_mark n Ratio_01 = round24 (round24 n * 13421773) div 0x8000000"
| "water_mark n Ratio_05 = round24 n div 2"
| "water_mark n Ratio_1 = round24 n"

fun policy_ratios :: "UHashResizePolicy \<Rightarrow> ratio \<times> ratio" where
  "policy_ratios U_GROW = (Ratio_0, Ratio_05)"
| "policy_ratios U_GROW_AND_SHRINK = (Ratio_01, Ratio_05)"
| "policy_ratios U_FIXED = (Ratio_0, Ratio_1)"

section \<open>Private operations\<close>

definition uhash_setElement :: "nat \<Rightarrow> int \<Rightarrow> tok \<Rightarrow> tok \<Rightarrow> UHashtable \<Rightarrow> tok \<times> UHashtable" where
  "uhash_setElement i hashcode key value hash =
     (let e = ht_elements hash ! i;
          oldValue = he_value e;
          hash1 = (if ht_keyDeleter hash \<and> he_key e \<noteq> 0 \<and> he_key e \<noteq> key
                   then hash\<lparr>ht_deletedKeys := ht_deletedKeys hash @ [he_key e]\<rparr> else hash);
          hash2 = (if ht_valueDeleter hash1 \<and> oldValue \<noteq> 0 \<and> oldValue \<noteq> value
                   then hash1\<lparr>ht_deletedValues := ht_deletedValues hash1 @ [oldValue]\<rparr> else hash1)
      in (if ht_valueDeleter hash then 0 else oldValue,
          hash2\<lparr>ht_elements := (ht_elements hash2)
                   [i := \<lparr>he_hashcode = hashcode, he_value = value, he_key = key\<rparr>]\<rparr>))"

definition uhash_internalRemoveElement :: "nat \<Rightarrow> UHashtable \<Rightarrow> tok \<times> UHashtable" where
  "uhash_internalRemoveElement i hash = uhash_setElement i HASH_DELETED 0 0 (hash\<lparr>ht_count := ht_count hash - 1\<rparr>)"

definition uhash_internalSetResizePolicy :: "UHashResizePolicy \<Rightarrow> UHashtable \<Rightarrow> UHashtable" where
  "uhash_internalSetResizePolicy policy hash =
     hash\<lparr>ht_lowWaterRatio := fst (policy_ratios policy), ht_highWaterRatio := snd (policy_ratios policy)\<rparr>"

definition sizeof_UHashElement :: int where
  "sizeof_UHashElement = 24"

definition empty_element :: UHashElement where
  "empty_element = \<lparr>he_hashcode = HASH_EMPTY, he_value = 0, he_key = 0\<rparr>"

definition uhash_allocate :: "UHashElement heap \<Rightarrow> int \<Rightarrow> UHashtable \<Rightarrow> UErrorCode \<Rightarrow> UHashtable \<times> UErrorCode" where
  "uhash_allocate hp primeIndex hash status =
     (if U_FAILURE status then (hash, status)
      else
        let n = PRIMES ! nat primeIndex;
            hash1 = hash\<lparr>ht_primeIndex := primeIndex, ht_length := n\<rparr>
        in case uprv_malloc hp sizeof_UHashElement n of
             None \<Rightarrow> (hash1\<lparr>ht_elements := []\<rparr>, U_MEMORY_ALLOCATION_ERROR)
           | Some block \<Rightarrow>
               (hash1\<lparr>ht_elements := map (\<lambda>e. empty_element) block,
                      ht_count := 0,
                      ht_lowWaterMark := water_mark n (ht_lowWaterRatio hash1),
                      ht_highWaterMark := water_mark n (ht_highWaterRatio hash1)\<rparr>, status))"

definition uhash_init_table :: "UHashElement heap \<Rightarrow> UHashtable \<Rightarrow> (tok \<Rightarrow> int) \<Rightarrow> (tok \<Rightarrow> tok \<Rightarrow> bool) \<Rightarrow>
    (tok \<Rightarrow> tok \<Rightarrow> bool) option \<Rightarrow> int \<Rightarrow> UErrorCode \<Rightarrow> UHashtable option \<times> UErrorCode" where
  "uhash_init_table hp raw keyHash keyComp valueComp primeIndex status =
     (if U_FAILURE status then (None, status)
      else
        let r1 = raw\<lparr>ht_keyHasher := keyHash, ht_keyComparator := keyComp, ht_valueComparator := valueComp,
                      ht_keyDeleter := False, ht_valueDeleter := False, ht_allocated := False,
                      ht_deletedKeys := [], ht_deletedValues := []\<rparr>;
            (r2, st) = uhash_allocate hp primeIndex (uhash_internalSetResizePolicy U_GROW r1) status
        in if U_FAILURE st then (None, st) else (Some r2, st))"

text \<open>\<open>ok\<close> is whether the block of the table itself can be allocated; \<open>raw\<close> is its uninitialized content.\<close>

definition uhash_create :: "bool \<Rightarrow> UHashElement heap \<Rightarrow> UHashtable \<Rightarrow> (tok \<Rightarrow> int) \<Rightarrow> (tok \<Rightarrow> tok \<Rightarrow> bool) \<Rightarrow>
    (tok \<Rightarrow> tok \<Rightarrow> bool) option \<Rightarrow> int \<Rightarrow> UErrorCode \<Rightarrow> UHashtable option \<times> UErrorCode" where
  "uhash_create ok hp raw keyHash keyComp valueComp primeIndex status =
     (if U_FAILURE status then (None, status)
      else if \<not> ok then (None, U_MEMORY_ALLOCATION_ERROR)
      else
        case uhash_init_table hp raw keyHash keyComp valueComp primeIndex status of
          (r, st) \<Rightarrow> if U_FAILURE st then (None, st) else (map_option (\<lambda>h. h\<lparr>ht_allocated := True\<rparr>) r, st))"

section \<open>Searching\<close>

text \<open>\<^verbatim>\<open>hashcode & 0x7FFFFFFF\<close> of a 32-bit value.\<close>

definition positive_hash :: "int \<Rightarrow> int" where
  "positive_hash hashcode = hashcode mod 0x80000000"

definition start_index :: "int \<Rightarrow> int \<Rightarrow> int" where
  "start_index n hashcode = (hashcode XOR 0x4000000) mod n"

definition jump_of :: "int \<Rightarrow> int \<Rightarrow> int" where
  "jump_of n hashcode = hashcode mod (n - 1) + 1"

datatype slot = At int | NULL_slot

text \<open>The loop of \<^verbatim>\<open>_uhash_find\<close>; \<open>None\<close> also when the sum of the index and the jump exceeds \<^verbatim>\<open>INT32_MAX\<close>.\<close>

partial_function (option) find_loop :: "UHashtable \<Rightarrow> tok \<Rightarrow> int \<Rightarrow> int \<Rightarrow> int \<Rightarrow> slot option" where
  "find_loop hash key hashcode firstDeleted theIndex =
     (let e = ht_elements hash ! nat theIndex; tableHash = he_hashcode e in
      if tableHash = hashcode \<and> ht_keyComparator hash key (he_key e) then Some (At theIndex)
      else if tableHash \<noteq> hashcode \<and> tableHash = HASH_EMPTY then
        Some (At (if firstDeleted \<ge> 0 then firstDeleted else theIndex))
      else
        let firstDeleted' = (if tableHash \<noteq> hashcode \<and> IS_EMPTY_OR_DELETED tableHash \<and> firstDeleted < 0
                             then theIndex else firstDeleted);
            theIndex' = (theIndex + jump_of (ht_length hash) hashcode) mod ht_length hash
        in if theIndex + jump_of (ht_length hash) hashcode > INT32_MAX then None
           else if theIndex' \<noteq> start_index (ht_length hash) hashcode
           then find_loop hash key hashcode firstDeleted' theIndex'
           else Some (if firstDeleted' \<ge> 0 then At firstDeleted' else NULL_slot))"

definition uhash_find_slot :: "UHashtable \<Rightarrow> tok \<Rightarrow> int \<Rightarrow> slot option" where
  "uhash_find_slot hash key hashcode0 =
     (let hashcode = positive_hash hashcode0 in
      find_loop hash key hashcode (-1) (start_index (ht_length hash) hashcode))"

text \<open>The callers dereference the slot.\<close>

definition find_index :: "UHashtable \<Rightarrow> tok \<Rightarrow> int \<Rightarrow> nat option" where
  "find_index hash key hashcode =
     (case uhash_find_slot hash key hashcode of Some (At i) \<Rightarrow> Some (nat i) | _ \<Rightarrow> None)"

section \<open>Rehashing\<close>

definition rehash_insert :: "UHashElement \<Rightarrow> UHashtable \<Rightarrow> UHashtable option" where
  "rehash_insert old hash =
     (if \<not> IS_EMPTY_OR_DELETED (he_hashcode old) then
        map_option
          (\<lambda>j. hash\<lparr>ht_elements := (ht_elements hash)
                      [j := (ht_elements hash ! j)\<lparr>he_key := he_key old, he_value := he_value old, he_hashcode := he_hashcode old\<rparr>],
                    ht_count := ht_count hash + 1\<rparr>)
          (find_index hash (he_key old) (he_hashcode old))
      else Some hash)"

definition rehash_all :: "UHashElement list \<Rightarrow> UHashtable \<Rightarrow> UHashtable option" where
  "rehash_all old hash = fold (\<lambda>e h. Option.bind h (rehash_insert e)) (rev old) (Some hash)"

definition uhash_rehash :: "UHashElement heap \<Rightarrow> UHashtable \<Rightarrow> UErrorCode \<Rightarrow> (UHashtable \<times> UErrorCode) option" where
  "uhash_rehash hp hash status =
     (let newPrimeIndex =
            (if ht_count hash > ht_highWaterMark hash then
               (if ht_primeIndex hash + 1 \<ge> PRIMES_LENGTH then None else Some (ht_primeIndex hash + 1))
             else if ht_count hash < ht_lowWaterMark hash then
               (if ht_primeIndex hash - 1 < 0 then None else Some (ht_primeIndex hash - 1))
             else None)
      in case newPrimeIndex of
           None \<Rightarrow> Some (hash, status)
         | Some p \<Rightarrow>
             (case uhash_allocate hp p hash status of
                (hash1, st) \<Rightarrow>
                  if U_FAILURE st
                  then Some (hash1\<lparr>ht_elements := ht_elements hash, ht_length := ht_length hash\<rparr>, st)
                  else map_option (\<lambda>h. (h, st)) (rehash_all (ht_elements hash) hash1)))"

section \<open>Removing and putting\<close>

definition uhash_remove_tok :: "UHashElement heap \<Rightarrow> tok \<Rightarrow> UHashtable \<Rightarrow> (tok \<times> UHashtable) option" where
  "uhash_remove_tok hp key hash =
     Option.bind (find_index hash key (ht_keyHasher hash key))
       (\<lambda>i. if \<not> IS_EMPTY_OR_DELETED (he_hashcode (ht_elements hash ! i)) then
              (case uhash_internalRemoveElement i hash of
                 (result, hash1) \<Rightarrow>
                   if ht_count hash1 < ht_lowWaterMark hash1
                   then map_option (\<lambda>(h, st). (result, h)) (uhash_rehash hp hash1 U_ZERO_ERROR)
                   else Some (result, hash1))
            else Some (0, hash))"

definition HASH_DELETE_KEY_VALUE :: "tok \<Rightarrow> tok \<Rightarrow> UHashtable \<Rightarrow> UHashtable" where
  "HASH_DELETE_KEY_VALUE key value hash =
     (let hash1 = (if ht_keyDeleter hash \<and> key \<noteq> 0
                   then hash\<lparr>ht_deletedKeys := ht_deletedKeys hash @ [key]\<rparr> else hash)
      in if ht_valueDeleter hash1 \<and> value \<noteq> 0
         then hash1\<lparr>ht_deletedValues := ht_deletedValues hash1 @ [value]\<rparr> else hash1)"

text \<open>\<open>value_hint\<close> is the bit \<^verbatim>\<open>HINT_VALUE_POINTER\<close>.\<close>

definition put_error :: "tok \<Rightarrow> tok \<Rightarrow> UHashtable \<Rightarrow> UErrorCode \<Rightarrow> (tok \<times> UHashtable \<times> UErrorCode) option" where
  "put_error key value hash st = Some (0, HASH_DELETE_KEY_VALUE key value hash, st)"

definition uhash_put_tok :: "UHashElement heap \<Rightarrow> bool \<Rightarrow> tok \<Rightarrow> tok \<Rightarrow> UHashtable \<Rightarrow> UErrorCode \<Rightarrow>
    (tok \<times> UHashtable \<times> UErrorCode) option" where
  "uhash_put_tok hp value_hint key value hash status =
     (if U_FAILURE status then put_error key value hash status
      else if value_hint \<and> value = 0 then map_option (\<lambda>(r, h). (r, h, status)) (uhash_remove_tok hp key hash)
      else
        Option.bind (if ht_count hash > ht_highWaterMark hash then uhash_rehash hp hash status else Some (hash, status))
          (\<lambda>(hash1, st).
             if U_FAILURE st then put_error key value hash1 st
             else
               let hashcode = ht_keyHasher hash1 key in
               Option.bind (find_index hash1 key hashcode)
                 (\<lambda>i.
                    let vacant = IS_EMPTY_OR_DELETED (he_hashcode (ht_elements hash1 ! i)) in
                    if vacant \<and> ht_count hash1 + 1 = ht_length hash1
                    then put_error key value hash1 U_MEMORY_ALLOCATION_ERROR
                    else
                      case uhash_setElement i (positive_hash hashcode) key value
                             (if vacant then hash1\<lparr>ht_count := ht_count hash1 + 1\<rparr> else hash1) of
                        (r, h) \<Rightarrow> Some (r, h, st))))"

section \<open>Public operations\<close>

definition uhash_open :: "bool \<Rightarrow> UHashElement heap \<Rightarrow> UHashtable \<Rightarrow> (tok \<Rightarrow> int) \<Rightarrow> (tok \<Rightarrow> tok \<Rightarrow> bool) \<Rightarrow>
    (tok \<Rightarrow> tok \<Rightarrow> bool) option \<Rightarrow> UErrorCode \<Rightarrow> UHashtable option \<times> UErrorCode" where
  "uhash_open ok hp raw keyHash keyComp valueComp status =
     uhash_create ok hp raw keyHash keyComp valueComp DEFAULT_PRIME_INDEX status"

definition prime_index_for :: "int \<Rightarrow> int" where
  "prime_index_for size' = int (length (takeWhile (\<lambda>p. p < size') (butlast PRIMES)))"

definition uhash_openSize :: "bool \<Rightarrow> UHashElement heap \<Rightarrow> UHashtable \<Rightarrow> (tok \<Rightarrow> int) \<Rightarrow> (tok \<Rightarrow> tok \<Rightarrow> bool) \<Rightarrow>
    (tok \<Rightarrow> tok \<Rightarrow> bool) option \<Rightarrow> int \<Rightarrow> UErrorCode \<Rightarrow> UHashtable option \<times> UErrorCode" where
  "uhash_openSize ok hp raw keyHash keyComp valueComp size' status =
     uhash_create ok hp raw keyHash keyComp valueComp (prime_index_for size') status"

definition uhash_init :: "UHashElement heap \<Rightarrow> UHashtable \<Rightarrow> (tok \<Rightarrow> int) \<Rightarrow> (tok \<Rightarrow> tok \<Rightarrow> bool) \<Rightarrow>
    (tok \<Rightarrow> tok \<Rightarrow> bool) option \<Rightarrow> UErrorCode \<Rightarrow> UHashtable option \<times> UErrorCode" where
  "uhash_init hp fillinResult keyHash keyComp valueComp status =
     uhash_init_table hp fillinResult keyHash keyComp valueComp DEFAULT_PRIME_INDEX status"

definition uhash_setKeyHasher :: "(tok \<Rightarrow> int) \<Rightarrow> UHashtable \<Rightarrow> (tok \<Rightarrow> int) \<times> UHashtable" where
  "uhash_setKeyHasher fn hash = (ht_keyHasher hash, hash\<lparr>ht_keyHasher := fn\<rparr>)"

definition uhash_setKeyComparator :: "(tok \<Rightarrow> tok \<Rightarrow> bool) \<Rightarrow> UHashtable \<Rightarrow> (tok \<Rightarrow> tok \<Rightarrow> bool) \<times> UHashtable" where
  "uhash_setKeyComparator fn hash = (ht_keyComparator hash, hash\<lparr>ht_keyComparator := fn\<rparr>)"

definition uhash_setValueComparator :: "(tok \<Rightarrow> tok \<Rightarrow> bool) option \<Rightarrow> UHashtable \<Rightarrow> (tok \<Rightarrow> tok \<Rightarrow> bool) option \<times> UHashtable" where
  "uhash_setValueComparator fn hash = (ht_valueComparator hash, hash\<lparr>ht_valueComparator := fn\<rparr>)"

definition uhash_setKeyDeleter :: "bool \<Rightarrow> UHashtable \<Rightarrow> bool \<times> UHashtable" where
  "uhash_setKeyDeleter fn hash = (ht_keyDeleter hash, hash\<lparr>ht_keyDeleter := fn\<rparr>)"

definition uhash_setValueDeleter :: "bool \<Rightarrow> UHashtable \<Rightarrow> bool \<times> UHashtable" where
  "uhash_setValueDeleter fn hash = (ht_valueDeleter hash, hash\<lparr>ht_valueDeleter := fn\<rparr>)"

definition uhash_setResizePolicy :: "UHashElement heap \<Rightarrow> UHashResizePolicy \<Rightarrow> UHashtable \<Rightarrow> UHashtable option" where
  "uhash_setResizePolicy hp policy hash =
     (let hash1 = uhash_internalSetResizePolicy policy hash;
          hash2 = hash1\<lparr>ht_lowWaterMark := water_mark (ht_length hash1) (ht_lowWaterRatio hash1),
                         ht_highWaterMark := water_mark (ht_length hash1) (ht_highWaterRatio hash1)\<rparr>
      in map_option fst (uhash_rehash hp hash2 U_ZERO_ERROR))"

definition uhash_count :: "UHashtable \<Rightarrow> int" where
  "uhash_count hash = ht_count hash"

definition uhash_get :: "UHashtable \<Rightarrow> tok \<Rightarrow> tok option" where
  "uhash_get hash key =
     map_option (\<lambda>i. he_value (ht_elements hash ! i)) (find_index hash key (ht_keyHasher hash key))"

definition uhash_iget :: "UHashtable \<Rightarrow> int \<Rightarrow> tok option" where
  "uhash_iget hash key =
     map_option (\<lambda>i. he_value (ht_elements hash ! i)) (find_index hash key (ht_keyHasher hash key))"

definition uhash_geti :: "UHashtable \<Rightarrow> tok \<Rightarrow> int option" where
  "uhash_geti hash key =
     map_option (\<lambda>i. he_value (ht_elements hash ! i)) (find_index hash key (ht_keyHasher hash key))"

definition uhash_igeti :: "UHashtable \<Rightarrow> int \<Rightarrow> int option" where
  "uhash_igeti hash key =
     map_option (\<lambda>i. he_value (ht_elements hash ! i)) (find_index hash key (ht_keyHasher hash key))"

definition uhash_put :: "UHashElement heap \<Rightarrow> tok \<Rightarrow> tok \<Rightarrow> UHashtable \<Rightarrow> UErrorCode \<Rightarrow> (tok \<times> UHashtable \<times> UErrorCode) option" where
  "uhash_put hp key value hash status = uhash_put_tok hp True key value hash status"

definition uhash_iput :: "UHashElement heap \<Rightarrow> int \<Rightarrow> tok \<Rightarrow> UHashtable \<Rightarrow> UErrorCode \<Rightarrow> (tok \<times> UHashtable \<times> UErrorCode) option" where
  "uhash_iput hp key value hash status = uhash_put_tok hp True key value hash status"

definition uhash_puti :: "UHashElement heap \<Rightarrow> tok \<Rightarrow> int \<Rightarrow> UHashtable \<Rightarrow> UErrorCode \<Rightarrow> (tok \<times> UHashtable \<times> UErrorCode) option" where
  "uhash_puti hp key value hash status = uhash_put_tok hp False key value hash status"

definition uhash_iputi :: "UHashElement heap \<Rightarrow> int \<Rightarrow> int \<Rightarrow> UHashtable \<Rightarrow> UErrorCode \<Rightarrow> (tok \<times> UHashtable \<times> UErrorCode) option" where
  "uhash_iputi hp key value hash status = uhash_put_tok hp False key value hash status"

definition uhash_remove :: "UHashElement heap \<Rightarrow> tok \<Rightarrow> UHashtable \<Rightarrow> (tok \<times> UHashtable) option" where
  "uhash_remove hp key hash = uhash_remove_tok hp key hash"

definition uhash_iremove :: "UHashElement heap \<Rightarrow> int \<Rightarrow> UHashtable \<Rightarrow> (tok \<times> UHashtable) option" where
  "uhash_iremove hp key hash = uhash_remove_tok hp key hash"

definition uhash_removei :: "UHashElement heap \<Rightarrow> tok \<Rightarrow> UHashtable \<Rightarrow> (int \<times> UHashtable) option" where
  "uhash_removei hp key hash = uhash_remove_tok hp key hash"

definition uhash_iremovei :: "UHashElement heap \<Rightarrow> int \<Rightarrow> UHashtable \<Rightarrow> (int \<times> UHashtable) option" where
  "uhash_iremovei hp key hash = uhash_remove_tok hp key hash"

definition uhash_nextElement :: "UHashtable \<Rightarrow> int \<Rightarrow> nat option" where
  "uhash_nextElement hash pos =
     List.find (\<lambda>i. \<not> IS_EMPTY_OR_DELETED (he_hashcode (ht_elements hash ! i))) [nat (pos + 1)..<nat (ht_length hash)]"

definition uhash_removeElement :: "nat \<Rightarrow> UHashtable \<Rightarrow> tok \<times> UHashtable" where
  "uhash_removeElement i hash =
     (if \<not> IS_EMPTY_OR_DELETED (he_hashcode (ht_elements hash ! i)) then uhash_internalRemoveElement i hash else (0, hash))"

lemma setElement_length [simp]: "ht_length (snd (uhash_setElement i hc k v h)) = ht_length h"
  by (simp add: uhash_setElement_def Let_def)

lemma nextElement_bounds: "uhash_nextElement h pos = Some i \<Longrightarrow> pos < int i \<and> int i < ht_length h"
  by (auto simp: uhash_nextElement_def find_Some_iff)

function removeAll_loop :: "UHashtable \<Rightarrow> int \<Rightarrow> UHashtable" where
  "removeAll_loop hash pos =
     (case uhash_nextElement hash pos of
        None \<Rightarrow> hash
      | Some i \<Rightarrow> removeAll_loop (snd (uhash_removeElement i hash)) (int i))"
  by auto
termination
  by (relation "measure (\<lambda>(h, pos). nat (ht_length h - pos))")
     (auto simp: uhash_removeElement_def uhash_internalRemoveElement_def dest: nextElement_bounds)

definition uhash_removeAll :: "UHashtable \<Rightarrow> UHashtable" where
  "uhash_removeAll hash = (if ht_count hash \<noteq> 0 then removeAll_loop hash UHASH_FIRST else hash)"

text \<open>
  \<^verbatim>\<open>uhash_close\<close> hands every remaining key and value to the deleters and frees the array, here the empty list.
\<close>

lemma delete_key_value_frame [simp]:
  "ht_length (HASH_DELETE_KEY_VALUE k v h) = ht_length h" "ht_elements (HASH_DELETE_KEY_VALUE k v h) = ht_elements h"
  by (simp_all add: HASH_DELETE_KEY_VALUE_def Let_def)

function close_loop :: "UHashtable \<Rightarrow> int \<Rightarrow> UHashtable" where
  "close_loop hash pos =
     (case uhash_nextElement hash pos of
        None \<Rightarrow> hash
      | Some i \<Rightarrow>
          close_loop (HASH_DELETE_KEY_VALUE (he_key (ht_elements hash ! i)) (he_value (ht_elements hash ! i)) hash) (int i))"
  by auto
termination
  by (relation "measure (\<lambda>(h, pos). nat (ht_length h - pos))") (auto dest: nextElement_bounds)

definition uhash_close :: "UHashtable \<Rightarrow> UHashtable" where
  "uhash_close hash =
     (if ht_elements hash \<noteq> [] then
        (if ht_keyDeleter hash \<or> ht_valueDeleter hash then close_loop hash UHASH_FIRST else hash)\<lparr>ht_elements := []\<rparr>
      else hash)"

text \<open>\<^verbatim>\<open>uhash_find\<close> returns the element or \<^verbatim>\<open>NULL\<close>, the inner \<open>None\<close>.\<close>

definition uhash_find :: "UHashtable \<Rightarrow> tok \<Rightarrow> nat option option" where
  "uhash_find hash key =
     map_option (\<lambda>i. if IS_EMPTY_OR_DELETED (he_hashcode (ht_elements hash ! i)) then None else Some i)
       (find_index hash key (ht_keyHasher hash key))"

text \<open>\<^verbatim>\<open>uhash_equals\<close> for two different tables; \<open>same_functions\<close> is the comparison of their function pointers.\<close>

fun equals_loop :: "nat \<Rightarrow> (tok \<Rightarrow> tok \<Rightarrow> bool) \<Rightarrow> UHashtable \<Rightarrow> UHashtable \<Rightarrow> int \<Rightarrow> bool option" where
  "equals_loop 0 cmp hash1 hash2 pos = Some True"
| "equals_loop (Suc n) cmp hash1 hash2 pos =
     Option.bind (uhash_nextElement hash1 pos)
       (\<lambda>i. let elem1 = ht_elements hash1 ! i in
            Option.bind (find_index hash2 (he_key elem1) (ht_keyHasher hash2 (he_key elem1)))
              (\<lambda>j. if \<not> cmp (he_value elem1) (he_value (ht_elements hash2 ! j)) then Some False
                   else equals_loop n cmp hash1 hash2 (int i)))"

definition uhash_equals :: "bool \<Rightarrow> UHashtable \<Rightarrow> UHashtable \<Rightarrow> bool option" where
  "uhash_equals same_functions hash1 hash2 =
     (if \<not> same_functions \<or> ht_valueComparator hash1 = None then Some False
      else if uhash_count hash1 \<noteq> uhash_count hash2 then Some False
      else equals_loop (nat (uhash_count hash1)) (the (ht_valueComparator hash1)) hash1 hash2 UHASH_FIRST)"

definition uhash_hashLong :: "tok \<Rightarrow> int" where
  "uhash_hashLong key = key"

definition uhash_compareLong :: "tok \<Rightarrow> tok \<Rightarrow> bool" where
  "uhash_compareLong key1 key2 \<longleftrightarrow> key1 = key2"

end
