(* ===== verification/UHashProofs.thy ===== *)
theory UHashProofs
  imports UHash
begin

text \<open>
  Correctness of the hash table: the probe sequence visits every slot, the search ends and finds
  the key or a place for it, and the operations implement a finite map on the classes of equal
  keys.
\<close>

section \<open>The probe sequence\<close>

text \<open>A length that is relatively prime to every jump, that is, a prime, and so small that indices and jumps add up without overflow.\<close>

definition good_len :: "int \<Rightarrow> bool" where
  "good_len n \<longleftrightarrow> 2 < n \<and> n \<le> 0x40000000 \<and> (\<forall>j. 0 < j \<and> j < n \<longrightarrow> coprime j n)"

definition probe :: "int \<Rightarrow> int \<Rightarrow> nat \<Rightarrow> int" where
  "probe n hc k = (start_index n hc + int k * jump_of n hc) mod n"

lemma jump_range: "2 < n \<Longrightarrow> 0 < jump_of n hc \<and> jump_of n hc < n"
  using pos_mod_bound [of "n - 1" hc] pos_mod_sign [of "n - 1" hc] unfolding jump_of_def by linarith

lemma probe_range: "0 < n \<Longrightarrow> 0 \<le> probe n hc k \<and> probe n hc k < n"
  by (simp add: probe_def)

lemma probe_0: "probe n hc 0 = start_index n hc"
  by (simp add: probe_def start_index_def)

lemma probe_Suc: "(probe n hc k + jump_of n hc) mod n = probe n hc (Suc k)"
  unfolding probe_def mod_add_left_eq by (simp add: algebra_simps)

lemma probe_inj:
  assumes "good_len n" "int k < n" "int l < n" "probe n hc k = probe n hc l"
  shows "k = l"
proof -
  have n: "2 < n" using assms(1) by (simp add: good_len_def)
  have "n dvd (start_index n hc + int k * jump_of n hc) - (start_index n hc + int l * jump_of n hc)"
    using assms(4) unfolding probe_def by (rule mod_eq_dvd_iff [THEN iffD1])
  then have "n dvd (int k - int l) * jump_of n hc" by (simp add: algebra_simps)
  moreover have "coprime n (jump_of n hc)"
    using assms(1) jump_range [OF n, of hc] by (auto simp: good_len_def coprime_commute)
  ultimately have "n dvd int k - int l" using coprime_dvd_mult_left_iff by blast
  then show ?thesis using assms(2,3) zdvd_imp_le [of n "int k - int l"] zdvd_imp_le [of n "int l - int k"]
    by (cases k l rule: linorder_cases) (auto simp: dvd_diff_commute)
qed

lemma probe_surj:
  assumes "good_len n" "0 \<le> i" "i < n"
  obtains k where "int k < n" "probe n hc k = i"
proof -
  have n: "2 < n" using assms(1) by (simp add: good_len_def)
  let ?f = "\<lambda>k. nat (probe n hc k)"
  have "inj_on ?f {0..<nat n}"
  proof (rule inj_onI)
    fix x y assume *: "x \<in> {0..<nat n}" "y \<in> {0..<nat n}" "?f x = ?f y"
    then have "probe n hc x = probe n hc y" using probe_range [of n hc] n by (simp add: nat_eq_iff)
    then show "x = y" using probe_inj [OF assms(1)] * by auto
  qed
  moreover have "?f ` {0..<nat n} \<subseteq> {0..<nat n}" using probe_range [of n hc] n by (auto simp: nat_less_iff)
  ultimately have "?f ` {0..<nat n} = {0..<nat n}" by (simp add: endo_inj_surj)
  moreover have "nat i \<in> {0..<nat n}" using assms(2,3) by simp
  ultimately have "nat i \<in> ?f ` {0..<nat n}" by simp
  then obtain k where k: "k \<in> {0..<nat n}" "nat i = ?f k" by (rule imageE)
  then have "int k < n" "probe n hc k = i" using assms(2) probe_range [of n hc k] n by auto
  then show ?thesis by (rule that)
qed

section \<open>The search\<close>

abbreviation vacant :: "UHashElement \<Rightarrow> bool" where
  "vacant e \<equiv> he_hashcode e < 0"

definition matching :: "(tok \<Rightarrow> tok \<Rightarrow> bool) \<Rightarrow> tok \<Rightarrow> int \<Rightarrow> UHashElement \<Rightarrow> bool" where
  "matching cmp key hc e \<longleftrightarrow> he_hashcode e = hc \<and> cmp key (he_key e)"

text \<open>\<open>passed els cmp key hc k\<close>: the first \<open>k\<close> probes neither match nor are empty.\<close>

definition passed :: "UHashElement list \<Rightarrow> (tok \<Rightarrow> tok \<Rightarrow> bool) \<Rightarrow> tok \<Rightarrow> int \<Rightarrow> nat \<Rightarrow> bool" where
  "passed els cmp key hc k \<longleftrightarrow>
     (\<forall>j < k. let e = els ! nat (probe (int (length els)) hc j) in \<not> matching cmp key hc e \<and> he_hashcode e \<noteq> HASH_EMPTY)"

definition first_deleted :: "UHashElement list \<Rightarrow> int \<Rightarrow> nat \<Rightarrow> int \<Rightarrow> bool" where
  "first_deleted els hc k fd \<longleftrightarrow>
     (if fd < 0 then \<forall>j < k. \<not> vacant (els ! nat (probe (int (length els)) hc j))
      else \<exists>j < k. fd = probe (int (length els)) hc j \<and> vacant (els ! nat fd))"

text \<open>What the search returns: a match, or a place for the key, or nothing in a full table without it.\<close>

definition search_result :: "UHashElement list \<Rightarrow> (tok \<Rightarrow> tok \<Rightarrow> bool) \<Rightarrow> tok \<Rightarrow> int \<Rightarrow> slot \<Rightarrow> bool" where
  "search_result els cmp key hc r \<longleftrightarrow>
     (case r of
        At i \<Rightarrow> (\<exists>m < length els. i = probe (int (length els)) hc m \<and>
                  (matching cmp key hc (els ! nat i) \<or>
                   vacant (els ! nat i) \<and>
                   (\<exists>k \<le> length els. m \<le> k \<and> passed els cmp key hc k \<and>
                      (k = length els \<or> he_hashcode (els ! nat (probe (int (length els)) hc k)) = HASH_EMPTY))))
      | NULL_slot \<Rightarrow> \<forall>j < length els. \<not> vacant (els ! nat (probe (int (length els)) hc j)))"

lemma empty_negative [simp]: "HASH_EMPTY < 0" "HASH_DELETED < 0" "HASH_DELETED \<noteq> HASH_EMPTY"
  by (simp_all add: HASH_EMPTY_def HASH_DELETED_def)

lemma find_loop_result:
  assumes "good_len (int (length (ht_elements h)))" "ht_length h = int (length (ht_elements h))" "0 \<le> hc"
    and "k < length (ht_elements h)" "passed (ht_elements h) (ht_keyComparator h) key hc k"
    and "first_deleted (ht_elements h) hc k fd"
  shows "\<exists>r. find_loop h key hc fd (probe (ht_length h) hc k) = Some r \<and>
     search_result (ht_elements h) (ht_keyComparator h) key hc r"
  using assms(4-6)
proof (induction "length (ht_elements h) - k" arbitrary: k fd rule: less_induct)
  case less
  let ?els = "ht_elements h" and ?cmp = "ht_keyComparator h"
  let ?n = "int (length ?els)"
  let ?i = "probe ?n hc k"
  let ?e = "?els ! nat ?i"
  note len = assms(2)
  have n: "2 < ?n" using assms(1) by (simp add: good_len_def)
  have next_start: "(?i + jump_of ?n hc) mod ?n = start_index ?n hc \<longleftrightarrow> Suc k = length ?els"
  proof -
    have full: "probe ?n hc (length ?els) = probe ?n hc 0" by (simp add: probe_def)
    have "probe ?n hc (Suc k) \<noteq> probe ?n hc 0" if "Suc k \<noteq> length ?els"
    proof
      assume "probe ?n hc (Suc k) = probe ?n hc 0"
      then have "Suc k = 0" using that less.prems(1) by (intro probe_inj [OF assms(1)]) auto
      then show False by simp
    qed
    then show ?thesis using full unfolding probe_Suc probe_0 [symmetric] by metis
  qed
  have small: "\<not> ?i + jump_of ?n hc > INT32_MAX"
  proof -
    have "?n \<le> 0x40000000" using assms(1) by (simp add: good_len_def)
    moreover have "0 < ?n" using n by linarith
    then have "?i < ?n" using probe_range by blast
    moreover have "jump_of ?n hc < ?n" using jump_range [OF n] by blast
    ultimately show ?thesis unfolding INT32_MAX_def by linarith
  qed
  have unfold: "find_loop h key hc fd (probe (ht_length h) hc k) =
     (if matching ?cmp key hc ?e then Some (At ?i)
      else if he_hashcode ?e = HASH_EMPTY then Some (At (if fd \<ge> 0 then fd else ?i))
      else let fd' = (if vacant ?e \<and> fd < 0 then ?i else fd) in
        if Suc k \<noteq> length ?els then find_loop h key hc fd' (probe (ht_length h) hc (Suc k))
        else Some (if fd' \<ge> 0 then At fd' else NULL_slot))"
    using assms(3) next_start probe_Suc [of ?n hc k] small
    by (subst find_loop.simps)
       (auto simp: Let_def len matching_def IS_EMPTY_OR_DELETED_def HASH_EMPTY_def HASH_DELETED_def)
  have ipos: "\<not> ?i < 0" using probe_range [of ?n hc k] n by linarith
  have fd: "first_deleted ?els hc (Suc k) (if vacant ?e \<and> fd < 0 then ?i else fd)"
    using less.prems(3) ipos by (auto simp: first_deleted_def less_Suc_eq)
  have pass: "passed ?els ?cmp key hc (Suc k)" if "\<not> matching ?cmp key hc ?e" "he_hashcode ?e \<noteq> HASH_EMPTY"
    using less.prems(2) that by (auto simp: passed_def less_Suc_eq Let_def)
  have place: "search_result ?els ?cmp key hc (At i)"
    if "m \<le> k'" "m < length ?els" "i = probe ?n hc m" "vacant (?els ! nat i)" "passed ?els ?cmp key hc k'" "k' \<le> length ?els"
      "k' = length ?els \<or> he_hashcode (?els ! nat (probe ?n hc k')) = HASH_EMPTY" for i m k'
    using that by (auto simp: search_result_def)
  show ?case
  proof (cases "matching ?cmp key hc ?e")
    case True
    then show ?thesis using unfold less.prems(1) by (auto simp: search_result_def)
  next
    case nomatch: False
    show ?thesis
    proof (cases "he_hashcode ?e = HASH_EMPTY")
      case True
      have "search_result ?els ?cmp key hc (At (if fd \<ge> 0 then fd else ?i))"
      proof (cases "fd \<ge> 0")
        case fd0: True
        then obtain j where "j < k" "fd = probe ?n hc j" "vacant (?els ! nat fd)" using less.prems(3) by (auto simp: first_deleted_def)
        then show ?thesis using place [of j k fd] less.prems(1,2) True fd0 by simp
      next
        case False
        then show ?thesis using place [of k k ?i] less.prems(1,2) True by simp
      qed
      then show ?thesis using unfold nomatch True by simp
    next
      case False
      note p = pass [OF nomatch False]
      show ?thesis
      proof (cases "Suc k = length ?els")
        case True
        let ?fd = "if vacant ?e \<and> fd < 0 then ?i else fd"
        have "search_result ?els ?cmp key hc (if ?fd \<ge> 0 then At ?fd else NULL_slot)"
        proof (cases "?fd \<ge> 0")
          case fd0: True
          then obtain j where j: "j < Suc k" "?fd = probe ?n hc j" "vacant (?els ! nat ?fd)"
            using fd by (auto simp: first_deleted_def)
          have "search_result ?els ?cmp key hc (At ?fd)"
            by (rule place [of j "length ?els"]) (use j p True in auto)
          then show ?thesis using fd0 by simp
        next
          case False
          then show ?thesis using fd True by (simp add: search_result_def first_deleted_def split: if_splits)
        qed
        then show ?thesis using unfold nomatch False True by (simp add: Let_def)
      next
        case more: False
        then have "Suc k < length ?els" using less.prems(1) by simp
        from less.hyps [OF _ this p fd] this
        show ?thesis using unfold nomatch False more by (simp add: Let_def)
      qed
    qed
  qed
qed

section \<open>The table\<close>

text \<open>
  The contract of the functions a table is opened with: the comparator is an equivalence, and equal keys
  have equal (positive) hash codes.
\<close>

definition hash_contract :: "(tok \<Rightarrow> int) \<Rightarrow> (tok \<Rightarrow> tok \<Rightarrow> bool) \<Rightarrow> bool" where
  "hash_contract hs cmp \<longleftrightarrow> equivp cmp \<and> (\<forall>a b. cmp a b \<longrightarrow> positive_hash (hs a) = positive_hash (hs b))"

text \<open>Every slot of the probe sequence before slot \<open>i\<close> has been used.\<close>

definition path_clear :: "UHashElement list \<Rightarrow> nat \<Rightarrow> int \<Rightarrow> bool" where
  "path_clear els i hc \<longleftrightarrow>
     (\<forall>m < length els. probe (int (length els)) hc m = int i \<longrightarrow>
        (\<forall>k < m. he_hashcode (els ! nat (probe (int (length els)) hc k)) \<noteq> HASH_EMPTY))"

definition table_ok :: "(tok \<Rightarrow> int) \<Rightarrow> (tok \<Rightarrow> tok \<Rightarrow> bool) \<Rightarrow> UHashElement list \<Rightarrow> bool" where
  "table_ok hs cmp els \<longleftrightarrow> good_len (int (length els)) \<and>
     (\<forall>e \<in> set els. vacant e \<longrightarrow> he_key e = 0 \<and> he_value e = 0) \<and>
     (\<forall>i < length els. \<not> vacant (els ! i) \<longrightarrow>
        he_hashcode (els ! i) = positive_hash (hs (he_key (els ! i))) \<and> path_clear els i (he_hashcode (els ! i))) \<and>
     (\<forall>i < length els. \<forall>j < length els. \<not> vacant (els ! i) \<and> \<not> vacant (els ! j) \<and>
        cmp (he_key (els ! i)) (he_key (els ! j)) \<longrightarrow> i = j)"

definition held :: "(tok \<Rightarrow> tok \<Rightarrow> bool) \<Rightarrow> UHashElement list \<Rightarrow> tok \<Rightarrow> nat \<Rightarrow> bool" where
  "held cmp els key i \<longleftrightarrow> i < length els \<and> \<not> vacant (els ! i) \<and> cmp key (he_key (els ! i))"

text \<open>The map a table stands for, and the number of its pairs.\<close>

definition els_map :: "(tok \<Rightarrow> tok \<Rightarrow> bool) \<Rightarrow> UHashElement list \<Rightarrow> tok \<rightharpoonup> tok" where
  "els_map cmp els key = map_option he_value (List.find (\<lambda>e. \<not> vacant e \<and> cmp key (he_key e)) els)"

definition pairs :: "UHashElement list \<Rightarrow> nat" where
  "pairs els = length (filter (\<lambda>e. \<not> vacant e) els)"

lemma positive_hash_range [simp]: "0 \<le> positive_hash x" "positive_hash x < 0x80000000" "positive_hash (positive_hash x) = positive_hash x"
  by (simp_all add: positive_hash_def)

lemma positive_hash_used [simp]: "\<not> positive_hash x < 0" "positive_hash x \<noteq> HASH_EMPTY"
proof -
  show "\<not> positive_hash x < 0" using positive_hash_range(1) [of x] by linarith
  then show "positive_hash x \<noteq> HASH_EMPTY" using empty_negative(1) by auto
qed

lemma held_unique:
  assumes "table_ok hs cmp els" "equivp cmp" "held cmp els k i" "held cmp els k j"
  shows "i = j"
  using assms equivp_symp [OF assms(2)] equivp_transp [OF assms(2)] unfolding table_ok_def held_def by meson

lemma els_map_held:
  assumes "table_ok hs cmp els" "equivp cmp" "held cmp els k i"
  shows "els_map cmp els k = Some (he_value (els ! i))"
proof -
  have "List.find (\<lambda>e. \<not> vacant e \<and> cmp k (he_key e)) els \<noteq> None"
    using nth_mem [of i els] assms(3) unfolding held_def find_None_iff by blast
  then obtain j where "List.find (\<lambda>e. \<not> vacant e \<and> cmp k (he_key e)) els = Some (els ! j)" "held cmp els k j"
    by (auto simp: find_Some_iff held_def)
  then show ?thesis using held_unique [OF assms] by (auto simp: els_map_def)
qed

lemma els_map_None: "els_map cmp els k = None \<longleftrightarrow> (\<forall>i. \<not> held cmp els k i)"
  by (auto simp: els_map_def find_None_iff held_def in_set_conv_nth)

lemma pairs_full: "pairs els < length els \<Longrightarrow> \<exists>i < length els. vacant (els ! i)"
proof (rule ccontr)
  assume "pairs els < length els" "\<not> (\<exists>i < length els. vacant (els ! i))"
  then have "filter (\<lambda>e. \<not> vacant e) els = els" by (auto simp: filter_id_conv in_set_conv_nth)
  then show False using \<open>pairs els < length els\<close> by (simp add: pairs_def)
qed

text \<open>The search on a table that is not full.\<close>

lemma find_index_spec:
  assumes t: "table_ok (ht_keyHasher h) (ht_keyComparator h) (ht_elements h)" and c: "hash_contract hs (ht_keyComparator h)"
    and hs: "hs = ht_keyHasher h" and len: "ht_length h = int (length (ht_elements h))"
    and room: "pairs (ht_elements h) < length (ht_elements h)" and hc: "positive_hash hc = positive_hash (hs key)"
  shows "\<exists>i. find_index h key hc = Some i \<and> i < length (ht_elements h) \<and>
     (held (ht_keyComparator h) (ht_elements h) key i \<or>
      vacant (ht_elements h ! i) \<and> (\<forall>j. \<not> held (ht_keyComparator h) (ht_elements h) key j) \<and>
      path_clear (ht_elements h) i (positive_hash (hs key)))"
proof -
  let ?els = "ht_elements h" and ?cmp = "ht_keyComparator h" and ?hc = "positive_hash (hs key)"
  let ?n = "int (length ?els)"
  have g: "good_len ?n" using t by (simp add: table_ok_def)
  then have n: "0 < ?n" unfolding good_len_def by linarith
  obtain r where r: "uhash_find_slot h key hc = Some r" "search_result ?els ?cmp key ?hc r"
    using find_loop_result [OF g len, of ?hc 0 key "-1"] n
    by (auto simp: uhash_find_slot_def Let_def hc len probe_0 passed_def first_deleted_def)
  obtain v where v: "v < length ?els" "vacant (?els ! v)" using pairs_full [OF room] by blast
  obtain kv where kv: "int kv < ?n" "probe ?n ?hc kv = int v" using probe_surj [OF g, of "int v" ?hc] v(1) by auto
  have "nat (probe ?n ?hc kv) = v" "kv < length ?els" using kv by simp_all
  then have "r \<noteq> NULL_slot" using r(2) v(2) by (auto simp: search_result_def)
  then obtain i where i: "r = At i" by (cases r) auto
  obtain m where m: "m < length ?els" "i = probe ?n ?hc m"
    and res: "matching ?cmp key ?hc (?els ! nat i) \<or> vacant (?els ! nat i) \<and>
       (\<exists>k \<le> length ?els. m \<le> k \<and> passed ?els ?cmp key ?hc k \<and>
          (k = length ?els \<or> he_hashcode (?els ! nat (probe ?n ?hc k)) = HASH_EMPTY))"
    using r(2) i by (auto simp: search_result_def)
  have ir: "0 \<le> i" "i < ?n" using probe_range [OF n, of ?hc m] m(2) by auto
  have fi: "find_index h key hc = Some (nat i)" using r(1) i by (simp add: find_index_def)
  from res consider "matching ?cmp key ?hc (?els ! nat i)"
    | k where "vacant (?els ! nat i)" "k \<le> length ?els" "m \<le> k" "passed ?els ?cmp key ?hc k"
        "k = length ?els \<or> he_hashcode (?els ! nat (probe ?n ?hc k)) = HASH_EMPTY" by blast
  then show ?thesis
  proof cases
    case 1
    then have "held ?cmp ?els key (nat i)" using ir by (auto simp: matching_def held_def)
    then show ?thesis using fi by (auto simp: held_def)
  next
    case (2 k)
    note vac = 2(1) and k = 2(2-4) and stop = 2(5)
    have absent: "\<not> held ?cmp ?els key j" for j
    proof
      assume j: "held ?cmp ?els key j"
      then have hj: "he_hashcode (?els ! j) = ?hc" "path_clear ?els j ?hc"
        using t c hs by (auto simp: table_ok_def held_def hash_contract_def)
      obtain q where q: "int q < ?n" "probe ?n ?hc q = int j" using probe_surj [OF g, of "int j" ?hc] j by (auto simp: held_def)
      have "\<not> q < k" using k(3) q hj j by (auto simp: passed_def matching_def held_def Let_def)
      moreover have "\<not> k < q" using hj(2) q stop by (auto simp: path_clear_def)
      ultimately have "q = k" by simp
      then show False using stop q hj by auto
    qed
    have "path_clear ?els (nat i) ?hc"
      unfolding path_clear_def
    proof (intro allI impI)
      fix m' k' assume *: "m' < length ?els" "probe ?n ?hc m' = int (nat i)" "k' < m'"
      then have "m' = m" using probe_inj [OF g, of m' m ?hc] m ir by simp
      then show "he_hashcode (?els ! nat (probe ?n ?hc k')) \<noteq> HASH_EMPTY"
        using *(3) k by (auto simp: passed_def Let_def)
    qed
    then show ?thesis using fi ir vac absent by auto
  qed
qed

section \<open>Changing one slot\<close>

text \<open>A slot that does not become empty leaves the paths of the others clear.\<close>

lemma path_clear_update:
  assumes "path_clear els i hc" "he_hashcode e \<noteq> HASH_EMPTY"
  shows "path_clear (els[j := e]) i hc"
proof -
  have "he_hashcode (els[j := e] ! x) \<noteq> HASH_EMPTY" if "he_hashcode (els ! x) \<noteq> HASH_EMPTY" for x
    using that assms(2) by (cases "x = j"; cases "j < length els") (auto simp: list_update_beyond not_less)
  then show ?thesis using assms(1) by (simp add: path_clear_def)
qed

lemma pairs_update:
  "i < length els \<Longrightarrow> int (pairs (els[i := e])) = int (pairs els) + (if vacant e then 0 else 1) - (if vacant (els ! i) then 0 else 1)"
proof -
  assume i: "i < length els"
  have "pairs els = pairs (take i els) + (if vacant (els ! i) then 0 else 1) + pairs (drop (Suc i) els)"
    by (subst id_take_nth_drop [OF i]) (simp add: pairs_def)
  moreover have "pairs (els[i := e]) = pairs (take i els) + (if vacant e then 0 else 1) + pairs (drop (Suc i) els)"
    using i by (simp add: upd_conv_take_nth_drop pairs_def)
  ultimately show ?thesis by simp
qed

text \<open>Putting a pair into a slot that holds the key already, or into a free one on its path.\<close>

lemma put_slot:
  assumes t: "table_ok hs cmp els" and c: "hash_contract hs cmp" and i: "i < length els"
    and free: "held cmp els k i \<or> vacant (els ! i) \<and> (\<forall>j. \<not> held cmp els k j) \<and> path_clear els i (positive_hash (hs k))"
    and e: "e = \<lparr>he_hashcode = positive_hash (hs k), he_value = v, he_key = k\<rparr>"
  shows "table_ok hs cmp (els[i := e]) \<and> els_map cmp (els[i := e]) = (\<lambda>k'. if cmp k' k then Some v else els_map cmp els k')"
proof -
  have eq: "equivp cmp" and hc: "\<And>a b. cmp a b \<Longrightarrow> positive_hash (hs a) = positive_hash (hs b)" using c by (auto simp: hash_contract_def)
  note sym = equivp_symp [OF eq] and trans = equivp_transp [OF eq] and refl = equivp_reflp [OF eq]
  let ?els = "els[i := e]"
  have ne: "he_hashcode e \<noteq> HASH_EMPTY" "\<not> vacant e" using e by auto
  have path: "path_clear els i (positive_hash (hs k))" using free
  proof
    assume h: "held cmp els k i"
    then have "he_hashcode (els ! i) = positive_hash (hs (he_key (els ! i)))" "path_clear els i (he_hashcode (els ! i))"
      using t by (auto simp: table_ok_def held_def)
    then show ?thesis using hc [of k "he_key (els ! i)"] h by (simp add: held_def)
  qed blast
  have other: "\<not> cmp k (he_key (els ! j))" if "j < length els" "j \<noteq> i" "\<not> vacant (els ! j)" for j
    using free
  proof
    assume h: "held cmp els k i"
    show ?thesis using held_unique [OF t eq h, of j] that by (auto simp: held_def)
  qed (use that in \<open>auto simp: held_def\<close>)
  have ok: "table_ok hs cmp ?els"
    unfolding table_ok_def
  proof (intro conjI allI impI ballI)
    show "good_len (int (length ?els))" using t by (simp add: table_ok_def)
    show "he_key x = 0" "he_value x = 0" if "x \<in> set ?els" "vacant x" for x
      using that t ne(2) set_update_subset_insert [of els i e] by (auto simp: table_ok_def)
  next
    fix j assume j: "j < length ?els" "\<not> vacant (?els ! j)"
    show "he_hashcode (?els ! j) = positive_hash (hs (he_key (?els ! j)))"
      using j t e by (cases "j = i") (auto simp: table_ok_def)
    show "path_clear ?els j (he_hashcode (?els ! j))"
    proof (cases "j = i")
      case True
      then show ?thesis using path_clear_update [OF path ne(1)] i e by simp
    next
      case False
      then have "path_clear els j (he_hashcode (els ! j))" using j t by (auto simp: table_ok_def)
      then show ?thesis using path_clear_update [OF _ ne(1)] False by simp
    qed
  next
    fix a b assume a: "a < length ?els" and b: "b < length ?els"
      and ab: "\<not> vacant (?els ! a) \<and> \<not> vacant (?els ! b) \<and> cmp (he_key (?els ! a)) (he_key (?els ! b))"
    show "a = b"
    proof (rule ccontr)
      assume "a \<noteq> b"
      then consider "a = i" "b \<noteq> i" | "b = i" "a \<noteq> i" | "a \<noteq> i" "b \<noteq> i" by blast
      then show False
      proof cases
        case 1 then show False using ab b other [of b] i e by simp
      next
        case 2 then show False using ab a other [of a] i e sym by fastforce
      next
        case 3 then show False using ab a b t \<open>a \<noteq> b\<close> by (auto simp: table_ok_def)
      qed
    qed
  qed
  have "els_map cmp ?els k' = (if cmp k' k then Some v else els_map cmp els k')" for k'
  proof (cases "cmp k' k")
    case True
    then have "held cmp ?els k' i" using i ne e by (simp add: held_def)
    then show ?thesis using els_map_held [OF ok eq] True i e by fastforce
  next
    case False
    have "held cmp ?els k' j \<longleftrightarrow> held cmp els k' j" for j
    proof (cases "j = i")
      case True
      have "\<not> held cmp els k' i"
      proof
        assume h: "held cmp els k' i"
        then have "held cmp els k i" using free by (auto simp: held_def)
        then have "cmp k' (he_key (els ! i))" "cmp (he_key (els ! i)) k" using h sym by (auto simp: held_def)
        then show False using trans False by blast
      qed
      then show ?thesis using True False e i by (simp add: held_def)
    qed (simp add: held_def)
    then have same: "held cmp ?els k' = held cmp els k'" by blast
    show ?thesis
    proof (cases "\<exists>j. held cmp els k' j")
      case ex: True
      then obtain j where j: "held cmp els k' j" by blast
      have "\<not> held cmp ?els k' i" using e i False by (simp add: held_def)
      then have "j \<noteq> i" using j same by auto
      then show ?thesis using els_map_held [OF ok eq, of k' j] els_map_held [OF t eq j] j same False by simp
    next
      case False
      then have "els_map cmp ?els k' = None" "els_map cmp els k' = None" using same by (simp_all add: els_map_None)
      then show ?thesis using \<open>\<not> cmp k' k\<close> by simp
    qed
  qed
  then show ?thesis using ok by blast
qed

lemma delete_slot:
  assumes t: "table_ok hs cmp els" and c: "hash_contract hs cmp" and i: "i < length els" "\<not> vacant (els ! i)"
    and e: "e = \<lparr>he_hashcode = HASH_DELETED, he_value = 0, he_key = 0\<rparr>"
  shows "table_ok hs cmp (els[i := e]) \<and>
     els_map cmp (els[i := e]) = (\<lambda>k'. if cmp k' (he_key (els ! i)) then None else els_map cmp els k')"
proof -
  have eq: "equivp cmp" using c by (simp add: hash_contract_def)
  let ?els = "els[i := e]"
  have ne: "he_hashcode e \<noteq> HASH_EMPTY" "vacant e" using e by auto
  have ok: "table_ok hs cmp ?els"
    unfolding table_ok_def
  proof (intro conjI allI impI ballI)
    show "good_len (int (length ?els))" using t by (simp add: table_ok_def)
    show "he_key x = 0" "he_value x = 0" if "x \<in> set ?els" "vacant x" for x
      using that t e set_update_subset_insert [of els i e] by (auto simp: table_ok_def)
  next
    fix j assume j: "j < length ?els" "\<not> vacant (?els ! j)"
    then have "j \<noteq> i" using ne i by auto
    then show "he_hashcode (?els ! j) = positive_hash (hs (he_key (?els ! j)))" "path_clear ?els j (he_hashcode (?els ! j))"
      using j t path_clear_update [OF _ ne(1)] by (auto simp: table_ok_def)
  next
    fix a b assume "a < length ?els" "b < length ?els"
      "\<not> vacant (?els ! a) \<and> \<not> vacant (?els ! b) \<and> cmp (he_key (?els ! a)) (he_key (?els ! b))"
    then show "a = b" using t ne(2) i by (cases "a = i"; cases "b = i") (auto simp: table_ok_def)
  qed
  have held: "held cmp ?els k' j \<longleftrightarrow> held cmp els k' j \<and> j \<noteq> i" for k' j
    using ne(2) i by (cases "j = i") (auto simp: held_def)
  have "els_map cmp ?els k' = (if cmp k' (he_key (els ! i)) then None else els_map cmp els k')" for k'
  proof (cases "cmp k' (he_key (els ! i))")
    case True
    then have "held cmp els k' i" using i by (simp add: held_def)
    then have "\<forall>j. \<not> held cmp ?els k' j" using held held_unique [OF t eq] by blast
    then show ?thesis using True by (simp add: els_map_None)
  next
    case False
    then have "\<not> held cmp els k' i" by (simp add: held_def)
    then have same: "held cmp ?els k' = held cmp els k'" using held by (intro ext) blast
    show ?thesis
    proof (cases "\<exists>j. held cmp els k' j")
      case True
      then obtain j where j: "held cmp els k' j" "j \<noteq> i" using False by (auto simp: held_def)
      then show ?thesis using els_map_held [OF ok eq, of k' j] els_map_held [OF t eq j(1)] same False by simp
    next
      case none: False
      then have "els_map cmp ?els k' = None" "els_map cmp els k' = None" using same by (simp_all add: els_map_None)
      then show ?thesis using False by simp
    qed
  qed
  then show ?thesis using ok by blast
qed

end
