(* ===== verification/UHashPrimes.thy ===== *)
theory UHashPrimes
  imports UHashProofs
begin

text \<open>
  The table \<^verbatim>\<open>PRIMES\<close> of \<^verbatim>\<open>uhash.c\<close> does hold primes. Its entries are certified after Lucas: \<open>n\<close> is
  a prime if some \<open>a\<close> has \<open>a\<^sup>n\<^sup>-\<^sup>1 \<equiv> 1\<close> modulo \<open>n\<close>, but \<open>a\<^sup>(\<^sup>n\<^sup>-\<^sup>1\<^sup>)\<^sup>/\<^sup>q \<noteq> 1\<close> for every prime factor \<open>q\<close> of \<open>n - 1\<close>.
\<close>

definition prime_like :: "int \<Rightarrow> bool" where
  "prime_like n \<longleftrightarrow> 1 < n \<and> (\<forall>j. 0 < j \<and> j < n \<longrightarrow> coprime j n)"

lemma prime_like_coprime:
  assumes "prime_like q" "\<not> q dvd m"
  shows "coprime m q"
proof -
  have "0 < q" "m mod q \<noteq> 0" using assms by (auto simp: prime_like_def dvd_eq_mod_eq_0)
  then have "0 < m mod q" "m mod q < q" using pos_mod_sign [OF \<open>0 < q\<close>, of m] pos_mod_bound [OF \<open>0 < q\<close>, of m] by linarith+
  then have "coprime (m mod q) q" using assms(1) by (simp add: prime_like_def)
  then show ?thesis using \<open>0 < q\<close> by simp
qed

lemma prod_list_coprime: "(\<And>q. q \<in> set qs \<Longrightarrow> coprime (m::int) q) \<Longrightarrow> coprime m (prod_list qs)"
  by (induction qs) auto

lemma power_one_gcd:
  fixes a n :: int
  assumes n: "1 < n" and d: "0 < d" "a ^ d mod n = 1" "a ^ e mod n = 1"
  shows "a ^ gcd d e mod n = 1"
proof -
  obtain x y where xy: "d * x = e * y + gcd d e" using bezout_nat [of d e] d(1) by auto
  have one: "a ^ (k * m) mod n = 1" if "a ^ k mod n = 1" for k m
    using that n power_mod [of "a ^ k" n m] by (simp add: power_mult)
  have "1 = a ^ (e * y + gcd d e) mod n" using one [OF d(2), of x] xy by simp
  also have "\<dots> = a ^ (e * y) mod n * a ^ gcd d e mod n" by (simp add: power_add mod_mult_left_eq)
  also have "\<dots> = a ^ gcd d e mod n" using one [OF d(3), of y] by simp
  finally show ?thesis by simp
qed

lemma power_cancel:
  fixes a n :: int
  assumes "coprime a n" "i \<le> j" "a ^ i mod n = a ^ j mod n" "1 < n"
  shows "a ^ (j - i) mod n = 1"
proof -
  have "n dvd a ^ j - a ^ i" using assms(3) by (metis mod_eq_dvd_iff)
  also have "a ^ j - a ^ i = a ^ i * (a ^ (j - i) - 1)" using assms(2) by (simp add: algebra_simps flip: power_add)
  finally have "n dvd a ^ (j - i) - 1" using assms(1) by (simp add: coprime_dvd_mult_right_iff coprime_commute)
  then have "a ^ (j - i) mod n = 1 mod n" by (simp add: mod_eq_dvd_iff)
  then show ?thesis using assms(4) by simp
qed

lemma lucas:
  fixes n a :: int
  assumes n: "2 < n" and qs: "\<And>q. q \<in> set qs \<Longrightarrow> prime_like q" "prod_list qs = n - 1"
    and one: "a ^ nat (n - 1) mod n = 1" and not_one: "\<And>q. q \<in> set qs \<Longrightarrow> a ^ nat ((n - 1) div q) mod n \<noteq> 1"
  shows "prime_like n"
proof -
  let ?N = "nat (n - 1)"
  have N: "0 < ?N" using n by simp
  have cop: "coprime a n"
  proof -
    have "coprime (a ^ ?N mod n) n" using one by simp
    then have "coprime (a ^ ?N) n" using n by simp
    then show ?thesis using N by simp
  qed
  have order: "a ^ d mod n \<noteq> 1" if d: "0 < d" "d < ?N" for d
  proof
    assume "a ^ d mod n = 1"
    define g where "g = gcd d ?N"
    have g: "0 < g" "g dvd ?N" "g \<le> d" "a ^ g mod n = 1"
      using power_one_gcd [OF _ d(1) \<open>a ^ d mod n = 1\<close> one] n d(1) by (auto simp: g_def)
    then obtain m where m: "?N = g * m" by (auto elim: dvdE)
    then have m1: "1 < m" using g(3) d by (cases "m = 0"; cases "m = 1") auto
    have mN: "int m dvd n - 1" using m n by (metis dvd_triv_right int_dvd_int_iff int_nat_eq less_imp_le order_less_trans zero_less_numeral diff_ge_0_iff_ge le_diff_eq one_add_one linorder_not_less nat_dvd_iff)
    have "\<exists>q \<in> set qs. q dvd int m"
    proof (rule ccontr)
      assume "\<not> ?thesis"
      then have "coprime (int m) (prod_list qs)" using qs(1) by (intro prod_list_coprime prime_like_coprime) auto
      then have "coprime (int m) (n - 1)" using qs(2) by simp
      then have "is_unit (int m)" using mN by (meson coprime_common_divisor dvd_refl)
      then show False using m1 by simp
    qed
    then obtain q k where q: "q \<in> set qs" "int m = q * k" unfolding dvd_def by blast
    have q1: "1 < q" using qs(1) [OF q(1)] by (simp add: prime_like_def)
    have k: "0 < k" using q(2) q1 m1 by (metis int_ops(1) less_trans of_nat_less_iff zero_less_mult_pos zero_less_one of_nat_0_less_iff)
    have "n - 1 = int g * (q * k)" using m q(2) n by (metis int_nat_eq less_imp_le diff_ge_0_iff_ge of_nat_mult one_less_numeral_iff order_less_trans semiring_norm(76))
    then have "(n - 1) div q = int g * k" using q1 by (simp add: algebra_simps)
    then have "nat ((n - 1) div q) = g * nat k" using k by (simp add: nat_mult_distrib)
    moreover have "a ^ (g * nat k) mod n = 1" using g(4) n power_mod [of "a ^ g" n "nat k"] by (simp add: power_mult)
    ultimately show False using not_one [OF q(1)] by simp
  qed
  let ?f = "\<lambda>i. a ^ i mod n"
  have "inj_on ?f {0..<?N}"
  proof (rule linorder_inj_onI)
    fix x y assume xy: "x < y" "x \<in> {0..<?N}" "y \<in> {0..<?N}"
    show "a ^ x mod n \<noteq> a ^ y mod n"
    proof
      assume "a ^ x mod n = a ^ y mod n"
      then have "a ^ (y - x) mod n = 1" using power_cancel [OF cop, of x y] xy n by simp
      moreover have "0 < y - x" "y - x < ?N" using xy by auto
      ultimately show False using order [of "y - x"] by blast
    qed
  qed auto
  then have card: "card (?f ` {0..<?N}) = ?N" by (simp add: card_image)
  have unit: "coprime (a ^ i mod n) n" for i using cop n by simp
  have sub: "?f ` {0..<?N} \<subseteq> {1..<n}"
  proof safe
    fix i
    have "\<not> coprime 0 n" using n by simp
    then have "a ^ i mod n \<noteq> 0" using unit [of i] by metis
    moreover have "0 \<le> a ^ i mod n" "a ^ i mod n < n" using n by auto
    ultimately show "a ^ i mod n \<in> {1..<n}" by simp
  qed
  have "?f ` {0..<?N} = {1..<n}" by (rule card_subset_eq) (use card sub in auto)
  then have "coprime j n" if "0 < j" "j < n" for j
  proof -
    have "j \<in> ?f ` {0..<?N}" using that \<open>?f ` {0..<?N} = {1..<n}\<close> by auto
    then show ?thesis using unit by auto
  qed
  then show ?thesis using n by (simp add: prime_like_def)
qed

section \<open>Checking certificates\<close>

text \<open>Exponentiation by squaring, one bit of the exponent \<open>e\<close> per level.\<close>

definition square_step :: "int \<Rightarrow> int \<Rightarrow> bool \<Rightarrow> int \<Rightarrow> int" where
  "square_step n a b r = (if b then (r * r mod n) * a mod n else r * r mod n)"

fun power_mod_bits :: "nat \<Rightarrow> int \<Rightarrow> int \<Rightarrow> int \<Rightarrow> int" where
  "power_mod_bits 0 n a e = 1"
| "power_mod_bits (Suc k) n a e = square_step n a (odd e) (power_mod_bits k n a (e div 2))"

lemma power_mod_bits_mod:
  "0 \<le> e \<Longrightarrow> e < 2 ^ k \<Longrightarrow> power_mod_bits k n a e mod n = a ^ nat e mod n"
proof (induction k arbitrary: e)
  case (Suc k)
  let ?r = "power_mod_bits k n a (e div 2)"
  have e: "0 \<le> e div 2" "e div 2 < 2 ^ k" using Suc.prems by auto
  have "nat e = nat (e div 2) + nat (e div 2) + (if odd e then 1 else 0)" using Suc.prems(1) by (auto simp: nat_eq_iff)
  then have pow: "a ^ nat e = a ^ nat (e div 2) * a ^ nat (e div 2) * (if odd e then a else 1)"
    by (auto simp: power_add)
  have r: "?r * ?r mod n = a ^ nat (e div 2) * a ^ nat (e div 2) mod n" using Suc.IH [OF e] by (metis mod_mult_eq)
  have "power_mod_bits (Suc k) n a e mod n = (?r * ?r mod n) * (if odd e then a else 1) mod n" by (simp add: square_step_def)
  also have "\<dots> = a ^ nat e mod n" unfolding r pow by (rule mod_mult_left_eq)
  finally show ?case .
qed simp

text \<open>A certificate: \<open>n\<close>, the witness \<open>a\<close>, the number of bits of \<open>n\<close> and the prime factors of \<open>n - 1\<close>.\<close>

type_synonym certificate = "int \<times> int \<times> nat \<times> int list"

definition not_one :: "int \<Rightarrow> int \<Rightarrow> nat \<Rightarrow> int \<Rightarrow> bool" where
  "not_one n a k q \<longleftrightarrow> power_mod_bits k n a ((n - 1) div q) mod n \<noteq> 1"

fun check_certificate :: "certificate \<Rightarrow> bool" where
  "check_certificate (n, a, k, qs) \<longleftrightarrow>
     2 < n \<and> n \<le> 2 ^ k \<and> prod_list qs = n - 1 \<and> power_mod_bits k n a (n - 1) mod n = 1 \<and>
     list_all (not_one n a k) (remdups qs)"

lemma certified:
  assumes "check_certificate (n, a, k, qs)" "list_all prime_like qs"
  shows "prime_like n"
proof (rule lucas)
  have n: "2 < n" "n - 1 < 2 ^ k" using assms(1) by auto
  note pm = power_mod_bits_mod [of _ k n a]
  show "2 < n" by (rule n(1))
  show "prime_like q" if "q \<in> set qs" for q using assms(2) that by (auto simp: list_all_iff)
  show "prod_list qs = n - 1" using assms(1) by simp
  show "a ^ nat (n - 1) mod n = 1" using assms(1) pm [of "n - 1"] n by simp
  show "a ^ nat ((n - 1) div q) mod n \<noteq> 1" if q: "q \<in> set qs" for q
  proof -
    have "1 < q" using assms(2) q by (auto simp: list_all_iff prime_like_def)
    then have "(n - 1) div q \<le> n - 1" "0 \<le> (n - 1) div q"
      using n(1) zdiv_mono2 [of "n - 1" 1 q] by (simp_all add: pos_imp_zdiv_nonneg_iff)
    then show ?thesis using assms(1) pm [of "(n - 1) div q"] n q by (auto simp: list_all_iff not_one_def)
  qed
qed

text \<open>A chain of certificates, each of which uses the primes \<open>ps\<close> and those certified before it.\<close>

fun check_chain :: "int list \<Rightarrow> certificate list \<Rightarrow> bool" where
  "check_chain ps [] = True"
| "check_chain ps (c # cs) \<longleftrightarrow>
     list_all (List.member ps) (snd (snd (snd c))) \<and> check_certificate c \<and> check_chain (fst c # ps) cs"

lemma check_chain:
  assumes "check_chain ps cs" "list_all prime_like ps"
  shows "list_all prime_like (rev (map fst cs) @ ps)"
  using assms
proof (induction ps cs rule: check_chain.induct)
  case (2 ps c cs)
  obtain n a k qs where c: "c = (n, a, k, qs)" by (cases c)
  have members: "list_all (List.member ps) qs" and check: "check_certificate (n, a, k, qs)" and
    rest: "check_chain (n # ps) cs" using "2.prems"(1) by (simp_all only: c check_chain.simps fst_conv snd_conv)
  have "list_all prime_like qs" using members "2.prems"(2) by (auto simp: list_all_iff simp del: check_certificate.simps)
  with check have "prime_like n" by (rule certified)
  then show ?case using "2.IH" rest "2.prems"(2) c by (simp del: check_chain.simps check_certificate.simps)
qed simp

lemma prime_like_2: "prime_like 2"
proof -
  have "j = 1" if "0 < j" "j < 2" for j :: int using that by linarith
  then show ?thesis by (auto simp: prime_like_def)
qed

lemma certificates_0: "check_chain [2] [(3, 2, 2, [2]), (5, 2, 3, [2, 2]), (7, 3, 3, [2, 3])]"
  by code_simp

lemma small_primes: "list_all prime_like [7, 5, 3, 2]"
  using check_chain [OF certificates_0] prime_like_2 by simp

lemma certificates_1:
  "check_chain [2, 3, 5, 7]
  [(11, 2, 4, [2, 5]),
   (13, 2, 4, [2, 2, 3]),
   (17, 3, 5, [2, 2, 2, 2]),
   (19, 2, 5, [2, 3, 3]),
   (23, 5, 5, [2, 11]),
   (29, 2, 5, [2, 2, 7]),
   (31, 3, 5, [2, 3, 5]),
   (41, 6, 6, [2, 2, 2, 5]),
   (47, 5, 6, [2, 23]),
   (53, 2, 6, [2, 2, 13]),
   (61, 2, 6, [2, 2, 3, 5]),
   (73, 5, 7, [2, 2, 2, 3, 3]),
   (79, 3, 7, [2, 3, 13]),
   (89, 3, 7, [2, 2, 2, 11]),
   (97, 5, 7, [2, 2, 2, 2, 2, 3]),
   (101, 2, 7, [2, 2, 5, 5]),
   (103, 5, 7, [2, 3, 17]),
   (127, 3, 7, [2, 3, 3, 7]),
   (151, 6, 8, [2, 3, 5, 5])]"
  by code_simp

lemma primes_1: "list_all prime_like [151, 127, 103, 101, 97, 89, 79, 73, 61, 53, 47, 41, 31, 29, 23, 19, 17, 13, 11]"
  using check_chain [OF certificates_1] small_primes by simp

lemma certificates_2:
  "check_chain [2, 3, 5, 7, 11, 13, 17, 29, 31, 79, 103, 127]
  [(233, 3, 8, [2, 2, 2, 29]),
   (239, 7, 8, [2, 7, 17]),
   (251, 6, 8, [2, 5, 5, 5]),
   (257, 3, 9, [2, 2, 2, 2, 2, 2, 2, 2]),
   (331, 3, 9, [2, 3, 5, 11]),
   (467, 2, 9, [2, 233]),
   (479, 13, 9, [2, 239]),
   (509, 2, 9, [2, 2, 127]),
   (683, 5, 10, [2, 11, 31]),
   (1019, 2, 10, [2, 509]),
   (1021, 10, 10, [2, 2, 3, 5, 17]),
   (2039, 7, 11, [2, 1019]),
   (2341, 7, 12, [2, 2, 3, 3, 5, 13]),
   (2371, 2, 12, [2, 3, 5, 79]),
   (2473, 5, 12, [2, 2, 2, 3, 103]),
   (2729, 3, 12, [2, 2, 2, 11, 31])]"
  by code_simp

lemma primes_2: "list_all prime_like [2729, 2473, 2371, 2341, 2039, 1021, 1019, 683, 509, 479, 467, 331, 257, 251, 239, 233]"
  using check_chain [OF certificates_2] small_primes primes_1 by simp

lemma certificates_3:
  "check_chain [2, 3, 5, 7, 11, 13, 19, 31, 151, 2729]
  [(4093, 2, 12, [2, 2, 3, 11, 31]),
   (6917, 2, 13, [2, 2, 7, 13, 19]),
   (8191, 17, 13, [2, 3, 3, 5, 7, 13]),
   (15101, 2, 14, [2, 2, 5, 5, 151]),
   (16381, 2, 14, [2, 2, 3, 3, 5, 7, 13]),
   (32749, 2, 15, [2, 2, 3, 2729]),
   (65521, 17, 16, [2, 2, 2, 2, 3, 3, 5, 7, 13])]"
  by code_simp

lemma primes_3: "list_all prime_like [65521, 32749, 16381, 15101, 8191, 6917, 4093]"
  using check_chain [OF certificates_3] small_primes primes_1 primes_2 by simp

lemma certificates_4:
  "check_chain [2, 3, 5, 7, 17, 19, 53, 73, 257, 467, 2473]
  [(70051, 7, 17, [2, 3, 5, 5, 467]),
   (131071, 3, 17, [2, 3, 5, 17, 257]),
   (262139, 2, 18, [2, 53, 2473]),
   (262657, 5, 19, [2, 2, 2, 2, 2, 2, 2, 2, 2, 3, 3, 3, 19]),
   (524287, 3, 19, [2, 3, 3, 3, 7, 19, 73])]"
  by code_simp

lemma primes_4: "list_all prime_like [524287, 262657, 262139, 131071, 70051]"
  using check_chain [OF certificates_4] small_primes primes_1 primes_2 primes_3 by simp

lemma certificates_5:
  "check_chain [2, 3, 5, 7, 19, 23, 47, 73, 97, 6917]
  [(581029, 6, 20, [2, 2, 3, 7, 6917]),
   (1048571, 2, 20, [2, 5, 23, 47, 97]),
   (1048573, 2, 20, [2, 2, 3, 3, 3, 7, 19, 73]),
   (2097143, 5, 21, [2, 1048571])]"
  by code_simp

lemma primes_5: "list_all prime_like [2097143, 1048573, 1048571, 581029]"
  using check_chain [OF certificates_5] small_primes primes_1 primes_2 primes_3 primes_4 by simp

lemma certificates_6:
  "check_chain [2, 3, 5, 11, 23, 29, 31, 41, 61, 89, 683, 2371, 524287]
  [(4194301, 7, 22, [2, 2, 3, 5, 5, 11, 31, 41]),
   (8388593, 3, 23, [2, 2, 2, 2, 524287]),
   (16777213, 5, 24, [2, 2, 3, 23, 89, 683]),
   (33554393, 3, 25, [2, 2, 2, 29, 61, 2371])]"
  by code_simp

lemma primes_6: "list_all prime_like [33554393, 16777213, 8388593, 4194301]"
  using check_chain [OF certificates_6] small_primes primes_1 primes_2 primes_3 primes_4 primes_5 by simp

lemma certificates_7:
  "check_chain [2, 3, 7, 11, 101, 479, 15101, 70051, 581029]
  [(67108859, 2, 26, [2, 479, 70051]),
   (134217689, 3, 27, [2, 2, 2, 11, 101, 15101]),
   (268435399, 3, 28, [2, 3, 7, 11, 581029])]"
  by code_simp

lemma primes_7: "list_all prime_like [268435399, 134217689, 67108859]"
  using check_chain [OF certificates_7] small_primes primes_1 primes_2 primes_3 primes_4 primes_5 primes_6 by simp

lemma certificates_8:
  "check_chain [2, 7, 73, 2341, 16381, 262657]
  [(536870909, 2, 29, [2, 2, 7, 73, 262657]),
   (1073741789, 2, 30, [2, 2, 7, 2341, 16381])]"
  by code_simp

lemma primes_8: "list_all prime_like [1073741789, 536870909]"
  using check_chain [OF certificates_8] small_primes primes_1 primes_2 primes_3 primes_4 primes_5 primes_6 primes_7 by simp

lemma certificates_9:
  "check_chain [2, 3, 7, 11, 31, 151, 331]
  [(2147483647, 7, 31, [2, 3, 3, 7, 11, 31, 151, 331])]"
  by code_simp

lemma primes_9: "list_all prime_like [2147483647]"
  using check_chain [OF certificates_9] small_primes primes_1 primes_2 primes_3 primes_4 primes_5 primes_6 primes_7 primes_8 by simp

lemma PRIMES_prime_like: "list_all prime_like PRIMES"
  using small_primes primes_1 primes_2 primes_3 primes_4 primes_5 primes_6 primes_7 primes_8 primes_9
  by (simp add: PRIMES_def)

text \<open>The last length, \<open>2^31 - 1\<close>, is a prime too, but an index and a jump may exceed \<^verbatim>\<open>INT32_MAX\<close> there.\<close>

lemma PRIMES_good: "0 \<le> p \<Longrightarrow> p < PRIMES_LENGTH - 1 \<Longrightarrow> good_len (PRIMES ! nat p)"
proof -
  assume p: "0 \<le> p" "p < PRIMES_LENGTH - 1"
  have "length (butlast PRIMES) = 27" by (simp add: PRIMES_def)
  then have l: "nat p < length (butlast PRIMES)" using p by (simp add: PRIMES_LENGTH_def)
  have "PRIMES ! nat p = butlast PRIMES ! nat p" by (rule nth_butlast [OF l, symmetric])
  also have "\<dots> \<in> set (butlast PRIMES)" by (rule nth_mem [OF l])
  finally have b: "PRIMES ! nat p \<in> set (butlast PRIMES)" .
  then have mem: "PRIMES ! nat p \<in> set PRIMES" by (rule in_set_butlastD)
  have "list_all (\<lambda>n. n \<le> 0x40000000) (butlast PRIMES)" by (simp add: PRIMES_def)
  then have "PRIMES ! nat p \<le> 0x40000000" using b by (simp add: list_all_iff)
  moreover have "list_all (\<lambda>n. 2 < n) PRIMES" by (simp add: PRIMES_def)
  ultimately show ?thesis using mem PRIMES_prime_like by (simp add: good_len_def prime_like_def list_all_iff)
qed

end
