(* ===== verification/UHashMap.thy ===== *)
theory UHashMap
  imports UHashPrimes
begin

text \<open>
  The operations of the hash table as operations on a finite map from keys, up to the key
  comparator, to values: what every operation keeps of the invariant and what it does to the
  map, with and without memory for a new array.
\<close>

section \<open>The invariant\<close>

abbreviation tmap :: "UHashtable \<Rightarrow> tok \<rightharpoonup> tok" where
  "tmap h \<equiv> els_map (ht_keyComparator h) (ht_elements h)"

text \<open>What lookups rely on.\<close>

definition uh_core :: "UHashtable \<Rightarrow> bool" where
  "uh_core h \<longleftrightarrow> hash_contract (ht_keyHasher h) (ht_keyComparator h) \<and>
     table_ok (ht_keyHasher h) (ht_keyComparator h) (ht_elements h) \<and>
     ht_length h = int (length (ht_elements h)) \<and> ht_count h = int (pairs (ht_elements h)) \<and> ht_count h < ht_length h"

text \<open>What resizing relies on: the length is that of the prime index, and the marks are those of a policy.\<close>

definition uh_sizes :: "UHashtable \<Rightarrow> bool" where
  "uh_sizes h \<longleftrightarrow> 0 \<le> ht_primeIndex h \<and> ht_primeIndex h < PRIMES_LENGTH - 1 \<and> ht_length h = PRIMES ! nat (ht_primeIndex h) \<and>
     ht_lowWaterRatio h \<in> {Ratio_0, Ratio_01} \<and> ht_highWaterRatio h \<in> {Ratio_05, Ratio_1} \<and>
     ht_lowWaterMark h = water_mark (ht_length h) (ht_lowWaterRatio h) \<and>
     ht_highWaterMark h = water_mark (ht_length h) (ht_highWaterRatio h)"

text \<open>Up to this number of pairs the table does not grow to its last length, \<open>2^31 - 1\<close>, where indices overflow.\<close>

definition count_limit :: int where
  "count_limit = 500000000"

definition uh_inv :: "UHashtable \<Rightarrow> bool" where
  "uh_inv h \<longleftrightarrow> uh_core h \<and> uh_sizes h \<and> ht_count h \<le> count_limit"

text \<open>The fields no operation on the contents changes.\<close>

definition same_functions :: "UHashtable \<Rightarrow> UHashtable \<Rightarrow> bool" where
  "same_functions h h' \<longleftrightarrow> ht_keyHasher h' = ht_keyHasher h \<and> ht_keyComparator h' = ht_keyComparator h \<and>
     ht_valueComparator h' = ht_valueComparator h \<and> ht_keyDeleter h' = ht_keyDeleter h \<and> ht_valueDeleter h' = ht_valueDeleter h \<and>
     ht_lowWaterRatio h' = ht_lowWaterRatio h \<and> ht_highWaterRatio h' = ht_highWaterRatio h"

lemma same_functions_refl [simp]: "same_functions h h"
  by (simp add: same_functions_def)

lemma same_functions_trans: "same_functions a b \<Longrightarrow> same_functions b c \<Longrightarrow> same_functions a c"
  by (simp add: same_functions_def)

definition heap_ok :: "UHashElement heap \<Rightarrow> bool" where
  "heap_ok hp \<longleftrightarrow> (\<forall>n. grants hp n)"

section \<open>Lookups\<close>

lemma find_index_core:
  assumes "uh_core h" "positive_hash hc = positive_hash (ht_keyHasher h key)"
  obtains i where "find_index h key hc = Some i" "i < length (ht_elements h)"
    "held (ht_keyComparator h) (ht_elements h) key i \<or>
      vacant (ht_elements h ! i) \<and> (\<forall>j. \<not> held (ht_keyComparator h) (ht_elements h) key j) \<and>
      path_clear (ht_elements h) i (positive_hash (ht_keyHasher h key))"
proof -
  have "pairs (ht_elements h) < length (ht_elements h)" using assms(1) by (simp add: uh_core_def)
  then show thesis using find_index_spec [of h "ht_keyHasher h" hc key] assms that by (auto simp: uh_core_def)
qed

lemma core_value:
  assumes "uh_core h" "i < length (ht_elements h)"
    "held (ht_keyComparator h) (ht_elements h) key i \<or>
      vacant (ht_elements h ! i) \<and> (\<forall>j. \<not> held (ht_keyComparator h) (ht_elements h) key j)"
  shows "tmap h key = (if vacant (ht_elements h ! i) then None else Some (he_value (ht_elements h ! i)))"
    "vacant (ht_elements h ! i) \<Longrightarrow> he_value (ht_elements h ! i) = 0 \<and> he_key (ht_elements h ! i) = 0"
proof -
  have t: "table_ok (ht_keyHasher h) (ht_keyComparator h) (ht_elements h)" "equivp (ht_keyComparator h)"
    using assms(1) by (auto simp: uh_core_def hash_contract_def)
  show "tmap h key = (if vacant (ht_elements h ! i) then None else Some (he_value (ht_elements h ! i)))"
    using assms(3) els_map_held [OF t] els_map_None [of "ht_keyComparator h" "ht_elements h" key] by (auto simp: held_def)
  show "vacant (ht_elements h ! i) \<Longrightarrow> he_value (ht_elements h ! i) = 0 \<and> he_key (ht_elements h ! i) = 0"
    using t(1) assms(2) by (simp add: table_ok_def)
qed

lemma get_value:
  assumes "uh_core h"
  shows "map_option (\<lambda>i. he_value (ht_elements h ! i)) (find_index h key (ht_keyHasher h key)) =
     Some (case tmap h key of None \<Rightarrow> 0 | Some v \<Rightarrow> v)"
proof (rule find_index_core [OF assms refl, of key])
  fix i assume i: "find_index h key (ht_keyHasher h key) = Some i" "i < length (ht_elements h)"
    and h: "held (ht_keyComparator h) (ht_elements h) key i \<or>
      vacant (ht_elements h ! i) \<and> (\<forall>j. \<not> held (ht_keyComparator h) (ht_elements h) key j) \<and>
      path_clear (ht_elements h) i (positive_hash (ht_keyHasher h key))"
  from h have "held (ht_keyComparator h) (ht_elements h) key i \<or>
      vacant (ht_elements h ! i) \<and> (\<forall>j. \<not> held (ht_keyComparator h) (ht_elements h) key j)" by blast
  from core_value [OF assms i(2) this] i(1) show ?thesis by auto
qed

lemma find_value:
  assumes "uh_core h"
  shows "\<exists>r. uhash_find h key = Some r \<and>
    (case r of None \<Rightarrow> tmap h key = None
     | Some i \<Rightarrow> i < length (ht_elements h) \<and> ht_keyComparator h key (he_key (ht_elements h ! i)) \<and>
                 tmap h key = Some (he_value (ht_elements h ! i)))"
proof (rule find_index_core [OF assms refl, of key])
  fix i assume i: "find_index h key (ht_keyHasher h key) = Some i" "i < length (ht_elements h)"
    and h: "held (ht_keyComparator h) (ht_elements h) key i \<or>
      vacant (ht_elements h ! i) \<and> (\<forall>j. \<not> held (ht_keyComparator h) (ht_elements h) key j) \<and>
      path_clear (ht_elements h) i (positive_hash (ht_keyHasher h key))"
  from h have h': "held (ht_keyComparator h) (ht_elements h) key i \<or>
      vacant (ht_elements h ! i) \<and> (\<forall>j. \<not> held (ht_keyComparator h) (ht_elements h) key j)" by blast
  from core_value(1) [OF assms i(2) this] i h' show ?thesis
    by (auto simp: uhash_find_def IS_EMPTY_OR_DELETED_def held_def)
qed

section \<open>Rehashing\<close>

lemma els_map_Cons [simp]:
  "els_map cmp (e # es) k = (if \<not> vacant e \<and> cmp k (he_key e) then Some (he_value e) else els_map cmp es k)"
  by (simp add: els_map_def)

lemma pairs_simps [simp]: "pairs [] = 0" "pairs (e # es) = (if vacant e then 0 else 1) + pairs es" "pairs (rev es) = pairs es"
  by (auto simp: pairs_def simp flip: rev_filter)

definition no_clash :: "(tok \<Rightarrow> tok \<Rightarrow> bool) \<Rightarrow> UHashElement \<Rightarrow> UHashElement \<Rightarrow> bool" where
  "no_clash cmp a b \<longleftrightarrow> vacant a \<or> vacant b \<or> \<not> cmp (he_key a) (he_key b) \<and> \<not> cmp (he_key b) (he_key a)"

lemma no_clash_commute: "no_clash cmp a b = no_clash cmp b a"
  by (auto simp: no_clash_def)

lemma table_no_clash: "table_ok hs cmp els \<Longrightarrow> sorted_wrt (no_clash cmp) els"
  unfolding sorted_wrt_iff_nth_less table_ok_def no_clash_def by (metis less_trans nat_neq_iff)

lemma rev_no_clash: "sorted_wrt (no_clash cmp) els \<Longrightarrow> sorted_wrt (no_clash cmp) (rev els)"
  by (simp add: sorted_wrt_rev no_clash_commute)

lemma els_map_append:
  "els_map cmp (xs @ ys) k = (case els_map cmp xs k of None \<Rightarrow> els_map cmp ys k | Some v \<Rightarrow> Some v)"
  by (induction xs) (auto simp: els_map_def)

lemma els_map_clash:
  assumes "equivp cmp" "\<forall>b \<in> set es. no_clash cmp a b" "\<not> vacant a" "cmp k (he_key a)"
  shows "els_map cmp es k = None"
proof -
  note sym = equivp_symp [OF assms(1)] and trans = equivp_transp [OF assms(1)]
  have "\<not> cmp k (he_key b)" if "b \<in> set es" "\<not> vacant b" for b
    using assms(2-4) that sym trans unfolding no_clash_def by meson
  then show ?thesis by (auto simp: els_map_def find_None_iff)
qed

lemma els_map_rev:
  assumes "equivp cmp" "sorted_wrt (no_clash cmp) els"
  shows "els_map cmp (rev els) = els_map cmp els"
  using assms(2)
proof (induction els)
  case (Cons e es)
  have "els_map cmp (rev (e # es)) k = els_map cmp (e # es) k" for k
    using Cons els_map_clash [OF assms(1), of es e k] by (auto simp: els_map_append els_map_def [of cmp "[]"] split: option.split)
  then show ?case by blast
qed simp

lemma rehash_insert_ok:
  assumes h: "uh_core h" and e: "\<not> vacant e" "he_hashcode e = positive_hash (ht_keyHasher h (he_key e))"
    and new: "tmap h (he_key e) = None" and room: "ht_count h + 1 < ht_length h"
  shows "\<exists>h'. rehash_insert e h = Some h' \<and> uh_core h' \<and> same_functions h h' \<and> ht_count h' = ht_count h + 1 \<and>
     ht_length h' = ht_length h \<and> uh_sizes h' = uh_sizes h \<and>
     tmap h' = (\<lambda>k. if ht_keyComparator h k (he_key e) then Some (he_value e) else tmap h k)"
proof (rule find_index_core [OF h, of "he_hashcode e" "he_key e"])
  show "positive_hash (he_hashcode e) = positive_hash (ht_keyHasher h (he_key e))" using e(2) by simp
  let ?els = "ht_elements h" and ?cmp = "ht_keyComparator h" and ?hs = "ht_keyHasher h"
  fix i assume i: "find_index h (he_key e) (he_hashcode e) = Some i" "i < length ?els"
    and place: "held ?cmp ?els (he_key e) i \<or> vacant (?els ! i) \<and> (\<forall>j. \<not> held ?cmp ?els (he_key e) j) \<and>
      path_clear ?els i (positive_hash (?hs (he_key e)))"
  define e' where "e' = \<lparr>he_hashcode = positive_hash (?hs (he_key e)), he_value = he_value e, he_key = he_key e\<rparr>"
  have e': "(?els ! i)\<lparr>he_key := he_key e, he_value := he_value e, he_hashcode := he_hashcode e\<rparr> = e'"
    using e(2) by (simp add: e'_def)
  have vac: "vacant (?els ! i)" using place new by (auto simp: els_map_None)
  have ok: "table_ok ?hs ?cmp ?els" "hash_contract ?hs ?cmp" using h by (auto simp: uh_core_def)
  from put_slot [OF ok i(2) place e'_def]
  have put: "table_ok ?hs ?cmp (?els[i := e'])" "els_map ?cmp (?els[i := e']) = (\<lambda>k. if ?cmp k (he_key e) then Some (he_value e) else tmap h k)"
    by auto
  have "int (pairs (?els[i := e'])) = int (pairs ?els) + 1" using pairs_update [OF i(2), of e'] vac by (simp add: e'_def)
  then show ?thesis using i(1) e(1) e' put h room
    by (auto simp: rehash_insert_def IS_EMPTY_OR_DELETED_def uh_core_def same_functions_def uh_sizes_def)
qed

lemma rehash_fold:
  assumes "uh_core h" "sorted_wrt (no_clash (ht_keyComparator h)) es"
    and "\<forall>e \<in> set es. \<not> vacant e \<longrightarrow> he_hashcode e = positive_hash (ht_keyHasher h (he_key e)) \<and> tmap h (he_key e) = None"
    and "ht_count h + int (pairs es) < ht_length h"
  shows "\<exists>h'. fold (\<lambda>e h. Option.bind h (rehash_insert e)) es (Some h) = Some h' \<and> uh_core h' \<and> same_functions h h' \<and>
     ht_count h' = ht_count h + int (pairs es) \<and> ht_length h' = ht_length h \<and> uh_sizes h' = uh_sizes h \<and>
     tmap h' = (\<lambda>k. case els_map (ht_keyComparator h) es k of None \<Rightarrow> tmap h k | Some v \<Rightarrow> Some v)"
  using assms
proof (induction es arbitrary: h)
  case Nil
  then show ?case by (auto simp: els_map_def)
next
  case (Cons e es)
  show ?case
  proof (cases "vacant e")
    case True
    then have "rehash_insert e h = Some h" by (simp add: rehash_insert_def IS_EMPTY_OR_DELETED_def)
    then show ?thesis using Cons.IH [of h] Cons.prems True by simp
  next
    case False
    let ?cmp = "ht_keyComparator h"
    have eq: "equivp ?cmp" using Cons.prems(1) by (simp add: uh_core_def hash_contract_def)
    obtain h1 where h1: "rehash_insert e h = Some h1" "uh_core h1" "same_functions h h1" "ht_count h1 = ht_count h + 1"
      "ht_length h1 = ht_length h" "uh_sizes h1 = uh_sizes h"
      "tmap h1 = (\<lambda>k. if ?cmp k (he_key e) then Some (he_value e) else tmap h k)"
      using rehash_insert_ok [OF Cons.prems(1) False] Cons.prems(3,4) False by auto
    have fn: "ht_keyComparator h1 = ?cmp" "ht_keyHasher h1 = ht_keyHasher h" using h1(3) by (simp_all add: same_functions_def)
    have clash: "no_clash ?cmp e b" if "b \<in> set es" for b using Cons.prems(2) that by simp
    have "tmap h1 (he_key b) = None" if "b \<in> set es" "\<not> vacant b" for b
      using h1(7) clash [OF that(1)] that False Cons.prems(3) by (auto simp: no_clash_def)
    then obtain h' where h': "fold (\<lambda>e h. Option.bind h (rehash_insert e)) es (Some h1) = Some h'" "uh_core h'"
      "same_functions h1 h'" "ht_count h' = ht_count h1 + int (pairs es)" "ht_length h' = ht_length h1" "uh_sizes h' = uh_sizes h1"
      "tmap h' = (\<lambda>k. case els_map ?cmp es k of None \<Rightarrow> tmap h1 k | Some v \<Rightarrow> Some v)"
      using Cons.IH [of h1] Cons.prems h1(2,4,5) fn False by auto
    have "els_map ?cmp es k = None" if "?cmp k (he_key e)" for k
      using els_map_clash [OF eq _ False that, of es] clash by blast
    then have "tmap h' k = (case els_map ?cmp (e # es) k of None \<Rightarrow> tmap h k | Some v \<Rightarrow> Some v)" for k
      using h'(7) h1(7) False by (auto split: option.split)
    then show ?thesis using h1 h' same_functions_trans [OF h1(3) h'(3)] False by auto
  qed
qed

lemma fold_bind_None: "fold (\<lambda>e h. Option.bind h (f e)) es None = None"
  by (induction es) auto

lemma rehash_fold_deleted:
  "fold (\<lambda>e h. Option.bind h (rehash_insert e)) es (Some h) = Some h' \<Longrightarrow>
     ht_deletedKeys h' = ht_deletedKeys h \<and> ht_deletedValues h' = ht_deletedValues h"
proof (induction es arbitrary: h)
  case (Cons e es)
  then obtain h1 where h1: "rehash_insert e h = Some h1"
    by (cases "rehash_insert e h") (auto simp: fold_bind_None)
  then have "ht_deletedKeys h1 = ht_deletedKeys h" "ht_deletedValues h1 = ht_deletedValues h"
    by (auto simp: rehash_insert_def split: if_splits)
  then show ?case using Cons.IH [of h1] Cons.prems h1 by simp
qed simp

section \<open>Allocation and resizing\<close>

lemma table_ok_empty: "good_len (int n) \<Longrightarrow> table_ok hs cmp (replicate n empty_element)"
  by (simp add: table_ok_def empty_element_def)

lemma els_map_empty: "els_map cmp (replicate n empty_element) = Map.empty" "pairs (replicate n empty_element) = 0"
proof -
  have "vacant empty_element" by (simp add: empty_element_def)
  then show "els_map cmp (replicate n empty_element) = Map.empty" "pairs (replicate n empty_element) = 0"
    by (auto simp: els_map_def find_None_iff pairs_def)
qed

lemma allocate_ok:
  assumes p: "0 \<le> p" "p < PRIMES_LENGTH - 1" and st: "\<not> U_FAILURE st"
    and c: "hash_contract (ht_keyHasher h) (ht_keyComparator h)"
    and r: "ht_lowWaterRatio h \<in> {Ratio_0, Ratio_01}" "ht_highWaterRatio h \<in> {Ratio_05, Ratio_1}"
    and a: "uhash_allocate hp p h st = (h', st')"
  shows "if U_FAILURE st' then st' = U_MEMORY_ALLOCATION_ERROR \<and> \<not> heap_ok hp
           \<and> h' = h\<lparr>ht_primeIndex := p, ht_length := PRIMES ! nat p, ht_elements := []\<rparr>
         else st' = st \<and> uh_inv h' \<and> same_functions h h' \<and> ht_count h' = 0 \<and> ht_length h' = PRIMES ! nat p \<and>
           ht_primeIndex h' = p \<and> tmap h' = Map.empty \<and>
           ht_deletedKeys h' = ht_deletedKeys h \<and> ht_deletedValues h' = ht_deletedValues h"
proof -
  let ?n = "PRIMES ! nat p"
  have g: "good_len ?n" using PRIMES_good [OF p] .
  then have n: "2 < ?n" by (simp add: good_len_def)
  then have sz: "sizeof_UHashElement * ?n > 0" by (simp add: sizeof_UHashElement_def)
  show ?thesis
  proof (cases "grants hp (sizeof_UHashElement * ?n)")
    case True
    then have block: "uprv_malloc hp sizeof_UHashElement ?n = Some (replicate (nat ?n) (junk hp))"
      using sz by (simp add: uprv_malloc_def)
    have h': "h' = h\<lparr>ht_primeIndex := p, ht_length := ?n, ht_elements := replicate (nat ?n) empty_element, ht_count := 0,
        ht_lowWaterMark := water_mark ?n (ht_lowWaterRatio h), ht_highWaterMark := water_mark ?n (ht_highWaterRatio h)\<rparr>" "st' = st"
      using a st block by (simp_all add: uhash_allocate_def Let_def)
    have "table_ok (ht_keyHasher h) (ht_keyComparator h) (replicate (nat ?n) empty_element)" using g n by (intro table_ok_empty) simp
    then show ?thesis using h' st p c r n by (simp add: uh_inv_def uh_core_def uh_sizes_def same_functions_def els_map_empty count_limit_def)
  next
    case False
    then have "uprv_malloc hp sizeof_UHashElement ?n = None" using sz by (simp add: uprv_malloc_def)
    then show ?thesis using a st False by (auto simp: uhash_allocate_def Let_def heap_ok_def)
  qed
qed

fun shrinkable :: "int list \<Rightarrow> bool" where
  "shrinkable (a # b # ns) \<longleftrightarrow> water_mark b Ratio_01 \<le> a \<and> shrinkable (b # ns)"
| "shrinkable ns = True"

lemma shrinkable_nth: "shrinkable ns \<Longrightarrow> Suc i < length ns \<Longrightarrow> water_mark (ns ! Suc i) Ratio_01 \<le> ns ! i"
proof (induction ns arbitrary: i rule: shrinkable.induct)
  case (1 a b ns)
  then show ?case by (cases i) (auto simp del: water_mark.simps)
qed auto

lemma PRIMES_shrinkable: "shrinkable PRIMES"
  by code_simp

lemma PRIMES_count: "length PRIMES = nat PRIMES_LENGTH"
  by (simp add: PRIMES_def PRIMES_LENGTH_def)

lemma shrink_room: "0 < p \<Longrightarrow> p < PRIMES_LENGTH \<Longrightarrow> water_mark (PRIMES ! nat p) Ratio_01 \<le> PRIMES ! nat (p - 1)"
proof -
  assume p: "0 < p" "p < PRIMES_LENGTH"
  then have "Suc (nat (p - 1)) = nat p" "nat p < length PRIMES" by (auto simp: PRIMES_count)
  then show ?thesis using shrinkable_nth [OF PRIMES_shrinkable, of "nat (p - 1)"] by simp
qed

lemma grow_room: "0 \<le> p \<Longrightarrow> p + 1 < PRIMES_LENGTH \<Longrightarrow> PRIMES ! nat p < PRIMES ! nat (p + 1)"
proof -
  assume p: "0 \<le> p" "p + 1 < PRIMES_LENGTH"
  have "sorted_wrt (<) PRIMES" by (simp add: PRIMES_def)
  moreover have "nat p < nat (p + 1)" "nat (p + 1) < length PRIMES" using p by (auto simp: PRIMES_count)
  ultimately show ?thesis by (rule sorted_wrt_nth_less)
qed

text \<open>The high water mark of the last length but one is not below the limit.\<close>

lemma limit_water_marks: "count_limit \<le> water_mark (PRIMES ! 26) Ratio_05" "count_limit \<le> water_mark (PRIMES ! 26) Ratio_1"
  by code_simp+

text \<open>A rehash keeps the map. Without memory it leaves the table usable, but with a wrong prime index.\<close>

lemma rehash_ok:
  assumes h: "uh_inv h" and st: "\<not> U_FAILURE st"
  shows "\<exists>h' st'. uhash_rehash hp h st = Some (h', st') \<and> uh_core h' \<and> same_functions h h' \<and> tmap h' = tmap h \<and>
     ht_count h' = ht_count h \<and> ht_deletedKeys h' = ht_deletedKeys h \<and> ht_deletedValues h' = ht_deletedValues h \<and>
     (if U_FAILURE st' then \<not> heap_ok hp else st' = st \<and> uh_inv h')"
proof -
  have core: "uh_core h" and sizes: "uh_sizes h" and limit: "ht_count h \<le> count_limit" using h by (auto simp: uh_inv_def)
  let ?p = "ht_primeIndex h" and ?cmp = "ht_keyComparator h" and ?els = "ht_elements h"
  have eq: "equivp ?cmp" using core by (simp add: uh_core_def hash_contract_def)
  have count: "ht_count h = int (pairs ?els)" using core by (simp add: uh_core_def)
  consider (stay) "uhash_rehash hp h st = Some (h, st)"
    | (resize) q where "0 \<le> q" "q < PRIMES_LENGTH - 1" "ht_count h < PRIMES ! nat q"
      "uhash_rehash hp h st = (case uhash_allocate hp q h st of (hash1, st) \<Rightarrow>
         if U_FAILURE st then Some (hash1\<lparr>ht_elements := ?els, ht_length := ht_length h\<rparr>, st)
         else map_option (\<lambda>h. (h, st)) (rehash_all ?els hash1))"
  proof (cases "ht_count h > ht_highWaterMark h")
    case grow: True
    show thesis
    proof (cases "?p + 1 \<ge> PRIMES_LENGTH - 1")
      case True
      then have "nat ?p = 26" using sizes unfolding uh_sizes_def PRIMES_LENGTH_def by linarith
      then have "count_limit \<le> ht_highWaterMark h" using sizes limit_water_marks by (auto simp: uh_sizes_def simp del: water_mark.simps)
      then show thesis using grow limit by simp
    next
      case False
      have p: "0 \<le> ?p" "ht_count h < PRIMES ! nat ?p" using sizes core by (auto simp: uh_sizes_def uh_core_def)
      then have "ht_count h < PRIMES ! nat (?p + 1)" using grow_room [of ?p] False by linarith
      then show thesis using resize [of "?p + 1"] grow False p by (simp add: uhash_rehash_def)
    qed
  next
    case nogrow: False
    show thesis
    proof (cases "ht_count h < ht_lowWaterMark h \<and> 0 \<le> ?p - 1")
      case True
      have "ht_lowWaterRatio h \<noteq> Ratio_0" using True sizes count by (auto simp: uh_sizes_def)
      then have "ht_lowWaterMark h = water_mark (PRIMES ! nat ?p) Ratio_01" using sizes by (auto simp: uh_sizes_def)
      moreover have "0 < ?p" "?p < PRIMES_LENGTH - 1" using True sizes by (auto simp: uh_sizes_def)
      ultimately have "ht_count h < PRIMES ! nat (?p - 1)" using shrink_room [of ?p] True by linarith
      then show thesis using resize [of "?p - 1"] nogrow True \<open>?p < PRIMES_LENGTH - 1\<close> by (simp add: uhash_rehash_def)
    next
      case False
      then show thesis using stay nogrow by (auto simp: uhash_rehash_def)
    qed
  qed
  then show ?thesis
  proof cases
    case stay
    then show ?thesis using h core st by auto
  next
    case (resize q)
    obtain h1 st1 where a: "uhash_allocate hp q h st = (h1, st1)" by (cases "uhash_allocate hp q h st")
    have spec: "if U_FAILURE st1 then st1 = U_MEMORY_ALLOCATION_ERROR \<and> \<not> heap_ok hp
           \<and> h1 = h\<lparr>ht_primeIndex := q, ht_length := PRIMES ! nat q, ht_elements := []\<rparr>
         else st1 = st \<and> uh_inv h1 \<and> same_functions h h1 \<and> ht_count h1 = 0 \<and> ht_length h1 = PRIMES ! nat q \<and>
           ht_primeIndex h1 = q \<and> tmap h1 = Map.empty \<and>
           ht_deletedKeys h1 = ht_deletedKeys h \<and> ht_deletedValues h1 = ht_deletedValues h"
      by (rule allocate_ok [OF resize(1,2) st _ _ _ a]) (use core sizes in \<open>auto simp: uh_core_def uh_sizes_def\<close>)
    show ?thesis
    proof (cases "U_FAILURE st1")
      case True
      then show ?thesis using resize(4) a spec core by (auto simp: uh_core_def same_functions_def)
    next
      case False
      then have h1: "st1 = st" "uh_core h1" "uh_sizes h1" "same_functions h h1" "ht_count h1 = 0" "ht_length h1 = PRIMES ! nat q"
        "tmap h1 = Map.empty" "ht_deletedKeys h1 = ht_deletedKeys h" "ht_deletedValues h1 = ht_deletedValues h"
        using spec by (auto simp: uh_inv_def)
      have fn: "ht_keyComparator h1 = ?cmp" "ht_keyHasher h1 = ht_keyHasher h" using h1(4) by (simp_all add: same_functions_def)
      have t: "table_ok (ht_keyHasher h) ?cmp ?els" using core by (simp add: uh_core_def)
      have nc: "sorted_wrt (no_clash ?cmp) ?els" by (rule table_no_clash [OF t])
      have hc: "he_hashcode e = positive_hash (ht_keyHasher h (he_key e))" if "e \<in> set ?els" "\<not> vacant e" for e
        using t that by (auto simp: table_ok_def in_set_conv_nth)
      obtain h' where h': "fold (\<lambda>e h. Option.bind h (rehash_insert e)) (rev ?els) (Some h1) = Some h'" "uh_core h'"
        "same_functions h1 h'" "ht_count h' = int (pairs ?els)" "uh_sizes h' = uh_sizes h1"
        "tmap h' = (\<lambda>k. case els_map ?cmp (rev ?els) k of None \<Rightarrow> tmap h1 k | Some v \<Rightarrow> Some v)"
        using rehash_fold [OF h1(2), of "rev ?els"] rev_no_clash [OF nc] hc h1 fn resize(3) count by auto
      have map: "tmap h' = tmap h" using h'(6) h1(7) els_map_rev [OF eq nc] by (auto split: option.split)
      have del: "ht_deletedKeys h' = ht_deletedKeys h1 \<and> ht_deletedValues h' = ht_deletedValues h1"
        using h'(1) by (rule rehash_fold_deleted)
      show ?thesis using resize(4) a False h1 h' map count limit del same_functions_trans [OF h1(4) h'(3)] st
        by (auto simp: rehash_all_def uh_inv_def)
    qed
  qed
qed

section \<open>Removing and putting\<close>

text \<open>The token a deleter is called with when \<open>new\<close> replaces \<open>old\<close>.\<close>

definition dropped :: "bool \<Rightarrow> tok \<Rightarrow> tok \<Rightarrow> tok list" where
  "dropped deleter old new' = (if deleter \<and> old \<noteq> 0 \<and> old \<noteq> new' then [old] else [])"

abbreviation value_of :: "UHashtable \<Rightarrow> tok \<Rightarrow> tok" where
  "value_of h k \<equiv> (case tmap h k of None \<Rightarrow> 0 | Some v \<Rightarrow> v)"

lemma setElement_eq:
  "uhash_setElement i hc k v h =
     (if ht_valueDeleter h then 0 else he_value (ht_elements h ! i),
      h\<lparr>ht_elements := (ht_elements h)[i := \<lparr>he_hashcode = hc, he_value = v, he_key = k\<rparr>],
        ht_deletedKeys := ht_deletedKeys h @ dropped (ht_keyDeleter h) (he_key (ht_elements h ! i)) k,
        ht_deletedValues := ht_deletedValues h @ dropped (ht_valueDeleter h) (he_value (ht_elements h ! i)) v\<rparr>)"
  by (simp add: uhash_setElement_def Let_def dropped_def)

lemma internalRemove_ok:
  assumes h: "uh_core h" and i: "i < length (ht_elements h)" "\<not> vacant (ht_elements h ! i)"
    and r: "uhash_internalRemoveElement i h = (r, h')"
  shows "uh_core h' \<and> same_functions h h' \<and> (uh_sizes h \<longrightarrow> uh_sizes h') \<and> ht_length h' = ht_length h \<and> ht_count h' = ht_count h - 1 \<and>
     tmap h' = (\<lambda>k. if ht_keyComparator h k (he_key (ht_elements h ! i)) then None else tmap h k) \<and>
     r = (if ht_valueDeleter h then 0 else he_value (ht_elements h ! i)) \<and>
     ht_elements h' = (ht_elements h)[i := \<lparr>he_hashcode = HASH_DELETED, he_value = 0, he_key = 0\<rparr>] \<and>
     ht_deletedValues h' = ht_deletedValues h @ dropped (ht_valueDeleter h) (he_value (ht_elements h ! i)) 0"
proof -
  let ?els = "ht_elements h"
  define e where "e = \<lparr>he_hashcode = HASH_DELETED, he_value = 0, he_key = 0 :: tok\<rparr>"
  have t: "table_ok (ht_keyHasher h) (ht_keyComparator h) ?els" "hash_contract (ht_keyHasher h) (ht_keyComparator h)"
    using h by (auto simp: uh_core_def)
  have "int (pairs (?els[i := e])) = int (pairs ?els) - 1" using pairs_update [OF i(1), of e] i(2) by (simp add: e_def)
  moreover have r0: "r = (if ht_valueDeleter h then 0 else he_value (?els ! i))"
    using r by (cases "ht_valueDeleter h") (simp_all add: uhash_internalRemoveElement_def setElement_eq)
  have eq: "h' = h\<lparr>ht_count := ht_count h - 1, ht_elements := ?els[i := e],
        ht_deletedKeys := ht_deletedKeys h @ dropped (ht_keyDeleter h) (he_key (?els ! i)) 0,
        ht_deletedValues := ht_deletedValues h @ dropped (ht_valueDeleter h) (he_value (?els ! i)) 0\<rparr>"
    using r by (cases "ht_valueDeleter h", simp_all add: uhash_internalRemoveElement_def setElement_eq e_def)
  note d = delete_slot [OF t i e_def]
  ultimately have "uh_core h'" using h d by (simp add: eq uh_core_def)
  moreover have "uh_sizes h \<Longrightarrow> uh_sizes h'" "same_functions h h'" by (simp_all add: eq uh_sizes_def same_functions_def)
  ultimately show ?thesis using d r0 by (simp add: eq e_def)
qed

lemma remove_ok:
  assumes h: "uh_inv h"
  shows "\<exists>r h'. uhash_remove_tok hp k h = Some (r, h') \<and> uh_core h' \<and> same_functions h h' \<and> (heap_ok hp \<longrightarrow> uh_inv h') \<and>
     tmap h' = (\<lambda>k'. if ht_keyComparator h k' k then None else tmap h k') \<and>
     r = (if ht_valueDeleter h then 0 else value_of h k) \<and>
     ht_count h' = (if tmap h k = None then ht_count h else ht_count h - 1) \<and>
     ht_deletedValues h' = ht_deletedValues h @ dropped (ht_valueDeleter h) (value_of h k) 0"
proof -
  have core: "uh_core h" and sizes: "uh_sizes h" using h by (auto simp: uh_inv_def)
  let ?cmp = "ht_keyComparator h" and ?els = "ht_elements h"
  have eq: "equivp ?cmp" using core by (simp add: uh_core_def hash_contract_def)
  obtain i where i: "find_index h k (ht_keyHasher h k) = Some i" "i < length ?els"
    and place: "held ?cmp ?els k i \<or> vacant (?els ! i) \<and> (\<forall>j. \<not> held ?cmp ?els k j)"
    using find_index_core [OF core, of "ht_keyHasher h k" k] by metis
  note val = core_value [OF core i(2) place]
  show ?thesis
  proof (cases "vacant (?els ! i)")
    case True
    have "tmap h k' = None" if "?cmp k' k" for k'
      using place True that equivp_symp [OF eq] equivp_transp [OF eq] unfolding els_map_None held_def by meson
    then have "tmap h = (\<lambda>k'. if ?cmp k' k then None else tmap h k')" by auto
    then show ?thesis using True i val h core
      by (auto simp: uhash_remove_tok_def IS_EMPTY_OR_DELETED_def dropped_def)
  next
    case False
    then have same: "?cmp k' (he_key (?els ! i)) = ?cmp k' k" for k'
      using place equivp_symp [OF eq] equivp_transp [OF eq] unfolding held_def by meson
    obtain r h1 where r: "uhash_internalRemoveElement i h = (r, h1)" by (cases "uhash_internalRemoveElement i h")
    note h1 = internalRemove_ok [OF core i(2) False r]
    then have inv1: "uh_inv h1" using sizes h by (simp add: uh_inv_def)
    show ?thesis
    proof (cases "ht_count h1 < ht_lowWaterMark h1")
      case True
      obtain h2 st2 where h2: "uhash_rehash hp h1 U_ZERO_ERROR = Some (h2, st2)" "uh_core h2" "same_functions h1 h2" "tmap h2 = tmap h1"
        "ht_count h2 = ht_count h1" "ht_deletedValues h2 = ht_deletedValues h1" "if U_FAILURE st2 then \<not> heap_ok hp else uh_inv h2"
        using rehash_ok [OF inv1, of U_ZERO_ERROR hp] by (auto split: if_splits)
      then have "uhash_remove_tok hp k h = Some (r, h2)"
        using i(1) False r True by (simp add: uhash_remove_tok_def IS_EMPTY_OR_DELETED_def)
      moreover have "same_functions h h2" using h1 h2(3) same_functions_trans by blast
      ultimately show ?thesis using h1 h2 val False same by (auto split: if_splits)
    next
      case no: False
      then have "uhash_remove_tok hp k h = Some (r, h1)"
        using i(1) False r by (simp add: uhash_remove_tok_def IS_EMPTY_OR_DELETED_def)
      then show ?thesis using h1 inv1 val False same by auto
    qed
  qed
qed

lemma delete_key_value_ok:
  assumes "h' = HASH_DELETE_KEY_VALUE k v h"
  shows "uh_core h' = uh_core h" "uh_inv h' = uh_inv h" "same_functions h h'" "tmap h' = tmap h" "ht_count h' = ht_count h"
  using assms by (simp_all add: HASH_DELETE_KEY_VALUE_def Let_def uh_inv_def uh_core_def uh_sizes_def same_functions_def)

text \<open>Storing a pair in a table that is not too full.\<close>

definition stored :: "UHashtable \<Rightarrow> nat \<Rightarrow> tok \<Rightarrow> tok \<Rightarrow> UHashtable" where
  "stored h i k v = snd (uhash_setElement i (positive_hash (ht_keyHasher h k)) k v
     (if vacant (ht_elements h ! i) then h\<lparr>ht_count := ht_count h + 1\<rparr> else h))"

lemma store_ok:
  assumes h: "uh_inv h" and limit: "ht_count h < count_limit"
  obtains i where "find_index h k (ht_keyHasher h k) = Some i"
    "vacant (ht_elements h ! i) \<longleftrightarrow> tmap h k = None" "he_value (ht_elements h ! i) = value_of h k"
    "ht_count h + 1 < ht_length h \<or> tmap h k \<noteq> None \<longrightarrow>
       uh_inv (stored h i k v) \<and> same_functions h (stored h i k v) \<and>
       tmap (stored h i k v) = (\<lambda>k'. if ht_keyComparator h k' k then Some v else tmap h k') \<and>
       ht_count (stored h i k v) = (if tmap h k = None then ht_count h + 1 else ht_count h) \<and>
       ht_deletedValues (stored h i k v) = ht_deletedValues h @ dropped (ht_valueDeleter h) (value_of h k) v"
proof -
  have core: "uh_core h" and sizes: "uh_sizes h" using h by (auto simp: uh_inv_def)
  let ?cmp = "ht_keyComparator h" and ?els = "ht_elements h" and ?hs = "ht_keyHasher h"
  obtain i where i: "find_index h k (ht_keyHasher h k) = Some i" "i < length ?els"
    and place: "held ?cmp ?els k i \<or> vacant (?els ! i) \<and> (\<forall>j. \<not> held ?cmp ?els k j) \<and> path_clear ?els i (positive_hash (?hs k))"
    using find_index_core [OF core, of "ht_keyHasher h k" k] by metis
  from place have place': "held ?cmp ?els k i \<or> vacant (?els ! i) \<and> (\<forall>j. \<not> held ?cmp ?els k j)" by blast
  note val = core_value [OF core i(2) place']
  have old: "he_value (?els ! i) = value_of h k" "vacant (?els ! i) \<longleftrightarrow> tmap h k = None" using val by auto
  define e where "e = \<lparr>he_hashcode = positive_hash (?hs k), he_value = v, he_key = k\<rparr>"
  have t: "table_ok ?hs ?cmp ?els" "hash_contract ?hs ?cmp" using core by (auto simp: uh_core_def)
  have pairs: "int (pairs (?els[i := e])) = int (pairs ?els) + (if vacant (?els ! i) then 1 else 0)"
    using pairs_update [OF i(2), of e] by (simp add: e_def)
  note p = put_slot [OF t i(2) place e_def]
  have eq: "stored h i k v = h\<lparr>ht_elements := ?els[i := e], ht_count := (if vacant (?els ! i) then ht_count h + 1 else ht_count h),
      ht_deletedKeys := ht_deletedKeys h @ dropped (ht_keyDeleter h) (he_key (?els ! i)) k,
      ht_deletedValues := ht_deletedValues h @ dropped (ht_valueDeleter h) (he_value (?els ! i)) v\<rparr>"
    by (simp add: stored_def setElement_eq e_def)
  have "uh_core (stored h i k v)" if "ht_count h + 1 < ht_length h \<or> tmap h k \<noteq> None"
    using p core pairs that old(2) by (cases "tmap h k") (simp_all add: eq uh_core_def)
  moreover have "uh_sizes (stored h i k v)" "same_functions h (stored h i k v)"
    using sizes by (simp_all add: eq uh_sizes_def same_functions_def)
  ultimately show thesis using that [OF i(1) old(2,1)] p limit by (simp add: eq old uh_inv_def)
qed

end
