(* ===== verification/UHashClaims.thy ===== *)
theory UHashClaims
  imports UHashMap
begin

text \<open>
  The hash table of \<^verbatim>\<open>common/uhash.c\<close> as a finite map: the interface its clients rely on, the
  proof that the code provides it, and the theorems about lookups, insertion, removal, resizing
  and enumeration.
\<close>

section \<open>Searching\<close>

lemma find_slot_core:
  assumes "uh_core h"
  shows "\<exists>i. uhash_find_slot h k (ht_keyHasher h k) = Some (At i) \<and> 0 \<le> i \<and> i < ht_length h"
proof -
  let ?els = "ht_elements h" and ?hc = "positive_hash (ht_keyHasher h k)"
  let ?n = "int (length ?els)"
  have g: "good_len ?n" and len: "ht_length h = ?n" using assms by (auto simp: uh_core_def table_ok_def)
  then have n: "0 < ?n" unfolding good_len_def by linarith
  obtain r where r: "uhash_find_slot h k (ht_keyHasher h k) = Some r" "search_result ?els (ht_keyComparator h) k ?hc r"
    using find_loop_result [OF g len, of ?hc 0 k "-1"] n
    by (auto simp: uhash_find_slot_def Let_def len probe_0 passed_def first_deleted_def)
  obtain j where j: "find_index h k (ht_keyHasher h k) = Some j" by (rule find_index_core [OF assms refl, of k])
  then obtain i where i: "r = At i" using r(1) by (auto simp: find_index_def split: slot.splits)
  then have "0 \<le> i" "i < ?n" using r(2) probe_range [OF n] by (auto simp: search_result_def)
  then show ?thesis using r(1) i len by simp
qed

lemma get_eq: "uh_core h \<Longrightarrow> uhash_get h k = Some (value_of h k)"
  using get_value [of h k] by (simp add: uhash_get_def)

section \<open>Putting\<close>

lemma rehash_if_ok:
  assumes "uh_inv h" "\<not> U_FAILURE st"
  obtains h1 st1 where "(if ht_count h > ht_highWaterMark h then uhash_rehash hp h st else Some (h, st)) = Some (h1, st1)"
    "uh_core h1" "same_functions h h1" "tmap h1 = tmap h" "ht_count h1 = ht_count h" "ht_deletedValues h1 = ht_deletedValues h"
    "if U_FAILURE st1 then \<not> heap_ok hp else st1 = st \<and> uh_inv h1"
proof (cases "ht_count h > ht_highWaterMark h")
  case True
  then show thesis using rehash_ok [OF assms, of hp] that by auto
next
  case False
  then show thesis using that [of h st] assms by (auto simp: uh_inv_def)
qed

lemma put_ok:
  assumes h: "uh_inv h" and limit: "ht_count h < count_limit" and st: "\<not> U_FAILURE st" and v: "\<not> (hint \<and> v = 0)"
  shows "\<exists>r h' st'. uhash_put_tok hp hint k v h st = Some (r, h', st') \<and> uh_core h' \<and> same_functions h h' \<and>
     (if U_FAILURE st' then (\<not> heap_ok hp \<or> uh_inv h' \<and> ht_count h + 1 = ht_length h') \<and> r = 0 \<and> tmap h' = tmap h \<and> ht_count h' = ht_count h
      else st' = st \<and> uh_inv h' \<and> tmap h' = (\<lambda>k'. if ht_keyComparator h k' k then Some v else tmap h k') \<and>
        ht_count h' = (if tmap h k = None then ht_count h + 1 else ht_count h) \<and>
        r = (if ht_valueDeleter h then 0 else value_of h k) \<and>
        ht_deletedValues h' = ht_deletedValues h @ dropped (ht_valueDeleter h) (value_of h k) v)"
proof -
  obtain h1 st1 where h1: "(if ht_count h > ht_highWaterMark h then uhash_rehash hp h st else Some (h, st)) = Some (h1, st1)"
    "uh_core h1" "same_functions h h1" "tmap h1 = tmap h" "ht_count h1 = ht_count h" "ht_deletedValues h1 = ht_deletedValues h"
    "if U_FAILURE st1 then \<not> heap_ok hp else st1 = st \<and> uh_inv h1"
    by (rule rehash_if_ok [OF h st])
  have fn: "ht_keyComparator h1 = ht_keyComparator h" "ht_valueDeleter h1 = ht_valueDeleter h" using h1(3) by (simp_all add: same_functions_def)
  have error: "\<exists>h'. put_error k v h1 e = Some (0, h', e) \<and> uh_core h' \<and> same_functions h h' \<and> tmap h' = tmap h \<and>
      ht_count h' = ht_count h \<and> uh_inv h' = uh_inv h1 \<and> ht_length h' = ht_length h1" for e
    using delete_key_value_ok [of "HASH_DELETE_KEY_VALUE k v h1" k v h1, OF refl] h1(2-5) same_functions_trans by (auto simp: put_error_def)
  show ?thesis
  proof (cases "U_FAILURE st1")
    case True
    have "uhash_put_tok hp hint k v h st = put_error k v h1 st1" using h1(1) st v True by (auto simp: uhash_put_tok_def)
    then show ?thesis using error [of st1] True h1(7) by auto
  next
    case False
    then have inv1: "uh_inv h1" "st1 = st" using h1(7) by auto
    obtain i where i: "find_index h1 k (ht_keyHasher h1 k) = Some i"
      "vacant (ht_elements h1 ! i) \<longleftrightarrow> tmap h1 k = None" "he_value (ht_elements h1 ! i) = value_of h1 k"
      and store: "ht_count h1 + 1 < ht_length h1 \<or> tmap h1 k \<noteq> None \<longrightarrow>
       uh_inv (stored h1 i k v) \<and> same_functions h1 (stored h1 i k v) \<and>
       tmap (stored h1 i k v) = (\<lambda>k'. if ht_keyComparator h1 k' k then Some v else tmap h1 k') \<and>
       ht_count (stored h1 i k v) = (if tmap h1 k = None then ht_count h1 + 1 else ht_count h1) \<and>
       ht_deletedValues (stored h1 i k v) = ht_deletedValues h1 @ dropped (ht_valueDeleter h1) (value_of h1 k) v"
      using store_ok [OF inv1(1), of k v] limit h1(5) by auto
    have put: "uhash_put_tok hp hint k v h st =
       (if vacant (ht_elements h1 ! i) \<and> ht_count h1 + 1 = ht_length h1 then put_error k v h1 U_MEMORY_ALLOCATION_ERROR
        else Some (if ht_valueDeleter h1 then 0 else value_of h1 k, stored h1 i k v, st))"
      using h1(1) st v False i(1,3) inv1(2)
      by (auto simp: uhash_put_tok_def Let_def IS_EMPTY_OR_DELETED_def stored_def setElement_eq)
    show ?thesis
    proof (cases "vacant (ht_elements h1 ! i) \<and> ht_count h1 + 1 = ht_length h1")
      case True
      obtain h2 where "put_error k v h1 U_MEMORY_ALLOCATION_ERROR = Some (0, h2, U_MEMORY_ALLOCATION_ERROR)" "uh_core h2" "same_functions h h2"
        "tmap h2 = tmap h" "ht_count h2 = ht_count h" "uh_inv h2" "ht_length h2 = ht_length h1"
        using error [of U_MEMORY_ALLOCATION_ERROR] inv1(1) by blast
      then show ?thesis using put True h1(5) by (intro exI [of _ 0] exI [of _ h2] exI [of _ U_MEMORY_ALLOCATION_ERROR]) simp
    next
      case False
      then have "ht_count h1 + 1 < ht_length h1 \<or> tmap h1 k \<noteq> None" using i(2) inv1(1) by (auto simp: uh_inv_def uh_core_def)
      note s = store [THEN mp, OF this, unfolded h1(4-6), unfolded fn]
      have core: "uh_core (stored h1 i k v)" using s by (simp add: uh_inv_def)
      have sf: "same_functions h (stored h1 i k v)" using s h1(3) same_functions_trans by blast
      have put': "uhash_put_tok hp hint k v h st = Some (if ht_valueDeleter h then 0 else value_of h k, stored h1 i k v, st)"
        unfolding put if_not_P [OF False] using fn h1(4) by simp
      show ?thesis unfolding put' using core sf s st fn h1(4-6) by simp
    qed
  qed
qed

section \<open>Opening, clearing, resizing\<close>

text \<open>Sizes up to the last length but one, 1073741789, are opened with a length of the table before the last.\<close>

lemma prime_index_range: "n \<le> 1073741789 \<Longrightarrow> 0 \<le> prime_index_for n \<and> prime_index_for n < PRIMES_LENGTH - 1"
proof -
  assume "n \<le> 1073741789"
  moreover have tw: "takeWhile (\<lambda>p. p < n) (xs @ [c]) = takeWhile (\<lambda>p. p < n) xs" if "n \<le> c" for c xs
    using that by (induction xs) auto
  moreover have b: "butlast PRIMES = butlast (butlast PRIMES) @ [1073741789]" by (simp add: PRIMES_def)
  ultimately have "takeWhile (\<lambda>p. p < n) (butlast PRIMES) = takeWhile (\<lambda>p. p < n) (butlast (butlast PRIMES))"
    using tw [of 1073741789 "butlast (butlast PRIMES)"] by metis
  then have "length (takeWhile (\<lambda>p. p < n) (butlast PRIMES)) \<le> length (butlast (butlast PRIMES))" by (metis length_takeWhile_le)
  also have "\<dots> = 26" by (simp add: PRIMES_def)
  finally show ?thesis by (simp add: prime_index_for_def PRIMES_LENGTH_def)
qed

lemma init_ok:
  assumes "hash_contract hs cmp" "0 \<le> p" "p < PRIMES_LENGTH - 1" "\<not> U_FAILURE st"
    and i: "uhash_init_table hp raw hs cmp vc p st = (r, st')"
  shows "case r of Some h \<Rightarrow> st' = st \<and> uh_inv h \<and> ht_keyHasher h = hs \<and> ht_keyComparator h = cmp \<and> ht_valueComparator h = vc \<and> ht_count h = 0 \<and>
             ht_length h = PRIMES ! nat p \<and> tmap h = Map.empty \<and> ht_deletedValues h = []
         | None \<Rightarrow> U_FAILURE st' \<and> \<not> heap_ok hp"
proof -
  let ?r1 = "uhash_internalSetResizePolicy U_GROW (raw\<lparr>ht_keyHasher := hs, ht_keyComparator := cmp, ht_valueComparator := vc,
                      ht_keyDeleter := False, ht_valueDeleter := False, ht_allocated := False,
                      ht_deletedKeys := [], ht_deletedValues := []\<rparr>)"
  obtain h1 st1 where a: "uhash_allocate hp p ?r1 st = (h1, st1)" by (cases "uhash_allocate hp p ?r1 st")
  note spec = allocate_ok [OF assms(2,3,4) _ _ _ a]
  show ?thesis using spec a i assms(1,4)
    by (auto simp: uhash_init_table_def Let_def uhash_internalSetResizePolicy_def same_functions_def split: if_splits)
qed

lemma removeAll_loop_ok:
  assumes "uh_core h" "\<forall>i < length (ht_elements h). int i \<le> pos \<longrightarrow> vacant (ht_elements h ! i)"
  shows "uh_core (removeAll_loop h pos) \<and> same_functions h (removeAll_loop h pos) \<and> (uh_sizes h \<longrightarrow> uh_sizes (removeAll_loop h pos)) \<and>
     (\<forall>e \<in> set (ht_elements (removeAll_loop h pos)). vacant e)"
  using assms
proof (induction h pos rule: removeAll_loop.induct)
  case (1 h pos)
  have len: "ht_length h = int (length (ht_elements h))" using "1.prems"(1) by (simp add: uh_core_def)
  show ?case
  proof (cases "uhash_nextElement h pos")
    case None
    have "vacant (ht_elements h ! i)" if "i < length (ht_elements h)" for i
    proof (cases "int i \<le> pos")
      case False
      then have "i \<in> set [nat (pos + 1)..<nat (ht_length h)]" using that len by simp
      then show ?thesis using None unfolding uhash_nextElement_def find_None_iff IS_EMPTY_OR_DELETED_def by blast
    qed (use "1.prems"(2) that in blast)
    then show ?thesis using "1.prems"(1) None by (subst (1 2 3 4) removeAll_loop.simps) (auto simp: in_set_conv_nth)
  next
    case (Some i)
    have i: "i < length (ht_elements h)" "\<not> vacant (ht_elements h ! i)" "pos < int i"
      using Some len by (auto simp: uhash_nextElement_def find_Some_iff IS_EMPTY_OR_DELETED_def)
    have before: "vacant (ht_elements h ! j)" if "j < i" for j
    proof (cases "int j \<le> pos")
      case False
      obtain m where m: "m < length [nat (pos + 1)..<nat (ht_length h)]" "i = [nat (pos + 1)..<nat (ht_length h)] ! m"
        "\<forall>l < m. vacant (ht_elements h ! ([nat (pos + 1)..<nat (ht_length h)] ! l))"
        using Some unfolding uhash_nextElement_def find_Some_iff IS_EMPTY_OR_DELETED_def by blast
      then have "j - nat (pos + 1) < m" "[nat (pos + 1)..<nat (ht_length h)] ! (j - nat (pos + 1)) = j" using that False by auto
      then show ?thesis using m(3) by metis
    qed (use "1.prems"(2) that i in auto)
    obtain r h1 where r: "uhash_internalRemoveElement i h = (r, h1)" by (cases "uhash_internalRemoveElement i h")
    note h1 = internalRemove_ok [OF "1.prems"(1) i(1,2) r]
    have step: "removeAll_loop h pos = removeAll_loop h1 (int i)" "snd (uhash_removeElement i h) = h1"
      using Some i(2) r by (simp_all add: uhash_removeElement_def IS_EMPTY_OR_DELETED_def)
    have vac: "\<forall>j < length (ht_elements h1). int j \<le> int i \<longrightarrow> vacant (ht_elements h1 ! j)"
    proof (intro allI impI)
      fix j assume j: "j < length (ht_elements h1)" "int j \<le> int i"
      then show "vacant (ht_elements h1 ! j)" using h1 before i(1) by (cases "j = i") auto
    qed
    have core: "uh_core h1" using h1 by blast
    show ?thesis using "1.IH" [OF Some, unfolded step(2), OF core vac] h1 same_functions_trans unfolding step(1) by blast
  qed
qed

lemma all_vacant: "\<forall>e \<in> set els. vacant e \<Longrightarrow> els_map cmp els = Map.empty \<and> pairs els = 0"
  by (auto simp: els_map_def find_None_iff pairs_def)

lemma removeAll_ok:
  assumes "uh_inv h"
  shows "uh_inv (uhash_removeAll h) \<and> same_functions h (uhash_removeAll h) \<and> tmap (uhash_removeAll h) = Map.empty \<and> ht_count (uhash_removeAll h) = 0"
proof (cases "ht_count h = 0")
  case True
  then have "pairs (ht_elements h) = 0" using assms by (simp add: uh_inv_def uh_core_def)
  then have "\<forall>e \<in> set (ht_elements h). vacant e" by (simp add: pairs_def filter_empty_conv)
  then show ?thesis using True assms by (simp add: uhash_removeAll_def all_vacant)
next
  case False
  have core: "uh_core h" "uh_sizes h" using assms by (auto simp: uh_inv_def)
  note l = removeAll_loop_ok [OF core(1), of UHASH_FIRST]
  have eq: "uhash_removeAll h = removeAll_loop h UHASH_FIRST" using False by (simp add: uhash_removeAll_def)
  have l: "uh_core (uhash_removeAll h)" "same_functions h (uhash_removeAll h)" "uh_sizes (uhash_removeAll h)"
    "\<forall>e \<in> set (ht_elements (uhash_removeAll h)). vacant e"
    unfolding eq using l core(2) by (auto simp: UHASH_FIRST_def)
  have "ht_count (uhash_removeAll h) = 0" using l(1) all_vacant [OF l(4)] by (simp add: uh_core_def)
  then show ?thesis using l all_vacant [OF l(4)] by (simp add: uh_inv_def count_limit_def)
qed

lemma setResizePolicy_ok:
  assumes "uh_inv h"
  shows "\<exists>h'. uhash_setResizePolicy hp policy h = Some h' \<and> uh_core h' \<and> (heap_ok hp \<longrightarrow> uh_inv h') \<and> tmap h' = tmap h \<and>
     ht_count h' = ht_count h \<and> ht_keyHasher h' = ht_keyHasher h \<and> ht_keyComparator h' = ht_keyComparator h \<and>
     ht_valueDeleter h' = ht_valueDeleter h \<and> ht_deletedValues h' = ht_deletedValues h"
proof -
  define h2 where "h2 = (uhash_internalSetResizePolicy policy h)
    \<lparr>ht_lowWaterMark := water_mark (ht_length h) (fst (policy_ratios policy)),
     ht_highWaterMark := water_mark (ht_length h) (snd (policy_ratios policy))\<rparr>"
  have "fst (policy_ratios policy) \<in> {Ratio_0, Ratio_01}" "snd (policy_ratios policy) \<in> {Ratio_05, Ratio_1}"
    by (cases policy; simp)+
  then have inv: "uh_inv h2" using assms
    by (simp add: h2_def uh_inv_def uh_core_def uh_sizes_def uhash_internalSetResizePolicy_def)
  have eq: "uhash_setResizePolicy hp policy h = map_option fst (uhash_rehash hp h2 U_ZERO_ERROR)"
    by (simp add: uhash_setResizePolicy_def h2_def uhash_internalSetResizePolicy_def)
  have frame: "tmap h2 = tmap h" "ht_count h2 = ht_count h" "ht_keyHasher h2 = ht_keyHasher h" "ht_keyComparator h2 = ht_keyComparator h"
    "ht_valueDeleter h2 = ht_valueDeleter h" "ht_deletedValues h2 = ht_deletedValues h"
    by (simp_all add: h2_def uhash_internalSetResizePolicy_def)
  obtain h' st' where r: "uhash_rehash hp h2 U_ZERO_ERROR = Some (h', st')" "uh_core h'" "same_functions h2 h'" "tmap h' = tmap h2"
    "ht_count h' = ht_count h2" "ht_deletedValues h' = ht_deletedValues h2" "if U_FAILURE st' then \<not> heap_ok hp else uh_inv h'"
    using rehash_ok [OF inv, of U_ZERO_ERROR hp] by (auto split: if_splits)
  have "heap_ok hp \<Longrightarrow> uh_inv h'" using r(7) by (auto split: if_splits)
  then show ?thesis using r frame by (simp add: eq same_functions_def)
qed

section \<open>The interface of a map\<close>

text \<open>
  What the clients of the table rely on: keys are identified by an equivalence, and every
  operation keeps the invariant and does to the map what its name says. The operations
  take the memory they allocate from; \<open>insert\<close> may refuse.
\<close>

locale keyed_map =
  fixes inv :: "'t \<Rightarrow> bool" and same :: "'t \<Rightarrow> 'k \<Rightarrow> 'k \<Rightarrow> bool" and abs :: "'t \<Rightarrow> 'k \<rightharpoonup> 'v"
    and lookup :: "'t \<Rightarrow> 'k \<Rightarrow> 'v option" and insert :: "'k \<Rightarrow> 'v \<Rightarrow> 't \<Rightarrow> 't option" and delete :: "'k \<Rightarrow> 't \<Rightarrow> 't"
  assumes same_equiv: "inv t \<Longrightarrow> equivp (same t)"
    and abs_same: "inv t \<Longrightarrow> same t k k' \<Longrightarrow> abs t k = abs t k'"
    and lookup_abs: "inv t \<Longrightarrow> lookup t k = abs t k"
    and insert_abs: "inv t \<Longrightarrow> insert k v t = Some t' \<Longrightarrow>
      inv t' \<and> same t' = same t \<and> abs t' = (\<lambda>k'. if same t k' k then Some v else abs t k')"
    and delete_abs: "inv t \<Longrightarrow> inv (delete k t) \<and> same (delete k t) = same t \<and>
      abs (delete k t) = (\<lambda>k'. if same t k' k then None else abs t k')"
begin

lemma lookup_insert: "inv t \<Longrightarrow> insert k v t = Some t' \<Longrightarrow> lookup t' k' = (if same t k' k then Some v else lookup t k')"
  using insert_abs [of t k v t'] lookup_abs [of t k'] lookup_abs [of t' k'] by simp

lemma lookup_delete: "inv t \<Longrightarrow> lookup (delete k t) k' = (if same t k' k then None else lookup t k')"
  using delete_abs [of t k] lookup_abs [of t k'] lookup_abs [of "delete k t" k'] by simp

lemma delete_insert:
  assumes "inv t" "insert k v t = Some t'" "lookup t k = None"
  shows "lookup (delete k t') = lookup t"
proof
  fix k'
  have t': "inv t'" "same t' = same t" using insert_abs [OF assms(1,2)] by auto
  have "abs t k' = None" if "same t k' k"
    using abs_same [OF assms(1) that] assms(3) lookup_abs [OF assms(1)] by simp
  then show "lookup (delete k t') k' = lookup t k'"
    using lookup_delete [OF t'(1)] lookup_insert [OF assms(1,2)] lookup_abs [OF assms(1)] t'(2) by simp
qed

lemma insert_commute:
  assumes "inv t" "insert k v t = Some t1" "insert l w t1 = Some t2" "insert l w t = Some s1" "insert k v s1 = Some s2"
    and "\<not> same t k l"
  shows "lookup t2 = lookup s2"
proof
  fix x
  note e = same_equiv [OF assms(1)]
  have "\<not> (same t x k \<and> same t x l)" using assms(6) equivp_symp [OF e] equivp_transp [OF e] by blast
  moreover have "inv t1" "same t1 = same t" "inv s1" "same s1 = same t" using insert_abs assms(1,2,4) by blast+
  ultimately show "lookup t2 x = lookup s2 x"
    using lookup_insert [OF assms(1,2)] lookup_insert [OF _ assms(3)] lookup_insert [OF assms(1,4)] lookup_insert [OF _ assms(5)] by simp
qed

end

section \<open>The table provides the interface\<close>

definition table_lookup :: "UHashtable \<Rightarrow> tok \<rightharpoonup> tok" where
  "table_lookup h k =
     (case uhash_find h k of Some (Some i) \<Rightarrow> Some (he_value (ht_elements h ! i)) | _ \<Rightarrow> None)"

definition table_insert :: "UHashElement heap \<Rightarrow> tok \<Rightarrow> int \<Rightarrow> UHashtable \<Rightarrow> UHashtable option" where
  "table_insert hp k v h =
     (if ht_count h < count_limit then
        case uhash_puti hp k v h U_ZERO_ERROR of
          Some (r, h', st) \<Rightarrow> if U_FAILURE st then None else Some h' | None \<Rightarrow> None
      else None)"

definition table_delete :: "UHashElement heap \<Rightarrow> tok \<Rightarrow> UHashtable \<Rightarrow> UHashtable" where
  "table_delete hp k h = (case uhash_remove hp k h of Some (r, h') \<Rightarrow> h' | None \<Rightarrow> h)"

definition ample_heap :: "UHashElement heap" where
  "ample_heap = \<lparr>grants = \<lambda>n. True, junk = empty_element\<rparr>"

lemma ample_heap_ok [simp]: "heap_ok ample_heap"
  by (simp add: heap_ok_def ample_heap_def)

lemma tmap_same:
  assumes "uh_core h" "ht_keyComparator h k k'"
  shows "tmap h k = tmap h k'"
proof -
  have "equivp (ht_keyComparator h)" using assms(1) by (simp add: uh_core_def hash_contract_def)
  then have "ht_keyComparator h k = ht_keyComparator h k'" using assms(2) by (simp add: equivp_def)
  then show ?thesis by (simp add: els_map_def)
qed

interpretation uhm: keyed_map uh_inv ht_keyComparator "\<lambda>h. tmap h" table_lookup "table_insert ample_heap" "table_delete ample_heap"
proof
  fix h k k' and v :: int and h'
  assume h: "uh_inv h"
  then have core: "uh_core h" by (simp add: uh_inv_def)
  show "equivp (ht_keyComparator h)" using core by (simp add: uh_core_def hash_contract_def)
  show "tmap h k = tmap h k'" if "ht_keyComparator h k k'" using tmap_same [OF core that] .
  show "table_lookup h k = tmap h k" using find_value [OF core, of k] by (auto simp: table_lookup_def split: option.splits)
  show "uh_inv h' \<and> ht_keyComparator h' = ht_keyComparator h \<and> tmap h' = (\<lambda>k'. if ht_keyComparator h k' k then Some v else tmap h k')"
    if "table_insert ample_heap k v h = Some h'"
    using put_ok [OF h _, of U_ZERO_ERROR False v ample_heap k] that
    by (auto simp: table_insert_def uhash_puti_def same_functions_def split: if_splits)
  show "uh_inv (table_delete ample_heap k h) \<and> ht_keyComparator (table_delete ample_heap k h) = ht_keyComparator h \<and>
    tmap (table_delete ample_heap k h) = (\<lambda>k'. if ht_keyComparator h k' k then None else tmap h k')"
    using remove_ok [OF h, of ample_heap k] by (auto simp: table_delete_def uhash_remove_def same_functions_def)
qed

section \<open>Runs\<close>

text \<open>
  A table and the map it should stand for, after a sequence of operations. A put that
  reports an error leaves the map alone; storing a null pointer removes the key. Tables are opened with sizes up to
  1073741789, and pairs are put into tables of fewer than \<open>count_limit\<close>.
\<close>

inductive uh_run :: "UHashElement heap \<Rightarrow> (tok \<Rightarrow> int) \<Rightarrow> (tok \<Rightarrow> tok \<Rightarrow> bool) \<Rightarrow> UHashtable \<Rightarrow> (tok \<rightharpoonup> tok) \<Rightarrow> bool"
  for hp hs cmp where
  run_open: "uhash_openSize ok hp raw hs cmp vc n U_ZERO_ERROR = (Some h, st) \<Longrightarrow> n \<le> 1073741789 \<Longrightarrow> uh_run hp hs cmp h Map.empty"
| run_init: "uhash_init hp raw hs cmp vc U_ZERO_ERROR = (Some h, st) \<Longrightarrow> uh_run hp hs cmp h Map.empty"
| run_put: "uh_run hp hs cmp h m \<Longrightarrow> ht_count h < count_limit \<Longrightarrow> uhash_put_tok hp hint k v h U_ZERO_ERROR = Some (r, h', st) \<Longrightarrow>
    uh_run hp hs cmp h' (if U_FAILURE st then m
      else if hint \<and> v = 0 then (\<lambda>k'. if cmp k' k then None else m k') else (\<lambda>k'. if cmp k' k then Some v else m k'))"
| run_remove: "uh_run hp hs cmp h m \<Longrightarrow> uhash_remove hp k h = Some (r, h') \<Longrightarrow> uh_run hp hs cmp h' (\<lambda>k'. if cmp k' k then None else m k')"
| run_removeAll: "uh_run hp hs cmp h m \<Longrightarrow> uh_run hp hs cmp (uhash_removeAll h) Map.empty"
| run_policy: "uh_run hp hs cmp h m \<Longrightarrow> uhash_setResizePolicy hp policy h = Some h' \<Longrightarrow> uh_run hp hs cmp h' m"
| run_keyDeleter: "uh_run hp hs cmp h m \<Longrightarrow> uh_run hp hs cmp (snd (uhash_setKeyDeleter d h)) m"
| run_valueDeleter: "uh_run hp hs cmp h m \<Longrightarrow> uh_run hp hs cmp (snd (uhash_setValueDeleter d h)) m"

lemma put_null: "\<not> U_FAILURE st \<Longrightarrow> uhash_put_tok hp True k 0 h st = map_option (\<lambda>(r, h). (r, h, st)) (uhash_remove_tok hp k h)"
  by (simp add: uhash_put_tok_def)

lemma uh_inv_frame [simp]:
  "uh_inv (h\<lparr>ht_allocated := a\<rparr>) = uh_inv h" "uh_inv (h\<lparr>ht_keyDeleter := a\<rparr>) = uh_inv h" "uh_inv (h\<lparr>ht_valueDeleter := a\<rparr>) = uh_inv h"
  by (simp_all add: uh_inv_def uh_core_def uh_sizes_def)

lemma open_ok:
  assumes "hash_contract hs cmp" "uhash_openSize ok hp raw hs cmp vc n U_ZERO_ERROR = (Some h, st)" "n \<le> 1073741789"
  shows "uh_inv h \<and> ht_keyHasher h = hs \<and> ht_keyComparator h = cmp \<and> ht_valueComparator h = vc \<and> tmap h = Map.empty \<and> ht_count h = 0"
proof -
  obtain r st' where i: "uhash_init_table hp raw hs cmp vc (prime_index_for n) U_ZERO_ERROR = (r, st')"
    by (cases "uhash_init_table hp raw hs cmp vc (prime_index_for n) U_ZERO_ERROR")
  note spec = init_ok [OF assms(1) _ _ _ i] and p = prime_index_range [OF assms(3)]
  obtain h0 where h0: "r = Some h0" "h = h0\<lparr>ht_allocated := True\<rparr>"
    using assms(2) i by (auto simp: uhash_openSize_def uhash_create_def split: if_splits)
  then show ?thesis using spec p by auto
qed

lemma run_inv:
  assumes "uh_run hp hs cmp h m" "heap_ok hp" "hash_contract hs cmp"
  shows "uh_inv h \<and> tmap h = m \<and> ht_keyHasher h = hs \<and> ht_keyComparator h = cmp"
  using assms(1)
proof (induction rule: uh_run.induct)
  case (run_open ok raw vc n h st)
  then show ?case using open_ok [OF assms(3)] by blast
next
  case (run_init raw vc h st)
  then show ?case using init_ok [OF assms(3), of 3 U_ZERO_ERROR hp raw vc "Some h" st]
    by (auto simp: uhash_init_def DEFAULT_PRIME_INDEX_def PRIMES_LENGTH_def)
next
  case (run_put h m hint k v r h' st)
  note ih = run_put.IH
  show ?case
  proof (cases "hint \<and> v = 0")
    case True
    then show ?thesis using ih run_put.hyps(3) put_null [of U_ZERO_ERROR hp k h] remove_ok [of h hp k] assms(2)
      by (auto simp: same_functions_def)
  next
    case False
    then show ?thesis using ih run_put.hyps(2,3) put_ok [of h U_ZERO_ERROR hint v hp k] assms(2)
      by (auto simp: same_functions_def split: if_splits)
  qed
next
  case (run_remove h m k r h')
  then show ?case using remove_ok [of h hp k] assms(2) by (auto simp: uhash_remove_def same_functions_def)
next
  case (run_removeAll h m)
  then show ?case using removeAll_ok [of h] by (auto simp: same_functions_def)
next
  case (run_policy h m policy h')
  then show ?case using setResizePolicy_ok [of h hp policy] assms(2) by auto
next
  case (run_keyDeleter h m d)
  then show ?case by (auto simp: uhash_setKeyDeleter_def)
next
  case (run_valueDeleter h m d)
  then show ?case by (auto simp: uhash_setValueDeleter_def)
qed

section \<open>Enumeration and comparison\<close>

definition remaining :: "UHashtable \<Rightarrow> int \<Rightarrow> UHashElement list" where
  "remaining h pos = filter (\<lambda>e. \<not> vacant e) (drop (nat (pos + 1)) (ht_elements h))"

lemma nextElement_remaining:
  assumes "ht_length h = int (length (ht_elements h))" "-1 \<le> pos"
  shows "case uhash_nextElement h pos of
     None \<Rightarrow> remaining h pos = []
   | Some i \<Rightarrow> i < length (ht_elements h) \<and> \<not> vacant (ht_elements h ! i) \<and> remaining h pos = ht_elements h ! i # remaining h (int i)"
proof (cases "uhash_nextElement h pos")
  case None
  have "vacant (ht_elements h ! i)" if "nat (pos + 1) \<le> i" "i < length (ht_elements h)" for i
    using None that assms(1) unfolding uhash_nextElement_def find_None_iff IS_EMPTY_OR_DELETED_def by auto
  then have "remaining h pos = []" by (auto simp: remaining_def filter_empty_conv in_set_conv_nth)
  then show ?thesis using None by simp
next
  case (Some i)
  let ?ix = "[nat (pos + 1)..<nat (ht_length h)]"
  obtain m where m: "m < length ?ix" "i = ?ix ! m" "\<not> vacant (ht_elements h ! i)"
    "\<forall>l < m. vacant (ht_elements h ! (?ix ! l))"
    using Some unfolding uhash_nextElement_def find_Some_iff IS_EMPTY_OR_DELETED_def by blast
  have i: "i = nat (pos + 1) + m" "i < length (ht_elements h)" using m(1,2) assms(1) by auto
  have split: "drop (nat (pos + 1)) (ht_elements h) = take m (drop (nat (pos + 1)) (ht_elements h)) @ ht_elements h ! i # drop (Suc i) (ht_elements h)"
    using i by (metis Cons_nth_drop_Suc add.commute append_take_drop_id drop_drop)
  have "filter (\<lambda>e. \<not> vacant e) (take m (drop (nat (pos + 1)) (ht_elements h))) = []"
    using m(1,4) assms(1) by (auto simp: filter_empty_conv in_set_conv_nth)
  moreover have "nat (int i + 1) = Suc i" by simp
  ultimately have "remaining h pos = ht_elements h ! i # remaining h (int i)"
    using m(3) arg_cong [OF split, of "filter (\<lambda>e. \<not> vacant e)"] unfolding remaining_def by simp
  then show ?thesis using Some i m(3) by simp
qed

definition next_step :: "UHashtable \<Rightarrow> int \<Rightarrow> bool \<times> int" where
  "next_step h pos = (case uhash_nextElement h pos of None \<Rightarrow> (False, pos) | Some i \<Rightarrow> (True, int i))"

interpretation slots: enumerator "\<lambda>pos. ht_length h = int (length (ht_elements h)) \<and> -1 \<le> pos" "remaining h" "next_step h"
  "\<lambda>pos. ht_elements h ! nat pos" for h
proof
  fix pos :: int and x xs
  assume ok: "ht_length h = int (length (ht_elements h)) \<and> -1 \<le> pos"
  note n = nextElement_remaining [OF ok [THEN conjunct1] ok [THEN conjunct2]]
  show "\<exists>pos'. next_step h pos = (True, pos') \<and> (ht_length h = int (length (ht_elements h)) \<and> -1 \<le> pos') \<and>
      ht_elements h ! nat pos' = x \<and> remaining h pos' = xs" if "remaining h pos = x # xs"
    using n that ok by (auto simp: next_step_def split: option.splits)
  show "\<exists>pos'. next_step h pos = (False, pos') \<and> (ht_length h = int (length (ht_elements h)) \<and> -1 \<le> pos') \<and> remaining h pos' = []"
    if "remaining h pos = []"
    using n that ok by (auto simp: next_step_def split: option.splits)
qed

lemma equals_loop_ok:
  assumes "uh_core h2" "ht_length h1 = int (length (ht_elements h1))" "-1 \<le> pos" "n = length (remaining h1 pos)"
  shows "equals_loop n c h1 h2 pos = Some (list_all (\<lambda>e. c (he_value e) (value_of h2 (he_key e))) (remaining h1 pos))"
  using assms(3,4)
proof (induction n arbitrary: pos)
  case (Suc n)
  have n: "case uhash_nextElement h1 pos of None \<Rightarrow> remaining h1 pos = []
   | Some i \<Rightarrow> i < length (ht_elements h1) \<and> \<not> vacant (ht_elements h1 ! i) \<and> remaining h1 pos = ht_elements h1 ! i # remaining h1 (int i)"
    by (rule nextElement_remaining [OF assms(2) Suc.prems(1)])
  then obtain i where i: "uhash_nextElement h1 pos = Some i" "remaining h1 pos = ht_elements h1 ! i # remaining h1 (int i)"
    using Suc.prems(2) by (auto split: option.splits)
  let ?k = "he_key (ht_elements h1 ! i)"
  obtain j where j: "find_index h2 ?k (ht_keyHasher h2 ?k) = Some j" "he_value (ht_elements h2 ! j) = value_of h2 ?k"
    using get_value [OF assms(1), of ?k] by auto
  show ?case using i j Suc.IH [of "int i"] Suc.prems by (simp add: Let_def)
qed simp

section \<open>Concrete tables\<close>

declare find_loop.simps [code]

definition raw_table :: UHashtable where
  "raw_table = \<lparr>ht_elements = [], ht_keyHasher = uhash_hashLong, ht_keyComparator = uhash_compareLong, ht_valueComparator = None,
     ht_keyDeleter = True, ht_valueDeleter = True, ht_count = 77, ht_length = 77, ht_highWaterMark = 77, ht_lowWaterMark = 77,
     ht_highWaterRatio = Ratio_0, ht_lowWaterRatio = Ratio_0, ht_primeIndex = 77, ht_allocated = False,
     ht_deletedKeys = [], ht_deletedValues = []\<rparr>"

definition long_table :: UHashtable where
  "long_table = the (fst (uhash_openSize True ample_heap raw_table uhash_hashLong uhash_compareLong (Some uhash_compareLong) 10 U_ZERO_ERROR))"

text \<open>A table with the pair of \<open>k\<close> and \<open>v\<close>.\<close>

definition long_pair :: "tok \<Rightarrow> int \<Rightarrow> UHashtable" where
  "long_pair k v = fst (snd (the (uhash_puti ample_heap k v long_table U_ZERO_ERROR)))"

lemma long_contract: "hash_contract uhash_hashLong uhash_compareLong"
proof -
  have "uhash_compareLong = (=)" by (intro ext) (simp add: uhash_compareLong_def)
  then show ?thesis by (simp add: hash_contract_def identity_equivp)
qed

lemma long_table_open:
  "uhash_openSize True ample_heap raw_table uhash_hashLong uhash_compareLong (Some uhash_compareLong) 10 U_ZERO_ERROR =
     (Some long_table, U_ZERO_ERROR)"
proof -
  obtain r st where i: "uhash_init_table ample_heap raw_table uhash_hashLong uhash_compareLong (Some uhash_compareLong) (prime_index_for 10) U_ZERO_ERROR = (r, st)"
    by fastforce
  have "case r of Some h \<Rightarrow> st = U_ZERO_ERROR | None \<Rightarrow> False"
    using init_ok [OF long_contract _ _ _ i] prime_index_range [of 10] by (auto split: option.splits)
  then show ?thesis using i by (auto simp: long_table_def uhash_openSize_def uhash_create_def split: option.splits)
qed

lemma long_table_run: "uh_run ample_heap uhash_hashLong uhash_compareLong long_table Map.empty"
  by (rule run_open [OF long_table_open]) simp

lemma long_table_room: "ht_count long_table < count_limit \<and> ht_count long_table + 1 < ht_length long_table \<and> ht_count long_table \<le> ht_highWaterMark long_table"
  by code_simp

lemma long_pair_put: "uhash_puti ample_heap 5 7 long_table U_ZERO_ERROR = Some (0, long_pair 5 7, U_ZERO_ERROR)"
proof -
  have "case uhash_puti ample_heap 5 7 long_table U_ZERO_ERROR of Some (r, h, st) \<Rightarrow> r = 0 \<and> \<not> U_FAILURE st \<and> st = U_ZERO_ERROR | None \<Rightarrow> False"
    by code_simp
  then show ?thesis by (auto simp: long_pair_def split: option.splits)
qed

lemma long_pair_run: "uh_run ample_heap uhash_hashLong uhash_compareLong (long_pair 5 7) [5 \<mapsto> 7]"
proof -
  have "(\<lambda>k'. if uhash_compareLong k' 5 then Some (7 :: int) else Map.empty k') = [5 \<mapsto> 7]" by (auto simp: uhash_compareLong_def)
  then show ?thesis using run_put [OF long_table_run long_table_room [THEN conjunct1] long_pair_put [unfolded uhash_puti_def]] by simp
qed

lemma long_pair_inv: "uh_inv (long_pair 5 7)"
  using run_inv [OF long_pair_run ample_heap_ok long_contract] by blast

lemma long_pair_count: "uhash_count (long_pair 5 7) < 500000000"
proof -
  have "case uhash_puti ample_heap 5 7 long_table U_ZERO_ERROR of Some (r, h, st) \<Rightarrow> uhash_count h < 500000000 | None \<Rightarrow> False" by code_simp
  then show ?thesis by (simp add: long_pair_put)
qed

lemma long_pair_valueComparator: "ht_valueComparator (long_pair 5 7) = Some uhash_compareLong"
proof -
  note o = open_ok [OF long_contract long_table_open, simplified]
  then show ?thesis using put_ok [of long_table U_ZERO_ERROR False 7 ample_heap 5] long_pair_put long_table_room
    by (auto simp: uhash_puti_def same_functions_def)
qed

section \<open>Theorems\<close>

text \<open>The number of pairs is the number of classes of equal keys in the map.\<close>

lemma count_classes:
  assumes "uh_core h"
  shows "ht_count h = int (card ((\<lambda>k. {k'. ht_keyComparator h k k'}) ` dom (tmap h)))"
proof -
  let ?cmp = "ht_keyComparator h" and ?els = "ht_elements h"
  let ?es = "filter (\<lambda>e. \<not> vacant e) ?els" and ?same_keys = "\<lambda>k. {k'. ht_keyComparator h k k'}"
  have t: "table_ok (ht_keyHasher h) ?cmp ?els" and eq: "equivp ?cmp" and n: "ht_count h = int (length ?es)"
    using assms by (auto simp: uh_core_def hash_contract_def pairs_def)
  have same: "?same_keys a = ?same_keys b \<longleftrightarrow> ?cmp a b" for a b
    using equivp_reflp [OF eq] equivp_symp [OF eq] equivp_transp [OF eq] by blast
  have in_dom: "k \<in> dom (tmap h) \<longleftrightarrow> (\<exists>e \<in> set ?es. ?cmp k (he_key e))" for k
    unfolding domIff els_map_None by (auto simp: held_def in_set_conv_nth)
  have "?same_keys ` dom (tmap h) = (?same_keys \<circ> he_key) ` set ?es"
  proof (intro equalityI subsetI)
    fix c assume "c \<in> ?same_keys ` dom (tmap h)"
    then obtain k e where "c = ?same_keys k" "e \<in> set ?es" "?cmp k (he_key e)" using in_dom by blast
    then show "c \<in> (?same_keys \<circ> he_key) ` set ?es" using same [of k "he_key e"] by auto
  next
    fix c assume "c \<in> (?same_keys \<circ> he_key) ` set ?es"
    then obtain e where e: "c = ?same_keys (he_key e)" "e \<in> set ?es" by auto
    then have "he_key e \<in> dom (tmap h)" using in_dom equivp_reflp [OF eq] by blast
    then show "c \<in> ?same_keys ` dom (tmap h)" using e(1) by blast
  qed
  moreover have "sorted_wrt (no_clash ?cmp) ?es" using table_no_clash [OF t] by (rule sorted_wrt_filter)
  then have "distinct (map (?same_keys \<circ> he_key) ?es)"
    unfolding distinct_conv_nth sorted_wrt_iff_nth_less
  proof (intro allI impI)
    fix i j assume nc: "\<forall>i j. i < j \<longrightarrow> j < length ?es \<longrightarrow> no_clash ?cmp (?es ! i) (?es ! j)"
      and ij: "i < length (map (?same_keys \<circ> he_key) ?es)" "j < length (map (?same_keys \<circ> he_key) ?es)" "i \<noteq> j"
    have "?es ! i \<in> set ?es" "?es ! j \<in> set ?es" using ij by (metis length_map nth_mem)+
    then have "\<not> vacant (?es ! i)" "\<not> vacant (?es ! j)" by auto
    then have "\<not> ?cmp (he_key (?es ! i)) (he_key (?es ! j))"
      using nc ij by (cases i j rule: linorder_cases) (auto simp: no_clash_def)
    then show "map (?same_keys \<circ> he_key) ?es ! i \<noteq> map (?same_keys \<circ> he_key) ?es ! j" using ij same by simp
  qed
  ultimately show ?thesis using n distinct_card [of "map (?same_keys \<circ> he_key) ?es"] by simp
qed

text \<open>
  C31. Refinement. After any sequence of operations in which no allocation fails, no table is opened with a size above
  1073741789 and none grows beyond 500000000 pairs, a table whose functions meet their contract holds exactly the map the
  operations describe: \<^verbatim>\<open>uhash_get\<close> returns the value of the key or 0, \<^verbatim>\<open>uhash_find\<close> the element with an equal key or \<^verbatim>\<open>NULL\<close>,
  and \<^verbatim>\<open>uhash_count\<close> the number of keys of the map, equal ones counted once, which is below the length of the array.
\<close>

theorem uhash_refines_map:
  assumes "heap_ok hp" "hash_contract hs cmp" "uh_run hp hs cmp h m"
  shows "uhash_get h k = Some (case m k of None \<Rightarrow> 0 | Some v \<Rightarrow> v) \<and>
    (\<exists>r. uhash_find h k = Some r \<and>
       (case r of None \<Rightarrow> m k = None
        | Some i \<Rightarrow> i < length (ht_elements h) \<and> cmp k (he_key (ht_elements h ! i)) \<and> m k = Some (he_value (ht_elements h ! i)))) \<and>
    uhash_count h = int (card ((\<lambda>k. {k'. cmp k k'}) ` dom m)) \<and>
    uhash_count h < int (length (ht_elements h))"
proof -
  have r: "uh_core h" "tmap h = m" "ht_keyHasher h = hs" "ht_keyComparator h = cmp"
    using run_inv [OF assms(3,1,2)] by (auto simp: uh_inv_def)
  have "uhash_count h = int (card ((\<lambda>k. {k'. cmp k k'}) ` dom m))"
    using count_classes [OF r(1)] r by (simp add: uhash_count_def)
  then show ?thesis using get_value [OF r(1), of k] find_value [OF r(1), of k] r
    by (auto simp: uhash_get_def uh_core_def uhash_count_def)
qed

theorem uhash_refines_map_witness:
  "uhash_get (long_pair 5 7) 5 = Some 7 \<and> uhash_count (long_pair 5 7) = 1 \<and> uhash_count (long_pair 5 7) < int (length (ht_elements (long_pair 5 7)))"
  using uhash_refines_map [OF ample_heap_ok long_contract long_pair_run, of 5] by simp

text \<open>
  C32. Termination. In every table reached by such a sequence (no allocation fails, sizes up to 1073741789, fewer than
  500000000 pairs) the search ends at an element of the array, never at \<^verbatim>\<open>NULL\<close> and without an overflow of its indices, and so
  every operation returns; a put reports an error only when the table is full up to one element. Without memory this
  fails, see \<open>failed_shrinks_lose_the_table\<close>.
\<close>

theorem uhash_operations_return:
  assumes "heap_ok hp" "hash_contract hs cmp" "uh_run hp hs cmp h m" "uhash_count h < 500000000"
  shows "(\<exists>i. uhash_find_slot h k (hs k) = Some (At i) \<and> 0 \<le> i \<and> i < ht_length h) \<and>
    (\<exists>r h' st. uhash_put_tok hp hint k v h U_ZERO_ERROR = Some (r, h', st) \<and> (st = U_ZERO_ERROR \<or> ht_count h + 1 = ht_length h')) \<and>
    (\<exists>r h'. uhash_remove hp k h = Some (r, h')) \<and> (\<exists>h'. uhash_setResizePolicy hp policy h = Some h')"
proof -
  have inv: "uh_inv h" "ht_keyHasher h = hs" using run_inv [OF assms(3,1,2)] by auto
  then have core: "uh_core h" by (simp add: uh_inv_def)
  have "\<exists>i. uhash_find_slot h k (hs k) = Some (At i) \<and> 0 \<le> i \<and> i < ht_length h"
    using find_slot_core [OF core] inv(2) by blast
  moreover have "\<exists>r h' st. uhash_put_tok hp hint k v h U_ZERO_ERROR = Some (r, h', st) \<and> (st = U_ZERO_ERROR \<or> ht_count h + 1 = ht_length h')"
  proof (cases "hint \<and> v = 0")
    case True
    then show ?thesis using put_null [of U_ZERO_ERROR hp k h] remove_ok [OF inv(1), of hp k] by auto
  next
    case False
    have "ht_count h < count_limit" using assms(4) by (simp add: uhash_count_def count_limit_def)
    then show ?thesis using False put_ok [OF inv(1), of U_ZERO_ERROR hint v hp k] assms(1) by (auto split: if_splits)
  qed
  moreover have "\<exists>r h'. uhash_remove hp k h = Some (r, h')" using remove_ok [OF inv(1), of hp k] by (auto simp: uhash_remove_def)
  moreover have "\<exists>h'. uhash_setResizePolicy hp policy h = Some h'" using setResizePolicy_ok [OF inv(1), of hp policy] by auto
  ultimately show ?thesis by blast
qed

theorem uhash_operations_return_witness:
  "\<exists>i. uhash_find_slot (long_pair 5 7) 6 (uhash_hashLong 6) = Some (At i) \<and> 0 \<le> i \<and> i < ht_length (long_pair 5 7)"
  using uhash_operations_return [OF ample_heap_ok long_contract long_pair_run, of 6] long_pair_count by (simp add: count_limit_def)

text \<open>
  C33. Storing a pair in a table that satisfies its invariant and has fewer than 500000000 pairs, whatever the allocator does. Either the pair replaces
  the value of an equal key or is added: the old value is returned, or handed to the value
  deleter if there is one (never the value just stored). Or an error is reported: then the table is
  as before, except that the array may have the old size though the prime index has moved, and
  the error is due to missing memory or to a full table.
\<close>

theorem uhash_put_effect:
  assumes "uh_inv h" "v \<noteq> 0" "uhash_count h < 500000000"
  shows "\<exists>r h' st. uhash_put hp k v h U_ZERO_ERROR = Some (r, h', st) \<and>
    (if U_FAILURE st then
       r = 0 \<and> (\<forall>k'. uhash_get h' k' = uhash_get h k') \<and> uhash_count h' = uhash_count h \<and>
       ((\<exists>n. \<not> grants hp n) \<or> uhash_count h + 1 = ht_length h')
     else
       uh_inv h' \<and> (\<forall>k'. uhash_get h' k' = (if ht_keyComparator h k' k then Some v else uhash_get h k')) \<and>
       (if ht_valueDeleter h
        then r = 0 \<and> (\<exists>old. uhash_get h k = Some old \<and>
               ht_deletedValues h' = ht_deletedValues h @ (if old \<noteq> 0 \<and> old \<noteq> v then [old] else []))
        else Some r = uhash_get h k \<and> ht_deletedValues h' = ht_deletedValues h))"
proof -
  have core: "uh_core h" using assms(1) by (simp add: uh_inv_def)
  obtain r h' st where put: "uhash_put hp k v h U_ZERO_ERROR = Some (r, h', st)" "uh_core h'" "same_functions h h'"
    and res: "if U_FAILURE st then (\<not> heap_ok hp \<or> uh_inv h' \<and> ht_count h + 1 = ht_length h') \<and> r = 0 \<and> tmap h' = tmap h \<and> ht_count h' = ht_count h
      else uh_inv h' \<and> tmap h' = (\<lambda>k'. if ht_keyComparator h k' k then Some v else tmap h k') \<and>
        r = (if ht_valueDeleter h then 0 else value_of h k) \<and>
        ht_deletedValues h' = ht_deletedValues h @ dropped (ht_valueDeleter h) (value_of h k) v"
    using put_ok [OF assms(1) _, of U_ZERO_ERROR True v hp k] assms(2,3) unfolding uhash_count_def count_limit_def by (auto simp: uhash_put_def split: if_splits)
  note g = get_eq [OF core] get_eq [OF put(2)]
  have fn: "ht_keyComparator h' = ht_keyComparator h" using put(3) by (simp add: same_functions_def)
  show ?thesis
  proof (cases "U_FAILURE st")
    case True
    then show ?thesis using put(1) res fn by (auto simp: g uhash_count_def heap_ok_def)
  next
    case False
    then have res': "uh_inv h'" "tmap h' = (\<lambda>k'. if ht_keyComparator h k' k then Some v else tmap h k')"
      "r = (if ht_valueDeleter h then 0 else value_of h k)"
      "ht_deletedValues h' = ht_deletedValues h @ dropped (ht_valueDeleter h) (value_of h k) v" using res by auto
    have "uhash_get h' k' = (if ht_keyComparator h k' k then Some v else uhash_get h k')" for k'
      unfolding g res'(2) by simp
    moreover have "uhash_get h k = Some (value_of h k)" by (rule g)
    ultimately show ?thesis using put(1) False res' by (auto simp: dropped_def)
  qed
qed


theorem uhash_put_effect_witness:
  "\<exists>r h' st. uhash_put ample_heap 5 8 (long_pair 5 7) U_ZERO_ERROR = Some (r, h', st) \<and>
    (if U_FAILURE st then
       r = 0 \<and> (\<forall>k'. uhash_get h' k' = uhash_get (long_pair 5 7) k') \<and> uhash_count h' = uhash_count (long_pair 5 7) \<and>
       ((\<exists>n. \<not> grants ample_heap n) \<or> uhash_count (long_pair 5 7) + 1 = ht_length h')
     else
       uh_inv h' \<and> (\<forall>k'. uhash_get h' k' = (if ht_keyComparator (long_pair 5 7) k' 5 then Some 8 else uhash_get (long_pair 5 7) k')) \<and>
       (if ht_valueDeleter (long_pair 5 7)
        then r = 0 \<and> (\<exists>old. uhash_get (long_pair 5 7) 5 = Some old \<and>
               ht_deletedValues h' = ht_deletedValues (long_pair 5 7) @ (if old \<noteq> 0 \<and> old \<noteq> 8 then [old] else []))
        else Some r = uhash_get (long_pair 5 7) 5 \<and> ht_deletedValues h' = ht_deletedValues (long_pair 5 7)))"
  by (rule uhash_put_effect [OF long_pair_inv _ long_pair_count]) simp

text \<open>
  Enumeration. The loop \<^verbatim>\<open>pos = UHASH_FIRST; while ((e = uhash_nextElement(hash, &pos)) != NULL)\<close> ends, visits as
  many elements as the table counts, no two with equal keys, and their pairs are the map.
\<close>

theorem uhash_enumerates:
  assumes "uh_inv h"
  shows "\<exists>es. drain (next_step h) (\<lambda>pos. ht_elements h ! nat pos) (Suc (length (ht_elements h))) UHASH_FIRST = (es, True) \<and>
    int (length es) = uhash_count h \<and>
    (\<forall>i j. i < j \<and> j < length es \<longrightarrow> \<not> ht_keyComparator h (he_key (es ! i)) (he_key (es ! j))) \<and>
    (\<forall>e \<in> set es. uhash_get h (he_key e) = Some (he_value e)) \<and>
    (\<forall>k. uhash_get h k \<noteq> Some 0 \<longrightarrow> (\<exists>e \<in> set es. ht_keyComparator h k (he_key e)))"
proof -
  let ?els = "ht_elements h" and ?cmp = "ht_keyComparator h"
  let ?es = "filter (\<lambda>e. \<not> vacant e) ?els"
  have core: "uh_core h" using assms by (simp add: uh_inv_def)
  then have len: "ht_length h = int (length ?els)" and t: "table_ok (ht_keyHasher h) ?cmp ?els" and eq: "equivp ?cmp"
    by (auto simp: uh_core_def hash_contract_def)
  have rem: "remaining h UHASH_FIRST = ?es" by (simp add: remaining_def UHASH_FIRST_def)
  have "length ?es < Suc (length ?els)" by (simp add: le_imp_less_Suc)
  then have "drain (next_step h) (\<lambda>pos. ?els ! nat pos) (Suc (length ?els)) UHASH_FIRST = (?es, True)"
    using slots.drain_todo [of h UHASH_FIRST "Suc (length ?els)"] len rem by (simp add: UHASH_FIRST_def)
  moreover have "int (length ?es) = uhash_count h" using core by (simp add: uh_core_def pairs_def uhash_count_def)
  moreover have "sorted_wrt (no_clash ?cmp) ?es" using table_no_clash [OF t] by (rule sorted_wrt_filter)
  then have "\<not> ?cmp (he_key (?es ! i)) (he_key (?es ! j))" if "i < j" "j < length ?es" for i j
  proof -
    assume "sorted_wrt (no_clash ?cmp) ?es"
    then have "no_clash ?cmp (?es ! i) (?es ! j)" using that by (rule sorted_wrt_nth_less)
    moreover have "?es ! i \<in> set ?es" "?es ! j \<in> set ?es" using nth_mem [of i ?es] nth_mem [of j ?es] that by linarith+
    then have "\<not> vacant (?es ! i)" "\<not> vacant (?es ! j)" by auto
    ultimately show ?thesis by (simp add: no_clash_def)
  qed
  moreover have "uhash_get h (he_key e) = Some (he_value e)" if e: "e \<in> set ?es" for e
  proof -
    obtain i where i: "i < length ?els" "?els ! i = e" "\<not> vacant e" using e by (auto simp: in_set_conv_nth)
    then have "held ?cmp ?els (he_key e) i" using equivp_reflp [OF eq] by (simp add: held_def)
    then show ?thesis using els_map_held [OF t eq] i by (simp add: get_eq [OF core])
  qed
  moreover have "\<exists>e \<in> set ?es. ?cmp k (he_key e)" if "uhash_get h k \<noteq> Some 0" for k
  proof -
    have "tmap h k \<noteq> None" using that by (cases "tmap h k") (auto simp: get_eq [OF core])
    then obtain i where "held ?cmp ?els k i" using els_map_None by metis
    then show ?thesis by (intro bexI [of _ "?els ! i"]) (auto simp: held_def)
  qed
  ultimately show ?thesis by blast
qed

theorem uhash_enumerates_witness:
  "\<exists>es. drain (next_step (long_pair 5 7)) (\<lambda>pos. ht_elements (long_pair 5 7) ! nat pos) (Suc (length (ht_elements (long_pair 5 7)))) UHASH_FIRST =
      (es, True) \<and> int (length es) = uhash_count (long_pair 5 7)"
  using uhash_enumerates [OF long_pair_inv] by blast

text \<open>
  Comparison. \<^verbatim>\<open>uhash_equals\<close> of two tables with the same functions decides whether they have as many
  pairs and every key of the first has an equal value in the second, provided that no value of the
  first is equal to 0: a key missing in the second table is compared as if its value was 0.
\<close>

theorem uhash_equals_decides:
  assumes "uh_inv h1" "uh_inv h2" "ht_valueComparator h1 = Some c" "ht_keyComparator h2 = ht_keyComparator h1"
    and "\<forall>k v. tmap h1 k = Some v \<longrightarrow> \<not> c v 0"
  shows "uhash_equals True h1 h2 =
    Some (uhash_count h1 = uhash_count h2 \<and> (\<forall>k v. tmap h1 k = Some v \<longrightarrow> (\<exists>w. tmap h2 k = Some w \<and> c v w)))"
proof -
  have core: "uh_core h1" "uh_core h2" using assms(1,2) by (auto simp: uh_inv_def)
  let ?els = "ht_elements h1" and ?cmp = "ht_keyComparator h1"
  have t: "table_ok (ht_keyHasher h1) ?cmp ?els" "equivp ?cmp" and len: "ht_length h1 = int (length ?els)"
    using core(1) by (auto simp: uh_core_def hash_contract_def)
  have rem: "remaining h1 UHASH_FIRST = filter (\<lambda>e. \<not> vacant e) ?els" by (simp add: remaining_def UHASH_FIRST_def)
  have n: "nat (uhash_count h1) = length (remaining h1 UHASH_FIRST)" unfolding rem using core(1) by (simp add: uhash_count_def uh_core_def pairs_def)
  have loop: "equals_loop (nat (uhash_count h1)) c h1 h2 UHASH_FIRST =
      Some (list_all (\<lambda>e. c (he_value e) (value_of h2 (he_key e))) (filter (\<lambda>e. \<not> vacant e) ?els))"
    by (rule equals_loop_ok [OF core(2) len _ n, of c, unfolded rem]) (simp add: UHASH_FIRST_def)
  have "list_all (\<lambda>e. c (he_value e) (value_of h2 (he_key e))) (filter (\<lambda>e. \<not> vacant e) ?els) \<longleftrightarrow>
      (\<forall>k v. tmap h1 k = Some v \<longrightarrow> (\<exists>w. tmap h2 k = Some w \<and> c v w))" (is "?L \<longleftrightarrow> ?R")
  proof
    assume L: ?L
    show ?R
    proof (intro allI impI)
      fix k v assume v: "tmap h1 k = Some v"
      then obtain i where i: "held ?cmp ?els k i" using els_map_None by (metis option.distinct(1))
      then have e: "i < length ?els" "\<not> vacant (?els ! i)" "?cmp k (he_key (?els ! i))" "v = he_value (?els ! i)"
        using els_map_held [OF t i] v by (auto simp: held_def)
      have "?els ! i \<in> set (filter (\<lambda>e. \<not> vacant e) ?els)" using e(1,2) by simp
      then have "c v (value_of h2 (he_key (?els ! i)))" using L e(4) by (simp add: list_all_iff)
      moreover have "tmap h2 k = tmap h2 (he_key (?els ! i))" using tmap_same [OF core(2)] e(3) assms(4) by simp
      ultimately show "\<exists>w. tmap h2 k = Some w \<and> c v w" using assms(5) v by (auto split: option.splits)
    qed
  next
    assume R: ?R
    have "c (he_value e) (value_of h2 (he_key e))" if e: "e \<in> set (filter (\<lambda>e. \<not> vacant e) ?els)" for e
    proof -
      obtain i where i: "i < length ?els" "?els ! i = e" "\<not> vacant e" using e by (auto simp: in_set_conv_nth)
      then have "held ?cmp ?els (he_key e) i" using equivp_reflp [OF t(2)] by (simp add: held_def)
      then have "tmap h1 (he_key e) = Some (he_value e)" using els_map_held [OF t] i by simp
      then show ?thesis using R by force
    qed
    then show ?L by (simp add: list_all_iff)
  qed
  then show ?thesis using loop assms(3) by (auto simp: uhash_equals_def)
qed

theorem uhash_equals_decides_witness:
  "uhash_equals True (long_pair 5 7) (long_pair 5 7) =
    Some (uhash_count (long_pair 5 7) = uhash_count (long_pair 5 7) \<and>
      (\<forall>k v. tmap (long_pair 5 7) k = Some v \<longrightarrow> (\<exists>w. tmap (long_pair 5 7) k = Some w \<and> uhash_compareLong v w)))"
proof (rule uhash_equals_decides [OF long_pair_inv long_pair_inv])
  show "ht_valueComparator (long_pair 5 7) = Some uhash_compareLong"
    by (rule long_pair_valueComparator)
  have "tmap (long_pair 5 7) = [5 \<mapsto> 7]" using run_inv [OF long_pair_run ample_heap_ok long_contract] by blast
  then show "\<forall>k v. tmap (long_pair 5 7) k = Some v \<longrightarrow> \<not> uhash_compareLong v 0" by (metis fun_upd_apply option.distinct(1) option.inject uhash_compareLong_def zero_neq_numeral)
qed simp

text \<open>Without the condition the answer is wrong: tables that map different keys to 0 are equal.\<close>

lemma uhash_equals_zero_values:
  "uhash_equals True (long_pair 5 0) (long_pair 6 0) = Some True \<and>
   uhash_find (long_pair 5 0) 6 = Some None \<and> uhash_find (long_pair 6 0) 5 = Some None"
  by code_simp

text \<open>
  Bounds. Every length of the table \<^verbatim>\<open>PRIMES\<close> is relatively prime to every jump, so that the indices the search
  computes for a hash code lie inside the array and reach every element of it exactly once; and
  the sum of an index and a jump fits into 32 bits; for every length but the largest.
\<close>

theorem PRIMES_probes:
  assumes "0 \<le> p" "p < PRIMES_LENGTH - 1" "0 \<le> hc"
  shows "bij_betw (\<lambda>k. nat (probe (PRIMES ! nat p) hc k)) {0..<nat (PRIMES ! nat p)} {0..<nat (PRIMES ! nat p)} \<and>
    probe (PRIMES ! nat p) hc 0 = start_index (PRIMES ! nat p) hc \<and>
    probe (PRIMES ! nat p) hc (Suc k) = (probe (PRIMES ! nat p) hc k + jump_of (PRIMES ! nat p) hc) mod (PRIMES ! nat p) \<and>
    probe (PRIMES ! nat p) hc k + jump_of (PRIMES ! nat p) hc \<le> INT32_MAX"
proof -
  let ?n = "PRIMES ! nat p"
  have g: "good_len ?n" using PRIMES_good [OF assms(1,2)] .
  then have n: "2 < ?n" by (simp add: good_len_def)
  have r: "0 \<le> probe ?n hc k \<and> probe ?n hc k < ?n" for k using probe_range [of ?n hc] n by simp
  have "bij_betw (\<lambda>k. nat (probe ?n hc k)) {0..<nat ?n} {0..<nat ?n}"
  proof (rule bij_betwI')
    fix x y assume "x \<in> {0..<nat ?n}" "y \<in> {0..<nat ?n}"
    then have "int x < ?n" "int y < ?n" by auto
    then show "(nat (probe ?n hc x) = nat (probe ?n hc y)) = (x = y)"
      using probe_inj [OF g, of x y hc] r [of x] r [of y] by (auto simp: nat_eq_iff)
  next
    fix x show "nat (probe ?n hc x) \<in> {0..<nat ?n}" using r [of x] by auto
  next
    fix y assume "y \<in> {0..<nat ?n}"
    then have "0 \<le> int y" "int y < ?n" by auto
    then obtain k where "int k < ?n" "probe ?n hc k = int y" by (rule probe_surj [OF g])
    then show "\<exists>x \<in> {0..<nat ?n}. y = nat (probe ?n hc x)" by (intro bexI [of _ k]) auto
  qed
  moreover have "probe ?n hc k + jump_of ?n hc \<le> INT32_MAX"
    using g r [of k] jump_range [OF n, of hc] unfolding good_len_def INT32_MAX_def by linarith
  ultimately show ?thesis by (simp add: probe_0 probe_Suc)
qed

theorem PRIMES_probes_witness:
  "bij_betw (\<lambda>k. nat (probe (PRIMES ! nat 0) 5 k)) {0..<nat (PRIMES ! nat 0)} {0..<nat (PRIMES ! nat 0)}"
  using PRIMES_probes [of 0 5] by (simp add: PRIMES_LENGTH_def)

text \<open>Memory runs out while an empty table of length 61 is told to shrink, twice.\<close>

definition denying_heap :: "UHashElement heap" where
  "denying_heap = \<lparr>grants = \<lambda>n. False, junk = empty_element\<rparr>"

definition starved_table :: "UHashtable option" where
  "starved_table =
     Option.bind (fst (uhash_openSize True ample_heap raw_table uhash_hashLong uhash_compareLong None 60 U_ZERO_ERROR))
       (\<lambda>h. Option.bind (uhash_setResizePolicy denying_heap U_GROW_AND_SHRINK h)
         (uhash_setResizePolicy denying_heap U_GROW_AND_SHRINK))"

fun put_keys :: "int list \<Rightarrow> UHashtable option \<Rightarrow> UHashtable option" where
  "put_keys [] h = h"
| "put_keys (k # ks) h =
     put_keys ks (case h of None \<Rightarrow> None
       | Some t \<Rightarrow> (case uhash_puti ample_heap k k t U_ZERO_ERROR of None \<Rightarrow> None | Some (r, t', st) \<Rightarrow> Some t'))"

text \<open>
  A shrink that cannot allocate keeps the array but lowers \<^verbatim>\<open>primeIndex\<close> (\<^verbatim>\<open>uhash_setResizePolicy\<close> drops the error). Two of
  them on an empty table of length 61, then 32 puts with memory available: the last one rehashes the table of 31 pairs into
  31 elements, and its search finds no slot and returns \<^verbatim>\<open>NULL\<close>, which \<^verbatim>\<open>_uhash_put\<close> dereferences.
\<close>

lemma failed_shrinks_lose_the_table:
  "case put_keys [1..31] starved_table of
     None \<Rightarrow> False
   | Some t \<Rightarrow>
       (case uhash_rehash ample_heap t U_ZERO_ERROR of
          None \<Rightarrow> False
        | Some (h, st) \<Rightarrow> st = U_ZERO_ERROR \<and> ht_length h = 31 \<and> uhash_find_slot h 32 (uhash_hashLong 32) = Some NULL_slot) \<and>
       uhash_puti ample_heap 32 32 t U_ZERO_ERROR = None"
  by code_simp

end
