(* ===== verification/UHashKeys.thy ===== *)
theory UHashKeys
  imports UHashClaims
begin

text \<open>
  The hash functions and comparators for string keys (\<^verbatim>\<open>uhash.c\<close>, \<^verbatim>\<open>ustring.cpp\<close>) and the proof
  that each pair of them meets the contract the hash table relies on.

  A token is a pointer, 0 is \<^verbatim>\<open>NULL\<close>. The memory \<open>mem\<close> gives for a pointer the code units of the
  string before its terminating zero, as unsigned values.
\<close>

type_synonym strings = "tok \<Rightarrow> int list"

definition cstrings :: "strings \<Rightarrow> bool" where
  "cstrings mem \<longleftrightarrow> (\<forall>k. 0 \<notin> set (mem k))"

section \<open>Hash codes\<close>

text \<open>
  The macro \<^verbatim>\<open>STRING_HASH\<close>: at most about 32 units are sampled. The step \<open>inc\<close> is positive whenever the
  string is not empty, so the loop ends.
\<close>

function string_hash_loop :: "(int \<Rightarrow> int) \<Rightarrow> int list \<Rightarrow> int \<Rightarrow> int \<Rightarrow> int \<Rightarrow> int" where
  "string_hash_loop deref str inc p hash =
     (if p < int (length str) \<and> 0 < inc
      then string_hash_loop deref str inc (p + inc) ((hash * 37 + deref (str ! nat p)) mod 0x100000000)
      else hash)"
  by auto
termination by (relation "measure (\<lambda>(deref, str, inc, p, hash). nat (int (length str) - p))") auto

declare string_hash_loop.simps [simp del]

text \<open>C division rounds towards zero; \<^verbatim>\<open>static_cast<int32_t>\<close> reads the 32 bits as a signed number.\<close>

definition c_div :: "int \<Rightarrow> int \<Rightarrow> int" where
  "c_div a b = (if a < 0 then - ((- a) div b) else a div b)"

definition to_int32 :: "int \<Rightarrow> int" where
  "to_int32 x = (if x < 0x80000000 then x else x - 0x100000000)"

definition string_hash :: "(int \<Rightarrow> int) \<Rightarrow> int list \<Rightarrow> int" where
  "string_hash deref str =
     (let len = int (length str); inc = c_div (len - 32) 32 + 1
      in to_int32 (string_hash_loop deref str inc 0 0))"

lemma inc_positive: "str \<noteq> [] \<Longrightarrow> 0 < c_div (int (length str) - 32) 32 + 1"
proof -
  assume "str \<noteq> []"
  then have "0 < int (length str)" by simp
  then show ?thesis by (auto simp: c_div_def)
qed

definition ustr_hashUCharsN :: "int list \<Rightarrow> int" where
  "ustr_hashUCharsN str = string_hash (\<lambda>c. c) str"

definition ustr_hashCharsN :: "int list \<Rightarrow> int" where
  "ustr_hashCharsN str = string_hash (\<lambda>c. c) str"

definition uprv_asciitolower :: "int \<Rightarrow> int" where
  "uprv_asciitolower c = (if 0x41 \<le> c \<and> c \<le> 0x5a then c + 0x20 else c)"

definition ustr_hashICharsN :: "int list \<Rightarrow> int" where
  "ustr_hashICharsN str = string_hash uprv_asciitolower str"

definition uhash_hashUChars :: "strings \<Rightarrow> tok \<Rightarrow> int" where
  "uhash_hashUChars mem key = (if key = 0 then 0 else ustr_hashUCharsN (mem key))"

definition uhash_hashChars :: "strings \<Rightarrow> tok \<Rightarrow> int" where
  "uhash_hashChars mem key = (if key = 0 then 0 else ustr_hashCharsN (mem key))"

definition uhash_hashIChars :: "strings \<Rightarrow> tok \<Rightarrow> int" where
  "uhash_hashIChars mem key = (if key = 0 then 0 else ustr_hashICharsN (mem key))"

section \<open>Comparators\<close>

text \<open>The loop over two zero-terminated strings; \<open>f\<close> is applied to the units before they are compared.\<close>

fun compare_loop :: "(int \<Rightarrow> int) \<Rightarrow> int list \<Rightarrow> int list \<Rightarrow> bool" where
  "compare_loop f (a # as) (b # bs) = (if a \<noteq> 0 \<and> f a = f b then compare_loop f as bs else a = b)"
| "compare_loop f _ _ = False"

definition uhash_compareUChars :: "strings \<Rightarrow> tok \<Rightarrow> tok \<Rightarrow> bool" where
  "uhash_compareUChars mem key1 key2 =
     (if key1 = key2 then True else if key1 = 0 \<or> key2 = 0 then False
      else compare_loop (\<lambda>c. c) (mem key1 @ [0]) (mem key2 @ [0]))"

definition uhash_compareChars :: "strings \<Rightarrow> tok \<Rightarrow> tok \<Rightarrow> bool" where
  "uhash_compareChars mem key1 key2 =
     (if key1 = key2 then True else if key1 = 0 \<or> key2 = 0 then False
      else compare_loop (\<lambda>c. c) (mem key1 @ [0]) (mem key2 @ [0]))"

definition uhash_compareIChars :: "strings \<Rightarrow> tok \<Rightarrow> tok \<Rightarrow> bool" where
  "uhash_compareIChars mem key1 key2 =
     (if key1 = key2 then True else if key1 = 0 \<or> key2 = 0 then False
      else compare_loop uprv_asciitolower (mem key1 @ [0]) (mem key2 @ [0]))"

section \<open>The contract\<close>

text \<open>A letter function that keeps the terminating zero apart.\<close>

locale unit_folding =
  fixes f :: "int \<Rightarrow> int"
  assumes zero: "f a = f 0 \<longleftrightarrow> a = 0"
begin

lemma compare_loop_map:
  "0 \<notin> set as \<Longrightarrow> 0 \<notin> set bs \<Longrightarrow> compare_loop f (as @ [0]) (bs @ [0]) \<longleftrightarrow> map f as = map f bs"
proof (induction as arbitrary: bs)
  case Nil
  then show ?case using zero by (cases bs) auto
next
  case (Cons a as)
  show ?case
  proof (cases bs)
    case Nil
    have "f a \<noteq> f 0" using Cons.prems(1) zero [of a] by auto
    then show ?thesis using Cons.prems(1) Nil by auto
  next
    case (Cons b bs')
    have "a = b \<Longrightarrow> f a = f b" by simp
    then show ?thesis using Cons.IH [of bs'] Cons.prems Cons by auto
  qed
qed

lemma hash_loop_map:
  "map f as = map f bs \<Longrightarrow> 0 \<le> p \<Longrightarrow> string_hash_loop f as inc p h = string_hash_loop f bs inc p h"
proof (induction f as inc p h rule: string_hash_loop.induct)
  case (1 deref str inc p hash)
  have len: "length str = length bs" using "1.prems"(1) by (rule map_eq_imp_length_eq)
  show ?case
  proof (cases "p < int (length str) \<and> 0 < inc")
    case True
    then have "nat p < length str" using "1.prems"(2) by linarith
    then have "deref (str ! nat p) = deref (bs ! nat p)" using "1.prems"(1) len by (metis nth_map)
    then show ?thesis using "1.IH" [OF True "1.prems"(1)] True "1.prems"(2) len
      by (subst (1 2) string_hash_loop.simps) simp
  next
    case False
    then show ?thesis using len by (subst (1 2) string_hash_loop.simps) auto
  qed
qed

lemma contract:
  assumes "\<And>k. 0 \<notin> set (mem k)"
    and h: "\<And>k. h k = (if k = 0 then 0 else string_hash f (mem k))"
    and c: "\<And>k l. c k l = (if k = l then True else if k = 0 \<or> l = 0 then False else compare_loop f (mem k @ [0]) (mem l @ [0]))"
  shows "hash_contract h c"
proof -
  let ?key = "\<lambda>k. if k = 0 then None else Some (map f (mem k))"
  have eq: "c k l \<longleftrightarrow> ?key k = ?key l" for k l
    using compare_loop_map [OF assms(1,1), of k l] by (auto simp: c)
  then have "equivp c" by (intro equivpI reflpI sympI transpI) auto
  moreover have "h k = h l" if "c k l" for k l
    using that [unfolded eq] hash_loop_map [of "mem k" "mem l" 0] map_eq_imp_length_eq [of f "mem k" f "mem l"]
    by (auto simp: h string_hash_def Let_def split: if_splits)
  ultimately show ?thesis by (simp add: hash_contract_def)
qed

end

interpretation exact: unit_folding "\<lambda>c. c"
  by unfold_locales simp

interpretation folded: unit_folding uprv_asciitolower
  by unfold_locales (auto simp: uprv_asciitolower_def)

text \<open>
  C38. The three pairs of functions for string keys meet the contract of the hash table: each comparator
  is an equivalence, equality of the strings, or equality up to the case of the letters A to Z, and strings
  that are equal in that sense have the same hash code.
\<close>

theorem string_keys_meet_contract:
  assumes "cstrings mem"
  shows "hash_contract (uhash_hashUChars mem) (uhash_compareUChars mem) \<and>
    hash_contract (uhash_hashChars mem) (uhash_compareChars mem) \<and>
    hash_contract (uhash_hashIChars mem) (uhash_compareIChars mem) \<and>
    (k \<noteq> 0 \<and> l \<noteq> 0 \<longrightarrow>
       uhash_compareChars mem k l = (mem k = mem l) \<and>
       uhash_compareIChars mem k l = (map uprv_asciitolower (mem k) = map uprv_asciitolower (mem l)))"
proof -
  have nz: "0 \<notin> set (mem k)" for k using assms by (simp add: cstrings_def)
  have "hash_contract (uhash_hashUChars mem) (uhash_compareUChars mem)"
    by (rule exact.contract [OF nz]) (simp_all add: uhash_hashUChars_def ustr_hashUCharsN_def uhash_compareUChars_def)
  moreover have "hash_contract (uhash_hashChars mem) (uhash_compareChars mem)"
    by (rule exact.contract [OF nz]) (simp_all add: uhash_hashChars_def ustr_hashCharsN_def uhash_compareChars_def)
  moreover have "hash_contract (uhash_hashIChars mem) (uhash_compareIChars mem)"
    by (rule folded.contract [OF nz]) (simp_all add: uhash_hashIChars_def ustr_hashICharsN_def uhash_compareIChars_def)
  moreover have "uhash_compareChars mem k l = (mem k = mem l)" if "k \<noteq> 0" "l \<noteq> 0"
    using that exact.compare_loop_map [OF nz nz] by (auto simp: uhash_compareChars_def)
  moreover have "uhash_compareIChars mem k l = (map uprv_asciitolower (mem k) = map uprv_asciitolower (mem l))" if "k \<noteq> 0" "l \<noteq> 0"
    using that folded.compare_loop_map [OF nz nz] by (auto simp: uhash_compareIChars_def)
  ultimately show ?thesis by simp
qed

definition two_names :: strings where
  "two_names k = (if k = 1 then [0x45, 0x6e] else if k = 2 then [0x65, 0x4e] else [])"

theorem string_keys_meet_contract_witness:
  "cstrings two_names \<and> hash_contract (uhash_hashIChars two_names) (uhash_compareIChars two_names) \<and>
   uhash_compareIChars two_names 1 2"
proof -
  have c: "cstrings two_names" by (simp add: cstrings_def two_names_def)
  have "map uprv_asciitolower (two_names 1) = map uprv_asciitolower (two_names 2)" by (simp add: two_names_def uprv_asciitolower_def)
  then show ?thesis using string_keys_meet_contract [OF c, of 1 2] c by simp
qed

end
