(* ===== verification/Punycode.thy ===== *)
theory Punycode
  imports Utf16
begin

text \<open>
  Punycode (\<^verbatim>\<open>common/punycode.cpp\<close>): the encoding of Unicode strings in ASCII letters, digits and
  hyphens that domain names use. This theory holds the two functions; the source and destination are lists of
  UTF-16 code units, the destination a block of \<open>destCapacity\<close> cells. Lengths and counters are
  unbounded here; that they stay below \<open>2\<^sup>3\<^sup>1\<close> is proved.
\<close>

section \<open>Parameters and digits\<close>

definition BASE :: int where "BASE = 36"
definition TMIN :: int where "TMIN = 1"
definition TMAX :: int where "TMAX = 26"
definition SKEW :: int where "SKEW = 38"
definition DAMP :: int where "DAMP = 700"
definition INITIAL_BIAS :: int where "INITIAL_BIAS = 72"
definition INITIAL_N :: int where "INITIAL_N = 0x80"
definition DELIMITER :: int where "DELIMITER = 0x2d"
definition MAX_CP_COUNT :: int where "MAX_CP_COUNT = 200"

lemmas puny_params = BASE_def TMIN_def TMAX_def SKEW_def DAMP_def INITIAL_BIAS_def INITIAL_N_def DELIMITER_def MAX_CP_COUNT_def

definition IS_BASIC :: "int \<Rightarrow> bool" where
  "IS_BASIC c \<longleftrightarrow> c < 0x80"

definition IS_BASIC_UPPERCASE :: "int \<Rightarrow> bool" where
  "IS_BASIC_UPPERCASE c \<longleftrightarrow> 0x41 \<le> c \<and> c \<le> 0x5a"

definition digitToBasic :: "int \<Rightarrow> bool \<Rightarrow> int" where
  "digitToBasic digit uppercase =
     (if digit < 26 then (if uppercase then 0x41 + digit else 0x61 + digit) else (0x30 - 26) + digit)"

text \<open>The table \<^verbatim>\<open>basicToDigit\<close>, with an entry for every byte.\<close>

definition basicToDigit :: "int \<Rightarrow> int" where
  "basicToDigit b =
     (if 0x30 \<le> b \<and> b \<le> 0x39 then b - 0x30 + 26
      else if 0x41 \<le> b \<and> b \<le> 0x5a then b - 0x41
      else if 0x61 \<le> b \<and> b \<le> 0x7a then b - 0x61
      else -1)"

definition asciiCaseMap :: "int \<Rightarrow> bool \<Rightarrow> int" where
  "asciiCaseMap b uppercase =
     (if uppercase then (if 0x61 \<le> b \<and> b \<le> 0x7a then b - (0x61 - 0x41) else b)
      else (if 0x41 \<le> b \<and> b \<le> 0x5a then b + (0x61 - 0x41) else b))"

section \<open>Bias adaptation\<close>

function adapt_loop :: "int \<Rightarrow> int \<Rightarrow> int \<times> int" where
  "adapt_loop delta cnt =
     (if delta > ((BASE - TMIN) * TMAX) div 2 then adapt_loop (delta div (BASE - TMIN)) (cnt + BASE) else (delta, cnt))"
  by auto
termination by (relation "measure (\<lambda>(delta, cnt). nat delta)") (auto simp: puny_params)

declare adapt_loop.simps [simp del]

definition adaptBias :: "int \<Rightarrow> int \<Rightarrow> bool \<Rightarrow> int" where
  "adaptBias delta0 length' firstTime =
     (let delta1 = (if firstTime then delta0 div DAMP else delta0 div 2);
          (delta, cnt) = adapt_loop (delta1 + delta1 div length') 0
      in cnt + ((BASE - TMIN + 1) * delta) div (delta + SKEW))"

text \<open>The threshold of the digit at weight position \<open>k\<close>.\<close>

definition threshold :: "int \<Rightarrow> int \<Rightarrow> int" where
  "threshold bias k = (if k - bias < TMIN then TMIN else if k \<ge> bias + TMAX then TMAX else k - bias)"

lemma threshold_range: "1 \<le> threshold bias k \<and> threshold bias k \<le> 26"
  by (auto simp: threshold_def puny_params)

section \<open>Encoding\<close>

text \<open>Writing a unit: it is stored if it fits, and counted in any case. The state is the block and the length.\<close>

type_synonym sink = "int list \<times> int"

definition emit :: "int \<Rightarrow> sink \<Rightarrow> sink" where
  "emit c out = (if snd out < int (length (fst out)) then (fst out)[nat (snd out) := c] else fst out, snd out + 1)"

text \<open>
  The first pass: basic code points are copied and stand as 0 in \<^verbatim>\<open>cpBuffer\<close>; the others are collected
  there with their case flag in the sign bit. \<open>nul\<close> tells whether the source ends at a zero unit. The
  result is an error with the block as far as it was written, or the buffer and the out_block.
\<close>

definition flag_at :: "bool list option \<Rightarrow> nat \<Rightarrow> bool" where
  "flag_at caseFlags j = (case caseFlags of None \<Rightarrow> False | Some f \<Rightarrow> f ! j)"

definition with_flag :: "bool \<Rightarrow> int \<Rightarrow> int" where
  "with_flag fl c = (if fl then c - 0x80000000 else c)"

definition basic_unit :: "bool list option \<Rightarrow> nat \<Rightarrow> int \<Rightarrow> int" where
  "basic_unit caseFlags j c = (case caseFlags of None \<Rightarrow> c | Some f \<Rightarrow> asciiCaseMap c (f ! j))"

fun read_loop :: "bool \<Rightarrow> bool list option \<Rightarrow> nat \<Rightarrow> int list \<Rightarrow> int list \<Rightarrow> sink \<Rightarrow> (UErrorCode \<times> int list + int list \<times> sink) option" where
  "read_loop nul caseFlags j [] cpBuffer out = (if nul then None else Some (Inr (cpBuffer, out)))"
| "read_loop nul caseFlags j (c # rest) cpBuffer out =
     (if nul \<and> c = 0 then Some (Inr (cpBuffer, out))
      else if int (length cpBuffer) = MAX_CP_COUNT then Some (Inl (U_INDEX_OUTOFBOUNDS_ERROR, fst out))
      else if IS_BASIC c then read_loop nul caseFlags (Suc j) rest (cpBuffer @ [0]) (emit (basic_unit caseFlags j c) out)
      else if \<not> is_surrogate c then
        read_loop nul caseFlags (Suc j) rest (cpBuffer @ [with_flag (flag_at caseFlags j) c]) out
      else
        (case rest of
           [] \<Rightarrow> if nul \<and> is_lead c then None else Some (Inl (U_INVALID_CHAR_FOUND, fst out))
         | c2 # rest' \<Rightarrow>
             if is_lead c \<and> is_trail c2 then
               read_loop nul caseFlags (Suc (Suc j)) rest'
                 (cpBuffer @ [with_flag (flag_at caseFlags j) (get_supplementary c c2)]) out
             else Some (Inl (U_INVALID_CHAR_FOUND, fst out))))"

text \<open>\<^verbatim>\<open>q = cpBuffer[j] & 0x7fffffff\<close>.\<close>

definition code_of :: "int \<Rightarrow> int" where
  "code_of x = x mod 0x80000000"

text \<open>A number as digits of variable weight, the last one returned.\<close>

function vli_loop :: "int \<Rightarrow> int \<Rightarrow> int \<Rightarrow> sink \<Rightarrow> int \<times> sink" where
  "vli_loop bias k q out =
     (let t = threshold bias k in
      if q < t then (q, out)
      else vli_loop bias (k + BASE) ((q - t) div (BASE - t)) (emit (digitToBasic (t + (q - t) mod (BASE - t)) False) out))"
  by auto
termination
proof (relation "measure (\<lambda>(bias, k, q, out). nat q)")
  fix bias k q and t :: int and out :: sink
  assume t: "t = threshold bias k" "\<not> q < t"
  have "1 \<le> t" "t \<le> 26" using threshold_range [of bias k] t(1) by auto
  moreover have "(q - t) div (BASE - t) \<le> q - t" using t \<open>t \<le> 26\<close> by (intro zdiv_mono2 [of "q - t" 1, simplified]) (auto simp: puny_params)
  ultimately show "((bias, k + BASE, (q - t) div (BASE - t), emit (digitToBasic (t + (q - t) mod (BASE - t)) False) out), bias, k, q, out)
      \<in> measure (\<lambda>(bias, k, q, out). nat q)" using t(2) by auto
qed simp

declare vli_loop.simps [simp del]

record enc =
  en_delta :: int
  en_bias :: int
  en_handled :: int
  en_out :: sink

text \<open>The inner loop over \<^verbatim>\<open>cpBuffer\<close> for the code point \<open>n\<close>.\<close>

definition encode_step :: "int \<Rightarrow> int \<Rightarrow> int \<Rightarrow> enc \<Rightarrow> enc" where
  "encode_step basicLength n x e =
     (let q = code_of x in
      if q < n then e\<lparr>en_delta := en_delta e + 1\<rparr>
      else if q = n then
        let (d, out) = vli_loop (en_bias e) BASE (en_delta e) (en_out e) in
        \<lparr>en_delta = 0,
         en_bias = adaptBias (en_delta e) (en_handled e + 1) (en_handled e = basicLength),
         en_handled = en_handled e + 1,
         en_out = emit (digitToBasic d (x < 0)) out\<rparr>
      else e)"

text \<open>The smallest code point that is not below \<open>n\<close>.\<close>

definition next_code :: "int list \<Rightarrow> int \<Rightarrow> int" where
  "next_code cpBuffer n = fold (\<lambda>x m. let q = code_of x in if n \<le> q \<and> q < m then q else m) cpBuffer 0x7fffffff"

partial_function (option) encode_loop :: "int list \<Rightarrow> int \<Rightarrow> int \<Rightarrow> enc \<Rightarrow> (UErrorCode \<times> int list + sink) option" where
  "encode_loop cpBuffer basicLength n e =
     (if en_handled e < int (length cpBuffer) then
        let m = next_code cpBuffer n in
        if m - n > (0x7fffffff - MAX_CP_COUNT - en_delta e) div (en_handled e + 1) then Some (Inl (U_INTERNAL_PROGRAM_ERROR, fst (en_out e)))
        else
          let e1 = fold (encode_step basicLength m) cpBuffer (e\<lparr>en_delta := en_delta e + (m - n) * (en_handled e + 1)\<rparr>)
          in encode_loop cpBuffer basicLength (m + 1) (e1\<lparr>en_delta := en_delta e1 + 1\<rparr>)
      else Some (Inr (en_out e)))"

definition u_terminateUChars :: "int list \<Rightarrow> int \<Rightarrow> UErrorCode \<Rightarrow> int list \<times> UErrorCode" where
  "u_terminateUChars dest length' ec =
     (if U_FAILURE ec \<or> length' < 0 then (dest, ec)
      else if length' < int (length dest)
      then (dest[nat length' := 0], if ec = U_STRING_NOT_TERMINATED_WARNING then U_ZERO_ERROR else ec)
      else if length' = int (length dest) then (dest, U_STRING_NOT_TERMINATED_WARNING)
      else (dest, U_BUFFER_OVERFLOW_ERROR))"

text \<open>
  \<open>src = None\<close> is \<^verbatim>\<open>NULL\<close>; a source with length \<open>-1\<close> is read up to its zero, one with another length is a list of that
  length. The result is the destination, the returned length and the error code.
\<close>

definition u_strToPunycode :: "int list option \<Rightarrow> int \<Rightarrow> bool \<Rightarrow> int list \<Rightarrow> int \<Rightarrow> bool list option \<Rightarrow> UErrorCode \<Rightarrow>
    (int list \<times> int \<times> UErrorCode) option" where
  "u_strToPunycode src srcLength dest_null dest destCapacity caseFlags ec =
     (if U_FAILURE ec then Some (dest, 0, ec)
      else case src of
        None \<Rightarrow> Some (dest, 0, U_ILLEGAL_ARGUMENT_ERROR)
      | Some units \<Rightarrow>
          if srcLength < -1 \<or> (dest_null \<and> destCapacity \<noteq> 0) then Some (dest, 0, U_ILLEGAL_ARGUMENT_ERROR)
          else
            Option.bind (read_loop (srcLength = -1) caseFlags 0 units [] (dest, 0))
              (\<lambda>r. case r of
                 Inl (err, d) \<Rightarrow> Some (d, 0, err)
               | Inr (cpBuffer, out) \<Rightarrow>
                   let basicLength = snd out;
                       out1 = (if basicLength > 0 then emit DELIMITER out else out) in
                   Option.bind
                     (encode_loop cpBuffer basicLength INITIAL_N
                        \<lparr>en_delta = 0, en_bias = INITIAL_BIAS, en_handled = basicLength, en_out = out1\<rparr>)
                     (\<lambda>r2. case r2 of
                        Inl (err, d) \<Rightarrow> Some (d, 0, err)
                      | Inr (d, len) \<Rightarrow> (case u_terminateUChars d len ec of (d', ec') \<Rightarrow> Some (d', len, ec')))))"

section \<open>Decoding\<close>

text \<open>The output: the block, the case flags beside it (if the caller asks for them), and the length.\<close>

record dec =
  dc_dest :: "int list"
  dc_flags :: "bool list option"
  dc_destLength :: int
  dc_cpCount :: int
  dc_firstSupplementaryIndex :: int
  dc_n :: int
  dc_i :: int
  dc_bias :: int

type_synonym out_block = "int list \<times> bool list option"

text \<open>The index of the last delimiter, or 0.\<close>

fun delimiter_loop :: "int list \<Rightarrow> nat \<Rightarrow> nat" where
  "delimiter_loop src 0 = 0"
| "delimiter_loop src (Suc j) = (if src ! j = DELIMITER then j else delimiter_loop src j)"

text \<open>The basic code points before it are copied, from the last to the first.\<close>

fun copy_loop :: "int list \<Rightarrow> nat \<Rightarrow> out_block \<Rightarrow> (UErrorCode \<times> out_block) + out_block" where
  "copy_loop src 0 out = Inr out"
| "copy_loop src (Suc j) out =
     (if \<not> IS_BASIC (src ! j) then Inl (U_INVALID_CHAR_FOUND, out)
      else copy_loop src j
        (if j < length (fst out)
         then ((fst out)[j := src ! j], map_option (\<lambda>f. f[j := IS_BASIC_UPPERCASE (src ! j)]) (snd out))
         else out))"

text \<open>
  A number of variable-weight digits, added to \<open>i\<close>. The result is the sum, the rest of the
  source and the last unit read.
\<close>

fun decode_vli :: "int \<Rightarrow> int list \<Rightarrow> int \<Rightarrow> int \<Rightarrow> int \<Rightarrow> UErrorCode + int \<times> int list \<times> int" where
  "decode_vli bias [] i w k = Inl U_ILLEGAL_CHAR_FOUND"
| "decode_vli bias (c # rest) i w k =
     (let digit = basicToDigit (c mod 256) in
      if digit < 0 then Inl U_INVALID_CHAR_FOUND
      else if digit > (0x7fffffff - i) div w then Inl U_ILLEGAL_CHAR_FOUND
      else
        let i' = i + digit * w; t = threshold bias k in
        if digit < t then Inr (i', rest, c)
        else if w > 0x7fffffff div (BASE - t) then Inl U_ILLEGAL_CHAR_FOUND
        else decode_vli bias rest i' (w * (BASE - t)) (k + BASE))"

text \<open>Inserting the code point \<open>n\<close> at code point index \<open>i\<close>; \<open>lastUnit\<close> is the last unit of its encoding.\<close>

definition insert_code_point :: "int \<Rightarrow> dec \<Rightarrow> dec" where
  "insert_code_point lastUnit d =
     (let n = dc_n d; i = dc_i d; cpLength = U16_LENGTH n;
          (codeUnitIndex, first) =
            (if i \<le> dc_firstSupplementaryIndex d
             then (i, if cpLength > 1 then i else dc_firstSupplementaryIndex d + 1)
             else (U16_FWD_N (dc_dest d) (dc_firstSupplementaryIndex d) (dc_destLength d) (i - dc_firstSupplementaryIndex d),
                   dc_firstSupplementaryIndex d));
          cu = nat codeUnitIndex;
          count' = nat (dc_destLength d - codeUnitIndex);
          moved = (if codeUnitIndex < dc_destLength d then memmove_up cu (nat cpLength) count' (dc_dest d) else dc_dest d);
          movedFlags = map_option (\<lambda>f. if codeUnitIndex < dc_destLength d then memmove_up cu (nat cpLength) count' f else f) (dc_flags d);
          stored = (if cpLength = 1 then moved[cu := n] else moved[cu := U16_LEAD n, Suc cu := U16_TRAIL n]);
          flags = map_option (\<lambda>f. let g = f[cu := IS_BASIC_UPPERCASE lastUnit] in if cpLength = 2 then g[Suc cu := False] else g) movedFlags
      in d\<lparr>dc_dest := stored, dc_flags := flags, dc_firstSupplementaryIndex := first\<rparr>)"

lemma decode_vli_shorter: "decode_vli bias src i w k = Inr (j, rest, c) \<Longrightarrow> length rest < length src"
proof (induction src arbitrary: i w k)
  case (Cons a src)
  then show ?case by (auto simp: Let_def less_SucI split: if_splits)
qed simp

function decode_loop :: "bool \<Rightarrow> int list \<Rightarrow> dec \<Rightarrow> UErrorCode \<times> dec + dec" where
  "decode_loop dest_null src d =
     (if src = [] then Inr d
      else
        case decode_vli (dc_bias d) src (dc_i d) 1 BASE of
          Inl err \<Rightarrow> Inl (err, d)
        | Inr (i, rest, lastUnit) \<Rightarrow>
            let cpCount = dc_cpCount d + 1;
                bias = adaptBias (i - dc_i d) cpCount (dc_i d = 0);
                d1 = d\<lparr>dc_cpCount := cpCount, dc_bias := bias, dc_i := i\<rparr>
            in if i div cpCount > 0x7fffffff - dc_n d then Inl (U_ILLEGAL_CHAR_FOUND, d1)
               else
                 let n = dc_n d + i div cpCount;
                     d2 = d1\<lparr>dc_n := n, dc_i := i mod cpCount\<rparr>
                 in if n > 0x10ffff \<or> is_surrogate n then Inl (U_ILLEGAL_CHAR_FOUND, d2)
                    else
                      let d3 = (if \<not> dest_null \<and> dc_destLength d2 + U16_LENGTH n \<le> int (length (dc_dest d2))
                                then insert_code_point lastUnit d2 else d2)
                      in decode_loop dest_null rest
                           (d3\<lparr>dc_destLength := dc_destLength d3 + U16_LENGTH n, dc_i := dc_i d3 + 1\<rparr>))"
  by auto
termination by (relation "measure (\<lambda>(b, src, d). length src)") (auto dest: decode_vli_shorter)

declare decode_loop.simps [simp del]

definition u_strFromPunycode :: "int list option \<Rightarrow> int \<Rightarrow> bool \<Rightarrow> int list \<Rightarrow> int \<Rightarrow> bool list option \<Rightarrow> UErrorCode \<Rightarrow>
    out_block \<times> int \<times> UErrorCode" where
  "u_strFromPunycode src0 srcLength dest_null dest destCapacity caseFlags ec =
     (if U_FAILURE ec then ((dest, caseFlags), 0, ec)
      else case src0 of
        None \<Rightarrow> ((dest, caseFlags), 0, U_ILLEGAL_ARGUMENT_ERROR)
      | Some units \<Rightarrow>
          if srcLength < -1 \<or> (dest_null \<and> destCapacity \<noteq> 0) then ((dest, caseFlags), 0, U_ILLEGAL_ARGUMENT_ERROR)
          else
            let src = (if srcLength = -1 then takeWhile (\<lambda>c. c \<noteq> 0) units else units);
                basicLength = delimiter_loop src (length src)
            in case copy_loop src basicLength (dest, caseFlags) of
                 Inl (err, out) \<Rightarrow> (out, 0, err)
               | Inr out \<Rightarrow>
                   (case decode_loop dest_null (if basicLength > 0 then drop (basicLength + 1) src else src)
                      \<lparr>dc_dest = fst out, dc_flags = snd out, dc_destLength = int basicLength, dc_cpCount = int basicLength,
                       dc_firstSupplementaryIndex = 1000000000, dc_n = INITIAL_N, dc_i = 0, dc_bias = INITIAL_BIAS\<rparr> of
                      Inl (err, d) \<Rightarrow> ((dc_dest d, dc_flags d), 0, err)
                    | Inr d \<Rightarrow>
                        (case u_terminateUChars (dc_dest d) (dc_destLength d) ec of
                           (dest', ec') \<Rightarrow> ((dest', dc_flags d), dc_destLength d, ec'))))"

end
