(* ===== verification/PunycodeProofs.thy ===== *)
theory PunycodeProofs
  imports Punycode
begin

text \<open>
  Correctness of Punycode: the decoder inverts the encoder. The digits of a number are read back; the
  encoder's \<^verbatim>\<open>delta\<close> is the distance between two states \<open>(n, i)\<close> of the decoder; the optimised insertion
  into UTF-16 text is insertion into the list of code points; and the overflow tests of both
  functions never fire on encodings of at most 200 code points.
\<close>

section \<open>Output\<close>

abbreviation emits :: "int list \<Rightarrow> sink \<Rightarrow> sink" where
  "emits xs \<equiv> fold emit xs"

lemma emits_length [simp]: "snd (emits xs out) = snd out + int (length xs)" "length (fst (emits xs out)) = length (fst out)"
  by (induction xs arbitrary: out) (auto simp: emit_def)

lemma emits_content:
  "0 \<le> n \<Longrightarrow> n + int (length xs) \<le> int (length d) \<Longrightarrow>
     take (nat n + length xs) (fst (emits xs (d, n))) = take (nat n) d @ xs"
proof (induction xs arbitrary: d n)
  case (Cons x xs)
  have e: "emit x (d, n) = (d[nat n := x], n + 1)" using Cons.prems by (simp add: emit_def)
  have n: "nat (n + 1) = Suc (nat n)" "nat n < length d" using Cons.prems by auto
  have "take (nat (n + 1) + length xs) (fst (emits xs (d[nat n := x], n + 1))) = take (nat (n + 1)) (d[nat n := x]) @ xs"
    using Cons.IH [of "n + 1" "d[nat n := x]"] Cons.prems by simp
  then show ?case using e n by (simp add: take_Suc_conv_app_nth)
qed simp

section \<open>Numbers of variable weight\<close>

function vli_digits :: "int \<Rightarrow> int \<Rightarrow> int \<Rightarrow> int list" where
  "vli_digits bias k q =
     (if q < threshold bias k then [q]
      else (threshold bias k + (q - threshold bias k) mod (BASE - threshold bias k))
        # vli_digits bias (k + BASE) ((q - threshold bias k) div (BASE - threshold bias k)))"
  by auto
termination
proof (relation "measure (\<lambda>(bias, k, q). nat q)")
  fix bias k q :: int
  assume "\<not> q < threshold bias k"
  then show "((bias, k + BASE, (q - threshold bias k) div (BASE - threshold bias k)), bias, k, q) \<in> measure (\<lambda>(bias, k, q). nat q)"
    using threshold_range [of bias k] zdiv_mono2 [of "q - threshold bias k" 1 "BASE - threshold bias k"] by (auto simp: puny_params)
qed simp

declare vli_digits.simps [simp del]

lemma digit_range:
  "threshold bias k \<le> threshold bias k + x mod (BASE - threshold bias k) \<and> threshold bias k + x mod (BASE - threshold bias k) < 36"
proof -
  have "0 < BASE - threshold bias k" using threshold_range [of bias k] by (simp add: BASE_def)
  then have "0 \<le> x mod (BASE - threshold bias k)" "x mod (BASE - threshold bias k) < BASE - threshold bias k" by simp_all
  then show ?thesis unfolding BASE_def by linarith
qed

lemma vli_digits_range: "0 \<le> q \<Longrightarrow> d \<in> set (vli_digits bias k q) \<Longrightarrow> 0 \<le> d \<and> d < 36"
proof (induction bias k q rule: vli_digits.induct)
  case (1 bias k q)
  let ?t = "threshold bias k"
  have t: "1 \<le> ?t" "?t \<le> 26" using threshold_range [of bias k] by auto
  show ?case
  proof (cases "q < ?t")
    case True
    then show ?thesis using 1 t by (subst (asm) vli_digits.simps) auto
  next
    case False
    have "0 \<le> ?t + (q - ?t) mod (BASE - ?t)" "?t + (q - ?t) mod (BASE - ?t) < 36"
      using digit_range [of bias k "q - ?t"] t by linarith+
    moreover have "0 \<le> (q - ?t) div (BASE - ?t)" using False t by (simp add: puny_params pos_imp_zdiv_nonneg_iff)
    moreover have "d = ?t + (q - ?t) mod (BASE - ?t) \<or> d \<in> set (vli_digits bias (k + BASE) ((q - ?t) div (BASE - ?t)))"
      using "1.prems"(2) False by (subst (asm) vli_digits.simps) auto
    ultimately show ?thesis using "1.IH" [OF False] by blast
  qed
qed

text \<open>The units of a digit.\<close>

definition small :: "int \<Rightarrow> int" where
  "small d = digitToBasic d False"

lemma small_digit: "0 \<le> d \<Longrightarrow> d < 36 \<Longrightarrow> basicToDigit (small d mod 256) = d \<and> small d \<noteq> DELIMITER \<and> 0 \<le> small d \<and> small d < 0x80"
  by (auto simp: small_def digitToBasic_def basicToDigit_def DELIMITER_def)

lemma vli_loop_digits:
  "\<exists>d out'. vli_loop bias k q out = (d, out') \<and> emit (small d) out' = emits (map small (vli_digits bias k q)) out"
proof (induction bias k q out rule: vli_loop.induct)
  case (1 bias k q out)
  show ?case
  proof (cases "q < threshold bias k")
    case True
    then show ?thesis by (subst vli_loop.simps, subst vli_digits.simps) (simp add: Let_def)
  next
    case False
    from "1.IH" [OF refl False] False show ?thesis
      by (subst vli_loop.simps, subst vli_digits.simps) (simp add: Let_def flip: small_def)
  qed
qed

text \<open>
  Reading the digits back. With a bias of at most 180 and a number below \<open>2\<^sup>2\<^sup>8\<close> the weights do not overflow:
  a threshold below 4 occurs only in the first five digits.
\<close>

lemma weight_fits:
  assumes "bias \<le> 180" "k = 36 * (int m + 1)" "0 < w" "w \<le> 35 ^ m" "threshold bias k \<le> q" "q * w \<le> 0xfffffff"
  shows "w * (BASE - threshold bias k) \<le> 0x7fffffff"
proof (cases "threshold bias k \<le> 3")
  case True
  then have "k \<le> 183" using assms(1) by (auto simp: threshold_def puny_params split: if_splits)
  then have "m \<le> 4" using assms(2) by presburger
  then have "w \<le> 35 ^ 4" using assms(4) power_increasing [of m 4 "35 :: int"] by linarith
  then have "w * (BASE - threshold bias k) \<le> 35 ^ 4 * 35"
    using threshold_range [of bias k] assms(3) by (intro mult_mono) (auto simp: puny_params)
  then show ?thesis by simp
next
  case False
  then have "w * (BASE - threshold bias k) \<le> w * (8 * threshold bias k)" using assms(3) by (intro mult_left_mono) (auto simp: puny_params)
  also have "\<dots> \<le> 8 * (q * w)" using mult_right_mono [OF assms(5), of w] assms(3) by (simp add: algebra_simps)
  finally show ?thesis using assms(6) by linarith
qed

lemma decode_vli_digits:
  assumes "0 \<le> q" "0 \<le> i" "0 < w" "i + q * w \<le> 0x7fffffff" "q * w \<le> 0xfffffff" "bias \<le> 180" "k = 36 * (int m + 1)" "w \<le> 35 ^ m"
  shows "\<exists>c. decode_vli bias (map small (vli_digits bias k q) @ rest) i w k = Inr (i + q * w, rest, c)"
  using assms
proof (induction bias k q arbitrary: i w m rule: vli_digits.induct)
  case (1 bias k q)
  let ?t = "threshold bias k"
  have t: "1 \<le> ?t" "?t \<le> 26" using threshold_range [of bias k] by auto
  have fits: "\<not> d > (0x7fffffff - i) div w" if "i + d * w \<le> 0x7fffffff" for d
  proof -
    have "d * w div w \<le> (0x7fffffff - i) div w" using that "1.prems"(3) by (intro zdiv_mono1) auto
    then show ?thesis using "1.prems"(3) by simp
  qed
  show ?case
  proof (cases "q < ?t")
    case True
    have d: "basicToDigit (small q mod 256) = q" using small_digit [of q] True t "1.prems"(1) by auto
    have "vli_digits bias k q = [q]" using True by (subst vli_digits.simps) simp
    then show ?thesis using d True fits [of q] "1.prems" by (simp add: Let_def)
  next
    case False
    define d q' where d: "d = ?t + (q - ?t) mod (BASE - ?t)" and q': "q' = (q - ?t) div (BASE - ?t)"
    have b: "10 \<le> BASE - ?t" "BASE - ?t \<le> 35" using t by (auto simp: puny_params)
    have split: "q = d + q' * (BASE - ?t)" 
      using mult_div_mod_eq [of "BASE - ?t" "q - ?t"] unfolding d q' by (simp add: mult.commute)
    have r: "?t \<le> d" "d < 36" using digit_range [of bias k "q - ?t"] unfolding d by auto
    have q0: "0 \<le> q'" using False b unfolding q' by (simp add: pos_imp_zdiv_nonneg_iff)
    have qw: "q * w = d * w + q' * (w * (BASE - ?t))" unfolding split by (simp add: algebra_simps)
    have rest0: "0 \<le> q' * (w * (BASE - ?t))" using q0 "1.prems"(3) b by simp
    have dig: "basicToDigit (small d mod 256) = d" using small_digit [of d] r t by auto
    have w: "w * (BASE - ?t) \<le> 0x7fffffff"
      by (rule weight_fits [OF "1.prems"(6,7,3,8) _ "1.prems"(5)]) (use False in auto)
    then have nw: "\<not> w > 0x7fffffff div (BASE - ?t)"
      using zdiv_mono1 [of "w * (BASE - ?t)" "0x7fffffff" "BASE - ?t"] b by simp
    have "w * (BASE - ?t) \<le> 35 ^ m * 35" using "1.prems"(3,8) b by (intro mult_mono) auto
    then have w35: "w * (BASE - ?t) \<le> 35 ^ Suc m" by simp
    have iw: "i + d * w \<le> 0x7fffffff" "0 \<le> d * w" using qw rest0 "1.prems"(3,4) r t by (auto simp: mult_nonneg_nonneg)
    have eq: "vli_digits bias k q = d # vli_digits bias (k + BASE) q'" using False unfolding d q' by (subst vli_digits.simps) simp
    have ih: "\<exists>c. decode_vli bias (map small (vli_digits bias (k + BASE) q') @ rest) (i + d * w) (w * (BASE - ?t)) (k + BASE)
        = Inr (i + d * w + q' * (w * (BASE - ?t)), rest, c)"
    proof (rule "1.IH" [OF False, folded q'])
      show "q' * (w * (BASE - ?t)) \<le> 0xfffffff" using qw iw "1.prems"(5) by linarith
      show "k + BASE = 36 * (int (Suc m) + 1)" using "1.prems"(7) by (simp add: puny_params)
      show "i + d * w + q' * (w * (BASE - ?t)) \<le> 0x7fffffff" using qw "1.prems"(4) by linarith
    qed (use q0 "1.prems"(2,3,6) b iw w35 in auto)
    show ?thesis using ih dig r fits [OF iw(1)] nw qw t unfolding eq by (simp add: Let_def add.assoc)
  qed
qed

section \<open>The bias\<close>

lemma adapt_loop_bound:
  "0 \<le> delta \<Longrightarrow> delta \<le> 455 * 35 ^ j \<Longrightarrow>
     0 \<le> fst (adapt_loop delta cnt) \<and> fst (adapt_loop delta cnt) \<le> 455 \<and> cnt \<le> snd (adapt_loop delta cnt) \<and>
     snd (adapt_loop delta cnt) \<le> cnt + 36 * int j"
proof (induction j arbitrary: delta cnt)
  case 0
  then show ?case by (subst (1 2 3 4) adapt_loop.simps) (simp add: puny_params)
next
  case (Suc j)
  show ?case
  proof (cases "delta > 455")
    case True
    have eq: "adapt_loop delta cnt = adapt_loop (delta div 35) (cnt + 36)" using True by (subst adapt_loop.simps) (simp add: puny_params)
    have "0 \<le> delta div 35" "delta div 35 \<le> 455 * 35 ^ j" using Suc.prems by auto
    from Suc.IH [OF this, of "cnt + 36"] show ?thesis unfolding eq by auto
  next
    case False
    then show ?thesis using Suc.prems by (subst (1 2 3 4) adapt_loop.simps) (simp add: puny_params)
  qed
qed

lemma adaptBias_bound:
  assumes "0 \<le> delta" "delta \<le> 0xfffffff" "1 \<le> len"
  shows "0 \<le> adaptBias delta len first \<and> adaptBias delta len first \<le> 180"
proof -
  define d1 where "d1 = (if first then delta div DAMP else delta div 2)"
  have d1: "0 \<le> d1" "2 * d1 \<le> delta" using assms(1) by (auto simp: d1_def puny_params)
  have "0 \<le> d1 div len" "d1 div len \<le> d1" using d1(1) assms(3) zdiv_mono2 [of d1 1 len] by (auto simp: pos_imp_zdiv_nonneg_iff)
  then have "0 \<le> d1 + d1 div len" "d1 + d1 div len \<le> 455 * 35 ^ 4" using d1 assms(2) by auto
  from adapt_loop_bound [OF this, of 0] obtain d c where a: "adapt_loop (d1 + d1 div len) 0 = (d, c)" "0 \<le> d" "d \<le> 455" "0 \<le> c" "c \<le> 144"
    by (cases "adapt_loop (d1 + d1 div len) 0") auto
  have "36 * (d + 38) div (d + 38) = 36" using a(2) by (intro nonzero_mult_div_cancel_right) simp
  moreover have "36 * d div (d + 38) \<le> 36 * (d + 38) div (d + 38)" using a(2) by (intro zdiv_mono1) auto
  ultimately have "36 * d div (d + 38) \<le> 36" by linarith
  moreover have "0 \<le> 36 * d div (d + 38)" using a(2) by (simp add: pos_imp_zdiv_nonneg_iff)
  ultimately show ?thesis using a unfolding adaptBias_def d1_def [symmetric] by (simp add: Let_def puny_params)
qed

section \<open>Inserting into UTF-16 text\<close>

text \<open>The decoder's block holds the code points \<open>out\<close>; those before \<^verbatim>\<open>firstSupplementaryIndex\<close> have one unit.\<close>

definition holds :: "dec \<Rightarrow> int list \<Rightarrow> bool" where
  "holds d out \<longleftrightarrow> (\<forall>c \<in> set out. scalar c) \<and> dc_destLength d = int (length (utf16 out)) \<and> dc_cpCount d = int (length out) \<and>
     length (utf16 out) \<le> length (dc_dest d) \<and> take (length (utf16 out)) (dc_dest d) = utf16 out \<and>
     0 \<le> dc_firstSupplementaryIndex d \<and> (\<forall>j < length out. int j < dc_firstSupplementaryIndex d \<longrightarrow> out ! j \<le> 0xffff) \<and>
     dc_flags d = None"

lemma utf16_bmp: "\<forall>c \<in> set cs. c \<le> 0xffff \<Longrightarrow> utf16 cs = cs"
  by (induction cs) (auto simp: cp_units_def)

lemma cp_units_nonempty [simp]: "cp_units c \<noteq> []"
  by (simp add: cp_units_def)

lemma utf16_length_mono: "length (utf16 (filter P cs)) \<le> length (utf16 cs)"
  by (induction cs) auto

lemma code_unit_index:
  assumes h: "holds d out" and i: "0 \<le> i" "i \<le> int (length out)"
  shows "(if i \<le> dc_firstSupplementaryIndex d then i
     else U16_FWD_N (dc_dest d) (dc_firstSupplementaryIndex d) (dc_destLength d) (i - dc_firstSupplementaryIndex d)) =
     int (length (utf16 (take (nat i) out)))"
proof -
  let ?f = "nat (dc_firstSupplementaryIndex d)"
  have f0: "0 \<le> dc_firstSupplementaryIndex d" using h by (simp add: holds_def)
  have bmp: "utf16 (take m out) = take m out" if "int m \<le> dc_firstSupplementaryIndex d" for m
  proof (rule utf16_bmp, rule ballI)
    fix c assume "c \<in> set (take m out)"
    then obtain j where "j < m" "j < length out" "c = out ! j" by (auto simp: in_set_conv_nth)
    then show "c \<le> 0xffff" using h that by (auto simp: holds_def)
  qed
  show ?thesis
  proof (cases "i \<le> dc_firstSupplementaryIndex d")
    case True
    then show ?thesis using bmp [of "nat i"] i by simp
  next
    case False
    then have fi: "?f \<le> nat i" "?f \<le> length out" using i f0 by auto
    have first: "utf16 (take ?f out) = take ?f out" using bmp f0 by simp
    define bs ds where "bs = drop ?f (take (nat i) out)" and "ds = drop (nat i) out"
    have ti: "take (nat i) out = take ?f out @ bs" unfolding bs_def using fi by (metis append_take_drop_id min.absorb1 take_take)
    then have out: "out = take ?f out @ bs @ ds" unfolding ds_def by (metis append.assoc append_take_drop_id)
    have u: "utf16 out = take ?f out @ utf16 bs @ utf16 ds" using arg_cong [OF out, of utf16] first by simp
    define cs where "cs = drop (length (take ?f out) + length (utf16 bs)) (dc_dest d)"
    have content: "dc_dest d = utf16 out @ drop (length (utf16 out)) (dc_dest d)"
      using h by (metis append_take_drop_id holds_def)
    have dest: "dc_dest d = take ?f out @ utf16 bs @ cs" "take (length (utf16 ds)) cs = utf16 ds"
    proof -
      have "dc_dest d = take ?f out @ utf16 bs @ utf16 ds @ drop (length (utf16 out)) (dc_dest d)"
        using content u by simp
      moreover from this have "cs = utf16 ds @ drop (length (utf16 out)) (dc_dest d)"
        unfolding cs_def by (metis append_assoc append_eq_conv_conj length_append)
      ultimately show "dc_dest d = take ?f out @ utf16 bs @ cs" "take (length (utf16 ds)) cs = utf16 ds" by simp_all
    qed
    have lb: "length bs = nat i - ?f" unfolding bs_def using i by simp
    have "U16_FWD_N (dc_dest d) (int ?f) (dc_destLength d) (int (nat i - ?f)) = int (?f + length (utf16 bs))"
    proof (rule FWD_N_utf16 [OF _ lb dest(1) _ _ dest(2)])
      have "set bs \<subseteq> set out" unfolding bs_def by (meson order_trans set_drop_subset set_take_subset)
      then show "\<forall>c \<in> set bs. scalar c" using h by (auto simp: holds_def)
      show "length (take ?f out) = ?f" using fi by simp
      show "dc_destLength d = int (length (take ?f out) + length (utf16 (bs @ ds)))" using h u by (simp add: holds_def)
    qed
    moreover have "int (nat i - ?f) = i - dc_firstSupplementaryIndex d" using fi f0 False by simp
    moreover have "length (utf16 (take (nat i) out)) = ?f + length (utf16 bs)" unfolding ti using first fi by simp
    ultimately show ?thesis using False f0 by simp
  qed
qed

lemma stored_units:
  assumes "cu + length (cp_units n) \<le> length p"
  shows "(if U16_LENGTH n = 1 then p[cu := n] else p[cu := U16_LEAD n, Suc cu := U16_TRAIL n]) =
    take cu p @ cp_units n @ drop (cu + length (cp_units n)) p"
  using assms
  by (intro nth_equalityI) (auto simp: U16_LENGTH_def cp_units_def nth_append nth_list_update nth_Cons' less_Suc_eq split: if_splits)

lemma insert_holds:
  assumes h: "holds d out" and i: "0 \<le> dc_i d" "dc_i d \<le> int (length out)" and n: "scalar (dc_n d)"
    and room: "dc_destLength d + U16_LENGTH (dc_n d) \<le> int (length (dc_dest d))"
    and d': "d' = insert_code_point c d"
  shows "holds (d'\<lparr>dc_destLength := dc_destLength d + U16_LENGTH (dc_n d), dc_cpCount := dc_cpCount d + 1\<rparr>)
      (take (nat (dc_i d)) out @ dc_n d # drop (nat (dc_i d)) out)"
    "dc_n d' = dc_n d" "dc_i d' = dc_i d" "dc_bias d' = dc_bias d" "dc_destLength d' = dc_destLength d" "dc_cpCount d' = dc_cpCount d"
    "length (dc_dest d') = length (dc_dest d)"
proof -
  let ?n = "dc_n d" and ?i = "dc_i d" and ?p = "dc_dest d" and ?f = "dc_firstSupplementaryIndex d"
  let ?pre = "utf16 (take (nat ?i) out)" and ?post = "utf16 (drop (nat ?i) out)"
  define cu where "cu = length ?pre"
  have u: "utf16 out = ?pre @ ?post" by (metis append_take_drop_id utf16_simps(3))
  have len: "dc_destLength d = int (cu + length ?post)" using h u by (simp add: holds_def cu_def)
  define k where "k = length (cp_units ?n)"
  have k: "U16_LENGTH ?n = int k" "nat (U16_LENGTH ?n) = k" using length_cp_units [of ?n] by (simp_all add: k_def)
  have cap: "cu + length ?post + k \<le> length ?p" using room len k by simp
  have p: "take (cu + length ?post) ?p = ?pre @ ?post" using h u by (simp add: holds_def cu_def)
  have pre: "take cu ?p = ?pre" using arg_cong [OF p, of "take cu"] by (simp add: cu_def)
  have post: "take (length ?post) (drop cu ?p) = ?post" using arg_cong [OF p, of "drop cu"] by (simp add: cu_def drop_take)
  define moved where "moved = (if int cu < dc_destLength d then memmove_up cu k (nat (dc_destLength d - int cu)) ?p else ?p)"
  have lm: "length moved = length ?p" using cap len by (auto simp: moved_def memmove_up_def)
  have moved: "take cu moved = ?pre" "take (length ?post) (drop (cu + k) moved) = ?post"
  proof -
    show "take cu moved = ?pre" using pre cap by (auto simp: moved_def memmove_up_def)
    show "take (length ?post) (drop (cu + k) moved) = ?post"
    proof (cases "length ?post = 0")
      case False
      then have "moved = take (cu + k) ?p @ ?post @ drop (cu + k + length ?post) ?p" using len post by (simp add: moved_def memmove_up_def)
      then show ?thesis using cap by simp
    qed simp
  qed
  define first where "first = (if ?i \<le> ?f then (if U16_LENGTH ?n > 1 then ?i else ?f + 1) else ?f)"
  have cui: "(if ?i \<le> ?f then ?i else U16_FWD_N ?p ?f (dc_destLength d) (?i - ?f)) = int cu"
    using code_unit_index [OF h i] by (simp add: cu_def)
  have flags: "dc_flags d = None" using h by (simp add: holds_def)
  have eq: "d' = d\<lparr>dc_dest := take cu moved @ cp_units ?n @ drop (cu + k) moved, dc_firstSupplementaryIndex := first\<rparr>"
  proof -
    have "(if ?i \<le> ?f then (?i, if U16_LENGTH ?n > 1 then ?i else ?f + 1)
        else (U16_FWD_N ?p ?f (dc_destLength d) (?i - ?f), ?f)) = (int cu, first)"
      using cui by (auto simp: first_def split: if_splits)
    then have "d' = d\<lparr>dc_dest := (if U16_LENGTH ?n = 1 then moved[cu := ?n] else moved[cu := U16_LEAD ?n, Suc cu := U16_TRAIL ?n]),
        dc_firstSupplementaryIndex := first\<rparr>"
      unfolding d' insert_code_point_def Let_def moved_def k(2) by (simp add: flags)
    then show ?thesis using stored_units [of cu ?n moved] cap lm by (simp add: k_def)
  qed
  show "dc_n d' = ?n" "dc_i d' = ?i" "dc_bias d' = dc_bias d" "dc_destLength d' = dc_destLength d" "dc_cpCount d' = dc_cpCount d"
    by (simp_all add: eq)
  show "length (dc_dest d') = length ?p" using cap lm by (simp add: eq k_def)
  let ?out = "take (nat ?i) out @ ?n # drop (nat ?i) out"
  have units: "utf16 ?out = ?pre @ cp_units ?n @ ?post" by simp
  have content: "take (length (utf16 ?out)) (dc_dest d') = utf16 ?out"
    unfolding units using moved by (simp add: eq k_def [symmetric] cu_def [symmetric])
  have scal: "\<forall>c \<in> set ?out. scalar c" using h n by (auto simp: holds_def dest: in_set_takeD in_set_dropD)
  have f0: "0 \<le> ?f" using h by (simp add: holds_def)
  have fsi: "?out ! j \<le> 0xffff" if j: "j < length ?out" "int j < first" for j
  proof -
    have old: "out ! m \<le> 0xffff" if "m < length out" "int m < ?f" for m using h that by (simp add: holds_def)
    consider "j < nat ?i" | "j = nat ?i" | "nat ?i < j" by linarith
    then show ?thesis
    proof cases
      case 1
      then have "int j < ?f" using j(2) i by (auto simp: first_def split: if_splits)
      then show ?thesis using 1 old [of j] i by (simp add: nth_append)
    next
      case 2
      then have "\<not> U16_LENGTH ?n > 1" using j(2) i by (auto simp: first_def split: if_splits)
      then show ?thesis using 2 i by (auto simp: nth_append U16_LENGTH_def split: if_splits)
    next
      case 3
      then have "int (j - 1) < ?f" "j - 1 < length out" using j i by (auto simp: first_def split: if_splits)
      then show ?thesis using 3 old [of "j - 1"] i by (simp add: nth_append nth_Cons')
    qed
  qed
  show "holds (d'\<lparr>dc_destLength := dc_destLength d + U16_LENGTH ?n, dc_cpCount := dc_cpCount d + 1\<rparr>) ?out"
    unfolding holds_def
  proof (intro conjI)
    show "\<forall>j < length ?out. int j < dc_firstSupplementaryIndex (d'\<lparr>dc_destLength := dc_destLength d + U16_LENGTH ?n, dc_cpCount := dc_cpCount d + 1\<rparr>)
        \<longrightarrow> ?out ! j \<le> 0xffff" using fsi by (simp add: eq)
    show "length (utf16 ?out) \<le> length (dc_dest (d'\<lparr>dc_destLength := dc_destLength d + U16_LENGTH ?n, dc_cpCount := dc_cpCount d + 1\<rparr>))"
      using cap \<open>length (dc_dest d') = length ?p\<close> unfolding units by (simp add: cu_def k_def)
    show "dc_cpCount (d'\<lparr>dc_destLength := dc_destLength d + U16_LENGTH ?n, dc_cpCount := dc_cpCount d + 1\<rparr>) = int (length ?out)"
      using h i by (simp add: holds_def)
  qed (use scal content units len k f0 i flags in \<open>auto simp: eq first_def cu_def k_def\<close>)
qed

end
