(* ===== verification/PunycodeClaims.thy ===== *)
theory PunycodeClaims
  imports PunycodeProofs
begin

text \<open>
  The round trip of Punycode: a simulation between the state of the encoder and the state of a
  decoder that has read everything written so far, then the theorem about the two functions.
\<close>

section \<open>Encoder and decoder in step\<close>

text \<open>What the first pass stores for a code point.\<close>

definition key :: "int \<Rightarrow> int" where
  "key c = (if c < 0x80 then 0 else c)"

text \<open>
  The inner loop for the code point \<open>n\<close> has passed \<open>before\<close> and still has \<open>todo\<close>. The decoder holds what is
  encoded: the code points up to \<open>n\<close> of the one and those below \<open>n\<close> of the other. The encoder's \<^verbatim>\<open>delta\<close> is the number of steps
  from the decoder's \<open>(n, i)\<close> to the present place.
\<close>

definition encoded :: "int \<Rightarrow> int list \<Rightarrow> int list \<Rightarrow> int list" where
  "encoded n before todo = filter (\<lambda>c. c \<le> n) before @ filter (\<lambda>c. c < n) todo"

definition place :: "int \<Rightarrow> int list \<Rightarrow> int" where
  "place n before = int (length (filter (\<lambda>c. c \<le> n) before))"

definition in_step :: "int \<Rightarrow> int \<Rightarrow> int list \<Rightarrow> int list \<Rightarrow> enc \<Rightarrow> dec \<Rightarrow> bool" where
  "in_step bl n before todo e d \<longleftrightarrow>
     holds d (encoded n before todo) \<and> en_handled e = int (length (encoded n before todo)) \<and>
     en_bias e = dc_bias d \<and> dc_bias d \<le> 180 \<and>
     en_delta e = (n - dc_n d) * (en_handled e + 1) + place n before - dc_i d \<and>
     0x80 \<le> dc_n d \<and> dc_n d \<le> n \<and> 0 \<le> dc_i d \<and> dc_i d \<le> en_handled e \<and>
     (dc_n d = n \<longrightarrow> dc_i d \<le> place n before) \<and> bl \<le> en_handled e \<and> (dc_i d = 0 \<longleftrightarrow> en_handled e = bl) \<and>
     length (utf16 (before @ todo)) \<le> length (dc_dest d)"

lemma holds_frame [simp]:
  "holds (d\<lparr>dc_i := x\<rparr>) out = holds d out" "holds (d\<lparr>dc_n := x\<rparr>) out = holds d out" "holds (d\<lparr>dc_bias := x\<rparr>) out = holds d out"
  by (simp_all add: holds_def)

lemma insert_cpCount: "insert_code_point c (d\<lparr>dc_cpCount := x\<rparr>) = (insert_code_point c d)\<lparr>dc_cpCount := x\<rparr>"
  by (simp add: insert_code_point_def Let_def split: prod.split)

lemma insert_flagless: "dc_flags d = None \<Longrightarrow> insert_code_point c d = insert_code_point 0 d"
  by (simp add: insert_code_point_def Let_def split: prod.split)

lemma key_code [simp]: "scalar c \<Longrightarrow> code_of (key c) = key c"
  by (auto simp: scalar_def key_def code_of_def)

lemma place_le: "place n before \<le> int (length (encoded n before todo))"
  by (simp add: place_def encoded_def)

lemma encoded_le: "length (encoded n before todo) \<le> length (before @ todo)"
  by (simp add: encoded_def add_mono)

lemma vli_digits_nonempty [simp]: "vli_digits b k q \<noteq> []"
  by (subst vli_digits.simps) simp

text \<open>One code point decoded.\<close>

lemma decode_one:
  assumes h: "holds d out" and q: "0 \<le> q" "q \<le> 0xfffffff" and b: "dc_bias d \<le> 180"
    and i: "0 \<le> dc_i d" "dc_i d \<le> int (length out)" and len: "length out < 200"
    and n: "scalar n" "0 \<le> dc_n d" "dc_n d \<le> n" and pos: "0 \<le> pos" "pos \<le> int (length out)"
    and sum: "dc_i d + q = (n - dc_n d) * (int (length out) + 1) + pos"
    and room: "length (utf16 out) + length (cp_units n) \<le> length (dc_dest d)"
  shows "\<exists>d'. (\<forall>rest. decode_loop False (map small (vli_digits (dc_bias d) BASE q) @ rest) d = decode_loop False rest d') \<and>
     holds d' (take (nat pos) out @ n # drop (nat pos) out) \<and> dc_n d' = n \<and> dc_i d' = pos + 1 \<and>
     dc_bias d' = adaptBias q (int (length out) + 1) (dc_i d = 0) \<and> length (dc_dest d') = length (dc_dest d)"
proof -
  let ?h = "int (length out)"
  have cnt: "dc_cpCount d = ?h" "dc_destLength d = int (length (utf16 out))" using h by (simp_all add: holds_def)
  have "dc_i d + q * 1 \<le> 0x7fffffff" using q(2) i(2) len by linarith
  then have vli: "\<exists>c. decode_vli (dc_bias d) (map small (vli_digits (dc_bias d) BASE q) @ rest) (dc_i d) 1 BASE = Inr (dc_i d + q, rest, c)" for rest
    using decode_vli_digits [OF q(1) i(1), of 1 "dc_bias d" BASE 0 rest] q(2) b by (simp add: puny_params)
  define D where "D = d\<lparr>dc_bias := adaptBias q (?h + 1) (dc_i d = 0), dc_n := n, dc_i := pos\<rparr>"
  have hD: "holds D out" "dc_i D = pos" "dc_n D = n" "dc_dest D = dc_dest d" "dc_destLength D = dc_destLength d" "dc_cpCount D = ?h"
    using h cnt by (simp_all add: D_def)
  define X where "X = insert_code_point 0 D"
  have room': "dc_destLength D + U16_LENGTH (dc_n D) \<le> int (length (dc_dest D))"
    using room cnt length_cp_units [of n] hD by simp
  note ins = insert_holds [OF hD(1) _ _ _ room' X_def, unfolded hD(2-6), OF pos n(1)]
  define d' where "d' = X\<lparr>dc_cpCount := ?h + 1, dc_destLength := dc_destLength d + U16_LENGTH n, dc_i := pos + 1\<rparr>"
  have idiv: "(dc_i d + q) div (?h + 1) = n - dc_n d" "(dc_i d + q) mod (?h + 1) = pos"
    unfolding sum using pos by (simp_all add: div_add1_eq)
  have limits: "\<not> n - dc_n d > 0x7fffffff - dc_n d" "\<not> (n > 0x10ffff \<or> is_surrogate n)"
    using n by (auto simp: scalar_def)
  have step: "decode_loop False (map small (vli_digits (dc_bias d) BASE q) @ rest) d = decode_loop False rest d'" for rest
  proof -
    obtain c where c: "decode_vli (dc_bias d) (map small (vli_digits (dc_bias d) BASE q) @ rest) (dc_i d) 1 BASE = Inr (dc_i d + q, rest, c)"
      using vli by blast
    have "insert_code_point c D = X" unfolding X_def using h by (intro insert_flagless) (simp add: D_def holds_def)
    then have X: "insert_code_point c (d\<lparr>dc_cpCount := ?h + 1, dc_bias := adaptBias q (?h + 1) (dc_i d = 0), dc_n := n, dc_i := pos\<rparr>)
        = X\<lparr>dc_cpCount := ?h + 1\<rparr>"
    proof -
      have "d\<lparr>dc_cpCount := ?h + 1, dc_bias := adaptBias q (?h + 1) (dc_i d = 0), dc_n := n, dc_i := pos\<rparr> = D\<lparr>dc_cpCount := ?h + 1\<rparr>"
        by (rule dec.equality) (simp_all add: D_def)
      then show ?thesis using insert_cpCount [of c "?h + 1" D] \<open>insert_code_point c D = X\<close> by simp
    qed
    show ?thesis
      by (subst decode_loop.simps)
         (use limits room' hD(3-5) in \<open>simp add: c Let_def cnt idiv X d'_def ins(3,5)\<close>)
  qed
  have "holds d' (take (nat pos) out @ n # drop (nat pos) out)"
    using ins(1) by (simp add: d'_def holds_def)
  then show ?thesis using step ins by (intro exI [of _ d']) (simp add: d'_def D_def)
qed

lemma encoded_Cons:
  "c < n \<Longrightarrow> encoded n (before @ [c]) todo = encoded n before (c # todo)"
  "n < c \<Longrightarrow> encoded n (before @ [c]) todo = encoded n before (c # todo)"
  "encoded n (before @ [n]) todo = take (nat (place n before)) (encoded n before (n # todo)) @ n # drop (nat (place n before)) (encoded n before (n # todo))"
  by (simp_all add: encoded_def place_def)

lemma place_snoc: "place n (before @ [c]) = place n before + (if c \<le> n then 1 else 0)"
  by (simp add: place_def)

text \<open>The encoder's counter stays far below the limit.\<close>

lemma delta_bound:
  fixes n n' h p i :: int
  assumes "0 \<le> n'" "n' \<le> n" "n \<le> 0x10ffff" "0 \<le> h" "h < 200" "p \<le> h" "0 \<le> i"
  shows "(n - n') * (h + 1) + p - i \<le> 0xfffffff"
proof -
  have "(n - n') * (h + 1) \<le> 0x10ffff * 200" using assms by (intro mult_mono) auto
  then show ?thesis using assms by linarith
qed

lemma encode_step_in_step:
  assumes s: "in_step bl n before (c # todo) e d" and c: "scalar c" and n: "0x80 \<le> n" "n \<le> 0x10ffff"
    and len: "length (before @ c # todo) \<le> 200"
  shows "\<exists>us d'. (\<forall>out. encode_step bl n (key c) (e\<lparr>en_out := out\<rparr>) = (encode_step bl n (key c) e)\<lparr>en_out := emits (map small us) out\<rparr>) \<and> (\<forall>u \<in> set us. 0 \<le> u \<and> u < 36) \<and>
     (\<forall>rest. decode_loop False (map small us @ rest) d = decode_loop False rest d') \<and>
     in_step bl n (before @ [c]) todo (encode_step bl n (key c) e) d' \<and> length (dc_dest d') = length (dc_dest d)"
proof -
  let ?out = "encoded n before (c # todo)"
  note st = s [unfolded in_step_def]
  have q: "code_of (key c) < n \<longleftrightarrow> c < n" "code_of (key c) = n \<longleftrightarrow> c = n" "\<not> key c < 0"
    unfolding key_code [OF c] using c n by (auto simp: key_def scalar_def)
  consider "c < n" | "n < c" | "c = n" by linarith
  then show ?thesis
  proof cases
    case 1
    then have "encode_step bl n (key c) f = f\<lparr>en_delta := en_delta f + 1\<rparr>" for f by (simp add: encode_step_def Let_def q)
    then show ?thesis using st 1 encoded_Cons(1) [OF 1, of before todo] place_snoc [of n before c]
      by (intro exI [of _ "[]"] exI [of _ d]) (auto simp: in_step_def)
  next
    case 2
    then have "encode_step bl n (key c) f = f" for f by (simp add: encode_step_def Let_def q)
    then show ?thesis using st 2 encoded_Cons(2) [OF 2, of before todo] place_snoc [of n before c]
      by (intro exI [of _ "[]"] exI [of _ d]) (simp add: in_step_def)
  next
    case 3
    let ?q = "en_delta e" and ?h = "int (length ?out)"
    have "length ?out < 200" using encoded_le [of n before "todo"] len 3 by (auto simp: encoded_def)
    have pos: "0 \<le> place n before" "place n before \<le> ?h" using place_le by (auto simp: place_def)
    have q0: "0 \<le> ?q"
    proof (cases "dc_n d = n")
      case True
      then show ?thesis using st by simp
    next
      case False
      define P where "P = (n - dc_n d) * (en_handled e + 1)"
      have "1 * (en_handled e + 1) \<le> P" unfolding P_def using st False by (intro mult_right_mono) auto
      then have "en_handled e + 1 \<le> P" by simp
      moreover have "?q = P + place n before - dc_i d" "dc_i d \<le> en_handled e" using st by (auto simp: P_def)
      ultimately show ?thesis using pos(1) by (simp only:)
    qed
    have q1: "?q \<le> 0xfffffff"
      using delta_bound [of "dc_n d" n ?h "place n before" "dc_i d"] st n pos \<open>length ?out < 200\<close> by simp
    have room: "length (utf16 ?out) + length (cp_units n) \<le> length (dc_dest d)"
    proof -
      have "length (utf16 ?out) + length (cp_units n) \<le> length (utf16 (before @ c # todo))"
        using utf16_length_mono [of "\<lambda>c. c \<le> n" before] utf16_length_mono [of "\<lambda>c. c < n" todo] 3 by (simp add: encoded_def)
      then show ?thesis using st by linarith
    qed
    obtain d' where d': "\<And>rest. decode_loop False (map small (vli_digits (dc_bias d) BASE ?q) @ rest) d = decode_loop False rest d'"
      "holds d' (take (nat (place n before)) ?out @ n # drop (nat (place n before)) ?out)" "dc_n d' = n" "dc_i d' = place n before + 1"
      "dc_bias d' = adaptBias ?q (?h + 1) (dc_i d = 0)" "length (dc_dest d') = length (dc_dest d)"
      using decode_one [of d ?out ?q n "place n before"] st q0 q1 c 3 n pos room \<open>length ?out < 200\<close> by auto
    have e': "encode_step bl n (key c) (e\<lparr>en_out := out\<rparr>) = \<lparr>en_delta = 0, en_bias = adaptBias ?q (?h + 1) (?h = bl), en_handled = ?h + 1,
        en_out = emits (map small (vli_digits (dc_bias d) BASE ?q)) out\<rparr>" for out
    proof -
      obtain x out' where v: "vli_loop (en_bias e) BASE ?q out = (x, out')"
        "emit (small x) out' = emits (map small (vli_digits (en_bias e) BASE ?q)) out" using vli_loop_digits by blast
      show ?thesis using v st 3 q by (simp add: encode_step_def Let_def flip: small_def)
    qed
    have e1: "encode_step bl n (key c) e = \<lparr>en_delta = 0, en_bias = adaptBias ?q (?h + 1) (?h = bl), en_handled = ?h + 1,
        en_out = emits (map small (vli_digits (dc_bias d) BASE ?q)) (en_out e)\<rparr>" using e' [of "en_out e"] by simp
    have "in_step bl n (before @ [c]) todo (encode_step bl n (key c) e) d'"
      using st d' adaptBias_bound [OF q0 q1, of "?h + 1" "?h = bl"] 3 n pos
      unfolding e1 in_step_def by (auto simp: encoded_Cons(3) place_snoc)
    moreover have "\<forall>u \<in> set (vli_digits (dc_bias d) BASE ?q). 0 \<le> u \<and> u < 36" using vli_digits_range [OF q0] by blast
    ultimately show ?thesis using d'(1,6) e' e1 by (intro exI [of _ "vli_digits (dc_bias d) BASE ?q"] exI [of _ d']) simp
  qed
qed

lemma encode_fold_in_step:
  assumes "in_step bl n before todo e d" "\<forall>c \<in> set todo. scalar c" "0x80 \<le> n" "n \<le> 0x10ffff" "length (before @ todo) \<le> 200"
  shows "\<exists>us d'. (\<forall>out. fold (encode_step bl n) (map key todo) (e\<lparr>en_out := out\<rparr>) =
       (fold (encode_step bl n) (map key todo) e)\<lparr>en_out := emits (map small us) out\<rparr>) \<and> (\<forall>u \<in> set us. 0 \<le> u \<and> u < 36) \<and>
     (\<forall>rest. decode_loop False (map small us @ rest) d = decode_loop False rest d') \<and>
     in_step bl n (before @ todo) [] (fold (encode_step bl n) (map key todo) e) d' \<and> length (dc_dest d') = length (dc_dest d)"
  using assms
proof (induction todo arbitrary: before e d)
  case Nil
  then show ?case by (intro exI [of _ "[]"] exI [of _ d]) simp
next
  case (Cons c todo)
  obtain us d1 where 1: "\<And>out. encode_step bl n (key c) (e\<lparr>en_out := out\<rparr>) = (encode_step bl n (key c) e)\<lparr>en_out := emits (map small us) out\<rparr>" "\<forall>u \<in> set us. 0 \<le> u \<and> u < 36"
    "\<And>rest. decode_loop False (map small us @ rest) d = decode_loop False rest d1"
    "in_step bl n (before @ [c]) todo (encode_step bl n (key c) e) d1" "length (dc_dest d1) = length (dc_dest d)"
    using encode_step_in_step [OF Cons.prems(1) _ Cons.prems(3,4,5)] Cons.prems(2) by auto
  obtain vs d2 where 2: "\<And>out. fold (encode_step bl n) (map key todo) ((encode_step bl n (key c) e)\<lparr>en_out := out\<rparr>) =
      (fold (encode_step bl n) (map key todo) (encode_step bl n (key c) e))\<lparr>en_out := emits (map small vs) out\<rparr>" "\<forall>u \<in> set vs. 0 \<le> u \<and> u < 36"
    "\<And>rest. decode_loop False (map small vs @ rest) d1 = decode_loop False rest d2"
    "in_step bl n (before @ c # todo) [] (fold (encode_step bl n) (map key todo) (encode_step bl n (key c) e)) d2"
    "length (dc_dest d2) = length (dc_dest d1)"
    using Cons.IH [OF 1(4)] Cons.prems by auto
  show ?case using 1 2 by (intro exI [of _ "us @ vs"] exI [of _ d2]) auto
qed

section \<open>The outer loop\<close>

lemma next_code_fold:
  "fold (\<lambda>x m. let q = code_of x in if n \<le> q \<and> q < m then q else m) xs m0 \<le> m0 \<and>
   (\<forall>x \<in> set xs. n \<le> code_of x \<longrightarrow> fold (\<lambda>x m. let q = code_of x in if n \<le> q \<and> q < m then q else m) xs m0 \<le> code_of x) \<and>
   (fold (\<lambda>x m. let q = code_of x in if n \<le> q \<and> q < m then q else m) xs m0 = m0 \<or>
    (\<exists>x \<in> set xs. n \<le> code_of x \<and> fold (\<lambda>x m. let q = code_of x in if n \<le> q \<and> q < m then q else m) xs m0 = code_of x))"
proof (induction xs arbitrary: m0)
  case (Cons x xs)
  show ?case using Cons [of "let q = code_of x in if n \<le> q \<and> q < m0 then q else m0"] by (auto simp: Let_def split: if_splits)
qed simp

lemma next_code_spec:
  assumes "\<forall>c \<in> set cps. scalar c" "0x80 \<le> n" "\<exists>c \<in> set cps. n \<le> c"
  shows "next_code (map key cps) n \<in> set cps" "n \<le> next_code (map key cps) n" "\<forall>c \<in> set cps. n \<le> c \<longrightarrow> next_code (map key cps) n \<le> c"
proof -
  let ?m = "next_code (map key cps) n"
  have k: "n \<le> code_of (key c) \<longleftrightarrow> n \<le> c" "n \<le> c \<longrightarrow> code_of (key c) = c" if "c \<in> set cps" for c
    using key_code [of c] assms(1,2) that by (auto simp: key_def)
  have f: "?m \<le> 0x7fffffff \<and> (\<forall>x \<in> set (map key cps). n \<le> code_of x \<longrightarrow> ?m \<le> code_of x) \<and>
      (?m = 0x7fffffff \<or> (\<exists>x \<in> set (map key cps). n \<le> code_of x \<and> ?m = code_of x))"
    unfolding next_code_def by (rule next_code_fold)
  obtain c0 where c0: "c0 \<in> set cps" "n \<le> c0" using assms(3) by blast
  then have "?m \<le> c0" using f k [of c0] by auto
  moreover have "c0 \<le> 0x10ffff" using assms(1) c0 by (auto simp: scalar_def)
  ultimately have "?m \<noteq> 0x7fffffff" by auto
  then obtain c where "c \<in> set cps" "n \<le> c" "?m = c" using f k by auto
  then show "?m \<in> set cps" "n \<le> ?m" by auto
  show "\<forall>c \<in> set cps. n \<le> c \<longrightarrow> ?m \<le> c" using f k by auto
qed

lemma encode_loop_in_step:
  assumes "in_step bl n [] cps e d" "\<forall>c \<in> set cps. scalar c" "0x80 \<le> n" "length cps \<le> 200"
  shows "\<exists>us d'. (\<forall>out. encode_loop (map key cps) bl n (e\<lparr>en_out := out\<rparr>) = Some (Inr (emits (map small us) out))) \<and> (\<forall>u \<in> set us. 0 \<le> u \<and> u < 36) \<and>
     decode_loop False (map small us) d = Inr d' \<and> holds d' cps \<and> length (dc_dest d') = length (dc_dest d)"
  using assms
proof (induction "length (filter (\<lambda>c. n \<le> c) cps)" arbitrary: n e d rule: less_induct)
  case less
  let ?h = "en_handled e"
  note st = less.prems(1) [unfolded in_step_def]
  have enc: "encoded n [] cps = filter (\<lambda>c. c < n) cps" by (simp add: encoded_def)
  have h: "?h = int (length (filter (\<lambda>c. c < n) cps))" using st enc by simp
  show ?case
  proof (cases "\<exists>c \<in> set cps. n \<le> c")
    case False
    then have all: "filter (\<lambda>c. c < n) cps = cps" by (auto simp: filter_id_conv)
    then have "\<not> ?h < int (length (map key cps))" using h by simp
    then have "encode_loop (map key cps) bl n (e\<lparr>en_out := out\<rparr>) = Some (Inr out)" for out by (subst encode_loop.simps) simp
    moreover have "decode_loop False [] d = Inr d" by (subst decode_loop.simps) simp
    ultimately show ?thesis using st enc all by (intro exI [of _ "[]"] exI [of _ d]) simp
  next
    case True
    define m where "m = next_code (map key cps) n"
    have m: "m \<in> set cps" "n \<le> m" "\<forall>c \<in> set cps. n \<le> c \<longrightarrow> m \<le> c"
      using next_code_spec [OF less.prems(2,3) True] by (auto simp: m_def)
    have mr: "0x80 \<le> m" "m \<le> 0x10ffff" "scalar m" using less.prems(2,3) m by (auto simp: scalar_def)
    have part: "length (filter (\<lambda>c. c < n) cps) + length (filter (\<lambda>c. n \<le> c) cps) = length cps" 
      using sum_length_filter_compl [of "\<lambda>c. c < n" cps] by (simp add: not_less)
    have "filter (\<lambda>c. n \<le> c) cps \<noteq> []" using True by (auto simp: filter_empty_conv)
    then have more: "?h < int (length cps)" using h part by (cases "filter (\<lambda>c. n \<le> c) cps") auto
    have same: "filter (\<lambda>c. c < m) cps = filter (\<lambda>c. c < n) cps" using m by (intro filter_cong) auto
    define e1 where "e1 = e\<lparr>en_delta := en_delta e + (m - n) * (?h + 1)\<rparr>"
    have delta: "en_delta e1 = (m - dc_n d) * (?h + 1) + place m [] - dc_i d"
    proof -
      have "en_delta e = (n - dc_n d) * (?h + 1) + place n [] - dc_i d" using st by blast
      then show ?thesis by (simp add: e1_def place_def algebra_simps)
    qed
    have in1: "in_step bl m [] cps e1 d"
    proof -
      have "encoded m [] cps = encoded n [] cps" using same by (simp add: encoded_def)
      moreover have "dc_n d = m \<Longrightarrow> dc_i d \<le> place m []" using st m(2) by (auto simp: place_def)
      ultimately show ?thesis using st delta m(2) unfolding in_step_def by (auto simp: e1_def)
    qed
    have guard: "\<not> m - n > (0x7fffffff - MAX_CP_COUNT - en_delta e) div (?h + 1)"
    proof -
      have "en_delta e1 \<le> 0xfffffff"
        unfolding delta by (rule delta_bound) (use st mr m(2) more less.prems(4) in \<open>auto simp: place_def\<close>)
      then have "(m - n) * (?h + 1) \<le> 0x7fffffff - MAX_CP_COUNT - en_delta e" by (simp add: e1_def puny_params)
      then have "(m - n) * (?h + 1) div (?h + 1) \<le> (0x7fffffff - MAX_CP_COUNT - en_delta e) div (?h + 1)"
        using st by (intro zdiv_mono1) auto
      then show ?thesis using st by simp
    qed
    define e2 where "e2 = fold (encode_step bl m) (map key cps) e1"
    obtain us d2 where u: "\<And>out. fold (encode_step bl m) (map key cps) (e1\<lparr>en_out := out\<rparr>) = e2\<lparr>en_out := emits (map small us) out\<rparr>" "\<forall>u \<in> set us. 0 \<le> u \<and> u < 36"
      "\<And>rest. decode_loop False (map small us @ rest) d = decode_loop False rest d2" "in_step bl m cps [] e2 d2"
      "length (dc_dest d2) = length (dc_dest d)"
      using encode_fold_in_step [OF in1 less.prems(2) mr(1,2)] less.prems(4) by (auto simp: e2_def)
    define e3 where "e3 = e2\<lparr>en_delta := en_delta e2 + 1\<rparr>"
    have in3: "in_step bl (m + 1) [] cps e3 d2"
    proof -
      note t = u(4) [unfolded in_step_def]
      have eq: "encoded (m + 1) [] cps = encoded m cps []" unfolding encoded_def by (simp add: zless_add1_eq le_less)
      have pl: "place m cps = en_handled e2" using t by (simp add: place_def encoded_def)
      have "en_delta e3 = (m + 1 - dc_n d2) * (en_handled e3 + 1) + place (m + 1) [] - dc_i d2"
      proof -
        have "en_delta e2 = (m - dc_n d2) * (en_handled e2 + 1) + en_handled e2 - dc_i d2" using t pl by simp
        then show ?thesis by (simp add: e3_def place_def algebra_simps)
      qed
      then show ?thesis using t eq unfolding in_step_def by (auto simp: e3_def)
    qed
    have loop: "encode_loop (map key cps) bl n (e\<lparr>en_out := out\<rparr>) = encode_loop (map key cps) bl (m + 1) (e3\<lparr>en_out := emits (map small us) out\<rparr>)" for out
    proof -
      have "e\<lparr>en_out := out, en_delta := en_delta e + (m - n) * (?h + 1)\<rparr> = e1\<lparr>en_out := out\<rparr>" by (simp add: e1_def)
      moreover have "e2\<lparr>en_out := emits (map small us) out, en_delta := en_delta e2 + 1\<rparr> = e3\<lparr>en_out := emits (map small us) out\<rparr>" by (simp add: e3_def)
      ultimately show ?thesis
        by (subst encode_loop.simps) (use more guard in \<open>simp add: Let_def m_def [symmetric] u(1)\<close>)
    qed
    have smaller: "length (filter (\<lambda>c. m + 1 \<le> c) cps) < length (filter (\<lambda>c. n \<le> c) cps)"
    proof -
      have "filter (\<lambda>c. m + 1 \<le> c) (filter (\<lambda>c. n \<le> c) cps) = filter (\<lambda>c. m + 1 \<le> c) cps" using m(2) by (auto intro: filter_cong)
      moreover have "length (filter (\<lambda>c. m + 1 \<le> c) (filter (\<lambda>c. n \<le> c) cps)) < length (filter (\<lambda>c. n \<le> c) cps)"
        by (rule length_filter_less [of m]) (use m in auto)
      ultimately show ?thesis by simp
    qed
    obtain vs d' where v: "\<And>out. encode_loop (map key cps) bl (m + 1) (e3\<lparr>en_out := out\<rparr>) = Some (Inr (emits (map small vs) out))"
      "\<forall>u \<in> set vs. 0 \<le> u \<and> u < 36" "decode_loop False (map small vs) d2 = Inr d'" "holds d' cps" "length (dc_dest d') = length (dc_dest d2)"
      using less.hyps [OF smaller in3 less.prems(2) _ less.prems(4)] mr by auto
    show ?thesis using loop v u by (intro exI [of _ "us @ vs"] exI [of _ d']) auto
  qed
qed

section \<open>The first pass, and reading the basic code points back\<close>

abbreviation basics :: "int list \<Rightarrow> int list" where
  "basics cps \<equiv> filter (\<lambda>c. c < 0x80) cps"

lemma read_loop_utf16:
  assumes "\<forall>c \<in> set cps. scalar c" "int (length buf + length cps) \<le> MAX_CP_COUNT"
  shows "read_loop False None j (utf16 cps) buf out = Some (Inr (buf @ map key cps, emits (basics cps) out))"
  using assms
proof (induction cps arbitrary: j buf out)
  case (Cons c cps)
  have room: "int (length buf) \<noteq> MAX_CP_COUNT" using Cons.prems(2) by simp
  have c: "scalar c" using Cons.prems(1) by simp
  note ih = Cons.IH [of "buf @ [key c]"]
  consider "c < 0x80" | "0x80 \<le> c" "c \<le> 0xffff" | "0xffff < c" by linarith
  then show ?case
  proof cases
    case 1
    then show ?thesis using ih [of "Suc j" "emit c out"] room Cons.prems by (simp add: cp_units_def IS_BASIC_def basic_unit_def key_def)
  next
    case 2
    then show ?thesis using ih [of "Suc j" out] room c Cons.prems
      by (simp add: cp_units_def IS_BASIC_def key_def scalar_def flag_at_def with_flag_def)
  next
    case 3
    have u: "is_lead (U16_LEAD c)" "is_trail (U16_TRAIL c)" "get_supplementary (U16_LEAD c) (U16_TRAIL c) = c"
      using supplementary_units [of c] 3 c by (auto simp: scalar_def)
    moreover have "\<not> IS_BASIC (U16_LEAD c)" "is_surrogate (U16_LEAD c)" using u(1) by (auto simp: IS_BASIC_def is_lead_def is_surrogate_def)
    ultimately show ?thesis using 3 ih [of "Suc (Suc j)" out] room Cons.prems
      by (simp add: cp_units_def key_def flag_at_def with_flag_def)
  qed
qed simp

lemma delimiter_loop_append: "j \<le> length ys \<Longrightarrow> delimiter_loop (ys @ xs) j = delimiter_loop ys j"
  by (induction j) (auto simp: nth_append)

lemma delimiter_loop_last: "DELIMITER \<notin> set us \<Longrightarrow> delimiter_loop (bs @ DELIMITER # us) (length (bs @ DELIMITER # us)) = length bs"
proof (induction us rule: rev_induct)
  case (snoc u us)
  define ys where "ys = bs @ DELIMITER # us"
  have "delimiter_loop (ys @ [u]) (Suc (length ys)) = delimiter_loop (ys @ [u]) (length ys)" using snoc.prems by simp
  also have "\<dots> = length bs" using snoc delimiter_loop_append [of "length ys" ys "[u]"] by (simp add: ys_def)
  finally show ?case by (simp add: ys_def)
qed simp

lemma delimiter_loop_none: "DELIMITER \<notin> set us \<Longrightarrow> j \<le> length us \<Longrightarrow> delimiter_loop us j = 0"
  by (induction j) (auto simp: in_set_conv_nth)

lemma copy_loop_basics:
  "\<forall>i < j. IS_BASIC (src ! i) \<Longrightarrow> j \<le> length d \<Longrightarrow> j \<le> length src \<Longrightarrow>
     \<exists>d'. copy_loop src j (d, None) = Inr (d', None) \<and> length d' = length d \<and> take j d' = take j src \<and> drop j d' = drop j d"
proof (induction j arbitrary: d)
  case (Suc j)
  then obtain d' where d': "copy_loop src j (d[j := src ! j], None) = Inr (d', None)" "length d' = length d" "take j d' = take j src"
    "drop j d' = drop j (d[j := src ! j])"
    using Suc.IH [of "d[j := src ! j]"] by auto
  have "d' ! j = src ! j" using arg_cong [OF d'(4), of hd] Suc.prems d'(2) by (simp add: hd_drop_conv_nth)
  then have "take (Suc j) d' = take (Suc j) src" using d'(2,3) Suc.prems by (simp add: take_Suc_conv_app_nth)
  moreover have "drop (Suc j) d' = drop (Suc j) d" using arg_cong [OF d'(4), of tl] by (simp add: tl_drop drop_Suc [symmetric] flip: drop_Suc)
  ultimately show ?case using d' Suc.prems by simp
qed simp

section \<open>The round trip\<close>

lemma terminate_ok:
  assumes "0 \<le> n" "n \<le> int (length d)" "u_terminateUChars d n U_ZERO_ERROR = (d', ec)"
  shows "\<not> U_FAILURE ec" "take (nat n) d' = take (nat n) d" "length d' = length d"
  using assms by (auto simp: u_terminateUChars_def split: if_splits)

lemma terminate_overflow: "int (length d) < n \<Longrightarrow> u_terminateUChars d n U_ZERO_ERROR = (d, U_BUFFER_OVERFLOW_ERROR)"
  by (simp add: u_terminateUChars_def)

text \<open>The decoder before the main loop, with the basic code points copied.\<close>

lemma holds_basics:
  assumes "\<forall>c \<in> set bs. scalar c \<and> c < 0x80" "length bs \<le> length p" "take (length bs) p = bs"
  shows "holds \<lparr>dc_dest = p, dc_flags = None, dc_destLength = int (length bs), dc_cpCount = int (length bs),
      dc_firstSupplementaryIndex = 1000000000, dc_n = INITIAL_N, dc_i = 0, dc_bias = INITIAL_BIAS\<rparr> bs"
proof -
  have "utf16 bs = bs" by (rule utf16_bmp) (use assms(1) in auto)
  moreover have "bs ! j \<le> 0xffff" if "j < length bs" for j using assms(1) nth_mem [OF that] by force
  ultimately show ?thesis using assms by (simp add: holds_def)
qed

text \<open>The encoding of a string as a function: the basic code points, the delimiter and the digits.\<close>

definition start_enc :: "int list \<Rightarrow> sink \<Rightarrow> enc" where
  "start_enc cps out = \<lparr>en_delta = 0, en_bias = INITIAL_BIAS, en_handled = int (length (basics cps)), en_out = out\<rparr>"

definition start_dec :: "int list \<Rightarrow> int list \<Rightarrow> dec" where
  "start_dec cps p = \<lparr>dc_dest = p, dc_flags = None, dc_destLength = int (length (basics cps)), dc_cpCount = int (length (basics cps)),
     dc_firstSupplementaryIndex = 1000000000, dc_n = INITIAL_N, dc_i = 0, dc_bias = INITIAL_BIAS\<rparr>"

lemma basics_length: "length (basics cps) \<le> length (utf16 cps)"
  by (induction cps) (auto simp: cp_units_def)

lemma start_in_step:
  assumes "\<forall>c \<in> set cps. scalar c" "length (utf16 cps) \<le> length p" "take (length (basics cps)) p = basics cps"
  shows "in_step (int (length (basics cps))) INITIAL_N [] cps (start_enc cps out) (start_dec cps p)"
proof -
  have "holds (start_dec cps p) (basics cps)"
    unfolding start_dec_def using assms basics_length [of cps] by (intro holds_basics) auto
  then show ?thesis using assms by (simp add: in_step_def encoded_def place_def start_enc_def start_dec_def puny_params)
qed

lemma small_inject: "\<forall>u \<in> set us. 0 \<le> u \<and> u < 36 \<Longrightarrow> \<forall>u \<in> set vs. 0 \<le> u \<and> u < 36 \<Longrightarrow> map small us = map small vs \<Longrightarrow> us = vs"
proof (induction us arbitrary: vs)
  case (Cons u us)
  from Cons.prems(3) obtain v vs' where v: "vs = v # vs'" "small u = small v" "map small us = map small vs'" by (cases vs) auto
  have "u = v" using small_digit [of u] small_digit [of v] Cons.prems(1,2) v by (metis list.set_intros(1))
  moreover have "us = vs'" using Cons.IH [of vs'] Cons.prems(1,2) v by simp
  ultimately show ?case using v(1) by simp
qed simp

lemma emits_inject: "(\<And>out. emits xs out = emits ys out) \<Longrightarrow> xs = ys"
proof -
  assume eq: "\<And>out. emits xs out = emits ys out"
  have len: "length xs = length ys" using arg_cong [OF eq [of "([], 0)"], of snd] by simp
  let ?R = "replicate (length ys) 0"
  have c: "take (length zs) (fst (emits zs (?R, 0))) = zs" if "length zs = length ys" for zs
    using emits_content [of 0 zs ?R] that by simp
  have "xs = take (length xs) (fst (emits xs (?R, 0)))" by (rule c [OF len, symmetric])
  also have "\<dots> = take (length ys) (fst (emits ys (?R, 0)))" unfolding eq len ..
  also have "\<dots> = ys" by (rule c) simp
  finally show ?thesis .
qed

text \<open>The digits of an encoding depend on the string only.\<close>

lemma punycode_of:
  assumes s: "\<forall>c \<in> set cps. scalar c" and len: "int (length cps) \<le> MAX_CP_COUNT"
  obtains us where "\<forall>u \<in> set us. 0 \<le> u \<and> u < 36"
    "\<And>out. encode_loop (map key cps) (int (length (basics cps))) INITIAL_N (start_enc cps out) = Some (Inr (emits (map small us) out))"
    "\<And>p. length (utf16 cps) \<le> length p \<Longrightarrow> take (length (basics cps)) p = basics cps \<Longrightarrow>
       \<exists>d'. decode_loop False (map small us) (start_dec cps p) = Inr d' \<and> holds d' cps \<and> length (dc_dest d') = length p"
proof -
  let ?bl = "int (length (basics cps))"
  have out: "(start_enc cps o1)\<lparr>en_out := o2\<rparr> = start_enc cps o2" for o1 o2 by (simp add: start_enc_def)
  have n: "0x80 \<le> INITIAL_N" "length cps \<le> 200" using len by (simp_all add: puny_params)
  have each: "\<exists>us d'. (\<forall>out. encode_loop (map key cps) ?bl INITIAL_N (start_enc cps out) = Some (Inr (emits (map small us) out))) \<and>
      (\<forall>u \<in> set us. 0 \<le> u \<and> u < 36) \<and> decode_loop False (map small us) (start_dec cps p) = Inr d' \<and> holds d' cps \<and> length (dc_dest d') = length p"
    if "length (utf16 cps) \<le> length p" "take (length (basics cps)) p = basics cps" for p
    using encode_loop_in_step [OF start_in_step [OF s that, of "([], 0)"] s n, unfolded out] by (simp add: start_dec_def)
  let ?p = "basics cps @ replicate (length (utf16 cps)) 0"
  obtain us where us: "\<And>out. encode_loop (map key cps) ?bl INITIAL_N (start_enc cps out) = Some (Inr (emits (map small us) out))"
    "\<forall>u \<in> set us. 0 \<le> u \<and> u < 36"
    using each [of ?p] by auto
  show thesis
  proof (rule that [OF us(2,1)])
    fix p :: "int list" assume p: "length (utf16 cps) \<le> length p" "take (length (basics cps)) p = basics cps"
    obtain vs d' where v: "\<And>out. encode_loop (map key cps) ?bl INITIAL_N (start_enc cps out) = Some (Inr (emits (map small vs) out))"
      "\<forall>u \<in> set vs. 0 \<le> u \<and> u < 36" "decode_loop False (map small vs) (start_dec cps p) = Inr d'" "holds d' cps" "length (dc_dest d') = length p"
      using each [OF p] by blast
    have "map small us = map small vs" by (rule emits_inject) (use us(1) v(1) in simp)
    then have "us = vs" using small_inject us(2) v(2) by blast
    then show "\<exists>d'. decode_loop False (map small us) (start_dec cps p) = Inr d' \<and> holds d' cps \<and> length (dc_dest d') = length p"
      using v by blast
  qed
qed

lemma encode_result:
  assumes s: "\<forall>c \<in> set cps. scalar c" and len: "int (length cps) \<le> MAX_CP_COUNT"
    and us: "\<And>out. encode_loop (map key cps) (int (length (basics cps))) INITIAL_N (start_enc cps out) = Some (Inr (emits (map small us) out))"
    and p: "p = (if basics cps = [] then [] else basics cps @ [DELIMITER]) @ map small us"
  shows "\<exists>dest' ec. u_strToPunycode (Some (utf16 cps)) (int (length (utf16 cps))) False dest (int (length dest)) None U_ZERO_ERROR =
      Some (dest', int (length p), ec) \<and>
    (if length p \<le> length dest then \<not> U_FAILURE ec \<and> take (length p) dest' = p else ec = U_BUFFER_OVERFLOW_ERROR)"
proof -
  have read: "read_loop False None 0 (utf16 cps) [] (dest, 0) = Some (Inr (map key cps, emits (basics cps) (dest, 0)))"
    using read_loop_utf16 [OF s, of "[]" 0 "(dest, 0)"] len by simp
  obtain d' ec where t: "u_terminateUChars (fst (emits p (dest, 0))) (int (length p)) U_ZERO_ERROR = (d', ec)"
    by (cases "u_terminateUChars (fst (emits p (dest, 0))) (int (length p)) U_ZERO_ERROR")
  have pair: "emits p (dest, 0) = (fst (emits p (dest, 0)), int (length p))" by (rule prod_eqI) simp_all
  have "u_strToPunycode (Some (utf16 cps)) (int (length (utf16 cps))) False dest (int (length dest)) None U_ZERO_ERROR =
      Some (d', int (length p), ec)"
  proof -
    have loop: "encode_loop (map key cps) (int (length (basics cps))) INITIAL_N
        \<lparr>en_delta = 0, en_bias = INITIAL_BIAS, en_handled = int (length (basics cps)),
         en_out = emits (if basics cps = [] then [] else basics cps @ [DELIMITER]) (dest, 0)\<rparr> =
        Some (Inr (fst (emits p (dest, 0)), int (length p)))"
      using us [of "emits (if basics cps = [] then [] else basics cps @ [DELIMITER]) (dest, 0)"] pair
      unfolding start_enc_def p by simp
    show ?thesis unfolding u_strToPunycode_def Let_def using read loop t
      by (cases "basics cps = []") simp_all
  qed
  moreover have "if length p \<le> length dest then \<not> U_FAILURE ec \<and> take (length p) d' = p else ec = U_BUFFER_OVERFLOW_ERROR"
  proof (cases "length p \<le> length dest")
    case True
    then have "take (length p) (fst (emits p (dest, 0))) = p" using emits_content [of 0 p dest] by simp
    then show ?thesis using terminate_ok [OF _ _ t] True by simp
  next
    case False
    then show ?thesis using terminate_overflow [of "fst (emits p (dest, 0))" "int (length p)"] t by simp
  qed
  ultimately show ?thesis by blast
qed

lemma decode_result:
  assumes s: "\<forall>c \<in> set cps. scalar c" and us: "\<forall>u \<in> set us. 0 \<le> u \<and> u < 36"
    and dec: "\<And>p. length (utf16 cps) \<le> length p \<Longrightarrow> take (length (basics cps)) p = basics cps \<Longrightarrow>
       \<exists>d'. decode_loop False (map small us) (start_dec cps p) = Inr d' \<and> holds d' cps \<and> length (dc_dest d') = length p"
    and p: "p = (if basics cps = [] then [] else basics cps @ [DELIMITER]) @ map small us"
    and room: "length (utf16 cps) \<le> length dest"
  shows "\<exists>dest' ec. u_strFromPunycode (Some p) (int (length p)) False dest (int (length dest)) None U_ZERO_ERROR =
      ((dest', None), int (length (utf16 cps)), ec) \<and> \<not> U_FAILURE ec \<and> take (length (utf16 cps)) dest' = utf16 cps"
proof -
  let ?bl = "length (basics cps)"
  have "small u \<noteq> DELIMITER" if "u \<in> set us" for u using us small_digit that by blast
  then have nodel: "DELIMITER \<notin> set (map small us)" by (auto simp: eq_commute)
  have del: "delimiter_loop p (length p) = ?bl"
  proof (cases "basics cps = []")
    case True
    then show ?thesis using delimiter_loop_none [OF nodel, of "length us"] by (simp add: p)
  next
    case False
    then have "p = basics cps @ DELIMITER # map small us" by (simp add: p)
    then show ?thesis using delimiter_loop_last [OF nodel, of "basics cps"] by simp
  qed
  have prefix: "take ?bl p = basics cps" "?bl \<le> length p" by (auto simp: p)
  have basic: "\<forall>i < ?bl. IS_BASIC (p ! i)"
  proof (intro allI impI)
    fix i assume "i < ?bl"
    then have "p ! i = basics cps ! i" "basics cps ! i \<in> set (basics cps)" using prefix nth_take [of i ?bl p] nth_mem [of i "basics cps"] by auto
    then show "IS_BASIC (p ! i)" by (simp add: IS_BASIC_def)
  qed
  obtain q where q: "copy_loop p ?bl (dest, None) = Inr (q, None)" "length q = length dest" "take ?bl q = basics cps"
    using copy_loop_basics [OF basic, of dest] basics_length [of cps] room prefix by auto
  obtain d' where d': "decode_loop False (map small us) (start_dec cps q) = Inr d'" "holds d' cps" "length (dc_dest d') = length q"
    using dec [of q] q room by auto
  have rest: "(if 0 < ?bl then drop (?bl + 1) p else p) = map small us" by (auto simp: p)
  have fl: "dc_flags d' = None" "dc_destLength d' = int (length (utf16 cps))" "take (length (utf16 cps)) (dc_dest d') = utf16 cps"
    using d'(2) by (auto simp: holds_def)
  obtain r ec where t: "u_terminateUChars (dc_dest d') (int (length (utf16 cps))) U_ZERO_ERROR = (r, ec)"
    by (cases "u_terminateUChars (dc_dest d') (int (length (utf16 cps))) U_ZERO_ERROR")
  have "u_strFromPunycode (Some p) (int (length p)) False dest (int (length dest)) None U_ZERO_ERROR = ((r, None), int (length (utf16 cps)), ec)"
    unfolding u_strFromPunycode_def Let_def using d'(1) [unfolded start_dec_def] rest q(1) del t fl
    by (cases "basics cps = []") simp_all
  moreover have "\<not> U_FAILURE ec" "take (length (utf16 cps)) r = utf16 cps"
    using terminate_ok [OF _ _ t] fl(3) d'(3) q(2) room by auto
  ultimately show ?thesis by blast
qed

text \<open>
  C15. Round trip. A string of at most 200 Unicode scalar values has a Punycode form of ASCII units: the encoder
  returns its length and, where it fits, stores it; where it does not fit, it reports a buffer overflow and
  nothing else, whatever the destination. The decoder given that form returns the string. No other error
  occurs: in particular the overflow tests of both functions do not fire.
\<close>

theorem punycode_roundtrip:
  assumes "\<forall>c \<in> set cps. scalar c" "int (length cps) \<le> MAX_CP_COUNT"
  shows "\<exists>p. list_all IS_BASIC p \<and>
    (\<forall>dest. \<exists>dest' ec.
       u_strToPunycode (Some (utf16 cps)) (int (length (utf16 cps))) False dest (int (length dest)) None U_ZERO_ERROR =
         Some (dest', int (length p), ec) \<and>
       (if length p \<le> length dest then \<not> U_FAILURE ec \<and> take (length p) dest' = p else ec = U_BUFFER_OVERFLOW_ERROR)) \<and>
    (\<forall>dest. length (utf16 cps) \<le> length dest \<longrightarrow>
       (\<exists>dest' ec. u_strFromPunycode (Some p) (int (length p)) False dest (int (length dest)) None U_ZERO_ERROR =
          ((dest', None), int (length (utf16 cps)), ec) \<and> \<not> U_FAILURE ec \<and> take (length (utf16 cps)) dest' = utf16 cps))"
proof -
  obtain us where us: "\<forall>u \<in> set us. 0 \<le> u \<and> u < 36"
    "\<And>out. encode_loop (map key cps) (int (length (basics cps))) INITIAL_N (start_enc cps out) = Some (Inr (emits (map small us) out))"
    "\<And>p. length (utf16 cps) \<le> length p \<Longrightarrow> take (length (basics cps)) p = basics cps \<Longrightarrow>
       \<exists>d'. decode_loop False (map small us) (start_dec cps p) = Inr d' \<and> holds d' cps \<and> length (dc_dest d') = length p"
    by (rule punycode_of [OF assms]) blast
  define p where "p = (if basics cps = [] then [] else basics cps @ [DELIMITER]) @ map small us"
  have "list_all IS_BASIC p" using us(1) small_digit by (auto simp: p_def list_all_iff IS_BASIC_def DELIMITER_def)
  then show ?thesis using encode_result [OF assms us(2) p_def] decode_result [OF assms(1) us(1,3) p_def] by blast
qed

theorem punycode_roundtrip_witness:
  "\<exists>p. list_all IS_BASIC p \<and>
    (\<forall>dest. length (utf16 [0x62, 0xfc, 0x1f600]) \<le> length dest \<longrightarrow>
       (\<exists>dest' ec. u_strFromPunycode (Some p) (int (length p)) False dest (int (length dest)) None U_ZERO_ERROR =
          ((dest', None), int (length (utf16 [0x62, 0xfc, 0x1f600])), ec) \<and> \<not> U_FAILURE ec \<and>
          take (length (utf16 [0x62, 0xfc, 0x1f600])) dest' = utf16 [0x62, 0xfc, 0x1f600]))"
proof -
  have "\<forall>c \<in> set [0x62, 0xfc, 0x1f600]. scalar c" by (simp add: scalar_def is_surrogate_def)
  moreover have "int (length [0x62, 0xfc, 0x1f600 :: int]) \<le> MAX_CP_COUNT" by (simp add: MAX_CP_COUNT_def)
  ultimately show ?thesis using punycode_roundtrip [of "[0x62, 0xfc, 0x1f600]"] by blast
qed

section \<open>Decoding arbitrary input\<close>

declare decode_loop.simps [code]

lemma decode_vli_grows: "decode_vli bias src i w k = Inr (j, rest, c) \<Longrightarrow> 0 < w \<Longrightarrow> i \<le> j"
proof (induction src arbitrary: i w k)
  case (Cons a src)
  let ?d = "basicToDigit (a mod 256)"
  have t: "0 < BASE - threshold bias k" using threshold_range [of bias k] by (simp add: BASE_def)
  have "0 \<le> ?d" using Cons.prems(1) by (auto simp: Let_def split: if_splits)
  then have d: "i \<le> i + ?d * w" using Cons.prems(2) by simp
  show ?case
  proof (cases "?d < threshold bias k")
    case True
    then show ?thesis using Cons.prems(1) d by (auto simp: Let_def split: if_splits)
  next
    case False
    then have "decode_vli bias src (i + ?d * w) (w * (BASE - threshold bias k)) (k + BASE) = Inr (j, rest, c)"
      using Cons.prems(1) by (auto simp: Let_def split: if_splits)
    moreover have "0 < w * (BASE - threshold bias k)" using Cons.prems(2) t by simp
    ultimately show ?thesis using Cons.IH d by fastforce
  qed
qed simp

text \<open>The decoder holds well-formed text, or has run out of room.\<close>

definition dec_ok :: "dec \<Rightarrow> bool" where
  "dec_ok d \<longleftrightarrow> (\<exists>out. holds d out \<and> 0 \<le> dc_n d \<and> 0 \<le> dc_i d \<and> dc_i d \<le> int (length out)) \<or>
     int (length (dc_dest d)) < dc_destLength d \<and> dc_flags d = None"

lemma decode_loop_ok: "dec_ok d \<Longrightarrow> decode_loop False src d = Inr d' \<Longrightarrow> dec_ok d' \<and> length (dc_dest d') = length (dc_dest d)"
proof (induction "length src" arbitrary: src d rule: less_induct)
  case less
  show ?case
  proof (cases "src = []")
    case True
    then show ?thesis using less.prems by (subst (asm) decode_loop.simps) simp
  next
    case False
    define cnt n where "cnt = dc_cpCount d + 1" and "n = (\<lambda>i. dc_n d + i div cnt)"
    define d2 where "d2 = (\<lambda>i. d\<lparr>dc_cpCount := cnt, dc_bias := adaptBias (i - dc_i d) cnt (dc_i d = 0), dc_n := n i, dc_i := i mod cnt\<rparr>)"
    define d3 where "d3 = (\<lambda>i c. if dc_destLength d + U16_LENGTH (n i) \<le> int (length (dc_dest d)) then insert_code_point c (d2 i) else d2 i)"
    obtain i rest c where v: "decode_vli (dc_bias d) src (dc_i d) 1 BASE = Inr (i, rest, c)"
      and nr: "n i \<le> 0x10ffff" "\<not> is_surrogate (n i)"
      and loop: "decode_loop False rest ((d3 i c)\<lparr>dc_destLength := dc_destLength (d3 i c) + U16_LENGTH (n i), dc_i := dc_i (d3 i c) + 1\<rparr>) = Inr d'"
      using less.prems(2) False
      by (subst (asm) decode_loop.simps) (auto simp: Let_def cnt_def n_def d2_def d3_def split: sum.splits if_splits)
    let ?d = "(d3 i c)\<lparr>dc_destLength := dc_destLength (d3 i c) + U16_LENGTH (n i), dc_i := dc_i (d3 i c) + 1\<rparr>"
    have pos: "0 < U16_LENGTH (n i)" by (simp add: U16_LENGTH_def)
    have "dec_ok ?d \<and> length (dc_dest ?d) = length (dc_dest d)"
    proof (cases "dc_destLength d + U16_LENGTH (n i) \<le> int (length (dc_dest d))")
      case fits: True
      then obtain out where h: "holds d out" "0 \<le> dc_n d" "0 \<le> dc_i d" "dc_i d \<le> int (length out)"
        using less.prems(1) pos by (auto simp: dec_ok_def)
      have cnt: "cnt = int (length out) + 1" using h(1) by (simp add: cnt_def holds_def)
      have i0: "0 \<le> i" using decode_vli_grows [OF v] h(3) by simp
      have im: "0 \<le> i mod cnt" "i mod cnt \<le> int (length out)" using cnt pos_mod_bound [of cnt i] by auto
      have sc: "scalar (n i)" using nr h(2) i0 cnt by (simp add: scalar_def n_def pos_imp_zdiv_nonneg_iff)
      define D where "D = d\<lparr>dc_bias := adaptBias (i - dc_i d) cnt (dc_i d = 0), dc_n := n i, dc_i := i mod cnt\<rparr>"
      have D: "holds D out" "dc_i D = i mod cnt" "dc_n D = n i" "dc_dest D = dc_dest d" "dc_destLength D = dc_destLength d" "dc_cpCount D = int (length out)"
        using h(1) by (simp_all add: D_def) (simp add: holds_def)
      have d2: "d2 i = D\<lparr>dc_cpCount := cnt\<rparr>" unfolding d2_def D_def by (rule dec.equality) simp_all
      define X where "X = insert_code_point c D"
      have "dc_destLength D + U16_LENGTH (dc_n D) \<le> int (length (dc_dest D))" using fits D by simp
      note ins = insert_holds [OF D(1) _ _ _ this X_def, unfolded D(2-6), OF im sc]
      have d3: "d3 i c = X\<lparr>dc_cpCount := cnt\<rparr>" unfolding d3_def using fits insert_cpCount [of c cnt D] by (simp add: d2 X_def)
      let ?out = "take (nat (i mod cnt)) out @ n i # drop (nat (i mod cnt)) out"
      have "holds ?d ?out" using ins(1) ins(5) by (simp add: d3 cnt holds_def)
      moreover have "0 \<le> dc_n ?d" "0 \<le> dc_i ?d" "dc_i ?d \<le> int (length ?out)" using ins(2,3) sc im by (auto simp: d3 scalar_def)
      ultimately show ?thesis using ins(7) unfolding dec_ok_def by (auto simp: d3)
    next
      case no: False
      then have "d3 i c = d2 i" by (simp add: d3_def)
      moreover have "dc_flags d = None" using less.prems(1) by (auto simp: dec_ok_def holds_def)
      ultimately show ?thesis using no by (simp add: dec_ok_def d2_def)
    qed
    then show ?thesis using less.hyps [OF decode_vli_shorter [OF v] _ loop] by simp
  qed
qed

lemma delimiter_loop_le: "delimiter_loop src j \<le> j"
  by (induction j) auto

lemma copy_loop_Inr: "copy_loop src j (d, None) = Inr out \<Longrightarrow> (\<forall>i < j. IS_BASIC (src ! i)) \<and> length (fst out) = length d \<and> snd out = None"
proof (induction j arbitrary: d)
  case (Suc j)
  have "copy_loop src j (if j < length d then (d[j := src ! j], None) else (d, None)) = Inr out" "IS_BASIC (src ! j)"
    using Suc.prems by (auto split: if_splits)
  then show ?case using Suc.IH [of "d[j := src ! j]"] Suc.IH [of d] by (auto simp: less_Suc_eq split: if_splits)
qed auto

lemma copy_loop_Inl: "copy_loop src j out = Inl (err, out') \<Longrightarrow> err = U_INVALID_CHAR_FOUND"
  by (induction j arbitrary: out) (auto split: if_splits)

lemma decode_vli_fails: "decode_vli bias src i w k = Inl err \<Longrightarrow> U_FAILURE err"
  by (induction src arbitrary: i w k) (auto simp: Let_def split: if_splits)

lemma decode_loop_fails: "decode_loop b src d = Inl (err, d') \<Longrightarrow> U_FAILURE err"
proof (induction b src d rule: decode_loop.induct)
  case (1 b src d)
  then show ?case by (subst (asm) (2) decode_loop.simps) (auto simp: Let_def dest: decode_vli_fails split: if_splits sum.splits)
qed

text \<open>
  C16. Whatever units the decoder is given, if it reports success the result fits into the destination and is
  well-formed UTF-16: the units of a list of scalar values, never an unpaired surrogate.
\<close>

theorem punycode_decoder_wellformed:
  assumes "\<forall>u \<in> set src. 0 \<le> u" "u_strFromPunycode (Some src) (int (length src)) False dest (int (length dest)) None U_ZERO_ERROR = ((dest', fl), n, ec)"
    and "\<not> U_FAILURE ec"
  shows "\<exists>cps. (\<forall>c \<in> set cps. scalar c) \<and> n = int (length (utf16 cps)) \<and> length (utf16 cps) \<le> length dest \<and> length dest' = length dest \<and>
    take (length (utf16 cps)) dest' = utf16 cps"
proof -
  define bl where "bl = delimiter_loop src (length src)"
  have bl: "bl \<le> length src" unfolding bl_def by (rule delimiter_loop_le)
  define start where "start = (\<lambda>p. \<lparr>dc_dest = p, dc_flags = None, dc_destLength = int bl, dc_cpCount = int bl,
     dc_firstSupplementaryIndex = 1000000000, dc_n = INITIAL_N, dc_i = 0, dc_bias = INITIAL_BIAS\<rparr>)"
  obtain out where copy: "copy_loop src bl (dest, None) = Inr out"
    using assms(2,3) by (cases "copy_loop src bl (dest, None)") (auto simp: u_strFromPunycode_def Let_def bl_def dest: copy_loop_Inl)
  obtain p where p: "out = (p, None)" "length p = length dest" "\<forall>i < bl. IS_BASIC (src ! i)"
    using copy_loop_Inr [of src bl dest out] copy by (cases out) auto
  have bl_eq: "delimiter_loop src (length src) = bl" by (simp add: bl_def)
  have run: "(case decode_loop False (if 0 < bl then drop (bl + 1) src else src) (start p) of
      Inl (err, d) \<Rightarrow> ((dc_dest d, dc_flags d), 0, err)
    | Inr d \<Rightarrow> (case u_terminateUChars (dc_dest d) (dc_destLength d) U_ZERO_ERROR of
        (dest', ec') \<Rightarrow> ((dest', dc_flags d), dc_destLength d, ec'))) = ((dest', fl), n, ec)"
    using assms(2) copy p(1) unfolding start_def by (cases "0 < bl") (simp_all add: u_strFromPunycode_def Let_def bl_eq)
  obtain d where d: "decode_loop False (if 0 < bl then drop (bl + 1) src else src) (start p) = Inr d"
  proof (cases "decode_loop False (if 0 < bl then drop (bl + 1) src else src) (start p)")
    case (Inl e)
    then show ?thesis using run assms(3) decode_loop_fails by (cases e) auto
  qed
  then have d: "decode_loop False (if 0 < bl then drop (bl + 1) src else src) (start p) = Inr d"
    "u_terminateUChars (dc_dest d) (dc_destLength d) U_ZERO_ERROR = (dest', ec)" "n = dc_destLength d"
    using run by (auto split: prod.splits)
  have "dec_ok (start p)"
  proof (cases "bl \<le> length dest")
    case True
    have t: "take bl p = take bl src"
      using copy_loop_basics [of bl src dest] p copy True bl by auto
    have u: "u \<in> set (take bl src) \<Longrightarrow> scalar u \<and> u < 0x80" for u
    proof -
      assume "u \<in> set (take bl src)"
      then obtain i where "i < bl" "i < length src" "u = src ! i" by (auto simp: in_set_conv_nth)
      then have "u < 0x80" "0 \<le> u" using p(3) assms(1) by (auto simp: IS_BASIC_def)
      then show "scalar u \<and> u < 0x80" by (simp add: scalar_def is_surrogate_def)
    qed
    have "holds (start p) (take bl src)"
      using holds_basics [of "take bl src" p] u t p(2) True bl by (simp add: start_def min_absorb2)
    then show ?thesis unfolding dec_ok_def by (auto simp: start_def puny_params)
  next
    case False
    then show ?thesis using p(2) by (simp add: dec_ok_def start_def)
  qed
  then have ok: "dec_ok d" "length (dc_dest d) = length dest" using decode_loop_ok [OF _ d(1)] p(2) by (auto simp: start_def)
  have "\<not> int (length (dc_dest d)) < dc_destLength d" using d(2) assms(3) terminate_overflow by auto
  then obtain cps where h: "holds d cps" using ok(1) by (auto simp: dec_ok_def)
  then show ?thesis using terminate_ok [OF _ _ d(2)] d(3) ok(2) by (intro exI [of _ cps]) (auto simp: holds_def)
qed

theorem punycode_decoder_wellformed_witness:
  "\<exists>cps. (\<forall>c \<in> set cps. scalar c) \<and> (2 :: int) = int (length (utf16 cps)) \<and> length (utf16 cps) \<le> length [9, 9, 9 :: int] \<and>
    length [0x62, 0xfc, 0 :: int] = length [9, 9, 9 :: int] \<and> take (length (utf16 cps)) [0x62, 0xfc, 0] = utf16 cps"
proof (rule punycode_decoder_wellformed)
  show "u_strFromPunycode (Some [0x62, 0x2d, 0x65, 0x68, 0x61]) (int (length [0x62, 0x2d, 0x65, 0x68, 0x61 :: int])) False [9, 9, 9] (int (length [9, 9, 9 :: int]))
    None U_ZERO_ERROR = (([0x62, 0xfc, 0], None), 2, U_ZERO_ERROR)" by code_simp
qed simp_all

text \<open>
  The decoder reads a unit of the digits by its low byte: \<open>b-\<close> followed by the units 0x165, 0x168, 0x161, whose low
  bytes spell \<open>eha\<close>, is decoded like \<open>b-eha\<close>, though it is no Punycode.
\<close>

lemma decoder_takes_low_bytes:
  "u_strFromPunycode (Some [0x62, 0x2d, 0x165, 0x168, 0x161]) 5 False [9, 9, 9] 3 None U_ZERO_ERROR =
   u_strFromPunycode (Some [0x62, 0x2d, 0x65, 0x68, 0x61]) 5 False [9, 9, 9] 3 None U_ZERO_ERROR \<and>
   u_strFromPunycode (Some [0x62, 0x2d, 0x165, 0x168, 0x161]) 5 False [9, 9, 9] 3 None U_ZERO_ERROR = (([0x62, 0xfc, 0], None), 2, U_ZERO_ERROR)"
  by code_simp

end
