(* ===== verification/ArraySort.thy ===== *)
theory ArraySort
  imports PtrVector
begin

text \<open>
  Sorting of arrays of items, \<^verbatim>\<open>common/uarrsort.c\<close>, and the sorting methods of \<^verbatim>\<open>UVector\<close> that call
  it. The array is the list of its items and an index into it a natural number; the comparator is a parameter,
  with what its documentation promises as the locale \<open>item_order\<close>. The parts of the code whose
  reads are only safe because of that promise (the scans of the partition) return \<open>None\<close> when
  they leave the array.

  Shown here: the binary search finds the last equal item or the place of insertion; insertion
  sort is a stable sort; quicksort stays inside the array, ends, sorts, and nests its calls at
  most logarithmically deep.
\<close>

section \<open>Comparators\<close>

type_synonym 'a comparator_fun = "'a \<Rightarrow> 'a \<Rightarrow> int"

definition uprv_uint16Comparator :: "int comparator_fun" where
  "uprv_uint16Comparator left right = left - right"

text \<open>The difference of two \<^verbatim>\<open>int32_t\<close>, on machines whose arithmetic wraps around.\<close>

definition wrap_int32 :: "int \<Rightarrow> int" where
  "wrap_int32 x = (x + 0x80000000) mod 0x100000000 - 0x80000000"

definition uprv_int32Comparator :: "int comparator_fun" where
  "uprv_int32Comparator left right = wrap_int32 (left - right)"

definition uprv_uint32Comparator :: "int comparator_fun" where
  "uprv_uint32Comparator l r = (if l < r then -1 else if l = r then 0 else 1)"

definition sortiComparator :: "int comparator_fun" where
  "sortiComparator e1 e2 = (if e1 < e2 then -1 else if e1 = e2 then 0 else 1)"

section \<open>Insertion sort using binary search\<close>

definition MIN_QSORT :: nat where
  "MIN_QSORT = 9"

definition STACK_ITEM_SIZE :: int where
  "STACK_ITEM_SIZE = 200"

text \<open>\<open>at\<close> reads the item at an index of the array that is searched.\<close>

function search_binary :: "'a comparator_fun \<Rightarrow> (nat \<Rightarrow> 'a) \<Rightarrow> 'a \<Rightarrow> nat \<Rightarrow> nat \<Rightarrow> bool \<Rightarrow> nat \<times> nat \<times> bool" where
  "search_binary cmp at item start limit found =
     (if limit - start \<ge> MIN_QSORT then
        let i = (start + limit) div 2; diff = cmp item (at i) in
        if diff = 0 then search_binary cmp at item (i + 1) limit True
        else if diff < 0 then search_binary cmp at item start i found
        else search_binary cmp at item i limit found
      else (start, limit, found))"
  by auto
termination by (relation "measure (\<lambda>(cmp, at, item, start, limit, found). limit - start)") (auto simp: MIN_QSORT_def)

function search_linear :: "'a comparator_fun \<Rightarrow> (nat \<Rightarrow> 'a) \<Rightarrow> 'a \<Rightarrow> nat \<Rightarrow> nat \<Rightarrow> bool \<Rightarrow> nat \<times> bool" where
  "search_linear cmp at item start limit found =
     (if start < limit then
        let diff = cmp item (at start) in
        if diff = 0 then search_linear cmp at item (start + 1) limit True
        else if diff < 0 then (start, found)
        else search_linear cmp at item (start + 1) limit found
      else (start, found))"
  by auto
termination by (relation "measure (\<lambda>(cmp, at, item, start, limit, found). limit - start)") auto

declare search_binary.simps [simp del] search_linear.simps [simp del]

definition uprv_stableBinarySearch :: "'a comparator_fun \<Rightarrow> (nat \<Rightarrow> 'a) \<Rightarrow> nat \<Rightarrow> 'a \<Rightarrow> int" where
  "uprv_stableBinarySearch cmp at limit item =
     (case search_binary cmp at item 0 limit False of
        (start, limit', found) \<Rightarrow>
          (case search_linear cmp at item start limit' found of
             (start', found') \<Rightarrow> if found' then int start' - 1 else - int start' - 1))"

text \<open>The sub-array starts at the index \<open>base\<close>.\<close>

definition insertion_step :: "'a comparator_fun \<Rightarrow> nat \<Rightarrow> nat \<Rightarrow> 'a list \<Rightarrow> 'a list" where
  "insertion_step cmp base j array =
     (let item = array ! (base + j);
          found = uprv_stableBinarySearch cmp (\<lambda>i. array ! (base + i)) j item;
          insertionPoint = nat (if found < 0 then - found - 1 else found + 1)
      in if insertionPoint < j
         then (memmove_up (base + insertionPoint) 1 (j - insertionPoint) array)[base + insertionPoint := item]
         else array)"

definition doInsertionSort :: "'a comparator_fun \<Rightarrow> nat \<Rightarrow> nat \<Rightarrow> 'a list \<Rightarrow> 'a list" where
  "doInsertionSort cmp base n array = fold (insertion_step cmp base) [1..<n] array"

text \<open>
  An item larger than \<^verbatim>\<open>STACK_ITEM_SIZE\<close> needs memory for the intermediate items; \<open>grants\<close> says which requests succeed.
\<close>

definition insertionSort :: "'b heap \<Rightarrow> 'a comparator_fun \<Rightarrow> int \<Rightarrow> 'a list \<Rightarrow> UErrorCode \<Rightarrow> 'a list \<times> UErrorCode" where
  "insertionSort h cmp itemSize array ec =
     (if itemSize \<le> STACK_ITEM_SIZE \<or> grants h itemSize
      then (doInsertionSort cmp 0 (length array) array, ec)
      else (array, U_MEMORY_ALLOCATION_ERROR))"

section \<open>Quicksort\<close>

function scan_left :: "'a comparator_fun \<Rightarrow> 'a \<Rightarrow> 'a list \<Rightarrow> nat \<Rightarrow> nat option" where
  "scan_left cmp x array left =
     (if left < length array
      then (if cmp (array ! left) x < 0 then scan_left cmp x array (left + 1) else Some left)
      else None)"
  by auto
termination by (relation "measure (\<lambda>(cmp, x, array, left). length array - left)") auto

fun scan_right :: "'a comparator_fun \<Rightarrow> 'a \<Rightarrow> 'a list \<Rightarrow> nat \<Rightarrow> nat option" where
  "scan_right cmp x array 0 = None"
| "scan_right cmp x array (Suc r) =
     (if r < length array
      then (if cmp x (array ! r) < 0 then scan_right cmp x array r else Some (Suc r))
      else None)"

declare scan_left.simps [simp del]

lemma scan_left_ge: "scan_left cmp x array left = Some l \<Longrightarrow> left \<le> l"
proof (induction cmp x array left rule: scan_left.induct)
  case (1 cmp x array left)
  then show ?case by (subst (asm) (2) scan_left.simps) (auto split: if_splits)
qed

lemma scan_right_le: "scan_right cmp x array right = Some r \<Longrightarrow> r \<le> right"
  by (induction right) (auto split: if_splits)

text \<open>The \<^verbatim>\<open>do\<close> loop that partitions \<open>[left, right)\<close> by the item \<open>x\<close>: the array, \<open>left\<close> and \<open>right\<close> behind it.\<close>

function partition_loop :: "'a comparator_fun \<Rightarrow> 'a \<Rightarrow> 'a list \<Rightarrow> nat \<Rightarrow> nat \<Rightarrow> ('a list \<times> nat \<times> nat) option" where
  "partition_loop cmp x array left0 right0 =
     (case (scan_left cmp x array left0, scan_right cmp x array right0) of
        (Some left, Some right) \<Rightarrow>
          if left < right then
            let right' = right - 1;
                array' = (if left < right' then array[left := array ! right', right' := array ! left] else array)
            in if left + 1 < right' then partition_loop cmp x array' (left + 1) right'
               else Some (array', left + 1, right')
          else Some (array, left, right)
      | _ \<Rightarrow> None)"
  by auto
termination
  by (relation "measure (\<lambda>(cmp, x, array, left, right). right - left)") (auto dest!: scan_left_ge [OF sym] scan_right_le [OF sym])

declare partition_loop.simps [simp del]

text \<open>
  The outer loop goes on with the larger sub-array (a call at the same depth) and calls itself
  for the smaller one. Beside the array, the model returns how deep the calls were nested.
\<close>

partial_function (option) subQuickSort :: "'a comparator_fun \<Rightarrow> 'a list \<Rightarrow> nat \<Rightarrow> nat \<Rightarrow> ('a list \<times> nat) option" where
  "subQuickSort cmp array start limit =
     (if start + MIN_QSORT \<ge> limit then Some (doInsertionSort cmp start (limit - start) array, 0)
      else
        Option.bind (partition_loop cmp (array ! ((start + limit) div 2)) array start limit) (\<lambda>(array1, left, right).
          if int right - int start < int limit - int left then
            Option.bind
              (if start < right - 1
               then Option.bind (subQuickSort cmp array1 start right) (\<lambda>(array2, depth). Some (array2, depth + 1))
               else Some (array1, 0))
              (\<lambda>(array2, depth).
                 if left < limit - 1
                 then Option.bind (subQuickSort cmp array2 left limit) (\<lambda>(array3, depth'). Some (array3, max depth depth'))
                 else Some (array2, depth))
          else
            Option.bind
              (if left < limit - 1
               then Option.bind (subQuickSort cmp array1 left limit) (\<lambda>(array2, depth). Some (array2, depth + 1))
               else Some (array1, 0))
              (\<lambda>(array2, depth).
                 if start < right - 1
                 then Option.bind (subQuickSort cmp array2 start right) (\<lambda>(array3, depth'). Some (array3, max depth depth'))
                 else Some (array2, depth))))"

definition quickSort :: "'b heap \<Rightarrow> 'a comparator_fun \<Rightarrow> int \<Rightarrow> 'a list \<Rightarrow> UErrorCode \<Rightarrow> ('a list \<times> UErrorCode) option" where
  "quickSort h cmp itemSize array ec =
     (if itemSize \<le> STACK_ITEM_SIZE \<or> grants h (2 * itemSize)
      then map_option (\<lambda>(array', depth). (array', ec)) (subQuickSort cmp array 0 (length array))
      else Some (array, U_MEMORY_ALLOCATION_ERROR))"

text \<open>
  The array is the block at \<^verbatim>\<open>array\<close> (\<open>None\<close> for \<^verbatim>\<open>NULL\<close>), of which the first \<open>n\<close> items are sorted; \<open>cmp = None\<close> is a
  missing comparator.
\<close>

definition uprv_sortArray :: "'b heap \<Rightarrow> 'a list option \<Rightarrow> int \<Rightarrow> int \<Rightarrow> 'a comparator_fun option \<Rightarrow> bool \<Rightarrow> UErrorCode \<Rightarrow>
    ('a list option \<times> UErrorCode) option" where
  "uprv_sortArray h array n itemSize cmp sortStable ec =
     (if U_FAILURE ec then Some (array, ec)
      else if (n > 0 \<and> array = None) \<or> n < 0 \<or> itemSize \<le> 0 \<or> cmp = None then Some (array, U_ILLEGAL_ARGUMENT_ERROR)
      else if n \<le> 1 then Some (array, ec)
      else
        let block = take (nat n) (the array); rest = drop (nat n) (the array) in
        map_option (\<lambda>(block', ec'). (Some (block' @ rest), ec'))
          (if n < int MIN_QSORT \<or> sortStable then Some (insertionSort h (the cmp) itemSize block ec)
           else quickSort h (the cmp) itemSize block ec))"

section \<open>The sorting methods of \<open>UVector\<close>\<close>

text \<open>\<open>integer\<close> reads the \<^verbatim>\<open>integer\<close> member of the union \<^verbatim>\<open>UElement\<close>.\<close>

definition UVector_sortArray :: "'b heap \<Rightarrow> 'a option comparator_fun \<Rightarrow> bool \<Rightarrow> 'a uvector \<Rightarrow> UErrorCode \<Rightarrow>
    ('a uvector \<times> UErrorCode) option" where
  "UVector_sortArray h cmp sortStable v ec =
     (if U_FAILURE ec then Some (v, ec)
      else map_option (\<lambda>(elements, ec'). (v\<lparr>uelements := the elements\<rparr>, ec'))
        (uprv_sortArray h (Some (uelements v)) (ucount v) sizeof_UElement (Some cmp) sortStable ec))"

definition UVector_sorti :: "'b heap \<Rightarrow> ('a option \<Rightarrow> int) \<Rightarrow> 'a uvector \<Rightarrow> UErrorCode \<Rightarrow> ('a uvector \<times> UErrorCode) option" where
  "UVector_sorti h integer v ec = UVector_sortArray h (\<lambda>left right. sortiComparator (integer left) (integer right)) False v ec"

definition UVector_sort :: "'b heap \<Rightarrow> 'a option comparator_fun \<Rightarrow> 'a uvector \<Rightarrow> UErrorCode \<Rightarrow> ('a uvector \<times> UErrorCode) option" where
  "UVector_sort h compare v ec = UVector_sortArray h compare False v ec"

definition UVector_sortWithUComparator :: "'b heap \<Rightarrow> 'a option comparator_fun \<Rightarrow> 'a uvector \<Rightarrow> UErrorCode \<Rightarrow>
    ('a uvector \<times> UErrorCode) option" where
  "UVector_sortWithUComparator h compare v ec = UVector_sortArray h compare True v ec"

section \<open>Permutations inside a part of an array\<close>

definition within :: "nat \<Rightarrow> nat \<Rightarrow> 'a list \<Rightarrow> 'a list \<Rightarrow> bool" where
  "within s l a a' \<longleftrightarrow> length a' = length a \<and> take s a' = take s a \<and> drop l a' = drop l a \<and> mset a' = mset a"

lemma within_refl [simp]: "within s l a a"
  by (simp add: within_def)

lemma within_trans: "within s l a b \<Longrightarrow> within s l b c \<Longrightarrow> within s l a c"
  by (simp add: within_def)

lemma within_mono:
  assumes "within s l a a'" "s' \<le> s" "l \<le> l'"
  shows "within s' l' a a'"
proof -
  have "take s' a' = take s' (take s a')" "take s' a = take s' (take s a)" using assms(2) by (simp_all add: min_absorb1)
  moreover have "drop l' a' = drop (l' - l) (drop l a')" "drop l' a = drop (l' - l) (drop l a)" using assms(3) by simp_all
  ultimately show ?thesis using assms(1) unfolding within_def by metis
qed

lemma within_swap:
  assumes "s \<le> i" "i < l" "s \<le> j" "j < l" "l \<le> length a"
  shows "within s l a (a[i := a ! j, j := a ! i])"
  using assms by (auto simp: within_def mset_swap)

lemma within_outside:
  assumes "within s l a a'" "k < s \<or> l \<le> k" "k < length a"
  shows "a' ! k = a ! k"
proof (cases "k < s")
  case True
  then show ?thesis using assms(1) by (metis nth_take within_def)
next
  case False
  have "length a' = length a" using assms(1) by (simp add: within_def)
  with False have "a' ! k = drop l a' ! (k - l)" "a ! k = drop l a ! (k - l)" using assms(2,3) by auto
  then show ?thesis using assms(1) unfolding within_def by metis
qed

lemma three_parts: "s \<le> l \<Longrightarrow> a = take s a @ take (l - s) (drop s a) @ drop l a"
  by (metis append_take_drop_id drop_drop le_add_diff_inverse2)

lemma within_slice_set:
  assumes "within s l a a'" "s \<le> l"
  shows "set (take (l - s) (drop s a')) = set (take (l - s) (drop s a))"
proof -
  have "mset a = mset (take s a) + (mset (take (l - s) (drop s a)) + mset (drop l a))"
    "mset a' = mset (take s a') + (mset (take (l - s) (drop s a')) + mset (drop l a'))"
    by (metis three_parts [OF assms(2)] mset_append)+
  then have "mset (take (l - s) (drop s a')) = mset (take (l - s) (drop s a))"
    using assms(1) unfolding within_def by (metis add_left_cancel add_right_cancel)
  then show ?thesis by (rule mset_eq_setD)
qed

lemma within_keeps:
  assumes "within s l a a'" "s \<le> l" "l \<le> length a" "s' \<le> s \<and> l \<le> l' \<or> l' \<le> s \<or> l \<le> s'" "l' \<le> length a"
    and "\<forall>k. s' \<le> k \<and> k < l' \<longrightarrow> P (a ! k)"
  shows "\<forall>k. s' \<le> k \<and> k < l' \<longrightarrow> P (a' ! k)"
proof (intro allI impI, elim conjE)
  fix k assume k: "s' \<le> k" "k < l'"
  show "P (a' ! k)"
  proof (cases "s \<le> k \<and> k < l")
    case True
    then have "a' ! k = take (l - s) (drop s a') ! (k - s)" "k - s < length (take (l - s) (drop s a'))"
      using assms(1,3) by (auto simp: within_def)
    then have "a' ! k \<in> set (take (l - s) (drop s a))" using within_slice_set [OF assms(1,2)] by (metis nth_mem)
    then obtain j where "j < l - s" "a' ! k = a ! (s + j)" by (auto simp: in_set_conv_nth)
    moreover have "s' \<le> s + j" "s + j < l'" using assms(4) k True \<open>j < l - s\<close> by auto
    ultimately show ?thesis using assms(6) by simp
  next
    case False
    then show ?thesis using within_outside [OF assms(1)] assms(5,6) k by auto
  qed
qed

section \<open>What a comparator promises\<close>

locale item_order =
  fixes cmp :: "'a comparator_fun"
  assumes cmp_refl: "cmp x x = 0"
    and cmp_swap: "cmp x y < 0 \<longleftrightarrow> 0 < cmp y x"
    and cmp_trans: "cmp x y \<le> 0 \<Longrightarrow> cmp y z \<le> 0 \<Longrightarrow> cmp x z \<le> 0"
begin

definition le :: "'a \<Rightarrow> 'a \<Rightarrow> bool" where
  "le x y \<longleftrightarrow> cmp x y \<le> 0"

lemma le_refl [simp]: "le x x"
  by (simp add: le_def cmp_refl)

lemma le_trans: "le x y \<Longrightarrow> le y z \<Longrightarrow> le x z"
  using cmp_trans by (auto simp: le_def)

lemma cmp_signs:
  "cmp x y < 0 \<longleftrightarrow> \<not> le y x"
  "0 < cmp x y \<longleftrightarrow> \<not> le x y"
  "cmp x y = 0 \<longleftrightarrow> le x y \<and> le y x"
  using cmp_swap [of x y] cmp_swap [of y x] by (auto simp: le_def)

lemma le_total: "le x y \<or> le y x"
  using cmp_signs [of x y] by auto

lemma not_le_le: "\<not> le x y \<Longrightarrow> le y x"
  using le_total by auto

text \<open>The place of \<open>item\<close> behind the last item that is not larger.\<close>

definition place :: "(nat \<Rightarrow> 'a) \<Rightarrow> 'a \<Rightarrow> nat \<Rightarrow> nat \<Rightarrow> bool" where
  "place at item n p \<longleftrightarrow> p \<le> n \<and> (\<forall>k < p. le (at k) item) \<and> (\<forall>k. p \<le> k \<and> k < n \<longrightarrow> \<not> le (at k) item)"

definition ascending :: "(nat \<Rightarrow> 'a) \<Rightarrow> nat \<Rightarrow> bool" where
  "ascending at n \<longleftrightarrow> (\<forall>i j. i \<le> j \<and> j < n \<longrightarrow> le (at i) (at j))"

text \<open>What the two loops of the search keep.\<close>

definition searching :: "(nat \<Rightarrow> 'a) \<Rightarrow> 'a \<Rightarrow> nat \<Rightarrow> nat \<Rightarrow> nat \<Rightarrow> bool \<Rightarrow> bool" where
  "searching at item n start limit found \<longleftrightarrow>
     start \<le> limit \<and> limit \<le> n \<and> (\<forall>k < start. le (at k) item) \<and> (\<forall>k. limit \<le> k \<and> k < n \<longrightarrow> \<not> le (at k) item) \<and>
     (if found then \<exists>k < start. cmp item (at k) = 0 else \<forall>k < start. cmp item (at k) \<noteq> 0)"

lemma searching_low:
  assumes "ascending at n" "searching at item n start limit found" "start \<le> i" "i < limit" "\<not> le item (at i)"
  shows "searching at item n i limit found" "searching at item n (Suc i) limit found"
proof -
  have k: "k \<le> i \<Longrightarrow> le (at k) item \<and> \<not> le item (at k)" for k
  proof -
    assume "k \<le> i"
    then have "le (at k) (at i)" using assms by (auto simp: ascending_def searching_def)
    then show "le (at k) item \<and> \<not> le item (at k)" using assms(5) le_trans not_le_le by blast
  qed
  show "searching at item n i limit found"
    using assms(2,3,4) k by (auto simp: searching_def cmp_signs split: if_splits)
  show "searching at item n (Suc i) limit found"
    using assms(2,3,4) k by (auto simp: searching_def cmp_signs less_Suc_eq_le split: if_splits)
qed

lemma searching_equal:
  assumes "ascending at n" "searching at item n start limit found" "start \<le> i" "i < limit" "cmp item (at i) = 0"
  shows "searching at item n (Suc i) limit True"
proof -
  have k: "k \<le> i \<Longrightarrow> le (at k) item" for k
  proof -
    assume "k \<le> i"
    then have "le (at k) (at i)" using assms by (auto simp: ascending_def searching_def)
    then show "le (at k) item" using assms(5) le_trans cmp_signs by blast
  qed
  show ?thesis using assms(2-5) k by (auto simp: searching_def less_Suc_eq_le)
qed

lemma searching_high:
  assumes "ascending at n" "searching at item n start limit found" "start \<le> i" "i < limit" "\<not> le (at i) item"
  shows "searching at item n start i found"
proof -
  have "i \<le> k \<Longrightarrow> k < n \<Longrightarrow> \<not> le (at k) item" for k
  proof
    assume "i \<le> k" "k < n" "le (at k) item"
    then show False using assms(1,5) le_trans [of "at i" "at k" item] by (simp add: ascending_def)
  qed
  then show ?thesis using assms(2,3,4) by (auto simp: searching_def)
qed

lemma search_binary_keeps:
  assumes "ascending at n" "searching at item n start limit found"
    "search_binary cmp at item start limit found = (start', limit', found')"
  shows "searching at item n start' limit' found'"
  using assms(2,3)
proof (induction "limit - start" arbitrary: start limit found rule: less_induct)
  case less
  show ?case
  proof (cases "limit - start \<ge> MIN_QSORT")
    case True
    define i where "i = (start + limit) div 2"
    have i: "start < i" "i < limit" using True by (auto simp: i_def MIN_QSORT_def)
    consider "cmp item (at i) = 0" | "cmp item (at i) < 0" | "0 < cmp item (at i)" by linarith
    then show ?thesis
    proof cases
      case 1
      then show ?thesis using less.hyps [of limit "Suc i" True] less.prems searching_equal [OF assms(1) less.prems(1)] i True
        by (subst (asm) search_binary.simps) (simp add: i_def [symmetric] Let_def)
    next
      case 2
      then show ?thesis using less.hyps [of i start found] less.prems searching_high [OF assms(1) less.prems(1)] i True
        by (subst (asm) search_binary.simps) (simp add: i_def [symmetric] Let_def cmp_signs)
    next
      case 3
      then show ?thesis using less.hyps [of limit i found] less.prems searching_low(1) [OF assms(1) less.prems(1), of i] i True not_le_le [of item "at i"]
        by (subst (asm) search_binary.simps) (simp add: i_def [symmetric] Let_def cmp_signs)
    qed
  qed (use less.prems in \<open>simp add: search_binary.simps\<close>)
qed

lemma search_linear_keeps:
  assumes "ascending at n" "searching at item n start limit found" "search_linear cmp at item start limit found = (p, found')"
  shows "searching at item n p p found'"
  using assms(2,3)
proof (induction "limit - start" arbitrary: start found rule: less_induct)
  case less
  show ?case
  proof (cases "start < limit")
    case True
    consider "cmp item (at start) = 0" | "cmp item (at start) < 0" | "0 < cmp item (at start)" by linarith
    then show ?thesis
    proof cases
      case 1
      then show ?thesis using less.hyps [of "Suc start" True] less.prems searching_equal [OF assms(1) less.prems(1)] True
        by (subst (asm) search_linear.simps) (simp add: Let_def)
    next
      case 2
      then show ?thesis using less.prems searching_high [OF assms(1) less.prems(1) _ True] True
        by (subst (asm) search_linear.simps) (auto simp: cmp_signs)
    next
      case 3
      then show ?thesis using less.hyps [of "Suc start" found] less.prems searching_low(2) [OF assms(1) less.prems(1) _ True] True not_le_le [of item "at start"]
        by (subst (asm) search_linear.simps) (simp add: Let_def cmp_signs)
    qed
  next
    case False
    then have "start = limit" using less.prems(1) by (simp add: searching_def)
    then show ?thesis using less.prems by (simp add: search_linear.simps)
  qed
qed

text \<open>
  The search returns the largest index of an equal item, or the complement of the place for the item.
\<close>

lemma stableBinarySearch_result:
  assumes "ascending at n"
  obtains p where "place at item n p"
    "uprv_stableBinarySearch cmp at n item = (if \<exists>k < n. cmp item (at k) = 0 then int p - 1 else - int p - 1)"
    "\<exists>k < n. cmp item (at k) = 0 \<Longrightarrow> 0 < p \<and> cmp item (at (p - 1)) = 0"
proof -
  obtain start limit found where b: "search_binary cmp at item 0 n False = (start, limit, found)" by (metis prod_cases3)
  obtain p found' where l: "search_linear cmp at item start limit found = (p, found')" by fastforce
  have "searching at item n 0 n False" by (auto simp: searching_def)
  then have s: "searching at item n p p found'" using search_binary_keeps search_linear_keeps assms b l by blast
  have e: "found' \<longleftrightarrow> (\<exists>k < n. cmp item (at k) = 0)"
  proof
    show "found' \<Longrightarrow> \<exists>k < n. cmp item (at k) = 0" using s by (auto simp: searching_def)
    show "\<exists>k < n. cmp item (at k) = 0 \<Longrightarrow> found'" using s by (auto simp: searching_def cmp_signs not_le split: if_splits) (metis not_le)
  qed
  have last: "0 < p \<and> cmp item (at (p - 1)) = 0" if found: "found'"
  proof -
    obtain k where k: "k < p" "cmp item (at k) = 0" using s found by (auto simp: searching_def)
    moreover have "k \<le> p - 1" "p - 1 < n" "p - 1 < p" using k s by (auto simp: searching_def)
    ultimately have "le (at k) (at (p - 1))" "le (at (p - 1)) item" using s assms by (auto simp: searching_def ascending_def)
    then show ?thesis using k le_trans cmp_signs(3) by (metis gr_implies_not0 not_gr_zero)
  qed
  show thesis
  proof (rule that)
    show "place at item n p" using s by (simp add: searching_def place_def)
    show "uprv_stableBinarySearch cmp at n item = (if \<exists>k < n. cmp item (at k) = 0 then int p - 1 else - int p - 1)"
      using b l e by (simp add: uprv_stableBinarySearch_def)
    show "0 < p \<and> cmp item (at (p - 1)) = 0" if "\<exists>k < n. cmp item (at k) = 0" using that last e by blast
  qed
qed

text \<open>Insertion behind the items that are not larger, on lists: the reference for \<open>insertion_step\<close>.\<close>

definition ins :: "'a \<Rightarrow> 'a list \<Rightarrow> 'a list" where
  "ins x s = takeWhile (\<lambda>y. le y x) s @ x # dropWhile (\<lambda>y. le y x) s"

definition isort :: "'a list \<Rightarrow> 'a list" where
  "isort xs = fold ins xs []"

lemma mset_ins [simp]: "mset (ins x s) = add_mset x (mset s)"
proof -
  have "mset s = mset (takeWhile (\<lambda>y. le y x) s) + mset (dropWhile (\<lambda>y. le y x) s)" by (metis mset_append takeWhile_dropWhile_id)
  then show ?thesis by (simp add: ins_def)
qed

lemma above_dropWhile:
  assumes "sorted_wrt le s" "y \<in> set (dropWhile (\<lambda>y. le y x) s)"
  shows "\<not> le y x"
  using assms
proof (induction s)
  case (Cons z s)
  show ?case
  proof (cases "le z x")
    case False
    then have "y = z \<or> le z y" using Cons.prems by auto
    then show ?thesis using False le_trans by blast
  qed (use Cons in auto)
qed simp

lemma sorted_ins: "sorted_wrt le s \<Longrightarrow> sorted_wrt le (ins x s)"
proof -
  assume s: "sorted_wrt le s"
  define t d where "t = takeWhile (\<lambda>y. le y x) s" and "d = dropWhile (\<lambda>y. le y x) s"
  have parts: "sorted_wrt le (t @ d)" using s by (simp add: t_def d_def)
  have "\<forall>y \<in> set d. le x y" using above_dropWhile [OF s] not_le_le d_def by blast
  moreover have "\<forall>y \<in> set t. le y x" by (auto simp: t_def dest: set_takeWhileD)
  ultimately have "sorted_wrt le (t @ x # d)" using parts by (simp add: sorted_wrt_append)
  then show ?thesis by (simp add: ins_def t_def d_def)
qed

lemma filter_ins: "sorted_wrt le s \<Longrightarrow> filter (\<lambda>y. cmp y k = 0) (ins x s) = filter (\<lambda>y. cmp y k = 0) (s @ [x])"
proof -
  assume s: "sorted_wrt le s"
  have "filter (\<lambda>y. cmp y k = 0) (dropWhile (\<lambda>y. le y x) s) = []" if e: "cmp x k = 0"
  proof -
    have "cmp y k \<noteq> 0" if y: "\<not> le y x" for y using y e cmp_signs(3) le_trans by blast
    then have "\<forall>y \<in> set (dropWhile (\<lambda>y. le y x) s). cmp y k \<noteq> 0" using above_dropWhile [OF s] by blast
    then show ?thesis by (simp only: filter_empty_conv)
  qed
  moreover have "filter P s = filter P (takeWhile Q s) @ filter P (dropWhile Q s)" for P Q :: "'a \<Rightarrow> bool"
    by (metis filter_append takeWhile_dropWhile_id)
  note this [of "\<lambda>y. cmp y k = 0" "\<lambda>y. le y x"]
  ultimately show ?thesis by (simp add: ins_def)
qed

lemma isort_snoc [simp]: "isort (xs @ [x]) = ins x (isort xs)" "isort [] = []"
  by (simp_all add: isort_def)

lemma isort_sorts: "sorted_wrt le (isort xs)" "mset (isort xs) = mset xs"
  by (induction xs rule: rev_induct) (auto intro: sorted_ins)

lemma isort_stable: "filter (\<lambda>y. cmp y k = 0) (isort xs) = filter (\<lambda>y. cmp y k = 0) xs"
  by (induction xs rule: rev_induct) (auto simp: filter_ins isort_sorts)

lemma length_isort [simp]: "length (isort xs) = length xs"
  using isort_sorts(2) by (metis size_mset)

lemma insertion_step_inserts:
  assumes "sorted_wrt le s"
  shows "insertion_step cmp (length pre) (length s) (pre @ s @ x # rest) = pre @ ins x s @ rest"
proof -
  let ?a = "pre @ s @ x # rest" and ?at = "\<lambda>i. (pre @ s @ x # rest) ! (length pre + i)"
  have at: "i < length s \<Longrightarrow> ?at i = s ! i" for i by (simp add: nth_append)
  have "ascending ?at (length s)" unfolding ascending_def
  proof (intro allI impI, elim conjE)
    fix i j assume "i \<le> j" "j < length s"
    then show "le (?at i) (?at j)" using assms at by (cases "i = j") (auto simp: sorted_wrt_iff_nth_less)
  qed
  then obtain p where p: "place ?at x (length s) p"
    "uprv_stableBinarySearch cmp ?at (length s) x = (if \<exists>k < length s. cmp x (?at k) = 0 then int p - 1 else - int p - 1)"
    using stableBinarySearch_result [of ?at "length s" x] by metis
  have tw: "takeWhile (\<lambda>y. le y x) s = take p s"
    using p(1) at by (intro takeWhile_eq_take_P_nth) (auto simp: place_def)
  have ple: "p \<le> length s" using p(1) by (simp add: place_def)
  then have dw: "dropWhile (\<lambda>y. le y x) s = drop p s" using tw by (simp add: dropWhile_eq_drop)
  have point: "nat (if r < 0 then - r - 1 else r + 1) = p" if "r = (if b then int p - 1 else - int p - 1)" "b \<longrightarrow> 0 < p" for r b
    using that by auto
  have "(\<exists>k < length s. cmp x (?at k) = 0) \<longrightarrow> 0 < p"
    using p(1) by (auto simp: place_def cmp_signs)
  then have pt: "nat (if uprv_stableBinarySearch cmp ?at (length s) x < 0 then - uprv_stableBinarySearch cmp ?at (length s) x - 1
      else uprv_stableBinarySearch cmp ?at (length s) x + 1) = p" using point [OF p(2)] by blast
  have item: "?a ! (length pre + length s) = x" by (simp add: nth_append)
  have step: "insertion_step cmp (length pre) (length s) ?a =
      (if p < length s then (memmove_up (length pre + p) 1 (length s - p) ?a)[length pre + p := x] else ?a)"
    by (simp only: insertion_step_def Let_def item pt)
  show ?thesis
  proof (cases "p < length s")
    case True
    define u v where "u = take p s" and "v = drop (Suc p) s"
    have s: "s = u @ s ! p # v" using True by (simp add: u_def v_def id_take_nth_drop)
    have lu: "length u = p" using True by (simp add: u_def)
    have "(memmove_up (length pre + p) 1 (length s - p) ?a)[length pre + p := x] = pre @ u @ x # s ! p # v @ rest"
      using lu by (subst (1 2) s) (simp add: memmove_up_def list_update_append)
    then show ?thesis using True step tw dw by (simp add: ins_def u_def v_def Cons_nth_drop_Suc)
  next
    case False
    then have "p = length s" using ple by simp
    then show ?thesis unfolding ins_def tw dw step by simp
  qed
qed

lemma doInsertionSort_isort: "doInsertionSort cmp (length pre) (length xs) (pre @ xs @ rest) = pre @ isort xs @ rest"
proof (cases xs)
  case (Cons y ys)
  have "m \<le> length ys \<Longrightarrow> fold (insertion_step cmp (length pre)) [1..<Suc m] (pre @ xs @ rest) =
      pre @ isort (take (Suc m) xs) @ drop (Suc m) xs @ rest" for m
  proof (induction m)
    case 0
    have "isort [y] = [y]" by (simp add: isort_def ins_def)
    then show ?case using Cons by simp
  next
    case (Suc m)
    define z where "z = xs ! Suc m"
    have "Suc m < length xs" using Suc.prems Cons by simp
    then have d: "drop (Suc m) xs = z # drop (Suc (Suc m)) xs" and t: "take (Suc (Suc m)) xs = take (Suc m) xs @ [z]"
      by (auto simp: z_def Cons_nth_drop_Suc take_Suc_conv_app_nth)
    have l: "length (isort (take (Suc m) xs)) = Suc m" using Suc.prems Cons by simp
    have "fold (insertion_step cmp (length pre)) [1..<Suc (Suc m)] (pre @ xs @ rest) =
        insertion_step cmp (length pre) (Suc m) (pre @ isort (take (Suc m) xs) @ drop (Suc m) xs @ rest)"
      using Suc by simp
    also have "\<dots> = pre @ ins z (isort (take (Suc m) xs)) @ drop (Suc (Suc m)) xs @ rest"
      using insertion_step_inserts [OF isort_sorts(1), of pre "take (Suc m) xs" z "drop (Suc (Suc m)) xs @ rest"] l d by simp
    finally show ?case using t by simp
  qed
  from this [of "length ys"] show ?thesis using Cons by (simp add: doInsertionSort_def)
qed (simp add: doInsertionSort_def)

subsection \<open>Partition\<close>

lemma scan_left_stops:
  assumes "left \<le> k" "k < length a" "le x (a ! k)"
  shows "\<exists>l. scan_left cmp x a left = Some l \<and> left \<le> l \<and> l \<le> k \<and> le x (a ! l) \<and> (\<forall>j. left \<le> j \<and> j < l \<longrightarrow> \<not> le x (a ! j))"
  using assms(1)
proof (induction "k - left" arbitrary: left)
  case 0
  then show ?case using assms by (auto simp: scan_left.simps cmp_signs)
next
  case (Suc n)
  show ?case
  proof (cases "le x (a ! left)")
    case False
    then have "left < k" using assms Suc.prems by (cases "left = k") auto
    moreover have "n = k - Suc left" using Suc.hyps(2) by simp
    ultimately obtain l where l: "scan_left cmp x a (Suc left) = Some l" "Suc left \<le> l" "l \<le> k" "le x (a ! l)"
      "\<forall>j. Suc left \<le> j \<and> j < l \<longrightarrow> \<not> le x (a ! j)" using Suc.hyps(1) [of "Suc left"] by (metis Suc_leI)
    have "\<forall>j. left \<le> j \<and> j < l \<longrightarrow> \<not> le x (a ! j)" using l(5) False by (metis le_antisym not_less_eq_eq)
    then show ?thesis using l False assms(2) \<open>left < k\<close> by (subst scan_left.simps) (auto simp: cmp_signs)
  qed (use assms Suc.prems in \<open>auto simp: scan_left.simps cmp_signs\<close>)
qed

lemma scan_right_stops:
  assumes "k < right" "right \<le> length a" "le (a ! k) x"
  shows "\<exists>r. scan_right cmp x a right = Some r \<and> k < r \<and> r \<le> right \<and> le (a ! (r - 1)) x \<and> (\<forall>j. r \<le> j \<and> j < right \<longrightarrow> \<not> le (a ! j) x)"
  using assms(1,2)
proof (induction right)
  case (Suc right)
  show ?case
  proof (cases "le (a ! right) x")
    case False
    then have "k < right" using assms Suc.prems by (cases "k = right") auto
    then obtain r where "scan_right cmp x a right = Some r" "k < r" "r \<le> right" "le (a ! (r - 1)) x"
      "\<forall>j. r \<le> j \<and> j < right \<longrightarrow> \<not> le (a ! j) x" using Suc by auto
    then show ?thesis using False Suc.prems by (auto simp: cmp_signs less_Suc_eq)
  qed (use Suc.prems in \<open>auto simp: cmp_signs\<close>)
qed simp

text \<open>
  At the head of the partition loop: the items on both sides are on the right side of \<open>x\<close>, each scan will
  meet an item that stops it, and either something has been moved or both scans stop at the same item.
\<close>

definition partitioning :: "'a \<Rightarrow> 'a list \<Rightarrow> nat \<Rightarrow> nat \<Rightarrow> nat \<Rightarrow> nat \<Rightarrow> bool" where
  "partitioning x a start limit left right \<longleftrightarrow>
     start \<le> left \<and> left < right \<and> right \<le> limit \<and> limit \<le> length a \<and>
     (\<forall>k. start \<le> k \<and> k < left \<longrightarrow> le (a ! k) x) \<and> (\<forall>k. right \<le> k \<and> k < limit \<longrightarrow> le x (a ! k)) \<and>
     (\<exists>k. left \<le> k \<and> k < limit \<and> le x (a ! k)) \<and> (\<exists>k. start \<le> k \<and> k < right \<and> le (a ! k) x) \<and>
     (start < left \<and> right < limit \<or> (\<exists>k. left \<le> k \<and> k < right \<and> le x (a ! k) \<and> le (a ! k) x))"

definition partitioned :: "'a \<Rightarrow> 'a list \<Rightarrow> nat \<Rightarrow> nat \<Rightarrow> nat \<Rightarrow> nat \<Rightarrow> bool" where
  "partitioned x a start limit left right \<longleftrightarrow>
     start < left \<and> left \<le> limit \<and> start \<le> right \<and> right < limit \<and> right \<le> left \<and>
     (\<forall>k. start \<le> k \<and> k < left \<longrightarrow> le (a ! k) x) \<and> (\<forall>k. right \<le> k \<and> k < limit \<longrightarrow> le x (a ! k))"

lemma partitioning_step:
  assumes inv: "partitioning x a start limit left0 right0"
  obtains left right where "scan_left cmp x a left0 = Some left" "scan_right cmp x a right0 = Some right"
    "start \<le> left" "left < limit" "start < right" "right \<le> limit"
    "\<forall>k. start \<le> k \<and> k < left \<longrightarrow> le (a ! k) x" "\<forall>k. right \<le> k \<and> k < limit \<longrightarrow> le x (a ! k)"
    "le x (a ! left)" "le (a ! (right - 1)) x" "left < right \<or> left = right \<and> start < left \<and> right < limit"
proof -
  obtain k1 where k1: "left0 \<le> k1" "k1 < limit" "le x (a ! k1)" using inv by (auto simp: partitioning_def)
  obtain k2 where k2: "start \<le> k2" "k2 < right0" "le (a ! k2) x" using inv by (auto simp: partitioning_def)
  obtain left where l: "scan_left cmp x a left0 = Some left" "left0 \<le> left" "left \<le> k1" "le x (a ! left)"
    "\<forall>j. left0 \<le> j \<and> j < left \<longrightarrow> \<not> le x (a ! j)"
    using scan_left_stops [OF k1(1) _ k1(3)] k1(2) inv by (auto simp: partitioning_def)
  obtain right where r: "scan_right cmp x a right0 = Some right" "k2 < right" "right \<le> right0" "le (a ! (right - 1)) x"
    "\<forall>j. right \<le> j \<and> j < right0 \<longrightarrow> \<not> le (a ! j) x"
    using scan_right_stops [OF k2(2) _ k2(3)] inv by (auto simp: partitioning_def)
  have low: "\<forall>k. start \<le> k \<and> k < left \<longrightarrow> le (a ! k) x"
    using inv l(5) not_le_le unfolding partitioning_def by (metis not_le)
  have high: "\<forall>k. right \<le> k \<and> k < limit \<longrightarrow> le x (a ! k)"
    using inv r(5) not_le_le unfolding partitioning_def by (metis not_le)
  have "left < right \<or> left = right \<and> start < left \<and> right < limit"
  proof (cases "\<exists>k. left0 \<le> k \<and> k < right0 \<and> le x (a ! k) \<and> le (a ! k) x")
    case True
    then have "left < right" using l(5) r(5) by (meson not_less order_le_less_trans order_less_le_trans)
    then show ?thesis ..
  next
    case False
    then have b: "start < left0" "right0 < limit" using inv by (auto simp: partitioning_def)
    have "left \<le> right"
    proof (rule ccontr)
      assume "\<not> left \<le> right"
      then have "right < left" by simp
      show False
      proof (cases "left0 \<le> right")
        case True
        then have n: "\<not> le x (a ! right)" using l(5) \<open>right < left\<close> by blast
        have "right < right0 \<or> right0 = right" using r(3) by auto
        then show False using n high b by auto
      next
        case False
        then have "right \<le> left0 - 1" "left0 - 1 < right0" "start \<le> left0 - 1" "left0 - 1 < left0"
          using b inv by (auto simp: partitioning_def)
        then show False using r(5) inv unfolding partitioning_def by blast
      qed
    qed
    then show ?thesis using b l(2) r(3) by auto
  qed
  then show thesis using that [of left right] l r k1 k2 inv low high by (auto simp: partitioning_def)
qed

lemma partition_loop_partitions:
  assumes "partitioning x a start limit left0 right0"
  shows "\<exists>a' left right. partition_loop cmp x a left0 right0 = Some (a', left, right) \<and> within start limit a a' \<and>
    partitioned x a' start limit left right"
  using assms
proof (induction "right0 - left0" arbitrary: a left0 right0 rule: less_induct)
  case less
  obtain left right where s: "scan_left cmp x a left0 = Some left" "scan_right cmp x a right0 = Some right"
    "start \<le> left" "left < limit" "start < right" "right \<le> limit"
    "\<forall>k. start \<le> k \<and> k < left \<longrightarrow> le (a ! k) x" "\<forall>k. right \<le> k \<and> k < limit \<longrightarrow> le x (a ! k)"
    "le x (a ! left)" "le (a ! (right - 1)) x" "left < right \<or> left = right \<and> start < left \<and> right < limit"
    by (rule partitioning_step [OF less.prems])
  show ?case
  proof (cases "left < right")
    case False
    then have "partitioned x a start limit left right" using s by (auto simp: partitioned_def)
    moreover have "partition_loop cmp x a left0 right0 = Some (a, left, right)"
      using False s(1,2) by (subst partition_loop.simps) simp
    ultimately show ?thesis using within_refl by blast
  next
    case True
    define r where "r = right - 1"
    define a' where "a' = (if left < r then a[left := a ! r, r := a ! left] else a)"
    have lim: "limit \<le> length a" using less.prems by (simp add: partitioning_def)
    have r: "left \<le> r" "r < limit" "right = Suc r" using True s(6) by (auto simp: r_def)
    have w: "within start limit a a'" using within_swap [of start left limit r a] s(3,4) r lim by (auto simp: a'_def)
    have at: "le (a' ! left) x" "le x (a' ! r)" "k < left \<Longrightarrow> a' ! k = a ! k" "r < k \<Longrightarrow> a' ! k = a ! k" for k
      using s(4,9,10) r lim by (auto simp: a'_def nth_list_update)
    have low: "\<forall>k. start \<le> k \<and> k < Suc left \<longrightarrow> le (a' ! k) x" using at(1,3) s(7) by (auto simp: less_Suc_eq)
    have high: "\<forall>k. r \<le> k \<and> k < limit \<longrightarrow> le x (a' ! k)" using at(2,4) s(8) r(3) by (metis Suc_leI le_neq_implies_less)
    have step: "partition_loop cmp x a left0 right0 =
        (if Suc left < r then partition_loop cmp x a' (Suc left) r else Some (a', Suc left, r))"
      using True s(1,2) by (subst partition_loop.simps) (simp add: Let_def a'_def r_def)
    show ?thesis
    proof (cases "Suc left < r")
      case False
      then have "partitioned x a' start limit (Suc left) r" using low high s(3,4) r by (simp add: partitioned_def)
      then show ?thesis using False step w by simp
    next
      case True
      have "partitioning x a' start limit (Suc left) r"
        unfolding partitioning_def
      proof (intro conjI)
        show "\<exists>k. Suc left \<le> k \<and> k < limit \<and> le x (a' ! k)" using at(2) True r(2) by (intro exI [of _ r]) auto
        show "\<exists>k. start \<le> k \<and> k < r \<and> le (a' ! k) x" using at(1) True s(3) by (intro exI [of _ left]) auto
      qed (use low high True s(3) r lim w in \<open>auto simp: within_def\<close>)
      moreover have "r - Suc left < right0 - left0"
        using scan_left_ge [OF s(1)] scan_right_le [OF s(2)] True r(3) by linarith
      ultimately obtain b l q where "partition_loop cmp x a' (Suc left) r = Some (b, l, q)" "within start limit a' b"
        "partitioned x b start limit l q" using less.hyps by blast
      then show ?thesis using True step within_trans [OF w] by auto
    qed
  qed
qed

subsection \<open>Quicksort\<close>

definition sorted_part :: "nat \<Rightarrow> nat \<Rightarrow> 'a list \<Rightarrow> bool" where
  "sorted_part s l a \<longleftrightarrow> (\<forall>i j. s \<le> i \<and> i \<le> j \<and> j < l \<longrightarrow> le (a ! i) (a ! j))"

lemma sorted_part_join:
  assumes "sorted_part start right a" "sorted_part left limit a" "partitioned x a start limit left right"
  shows "sorted_part start limit a"
  unfolding sorted_part_def
proof (intro allI impI, elim conjE)
  fix i j assume ij: "start \<le> i" "i \<le> j" "j < limit"
  consider "j < right" | "left \<le> i" | "i < left" "right \<le> j" by linarith
  then show "le (a ! i) (a ! j)"
  proof cases
    case 3
    then have "le (a ! i) x" "le x (a ! j)" using assms(3) ij by (auto simp: partitioned_def)
    then show ?thesis by (rule le_trans)
  qed (use assms(1,2) ij in \<open>auto simp: sorted_part_def\<close>)
qed

lemma sorted_part_outside:
  assumes "sorted_part s l a" "within s' l' a a'" "l \<le> s' \<or> l' \<le> s" "l \<le> length a"
  shows "sorted_part s l a'"
proof -
  have "s \<le> k \<Longrightarrow> k < l \<Longrightarrow> a' ! k = a ! k" for k using within_outside [OF assms(2)] assms(3,4) by auto
  then show ?thesis using assms(1) unfolding sorted_part_def by (metis le_less_trans order_trans)
qed

lemma partitioned_within:
  assumes "partitioned x a start limit left right" "within s l a a'" "s \<le> l" "limit \<le> length a"
    "s = start \<and> l = right \<or> s = left \<and> l = limit"
  shows "partitioned x a' start limit left right"
proof -
  have p: "start < left" "left \<le> limit" "start \<le> right" "right < limit" "right \<le> left"
    "\<forall>k. start \<le> k \<and> k < left \<longrightarrow> le (a ! k) x" "\<forall>k. right \<le> k \<and> k < limit \<longrightarrow> le x (a ! k)"
    using assms(1) by (auto simp: partitioned_def)
  have "\<forall>k. start \<le> k \<and> k < left \<longrightarrow> le (a' ! k) x"
    by (rule within_keeps [OF assms(2,3)]) (use p assms(4,5) in auto)
  moreover have "\<forall>k. right \<le> k \<and> k < limit \<longrightarrow> le x (a' ! k)"
    by (rule within_keeps [OF assms(2,3)]) (use p assms(4,5) in auto)
  ultimately show ?thesis using p by (simp add: partitioned_def)
qed

lemma insertion_sorts_part:
  assumes "start \<le> limit" "limit \<le> length a"
  shows "within start limit a (doInsertionSort cmp start (limit - start) a)"
    "sorted_part start limit (doInsertionSort cmp start (limit - start) a)"
proof -
  define u v w where "u = take start a" and "v = take (limit - start) (drop start a)" and "w = drop limit a"
  have a: "a = u @ v @ w" using three_parts [OF assms(1)] by (simp add: u_def v_def w_def)
  have l: "length u = start" "length v = limit - start" using assms by (auto simp: u_def v_def)
  have sorted: "doInsertionSort cmp start (limit - start) a = u @ isort v @ w" using doInsertionSort_isort [of u v w] a l by simp
  show "within start limit a (doInsertionSort cmp start (limit - start) a)"
    unfolding within_def sorted using a l assms(1) by (simp add: isort_sorts)
  have "sorted_wrt le (isort v)" by (rule isort_sorts)
  then have "i < j \<Longrightarrow> start \<le> i \<Longrightarrow> j < limit \<Longrightarrow> le ((u @ isort v @ w) ! i) ((u @ isort v @ w) ! j)" for i j
    using l by (auto simp: nth_append sorted_wrt_iff_nth_less)
  then show "sorted_part start limit (doInsertionSort cmp start (limit - start) a)"
    unfolding sorted_part_def sorted by (metis le_refl order_le_less)
qed

definition sorts_part :: "nat \<Rightarrow> nat \<Rightarrow> 'a list \<Rightarrow> ('a list \<times> nat) option \<Rightarrow> (nat \<Rightarrow> bool) \<Rightarrow> bool" where
  "sorts_part s l a res Q \<longleftrightarrow> (\<exists>b d. res = Some (b, d) \<and> within s l a b \<and> sorted_part s l b \<and> Q d)"

lemma short_part_sorted: "\<not> s < l - 1 \<Longrightarrow> sorted_part s l a"
proof -
  assume "\<not> s < l - 1"
  then have "s \<le> i \<Longrightarrow> i \<le> j \<Longrightarrow> j < l \<Longrightarrow> i = j" for i j by linarith
  then show ?thesis unfolding sorted_part_def by (metis le_refl)
qed

lemma sorts_part_call:
  assumes "sorts_part s l a (subQuickSort cmp a s l) (\<lambda>d. d = 0 \<or> 2 ^ d \<le> l - s)"
  shows "sorts_part s l a
    (if s < l - 1 then Option.bind (subQuickSort cmp a s l) (\<lambda>(b, d). Some (b, d + 1)) else Some (a, 0)) (\<lambda>d. d = 0 \<or> 2 ^ d \<le> 2 * (l - s))"
  using assms short_part_sorted [of s l a] by (auto simp: sorts_part_def)

lemma sorts_part_loop:
  assumes "sorts_part s l a (subQuickSort cmp a s l) (\<lambda>d. d = 0 \<or> 2 ^ d \<le> l - s)"
  shows "sorts_part s l a
    (if s < l - 1 then Option.bind (subQuickSort cmp a s l) (\<lambda>(b, d'). Some (b, max d d')) else Some (a, d)) (\<lambda>e. e = d \<or> 2 ^ e \<le> l - s)"
  using assms short_part_sorted [of s l a] by (auto simp: sorts_part_def max_def)

lemma sorts_part_both:
  assumes p: "partitioned x a start limit left right" "limit \<le> length a"
    and parts: "s1 = start \<and> l1 = right \<and> s2 = left \<and> l2 = limit \<or> s1 = left \<and> l1 = limit \<and> s2 = start \<and> l2 = right"
    and size: "2 * (l1 - s1) \<le> limit - start" "2 \<le> limit - start"
    and first: "sorts_part s1 l1 a res1 (\<lambda>d. d = 0 \<or> 2 ^ d \<le> 2 * (l1 - s1))"
    and second: "\<And>b d. length b = length a \<Longrightarrow> sorts_part s2 l2 b (res2 b d) (\<lambda>e. e = d \<or> 2 ^ e \<le> l2 - s2)"
  shows "sorts_part start limit a (Option.bind res1 (\<lambda>(b, d). res2 b d)) (\<lambda>d. d = 0 \<or> 2 ^ d \<le> limit - start)"
proof -
  obtain b d where b: "res1 = Some (b, d)" "within s1 l1 a b" "sorted_part s1 l1 b" "d = 0 \<or> 2 ^ d \<le> 2 * (l1 - s1)"
    using first by (auto simp: sorts_part_def)
  have lb: "length b = length a" using b(2) by (simp add: within_def)
  obtain c e where c: "res2 b d = Some (c, e)" "within s2 l2 b c" "sorted_part s2 l2 c" "e = d \<or> 2 ^ e \<le> l2 - s2"
    using second [OF lb, of d] by (auto simp: sorts_part_def)
  have order: "start \<le> right" "right \<le> left" "left \<le> limit" "start < left" "right < limit" using p(1) by (auto simp: partitioned_def)
  have "partitioned x b start limit left right"
    by (rule partitioned_within [OF p(1) b(2)]) (use parts order p(2) in auto)
  then have "partitioned x c start limit left right"
    by (rule partitioned_within [OF _ c(2)]) (use parts order p(2) lb in auto)
  moreover have "sorted_part s1 l1 c" by (rule sorted_part_outside [OF b(3) c(2)]) (use parts order p(2) lb in auto)
  ultimately have "sorted_part start limit c" using sorted_part_join c(3) parts by blast
  moreover have "within start limit a c"
    by (rule within_trans [OF within_mono [OF b(2)] within_mono [OF c(2)]]) (use parts order in auto)
  moreover have "e = 0 \<or> 2 ^ e \<le> limit - start" using b(4) c(4) size parts order by (auto intro: order_trans)
  ultimately show ?thesis using b(1) c(1) by (simp add: sorts_part_def)
qed

lemma subQuickSort_sorts:
  assumes "start \<le> limit" "limit \<le> length a"
  shows "sorts_part start limit a (subQuickSort cmp a start limit) (\<lambda>d. d = 0 \<or> 2 ^ d \<le> limit - start)"
  using assms
proof (induction "limit - start" arbitrary: a start limit rule: less_induct)
  case less
  show ?case
  proof (cases "start + MIN_QSORT \<ge> limit")
    case True
    then show ?thesis using insertion_sorts_part [OF less.prems] by (subst subQuickSort.simps) (simp add: sorts_part_def)
  next
    case False
    define m where "m = (start + limit) div 2"
    define x where "x = a ! m"
    have m: "start \<le> m" "m < limit" "9 < limit - start" using False by (auto simp: m_def MIN_QSORT_def)
    have "partitioning x a start limit start limit"
      unfolding partitioning_def using m less.prems x_def by (auto intro!: exI [of _ m])
    then obtain b left right where b: "partition_loop cmp x a start limit = Some (b, left, right)" "within start limit a b"
      "partitioned x b start limit left right" using partition_loop_partitions by blast
    have order: "start \<le> right" "right \<le> left" "left \<le> limit" "start < left" "right < limit" using b(3) by (auto simp: partitioned_def)
    have lb: "length b = length a" using b(2) by (simp add: within_def)
    have ih: "length c = length a \<Longrightarrow> sorts_part start right c (subQuickSort cmp c start right) (\<lambda>d. d = 0 \<or> 2 ^ d \<le> right - start)"
      "length c = length a \<Longrightarrow> sorts_part left limit c (subQuickSort cmp c left limit) (\<lambda>d. d = 0 \<or> 2 ^ d \<le> limit - left)" for c
      using less.hyps [of right start c] less.hyps [of limit left c] order less.prems by auto
    have "sorts_part start limit b (subQuickSort cmp a start limit) (\<lambda>d. d = 0 \<or> 2 ^ d \<le> limit - start)"
    proof (cases "int right - int start < int limit - int left")
      case True
      have eq: "subQuickSort cmp a start limit = Option.bind
          (if start < right - 1 then Option.bind (subQuickSort cmp b start right) (\<lambda>(c, d). Some (c, d + 1)) else Some (b, 0))
          (\<lambda>(c, d). if left < limit - 1 then Option.bind (subQuickSort cmp c left limit) (\<lambda>(c', d'). Some (c', max d d')) else Some (c, d))"
        using True False b(1) by (subst subQuickSort.simps) (simp add: m_def [symmetric] x_def [symmetric])
      show ?thesis unfolding eq
        by (rule sorts_part_both [OF b(3) _ _ _ _ sorts_part_call [OF ih(1) [OF lb]] sorts_part_loop [OF ih(2)]])
           (use True m order lb less.prems in auto)
    next
      case larger: False
      have eq: "subQuickSort cmp a start limit = Option.bind
          (if left < limit - 1 then Option.bind (subQuickSort cmp b left limit) (\<lambda>(c, d). Some (c, d + 1)) else Some (b, 0))
          (\<lambda>(c, d). if start < right - 1 then Option.bind (subQuickSort cmp c start right) (\<lambda>(c', d'). Some (c', max d d')) else Some (c, d))"
        using larger False b(1) by (subst subQuickSort.simps) (simp add: m_def [symmetric] x_def [symmetric])
      show ?thesis unfolding eq
        by (rule sorts_part_both [OF b(3) _ _ _ _ sorts_part_call [OF ih(2) [OF lb]] sorts_part_loop [OF ih(1)]])
           (use larger m order lb less.prems in auto)
    qed
    then show ?thesis using within_trans [OF b(2)] by (auto simp: sorts_part_def)
  qed
qed

lemma quickSort_sorted:
  obtains b d where "subQuickSort cmp a 0 (length a) = Some (b, d)" "mset b = mset a" "sorted_wrt le b" "d = 0 \<or> 2 ^ d \<le> length a"
proof -
  obtain b d where b: "subQuickSort cmp a 0 (length a) = Some (b, d)" "within 0 (length a) a b" "sorted_part 0 (length a) b"
    "d = 0 \<or> 2 ^ d \<le> length a" using subQuickSort_sorts [of 0 "length a" a] by (auto simp: sorts_part_def)
  then have "sorted_wrt le b" by (auto simp: sorted_wrt_iff_nth_less sorted_part_def within_def)
  then show thesis using that b by (auto simp: within_def)
qed

lemma insertionSort_sorted:
  "doInsertionSort cmp 0 (length a) a = isort a"
  using doInsertionSort_isort [of "[]" a "[]"] by simp

end

interpretation uint16_order: item_order uprv_uint16Comparator
  by unfold_locales (auto simp: uprv_uint16Comparator_def)

interpretation uint32_order: item_order uprv_uint32Comparator
  by unfold_locales (auto simp: uprv_uint32Comparator_def split: if_splits)

interpretation sorti_order: item_order sortiComparator
  by unfold_locales (auto simp: sortiComparator_def split: if_splits)

lemma item_order_on: "item_order cmp \<Longrightarrow> item_order (\<lambda>x y. cmp (f x) (f y))"
  unfolding item_order_def by blast

section \<open>Properties\<close>

lemma le_cmp: "item_order cmp \<Longrightarrow> item_order.le cmp = (\<lambda>x y. cmp x y \<le> 0)"
  by (intro ext) (simp add: item_order.le_def)

lemma stable_sort_result:
  assumes "item_order cmp"
  shows "mset (doInsertionSort cmp 0 (length a) a) = mset a"
    "sorted_wrt (\<lambda>x y. cmp x y \<le> 0) (doInsertionSort cmp 0 (length a) a)"
    "filter (\<lambda>y. cmp y k = 0) (doInsertionSort cmp 0 (length a) a) = filter (\<lambda>y. cmp y k = 0) a"
  using item_order.isort_sorts [OF assms, of a] item_order.isort_stable [OF assms, of k a] le_cmp [OF assms]
  by (simp_all add: item_order.insertionSort_sorted [OF assms])

lemma quick_sort_result:
  assumes "item_order cmp"
  obtains b d where "subQuickSort cmp a 0 (length a) = Some (b, d)" "mset b = mset a" "sorted_wrt (\<lambda>x y. cmp x y \<le> 0) b"
    "d = 0 \<or> 2 ^ d \<le> length a"
  using item_order.quickSort_sorted [OF assms, of a] le_cmp [OF assms] by metis

lemma sortArray_result:
  assumes "item_order cmp" "U_SUCCESS ec" "0 \<le> n" "n \<le> int (length a)" "0 < itemSize"
  shows "\<exists>b ec'. uprv_sortArray h (Some a) n itemSize (Some cmp) sortStable ec = Some (Some b, ec') \<and>
    (if ec' = ec
     then mset (take (nat n) b) = mset (take (nat n) a) \<and> drop (nat n) b = drop (nat n) a \<and>
       sorted_wrt (\<lambda>x y. cmp x y \<le> 0) (take (nat n) b) \<and>
       (sortStable \<longrightarrow> (\<forall>k. filter (\<lambda>y. cmp y k = 0) (take (nat n) b) = filter (\<lambda>y. cmp y k = 0) (take (nat n) a)))
     else b = a \<and> ec' = U_MEMORY_ALLOCATION_ERROR \<and> STACK_ITEM_SIZE < itemSize)"
proof -
  let ?p = "take (nat n) a" and ?r = "drop (nat n) a"
  have len: "length ?p = nat n" using assms(3,4) by simp
  show ?thesis
  proof (cases "n \<le> 1")
    case True
    then have "sorted_wrt (\<lambda>x y. cmp x y \<le> 0) ?p" using len by (auto simp: sorted_wrt_iff_nth_less)
    then show ?thesis using True assms by (auto simp: uprv_sortArray_def)
  next
    case False
    have fin: "length b = nat n \<Longrightarrow> take (nat n) (b @ ?r) = b \<and> drop (nat n) (b @ ?r) = ?r" for b by simp
    obtain b d where q: "subQuickSort cmp ?p 0 (length ?p) = Some (b, d)" "mset b = mset ?p" "sorted_wrt (\<lambda>x y. cmp x y \<le> 0) b"
      by (rule quick_sort_result [OF assms(1), of ?p])
    have lb: "length b = nat n" using q(2) len by (metis size_mset)
    have li: "length (doInsertionSort cmp 0 (nat n) ?p) = nat n" using stable_sort_result(1) [OF assms(1), of ?p] len by (metis mset_eq_length)
    have ne: "U_MEMORY_ALLOCATION_ERROR \<noteq> ec" using assms(2) by auto
    show ?thesis
    proof (cases "n < int MIN_QSORT \<or> sortStable")
      case True
      then show ?thesis using False assms(2-5) ne len fin [OF li] stable_sort_result(1,2) [OF assms(1), of ?p] stable_sort_result(3) [OF assms(1), where a = ?p]
        by (auto simp: uprv_sortArray_def insertionSort_def Let_def)
    next
      case unstable: False
      then show ?thesis using False assms(2-5) ne q len fin [OF lb] by (auto simp: uprv_sortArray_def quickSort_def Let_def)
    qed
  qed
qed

text \<open>
  C23. Sorting: with a comparator that is an order, \<open>uprv_sortArray\<close> returns. It leaves the items behind the
  first \<open>n\<close> alone; the first \<open>n\<close> are permuted into ascending order, and equal items keep their order when a
  stable sort is asked for. The only failure is that there is no memory for an item larger than 200 bytes;
  then nothing is moved.
\<close>

theorem uprv_sortArray_sorts:
  assumes "item_order cmp" "U_SUCCESS ec" "0 \<le> n" "n \<le> int (length a)" "0 < itemSize"
  shows "\<exists>b ec'. uprv_sortArray h (Some a) n itemSize (Some cmp) sortStable ec = Some (Some b, ec') \<and>
    (if ec' = ec
     then mset (take (nat n) b) = mset (take (nat n) a) \<and> drop (nat n) b = drop (nat n) a \<and>
       sorted_wrt (\<lambda>x y. cmp x y \<le> 0) (take (nat n) b) \<and>
       (sortStable \<longrightarrow> (\<forall>k. filter (\<lambda>y. cmp y k = 0) (take (nat n) b) = filter (\<lambda>y. cmp y k = 0) (take (nat n) a)))
     else b = a \<and> ec' = U_MEMORY_ALLOCATION_ERROR \<and> STACK_ITEM_SIZE < itemSize)"
  by (rule sortArray_result [OF assms])

theorem uprv_sortArray_sorts_witness:
  "\<exists>b ec'. uprv_sortArray \<lparr>grants = \<lambda>n. False, junk = ()\<rparr> (Some [3, 1, 2, 7]) 3 4 (Some uprv_uint32Comparator) True U_ZERO_ERROR =
      Some (Some b, ec') \<and>
    (if ec' = U_ZERO_ERROR
     then mset (take (nat 3) b) = mset (take (nat 3) [3, 1, 2, 7]) \<and> drop (nat 3) b = drop (nat 3) [3, 1, 2, 7] \<and>
       sorted_wrt (\<lambda>x y. uprv_uint32Comparator x y \<le> 0) (take (nat 3) b) \<and>
       (True \<longrightarrow> (\<forall>k. filter (\<lambda>y. uprv_uint32Comparator y k = 0) (take (nat 3) b) =
          filter (\<lambda>y. uprv_uint32Comparator y k = 0) (take (nat 3) [3, 1, 2, 7])))
     else b = [3, 1, 2, 7] \<and> ec' = U_MEMORY_ALLOCATION_ERROR \<and> STACK_ITEM_SIZE < 4)"
  by (rule uprv_sortArray_sorts) (simp_all add: uint32_order.item_order_axioms)

text \<open>
  The public binary search: on an ascending array a result that is not negative is the largest index of
  an item equal to the given one, and a negative result is the complement of the place where it belongs.
\<close>

theorem uprv_stableBinarySearch_finds:
  assumes "item_order cmp" "sorted_wrt (\<lambda>x y. cmp x y \<le> 0) a"
  shows "\<exists>r. uprv_stableBinarySearch cmp ((!) a) (length a) item = r \<and>
    (if 0 \<le> r
     then nat r < length a \<and> cmp item (a ! nat r) = 0 \<and> (\<forall>k. nat r < k \<and> k < length a \<longrightarrow> cmp item (a ! k) < 0)
     else nat (- r - 1) \<le> length a \<and> (\<forall>k < nat (- r - 1). 0 < cmp item (a ! k)) \<and>
       (\<forall>k. nat (- r - 1) \<le> k \<and> k < length a \<longrightarrow> cmp item (a ! k) < 0))"
proof -
  have "item_order.ascending cmp ((!) a) (length a)"
    unfolding item_order.ascending_def [OF assms(1)] le_cmp [OF assms(1)]
  proof (intro allI impI, elim conjE)
    fix i j assume "i \<le> j" "j < length a"
    then show "cmp (a ! i) (a ! j) \<le> 0"
      using assms(2) item_order.cmp_refl [OF assms(1)] by (cases "i = j") (auto simp: sorted_wrt_iff_nth_less)
  qed
  then obtain p where p: "item_order.place cmp ((!) a) item (length a) p"
    "uprv_stableBinarySearch cmp ((!) a) (length a) item = (if \<exists>k < length a. cmp item (a ! k) = 0 then int p - 1 else - int p - 1)"
    "\<exists>k < length a. cmp item (a ! k) = 0 \<Longrightarrow> 0 < p \<and> cmp item (a ! (p - 1)) = 0"
    using item_order.stableBinarySearch_result [OF assms(1), where item = item] by metis
  have place: "p \<le> length a" "\<forall>k < p. cmp (a ! k) item \<le> 0" "\<forall>k. p \<le> k \<and> k < length a \<longrightarrow> cmp item (a ! k) < 0"
    using p(1) item_order.cmp_signs [OF assms(1)] by (auto simp: item_order.place_def [OF assms(1)] le_cmp [OF assms(1)])
  show ?thesis
  proof (cases "\<exists>k < length a. cmp item (a ! k) = 0")
    case True
    then have "0 < p" "cmp item (a ! (p - 1)) = 0" using p(3) by auto
    then show ?thesis using p(2) True place by (auto simp: nat_diff_distrib)
  next
    case False
    then have "\<forall>k < p. 0 < cmp item (a ! k)" using place(1,2) item_order.cmp_signs [OF assms(1)] le_cmp [OF assms(1)]
      by (metis linorder_cases not_less order_less_le_trans)
    then show ?thesis using p(2) False place by auto
  qed
qed

theorem uprv_stableBinarySearch_finds_witness:
  "\<exists>r. uprv_stableBinarySearch uprv_uint32Comparator ((!) [1, 3, 3, 5]) (length [1, 3, 3, 5 :: int]) 3 = r \<and>
    (if 0 \<le> r
     then nat r < length [1, 3, 3, 5 :: int] \<and> uprv_uint32Comparator 3 ([1, 3, 3, 5] ! nat r) = 0 \<and>
       (\<forall>k. nat r < k \<and> k < length [1, 3, 3, 5 :: int] \<longrightarrow> uprv_uint32Comparator 3 ([1, 3, 3, 5] ! k) < 0)
     else nat (- r - 1) \<le> length [1, 3, 3, 5 :: int] \<and> (\<forall>k < nat (- r - 1). 0 < uprv_uint32Comparator 3 ([1, 3, 3, 5] ! k)) \<and>
       (\<forall>k. nat (- r - 1) \<le> k \<and> k < length [1, 3, 3, 5 :: int] \<longrightarrow> uprv_uint32Comparator 3 ([1, 3, 3, 5] ! k) < 0))"
  by (rule uprv_stableBinarySearch_finds) (simp_all add: uint32_order.item_order_axioms uprv_uint32Comparator_def)

text \<open>
  C24. Quicksort ends, stays inside the array, and as it calls itself only for the smaller part, its calls are nested at
  most \<open>log\<^sub>2\<close> of the length deep.
\<close>

theorem quickSort_depth:
  assumes "item_order cmp"
  shows "\<exists>b depth. subQuickSort cmp a 0 (length a) = Some (b, depth) \<and> mset b = mset a \<and> sorted_wrt (\<lambda>x y. cmp x y \<le> 0) b \<and>
    (depth = 0 \<or> 2 ^ depth \<le> length a)"
  using quick_sort_result [OF assms, of a] by metis

theorem quickSort_depth_witness:
  "\<exists>b depth. subQuickSort uprv_uint16Comparator [9, 8, 7, 6, 5, 4, 3, 2, 1, 0, 11, 10] 0 (length [9, 8, 7, 6, 5, 4, 3, 2, 1, 0, 11, 10 :: int]) =
      Some (b, depth) \<and> mset b = mset [9, 8, 7, 6, 5, 4, 3, 2, 1, 0, 11, 10] \<and> sorted_wrt (\<lambda>x y. uprv_uint16Comparator x y \<le> 0) b \<and>
    (depth = 0 \<or> 2 ^ depth \<le> length [9, 8, 7, 6, 5, 4, 3, 2, 1, 0, 11, 10 :: int])"
  by (rule quickSort_depth) (rule uint16_order.item_order_axioms)

text \<open>
  The sorting methods of a vector: the elements are permuted into ascending order (in a stable way by
  \<^verbatim>\<open>sortWithUComparator\<close>), the vector stays well formed, and nothing is deleted.
\<close>

theorem UVector_sort_sorts:
  assumes "item_order cmp" "uvec_inv v" "U_SUCCESS ec"
  shows "\<exists>v'. UVector_sortArray h cmp sortStable v ec = Some (v', ec) \<and> uvec_inv v' \<and> mset (uview v') = mset (uview v) \<and>
    sorted_wrt (\<lambda>x y. cmp x y \<le> 0) (uview v') \<and> udeleted v' = udeleted v \<and>
    (sortStable \<longrightarrow> (\<forall>k. filter (\<lambda>y. cmp y k = 0) (uview v') = filter (\<lambda>y. cmp y k = 0) (uview v)))"
proof -
  have n: "0 \<le> ucount v" "ucount v \<le> int (length (uelements v))" using assms(2) by (auto simp: uvec_inv_def)
  obtain b ec' where b: "uprv_sortArray h (Some (uelements v)) (ucount v) sizeof_UElement (Some cmp) sortStable ec = Some (Some b, ec')"
    "if ec' = ec
     then mset (take (nat (ucount v)) b) = mset (take (nat (ucount v)) (uelements v)) \<and> drop (nat (ucount v)) b = drop (nat (ucount v)) (uelements v) \<and>
       sorted_wrt (\<lambda>x y. cmp x y \<le> 0) (take (nat (ucount v)) b) \<and>
       (sortStable \<longrightarrow> (\<forall>k. filter (\<lambda>y. cmp y k = 0) (take (nat (ucount v)) b) =
          filter (\<lambda>y. cmp y k = 0) (take (nat (ucount v)) (uelements v))))
     else b = uelements v \<and> ec' = U_MEMORY_ALLOCATION_ERROR \<and> STACK_ITEM_SIZE < sizeof_UElement"
    using sortArray_result [OF assms(1,3) n, of sizeof_UElement h sortStable] by (auto simp: sizeof_UElement_def)
  then have e: "ec' = ec" by (auto simp: STACK_ITEM_SIZE_def sizeof_UElement_def split: if_splits)
  have "length b = length (uelements v)"
    using b(2) e by (metis append_take_drop_id length_append size_mset)
  then show ?thesis using b e assms(2,3) by (auto simp: UVector_sortArray_def uvec_inv_def uview_def)
qed

theorem UVector_sort_sorts_witness:
  "\<exists>v'. UVector_sortArray \<lparr>grants = \<lambda>n. False, junk = ()\<rparr> (\<lambda>x y. sortiComparator (case_option 0 id x) (case_option 0 id y)) True
      \<lparr>ucount = 2, ucapacity = 3, uelements = [Some 5, Some 4, None], udeleter = True, ucomparer = None, udeleted = [], uinteger = (\<lambda>p. 0)\<rparr> U_ZERO_ERROR = Some (v', U_ZERO_ERROR) \<and>
    uvec_inv v' \<and>
    mset (uview v') = mset (uview \<lparr>ucount = 2, ucapacity = 3, uelements = [Some 5, Some 4, None], udeleter = True, ucomparer = None, udeleted = [], uinteger = (\<lambda>p. 0)\<rparr>) \<and>
    sorted_wrt (\<lambda>x y. sortiComparator (case_option 0 id x) (case_option 0 id y) \<le> 0) (uview v') \<and>
    udeleted v' = udeleted \<lparr>ucount = 2, ucapacity = 3, uelements = [Some 5, Some 4, None], udeleter = True, ucomparer = None, udeleted = [], uinteger = (\<lambda>p. 0)\<rparr> \<and>
    (True \<longrightarrow> (\<forall>k. filter (\<lambda>y. sortiComparator (case_option 0 id y) (case_option 0 id k) = 0) (uview v') =
      filter (\<lambda>y. sortiComparator (case_option 0 id y) (case_option 0 id k) = 0)
        (uview \<lparr>ucount = 2, ucapacity = 3, uelements = [Some 5, Some 4, None], udeleter = True, ucomparer = None, udeleted = [], uinteger = (\<lambda>p. 0)\<rparr>)))"
  by (rule UVector_sort_sorts)
     (simp_all add: item_order_on [OF sorti_order.item_order_axioms] uvec_inv_def sizeof_UElement_def INT32_MAX_def)

text \<open>
  The comparator for \<^verbatim>\<open>int32_t\<close> subtracts, which wraps around: an array of the smallest number and 1 is sorted in
  descending order.
\<close>

lemma int32Comparator_wraps:
  "0 < uprv_int32Comparator (-2147483648) 1"
  "uprv_sortArray \<lparr>grants = \<lambda>n. True, junk = ()\<rparr> (Some [-2147483648, 1]) 2 4 (Some uprv_int32Comparator) False U_ZERO_ERROR =
     Some (Some [1, -2147483648], U_ZERO_ERROR)"
  by code_simp+

end
