(* ===== verification/Utf8.thy ===== *)
theory Utf8
  imports Utf16 "HOL-Library.Monad_Syntax"
begin

text \<open>
  UTF-8: the macros of \<^verbatim>\<open>common/unicode/utf8.h\<close> and the functions behind them in \<^verbatim>\<open>common/utf_impl.c\<close>.
  A string is the list of its bytes, numbers from 0 to 255, and every read outside that list is
  \<open>None\<close>; a \<open>length\<close> below 0 says that the string ends before its first zero byte. A macro that
  assigns to its arguments is a function that returns their new values.

  Masks and shifts of non-negative numbers are written as \<open>mod\<close>, \<open>div\<close> and \<open>*\<close>, and a bitwise \<^verbatim>\<open>or\<close> of
  numbers without common bits as \<open>+\<close>.
\<close>

unbundle bit_operations_syntax

section \<open>Single bytes and code points\<close>

definition byte_at :: "int list \<Rightarrow> int \<Rightarrow> int option" where
  "byte_at s i = (if 0 \<le> i \<and> i < int (length s) then Some (s ! nat i) else None)"

definition U8_COUNT_TRAIL_BYTES :: "int \<Rightarrow> nat" where
  "U8_COUNT_TRAIL_BYTES leadByte =
     (if leadByte < 0xf0 then (if leadByte \<ge> 0xc0 then 1 else 0) + (if leadByte \<ge> 0xe0 then 1 else 0)
      else if leadByte < 0xfe then 3 + (if leadByte \<ge> 0xf8 then 1 else 0) + (if leadByte \<ge> 0xfc then 1 else 0)
      else 0)"

definition U8_MASK_LEAD_BYTE :: "int \<Rightarrow> nat \<Rightarrow> int" where
  "U8_MASK_LEAD_BYTE leadByte countTrailBytes = leadByte mod 2 ^ (6 - countTrailBytes)"

definition U8_IS_SINGLE :: "int \<Rightarrow> bool" where
  "U8_IS_SINGLE c \<longleftrightarrow> c < 0x80"

definition U8_IS_LEAD :: "int \<Rightarrow> bool" where
  "U8_IS_LEAD c \<longleftrightarrow> (c - 0xc0) mod 256 < 0x3e"

definition U8_IS_TRAIL :: "int \<Rightarrow> bool" where
  "U8_IS_TRAIL c \<longleftrightarrow> 0x80 \<le> c \<and> c < 0xc0"

text \<open>A code point is compared as \<^verbatim>\<open>uint32_t\<close>, in which a negative number is above all others.\<close>

definition unsigned_le :: "int \<Rightarrow> int \<Rightarrow> bool" where
  "unsigned_le c d \<longleftrightarrow> 0 \<le> c \<and> c \<le> d"

definition U8_LENGTH :: "int \<Rightarrow> int" where
  "U8_LENGTH c =
     (if unsigned_le c 0x7f then 1
      else if unsigned_le c 0x7ff then 2
      else if unsigned_le c 0xd7ff then 3
      else if unsigned_le c 0xdfff \<or> \<not> unsigned_le c 0x10ffff then 0
      else if unsigned_le c 0xffff then 3 else 4)"

definition U_IS_UNICODE_NONCHAR :: "int \<Rightarrow> bool" where
  "U_IS_UNICODE_NONCHAR c \<longleftrightarrow> c \<ge> 0xfdd0 \<and> (c \<le> 0xfdef \<or> c AND 0xfffe = 0xfffe) \<and> c \<le> 0x10ffff"

definition U_SENTINEL :: int where
  "U_SENTINEL = -1"

definition utf8_minLegal :: "int list" where
  "utf8_minLegal = [0, 0x80, 0x800, 0x10000]"

definition utf8_errorValue :: "int list" where
  "utf8_errorValue = [0x15, 0x9f, 0xffff, 0x10ffff, 0x3ffffff, 0x7fffffff]"

definition errorValue :: "nat \<Rightarrow> int \<Rightarrow> int" where
  "errorValue n strict =
     (if strict \<ge> 0 then utf8_errorValue ! n
      else if strict = -3 then 0xfffd
      else U_SENTINEL)"

section \<open>Reading forwards\<close>

text \<open>\<^verbatim>\<open>while(count>0 && U8_IS_TRAIL(s[i])) { ++i; --count; }\<close>\<close>

fun skip_trail :: "int list \<Rightarrow> int \<Rightarrow> nat \<Rightarrow> int option" where
  "skip_trail s i 0 = Some i"
| "skip_trail s i (Suc n) = do {
     b \<leftarrow> byte_at s i;
     if U8_IS_TRAIL b then skip_trail s (i + 1) n else Some i
   }"

text \<open>The \<^verbatim>\<open>uint8_t\<close> value \<^verbatim>\<open>s[i] - 0x80\<close>: at most \<open>0x3f\<close> for a trail byte.\<close>

definition trail_value :: "int \<Rightarrow> int" where
  "trail_value b = (b - 0x80) mod 256"

text \<open>
  The cases of the \<^verbatim>\<open>switch\<close>, each falling through to the next; \<open>Some None\<close> leaves it with an error.
\<close>

definition next_case1 :: "int list \<Rightarrow> int \<Rightarrow> int \<Rightarrow> nat \<Rightarrow> int \<Rightarrow> (int \<times> int) option option" where
  "next_case1 s i c n strict = do {
     b \<leftarrow> byte_at s i;
     let trail = trail_value b;
     let c' = push_bit 6 c OR trail;
     if trail > 0x3f then Some None
     else if c' \<ge> utf8_minLegal ! n \<and> (strict \<le> 0 \<or> \<not> U_IS_UNICODE_NONCHAR c') then Some (Some (c', i + 1))
     else Some None
   }"

definition next_case2 :: "int list \<Rightarrow> int \<Rightarrow> int \<Rightarrow> nat \<Rightarrow> int \<Rightarrow> (int \<times> int) option option" where
  "next_case2 s i c n strict = do {
     b \<leftarrow> byte_at s i;
     let trail = trail_value b;
     let c' = push_bit 6 c OR trail;
     if (c' AND 0xffe0 = 0x360 \<and> strict \<noteq> -2) \<or> trail > 0x3f then Some None
     else next_case1 s (i + 1) c' n strict
   }"

definition next_case3 :: "int list \<Rightarrow> int \<Rightarrow> int \<Rightarrow> nat \<Rightarrow> int \<Rightarrow> (int \<times> int) option option" where
  "next_case3 s i c n strict = do {
     b \<leftarrow> byte_at s i;
     let trail = trail_value b;
     let c' = push_bit 6 c OR trail;
     if c' \<ge> 0x110 \<or> trail > 0x3f then Some None
     else next_case2 s (i + 1) c' n strict
   }"

definition next_switch :: "int list \<Rightarrow> int \<Rightarrow> int \<Rightarrow> nat \<Rightarrow> int \<Rightarrow> (int \<times> int) option option" where
  "next_switch s i c n strict =
     (if n = 3 then next_case3 s i c n strict
      else if n = 2 then next_case2 s i c n strict
      else if n = 1 then next_case1 s i c n strict
      else Some None)"

text \<open>The code point (or the error value) and the index behind it.\<close>

definition utf8_nextCharSafeBody :: "int list \<Rightarrow> int \<Rightarrow> int \<Rightarrow> int \<Rightarrow> int \<Rightarrow> (int \<times> int) option" where
  "utf8_nextCharSafeBody s i len c strict = (
     let n = U8_COUNT_TRAIL_BYTES c in do {
       r \<leftarrow> (if i + int n \<le> len \<or> len < 0 then next_switch s i (U8_MASK_LEAD_BYTE c n) n strict else Some None);
       case r of
         Some (c', i') \<Rightarrow> Some (c', i')
       | None \<Rightarrow> do {
           i' \<leftarrow> skip_trail s i (if i + int n \<le> len \<or> len < 0 then n else nat (len - i));
           Some (errorValue (nat (i' - i)) strict, i')
         }
     })"

text \<open>
  The two forms that \<^verbatim>\<open>U8_NEXT\<close> handles inline: three bytes for U+1000..U+CFFF and two bytes. A cast
  to \<^verbatim>\<open>UChar\<close> keeps the lower 16 bits.
\<close>

definition U8_NEXT_strict :: "int \<Rightarrow> int list \<Rightarrow> int \<Rightarrow> int \<Rightarrow> (int \<times> int) option" where
  "U8_NEXT_strict strict s i0 len = do {
     c \<leftarrow> byte_at s i0;
     let i = i0 + 1;
     if c < 0x80 then Some (c, i)
     else do {
       three \<leftarrow> (if (0xe0 < c \<and> c \<le> 0xec) \<and> (i + 1 < len \<or> len < 0) then do {
           b1 \<leftarrow> byte_at s i;
           if trail_value b1 \<le> 0x3f then do {
             b2 \<leftarrow> byte_at s (i + 1);
             Some (if trail_value b2 \<le> 0x3f then Some (c * 4096 + trail_value b1 * 64 + trail_value b2) else None)
           } else Some None
         } else Some None);
       case three of
         Some c3 \<Rightarrow> Some (c3 mod 0x10000, i + 2)
       | None \<Rightarrow> do {
           two \<leftarrow> (if (c < 0xe0 \<and> c \<ge> 0xc2) \<and> i \<noteq> len then do {
               b1 \<leftarrow> byte_at s i;
               Some (if trail_value b1 \<le> 0x3f then Some (c mod 32 * 64 + trail_value b1) else None)
             } else Some None);
           case two of
             Some c2 \<Rightarrow> Some (c2, i + 1)
           | None \<Rightarrow> utf8_nextCharSafeBody s i len c strict
         }
     }
   }"

definition U8_NEXT :: "int list \<Rightarrow> int \<Rightarrow> int \<Rightarrow> (int \<times> int) option" where
  "U8_NEXT = U8_NEXT_strict (-1)"

definition U8_NEXT_OR_FFFD :: "int list \<Rightarrow> int \<Rightarrow> int \<Rightarrow> (int \<times> int) option" where
  "U8_NEXT_OR_FFFD = U8_NEXT_strict (-3)"

definition U8_FWD_1 :: "int list \<Rightarrow> int \<Rightarrow> int \<Rightarrow> int option" where
  "U8_FWD_1 s i0 len = do {
     b \<leftarrow> byte_at s i0;
     let i = i0 + 1;
     if U8_IS_LEAD b then
       let n = U8_COUNT_TRAIL_BYTES b in
       skip_trail s i (if i + int n > len \<and> len \<ge> 0 then nat (len - i) else n)
     else Some i
   }"

fun U8_FWD_N :: "int list \<Rightarrow> int \<Rightarrow> int \<Rightarrow> nat \<Rightarrow> int option" where
  "U8_FWD_N s i len 0 = Some i"
| "U8_FWD_N s i len (Suc n) = do {
     more \<leftarrow> (if i < len then Some True else if len < 0 then do { b \<leftarrow> byte_at s i; Some (b \<noteq> 0) } else Some False);
     if more then do { i' \<leftarrow> U8_FWD_1 s i len; U8_FWD_N s i' len n } else Some i
   }"

section \<open>Reading backwards\<close>

text \<open>
  \<open>i\<close> is behind the next byte to read; \<open>i0\<close> is what \<^verbatim>\<open>*pi\<close> holds.
\<close>

function prev_loop :: "int list \<Rightarrow> int \<Rightarrow> int \<Rightarrow> int \<Rightarrow> int \<Rightarrow> nat \<Rightarrow> nat \<Rightarrow> int \<Rightarrow> (int \<times> int) option" where
  "prev_loop s start i0 i c n shift strict =
     (if i \<le> start then Some (errorValue 0 strict, i0)
      else do {
        b \<leftarrow> byte_at s (i - 1);
        if (b - 0x80) mod 256 < 0x7e then
          if b AND 0x40 \<noteq> 0 then
            let shouldCount = U8_COUNT_TRAIL_BYTES b in
            if n = shouldCount then
              let c' = c OR push_bit shift (U8_MASK_LEAD_BYTE b n) in
              if n \<ge> 4 \<or> c' > 0x10ffff \<or> c' < utf8_minLegal ! n \<or> (is_surrogate c' \<and> strict \<noteq> -2) \<or>
                 (strict > 0 \<and> U_IS_UNICODE_NONCHAR c')
              then Some (errorValue (if n \<ge> 4 then 3 else n) strict, i - 1)
              else Some (c', i - 1)
            else if n < shouldCount then Some (errorValue n strict, i - 1)
            else Some (errorValue 0 strict, i0)
          else if n < 5 then prev_loop s start i0 (i - 1) (c OR push_bit shift (b mod 64)) (n + 1) (shift + 6) strict
          else Some (errorValue 0 strict, i0)
        else Some (errorValue 0 strict, i0)
      })"
  by auto
termination by (relation "measure (\<lambda>(s, start, i0, i, c, n, shift, strict). 5 - n)") auto

declare prev_loop.simps [simp del]

definition utf8_prevCharSafeBody :: "int list \<Rightarrow> int \<Rightarrow> int \<Rightarrow> int \<Rightarrow> int \<Rightarrow> (int \<times> int) option" where
  "utf8_prevCharSafeBody s start i c strict =
     (if \<not> U8_IS_TRAIL c then Some (errorValue 0 strict, i)
      else prev_loop s start i i (c mod 64) 1 6 strict)"

definition U8_PREV_strict :: "int \<Rightarrow> int list \<Rightarrow> int \<Rightarrow> int \<Rightarrow> (int \<times> int) option" where
  "U8_PREV_strict strict s start i0 = do {
     let i = i0 - 1;
     c \<leftarrow> byte_at s i;
     if c \<ge> 0x80 then utf8_prevCharSafeBody s start i c strict else Some (c, i)
   }"

definition U8_PREV :: "int list \<Rightarrow> int \<Rightarrow> int \<Rightarrow> (int \<times> int) option" where
  "U8_PREV = U8_PREV_strict (-1)"

definition U8_PREV_OR_FFFD :: "int list \<Rightarrow> int \<Rightarrow> int \<Rightarrow> (int \<times> int) option" where
  "U8_PREV_OR_FFFD = U8_PREV_strict (-3)"

function back1_loop :: "int list \<Rightarrow> int \<Rightarrow> int \<Rightarrow> int \<Rightarrow> int option" where
  "back1_loop s Z i I = do {
     b \<leftarrow> byte_at s I;
     if (b - 0x80) mod 256 \<ge> 0x7e then Some i
     else if b \<ge> 0xc0 then (if int (U8_COUNT_TRAIL_BYTES b) \<ge> i - I then Some I else Some i)
     else if Z \<le> I - 1 then back1_loop s Z i (I - 1) else Some i
   }"
  by auto
termination by (relation "measure (\<lambda>(s, Z, i, I). nat (I - Z))") auto

declare back1_loop.simps [simp del]

definition utf8_back1SafeBody :: "int list \<Rightarrow> int \<Rightarrow> int \<Rightarrow> int option" where
  "utf8_back1SafeBody s start i = back1_loop s (if i - 5 > start then i - 5 else start) i i"

definition U8_SET_CP_START :: "int list \<Rightarrow> int \<Rightarrow> int \<Rightarrow> int option" where
  "U8_SET_CP_START s start i = do {
     b \<leftarrow> byte_at s i;
     if U8_IS_TRAIL b then utf8_back1SafeBody s start i else Some i
   }"

definition U8_BACK_1 :: "int list \<Rightarrow> int \<Rightarrow> int \<Rightarrow> int option" where
  "U8_BACK_1 s start i = U8_SET_CP_START s start (i - 1)"

fun U8_BACK_N :: "int list \<Rightarrow> int \<Rightarrow> int \<Rightarrow> nat \<Rightarrow> int option" where
  "U8_BACK_N s start i 0 = Some i"
| "U8_BACK_N s start i (Suc n) =
     (if i > start then do { i' \<leftarrow> U8_BACK_1 s start i; U8_BACK_N s start i' n } else Some i)"

definition U8_SET_CP_LIMIT :: "int list \<Rightarrow> int \<Rightarrow> int \<Rightarrow> int \<Rightarrow> int option" where
  "U8_SET_CP_LIMIT s start i len = do {
     inside \<leftarrow> (if start < i then
         (if i < len then Some True else if len < 0 then do { b \<leftarrow> byte_at s i; Some (b \<noteq> 0) } else Some False)
       else Some False);
     if inside then do { i' \<leftarrow> U8_BACK_1 s start i; U8_FWD_1 s i' len } else Some i
   }"

definition U8_GET :: "int list \<Rightarrow> int \<Rightarrow> int \<Rightarrow> int \<Rightarrow> int option" where
  "U8_GET s start i len = do {
     i' \<leftarrow> U8_SET_CP_START s start i;
     (c, i'') \<leftarrow> U8_NEXT s i' len;
     Some c
   }"

section \<open>Writing\<close>

text \<open>The bytes of \<^verbatim>\<open>U8_APPEND_UNSAFE\<close>, for code points up to U+10FFFF.\<close>

definition utf8_bytes :: "int \<Rightarrow> int list" where
  "utf8_bytes c =
     (if unsigned_le c 0x7f then [c]
      else if unsigned_le c 0x7ff then [c div 64 + 0xc0, c mod 64 + 0x80]
      else if unsigned_le c 0xffff then [c div 4096 + 0xe0, c div 64 mod 64 + 0x80, c mod 64 + 0x80]
      else [c div 262144 + 0xf0, c div 4096 mod 64 + 0x80, c div 64 mod 64 + 0x80, c mod 64 + 0x80])"

fun write_bytes :: "int list \<Rightarrow> int \<Rightarrow> int list \<Rightarrow> (int list \<times> int) option" where
  "write_bytes s i [] = Some (s, i)"
| "write_bytes s i (b # bs) =
     (if 0 \<le> i \<and> i < int (length s) then write_bytes (s[nat i := b]) (i + 1) bs else None)"

text \<open>
  \<open>isError = None\<close> is a null pointer \<^verbatim>\<open>pIsError\<close>. The result is the string, the index and \<^verbatim>\<open>*pIsError\<close>.
\<close>

definition utf8_appendCharSafeBody :: "int list \<Rightarrow> int \<Rightarrow> int \<Rightarrow> int \<Rightarrow> bool option \<Rightarrow> (int list \<times> int \<times> bool option) option" where
  "utf8_appendCharSafeBody s i len c isError =
     (let bytes =
        (if unsigned_le c 0x7ff then (if i + 1 < len then Some [c div 64 + 0xc0, c mod 64 + 0x80] else None)
         else if unsigned_le c 0xffff then
           (if i + 2 < len \<and> \<not> is_surrogate c
            then Some [c div 4096 + 0xe0, c div 64 mod 64 + 0x80, c mod 64 + 0x80] else None)
         else if unsigned_le c 0x10ffff then
           (if i + 3 < len
            then Some [c div 262144 + 0xf0, c div 4096 mod 64 + 0x80, c div 64 mod 64 + 0x80, c mod 64 + 0x80] else None)
         else None)
      in case bytes of
           Some bs \<Rightarrow> map_option (\<lambda>(s', i'). (s', i', isError)) (write_bytes s i bs)
         | None \<Rightarrow>
             (case isError of
                Some _ \<Rightarrow> Some (s, i, Some True)
              | None \<Rightarrow>
                  if len - i > 0
                  then map_option (\<lambda>(s', i'). (s', i', None)) (write_bytes s i (utf8_bytes (utf8_errorValue ! nat (min (len - i) 3 - 1))))
                  else Some (s, i, None)))"

definition U8_APPEND :: "int list \<Rightarrow> int \<Rightarrow> int \<Rightarrow> int \<Rightarrow> bool \<Rightarrow> (int list \<times> int \<times> bool) option" where
  "U8_APPEND s i capacity c isError =
     (if unsigned_le c 0x7f then map_option (\<lambda>(s', i'). (s', i', isError)) (write_bytes s i [c])
      else if unsigned_le c 0x7ff \<and> i + 1 < capacity
      then map_option (\<lambda>(s', i'). (s', i', isError)) (write_bytes s i [c div 64 + 0xc0, c mod 64 + 0x80])
      else if unsigned_le c 0xd7ff \<and> i + 2 < capacity
      then map_option (\<lambda>(s', i'). (s', i', isError))
             (write_bytes s i [c div 4096 + 0xe0, c div 64 mod 64 + 0x80, c mod 64 + 0x80])
      else map_option (\<lambda>(s', i', e). (s', i', the e)) (utf8_appendCharSafeBody s i capacity c (Some isError)))"

section \<open>Arithmetic of the encoding\<close>

definition bytes :: "int list \<Rightarrow> bool" where
  "bytes s \<longleftrightarrow> (\<forall>b \<in> set s. 0 \<le> b \<and> b < 256)"

lemma bytes_simps [simp]: "bytes []" "bytes (b # s) \<longleftrightarrow> 0 \<le> b \<and> b < 256 \<and> bytes s" "bytes (s @ t) \<longleftrightarrow> bytes s \<and> bytes t"
  by (auto simp: bytes_def)

lemma push_or: "0 \<le> t \<Longrightarrow> t < 64 \<Longrightarrow> push_bit 6 c OR t = c * 64 + t" for c t :: int
proof -
  assume "0 \<le> t" "t < 64"
  then have t: "t = take_bit 6 t" by (simp add: take_bit_eq_mod)
  have "push_bit 6 c AND t = 0" by (subst t) (rule bit_eqI, auto simp: bit_simps)
  then have "push_bit 6 c OR t = push_bit 6 c + t" by (simp add: disjunctive_add_eq_or)
  then show ?thesis by (simp add: push_bit_eq_mult)
qed

lemma surrogate_mask: "0 \<le> c \<Longrightarrow> c < 0x10000 \<Longrightarrow> c AND 0xffe0 = 0x360 \<longleftrightarrow> 0x360 \<le> c \<and> c < 0x380" for c :: int
proof -
  assume c: "0 \<le> c" "c < 0x10000"
  have "(0xffe0 :: int) = push_bit 5 (mask 11)" by (simp add: push_bit_eq_mult mask_eq_exp_minus_1)
  moreover have "c AND push_bit 5 (mask 11) = push_bit 5 (take_bit 11 (drop_bit 5 c))" by (rule bit_eqI) (auto simp: bit_simps)
  ultimately have "c AND 0xffe0 = c div 32 mod 2048 * 32" by (simp add: push_bit_eq_mult take_bit_eq_mod drop_bit_eq_div)
  moreover have "c div 32 mod 2048 = c div 32" using c by simp
  ultimately have "c AND 0xffe0 = 0x360 \<longleftrightarrow> c div 32 = 27" by auto
  then show ?thesis using c by auto
qed

lemma trail_value_trail:
  assumes "0 \<le> b" "b < 256"
  shows "trail_value b \<le> 0x3f \<longleftrightarrow> U8_IS_TRAIL b" "U8_IS_TRAIL b \<Longrightarrow> trail_value b = b - 0x80"
proof -
  have "b < 0x80 \<Longrightarrow> (b - 0x80) mod 256 = b + 0x80" using assms mod_pos_pos_trivial [of "b + 0x80" 256] mod_add_self2 [of "b - 0x80" 256] by simp
  then show "trail_value b \<le> 0x3f \<longleftrightarrow> U8_IS_TRAIL b" using assms by (cases "b < 0x80") (auto simp: trail_value_def U8_IS_TRAIL_def)
  show "U8_IS_TRAIL b \<Longrightarrow> trail_value b = b - 0x80" by (simp add: trail_value_def U8_IS_TRAIL_def)
qed

lemma digits64: "0 \<le> t \<Longrightarrow> t < 64 \<Longrightarrow> (x * 64 + t) div 64 = x \<and> (x * 64 + t) mod 64 = t" for x t :: int
  by simp

lemma mod_shift: "0 \<le> q \<Longrightarrow> q < m \<Longrightarrow> (q + k * m) mod m = q" for q k m :: int
  by simp

lemma div_pow64: "c div 4096 = c div 64 div 64" "c div 262144 = c div 64 div 64 div 64" for c :: int
  by (simp_all add: zdiv_zmult2_eq [symmetric])

text \<open>The byte sequences of two, three and four bytes that encode a scalar value.\<close>

lemma decode2:
  assumes "0xc2 \<le> b0" "b0 < 0xe0" "U8_IS_TRAIL b1"
  shows "scalar (b0 mod 32 * 64 + (b1 - 0x80))" "utf8_bytes (b0 mod 32 * 64 + (b1 - 0x80)) = [b0, b1]"
proof -
  have b0: "b0 mod 32 = b0 - 0xc0" using assms mod_shift [of "b0 - 0xc0" 32 6] by simp
  have "0 \<le> b1 - 0x80" "b1 - 0x80 < 64" using assms(3) by (auto simp: U8_IS_TRAIL_def)
  moreover from this have "0x80 \<le> (b0 - 0xc0) * 64 + (b1 - 0x80)" "(b0 - 0xc0) * 64 + (b1 - 0x80) \<le> 0x7ff" using assms(1,2) by auto
  ultimately show "scalar (b0 mod 32 * 64 + (b1 - 0x80))" "utf8_bytes (b0 mod 32 * 64 + (b1 - 0x80)) = [b0, b1]"
    using digits64 [of "b1 - 0x80" "b0 - 0xc0"]
    by (simp_all add: b0 scalar_def is_surrogate_def utf8_bytes_def unsigned_le_def)
qed

lemma decode3:
  assumes "0xe0 \<le> b0" "b0 < 0xf0" "U8_IS_TRAIL b1" "U8_IS_TRAIL b2"
    and c: "c = (b0 mod 16 * 64 + (b1 - 0x80)) * 64 + (b2 - 0x80)" "0x800 \<le> c" "\<not> is_surrogate c"
  shows "scalar c" "utf8_bytes c = [b0, b1, b2]"
proof -
  have b0: "b0 mod 16 = b0 - 0xe0" using assms(1,2) mod_shift [of "b0 - 0xe0" 16 14] by simp
  have t: "0 \<le> b1 - 0x80" "b1 - 0x80 < 64" "0 \<le> b2 - 0x80" "b2 - 0x80 < 64" using assms(3,4) by (auto simp: U8_IS_TRAIL_def)
  have "c \<le> 0xffff" using t b0 assms(2) c(1) by auto
  moreover have "c div 64 = (b0 - 0xe0) * 64 + (b1 - 0x80)" "c mod 64 = b2 - 0x80"
    unfolding c(1) b0 using digits64 [OF t(3,4), of "(b0 - 0xe0) * 64 + (b1 - 0x80)"] by blast+
  moreover have "c div 4096 = b0 - 0xe0" "c div 64 mod 64 = b1 - 0x80"
    unfolding div_pow64 calculation(2) using digits64 [OF t(1,2), of "b0 - 0xe0"] by blast+
  ultimately show "scalar c" "utf8_bytes c = [b0, b1, b2]" using c(2,3) by (simp_all add: scalar_def utf8_bytes_def unsigned_le_def)
qed

lemma decode4:
  assumes "0xf0 \<le> b0" "b0 < 0xf8" "U8_IS_TRAIL b1" "U8_IS_TRAIL b2" "U8_IS_TRAIL b3"
    and c: "c = ((b0 mod 8 * 64 + (b1 - 0x80)) * 64 + (b2 - 0x80)) * 64 + (b3 - 0x80)" "0x10000 \<le> c" "c \<le> 0x10ffff"
  shows "scalar c" "utf8_bytes c = [b0, b1, b2, b3]"
proof -
  have b0: "b0 mod 8 = b0 - 0xf0" using assms(1,2) mod_shift [of "b0 - 0xf0" 8 30] by simp
  have t: "0 \<le> b1 - 0x80" "b1 - 0x80 < 64" "0 \<le> b2 - 0x80" "b2 - 0x80 < 64" "0 \<le> b3 - 0x80" "b3 - 0x80 < 64"
    using assms(3-5) by (auto simp: U8_IS_TRAIL_def)
  have 1: "c div 64 = ((b0 - 0xf0) * 64 + (b1 - 0x80)) * 64 + (b2 - 0x80)" "c mod 64 = b3 - 0x80"
    unfolding c(1) b0 using digits64 [OF t(5,6), of "((b0 - 0xf0) * 64 + (b1 - 0x80)) * 64 + (b2 - 0x80)"] by blast+
  have 2: "c div 4096 = (b0 - 0xf0) * 64 + (b1 - 0x80)" "c div 64 mod 64 = b2 - 0x80"
    unfolding div_pow64 1(1) using digits64 [OF t(3,4), of "(b0 - 0xf0) * 64 + (b1 - 0x80)"] by blast+
  have "c div 262144 = c div 4096 div 64" by (simp add: div_pow64)
  then have 3: "c div 262144 = b0 - 0xf0" "c div 4096 mod 64 = b1 - 0x80"
    unfolding 2(1) using digits64 [OF t(1,2), of "b0 - 0xf0"] by simp_all
  show "scalar c" using c(2,3) by (simp add: scalar_def is_surrogate_def)
  have "utf8_bytes c = [c div 262144 + 0xf0, c div 4096 mod 64 + 0x80, c div 64 mod 64 + 0x80, c mod 64 + 0x80]"
    using c(2) unfolding utf8_bytes_def unsigned_le_def by auto
  then show "utf8_bytes c = [b0, b1, b2, b3]" unfolding 3 2(2) 1(2) by simp
qed

section \<open>The reference decoder\<close>

text \<open>The scalar value that a list of bytes begins with.\<close>

definition decode_first :: "int list \<Rightarrow> int option" where
  "decode_first w =
     (case w of
        [] \<Rightarrow> None
      | b0 # r \<Rightarrow>
          if b0 < 0x80 then Some b0
          else if 0xc2 \<le> b0 \<and> b0 < 0xe0 then
            (case r of b1 # _ \<Rightarrow> if U8_IS_TRAIL b1 then Some (b0 mod 32 * 64 + (b1 - 0x80)) else None | _ \<Rightarrow> None)
          else if 0xe0 \<le> b0 \<and> b0 < 0xf0 then
            (case r of b1 # b2 # _ \<Rightarrow>
               let c = (b0 mod 16 * 64 + (b1 - 0x80)) * 64 + (b2 - 0x80) in
               if U8_IS_TRAIL b1 \<and> U8_IS_TRAIL b2 \<and> 0x800 \<le> c \<and> \<not> is_surrogate c then Some c else None
             | _ \<Rightarrow> None)
          else if 0xf0 \<le> b0 \<and> b0 < 0xf8 then
            (case r of b1 # b2 # b3 # _ \<Rightarrow>
               let c = ((b0 mod 8 * 64 + (b1 - 0x80)) * 64 + (b2 - 0x80)) * 64 + (b3 - 0x80) in
               if U8_IS_TRAIL b1 \<and> U8_IS_TRAIL b2 \<and> U8_IS_TRAIL b3 \<and> 0x10000 \<le> c \<and> c \<le> 0x10ffff then Some c else None
             | _ \<Rightarrow> None)
          else None)"

lemma decode_first_sound:
  assumes "bytes w" "decode_first w = Some c"
  shows "scalar c \<and> (\<exists>rest. w = utf8_bytes c @ rest)"
proof -
  obtain b0 r where w: "w = b0 # r" using assms(2) by (cases w) (auto simp: decode_first_def)
  consider "b0 < 0x80" | "0xc2 \<le> b0" "b0 < 0xe0" | "0xe0 \<le> b0" "b0 < 0xf0" | "0xf0 \<le> b0" "b0 < 0xf8"
    using assms(2) w by (fastforce simp: decode_first_def split: if_splits)
  then show ?thesis
  proof cases
    case 1
    then show ?thesis using assms w by (auto simp: decode_first_def scalar_def is_surrogate_def utf8_bytes_def unsigned_le_def)
  next
    case 2
    then show ?thesis using assms w decode2 by (auto simp: decode_first_def split: list.splits if_splits)
  next
    case 3
    then show ?thesis using assms(2) w decode3 [OF 3] by (auto simp: decode_first_def Let_def split: list.splits if_splits)
  next
    case 4
    then show ?thesis using assms(2) w decode4 [OF 4] by (auto simp: decode_first_def Let_def split: list.splits if_splits)
  qed
qed

lemma decode_first_3:
  assumes "0xe0 \<le> b0" "b0 < 0xf0" "U8_IS_TRAIL b1" "U8_IS_TRAIL b2"
    "(b0 mod 16 * 64 + (b1 - 0x80)) * 64 + (b2 - 0x80) = c" "0x800 \<le> c" "\<not> is_surrogate c"
  shows "decode_first (b0 # b1 # b2 # r) = Some c"
  using assms(1-4,6,7) unfolding assms(5) [symmetric] by (simp add: decode_first_def Let_def)

lemma decode_first_4:
  assumes "0xf0 \<le> b0" "b0 < 0xf8" "U8_IS_TRAIL b1" "U8_IS_TRAIL b2" "U8_IS_TRAIL b3"
    "((b0 mod 8 * 64 + (b1 - 0x80)) * 64 + (b2 - 0x80)) * 64 + (b3 - 0x80) = c" "0x10000 \<le> c" "c \<le> 0x10ffff"
  shows "decode_first (b0 # b1 # b2 # b3 # r) = Some c"
  using assms(1-5,7,8) unfolding assms(6) [symmetric] by (simp add: decode_first_def Let_def)

lemma trail_digit: "0 \<le> x \<Longrightarrow> x < 64 \<Longrightarrow> U8_IS_TRAIL (x + 0x80)"
  by (simp add: U8_IS_TRAIL_def)

lemma decode_digits3:
  assumes "0 \<le> q" "q < 16" "0 \<le> x" "x < 64" "0 \<le> y" "y < 64" "(q * 64 + x) * 64 + y = c" "0x800 \<le> c" "\<not> is_surrogate c"
  shows "decode_first ((q + 0xe0) # (x + 0x80) # (y + 0x80) # r) = Some c"
proof (rule decode_first_3)
  show "((q + 0xe0) mod 16 * 64 + (x + 0x80 - 0x80)) * 64 + (y + 0x80 - 0x80) = c"
    using assms(7) mod_shift [OF assms(1,2), of 14] by simp
qed (use assms trail_digit in auto)

lemma decode_digits4:
  assumes "0 \<le> q" "q < 8" "0 \<le> x" "x < 64" "0 \<le> y" "y < 64" "0 \<le> z" "z < 64" "((q * 64 + x) * 64 + y) * 64 + z = c"
    "0x10000 \<le> c" "c \<le> 0x10ffff"
  shows "decode_first ((q + 0xf0) # (x + 0x80) # (y + 0x80) # (z + 0x80) # r) = Some c"
proof (rule decode_first_4)
  show "(((q + 0xf0) mod 8 * 64 + (x + 0x80 - 0x80)) * 64 + (y + 0x80 - 0x80)) * 64 + (z + 0x80 - 0x80) = c"
    using assms(9) mod_shift [OF assms(1,2), of 30] by simp
qed (use assms trail_digit in auto)

lemma decode_first_complete:
  assumes "scalar c"
  shows "decode_first (utf8_bytes c @ rest) = Some c"
proof -
  have c: "0 \<le> c" "c \<le> 0x10ffff" using assms by (auto simp: scalar_def)
  have d: "c = c div 64 * 64 + c mod 64" "c div 64 = c div 4096 * 64 + c div 64 mod 64" "c div 4096 = c div 262144 * 64 + c div 4096 mod 64"
    by (simp_all add: div_pow64)
  have m: "0 \<le> x mod 64" "x mod 64 < 64" for x :: int by simp_all
  consider "c \<le> 0x7f" | "0x7f < c" "c \<le> 0x7ff" | "0x7ff < c" "c \<le> 0xffff" | "0xffff < c" by linarith
  then show ?thesis
  proof cases
    case 1
    then show ?thesis using c by (simp add: utf8_bytes_def unsigned_le_def decode_first_def)
  next
    case 2
    have q: "2 \<le> c div 64" "c div 64 < 32" using 2 by auto
    have "(c div 64 + 0xc0) mod 32 = c div 64" using q mod_shift [of "c div 64" 32 6] by simp
    then have "(c div 64 + 0xc0) mod 32 * 64 + c mod 64 = c" by simp
    then show ?thesis using 2 c q trail_digit [OF m] by (simp add: utf8_bytes_def unsigned_le_def decode_first_def)
  next
    case 3
    have "0 \<le> c div 4096" "c div 4096 < 16" using 3 c by auto
    moreover have "(c div 4096 * 64 + c div 64 mod 64) * 64 + c mod 64 = c" using d(1,2) by metis
    moreover have "\<not> is_surrogate c" "0x800 \<le> c" using assms 3 by (simp_all add: scalar_def)
    ultimately have "decode_first ((c div 4096 + 0xe0) # (c div 64 mod 64 + 0x80) # (c mod 64 + 0x80) # rest) = Some c"
      using decode_digits3 m by blast
    moreover have "utf8_bytes c = [c div 4096 + 0xe0, c div 64 mod 64 + 0x80, c mod 64 + 0x80]"
      using 3 c unfolding utf8_bytes_def unsigned_le_def by auto
    ultimately show ?thesis by (simp only: append.simps)
  next
    case 4
    have "0 \<le> c div 262144" "c div 262144 < 8" "0x10000 \<le> c" using 4 c by auto
    moreover have "((c div 262144 * 64 + c div 4096 mod 64) * 64 + c div 64 mod 64) * 64 + c mod 64 = c" using d by metis
    ultimately have "decode_first ((c div 262144 + 0xf0) # (c div 4096 mod 64 + 0x80) # (c div 64 mod 64 + 0x80) # (c mod 64 + 0x80) # rest) = Some c"
      using decode_digits4 m c(2) by blast
    moreover have "utf8_bytes c = [c div 262144 + 0xf0, c div 4096 mod 64 + 0x80, c div 64 mod 64 + 0x80, c mod 64 + 0x80]"
      using 4 unfolding utf8_bytes_def unsigned_le_def by auto
    ultimately show ?thesis by (simp only: append.simps)
  qed
qed

text \<open>The bytes \<open>r\<close> can be read at index \<open>i\<close>.\<close>

fun reads :: "int list \<Rightarrow> int \<Rightarrow> int list \<Rightarrow> bool" where
  "reads s i [] \<longleftrightarrow> True"
| "reads s i (b # r) \<longleftrightarrow> byte_at s i = Some b \<and> reads s (i + 1) r"

lemma reads_drop: "0 \<le> i \<Longrightarrow> reads s i (take n (drop (nat i) s))"
proof (induction n arbitrary: i)
  case (Suc n)
  show ?case
  proof (cases "i < int (length s)")
    case True
    then have "drop (nat i) s = s ! nat i # drop (nat (i + 1)) s"
      using Suc.prems by (metis Cons_nth_drop_Suc nat_int_add nat_less_iff add.commute nat_1_add_1 nat_add_distrib nat_one_as_int plus_1_eq_Suc zero_le_one)
    then show ?thesis using Suc True by (simp add: byte_at_def)
  qed simp
qed simp

text \<open>Reading up to \<open>n\<close> trail bytes does not run out of the bytes \<open>r\<close>.\<close>

definition enough :: "int list \<Rightarrow> nat \<Rightarrow> bool" where
  "enough r n \<longleftrightarrow> n \<le> length r \<or> (\<exists>b \<in> set r. \<not> U8_IS_TRAIL b)"

lemma enough_Suc: "enough r (Suc n) \<Longrightarrow> \<exists>b r'. r = b # r' \<and> (U8_IS_TRAIL b \<longrightarrow> enough r' n)"
  by (cases r) (auto simp: enough_def)

definition skipped :: "int list \<Rightarrow> nat \<Rightarrow> nat" where
  "skipped r n = length (takeWhile U8_IS_TRAIL (take n r))"

lemma skip_trail_skipped: "reads s i r \<Longrightarrow> enough r n \<Longrightarrow> skip_trail s i n = Some (i + int (skipped r n))"
proof (induction n arbitrary: i r)
  case (Suc n)
  obtain b r' where r: "r = b # r'" "U8_IS_TRAIL b \<longrightarrow> enough r' n" using enough_Suc [OF Suc.prems(2)] by blast
  then show ?case using Suc by (auto simp: skipped_def)
qed (simp add: skipped_def)

end
