(* ===== verification/Utf8Proofs.thy ===== *)
theory Utf8Proofs
  imports Utf8
begin

text \<open>
  The readers of \<^verbatim>\<open>utf8.h\<close> against the reference decoder: \<^verbatim>\<open>U8_NEXT\<close> accepts exactly the encodings of scalar
  values, \<^verbatim>\<open>U8_FWD_1\<close> moves as it does, \<^verbatim>\<open>U8_PREV\<close> reads the same characters backwards and \<^verbatim>\<open>U8_BACK_1\<close> moves as it
  does, and what \<^verbatim>\<open>U8_APPEND\<close> writes is read back.
\<close>

section \<open>Forwards\<close>

lemma next_case1_eval:
  assumes "byte_at s i = Some b" "0 \<le> b" "b < 256" "strict \<le> 0"
  shows "next_case1 s i c n strict =
    Some (if U8_IS_TRAIL b \<and> utf8_minLegal ! n \<le> c * 64 + (b - 0x80) then Some (c * 64 + (b - 0x80), i + 1) else None)"
proof (cases "U8_IS_TRAIL b")
  case True
  then have "trail_value b = b - 0x80" "0 \<le> b - 0x80" "b - 0x80 < 64" using trail_value_trail(2) [OF assms(2,3)] by (auto simp: U8_IS_TRAIL_def)
  then show ?thesis using assms True push_or [of "b - 0x80" c] by (simp add: next_case1_def Let_def)
next
  case False
  then show ?thesis using assms(1) trail_value_trail(1) [OF assms(2,3)] by (simp add: next_case1_def Let_def)
qed

lemma next_case2_eval:
  assumes "byte_at s i = Some b" "0 \<le> b" "b < 256" "0 \<le> c" "c < 0x3ff" "strict \<noteq> -2"
  shows "next_case2 s i c n strict =
    (if U8_IS_TRAIL b \<and> \<not> (0x360 \<le> c * 64 + (b - 0x80) \<and> c * 64 + (b - 0x80) < 0x380)
     then next_case1 s (i + 1) (c * 64 + (b - 0x80)) n strict else Some None)"
proof (cases "U8_IS_TRAIL b")
  case True
  then have t: "trail_value b = b - 0x80" "0 \<le> b - 0x80" "b - 0x80 < 64" using trail_value_trail(2) [OF assms(2,3)] by (auto simp: U8_IS_TRAIL_def)
  then have "0 \<le> c * 64 + (b - 0x80)" "c * 64 + (b - 0x80) < 0x10000" using assms(4,5) by auto
  then show ?thesis
    using assms(1,6) True t push_or [OF t(2,3), of c] surrogate_mask [of "c * 64 + (b - 0x80)"]
    by (simp only: next_case2_def Let_def t(1) push_or [OF t(2,3)] bind.bind_lunit) auto
next
  case False
  then show ?thesis using assms(1) trail_value_trail(1) [OF assms(2,3)] by (simp add: next_case2_def Let_def)
qed

lemma next_case3_eval:
  assumes "byte_at s i = Some b" "0 \<le> b" "b < 256"
  shows "next_case3 s i c n strict =
    (if U8_IS_TRAIL b \<and> c * 64 + (b - 0x80) < 0x110 then next_case2 s (i + 1) (c * 64 + (b - 0x80)) n strict else Some None)"
proof (cases "U8_IS_TRAIL b")
  case True
  then have "trail_value b = b - 0x80" "0 \<le> b - 0x80" "b - 0x80 < 64" using trail_value_trail(2) [OF assms(2,3)] by (auto simp: U8_IS_TRAIL_def)
  then show ?thesis using assms True push_or [of "b - 0x80" c] by (auto simp: next_case3_def Let_def)
next
  case False
  then show ?thesis using assms(1) trail_value_trail(1) [OF assms(2,3)] by (simp add: next_case3_def Let_def)
qed

lemma decode_first_eval3:
  assumes "0xe0 \<le> b0" "b0 < 0xf0" "c = ((b0 - 0xe0) * 64 + (b1 - 0x80)) * 64 + (b2 - 0x80)"
  shows "decode_first (b0 # b1 # b2 # r) = (if U8_IS_TRAIL b1 \<and> U8_IS_TRAIL b2 \<and> 0x800 \<le> c \<and> \<not> is_surrogate c then Some c else None)"
proof -
  have m: "b0 mod 16 = b0 - 0xe0" using assms mod_shift [of "b0 - 0xe0" 16 14] by simp
  show ?thesis using assms(1,2) by (simp add: decode_first_def Let_def m assms(3))
qed

lemma decode_first_eval4:
  assumes "0xf0 \<le> b0" "b0 < 0xf8" "c = (((b0 - 0xf0) * 64 + (b1 - 0x80)) * 64 + (b2 - 0x80)) * 64 + (b3 - 0x80)"
  shows "decode_first (b0 # b1 # b2 # b3 # r) =
    (if U8_IS_TRAIL b1 \<and> U8_IS_TRAIL b2 \<and> U8_IS_TRAIL b3 \<and> 0x10000 \<le> c \<and> c \<le> 0x10ffff then Some c else None)"
proof -
  have m: "b0 mod 8 = b0 - 0xf0" using assms mod_shift [of "b0 - 0xf0" 8 30] by simp
  show ?thesis using assms(1,2) by (simp add: decode_first_def Let_def m assms(3))
qed

lemma decode_first_short:
  "0xe0 \<le> b0 \<Longrightarrow> b0 < 0xf0 \<Longrightarrow> length r < 2 \<Longrightarrow> decode_first (b0 # r) = None"
  "0xf0 \<le> b0 \<Longrightarrow> b0 < 0xf8 \<Longrightarrow> length r < 3 \<Longrightarrow> decode_first (b0 # r) = None"
  by (auto simp: decode_first_def split: list.splits)

lemma decode_first_no_trail:
  "0xe0 \<le> b0 \<Longrightarrow> b0 < 0xf8 \<Longrightarrow> \<not> U8_IS_TRAIL b1 \<Longrightarrow> decode_first (b0 # b1 # r) = None"
  "0xf0 \<le> b0 \<Longrightarrow> b0 < 0xf8 \<Longrightarrow> \<not> U8_IS_TRAIL b2 \<Longrightarrow> decode_first (b0 # b1 # b2 # r) = None"
  by (auto simp: decode_first_def Let_def split: list.splits)

definition decoded :: "int list \<Rightarrow> int \<Rightarrow> (int \<times> int) option" where
  "decoded w i = map_option (\<lambda>c. (c, i)) (decode_first w)"

lemma next_switch_decodes:
  assumes "bytes (b0 # r)" "0x80 \<le> b0" "reads s i r" "enough r n" "n = U8_COUNT_TRAIL_BYTES b0" "strict < 0" "strict \<noteq> -2"
  shows "next_switch s i (U8_MASK_LEAD_BYTE b0 n) n strict = Some (decoded (b0 # r) (i + int n))"
proof -
  have b0: "0 \<le> b0" "b0 < 256" using assms(1) by auto
  consider "b0 < 0xc0 \<or> 0xf8 \<le> b0" | "0xc0 \<le> b0" "b0 < 0xe0" | "0xe0 \<le> b0" "b0 < 0xf0" | "0xf0 \<le> b0" "b0 < 0xf8" by linarith
  then show ?thesis
  proof cases
    case 1
    then show ?thesis using assms(2,5) by (auto simp: next_switch_def U8_COUNT_TRAIL_BYTES_def decoded_def decode_first_def)
  next
    case 2
    then have n: "n = 1" using assms(5) by (simp add: U8_COUNT_TRAIL_BYTES_def)
    obtain b1 r' where r: "r = b1 # r'" using enough_Suc [of r 0] assms(4) n by auto
    have b1: "byte_at s i = Some b1" "0 \<le> b1" "b1 < 256" using assms(1,3) r by auto
    have m: "b0 mod 32 = b0 - 0xc0" using 2 mod_shift [of "b0 - 0xc0" 32 6] by simp
    show ?thesis using 2 n r m next_case1_eval [OF b1, of strict] assms(6)
      by (auto simp: next_switch_def U8_MASK_LEAD_BYTE_def decoded_def decode_first_def utf8_minLegal_def U8_IS_TRAIL_def)
  next
    case 3
    then have n: "n = 2" using assms(5) by (simp add: U8_COUNT_TRAIL_BYTES_def)
    obtain b1 r' where r: "r = b1 # r'" "U8_IS_TRAIL b1 \<longrightarrow> enough r' 1" using enough_Suc [of r 1] assms(4) n by (auto simp: numeral_2_eq_2)
    have b1: "byte_at s i = Some b1" "0 \<le> b1" "b1 < 256" using assms(1,3) r by auto
    have m: "b0 mod 16 = b0 - 0xe0" using 3 mod_shift [of "b0 - 0xe0" 16 14] by simp
    have m: "U8_MASK_LEAD_BYTE b0 n = b0 - 0xe0" using m n by (simp add: U8_MASK_LEAD_BYTE_def)
    define c1 where "c1 = (b0 - 0xe0) * 64 + (b1 - 0x80)"
    have e1: "next_switch s i (U8_MASK_LEAD_BYTE b0 n) n strict =
        (if U8_IS_TRAIL b1 \<and> \<not> (0x360 \<le> c1 \<and> c1 < 0x380) then next_case1 s (i + 1) c1 2 strict else Some None)"
      unfolding n next_switch_def m [unfolded n] using 3 next_case2_eval [OF b1 _ _ assms(7), of "b0 - 0xe0" 2, folded c1_def] by auto
    show ?thesis
    proof (cases "U8_IS_TRAIL b1")
      case False
      then show ?thesis using e1 3 r(1) decode_first_no_trail(1) by (simp add: decoded_def)
    next
      case True
      then obtain b2 r'' where r': "r' = b2 # r''" using enough_Suc [of r' 0] r(2) by auto
      have b2: "byte_at s (i + 1) = Some b2" "0 \<le> b2" "b2 < 256" using assms(1,3) r r' by auto
      define c where "c = c1 * 64 + (b2 - 0x80)"
      have "next_case1 s (i + 1) c1 2 strict = Some (if U8_IS_TRAIL b2 \<and> 0x800 \<le> c then Some (c, i + 1 + 1) else None)"
        using next_case1_eval [OF b2, of strict c1 2, folded c_def] assms(6) by (simp add: utf8_minLegal_def)
      moreover have "U8_IS_TRAIL b2 \<Longrightarrow> (0x360 \<le> c1 \<and> c1 < 0x380) \<longleftrightarrow> is_surrogate c"
        by (auto simp: c_def is_surrogate_def U8_IS_TRAIL_def)
      moreover have "decode_first (b0 # r) = (if U8_IS_TRAIL b2 \<and> 0x800 \<le> c \<and> \<not> is_surrogate c then Some c else None)"
        unfolding r(1) r' using decode_first_eval3 [OF 3, of c b1 b2] True by (simp add: c_def c1_def)
      ultimately show ?thesis using n e1 True by (auto simp: decoded_def)
    qed
  next
    case 4
    then have n: "n = 3" using assms(5) by (simp add: U8_COUNT_TRAIL_BYTES_def)
    obtain b1 r' where r: "r = b1 # r'" "U8_IS_TRAIL b1 \<longrightarrow> enough r' 2" using enough_Suc [of r 2] assms(4) n by (auto simp: numeral_3_eq_3)
    have b1: "byte_at s i = Some b1" "0 \<le> b1" "b1 < 256" using assms(1,3) r by auto
    have m: "b0 mod 8 = b0 - 0xf0" using 4 mod_shift [of "b0 - 0xf0" 8 30] by simp
    have m: "U8_MASK_LEAD_BYTE b0 n = b0 - 0xf0" using m n by (simp add: U8_MASK_LEAD_BYTE_def)
    define c1 where "c1 = (b0 - 0xf0) * 64 + (b1 - 0x80)"
    have e1: "next_switch s i (U8_MASK_LEAD_BYTE b0 n) n strict = (if U8_IS_TRAIL b1 \<and> c1 < 0x110 then next_case2 s (i + 1) c1 3 strict else Some None)"
      unfolding n next_switch_def m [unfolded n] using next_case3_eval [OF b1, of "b0 - 0xf0" 3 strict, folded c1_def] by simp
    show ?thesis
    proof (cases "U8_IS_TRAIL b1 \<and> c1 < 0x110")
      case False
      have big: "c1 \<ge> 0x110 \<Longrightarrow> U8_IS_TRAIL b2 \<Longrightarrow> U8_IS_TRAIL b3 \<Longrightarrow> \<not> (c1 * 64 + (b2 - 0x80)) * 64 + (b3 - 0x80) \<le> 0x10ffff" for b2 b3
        by (auto simp: U8_IS_TRAIL_def)
      have "decode_first (b0 # r) = None"
      proof (cases "\<exists>b2 b3 r3. r' = b2 # b3 # r3")
        case True
        then obtain b2 b3 r3 where "r' = b2 # b3 # r3" by blast
        then show ?thesis using decode_first_eval4 [OF 4 refl, of b1 b2 b3 r3, folded c1_def] False big r(1) by auto
      next
        case False
        then have "length r' < 2" by (cases r'; cases "tl r'") auto
        then show ?thesis using decode_first_short(2) [OF 4, of r] r(1) by simp
      qed
      then show ?thesis using e1 False by (simp add: decoded_def)
    next
      case t1: True
      then obtain b2 r'' where r': "r' = b2 # r''" "U8_IS_TRAIL b2 \<longrightarrow> enough r'' 1" using enough_Suc [of r' 1] r(2) by (auto simp: numeral_2_eq_2)
      have b2: "byte_at s (i + 1) = Some b2" "0 \<le> b2" "b2 < 256" using assms(1,3) r r' by auto
      define c2 where "c2 = c1 * 64 + (b2 - 0x80)"
      have c1: "0 \<le> c1" "c1 < 0x3ff" using t1 4 by (auto simp: c1_def U8_IS_TRAIL_def)
      have e2: "next_switch s i (U8_MASK_LEAD_BYTE b0 n) n strict =
          (if U8_IS_TRAIL b2 \<and> \<not> (0x360 \<le> c2 \<and> c2 < 0x380) then next_case1 s (i + 1 + 1) c2 3 strict else Some None)"
        using e1 t1 next_case2_eval [OF b2 c1 assms(7), of 3, folded c2_def] by simp
      show ?thesis
      proof (cases "U8_IS_TRAIL b2")
        case False
        then have "decode_first (b0 # r) = None" using 4 r(1) r'(1) decode_first_no_trail(2) by simp
        then show ?thesis using e2 False by (simp add: decoded_def)
      next
        case t2: True
        then obtain b3 r3 where r'': "r'' = b3 # r3" using enough_Suc [of r'' 0] r'(2) by auto
        have b3: "byte_at s (i + 1 + 1) = Some b3" "0 \<le> b3" "b3 < 256" using assms(1,3) r r' r'' by auto
        define c where "c = c2 * 64 + (b3 - 0x80)"
        have "next_case1 s (i + 1 + 1) c2 3 strict = Some (if U8_IS_TRAIL b3 \<and> 0x10000 \<le> c then Some (c, i + 1 + 1 + 1) else None)"
          using next_case1_eval [OF b3, of strict c2 3, folded c_def] assms(6) by (simp add: utf8_minLegal_def)
        moreover have "U8_IS_TRAIL b3 \<Longrightarrow> 0x10000 \<le> c \<Longrightarrow> \<not> (0x360 \<le> c2 \<and> c2 < 0x380)" by (auto simp: c_def U8_IS_TRAIL_def)
        moreover have "U8_IS_TRAIL b3 \<Longrightarrow> c \<le> 0x10ffff" using t1 t2 by (auto simp: c_def c2_def U8_IS_TRAIL_def)
        moreover have "decode_first (b0 # r) = (if U8_IS_TRAIL b3 \<and> 0x10000 \<le> c \<and> c \<le> 0x10ffff then Some c else None)"
          unfolding r(1) r'(1) r'' using decode_first_eval4 [OF 4, of c b1 b2 b3] t1 t2 by (simp add: c_def c2_def c1_def)
        ultimately show ?thesis using n e2 t2 by (auto simp: decoded_def)
      qed
    qed
  qed
qed

text \<open>
  What the readers may see from index \<open>i\<close> on: the bytes up to \<open>len\<close>, or at least up to the terminating zero.
\<close>

definition window :: "int list \<Rightarrow> int \<Rightarrow> int \<Rightarrow> int list \<Rightarrow> bool" where
  "window s i len w \<longleftrightarrow> bytes w \<and> reads s i w \<and> w \<noteq> [] \<and> (if len < 0 then 0 \<in> set (tl w) else int (length w) = len - i)"

lemma not_trail_0 [simp]: "\<not> U8_IS_TRAIL 0"
  by (simp add: U8_IS_TRAIL_def)

lemma errorValue_negative: "strict < 0 \<Longrightarrow> errorValue n strict = errorValue 0 strict"
  by (simp add: errorValue_def)

lemma decode_first_length:
  assumes "bytes (b0 # r)" "decode_first (b0 # r) = Some c"
  shows "length (utf8_bytes c) = Suc (U8_COUNT_TRAIL_BYTES b0)" "skipped r (U8_COUNT_TRAIL_BYTES b0) = U8_COUNT_TRAIL_BYTES b0"
proof -
  obtain rest where w: "b0 # r = utf8_bytes c @ rest" "scalar c" using decode_first_sound [OF assms] by auto
  consider "b0 < 0x80" | "0xc2 \<le> b0" "b0 < 0xe0" | "0xe0 \<le> b0" "b0 < 0xf0" | "0xf0 \<le> b0" "b0 < 0xf8"
    using assms(2) by (fastforce simp: decode_first_def split: if_splits)
  then have "length (utf8_bytes c) = Suc (U8_COUNT_TRAIL_BYTES b0) \<and> skipped r (U8_COUNT_TRAIL_BYTES b0) = U8_COUNT_TRAIL_BYTES b0"
  proof cases
    case 1
    then have "c = b0" using assms(2) by (simp add: decode_first_def)
    then show ?thesis using 1 assms(1) by (simp add: utf8_bytes_def unsigned_le_def U8_COUNT_TRAIL_BYTES_def skipped_def)
  next
    case 2
    then obtain b1 r' where "r = b1 # r'" "U8_IS_TRAIL b1" "c = b0 mod 32 * 64 + (b1 - 0x80)"
      using assms(2) by (auto simp: decode_first_def split: list.splits if_splits)
    then show ?thesis using 2 decode2(2) [OF 2] by (simp add: U8_COUNT_TRAIL_BYTES_def skipped_def)
  next
    case 3
    then have "length r \<ge> 2" using decode_first_short(1) [of b0 r] assms(2) by fastforce
    then obtain b1 b2 r' where r: "r = b1 # b2 # r'" by (cases r; cases "tl r") auto
    then have "U8_IS_TRAIL b1" "U8_IS_TRAIL b2" "utf8_bytes c = [b0, b1, b2]"
      using assms(2) decode3(2) [OF 3] 3 by (auto simp: decode_first_def Let_def split: if_splits)
    then show ?thesis using 3 r by (simp add: U8_COUNT_TRAIL_BYTES_def skipped_def)
  next
    case 4
    then have "length r \<ge> 3" using decode_first_short(2) [of b0 r] assms(2) by fastforce
    then obtain b1 b2 b3 r' where r: "r = b1 # b2 # b3 # r'" by (cases r; cases "tl r"; cases "tl (tl r)") auto
    then have "U8_IS_TRAIL b1" "U8_IS_TRAIL b2" "U8_IS_TRAIL b3" "utf8_bytes c = [b0, b1, b2, b3]"
      using assms(2) decode4(2) [OF 4] 4 by (auto simp: decode_first_def Let_def split: if_splits)
    then show ?thesis using 4 r by (simp add: U8_COUNT_TRAIL_BYTES_def skipped_def)
  qed
  then show "length (utf8_bytes c) = Suc (U8_COUNT_TRAIL_BYTES b0)" "skipped r (U8_COUNT_TRAIL_BYTES b0) = U8_COUNT_TRAIL_BYTES b0" by auto
qed

text \<open>What one step forward returns, and how far it goes.\<close>

definition char_or :: "int \<Rightarrow> int list \<Rightarrow> int" where
  "char_or err w = (case decode_first w of Some c \<Rightarrow> c | None \<Rightarrow> err)"

definition width :: "int list \<Rightarrow> nat" where
  "width w = (case w of [] \<Rightarrow> 0 | b0 # r \<Rightarrow> Suc (skipped r (U8_COUNT_TRAIL_BYTES b0)))"

lemma width_decoded: "bytes w \<Longrightarrow> decode_first w = Some c \<Longrightarrow> width w = length (utf8_bytes c)"
  using decode_first_length by (cases w) (auto simp: width_def decode_first_def)

lemma width_bounds: "w \<noteq> [] \<Longrightarrow> 0 < width w \<and> width w \<le> length w"
proof -
  assume "w \<noteq> []"
  then obtain b0 r where w: "w = b0 # r" by (cases w) auto
  have "skipped r n \<le> length r" for n unfolding skipped_def using length_takeWhile_le [of U8_IS_TRAIL "take n r"] by simp
  then show ?thesis using w by (simp add: width_def)
qed

lemma window_enough:
  assumes "window s i len (b0 # r)"
  shows "if i + 1 + int n \<le> len \<or> len < 0 then enough r n else length r < n \<and> nat (len - (i + 1)) = length r"
  using assms by (cases "len < 0") (auto simp: window_def enough_def intro: bexI [of _ 0])

lemma nextCharSafeBody_decodes:
  assumes "window s i len (b0 # r)" "0x80 \<le> b0" "strict < 0" "strict \<noteq> -2"
  shows "utf8_nextCharSafeBody s (i + 1) len b0 strict = Some (char_or (errorValue 0 strict) (b0 # r), i + int (width (b0 # r)))"
proof -
  define n where "n = U8_COUNT_TRAIL_BYTES b0"
  have w: "bytes (b0 # r)" "reads s (i + 1) r" using assms(1) by (auto simp: window_def)
  note e = window_enough [OF assms(1), of n]
  show ?thesis
  proof (cases "i + 1 + int n \<le> len \<or> len < 0")
    case True
    then have en: "enough r n" using e by simp
    have sw: "next_switch s (i + 1) (U8_MASK_LEAD_BYTE b0 n) n strict = Some (decoded (b0 # r) (i + 1 + int n))"
      using next_switch_decodes [OF w(1) assms(2) w(2) en n_def assms(3,4)] .
    show ?thesis
    proof (cases "decode_first (b0 # r)")
      case None
      then show ?thesis using True sw skip_trail_skipped [OF w(2) en] errorValue_negative [OF assms(3)]
        by (simp add: utf8_nextCharSafeBody_def n_def [symmetric] decoded_def char_or_def width_def)
    next
      case (Some c)
      then show ?thesis using True sw decode_first_length(2) [OF w(1) Some]
        by (simp add: utf8_nextCharSafeBody_def n_def [symmetric] decoded_def char_or_def width_def)
    qed
  next
    case False
    then have short: "length r < n" "nat (len - (i + 1)) = length r" using e by auto
    have "decode_first (b0 # r) = None"
    proof (cases "decode_first (b0 # r)")
      case (Some c)
      then have "skipped r n = n" using decode_first_length(2) [OF w(1)] n_def by simp
      moreover have "skipped r n \<le> length r" unfolding skipped_def using length_takeWhile_le [of U8_IS_TRAIL "take n r"] by simp
      ultimately show ?thesis using short by simp
    qed
    moreover have "skipped r (length r) = skipped r n" using short(1) by (simp add: skipped_def)
    moreover have "enough r (length r)" by (simp add: enough_def)
    ultimately show ?thesis using False short skip_trail_skipped [OF w(2), of "length r"] errorValue_negative [OF assms(3)]
      by (simp add: utf8_nextCharSafeBody_def n_def [symmetric] char_or_def width_def)
  qed
qed

lemma inline_three:
  assumes "0xe0 < b0" "b0 \<le> 0xec" "U8_IS_TRAIL b1" "U8_IS_TRAIL b2" "bytes [b0, b1, b2]"
  shows "decode_first (b0 # b1 # b2 # r) = Some ((b0 * 4096 + trail_value b1 * 64 + trail_value b2) mod 0x10000)"
proof -
  define c where "c = ((b0 - 0xe0) * 64 + (b1 - 0x80)) * 64 + (b2 - 0x80)"
  have c: "0x1000 \<le> c" "c < 0xd000" using assms(1-4) by (auto simp: c_def U8_IS_TRAIL_def)
  have "b0 * 4096 + trail_value b1 * 64 + trail_value b2 = c + 14 * 0x10000"
    using trail_value_trail(2) assms(3-5) by (simp add: c_def)
  then have "(b0 * 4096 + trail_value b1 * 64 + trail_value b2) mod 0x10000 = c"
    using mod_shift [of c "0x10000" 14] c by simp
  then show ?thesis using decode_first_eval3 [OF _ _ c_def, of r] assms(1-4) c by (simp add: is_surrogate_def)
qed

lemma inline_two:
  assumes "0xc2 \<le> b0" "b0 < 0xe0" "U8_IS_TRAIL b1" "bytes [b1]"
  shows "decode_first (b0 # b1 # r) = Some (b0 mod 32 * 64 + trail_value b1)"
  using assms trail_value_trail(2) [of b1] by (simp add: decode_first_def)

lemma width_inline: "bytes (b0 # r) \<Longrightarrow> decode_first (b0 # r) = Some c \<Longrightarrow> width (b0 # r) = Suc (U8_COUNT_TRAIL_BYTES b0)"
  using decode_first_length(2) by (simp add: width_def)

text \<open>The whole of \<^verbatim>\<open>U8_NEXT\<close>: its inline branches agree with the function.\<close>

lemma U8_NEXT_decodes:
  assumes win: "window s i len (b0 # r)" and strict: "strict < 0" "strict \<noteq> -2"
  shows "U8_NEXT_strict strict s i len = Some (char_or (errorValue 0 strict) (b0 # r), i + int (width (b0 # r)))"
proof (cases "b0 < 0x80")
  case True
  then show ?thesis using win
    by (simp add: U8_NEXT_strict_def window_def char_or_def decode_first_def width_def U8_COUNT_TRAIL_BYTES_def skipped_def)
next
  case False
  note body = nextCharSafeBody_decodes [OF win _ strict]
  have w: "bytes (b0 # r)" "byte_at s i = Some b0" "reads s (i + 1) r" using win by (auto simp: window_def)
  have len: "0 \<le> len \<Longrightarrow> int (length r) = len - (i + 1)" "len < 0 \<Longrightarrow> 0 \<in> set r" using win by (auto simp: window_def)
  consider (three) "0xe0 < b0" "b0 \<le> 0xec" "i + 1 + 1 < len \<or> len < 0" | (two) "0xc2 \<le> b0" "b0 < 0xe0" "i + 1 \<noteq> len"
    | (other) "\<not> ((0xe0 < b0 \<and> b0 \<le> 0xec) \<and> (i + 1 + 1 < len \<or> len < 0))" "\<not> ((b0 < 0xe0 \<and> b0 \<ge> 0xc2) \<and> i + 1 \<noteq> len)" by auto
  then show ?thesis
  proof cases
    case three
    obtain b1 r' where r: "r = b1 # r'" using three(3) len by (cases r; cases "len < 0") auto
    have b1: "byte_at s (i + 1) = Some b1" "0 \<le> b1" "b1 < 256" using w r by auto
    show ?thesis
    proof (cases "U8_IS_TRAIL b1")
      case False
      then show ?thesis using three b1 w \<open>\<not> b0 < 0x80\<close> trail_value_trail(1) [OF b1(2,3)] body by (simp add: U8_NEXT_strict_def)
    next
      case True
      obtain b2 r'' where r': "r' = b2 # r''" using three(3) len r True by (cases r'; cases "len < 0") auto
      have b2: "byte_at s (i + 1 + 1) = Some b2" "0 \<le> b2" "b2 < 256" using w r r' by auto
      show ?thesis
      proof (cases "U8_IS_TRAIL b2")
        case False
        then show ?thesis using three b1 b2 w \<open>\<not> b0 < 0x80\<close> trail_value_trail(1) [OF b1(2,3)] trail_value_trail(1) [OF b2(2,3)] body
          by (simp add: U8_NEXT_strict_def)
      next
        case t2: True
        have d: "decode_first (b0 # r) = Some ((b0 * 4096 + trail_value b1 * 64 + trail_value b2) mod 0x10000)"
          using inline_three [OF three(1,2) True t2] w(1) r r' by simp
        show ?thesis using three b1 b2 w \<open>\<not> b0 < 0x80\<close> True t2 trail_value_trail(1) [OF b1(2,3)] trail_value_trail(1) [OF b2(2,3)]
          width_inline [OF w(1) d] d by (simp add: U8_NEXT_strict_def char_or_def U8_COUNT_TRAIL_BYTES_def)
      qed
    qed
  next
    case two
    obtain b1 r' where r: "r = b1 # r'" using two(3) len by (cases r; cases "len < 0") auto
    have b1: "byte_at s (i + 1) = Some b1" "0 \<le> b1" "b1 < 256" using w r by auto
    show ?thesis
    proof (cases "U8_IS_TRAIL b1")
      case False
      then show ?thesis using two b1 w \<open>\<not> b0 < 0x80\<close> trail_value_trail(1) [OF b1(2,3)] body by (simp add: U8_NEXT_strict_def)
    next
      case True
      have d: "decode_first (b0 # r) = Some (b0 mod 32 * 64 + trail_value b1)" using inline_two [OF two(1,2) True] w(1) r by simp
      show ?thesis using two b1 w \<open>\<not> b0 < 0x80\<close> True trail_value_trail(1) [OF b1(2,3)] width_inline [OF w(1) d] d
        by (simp add: U8_NEXT_strict_def char_or_def U8_COUNT_TRAIL_BYTES_def)
    qed
  next
    case other
    then have "U8_NEXT_strict strict s i len = utf8_nextCharSafeBody s (i + 1) len b0 strict"
      using w(2) False by (auto simp: U8_NEXT_strict_def Let_def)
    then show ?thesis using body False by simp
  qed
qed

lemma U8_FWD_1_width:
  assumes win: "window s i len (b0 # r)"
  shows "U8_FWD_1 s i len = Some (i + int (width (b0 # r)))"
proof -
  define n where "n = U8_COUNT_TRAIL_BYTES b0"
  have w: "bytes (b0 # r)" "byte_at s i = Some b0" "reads s (i + 1) r" using win by (auto simp: window_def)
  note e = window_enough [OF win, of n]
  have lead: "U8_IS_LEAD b0 \<longleftrightarrow> 0xc0 \<le> b0 \<and> b0 < 0xfe"
  proof (cases "b0 < 0xc0")
    case True
    then have "(b0 - 0xc0) mod 256 = b0 + 0x40" using w(1) mod_shift [of "b0 + 0x40" 256 "-1"] by simp
    then show ?thesis using True w(1) by (simp add: U8_IS_LEAD_def)
  qed (use w(1) in \<open>simp add: U8_IS_LEAD_def\<close>)
  show ?thesis
  proof (cases "U8_IS_LEAD b0")
    case False
    then have "n = 0" using lead w(1) by (auto simp: n_def U8_COUNT_TRAIL_BYTES_def)
    then show ?thesis using False w(2) by (simp add: U8_FWD_1_def width_def n_def [symmetric] skipped_def)
  next
    case lead: True
    show ?thesis
    proof (cases "i + 1 + int n \<le> len \<or> len < 0")
      case True
      then have "enough r n" using e by simp
      then show ?thesis using True lead w(2) skip_trail_skipped [OF w(3)]
        by (auto simp: U8_FWD_1_def width_def n_def [symmetric] Let_def)
    next
      case False
      then have short: "length r < n" "nat (len - (i + 1)) = length r" using e by auto
      have "skipped r (length r) = skipped r n" "enough r (length r)" using short(1) by (simp_all add: skipped_def enough_def)
      then show ?thesis using False lead w(2) short skip_trail_skipped [OF w(3), of "length r"]
        by (auto simp: U8_FWD_1_def width_def n_def [symmetric] Let_def)
    qed
  qed
qed

section \<open>Backwards\<close>

lemma lead_bit: "0 \<le> b \<Longrightarrow> b < 256 \<Longrightarrow> (b - 0x80) mod 256 < 0x7e \<longleftrightarrow> 0x80 \<le> b \<and> b < 0xfe" for b :: int
  using mod_shift [of "b + 0x80" 256 "-1"] by (cases "b < 0x80") auto

lemma and_0x40: "0x80 \<le> b \<Longrightarrow> b < 256 \<Longrightarrow> b AND 0x40 \<noteq> 0 \<longleftrightarrow> 0xc0 \<le> b" for b :: int
proof -
  assume b: "0x80 \<le> b" "b < 256"
  have "b AND 0x40 \<noteq> 0 \<longleftrightarrow> bit b 6" using and_exp_eq_0_iff_not_bit [of b 6] by simp
  also have "\<dots> \<longleftrightarrow> odd (b div 64)" by (simp add: bit_iff_odd)
  also have "b div 64 = 2 \<or> b div 64 = 3" using b by auto
  then have "odd (b div 64) \<longleftrightarrow> b div 64 = 3" by auto
  also have "\<dots> \<longleftrightarrow> 0xc0 \<le> b" using b by auto
  finally show ?thesis .
qed

lemma or_push: "0 \<le> c \<Longrightarrow> c < 2 ^ k \<Longrightarrow> c OR push_bit k x = c + x * 2 ^ k" for c x :: int
proof -
  assume "0 \<le> c" "c < 2 ^ k"
  then have c: "c = take_bit k c" by (simp add: take_bit_eq_mod)
  have "c AND push_bit k x = 0" by (subst c) (rule bit_eqI, auto simp: bit_simps)
  then show ?thesis by (simp add: disjunctive_add_eq_or [symmetric] push_bit_eq_mult)
qed

text \<open>The bits of a list of trail bytes.\<close>

fun tval :: "int list \<Rightarrow> int" where
  "tval [] = 0"
| "tval (t # ts) = (t - 0x80) * 2 ^ (6 * length ts) + tval ts"

lemma tval_bounds: "\<forall>t \<in> set ts. U8_IS_TRAIL t \<Longrightarrow> 0 \<le> tval ts \<and> tval ts < 2 ^ (6 * length ts)"
proof (induction ts)
  case (Cons t ts)
  define p :: int where "p = 2 ^ (6 * length ts)"
  have p: "0 < p" "(2 :: int) ^ (6 * length (t # ts)) = 64 * p" by (simp_all add: p_def power_add)
  have t: "0 \<le> t - 0x80" "t - 0x80 \<le> 63" using Cons.prems by (auto simp: U8_IS_TRAIL_def)
  then have "0 \<le> (t - 0x80) * p" "(t - 0x80) * p \<le> 63 * p" using p(1) by (auto intro: mult_right_mono)
  moreover have "0 \<le> tval ts" "tval ts < p" using Cons by (auto simp: p_def)
  moreover have "tval (t # ts) = (t - 0x80) * p + tval ts" by (simp add: p_def)
  ultimately show ?case unfolding p(2) by linarith
qed simp

lemma decode_first_trail: "U8_IS_TRAIL t \<Longrightarrow> decode_first [t] = None"
  by (simp add: decode_first_def U8_IS_TRAIL_def)

text \<open>A lead byte with the right number of trail bytes: the test of the code is that of the decoder.\<close>

lemma prev_lead:
  assumes "0xc0 \<le> b" "b < 0xfe" "\<forall>t \<in> set ts. U8_IS_TRAIL t" "length ts = U8_COUNT_TRAIL_BYTES b"
    "c = tval ts OR push_bit (6 * length ts) (U8_MASK_LEAD_BYTE b (length ts))"
  shows "decode_first (b # ts) =
    (if length ts \<ge> 4 \<or> c > 0x10ffff \<or> c < utf8_minLegal ! length ts \<or> is_surrogate c then None else Some c)"
proof -
  have c: "c = tval ts + U8_MASK_LEAD_BYTE b (length ts) * 2 ^ (6 * length ts)"
    using assms(5) or_push tval_bounds [OF assms(3)] by simp
  consider "b < 0xe0" | "0xe0 \<le> b" "b < 0xf0" | "0xf0 \<le> b" "b < 0xf8" | "0xf8 \<le> b" by linarith
  then show ?thesis
  proof cases
    case 1
    then obtain t where ts: "ts = [t]" using assms(1,4) by (cases ts) (auto simp: U8_COUNT_TRAIL_BYTES_def)
    have m: "b mod 32 = b - 0xc0" using 1 assms(1) mod_shift [of "b - 0xc0" 32 6] by simp
    have "c = (b - 0xc0) * 64 + (t - 0x80)" using c ts m by (simp add: U8_MASK_LEAD_BYTE_def)
    then show ?thesis using 1 assms(1,3) ts m
      by (auto simp: decode_first_def utf8_minLegal_def U8_IS_TRAIL_def is_surrogate_def)
  next
    case 2
    then obtain t1 t2 where ts: "ts = [t1, t2]" using assms(1,4) by (cases ts; cases "tl ts") (auto simp: U8_COUNT_TRAIL_BYTES_def)
    have m: "b mod 16 = b - 0xe0" using 2 mod_shift [of "b - 0xe0" 16 14] by simp
    have e: "c = ((b - 0xe0) * 64 + (t1 - 0x80)) * 64 + (t2 - 0x80)" using c ts m by (simp add: U8_MASK_LEAD_BYTE_def)
    have "c \<le> 0x10ffff" using e 2 assms(3) ts by (auto simp: U8_IS_TRAIL_def)
    then show ?thesis using assms(3) unfolding ts by (simp add: decode_first_eval3 [OF 2 e] utf8_minLegal_def not_less)
  next
    case 3
    then obtain t1 t2 t3 where ts: "ts = [t1, t2, t3]"
      using assms(1,4) by (cases ts; cases "tl ts"; cases "tl (tl ts)") (auto simp: U8_COUNT_TRAIL_BYTES_def)
    have m: "b mod 8 = b - 0xf0" using 3 mod_shift [of "b - 0xf0" 8 30] by simp
    have e: "c = (((b - 0xf0) * 64 + (t1 - 0x80)) * 64 + (t2 - 0x80)) * 64 + (t3 - 0x80)" using c ts m by (simp add: U8_MASK_LEAD_BYTE_def)
    show ?thesis using assms(3) unfolding ts by (auto simp: decode_first_eval4 [OF 3 e] utf8_minLegal_def is_surrogate_def)
  next
    case 4
    then have "4 \<le> length ts" using assms(2,4) by (simp add: U8_COUNT_TRAIL_BYTES_def)
    then show ?thesis using 4 by (simp add: decode_first_def)
  qed
qed

lemma decode_first_truncated: "bytes (b # ts) \<Longrightarrow> length ts < U8_COUNT_TRAIL_BYTES b \<Longrightarrow> decode_first (b # ts) = None"
  using decode_first_length(2) [of b ts] length_takeWhile_le [of U8_IS_TRAIL "take (U8_COUNT_TRAIL_BYTES b) ts"]
  by (cases "decode_first (b # ts)") (auto simp: skipped_def)

lemma reads_last: "reads s i ts \<Longrightarrow> ts \<noteq> [] \<Longrightarrow> byte_at s (i + int (length ts) - 1) = Some (last ts)"
proof (induction ts arbitrary: i)
  case (Cons t ts)
  then show ?case using Cons.IH [of "i + 1"] by (cases ts) (auto simp: algebra_simps)
qed simp

lemma byte_before: "bytes s \<Longrightarrow> byte_at s i = Some t \<Longrightarrow> 0 < i \<Longrightarrow> \<exists>b. byte_at s (i - 1) = Some b \<and> 0 \<le> b \<and> b < 256"
  by (auto simp: byte_at_def bytes_def split: if_splits)

text \<open>
  The loop returns what the decoder finds in the bytes from the index it returns to the byte it started
  from, and that index is the one \<open>back1_loop\<close> finds.
\<close>

lemma prev_loop_reads:
  assumes s: "bytes s" "0 \<le> start" "start \<le> i0" and strict: "strict < 0" "strict \<noteq> -2"
    and ts: "reads s i ts" "\<forall>t \<in> set ts. U8_IS_TRAIL t" "length ts = n" "1 \<le> n" "n \<le> 5" "i = i0 + 1 - int n"
  shows "\<exists>j w. prev_loop s start i0 i (tval ts) n (6 * n) strict = Some (char_or (errorValue 0 strict) w, j) \<and> reads s j w \<and>
    int (length w) = i0 + 1 - j \<and> length w \<le> Suc (U8_COUNT_TRAIL_BYTES (hd w)) \<and> start \<le> j \<and> j \<le> i0 \<and>
    (if i \<le> start then j = i0 else back1_loop s (if i0 - 5 > start then i0 - 5 else start) i0 (i - 1) = Some j)"
  using ts
proof (induction "5 - n" arbitrary: i ts n rule: less_induct)
  case less
  have ne: "ts \<noteq> []" using less.prems(3,4) by auto
  have lst: "byte_at s i0 = Some (last ts)" "U8_IS_TRAIL (last ts)"
    using reads_last [OF less.prems(1) ne] less.prems(2,3,6) last_in_set [OF ne] by auto
  have stay: "reads s i0 [last ts]" "char_or (errorValue 0 strict) [last ts] = errorValue 0 strict"
    using lst decode_first_trail by (simp_all add: char_or_def)
  show ?case
  proof (cases "i \<le> start")
    case True
    then show ?thesis using stay s(3) by (subst prev_loop.simps) (auto intro!: exI [of _ i0] exI [of _ "[last ts]"])
  next
    case gt: False
    have hdb: "byte_at s i = Some (hd ts)" using less.prems(1) ne by (cases ts) auto
    obtain b where b: "byte_at s (i - 1) = Some b" "0 \<le> b" "b < 256" using byte_before [OF s(1) hdb] gt s(2) by auto
    define Z where "Z = (if i0 - 5 > start then i0 - 5 else start)"
    have bk: "back1_loop s Z i0 (i - 1) =
        (if \<not> (0x80 \<le> b \<and> b < 0xfe) then Some i0
         else if b \<ge> 0xc0 then (if int (U8_COUNT_TRAIL_BYTES b) \<ge> int n then Some (i - 1) else Some i0)
         else if Z \<le> i - 1 - 1 then back1_loop s Z i0 (i - 1 - 1) else Some i0)"
      using b lead_bit [OF b(2,3)] less.prems(6) by (subst back1_loop.simps) (auto simp: not_less)
    have rd: "reads s (i - 1) (b # ts)" using b(1) less.prems(1) by simp
    consider (single) "\<not> (0x80 \<le> b \<and> b < 0xfe)" | (lead) "0xc0 \<le> b" "b < 0xfe" | (trail) "U8_IS_TRAIL b" unfolding U8_IS_TRAIL_def by linarith
    then show ?thesis
    proof cases
      case single
      then have "prev_loop s start i0 i (tval ts) n (6 * n) strict = Some (errorValue 0 strict, i0)"
        using gt b lead_bit [OF b(2,3)] by (subst prev_loop.simps) auto
      then show ?thesis using stay bk single gt s(3) unfolding Z_def by (auto intro!: exI [of _ i0] exI [of _ "[last ts]"])
    next
      case lead
      note bits = and_0x40 [of b] lead_bit [OF b(2,3)]
      consider (eq) "n = U8_COUNT_TRAIL_BYTES b" | (lt) "n < U8_COUNT_TRAIL_BYTES b" | (gt') "U8_COUNT_TRAIL_BYTES b < n" by linarith
      then show ?thesis
      proof cases
        case eq
        have "decode_first (b # ts) =
            (if n \<ge> 4 \<or> (let c = tval ts OR push_bit (6 * n) (U8_MASK_LEAD_BYTE b n) in c > 0x10ffff \<or> c < utf8_minLegal ! n \<or> is_surrogate c)
             then None else Some (tval ts OR push_bit (6 * n) (U8_MASK_LEAD_BYTE b n)))"
          using prev_lead [OF lead less.prems(2) _ refl] eq less.prems(3) by (simp add: Let_def)
        then have "prev_loop s start i0 i (tval ts) n (6 * n) strict = Some (char_or (errorValue 0 strict) (b # ts), i - 1)"
          using gt b bits lead eq strict errorValue_negative [OF strict(1)]
          by (subst prev_loop.simps) (simp add: Let_def char_or_def)
        then show ?thesis using rd bk lead eq gt less.prems(3,4,6) unfolding Z_def by (auto intro!: exI [of _ "i - 1"] exI [of _ "b # ts"])
      next
        case lt
        have "bytes ts" using less.prems(2) by (auto simp: bytes_def U8_IS_TRAIL_def)
        then have "decode_first (b # ts) = None" using decode_first_truncated [of b ts] lt less.prems(3) b by simp
        then have "prev_loop s start i0 i (tval ts) n (6 * n) strict = Some (char_or (errorValue 0 strict) (b # ts), i - 1)"
          using gt b bits lead lt errorValue_negative [OF strict(1)] by (subst prev_loop.simps) (simp add: Let_def char_or_def)
        then show ?thesis using rd bk lead lt gt less.prems(3,4,6) unfolding Z_def by (auto intro!: exI [of _ "i - 1"] exI [of _ "b # ts"])
      next
        case gt'
        then have "prev_loop s start i0 i (tval ts) n (6 * n) strict = Some (errorValue 0 strict, i0)"
          using gt b bits lead by (subst prev_loop.simps) (simp add: Let_def)
        then show ?thesis using stay bk lead gt' gt s(3) unfolding Z_def by (auto intro!: exI [of _ i0] exI [of _ "[last ts]"])
      qed
    next
      case trail
      then have t: "0x80 \<le> b" "b < 0xc0" "b mod 64 = b - 0x80" using mod_shift [of "b - 0x80" 64 2] by (auto simp: U8_IS_TRAIL_def)
      note bits = and_0x40 [of b] lead_bit [OF b(2,3)]
      show ?thesis
      proof (cases "n < 5")
        case True
        have v: "tval ts OR push_bit (6 * n) (b mod 64) = tval (b # ts)"
          using or_push tval_bounds [OF less.prems(2)] t(3) less.prems(3) by simp
        have "prev_loop s start i0 i (tval ts) n (6 * n) strict = prev_loop s start i0 (i - 1) (tval (b # ts)) (Suc n) (6 * Suc n) strict"
          using gt b bits t True v by (subst prev_loop.simps) (simp add: add.commute)
        moreover have "Z \<le> i - 1 - 1 \<longleftrightarrow> \<not> i - 1 \<le> start" using True less.prems(6) by (auto simp: Z_def)
        ultimately show ?thesis
          using less.hyps [of "Suc n" "i - 1" "b # ts"] rd True trail bk t less.prems(2-6) gt unfolding Z_def [symmetric]
          by (auto split: if_splits)
      next
        case False
        then have "prev_loop s start i0 i (tval ts) n (6 * n) strict = Some (errorValue 0 strict, i0)"
          using gt b bits t by (subst prev_loop.simps) simp
        moreover have "\<not> Z \<le> i - 1 - 1" using False less.prems(5,6) by (auto simp: Z_def)
        ultimately show ?thesis using stay bk t gt s(3) unfolding Z_def [symmetric] by (auto intro!: exI [of _ i0] exI [of _ "[last ts]"])
      qed
    qed
  qed
qed

lemma reads_take: "reads s j w \<Longrightarrow> 0 \<le> j \<Longrightarrow> w = take (length w) (drop (nat j) s)"
proof (induction w arbitrary: j)
  case (Cons b w)
  then have "nat j < length s" "b = s ! nat j" by (auto simp: byte_at_def split: if_splits)
  then have "drop (nat j) s = b # drop (Suc (nat j)) s" by (simp add: Cons_nth_drop_Suc)
  moreover have "nat (j + 1) = Suc (nat j)" using Cons.prems(2) by simp
  ultimately show ?case using Cons.IH [of "j + 1"] Cons.prems by simp
qed simp

lemma U8_PREV_reads:
  assumes s: "bytes s" "0 \<le> start" "start < i" "i \<le> int (length s)" and strict: "strict < 0" "strict \<noteq> -2"
  obtains j where "U8_PREV_strict strict s start i = Some (char_or (errorValue 0 strict) (take (nat (i - j)) (drop (nat j) s)), j)"
    "U8_BACK_1 s start i = Some j" "start \<le> j" "j < i" "nat (i - j) \<le> Suc (U8_COUNT_TRAIL_BYTES (s ! nat j))"
proof -
  define i0 where "i0 = i - 1"
  have i0: "start \<le> i0" "0 \<le> i0" using s by (auto simp: i0_def)
  obtain t where t: "byte_at s i0 = Some t" "0 \<le> t" "t < 256" using s i0 by (auto simp: byte_at_def bytes_def i0_def)
  have "\<exists>j w. U8_PREV_strict strict s start i = Some (char_or (errorValue 0 strict) w, j) \<and> U8_BACK_1 s start i = Some j \<and> reads s j w \<and>
      int (length w) = i0 + 1 - j \<and> length w \<le> Suc (U8_COUNT_TRAIL_BYTES (hd w)) \<and> start \<le> j \<and> j \<le> i0"
  proof (cases "U8_IS_TRAIL t")
    case True
    have tv: "t mod 64 = tval [t]" using True mod_shift [of "t - 0x80" 64 2] by (auto simp: U8_IS_TRAIL_def)
    obtain j w where j: "prev_loop s start i0 i0 (tval [t]) 1 (6 * 1) strict = Some (char_or (errorValue 0 strict) w, j)" "reads s j w"
      "int (length w) = i0 + 1 - j" "start \<le> j" "j \<le> i0" "length w \<le> Suc (U8_COUNT_TRAIL_BYTES (hd w))"
      "if i0 \<le> start then j = i0 else back1_loop s (if i0 - 5 > start then i0 - 5 else start) i0 (i0 - 1) = Some j"
      using prev_loop_reads [OF s(1,2) i0(1) strict, of i0 "[t]" 1] t True by auto
    have t8: "0x80 \<le> t" "t < 0xc0" using True by (auto simp: U8_IS_TRAIL_def)
    have "back1_loop s (if i0 - 5 > start then i0 - 5 else start) i0 i0 = Some j"
      using j(7) t lead_bit [OF t(2,3)] t8 i0(1) by (subst back1_loop.simps) (auto split: if_splits)
    moreover have "U8_PREV_strict strict s start i = Some (char_or (errorValue 0 strict) w, j)"
      using j(1) t True tv t8 by (simp add: U8_PREV_strict_def i0_def [symmetric] utf8_prevCharSafeBody_def)
    ultimately show ?thesis using j t True
      by (auto simp: U8_BACK_1_def U8_SET_CP_START_def utf8_back1SafeBody_def i0_def [symmetric])
  next
    case False
    have "char_or (errorValue 0 strict) [t] = (if t \<ge> 0x80 then errorValue 0 strict else t)"
      using False t(2) by (auto simp: char_or_def decode_first_def)
    then show ?thesis using t False i0(1)
      by (auto simp: U8_BACK_1_def U8_SET_CP_START_def U8_PREV_strict_def i0_def [symmetric] utf8_prevCharSafeBody_def
               intro!: exI [of _ i0] exI [of _ "[t]"])
  qed
  then obtain j w where j: "U8_PREV_strict strict s start i = Some (char_or (errorValue 0 strict) w, j)" "U8_BACK_1 s start i = Some j"
    "reads s j w" "int (length w) = i0 + 1 - j" "start \<le> j" "j \<le> i0" "length w \<le> Suc (U8_COUNT_TRAIL_BYTES (hd w))" by blast
  have "hd w = s ! nat j" using j(3,4,6) by (cases w) (auto simp: byte_at_def split: if_splits)
  moreover have "length w = nat (i - j)" using j(4) by (simp add: i0_def)
  ultimately have "nat (i - j) \<le> Suc (U8_COUNT_TRAIL_BYTES (s ! nat j))" using j(7) by simp
  moreover
  have "w = take (nat (i - j)) (drop (nat j) s)" using reads_take [OF j(3)] j(4,5) s(2) i0_def by (metis diff_add_cancel nat_int order_trans)
  ultimately show thesis using that [of j] j(1,2,5,6) i0_def by auto
qed

lemma back1_loop_finds:
  assumes "reads s j (b # ts)" "0xc0 \<le> b" "b < 0xfe" "\<forall>t \<in> set ts. U8_IS_TRAIL t" "length ts \<le> U8_COUNT_TRAIL_BYTES b" "Z \<le> j"
    "k \<le> length ts" "i0 = j + int (length ts)"
  shows "back1_loop s Z i0 (j + int k) = Some j"
  using assms(7)
proof (induction k)
  case 0
  then show ?case using assms(1-3,5,8) lead_bit [of b] by (subst back1_loop.simps) auto
next
  case (Suc k)
  have "reads s i ts \<Longrightarrow> k < length ts \<Longrightarrow> byte_at s (i + int k) = Some (ts ! k)" for i
  proof (induction ts arbitrary: i k)
    case (Cons t ts)
    then show ?case using Cons.IH [of "i + 1" "k - 1"] by (cases k) (auto simp: algebra_simps)
  qed simp
  from this [of "j + 1"] have r: "byte_at s (j + int (Suc k)) = Some (ts ! k)" using assms(1) Suc.prems by (simp add: algebra_simps)
  have t: "0x80 \<le> ts ! k" "ts ! k < 0xc0" using assms(4) Suc.prems by (auto simp: U8_IS_TRAIL_def)
  then show ?case using r Suc assms(6) lead_bit [of "ts ! k"] by (subst back1_loop.simps) auto
qed

text \<open>\<^verbatim>\<open>U8_BACK_1\<close> finds the start of a character that ends at the index.\<close>

lemma utf8_bytes_shape:
  assumes "scalar c"
  shows "c < 0x80 \<and> utf8_bytes c = [c] \<or>
    (\<exists>b ts. utf8_bytes c = b # ts \<and> 0xc2 \<le> b \<and> b < 0xf5 \<and> ts \<noteq> [] \<and> (\<forall>t \<in> set ts. U8_IS_TRAIL t) \<and> length ts = U8_COUNT_TRAIL_BYTES b)"
proof -
  have c: "0 \<le> c" "c \<le> 0x10ffff" using assms by (auto simp: scalar_def)
  have m: "U8_IS_TRAIL (x mod 64 + 0x80)" for x by (rule trail_digit) simp_all
  consider "c \<le> 0x7f" | "0x7f < c" "c \<le> 0x7ff" | "0x7ff < c" "c \<le> 0xffff" | "0xffff < c" by linarith
  then show ?thesis
  proof cases
    case 2
    then have q: "2 \<le> c div 64" "c div 64 < 32" by auto
    define q z where "q = c div 64" and "z = c mod 64 + 0x80"
    have "utf8_bytes c = [q + 0xc0, z]" using 2 c unfolding utf8_bytes_def unsigned_le_def q_def z_def by auto
    moreover have "U8_IS_TRAIL z" unfolding z_def by (rule m)
    moreover have "U8_COUNT_TRAIL_BYTES (q + 0xc0) = 1" using q unfolding q_def [symmetric] by (simp add: U8_COUNT_TRAIL_BYTES_def)
    ultimately show ?thesis using q unfolding q_def [symmetric] by simp
  next
    case 3
    then have q: "0 \<le> c div 4096" "c div 4096 < 16" using c by auto
    define q y z where "q = c div 4096" and "y = c div 64 mod 64 + 0x80" and "z = c mod 64 + 0x80"
    have "utf8_bytes c = [q + 0xe0, y, z]" using 3 c unfolding utf8_bytes_def unsigned_le_def q_def y_def z_def by auto
    moreover have "U8_IS_TRAIL y" "U8_IS_TRAIL z" unfolding y_def z_def by (rule m)+
    moreover have "U8_COUNT_TRAIL_BYTES (q + 0xe0) = 2" using q unfolding q_def [symmetric] by (simp add: U8_COUNT_TRAIL_BYTES_def)
    ultimately show ?thesis using q unfolding q_def [symmetric] by simp
  next
    case 4
    then have q: "0 \<le> c div 262144" "c div 262144 < 5" using c by auto
    define q x y z where "q = c div 262144" and "x = c div 4096 mod 64 + 0x80" and "y = c div 64 mod 64 + 0x80" and "z = c mod 64 + 0x80"
    have "utf8_bytes c = [q + 0xf0, x, y, z]" using 4 unfolding utf8_bytes_def unsigned_le_def q_def x_def y_def z_def by auto
    moreover have "U8_IS_TRAIL x" "U8_IS_TRAIL y" "U8_IS_TRAIL z" unfolding x_def y_def z_def by (rule m)+
    moreover have "U8_COUNT_TRAIL_BYTES (q + 0xf0) = 3" using q unfolding q_def [symmetric] by (simp add: U8_COUNT_TRAIL_BYTES_def)
    ultimately show ?thesis using q unfolding q_def [symmetric] by simp
  qed (use c in \<open>simp add: utf8_bytes_def unsigned_le_def\<close>)
qed

lemma U8_BACK_1_finds:
  assumes "0 \<le> k" "start \<le> k" "k \<le> i" "i \<le> int (length s)" "scalar c" "take (nat (i - k)) (drop (nat k) s) = utf8_bytes c"
  shows "U8_BACK_1 s start i = Some k"
proof -
  have rd: "reads s k (utf8_bytes c)" using reads_drop [OF assms(1)] assms(6) by metis
  have len: "int (length (utf8_bytes c)) = i - k" using assms(1,3,4) unfolding assms(6) [symmetric] by simp
  show ?thesis using utf8_bytes_shape [OF assms(5)]
  proof (elim disjE exE conjE)
    assume "c < 0x80" "utf8_bytes c = [c]"
    moreover from this have "i - 1 = k" using len by simp
    ultimately show ?thesis using rd by (simp add: U8_BACK_1_def U8_SET_CP_START_def U8_IS_TRAIL_def)
  next
    fix b ts assume b: "utf8_bytes c = b # ts" "0xc2 \<le> b" "b < 0xf5" "ts \<noteq> []" "\<forall>t \<in> set ts. U8_IS_TRAIL t" "length ts = U8_COUNT_TRAIL_BYTES b"
    define i0 where "i0 = i - 1"
    have i0: "i0 = k + int (length ts)" using len b(1) by (simp add: i0_def)
    have l3: "length ts \<le> 3" using b(2,3,6) by (auto simp: U8_COUNT_TRAIL_BYTES_def)
    have "back1_loop s (if i0 - 5 > start then i0 - 5 else start) i0 (k + int (length ts)) = Some k"
      by (rule back1_loop_finds [of s k b ts]) (use rd b i0 l3 assms(2) in auto)
    note this [folded i0]
    moreover have "byte_at s i0 = Some (last ts)" "U8_IS_TRAIL (last ts)"
      using reads_last [of s "k + 1" ts] rd b(1,4,5) i0 by (auto simp: algebra_simps)
    ultimately show ?thesis by (simp add: U8_BACK_1_def U8_SET_CP_START_def utf8_back1SafeBody_def i0_def [symmetric])
  qed
qed

end
