(* ===== verification/Utf8Claims.thy ===== *)
theory Utf8Claims
  imports Utf8Proofs
begin

text \<open>
  The properties of the UTF-8 macros: what the readers accept, that moving and reading agree, and that what is
  written is read back in both directions.
\<close>

lemma sentinel [simp]: "errorValue 0 (-1) = U_SENTINEL" "errorValue 0 (-3) = 0xfffd"
  by (simp_all add: errorValue_def)

lemma decode_first_iff: "bytes w \<Longrightarrow> decode_first w = Some c \<longleftrightarrow> scalar c \<and> (\<exists>rest. w = utf8_bytes c @ rest)"
  using decode_first_sound decode_first_complete by blast

lemma bytes_sub: "bytes s \<Longrightarrow> bytes (take n (drop m s))"
  by (auto simp: bytes_def dest!: in_set_takeD in_set_dropD)

lemma window_len:
  assumes "bytes s" "0 \<le> i" "i < len" "len \<le> int (length s)"
  obtains b r where "take (nat (len - i)) (drop (nat i) s) = b # r" "window s i len (b # r)"
proof -
  let ?w = "take (nat (len - i)) (drop (nat i) s)"
  have l: "int (length ?w) = len - i" using assms by simp
  then obtain b r where w: "?w = b # r" using assms(3) by (cases ?w) auto
  have "bytes ?w" "reads s i ?w" using bytes_sub [OF assms(1)] reads_drop [OF assms(2)] by auto
  then have "window s i len ?w" using l w assms(2,3) by (auto simp: window_def)
  then show thesis using that w by metis
qed

text \<open>
  C21. \<^verbatim>\<open>U8_NEXT\<close> inside a string never reads outside it and always advances, to where \<^verbatim>\<open>U8_FWD_1\<close> goes. If the
  bytes at the index begin with the UTF-8 form of a scalar value, it returns that value and moves over
  exactly its bytes; otherwise (overlong forms, surrogates, values above U+10FFFF, truncated
  sequences, stray bytes) it returns -1, and \<^verbatim>\<open>U8_NEXT_OR_FFFD\<close> U+FFFD.
\<close>

theorem U8_NEXT_accepts_scalars:
  assumes "bytes s" "0 \<le> i" "i < len" "len \<le> int (length s)"
  shows "\<exists>c j. U8_NEXT s i len = Some (c, j) \<and> U8_NEXT_OR_FFFD s i len = Some (if c = U_SENTINEL then 0xfffd else c, j) \<and>
    U8_FWD_1 s i len = Some j \<and> i < j \<and> j \<le> len \<and>
    (if \<exists>c' rest. scalar c' \<and> take (nat (len - i)) (drop (nat i) s) = utf8_bytes c' @ rest
     then scalar c \<and> take (nat (j - i)) (drop (nat i) s) = utf8_bytes c
     else c = U_SENTINEL)"
proof -
  obtain b r where w: "take (nat (len - i)) (drop (nat i) s) = b # r" "window s i len (b # r)" by (rule window_len [OF assms])
  define j where "j = i + int (width (b # r))"
  have bs: "bytes (b # r)" using w(2) by (simp add: window_def)
  have l: "int (length (b # r)) = len - i" using w(2) assms(2,3) by (auto simp: window_def)
  have j: "i < j" "j \<le> len" using width_bounds [of "b # r"] l by (auto simp: j_def)
  have n: "U8_NEXT s i len = Some (char_or U_SENTINEL (b # r), j)" "U8_NEXT_OR_FFFD s i len = Some (char_or 0xfffd (b # r), j)"
    using U8_NEXT_decodes [OF w(2), of "-1"] U8_NEXT_decodes [OF w(2), of "-3"] by (simp_all add: U8_NEXT_def U8_NEXT_OR_FFFD_def j_def)
  show ?thesis
  proof (cases "decode_first (b # r)")
    case None
    then have "\<nexists>c' rest. scalar c' \<and> b # r = utf8_bytes c' @ rest" using decode_first_iff [OF bs] by auto
    then show ?thesis using n j U8_FWD_1_width [OF w(2)] w(1) None by (auto simp: char_or_def j_def)
  next
    case (Some c)
    then obtain rest where c: "scalar c" "b # r = utf8_bytes c @ rest" using decode_first_iff [OF bs] by auto
    have "nat (j - i) = length (utf8_bytes c)" using width_decoded [OF bs Some] by (simp add: j_def)
    moreover have "length (utf8_bytes c) \<le> nat (len - i)" using j by (simp add: calculation [symmetric])
    then have "take (length (utf8_bytes c)) (drop (nat i) s) = take (length (utf8_bytes c)) (b # r)"
      by (simp only: w(1) [symmetric] take_take min_absorb1)
    ultimately have "take (nat (j - i)) (drop (nat i) s) = utf8_bytes c" using c(2) by simp
    moreover have "c \<noteq> U_SENTINEL" using c(1) by (auto simp: scalar_def U_SENTINEL_def)
    moreover have "\<exists>c' rest. scalar c' \<and> take (nat (len - i)) (drop (nat i) s) = utf8_bytes c' @ rest" using c w(1) by auto
    ultimately show ?thesis using n j U8_FWD_1_width [OF w(2)] Some c(1) by (auto simp: char_or_def j_def)
  qed
qed

theorem U8_NEXT_accepts_scalars_witness:
  "\<exists>c j. U8_NEXT [0x61, 0xf0, 0x9f, 0x98, 0x80] 1 5 = Some (c, j) \<and>
    U8_NEXT_OR_FFFD [0x61, 0xf0, 0x9f, 0x98, 0x80] 1 5 = Some (if c = U_SENTINEL then 0xfffd else c, j) \<and>
    U8_FWD_1 [0x61, 0xf0, 0x9f, 0x98, 0x80] 1 5 = Some j \<and> 1 < j \<and> j \<le> 5 \<and>
    (if \<exists>c' rest. scalar c' \<and> take (nat (5 - 1)) (drop (nat 1) [0x61, 0xf0, 0x9f, 0x98, 0x80]) = utf8_bytes c' @ rest
     then scalar c \<and> take (nat (j - 1)) (drop (nat 1) [0x61, 0xf0, 0x9f, 0x98, 0x80]) = utf8_bytes c
     else c = U_SENTINEL)"
  by (rule U8_NEXT_accepts_scalars) simp_all

lemma decode_first_snoc_0: "w \<noteq> [] \<Longrightarrow> decode_first (w @ [0]) = decode_first w"
  by (cases w; cases "tl w"; cases "tl (tl w)"; cases "tl (tl (tl w))") (auto simp: decode_first_def)

lemma width_snoc_0: "w \<noteq> [] \<Longrightarrow> width (w @ [0]) = width w"
proof -
  assume "w \<noteq> []"
  then obtain b r where w: "w = b # r" by (cases w) auto
  have "skipped (r @ [0]) n = skipped r n" for n
  proof (cases "n \<le> length r")
    case False
    then obtain m where "n - length r = Suc m" by (metis Suc_diff_Suc not_le)
    then show ?thesis using False by (auto simp: skipped_def takeWhile_append takeWhile_eq_all_conv [THEN iffD2])
  qed (simp add: skipped_def)
  then show ?thesis using w by (simp add: width_def)
qed

text \<open>
  A string that ends with a zero byte may be read with a negative length: \<^verbatim>\<open>U8_NEXT\<close> and \<^verbatim>\<open>U8_FWD_1\<close> then
  never read behind the zero and return what they return for the length up to it.
\<close>

theorem U8_NEXT_terminated:
  assumes "bytes t" "0 \<le> i" "i < int (length t)"
  shows "U8_NEXT (t @ 0 # rest) i (-1) = U8_NEXT t i (int (length t)) \<and> U8_FWD_1 (t @ 0 # rest) i (-1) = U8_FWD_1 t i (int (length t))"
proof -
  obtain b r where w: "take (nat (int (length t) - i)) (drop (nat i) t) = b # r" "window t i (int (length t)) (b # r)"
    using window_len [OF assms(1,2,3)] by auto
  have d: "drop (nat i) t = b # r" using w(1) assms(2,3) by (simp add: nat_diff_distrib)
  have "reads (t @ 0 # rest) i (take (Suc (length (b # r))) (drop (nat i) (t @ 0 # rest)))" by (rule reads_drop [OF assms(2)])
  also have "take (Suc (length (b # r))) (drop (nat i) (t @ 0 # rest)) = (b # r) @ [0]" using d assms(2,3) by simp
  finally have "window (t @ 0 # rest) i (-1) (b # (r @ [0]))" using w(2) by (simp add: window_def)
  note tm = U8_NEXT_decodes [OF this, of "-1"] U8_FWD_1_width [OF this]
  show ?thesis using tm U8_NEXT_decodes [OF w(2), of "-1"] U8_FWD_1_width [OF w(2)] decode_first_snoc_0 [of "b # r"] width_snoc_0 [of "b # r"]
    by (simp add: U8_NEXT_def char_or_def)
qed

theorem U8_NEXT_terminated_witness:
  "U8_NEXT ([0x61, 0xe2, 0x82] @ 0 # [0xac]) 1 (-1) = U8_NEXT [0x61, 0xe2, 0x82] 1 (int (length [0x61, 0xe2, 0x82 :: int])) \<and>
   U8_FWD_1 ([0x61, 0xe2, 0x82] @ 0 # [0xac]) 1 (-1) = U8_FWD_1 [0x61, 0xe2, 0x82] 1 (int (length [0x61, 0xe2, 0x82 :: int]))"
  by (rule U8_NEXT_terminated) simp_all

text \<open>
  \<^verbatim>\<open>U8_PREV\<close> behind the start of a string never reads before the start and always moves back, to where \<^verbatim>\<open>U8_BACK_1\<close>
  goes. It returns a code point exactly if the bytes it has moved over are the UTF-8 form of a scalar
  value, and -1 otherwise; and it finds every character that ends at the index.
\<close>

theorem U8_PREV_reads_back:
  assumes "bytes s" "0 \<le> start" "start < i" "i \<le> int (length s)"
  shows "\<exists>c j. U8_PREV s start i = Some (c, j) \<and> U8_BACK_1 s start i = Some j \<and> start \<le> j \<and> j < i \<and>
    (if c = U_SENTINEL then \<nexists>c'. scalar c' \<and> take (nat (i - j)) (drop (nat j) s) = utf8_bytes c'
     else scalar c \<and> take (nat (i - j)) (drop (nat j) s) = utf8_bytes c) \<and>
    (\<forall>c' k. scalar c' \<and> start \<le> k \<and> k \<le> i \<and> take (nat (i - k)) (drop (nat k) s) = utf8_bytes c' \<longrightarrow> (c, j) = (c', k))"
proof -
  obtain j where j: "U8_PREV s start i = Some (char_or U_SENTINEL (take (nat (i - j)) (drop (nat j) s)), j)"
    "U8_BACK_1 s start i = Some j" "start \<le> j" "j < i" "nat (i - j) \<le> Suc (U8_COUNT_TRAIL_BYTES (s ! nat j))"
    using U8_PREV_reads [OF assms, of "-1"] by (auto simp: U8_PREV_def)
  let ?w = "take (nat (i - j)) (drop (nat j) s)"
  have bs: "bytes ?w" by (rule bytes_sub [OF assms(1)])
  have found: "j = k" if k: "scalar c'" "start \<le> k" "k \<le> i" "take (nat (i - k)) (drop (nat k) s) = utf8_bytes c'" for c' k
    using U8_BACK_1_finds [OF _ k(2,3) assms(4) k(1,4)] k(2) assms(2) j(2) by simp
  show ?thesis
  proof (cases "decode_first ?w")
    case None
    then have no: "\<nexists>c'. scalar c' \<and> ?w = utf8_bytes c'" using decode_first_complete [of _ "[]"] by auto
    then have "\<forall>c' k. scalar c' \<and> start \<le> k \<and> k \<le> i \<and> take (nat (i - k)) (drop (nat k) s) = utf8_bytes c' \<longrightarrow> (U_SENTINEL, j) = (c', k)"
      using found by blast
    moreover have "U8_PREV s start i = Some (U_SENTINEL, j)" using j(1) None by (simp add: char_or_def)
    ultimately show ?thesis using j(2-4) no by (intro exI [of _ U_SENTINEL] exI [of _ j]) (simp only: if_True simp_thms)
  next
    case (Some c)
    then obtain rest where c: "scalar c" "?w = utf8_bytes c @ rest" using decode_first_iff [OF bs] by auto
    have "0 \<le> j" "nat j < length s" using j(3,4) assms(2,4) by auto
    then have "drop (nat j) s = s ! nat j # drop (Suc (nat j)) s" by (simp add: Cons_nth_drop_Suc)
    moreover obtain m where m: "nat (i - j) = Suc m" using j(4) by (cases "nat (i - j)") auto
    ultimately have w: "?w = s ! nat j # take m (drop (Suc (nat j)) s)" by simp
    have "length ?w = nat (i - j)" using j(3,4) assms(2,4) by (simp add: nat_diff_distrib)
    moreover have "length (utf8_bytes c) = Suc (U8_COUNT_TRAIL_BYTES (s ! nat j))" using decode_first_length(1) Some bs unfolding w by blast
    ultimately have "rest = []" using c(2) j(5) by (metis add_le_same_cancel1 le_zero_eq length_0_conv length_append le_trans)
    then have "?w = utf8_bytes c" using c(2) by simp
    moreover have "c \<noteq> U_SENTINEL" using c(1) by (auto simp: scalar_def U_SENTINEL_def)
    moreover have "c = c'" if "scalar c'" "?w = utf8_bytes c'" for c' using decode_first_complete [OF that(1), of "[]"] that(2) Some by simp
    then have "\<forall>c' k. scalar c' \<and> start \<le> k \<and> k \<le> i \<and> take (nat (i - k)) (drop (nat k) s) = utf8_bytes c' \<longrightarrow> (c, j) = (c', k)"
      using found by blast
    moreover have "U8_PREV s start i = Some (c, j)" using j(1) Some by (simp add: char_or_def)
    ultimately show ?thesis using j(2-4) c(1) by (intro exI [of _ c] exI [of _ j]) (simp only: if_False simp_thms)
  qed
qed

theorem U8_PREV_reads_back_witness:
  "\<exists>c j. U8_PREV [0x61, 0xe2, 0x82, 0xac] 0 4 = Some (c, j) \<and> U8_BACK_1 [0x61, 0xe2, 0x82, 0xac] 0 4 = Some j \<and> 0 \<le> j \<and> j < 4 \<and>
    (if c = U_SENTINEL then \<nexists>c'. scalar c' \<and> take (nat (4 - j)) (drop (nat j) [0x61, 0xe2, 0x82, 0xac]) = utf8_bytes c'
     else scalar c \<and> take (nat (4 - j)) (drop (nat j) [0x61, 0xe2, 0x82, 0xac]) = utf8_bytes c) \<and>
    (\<forall>c' k. scalar c' \<and> 0 \<le> k \<and> k \<le> 4 \<and> take (nat (4 - k)) (drop (nat k) [0x61, 0xe2, 0x82, 0xac]) = utf8_bytes c' \<longrightarrow> (c, j) = (c', k))"
  by (rule U8_PREV_reads_back) simp_all

lemma write_bytes_eq:
  assumes "0 \<le> i" "i + int (length bs) \<le> int (length s)"
  shows "write_bytes s i bs = Some (take (nat i) s @ bs @ drop (nat i + length bs) s, i + int (length bs))"
  using assms
proof (induction bs arbitrary: s i)
  case (Cons b bs)
  have i: "nat i < length s" "nat (i + 1) = Suc (nat i)" using Cons.prems by auto
  have "write_bytes s i (b # bs) = write_bytes (s[nat i := b]) (i + 1) bs" using Cons.prems by simp
  also have "\<dots> = Some (take (Suc (nat i)) (s[nat i := b]) @ bs @ drop (Suc (nat i) + length bs) (s[nat i := b]), i + 1 + int (length bs))"
    using Cons.IH [of "i + 1" "s[nat i := b]"] Cons.prems i(2) by simp
  also have "take (Suc (nat i)) (s[nat i := b]) = take (nat i) s @ [b]" using i(1) by (simp add: take_Suc_conv_app_nth)
  finally show ?case by (simp add: algebra_simps)
qed simp

lemma U8_LENGTH_bytes: "scalar c \<Longrightarrow> U8_LENGTH c = int (length (utf8_bytes c))"
  by (auto simp: U8_LENGTH_def utf8_bytes_def scalar_def is_surrogate_def unsigned_le_def)

lemma U8_LENGTH_nonscalar: "\<not> scalar c \<Longrightarrow> U8_LENGTH c = 0"
  by (auto simp: U8_LENGTH_def scalar_def is_surrogate_def unsigned_le_def)

lemma U8_APPEND_eval:
  assumes "0 \<le> i" "i < cap" "cap \<le> int (length s)"
  shows "U8_APPEND s i cap c e =
    (if scalar c \<and> i + U8_LENGTH c \<le> cap
     then Some (take (nat i) s @ utf8_bytes c @ drop (nat i + length (utf8_bytes c)) s, i + U8_LENGTH c, e)
     else Some (s, i, True))"
proof -
  have w: "i + int (length bs) \<le> cap \<Longrightarrow> write_bytes s i bs = Some (take (nat i) s @ bs @ drop (nat i + length bs) s, i + int (length bs))" for bs
    using write_bytes_eq [OF assms(1)] assms(3) by simp
  note defs = U8_APPEND_def utf8_appendCharSafeBody_def unsigned_le_def U8_LENGTH_def utf8_bytes_def scalar_def is_surrogate_def
  consider "c < 0" | "0 \<le> c" "c \<le> 0x7f" | "0x7f < c" "c \<le> 0x7ff" | "0x7ff < c" "c \<le> 0xd7ff" | "0xd7ff < c" "c \<le> 0xdfff"
    | "0xdfff < c" "c \<le> 0xffff" | "0xffff < c" "c \<le> 0x10ffff" | "0x10ffff < c" by linarith
  then show ?thesis
  proof cases
    case 2
    then show ?thesis using w [of "[c]"] assms(2) by (simp add: defs)
  next
    case 3
    then show ?thesis using w [of "[c div 64 + 0xc0, c mod 64 + 0x80]"] by (simp add: defs)
  next
    case 4
    then show ?thesis using w [of "[c div 4096 + 0xe0, c div 64 mod 64 + 0x80, c mod 64 + 0x80]"] by (simp add: defs)
  next
    case 6
    then show ?thesis using w [of "[c div 4096 + 0xe0, c div 64 mod 64 + 0x80, c mod 64 + 0x80]"] by (simp add: defs)
  next
    case 7
    then show ?thesis using w [of "[c div 262144 + 0xf0, c div 4096 mod 64 + 0x80, c div 64 mod 64 + 0x80, c mod 64 + 0x80]"] by (simp add: defs)
  qed (simp_all add: defs)
qed

lemma bytes_utf8_bytes: "scalar c \<Longrightarrow> bytes (utf8_bytes c)"
proof -
  have "U8_IS_TRAIL t \<Longrightarrow> 0 \<le> t \<and> t < 256" for t by (simp add: U8_IS_TRAIL_def)
  then show "scalar c \<Longrightarrow> bytes (utf8_bytes c)" using utf8_bytes_shape [of c] by (auto simp: bytes_def scalar_def)
qed

lemma utf8_bytes_nonempty: "utf8_bytes c \<noteq> []"
  by (simp add: utf8_bytes_def)

lemma U8_NEXT_at:
  assumes "bytes s" "0 \<le> i" "i + int (length (utf8_bytes c)) \<le> len" "len \<le> int (length s)" "scalar c"
    "take (length (utf8_bytes c)) (drop (nat i) s) = utf8_bytes c"
  shows "U8_NEXT s i len = Some (c, i + int (length (utf8_bytes c)))"
proof -
  have "0 < length (utf8_bytes c)" using utf8_bytes_nonempty by simp
  then have "i < len" using assms(3) by linarith
  then obtain b r where w: "take (nat (len - i)) (drop (nat i) s) = b # r" "window s i len (b # r)"
    using window_len [OF assms(1,2) _ assms(4)] by blast
  have "take (length (utf8_bytes c)) (b # r) = utf8_bytes c"
    unfolding w(1) [symmetric] take_take using assms(3,6) by (simp add: min_absorb1)
  then have d: "b # r = utf8_bytes c @ drop (length (utf8_bytes c)) (b # r)" by (metis append_take_drop_id)
  then have "decode_first (b # r) = Some c" using decode_first_complete [OF assms(5)] by metis
  moreover have "bytes (b # r)" using w(2) by (simp add: window_def)
  ultimately show ?thesis using U8_NEXT_decodes [OF w(2), of "-1"] width_decoded by (simp add: U8_NEXT_def char_or_def)
qed

lemma U8_PREV_at:
  assumes "bytes s" "0 \<le> start" "start \<le> k" "k + int (length (utf8_bytes c)) \<le> int (length s)" "scalar c"
    "take (length (utf8_bytes c)) (drop (nat k) s) = utf8_bytes c"
  shows "U8_PREV s start (k + int (length (utf8_bytes c))) = Some (c, k)"
proof -
  let ?i = "k + int (length (utf8_bytes c))"
  have "start < ?i" using assms(3) utf8_bytes_nonempty [of c] by (cases "utf8_bytes c") auto
  then obtain j where j: "U8_PREV s start ?i = Some (char_or U_SENTINEL (take (nat (?i - j)) (drop (nat j) s)), j)" "U8_BACK_1 s start ?i = Some j"
    using U8_PREV_reads [OF assms(1,2) _ assms(4), of "-1"] by (auto simp: U8_PREV_def)
  have "U8_BACK_1 s start ?i = Some k" by (rule U8_BACK_1_finds [where c = c]) (use assms in auto)
  then show ?thesis using j decode_first_complete [OF assms(5), of "[]"] assms(6) by (simp add: char_or_def)
qed

text \<open>
  C22. \<^verbatim>\<open>U8_APPEND\<close> with room for at least one byte: a scalar value whose \<^verbatim>\<open>U8_LENGTH\<close> bytes fit is written, changes no
  other byte, and is read back by \<^verbatim>\<open>U8_NEXT\<close> and \<^verbatim>\<open>U8_PREV\<close>; anything else (a surrogate, a number that is no code
  point, too little room) sets the error flag and writes nothing.
\<close>

theorem U8_APPEND_roundtrip:
  assumes "bytes s" "0 \<le> i" "i < cap" "cap \<le> int (length s)"
  shows "\<exists>s'. (if scalar c \<and> i + U8_LENGTH c \<le> cap
     then U8_APPEND s i cap c e = Some (s', i + U8_LENGTH c, e) \<and> length s' = length s \<and> take (nat i) s' = take (nat i) s \<and>
       drop (nat (i + U8_LENGTH c)) s' = drop (nat (i + U8_LENGTH c)) s \<and> U8_NEXT s' i cap = Some (c, i + U8_LENGTH c) \<and>
       (\<forall>start. 0 \<le> start \<and> start \<le> i \<longrightarrow> U8_PREV s' start (i + U8_LENGTH c) = Some (c, i))
     else U8_APPEND s i cap c e = Some (s, i, True))"
proof (cases "scalar c \<and> i + U8_LENGTH c \<le> cap")
  case False
  then show ?thesis using U8_APPEND_eval [OF assms(2-4)] by auto
next
  case True
  define n where "n = length (utf8_bytes c)"
  define s' where "s' = take (nat i) s @ utf8_bytes c @ drop (nat i + n) s"
  have len: "U8_LENGTH c = int n" using U8_LENGTH_bytes True by (simp add: n_def)
  then have fits: "i + int n \<le> cap" using True by simp
  have "bytes (take (nat i) s)" "bytes (drop (nat i + n) s)" using assms(1) by (auto simp: bytes_def dest!: in_set_takeD in_set_dropD)
  then have b: "bytes s'" using bytes_utf8_bytes True by (simp add: s'_def)
  have l: "length s' = length s" using assms fits by (simp add: s'_def n_def)
  have at: "take n (drop (nat i) s') = utf8_bytes c" using assms(2-4) by (simp add: s'_def n_def)
  have "U8_APPEND s i cap c e = Some (s', i + int n, e)"
    using U8_APPEND_eval [OF assms(2-4), of c e] True len by (simp add: s'_def n_def [symmetric])
  moreover have "take (nat i) s' = take (nat i) s" "drop (nat (i + int n)) s' = drop (nat (i + int n)) s"
    using assms(2-4) by (simp_all add: s'_def n_def nat_add_distrib)
  moreover have "U8_NEXT s' i cap = Some (c, i + int n)"
    using U8_NEXT_at [OF b assms(2), of c cap] fits assms(4) l True at by (simp add: n_def)
  moreover have "\<forall>start. 0 \<le> start \<and> start \<le> i \<longrightarrow> U8_PREV s' start (i + int n) = Some (c, i)"
    using U8_PREV_at [OF b _ _ _ _ at [unfolded n_def]] fits assms(4) l True by (simp add: n_def)
  ultimately show ?thesis using True len l by (intro exI [of _ s']) (simp only: if_True simp_thms)
qed

theorem U8_APPEND_roundtrip_witness:
  "\<exists>s'. (if scalar 0x20ac \<and> 1 + U8_LENGTH 0x20ac \<le> 5
     then U8_APPEND [0x61, 0, 0, 0, 0] 1 5 0x20ac False = Some (s', 1 + U8_LENGTH 0x20ac, False) \<and> length s' = length [0x61, 0, 0, 0, 0 :: int] \<and>
       take (nat 1) s' = take (nat 1) [0x61, 0, 0, 0, 0] \<and>
       drop (nat (1 + U8_LENGTH 0x20ac)) s' = drop (nat (1 + U8_LENGTH 0x20ac)) [0x61, 0, 0, 0, 0] \<and> U8_NEXT s' 1 5 = Some (0x20ac, 1 + U8_LENGTH 0x20ac) \<and>
       (\<forall>start. 0 \<le> start \<and> start \<le> 1 \<longrightarrow> U8_PREV s' start (1 + U8_LENGTH 0x20ac) = Some (0x20ac, 1))
     else U8_APPEND [0x61, 0, 0, 0, 0] 1 5 0x20ac False = Some ([0x61, 0, 0, 0, 0], 1, True))"
  by (rule U8_APPEND_roundtrip) simp_all

end
