(* ===== verification/StringTransform.thy ===== *)
theory StringTransform
  imports Utf8Claims Punycode
begin

text \<open>
  Conversion between UTF-8, UTF-16 and UTF-32 strings, \<^verbatim>\<open>common/ustrtrns.cpp\<close>. A source pointer is the list of what
  lies from it to the end of the memory block, or to the limit where the code knows one; the destination
  is the list of the units written so far. A read behind the end of the block or a write behind the end
  of the destination is \<open>None\<close>. With \<open>srcLength = -1\<close> the source ends at its first zero.
\<close>

section \<open>One character of UTF-8\<close>

text \<open>
  The two versions of \<^verbatim>\<open>utf8_nextCharSafeBody\<close> of this file. The cases of the \<^verbatim>\<open>switch\<close> return \<^verbatim>\<open>illegal\<close>, \<^verbatim>\<open>c\<close> and \<^verbatim>\<open>s\<close>; the last
  step skips the trail bytes of an illegal sequence.
\<close>

fun skip_trail_bytes :: "int list \<Rightarrow> nat \<Rightarrow> int list option" where
  "skip_trail_bytes s 0 = Some s"
| "skip_trail_bytes [] (Suc n) = None"
| "skip_trail_bytes (b # s) (Suc n) = (if U8_IS_TRAIL b then skip_trail_bytes s n else Some (b # s))"

fun terminated_case1 :: "int list \<Rightarrow> int \<Rightarrow> (bool \<times> int \<times> int list) option" where
  "terminated_case1 [] c = None"
| "terminated_case1 (b # s) c = (let trail = trail_value b in Some (trail > 0x3f, push_bit 6 c OR trail, s))"

fun terminated_case2 :: "int list \<Rightarrow> int \<Rightarrow> (bool \<times> int \<times> int list) option" where
  "terminated_case2 [] c = None"
| "terminated_case2 (b # s) c =
     (let trail = trail_value b in
      if trail > 0x3f then Some (True, c, s) else terminated_case1 s (push_bit 6 c OR trail))"

fun terminated_case3 :: "int list \<Rightarrow> int \<Rightarrow> (bool \<times> int \<times> int list) option" where
  "terminated_case3 [] c = None"
| "terminated_case3 (b # s) c =
     (let trail = trail_value b; c' = push_bit 6 c OR trail in
      if trail > 0x3f \<or> c' \<ge> 0x110 then Some (True, c', s) else terminated_case2 s c')"

definition utf8_nextCharSafeBodyTerminated :: "int list \<Rightarrow> int \<Rightarrow> (int \<times> int list) option" where
  "utf8_nextCharSafeBodyTerminated s c0 =
     (let n = U8_COUNT_TRAIL_BYTES c0; c = U8_MASK_LEAD_BYTE c0 n in
      if n = 0 then Some (U_SENTINEL, s)
      else do {
        (illegal, c', s') \<leftarrow>
          (if n = 3 then terminated_case3 s c
           else if n = 2 then terminated_case2 s c
           else if n = 1 then terminated_case1 s c
           else Some (True, c, s));
        if illegal \<or> c' < utf8_minLegal ! n \<or> is_surrogate c' then
          map_option (\<lambda>s''. (U_SENTINEL, s'')) (skip_trail_bytes s n)
        else Some (c', s')
      })"

fun pointer_case1 :: "int list \<Rightarrow> bool \<Rightarrow> int \<Rightarrow> (bool \<times> int \<times> int list) option" where
  "pointer_case1 [] illegal c = None"
| "pointer_case1 (trail # s) illegal c = Some (illegal \<or> \<not> U8_IS_TRAIL trail, push_bit 6 c OR (trail mod 64), s)"

fun pointer_case2 :: "int list \<Rightarrow> bool \<Rightarrow> int \<Rightarrow> (bool \<times> int \<times> int list) option" where
  "pointer_case2 [] illegal c = None"
| "pointer_case2 (trail # s) illegal c = pointer_case1 s (illegal \<or> \<not> U8_IS_TRAIL trail) (push_bit 6 c OR (trail mod 64))"

fun pointer_case3 :: "int list \<Rightarrow> int \<Rightarrow> (bool \<times> int \<times> int list) option" where
  "pointer_case3 [] c = None"
| "pointer_case3 (trail # s) c =
     (let c' = push_bit 6 c OR (trail mod 64) in
      if c' < 0x110 then pointer_case2 s (\<not> U8_IS_TRAIL trail) c' else Some (True, c', s))"

text \<open>Here the end of the list is \<^verbatim>\<open>limit\<close>.\<close>

fun skip_trail_limit :: "int list \<Rightarrow> nat \<Rightarrow> int list" where
  "skip_trail_limit (b # s) (Suc n) = (if U8_IS_TRAIL b then skip_trail_limit s n else b # s)"
| "skip_trail_limit s n = s"

definition utf8_nextCharSafeBodyPointer :: "int list \<Rightarrow> int \<Rightarrow> (int \<times> int list) option" where
  "utf8_nextCharSafeBodyPointer s c0 =
     (let n = U8_COUNT_TRAIL_BYTES c0; c = U8_MASK_LEAD_BYTE c0 n in
      if length s \<ge> n \<and> n = 0 then Some (U_SENTINEL, s)
      else do {
        (illegal, c', s') \<leftarrow>
          (if length s \<ge> n then
             (if n = 3 then pointer_case3 s c
              else if n = 2 then pointer_case2 s False c
              else if n = 1 then pointer_case1 s False c
              else Some (True, c, s))
           else Some (True, c0, s));
        if illegal \<or> c' < utf8_minLegal ! n \<or> is_surrogate c' then Some (U_SENTINEL, skip_trail_limit s n)
        else Some (c', s')
      })"

section \<open>UTF-8 to UTF-16\<close>

text \<open>
  The branches that handle a character inline. Where \<^verbatim>\<open>pSrcLimit - pSrc\<close> is tested (\<open>checked\<close>) a
  sequence that is cut off is left to the function.
\<close>

datatype attempt = Inline int "int list" | Complicated | Overread

fun inline_char :: "bool \<Rightarrow> int list \<Rightarrow> attempt" where
  "inline_char checked [] = Overread"
| "inline_char checked (ch # s) =
     (if ch \<le> 0x7f then Inline ch s
      else if ch > 0xe0 then
        (if ch \<le> 0xec \<and> (checked \<longrightarrow> length (ch # s) \<ge> 3) then
           (case s of
              [] \<Rightarrow> Overread
            | b1 # s1 \<Rightarrow>
                if trail_value b1 \<le> 0x3f then
                  (case s1 of
                     [] \<Rightarrow> Overread
                   | b2 # s2 \<Rightarrow>
                       if trail_value b2 \<le> 0x3f
                       then Inline ((ch * 4096 + trail_value b1 * 64 + trail_value b2) mod 0x10000) s2
                       else Complicated)
                else Complicated)
         else Complicated)
      else if ch < 0xe0 then
        (if ch \<ge> 0xc2 \<and> (checked \<longrightarrow> length (ch # s) \<ge> 2) then
           (case s of
              [] \<Rightarrow> Overread
            | b1 # s1 \<Rightarrow> if trail_value b1 \<le> 0x3f then Inline (ch mod 32 * 64 + trail_value b1) s1 else Complicated)
         else Complicated)
      else Complicated)"

text \<open>
  A character in one of the loops: inline, or by the function for sources that end with a zero
  (\<open>terminated\<close>) or at a limit.
\<close>

definition next_char :: "bool \<Rightarrow> int list \<Rightarrow> (int \<times> int list) option" where
  "next_char terminated s =
     (case inline_char (\<not> terminated) s of
        Inline c s' \<Rightarrow> Some (c, s')
      | Complicated \<Rightarrow>
          (if terminated then utf8_nextCharSafeBodyTerminated (tl s) (hd s) else utf8_nextCharSafeBodyPointer (tl s) (hd s))
      | Overread \<Rightarrow> None)"

text \<open>The tests \<^verbatim>\<open>(ch = *pSrc) != 0\<close> and \<^verbatim>\<open>pSrc < pSrcLimit\<close>.\<close>

definition more_input :: "bool \<Rightarrow> int list \<Rightarrow> bool option" where
  "more_input terminated s = (if terminated then (case s of [] \<Rightarrow> None | b # _ \<Rightarrow> Some (b \<noteq> 0)) else Some (s \<noteq> []))"

text \<open>\<^verbatim>\<open>ch<0 && (++numSubstitutions, ch = subchar) < 0\<close>: the character to write and the number of substitutions, or an error.\<close>

definition substitute :: "int \<Rightarrow> int \<Rightarrow> nat \<Rightarrow> (int \<times> nat) option" where
  "substitute subchar c subs =
     (if c < 0 then (if subchar < 0 then None else Some (subchar, subs + 1)) else Some (c, subs))"

lemma skip_trail_bytes_length: "skip_trail_bytes s n = Some s' \<Longrightarrow> length s' \<le> length s"
  by (induction s n rule: skip_trail_bytes.induct) (auto split: if_splits)

lemma skip_trail_limit_length: "length (skip_trail_limit s n) \<le> length s"
  by (induction s n rule: skip_trail_limit.induct) auto

lemma terminated_length:
  "terminated_case1 s c = Some (e, c', s') \<Longrightarrow> length s' < length s"
  "terminated_case2 s c = Some (e, c', s') \<Longrightarrow> length s' < length s"
  "terminated_case3 s c = Some (e, c', s') \<Longrightarrow> length s' < length s"
proof -
  show 1: "terminated_case1 s c = Some (e, c', s') \<Longrightarrow> length s' < length s" for s c
    by (cases s) (auto simp: Let_def)
  show 2: "terminated_case2 s c = Some (e, c', s') \<Longrightarrow> length s' < length s" for s c
    by (cases s) (auto simp: Let_def dest!: 1 split: if_splits)
  show "terminated_case3 s c = Some (e, c', s') \<Longrightarrow> length s' < length s"
    by (cases s) (auto simp: Let_def dest!: 2 split: if_splits)
qed

lemma pointer_length:
  "pointer_case1 s i c = Some (e, c', s') \<Longrightarrow> length s' < length s"
  "pointer_case2 s i c = Some (e, c', s') \<Longrightarrow> length s' < length s"
  "pointer_case3 s c = Some (e, c', s') \<Longrightarrow> length s' < length s"
proof -
  show 1: "pointer_case1 s i c = Some (e, c', s') \<Longrightarrow> length s' < length s" for s i c
    by (cases s) auto
  show 2: "pointer_case2 s i c = Some (e, c', s') \<Longrightarrow> length s' < length s" for s i c
    by (cases s) (auto dest!: 1)
  show "pointer_case3 s c = Some (e, c', s') \<Longrightarrow> length s' < length s"
    by (cases s) (auto simp: Let_def dest!: 2 split: if_splits)
qed

lemma nextTerminated_length: "utf8_nextCharSafeBodyTerminated s c = Some (c', s') \<Longrightarrow> length s' \<le> length s"
  by (auto simp: utf8_nextCharSafeBodyTerminated_def Let_def bind_eq_Some_conv
           dest!: terminated_length skip_trail_bytes_length split: if_splits)

lemma nextPointer_length: "utf8_nextCharSafeBodyPointer s c = Some (c', s') \<Longrightarrow> length s' \<le> length s"
  by (auto simp: utf8_nextCharSafeBodyPointer_def Let_def bind_eq_Some_conv skip_trail_limit_length
           dest!: pointer_length split: if_splits)

lemma inline_shorter: "inline_char checked s = Inline c s' \<Longrightarrow> length s' < length s"
  by (cases s) (auto split: if_splits list.splits)

lemma next_char_shorter: "next_char t s = Some (c, s') \<Longrightarrow> length s' < length s"
proof -
  assume a: "next_char t s = Some (c, s')"
  then have "s \<noteq> []" by (auto simp: next_char_def)
  then have "length (tl s) < length s" by (cases s) auto
  then show ?thesis using a by (auto simp: next_char_def dest!: inline_shorter nextTerminated_length nextPointer_length split: attempt.splits if_splits)
qed

text \<open>
  The loops of \<^verbatim>\<open>u_strFromUTF8WithSub\<close>. \<open>Inl\<close> carries what has been written when an illegal sequence is found and there is
  no substitution; \<open>Inr\<close> the rest of the source, the units written, \<^verbatim>\<open>reqLength\<close> and \<^verbatim>\<open>numSubstitutions\<close>. The first loop
  writes while there is room, the second one only counts.
\<close>

function write_loop :: "bool \<Rightarrow> int \<Rightarrow> nat \<Rightarrow> int list \<Rightarrow> int list \<Rightarrow> nat \<Rightarrow> (int list + int list \<times> int list \<times> nat \<times> nat) option" where
  "write_loop terminated subchar cap s out subs =
     (case more_input terminated s of
        None \<Rightarrow> None
      | Some go \<Rightarrow>
          if go \<and> length out < cap then
            (case next_char terminated s of
               None \<Rightarrow> None
             | Some (c, s') \<Rightarrow>
                 (case substitute subchar c subs of
                    None \<Rightarrow> Some (Inl out)
                  | Some (ch, subs') \<Rightarrow>
                      if ch \<le> 0xffff then write_loop terminated subchar cap s' (out @ [ch]) subs'
                      else if length (out @ [U16_LEAD ch]) < cap
                      then write_loop terminated subchar cap s' (out @ [U16_LEAD ch, U16_TRAIL ch]) subs'
                      else Some (Inr (s', out @ [U16_LEAD ch], 1, subs'))))
          else Some (Inr (s, out, 0, subs)))"
  by auto
termination by (relation "measure (\<lambda>(t, sc, cap, s, out, subs). length s)") (auto dest: next_char_shorter)

function count_loop :: "bool \<Rightarrow> int \<Rightarrow> int list \<Rightarrow> nat \<Rightarrow> nat \<Rightarrow> (nat \<times> nat) option option" where
  "count_loop terminated subchar s req subs =
     (case more_input terminated s of
        None \<Rightarrow> None
      | Some go \<Rightarrow>
          if go then
            (case next_char terminated s of
               None \<Rightarrow> None
             | Some (c, s') \<Rightarrow>
                 (case substitute subchar c subs of
                    None \<Rightarrow> Some None
                  | Some (ch, subs') \<Rightarrow> count_loop terminated subchar s' (req + nat (U16_LENGTH ch)) subs'))
          else Some (Some (req, subs)))"
  by auto
termination by (relation "measure (\<lambda>(t, sc, s, req, subs). length s)") (auto dest: next_char_shorter)

declare write_loop.simps [simp del] count_loop.simps [simp del]

text \<open>
  The faster loop for a source with a length: \<open>n\<close> is \<^verbatim>\<open>count\<close>, reads and writes are not checked. The result of the
  inner loop is the source, the units written and the number of substitutions.
\<close>

function fast_inner :: "int \<Rightarrow> nat \<Rightarrow> nat \<Rightarrow> int list \<Rightarrow> int list \<Rightarrow> nat \<Rightarrow> (int list + int list \<times> int list \<times> nat) option" where
  "fast_inner subchar cap n s out subs =
     (if n = 0 then Some (Inr (s, out, subs))
      else case inline_char False s of
        Overread \<Rightarrow> None
      | Inline c s' \<Rightarrow> if length out < cap then fast_inner subchar cap (n - 1) s' (out @ [c]) subs else None
      | Complicated \<Rightarrow>
          let wide = hd s \<ge> 0xf0 \<or> subchar > 0xffff; n' = (if wide then n - 1 else n) in
          if n' = 0 then Some (Inr (s, out, subs))
          else
            (case utf8_nextCharSafeBodyPointer (tl s) (hd s) of
               None \<Rightarrow> None
             | Some (c, s') \<Rightarrow>
                 (case substitute subchar c subs of
                    None \<Rightarrow> Some (Inl out)
                  | Some (ch, subs') \<Rightarrow>
                      let units = (if ch \<le> 0xffff then [ch] else [U16_LEAD ch, U16_TRAIL ch]) in
                      if length out + length units \<le> cap then fast_inner subchar cap (n' - 1) s' (out @ units) subs' else None)))"
  by auto
termination by (relation "measure (\<lambda>(sc, cap, n, s, out, subs). n)") (auto split: if_splits)

declare fast_inner.simps [simp del]

text \<open>
  With \<^verbatim>\<open>count\<close> at least 2 the inner loop consumes something, so the outer loop ends.
\<close>

lemma fast_inner_shorter:
  "fast_inner subchar cap n s out subs = Some (Inr (s', out', subs')) \<Longrightarrow> length s' \<le> length s \<and> (2 \<le> n \<longrightarrow> length s' < length s)"
proof (induction subchar cap n s out subs rule: fast_inner.induct)
  case (1 subchar cap n s out subs)
  show ?case
  proof (cases "n = 0")
    case True
    then show ?thesis using "1.prems" by (simp add: fast_inner.simps)
  next
    case n: False
    show ?thesis
    proof (cases "inline_char False s")
      case (Inline c r)
      then have "fast_inner subchar cap (n - 1) r (out @ [c]) subs = Some (Inr (s', out', subs'))" "length out < cap"
        using "1.prems" n by (auto simp: fast_inner.simps [of _ _ n] split: if_splits)
      then show ?thesis using "1.IH"(1) [OF n Inline] inline_shorter [OF Inline] by fastforce
    next
      case Overread
      then show ?thesis using "1.prems" n by (simp add: fast_inner.simps [of _ _ n])
    next
      case Complicated
      define n' where "n' = (if hd s \<ge> 0xf0 \<or> subchar > 0xffff then n - 1 else n)"
      have ne: "s \<noteq> []" using Complicated by auto
      show ?thesis
      proof (cases "n' = 0")
        case True
        then have "n < 2" using n by (auto simp: n'_def split: if_splits)
        then show ?thesis using "1.prems" n Complicated True by (auto simp: fast_inner.simps [of _ _ n] n'_def Let_def)
      next
        case n': False
        then obtain c r ch k where r: "utf8_nextCharSafeBodyPointer (tl s) (hd s) = Some (c, r)" "substitute subchar c subs = Some (ch, k)"
          "fast_inner subchar cap (n' - 1) r (out @ (if ch \<le> 0xffff then [ch] else [U16_LEAD ch, U16_TRAIL ch])) k = Some (Inr (s', out', subs'))"
          "length out + length (if ch \<le> 0xffff then [ch] else [U16_LEAD ch, U16_TRAIL ch]) \<le> cap"
          using "1.prems" n Complicated
          by (auto simp: fast_inner.simps [of _ _ n] Let_def n'_def [symmetric] split: option.splits prod.splits if_split_asm)
        have "length r < length s" using nextPointer_length [OF r(1)] ne by (cases s) auto
        then show ?thesis using "1.IH"(2) [OF n Complicated refl n'_def n' r(1) _ r(2) _ refl r(4) r(3)] by fastforce
      qed
    qed
  qed
qed

function fast_outer :: "int \<Rightarrow> nat \<Rightarrow> int list \<Rightarrow> int list \<Rightarrow> nat \<Rightarrow> (int list + int list \<times> int list \<times> nat) option" where
  "fast_outer subchar cap s out subs =
     (let n = min (cap - length out) (length s div 3) in
      if n < 3 then Some (Inr (s, out, subs))
      else case fast_inner subchar cap n s out subs of
        Some (Inr (s', out', subs')) \<Rightarrow> fast_outer subchar cap s' out' subs'
      | other \<Rightarrow> other)"
  by auto
termination by (relation "measure (\<lambda>(sc, cap, s, out, subs). length s)") (auto dest!: fast_inner_shorter)

declare fast_outer.simps [simp del]

text \<open>
  What a conversion leaves: the destination, the length and the number of substitutions it has reported (\<open>None\<close>
  where it has not), and the error code. \<open>dest = None\<close> is a null pointer; a destination has \<open>destCapacity\<close> units.
\<close>

record conversion =
  cv_dest :: "int list option"
  cv_destLength :: "int option"
  cv_numSubstitutions :: "int option"
  cv_error :: UErrorCode

definition put_out :: "int list option \<Rightarrow> int list \<Rightarrow> int list" where
  "put_out dest out = (case dest of None \<Rightarrow> out | Some d \<Rightarrow> out @ drop (length out) d)"

text \<open>The common end: report the lengths, terminate the string.\<close>

definition finish_UChars :: "int list option \<Rightarrow> int list \<Rightarrow> nat \<Rightarrow> nat \<Rightarrow> UErrorCode \<Rightarrow> conversion" where
  "finish_UChars dest out req subs ec =
     (case u_terminateUChars (put_out dest out) (int (req + length out)) ec of
        (d, ec') \<Rightarrow>
          \<lparr>cv_dest = map_option (\<lambda>_. d) dest, cv_destLength = Some (int (req + length out)), cv_numSubstitutions = Some (int subs), cv_error = ec'\<rparr>)"

definition fail_conversion :: "int list option \<Rightarrow> int list \<Rightarrow> UErrorCode \<Rightarrow> conversion" where
  "fail_conversion dest out err =
     \<lparr>cv_dest = map_option (\<lambda>_. put_out dest out) dest, cv_destLength = None, cv_numSubstitutions = Some 0, cv_error = err\<rparr>"

definition reject :: "int list option \<Rightarrow> UErrorCode \<Rightarrow> conversion" where
  "reject dest err = \<lparr>cv_dest = dest, cv_destLength = None, cv_numSubstitutions = None, cv_error = err\<rparr>"

definition bad_arguments :: "int list option \<Rightarrow> int list option \<Rightarrow> int \<Rightarrow> int \<Rightarrow> int \<Rightarrow> bool" where
  "bad_arguments dest src destCapacity srcLength subchar \<longleftrightarrow>
     (src = None \<and> srcLength \<noteq> 0) \<or> srcLength < -1 \<or> destCapacity < 0 \<or> (dest = None \<and> destCapacity > 0) \<or>
     subchar > 0x10ffff \<or> is_surrogate subchar"

definition u_strFromUTF8WithSub :: "int list option \<Rightarrow> int \<Rightarrow> int list option \<Rightarrow> int \<Rightarrow> int \<Rightarrow> UErrorCode \<Rightarrow> conversion option" where
  "u_strFromUTF8WithSub dest destCapacity src srcLength subchar ec =
     (if U_FAILURE ec then Some (reject dest ec)
      else if bad_arguments dest src destCapacity srcLength subchar then Some (reject dest U_ILLEGAL_ARGUMENT_ERROR)
      else
        let cap = nat destCapacity; terminated = (srcLength < 0);
            s = (case src of None \<Rightarrow> [] | Some b \<Rightarrow> if terminated then b else take (nat srcLength) b) in do {
          first \<leftarrow> (if terminated then Some (Inr (s, [], 0)) else fast_outer subchar cap s [] 0);
          case first of
            Inl out \<Rightarrow> Some (fail_conversion dest out U_INVALID_CHAR_FOUND)
          | Inr (s1, out1, subs1) \<Rightarrow> do {
              written \<leftarrow> write_loop terminated subchar cap s1 out1 subs1;
              case written of
                Inl out \<Rightarrow> Some (fail_conversion dest out U_INVALID_CHAR_FOUND)
              | Inr (s2, out2, req2, subs2) \<Rightarrow> do {
                  counted \<leftarrow> count_loop terminated subchar s2 req2 subs2;
                  case counted of
                    None \<Rightarrow> Some (fail_conversion dest out2 U_INVALID_CHAR_FOUND)
                  | Some (req3, subs3) \<Rightarrow> Some (finish_UChars dest out2 req3 subs3 ec)
                }
            }
        })"

definition u_strFromUTF8 :: "int list option \<Rightarrow> int \<Rightarrow> int list option \<Rightarrow> int \<Rightarrow> UErrorCode \<Rightarrow> conversion option" where
  "u_strFromUTF8 dest destCapacity src srcLength ec = u_strFromUTF8WithSub dest destCapacity src srcLength U_SENTINEL ec"

end
