(* ===== verification/Transcode.thy ===== *)
theory Transcode
  imports StringTransform
begin

text \<open>
  What the conversions of \<^verbatim>\<open>common/ustrtrns.cpp\<close> compute, on lists: the characters of the source text one after the other,
  an illegal one replaced by the substitution character, each encoded in the form of the destination. A source form is an
  interface, \<open>text_decoder\<close> for reading and \<open>text_form\<close> for what its encoding promises; UTF-8, UTF-16 and UTF-32
  are its instances.
\<close>

section \<open>Conversion of lists\<close>

text \<open>
  \<open>first_char w\<close> is the first character of \<open>w\<close>, negative if it is illegal, and \<open>width_of w\<close> the number of its units. The result is
  the encoded text and the number of substitutions, or \<open>None\<close> for an illegal character without a substitution.
\<close>

function conv :: "('a list \<Rightarrow> int) \<Rightarrow> ('a list \<Rightarrow> nat) \<Rightarrow> (int \<Rightarrow> 'b list) \<Rightarrow> int \<Rightarrow> 'a list \<Rightarrow> ('b list \<times> nat) option" where
  "conv first_char width_of enc subchar w =
     (if w = [] then Some ([], 0)
      else case substitute subchar (first_char w) 0 of
        None \<Rightarrow> None
      | Some (ch, k) \<Rightarrow> map_option (\<lambda>(us, m). (enc ch @ us, k + m)) (conv first_char width_of enc subchar (drop (max 1 (width_of w)) w)))"
  by auto
termination by (relation "measure (\<lambda>(c, d, e, sc, w). length w)") (auto simp: diff_less)

declare conv.simps [simp del]

definition prepend :: "'b list \<Rightarrow> nat \<Rightarrow> ('b list \<times> nat) option \<Rightarrow> ('b list \<times> nat) option" where
  "prepend us k = map_option (\<lambda>(us', m). (us @ us', k + m))"

lemma prepend_simps [simp]:
  "prepend us k None = None" "prepend us k (Some (us', m)) = Some (us @ us', k + m)"
  "prepend [] 0 x = x" "prepend us k (prepend us' k' x) = prepend (us @ us') (k + k') x"
  by (cases x; auto simp: prepend_def)+

lemma prepend_eq_Some: "prepend us k x = Some (vs, n) \<longleftrightarrow> (\<exists>us' m. x = Some (us', m) \<and> vs = us @ us' \<and> n = k + m)"
  by (cases x) (auto simp: prepend_def)

lemma substitute_add: "substitute subchar c subs = map_option (\<lambda>(ch, k). (ch, subs + k)) (substitute subchar c 0)"
  by (simp add: substitute_def)

lemma substitute_legal [simp]: "0 \<le> c \<Longrightarrow> substitute subchar c subs = Some (c, subs)"
  by (simp add: substitute_def)

text \<open>
  A part of a text has been converted: the rest is \<open>w2\<close>, the units of the part are \<open>us\<close>, with \<open>k\<close> substitutions.
\<close>

definition converted :: "('a list \<Rightarrow> ('b list \<times> nat) option) \<Rightarrow> 'a list \<Rightarrow> 'a list \<Rightarrow> 'b list \<Rightarrow> nat \<Rightarrow> bool" where
  "converted f w w2 us k \<longleftrightarrow> f w = prepend us k (f w2)"

lemma converted_refl [simp]: "converted f w w [] 0"
  by (simp add: converted_def)

lemma converted_trans: "converted f w w1 us k \<Longrightarrow> converted f w1 w2 us' k' \<Longrightarrow> converted f w w2 (us @ us') (k + k')"
  by (simp add: converted_def)

locale text_decoder =
  fixes first_char :: "'a list \<Rightarrow> int" and width_of :: "'a list \<Rightarrow> nat"
  assumes width_of: "w \<noteq> [] \<Longrightarrow> 0 < width_of w \<and> width_of w \<le> length w"
begin

lemma drop_shorter: "w \<noteq> [] \<Longrightarrow> length (drop (width_of w) w) < length w"
  using width_of [of w] by (auto simp: diff_less)

lemma conv_Nil: "conv first_char width_of enc subchar [] = Some ([], 0)"
  by (simp add: conv.simps)

lemma conv_step:
  assumes "w \<noteq> []"
  shows "conv first_char width_of enc subchar w =
    (case substitute subchar (first_char w) 0 of
       None \<Rightarrow> None
     | Some (ch, k) \<Rightarrow> prepend (enc ch) k (conv first_char width_of enc subchar (drop (width_of w) w)))"
proof -
  have "max 1 (width_of w) = width_of w" using width_of [OF assms] by simp
  then show ?thesis using assms by (subst conv.simps) (auto simp: prepend_def split: option.splits)
qed

lemma conv_illegal: "w \<noteq> [] \<Longrightarrow> substitute subchar (first_char w) 0 = None \<Longrightarrow> conv first_char width_of enc subchar w = None"
  by (simp add: conv_step)

lemma converted_step:
  assumes "w \<noteq> []" "substitute subchar (first_char w) 0 = Some (ch, k)"
    "converted (conv first_char width_of enc subchar) (drop (width_of w) w) w2 us m"
  shows "converted (conv first_char width_of enc subchar) w w2 (enc ch @ us) (k + m)"
  using conv_step [OF assms(1), of enc subchar] assms(2,3) by (simp add: converted_def)

lemma conv_induct [case_names Nil Char]:
  assumes "P []" "\<And>w. w \<noteq> [] \<Longrightarrow> P (drop (width_of w) w) \<Longrightarrow> P w"
  shows "P w"
proof (induction "length w" arbitrary: w rule: less_induct)
  case less
  then show ?case using assms drop_shorter [of w] by (cases "w = []") auto
qed

text \<open>Every character of the result is one of the source or the substitution character.\<close>

lemma conv_characters:
  assumes "conv first_char width_of enc subchar w = Some (us, k)"
  shows "\<exists>cps. us = concat (map enc cps)"
  using assms
proof (induction w arbitrary: us k rule: conv_induct)
  case Nil
  then show ?case by (auto simp: conv_Nil intro: exI [of _ "[]"])
next
  case (Char w)
  then obtain ch j us' m where "us = enc ch @ us'" "conv first_char width_of enc subchar (drop (width_of w) w) = Some (us', m)"
    by (auto simp: conv_step prepend_eq_Some split: option.splits)
  then obtain cps where "us = concat (map enc (ch # cps))" using Char.IH [of us' m] by auto
  then show ?case by blast
qed

end

text \<open>
  An encoding form: the text of a legal character is read back as this character, and whatever is read as a character is its text.
\<close>

locale text_form = text_decoder first_char width_of
  for first_char :: "'a list \<Rightarrow> int" and width_of :: "'a list \<Rightarrow> nat" +
  fixes valid :: "'a list \<Rightarrow> bool" and legal :: "int \<Rightarrow> bool" and text_of :: "int \<Rightarrow> 'a list"
  assumes legal_nonneg: "legal c \<Longrightarrow> 0 \<le> c"
    and valid_append: "valid (v @ w) \<longleftrightarrow> valid v \<and> valid w"
    and text_of_nonempty: "text_of c \<noteq> []"
    and text_of_valid: "legal c \<Longrightarrow> valid (text_of c)"
    and read_text: "legal c \<Longrightarrow> valid w \<Longrightarrow> first_char (text_of c @ w) = c \<and> width_of (text_of c @ w) = length (text_of c)"
    and read_legal: "w \<noteq> [] \<Longrightarrow> valid w \<Longrightarrow> 0 \<le> first_char w \<Longrightarrow> legal (first_char w) \<and> (\<exists>rest. w = text_of (first_char w) @ rest)"
begin

lemma valid_texts: "\<forall>c \<in> set cps. legal c \<Longrightarrow> valid [] \<Longrightarrow> valid (concat (map text_of cps))"
  by (induction cps) (auto simp: valid_append text_of_valid)

lemma valid_drop: "valid w \<Longrightarrow> valid (drop n w)"
  using valid_append [of "take n w" "drop n w"] by simp

lemma conv_text:
  assumes "\<forall>c \<in> set cps. legal c" "valid []"
  shows "conv first_char width_of enc subchar (concat (map text_of cps)) = Some (concat (map enc cps), 0)"
  using assms(1)
proof (induction cps)
  case Nil
  then show ?case by (simp add: conv_Nil)
next
  case (Cons c cps)
  let ?r = "concat (map text_of cps)"
  have v: "valid ?r" using valid_texts Cons.prems assms(2) by simp
  have "first_char (text_of c @ ?r) = c" "width_of (text_of c @ ?r) = length (text_of c)" "0 \<le> c"
    using read_text [OF _ v, of c] legal_nonneg Cons.prems by auto
  then show ?case using Cons text_of_nonempty [of c] by (simp add: conv_step)
qed

lemma conv_strict:
  assumes "valid w" "subchar < 0" "conv first_char width_of enc subchar w = Some (us, k)"
  shows "\<exists>cps. (\<forall>c \<in> set cps. legal c) \<and> w = concat (map text_of cps) \<and> us = concat (map enc cps) \<and> k = 0"
  using assms(1,3)
proof (induction w arbitrary: us k rule: conv_induct)
  case Nil
  then show ?case by (auto simp: conv_Nil intro: exI [of _ "[]"])
next
  case (Char w)
  let ?c = "first_char w"
  have c: "0 \<le> ?c" using Char.prems(2) Char.hyps assms(2) by (auto simp: conv_step substitute_def split: if_splits)
  then have l: "legal ?c" and "\<exists>rest. w = text_of ?c @ rest" using read_legal Char by auto
  then obtain rest where w: "w = text_of ?c @ rest" by blast
  have v: "valid rest" using Char.prems(1) w valid_append by metis
  have d: "drop (width_of w) w = rest" using read_text [OF l v] w by (metis append_eq_conv_conj)
  obtain us' where us': "us = enc ?c @ us'" "conv first_char width_of enc subchar rest = Some (us', k)"
    using Char.prems(2) Char.hyps c d by (auto simp: conv_step prepend_eq_Some)
  then obtain cps where "(\<forall>c \<in> set cps. legal c) \<and> rest = concat (map text_of cps) \<and> us' = concat (map enc cps) \<and> k = 0"
    using Char.IH [of us' k] d v by auto
  then show ?case using l w us'(1) by (intro exI [of _ "?c # cps"]) auto
qed

text \<open>Without a substitution character the conversion succeeds exactly on the texts of legal characters.\<close>

lemma conv_strict_iff:
  assumes "valid w" "valid []" "subchar < 0"
  shows "conv first_char width_of enc subchar w = None \<longleftrightarrow> (\<nexists>cps. (\<forall>c \<in> set cps. legal c) \<and> w = concat (map text_of cps))"
  using conv_strict [OF assms(1,3)] conv_text [OF _ assms(2)] by (metis not_None_eq surj_pair option.discI)

lemma conv_legal:
  assumes "valid w" "legal subchar \<or> subchar < 0" "conv first_char width_of enc subchar w = Some (us, k)"
  shows "\<exists>cps. (\<forall>c \<in> set cps. legal c) \<and> us = concat (map enc cps)"
  using assms(1,3)
proof (induction w arbitrary: us k rule: conv_induct)
  case Nil
  then show ?case by (auto simp: conv_Nil intro: exI [of _ "[]"])
next
  case (Char w)
  then obtain ch j us' m where u: "us = enc ch @ us'" "substitute subchar (first_char w) 0 = Some (ch, j)"
      "conv first_char width_of enc subchar (drop (width_of w) w) = Some (us', m)"
    by (auto simp: conv_step prepend_eq_Some split: option.splits)
  have "legal ch" using u(2) read_legal [OF Char.hyps Char.prems(1)] assms(2) by (auto simp: substitute_def split: if_splits)
  moreover obtain cps where "\<forall>c \<in> set cps. legal c" "us' = concat (map enc cps)" using Char.IH [OF valid_drop u(3)] Char.prems(1) by auto
  ultimately show ?case using u(1) by (intro exI [of _ "ch # cps"]) auto
qed

end

end
