(* ===== verification/StringTransformProofs.thy ===== *)
theory StringTransformProofs
  imports Transcode
begin

text \<open>
  The three readers of a UTF-8 character agree with the reference decoder, and the loops of
  \<^verbatim>\<open>u_strFromUTF8WithSub\<close> compute the same function, stated on lists as \<open>from8\<close>.
\<close>

section \<open>One character\<close>

lemma decode_first_take: "decode_first (b # r) = decode_first (b # take (U8_COUNT_TRAIL_BYTES b) r)"
proof -
  consider "b < 0xc0 \<or> 0xf8 \<le> b" | "0xc0 \<le> b" "b < 0xe0" | "0xe0 \<le> b" "b < 0xf0" | "0xf0 \<le> b" "b < 0xf8" by linarith
  then show ?thesis
  proof cases
    case 1
    then show ?thesis by (auto simp: decode_first_def)
  next
    case 2
    then show ?thesis by (cases r) (simp_all add: decode_first_def U8_COUNT_TRAIL_BYTES_def)
  next
    case 3
    then show ?thesis by (cases r; cases "tl r") (auto simp: decode_first_def U8_COUNT_TRAIL_BYTES_def numeral_2_eq_2)
  next
    case 4
    then show ?thesis
      by (cases r; cases "tl r"; cases "tl (tl r)") (auto simp: decode_first_def U8_COUNT_TRAIL_BYTES_def numeral_3_eq_3 Let_def)
  qed
qed

lemma skipped_le: "skipped r n \<le> n" "skipped r n \<le> length r"
  unfolding skipped_def using length_takeWhile_le [of U8_IS_TRAIL "take n r"] by simp_all

lemma skipped_all: "skipped r n = n \<Longrightarrow> n \<le> length r \<Longrightarrow> \<forall>t \<in> set (take n r). U8_IS_TRAIL t"
proof -
  assume "skipped r n = n" "n \<le> length r"
  then have "length (takeWhile U8_IS_TRAIL (take n r)) = length (take n r)" by (simp add: skipped_def)
  then have "takeWhile U8_IS_TRAIL (take n r) = take n r" by (metis takeWhile_eq_take take_all order_refl)
  then show ?thesis by (simp add: takeWhile_eq_all_conv)
qed

definition mark :: "int \<Rightarrow> int list \<Rightarrow> int" where
  "mark b ts = tval ts + U8_MASK_LEAD_BYTE b (length ts) * 2 ^ (6 * length ts)"

text \<open>All the information of a sequence with enough bytes.\<close>

lemma decode_exact:
  assumes "bytes (b # r)" "0xc0 \<le> b" "b < 0xfe" "n = U8_COUNT_TRAIL_BYTES b" "n \<le> length r"
  shows "decode_first (b # r) =
    (if n \<ge> 4 \<or> \<not> (\<forall>t \<in> set (take n r). U8_IS_TRAIL t) \<or> mark b (take n r) > 0x10ffff \<or> mark b (take n r) < utf8_minLegal ! n \<or>
        is_surrogate (mark b (take n r)) then None else Some (mark b (take n r)))"
proof (cases "\<forall>t \<in> set (take n r). U8_IS_TRAIL t")
  case True
  have l: "length (take n r) = U8_COUNT_TRAIL_BYTES b" using assms(4,5) by simp
  have "mark b (take n r) = tval (take n r) OR push_bit (6 * length (take n r)) (U8_MASK_LEAD_BYTE b (length (take n r)))"
    using or_push tval_bounds [OF True] by (simp add: mark_def)
  from prev_lead [OF assms(2,3) True l this] show ?thesis
    using True assms(4,5) decode_first_take [of b r] by auto
next
  case False
  then have "skipped r n \<noteq> n" using skipped_all assms(5) by blast
  then have "decode_first (b # r) = None" using decode_first_length(2) [OF assms(1)] assms(4) by (cases "decode_first (b # r)") auto
  then show ?thesis using False by simp
qed

lemma drop_width: "drop (width (b # r)) (b # r) = drop (skipped r (U8_COUNT_TRAIL_BYTES b)) r"
  by (simp add: width_def)

lemma skip_trail_limit_skipped: "skip_trail_limit r n = drop (skipped r n) r"
  by (induction r n rule: skip_trail_limit.induct) (auto simp: skipped_def)

lemma skip_trail_bytes_skipped: "enough r n \<Longrightarrow> skip_trail_bytes r n = Some (drop (skipped r n) r)"
  by (induction r n rule: skip_trail_bytes.induct) (auto simp: skipped_def enough_def)

lemma trail_mod: "U8_IS_TRAIL t \<Longrightarrow> t mod 64 = t - 0x80"
  using mod_shift [of "t - 0x80" 64 2] by (simp add: U8_IS_TRAIL_def)

lemma push_trail: "U8_IS_TRAIL t \<Longrightarrow> push_bit 6 c OR (t mod 64) = c * 64 + (t - 0x80)"
  using push_or [of "t - 0x80" c] trail_mod [of t] by (simp add: U8_IS_TRAIL_def)

lemma push_trail_value: "bytes [t] \<Longrightarrow> U8_IS_TRAIL t \<Longrightarrow> push_bit 6 c OR trail_value t = c * 64 + (t - 0x80)"
  using push_or [of "t - 0x80" c] trail_value_trail(2) [of t] by (simp add: U8_IS_TRAIL_def)

text \<open>What the \<^verbatim>\<open>switch\<close> of a reader has to return: \<open>illegal\<close> or the value of the sequence.\<close>

definition switched :: "int \<Rightarrow> int list \<Rightarrow> nat \<Rightarrow> (bool \<times> int \<times> int list) option \<Rightarrow> bool" where
  "switched b r n res \<longleftrightarrow>
     (\<exists>illegal c s. res = Some (illegal, c, s) \<and>
        (if illegal then n \<ge> 4 \<or> length r < n \<or> \<not> (\<forall>t \<in> set (take n r). U8_IS_TRAIL t) \<or> mark b (take n r) > 0x10ffff
         else n < 4 \<and> n \<le> length r \<and> (\<forall>t \<in> set (take n r). U8_IS_TRAIL t) \<and> mark b (take n r) \<le> 0x10ffff \<and> c = mark b (take n r) \<and> s = drop n r))"

lemma switched_decodes:
  assumes "bytes (b # r)" "0xc0 \<le> b" "b < 0xfe" "n = U8_COUNT_TRAIL_BYTES b" "switched b r n (Some (illegal, c, s))"
  shows "if illegal \<or> c < utf8_minLegal ! n \<or> is_surrogate c then decode_first (b # r) = None
    else decode_first (b # r) = Some c \<and> s = drop (skipped r n) r"
proof (cases "n \<le> length r")
  case False
  then show ?thesis using assms(5) decode_first_truncated [OF assms(1)] assms(4) by (auto simp: switched_def split: if_splits)
next
  case len: True
  note d = decode_exact [OF assms(1-4) len]
  show ?thesis
  proof (cases "illegal \<or> c < utf8_minLegal ! n \<or> is_surrogate c")
    case True
    then show ?thesis using assms(5) d len by (auto simp: switched_def split: if_splits)
  next
    case False
    then have "decode_first (b # r) = Some c" "s = drop n r" using assms(5) d by (auto simp: switched_def split: if_splits)
    then show ?thesis using False decode_first_length(2) [OF assms(1)] assms(4) by auto
  qed
qed

lemma mask_bound: "0 \<le> U8_MASK_LEAD_BYTE b n" "U8_MASK_LEAD_BYTE b n < 2 ^ (6 - n)"
  by (simp_all add: U8_MASK_LEAD_BYTE_def)

lemma mark_simps:
  "mark b [t1] = U8_MASK_LEAD_BYTE b 1 * 64 + (t1 - 0x80)"
  "mark b [t1, t2] = (U8_MASK_LEAD_BYTE b 2 * 64 + (t1 - 0x80)) * 64 + (t2 - 0x80)"
  "mark b [t1, t2, t3] = ((U8_MASK_LEAD_BYTE b 3 * 64 + (t1 - 0x80)) * 64 + (t2 - 0x80)) * 64 + (t3 - 0x80)"
  by (simp_all add: mark_def numeral_2_eq_2 [symmetric] numeral_3_eq_3 [symmetric])

lemma mark_bounds:
  "U8_IS_TRAIL t1 \<Longrightarrow> mark b [t1] \<le> 0x10ffff"
  "U8_IS_TRAIL t1 \<Longrightarrow> U8_IS_TRAIL t2 \<Longrightarrow> mark b [t1, t2] \<le> 0x10ffff"
  "U8_IS_TRAIL t2 \<Longrightarrow> U8_IS_TRAIL t3 \<Longrightarrow> mark b [t1, t2, t3] \<le> 0x10ffff \<longleftrightarrow> U8_MASK_LEAD_BYTE b 3 * 64 + (t1 - 0x80) < 0x110"
  using mask_bound(2) [of b 1] mask_bound(2) [of b 2] by (auto simp: mark_simps U8_IS_TRAIL_def)

lemma pointer_trail:
  assumes "U8_IS_TRAIL t" "c' = c * 64 + (t - 0x80)"
  shows "pointer_case1 (t # s) e c = Some (e, c', s)" "pointer_case2 (t # s) e c = pointer_case1 s e c'"
    "pointer_case3 (t # s) c = (if c' < 0x110 then pointer_case2 s False c' else Some (True, c', s))"
  using assms by (simp_all add: push_trail Let_def)

lemma pointer_illegal: "\<exists>c' s'. pointer_case1 (t # s) True c = Some (True, c', s')" "\<exists>c' s'. pointer_case2 (t # u # s) True c = Some (True, c', s')"
  "\<not> U8_IS_TRAIL t \<Longrightarrow> \<exists>c' s'. pointer_case1 (t # s) e c = Some (True, c', s')"
  "\<not> U8_IS_TRAIL t \<Longrightarrow> \<exists>c' s'. pointer_case2 (t # u # s) e c = Some (True, c', s')"
  "\<not> U8_IS_TRAIL t \<Longrightarrow> \<exists>c' s'. pointer_case3 (t # u # v # s) c = Some (True, c', s')"
  by (auto simp: Let_def)

lemma terminated_trail:
  assumes "U8_IS_TRAIL t" "c' = c * 64 + (t - 0x80)" "0 \<le> t" "t < 256"
  shows "terminated_case1 (t # s) c = Some (False, c', s)" "terminated_case2 (t # s) c = terminated_case1 s c'"
    "terminated_case3 (t # s) c = (if c' < 0x110 then terminated_case2 s c' else Some (True, c', s))"
  using assms push_trail_value [of t c] trail_value_trail(1) [of t] by (simp_all add: Let_def)

lemma terminated_illegal:
  assumes "\<not> U8_IS_TRAIL t" "0 \<le> t" "t < 256"
  shows "\<exists>c' s'. terminated_case1 (t # s) c = Some (True, c', s')" "\<exists>c' s'. terminated_case2 (t # s) c = Some (True, c', s')"
    "\<exists>c' s'. terminated_case3 (t # s) c = Some (True, c', s')"
  using assms trail_value_trail(1) [of t] by (simp_all add: Let_def)

lemma switched_illegal: "\<exists>c' s'. res = Some (True, c', s') \<Longrightarrow> n \<ge> 4 \<or> length r < n \<or> \<not> (\<forall>t \<in> set (take n r). U8_IS_TRAIL t) \<Longrightarrow> switched b r n res"
  by (auto simp: switched_def)

lemma switched_legal:
  "n < 4 \<Longrightarrow> n \<le> length r \<Longrightarrow> \<forall>t \<in> set (take n r). U8_IS_TRAIL t \<Longrightarrow> mark b (take n r) \<le> 0x10ffff \<Longrightarrow>
   switched b r n (Some (False, mark b (take n r), drop n r))"
  "\<not> mark b (take n r) \<le> 0x10ffff \<Longrightarrow> switched b r n (Some (True, c, s))"
  by (auto simp: switched_def)

lemma pointer_switched:
  assumes "n = U8_COUNT_TRAIL_BYTES b" "n \<le> length r" "0 < n"
  shows "switched b r n
    (if n = 3 then pointer_case3 r (U8_MASK_LEAD_BYTE b n) else if n = 2 then pointer_case2 r False (U8_MASK_LEAD_BYTE b n)
     else if n = 1 then pointer_case1 r False (U8_MASK_LEAD_BYTE b n) else Some (True, U8_MASK_LEAD_BYTE b n, r))"
proof -
  consider "n = 1" | "n = 2" | "n = 3" | "4 \<le> n" using assms(3) by linarith
  then show ?thesis
  proof cases
    case 1
    then obtain t r' where "r = t # r'" using assms(2) by (cases r) auto
    then show ?thesis using 1 mark_bounds(1) switched_legal(1) [of 1 r b] pointer_trail(1) [OF _ mark_simps(1)]
        pointer_illegal(3) [of t r' False] switched_illegal [of _ 1 r b]
      by (cases "U8_IS_TRAIL t") auto
  next
    case 2
    then obtain t1 t2 r' where r: "r = t1 # t2 # r'" using assms(2) by (cases r; cases "tl r") auto
    then have tk: "take 2 r = [t1, t2]" "drop 2 r = r'" by auto
    show ?thesis
    proof (cases "U8_IS_TRAIL t1 \<and> U8_IS_TRAIL t2")
      case True
      then have "pointer_case2 r False (U8_MASK_LEAD_BYTE b 2) = Some (False, mark b [t1, t2], r')"
        unfolding r using pointer_trail(2) [OF _ refl, of t1] pointer_trail(1) [OF _ mark_simps(2)] by simp
      then show ?thesis using 2 True r switched_legal(1) [of 2 r b] tk mark_bounds(2) by simp
    next
      case False
      then have "\<exists>c' s'. pointer_case2 r False (U8_MASK_LEAD_BYTE b 2) = Some (True, c', s')"
        unfolding r using pointer_illegal(4) [of t1 t2 r' False] pointer_trail(2) [OF _ refl, of t1] pointer_illegal(3) [of t2 r' False]
        by (cases "U8_IS_TRAIL t1") auto
      then show ?thesis using 2 False switched_illegal [of _ 2 r b] tk by simp
    qed
  next
    case 3
    then obtain t1 t2 t3 r' where r: "r = t1 # t2 # t3 # r'" using assms(2) by (cases r; cases "tl r"; cases "tl (tl r)") auto
    then have tk: "take 3 r = [t1, t2, t3]" "drop 3 r = r'" by auto
    show ?thesis
    proof (cases "U8_IS_TRAIL t1 \<and> U8_IS_TRAIL t2 \<and> U8_IS_TRAIL t3")
      case True
      define c1 where "c1 = U8_MASK_LEAD_BYTE b 3 * 64 + (t1 - 0x80)"
      have "pointer_case3 r (U8_MASK_LEAD_BYTE b 3) = (if c1 < 0x110 then Some (False, mark b [t1, t2, t3], r') else Some (True, c1, t2 # t3 # r'))"
        unfolding r using True pointer_trail(3) [OF _ c1_def] pointer_trail(2) [OF _ refl, of t2] pointer_trail(1) [OF _ mark_simps(3) [of b t1 t2 t3, folded c1_def]] by simp
      then show ?thesis using 3 True r switched_legal(1) [of 3 r b] switched_legal(2) [of b 3 r] tk mark_bounds(3) [of t2 t3 b t1, folded c1_def] by simp
    next
      case False
      then have "\<exists>c' s'. pointer_case3 r (U8_MASK_LEAD_BYTE b 3) = Some (True, c', s')"
        unfolding r using pointer_illegal(5) [of t1 t2 t3 r'] pointer_trail(3) [OF _ refl, of t1] pointer_illegal(4) [of t2 t3 r' False]
          pointer_trail(2) [OF _ refl, of t2] pointer_illegal(3) [of t3 r' False]
        by (cases "U8_IS_TRAIL t1"; cases "U8_IS_TRAIL t2") (auto simp del: pointer_case1.simps pointer_case2.simps pointer_case3.simps)
      then show ?thesis using 3 False switched_illegal [of _ 3 r b] tk by simp
    qed
  next
    case 4
    then show ?thesis by (auto simp: switched_def)
  qed
qed

lemma nextPointer_decodes:
  assumes "bytes (b # r)" "0x80 \<le> b"
  shows "utf8_nextCharSafeBodyPointer r b = Some (char_or U_SENTINEL (b # r), drop (width (b # r)) (b # r))"
proof -
  define n where "n = U8_COUNT_TRAIL_BYTES b"
  have b256: "b < 256" using assms(1) by simp
  show ?thesis
  proof (cases "n = 0")
    case True
    then have "b < 0xc0 \<or> 0xfe \<le> b" by (auto simp: n_def U8_COUNT_TRAIL_BYTES_def split: if_splits)
    then have "decode_first (b # r) = None" using assms(2) by (auto simp: decode_first_def)
    then show ?thesis using True
      by (simp add: utf8_nextCharSafeBodyPointer_def n_def [symmetric] char_or_def drop_width skipped_def)
  next
    case pos: False
    then have lead: "0xc0 \<le> b" "b < 0xfe" by (auto simp: n_def U8_COUNT_TRAIL_BYTES_def split: if_splits)
    show ?thesis
    proof (cases "n \<le> length r")
      case True
      define res where "res = (if n = 3 then pointer_case3 r (U8_MASK_LEAD_BYTE b n) else if n = 2 then pointer_case2 r False (U8_MASK_LEAD_BYTE b n)
        else if n = 1 then pointer_case1 r False (U8_MASK_LEAD_BYTE b n) else Some (True, U8_MASK_LEAD_BYTE b n, r))"
      have sw: "switched b r n res" unfolding res_def using pointer_switched [OF n_def True] pos by simp
      then obtain illegal c s where res: "res = Some (illegal, c, s)" by (auto simp: switched_def)
      have "utf8_nextCharSafeBodyPointer r b = (if illegal \<or> c < utf8_minLegal ! n \<or> is_surrogate c then Some (U_SENTINEL, skip_trail_limit r n) else Some (c, s))"
        using True pos res unfolding utf8_nextCharSafeBodyPointer_def n_def [symmetric] Let_def res_def [symmetric] by simp
      then show ?thesis using switched_decodes [OF assms(1) lead n_def sw [unfolded res]] skip_trail_limit_skipped [of r n]
        by (auto simp: char_or_def drop_width n_def [symmetric] split: if_splits)
    next
      case False
      then have "decode_first (b # r) = None" using decode_first_truncated [OF assms(1)] n_def by simp
      then show ?thesis using False skip_trail_limit_skipped [of r n]
        by (simp add: utf8_nextCharSafeBodyPointer_def n_def [symmetric] char_or_def drop_width)
    qed
  qed
qed

lemma terminated_switched:
  assumes "n = U8_COUNT_TRAIL_BYTES b" "enough r n" "0 < n" "bytes r"
  shows "switched b r n
    (if n = 3 then terminated_case3 r (U8_MASK_LEAD_BYTE b n) else if n = 2 then terminated_case2 r (U8_MASK_LEAD_BYTE b n)
     else if n = 1 then terminated_case1 r (U8_MASK_LEAD_BYTE b n) else Some (True, U8_MASK_LEAD_BYTE b n, r))"
proof -
  consider "n = 1" | "n = 2" | "n = 3" | "4 \<le> n" using assms(3) by linarith
  then show ?thesis
  proof cases
    case 1
    then obtain t r' where r: "r = t # r'" using enough_Suc [of r 0] assms(2) by auto
    then have t: "0 \<le> t" "t < 256" using assms(4) by auto
    show ?thesis using 1 r mark_bounds(1) switched_legal(1) [of 1 r b] terminated_trail(1) [OF _ mark_simps(1) t]
        terminated_illegal(1) [OF _ t] switched_illegal [of _ 1 r b]
      by (cases "U8_IS_TRAIL t") auto
  next
    case 2
    then obtain t1 r' where r: "r = t1 # r'" "U8_IS_TRAIL t1 \<longrightarrow> enough r' 1" using enough_Suc [of r 1] assms(2) by (auto simp: numeral_2_eq_2)
    have t1: "0 \<le> t1" "t1 < 256" using assms(4) r by auto
    show ?thesis
    proof (cases "U8_IS_TRAIL t1")
      case False
      then have "\<exists>c' s'. terminated_case2 r (U8_MASK_LEAD_BYTE b 2) = Some (True, c', s')" unfolding r(1) using terminated_illegal(2) [OF _ t1] by simp
      then show ?thesis using 2 False r(1) switched_illegal [of _ 2 r b] by simp
    next
      case True
      then obtain t2 r'' where r': "r' = t2 # r''" using enough_Suc [of r' 0] r(2) by auto
      have t2: "0 \<le> t2" "t2 < 256" using assms(4) r r' by auto
      have tk: "take 2 r = [t1, t2]" "drop 2 r = r''" using r r' by auto
      have e: "terminated_case2 r (U8_MASK_LEAD_BYTE b 2) = terminated_case1 (t2 # r'') (U8_MASK_LEAD_BYTE b 2 * 64 + (t1 - 0x80))"
        unfolding r(1) r' by (rule terminated_trail(2) [OF True refl t1])
      show ?thesis
      proof (cases "U8_IS_TRAIL t2")
        case t: True
        then show ?thesis using 2 True r r' e switched_legal(1) [of 2 r b] tk mark_bounds(2) terminated_trail(1) [OF _ mark_simps(2) t2] by simp
      next
        case False
        then have "\<exists>c' s'. terminated_case2 r (U8_MASK_LEAD_BYTE b 2) = Some (True, c', s')" unfolding e using terminated_illegal(1) [OF _ t2] by simp
        then show ?thesis using 2 False switched_illegal [of _ 2 r b] tk by simp
      qed
    qed
  next
    case 3
    then obtain t1 r' where r: "r = t1 # r'" "U8_IS_TRAIL t1 \<longrightarrow> enough r' 2" using enough_Suc [of r 2] assms(2) by (auto simp: numeral_3_eq_3)
    have t1: "0 \<le> t1" "t1 < 256" using assms(4) r by auto
    show ?thesis
    proof (cases "U8_IS_TRAIL t1")
      case False
      then have "\<exists>c' s'. terminated_case3 r (U8_MASK_LEAD_BYTE b 3) = Some (True, c', s')" unfolding r(1) using terminated_illegal(3) [OF _ t1] by simp
      then show ?thesis using 3 False r(1) switched_illegal [of _ 3 r b] by simp
    next
      case tr1: True
      then obtain t2 r2 where r': "r' = t2 # r2" "U8_IS_TRAIL t2 \<longrightarrow> enough r2 1" using enough_Suc [of r' 1] r(2) by (auto simp: numeral_2_eq_2)
      have t2: "0 \<le> t2" "t2 < 256" using assms(4) r r' by auto
      define c1 where "c1 = U8_MASK_LEAD_BYTE b 3 * 64 + (t1 - 0x80)"
      have e: "terminated_case3 r (U8_MASK_LEAD_BYTE b 3) = (if c1 < 0x110 then terminated_case2 r' c1 else Some (True, c1, r'))"
        unfolding r(1) by (rule terminated_trail(3) [OF tr1 c1_def t1])
      show ?thesis
      proof (cases "U8_IS_TRAIL t2")
        case False
        then have "\<exists>c' s'. terminated_case3 r (U8_MASK_LEAD_BYTE b 3) = Some (True, c', s')"
          unfolding e r'(1) using terminated_illegal(2) [OF _ t2] by (cases "c1 < 0x110") (auto simp del: terminated_case2.simps)
        then show ?thesis using 3 False r(1) r'(1) switched_illegal [of _ 3 r b] by (simp del: terminated_case3.simps)
      next
        case tr2: True
        then obtain t3 r3 where r2: "r2 = t3 # r3" using enough_Suc [of r2 0] r'(2) by auto
        have t3: "0 \<le> t3" "t3 < 256" using assms(4) r r' r2 by auto
        have tk: "take 3 r = [t1, t2, t3]" "drop 3 r = r3" using r(1) r'(1) r2 by auto
        have e2: "terminated_case2 r' c1 = terminated_case1 (t3 # r3) (c1 * 64 + (t2 - 0x80))"
          unfolding r'(1) r2 by (rule terminated_trail(2) [OF tr2 refl t2])
        show ?thesis
        proof (cases "U8_IS_TRAIL t3")
          case True
          then have "terminated_case2 r' c1 = Some (False, mark b [t1, t2, t3], r3)"
            using e2 terminated_trail(1) [OF _ mark_simps(3) [of b t1 t2 t3, folded c1_def] t3] by simp
          then show ?thesis using 3 e True tr1 tr2 switched_legal(1) [of 3 r b] switched_legal(2) [of b 3 r] tk r(1) r'(1) r2 mark_bounds(3) [of t2 t3 b t1, folded c1_def] by simp
        next
          case False
          then have "\<exists>c' s'. terminated_case3 r (U8_MASK_LEAD_BYTE b 3) = Some (True, c', s')"
            unfolding e e2 using terminated_illegal(1) [OF _ t3] by (cases "c1 < 0x110") (auto simp del: terminated_case1.simps)
          then show ?thesis using 3 False switched_illegal [of _ 3 r b] tk by simp
        qed
      qed
    qed
  next
    case 4
    then show ?thesis by (auto simp: switched_def)
  qed
qed

lemma nextTerminated_decodes:
  assumes "bytes (b # r)" "0x80 \<le> b" "0 \<in> set r"
  shows "utf8_nextCharSafeBodyTerminated r b = Some (char_or U_SENTINEL (b # r), drop (width (b # r)) (b # r))"
proof -
  define n where "n = U8_COUNT_TRAIL_BYTES b"
  have b256: "b < 256" using assms(1) by simp
  have en: "enough r n" using assms(3) by (auto simp: enough_def intro: bexI [of _ 0])
  show ?thesis
  proof (cases "n = 0")
    case True
    then have "b < 0xc0 \<or> 0xfe \<le> b" by (auto simp: n_def U8_COUNT_TRAIL_BYTES_def split: if_splits)
    then have "decode_first (b # r) = None" using assms(2) by (auto simp: decode_first_def)
    then show ?thesis using True
      by (simp add: utf8_nextCharSafeBodyTerminated_def n_def [symmetric] char_or_def drop_width skipped_def)
  next
    case pos: False
    then have lead: "0xc0 \<le> b" "b < 0xfe" by (auto simp: n_def U8_COUNT_TRAIL_BYTES_def split: if_splits)
    define res where "res = (if n = 3 then terminated_case3 r (U8_MASK_LEAD_BYTE b n) else if n = 2 then terminated_case2 r (U8_MASK_LEAD_BYTE b n)
      else if n = 1 then terminated_case1 r (U8_MASK_LEAD_BYTE b n) else Some (True, U8_MASK_LEAD_BYTE b n, r))"
    have sw: "switched b r n res" unfolding res_def using terminated_switched [OF n_def en] pos assms(1) by simp
    then obtain illegal c s where res: "res = Some (illegal, c, s)" by (auto simp: switched_def)
    have "utf8_nextCharSafeBodyTerminated r b =
        (if illegal \<or> c < utf8_minLegal ! n \<or> is_surrogate c then Some (U_SENTINEL, drop (skipped r n) r) else Some (c, s))"
      using pos res skip_trail_bytes_skipped [OF en]
      unfolding utf8_nextCharSafeBodyTerminated_def n_def [symmetric] Let_def res_def [symmetric] by simp
    then show ?thesis using switched_decodes [OF assms(1) lead n_def sw [unfolded res]]
      by (auto simp: char_or_def drop_width n_def [symmetric] split: if_splits)
  qed
qed

lemma inline_char_Inline:
  assumes "bytes (b # r)" "inline_char checked (b # r) = Inline c s"
  shows "decode_first (b # r) = Some c" "s = drop (width (b # r)) (b # r)" "width (b # r) \<le> 3"
proof -
  consider (one) "b \<le> 0x7f" "c = b" "s = r"
    | (two) b1 where "0xc2 \<le> b" "b < 0xe0" "r = b1 # s" "trail_value b1 \<le> 0x3f" "c = b mod 32 * 64 + trail_value b1"
    | (three) b1 b2 where "0xe0 < b" "b \<le> 0xec" "r = b1 # b2 # s" "trail_value b1 \<le> 0x3f" "trail_value b2 \<le> 0x3f"
        "c = (b * 4096 + trail_value b1 * 64 + trail_value b2) mod 0x10000"
    using assms(2) by (auto split: if_splits list.splits)
  then have "decode_first (b # r) = Some c \<and> s = drop (U8_COUNT_TRAIL_BYTES b) r \<and> U8_COUNT_TRAIL_BYTES b \<le> 2"
  proof cases
    case one
    then show ?thesis by (simp add: decode_first_def U8_COUNT_TRAIL_BYTES_def)
  next
    case two
    have b1: "0 \<le> b1" "b1 < 256" using assms(1) two(3) by auto
    then show ?thesis using two inline_two [OF two(1,2), of b1 s] trail_value_trail(1) [OF b1] by (simp add: U8_COUNT_TRAIL_BYTES_def)
  next
    case three
    have b: "0 \<le> b1" "b1 < 256" "0 \<le> b2" "b2 < 256" using assms(1) three(3) by auto
    then show ?thesis using three inline_three [OF three(1,2), of b1 b2 s] trail_value_trail(1) [of b1] trail_value_trail(1) [of b2] assms(1)
      by (simp add: U8_COUNT_TRAIL_BYTES_def)
  qed
  then show "decode_first (b # r) = Some c" "s = drop (width (b # r)) (b # r)" "width (b # r) \<le> 3"
    using width_inline [OF assms(1)] by auto
qed

lemma inline_char_other:
  assumes "bytes (b # r)"
  shows "inline_char checked (b # r) = Complicated \<Longrightarrow> 0x80 \<le> b"
    "inline_char checked (b # r) = Overread \<Longrightarrow> \<not> checked \<and> length r < 2 \<and> 0 \<notin> set r"
proof -
  have tv: "0 \<le> t \<Longrightarrow> t < 256 \<Longrightarrow> trail_value t \<le> 0x3f \<Longrightarrow> t \<noteq> 0" for t using trail_value_trail(1) [of t] by auto
  show "inline_char checked (b # r) = Complicated \<Longrightarrow> 0x80 \<le> b" by (auto split: if_splits)
  show "inline_char checked (b # r) = Overread \<Longrightarrow> \<not> checked \<and> length r < 2 \<and> 0 \<notin> set r"
    using assms tv by (cases r; cases "tl r") (auto split: if_splits)
qed

text \<open>The text \<open>w\<close> that a source \<open>s\<close> holds.\<close>

definition holds_text :: "(int list \<Rightarrow> bool) \<Rightarrow> bool \<Rightarrow> int list \<Rightarrow> int list \<Rightarrow> bool" where
  "holds_text valid terminated s w \<longleftrightarrow> valid s \<and> (if terminated then 0 \<notin> set w \<and> (\<exists>rest. s = w @ 0 # rest) else s = w)"

lemma decode_first_term: "w \<noteq> [] \<Longrightarrow> decode_first (w @ 0 # rest) = decode_first w"
proof -
  assume "w \<noteq> []"
  then obtain b r where w: "w = b # r" by (cases w) auto
  define n where "n = U8_COUNT_TRAIL_BYTES b"
  show ?thesis
  proof (cases "n \<le> length r")
    case True
    then show ?thesis using w decode_first_take [of b "r @ 0 # rest"] decode_first_take [of b r] by (simp add: n_def)
  next
    case False
    then obtain m where m: "n - length r = Suc m" by (metis Suc_diff_Suc not_le)
    have "decode_first (b # r @ 0 # rest) = decode_first (b # (r @ [0]) @ take m rest)"
      using decode_first_take [of b "r @ 0 # rest"] False m by (simp add: n_def)
    moreover have "decode_first (b # (r @ [0]) @ take m rest) = decode_first (b # r)"
      using False m by (cases r; cases "tl r"; cases "tl (tl r)") (auto simp: decode_first_def n_def U8_COUNT_TRAIL_BYTES_def Let_def split: list.splits)
    ultimately show ?thesis using w by simp
  qed
qed

lemma width_term: "w \<noteq> [] \<Longrightarrow> width (w @ 0 # rest) = width w"
proof -
  assume "w \<noteq> []"
  then obtain b r where w: "w = b # r" by (cases w) auto
  have "skipped (r @ 0 # rest) n = skipped r n" for n
  proof (cases "n \<le> length r")
    case False
    then obtain m where "n - length r = Suc m" by (metis Suc_diff_Suc not_le)
    then show ?thesis using False by (auto simp: skipped_def takeWhile_append takeWhile_eq_all_conv [THEN iffD2])
  qed (simp add: skipped_def)
  then show ?thesis using w by (simp add: width_def)
qed

lemma next_char_decodes:
  assumes "bytes (b # r)" "terminated \<longrightarrow> 0 \<in> set r"
  shows "next_char terminated (b # r) = Some (char_or U_SENTINEL (b # r), drop (width (b # r)) (b # r))"
proof (cases "inline_char (\<not> terminated) (b # r)")
  case (Inline c s)
  then show ?thesis using inline_char_Inline [OF assms(1) Inline] by (simp add: next_char_def char_or_def del: inline_char.simps)
next
  case Complicated
  then show ?thesis using inline_char_other(1) [OF assms(1) Complicated] nextTerminated_decodes [OF assms(1)] nextPointer_decodes [OF assms(1)] assms(2)
    by (simp add: next_char_def del: inline_char.simps)
next
  case Overread
  then show ?thesis using inline_char_other(2) [OF assms(1) Overread] assms(2) by simp
qed

text \<open>One step of a loop over a text.\<close>

lemma text_step:
  assumes "holds_text bytes t s w"
  shows "more_input t s = Some (w \<noteq> [])"
    "w \<noteq> [] \<Longrightarrow> \<exists>s'. next_char t s = Some (char_or U_SENTINEL w, s') \<and> holds_text bytes t s' (drop (width w) w)"
proof -
  show "more_input t s = Some (w \<noteq> [])"
    using assms by (cases t; cases w) (auto simp: holds_text_def more_input_def)
  assume ne: "w \<noteq> []"
  then obtain b r where w: "w = b # r" by (cases w) auto
  show "\<exists>s'. next_char t s = Some (char_or U_SENTINEL w, s') \<and> holds_text bytes t s' (drop (width w) w)"
  proof (cases t)
    case False
    then have "s = w" "bytes w" using assms by (auto simp: holds_text_def)
    moreover have "bytes (drop (width w) w)" using \<open>bytes w\<close> by (auto simp: bytes_def dest: in_set_dropD)
    ultimately show ?thesis using next_char_decodes [of b r t] False w by (simp add: holds_text_def)
  next
    case True
    then obtain rest where s: "s = w @ 0 # rest" "0 \<notin> set w" "bytes s" using assms by (auto simp: holds_text_def)
    have "next_char t s = Some (char_or U_SENTINEL s, drop (width s) s)" using next_char_decodes [of b "r @ 0 # rest" t] s w by simp
    moreover have "char_or U_SENTINEL s = char_or U_SENTINEL w" "width s = width w"
      using decode_first_term [OF ne] width_term [OF ne] s(1) by (auto simp: char_or_def)
    moreover have "drop (width w) s = drop (width w) w @ 0 # rest" using width_bounds [OF ne] s(1) by simp
    moreover have "bytes (drop (width w) s)" using s(3) by (auto simp: bytes_def dest: in_set_dropD)
    moreover have "0 \<notin> set (drop (width w) w)" using s(2) by (auto dest: in_set_dropD)
    ultimately show ?thesis using True by (auto simp: holds_text_def)
  qed
qed

section \<open>Whole strings\<close>

text \<open>UTF-8 as an encoding form, and the conversion of its texts to UTF-16.\<close>

interpretation utf8: text_form "char_or U_SENTINEL" width bytes scalar utf8_bytes
proof unfold_locales
  show "utf8_bytes c \<noteq> []" for c by (rule utf8_bytes_nonempty)
  show "w \<noteq> [] \<Longrightarrow> 0 < width w \<and> width w \<le> length w" for w by (rule width_bounds)
  show "scalar c \<Longrightarrow> bytes (utf8_bytes c)" for c by (rule bytes_utf8_bytes)
  show "scalar c \<Longrightarrow> bytes w \<Longrightarrow> char_or U_SENTINEL (utf8_bytes c @ w) = c \<and> width (utf8_bytes c @ w) = length (utf8_bytes c)" for c w
    using decode_first_complete [of c w] width_decoded [of "utf8_bytes c @ w" c] bytes_utf8_bytes [of c] by (simp add: char_or_def)
  show "w \<noteq> [] \<Longrightarrow> bytes w \<Longrightarrow> 0 \<le> char_or U_SENTINEL w \<Longrightarrow>
      scalar (char_or U_SENTINEL w) \<and> (\<exists>rest. w = utf8_bytes (char_or U_SENTINEL w) @ rest)" for w
    using decode_first_sound [of w] by (auto simp: char_or_def U_SENTINEL_def split: option.splits)
qed (auto simp: scalar_def bytes_def)

definition from8 :: "int \<Rightarrow> int list \<Rightarrow> (int list \<times> nat) option" where
  "from8 subchar = conv (char_or U_SENTINEL) width cp_units subchar"

lemma from8_Nil [simp]: "from8 subchar [] = Some ([], 0)"
  by (simp add: from8_def utf8.conv_Nil)

lemmas from8_step = utf8.conv_step [where enc = cp_units, folded from8_def]
lemmas from8_converted_step = utf8.converted_step [where enc = cp_units, folded from8_def]
lemmas drop_shorter = utf8.drop_shorter

lemma U16_LENGTH_units: "nat (U16_LENGTH ch) = length (cp_units ch)"
  by (simp add: U16_LENGTH_def cp_units_def)

lemma count_loop_from8:
  assumes "holds_text bytes t s w"
  shows "count_loop t subchar s req subs = Some (map_option (\<lambda>(us, k). (req + length us, subs + k)) (from8 subchar w))"
  using assms
proof (induction "length w" arbitrary: s w req subs rule: less_induct)
  case less
  note step = text_step [OF less.prems]
  show ?case
  proof (cases "w = []")
    case True
    then show ?thesis using step(1) by (subst count_loop.simps) simp
  next
    case False
    then obtain s' where s': "next_char t s = Some (char_or U_SENTINEL w, s')" "holds_text bytes t s' (drop (width w) w)" using step(2) by blast
    have sh: "length (drop (width w) w) < length w" using drop_shorter [OF False] .
    show ?thesis
    proof (cases "substitute subchar (char_or U_SENTINEL w) 0")
      case None
      then show ?thesis using step(1) False s'(1) from8_step [OF False, of subchar] substitute_add [of subchar "char_or U_SENTINEL w" subs]
        by (subst count_loop.simps) simp
    next
      case (Some p)
      then obtain ch k where p: "substitute subchar (char_or U_SENTINEL w) 0 = Some (ch, k)" by (cases p) auto
      have "count_loop t subchar s req subs = count_loop t subchar s' (req + length (cp_units ch)) (subs + k)"
        using step(1) False s'(1) p substitute_add [of subchar "char_or U_SENTINEL w" subs]
        by (subst count_loop.simps) (simp add: U16_LENGTH_units)
      also have "\<dots> = Some (map_option (\<lambda>(us, k'). (req + length (cp_units ch) + length us, subs + k + k')) (from8 subchar (drop (width w) w)))"
        by (rule less.hyps [OF sh s'(2)])
      finally show ?thesis using from8_step [OF False, of subchar] p by (auto simp: prepend_def option.map_comp comp_def split: prod.splits intro!: option.map_cong)
    qed
  qed
qed

lemma write_loop_writes:
  assumes "holds_text bytes t s w" "length out \<le> cap"
  shows "(\<exists>o2. write_loop t subchar cap s out subs = Some (Inl o2) \<and> length o2 \<le> cap \<and> from8 subchar w = None) \<or>
    (\<exists>s2 w2 us k. write_loop t subchar cap s out subs = Some (Inr (s2, take cap (out @ us), length (out @ us) - length (take cap (out @ us)), subs + k)) \<and>
       holds_text bytes t s2 w2 \<and> converted (from8 subchar) w w2 us k \<and> (w2 = [] \<or> cap \<le> length (out @ us)))"
  using assms
proof (induction "length w" arbitrary: s w out subs rule: less_induct)
  case less
  note step = text_step [OF less.prems(1)]
  show ?case
  proof (cases "w \<noteq> [] \<and> length out < cap")
    case False
    then have "write_loop t subchar cap s out subs = Some (Inr (s, out, 0, subs))" using step(1) by (subst write_loop.simps) auto
    then show ?thesis using less.prems False by (intro disjI2 exI [of _ s] exI [of _ w] exI [of _ "[]"] exI [of _ 0]) auto
  next
    case True
    then have ne: "w \<noteq> []" and room: "length out < cap" by auto
    obtain s' where s': "next_char t s = Some (char_or U_SENTINEL w, s')" "holds_text bytes t s' (drop (width w) w)" using step(2) [OF ne] by blast
    have sh: "length (drop (width w) w) < length w" using drop_shorter [OF ne] .
    show ?thesis
    proof (cases "substitute subchar (char_or U_SENTINEL w) 0")
      case None
      then have "write_loop t subchar cap s out subs = Some (Inl out)" "from8 subchar w = None"
        using step(1) True s'(1) from8_step [OF ne, of subchar] substitute_add [of subchar "char_or U_SENTINEL w" subs]
        by (auto simp: write_loop.simps [of t subchar cap s])
      then show ?thesis using less.prems(2) by blast
    next
      case (Some p)
      then obtain ch k where p: "substitute subchar (char_or U_SENTINEL w) 0 = Some (ch, k)" by (cases p) auto
      note eq = write_loop.simps [of t subchar cap s out subs] step(1) True s'(1) p substitute_add [of subchar "char_or U_SENTINEL w" subs]
      show ?thesis
      proof (cases "length out + length (cp_units ch) \<le> cap")
        case False
        then have big: "\<not> ch \<le> 0xffff" "length out + 1 = cap" using room by (auto simp: cp_units_def split: if_splits)
        have "write_loop t subchar cap s out subs = Some (Inr (s', out @ [U16_LEAD ch], 1, subs + k))" using eq big by simp
        moreover have "converted (from8 subchar) w (drop (width w) w) (cp_units ch) k" using from8_converted_step [OF ne p converted_refl] by simp
        moreover have "take cap (out @ cp_units ch) = out @ [U16_LEAD ch]" "length (out @ cp_units ch) = cap + 1" using big by (auto simp: cp_units_def)
        ultimately show ?thesis using s'(2) by (intro disjI2 exI [of _ s'] exI [of _ "drop (width w) w"] exI [of _ "cp_units ch"] exI [of _ k]) (simp add: big(2) [symmetric])
      next
        case fits: True
        then have e: "write_loop t subchar cap s out subs = write_loop t subchar cap s' (out @ cp_units ch) (subs + k)"
          using eq by (auto simp: cp_units_def split: if_splits)
        have room': "length (out @ cp_units ch) \<le> cap" using fits by simp
        from less.hyps [OF sh s'(2) room', of "subs + k"] show ?thesis
        proof (rule disjE)
          assume "\<exists>o2. write_loop t subchar cap s' (out @ cp_units ch) (subs + k) = Some (Inl o2) \<and> length o2 \<le> cap \<and> from8 subchar (drop (width w) w) = None"
          then show ?thesis using from8_step [OF ne, of subchar] p e by auto
        next
          assume "\<exists>s2 w2 us m. write_loop t subchar cap s' (out @ cp_units ch) (subs + k) = Some (Inr (s2, take cap ((out @ cp_units ch) @ us),
              length ((out @ cp_units ch) @ us) - length (take cap ((out @ cp_units ch) @ us)), subs + k + m)) \<and>
            holds_text bytes t s2 w2 \<and> converted (from8 subchar) (drop (width w) w) w2 us m \<and> (w2 = [] \<or> cap \<le> length ((out @ cp_units ch) @ us))"
          then obtain s2 w2 us m where "write_loop t subchar cap s' (out @ cp_units ch) (subs + k) = Some (Inr (s2, take cap ((out @ cp_units ch) @ us),
              length ((out @ cp_units ch) @ us) - length (take cap ((out @ cp_units ch) @ us)), subs + k + m))"
            "holds_text bytes t s2 w2" "converted (from8 subchar) (drop (width w) w) w2 us m" "w2 = [] \<or> cap \<le> length ((out @ cp_units ch) @ us)"
            by blast
          then show ?thesis using from8_converted_step [OF ne p, of w2 us m] unfolding e
            by (intro disjI2 exI [of _ s2] exI [of _ w2] exI [of _ "cp_units ch @ us"] exI [of _ "k + m"]) (simp add: add.assoc)
        qed
      qed
    qed
  qed
qed

text \<open>
  The faster loop: with \<open>n\<close> units of room and three times as many bytes no check is needed.
\<close>

lemma width_le:
  "width (b # r) \<le> 6" "b < 0xf0 \<Longrightarrow> width (b # r) \<le> 3"
  using skipped_le(1) [of r "U8_COUNT_TRAIL_BYTES b"] by (auto simp: width_def U8_COUNT_TRAIL_BYTES_def split: if_splits)

lemma units_of_narrow:
  assumes "bytes w" "width w \<le> 3" "decode_first w = Some c"
  shows "cp_units c = [c]"
  using width_decoded [OF assms(1,3)] assms(2) by (auto simp: cp_units_def utf8_bytes_def unsigned_le_def split: if_splits)

lemma length_units_le: "length (cp_units c) \<le> 2"
  by (simp add: cp_units_def)

lemma substitute_units:
  assumes "bytes (b # r)" "substitute subchar (char_or U_SENTINEL (b # r)) 0 = Some (ch, k)" "b < 0xf0" "subchar \<le> 0xffff"
  shows "length (cp_units ch) = 1"
proof (cases "decode_first (b # r)")
  case None
  then show ?thesis using assms by (auto simp: substitute_def char_or_def U_SENTINEL_def cp_units_def split: if_splits)
next
  case (Some c)
  then have "0 \<le> c" using decode_first_sound [OF assms(1) Some] by (auto simp: scalar_def)
  then have "ch = c" using assms(2) Some by (simp add: substitute_def char_or_def)
  then show ?thesis using units_of_narrow [OF assms(1) width_le(2) [OF assms(3)] Some] by simp
qed

lemma bytes_drop [simp]: "bytes w \<Longrightarrow> bytes (drop n w)"
  by (auto simp: bytes_def dest: in_set_dropD)

lemma fast_inner_writes:
  assumes "bytes s" "length out + n \<le> cap" "3 * n \<le> length s"
  shows "(\<exists>o2. fast_inner subchar cap n s out subs = Some (Inl o2) \<and> length o2 \<le> cap \<and> from8 subchar s = None) \<or>
    (\<exists>s2 us k. fast_inner subchar cap n s out subs = Some (Inr (s2, out @ us, subs + k)) \<and>
       bytes s2 \<and> converted (from8 subchar) s s2 us k \<and> length (out @ us) \<le> cap)"
  using assms
proof (induction n arbitrary: s out subs rule: less_induct)
  case (less n)
  show ?case
  proof (cases "n = 0")
    case True
    then have "fast_inner subchar cap n s out subs = Some (Inr (s, out @ [], subs + 0))" by (simp add: fast_inner.simps)
    then show ?thesis using less.prems converted_refl by fastforce
  next
    case n: False
    then obtain b r where s: "s = b # r" using less.prems(3) by (cases s) auto
    then have bs: "bytes (b # r)" and ne: "s \<noteq> []" using less.prems(1) by auto
    note eq = fast_inner.simps [of subchar cap n s out subs]
    have go: ?thesis if a: "substitute subchar (char_or U_SENTINEL s) 0 = Some (ch, k)"
        "fast_inner subchar cap n s out subs = fast_inner subchar cap m (drop (width s) s) (out @ cp_units ch) (subs + k)"
        "m < n" "length out + length (cp_units ch) + m \<le> cap" "3 * m \<le> length s - width s" for ch k m
    proof -
      have "(\<exists>o2. fast_inner subchar cap n s out subs = Some (Inl o2) \<and> length o2 \<le> cap \<and> from8 subchar (drop (width s) s) = None) \<or>
        (\<exists>s2 us k'. fast_inner subchar cap n s out subs = Some (Inr (s2, (out @ cp_units ch) @ us, subs + k + k')) \<and>
          bytes s2 \<and> converted (from8 subchar) (drop (width s) s) s2 us k' \<and> length ((out @ cp_units ch) @ us) \<le> cap)"
        unfolding a(2) by (rule less.IH [OF a(3)]) (use less.prems(1) a(4,5) in auto)
      then show ?thesis
      proof (elim disjE exE conjE)
        fix o2 assume "fast_inner subchar cap n s out subs = Some (Inl o2)" "length o2 \<le> cap" "from8 subchar (drop (width s) s) = None"
        then show ?thesis using from8_step [OF ne, of subchar] a(1) by simp
      next
        fix s2 us k'
        assume "fast_inner subchar cap n s out subs = Some (Inr (s2, (out @ cp_units ch) @ us, subs + k + k'))" "bytes s2"
          "converted (from8 subchar) (drop (width s) s) s2 us k'" "length ((out @ cp_units ch) @ us) \<le> cap"
        then show ?thesis using from8_converted_step [OF ne a(1), of s2 us k']
          by (intro disjI2 exI [of _ s2] exI [of _ "cp_units ch @ us"] exI [of _ "k + k'"]) (simp add: add.assoc)
      qed
    qed
    show ?thesis
    proof (cases "inline_char False s")
      case (Inline c s')
      note i = inline_char_Inline [OF bs Inline [unfolded s]]
      have c: "cp_units c = [c]" "0 \<le> c" using units_of_narrow [OF bs i(3,1)] decode_first_sound [OF bs i(1)] by (auto simp: scalar_def)
      show ?thesis
      proof (rule go [of c 0 "n - 1"])
        show "substitute subchar (char_or U_SENTINEL s) 0 = Some (c, 0)" using i(1) c(2) s by (simp add: char_or_def substitute_def)
        show "fast_inner subchar cap n s out subs = fast_inner subchar cap (n - 1) (drop (width s) s) (out @ cp_units c) (subs + 0)"
          using eq n Inline less.prems(2) c(1) i(2) s by (simp del: inline_char.simps)
      qed (use n less.prems c i(3) s in auto)
    next
      case Overread
      then show ?thesis using inline_char_other(2) [OF bs Overread [unfolded s]] less.prems(3) n s by simp
    next
      case Complicated
      have b: "0x80 \<le> b" using inline_char_other(1) [OF bs Complicated [unfolded s]] .
      define wide where "wide = (hd s \<ge> 0xf0 \<or> subchar > 0xffff)"
      define n' where "n' = (if wide then n - 1 else n)"
      note nx = nextPointer_decodes [OF bs b]
      show ?thesis
      proof (cases "n' = 0")
        case True
        then have "fast_inner subchar cap n s out subs = Some (Inr (s, out @ [], subs + 0))" using eq n Complicated by (simp add: Let_def wide_def n'_def)
        then show ?thesis using less.prems converted_refl by fastforce
      next
        case n': False
        show ?thesis
        proof (cases "substitute subchar (char_or U_SENTINEL s) 0")
          case None
          then have "fast_inner subchar cap n s out subs = Some (Inl out)" "from8 subchar s = None"
            using eq n n' Complicated nx s substitute_add [of subchar "char_or U_SENTINEL s" subs] from8_step [OF ne, of subchar]
            by (simp_all add: Let_def wide_def n'_def del: inline_char.simps)
          then show ?thesis using less.prems(2) by simp
        next
          case (Some p)
          then obtain ch k where p: "substitute subchar (char_or U_SENTINEL s) 0 = Some (ch, k)" by (cases p) auto
          have u: "length (cp_units ch) + (n' - 1) \<le> n"
            using length_units_le [of ch] substitute_units [OF bs p [unfolded s]] n n' s by (auto simp: n'_def wide_def)
          have w: "3 * (n' - 1) \<le> length s - width s"
            using width_le [of b r] n n' s less.prems(3) by (auto simp: n'_def wide_def)
          show ?thesis
          proof (rule go [OF p])
            have u': "length out + length (cp_units ch) \<le> cap" using u less.prems(2) by simp
            then show "fast_inner subchar cap n s out subs = fast_inner subchar cap (n' - 1) (drop (width s) s) (out @ cp_units ch) (subs + k)"
              using eq n n' Complicated nx s p substitute_add [of subchar "char_or U_SENTINEL s" subs]
              by (simp add: Let_def wide_def n'_def cp_units_def del: inline_char.simps)
          qed (use u w n n' less.prems(2) in \<open>auto simp: n'_def\<close>)
        qed
      qed
    qed
  qed
qed

lemma fast_outer_writes:
  assumes "bytes s" "length out \<le> cap"
  shows "(\<exists>o2. fast_outer subchar cap s out subs = Some (Inl o2) \<and> length o2 \<le> cap \<and> from8 subchar s = None) \<or>
    (\<exists>s2 us k. fast_outer subchar cap s out subs = Some (Inr (s2, out @ us, subs + k)) \<and>
       bytes s2 \<and> converted (from8 subchar) s s2 us k \<and> length (out @ us) \<le> cap)"
  using assms
proof (induction "length s" arbitrary: s out subs rule: less_induct)
  case less
  define n where "n = min (cap - length out) (length s div 3)"
  note eq = fast_outer.simps [of subchar cap s out subs, folded n_def]
  show ?case
  proof (cases "n < 3")
    case True
    then have "fast_outer subchar cap s out subs = Some (Inr (s, out @ [], subs + 0))" using eq by (simp add: Let_def)
    then show ?thesis using less.prems converted_refl by fastforce
  next
    case False
    have "length out + n \<le> cap" "3 * n \<le> length s" using less.prems(2) by (auto simp: n_def)
    from fast_inner_writes [OF less.prems(1) this, of subchar subs] show ?thesis
    proof (elim disjE exE conjE)
      fix o2 assume "fast_inner subchar cap n s out subs = Some (Inl o2)" "length o2 \<le> cap" "from8 subchar s = None"
      then show ?thesis using eq False by (simp add: Let_def)
    next
      fix s1 us k
      assume a: "fast_inner subchar cap n s out subs = Some (Inr (s1, out @ us, subs + k))" "bytes s1" "converted (from8 subchar) s s1 us k" "length (out @ us) \<le> cap"
      have e: "fast_outer subchar cap s out subs = fast_outer subchar cap s1 (out @ us) (subs + k)" using a(1) eq False by (simp add: Let_def)
      have "length s1 < length s" using fast_inner_shorter [OF a(1)] False by simp
      from less.hyps [OF this a(2,4), of "subs + k"] show ?thesis
      proof (elim disjE exE conjE)
        fix o2 assume "fast_outer subchar cap s1 (out @ us) (subs + k) = Some (Inl o2)" "length o2 \<le> cap" "from8 subchar s1 = None"
        then show ?thesis using a(3) e by (simp add: converted_def)
      next
        fix s2 us' k'
        assume "fast_outer subchar cap s1 (out @ us) (subs + k) = Some (Inr (s2, (out @ us) @ us', subs + k + k'))" "bytes s2"
          "converted (from8 subchar) s1 s2 us' k'" "length ((out @ us) @ us') \<le> cap"
        then show ?thesis using converted_trans [OF a(3), of s2 us' k'] e
          by (intro disjI2 exI [of _ s2] exI [of _ "us @ us'"] exI [of _ "k + k'"]) (simp add: add.assoc)
      qed
    qed
  qed
qed

text \<open>The three loops together.\<close>

definition source_text :: "(int list \<Rightarrow> bool) \<Rightarrow> int list option \<Rightarrow> int \<Rightarrow> int list \<Rightarrow> bool" where
  "source_text valid src srcLength w \<longleftrightarrow>
     (case src of
        None \<Rightarrow> srcLength = 0 \<and> w = []
      | Some b \<Rightarrow> valid b \<and> (if srcLength = -1 then 0 \<in> set b \<and> w = takeWhile (\<lambda>x. x \<noteq> 0) b
                            else 0 \<le> srcLength \<and> nat srcLength \<le> length b \<and> w = take (nat srcLength) b))"

lemma source_text_holds:
  assumes "source_text valid src srcLength w" "s = (case src of None \<Rightarrow> [] | Some b \<Rightarrow> if srcLength < 0 then b else take (nat srcLength) b)"
    and take: "\<And>b n. valid b \<Longrightarrow> valid (take n b)" and Nil: "valid []"
  shows "holds_text valid (srcLength < 0) s w"
proof (cases src)
  case None
  then show ?thesis using assms by (simp add: source_text_def holds_text_def)
next
  case (Some b)
  show ?thesis
  proof (cases "srcLength = -1")
    case True
    then have z: "valid b" "0 \<in> set b" "w = takeWhile (\<lambda>x. x \<noteq> 0) b" "s = b" using assms Some by (auto simp: source_text_def)
    have "dropWhile (\<lambda>x. x \<noteq> 0) b \<noteq> []" using z(2) by auto
    then obtain rest where "dropWhile (\<lambda>x. x \<noteq> 0) b = 0 # rest" using hd_dropWhile [of "\<lambda>x. x \<noteq> 0" b] by (metis (lifting) list.collapse)
    then have "b = w @ 0 # rest" using z(3) takeWhile_dropWhile_id [of "\<lambda>x. x \<noteq> 0" b] by simp
    then show ?thesis using z True by (auto simp: holds_text_def dest: set_takeWhileD)
  next
    case False
    then show ?thesis using assms(1,2) Some take by (auto simp: source_text_def holds_text_def)
  qed
qed

lemma bytes_take [simp]: "bytes w \<Longrightarrow> bytes (take n w)" "bytes []"
  by (auto simp: bytes_def dest: in_set_takeD)

lemma loops_convert:
  assumes "holds_text bytes t s w"
  shows "\<exists>r. (if t then Some (Inr (s, [], 0)) else fast_outer subchar cap s [] 0) = Some r \<and>
    (case r of
       Inl out \<Rightarrow> length out \<le> cap \<and> from8 subchar w = None
     | Inr (s1, out1, subs1) \<Rightarrow> (\<exists>w1. holds_text bytes t s1 w1 \<and> converted (from8 subchar) w w1 out1 subs1 \<and> length out1 \<le> cap))"
proof (cases t)
  case True
  then show ?thesis using assms by (auto intro!: exI [of _ w])
next
  case False
  then have "bytes s" "s = w" using assms by (auto simp: holds_text_def)
  with fast_outer_writes [OF this(1), of "[]" cap subchar 0] False show ?thesis by (fastforce simp: holds_text_def)
qed

lemma write_and_count:
  assumes "holds_text bytes t s1 w1" "length out1 \<le> cap" "converted (from8 subchar) w w1 out1 subs1"
  shows "\<exists>r. write_loop t subchar cap s1 out1 subs1 = Some r \<and>
    (case r of
       Inl out \<Rightarrow> length out \<le> cap \<and> from8 subchar w = None
     | Inr (s2, out2, req2, subs2) \<Rightarrow> length out2 \<le> cap \<and>
         count_loop t subchar s2 req2 subs2 = Some (map_option (\<lambda>(us, k). (length us - length out2, k)) (from8 subchar w)) \<and>
         (\<forall>us k. from8 subchar w = Some (us, k) \<longrightarrow> out2 = take cap us))"
  using write_loop_writes [OF assms(1,2), of subchar subs1]
proof (rule disjE)
  assume "\<exists>o2. write_loop t subchar cap s1 out1 subs1 = Some (Inl o2) \<and> length o2 \<le> cap \<and> from8 subchar w1 = None"
  then show ?thesis using assms(3) by (auto simp: converted_def)
next
  assume "\<exists>s2 w2 us k. write_loop t subchar cap s1 out1 subs1 = Some (Inr (s2, take cap (out1 @ us), length (out1 @ us) - length (take cap (out1 @ us)), subs1 + k)) \<and>
       holds_text bytes t s2 w2 \<and> converted (from8 subchar) w1 w2 us k \<and> (w2 = [] \<or> cap \<le> length (out1 @ us))"
  then obtain s2 w2 us k v where w: "v = out1 @ us" "write_loop t subchar cap s1 out1 subs1 = Some (Inr (s2, take cap v, length v - length (take cap v), subs1 + k))"
    "holds_text bytes t s2 w2" "converted (from8 subchar) w1 w2 us k" "w2 = [] \<or> cap \<le> length v" by blast
  have pr: "converted (from8 subchar) w w2 v (subs1 + k)" unfolding w(1) by (rule converted_trans [OF assms(3) w(4)])
  note c = count_loop_from8 [OF w(3), of subchar "length v - length (take cap v)" "subs1 + k"]
  show ?thesis
  proof (cases "from8 subchar w2")
    case None
    then show ?thesis using w(2) c pr by (simp add: converted_def)
  next
    case (Some p)
    then obtain us2 k2 where p: "from8 subchar w2 = Some (us2, k2)" by (cases p) auto
    have f: "from8 subchar w = Some (v @ us2, subs1 + k + k2)" using pr p by (simp add: converted_def)
    have t: "take cap (v @ us2) = take cap v" using w(5) p by auto
    have l: "length v - length (take cap v) + length us2 = length (v @ us2) - length (take cap v)" by simp
    show ?thesis using w(2) c f p t l by simp
  qed
qed

text \<open>
  What the caller gets for the units \<open>us\<close>: as many of them as fit, a terminating zero if there is room, and the status.
\<close>

definition delivered :: "int list \<Rightarrow> int list \<Rightarrow> int list" where
  "delivered us d = (if length us < length d then us @ 0 # drop (Suc (length us)) d else take (length d) us)"

definition delivery_status :: "nat \<Rightarrow> nat \<Rightarrow> UErrorCode \<Rightarrow> UErrorCode" where
  "delivery_status n cap ec =
     (if n < cap then (if ec = U_STRING_NOT_TERMINATED_WARNING then U_ZERO_ERROR else ec)
      else if n = cap then U_STRING_NOT_TERMINATED_WARNING else U_BUFFER_OVERFLOW_ERROR)"

definition capacity_of :: "int list option \<Rightarrow> nat" where
  "capacity_of dest = (case dest of None \<Rightarrow> 0 | Some d \<Rightarrow> length d)"

definition delivery :: "int list option \<Rightarrow> int list \<Rightarrow> nat \<Rightarrow> UErrorCode \<Rightarrow> conversion" where
  "delivery dest us k ec =
     \<lparr>cv_dest = map_option (delivered us) dest, cv_destLength = Some (int (length us)), cv_numSubstitutions = Some (int k),
      cv_error = delivery_status (length us) (capacity_of dest) ec\<rparr>"

lemma list_update_at_end: "(us @ drop (length us) d)[length us := x] = (if length us < length d then us @ x # drop (Suc (length us)) d else us)"
  by (auto simp: list_update_append Cons_nth_drop_Suc [symmetric])

lemma finish_delivers:
  assumes "\<not> U_FAILURE ec"
  shows "finish_UChars dest (take (capacity_of dest) us) (length us - length (take (capacity_of dest) us)) k ec = delivery dest us k ec"
proof (cases dest)
  case None
  then show ?thesis using assms by (auto simp: finish_UChars_def put_out_def capacity_of_def delivery_def delivery_status_def u_terminateUChars_def)
next
  case (Some d)
  then show ?thesis using assms list_update_at_end [of us d 0]
    by (auto simp: finish_UChars_def put_out_def capacity_of_def delivery_def delivery_status_def delivered_def u_terminateUChars_def)
qed

lemma u_strFromUTF8WithSub_result:
  assumes "\<not> U_FAILURE ec" "\<not> bad_arguments dest src (int (capacity_of dest)) srcLength subchar" "source_text bytes src srcLength w"
  shows "case from8 subchar w of
      None \<Rightarrow> \<exists>out. length out \<le> capacity_of dest \<and> u_strFromUTF8WithSub dest (int (capacity_of dest)) src srcLength subchar ec = Some (fail_conversion dest out U_INVALID_CHAR_FOUND)
    | Some (us, k) \<Rightarrow> u_strFromUTF8WithSub dest (int (capacity_of dest)) src srcLength subchar ec = Some (delivery dest us k ec)"
proof -
  define s where "s = (case src of None \<Rightarrow> [] | Some b \<Rightarrow> if srcLength < 0 then b else take (nat srcLength) b)"
  define cap where "cap = capacity_of dest"
  note eq = u_strFromUTF8WithSub_def [of dest "int cap" src srcLength subchar ec, unfolded Let_def nat_int, folded s_def] assms(1) assms(2) [folded cap_def]
  obtain r1 where r1: "(if srcLength < 0 then Some (Inr (s, [], 0)) else fast_outer subchar cap s [] 0) = Some r1"
    "case r1 of Inl out \<Rightarrow> length out \<le> cap \<and> from8 subchar w = None
     | Inr (s1, out1, subs1) \<Rightarrow> (\<exists>w1. holds_text bytes (srcLength < 0) s1 w1 \<and> converted (from8 subchar) w w1 out1 subs1 \<and> length out1 \<le> cap)"
    using loops_convert [OF source_text_holds [OF assms(3) s_def bytes_take], of subchar cap] by blast
  show ?thesis
  proof (cases r1)
    case (Inl out)
    then show ?thesis using r1 eq unfolding cap_def [symmetric] by (auto simp: Let_def)
  next
    case (Inr p)
    then obtain s1 out1 subs1 w1 where p: "r1 = Inr (s1, out1, subs1)" "holds_text bytes (srcLength < 0) s1 w1"
        "converted (from8 subchar) w w1 out1 subs1" "length out1 \<le> cap"
      using r1(2) by (cases p) auto
    obtain r2 where r2: "write_loop (srcLength < 0) subchar cap s1 out1 subs1 = Some r2"
      "case r2 of Inl out \<Rightarrow> length out \<le> cap \<and> from8 subchar w = None
       | Inr (s2, out2, req2, subs2) \<Rightarrow> length out2 \<le> cap \<and>
           count_loop (srcLength < 0) subchar s2 req2 subs2 = Some (map_option (\<lambda>(us, k). (length us - length out2, k)) (from8 subchar w)) \<and>
           (\<forall>us k. from8 subchar w = Some (us, k) \<longrightarrow> out2 = take cap us)"
      using write_and_count [OF p(2,4,3)] by blast
    note eq' = eq r1(1) p(1) r2(1) finish_delivers [OF assms(1), of dest, folded cap_def]
    show ?thesis
    proof (cases r2)
      case (Inl out)
      then show ?thesis using r2(2) eq' unfolding cap_def [symmetric] by (auto simp: Let_def)
    next
      case (Inr q)
      then show ?thesis using r2(2) eq' unfolding cap_def [symmetric]
        by (cases q) (auto simp: Let_def split: option.splits)
    qed
  qed
qed

end
