(* ===== verification/StringToUtf8.thy ===== *)
theory StringToUtf8
  imports StringTransformProofs "HOL-Library.Sublist"
begin

text \<open>
  UTF-16 to UTF-8, \<^verbatim>\<open>u_strToUTF8WithSub\<close> of \<^verbatim>\<open>common/ustrtrns.cpp\<close>, with the conventions of the other
  direction. An OR of numbers that share no bit is written as a sum. The lengths that are only counted are of type
  \<^verbatim>\<open>int32_t\<close>; a sum that does not fit is undefined and \<open>None\<close>.
\<close>

section \<open>Model\<close>

definition appendUTF8 :: "int \<Rightarrow> int list" where
  "appendUTF8 c =
     (if c \<le> 0x7f then [c]
      else if c \<le> 0x7ff then [c div 64 + 0xc0, c mod 64 + 0x80]
      else if c \<le> 0xffff then [c div 4096 + 0xe0, c div 64 mod 64 + 0x80, c mod 64 + 0x80]
      else [c div 262144 + 0xf0, c div 4096 mod 64 + 0x80, c div 64 mod 64 + 0x80, c mod 64 + 0x80])"

text \<open>
  The next character: a surrogate pair is read as its code point, any other surrogate as \<open>U_SENTINEL\<close>. Where the code compares
  \<^verbatim>\<open>pSrc\<close> with \<^verbatim>\<open>pSrcLimit\<close> before it looks for the trail surrogate, \<open>checked\<close> is true.
\<close>

fun next_unit :: "bool \<Rightarrow> int list \<Rightarrow> (int \<times> int list) option" where
  "next_unit checked [] = None"
| "next_unit checked (ch # s) =
     (if \<not> is_surrogate ch then Some (ch, s)
      else if is_lead ch then
        (case s of
           [] \<Rightarrow> if checked then Some (U_SENTINEL, s) else None
         | ch2 # s' \<Rightarrow> if is_trail ch2 then Some (get_supplementary ch ch2, s') else Some (U_SENTINEL, s))
      else Some (U_SENTINEL, s))"

lemma next_unit_shorter: "next_unit checked s = Some (c, s') \<Longrightarrow> length s' < length s"
  by (cases s) (auto split: if_splits list.splits)

text \<open>
  The two loops with checks. The branches of the first one for a character of the BMP have the same
  expressions as \<^verbatim>\<open>_appendUTF8\<close>, and compare the room with the same lengths as \<^verbatim>\<open>U8_LENGTH\<close>.
\<close>

function to8_write_loop :: "bool \<Rightarrow> int \<Rightarrow> nat \<Rightarrow> int list \<Rightarrow> int list \<Rightarrow> nat \<Rightarrow> (int list + int list \<times> int list \<times> nat \<times> nat) option" where
  "to8_write_loop terminated subchar cap s out subs =
     (case more_input terminated s of
        None \<Rightarrow> None
      | Some go \<Rightarrow>
          if go then
            (case next_unit (\<not> terminated) s of
               None \<Rightarrow> None
             | Some (c, s') \<Rightarrow>
                 (case substitute subchar c subs of
                    None \<Rightarrow> Some (Inl out)
                  | Some (ch, subs') \<Rightarrow>
                      let len = nat (U8_LENGTH ch) in
                      if cap - length out \<ge> len then to8_write_loop terminated subchar cap s' (out @ appendUTF8 ch) subs'
                      else Some (Inr (s', out, len, subs'))))
          else Some (Inr (s, out, 0, subs)))"
  by auto
termination by (relation "measure (\<lambda>(t, sc, cap, s, out, subs). length s)") (auto dest: next_unit_shorter)

definition to8_count :: "int \<Rightarrow> int \<Rightarrow> nat" where
  "to8_count subchar c = (if c < 0 then nat (U8_LENGTH subchar) else if c \<le> 0x7f then 1 else if c \<le> 0x7ff then 2 else if c \<le> 0xffff then 3 else 4)"

function to8_count_loop :: "bool \<Rightarrow> int \<Rightarrow> int list \<Rightarrow> nat \<Rightarrow> nat \<Rightarrow> (nat \<times> nat) option option" where
  "to8_count_loop terminated subchar s req subs =
     (case more_input terminated s of
        None \<Rightarrow> None
      | Some go \<Rightarrow>
          if go then
            (case next_unit (\<not> terminated) s of
               None \<Rightarrow> None
             | Some (c, s') \<Rightarrow>
                 (case substitute subchar c subs of
                    None \<Rightarrow> Some None
                  | Some (ch, subs') \<Rightarrow>
                      if int (req + to8_count subchar c) \<le> INT32_MAX then to8_count_loop terminated subchar s' (req + to8_count subchar c) subs'
                      else None))
          else Some (Some (req, subs)))"
  by auto
termination by (relation "measure (\<lambda>(t, sc, s, req, subs). length s)") (auto dest: next_unit_shorter)

declare to8_write_loop.simps [simp del] to8_count_loop.simps [simp del]

text \<open>The faster loop: \<open>n\<close> is \<^verbatim>\<open>count\<close>; neither the room nor the end of the source is checked.\<close>

function to8_fast_inner :: "int \<Rightarrow> nat \<Rightarrow> nat \<Rightarrow> int list \<Rightarrow> int list \<Rightarrow> nat \<Rightarrow> (int list + int list \<times> int list \<times> nat) option" where
  "to8_fast_inner subchar cap n s out subs =
     (if n = 0 then Some (Inr (s, out, subs))
      else if s = [] then None
      else
        let n' = (if is_surrogate (hd s) then n - 1 else n) in
        if n' = 0 then Some (Inr (s, out, subs))
        else
          (case next_unit False s of
             None \<Rightarrow> None
           | Some (c, s') \<Rightarrow>
               (case substitute subchar c subs of
                  None \<Rightarrow> Some (Inl out)
                | Some (ch, subs') \<Rightarrow>
                    if length out + length (appendUTF8 ch) \<le> cap then to8_fast_inner subchar cap (n' - 1) s' (out @ appendUTF8 ch) subs'
                    else None)))"
  by auto
termination by (relation "measure (\<lambda>(sc, cap, n, s, out, subs). n)") (auto split: if_splits)

declare to8_fast_inner.simps [simp del]

text \<open>With \<^verbatim>\<open>count\<close> at least 2 the inner loop reads something.\<close>

lemma to8_fast_inner_shorter:
  "to8_fast_inner subchar cap n s out subs = Some (Inr (s', out', subs')) \<Longrightarrow> length s' \<le> length s \<and> (2 \<le> n \<longrightarrow> length s' < length s)"
proof (induction subchar cap n s out subs rule: to8_fast_inner.induct)
  case (1 subchar cap n s out subs)
  define n' where "n' = (if is_surrogate (hd s) then n - 1 else n)"
  note eq = to8_fast_inner.simps [of subchar cap n s out subs, unfolded Let_def, folded n'_def] "1.prems"
  show ?case
  proof (cases "n = 0 \<or> s = [] \<or> n' = 0")
    case True
    then show ?thesis using eq by (auto simp: n'_def split: if_splits)
  next
    case False
    then have f: "n \<noteq> 0" "s \<noteq> []" "n' \<noteq> 0" by auto
    then obtain c r ch k where r: "next_unit False s = Some (c, r)" "substitute subchar c subs = Some (ch, k)"
      "to8_fast_inner subchar cap (n' - 1) r (out @ appendUTF8 ch) k = Some (Inr (s', out', subs'))" "length out + length (appendUTF8 ch) \<le> cap"
      using eq by (auto split: option.splits prod.splits if_split_asm)
    show ?thesis using "1.IH" [OF f(1,2) n'_def f(3) r(1) refl r(2) refl r(4,3)] next_unit_shorter [OF r(1)] by linarith
  qed
qed

function to8_fast_outer :: "int \<Rightarrow> nat \<Rightarrow> int list \<Rightarrow> int list \<Rightarrow> nat \<Rightarrow> (int list + int list \<times> int list \<times> nat) option" where
  "to8_fast_outer subchar cap s out subs =
     (let n = min ((cap - length out) div 3) (length s) in
      if n < 3 then Some (Inr (s, out, subs))
      else case to8_fast_inner subchar cap n s out subs of
        Some (Inr (s', out', subs')) \<Rightarrow> to8_fast_outer subchar cap s' out' subs'
      | other \<Rightarrow> other)"
  by auto
termination by (relation "measure (\<lambda>(sc, cap, s, out, subs). length s)") (auto dest!: to8_fast_inner_shorter)

declare to8_fast_outer.simps [simp del]

text \<open>\<^verbatim>\<open>u_terminateChars\<close> is the same macro as \<^verbatim>\<open>u_terminateUChars\<close>.\<close>

definition u_strToUTF8WithSub :: "int list option \<Rightarrow> int \<Rightarrow> int list option \<Rightarrow> int \<Rightarrow> int \<Rightarrow> UErrorCode \<Rightarrow> conversion option" where
  "u_strToUTF8WithSub dest destCapacity pSrc srcLength subchar ec =
     (if U_FAILURE ec then Some (reject dest ec)
      else if bad_arguments dest pSrc destCapacity srcLength subchar then Some (reject dest U_ILLEGAL_ARGUMENT_ERROR)
      else
        let cap = nat destCapacity; terminated = (srcLength < 0);
            s = (case pSrc of None \<Rightarrow> [] | Some b \<Rightarrow> if terminated then b else take (nat srcLength) b) in do {
          first \<leftarrow> (if terminated then Some (Inr (s, [], 0)) else to8_fast_outer subchar cap s [] 0);
          case first of
            Inl out \<Rightarrow> Some (fail_conversion dest out U_INVALID_CHAR_FOUND)
          | Inr (s1, out1, subs1) \<Rightarrow> do {
              written \<leftarrow> to8_write_loop terminated subchar cap s1 out1 subs1;
              case written of
                Inl out \<Rightarrow> Some (fail_conversion dest out U_INVALID_CHAR_FOUND)
              | Inr (s2, out2, req2, subs2) \<Rightarrow> do {
                  counted \<leftarrow> to8_count_loop terminated subchar s2 req2 subs2;
                  case counted of
                    None \<Rightarrow> Some (fail_conversion dest out2 U_INVALID_CHAR_FOUND)
                  | Some (req3, subs3) \<Rightarrow> if int (req3 + length out2) \<le> INT32_MAX then Some (finish_UChars dest out2 req3 subs3 ec) else None
                }
            }
        })"

definition u_strToUTF8 :: "int list option \<Rightarrow> int \<Rightarrow> int list option \<Rightarrow> int \<Rightarrow> UErrorCode \<Rightarrow> conversion option" where
  "u_strToUTF8 dest destCapacity pSrc srcLength ec = u_strToUTF8WithSub dest destCapacity pSrc srcLength U_SENTINEL ec"

section \<open>UTF-16 as an encoding form\<close>

definition units :: "int list \<Rightarrow> bool" where
  "units w \<longleftrightarrow> (\<forall>u \<in> set w. 0 \<le> u \<and> u \<le> 0xffff)"

lemma units_simps [simp]: "units []" "units (u # w) \<longleftrightarrow> 0 \<le> u \<and> u \<le> 0xffff \<and> units w" "units (v @ w) \<longleftrightarrow> units v \<and> units w"
  by (auto simp: units_def)

lemma units_take [simp]: "units w \<Longrightarrow> units (take n w)" "units w \<Longrightarrow> units (drop n w)"
  by (auto simp: units_def dest: in_set_takeD in_set_dropD)

fun char16 :: "int list \<Rightarrow> int" where
  "char16 (u # v # w) = (if \<not> is_surrogate u then u else if is_lead u \<and> is_trail v then get_supplementary u v else U_SENTINEL)"
| "char16 [u] = (if \<not> is_surrogate u then u else U_SENTINEL)"
| "char16 [] = U_SENTINEL"

fun width16 :: "int list \<Rightarrow> nat" where
  "width16 (u # v # w) = (if is_lead u \<and> is_trail v then 2 else 1)"
| "width16 [u] = 1"
| "width16 [] = 0"

lemma pair_units:
  assumes "is_lead u" "is_trail v"
  shows "0xffff < get_supplementary u v" "get_supplementary u v \<le> 0x10ffff" "cp_units (get_supplementary u v) = [u, v]"
proof -
  define t a where "t = v - 0xdc00" and "a = u - 0xd7c0"
  have g: "get_supplementary u v = a * 1024 + t" by (simp add: get_supplementary_def t_def a_def)
  have t: "0 \<le> t" "t < 1024" using assms(2) by (auto simp: is_trail_def t_def)
  show b: "0xffff < get_supplementary u v" "get_supplementary u v \<le> 0x10ffff" using assms by (auto simp: get_supplementary_def is_lead_def is_trail_def)
  have "get_supplementary u v div 1024 = a" "get_supplementary u v mod 1024 = t" unfolding g using t by simp_all
  then show "cp_units (get_supplementary u v) = [u, v]" using b by (simp add: cp_units_def U16_LEAD_def U16_TRAIL_def t_def a_def)
qed

lemma pair_scalar: "is_lead u \<Longrightarrow> is_trail v \<Longrightarrow> scalar (get_supplementary u v)"
  using pair_units [of u v] by (auto simp: scalar_def is_surrogate_def)

lemma unit_scalar: "\<not> is_surrogate u \<Longrightarrow> 0 \<le> u \<Longrightarrow> u \<le> 0xffff \<Longrightarrow> scalar u \<and> cp_units u = [u]"
  by (simp add: scalar_def cp_units_def)

lemma lead_is_surrogate: "is_lead u \<Longrightarrow> is_surrogate u" "is_trail u \<Longrightarrow> is_surrogate u"
  by (auto simp: is_lead_def is_trail_def is_surrogate_def)

interpretation utf16_form: text_form char16 width16 units scalar cp_units
proof unfold_locales
  show "w \<noteq> [] \<Longrightarrow> 0 < width16 w \<and> width16 w \<le> length w" for w by (cases w rule: width16.cases) auto
  show "scalar c \<Longrightarrow> units (cp_units c)" for c
    using supplementary_units [of c] by (auto simp: cp_units_def scalar_def is_lead_def is_trail_def)
  show "scalar c \<Longrightarrow> units w \<Longrightarrow> char16 (cp_units c @ w) = c \<and> width16 (cp_units c @ w) = length (cp_units c)" for c w
    using supplementary_units [of c] lead_is_surrogate by (cases w) (auto simp: cp_units_def scalar_def)
  show "w \<noteq> [] \<Longrightarrow> units w \<Longrightarrow> 0 \<le> char16 w \<Longrightarrow> scalar (char16 w) \<and> (\<exists>rest. w = cp_units (char16 w) @ rest)" for w
    by (cases w rule: char16.cases) (auto simp: pair_units(3) pair_scalar unit_scalar U_SENTINEL_def split: if_splits)
qed (auto simp: scalar_def cp_units_def)

lemma next_unit_char16:
  assumes "w \<noteq> []" "checked \<or> rest \<noteq> []" "rest = [] \<or> \<not> is_trail (hd rest)"
  shows "next_unit checked (w @ rest) = Some (char16 w, drop (width16 w) w @ rest)"
  using assms lead_is_surrogate by (cases w rule: char16.cases; cases rest) (auto split: list.splits)

lemma to8_text_step:
  assumes "holds_text units t s w"
  shows "more_input t s = Some (w \<noteq> [])"
    "w \<noteq> [] \<Longrightarrow> \<exists>s'. next_unit (\<not> t) s = Some (char16 w, s') \<and> holds_text units t s' (drop (width16 w) w)"
proof -
  show "more_input t s = Some (w \<noteq> [])"
    using assms by (cases t; cases w) (auto simp: holds_text_def more_input_def)
  assume ne: "w \<noteq> []"
  show "\<exists>s'. next_unit (\<not> t) s = Some (char16 w, s') \<and> holds_text units t s' (drop (width16 w) w)"
  proof (cases t)
    case False
    then show ?thesis using assms next_unit_char16 [OF ne, of True "[]"] by (auto simp: holds_text_def)
  next
    case True
    then obtain rest where s: "s = w @ 0 # rest" "0 \<notin> set w" "units s" using assms by (auto simp: holds_text_def)
    have "next_unit False s = Some (char16 w, drop (width16 w) w @ 0 # rest)" using next_unit_char16 [OF ne, of False "0 # rest"] s(1) by (simp add: is_trail_def)
    moreover have "0 \<notin> set (drop (width16 w) w)" using s(2) by (auto dest: in_set_dropD)
    ultimately show ?thesis using True s by (auto simp: holds_text_def)
  qed
qed

section \<open>The loops\<close>

definition to8 :: "int \<Rightarrow> int list \<Rightarrow> (int list \<times> nat) option" where
  "to8 subchar = conv char16 width16 utf8_bytes subchar"

lemma to8_Nil [simp]: "to8 subchar [] = Some ([], 0)"
  by (simp add: to8_def utf16_form.conv_Nil)

lemmas to8_step = utf16_form.conv_step [where enc = utf8_bytes, folded to8_def]
lemmas to8_converted_step = utf16_form.converted_step [where enc = utf8_bytes, folded to8_def]

text \<open>What may be written: scalar values, if the substitution character is one.\<close>

lemma substitute_scalar:
  assumes "w \<noteq> []" "units w" "subchar < 0 \<or> scalar subchar" "substitute subchar (char16 w) n = Some (ch, k)"
  shows "scalar ch" "appendUTF8 ch = utf8_bytes ch" "nat (U8_LENGTH ch) = length (utf8_bytes ch)" "to8_count subchar (char16 w) = length (utf8_bytes ch)"
proof -
  show s: "scalar ch" using assms utf16_form.read_legal [OF assms(1,2)] by (auto simp: substitute_def split: if_splits)
  show "appendUTF8 ch = utf8_bytes ch" using s by (simp add: appendUTF8_def utf8_bytes_def unsigned_le_def scalar_def)
  show l: "nat (U8_LENGTH ch) = length (utf8_bytes ch)" using U8_LENGTH_bytes [OF s] by simp
  have "\<not> char16 w < 0 \<Longrightarrow> ch = char16 w" using assms(4) by (simp add: substitute_def)
  then show "to8_count subchar (char16 w) = length (utf8_bytes ch)"
    using l assms(4) s by (auto simp: to8_count_def substitute_def utf8_bytes_def unsigned_le_def scalar_def split: if_splits)
qed

lemma length_utf8_bytes: "0 < length (utf8_bytes c)" "length (utf8_bytes c) \<le> 4"
  by (simp_all add: utf8_bytes_def)

lemma char_room: "w \<noteq> [] \<Longrightarrow> length (utf8_bytes c) + 4 * length (drop (width16 w) w) \<le> 4 * length w"
  using utf16_form.drop_shorter [of w] length_utf8_bytes(2) [of c] by linarith

lemma to8_length: "to8 subchar w = Some (us, k) \<Longrightarrow> length us \<le> 4 * length w"
proof (induction w arbitrary: us k rule: utf16_form.conv_induct)
  case (Char w)
  then obtain ch j us' m where "us = utf8_bytes ch @ us'" "to8 subchar (drop (width16 w) w) = Some (us', m)"
    using to8_step [OF Char.hyps, of subchar] by (auto simp: prepend_eq_Some split: option.splits)
  then show ?case using Char.IH [of us' m] char_room [OF Char.hyps, of ch] by simp
qed simp

lemma to8_count_loop_counts:
  assumes "holds_text units t s w" "subchar < 0 \<or> scalar subchar" "int (req + 4 * length w) \<le> INT32_MAX"
  shows "to8_count_loop t subchar s req subs = Some (map_option (\<lambda>(us, k). (req + length us, subs + k)) (to8 subchar w))"
  using assms(1,3)
proof (induction w arbitrary: s req subs rule: utf16_form.conv_induct)
  case Nil
  then show ?case using to8_text_step(1) [OF Nil(1)] by (subst to8_count_loop.simps) simp
next
  case (Char w)
  note step = to8_text_step [OF Char.prems(1)]
  have v: "units w" using Char.prems by (cases t) (auto simp: holds_text_def)
  obtain s' where s': "next_unit (\<not> t) s = Some (char16 w, s')" "holds_text units t s' (drop (width16 w) w)" using step(2) Char.hyps by blast
  note eq = to8_count_loop.simps [of t subchar s req subs] step(1) Char.hyps s'(1) substitute_add [of subchar "char16 w" subs] to8_step [OF Char.hyps, of subchar]
  show ?case
  proof (cases "substitute subchar (char16 w) 0")
    case None
    then show ?thesis using eq by simp
  next
    case (Some p)
    then obtain ch k where p: "substitute subchar (char16 w) 0 = Some (ch, k)" by (cases p) auto
    have room: "int (req + length (utf8_bytes ch) + 4 * length (drop (width16 w) w)) \<le> INT32_MAX" using Char.prems(2) char_room [OF Char.hyps, of ch] by linarith
    then have "int (req + length (utf8_bytes ch)) \<le> INT32_MAX" by linarith
    then have "to8_count_loop t subchar s req subs = to8_count_loop t subchar s' (req + length (utf8_bytes ch)) (subs + k)"
      using eq p substitute_scalar(4) [OF Char.hyps v assms(2) p] by simp
    also have "\<dots> = Some (map_option (\<lambda>(us, k'). (req + length (utf8_bytes ch) + length us, subs + k + k')) (to8 subchar (drop (width16 w) w)))"
      by (rule Char.IH [OF s'(2) room])
    finally show ?thesis using eq p by (auto simp: prepend_def option.map_comp comp_def split: prod.splits intro!: option.map_cong)
  qed
qed

text \<open>
  The first loop writes whole characters as long as they fit; \<open>out2\<close> is what it has written and \<open>us\<close> all it has read: if it
  has not written all of it, then \<open>out2\<close> are the bytes of whole characters and the next character does not fit.
\<close>

definition encodes :: "int list \<Rightarrow> bool" where
  "encodes us \<longleftrightarrow> (\<exists>cs. (\<forall>c \<in> set cs. scalar c) \<and> us = concat (map utf8_bytes cs))"

lemma encodes_Nil [simp]: "encodes []"
  by (auto simp: encodes_def intro: exI [of _ "[]"])

lemma encodes_append: "encodes us \<Longrightarrow> encodes us' \<Longrightarrow> encodes (us @ us')"
  by (auto simp: encodes_def) (metis (no_types, opaque_lifting) Un_iff concat_append map_append set_append)

lemma encodes_char: "scalar c \<Longrightarrow> encodes (utf8_bytes c)"
  by (auto simp: encodes_def intro!: exI [of _ "[c]"])

definition part_written :: "nat \<Rightarrow> int list \<Rightarrow> int list \<Rightarrow> bool" where
  "part_written cap us out2 \<longleftrightarrow> length out2 \<le> cap \<and>
     (if length us \<le> cap then out2 = us
      else encodes out2 \<and> (\<exists>c rest. scalar c \<and> us = out2 @ utf8_bytes c @ rest \<and> cap < length out2 + length (utf8_bytes c)))"

lemma part_written_full: "length us \<le> cap \<Longrightarrow> part_written cap us us"
  by (simp add: part_written_def)

lemma part_written_more: "part_written cap us out2 \<Longrightarrow> cap < length us \<Longrightarrow> part_written cap (us @ us') out2"
  by (auto simp: part_written_def)

lemma part_written_prefix: "part_written cap us out2 \<Longrightarrow> length out2 \<le> cap \<and> prefix out2 us"
  by (auto simp: part_written_def split: if_splits)

lemma to8_write_loop_writes:
  assumes "holds_text units t s w" "length out \<le> cap" "encodes out" "subchar < 0 \<or> scalar subchar"
  shows "(\<exists>o2. to8_write_loop t subchar cap s out subs = Some (Inl o2) \<and> length o2 \<le> cap \<and> to8 subchar w = None) \<or>
    (\<exists>s2 w2 us k o2. to8_write_loop t subchar cap s out subs = Some (Inr (s2, o2, length (out @ us) - length o2, subs + k)) \<and>
       holds_text units t s2 w2 \<and> converted (to8 subchar) w w2 us k \<and> part_written cap (out @ us) o2 \<and> (w2 = [] \<or> cap < length (out @ us)) \<and>
       length (out @ us) - length o2 + 4 * length w2 \<le> 4 * length w)"
  using assms(1-3)
proof (induction w arbitrary: s out subs rule: utf16_form.conv_induct)
  case Nil
  then have "to8_write_loop t subchar cap s out subs = Some (Inr (s, out, 0, subs))" using to8_text_step(1) [OF Nil(1)] by (subst to8_write_loop.simps) simp
  then show ?case using Nil part_written_full [of out cap] by (intro disjI2 exI [of _ s] exI [of _ "[]"] exI [of _ 0] exI [of _ out]) simp
next
  case (Char w)
  note step = to8_text_step [OF Char.prems(1)]
  have v: "units w" using Char.prems by (cases t) (auto simp: holds_text_def)
  obtain s' where s': "next_unit (\<not> t) s = Some (char16 w, s')" "holds_text units t s' (drop (width16 w) w)" using step(2) Char.hyps by blast
  note eq = to8_write_loop.simps [of t subchar cap s out subs] step(1) Char.hyps s'(1) substitute_add [of subchar "char16 w" subs]
  show ?case
  proof (cases "substitute subchar (char16 w) 0")
    case None
    then show ?thesis using eq to8_step [OF Char.hyps, of subchar] Char.prems(2) by simp
  next
    case (Some p)
    then obtain ch k where p: "substitute subchar (char16 w) 0 = Some (ch, k)" by (cases p) auto
    note sc = substitute_scalar [OF Char.hyps v assms(4) p] and room = char_room [OF Char.hyps, of ch]
    show ?thesis
    proof (cases "length (out @ utf8_bytes ch) \<le> cap")
      case False
      then have "\<not> length (utf8_bytes ch) \<le> cap - length out" using Char.prems(2) by auto
      then have "to8_write_loop t subchar cap s out subs = Some (Inr (s', out, length (utf8_bytes ch), subs + k))"
        using eq p sc by (simp add: Let_def)
      moreover have "converted (to8 subchar) w (drop (width16 w) w) (utf8_bytes ch) k" using to8_converted_step [OF Char.hyps p converted_refl] by simp
      moreover have "part_written cap (out @ utf8_bytes ch) out" using False Char.prems(2,3) sc(1) by (auto simp: part_written_def)
      ultimately show ?thesis using s'(2) False room
        by (intro disjI2 exI [of _ s'] exI [of _ "drop (width16 w) w"] exI [of _ "utf8_bytes ch"] exI [of _ k] exI [of _ out]) simp
    next
      case True
      then have e: "to8_write_loop t subchar cap s out subs = to8_write_loop t subchar cap s' (out @ utf8_bytes ch) (subs + k)"
        using eq p sc by (auto simp: Let_def)
      from Char.IH [OF s'(2) True encodes_append [OF Char.prems(3) encodes_char [OF sc(1)]], of "subs + k"] show ?thesis
      proof (rule disjE)
        assume "\<exists>o2. to8_write_loop t subchar cap s' (out @ utf8_bytes ch) (subs + k) = Some (Inl o2) \<and> length o2 \<le> cap \<and> to8 subchar (drop (width16 w) w) = None"
        then show ?thesis using to8_step [OF Char.hyps, of subchar] p e by auto
      next
        assume "\<exists>s2 w2 us m o2. to8_write_loop t subchar cap s' (out @ utf8_bytes ch) (subs + k) =
            Some (Inr (s2, o2, length ((out @ utf8_bytes ch) @ us) - length o2, subs + k + m)) \<and>
          holds_text units t s2 w2 \<and> converted (to8 subchar) (drop (width16 w) w) w2 us m \<and> part_written cap ((out @ utf8_bytes ch) @ us) o2 \<and>
          (w2 = [] \<or> cap < length ((out @ utf8_bytes ch) @ us)) \<and> length ((out @ utf8_bytes ch) @ us) - length o2 + 4 * length w2 \<le> 4 * length (drop (width16 w) w)"
        then obtain s2 w2 us m o2 where "to8_write_loop t subchar cap s' (out @ utf8_bytes ch) (subs + k) =
            Some (Inr (s2, o2, length ((out @ utf8_bytes ch) @ us) - length o2, subs + k + m))"
          "holds_text units t s2 w2" "converted (to8 subchar) (drop (width16 w) w) w2 us m" "part_written cap ((out @ utf8_bytes ch) @ us) o2"
          "w2 = [] \<or> cap < length ((out @ utf8_bytes ch) @ us)" "length ((out @ utf8_bytes ch) @ us) - length o2 + 4 * length w2 \<le> 4 * length w"
          using room by force
        then show ?thesis using to8_converted_step [OF Char.hyps p, of w2 us m] unfolding e
          by (intro disjI2 exI [of _ s2] exI [of _ w2] exI [of _ "utf8_bytes ch @ us"] exI [of _ "k + m"] exI [of _ o2]) (simp add: add.assoc)
      qed
    qed
  qed
qed

text \<open>The faster loop has room for three bytes for each of the units it counts.\<close>

lemma next_unit_fast:
  assumes "units s" "s \<noteq> []" "is_surrogate (hd s) \<longrightarrow> 2 \<le> length s"
  shows "next_unit False s = Some (char16 s, drop (width16 s) s)"
  using assms lead_is_surrogate by (cases s rule: char16.cases) auto

lemma width16_le: "width16 w \<le> 2" "\<not> is_surrogate (hd w) \<Longrightarrow> width16 w \<le> 1"
  using lead_is_surrogate by (cases w rule: width16.cases; auto)+

lemma narrow_bytes: "\<not> is_surrogate (hd w) \<Longrightarrow> units w \<Longrightarrow> w \<noteq> [] \<Longrightarrow> length (utf8_bytes (char16 w)) \<le> 3 \<and> 0 \<le> char16 w"
  by (cases w rule: char16.cases) (auto simp: utf8_bytes_def unsigned_le_def)

lemma to8_fast_inner_writes:
  assumes "units s" "length out + 3 * n \<le> cap" "n \<le> length s" "subchar < 0 \<or> scalar subchar"
  shows "(\<exists>o2. to8_fast_inner subchar cap n s out subs = Some (Inl o2) \<and> length o2 \<le> cap \<and> to8 subchar s = None) \<or>
    (\<exists>s2 us k. to8_fast_inner subchar cap n s out subs = Some (Inr (s2, out @ us, subs + k)) \<and>
       units s2 \<and> converted (to8 subchar) s s2 us k \<and> length (out @ us) \<le> cap \<and> encodes us \<and> length s2 \<le> length s)"
  using assms(1-3)
proof (induction n arbitrary: s out subs rule: less_induct)
  case (less n)
  define n' where "n' = (if is_surrogate (hd s) then n - 1 else n)"
  note eq = to8_fast_inner.simps [of subchar cap n s out subs, unfolded Let_def, folded n'_def]
  show ?case
  proof (cases "n = 0 \<or> n' = 0")
    case True
    then have "to8_fast_inner subchar cap n s out subs = Some (Inr (s, out @ [], subs + 0))" using eq less.prems(3) by auto
    then show ?thesis using less.prems converted_refl [of "to8 subchar" s] by fastforce
  next
    case False
    then have n: "0 < n" "0 < n'" "s \<noteq> []" using less.prems(3) by auto
    have nx: "next_unit False s = Some (char16 s, drop (width16 s) s)"
      using next_unit_fast [OF less.prems(1) n(3)] n less.prems(3) by (auto simp: n'_def split: if_splits)
    show ?thesis
    proof (cases "substitute subchar (char16 s) 0")
      case None
      then have "to8_fast_inner subchar cap n s out subs = Some (Inl out)" "to8 subchar s = None"
        using eq n nx substitute_add [of subchar "char16 s" subs] to8_step [OF n(3), of subchar] by simp_all
      then show ?thesis using less.prems(2) by simp
    next
      case (Some p)
      then obtain ch k where p: "substitute subchar (char16 s) 0 = Some (ch, k)" by (cases p) auto
      note sc = substitute_scalar [OF n(3) less.prems(1) assms(4) p]
      have b: "length (utf8_bytes ch) + 3 * (n' - 1) \<le> 3 * n"
        using length_utf8_bytes(2) [of ch] narrow_bytes [OF _ less.prems(1) n(3)] p n by (auto simp: n'_def split: if_splits)
      have w: "n' - 1 \<le> length (drop (width16 s) s)" using width16_le [of s] n less.prems(3) by (auto simp: n'_def split: if_splits)
      have e: "to8_fast_inner subchar cap n s out subs = to8_fast_inner subchar cap (n' - 1) (drop (width16 s) s) (out @ utf8_bytes ch) (subs + k)"
        using eq n nx p sc(2) b less.prems(2) substitute_add [of subchar "char16 s" subs] by simp
      have "n' - 1 < n" "units (drop (width16 s) s)" "length (out @ utf8_bytes ch) + 3 * (n' - 1) \<le> cap"
        using n less.prems b by (auto simp: n'_def)
      from less.IH [OF this w, of "subs + k"] show ?thesis
      proof (elim disjE exE conjE)
        fix o2 assume "to8_fast_inner subchar cap (n' - 1) (drop (width16 s) s) (out @ utf8_bytes ch) (subs + k) = Some (Inl o2)"
          "length o2 \<le> cap" "to8 subchar (drop (width16 s) s) = None"
        then show ?thesis using e to8_step [OF n(3), of subchar] p by simp
      next
        fix s2 us k'
        assume "to8_fast_inner subchar cap (n' - 1) (drop (width16 s) s) (out @ utf8_bytes ch) (subs + k) = Some (Inr (s2, (out @ utf8_bytes ch) @ us, subs + k + k'))"
          "units s2" "converted (to8 subchar) (drop (width16 s) s) s2 us k'" "length ((out @ utf8_bytes ch) @ us) \<le> cap" "encodes us" "length s2 \<le> length (drop (width16 s) s)"
        then show ?thesis using e to8_converted_step [OF n(3) p, of s2 us k'] encodes_append [OF encodes_char [OF sc(1)], of us]
          by (intro disjI2 exI [of _ s2] exI [of _ "utf8_bytes ch @ us"] exI [of _ "k + k'"]) (simp add: add.assoc)
      qed
    qed
  qed
qed

lemma to8_fast_outer_writes:
  assumes "units s" "length out \<le> cap" "subchar < 0 \<or> scalar subchar"
  shows "(\<exists>o2. to8_fast_outer subchar cap s out subs = Some (Inl o2) \<and> length o2 \<le> cap \<and> to8 subchar s = None) \<or>
    (\<exists>s2 us k. to8_fast_outer subchar cap s out subs = Some (Inr (s2, out @ us, subs + k)) \<and>
       units s2 \<and> converted (to8 subchar) s s2 us k \<and> length (out @ us) \<le> cap \<and> encodes us \<and> length s2 \<le> length s)"
  using assms(1,2)
proof (induction "length s" arbitrary: s out subs rule: less_induct)
  case less
  define n where "n = min ((cap - length out) div 3) (length s)"
  note eq = to8_fast_outer.simps [of subchar cap s out subs, folded n_def]
  show ?case
  proof (cases "n < 3")
    case True
    then have "to8_fast_outer subchar cap s out subs = Some (Inr (s, out @ [], subs + 0))" using eq by (simp add: Let_def)
    then show ?thesis using less.prems converted_refl [of "to8 subchar" s] by fastforce
  next
    case False
    have "length out + 3 * n \<le> cap" "n \<le> length s" using less.prems(2) by (auto simp: n_def)
    from to8_fast_inner_writes [OF less.prems(1) this assms(3), of subs] show ?thesis
    proof (elim disjE exE conjE)
      fix o2 assume "to8_fast_inner subchar cap n s out subs = Some (Inl o2)" "length o2 \<le> cap" "to8 subchar s = None"
      then show ?thesis using eq False by (simp add: Let_def)
    next
      fix s1 us k
      assume a: "to8_fast_inner subchar cap n s out subs = Some (Inr (s1, out @ us, subs + k))" "units s1" "converted (to8 subchar) s s1 us k" "length (out @ us) \<le> cap" "encodes us" "length s1 \<le> length s"
      have e: "to8_fast_outer subchar cap s out subs = to8_fast_outer subchar cap s1 (out @ us) (subs + k)" using a(1) eq False by (simp add: Let_def)
      have "length s1 < length s" using to8_fast_inner_shorter [OF a(1)] False by simp
      from less.hyps [OF this a(2,4), of "subs + k"] show ?thesis
      proof (elim disjE exE conjE)
        fix o2 assume "to8_fast_outer subchar cap s1 (out @ us) (subs + k) = Some (Inl o2)" "length o2 \<le> cap" "to8 subchar s1 = None"
        then show ?thesis using a(3) e by (simp add: converted_def)
      next
        fix s2 us' k'
        assume "to8_fast_outer subchar cap s1 (out @ us) (subs + k) = Some (Inr (s2, (out @ us) @ us', subs + k + k'))" "units s2"
          "converted (to8 subchar) s1 s2 us' k'" "length ((out @ us) @ us') \<le> cap" "encodes us'" "length s2 \<le> length s1"
        then show ?thesis using converted_trans [OF a(3), of s2 us' k'] e encodes_append [OF a(5), of us'] a(6)
          by (intro disjI2 exI [of _ s2] exI [of _ "us @ us'"] exI [of _ "k + k'"]) (simp add: add.assoc)
      qed
    qed
  qed
qed

section \<open>The whole conversion\<close>

lemma to8_loops_convert:
  assumes "holds_text units t s w" "subchar < 0 \<or> scalar subchar"
  shows "\<exists>r. (if t then Some (Inr (s, [], 0)) else to8_fast_outer subchar cap s [] 0) = Some r \<and>
    (case r of
       Inl out \<Rightarrow> length out \<le> cap \<and> to8 subchar w = None
     | Inr (s1, out1, subs1) \<Rightarrow> (\<exists>w1. holds_text units t s1 w1 \<and> converted (to8 subchar) w w1 out1 subs1 \<and> length out1 \<le> cap \<and> encodes out1 \<and> length w1 \<le> length w))"
proof (cases t)
  case True
  then show ?thesis using assms by (auto intro!: exI [of _ w])
next
  case False
  then have "units s" "s = w" using assms by (auto simp: holds_text_def)
  with to8_fast_outer_writes [OF this(1) _ assms(2), of "[]" cap 0] False show ?thesis by (fastforce simp: holds_text_def)
qed

lemma to8_write_and_count:
  assumes "holds_text units t s1 w1" "length out1 \<le> cap" "converted (to8 subchar) w w1 out1 subs1" "subchar < 0 \<or> scalar subchar" "encodes out1"
    "int (4 * length w1) \<le> INT32_MAX"
  shows "\<exists>r. to8_write_loop t subchar cap s1 out1 subs1 = Some r \<and>
    (case r of
       Inl out \<Rightarrow> length out \<le> cap \<and> to8 subchar w = None
     | Inr (s2, out2, req2, subs2) \<Rightarrow> length out2 \<le> cap \<and>
         to8_count_loop t subchar s2 req2 subs2 = Some (map_option (\<lambda>(us, k). (length us - length out2, k)) (to8 subchar w)) \<and>
         (\<forall>us k. to8 subchar w = Some (us, k) \<longrightarrow> part_written cap us out2))"
  using to8_write_loop_writes [OF assms(1,2,5,4), of subs1]
proof (rule disjE)
  assume "\<exists>o2. to8_write_loop t subchar cap s1 out1 subs1 = Some (Inl o2) \<and> length o2 \<le> cap \<and> to8 subchar w1 = None"
  then show ?thesis using assms(3) by (auto simp: converted_def)
next
  assume "\<exists>s2 w2 us k o2. to8_write_loop t subchar cap s1 out1 subs1 = Some (Inr (s2, o2, length (out1 @ us) - length o2, subs1 + k)) \<and>
       holds_text units t s2 w2 \<and> converted (to8 subchar) w1 w2 us k \<and> part_written cap (out1 @ us) o2 \<and> (w2 = [] \<or> cap < length (out1 @ us)) \<and>
       length (out1 @ us) - length o2 + 4 * length w2 \<le> 4 * length w1"
  then obtain s2 w2 us k v o2 where w: "v = out1 @ us" "to8_write_loop t subchar cap s1 out1 subs1 = Some (Inr (s2, o2, length v - length o2, subs1 + k))"
    "holds_text units t s2 w2" "converted (to8 subchar) w1 w2 us k" "part_written cap v o2" "w2 = [] \<or> cap < length v"
    "length v - length o2 + 4 * length w2 \<le> 4 * length w1" by blast
  have pr: "converted (to8 subchar) w w2 v (subs1 + k)" unfolding w(1) by (rule converted_trans [OF assms(3) w(4)])
  have "int (length v - length o2 + 4 * length w2) \<le> INT32_MAX" using w(7) assms(6) by linarith
  note c = to8_count_loop_counts [OF w(3) assms(4) this, of "subs1 + k"]
  have o2: "length o2 \<le> cap" "length o2 \<le> length v" using part_written_prefix [OF w(5)] prefix_length_le by auto
  show ?thesis
  proof (cases "to8 subchar w2")
    case None
    then show ?thesis using w(2) c pr o2 by (simp add: converted_def)
  next
    case (Some p)
    then obtain us2 k2 where p: "to8 subchar w2 = Some (us2, k2)" by (cases p) auto
    have f: "to8 subchar w = Some (v @ us2, subs1 + k + k2)" using pr p by (simp add: converted_def)
    have t: "part_written cap (v @ us2) o2" using w(5,6) p part_written_more by auto
    have l: "length v - length o2 + length us2 = length (v @ us2) - length o2" using o2 by simp
    show ?thesis using w(2) c f p t l o2 by simp
  qed
qed

text \<open>
  What the caller gets: everything if it fits, and otherwise as many whole characters as fit.
\<close>

definition delivers :: "int list option \<Rightarrow> int list \<Rightarrow> nat \<Rightarrow> UErrorCode \<Rightarrow> conversion \<Rightarrow> bool" where
  "delivers dest us k ec r \<longleftrightarrow>
     cv_destLength r = Some (int (length us)) \<and> cv_numSubstitutions r = Some (int k) \<and>
     cv_error r = delivery_status (length us) (capacity_of dest) ec \<and>
     (case dest of
        None \<Rightarrow> cv_dest r = None
      | Some d \<Rightarrow> (\<exists>out. part_written (length d) us out \<and>
          cv_dest r = Some (if length us \<le> length d then delivered us d else out @ drop (length out) d)))"

lemma finish_part:
  assumes "\<not> U_FAILURE ec" "part_written (capacity_of dest) us out"
  shows "delivers dest us k ec (finish_UChars dest out (length us - length out) k ec)"
proof (cases dest)
  case None
  then show ?thesis using assms part_written_prefix [OF assms(2)] prefix_length_le [of out us]
    by (auto simp: part_written_def finish_UChars_def put_out_def capacity_of_def delivers_def delivery_status_def u_terminateUChars_def)
next
  case (Some d)
  have l: "length us - length out + length out = length us" using part_written_prefix [OF assms(2)] prefix_length_le [of out us] by simp
  show ?thesis
  proof (cases "length us \<le> length d")
    case True
    then have "out = us" using assms(2) Some by (simp add: part_written_def capacity_of_def)
    then show ?thesis using assms Some True finish_delivers [OF assms(1), of dest us k] by (auto simp: delivers_def capacity_of_def delivery_def)
  next
    case False
    moreover have "length (out @ drop (length out) d) = length d" using part_written_prefix [OF assms(2)] Some by (auto simp: capacity_of_def)
    moreover have "int (length us - length out + length out) = int (length us)" using l by simp
    ultimately show ?thesis using assms Some
      by (auto simp: finish_UChars_def put_out_def capacity_of_def delivers_def delivery_status_def u_terminateUChars_def intro!: exI [of _ out])
  qed
qed

lemma good_subchar: "\<not> bad_arguments dest src cap srcLength subchar \<Longrightarrow> subchar < 0 \<or> scalar subchar"
  by (auto simp: bad_arguments_def scalar_def)

lemma u_strToUTF8WithSub_result:
  assumes "\<not> U_FAILURE ec" "\<not> bad_arguments dest src (int (capacity_of dest)) srcLength subchar" "source_text units src srcLength w"
    "int (4 * length w) \<le> INT32_MAX"
  shows "case to8 subchar w of
      None \<Rightarrow> \<exists>out. length out \<le> capacity_of dest \<and> u_strToUTF8WithSub dest (int (capacity_of dest)) src srcLength subchar ec = Some (fail_conversion dest out U_INVALID_CHAR_FOUND)
    | Some (us, k) \<Rightarrow> \<exists>r. u_strToUTF8WithSub dest (int (capacity_of dest)) src srcLength subchar ec = Some r \<and> delivers dest us k ec r"
proof -
  define s where "s = (case src of None \<Rightarrow> [] | Some b \<Rightarrow> if srcLength < 0 then b else take (nat srcLength) b)"
  define cap where "cap = capacity_of dest"
  note sc = good_subchar [OF assms(2)]
  note eq = u_strToUTF8WithSub_def [of dest "int cap" src srcLength subchar ec, unfolded Let_def nat_int, folded s_def] assms(1) assms(2) [folded cap_def]
  obtain r1 where r1: "(if srcLength < 0 then Some (Inr (s, [], 0)) else to8_fast_outer subchar cap s [] 0) = Some r1"
    "case r1 of Inl out \<Rightarrow> length out \<le> cap \<and> to8 subchar w = None
     | Inr (s1, out1, subs1) \<Rightarrow> (\<exists>w1. holds_text units (srcLength < 0) s1 w1 \<and> converted (to8 subchar) w w1 out1 subs1 \<and> length out1 \<le> cap \<and> encodes out1 \<and> length w1 \<le> length w)"
    using to8_loops_convert [OF source_text_holds [OF assms(3) s_def units_take(1) units_simps(1)] sc, of cap] by blast
  show ?thesis
  proof (cases r1)
    case (Inl out)
    then show ?thesis using r1 eq unfolding cap_def [symmetric] by (auto simp: Let_def)
  next
    case (Inr p)
    then obtain s1 out1 subs1 w1 where p: "r1 = Inr (s1, out1, subs1)" "holds_text units (srcLength < 0) s1 w1"
        "converted (to8 subchar) w w1 out1 subs1" "length out1 \<le> cap" "encodes out1" "length w1 \<le> length w"
      using r1(2) by (cases p) auto
    have bound: "int (4 * length w1) \<le> INT32_MAX" using p(6) assms(4) by linarith
    obtain r2 where r2: "to8_write_loop (srcLength < 0) subchar cap s1 out1 subs1 = Some r2"
      "case r2 of Inl out \<Rightarrow> length out \<le> cap \<and> to8 subchar w = None
       | Inr (s2, out2, req2, subs2) \<Rightarrow> length out2 \<le> cap \<and>
           to8_count_loop (srcLength < 0) subchar s2 req2 subs2 = Some (map_option (\<lambda>(us, k). (length us - length out2, k)) (to8 subchar w)) \<and>
           (\<forall>us k. to8 subchar w = Some (us, k) \<longrightarrow> part_written cap us out2)"
      using to8_write_and_count [OF p(2,4,3) sc p(5) bound] by blast
    note eq' = eq r1(1) p(1) r2(1) finish_part [OF assms(1), of dest, folded cap_def]
    show ?thesis
    proof (cases r2)
      case (Inl out)
      then show ?thesis using r2(2) eq' unfolding cap_def [symmetric] by (auto simp: Let_def)
    next
      case (Inr q)
      then obtain s2 out2 req2 subs2 where q: "r2 = Inr (s2, out2, req2, subs2)" by (cases q) auto
      have fit: "int (length us - length out2 + length out2) \<le> INT32_MAX" if "to8 subchar w = Some (us, k)" for us k
      proof -
        have "length out2 \<le> length us" using r2(2) q that part_written_prefix [of cap us out2] prefix_length_le [of out2 us] by auto
        then show ?thesis using to8_length [OF that] assms(4) by simp
      qed
      show ?thesis using r2(2) eq' q fit unfolding cap_def [symmetric] by (auto simp: Let_def split: option.splits)
    qed
  qed
qed

end
