(* ===== verification/StringUtf32.thy ===== *)
theory StringUtf32
  imports StringToUtf8
begin

text \<open>
  UTF-32 to UTF-16 and back, \<^verbatim>\<open>u_strFromUTF32WithSub\<close> and \<^verbatim>\<open>u_strToUTF32WithSub\<close> of \<^verbatim>\<open>common/ustrtrns.cpp\<close>.
\<close>

section \<open>Model\<close>

text \<open>The loop for the first part of a terminated string: it stops at the zero or at a character that is not \<open>simple\<close>.\<close>

definition write_unit :: "nat \<Rightarrow> int \<Rightarrow> int list \<times> nat \<Rightarrow> int list \<times> nat" where
  "write_unit cap ch p = (case p of (out, req) \<Rightarrow> if length out < cap then (out @ [ch], req) else (out, req + 1))"

fun simple_loop :: "(int \<Rightarrow> bool) \<Rightarrow> nat \<Rightarrow> int list \<Rightarrow> int list \<times> nat \<Rightarrow> (int list \<times> int list \<times> nat) option" where
  "simple_loop simple cap [] p = None"
| "simple_loop simple cap (ch # s) p =
     (if ch \<noteq> 0 \<and> simple ch then simple_loop simple cap s (write_unit cap ch p) else Some (ch # s, p))"

text \<open>The rest up to the zero, for which the whole string has to be searched.\<close>

definition rest_of_string :: "int list \<Rightarrow> int list option" where
  "rest_of_string s = (if 0 \<in> set s then Some (takeWhile (\<lambda>c. c \<noteq> 0) s) else None)"

definition is_bmp :: "int \<Rightarrow> bool" where
  "is_bmp ch \<longleftrightarrow> (0 \<le> ch \<and> ch < 0xd800) \<or> (0xe000 \<le> ch \<and> ch \<le> 0xffff)"

text \<open>One pass of the inner loop: the character is written or counted, or it is not a character.\<close>

definition write_char32 :: "nat \<Rightarrow> int \<Rightarrow> int list \<times> nat \<Rightarrow> (int list \<times> nat) option" where
  "write_char32 cap ch p =
     (if is_bmp ch then Some (write_unit cap ch p)
      else if 0x10000 \<le> ch \<and> ch \<le> 0x10ffff then
        Some (case p of (out, req) \<Rightarrow> if length out + 2 \<le> cap then (out @ [U16_LEAD ch, U16_TRAIL ch], req) else (out, req + 2))
      else None)"

text \<open>
  \<open>Inl\<close> is an illegal character without a substitution. The inner loop runs a second time for the substitution
  character, which the check of the arguments has accepted.
\<close>

fun from32_loop :: "int \<Rightarrow> nat \<Rightarrow> int list \<Rightarrow> int list \<times> nat \<Rightarrow> nat \<Rightarrow> (int list + int list \<times> nat \<times> nat) option" where
  "from32_loop subchar cap [] p subs = Some (Inr (fst p, snd p, subs))"
| "from32_loop subchar cap (ch # s) p subs =
     (case write_char32 cap ch p of
        Some p' \<Rightarrow> from32_loop subchar cap s p' subs
      | None \<Rightarrow>
          if subchar < 0 then Some (Inl (fst p))
          else (case write_char32 cap subchar p of None \<Rightarrow> None | Some p' \<Rightarrow> from32_loop subchar cap s p' (subs + 1)))"

function to32_loop :: "int \<Rightarrow> nat \<Rightarrow> int list \<Rightarrow> int list \<times> nat \<Rightarrow> nat \<Rightarrow> (int list + int list \<times> nat \<times> nat) option" where
  "to32_loop subchar cap s p subs =
     (if s = [] then Some (Inr (fst p, snd p, subs))
      else case next_unit True s of
        None \<Rightarrow> None
      | Some (c, s') \<Rightarrow>
          (case substitute subchar c subs of
             None \<Rightarrow> Some (Inl (fst p))
           | Some (ch, subs') \<Rightarrow> to32_loop subchar cap s' (write_unit cap ch p) subs'))"
  by auto
termination by (relation "measure (\<lambda>(sc, cap, s, p, subs). length s)") (auto dest: next_unit_shorter)

declare to32_loop.simps [simp del]

text \<open>The common frame of the two functions: arguments, first loop, second loop, lengths and termination.\<close>

definition start32 :: "(int \<Rightarrow> bool) \<Rightarrow> nat \<Rightarrow> int list option \<Rightarrow> int \<Rightarrow> (int list \<times> int list \<times> nat) option" where
  "start32 simple cap src srcLength =
     (let b = (case src of None \<Rightarrow> [] | Some b \<Rightarrow> b) in
      if srcLength < 0 then do {
        (s, p) \<leftarrow> simple_loop simple cap b ([], 0);
        rest \<leftarrow> rest_of_string s;
        Some (rest, p)
      } else Some (take (nat srcLength) b, [], 0))"

definition u_strFromUTF32WithSub :: "int list option \<Rightarrow> int \<Rightarrow> int list option \<Rightarrow> int \<Rightarrow> int \<Rightarrow> UErrorCode \<Rightarrow> conversion option" where
  "u_strFromUTF32WithSub dest destCapacity src srcLength subchar ec =
     (if U_FAILURE ec then Some (reject dest ec)
      else if bad_arguments dest src destCapacity srcLength subchar then Some (reject dest U_ILLEGAL_ARGUMENT_ERROR)
      else do {
        (s, p) \<leftarrow> start32 is_bmp (nat destCapacity) src srcLength;
        r \<leftarrow> from32_loop subchar (nat destCapacity) s p 0;
        case r of
          Inl out \<Rightarrow> Some (fail_conversion dest out U_INVALID_CHAR_FOUND)
        | Inr (out, req, subs) \<Rightarrow> Some (finish_UChars dest out req subs ec)
      })"

definition u_strToUTF32WithSub :: "int list option \<Rightarrow> int \<Rightarrow> int list option \<Rightarrow> int \<Rightarrow> int \<Rightarrow> UErrorCode \<Rightarrow> conversion option" where
  "u_strToUTF32WithSub dest destCapacity src srcLength subchar ec =
     (if U_FAILURE ec then Some (reject dest ec)
      else if bad_arguments dest src destCapacity srcLength subchar then Some (reject dest U_ILLEGAL_ARGUMENT_ERROR)
      else do {
        (s, p) \<leftarrow> start32 (\<lambda>ch. \<not> is_surrogate ch) (nat destCapacity) src srcLength;
        r \<leftarrow> to32_loop subchar (nat destCapacity) s p 0;
        case r of
          Inl out \<Rightarrow> Some (fail_conversion dest out U_INVALID_CHAR_FOUND)
        | Inr (out, req, subs) \<Rightarrow> Some (finish_UChars dest out req subs ec)
      })"

definition u_strFromUTF32 :: "int list option \<Rightarrow> int \<Rightarrow> int list option \<Rightarrow> int \<Rightarrow> UErrorCode \<Rightarrow> conversion option" where
  "u_strFromUTF32 dest destCapacity src srcLength ec = u_strFromUTF32WithSub dest destCapacity src srcLength U_SENTINEL ec"

definition u_strToUTF32 :: "int list option \<Rightarrow> int \<Rightarrow> int list option \<Rightarrow> int \<Rightarrow> UErrorCode \<Rightarrow> conversion option" where
  "u_strToUTF32 dest destCapacity src srcLength ec = u_strToUTF32WithSub dest destCapacity src srcLength U_SENTINEL ec"

section \<open>UTF-32 as an encoding form\<close>

definition char32 :: "int list \<Rightarrow> int" where
  "char32 w = (case w of [] \<Rightarrow> U_SENTINEL | c # _ \<Rightarrow> if scalar c then c else U_SENTINEL)"

definition width32 :: "int list \<Rightarrow> nat" where
  "width32 w = 1"

interpretation utf32: text_form char32 width32 "\<lambda>_. True" scalar "\<lambda>c. [c]"
  by unfold_locales (auto simp: char32_def width32_def scalar_def U_SENTINEL_def Suc_leI split: list.splits if_splits)

definition from32 :: "int \<Rightarrow> int list \<Rightarrow> (int list \<times> nat) option" where
  "from32 subchar = conv char32 width32 cp_units subchar"

definition to32 :: "int \<Rightarrow> int list \<Rightarrow> (int list \<times> nat) option" where
  "to32 subchar = conv char16 width16 (\<lambda>c. [c]) subchar"

lemma conv32_Nil [simp]: "from32 subchar [] = Some ([], 0)" "to32 subchar [] = Some ([], 0)"
  by (simp_all add: from32_def to32_def utf32.conv_Nil utf16_form.conv_Nil)

lemmas to32_step = utf16_form.conv_step [where enc = "\<lambda>c. [c]", folded to32_def]

lemma from32_Cons:
  "from32 subchar (c # w) =
    (case substitute subchar (if scalar c then c else U_SENTINEL) 0 of None \<Rightarrow> None | Some (ch, k) \<Rightarrow> prepend (cp_units ch) k (from32 subchar w))"
proof -
  have "char32 (c # w) = (if scalar c then c else U_SENTINEL)" "drop (width32 (c # w)) (c # w) = w" by (simp_all add: char32_def width32_def)
  then show ?thesis unfolding from32_def using utf32.conv_step [of "c # w" cp_units subchar] by (simp only: list.simps simp_thms)
qed

text \<open>The state of the loops: the units \<open>us\<close> so far are written or counted, and written as long as they fit.\<close>

definition kept :: "nat \<Rightarrow> int list \<Rightarrow> int list \<times> nat \<Rightarrow> bool" where
  "kept cap us p \<longleftrightarrow> length (fst p) \<le> cap \<and> length us = length (fst p) + snd p \<and> (length us \<le> cap \<longrightarrow> fst p = us)"

lemma keptI: "length out \<le> cap \<Longrightarrow> length us = length out + req \<Longrightarrow> (length us \<le> cap \<Longrightarrow> out = us) \<Longrightarrow> kept cap us (out, req)"
  unfolding kept_def fst_conv snd_conv by blast

lemma keptD: "kept cap us (out, req) \<Longrightarrow> length out \<le> cap \<and> length us = length out + req" "kept cap us (out, req) \<Longrightarrow> length us \<le> cap \<Longrightarrow> out = us"
  unfolding kept_def fst_conv snd_conv by blast+

lemma kept_append:
  assumes "kept cap us (out, req)"
  shows "kept cap (us @ vs) (if length out + length vs \<le> cap then (out @ vs, req) else (out, req + length vs))"
proof (cases "length out + length vs \<le> cap")
  case True
  have "kept cap (us @ vs) (out @ vs, req)"
  proof (rule keptI)
    show "length (us @ vs) \<le> cap \<Longrightarrow> out @ vs = us @ vs" using keptD(2) [OF assms] by simp
  qed (use keptD(1) [OF assms] True in auto)
  then show ?thesis using True by simp
next
  case False
  have "kept cap (us @ vs) (out, req + length vs)" by (rule keptI) (use keptD(1) [OF assms] False in auto)
  then show ?thesis using False by simp
qed

lemma kept_write_unit: "kept cap us p \<Longrightarrow> kept cap (us @ [ch]) (write_unit cap ch p)"
  using kept_append [of cap us "fst p" "snd p" "[ch]"] by (cases p) (simp add: write_unit_def Suc_le_eq split: if_splits)

lemma kept_write_char32: "kept cap us p \<Longrightarrow> scalar ch \<Longrightarrow> \<exists>p'. write_char32 cap ch p = Some p' \<and> kept cap (us @ cp_units ch) p'"
proof -
  assume a: "kept cap us p" "scalar ch"
  show ?thesis
  proof (cases "ch \<le> 0xffff")
    case True
    then have "write_char32 cap ch p = Some (write_unit cap ch p)" "cp_units ch = [ch]"
      using a(2) by (auto simp: write_char32_def is_bmp_def cp_units_def scalar_def is_surrogate_def)
    then show ?thesis using kept_write_unit [OF a(1), of ch] by simp
  next
    case False
    obtain out req where p: "p = (out, req)" by (cases p)
    show ?thesis using False a kept_append [of cap us out req "[U16_LEAD ch, U16_TRAIL ch]"] p
      by (simp add: write_char32_def is_bmp_def cp_units_def scalar_def split: if_splits)
  qed
qed

lemma write_char32_illegal: "\<not> scalar ch \<Longrightarrow> write_char32 cap ch p = None"
  by (auto simp: write_char32_def is_bmp_def scalar_def is_surrogate_def)

lemma from32_loop_writes:
  assumes "kept cap us p" "subchar < 0 \<or> scalar subchar"
  shows "case from32 subchar w of
      None \<Rightarrow> \<exists>out. from32_loop subchar cap w p subs = Some (Inl out) \<and> length out \<le> cap
    | Some (us', k) \<Rightarrow> \<exists>p'. from32_loop subchar cap w p subs = Some (Inr (fst p', snd p', subs + k)) \<and> kept cap (us @ us') p'"
  using assms(1)
proof (induction w arbitrary: us p subs)
  case Nil
  then show ?case by auto
next
  case (Cons c w)
  show ?case
  proof (cases "scalar c")
    case True
    then obtain p' where p': "write_char32 cap c p = Some p'" "kept cap (us @ cp_units c) p'" using kept_write_char32 Cons.prems by blast
    then show ?thesis using Cons.IH [OF p'(2), of subs] True from32_Cons [of subchar c w]
      by (auto simp: scalar_def prepend_def split: option.splits)
  next
    case False
    then have n: "write_char32 cap c p = None" by (rule write_char32_illegal)
    show ?thesis
    proof (cases "subchar < 0")
      case True
      then show ?thesis using n False Cons.prems by (auto simp: from32_Cons substitute_def U_SENTINEL_def kept_def)
    next
      case pos: False
      then obtain p' where p': "write_char32 cap subchar p = Some p'" "kept cap (us @ cp_units subchar) p'"
        using kept_write_char32 Cons.prems assms(2) by blast
      then show ?thesis using Cons.IH [OF p'(2), of "subs + 1"] False pos n from32_Cons [of subchar c w]
        by (auto simp: substitute_def U_SENTINEL_def prepend_def split: option.splits)
    qed
  qed
qed

lemma next_unit_checked: "w \<noteq> [] \<Longrightarrow> next_unit True w = Some (char16 w, drop (width16 w) w)"
  using next_unit_char16 [of w True "[]"] by simp

lemma to32_loop_writes:
  assumes "kept cap us p"
  shows "case to32 subchar w of
      None \<Rightarrow> \<exists>out. to32_loop subchar cap w p subs = Some (Inl out) \<and> length out \<le> cap
    | Some (us', k) \<Rightarrow> \<exists>p'. to32_loop subchar cap w p subs = Some (Inr (fst p', snd p', subs + k)) \<and> kept cap (us @ us') p'"
  using assms
proof (induction w arbitrary: us p subs rule: utf16_form.conv_induct)
  case Nil
  then show ?case by (auto simp: to32_loop.simps)
next
  case (Char w)
  note eq = to32_loop.simps [of subchar cap w p subs] Char.hyps next_unit_checked [OF Char.hyps] substitute_add [of subchar "char16 w" subs]
    to32_step [OF Char.hyps, of subchar]
  show ?case
  proof (cases "substitute subchar (char16 w) 0")
    case None
    then show ?thesis using eq Char.prems by (auto simp: kept_def)
  next
    case (Some q)
    then obtain ch k where q: "substitute subchar (char16 w) 0 = Some (ch, k)" by (cases q) auto
    have "to32_loop subchar cap w p subs = to32_loop subchar cap (drop (width16 w) w) (write_unit cap ch p) (subs + k)" using eq q by simp
    then show ?thesis using Char.IH [OF kept_write_unit [OF Char.prems], of ch "subs + k"] eq q
      by (auto simp: prepend_def add.assoc split: option.splits)
  qed
qed

section \<open>The whole conversions\<close>

text \<open>A simple character is converted to itself, so the first loop is a part of the conversion.\<close>

lemma simple_loop_writes:
  assumes "\<And>c v. simple c \<Longrightarrow> ok c \<Longrightarrow> converted f (c # v) v [c] 0" "kept cap us p" "\<forall>c \<in> set w. ok c" "0 \<notin> set w"
  shows "\<exists>w2 us' p'. simple_loop simple cap (w @ 0 # rest) p = Some (w2 @ 0 # rest, p') \<and> kept cap (us @ us') p' \<and>
    converted f w w2 us' 0 \<and> 0 \<notin> set w2"
  using assms(2-4)
proof (induction w arbitrary: us p)
  case Nil
  then show ?case by (auto intro!: exI [of _ "[]"])
next
  case (Cons c w)
  show ?case
  proof (cases "simple c")
    case True
    obtain w2 us' p' where h: "simple_loop simple cap (w @ 0 # rest) (write_unit cap c p) = Some (w2 @ 0 # rest, p')" "kept cap ((us @ [c]) @ us') p'"
        "converted f w w2 us' 0" "0 \<notin> set w2"
      using Cons.IH [OF kept_write_unit [OF Cons.prems(1), of c]] Cons.prems by auto
    have "converted f (c # w) w2 ([c] @ us') (0 + 0)" by (rule converted_trans [OF _ h(3)]) (use assms(1) True Cons.prems in auto)
    then show ?thesis using h True Cons.prems by (intro exI [of _ w2] exI [of _ "[c] @ us'"] exI [of _ p']) simp
  next
    case False
    then show ?thesis using Cons.prems by (intro exI [of _ "c # w"] exI [of _ "[]"] exI [of _ p]) simp
  qed
qed

lemma start32_starts:
  assumes "\<And>c v. simple c \<Longrightarrow> ok c \<Longrightarrow> converted f (c # v) v [c] 0" "source_text (\<lambda>w. \<forall>c \<in> set w. ok c) src srcLength w"
  shows "\<exists>s us p. start32 simple cap src srcLength = Some (s, p) \<and> kept cap us p \<and> converted f w s us 0 \<and> (srcLength \<ge> 0 \<longrightarrow> s = w)"
proof -
  have k0: "kept cap [] ([], 0)" by (rule keptI) auto
  define s where "s = (case src of None \<Rightarrow> [] | Some b \<Rightarrow> if srcLength < 0 then b else take (nat srcLength) b)"
  have h: "holds_text (\<lambda>w. \<forall>c \<in> set w. ok c) (srcLength < 0) s w"
    by (rule source_text_holds [OF assms(2) s_def]) (auto dest: in_set_takeD)
  show ?thesis
  proof (cases "srcLength < 0")
    case False
    then have "start32 simple cap src srcLength = Some (w, [], 0)" using h by (auto simp: start32_def s_def holds_text_def split: option.splits)
    then show ?thesis using k0 converted_refl [of f w] by blast
  next
    case True
    then obtain rest where r: "s = w @ 0 # rest" "0 \<notin> set w" "\<forall>c \<in> set w. ok c" using h by (auto simp: holds_text_def)
    have b: "(case src of None \<Rightarrow> [] | Some b \<Rightarrow> b) = s" using True by (cases src) (simp_all add: s_def)
    obtain w2 us p where l: "simple_loop simple cap s ([], 0) = Some (w2 @ 0 # rest, p)" "kept cap us p" "converted f w w2 us 0" "0 \<notin> set w2"
      using simple_loop_writes [OF assms(1) k0 r(3,2)] unfolding r(1) by (metis append_Nil)
    have t: "takeWhile (\<lambda>c. c \<noteq> 0) (w2 @ 0 # rest) = w2" using l(4) by (subst takeWhile_append2) auto
    have "start32 simple cap src srcLength = Some (w2, p)"
      unfolding start32_def b Let_def using True l(1) t by (simp add: rest_of_string_def split: prod.splits)
    then show ?thesis using l True by auto
  qed
qed

text \<open>
  What the caller gets. When the text does not fit the length is still the whole length, but the destination need not hold
  a part of the result: \<^verbatim>\<open>u_strFromUTF32WithSub\<close> goes on writing after a pair that does not fit.
\<close>

definition delivers_fitting :: "int list option \<Rightarrow> int list \<Rightarrow> nat \<Rightarrow> UErrorCode \<Rightarrow> conversion \<Rightarrow> bool" where
  "delivers_fitting dest us k ec r \<longleftrightarrow>
     cv_destLength r = Some (int (length us)) \<and> cv_numSubstitutions r = Some (int k) \<and>
     cv_error r = delivery_status (length us) (capacity_of dest) ec \<and>
     (\<exists>d'. cv_dest r = map_option d' dest \<and> (\<forall>d. dest = Some d \<longrightarrow> length (d' d) = length d \<and> (length us \<le> length d \<longrightarrow> d' d = delivered us d)))"

lemma finish_kept:
  assumes "\<not> U_FAILURE ec" "kept (capacity_of dest) us p"
  shows "delivers_fitting dest us k ec (finish_UChars dest (fst p) (snd p) k ec)"
proof -
  obtain out req where p: "p = (out, req)" by (cases p)
  note kd = keptD(1) [OF assms(2) [unfolded p]]
  show ?thesis
  proof (cases "length us \<le> capacity_of dest")
    case True
    then have o: "out = us" using keptD(2) [OF assms(2) [unfolded p]] by simp
    moreover from this have "req = 0" using kd by auto
    ultimately have "finish_UChars dest (fst p) (snd p) k ec = delivery dest us k ec"
      using finish_delivers [OF assms(1), of dest us k] True p by simp
    moreover have "length (delivered us d) = length d" for d by (auto simp: delivered_def)
    ultimately show ?thesis by (auto simp: delivers_fitting_def delivery_def)
  next
    case False
    have l: "length (put_out dest out) = capacity_of dest" using kd by (auto simp: put_out_def capacity_of_def split: option.splits)
    have "int req + int (length out) = int (length us)" using kd by simp
    then have "u_terminateUChars (put_out dest out) (int (req + length out)) ec = (put_out dest out, U_BUFFER_OVERFLOW_ERROR)"
      using assms(1) l False by (simp add: u_terminateUChars_def)
    then show ?thesis using False kd l p
      by (auto simp: delivers_fitting_def finish_UChars_def delivery_status_def capacity_of_def intro!: exI [of _ "\<lambda>_. put_out dest out"])
  qed
qed

lemma u_strFromUTF32WithSub_result:
  assumes "\<not> U_FAILURE ec" "\<not> bad_arguments dest src (int (capacity_of dest)) srcLength subchar" "source_text (\<lambda>_. True) src srcLength w"
  shows "case from32 subchar w of
      None \<Rightarrow> \<exists>out. length out \<le> capacity_of dest \<and> u_strFromUTF32WithSub dest (int (capacity_of dest)) src srcLength subchar ec = Some (fail_conversion dest out U_INVALID_CHAR_FOUND)
    | Some (us, k) \<Rightarrow> \<exists>r. u_strFromUTF32WithSub dest (int (capacity_of dest)) src srcLength subchar ec = Some r \<and> delivers_fitting dest us k ec r"
proof -
  have simple: "converted (from32 subchar) (c # v) v [c] 0" if "is_bmp c" for c v
  proof -
    have "scalar c" "cp_units c = [c]" using that by (auto simp: is_bmp_def scalar_def cp_units_def is_surrogate_def)
    then show ?thesis using from32_Cons [of subchar c v] by (simp add: converted_def scalar_def)
  qed
  obtain s us p where s: "start32 is_bmp (capacity_of dest) src srcLength = Some (s, p)" "kept (capacity_of dest) us p" "converted (from32 subchar) w s us 0"
    using start32_starts [of is_bmp "\<lambda>_. True", OF simple, of src srcLength w "capacity_of dest"] assms(3) by auto
  show ?thesis using from32_loop_writes [OF s(2) good_subchar [OF assms(2)], of s 0] s assms(1,2) finish_kept [OF assms(1)]
    by (auto simp: u_strFromUTF32WithSub_def converted_def prepend_def split: option.splits)
qed

lemma u_strToUTF32WithSub_result:
  assumes "\<not> U_FAILURE ec" "\<not> bad_arguments dest src (int (capacity_of dest)) srcLength subchar" "source_text units src srcLength w"
  shows "case to32 subchar w of
      None \<Rightarrow> \<exists>out. length out \<le> capacity_of dest \<and> u_strToUTF32WithSub dest (int (capacity_of dest)) src srcLength subchar ec = Some (fail_conversion dest out U_INVALID_CHAR_FOUND)
    | Some (us, k) \<Rightarrow> \<exists>r. u_strToUTF32WithSub dest (int (capacity_of dest)) src srcLength subchar ec = Some r \<and> delivers_fitting dest us k ec r"
proof -
  have simple: "converted (to32 subchar) (c # v) v [c] 0" if "\<not> is_surrogate c" "0 \<le> c \<and> c \<le> 0xffff" for c v
  proof -
    have "char16 (c # v) = c" "drop (width16 (c # v)) (c # v) = v" using that lead_is_surrogate by (cases v; auto)+
    then show ?thesis using to32_step [of "c # v" subchar] that by (simp add: converted_def)
  qed
  obtain s us p where s: "start32 (\<lambda>c. \<not> is_surrogate c) (capacity_of dest) src srcLength = Some (s, p)" "kept (capacity_of dest) us p"
      "converted (to32 subchar) w s us 0"
    using start32_starts [of "\<lambda>c. \<not> is_surrogate c" "\<lambda>c. 0 \<le> c \<and> c \<le> 0xffff", OF simple, of src srcLength w "capacity_of dest"] assms(3)
    by (auto simp: units_def [abs_def])
  show ?thesis using to32_loop_writes [OF s(2), of subchar s 0] s assms(1,2) finish_kept [OF assms(1)]
    by (auto simp: u_strToUTF32WithSub_def converted_def prepend_def split: option.splits)
qed

end
