(* ===== verification/StringTransformClaims.thy ===== *)
theory StringTransformClaims
  imports StringUtf32
begin

text \<open>The properties of the string conversions of \<^verbatim>\<open>common/ustrtrns.cpp\<close>.\<close>

abbreviation utf8 :: "int list \<Rightarrow> int list" where
  "utf8 cps \<equiv> concat (map utf8_bytes cps)"

lemma utf8_text [simp]: "\<forall>c \<in> set cps. scalar c \<Longrightarrow> from8 subchar (utf8 cps) = Some (utf16 cps, 0)"
  "\<forall>c \<in> set cps. scalar c \<Longrightarrow> bytes (utf8 cps)"
  using utf8.conv_text [of cps cp_units subchar] utf8.valid_texts [of cps] by (auto simp: from8_def utf16_def)

lemma utf16_text [simp]: "\<forall>c \<in> set cps. scalar c \<Longrightarrow> to8 subchar (utf16 cps) = Some (utf8 cps, 0)"
  "\<forall>c \<in> set cps. scalar c \<Longrightarrow> to32 subchar (utf16 cps) = Some (cps, 0)" "\<forall>c \<in> set cps. scalar c \<Longrightarrow> units (utf16 cps)"
  using utf16_form.conv_text [of cps utf8_bytes subchar] utf16_form.conv_text [of cps "\<lambda>c. [c]" subchar] utf16_form.valid_texts [of cps]
  by (auto simp: to8_def to32_def utf16_def)

lemma utf32_text [simp]: "\<forall>c \<in> set cps. scalar c \<Longrightarrow> from32 subchar cps = Some (utf16 cps, 0)"
  using utf32.conv_text [of cps cp_units subchar] by (simp add: from32_def utf16_def)

lemma takeWhile_zero [simp]: "0 \<notin> set w \<Longrightarrow> takeWhile (\<lambda>x. x \<noteq> 0) (w @ 0 # rest) = w"
  by (subst takeWhile_append2) auto

lemma fail_fields [simp]: "cv_error (fail_conversion dest out e) = e" "cv_dest (fail_conversion None out e) = None"
  by (simp_all add: fail_conversion_def)

lemma status_not_invalid: "\<not> U_FAILURE ec \<Longrightarrow> delivery_status n cap ec \<noteq> U_INVALID_CHAR_FOUND"
  by (cases ec) (auto simp: delivery_status_def U_FAILURE_def)

text \<open>
  C17. \<^verbatim>\<open>u_strFromUTF8WithSub\<close> computes the reference conversion \<open>from8\<close> of its source \<open>w\<close>, for a source with a length and for
  one that ends with a zero: each ill-formed sequence is replaced by the substitution character, or is the error
  \<^verbatim>\<open>U_INVALID_CHAR_FOUND\<close> if there is none; the destination holds the units that fit, with the terminating zero, and the length is that
  of the whole result. No byte behind the source is read and no unit behind the destination is written.
\<close>

theorem u_strFromUTF8WithSub_converts:
  assumes "\<not> U_FAILURE ec" "\<not> bad_arguments dest src (int (capacity_of dest)) srcLength subchar" "source_text bytes src srcLength w"
  shows "\<exists>r. u_strFromUTF8WithSub dest (int (capacity_of dest)) src srcLength subchar ec = Some r \<and>
    (case from8 subchar w of
       None \<Rightarrow> cv_error r = U_INVALID_CHAR_FOUND \<and> map_option length (cv_dest r) = map_option length dest
     | Some (us, k) \<Rightarrow> r = delivery dest us k ec)"
proof (cases "from8 subchar w")
  case None
  then obtain out where "length out \<le> capacity_of dest"
      "u_strFromUTF8WithSub dest (int (capacity_of dest)) src srcLength subchar ec = Some (fail_conversion dest out U_INVALID_CHAR_FOUND)"
    using u_strFromUTF8WithSub_result [OF assms] by auto
  then show ?thesis using None by (cases dest) (auto simp: fail_conversion_def put_out_def capacity_of_def)
next
  case (Some p)
  then show ?thesis using u_strFromUTF8WithSub_result [OF assms] by (cases p) auto
qed

lemma from8_example: "from8 0xfffd [0x41, 0x80, 0xc3, 0xa9] = Some ([0x41, 0xfffd, 0xe9], 1)"
  by code_simp

theorem u_strFromUTF8WithSub_converts_witness:
  "\<exists>r. u_strFromUTF8WithSub (Some [7, 7]) 2 (Some [0x41, 0x80, 0xc3, 0xa9, 0]) (-1) 0xfffd U_ZERO_ERROR = Some r \<and>
     cv_dest r = Some [0x41, 0xfffd] \<and> cv_destLength r = Some 3 \<and> cv_numSubstitutions r = Some 1 \<and> cv_error r = U_BUFFER_OVERFLOW_ERROR"
  using u_strFromUTF8WithSub_converts [of U_ZERO_ERROR "Some [7, 7]" "Some [0x41, 0x80, 0xc3, 0xa9, 0]" "-1" "0xfffd" "[0x41, 0x80, 0xc3, 0xa9]"]
  by (simp add: from8_example capacity_of_def bad_arguments_def is_surrogate_def source_text_def bytes_def delivery_def delivered_def delivery_status_def)

text \<open>
  C18. \<^verbatim>\<open>u_strToUTF8WithSub\<close> computes the reference conversion \<open>to8\<close> of its UTF-16 source text of at most 536870911 units (the length of the
  result, at most four bytes for each, then fits into an \<^verbatim>\<open>int32_t\<close>): an unpaired surrogate is replaced or is the error
  \<^verbatim>\<open>U_INVALID_CHAR_FOUND\<close>; the destination holds all bytes, or if they do not fit the bytes of whole characters up to the first
  one that does not fit; the length is that of the whole result.
\<close>

theorem u_strToUTF8WithSub_converts:
  assumes "\<not> U_FAILURE ec" "\<not> bad_arguments dest src (int (capacity_of dest)) srcLength subchar" "source_text units src srcLength w"
    "int (4 * length w) \<le> INT32_MAX"
  shows "\<exists>r. u_strToUTF8WithSub dest (int (capacity_of dest)) src srcLength subchar ec = Some r \<and>
    (case to8 subchar w of
       None \<Rightarrow> cv_error r = U_INVALID_CHAR_FOUND \<and> map_option length (cv_dest r) = map_option length dest
     | Some (us, k) \<Rightarrow>
         cv_destLength r = Some (int (length us)) \<and> cv_numSubstitutions r = Some (int k) \<and>
         cv_error r = delivery_status (length us) (capacity_of dest) ec \<and>
         (case dest of
            None \<Rightarrow> cv_dest r = None
          | Some d \<Rightarrow>
              if length us \<le> length d then cv_dest r = Some (delivered us d)
              else \<exists>cs c rest. (\<forall>x \<in> set (c # cs). scalar x) \<and> us = utf8 cs @ utf8_bytes c @ rest \<and>
                length (utf8 cs) \<le> length d \<and> length d < length (utf8 cs @ utf8_bytes c) \<and> cv_dest r = Some (utf8 cs @ drop (length (utf8 cs)) d)))"
proof (cases "to8 subchar w")
  case None
  then obtain out where "length out \<le> capacity_of dest"
      "u_strToUTF8WithSub dest (int (capacity_of dest)) src srcLength subchar ec = Some (fail_conversion dest out U_INVALID_CHAR_FOUND)"
    using u_strToUTF8WithSub_result [OF assms] by auto
  then show ?thesis using None by (cases dest) (auto simp: fail_conversion_def put_out_def capacity_of_def)
next
  case (Some p)
  then obtain us k r where r: "to8 subchar w = Some (us, k)" "u_strToUTF8WithSub dest (int (capacity_of dest)) src srcLength subchar ec = Some r" "delivers dest us k ec r"
    using u_strToUTF8WithSub_result [OF assms] by (cases p) auto
  show ?thesis
  proof (cases "\<exists>d. dest = Some d \<and> length d < length us")
    case True
    then obtain d out where d: "dest = Some d" "length d < length us" "part_written (length d) us out" "cv_dest r = Some (out @ drop (length out) d)"
      using r(3) by (auto simp: delivers_def)
    then obtain cs c rest where "\<forall>x \<in> set (c # cs). scalar x" "us = utf8 cs @ utf8_bytes c @ rest" "length (utf8 cs) \<le> length d"
        "length d < length (utf8 cs @ utf8_bytes c)" "cv_dest r = Some (utf8 cs @ drop (length (utf8 cs)) d)"
      by (auto simp: part_written_def encodes_def)
    then have "\<exists>cs c rest. (\<forall>x \<in> set (c # cs). scalar x) \<and> us = utf8 cs @ utf8_bytes c @ rest \<and>
        length (utf8 cs) \<le> length d \<and> length d < length (utf8 cs @ utf8_bytes c) \<and> cv_dest r = Some (utf8 cs @ drop (length (utf8 cs)) d)" by blast
    then show ?thesis using r d(1,2) by (simp add: delivers_def)
  next
    case False
    then show ?thesis using r by (cases dest) (auto simp: delivers_def not_less)
  qed
qed

lemma to8_example: "to8 (-1) [0x41, 0xd800, 0xdc00] = Some ([0x41, 0xf0, 0x90, 0x80, 0x80], 0)"
  by code_simp

theorem u_strToUTF8WithSub_converts_witness:
  "\<exists>r. u_strToUTF8WithSub (Some [7, 7, 7, 7, 7, 7]) 6 (Some [0x41, 0xd800, 0xdc00]) 3 (-1) U_ZERO_ERROR = Some r \<and>
     cv_dest r = Some [0x41, 0xf0, 0x90, 0x80, 0x80, 0] \<and> cv_destLength r = Some 5 \<and> cv_error r = U_ZERO_ERROR"
  using u_strToUTF8WithSub_converts [of U_ZERO_ERROR "Some [7, 7, 7, 7, 7, 7]" "Some [0x41, 0xd800, 0xdc00]" 3 "-1" "[0x41, 0xd800, 0xdc00]"]
  by (auto simp: INT32_MAX_def to8_example capacity_of_def bad_arguments_def is_surrogate_def source_text_def delivers_def delivered_def delivery_status_def)

lemma utf8_roundtrip:
  assumes "\<forall>c \<in> set cps. scalar c" "length (utf8 cps) < length d" "length (utf16 cps) < length d2" "int (4 * length (utf16 cps)) \<le> INT32_MAX"
    "source_text units (Some s) n (utf16 cps)" "-1 \<le> n" "source_text bytes (Some (utf8 cps @ 0 # drop (Suc (length (utf8 cps))) d)) m (utf8 cps)" "-1 \<le> m"
  shows "\<exists>r r2 b. u_strToUTF8 (Some d) (int (length d)) (Some s) n U_ZERO_ERROR = Some r \<and>
    cv_error r = U_ZERO_ERROR \<and> cv_dest r = Some b \<and> cv_destLength r = Some (int (length (utf8 cps))) \<and>
    u_strFromUTF8 (Some d2) (int (length d2)) (Some b) m U_ZERO_ERROR = Some r2 \<and>
    cv_error r2 = U_ZERO_ERROR \<and> cv_destLength r2 = Some (int (length (utf16 cps))) \<and> cv_numSubstitutions r2 = Some 0 \<and>
    cv_dest r2 = Some (utf16 cps @ 0 # drop (Suc (length (utf16 cps))) d2)"
proof -
  have good: "\<not> bad_arguments (Some x) (Some y) (int (capacity_of (Some x))) k (-1)" if "-1 \<le> k" for x y :: "int list" and k
    using that by (simp add: bad_arguments_def is_surrogate_def)
  obtain r where r: "u_strToUTF8WithSub (Some d) (int (length d)) (Some s) n (-1) U_ZERO_ERROR = Some r" "delivers (Some d) (utf8 cps) 0 U_ZERO_ERROR r"
    using u_strToUTF8WithSub_result [OF _ good [OF assms(6)] assms(5,4), of U_ZERO_ERROR d] assms(1) by (auto simp: capacity_of_def)
  define b where "b = utf8 cps @ 0 # drop (Suc (length (utf8 cps))) d"
  have b: "cv_dest r = Some b" "cv_error r = U_ZERO_ERROR" "cv_destLength r = Some (int (length (utf8 cps)))"
    using r(2) assms(2) by (auto simp: delivers_def delivered_def delivery_status_def capacity_of_def b_def)
  from u_strFromUTF8WithSub_result [OF _ good [OF assms(8)] assms(7), of U_ZERO_ERROR d2]
  have "u_strFromUTF8WithSub (Some d2) (int (length d2)) (Some b) m (-1) U_ZERO_ERROR = Some (delivery (Some d2) (utf16 cps) 0 U_ZERO_ERROR)"
    using assms(1) by (simp add: capacity_of_def b_def)
  then show ?thesis using r(1) b assms(3)
    by (auto simp: u_strToUTF8_def u_strFromUTF8_def U_SENTINEL_def delivery_def delivered_def delivery_status_def capacity_of_def)
qed

lemma texts_without_zero:
  assumes "\<forall>c \<in> set cps. scalar c \<and> c \<noteq> 0"
  shows "0 \<notin> set (utf16 cps)" "0 \<notin> set (utf8 cps)"
proof -
  show "0 \<notin> set (utf16 cps)"
    using assms by (auto simp: utf16_def cp_units_def U16_LEAD_def U16_TRAIL_def scalar_def split: if_splits)
  have "0 \<notin> set (utf8_bytes c)" if "scalar c" "c \<noteq> 0" for c
    using that by (auto simp: utf8_bytes_def unsigned_le_def scalar_def)
  then show "0 \<notin> set (utf8 cps)" using assms by auto
qed

text \<open>
  C19. Round trip: the UTF-8 text that \<^verbatim>\<open>u_strToUTF8\<close> writes for well-formed UTF-16 of at most 536870911 units is converted by
  \<^verbatim>\<open>u_strFromUTF8\<close> to the same UTF-16, and neither reports an error, when the buffers have room for the texts and a zero: for any text with
  the lengths given, and for a text without U+0000 also when both functions read up to the terminating zero.
\<close>

theorem u_strToUTF8_roundtrip:
  assumes "\<forall>c \<in> set cps. scalar c" "length (utf8 cps) < length d" "bytes d" "length (utf16 cps) < length d2" "int (4 * length (utf16 cps)) \<le> INT32_MAX"
  shows "(\<exists>r r2 b. u_strToUTF8 (Some d) (int (length d)) (Some (utf16 cps)) (int (length (utf16 cps))) U_ZERO_ERROR = Some r \<and>
      cv_error r = U_ZERO_ERROR \<and> cv_dest r = Some b \<and> cv_destLength r = Some (int (length (utf8 cps))) \<and>
      u_strFromUTF8 (Some d2) (int (length d2)) (Some b) (int (length (utf8 cps))) U_ZERO_ERROR = Some r2 \<and>
      cv_error r2 = U_ZERO_ERROR \<and> cv_destLength r2 = Some (int (length (utf16 cps))) \<and> cv_numSubstitutions r2 = Some 0 \<and>
      cv_dest r2 = Some (utf16 cps @ 0 # drop (Suc (length (utf16 cps))) d2)) \<and>
    (0 \<notin> set cps \<longrightarrow> (\<exists>r r2 b. u_strToUTF8 (Some d) (int (length d)) (Some (utf16 cps @ [0])) (-1) U_ZERO_ERROR = Some r \<and>
      cv_error r = U_ZERO_ERROR \<and> cv_dest r = Some b \<and> cv_destLength r = Some (int (length (utf8 cps))) \<and>
      u_strFromUTF8 (Some d2) (int (length d2)) (Some b) (-1) U_ZERO_ERROR = Some r2 \<and>
      cv_error r2 = U_ZERO_ERROR \<and> cv_destLength r2 = Some (int (length (utf16 cps))) \<and> cv_numSubstitutions r2 = Some 0 \<and>
      cv_dest r2 = Some (utf16 cps @ 0 # drop (Suc (length (utf16 cps))) d2)))"
proof (intro conjI impI)
  show "\<exists>r r2 b. u_strToUTF8 (Some d) (int (length d)) (Some (utf16 cps)) (int (length (utf16 cps))) U_ZERO_ERROR = Some r \<and>
      cv_error r = U_ZERO_ERROR \<and> cv_dest r = Some b \<and> cv_destLength r = Some (int (length (utf8 cps))) \<and>
      u_strFromUTF8 (Some d2) (int (length d2)) (Some b) (int (length (utf8 cps))) U_ZERO_ERROR = Some r2 \<and>
      cv_error r2 = U_ZERO_ERROR \<and> cv_destLength r2 = Some (int (length (utf16 cps))) \<and> cv_numSubstitutions r2 = Some 0 \<and>
      cv_dest r2 = Some (utf16 cps @ 0 # drop (Suc (length (utf16 cps))) d2)"
    by (rule utf8_roundtrip [OF assms(1,2,4,5)]) (use assms(1,3) in \<open>auto simp: source_text_def\<close>)
  assume "0 \<notin> set cps"
  then have z: "0 \<notin> set (utf16 cps)" "0 \<notin> set (utf8 cps)" using texts_without_zero [of cps] assms(1) by auto
  show "\<exists>r r2 b. u_strToUTF8 (Some d) (int (length d)) (Some (utf16 cps @ [0])) (-1) U_ZERO_ERROR = Some r \<and>
      cv_error r = U_ZERO_ERROR \<and> cv_dest r = Some b \<and> cv_destLength r = Some (int (length (utf8 cps))) \<and>
      u_strFromUTF8 (Some d2) (int (length d2)) (Some b) (-1) U_ZERO_ERROR = Some r2 \<and>
      cv_error r2 = U_ZERO_ERROR \<and> cv_destLength r2 = Some (int (length (utf16 cps))) \<and> cv_numSubstitutions r2 = Some 0 \<and>
      cv_dest r2 = Some (utf16 cps @ 0 # drop (Suc (length (utf16 cps))) d2)"
    by (rule utf8_roundtrip [OF assms(1,2,4,5)]) (use assms(1,3) z in \<open>auto simp: source_text_def\<close>)
qed

theorem u_strToUTF8_roundtrip_witness:
  "\<exists>r r2 b. u_strToUTF8 (Some [1, 1, 1, 1, 1, 1]) 6 (Some [0, 0xd800, 0xdc00]) 3 U_ZERO_ERROR = Some r \<and>
    cv_error r = U_ZERO_ERROR \<and> cv_dest r = Some b \<and>
    u_strFromUTF8 (Some [1, 1, 1, 1]) 4 (Some b) 5 U_ZERO_ERROR = Some r2 \<and> cv_dest r2 = Some [0, 0xd800, 0xdc00, 0]"
  using u_strToUTF8_roundtrip [of "[0, 0x10000]" "[1, 1, 1, 1, 1, 1]" "[1, 1, 1, 1]", THEN conjunct1]
  by (auto simp: scalar_def is_surrogate_def utf8_bytes_def unsigned_le_def cp_units_def U16_LEAD_def U16_TRAIL_def bytes_def INT32_MAX_def)

text \<open>
  C20. The strict conversions validate: \<^verbatim>\<open>u_strFromUTF8\<close> reports \<^verbatim>\<open>U_INVALID_CHAR_FOUND\<close> exactly for sources that are not the UTF-8 encoding
  of a sequence of Unicode scalar values, and \<^verbatim>\<open>u_strToUTF8\<close> exactly for those that are not the UTF-16 encoding of one, of at most
  536870911 units.
\<close>

theorem strict_conversions_validate:
  assumes "\<not> U_FAILURE ec" "\<not> bad_arguments dest src (int (capacity_of dest)) srcLength U_SENTINEL"
  shows "(\<forall>w. source_text bytes src srcLength w \<longrightarrow>
      (\<exists>r. u_strFromUTF8 dest (int (capacity_of dest)) src srcLength ec = Some r \<and>
         (cv_error r = U_INVALID_CHAR_FOUND \<longleftrightarrow> (\<nexists>cps. (\<forall>c \<in> set cps. scalar c) \<and> w = utf8 cps)))) \<and>
    (\<forall>w. source_text units src srcLength w \<and> int (4 * length w) \<le> INT32_MAX \<longrightarrow>
      (\<exists>r. u_strToUTF8 dest (int (capacity_of dest)) src srcLength ec = Some r \<and>
         (cv_error r = U_INVALID_CHAR_FOUND \<longleftrightarrow> (\<nexists>cps. (\<forall>c \<in> set cps. scalar c) \<and> w = utf16 cps))))"
proof (intro conjI allI impI)
  fix w assume s: "source_text bytes src srcLength w"
  have v: "bytes w" using s by (auto simp: source_text_def bytes_def split: option.splits if_splits dest: set_takeWhileD in_set_takeD)
  define bad where "bad \<longleftrightarrow> (\<nexists>cps. (\<forall>c \<in> set cps. scalar c) \<and> w = utf8 cps)"
  have "from8 U_SENTINEL w = None \<longleftrightarrow> bad" unfolding bad_def
    using utf8.conv_strict_iff [OF v, of U_SENTINEL cp_units] by (simp add: from8_def U_SENTINEL_def)
  then show "\<exists>r. u_strFromUTF8 dest (int (capacity_of dest)) src srcLength ec = Some r \<and>
         (cv_error r = U_INVALID_CHAR_FOUND \<longleftrightarrow> (\<nexists>cps. (\<forall>c \<in> set cps. scalar c) \<and> w = utf8 cps))"
    unfolding bad_def [symmetric] using u_strFromUTF8WithSub_result [OF assms s] status_not_invalid [OF assms(1)]
    by (auto simp: u_strFromUTF8_def delivery_def split: option.splits)
next
  fix w assume "source_text units src srcLength w \<and> int (4 * length w) \<le> INT32_MAX"
  then have s: "source_text units src srcLength w" "int (4 * length w) \<le> INT32_MAX" by auto
  have v: "units w" using s(1) by (auto simp: source_text_def units_def split: option.splits if_splits dest: set_takeWhileD in_set_takeD)
  define bad where "bad \<longleftrightarrow> (\<nexists>cps. (\<forall>c \<in> set cps. scalar c) \<and> w = utf16 cps)"
  have "to8 U_SENTINEL w = None \<longleftrightarrow> bad" unfolding bad_def
    using utf16_form.conv_strict_iff [OF v, of U_SENTINEL utf8_bytes] by (simp add: to8_def utf16_def U_SENTINEL_def)
  then show "\<exists>r. u_strToUTF8 dest (int (capacity_of dest)) src srcLength ec = Some r \<and>
         (cv_error r = U_INVALID_CHAR_FOUND \<longleftrightarrow> (\<nexists>cps. (\<forall>c \<in> set cps. scalar c) \<and> w = utf16 cps))"
    unfolding bad_def [symmetric] using u_strToUTF8WithSub_result [OF assms s] status_not_invalid [OF assms(1)]
    by (auto simp: u_strToUTF8_def delivers_def split: option.splits)
qed

theorem strict_conversions_validate_witness:
  "\<exists>r. u_strFromUTF8 None 0 (Some [0x41, 0xc3]) 1 U_ZERO_ERROR = Some r \<and> cv_error r \<noteq> U_INVALID_CHAR_FOUND"
proof -
  have "(\<forall>c \<in> set [0x41]. scalar c) \<and> [0x41] = utf8 [0x41]" by (simp add: scalar_def is_surrogate_def utf8_bytes_def unsigned_le_def)
  then have w: "\<exists>cps. (\<forall>c \<in> set cps. scalar c) \<and> [0x41] = utf8 cps" by blast
  have "source_text bytes (Some [0x41, 0xc3]) 1 [0x41]" by (simp add: source_text_def bytes_def)
  then show ?thesis
    using strict_conversions_validate [of U_ZERO_ERROR None "Some [0x41, 0xc3]" 1, THEN conjunct1, THEN spec, of "[0x41]"] w
    by (auto simp: bad_arguments_def is_surrogate_def capacity_of_def U_SENTINEL_def simp del: concat.simps)
qed

text \<open>
  UTF-32: for a sequence of scalar values \<^verbatim>\<open>u_strFromUTF32\<close> writes its UTF-16 encoding and \<^verbatim>\<open>u_strToUTF32\<close> gives back the
  sequence from it, with the number of units and without substitution, whether they fit or are only counted.
\<close>

theorem utf32_conversions:
  assumes "\<forall>c \<in> set cps. scalar c" "\<not> U_FAILURE ec" "subchar < 0 \<or> scalar subchar" "\<not> bad_arguments dest (Some []) (int (capacity_of dest)) 0 (-1)"
  shows "\<exists>r r2. u_strFromUTF32WithSub dest (int (capacity_of dest)) (Some cps) (int (length cps)) subchar ec = Some r \<and>
    delivers_fitting dest (utf16 cps) 0 ec r \<and>
    u_strToUTF32WithSub dest (int (capacity_of dest)) (Some (utf16 cps)) (int (length (utf16 cps))) subchar ec = Some r2 \<and>
    delivers_fitting dest cps 0 ec r2"
proof -
  have "\<not> bad_arguments dest (Some b) (int (capacity_of dest)) (int n) subchar" for b n
    using assms(3,4) by (auto simp: bad_arguments_def scalar_def is_surrogate_def)
  moreover have "source_text (\<lambda>_. True) (Some cps) (int (length cps)) cps"
    "source_text units (Some (utf16 cps)) (int (length (utf16 cps))) (utf16 cps)" using assms(1) by (simp_all add: source_text_def)
  ultimately show ?thesis using u_strFromUTF32WithSub_result [OF assms(2), of dest "Some cps"] u_strToUTF32WithSub_result [OF assms(2), of dest "Some (utf16 cps)"]
      assms(1) by (fastforce split: option.splits)
qed

theorem utf32_conversions_witness:
  "\<exists>r. u_strFromUTF32WithSub (Some [7, 7, 7, 7]) 4 (Some [0x41, 0x10000]) 2 (-1) U_ZERO_ERROR = Some r \<and> cv_dest r = Some [0x41, 0xd800, 0xdc00, 0]"
proof -
  have "\<forall>c \<in> set [0x41, 0x10000]. scalar c" by (simp add: scalar_def is_surrogate_def)
  from utf32_conversions [OF this, of U_ZERO_ERROR "-1" "Some [7, 7, 7, 7]"] show ?thesis
    by (auto simp: bad_arguments_def is_surrogate_def capacity_of_def delivers_fitting_def delivered_def cp_units_def U16_LEAD_def U16_TRAIL_def)
qed

end
