(* ===== verification/UString.thy ===== *)
theory UString
  imports Utf16 "HOL-Library.Monad_Syntax"
begin

text \<open>
  Searching, comparing and counting in UTF-16 strings, \<^verbatim>\<open>common/ustring.cpp\<close>. A string is the block of memory its pointer points
  into, from the pointer on; a pointer into it is an index. Reading outside the block is \<open>None\<close>; the inner option of
  a result is a pointer that may be \<^verbatim>\<open>NULL\<close>. A length of \<open>-1\<close> says that the string ends at its first zero.
\<close>

definition unit_at :: "int list \<Rightarrow> nat \<Rightarrow> int option" where
  "unit_at s i = (if i < length s then Some (s ! i) else None)"

lemma unit_at_Some: "unit_at s i = Some c \<longleftrightarrow> i < length s \<and> c = s ! i"
  by (auto simp: unit_at_def)

fun strlen_loop :: "int list \<Rightarrow> nat \<Rightarrow> nat option" where
  "strlen_loop [] n = None"
| "strlen_loop (c # s) n = (if c \<noteq> 0 then strlen_loop s (n + 1) else Some n)"

definition u_strlen :: "int list \<Rightarrow> nat option" where
  "u_strlen s = strlen_loop s 0"

section \<open>Searching forwards\<close>

definition isMatchAtCPBoundary :: "int list \<Rightarrow> nat \<Rightarrow> nat \<Rightarrow> nat option \<Rightarrow> bool option" where
  "isMatchAtCPBoundary s match' matchLimit limit = do {
     m \<leftarrow> unit_at s match';
     split1 \<leftarrow> (if is_trail m \<and> match' \<noteq> 0 then map_option is_lead (unit_at s (match' - 1)) else Some False);
     if split1 then Some False
     else do {
       l \<leftarrow> unit_at s (matchLimit - 1);
       split2 \<leftarrow> (if is_lead l \<and> limit \<noteq> Some match' then map_option is_trail (unit_at s matchLimit) else Some False);
       Some (\<not> split2)
     }
   }"

text \<open>
  The comparison behind the first unit. \<open>s_nul\<close> and \<open>sub_nul\<close> say which strings end with a zero; \<open>Ended\<close> is the
  end of \<open>s\<close> before the end of \<open>sub\<close>.
\<close>

datatype tail_match = Matched nat | Mismatch | Ended

function match_tail :: "int list \<Rightarrow> bool \<Rightarrow> int list \<Rightarrow> bool \<Rightarrow> nat \<Rightarrow> nat \<Rightarrow> nat \<Rightarrow> tail_match option" where
  "match_tail s s_nul sub sub_nul subLimit p q = do {
     done \<leftarrow> (if sub_nul then map_option (\<lambda>cq. cq = 0) (unit_at sub q) else Some (q = subLimit));
     if done then Some (Matched p)
     else do {
       c \<leftarrow> unit_at s p;
       if s_nul \<and> c = 0 then Some Ended
       else do {
         cq \<leftarrow> unit_at sub q;
         if c \<noteq> cq then Some Mismatch else match_tail s s_nul sub sub_nul subLimit (p + 1) (q + 1)
       }
     }
   }"
  by auto
termination
  by (relation "measure (\<lambda>(s, a, sub, b, l, p, q). length sub - q)") (auto simp: unit_at_def split: if_splits)

declare match_tail.simps [simp del]

text \<open>The search for the first unit \<open>cs\<close>; a string with a length is searched up to \<^verbatim>\<open>preLimit\<close>.\<close>

function find_loop :: "int list \<Rightarrow> bool \<Rightarrow> nat \<Rightarrow> nat option \<Rightarrow> int list \<Rightarrow> bool \<Rightarrow> nat \<Rightarrow> int \<Rightarrow> nat \<Rightarrow> nat option option" where
  "find_loop s s_nul preLimit limit sub sub_nul subLimit cs i = do {
     go \<leftarrow> (if s_nul then map_option (\<lambda>c. c \<noteq> 0) (unit_at s i) else Some (i \<noteq> preLimit));
     if \<not> go then Some None
     else do {
       c \<leftarrow> unit_at s i;
       if c = cs then do {
         t \<leftarrow> match_tail s s_nul sub sub_nul subLimit (i + 1) 1;
         case t of
           Ended \<Rightarrow> Some None
         | Mismatch \<Rightarrow> find_loop s s_nul preLimit limit sub sub_nul subLimit cs (i + 1)
         | Matched p \<Rightarrow> do {
             ok \<leftarrow> isMatchAtCPBoundary s i p limit;
             if ok then Some (Some i) else find_loop s s_nul preLimit limit sub sub_nul subLimit cs (i + 1)
           }
       } else find_loop s s_nul preLimit limit sub sub_nul subLimit cs (i + 1)
     }
   }"
  by auto
termination
  by (relation "measure (\<lambda>(s, a, pl, l, sub, b, sl, cs, i). length s - i)") (auto simp: unit_at_def split: if_splits)

declare find_loop.simps [simp del]

text \<open>The trivial searches of \<^verbatim>\<open>u_strchr\<close> and \<^verbatim>\<open>u_memchr\<close>.\<close>

fun strchr_loop :: "int list \<Rightarrow> int \<Rightarrow> nat \<Rightarrow> nat option option" where
  "strchr_loop [] c i = None"
| "strchr_loop (cs # s) c i = (if cs = c then Some (Some i) else if cs = 0 then Some None else strchr_loop s c (i + 1))"

fun memchr_loop :: "int list \<Rightarrow> int \<Rightarrow> nat \<Rightarrow> nat \<Rightarrow> nat option option" where
  "memchr_loop s c i 0 = Some None"
| "memchr_loop [] c i (Suc n) = None"
| "memchr_loop (cs # s) c i (Suc n) = (if cs = c then Some (Some i) else memchr_loop s c (i + 1) n)"

definition u_strFindFirst :: "int list option \<Rightarrow> int \<Rightarrow> int list option \<Rightarrow> int \<Rightarrow> nat option option" where
  "u_strFindFirst s' len sub' subLength =
     (case sub' of
        None \<Rightarrow> Some (map_option (\<lambda>_. 0) s')
      | Some sub \<Rightarrow>
          if subLength < -1 then Some (map_option (\<lambda>_. 0) s')
          else
            (case s' of
               None \<Rightarrow> Some None
             | Some s \<Rightarrow>
                 if len < -1 then Some None
                 else if len < 0 \<and> subLength < 0 then do {
                   cs \<leftarrow> unit_at sub 0;
                   if cs = 0 then Some (Some 0)
                   else do {
                     c1 \<leftarrow> unit_at sub 1;
                     if c1 = 0 \<and> \<not> is_surrogate cs then strchr_loop s cs 0
                     else find_loop s True 0 None sub True 0 cs 0
                   }
                 }
                 else do {
                   n \<leftarrow> (if subLength < 0 then u_strlen sub else Some (nat subLength));
                   if n = 0 then Some (Some 0)
                   else do {
                     cs \<leftarrow> unit_at sub 0;
                     if n = 1 \<and> \<not> is_surrogate cs then
                       (if len < 0 then strchr_loop s cs 0 else memchr_loop s cs 0 (nat len))
                     else if len < 0 then find_loop s True 0 None sub False n cs 0
                     else if len \<le> int (n - 1) then Some None
                     else find_loop s False (nat len - (n - 1)) (Some (nat len)) sub False n cs 0
                   }
                 }))"

definition u_strstr :: "int list option \<Rightarrow> int list option \<Rightarrow> nat option option" where
  "u_strstr s substring = u_strFindFirst s (-1) substring (-1)"

definition u_strchr :: "int list \<Rightarrow> int \<Rightarrow> nat option option" where
  "u_strchr s c = (if is_surrogate c then u_strFindFirst (Some s) (-1) (Some [c]) 1 else strchr_loop s c 0)"

definition u_memchr :: "int list \<Rightarrow> int \<Rightarrow> int \<Rightarrow> nat option option" where
  "u_memchr s c n =
     (if n \<le> 0 then Some None
      else if is_surrogate c then u_strFindFirst (Some s) n (Some [c]) 1
      else memchr_loop s c 0 (nat n))"

fun pair_loop :: "int list \<Rightarrow> int \<Rightarrow> int \<Rightarrow> nat \<Rightarrow> nat option option" where
  "pair_loop [] lead trail i = None"
| "pair_loop (cs # s) lead trail i =
     (if cs = 0 then Some None
      else if cs = lead then do {
        t \<leftarrow> unit_at s 0;
        if t = trail then Some (Some i) else pair_loop s lead trail (i + 1)
      } else pair_loop s lead trail (i + 1))"

definition u_strchr32 :: "int list \<Rightarrow> int \<Rightarrow> nat option option" where
  "u_strchr32 s c =
     (if 0 \<le> c \<and> c \<le> 0xffff then u_strchr s c
      else if 0 \<le> c \<and> c \<le> 0x10ffff then pair_loop s (U16_LEAD c) (U16_TRAIL c) 0
      else Some None)"

text \<open>With a length the last index that is tried is that of the last unit but one.\<close>

fun mem_pair_loop :: "int list \<Rightarrow> int \<Rightarrow> int \<Rightarrow> nat \<Rightarrow> nat \<Rightarrow> nat option option" where
  "mem_pair_loop s lead trail i 0 = Some None"
| "mem_pair_loop s lead trail i (Suc n) = do {
     a \<leftarrow> unit_at s i;
     found \<leftarrow> (if a = lead then map_option (\<lambda>b. b = trail) (unit_at s (i + 1)) else Some False);
     if found then Some (Some i) else mem_pair_loop s lead trail (i + 1) n
   }"

definition u_memchr32 :: "int list \<Rightarrow> int \<Rightarrow> int \<Rightarrow> nat option option" where
  "u_memchr32 s c n =
     (if 0 \<le> c \<and> c \<le> 0xffff then u_memchr s c n
      else if n < 2 then Some None
      else if 0 \<le> c \<and> c \<le> 0x10ffff then mem_pair_loop s (U16_LEAD c) (U16_TRAIL c) 0 (nat (n - 1))
      else Some None)"

section \<open>Searching backwards\<close>

text \<open>\<open>p\<close> and \<open>q\<close> are the indices behind the units to compare next.\<close>

fun match_head :: "int list \<Rightarrow> int list \<Rightarrow> nat \<Rightarrow> nat \<Rightarrow> nat option option" where
  "match_head s sub p 0 = Some (Some p)"
| "match_head s sub p (Suc q) =
     (if p = 0 then None
      else do {
        c \<leftarrow> unit_at s (p - 1);
        cq \<leftarrow> unit_at sub q;
        if c \<noteq> cq then Some None else match_head s sub (p - 1) q
      })"

text \<open>\<open>k\<close> is the number of positions left above \<^verbatim>\<open>s\<close>, which is \<open>n\<close> units behind the start.\<close>

fun find_last_loop :: "int list \<Rightarrow> nat \<Rightarrow> int list \<Rightarrow> nat \<Rightarrow> int \<Rightarrow> nat \<Rightarrow> nat option option" where
  "find_last_loop s len sub n cs 0 = Some None"
| "find_last_loop s len sub n cs (Suc k) = do {
     c \<leftarrow> unit_at s (n + k);
     if c = cs then do {
       t \<leftarrow> match_head s sub (n + k) n;
       case t of
         None \<Rightarrow> find_last_loop s len sub n cs k
       | Some p \<Rightarrow> do {
           ok \<leftarrow> isMatchAtCPBoundary s p (n + k + 1) (Some len);
           if ok then Some (Some p) else find_last_loop s len sub n cs k
         }
     } else find_last_loop s len sub n cs k
   }"

fun strrchr_loop :: "int list \<Rightarrow> int \<Rightarrow> nat \<Rightarrow> nat option \<Rightarrow> nat option option" where
  "strrchr_loop [] c i result = None"
| "strrchr_loop (cs # s) c i result =
     (let result' = (if cs = c then Some i else result) in
      if cs = 0 then Some result' else strrchr_loop s c (i + 1) result')"

fun memrchr_loop :: "int list \<Rightarrow> int \<Rightarrow> nat \<Rightarrow> nat option option" where
  "memrchr_loop s c 0 = Some None"
| "memrchr_loop s c (Suc n) = do { a \<leftarrow> unit_at s n; if a = c then Some (Some n) else memrchr_loop s c n }"

definition u_strFindLast :: "int list option \<Rightarrow> int \<Rightarrow> int list option \<Rightarrow> int \<Rightarrow> nat option option" where
  "u_strFindLast s' len sub' subLength =
     (case sub' of
        None \<Rightarrow> Some (map_option (\<lambda>_. 0) s')
      | Some sub \<Rightarrow>
          if subLength < -1 then Some (map_option (\<lambda>_. 0) s')
          else
            (case s' of
               None \<Rightarrow> Some None
             | Some s \<Rightarrow>
                 if len < -1 then Some None
                 else do {
                   n \<leftarrow> (if subLength < 0 then u_strlen sub else Some (nat subLength));
                   if n = 0 then Some (Some 0)
                   else do {
                     cs \<leftarrow> unit_at sub (n - 1);
                     if n = 1 \<and> \<not> is_surrogate cs then
                       (if len < 0 then strrchr_loop s cs 0 None else memrchr_loop s cs (nat len))
                     else do {
                       l \<leftarrow> (if len < 0 then u_strlen s else Some (nat len));
                       if l \<le> n - 1 then Some None
                       else find_last_loop s l sub (n - 1) cs (l - (n - 1))
                     }
                   }
                 }))"

definition u_strrstr :: "int list option \<Rightarrow> int list option \<Rightarrow> nat option option" where
  "u_strrstr s substring = u_strFindLast s (-1) substring (-1)"

definition u_strrchr :: "int list \<Rightarrow> int \<Rightarrow> nat option option" where
  "u_strrchr s c = (if is_surrogate c then u_strFindLast (Some s) (-1) (Some [c]) 1 else strrchr_loop s c 0 None)"

definition u_memrchr :: "int list \<Rightarrow> int \<Rightarrow> int \<Rightarrow> nat option option" where
  "u_memrchr s c n =
     (if n \<le> 0 then Some None
      else if is_surrogate c then u_strFindLast (Some s) n (Some [c]) 1
      else memrchr_loop s c (nat n))"

fun last_pair_loop :: "int list \<Rightarrow> int \<Rightarrow> int \<Rightarrow> nat \<Rightarrow> nat option \<Rightarrow> nat option option" where
  "last_pair_loop [] lead trail i result = None"
| "last_pair_loop (cs # s) lead trail i result =
     (if cs = 0 then Some result
      else if cs = lead then do {
        t \<leftarrow> unit_at s 0;
        last_pair_loop s lead trail (i + 1) (if t = trail then Some i else result)
      } else last_pair_loop s lead trail (i + 1) result)"

definition u_strrchr32 :: "int list \<Rightarrow> int \<Rightarrow> nat option option" where
  "u_strrchr32 s c =
     (if 0 \<le> c \<and> c \<le> 0xffff then u_strrchr s c
      else if 0 \<le> c \<and> c \<le> 0x10ffff then last_pair_loop s (U16_LEAD c) (U16_TRAIL c) 0 None
      else Some None)"

fun mem_last_pair_loop :: "int list \<Rightarrow> int \<Rightarrow> int \<Rightarrow> nat \<Rightarrow> nat option option" where
  "mem_last_pair_loop s lead trail 0 = Some None"
| "mem_last_pair_loop s lead trail (Suc k) = do {
     b \<leftarrow> unit_at s (k + 1);
     found \<leftarrow> (if b = trail then map_option (\<lambda>a. a = lead) (unit_at s k) else Some False);
     if found then Some (Some k) else mem_last_pair_loop s lead trail k
   }"

definition u_memrchr32 :: "int list \<Rightarrow> int \<Rightarrow> int \<Rightarrow> nat option option" where
  "u_memrchr32 s c n =
     (if 0 \<le> c \<and> c \<le> 0xffff then u_memrchr s c n
      else if n < 2 then Some None
      else if 0 \<le> c \<and> c \<le> 0x10ffff then mem_last_pair_loop s (U16_LEAD c) (U16_TRAIL c) (nat (n - 1))
      else Some None)"

section \<open>Comparing\<close>

text \<open>
  The common prefix: the index of the first difference, or the result if there is none. \<open>limit1\<close> is the limit that is
  checked; with \<open>nul\<close> a zero in both strings ends the comparison.
\<close>

function prefix_loop :: "int list \<Rightarrow> int list \<Rightarrow> bool \<Rightarrow> nat option \<Rightarrow> int \<Rightarrow> nat \<Rightarrow> (int + nat) option" where
  "prefix_loop s1 s2 nul limit1 lengthResult i =
     (if limit1 = Some i then Some (Inl lengthResult)
      else do {
        c1 \<leftarrow> unit_at s1 i;
        c2 \<leftarrow> unit_at s2 i;
        if c1 \<noteq> c2 then Some (Inr i)
        else if nul \<and> c1 = 0 then Some (Inl 0)
        else prefix_loop s1 s2 nul limit1 lengthResult (i + 1)
      })"
  by auto
termination
  by (relation "measure (\<lambda>(s1, s2, a, l, r, i). length s1 - i)") (auto simp: unit_at_def split: if_splits)

declare prefix_loop.simps [simp del]

text \<open>The unit \<open>c\<close> at index \<open>i\<close>, made smaller than the surrogates unless it is part of a pair.\<close>

definition fix_up :: "int list \<Rightarrow> nat option \<Rightarrow> nat \<Rightarrow> int \<Rightarrow> int option" where
  "fix_up s limit i c = do {
     leads \<leftarrow> (if c \<le> 0xdbff \<and> limit \<noteq> Some (i + 1) then map_option is_trail (unit_at s (i + 1)) else Some False);
     pair \<leftarrow> (if leads then Some True
              else if is_trail c \<and> i \<noteq> 0 then map_option is_lead (unit_at s (i - 1)) else Some False);
     Some (if pair then c else c - 0x2800)
   }"

definition compare_at :: "int list \<Rightarrow> nat option \<Rightarrow> int list \<Rightarrow> nat option \<Rightarrow> bool \<Rightarrow> nat \<Rightarrow> int option" where
  "compare_at s1 limit1 s2 limit2 codePointOrder i = do {
     c1 \<leftarrow> unit_at s1 i;
     c2 \<leftarrow> unit_at s2 i;
     if c1 \<ge> 0xd800 \<and> c2 \<ge> 0xd800 \<and> codePointOrder then do {
       c1' \<leftarrow> fix_up s1 limit1 i c1;
       c2' \<leftarrow> fix_up s2 limit2 i c2;
       Some (c1' - c2')
     } else Some (c1 - c2)
   }"

text \<open>
  \<open>same\<close> is \<^verbatim>\<open>s1==s2\<close>, a comparison of pointers, which may hold only for equal blocks.
\<close>

definition uprv_strCompare :: "int list \<Rightarrow> int \<Rightarrow> int list \<Rightarrow> int \<Rightarrow> bool \<Rightarrow> bool \<Rightarrow> bool \<Rightarrow> int option" where
  "uprv_strCompare s1 length1 s2 length2 same strncmpStyle codePointOrder =
     (if length1 < 0 \<and> length2 < 0 then
        (if same then Some 0
         else do {
           r \<leftarrow> prefix_loop s1 s2 True None 0 0;
           case r of Inl x \<Rightarrow> Some x | Inr i \<Rightarrow> compare_at s1 None s2 None codePointOrder i
         })
      else if strncmpStyle then
        (if same then Some 0
         else do {
           r \<leftarrow> prefix_loop s1 s2 True (Some (nat length1)) 0 0;
           case r of Inl x \<Rightarrow> Some x | Inr i \<Rightarrow> compare_at s1 (Some (nat length1)) s2 (Some (nat length1)) codePointOrder i
         })
      else do {
        n1 \<leftarrow> (if length1 < 0 then u_strlen s1 else Some (nat length1));
        n2 \<leftarrow> (if length2 < 0 then u_strlen s2 else Some (nat length2));
        let lengthResult = (if n1 < n2 then -1 else if n1 = n2 then 0 else 1);
        if same then Some lengthResult
        else do {
          r \<leftarrow> prefix_loop s1 s2 False (Some (min n1 n2)) lengthResult 0;
          case r of Inl x \<Rightarrow> Some x | Inr i \<Rightarrow> compare_at s1 (Some n1) s2 (Some n2) codePointOrder i
        }
      })"

definition u_strCompare :: "int list option \<Rightarrow> int \<Rightarrow> int list option \<Rightarrow> int \<Rightarrow> bool \<Rightarrow> bool \<Rightarrow> int option" where
  "u_strCompare s1 length1 s2 length2 same codePointOrder =
     (case (s1, s2) of
        (Some b1, Some b2) \<Rightarrow>
          if length1 < -1 \<or> length2 < -1 then Some 0 else uprv_strCompare b1 length1 b2 length2 same False codePointOrder
      | _ \<Rightarrow> Some 0)"

definition u_strcmpCodePointOrder :: "int list \<Rightarrow> int list \<Rightarrow> bool \<Rightarrow> int option" where
  "u_strcmpCodePointOrder s1 s2 same = uprv_strCompare s1 (-1) s2 (-1) same False True"

definition u_strncmpCodePointOrder :: "int list \<Rightarrow> int list \<Rightarrow> bool \<Rightarrow> int \<Rightarrow> int option" where
  "u_strncmpCodePointOrder s1 s2 same n = uprv_strCompare s1 n s2 n same True True"

definition u_memcmpCodePointOrder :: "int list \<Rightarrow> int list \<Rightarrow> bool \<Rightarrow> int \<Rightarrow> int option" where
  "u_memcmpCodePointOrder s1 s2 same n = uprv_strCompare s1 n s2 n same False True"

fun u_strcmp :: "int list \<Rightarrow> int list \<Rightarrow> int option" where
  "u_strcmp (c1 # s1) (c2 # s2) = (if c1 \<noteq> c2 \<or> c1 = 0 then Some (c1 - c2) else u_strcmp s1 s2)"
| "u_strcmp s1 s2 = None"

fun strncmp_loop :: "int list \<Rightarrow> int list \<Rightarrow> nat \<Rightarrow> int option" where
  "strncmp_loop (c1 # s1) (c2 # s2) n =
     (let rc = c1 - c2 in if rc \<noteq> 0 \<or> c1 = 0 \<or> n - 1 = 0 then Some rc else strncmp_loop s1 s2 (n - 1))"
| "strncmp_loop s1 s2 n = None"

definition u_strncmp :: "int list \<Rightarrow> int list \<Rightarrow> int \<Rightarrow> int option" where
  "u_strncmp s1 s2 n = (if n > 0 then strncmp_loop s1 s2 (nat n) else Some 0)"

fun memcmp_loop :: "int list \<Rightarrow> int list \<Rightarrow> nat \<Rightarrow> int option" where
  "memcmp_loop b1 b2 0 = Some 0"
| "memcmp_loop (c1 # b1) (c2 # b2) (Suc n) = (if c1 - c2 \<noteq> 0 then Some (c1 - c2) else memcmp_loop b1 b2 n)"
| "memcmp_loop b1 b2 (Suc n) = None"

definition u_memcmp :: "int list \<Rightarrow> int list \<Rightarrow> int \<Rightarrow> int option" where
  "u_memcmp b1 b2 n = (if n > 0 then memcmp_loop b1 b2 (nat n) else Some 0)"

section \<open>Counting code points\<close>

fun count_length :: "int list \<Rightarrow> nat \<Rightarrow> nat option" where
  "count_length s 0 = Some 0"
| "count_length [] (Suc n) = None"
| "count_length (c # s) (Suc n) = do {
     pair \<leftarrow> (if is_lead c \<and> n \<ge> 1 then map_option is_trail (unit_at s 0) else Some False);
     map_option Suc (if pair then count_length (tl s) (n - 1) else count_length s n)
   }"

function count_terminated :: "int list \<Rightarrow> nat option" where
  "count_terminated s = do {
     c \<leftarrow> unit_at s 0;
     if c = 0 then Some 0
     else do {
       pair \<leftarrow> (if is_lead c then map_option is_trail (unit_at s 1) else Some False);
       map_option Suc (count_terminated (drop (if pair then 2 else 1) s))
     }
   }"
  by auto
termination by (relation "measure length") (auto simp: unit_at_def split: if_splits)

declare count_terminated.simps [simp del]

definition u_countChar32 :: "int list option \<Rightarrow> int \<Rightarrow> nat option" where
  "u_countChar32 s' len =
     (case s' of
        None \<Rightarrow> Some 0
      | Some s \<Rightarrow> if len < -1 then Some 0 else if len \<ge> 0 then count_length s (nat len) else count_terminated s)"

function more_terminated :: "int list \<Rightarrow> nat \<Rightarrow> bool option" where
  "more_terminated s number = do {
     c \<leftarrow> unit_at s 0;
     if c = 0 then Some False
     else if number = 0 then Some True
     else do {
       pair \<leftarrow> (if is_lead c then map_option is_trail (unit_at s 1) else Some False);
       more_terminated (drop (if pair then 2 else 1) s) (number - 1)
     }
   }"
  by auto
termination by (relation "measure (\<lambda>(s, n). length s)") (auto simp: unit_at_def split: if_splits)

declare more_terminated.simps [simp del]

text \<open>\<open>n\<close> units are left up to the limit.\<close>

fun more_length :: "int list \<Rightarrow> nat \<Rightarrow> nat \<Rightarrow> int \<Rightarrow> bool option" where
  "more_length s 0 number maxSupplementary = Some False"
| "more_length s (Suc n) number maxSupplementary =
     (if number = 0 then Some True
      else do {
        c \<leftarrow> unit_at s 0;
        pair \<leftarrow> (if is_lead c \<and> n \<noteq> 0 then map_option is_trail (unit_at s 1) else Some False);
        if pair then
          (if maxSupplementary - 1 \<le> 0 then Some False
           else more_length (drop 2 s) (n - 1) (number - 1) (maxSupplementary - 1))
        else more_length (drop 1 s) n (number - 1) maxSupplementary
      })"

definition u_strHasMoreChar32Than :: "int list option \<Rightarrow> int \<Rightarrow> int \<Rightarrow> bool option" where
  "u_strHasMoreChar32Than s' len number =
     (if number < 0 then Some True
      else
        (case s' of
           None \<Rightarrow> Some False
         | Some s \<Rightarrow>
             if len < -1 then Some False
             else if len = -1 then more_terminated s (nat number)
             else if (len + 1) div 2 > number then Some True
             else if len - number \<le> 0 then Some False
             else more_length s (nat len) (nat number) (len - number)))"

end
