(* ===== verification/UStringProofs.thy ===== *)
theory UStringProofs
  imports UString
begin

text \<open>
  The searches of \<^verbatim>\<open>common/ustring.cpp\<close> against the matches of a list in a list at code point boundaries.
\<close>

section \<open>Texts and matches\<close>

definition has_text :: "int list \<Rightarrow> int \<Rightarrow> int list \<Rightarrow> bool" where
  "has_text s len w \<longleftrightarrow>
     (if len = -1 then 0 \<notin> set w \<and> (\<exists>rest. s = w @ 0 # rest) else 0 \<le> len \<and> nat len \<le> length s \<and> w = take (nat len) s)"

text \<open>No surrogate pair is split at index \<open>i\<close>.\<close>

definition boundary :: "int list \<Rightarrow> nat \<Rightarrow> bool" where
  "boundary w i \<longleftrightarrow> \<not> (0 < i \<and> i < length w \<and> is_lead (w ! (i - 1)) \<and> is_trail (w ! i))"

definition matches :: "int list \<Rightarrow> int list \<Rightarrow> nat \<Rightarrow> bool" where
  "matches w v i \<longleftrightarrow> i + length v \<le> length w \<and> take (length v) (drop i w) = v \<and> boundary w i \<and> boundary w (i + length v)"

definition first_match :: "int list \<Rightarrow> int list \<Rightarrow> nat option" where
  "first_match w v = List.find (matches w v) [0..<Suc (length w)]"

definition last_match :: "int list \<Rightarrow> int list \<Rightarrow> nat option" where
  "last_match w v = List.find (matches w v) (rev [0..<Suc (length w)])"

lemma find_upt_step: "i < n \<Longrightarrow> List.find P [i..<n] = (if P i then Some i else List.find P [Suc i..<n])"
  by (simp add: upt_conv_Cons)

lemma find_upt_none: "(\<And>j. i \<le> j \<Longrightarrow> j < n \<Longrightarrow> \<not> P j) \<Longrightarrow> List.find P [i..<n] = None"
  by (simp add: find_None_iff)

lemma find_rev_upt_none: "(\<And>j. i \<le> j \<Longrightarrow> j < n \<Longrightarrow> \<not> P j) \<Longrightarrow> List.find P (rev [i..<n]) = None"
  by (simp add: find_None_iff)

lemma has_text_nth: "has_text s len w \<Longrightarrow> i < length w \<Longrightarrow> unit_at s i = Some (w ! i)"
  by (auto simp: has_text_def unit_at_def nth_append split: if_splits)

lemma has_text_end: "has_text s (-1) w \<Longrightarrow> unit_at s (length w) = Some 0"
  by (auto simp: has_text_def unit_at_def)

lemma has_text_nonzero: "has_text s (-1) w \<Longrightarrow> i < length w \<Longrightarrow> w ! i \<noteq> 0"
  using nth_mem by (fastforce simp: has_text_def)

lemma strlen_loop_length: "0 \<notin> set w \<Longrightarrow> strlen_loop (w @ 0 # rest) n = Some (n + length w)"
  by (induction w arbitrary: n) auto

lemma u_strlen_length: "has_text s (-1) w \<Longrightarrow> u_strlen s = Some (length w)"
  using strlen_loop_length [of w _ 0] by (auto simp: has_text_def u_strlen_def)

lemma has_text_length: "has_text s len w \<Longrightarrow> len \<noteq> -1 \<Longrightarrow> 0 \<le> len \<and> length w = nat len"
  by (auto simp: has_text_def)

lemma matches_single: "\<not> is_surrogate c \<Longrightarrow> matches w [c] i \<longleftrightarrow> i < length w \<and> w ! i = c"
proof (cases "i < length w")
  case True
  assume "\<not> is_surrogate c"
  then have "\<not> is_lead c" "\<not> is_trail c" by (auto simp: is_surrogate_def is_lead_def is_trail_def)
  moreover have "take (length [c]) (drop i w) = [w ! i]" using Cons_nth_drop_Suc [OF True, symmetric] by simp
  ultimately show ?thesis using True by (auto simp: matches_def boundary_def)
qed (simp add: matches_def)

lemma matches_nth: "matches w v i \<Longrightarrow> k < length v \<Longrightarrow> w ! (i + k) = v ! k"
  by (metis matches_def nth_take nth_drop add_leD1)

section \<open>Searching forwards\<close>

text \<open>
  The searched string: with a length, the unit behind it is read when the other string ends with a lead surrogate.
\<close>

definition end_readable :: "int list \<Rightarrow> int \<Rightarrow> int list \<Rightarrow> int list \<Rightarrow> bool" where
  "end_readable s len w v \<longleftrightarrow> (len \<noteq> -1 \<and> v \<noteq> [] \<and> is_lead (last v) \<longrightarrow> (\<exists>u. unit_at s (length w) = Some u \<and> \<not> is_trail u))"

lemma isMatch_boundary:
  assumes "has_text s len w" "end_readable s len w v" "v \<noteq> []" "i + length v \<le> length w" "take (length v) (drop i w) = v"
    "limit = (if len = -1 then None else Some (length w))"
  shows "isMatchAtCPBoundary s i (i + length v) limit = Some (boundary w i \<and> boundary w (i + length v))"
proof -
  let ?p = "i + length v"
  have l0: "0 < length v" using assms(3) by simp
  then have l: "0 < length v" "i < length w" using assms(4) by linarith+
  have u: "unit_at s i = Some (w ! i)" "0 < i \<Longrightarrow> unit_at s (i - 1) = Some (w ! (i - 1))" "unit_at s (?p - 1) = Some (w ! (?p - 1))"
    using has_text_nth [OF assms(1)] l assms(4) by auto
  have lst: "w ! (?p - 1) = last v"
  proof -
    have "v ! (length v - 1) = w ! (i + (length v - 1))" using assms(4,5) l by (metis nth_take nth_drop diff_less zero_less_one add_leD1 less_imp_le_nat)
    then show ?thesis using l by (simp add: last_conv_nth assms(3))
  qed
  have first: "is_trail (w ! i) \<and> i \<noteq> 0 \<and> is_lead (w ! (i - 1)) \<longleftrightarrow> \<not> boundary w i" using l by (auto simp: boundary_def)
  have lim: "limit \<noteq> Some i" using assms(6) l by auto
  have second: "is_lead (last v) \<Longrightarrow> \<exists>x. unit_at s ?p = Some x \<and> is_trail x = (\<not> boundary w ?p)"
  proof (cases "?p < length w")
    case True
    then show "is_lead (last v) \<Longrightarrow> ?thesis" using has_text_nth [OF assms(1) True] lst l by (auto simp: boundary_def)
  next
    case False
    then have p: "?p = length w" using assms(4) by simp
    then have b: "boundary w ?p" by (simp add: boundary_def)
    assume "is_lead (last v)"
    then show ?thesis using b p has_text_end [of s w] assms(1-3) by (cases "len = -1") (auto simp: end_readable_def is_trail_def)
  qed
  have nb: "\<not> is_lead (last v) \<Longrightarrow> boundary w ?p" using lst by (auto simp: boundary_def)
  show ?thesis
  proof (cases "is_trail (w ! i) \<and> i \<noteq> 0 \<and> is_lead (w ! (i - 1))")
    case True
    then show ?thesis using u(1,2) first by (simp add: isMatchAtCPBoundary_def)
  next
    case False
    then have b: "boundary w i" using first by blast
    have s1: "(if is_trail (w ! i) \<and> i \<noteq> 0 then map_option is_lead (unit_at s (i - 1)) else Some False) = Some False" using False u(2) by auto
    show ?thesis
    proof (cases "is_lead (last v)")
      case True
      then obtain x where "unit_at s ?p = Some x" "is_trail x = (\<not> boundary w ?p)" using second by blast
      then show ?thesis using u(1,3) s1 b lim lst True unfolding isMatchAtCPBoundary_def by simp
    next
      case nl: False
      then show ?thesis using u(1,3) s1 b lim lst nb unfolding isMatchAtCPBoundary_def by simp
    qed
  qed
qed

lemma match_tail_compares:
  assumes "has_text s len w" "has_text sub sublen v" "q \<le> length v" "p \<le> length w" "len \<noteq> -1 \<longrightarrow> p + (length v - q) \<le> length w"
    "sublen \<noteq> -1 \<longrightarrow> n = length v"
  shows "\<exists>t. match_tail s (len = -1) sub (sublen = -1) n p q = Some t \<and>
    (case t of
       Matched p' \<Rightarrow> p' = p + (length v - q) \<and> take (length v - q) (drop p w) = drop q v \<and> p' \<le> length w
     | Mismatch \<Rightarrow> take (length v - q) (drop p w) \<noteq> drop q v
     | Ended \<Rightarrow> length w - p < length v - q)"
  using assms(3-5)
proof (induction "length v - q" arbitrary: p q)
  case 0
  then have q: "q = length v" by simp
  have "(if sublen = -1 then map_option (\<lambda>cq. cq = 0) (unit_at sub q) else Some (q = n)) = Some True"
    using q assms(2,6) has_text_end [of sub v] by auto
  then have "match_tail s (len = -1) sub (sublen = -1) n p q = Some (Matched p)" by (subst match_tail.simps) simp
  then show ?case using q 0 by simp
next
  case (Suc k)
  then have q: "q < length v" by simp
  have cq: "unit_at sub q = Some (v ! q)" using has_text_nth [OF assms(2) q] .
  have nd: "(if sublen = -1 then map_option (\<lambda>cq. cq = 0) (unit_at sub q) else Some (q = n)) = Some False"
    using q cq assms(2,6) has_text_nonzero [of sub v q] by auto
  have dv: "drop q v = v ! q # drop (Suc q) v" using q by (simp add: Cons_nth_drop_Suc)
  show ?case
  proof (cases "p < length w")
    case False
    then have p: "p = length w" "len = -1" using Suc by auto
    then have "match_tail s (len = -1) sub (sublen = -1) n p q = Some Ended" using nd has_text_end [of s w] assms(1) by (subst match_tail.simps) simp
    then show ?thesis using q p by simp
  next
    case True
    have c: "unit_at s p = Some (w ! p)" using has_text_nth [OF assms(1) True] .
    have nz: "\<not> (len = -1 \<and> w ! p = 0)" using has_text_nonzero [of s w p] True assms(1) by auto
    have dw: "drop p w = w ! p # drop (Suc p) w" using True by (simp add: Cons_nth_drop_Suc)
    have tk: "take (length v - q) (drop p w) = w ! p # take (length v - Suc q) (drop (Suc p) w)" unfolding dw using q by (metis Suc_diff_Suc take_Suc_Cons)
    show ?thesis
    proof (cases "w ! p = v ! q")
      case False
      then have "match_tail s (len = -1) sub (sublen = -1) n p q = Some Mismatch" using nd c cq nz by (subst match_tail.simps) auto
      then show ?thesis using False tk dv by simp
    next
      case eq: True
      have e: "match_tail s (len = -1) sub (sublen = -1) n p q = match_tail s (len = -1) sub (sublen = -1) n (p + 1) (q + 1)"
        using nd c cq nz eq by (subst match_tail.simps) auto
      have "k = length v - (q + 1)" "q + 1 \<le> length v" "p + 1 \<le> length w" "len \<noteq> -1 \<longrightarrow> p + 1 + (length v - (q + 1)) \<le> length w"
        using Suc.hyps(2) q True Suc.prems(3) by auto
      from Suc.hyps(1) [OF this] obtain t where t: "match_tail s (len = -1) sub (sublen = -1) n (p + 1) (q + 1) = Some t"
        "case t of Matched p' \<Rightarrow> p' = p + 1 + (length v - (q + 1)) \<and> take (length v - (q + 1)) (drop (p + 1) w) = drop (q + 1) v \<and> p' \<le> length w
         | Mismatch \<Rightarrow> take (length v - (q + 1)) (drop (p + 1) w) \<noteq> drop (q + 1) v
         | Ended \<Rightarrow> length w - (p + 1) < length v - (q + 1)" by blast
      then show ?thesis unfolding e using tk dv eq q True by (auto split: tail_match.splits)
    qed
  qed
qed

lemma find_loop_finds:
  assumes "has_text s len w" "has_text sub sublen v" "v \<noteq> []" "end_readable s len w v" "sublen \<noteq> -1 \<longrightarrow> n = length v"
    "limit = (if len = -1 then None else Some (length w))" "len \<noteq> -1 \<longrightarrow> length v \<le> length w \<and> pre = length w - (length v - 1)"
    "i \<le> length w" "len \<noteq> -1 \<longrightarrow> i \<le> pre"
  shows "find_loop s (len = -1) pre limit sub (sublen = -1) n (v ! 0) i = Some (List.find (matches w v) [i..<Suc (length w)])"
  using assms(8,9)
proof (induction "length w - i" arbitrary: i rule: less_induct)
  case less
  have lv: "0 < length v" using assms(3) by simp
  have none: "List.find (matches w v) [i..<Suc (length w)] = None" if "length w < i + length v"
    using that by (intro find_upt_none) (auto simp: matches_def)
  show ?case
  proof (cases "i = length w \<or> (len \<noteq> -1 \<and> i = pre)")
    case True
    then have "(if len = -1 then map_option (\<lambda>c. c \<noteq> 0) (unit_at s i) else Some (i \<noteq> pre)) = Some False \<and> length w < i + length v"
    proof (cases "len = -1")
      case True
      then show ?thesis using \<open>i = length w \<or> _\<close> has_text_end [of s w] assms(1) lv by auto
    next
      case False
      then have pre: "pre = length w - (length v - 1)" "length v \<le> length w" "i \<le> pre" using assms(7) less.prems by auto
      then have "i = pre" using \<open>i = length w \<or> _\<close> by linarith
      moreover have "length w < pre + length v" using pre lv by linarith
      ultimately show ?thesis using False by simp
    qed
    then show ?thesis using none by (subst find_loop.simps) simp
  next
    case False
    then have i: "i < length w" using less.prems by simp
    have c: "unit_at s i = Some (w ! i)" using has_text_nth [OF assms(1) i] .
    have go: "(if len = -1 then map_option (\<lambda>c. c \<noteq> 0) (unit_at s i) else Some (i \<noteq> pre)) = Some True"
      using c False has_text_nonzero [of s w i] assms(1) i by auto
    note eq = find_loop.simps [of s "len = -1" pre limit sub "sublen = -1" n "v ! 0" i] go c
    have next': "find_loop s (len = -1) pre limit sub (sublen = -1) n (v ! 0) (i + 1) = Some (List.find (matches w v) [Suc i..<Suc (length w)])"
      using less.hyps [of "Suc i"] i less.prems False by auto
    have split: "List.find (matches w v) [i..<Suc (length w)] = (if matches w v i then Some i else List.find (matches w v) [Suc i..<Suc (length w)])"
      using find_upt_step [of i "Suc (length w)"] i by simp
    show ?thesis
    proof (cases "w ! i = v ! 0")
      case False
      then have "\<not> matches w v i" using matches_nth [of w v i 0] lv by auto
      then show ?thesis using eq next' split False by simp
    next
      case True
      have "\<exists>t. match_tail s (len = -1) sub (sublen = -1) n (i + 1) 1 = Some t \<and>
        (case t of Matched p' \<Rightarrow> p' = i + 1 + (length v - 1) \<and> take (length v - 1) (drop (i + 1) w) = drop 1 v \<and> p' \<le> length w
         | Mismatch \<Rightarrow> take (length v - 1) (drop (i + 1) w) \<noteq> drop 1 v
         | Ended \<Rightarrow> length w - (i + 1) < length v - 1)"
      proof (rule match_tail_compares [OF assms(1,2) _ _ _ assms(5)])
        show "1 \<le> length v" "i + 1 \<le> length w" using lv i by linarith+
        have "i < pre" if "len \<noteq> -1" using that less.prems(2) False by auto
        then show "len \<noteq> -1 \<longrightarrow> i + 1 + (length v - 1) \<le> length w" using assms(7) lv by linarith
      qed
      then obtain t where t: "match_tail s (len = -1) sub (sublen = -1) n (i + 1) 1 = Some t"
        "case t of Matched p' \<Rightarrow> p' = i + 1 + (length v - 1) \<and> take (length v - 1) (drop (i + 1) w) = drop 1 v \<and> p' \<le> length w
         | Mismatch \<Rightarrow> take (length v - 1) (drop (i + 1) w) \<noteq> drop 1 v
         | Ended \<Rightarrow> length w - (i + 1) < length v - 1" by blast
      have tk: "take (length v) (drop i w) = v \<longleftrightarrow> take (length v - 1) (drop (i + 1) w) = drop 1 v"
      proof -
        have "drop i w = v ! 0 # drop (i + 1) w" using Cons_nth_drop_Suc [OF i] True by simp
        moreover have "v = v ! 0 # drop 1 v" using Cons_nth_drop_Suc [of 0 v] lv by simp
        ultimately show ?thesis using lv by (metis Suc_diff_1 take_Suc_Cons list.inject)
      qed
      show ?thesis
      proof (cases t)
        case Ended
        then have "length w < i + length v" using t(2) i by auto
        then show ?thesis using eq True t(1) Ended none by simp
      next
        case Mismatch
        then have "\<not> matches w v i" using t(2) tk by (auto simp: matches_def)
        then show ?thesis using eq True t(1) Mismatch next' split by simp
      next
        case (Matched p')
        then have p: "p' = i + length v" "take (length v) (drop i w) = v" "i + length v \<le> length w" using t(2) tk lv by auto
        have "isMatchAtCPBoundary s i p' limit = Some (matches w v i)"
          unfolding p(1) using isMatch_boundary [OF assms(1,4,3) p(3,2) assms(6)] p by (simp add: matches_def)
        then show ?thesis using eq True t(1) Matched next' split by simp
      qed
    qed
  qed
qed

text \<open>The trivial searches.\<close>

lemma find_matches_step:
  "i < length w \<Longrightarrow> List.find (matches w v) [i..<Suc (length w)] = (if matches w v i then Some i else List.find (matches w v) [Suc i..<Suc (length w)])"
  by (rule find_upt_step) simp

lemma find_matches_end: "v \<noteq> [] \<Longrightarrow> List.find (matches w v) [length w..<Suc (length w)] = None"
  by (simp add: matches_def)

lemma strchr_loop_finds:
  assumes "has_text s (-1) w" "c \<noteq> 0" "\<not> is_surrogate c" "i \<le> length w"
  shows "strchr_loop (drop i s) c i = Some (List.find (matches w [c]) [i..<Suc (length w)])"
  using assms(4)
proof (induction "length w - i" arbitrary: i)
  case 0
  then have i: "i = length w" by simp
  then have "drop i s = 0 # drop (Suc i) s" using has_text_end [OF assms(1)] Cons_nth_drop_Suc [of i s] by (auto simp: unit_at_Some)
  then show ?case using assms(2) i find_matches_end [of "[c]" w] by simp
next
  case (Suc k)
  then have i: "i < length w" by simp
  have "drop i s = w ! i # drop (Suc i) s" using has_text_nth [OF assms(1) i] Cons_nth_drop_Suc [of i s] by (auto simp: unit_at_Some)
  then show ?case using Suc i find_matches_step [OF i] matches_single [OF assms(3), of w i] has_text_nonzero [OF assms(1) i] by simp
qed

lemma memchr_loop_finds:
  assumes "length w \<le> length s" "w = take (length w) s" "\<not> is_surrogate c" "i + n = length w"
  shows "memchr_loop (drop i s) c i n = Some (List.find (matches w [c]) [i..<Suc (length w)])"
  using assms(4)
proof (induction n arbitrary: i)
  case 0
  then show ?case using find_matches_end [of "[c]" w] by simp
next
  case (Suc n)
  then have i: "i < length w" by simp
  have "w ! i = s ! i" using i assms(2) by (metis nth_take)
  then have "drop i s = w ! i # drop (Suc i) s" using i assms(1) by (simp add: Cons_nth_drop_Suc)
  then show ?case using Suc i find_matches_step [OF i] matches_single [OF assms(3), of w i] by simp
qed

text \<open>
  The whole search. A zero is looked for only by a caller who gives it as the substring, and then found at the end of the
  string.
\<close>

lemma has_text_take: "has_text s len w \<Longrightarrow> len \<noteq> -1 \<Longrightarrow> length w \<le> length s \<and> w = take (length w) s"
  by (auto simp: has_text_def)

lemma has_text_as_length: "has_text sub sublen v \<Longrightarrow> has_text sub (int (length v)) v"
  by (auto simp: has_text_def split: if_splits)

lemma has_text_first: "has_text sub sublen v \<Longrightarrow> v \<noteq> [] \<Longrightarrow> unit_at sub 0 = Some (v ! 0)"
  by (rule has_text_nth) auto

lemma first_match_Nil: "first_match w [] = Some 0"
  by (simp add: first_match_def upt_conv_Cons matches_def boundary_def del: upt_Suc)

lemma sub_length:
  assumes "has_text sub sublen v"
  shows "(if sublen < 0 then u_strlen sub else Some (nat sublen)) = Some (length v)"
  using assms u_strlen_length has_text_length [OF assms] by (cases "sublen = -1") auto

lemma single_unit: "has_text sub (-1) v \<Longrightarrow> v \<noteq> [] \<Longrightarrow> \<exists>c1. unit_at sub 1 = Some c1 \<and> (c1 = 0 \<longleftrightarrow> length v = 1)"
  using has_text_nth [of sub "-1" v 1] has_text_end [of sub v] has_text_nonzero [of sub v 1] by (cases "length v = 1") (auto simp: nat_less_le Suc_le_eq intro: length_pos_if_in_set)

lemma u_strFindFirst_finds:
  assumes "has_text s len w" "has_text sub sublen v" "end_readable s len w v" "len = -1 \<longrightarrow> v \<noteq> [0]"
  shows "u_strFindFirst (Some s) len (Some sub) sublen = Some (first_match w v)"
proof -
  have ge: "\<not> len < -1" "\<not> sublen < -1" using has_text_length [OF assms(1)] has_text_length [OF assms(2)] by force+
  have neg: "len < 0 \<longleftrightarrow> len = -1" "sublen < 0 \<longleftrightarrow> sublen = -1" using ge by auto
  note fm = first_match_def [of w v]
  show ?thesis
  proof (cases "v = []")
    case True
    have "len = -1 \<and> sublen = -1 \<Longrightarrow> unit_at sub 0 = Some 0" using has_text_end [of sub v] assms(2) True by simp
    then show ?thesis using ge neg True first_match_Nil sub_length [OF assms(2)] by (auto simp: u_strFindFirst_def)
  next
    case ne: False
    have cs: "unit_at sub 0 = Some (v ! 0)" using has_text_first [OF assms(2) ne] .
    have nul: "find_loop s True 0 None sub (sublen = -1) n (v ! 0) 0 = Some (first_match w v)" if "len = -1" "sublen \<noteq> -1 \<longrightarrow> n = length v" for n
      using find_loop_finds [OF assms(1,2) ne assms(3), of n None 0 0] that fm by simp
    have chr: "strchr_loop s (v ! 0) 0 = Some (first_match w v)" if h: "len = -1" "length v = 1" "\<not> is_surrogate (v ! 0)"
    proof -
      obtain c where v: "v = [c]" using h(2) by (cases v) auto
      then have "c \<noteq> 0" using assms(4) h(1) by simp
      then show ?thesis using strchr_loop_finds [of s w c 0] assms(1) h(1,3) v fm by simp
    qed
    show ?thesis
    proof (cases "len = -1 \<and> sublen = -1")
      case True
      obtain c1 where c1: "unit_at sub 1 = Some c1" "c1 = 0 \<longleftrightarrow> length v = 1" using single_unit assms(2) True ne by blast
      have nz: "v ! 0 \<noteq> 0" using has_text_nonzero [of sub v 0] assms(2) True ne by simp
      show ?thesis using True ge cs c1 nz nul [of 0] chr by (auto simp: u_strFindFirst_def)
    next
      case False
      have ln: "length v \<noteq> 0" using ne by simp
      have mem: "memchr_loop s (v ! 0) 0 (length w) = Some (first_match w v)" if h: "len \<noteq> -1" "length v = 1" "\<not> is_surrogate (v ! 0)"
      proof -
        obtain c where v: "v = [c]" using h(2) by (cases v) auto
        then show ?thesis using memchr_loop_finds [of w s c 0 "length w"] has_text_take [OF assms(1) h(1)] h(3) v fm by simp
      qed
      have lw: "len \<noteq> -1 \<Longrightarrow> 0 \<le> len \<and> nat len = length w" using has_text_length [OF assms(1)] by simp
      have short: "first_match w v = None" if "length w \<le> length v - 1"
        unfolding fm by (rule find_upt_none) (use that ne in \<open>auto simp: matches_def Suc_le_eq le_diff_conv\<close>)
      have find: "find_loop s False (length w - (length v - 1)) (Some (length w)) sub False (length v) (v ! 0) 0 = Some (first_match w v)"
        if "len \<noteq> -1" "\<not> length w \<le> length v - 1"
        using find_loop_finds [OF assms(1) has_text_as_length [OF assms(2)] ne assms(3), of "length v" "Some (length w)" "length w - (length v - 1)" 0] that fm by simp
      show ?thesis
      proof (cases "len = -1")
        case True
        then have "sublen \<noteq> -1" using False by simp
        then show ?thesis using True False ge neg ln cs sub_length [OF assms(2)] chr nul [of "length v"] by (auto simp: u_strFindFirst_def)
      next
        case len: False
        have le: "len \<le> int (length v - 1) \<longleftrightarrow> length w \<le> length v - 1" using lw [OF len] by auto
        show ?thesis using len False ge neg ln cs sub_length [OF assms(2)] mem find short lw [OF len] le by (auto simp: u_strFindFirst_def)
      qed
    qed
  qed
qed

section \<open>Searching backwards\<close>

lemma match_head_compares:
  assumes "has_text s len w" "has_text sub sublen v" "q \<le> length v" "q \<le> p" "p \<le> length w"
  shows "match_head s sub p q = Some (if take q (drop (p - q) w) = take q v then Some (p - q) else None)"
  using assms(3-5)
proof (induction q arbitrary: p)
  case (Suc q)
  have c: "unit_at s (p - 1) = Some (w ! (p - 1))" "unit_at sub q = Some (v ! q)"
    using has_text_nth [OF assms(1), of "p - 1"] has_text_nth [OF assms(2), of q] Suc.prems by auto
  define same where "same \<longleftrightarrow> take q (drop (p - Suc q) w) = take q v"
  have "p - 1 - q = p - Suc q" by simp
  then have ih: "match_head s sub (p - 1) q = Some (if same then Some (p - Suc q) else None)"
    using Suc.IH [of "p - 1"] Suc.prems unfolding same_def by auto
  have l: "q < length (drop (p - Suc q) w)" "drop (p - Suc q) w ! q = w ! (p - 1)" using Suc.prems by auto
  have "take (Suc q) (drop (p - Suc q) w) = take q (drop (p - Suc q) w) @ [w ! (p - 1)]" using l by (simp add: take_Suc_conv_app_nth)
  moreover have "take (Suc q) v = take q v @ [v ! q]" using Suc.prems by (simp add: take_Suc_conv_app_nth)
  ultimately have "take (Suc q) (drop (p - Suc q) w) = take (Suc q) v \<longleftrightarrow> same \<and> w ! (p - 1) = v ! q"
    unfolding same_def by simp
  moreover have "p \<noteq> 0" using Suc.prems by simp
  ultimately show ?case using c ih by (cases same) simp_all
qed simp

lemma find_rev_step: "List.find P (rev [0..<Suc n]) = (if P n then Some n else List.find P (rev [0..<n]))"
  by simp

lemma find_last_loop_finds:
  assumes "has_text s len w" "has_text sub sublen v" "v \<noteq> []" "end_readable s l w v" "l \<noteq> -1" "k + (length v - 1) \<le> length w"
    "has_text s l w"
  shows "find_last_loop s (length w) sub (length v - 1) (last v) k = Some (List.find (matches w v) (rev [0..<k]))"
  using assms(6)
proof (induction k)
  case (Suc k)
  let ?n = "length v - 1"
  have lv: "length v = Suc ?n" using assms(3) by (cases v) auto
  have i: "?n + k < length w" using Suc.prems by simp
  have c: "unit_at s (?n + k) = Some (w ! (?n + k))" using has_text_nth [OF assms(1) i] .
  have ih: "find_last_loop s (length w) sub ?n (last v) k = Some (List.find (matches w v) (rev [0..<k]))" using Suc by simp
  have mh: "match_head s sub (?n + k) ?n = Some (if take ?n (drop k w) = take ?n v then Some k else None)"
    using match_head_compares [OF assms(1,2), of ?n "?n + k"] i by simp
  have lst: "last v = v ! ?n" using assms(3) by (simp add: last_conv_nth)
  have "take (length v) (drop k w) = take ?n (drop k w) @ [w ! (?n + k)]" using lv i take_Suc_conv_app_nth [of ?n "drop k w"] by (simp add: add.commute)
  moreover have "v = take ?n v @ [last v]" using assms(3) by (metis append_butlast_last_id butlast_conv_take)
  ultimately have tk: "take (length v) (drop k w) = v \<longleftrightarrow> take ?n (drop k w) = take ?n v \<and> w ! (?n + k) = last v"
    by (metis append1_eq_conv)
  show ?case
  proof (cases "take (length v) (drop k w) = v")
    case True
    have kl: "k + length v \<le> length w" using i lv by linarith
    have "isMatchAtCPBoundary s k (k + length v) (Some (length w)) = Some (matches w v k)"
      using isMatch_boundary [OF assms(7,4,3) kl True, of "Some (length w)"] True kl assms(5) by (simp add: matches_def)
    moreover have "?n + k + 1 = k + length v" using lv by linarith
    ultimately have "isMatchAtCPBoundary s k (?n + k + 1) (Some (length w)) = Some (matches w v k)" by (simp only:)
    then show ?thesis using c mh tk True ih find_rev_step [of "matches w v" k] by simp
  next
    case False
    then have "\<not> matches w v k" by (simp add: matches_def)
    then show ?thesis using c mh tk False ih find_rev_step [of "matches w v" k] by auto
  qed
qed simp

lemma strrchr_loop_finds:
  assumes "has_text s (-1) w" "c \<noteq> 0" "\<not> is_surrogate c" "i \<le> length w" "r = List.find (matches w [c]) (rev [0..<i])"
  shows "strrchr_loop (drop i s) c i r = Some (List.find (matches w [c]) (rev [0..<length w]))"
  using assms(4,5)
proof (induction "length w - i" arbitrary: i r)
  case 0
  then have i: "i = length w" by simp
  then have "drop i s = 0 # drop (Suc i) s" using has_text_end [OF assms(1)] Cons_nth_drop_Suc [of i s] by (auto simp: unit_at_Some)
  then show ?case using assms(2) i 0 by simp
next
  case (Suc k)
  then have i: "i < length w" by simp
  have "drop i s = w ! i # drop (Suc i) s" using has_text_nth [OF assms(1) i] Cons_nth_drop_Suc [of i s] by (auto simp: unit_at_Some)
  moreover have "strrchr_loop (drop (Suc i) s) c (Suc i) (if w ! i = c then Some i else r) = Some (List.find (matches w [c]) (rev [0..<length w]))"
    by (rule Suc.hyps(1)) (use Suc.hyps(2) Suc.prems i matches_single [OF assms(3), of w i] in auto)
  ultimately show ?case using has_text_nonzero [OF assms(1) i] by (simp add: Let_def)
qed

lemma memrchr_loop_finds:
  assumes "has_text s len w" "\<not> is_surrogate c" "n \<le> length w"
  shows "memrchr_loop s c n = Some (List.find (matches w [c]) (rev [0..<n]))"
  using assms(3) by (induction n) (auto simp: has_text_nth [OF assms(1)] matches_single [OF assms(2)])

lemma last_match_nonempty: "v \<noteq> [] \<Longrightarrow> last_match w v = List.find (matches w v) (rev [0..<length w - (length v - 1)])"
proof -
  assume ne: "v \<noteq> []"
  let ?k = "length w - (length v - 1)"
  have "[0..<Suc (length w)] = [0..<?k] @ [?k..<Suc (length w)]" using upt_add_eq_append [of 0 ?k "Suc (length w) - ?k"] by simp
  moreover have "List.find (matches w v) (rev [?k..<Suc (length w)]) = None"
    by (rule find_rev_upt_none) (use ne in \<open>auto simp: matches_def Suc_le_eq\<close>)
  moreover have "List.find P (xs @ ys) = (case List.find P xs of None \<Rightarrow> List.find P ys | Some x \<Rightarrow> Some x)" for P and xs ys :: "nat list"
    by (induction xs) auto
  ultimately show ?thesis unfolding last_match_def by (metis (no_types, lifting) option.simps(4) rev_append)
qed

lemma u_strFindLast_finds:
  assumes "has_text s len w" "has_text sub sublen v" "v \<noteq> []" "len = -1 \<longrightarrow> v \<noteq> [0]" "end_readable s (int (length w)) w v"
  shows "u_strFindLast (Some s) len (Some sub) sublen = Some (last_match w v)"
proof -
  have ge: "\<not> len < -1" "\<not> sublen < -1" using has_text_length [OF assms(1)] has_text_length [OF assms(2)] by force+
  have neg: "len < 0 \<longleftrightarrow> len = -1" using ge by auto
  have lv: "0 < length v" using assms(3) by simp
  have cs: "unit_at sub (length v - 1) = Some (last v)" using has_text_nth [OF assms(2), of "length v - 1"] assms(3) by (simp add: last_conv_nth)
  have lw: "(if len < 0 then u_strlen s else Some (nat len)) = Some (length w)" by (rule sub_length [OF assms(1)])
  note lm = last_match_nonempty [OF assms(3), of w]
  have single: "(if len < 0 then strrchr_loop s (last v) 0 None else memrchr_loop s (last v) (nat len)) = Some (last_match w v)"
    if h: "length v = 1" "\<not> is_surrogate (last v)"
  proof -
    obtain c where v: "v = [c]" using h(1) by (cases v) auto
    show ?thesis
    proof (cases "len = -1")
      case True
      then show ?thesis using strrchr_loop_finds [of s w c 0 None] assms(1,4) h(2) v lm by simp
    next
      case False
      then show ?thesis using memrchr_loop_finds [OF assms(1), of c "length w"] has_text_length [OF assms(1)] h(2) v lm by simp
    qed
  qed
  obtain m where m: "length v = Suc m" using assms(3) by (cases v) auto
  have short: "last_match w v = None" if "length w \<le> m" using lm that m by simp
  have find: "find_last_loop s (length w) sub m (last v) (length w - m) = Some (last_match w v)" if "\<not> length w \<le> m"
    using find_last_loop_finds [OF assms(1,2,3,5) _ _ has_text_as_length [OF assms(1)], of "length w - (length v - 1)"] that lm m by simp
  show ?thesis
  proof (cases "length v = 1 \<and> \<not> is_surrogate (last v)")
    case True
    then show ?thesis using ge cs sub_length [OF assms(2)] single lv by (simp add: u_strFindLast_def)
  next
    case False
    then show ?thesis using ge cs sub_length [OF assms(2)] lw find short m by (auto simp: u_strFindLast_def)
  qed
qed

section \<open>Searching for a code point\<close>

lemma matches_pair:
  assumes "is_lead a" "is_trail b"
  shows "matches w [a, b] i \<longleftrightarrow> i + 1 < length w \<and> w ! i = a \<and> w ! (i + 1) = b"
proof (cases "i + 1 < length w")
  case True
  then have "drop i w = w ! i # w ! (i + 1) # drop (i + 2) w" using Cons_nth_drop_Suc [of i w] Cons_nth_drop_Suc [of "i + 1" w] by simp
  moreover have "\<not> is_trail a" "\<not> is_lead b" using assms by (auto simp: is_lead_def is_trail_def)
  ultimately show ?thesis using True by (auto simp: matches_def boundary_def numeral_2_eq_2)
qed (auto simp: matches_def)

lemma drop_text:
  assumes "has_text s len w" "i < length w"
  shows "drop i s = w ! i # drop (Suc i) s"
  using has_text_nth [OF assms] Cons_nth_drop_Suc [of i s] by (auto simp: unit_at_Some)

lemma drop_end: "has_text s (-1) w \<Longrightarrow> drop (length w) s = 0 # drop (Suc (length w)) s"
  using has_text_end [of s w] Cons_nth_drop_Suc [of "length w" s] by (auto simp: unit_at_Some)

lemma next_unit_of_text:
  assumes "has_text s (-1) w" "i < length w"
  shows "\<exists>x. unit_at (drop (Suc i) s) 0 = Some x \<and> (x = b \<and> b \<noteq> 0 \<longleftrightarrow> i + 1 < length w \<and> w ! (i + 1) = b \<and> b \<noteq> 0)"
proof (cases "i + 1 < length w")
  case True
  then show ?thesis using drop_text [OF assms(1) True] by (simp add: unit_at_def)
next
  case False
  then have "Suc i = length w" using assms(2) by simp
  then show ?thesis using drop_end [OF assms(1)] by (simp add: unit_at_def)
qed

lemma pair_loops_find:
  assumes "has_text s (-1) w" "is_lead a" "is_trail b" "i \<le> length w"
  shows "pair_loop (drop i s) a b i = Some (List.find (matches w [a, b]) [i..<Suc (length w)])"
    "r = List.find (matches w [a, b]) (rev [0..<i]) \<Longrightarrow> last_pair_loop (drop i s) a b i r = Some (List.find (matches w [a, b]) (rev [0..<length w]))"
proof -
  have b0: "b \<noteq> 0" using assms(3) by (auto simp: is_trail_def)
  show "pair_loop (drop i s) a b i = Some (List.find (matches w [a, b]) [i..<Suc (length w)])"
    using assms(4)
  proof (induction "length w - i" arbitrary: i)
    case 0
    then show ?case using drop_end [OF assms(1)] find_matches_end [of "[a, b]" w] by simp
  next
    case (Suc k)
    then have i: "i < length w" by simp
    obtain x where x: "unit_at (drop (Suc i) s) 0 = Some x" "x = b \<longleftrightarrow> i + 1 < length w \<and> w ! (i + 1) = b"
      using next_unit_of_text [OF assms(1) i, of b] b0 by auto
    have ih: "pair_loop (drop (Suc i) s) a b (Suc i) = Some (List.find (matches w [a, b]) [Suc i..<Suc (length w)])"
      using Suc.hyps(1) [of "Suc i"] Suc.hyps(2) i by simp
    show ?case using ih x drop_text [OF assms(1) i] find_matches_step [OF i] matches_pair [OF assms(2,3), of w i] has_text_nonzero [OF assms(1) i] i
      by auto
  qed
  show "r = List.find (matches w [a, b]) (rev [0..<i]) \<Longrightarrow> last_pair_loop (drop i s) a b i r = Some (List.find (matches w [a, b]) (rev [0..<length w]))"
    using assms(4)
  proof (induction "length w - i" arbitrary: i r)
    case 0
    then show ?case using drop_end [OF assms(1)] by simp
  next
    case (Suc k)
    then have i: "i < length w" by simp
    obtain x where x: "unit_at (drop (Suc i) s) 0 = Some x" "x = b \<longleftrightarrow> i + 1 < length w \<and> w ! (i + 1) = b"
      using next_unit_of_text [OF assms(1) i, of b] b0 by auto
    have m: "matches w [a, b] i \<longleftrightarrow> w ! i = a \<and> x = b" using matches_pair [OF assms(2,3), of w i] x(2) by auto
    have ih: "last_pair_loop (drop (Suc i) s) a b (Suc i) (if w ! i = a \<and> x = b then Some i else r) = Some (List.find (matches w [a, b]) (rev [0..<length w]))"
      by (rule Suc.hyps(1)) (use Suc.hyps(2) Suc.prems i m in auto)
    then show ?case using x(1) drop_text [OF assms(1) i] has_text_nonzero [OF assms(1) i] by (auto split: if_splits)
  qed
qed

lemma mem_pair_loops_find:
  assumes "has_text s len w" "is_lead a" "is_trail b"
  shows "i + n + 1 = length w \<Longrightarrow> mem_pair_loop s a b i n = Some (List.find (matches w [a, b]) [i..<Suc (length w)])"
    "n + 1 \<le> length w \<Longrightarrow> mem_last_pair_loop s a b n = Some (List.find (matches w [a, b]) (rev [0..<n]))"
proof -
  note u = has_text_nth [OF assms(1)] and m = matches_pair [OF assms(2,3), of w]
  show "i + n + 1 = length w \<Longrightarrow> mem_pair_loop s a b i n = Some (List.find (matches w [a, b]) [i..<Suc (length w)])"
  proof (induction n arbitrary: i)
    case 0
    then have "List.find (matches w [a, b]) [i..<Suc (length w)] = None" by (intro find_upt_none) (auto simp: m)
    then show ?case by simp
  next
    case (Suc n)
    then have i: "i < length w" "i + 1 < length w" by auto
    have "mem_pair_loop s a b (i + 1) n = Some (List.find (matches w [a, b]) [i + 1..<Suc (length w)])" using Suc.IH [of "i + 1"] Suc.prems by simp
    then show ?case using find_matches_step [OF i(1), of "[a, b]"] u [OF i(1)] u [OF i(2)] m [of i] i by auto
  qed
  show "n + 1 \<le> length w \<Longrightarrow> mem_last_pair_loop s a b n = Some (List.find (matches w [a, b]) (rev [0..<n]))"
  proof (induction n)
    case (Suc n)
    then show ?case using u [of n] u [of "n + 1"] m [of n] by auto
  qed simp
qed

lemma cp_units_pair: "0xffff < c \<Longrightarrow> c \<le> 0x10ffff \<Longrightarrow> is_lead (U16_LEAD c) \<and> is_trail (U16_TRAIL c) \<and> cp_units c = [U16_LEAD c, U16_TRAIL c]"
  using supplementary_units [of c] by (simp add: cp_units_def)

lemma has_text_unit: "has_text [c] 1 [c]"
  by (simp add: has_text_def)

text \<open>A code point is found where its units match; a number that is no code point is never found.\<close>

lemma code_point_searches_terminated:
  assumes "has_text s (-1) w" "c \<noteq> 0"
  shows "u_strchr32 s c = Some (if 0 \<le> c \<and> c \<le> 0x10ffff then first_match w (cp_units c) else None)"
    "u_strrchr32 s c = Some (if 0 \<le> c \<and> c \<le> 0x10ffff then last_match w (cp_units c) else None)"
proof -
  have er: "end_readable s (-1) w [c]" by (simp add: end_readable_def)
  have er': "end_readable s (int (length w)) w [c]" using has_text_end [OF assms(1)] by (auto simp: end_readable_def is_trail_def)
  have one: "u_strchr s c = Some (first_match w [c])" "u_strrchr s c = Some (last_match w [c])"
  proof -
    show "u_strchr s c = Some (first_match w [c])"
      using u_strFindFirst_finds [OF assms(1) has_text_unit er] strchr_loop_finds [OF assms, of 0] assms(2) by (simp add: u_strchr_def first_match_def)
    show "u_strrchr s c = Some (last_match w [c])"
      using u_strFindLast_finds [OF assms(1) has_text_unit [of c] _ _ er'] strrchr_loop_finds [OF assms, of 0 None] assms(2) last_match_nonempty [of "[c]" w]
      by (simp add: u_strrchr_def)
  qed
  consider "0 \<le> c \<and> c \<le> 0xffff" | "0xffff < c \<and> c \<le> 0x10ffff" | "c < 0 \<or> 0x10ffff < c" by linarith
  then have "u_strchr32 s c = Some (if 0 \<le> c \<and> c \<le> 0x10ffff then first_match w (cp_units c) else None) \<and>
    u_strrchr32 s c = Some (if 0 \<le> c \<and> c \<le> 0x10ffff then last_match w (cp_units c) else None)"
  proof cases
    case 1
    then show ?thesis using one by (simp add: u_strchr32_def u_strrchr32_def cp_units_def)
  next
    case 2
    note p = cp_units_pair [of c]
    have "\<not> matches w (cp_units c) (length w)" using p 2 by (simp add: matches_def)
    then have "List.find (matches w (cp_units c)) (rev [0..<length w]) = last_match w (cp_units c)" by (simp add: last_match_def)
    then show ?thesis using 2 p pair_loops_find [OF assms(1), of "U16_LEAD c" "U16_TRAIL c" 0]
      by (simp add: u_strchr32_def u_strrchr32_def first_match_def)
  next
    case 3
    then show ?thesis by (auto simp: u_strchr32_def u_strrchr32_def)
  qed
  then show "u_strchr32 s c = Some (if 0 \<le> c \<and> c \<le> 0x10ffff then first_match w (cp_units c) else None)"
    "u_strrchr32 s c = Some (if 0 \<le> c \<and> c \<le> 0x10ffff then last_match w (cp_units c) else None)" by simp_all
qed

lemma code_point_searches_length:
  assumes "has_text s len w" "len \<noteq> -1" "end_readable s len w [c]"
  shows "u_memchr32 s c len = Some (if 0 \<le> c \<and> c \<le> 0x10ffff then first_match w (cp_units c) else None)"
    "u_memrchr32 s c len = Some (if 0 \<le> c \<and> c \<le> 0x10ffff then last_match w (cp_units c) else None)"
proof -
  have len: "0 \<le> len" "nat len = length w" using has_text_length [OF assms(1,2)] by auto
  have er': "end_readable s (int (length w)) w [c]" using assms(2,3) by (simp add: end_readable_def)
  have empty: "first_match w v = None \<and> last_match w v = None" if "length w < length v" for v
    using that by (auto simp: first_match_def last_match_def matches_def find_None_iff)
  have one: "u_memchr s c len = Some (first_match w [c])" "u_memrchr s c len = Some (last_match w [c])"
  proof -
    show "u_memchr s c len = Some (first_match w [c])"
      using u_strFindFirst_finds [OF assms(1) has_text_unit assms(3)] memchr_loop_finds [of w s c 0 "length w"] has_text_take [OF assms(1,2)] len empty [of "[c]"] assms(2)
      by (auto simp: u_memchr_def first_match_def)
    show "u_memrchr s c len = Some (last_match w [c])"
      using u_strFindLast_finds [OF assms(1) has_text_unit [of c] _ _ er'] memrchr_loop_finds [OF assms(1), of c "length w"] last_match_nonempty [of "[c]" w] len empty [of "[c]"] assms(2)
      by (auto simp: u_memrchr_def)
  qed
  consider "0 \<le> c \<and> c \<le> 0xffff" | "0xffff < c \<and> c \<le> 0x10ffff" | "c < 0 \<or> 0x10ffff < c" by linarith
  then have "u_memchr32 s c len = Some (if 0 \<le> c \<and> c \<le> 0x10ffff then first_match w (cp_units c) else None) \<and>
    u_memrchr32 s c len = Some (if 0 \<le> c \<and> c \<le> 0x10ffff then last_match w (cp_units c) else None)"
  proof cases
    case 1
    then show ?thesis using one by (simp add: u_memchr32_def u_memrchr32_def cp_units_def)
  next
    case 2
    note p = cp_units_pair [of c]
    show ?thesis
    proof (cases "len < 2")
      case True
      then have "length w < length (cp_units c)" using len p 2 by auto
      then show ?thesis using 2 True empty by (simp add: u_memchr32_def u_memrchr32_def)
    next
      case False
      then have n: "nat (len - 1) + 1 = length w" using len by auto
      have lm: "List.find (matches w (cp_units c)) (rev [0..<nat (len - 1)]) = last_match w (cp_units c)"
      proof -
        have "length w - (length (cp_units c) - 1) = nat (len - 1)" using n p 2 by simp
        then show ?thesis using last_match_nonempty [of "cp_units c" w] p 2 by simp
      qed
      show ?thesis using 2 False p mem_pair_loops_find(1) [OF assms(1), of "U16_LEAD c" "U16_TRAIL c" 0 "nat (len - 1)"]
          mem_pair_loops_find(2) [OF assms(1), of "U16_LEAD c" "U16_TRAIL c" "nat (len - 1)"] n lm
        by (simp add: u_memchr32_def u_memrchr32_def first_match_def)
    qed
  next
    case 3
    then show ?thesis by (auto simp: u_memchr32_def u_memrchr32_def)
  qed
  then show "u_memchr32 s c len = Some (if 0 \<le> c \<and> c \<le> 0x10ffff then first_match w (cp_units c) else None)"
    "u_memrchr32 s c len = Some (if 0 \<le> c \<and> c \<le> 0x10ffff then last_match w (cp_units c) else None)" by simp_all
qed

end
