(* ===== verification/UStringCompare.thy ===== *)
theory UStringCompare
  imports UStringProofs
begin

text \<open>
  The comparisons and counts of \<^verbatim>\<open>common/ustring.cpp\<close>. The reference is the lexicographic order of the code points, where an
  unpaired surrogate is a code point of its own.
\<close>

section \<open>The order of lists\<close>

fun compare_lists :: "int list \<Rightarrow> int list \<Rightarrow> int" where
  "compare_lists [] [] = 0"
| "compare_lists [] (y # ys) = -1"
| "compare_lists (x # xs) [] = 1"
| "compare_lists (x # xs) (y # ys) = (if x < y then -1 else if y < x then 1 else compare_lists xs ys)"

lemma compare_lists_refl [simp]: "compare_lists xs xs = 0"
  by (induction xs) auto

lemma compare_lists_append [simp]: "compare_lists (zs @ xs) (zs @ ys) = compare_lists xs ys"
  by (induction zs) auto

abbreviation cps :: "int list \<Rightarrow> int list" where
  "cps w \<equiv> map fst (code_points w)"

text \<open>The code points of a text with a prefix that does not end inside a pair.\<close>

lemma code_points_append:
  "p = [] \<or> \<not> (is_lead (last p) \<and> w \<noteq> [] \<and> is_trail (hd w)) \<Longrightarrow> code_points (p @ w) = code_points p @ code_points w"
proof (induction p rule: code_points.induct)
  case (2 c)
  then show ?case by (cases w) auto
next
  case (3 c c2 rest)
  then show ?case by (cases rest) auto
qed simp

lemma code_points_Cons:
  "code_points (c # w) = (if w \<noteq> [] \<and> is_lead c \<and> is_trail (hd w) then (get_supplementary c (hd w), 2) # code_points (tl w) else (c, 1) # code_points w)"
  by (cases w) auto

lemma code_points_nonempty: "code_points w = [] \<longleftrightarrow> w = []"
  by (cases w rule: code_points.cases) auto

text \<open>The first code point.\<close>

definition head_cp :: "int \<Rightarrow> int list \<Rightarrow> int" where
  "head_cp c r = (if r \<noteq> [] \<and> is_lead c \<and> is_trail (hd r) then get_supplementary c (hd r) else c)"

lemma cps_head: "\<exists>rest. cps (c # r) = head_cp c r # rest"
  by (simp add: code_points_Cons head_cp_def)

lemma compare_heads: "head_cp c1 r1 \<noteq> head_cp c2 r2 \<Longrightarrow> compare_lists (cps (c1 # r1)) (cps (c2 # r2)) = sgn (head_cp c1 r1 - head_cp c2 r2)"
  using cps_head [of c1 r1] cps_head [of c2 r2] by auto

text \<open>A unit as it is compared, when it starts a code point and when it is any unit of a text.\<close>

definition fixed :: "bool \<Rightarrow> int \<Rightarrow> int" where
  "fixed pair c = (if pair then c else c - 0x2800)"

definition in_pair :: "int list \<Rightarrow> nat \<Rightarrow> bool" where
  "in_pair w i \<longleftrightarrow> (is_lead (w ! i) \<and> i + 1 < length w \<and> is_trail (w ! (i + 1))) \<or> (is_trail (w ! i) \<and> 0 < i \<and> is_lead (w ! (i - 1)))"

definition order_of :: "bool \<Rightarrow> int \<Rightarrow> bool \<Rightarrow> int \<Rightarrow> int" where
  "order_of pair1 c1 pair2 c2 = (if 0xd800 \<le> c1 \<and> 0xd800 \<le> c2 then fixed pair1 c1 - fixed pair2 c2 else c1 - c2)"

lemma supplementary_order:
  assumes "is_lead a" "is_trail b" "is_lead c" "is_trail d"
  shows "a < c \<Longrightarrow> get_supplementary a b < get_supplementary c d" "b < d \<Longrightarrow> get_supplementary a b < get_supplementary a d"
    "0xffff < get_supplementary a b"
  using assms by (auto simp: get_supplementary_def is_lead_def is_trail_def)

lemma heads_in_order:
  assumes "c1 \<noteq> c2" "0 \<le> c1" "c1 \<le> 0xffff" "0 \<le> c2" "c2 \<le> 0xffff"
    "pair1 \<longleftrightarrow> r1 \<noteq> [] \<and> is_lead c1 \<and> is_trail (hd r1)" "pair2 \<longleftrightarrow> r2 \<noteq> [] \<and> is_lead c2 \<and> is_trail (hd r2)"
  shows "head_cp c1 r1 \<noteq> head_cp c2 r2" "sgn (order_of pair1 c1 pair2 c2) = sgn (head_cp c1 r1 - head_cp c2 r2)"
proof -
  have "head_cp c1 r1 \<noteq> head_cp c2 r2 \<and> sgn (order_of pair1 c1 pair2 c2) = sgn (head_cp c1 r1 - head_cp c2 r2)"
  proof (cases "pair1"; cases "pair2")
    assume p: pair1 pair2
    have "c1 < c2 \<or> c2 < c1" using assms(1) by linarith
    then show ?thesis using p assms(6,7) supplementary_order(1) [of c1 "hd r1" c2 "hd r2"] supplementary_order(1) [of c2 "hd r2" c1 "hd r1"]
      by (auto simp: head_cp_def order_of_def fixed_def is_lead_def)
  next
    assume p: pair1 "\<not> pair2"
    have h: "head_cp c1 r1 = get_supplementary c1 (hd r1)" "head_cp c2 r2 = c2" using p assms(6,7) by (auto simp: head_cp_def)
    have "0xffff < get_supplementary c1 (hd r1)" using p assms(6) supplementary_order(3) [of c1 "hd r1" c1 "hd r1"] by simp
    then show ?thesis using p h assms by (auto simp: order_of_def fixed_def is_lead_def)
  next
    assume p: "\<not> pair1" pair2
    have h: "head_cp c1 r1 = c1" "head_cp c2 r2 = get_supplementary c2 (hd r2)" using p assms(6,7) by (auto simp: head_cp_def)
    have "0xffff < get_supplementary c2 (hd r2)" using p assms(7) supplementary_order(3) [of c2 "hd r2" c2 "hd r2"] by simp
    then show ?thesis using p h assms by (auto simp: order_of_def fixed_def is_lead_def)
  next
    assume p: "\<not> pair1" "\<not> pair2"
    have h: "head_cp c1 r1 = c1" "head_cp c2 r2 = c2" using p assms(6,7) by (auto simp: head_cp_def)
    then show ?thesis using p assms(1) by (auto simp: order_of_def fixed_def)
  qed
  then show "head_cp c1 r1 \<noteq> head_cp c2 r2" "sgn (order_of pair1 c1 pair2 c2) = sgn (head_cp c1 r1 - head_cp c2 r2)" by simp_all
qed

text \<open>The first difference decides, whatever is before it.\<close>

lemma split_at: "i < length w \<Longrightarrow> w = take i w @ w ! i # drop (Suc i) w"
  by (simp add: id_take_nth_drop)

lemma take_last: "0 < i \<Longrightarrow> i \<le> length w \<Longrightarrow> take i w = take (i - 1) w @ [w ! (i - 1)]"
  using take_Suc_conv_app_nth [of "i - 1" w] by simp

lemma hd_drop: "drop n w \<noteq> [] \<Longrightarrow> hd (drop n w) = w ! n"
  by (simp add: hd_drop_conv_nth)

lemma first_difference:
  assumes "i < length w1" "i < length w2" "take i w1 = take i w2" "w1 ! i \<noteq> w2 ! i"
    "\<forall>u \<in> set w1. 0 \<le> u \<and> u \<le> 0xffff" "\<forall>u \<in> set w2. 0 \<le> u \<and> u \<le> 0xffff"
  shows "compare_lists (cps w1) (cps w2) = sgn (order_of (in_pair w1 i) (w1 ! i) (in_pair w2 i) (w2 ! i))"
proof -
  let ?c1 = "w1 ! i" and ?c2 = "w2 ! i" and ?r1 = "drop (Suc i) w1" and ?r2 = "drop (Suc i) w2"
  have u: "0 \<le> ?c1" "?c1 \<le> 0xffff" "0 \<le> ?c2" "?c2 \<le> 0xffff" using assms by auto
  define lead where "lead \<longleftrightarrow> 0 < i \<and> is_lead (w1 ! (i - 1))"
  have same: "0 < i \<Longrightarrow> w1 ! (i - 1) = w2 ! (i - 1)" using assms(3) by (metis diff_less nth_take zero_less_one)
  have starts: "r \<noteq> [] \<and> is_lead (w ! i) \<and> is_trail (hd r) \<longleftrightarrow> is_lead (w ! i) \<and> i + 1 < length w \<and> is_trail (w ! (i + 1))" if "r = drop (Suc i) w" for r w
    using hd_drop [of "Suc i" w] that by auto
  show ?thesis
  proof (cases "lead \<and> (is_trail ?c1 \<or> is_trail ?c2)")
    case False
    then have ip: "in_pair w1 i \<longleftrightarrow> ?r1 \<noteq> [] \<and> is_lead ?c1 \<and> is_trail (hd ?r1)" "in_pair w2 i \<longleftrightarrow> ?r2 \<noteq> [] \<and> is_lead ?c2 \<and> is_trail (hd ?r2)"
      using starts [of ?r1 w1] starts [of ?r2 w2] same by (auto simp: in_pair_def lead_def)
    have nb: "take i w1 = [] \<or> \<not> (is_lead (last (take i w1)) \<and> ?c1 # ?r1 \<noteq> [] \<and> is_trail (hd (?c1 # ?r1)))"
      "take i w1 = [] \<or> \<not> (is_lead (last (take i w1)) \<and> ?c2 # ?r2 \<noteq> [] \<and> is_trail (hd (?c2 # ?r2)))"
      using False take_last [of i w1] assms(1) by (cases "i = 0"; auto simp: lead_def)+
    have "compare_lists (cps w1) (cps w2) = compare_lists (cps (?c1 # ?r1)) (cps (?c2 # ?r2))"
      using code_points_append [OF nb(1)] code_points_append [OF nb(2)] split_at [OF assms(1)] split_at [OF assms(2)] assms(3) by (metis compare_lists_append map_append)
    then show ?thesis using compare_heads heads_in_order [OF assms(4) u ip] by metis
  next
    case True
    then have i0: "0 < i" and l: "is_lead (w1 ! (i - 1))" and tr: "is_trail ?c1 \<or> is_trail ?c2" by (auto simp: lead_def)
    let ?l = "w1 ! (i - 1)" and ?p = "take (i - 1) w1"
    have nt: "\<not> is_trail ?l" using l by (auto simp: is_lead_def is_trail_def)
    have w: "w1 = ?p @ ?l # ?c1 # ?r1" "w2 = ?p @ ?l # ?c2 # ?r2"
    proof -
      have t: "take i w1 = ?p @ [?l]" by (rule take_last [OF i0]) (use assms(1) in simp)
      show "w1 = ?p @ ?l # ?c1 # ?r1" using split_at [OF assms(1)] t by (metis append.assoc append_Cons append_Nil)
      show "w2 = ?p @ ?l # ?c2 # ?r2" using split_at [OF assms(2)] t assms(3) by (metis append.assoc append_Cons append_Nil)
    qed
    have e: "compare_lists (cps w1) (cps w2) = compare_lists (cps (?l # ?c1 # ?r1)) (cps (?l # ?c2 # ?r2))"
      using code_points_append [of ?p "?l # ?c1 # ?r1"] code_points_append [of ?p "?l # ?c2 # ?r2"] nt w by (metis compare_lists_append list.sel(1) map_append)
    have h: "head_cp ?l (?c1 # ?r1) = (if is_trail ?c1 then get_supplementary ?l ?c1 else ?l)" "head_cp ?l (?c2 # ?r2) = (if is_trail ?c2 then get_supplementary ?l ?c2 else ?l)"
      using l by (auto simp: head_cp_def)
    have ip: "is_trail ?c1 \<Longrightarrow> in_pair w1 i" "is_trail ?c2 \<Longrightarrow> in_pair w2 i" using i0 l same by (auto simp: in_pair_def)
    have big: "is_trail t \<Longrightarrow> 0xffff < get_supplementary ?l t \<and> ?l \<le> 0xdbff" for t using supplementary_order(3) [OF l _ l, of t t] l by (auto simp: is_lead_def)
    have "head_cp ?l (?c1 # ?r1) \<noteq> head_cp ?l (?c2 # ?r2) \<and>
      sgn (order_of (in_pair w1 i) ?c1 (in_pair w2 i) ?c2) = sgn (head_cp ?l (?c1 # ?r1) - head_cp ?l (?c2 # ?r2))"
    proof (cases "is_trail ?c1"; cases "is_trail ?c2")
      assume t: "is_trail ?c1" "is_trail ?c2"
      have "?c1 < ?c2 \<or> ?c2 < ?c1" using assms(4) by linarith
      then show ?thesis using t ip h supplementary_order(2) [OF l t(1) l t(2)] supplementary_order(2) [OF l t(2) l t(1)]
        by (auto simp: order_of_def fixed_def is_trail_def)
    next
      assume t: "is_trail ?c1" "\<not> is_trail ?c2"
      then show ?thesis using ip(1) h big [OF t(1)] u by (auto simp: order_of_def fixed_def is_trail_def in_pair_def is_lead_def)
    next
      assume t: "\<not> is_trail ?c1" "is_trail ?c2"
      then show ?thesis using ip(2) h big [OF t(2)] u by (auto simp: order_of_def fixed_def is_trail_def in_pair_def is_lead_def)
    qed (use tr in auto)
    then show ?thesis using e compare_heads [of ?l "?c1 # ?r1" ?l "?c2 # ?r2"] by metis
  qed
qed

lemma prefix_is_less:
  assumes "n < length w"
  shows "compare_lists (cps (take n w)) (cps w) = -1 \<and> compare_lists (cps w) (cps (take n w)) = 1"
proof (cases "take n w = [] \<or> \<not> (is_lead (last (take n w)) \<and> drop n w \<noteq> [] \<and> is_trail (hd (drop n w)))")
  case True
  obtain x xs where x: "cps (drop n w) = x # xs" using assms code_points_nonempty [of "drop n w"] by (cases "cps (drop n w)") auto
  have "cps w = cps (take n w) @ cps (drop n w)" using code_points_append [OF True] by (metis append_take_drop_id map_append)
  then show ?thesis using x compare_lists_append [of "cps (take n w)" "[]"] compare_lists_append [of "cps (take n w)" _ "[]"] by simp
next
  case False
  then have n0: "0 < n" and l: "is_lead (w ! (n - 1))" "is_trail (w ! n)" using take_last [of n w] assms hd_drop [of n w] by (auto simp: not_less)
  let ?l = "w ! (n - 1)" and ?p = "take (n - 1) w"
  have nt: "\<not> is_trail ?l" using l by (auto simp: is_lead_def is_trail_def)
  have w1: "take n w = ?p @ [?l]" by (rule take_last [OF n0]) (use assms in simp)
  have w: "take n w = ?p @ [?l]" "w = ?p @ ?l # w ! n # drop (Suc n) w"
    using w1 split_at [OF assms] by (metis append.assoc append_Cons append_Nil)+
  have "cps (take n w) = cps ?p @ [?l]" "cps w = cps ?p @ get_supplementary ?l (w ! n) # cps (drop (Suc n) w)"
    using code_points_append [of ?p "[?l]"] code_points_append [of ?p "?l # w ! n # drop (Suc n) w"] nt l w by (metis (no_types, lifting) code_points.simps(2,3) fst_conv list.sel(1) list.simps(8,9) map_append)+
  moreover have "?l < get_supplementary ?l (w ! n)" using supplementary_order(3) [of ?l "w ! n" ?l "w ! n"] l by (auto simp: is_lead_def)
  ultimately show ?thesis by simp
qed

section \<open>The functions\<close>

lemma fix_up_fixes:
  assumes "\<And>j. j < length w \<Longrightarrow> unit_at s j = Some (w ! j)" "i < length w" "0xd800 \<le> w ! i" "limit = Some (i + 1) \<longrightarrow> length w \<le> i + 1"
    "limit \<noteq> Some (i + 1) \<and> length w \<le> i + 1 \<longrightarrow> (\<exists>u. unit_at s (i + 1) = Some u \<and> \<not> is_trail u)"
  shows "fix_up s limit i (w ! i) = Some (fixed (in_pair w i) (w ! i))"
proof -
  have lead: "w ! i \<le> 0xdbff \<longleftrightarrow> is_lead (w ! i)" using assms(3) by (auto simp: is_lead_def)
  have leads: "(if w ! i \<le> 0xdbff \<and> limit \<noteq> Some (i + 1) then map_option is_trail (unit_at s (i + 1)) else Some False) =
    Some (is_lead (w ! i) \<and> i + 1 < length w \<and> is_trail (w ! (i + 1)))"
    using assms(1) [of "i + 1"] assms(4,5) lead by (cases "i + 1 < length w") auto
  have before: "0 < i \<Longrightarrow> unit_at s (i - 1) = Some (w ! (i - 1))" using assms(1,2) by simp
  show ?thesis unfolding fix_up_def leads using before by (auto simp: in_pair_def fixed_def)
qed

lemma compare_at_orders:
  assumes "has_text s1 l1 w1" "has_text s2 l2 w2" "i < length w1" "i < length w2"
    "limit1 = (if l1 = -1 then None else Some (length w1)) \<or> limit1 = Some (length w1)"
    "limit2 = (if l2 = -1 then None else Some (length w2)) \<or> limit2 = Some (length w2)"
  shows "compare_at s1 limit1 s2 limit2 b i = Some (if b then order_of (in_pair w1 i) (w1 ! i) (in_pair w2 i) (w2 ! i) else w1 ! i - w2 ! i)"
proof -
  have fix': "fix_up s limit i (w ! i) = Some (fixed (in_pair w i) (w ! i))"
    if "has_text s l w" "i < length w" "limit = (if l = -1 then None else Some (length w)) \<or> limit = Some (length w)" "0xd800 \<le> w ! i" for s l w limit
  proof (rule fix_up_fixes)
    show "limit \<noteq> Some (i + 1) \<and> length w \<le> i + 1 \<longrightarrow> (\<exists>u. unit_at s (i + 1) = Some u \<and> \<not> is_trail u)"
    proof (intro impI, elim conjE)
      assume a: "limit \<noteq> Some (i + 1)" "length w \<le> i + 1"
      then have e: "length w = i + 1" using that(2) by simp
      then have "l = -1" using that(3) a(1) by (auto split: if_splits)
      then show "\<exists>u. unit_at s (i + 1) = Some u \<and> \<not> is_trail u" using has_text_end [of s w] that(1) e by (auto simp: is_trail_def)
    qed
  qed (use that has_text_nth [OF that(1)] in \<open>auto split: if_splits\<close>)
  show ?thesis using has_text_nth [OF assms(1,3)] has_text_nth [OF assms(2,4)] fix' [OF assms(1,3,5)] fix' [OF assms(2,4,6)]
    by (auto simp: compare_at_def order_of_def)
qed

lemma prefix_loop_terminated:
  assumes "has_text s1 (-1) w1" "has_text s2 (-1) w2" "i \<le> length w1" "i \<le> length w2" "take i w1 = take i w2"
  shows "(w1 = w2 \<and> prefix_loop s1 s2 True None 0 i = Some (Inl 0)) \<or>
    (\<exists>k. prefix_loop s1 s2 True None 0 i = Some (Inr k) \<and> k \<le> length w1 \<and> k \<le> length w2 \<and> take k w1 = take k w2 \<and>
       unit_at s1 k \<noteq> unit_at s2 k)"
  using assms(3-5)
proof (induction "length w1 - i" arbitrary: i rule: less_induct)
  case less
  have u: "\<exists>c. unit_at s i = Some c \<and> (c = 0 \<longleftrightarrow> i = length w) \<and> (i < length w \<longrightarrow> c = w ! i)" if "has_text s (-1) w" "i \<le> length w" for s w
    using that has_text_end [OF that(1)] has_text_nth [OF that(1), of i] has_text_nonzero [OF that(1), of i] by (cases "i = length w") auto
  obtain c1 where c1: "unit_at s1 i = Some c1" "c1 = 0 \<longleftrightarrow> i = length w1" "i < length w1 \<longrightarrow> c1 = w1 ! i" using u [OF assms(1)] less.prems by blast
  obtain c2 where c2: "unit_at s2 i = Some c2" "c2 = 0 \<longleftrightarrow> i = length w2" "i < length w2 \<longrightarrow> c2 = w2 ! i" using u [OF assms(2)] less.prems by blast
  note eq = prefix_loop.simps [of s1 s2 True None 0 i] c1(1) c2(1)
  consider "c1 \<noteq> c2" | "c1 = c2" "c1 = 0" | "c1 = c2" "c1 \<noteq> 0" by blast
  then show ?case
  proof cases
    case 1
    then show ?thesis using eq less.prems by (intro disjI2 exI [of _ i]) simp
  next
    case 2
    then have "i = length w1" "i = length w2" using c1(2) c2(2) by auto
    then have "w1 = w2" using less.prems(3) by (metis take_all order_refl)
    then show ?thesis using 2 eq by (intro disjI1) simp
  next
    case 3
    then have l: "i < length w1" "i < length w2" using c1(2) c2(2) less.prems by auto
    have "take (i + 1) w1 = take (i + 1) w2" using l c1(3) c2(3) 3 less.prems(3) by (simp add: take_Suc_conv_app_nth)
    then show ?thesis using less.hyps [of "i + 1"] l eq 3 by simp
  qed
qed

lemma prefix_loop_length:
  assumes "\<And>j. j < length w1 \<Longrightarrow> unit_at s1 j = Some (w1 ! j)" "\<And>j. j < length w2 \<Longrightarrow> unit_at s2 j = Some (w2 ! j)"
    "m = min (length w1) (length w2)" "i \<le> m" "take i w1 = take i w2"
  shows "(take m w1 = take m w2 \<and> prefix_loop s1 s2 False (Some m) r i = Some (Inl r)) \<or>
    (\<exists>k. prefix_loop s1 s2 False (Some m) r i = Some (Inr k) \<and> k < m \<and> take k w1 = take k w2 \<and> w1 ! k \<noteq> w2 ! k)"
  using assms(4,5)
proof (induction "m - i" arbitrary: i rule: less_induct)
  case less
  show ?case
  proof (cases "i = m")
    case True
    then show ?thesis using less.prems by (subst prefix_loop.simps) simp
  next
    case False
    then have l: "i < length w1" "i < length w2" "i < m" using less.prems assms(3) by auto
    note eq = prefix_loop.simps [of s1 s2 False "Some m" r i] assms(1) [OF l(1)] assms(2) [OF l(2)]
    show ?thesis
    proof (cases "w1 ! i = w2 ! i")
      case True
      then have "take (i + 1) w1 = take (i + 1) w2" using l less.prems(2) by (simp add: take_Suc_conv_app_nth)
      then show ?thesis using less.hyps [of "i + 1"] l eq False True by simp
    next
      case nq: False
      then show ?thesis using eq False l less.prems(2) by (intro disjI2 exI [of _ i]) simp
    qed
  qed
qed

text \<open>What is compared: the code points or the units.\<close>

definition compared :: "bool \<Rightarrow> int list \<Rightarrow> int list" where
  "compared codePointOrder w = (if codePointOrder then cps w else w)"

abbreviation unit_list :: "int list \<Rightarrow> bool" where
  "unit_list w \<equiv> \<forall>u \<in> set w. 0 \<le> u \<and> u \<le> 0xffff"

lemma compared_prefix:
  assumes "n < length w"
  shows "compare_lists (compared b (take n w)) (compared b w) = -1 \<and> compare_lists (compared b w) (compared b (take n w)) = 1"
proof (cases b)
  case True
  then show ?thesis using prefix_is_less [OF assms] by (simp add: compared_def)
next
  case False
  have "w = take n w @ w ! n # drop (Suc n) w" using split_at [OF assms] .
  then show ?thesis using False compare_lists_append [of "take n w" "[]"] compare_lists_append [of "take n w" _ "[]"]
    by (metis append_Nil2 compare_lists.simps(2,3) compared_def)
qed

lemma compared_difference:
  assumes "i < length w1" "i < length w2" "take i w1 = take i w2" "w1 ! i \<noteq> w2 ! i" "unit_list w1" "unit_list w2"
  shows "compare_lists (compared b w1) (compared b w2) = sgn (if b then order_of (in_pair w1 i) (w1 ! i) (in_pair w2 i) (w2 ! i) else w1 ! i - w2 ! i)"
proof (cases b)
  case True
  then show ?thesis using first_difference [OF assms] by (simp add: compared_def)
next
  case False
  have "compare_lists w1 w2 = compare_lists (w1 ! i # drop (Suc i) w1) (w2 ! i # drop (Suc i) w2)"
    using split_at [OF assms(1)] split_at [OF assms(2)] assms(3) by (metis compare_lists_append)
  then show ?thesis using False assms(4) by (simp add: compared_def)
qed

lemma sgn_result: "sgn (if n1 < n2 then -1 else if n1 = n2 then 0 else (1::int)) = (if n1 < n2 then -1 else if n1 = n2 then 0 else 1)" for n1 n2 :: nat
  by simp

lemma compared_common:
  assumes "m = min (length w1) (length w2)" "take m w1 = take m w2"
  shows "compare_lists (compared b w1) (compared b w2) = (if length w1 < length w2 then -1 else if length w1 = length w2 then 0 else 1)"
proof -
  consider "length w1 < length w2" | "length w1 = length w2" | "length w2 < length w1" by linarith
  then show ?thesis
  proof cases
    case 1
    then have "w1 = take (length w1) w2" using assms by simp
    then show ?thesis using compared_prefix [OF 1, of b] 1 by simp
  next
    case 2
    then show ?thesis using assms by simp
  next
    case 3
    then have "w2 = take (length w2) w1" using assms by simp
    then show ?thesis using compared_prefix [OF 3, of b] 3 by simp
  qed
qed

lemma text_unit_pos: "has_text s (-1) w \<Longrightarrow> k < length w \<Longrightarrow> unit_list w \<Longrightarrow> 0 < w ! k"
  using has_text_nonzero [of s w k] nth_mem [of k w] by (auto simp: less_le)

lemma terminated_compares:
  assumes "has_text s1 (-1) w1" "has_text s2 (-1) w2" "unit_list w1" "unit_list w2"
  shows "\<exists>x. (do { r \<leftarrow> prefix_loop s1 s2 True None 0 0; case r of Inl x \<Rightarrow> Some x | Inr i \<Rightarrow> compare_at s1 None s2 None b i }) = Some x \<and>
    sgn x = compare_lists (compared b w1) (compared b w2)"
  using prefix_loop_terminated [OF assms(1,2), of 0, simplified]
proof (elim disjE exE conjE)
  fix k
  assume k: "prefix_loop s1 s2 True None 0 0 = Some (Inr k)" "k \<le> length w1" "k \<le> length w2" "take k w1 = take k w2" "unit_at s1 k \<noteq> unit_at s2 k"
  consider "k < length w1" "k < length w2" | "k = length w1" "k < length w2" | "k < length w1" "k = length w2" | "k = length w1" "k = length w2" using k(2,3) by linarith
  then show ?thesis
  proof cases
    case 1
    then have "w1 ! k \<noteq> w2 ! k" using k(5) has_text_nth [OF assms(1)] has_text_nth [OF assms(2)] by auto
    then show ?thesis using k(1) compare_at_orders [OF assms(1,2) 1, of None None b] compared_difference [OF 1 k(4) _ assms(3,4), of b] by simp
  next
    case 2
    have "w1 = take k w2" using k(4) 2 by simp
    moreover have c: "w2 ! k > 0" by (rule text_unit_pos [OF assms(2) 2(2) assms(4)])
    moreover have "compare_at s1 None s2 None b k = Some (0 - w2 ! k)"
      using has_text_end [OF assms(1)] has_text_nth [OF assms(2), of k] 2 by (simp add: compare_at_def)
    ultimately show ?thesis using k(1) compared_prefix [of k w2 b] 2 by (simp add: sgn_if)
  next
    case 3
    have "w2 = take k w1" using k(4) 3 by simp
    moreover have c: "w1 ! k > 0" by (rule text_unit_pos [OF assms(1) 3(1) assms(3)])
    moreover have "compare_at s1 None s2 None b k = Some (w1 ! k - 0)"
      using has_text_end [OF assms(2)] has_text_nth [OF assms(1), of k] 3 by (simp add: compare_at_def)
    ultimately show ?thesis using k(1) compared_prefix [of k w1 b] 3 by (simp add: sgn_if)
  next
    case 4
    then show ?thesis using k(5) has_text_end [OF assms(1)] has_text_end [OF assms(2)] by simp
  qed
qed auto

lemma u_strCompare_compares:
  assumes "has_text s1 l1 w1" "has_text s2 l2 w2" "unit_list w1" "unit_list w2" "same \<longrightarrow> s1 = s2"
  shows "\<exists>x. u_strCompare (Some s1) l1 (Some s2) l2 same b = Some x \<and> sgn x = compare_lists (compared b w1) (compared b w2)"
proof -
  have ge: "\<not> l1 < -1" "\<not> l2 < -1" using has_text_length [OF assms(1)] has_text_length [OF assms(2)] by force+
  have neg: "l1 < 0 \<longleftrightarrow> l1 = -1" "l2 < 0 \<longleftrightarrow> l2 = -1" using ge by auto
  show ?thesis
  proof (cases "l1 = -1 \<and> l2 = -1")
    case True
    show ?thesis
    proof (cases same)
      case s: True
      then have "u_strlen s1 = Some (length w1)" "u_strlen s1 = Some (length w2)"
        using True assms(1,2,5) u_strlen_length [of s1 w1] u_strlen_length [of s2 w2] by auto
      then have "length w1 = length w2" by simp
      then have "w1 = w2" using True assms(1,2,5) s by (auto simp: has_text_def)
      then show ?thesis using True s by (simp add: u_strCompare_def uprv_strCompare_def)
    next
      case False
      then show ?thesis using True terminated_compares [of s1 w1 s2 w2 b] assms by (simp add: u_strCompare_def uprv_strCompare_def)
    qed
  next
    case nt: False
    let ?m = "min (length w1) (length w2)"
    define lr :: int where "lr = (if length w1 < length w2 then -1 else if length w1 = length w2 then 0 else 1)"
    have slr: "sgn lr = lr" by (simp add: lr_def)
    have e: "u_strCompare (Some s1) l1 (Some s2) l2 same b =
      (if same then Some lr else do {
        r \<leftarrow> prefix_loop s1 s2 False (Some ?m) lr 0;
        case r of Inl x \<Rightarrow> Some x | Inr i \<Rightarrow> compare_at s1 (Some (length w1)) s2 (Some (length w2)) b i })"
      using nt ge neg sub_length [OF assms(1)] sub_length [OF assms(2)] by (auto simp: u_strCompare_def uprv_strCompare_def lr_def Let_def)
    show ?thesis
    proof (cases same)
      case True
      have "take ?m w1 = take ?m s1" "take ?m w2 = take ?m s2"
        using assms(1,2) by (auto simp: has_text_def min_def split: if_splits)
      then have "take ?m w1 = take ?m w2" using assms(5) True by simp
      then show ?thesis using e True compared_common [OF refl, of w1 w2 b] slr by (simp add: lr_def)
    next
      case False
      have "(take ?m w1 = take ?m w2 \<and> prefix_loop s1 s2 False (Some ?m) lr 0 = Some (Inl lr)) \<or>
        (\<exists>k. prefix_loop s1 s2 False (Some ?m) lr 0 = Some (Inr k) \<and> k < ?m \<and> take k w1 = take k w2 \<and> w1 ! k \<noteq> w2 ! k)"
        by (rule prefix_loop_length) (use has_text_nth [OF assms(1)] has_text_nth [OF assms(2)] in auto)
      then show ?thesis
      proof (elim disjE exE conjE)
        assume "take ?m w1 = take ?m w2" "prefix_loop s1 s2 False (Some ?m) lr 0 = Some (Inl lr)"
        then show ?thesis using e False compared_common [OF refl, of w1 w2 b] slr by (simp add: lr_def)
      next
        fix k assume k: "prefix_loop s1 s2 False (Some ?m) lr 0 = Some (Inr k)" "k < ?m" "take k w1 = take k w2" "w1 ! k \<noteq> w2 ! k"
        then have l: "k < length w1" "k < length w2" by auto
        show ?thesis using e False k(1) compare_at_orders [OF assms(1,2) l, of "Some (length w1)" "Some (length w2)" b]
            compared_difference [OF l k(3,4) assms(3,4), of b] by simp
      qed
    qed
  qed
qed

section \<open>Counting\<close>

lemma count_length_counts: "n \<le> length s \<Longrightarrow> count_length s n = Some (length (code_points (take n s)))"
proof (induction n arbitrary: s rule: less_induct)
  case (less n)
  show ?case
  proof (cases n)
    case (Suc m)
    then obtain c s' where s: "s = c # s'" using less.prems by (cases s) auto
    show ?thesis
    proof (cases "is_lead c \<and> 1 \<le> m \<and> is_trail (hd s')")
      case True
      then obtain d s2 k where d: "s' = d # s2" "m = Suc k" using less.prems s Suc by (cases s'; cases m) auto
      then show ?thesis using less.IH [of k s2] less.prems s Suc True by (simp add: unit_at_def)
    next
      case False
      have "count_length s' m = Some (length (code_points (take m s')))" using less.IH [of m s'] less.prems s Suc by simp
      moreover have "code_points (c # take m s') = (c, 1) # code_points (take m s')"
        using False less.prems s Suc by (cases s'; cases m) (auto simp: code_points_Cons)
      moreover have "(if is_lead c \<and> m \<ge> 1 then map_option is_trail (unit_at s' 0) else Some False) = Some False"
        using False less.prems s Suc by (cases s') (auto simp: unit_at_def)
      ultimately show ?thesis using s Suc by simp
    qed
  qed simp
qed

text \<open>The step of the loops over a string with a terminating zero.\<close>

lemma terminated_step:
  assumes "has_text s (-1) w" "w \<noteq> []"
  obtains c k where "unit_at s 0 = Some c" "c \<noteq> 0" "k = (if is_lead c \<and> 1 < length w \<and> is_trail (w ! 1) then 2 else 1)"
    "(if is_lead c then map_option is_trail (unit_at s 1) else Some False) = Some (k = 2)" "has_text (drop k s) (-1) (drop k w)"
    "length (code_points w) = Suc (length (code_points (drop k w)))" "0 < k" "k \<le> length w"
proof -
  obtain rest where s: "s = w @ 0 # rest" "0 \<notin> set w" using assms(1) by (auto simp: has_text_def)
  obtain c r where w: "w = c # r" using assms(2) by (cases w) auto
  define k where "k = (if is_lead c \<and> 1 < length w \<and> is_trail (w ! 1) then 2 else (1::nat))"
  have k: "0 < k" "k \<le> length w" using w by (auto simp: k_def Suc_le_eq)
  have "unit_at s 1 = Some (if 1 < length w then w ! 1 else 0)" using has_text_nth [OF assms(1), of 1] has_text_end [OF assms(1)] w by (cases r) auto
  then have "(if is_lead c then map_option is_trail (unit_at s 1) else Some False) = Some (k = 2)" by (auto simp: k_def is_trail_def)
  moreover have "has_text (drop k s) (-1) (drop k w)" using s k by (auto simp: has_text_def dest: in_set_dropD)
  moreover have "length (code_points w) = Suc (length (code_points (drop k w)))" using w by (cases r) (auto simp: k_def)
  moreover have "unit_at s 0 = Some c" "c \<noteq> 0" using s w by (auto simp: unit_at_def)
  ultimately show ?thesis using that k k_def by blast
qed

lemma count_terminated_counts: "has_text s (-1) w \<Longrightarrow> count_terminated s = Some (length (code_points w))"
proof (induction "length w" arbitrary: s w rule: less_induct)
  case less
  show ?case
  proof (cases "w = []")
    case True
    then show ?thesis using has_text_end [OF less.prems] by (subst count_terminated.simps) simp
  next
    case False
    obtain c k where c: "unit_at s 0 = Some c" "c \<noteq> 0" "k = (if is_lead c \<and> 1 < length w \<and> is_trail (w ! 1) then 2 else 1)"
      "(if is_lead c then map_option is_trail (unit_at s 1) else Some False) = Some (k = 2)" "has_text (drop k s) (-1) (drop k w)"
      "length (code_points w) = Suc (length (code_points (drop k w)))" "0 < k" "k \<le> length w" by (rule terminated_step [OF less.prems False])
    have k: "(if k = 2 then 2 else 1) = k" using c(3) by (simp split: if_splits)
    have "count_terminated (drop k s) = Some (length (code_points (drop k w)))" using less.hyps [OF _ c(5)] c(7,8) by simp
    then show ?thesis using c(1,2,4,6) k by (subst count_terminated.simps) simp
  qed
qed

lemma more_terminated_decides: "has_text s (-1) w \<Longrightarrow> more_terminated s n = Some (n < length (code_points w))"
proof (induction "length w" arbitrary: s w n rule: less_induct)
  case less
  show ?case
  proof (cases "w = []")
    case True
    then show ?thesis using has_text_end [OF less.prems] by (subst more_terminated.simps) simp
  next
    case False
    obtain c k where c: "unit_at s 0 = Some c" "c \<noteq> 0" "k = (if is_lead c \<and> 1 < length w \<and> is_trail (w ! 1) then 2 else 1)"
      "(if is_lead c then map_option is_trail (unit_at s 1) else Some False) = Some (k = 2)" "has_text (drop k s) (-1) (drop k w)"
      "length (code_points w) = Suc (length (code_points (drop k w)))" "0 < k" "k \<le> length w" by (rule terminated_step [OF less.prems False])
    have k: "(if k = 2 then 2 else 1) = k" using c(3) by (simp split: if_splits)
    have "more_terminated (drop k s) (n - 1) = Some (n - 1 < length (code_points (drop k w)))" using less.hyps [OF _ c(5)] c(7,8) by simp
    then show ?thesis using c(1,2,4,6) k by (subst more_terminated.simps) (cases n; auto)
  qed
qed

lemma code_points_bounds: "length (code_points w) \<le> length w" "length w \<le> 2 * length (code_points w)"
  by (induction w rule: code_points.induct) auto

lemma more_length_decides:
  assumes "n \<le> length s" "mx = int n - int number" "0 < mx"
  shows "more_length s n number mx = Some (number < length (code_points (take n s)))"
  using assms
proof (induction n arbitrary: s number mx rule: less_induct)
  case (less n)
  show ?case
  proof (cases n)
    case (Suc m)
    then obtain c s' where s: "s = c # s'" using less.prems by (cases s) auto
    show ?thesis
    proof (cases "number = 0")
      case True
      then show ?thesis using s Suc code_points_nonempty [of "c # take m s'"] by (auto simp: neq_Nil_conv length_greater_0_conv simp del: code_points.simps)
    next
      case nz: False
      then obtain j where j: "number = Suc j" by (cases number) auto
      show ?thesis
      proof (cases "is_lead c \<and> m \<noteq> 0 \<and> is_trail (hd s')")
        case True
        then obtain d s2 k where d: "s' = d # s2" "m = Suc k" using less.prems s Suc by (cases s'; cases m) auto
        have "length (code_points (take k s2)) \<le> k" using code_points_bounds(1) [of "take k s2"] by simp
        then show ?thesis using less.IH [of k s2 "mx - 1" j] less.prems s Suc True d j by (auto simp: unit_at_def)
      next
        case False
        have "code_points (c # take m s') = (c, 1) # code_points (take m s')"
          using False less.prems s Suc by (cases s'; cases m) (auto simp: code_points_Cons)
        moreover have "(if is_lead c \<and> m \<noteq> 0 then map_option is_trail (unit_at s 1) else Some False) = Some False"
          using False less.prems s Suc by (cases s') (auto simp: unit_at_def)
        moreover have "unit_at s 0 = Some c" using s by (simp add: unit_at_def)
        ultimately show ?thesis using less.IH [of m s' mx j] less.prems s Suc j by auto
      qed
    qed
  qed (use less.prems in auto)
qed

end
