(* ===== verification/UStringSpan.thy ===== *)
theory UStringSpan
  imports UStringCompare
begin

text \<open>
  Spans of code points that are in or out of a set of code points given as a string, and the tokenizer built on them
  (\<^verbatim>\<open>_matchFromSet\<close>, \<^verbatim>\<open>u_strpbrk\<close>, \<^verbatim>\<open>u_strcspn\<close>, \<^verbatim>\<open>u_strspn\<close> and \<^verbatim>\<open>u_strtok_r\<close> of \<^verbatim>\<open>common/ustring.cpp\<close>).
\<close>

section \<open>Model\<close>

fun bmp_length :: "int list \<Rightarrow> nat \<Rightarrow> nat option" where
  "bmp_length [] n = None"
| "bmp_length (c # m) n = (if c \<noteq> 0 \<and> \<not> is_surrogate c then bmp_length m (n + 1) else Some n)"

text \<open>
  The inner loops over the set from \<^verbatim>\<open>matchItr\<close> to \<^verbatim>\<open>matchLen\<close>, unit by unit and with \<^verbatim>\<open>U16_NEXT\<close>: whether the character is met.
\<close>

definition U16_NEXT :: "int list \<Rightarrow> nat \<Rightarrow> nat \<Rightarrow> (int \<times> nat) option" where
  "U16_NEXT s i len = do {
     c \<leftarrow> unit_at s i;
     if is_lead c \<and> i + 1 \<noteq> len then do {
       c2 \<leftarrow> unit_at s (i + 1);
       Some (if is_trail c2 then (get_supplementary c c2, i + 2) else (c, i + 1))
     } else Some (c, i + 1)
   }"

lemma U16_NEXT_advances: "U16_NEXT s i len = Some (c, j) \<Longrightarrow> i < j"
  by (auto simp: U16_NEXT_def bind_eq_Some_conv split: if_splits)

function meets_unit :: "int list \<Rightarrow> nat \<Rightarrow> nat \<Rightarrow> int \<Rightarrow> bool option" where
  "meets_unit matchSet matchItr matchLen c =
     (if matchItr < matchLen then do {
        m \<leftarrow> unit_at matchSet matchItr;
        if c = m then Some True else meets_unit matchSet (matchItr + 1) matchLen c
      } else Some False)"
  by auto
termination by (relation "measure (\<lambda>(m, k, n, c). n - k)") auto

function meets_cp :: "int list \<Rightarrow> nat \<Rightarrow> nat \<Rightarrow> int \<Rightarrow> bool option" where
  "meets_cp matchSet matchItr matchLen stringCh =
     (if matchItr < matchLen then do {
        (matchCh, next) \<leftarrow> U16_NEXT matchSet matchItr matchLen;
        if stringCh = matchCh then Some True else meets_cp matchSet next matchLen stringCh
      } else Some False)"
  by auto
termination by (relation "measure (\<lambda>(m, k, n, c). n - k)") (auto dest: U16_NEXT_advances)

declare meets_unit.simps [simp del] meets_cp.simps [simp del]

function match_loop :: "int list \<Rightarrow> int list \<Rightarrow> nat \<Rightarrow> nat \<Rightarrow> bool \<Rightarrow> nat \<Rightarrow> int option" where
  "match_loop s matchSet matchBMPLen matchLen polarity i = do {
     c \<leftarrow> unit_at s i;
     if c = 0 then Some (- int i - 1)
     else if \<not> is_surrogate c then do {
       met \<leftarrow> meets_unit matchSet 0 matchLen c;
       if met = polarity then Some (int i) else match_loop s matchSet matchBMPLen matchLen polarity (i + 1)
     }
     else do {
       pair \<leftarrow> (if is_lead c then map_option (\<lambda>c2. if is_trail c2 then Some c2 else None) (unit_at s (i + 1)) else Some None);
       let (stringCh, j) = (case pair of Some c2 \<Rightarrow> (get_supplementary c c2, i + 2) | None \<Rightarrow> (c, i + 1));
       met \<leftarrow> meets_cp matchSet matchBMPLen matchLen stringCh;
       if met = polarity then Some (int j - U16_LENGTH stringCh)
       else match_loop s matchSet matchBMPLen matchLen polarity j
     }
   }"
  by auto
termination
  by (relation "measure (\<lambda>(s, m, b, n, p, i). length s - i)") (auto simp: unit_at_def split: if_splits option.splits)

declare match_loop.simps [simp del]

definition matchFromSet :: "int list \<Rightarrow> int list \<Rightarrow> bool \<Rightarrow> int option" where
  "matchFromSet string matchSet polarity = do {
     matchBMPLen \<leftarrow> bmp_length matchSet 0;
     matchLen \<leftarrow> strlen_loop (drop matchBMPLen matchSet) matchBMPLen;
     match_loop string matchSet matchBMPLen matchLen polarity 0
   }"

definition u_strpbrk :: "int list \<Rightarrow> int list \<Rightarrow> nat option option" where
  "u_strpbrk string matchSet = do {
     idx \<leftarrow> matchFromSet string matchSet True;
     Some (if idx \<ge> 0 then Some (nat idx) else None)
   }"

definition u_strcspn :: "int list \<Rightarrow> int list \<Rightarrow> int option" where
  "u_strcspn string matchSet = do {
     idx \<leftarrow> matchFromSet string matchSet True;
     Some (if idx \<ge> 0 then idx else - idx - 1)
   }"

definition u_strspn :: "int list \<Rightarrow> int list \<Rightarrow> int option" where
  "u_strspn string matchSet = do {
     idx \<leftarrow> matchFromSet string matchSet False;
     Some (if idx \<ge> 0 then idx else - idx - 1)
   }"

text \<open>
  The tokenizer changes the block it works in. \<open>src\<close> and \<open>saveState\<close> are indices into it; the result is the block, the
  new state and the token. The test of \<^verbatim>\<open>*saveState\<close> before the last token is returned always succeeds, since \<^verbatim>\<open>*saveState\<close> is
  \<open>src\<close> or was found not to be NULL above.
\<close>

definition u_strtok_r :: "int list \<Rightarrow> nat option \<Rightarrow> int list \<Rightarrow> nat option \<Rightarrow> (int list \<times> nat option \<times> nat option) option" where
  "u_strtok_r block src delim saveState =
     (case (case src of Some p \<Rightarrow> Some p | None \<Rightarrow> saveState) of
        None \<Rightarrow> Some (block, saveState, None)
      | Some tokSource0 \<Rightarrow> do {
          nonDelimIdx \<leftarrow> u_strspn (drop tokSource0 block) delim;
          let tokSource = tokSource0 + nat nonDelimIdx;
          c \<leftarrow> unit_at block tokSource;
          if c \<noteq> 0 then do {
            nextToken \<leftarrow> u_strpbrk (drop tokSource block) delim;
            case nextToken of
              Some k \<Rightarrow> Some (block[tokSource + k := 0], Some (tokSource + k + 1), Some tokSource)
            | None \<Rightarrow> Some (block, None, Some tokSource)
          } else Some (block, None, None)
        })"

section \<open>Spans\<close>

lemma bmp_length_splits:
  assumes "0 \<notin> set m"
  shows "\<exists>k. bmp_length (m @ 0 # rest) n = Some (n + k) \<and> k \<le> length m \<and> (\<forall>c \<in> set (take k m). \<not> is_surrogate c) \<and>
    (k < length m \<longrightarrow> is_surrogate (m ! k))"
  using assms
proof (induction m arbitrary: n)
  case (Cons c m)
  show ?case
  proof (cases "is_surrogate c")
    case True
    then show ?thesis by (intro exI [of _ 0]) auto
  next
    case False
    obtain k where "bmp_length (m @ 0 # rest) (n + 1) = Some (n + 1 + k)" "k \<le> length m" "\<forall>c \<in> set (take k m). \<not> is_surrogate c" "k < length m \<longrightarrow> is_surrogate (m ! k)"
      using Cons.IH [of "n + 1"] Cons.prems by auto
    then show ?thesis using False Cons.prems by (intro exI [of _ "Suc k"]) auto
  qed
qed auto

lemma code_points_singles: "\<forall>c \<in> set p. \<not> is_surrogate c \<Longrightarrow> cps (p @ w) = p @ cps w"
proof (induction p)
  case (Cons c p)
  then have "\<not> is_lead c" by (auto simp: is_lead_def is_surrogate_def)
  then show ?case using Cons code_points_Cons [of c "p @ w"] by simp
qed simp

lemma single_in_cps:
  assumes "\<not> is_surrogate c" "c \<le> 0xffff"
  shows "c \<in> set m \<longleftrightarrow> c \<in> set (cps m)"
proof (induction m rule: code_points.induct)
  case (3 a b rest)
  have "is_lead a \<Longrightarrow> is_trail b \<Longrightarrow> c \<noteq> a \<and> c \<noteq> b \<and> c \<noteq> get_supplementary a b"
    using assms supplementary_order(3) [of a b a b] by (auto simp: is_surrogate_def is_lead_def is_trail_def)
  then show ?case using 3 by auto
qed auto

text \<open>The index of the first code point with a property, or the complement of the length.\<close>

definition span_index :: "(int \<Rightarrow> bool) \<Rightarrow> int list \<Rightarrow> int" where
  "span_index P w =
     (if \<exists>x \<in> set (cps w). P x then int (units_of (takeWhile (\<lambda>p. \<not> P (fst p)) (code_points w))) else - int (length w) - 1)"

lemma span_index_step:
  assumes "code_points w = (c, n) # code_points v" "length w = n + length v"
  shows "span_index P w = (if P c then 0 else if \<exists>x \<in> set (cps v). P x then int n + span_index P v else - int (length w) - 1)"
  using assms by (auto simp: span_index_def units_of_def)

lemma meets_unit_iff:
  assumes "n \<le> length m" "k \<le> n"
  shows "meets_unit m k n c = Some (c \<in> set (drop k (take n m)))"
  using assms(2)
proof (induction "n - k" arbitrary: k)
  case 0
  then show ?case by (subst meets_unit.simps) simp
next
  case (Suc d)
  then have k: "k < n" by simp
  then have "drop k (take n m) = m ! k # drop (k + 1) (take n m)" using assms(1) Cons_nth_drop_Suc [of k "take n m"] by simp
  then show ?case using Suc.hyps(1) [of "k + 1"] Suc.hyps(2) k assms(1) by (subst meets_unit.simps) (simp add: unit_at_def)
qed

lemma U16_NEXT_head:
  assumes "n \<le> length m" "k < n"
  shows "\<exists>x j. U16_NEXT m k n = Some (x, j) \<and> j \<le> n \<and> cps (drop k (take n m)) = x # cps (drop j (take n m))"
proof -
  have d: "drop k (take n m) = m ! k # drop (k + 1) (take n m)" using assms Cons_nth_drop_Suc [of k "take n m"] by simp
  show ?thesis
  proof (cases "k + 1 < n")
    case True
    then have "drop (k + 1) (take n m) = m ! (k + 1) # drop (k + 2) (take n m)" using assms(1) Cons_nth_drop_Suc [of "k + 1" "take n m"] by simp
    then show ?thesis using d True assms by (auto simp: U16_NEXT_def unit_at_def code_points_Cons)
  next
    case False
    then show ?thesis using d assms by (auto simp: U16_NEXT_def unit_at_def code_points_Cons)
  qed
qed

lemma meets_cp_iff:
  assumes "n \<le> length m" "k \<le> n"
  shows "meets_cp m k n c = Some (c \<in> set (cps (drop k (take n m))))"
  using assms(2)
proof (induction "n - k" arbitrary: k rule: less_induct)
  case less
  show ?case
  proof (cases "k < n")
    case True
    then obtain x j where j: "U16_NEXT m k n = Some (x, j)" "j \<le> n" "cps (drop k (take n m)) = x # cps (drop j (take n m))"
      using U16_NEXT_head [OF assms(1) True] by (elim exE conjE)
    then have "meets_cp m j n c = Some (c \<in> set (cps (drop j (take n m))))" using less.hyps [of j] U16_NEXT_advances [OF j(1)] True by simp
    moreover have "meets_cp m k n c = (if c = x then Some True else meets_cp m j n c)" using j(1) True by (subst meets_cp.simps) simp
    ultimately show ?thesis using j(3) by simp
  next
    case False
    then have "meets_cp m k n c = Some False" by (subst meets_cp.simps) (rule if_not_P)
    then show ?thesis using False less.prems by simp
  qed
qed

lemma match_loop_spans:
  assumes "has_text s (-1) w" "\<And>c. \<not> is_surrogate c \<Longrightarrow> c \<in> set w \<Longrightarrow> meets_unit ms 0 ml c = Some (c \<in> S)"
    "\<And>c. is_surrogate c \<or> 0xffff < c \<Longrightarrow> meets_cp ms mb ml c = Some (c \<in> S)" "w = u @ v" "unit_list w"
  shows "match_loop s ms mb ml polarity (length u) =
    Some (if \<exists>x \<in> set (cps v). (x \<in> S) = polarity then int (length u) + span_index (\<lambda>x. (x \<in> S) = polarity) v else - int (length w) - 1)"
  using assms(4)
proof (induction "length v" arbitrary: u v rule: less_induct)
  case less
  let ?P = "\<lambda>x. (x \<in> S) = polarity"
  show ?case
  proof (cases v)
    case Nil
    then show ?thesis using has_text_end [OF assms(1)] less.prems by (subst match_loop.simps) simp
  next
    case (Cons c r)
    then have i: "length u < length w" "w ! length u = c" "c \<in> set w" using less.prems by auto
    have c: "unit_at s (length u) = Some c" using has_text_nth [OF assms(1) i(1)] i(2) by simp
    have cu: "c \<noteq> 0" "c \<le> 0xffff" using has_text_nonzero [OF assms(1) i(1)] i assms(5) by auto
    note eq = match_loop.simps [of s ms mb ml polarity "length u"] c cu(1)
    have step: ?thesis if st: "code_points v = (ch, n) # code_points v'" "v = x @ v'" "length x = n" "0 < n"
        "match_loop s ms mb ml polarity (length u) = (if ?P ch then Some (int (length u)) else match_loop s ms mb ml polarity (length u + n))" for ch n v' x
    proof -
      have l: "length v = n + length v'" using st by simp
      have ih: "match_loop s ms mb ml polarity (length (u @ x)) =
          Some (if \<exists>x \<in> set (cps v'). ?P x then int (length (u @ x)) + span_index ?P v' else - int (length w) - 1)"
        by (rule less.hyps) (use l st less.prems in auto)
      show ?thesis using st(5) ih span_index_step [OF st(1) l, of ?P] st(1,3) by auto
    qed
    show ?thesis
    proof (cases "is_surrogate c")
      case False
      then have nl: "\<not> is_lead c" by (auto simp: is_lead_def is_surrogate_def)
      show ?thesis
        by (rule step [of c 1 r "[c]"]) (use eq False nl Cons assms(2) [OF False i(3)] in \<open>auto simp: code_points_Cons\<close>)
    next
      case sur: True
      have nx: "unit_at s (length u + 1) = Some (if r = [] then 0 else hd r)"
      proof (cases r)
        case Nil
        then show ?thesis using has_text_end [OF assms(1)] less.prems Cons by simp
      next
        case (Cons d r')
        then show ?thesis using has_text_nth [OF assms(1), of "length u + 1"] less.prems \<open>v = c # r\<close> by (simp add: nth_append)
      qed
      show ?thesis
      proof (cases "is_lead c \<and> r \<noteq> [] \<and> is_trail (hd r)")
        case True
        then obtain d r' where r: "r = d # r'" by (cases r) auto
        have big: "0xffff < get_supplementary c d" using supplementary_order(3) [of c d c d] True r by simp
        then have len: "U16_LENGTH (get_supplementary c d) = 2" by (simp add: U16_LENGTH_def)
        show ?thesis
          by (rule step [of "get_supplementary c d" 2 r' "[c, d]"])
            (use eq sur True nx r Cons len assms(3) [of "get_supplementary c d"] big in \<open>auto simp: Let_def\<close>)
      next
        case False
        have len: "U16_LENGTH c = 1" using cu(2) by (simp add: U16_LENGTH_def)
        have np: "(if is_lead c then map_option (\<lambda>c2. if is_trail c2 then Some c2 else None) (unit_at s (length u + 1)) else Some None) = Some None"
          using False nx by (auto simp: is_trail_def)
        show ?thesis
          by (rule step [of c 1 r "[c]"]) (use eq sur False np Cons len assms(3) [of c] in \<open>auto simp: Let_def code_points_Cons\<close>)
      qed
    qed
  qed
qed

lemma matchFromSet_spans:
  assumes "has_text s (-1) w" "has_text sub (-1) m" "unit_list w" "unit_list m"
  shows "matchFromSet s sub polarity = Some (span_index (\<lambda>x. (x \<in> set (cps m)) = polarity) w)"
proof -
  obtain rest where ms: "sub = m @ 0 # rest" "0 \<notin> set m" using assms(2) by (auto simp: has_text_def)
  obtain k where k: "bmp_length sub 0 = Some k" "k \<le> length m" "\<forall>c \<in> set (take k m). \<not> is_surrogate c"
    using bmp_length_splits [OF ms(2), of rest 0] ms(1) by auto
  have len: "strlen_loop (drop k sub) k = Some (length m)"
    using strlen_loop_length [of "drop k m" rest k] ms k(2) by (auto dest: in_set_dropD)
  have tk: "take (length m) sub = m" using ms by simp
  have cp: "cps m = take k m @ cps (drop k m)" using code_points_singles [OF k(3), of "drop k m"] by simp
  have small: "c \<in> set (take k m) \<Longrightarrow> \<not> is_surrogate c \<and> c \<le> 0xffff" for c using k(3) assms(4) by (auto dest: in_set_takeD)
  have lm: "length m \<le> length sub" using ms(1) by simp
  have "match_loop s sub k (length m) polarity (length ([] :: int list)) =
    Some (if \<exists>x \<in> set (cps w). (x \<in> set (cps m)) = polarity then int (length ([] :: int list)) + span_index (\<lambda>x. (x \<in> set (cps m)) = polarity) w else - int (length w) - 1)"
  proof (rule match_loop_spans [OF assms(1)])
    show "\<not> is_surrogate c \<Longrightarrow> c \<in> set w \<Longrightarrow> meets_unit sub 0 (length m) c = Some (c \<in> set (cps m))" for c
      using single_in_cps [of c m] assms(3) meets_unit_iff [OF lm, of 0 c] tk by simp
    show "is_surrogate c \<or> 0xffff < c \<Longrightarrow> meets_cp sub k (length m) c = Some (c \<in> set (cps m))" for c
      using cp small [of c] meets_cp_iff [OF lm k(2), of c] tk by auto
  qed (use assms(3) in auto)
  then show ?thesis using k(1) len tk by (auto simp: matchFromSet_def span_index_def)
qed

section \<open>Tokens\<close>

lemma code_points_split:
  "code_points w = xs @ ys \<Longrightarrow> code_points (take (units_of xs) w) = xs \<and> code_points (drop (units_of xs) w) = ys \<and> units_of xs \<le> length w"
proof (induction w arbitrary: xs rule: code_points.induct)
  case (2 c)
  then show ?case by (cases xs) (auto simp: units_of_def)
next
  case (3 c c2 rest)
  show ?case
  proof (cases xs)
    case Nil
    then show ?thesis using 3 by (simp add: units_of_def)
  next
    case (Cons x xs')
    show ?thesis
    proof (cases "is_lead c \<and> is_trail c2")
      case True
      then have "code_points rest = xs' @ ys" "x = (get_supplementary c c2, 2)" using 3 Cons by auto
      then show ?thesis using 3 True Cons by (simp add: units_of_def)
    next
      case False
      then have e: "code_points (c2 # rest) = xs' @ ys" "x = (c, 1)" using "3.prems" Cons by auto
      have ih: "code_points (take (units_of xs') (c2 # rest)) = xs' \<and> code_points (drop (units_of xs') (c2 # rest)) = ys \<and> units_of xs' \<le> length (c2 # rest)"
        using "3.IH"(2) False e by blast
      have u: "units_of xs = Suc (units_of xs')" using Cons e by (simp add: units_of_def)
      have "code_points (c # take (units_of xs') (c2 # rest)) = (c, 1) # code_points (take (units_of xs') (c2 # rest))"
        using False by (cases "units_of xs'") auto
      then show ?thesis using u ih e(2) Cons by simp
    qed
  qed
qed (auto simp: units_of_def)

lemma has_text_drop: "has_text s (-1) w \<Longrightarrow> n \<le> length w \<Longrightarrow> has_text (drop n s) (-1) (drop n w)"
  by (auto simp: has_text_def dest: in_set_dropD)

text \<open>The units before the first code point with a property.\<close>

definition run_length :: "(int \<Rightarrow> bool) \<Rightarrow> int list \<Rightarrow> nat" where
  "run_length P w = units_of (takeWhile (\<lambda>p. P (fst p)) (code_points w))"

lemma run_length_splits:
  "run_length P w \<le> length w" "\<forall>x \<in> set (cps (take (run_length P w) w)). P x" "cps (take (run_length P w) w) = takeWhile P (cps w)"
  "cps (drop (run_length P w) w) = dropWhile P (cps w)" "run_length P w = length w \<longleftrightarrow> (\<forall>x \<in> set (cps w). P x)"
proof -
  note sp = code_points_split [of w "takeWhile (\<lambda>p. P (fst p)) (code_points w)" "dropWhile (\<lambda>p. P (fst p)) (code_points w)", simplified, folded run_length_def]
  show "run_length P w \<le> length w" using sp by simp
  show t: "cps (take (run_length P w) w) = takeWhile P (cps w)" using sp by (simp add: takeWhile_map comp_def)
  show "\<forall>x \<in> set (cps (take (run_length P w) w)). P x" unfolding t by (auto dest: set_takeWhileD)
  show d: "cps (drop (run_length P w) w) = dropWhile P (cps w)" using sp by (simp add: dropWhile_map comp_def)
  have "drop (run_length P w) w = [] \<longleftrightarrow> (\<forall>x \<in> set (cps w). P x)" using d code_points_nonempty [of "drop (run_length P w) w"]
    by (metis dropWhile_eq_Nil_conv list.map_disc_iff)
  then show "run_length P w = length w \<longleftrightarrow> (\<forall>x \<in> set (cps w). P x)" using \<open>run_length P w \<le> length w\<close> by auto
qed

lemma span_index_run: "span_index P w = (if run_length (\<lambda>x. \<not> P x) w = length w then - int (length w) - 1 else int (run_length (\<lambda>x. \<not> P x) w))"
  using run_length_splits(5) [of "\<lambda>x. \<not> P x" w] by (auto simp: span_index_def run_length_def)

lemma spans_are_runs:
  assumes "has_text s (-1) w" "has_text sub (-1) m" "unit_list w" "unit_list m"
  shows "u_strspn s sub = Some (int (run_length (\<lambda>x. x \<in> set (cps m)) w))"
    "u_strcspn s sub = Some (int (run_length (\<lambda>x. x \<notin> set (cps m)) w))"
    "u_strpbrk s sub = Some (if run_length (\<lambda>x. x \<notin> set (cps m)) w < length w then Some (run_length (\<lambda>x. x \<notin> set (cps m)) w) else None)"
  using matchFromSet_spans [OF assms, of True] matchFromSet_spans [OF assms, of False]
    run_length_splits(1) [of "\<lambda>x. x \<in> set (cps m)" w] run_length_splits(1) [of "\<lambda>x. x \<notin> set (cps m)" w]
  by (auto simp: u_strspn_def u_strcspn_def u_strpbrk_def span_index_run)

text \<open>One call of the tokenizer, with delimiters in the BMP.\<close>

lemma u_strtok_r_token:
  assumes "(case src of Some p \<Rightarrow> Some p | None \<Rightarrow> saveState) = Some p" "has_text (drop p block) (-1) w" "has_text delim (-1) m"
    "unit_list w" "unit_list m"
    "n = run_length (\<lambda>x. x \<in> set (cps m)) w" "k = run_length (\<lambda>x. x \<notin> set (cps m)) (drop n w)"
  shows "u_strtok_r block src delim saveState = Some
    (if n = length w then (block, None, None)
     else if n + k = length w then (block, None, Some (p + n))
     else (block[p + n + k := 0], Some (p + n + k + 1), Some (p + n)))"
proof -
  have n: "n \<le> length w" using run_length_splits(1) assms(6) by simp
  have w': "has_text (drop n (drop p block)) (-1) (drop n w)" by (rule has_text_drop [OF assms(2) n])
  have ul: "unit_list (drop n w)" using assms(4) by (auto dest: in_set_dropD)
  have k: "k \<le> length (drop n w)" using run_length_splits(1) [of "\<lambda>x. x \<notin> set (cps m)" "drop n w"] assms(7) by simp
  have sp: "u_strspn (drop p block) delim = Some (int n)" using spans_are_runs(1) [OF assms(2,3,4,5)] assms(6) by simp
  have pb: "u_strpbrk (drop (p + n) block) delim = Some (if k < length (drop n w) then Some k else None)"
    using spans_are_runs(3) [OF w' assms(3) ul assms(5)] assms(7) by (simp add: add.commute)
  have le: "p \<le> length block" using assms(2) by (cases "p \<le> length block") (auto simp: has_text_def)
  have "unit_at block (p + n) = unit_at (drop p block) n" using le by (auto simp: unit_at_def)
  then have c: "unit_at block (p + n) = Some (if n < length w then w ! n else 0)"
    using has_text_end [OF assms(2)] has_text_nth [OF assms(2), of n] n by (cases "n < length w") auto
  have nz: "n < length w \<Longrightarrow> w ! n \<noteq> 0" using has_text_nonzero [OF assms(2)] by simp
  show ?thesis using assms(1) sp pb c nz n k by (auto simp: u_strtok_r_def Let_def)
qed

text \<open>What the token and the rest are afterwards.\<close>

lemma token_and_rest:
  assumes "has_text (drop p block) (-1) w" "n + k < length w" "block' = block[p + n + k := 0]"
  shows "has_text (drop (p + n) block') (-1) (take k (drop n w))" "has_text (drop (p + n + k + 1) block') (-1) (drop (n + k + 1) w)"
proof -
  obtain rest where b: "drop p block = w @ 0 # rest" "0 \<notin> set w" using assms(1) by (auto simp: has_text_def)
  have le: "p \<le> length block" using b by (metis append_is_Nil_conv drop_all list.distinct(1) nat_le_linear)
  have "drop p block' = (drop p block)[n + k := 0]" using assms(3) by (simp add: drop_update_swap add.assoc)
  then have d: "drop p block' = w[n + k := 0] @ 0 # rest" using b assms(2) by (simp add: list_update_append)
  have w: "w[n + k := 0] = take (n + k) w @ 0 # drop (Suc (n + k)) w" using assms(2) by (simp add: upd_conv_take_nth_drop)
  have "drop (p + n) block' = drop n (drop p block')" by (simp add: add.commute)
  also have "\<dots> = take k (drop n w) @ 0 # (drop (Suc (n + k)) w @ 0 # rest)" unfolding d w using assms(2) by (simp add: take_drop add.commute)
  finally have e1: "drop (p + n) block' = take k (drop n w) @ 0 # (drop (Suc (n + k)) w @ 0 # rest)" .
  then show "has_text (drop (p + n) block') (-1) (take k (drop n w))" using b(2) by (auto simp: has_text_def dest: in_set_takeD in_set_dropD)
  have "drop (p + n + k + 1) block' = drop (k + 1) (drop (p + n) block')" by (simp add: add.commute add.left_commute)
  also have "\<dots> = drop (n + k + 1) w @ 0 # rest" unfolding e1 using assms(2) by simp
  finally show "has_text (drop (p + n + k + 1) block') (-1) (drop (n + k + 1) w)" using b(2) by (auto simp: has_text_def dest: in_set_dropD)
qed

end
