(* ===== verification/Unescape.thy ===== *)
theory Unescape
  imports UStringProofs
begin

text \<open>
  Escape sequences in strings, \<^verbatim>\<open>u_unescapeAt\<close> and \<^verbatim>\<open>u_unescape\<close> of \<^verbatim>\<open>common/ustring.cpp\<close>. Characters of \<^verbatim>\<open>char\<close> strings are ASCII, where
  \<^verbatim>\<open>u_charsToUChars\<close> copies them.
\<close>

section \<open>Model\<close>

definition UNESCAPE_MAP :: "(int \<times> int) list" where
  "UNESCAPE_MAP = [(0x61, 0x07), (0x62, 0x08), (0x65, 0x1b), (0x66, 0x0c), (0x6e, 0x0a), (0x72, 0x0d), (0x74, 0x09), (0x76, 0x0b)]"

definition digit8 :: "int \<Rightarrow> int" where
  "digit8 c = (if c \<ge> 0x30 \<and> c \<le> 0x37 then c - 0x30 else -1)"

definition digit16 :: "int \<Rightarrow> int" where
  "digit16 c =
     (if c \<ge> 0x30 \<and> c \<le> 0x39 then c - 0x30
      else if c \<ge> 0x41 \<and> c \<le> 0x46 then c - (0x41 - 10)
      else if c \<ge> 0x61 \<and> c \<le> 0x66 then c - (0x61 - 10)
      else -1)"

text \<open>A value of type \<^verbatim>\<open>UChar32\<close>: reduced to 32 bits with sign.\<close>

definition to_int32 :: "int \<Rightarrow> int" where
  "to_int32 x = (x + 0x80000000) mod 0x100000000 - 0x80000000"

text \<open>The loop over the digits: \<^verbatim>\<open>result\<close>, \<^verbatim>\<open>*offset\<close>, \<^verbatim>\<open>n\<close> and the last character that was read.\<close>

function digit_loop :: "(nat \<Rightarrow> int) \<Rightarrow> nat \<Rightarrow> nat \<Rightarrow> nat \<Rightarrow> nat \<Rightarrow> nat \<Rightarrow> int \<Rightarrow> int \<Rightarrow> int \<times> nat \<times> nat \<times> int" where
  "digit_loop charAt len bits maxDig offset n result c =
     (if offset < len \<and> n < maxDig then
        let c' = charAt offset; dig = (if bits = 3 then digit8 c' else digit16 c') in
        if dig < 0 then (result, offset, n, c')
        else digit_loop charAt len bits maxDig (offset + 1) (n + 1) (to_int32 (result * 2 ^ bits + dig)) c'
      else (result, offset, n, c))"
  by auto
termination by (relation "measure (\<lambda>(charAt, len, bits, mx, offset, n, r, c). len - offset)") auto

declare digit_loop.simps [simp del]

fun map_lookup :: "(int \<times> int) list \<Rightarrow> int \<Rightarrow> int option" where
  "map_lookup [] c = None"
| "map_lookup ((a, b) # m) c = (if c = a then Some b else if c < a then None else map_lookup m c)"

text \<open>
  What the first character says about the digits: \<^verbatim>\<open>minDig\<close>, \<^verbatim>\<open>maxDig\<close>, \<^verbatim>\<open>bitsPerDigit\<close>, \<^verbatim>\<open>n\<close>, \<^verbatim>\<open>result\<close>, \<^verbatim>\<open>braces\<close> and \<^verbatim>\<open>*offset\<close>.
\<close>

definition digit_setup :: "(nat \<Rightarrow> int) \<Rightarrow> nat \<Rightarrow> nat \<Rightarrow> int \<Rightarrow> nat \<times> nat \<times> nat \<times> nat \<times> int \<times> bool \<times> nat" where
  "digit_setup charAt len offset c =
     (if c = 0x75 then (4, 4, 4, 0, 0, False, offset)
      else if c = 0x55 then (8, 8, 4, 0, 0, False, offset)
      else if c = 0x78 then
        (if offset < len \<and> charAt offset = 0x7b then (1, 8, 4, 0, 0, True, offset + 1) else (1, 2, 4, 0, 0, False, offset))
      else if digit8 c \<ge> 0 then (1, 3, 3, 1, digit8 c, False, offset)
      else (0, 0, 4, 0, 0, False, offset))"

lemma digit_loop_offset: "digit_loop charAt len bits mx offset n result c = (r, offset', n', c') \<Longrightarrow> offset \<le> offset' \<and> (offset \<le> len \<longrightarrow> offset' \<le> len)"
proof (induction charAt len bits mx offset n result c rule: digit_loop.induct)
  case (1 charAt len bits mx offset n result c)
  show ?case
  proof (cases "offset < len \<and> n < mx \<and> \<not> (if bits = 3 then digit8 (charAt offset) else digit16 (charAt offset)) < 0")
    case True
    then have "offset + 1 \<le> offset' \<and> (offset + 1 \<le> len \<longrightarrow> offset' \<le> len)"
      using "1.IH" [OF _ refl refl] "1.prems" by (simp add: digit_loop.simps [of charAt len bits mx offset] Let_def)
    then show ?thesis using True by simp
  next
    case False
    then show ?thesis using "1.prems" by (auto simp: digit_loop.simps [of charAt len bits mx offset] Let_def split: if_splits)
  qed
qed

lemma digit_setup_offset: "digit_setup charAt len offset c = (mn, mx, bits, n, result, braces, offset') \<Longrightarrow> offset \<le> offset'"
  by (auto simp: digit_setup_def split: if_splits)

text \<open>
  The hexadecimal and octal escapes up to the check of the result: \<open>None\<close> if the sequence is of another kind, \<open>Some None\<close>
  if it is invalid.
\<close>

definition parse_digits :: "(nat \<Rightarrow> int) \<Rightarrow> nat \<Rightarrow> nat \<Rightarrow> int \<Rightarrow> (int \<times> nat) option option" where
  "parse_digits charAt len offset c =
     (case digit_setup charAt len offset c of
        (minDig, maxDig, bits, n0, result0, braces, offset0) \<Rightarrow>
          if minDig = 0 then None
          else
            (case digit_loop charAt len bits maxDig offset0 n0 result0 c of
               (result, offset1, n, c1) \<Rightarrow>
                 if n < minDig then Some None
                 else if braces \<and> c1 \<noteq> 0x7d then Some None
                 else if result < 0 \<or> result \<ge> 0x110000 then Some None
                 else Some (Some (result, if braces then offset1 + 1 else offset1))))"

lemma parse_digits_offset: "parse_digits charAt len offset c = Some (Some (r, offset')) \<Longrightarrow> offset \<le> offset'"
proof -
  assume a: "parse_digits charAt len offset c = Some (Some (r, offset'))"
  obtain mn mx bits n0 r0 br o0 where ds: "digit_setup charAt len offset c = (mn, mx, bits, n0, r0, br, o0)" by (metis surj_pair)
  obtain res o1 n c1 where dl: "digit_loop charAt len bits mx o0 n0 r0 c = (res, o1, n, c1)" by (metis surj_pair)
  have "offset' = (if br then o1 + 1 else o1)" using a ds dl by (auto simp: parse_digits_def split: if_splits)
  then show ?thesis using digit_setup_offset [OF ds] digit_loop_offset [OF dl] by auto
qed

text \<open>The escapes without digits: the table, \<^verbatim>\<open>\c\<close>, and any other character.\<close>

definition unescape_other :: "(nat \<Rightarrow> int) \<Rightarrow> nat \<Rightarrow> nat \<Rightarrow> int \<Rightarrow> int \<times> nat" where
  "unescape_other charAt len offset c =
     (case map_lookup UNESCAPE_MAP c of
        Some v \<Rightarrow> (v, offset)
      | None \<Rightarrow>
          if c = 0x63 \<and> offset < len then
            let c1 = charAt offset in
            if is_lead c1 \<and> offset + 1 < len \<and> is_trail (charAt (offset + 1))
            then (get_supplementary c1 (charAt (offset + 1)) mod 32, offset + 2)
            else (c1 mod 32, offset + 1)
          else if is_lead c \<and> offset < len \<and> is_trail (charAt offset)
          then (get_supplementary c (charAt offset), offset + 1)
          else (c, offset))"

text \<open>The result, \<open>-1\<close> for an invalid sequence, and \<^verbatim>\<open>*offset\<close>.\<close>

function u_unescapeAt :: "(nat \<Rightarrow> int) \<Rightarrow> int \<Rightarrow> nat \<Rightarrow> int \<times> int" where
  "u_unescapeAt charAt start len =
     (if start < 0 \<or> start \<ge> int len then (-1, start)
      else
        (case parse_digits charAt len (nat start + 1) (charAt (nat start)) of
           None \<Rightarrow> (case unescape_other charAt len (nat start + 1) (charAt (nat start)) of (r, offset) \<Rightarrow> (r, int offset))
         | Some None \<Rightarrow> (-1, start)
         | Some (Some (result, offset)) \<Rightarrow>
             if offset < len \<and> is_lead result then
               (case (if charAt offset = 0x5c \<and> offset + 1 < len
                      then (case u_unescapeAt charAt (int offset + 1) len of (r, a) \<Rightarrow> (r mod 0x10000, a))
                      else (charAt offset, int offset + 1)) of
                  (c, ahead) \<Rightarrow> if is_trail c then (get_supplementary result c, ahead) else (result, int offset))
             else (result, int offset)))"
  by pat_completeness auto
termination
  by (relation "measure (\<lambda>(charAt, start, len). nat (int len - start))") (auto dest!: parse_digits_offset)

declare u_unescapeAt.simps [simp del]

text \<open>
  \<^verbatim>\<open>u_unescape\<close>: \<open>seg\<close> is the text since \<^verbatim>\<open>segment\<close>, \<open>i\<close> the length so far. \<open>put\<close> writes as much as there is room for.
\<close>

definition put :: "int list option \<Rightarrow> nat \<Rightarrow> int list \<Rightarrow> int list option" where
  "put dest i us = map_option (\<lambda>d. if i \<le> length d then take i d @ take (length d - i) us @ drop (i + length us) d else d) dest"

definition put_char :: "int list option \<Rightarrow> nat \<Rightarrow> int \<Rightarrow> int list option" where
  "put_char dest i c =
     (case dest of
        None \<Rightarrow> None
      | Some d \<Rightarrow> if U16_LENGTH c \<le> int (length d) - int i then put dest i (cp_units c) else dest)"

function unescape_loop :: "int list \<Rightarrow> int list \<Rightarrow> int list option \<Rightarrow> nat \<Rightarrow> (int list option + int list option \<times> nat) option" where
  "unescape_loop src seg dest i =
     (case src of
        [] \<Rightarrow> None
      | c # rest \<Rightarrow>
          if c = 0 then Some (Inr (put dest i seg, i + length seg))
          else if c = 0x5c then do {
            len \<leftarrow> u_strlen rest;
            let dest1 = put dest i seg;
            let i1 = i + length seg;
            let (c32, lenParsed) = u_unescapeAt (\<lambda>k. rest ! k) 0 len;
            if lenParsed = 0 then Some (Inl dest1)
            else if 0 < lenParsed then unescape_loop (drop (nat lenParsed) rest) [] (put_char dest1 i1 c32) (i1 + nat (U16_LENGTH c32))
            else None
          }
          else unescape_loop rest (seg @ [c]) dest i)"
  by pat_completeness auto
termination by (relation "measure (\<lambda>(src, seg, dest, i). length src)") auto

declare unescape_loop.simps [simp del]

definition u_unescape :: "int list \<Rightarrow> int list option \<Rightarrow> (int list option \<times> nat) option" where
  "u_unescape src dest = do {
     r \<leftarrow> unescape_loop src [] dest 0;
     Some (case r of
             Inr (d, i) \<Rightarrow> (map_option (\<lambda>d. if i < length d then d[i := 0] else d) d, i)
           | Inl d \<Rightarrow> (map_option (\<lambda>d. if 0 < length d then d[0 := 0] else d) d, 0))
   }"

section \<open>The index and the result\<close>

lemma digit_loop_brace:
  "digit_loop charAt len bits mx offset n result c = (r, offset', n', c') \<Longrightarrow> c' = 0x7d \<Longrightarrow> c \<noteq> 0x7d \<Longrightarrow> offset' < len"
proof (induction charAt len bits mx offset n result c rule: digit_loop.induct)
  case (1 charAt len bits mx offset n result c)
  define dig where "dig = (if bits = 3 then digit8 (charAt offset) else digit16 (charAt offset))"
  note eq = digit_loop.simps [of charAt len bits mx offset n result c, unfolded Let_def, folded dig_def] "1.prems"
  show ?case
  proof (cases "offset < len \<and> n < mx \<and> \<not> dig < 0")
    case True
    then have "charAt offset \<noteq> 0x7d" by (auto simp: dig_def digit8_def digit16_def split: if_splits)
    then show ?thesis using "1.IH" [OF _ refl dig_def] eq True by simp
  next
    case False
    then show ?thesis using eq by (auto split: if_splits)
  qed
qed

lemma parse_digits_bounds:
  assumes "parse_digits charAt len offset c = Some (Some (r, offset'))" "offset \<le> len"
  shows "offset \<le> offset' \<and> offset' \<le> len \<and> 0 \<le> r \<and> r < 0x110000"
proof -
  obtain mn mx bits n0 r0 br o0 where ds: "digit_setup charAt len offset c = (mn, mx, bits, n0, r0, br, o0)" by (metis surj_pair)
  obtain res o1 n c1 where dl: "digit_loop charAt len bits mx o0 n0 r0 c = (res, o1, n, c1)" by (metis surj_pair)
  have a: "offset' = (if br then o1 + 1 else o1)" "br \<longrightarrow> c1 = 0x7d" "r = res" "0 \<le> res" "res < 0x110000"
    using assms(1) ds dl by (auto simp: parse_digits_def split: if_splits)
  have "br \<Longrightarrow> c \<noteq> 0x7d" "o0 \<le> len" using ds assms(2) by (auto simp: digit_setup_def split: if_splits)
  then show ?thesis using a digit_loop_offset [OF dl] digit_loop_brace [OF dl] digit_setup_offset [OF ds] by auto
qed

lemma map_lookup_value: "map_lookup m c = Some v \<Longrightarrow> v \<in> snd ` set m"
  by (induction m c rule: map_lookup.induct) (auto split: if_splits)

lemma supplementary_range: "is_lead a \<Longrightarrow> is_trail b \<Longrightarrow> 0 \<le> get_supplementary a b \<and> get_supplementary a b \<le> 0x10ffff"
  by (auto simp: get_supplementary_def is_lead_def is_trail_def)

lemma unescape_other_bounds:
  assumes "unescape_other charAt len offset c = (r, offset')" "offset \<le> len" "0 \<le> c" "c \<le> 0xffff"
  shows "offset \<le> offset' \<and> offset' \<le> len \<and> 0 \<le> r \<and> r \<le> 0x10ffff"
proof (cases "map_lookup UNESCAPE_MAP c")
  case None
  have m: "0 \<le> (x::int) mod 32 \<and> x mod 32 \<le> 0x10ffff" for x by (smt (verit) pos_mod_bound pos_mod_sign)
  show ?thesis using assms None m supplementary_range by (auto simp: unescape_other_def Let_def split: if_splits)
next
  case (Some v)
  then have "v \<in> snd ` set UNESCAPE_MAP" by (rule map_lookup_value)
  then have "0 \<le> v \<and> v \<le> 0x10ffff" by (auto simp: UNESCAPE_MAP_def)
  then show ?thesis using assms Some by (simp add: unescape_other_def)
qed

lemma u_unescapeAt_bounds:
  assumes "\<And>k. 0 \<le> charAt k \<and> charAt k \<le> 0xffff" "0 \<le> start" "start < int len"
  shows "u_unescapeAt charAt start len = (-1, start) \<or>
    (\<exists>r offset. u_unescapeAt charAt start len = (r, offset) \<and> start < offset \<and> offset \<le> int len \<and> 0 \<le> r \<and> r \<le> 0x10ffff)"
  using assms(2,3)
proof (induction "nat (int len - start)" arbitrary: start rule: less_induct)
  case less
  let ?c = "charAt (nat start)" and ?p = "parse_digits charAt len (nat start + 1) (charAt (nat start))"
  note eq = u_unescapeAt.simps [of charAt start len]
  have le: "nat start + 1 \<le> len" using less.prems by linarith
  consider "?p = None" | "?p = Some None" | r offset where "?p = Some (Some (r, offset))" by (metis not_None_eq surj_pair)
  then show ?case
  proof cases
    case 1
    obtain r offset where o: "unescape_other charAt len (nat start + 1) ?c = (r, offset)" by (metis surj_pair)
    have "nat start + 1 \<le> offset \<and> offset \<le> len \<and> 0 \<le> r \<and> r \<le> 0x10ffff" using unescape_other_bounds [OF o le] assms(1) by auto
    then show ?thesis using 1 o eq less.prems by auto
  next
    case 2
    then show ?thesis using eq less.prems by simp
  next
    case 3
    have b: "nat start + 1 \<le> offset \<and> offset \<le> len \<and> 0 \<le> r \<and> r < 0x110000" using parse_digits_bounds [OF 3 le] .
    show ?thesis
    proof (cases "offset < len \<and> is_lead r")
      case False
      then show ?thesis using 3 b eq less.prems by auto
    next
      case True
      define q where "q = (if charAt offset = 0x5c \<and> offset + 1 < len
        then (case u_unescapeAt charAt (int offset + 1) len of (r, a) \<Rightarrow> (r mod 0x10000, a)) else (charAt offset, int offset + 1))"
      obtain c ahead where q: "q = (c, ahead)" by (cases q)
      have e: "u_unescapeAt charAt start len = (if is_trail c then (get_supplementary r c, ahead) else (r, int offset))"
        using 3 eq less.prems True q unfolding q_def by simp
      have ih: "int offset + 1 \<le> a \<and> a \<le> int len" if "offset + 1 < len" "u_unescapeAt charAt (int offset + 1) len = (x, a)" for x a
      proof -
        have "nat (int len - (int offset + 1)) < nat (int len - start)" "0 \<le> int offset + 1" "int offset + 1 < int len"
          using that(1) b less.prems by linarith+
        from less.hyps [OF this] show ?thesis using that by auto
      qed
      have "start < ahead \<and> ahead \<le> int len"
      proof (cases "charAt offset = 0x5c \<and> offset + 1 < len")
        case True
        obtain x a where "u_unescapeAt charAt (int offset + 1) len = (x, a)" by (metis surj_pair)
        then show ?thesis using ih [of x a] True q b less.prems by (auto simp: q_def)
      next
        case f: False
        then have "ahead = int offset + 1" using q by (auto simp: q_def)
        then show ?thesis using True b less.prems by auto
      qed
      then show ?thesis using e b True supplementary_range [of r c] less.prems by (auto split: if_splits)
    qed
  qed
qed

section \<open>Escape sequences and their values\<close>

text \<open>
  The forms of the documentation, with the characters behind the backslash: \<^verbatim>\<open>\uhhhh\<close>, \<^verbatim>\<open>\Uhhhhhhhh\<close>, \<^verbatim>\<open>\xhh\<close>, \<^verbatim>\<open>\x{h...}\<close>, \<^verbatim>\<open>\ooo\<close>, the
  letters of the table, \<^verbatim>\<open>\cX\<close> and any other character for itself.
\<close>

datatype escape_form = Hex4 "int list" | Hex8 "int list" | Hex2 "int list" | Braced "int list" | Octal "int list" | Letter int | Control int | Plain int

fun spelled :: "escape_form \<Rightarrow> int list" where
  "spelled (Hex4 ds) = 0x75 # ds"
| "spelled (Hex8 ds) = 0x55 # ds"
| "spelled (Hex2 ds) = 0x78 # ds"
| "spelled (Braced ds) = 0x78 # 0x7b # ds @ [0x7d]"
| "spelled (Octal ds) = ds"
| "spelled (Letter c) = [c]"
| "spelled (Control c) = [0x63, c]"
| "spelled (Plain c) = [c]"

definition digit_of :: "nat \<Rightarrow> int \<Rightarrow> int" where
  "digit_of bits c = (if bits = 3 then digit8 c else digit16 c)"

definition digits_value :: "nat \<Rightarrow> int \<Rightarrow> int list \<Rightarrow> int" where
  "digits_value bits r ds = foldl (\<lambda>r d. r * 2 ^ bits + digit_of bits d) r ds"

fun escape_value :: "escape_form \<Rightarrow> int" where
  "escape_value (Hex4 ds) = digits_value 4 0 ds"
| "escape_value (Hex8 ds) = digits_value 4 0 ds"
| "escape_value (Hex2 ds) = digits_value 4 0 ds"
| "escape_value (Braced ds) = digits_value 4 0 ds"
| "escape_value (Octal ds) = digits_value 3 0 ds"
| "escape_value (Letter c) = (case map_of UNESCAPE_MAP c of Some v \<Rightarrow> v | None \<Rightarrow> 0)"
| "escape_value (Control c) = c mod 32"
| "escape_value (Plain c) = c"

definition digits :: "nat \<Rightarrow> int list \<Rightarrow> bool" where
  "digits bits ds \<longleftrightarrow> (\<forall>d \<in> set ds. 0 \<le> digit_of bits d)"

fun escape_ok :: "escape_form \<Rightarrow> bool" where
  "escape_ok (Hex4 ds) \<longleftrightarrow> digits 4 ds \<and> length ds = 4"
| "escape_ok (Hex8 ds) \<longleftrightarrow> digits 4 ds \<and> length ds = 8 \<and> digits_value 4 0 ds \<le> 0x10ffff"
| "escape_ok (Hex2 ds) \<longleftrightarrow> digits 4 ds \<and> 1 \<le> length ds \<and> length ds \<le> 2"
| "escape_ok (Braced ds) \<longleftrightarrow> digits 4 ds \<and> 1 \<le> length ds \<and> length ds \<le> 7 \<and> digits_value 4 0 ds \<le> 0x10ffff"
| "escape_ok (Octal ds) \<longleftrightarrow> digits 3 ds \<and> 1 \<le> length ds \<and> length ds \<le> 3"
| "escape_ok (Letter c) \<longleftrightarrow> c \<in> fst ` set UNESCAPE_MAP"
| "escape_ok (Control c) \<longleftrightarrow> 0 < c \<and> c \<le> 0x7f"
| "escape_ok (Plain c) \<longleftrightarrow> 0 < c \<and> c \<le> 0x7f \<and> digit8 c < 0 \<and> c \<notin> {0x75, 0x55, 0x78, 0x63} \<and> c \<notin> fst ` set UNESCAPE_MAP"

text \<open>A character that would be read as one more digit.\<close>

fun continues :: "escape_form \<Rightarrow> int \<Rightarrow> bool" where
  "continues (Hex2 ds) c \<longleftrightarrow> length ds < 2 \<and> 0 \<le> digit16 c"
| "continues (Octal ds) c \<longleftrightarrow> length ds < 3 \<and> 0 \<le> digit8 c"
| "continues e c \<longleftrightarrow> False"

lemma to_int32_id: "0 \<le> x \<Longrightarrow> x < 0x80000000 \<Longrightarrow> to_int32 x = x"
  by (simp add: to_int32_def)

lemma digit_bounds: "digit_of 3 d < 8" "digit_of bits d < 16"
  by (auto simp: digit_of_def digit8_def digit16_def)

lemma digits_value_Cons: "digits_value bits r (d # ds) = digits_value bits (r * 2 ^ bits + digit_of bits d) ds"
  by (simp add: digits_value_def)

lemma digits_value_ge: "digits bits ds \<Longrightarrow> 0 \<le> r \<Longrightarrow> r \<le> digits_value bits r ds"
proof (induction ds arbitrary: r)
  case (Cons d ds)
  have "r * 1 \<le> r * 2 ^ bits" by (rule mult_left_mono) (use Cons.prems in simp_all)
  then have "r \<le> r * 2 ^ bits + digit_of bits d" using Cons.prems by (simp add: digits_def)
  then show ?case using Cons.IH [of "r * 2 ^ bits + digit_of bits d"] Cons.prems by (simp add: digits_value_Cons digits_def)
qed (simp add: digits_value_def)

lemma digits_value_less: "digits bits ds \<Longrightarrow> \<forall>d \<in> set ds. digit_of bits d < 2 ^ bits \<Longrightarrow> digits_value bits r ds < (r + 1) * 2 ^ (bits * length ds)"
proof (induction ds arbitrary: r)
  case (Cons d ds)
  let ?r = "r * 2 ^ bits + digit_of bits d"
  have "digits_value bits ?r ds < (?r + 1) * 2 ^ (bits * length ds)" using Cons by (simp add: digits_def)
  also have "\<dots> \<le> ((r + 1) * 2 ^ bits) * 2 ^ (bits * length ds)" by (rule mult_right_mono) (use Cons.prems in \<open>auto simp: algebra_simps\<close>)
  finally show ?case by (simp add: digits_value_Cons power_add algebra_simps)
qed (simp add: digits_value_def)

lemma small_numbers:
  assumes "digits bits ds" "bits = 3 \<and> length ds \<le> 3 \<or> bits = 4 \<and> length ds \<le> 4"
  shows "0 \<le> digits_value bits 0 ds" "digits_value bits 0 ds \<le> 0xffff"
proof -
  show "0 \<le> digits_value bits 0 ds" using digits_value_ge [OF assms(1), of 0] by simp
  have "\<forall>d \<in> set ds. digit_of bits d < 2 ^ bits" using assms(2) digit_bounds by auto
  from digits_value_less [OF assms(1) this, of 0] have "digits_value bits 0 ds < 2 ^ (bits * length ds)" by simp
  also have "\<dots> \<le> 2 ^ 16" by (rule power_increasing) (use assms(2) in auto)
  finally show "digits_value bits 0 ds \<le> 0xffff" by simp
qed

text \<open>The loop reads digits up to the maximum, the end of the text or another character.\<close>

lemma digit_loop_reads:
  assumes "digits bits ds" "\<And>k. k < length ds \<Longrightarrow> charAt (offset + k) = ds ! k" "offset + length ds \<le> len" "n + length ds \<le> mx" "0 \<le> r"
    "digits_value bits r ds < 0x80000000" "n + length ds = mx \<or> offset + length ds = len \<or> digit_of bits (charAt (offset + length ds)) < 0"
  shows "digit_loop charAt len bits mx offset n r c =
    (digits_value bits r ds, offset + length ds, n + length ds, if n + length ds < mx \<and> offset + length ds < len then charAt (offset + length ds) else last (c # ds))"
  using assms
proof (induction ds arbitrary: offset n r c)
  case Nil
  then show ?case by (subst digit_loop.simps) (auto simp: digits_value_def Let_def digit_of_def)
next
  case (Cons d ds)
  let ?r = "r * 2 ^ bits + digit_of bits d"
  have d: "charAt offset = d" "0 \<le> digit_of bits d" "digits bits ds" using Cons.prems(1) Cons.prems(2) [of 0] by (auto simp: digits_def)
  have r: "0 \<le> ?r" "digits_value bits ?r ds < 0x80000000" using Cons.prems(5,6) d(2) by (auto simp: digits_value_Cons)
  then have t: "to_int32 ?r = ?r" using digits_value_ge [OF d(3) r(1)] by (intro to_int32_id) auto
  have "digit_loop charAt len bits mx offset n r c = digit_loop charAt len bits mx (offset + 1) (n + 1) ?r d"
    using Cons.prems(3,4) d t by (subst digit_loop.simps) (simp add: Let_def digit_of_def)
  also have "\<dots> = (digits_value bits ?r ds, offset + 1 + length ds, n + 1 + length ds,
      if n + 1 + length ds < mx \<and> offset + 1 + length ds < len then charAt (offset + 1 + length ds) else last (d # ds))"
  proof (rule Cons.IH [OF d(3) _ _ _ r])
    show "charAt (offset + 1 + k) = ds ! k" if "k < length ds" for k using Cons.prems(2) [of "Suc k"] that by simp
    show "n + 1 + length ds = mx \<or> offset + 1 + length ds = len \<or> digit_of bits (charAt (offset + 1 + length ds)) < 0"
      using Cons.prems(7) by simp
  qed (use Cons.prems(3,4) in auto)
  finally show ?case by (simp add: digits_value_Cons)
qed

text \<open>\<open>stands charAt start len us\<close>: the characters from \<open>start\<close> on are \<open>us\<close>, inside of the text.\<close>

definition stands :: "(nat \<Rightarrow> int) \<Rightarrow> nat \<Rightarrow> nat \<Rightarrow> int list \<Rightarrow> bool" where
  "stands charAt start len us \<longleftrightarrow> (\<forall>k < length us. charAt (start + k) = us ! k) \<and> start + length us \<le> len"

lemma stands_Cons: "stands charAt start len (u # us) \<longleftrightarrow> charAt start = u \<and> stands charAt (start + 1) len us \<and> start < len"
proof -
  have "(\<forall>k < Suc (length us). charAt (start + k) = (u # us) ! k) \<longleftrightarrow> charAt start = u \<and> (\<forall>k < length us. charAt (start + 1 + k) = us ! k)"
    by (simp add: All_less_Suc2)
  then show ?thesis by (auto simp: stands_def)
qed

lemma stands_append: "stands charAt start len (us @ vs) \<longleftrightarrow> stands charAt start len us \<and> stands charAt (start + length us) len vs"
proof (induction us arbitrary: start)
  case (Cons u us)
  show ?case using Cons.IH [of "start + 1"] by (auto simp: stands_Cons)
qed (auto simp: stands_def)

lemma stands_digits:
  assumes "stands charAt offset len ds" "digits bits ds" "digits_value bits r ds < 0x80000000" "0 \<le> r" "n + length ds \<le> mx"
    "n + length ds = mx \<or> offset + length ds = len \<or> digit_of bits (charAt (offset + length ds)) < 0"
  shows "digit_loop charAt len bits mx offset n r c =
    (digits_value bits r ds, offset + length ds, n + length ds, if n + length ds < mx \<and> offset + length ds < len then charAt (offset + length ds) else last (c # ds))"
  by (rule digit_loop_reads) (use assms in \<open>auto simp: stands_def\<close>)

fun numeric :: "escape_form \<Rightarrow> bool" where
  "numeric (Letter c) = False"
| "numeric (Control c) = False"
| "numeric (Plain c) = False"
| "numeric e = True"

lemma value_range: "numeric e \<Longrightarrow> escape_ok e \<Longrightarrow> 0 \<le> escape_value e \<and> escape_value e \<le> 0x10ffff"
proof (cases e)
  case (Hex8 ds)
  then show "escape_ok e \<Longrightarrow> ?thesis" using digits_value_ge [of 4 ds 0] by auto
next
  case (Braced ds)
  then show "escape_ok e \<Longrightarrow> ?thesis" using digits_value_ge [of 4 ds 0] by auto
qed (use small_numbers [of 4] small_numbers [of 3] in fastforce)+

lemma parse_numeric:
  assumes "numeric e" "escape_ok e" "stands charAt start len (spelled e)"
    "start + length (spelled e) = len \<or> \<not> continues e (charAt (start + length (spelled e)))"
  shows "parse_digits charAt len (start + 1) (charAt start) = Some (Some (escape_value e, start + length (spelled e)))"
proof (cases e)
  case (Hex4 ds)
  then have d: "charAt start = 0x75" "stands charAt (start + 1) len ds" "digits 4 ds" "length ds = 4" using assms by (auto simp: stands_Cons)
  have "digits_value 4 0 ds < 0x80000000" using value_range [OF assms(1,2)] Hex4 by simp
  from stands_digits [OF d(2,3) this, of 0 4 "0x75"] show ?thesis
    using d value_range [OF assms(1,2)] Hex4 by (simp add: parse_digits_def digit_setup_def)
next
  case (Hex8 ds)
  then have d: "charAt start = 0x55" "stands charAt (start + 1) len ds" "digits 4 ds" "length ds = 8" using assms by (auto simp: stands_Cons)
  have "digits_value 4 0 ds < 0x80000000" using value_range [OF assms(1,2)] Hex8 by simp
  from stands_digits [OF d(2,3) this, of 0 8 "0x55"] show ?thesis
    using d value_range [OF assms(1,2)] Hex8 by (simp add: parse_digits_def digit_setup_def)
next
  case (Hex2 ds)
  then have d: "charAt start = 0x78" "stands charAt (start + 1) len ds" "digits 4 ds" "1 \<le> length ds" "length ds \<le> 2" using assms by (auto simp: stands_Cons)
  obtain x ds' where x: "ds = x # ds'" using d(4) by (cases ds) auto
  then have "0 \<le> digit16 x" "charAt (start + 1) = x" using d(2,3) by (auto simp: digits_def digit_of_def stands_Cons)
  then have nb: "charAt (start + 1) \<noteq> 0x7b" by (auto simp: digit16_def)
  have v: "digits_value 4 0 ds < 0x80000000" using value_range [OF assms(1,2)] Hex2 by simp
  have "0 + length ds = 2 \<or> start + 1 + length ds = len \<or> digit_of 4 (charAt (start + 1 + length ds)) < 0" using assms(4) Hex2 d(5) by (auto simp: digit_of_def)
  from stands_digits [OF d(2,3) v _ _ this, of "0x78"] show ?thesis
    using d x nb value_range [OF assms(1,2)] Hex2 by (simp add: parse_digits_def digit_setup_def)
next
  case (Braced ds)
  then have d: "charAt start = 0x78" "charAt (start + 1) = 0x7b" "stands charAt (start + 2) len ds" "digits 4 ds" "1 \<le> length ds" "length ds \<le> 7"
      "charAt (start + 2 + length ds) = 0x7d" "start + 2 + length ds < len" "start + 1 < len"
    using assms by (auto simp: stands_Cons stands_append)
  have "digits_value 4 0 ds < 0x80000000" using value_range [OF assms(1,2)] Braced by simp
  from stands_digits [OF d(3,4) this, of 0 8 "0x78"] show ?thesis
    using d value_range [OF assms(1,2)] Braced by (cases "ds = []") (simp_all add: parse_digits_def digit_setup_def digit_of_def digit16_def)
next
  case (Octal ds)
  then obtain x ds' where x: "ds = x # ds'" using assms(2) by (cases ds) auto
  then have d: "charAt start = x" "stands charAt (start + 1) len ds'" "digits 3 ds'" "0 \<le> digit8 x" "length ds' \<le> 2"
    using assms Octal by (auto simp: stands_Cons digits_def digit_of_def)
  have nx: "x \<noteq> 0x75" "x \<noteq> 0x55" "x \<noteq> 0x78" using d(4) by (auto simp: digit8_def)
  have e: "digits_value 3 0 ds = digits_value 3 (digit8 x) ds'" using x by (simp add: digits_value_Cons digit_of_def)
  have v: "digits_value 3 (digit8 x) ds' < 0x80000000" using value_range [OF assms(1,2)] Octal e by simp
  have "1 + length ds' = 3 \<or> start + 1 + length ds' = len \<or> digit_of 3 (charAt (start + 1 + length ds')) < 0" using assms(4) Octal x d(5) by (auto simp: digit_of_def)
  from stands_digits [OF d(2,3) v d(4) _ this, of x] show ?thesis
    using d nx e x value_range [OF assms(1,2)] Octal by (simp add: parse_digits_def digit_setup_def)
qed (use assms(1) in simp_all)

lemma map_lookup_None: "c \<notin> fst ` set m \<Longrightarrow> map_lookup m c = None"
  by (induction m c rule: map_lookup.induct) auto

lemma parse_other:
  assumes "\<not> numeric e" "escape_ok e" "stands charAt start len (spelled e)"
  shows "parse_digits charAt len (start + 1) (charAt start) = None"
    "unescape_other charAt len (start + 1) (charAt start) = (escape_value e, start + length (spelled e))"
    "0 \<le> escape_value e" "escape_value e \<le> 0x7f"
proof -
  have "parse_digits charAt len (start + 1) (charAt start) = None \<and>
    unescape_other charAt len (start + 1) (charAt start) = (escape_value e, start + length (spelled e)) \<and> 0 \<le> escape_value e \<and> escape_value e \<le> 0x7f"
  proof (cases e)
    case (Letter c)
    then have "charAt start = c" "c \<in> {0x61, 0x62, 0x65, 0x66, 0x6e, 0x72, 0x74, 0x76}" using assms by (auto simp: stands_Cons UNESCAPE_MAP_def)
    then show ?thesis using Letter by (elim insertE emptyE) (simp_all add: parse_digits_def digit_setup_def digit8_def unescape_other_def UNESCAPE_MAP_def)
  next
    case (Control c)
    then have c: "charAt start = 0x63" "charAt (start + 1) = c" "start + 1 < len" "0 < c" "c \<le> 0x7f" using assms by (auto simp: stands_Cons)
    have "c mod 32 < 32" by simp
    then show ?thesis using c Control
      by (simp add: parse_digits_def digit_setup_def digit8_def unescape_other_def UNESCAPE_MAP_def is_lead_def Let_def)
  next
    case (Plain c)
    then have c: "charAt start = c" "0 < c" "c \<le> 0x7f" "digit8 c < 0" "c \<notin> {0x75, 0x55, 0x78, 0x63}" "map_lookup UNESCAPE_MAP c = None"
      using assms map_lookup_None by (auto simp: stands_Cons)
    then show ?thesis using Plain by (auto simp: parse_digits_def digit_setup_def unescape_other_def is_lead_def)
  qed (use assms(1) in simp_all)
  then show "parse_digits charAt len (start + 1) (charAt start) = None"
    "unescape_other charAt len (start + 1) (charAt start) = (escape_value e, start + length (spelled e))"
    "0 \<le> escape_value e" "escape_value e \<le> 0x7f" by auto
qed

lemma spelled_starts: "escape_ok e \<Longrightarrow> stands charAt start len (spelled e) \<Longrightarrow> start < len \<and> 0 < length (spelled e)"
  by (cases e) (auto simp: stands_def)

text \<open>One sequence: its value; a lead surrogate takes the unit behind it when that is a trail surrogate.\<close>

lemma unescapeAt_form:
  assumes "escape_ok e" "stands charAt start len (spelled e)" "j = start + length (spelled e)" "j = len \<or> \<not> continues e (charAt j)"
    "is_lead (escape_value e) \<longrightarrow> j = len \<or> charAt j \<noteq> 0x5c \<and> \<not> is_trail (charAt j)"
  shows "u_unescapeAt charAt (int start) len = (escape_value e, int j)"
proof (cases "numeric e")
  case True
  show ?thesis using parse_numeric [OF True assms(1,2)] assms(3-5) spelled_starts [OF assms(1,2)] by (subst u_unescapeAt.simps) auto
next
  case False
  show ?thesis using parse_other [OF False assms(1,2)] assms(3) spelled_starts [OF assms(1,2)] by (subst u_unescapeAt.simps) auto
qed

lemma unescapeAt_pair:
  assumes "escape_ok a" "escape_ok b" "is_lead (escape_value a)" "is_trail (escape_value b)"
    "stands charAt start len (spelled a @ 0x5c # spelled b)" "j = start + length (spelled a @ 0x5c # spelled b)" "j = len \<or> \<not> continues b (charAt j)"
  shows "u_unescapeAt charAt (int start) len = (get_supplementary (escape_value a) (escape_value b), int j)"
proof -
  let ?k = "start + length (spelled a)"
  have st: "stands charAt start len (spelled a)" "charAt ?k = 0x5c" "stands charAt (?k + 1) len (spelled b)" "?k < len"
    using assms(5) by (auto simp: stands_append stands_Cons)
  have na: "numeric a" using parse_other(4) [OF _ assms(1) st(1)] assms(3) by (auto simp: is_lead_def)
  have "\<not> continues a 0x5c" by (cases a) (auto simp: digit16_def digit8_def)
  then have p: "parse_digits charAt len (start + 1) (charAt start) = Some (Some (escape_value a, ?k))" using parse_numeric [OF na assms(1) st(1)] st(2) by simp
  have nl: "\<not> is_lead (escape_value b)" "escape_value b mod 0x10000 = escape_value b" using assms(4) by (auto simp: is_lead_def is_trail_def)
  have "u_unescapeAt charAt (int (?k + 1)) len = (escape_value b, int j)"
    by (rule unescapeAt_form [OF assms(2) st(3)]) (use assms(6,7) nl in auto)
  then have b: "u_unescapeAt charAt (int ?k + 1) len = (escape_value b, int j)" by (simp add: add.commute)
  have "?k + 1 < len" using spelled_starts [OF assms(2) st(3)] by simp
  then show ?thesis using p b st(2,4) assms(3,4) nl(2) spelled_starts [OF assms(1) st(1)] by (subst u_unescapeAt.simps) simp
qed

section \<open>Texts with escape sequences\<close>

datatype item = Lit int | Esc escape_form | Pair escape_form escape_form

fun item_text :: "item \<Rightarrow> int list" where
  "item_text (Lit c) = [c]"
| "item_text (Esc e) = 0x5c # spelled e"
| "item_text (Pair a b) = 0x5c # spelled a @ 0x5c # spelled b"

fun item_value :: "item \<Rightarrow> int" where
  "item_value (Lit c) = c"
| "item_value (Esc e) = escape_value e"
| "item_value (Pair a b) = get_supplementary (escape_value a) (escape_value b)"

abbreviation written :: "item list \<Rightarrow> int list" where
  "written xs \<equiv> concat (map item_text xs)"

text \<open>
  What may follow: a sequence with fewer digits than it may have is not followed by another digit, and one for a lead
  surrogate that is not part of a pair not by a backslash.
\<close>

fun item_ok :: "item \<Rightarrow> int list \<Rightarrow> bool" where
  "item_ok (Lit c) rest \<longleftrightarrow> 0 < c \<and> c \<le> 0x7f \<and> c \<noteq> 0x5c"
| "item_ok (Esc e) rest \<longleftrightarrow> escape_ok e \<and> (rest = [] \<or> \<not> continues e (hd rest) \<and> (is_lead (escape_value e) \<longrightarrow> hd rest \<noteq> 0x5c))"
| "item_ok (Pair a b) rest \<longleftrightarrow> escape_ok a \<and> escape_ok b \<and> is_lead (escape_value a) \<and> is_trail (escape_value b) \<and> (rest = [] \<or> \<not> continues b (hd rest))"

fun items_ok :: "item list \<Rightarrow> bool" where
  "items_ok [] \<longleftrightarrow> True"
| "items_ok (x # xs) \<longleftrightarrow> item_ok x (written xs) \<and> items_ok xs"

abbreviation item_units :: "item list \<Rightarrow> int list" where
  "item_units xs \<equiv> concat (map (\<lambda>x. cp_units (item_value x)) xs)"

lemma digits_ascii: "digits bits ds \<Longrightarrow> d \<in> set ds \<Longrightarrow> 0 < d \<and> d \<le> 0x7f"
  by (auto simp: digits_def digit_of_def digit8_def digit16_def split: if_splits dest!: bspec)

lemma spelled_ascii: "escape_ok e \<Longrightarrow> d \<in> set (spelled e) \<Longrightarrow> 0 < d \<and> d \<le> 0x7f"
  using digits_ascii by (cases e) (auto simp: UNESCAPE_MAP_def)

lemma item_ascii: "item_ok x rest \<Longrightarrow> d \<in> set (item_text x) \<Longrightarrow> 0 < d \<and> d \<le> 0x7f"
  using spelled_ascii by (cases x) auto

lemma written_ascii: "items_ok xs \<Longrightarrow> d \<in> set (written xs) \<Longrightarrow> 0 < d \<and> d \<le> 0x7f"
  by (induction xs) (auto dest: item_ascii)

lemma stands_text: "stands (\<lambda>k. (us @ vs) ! k) 0 (length us + n) us"
  by (simp add: stands_def nth_append)

text \<open>One round of the loop: a character of the text or an escape sequence.\<close>

lemma unescape_literal:
  "c \<noteq> 0 \<Longrightarrow> c \<noteq> 0x5c \<Longrightarrow> unescape_loop (c # src) seg dest i = unescape_loop src (seg @ [c]) dest i"
  by (subst unescape_loop.simps) simp

lemma unescape_sequence:
  assumes "0 \<notin> set (sp @ tail)" "sp \<noteq> []" "u_unescapeAt (\<lambda>k. (sp @ tail @ 0 # rest) ! k) (int 0) (length sp + length tail) = (c, int (0 + length sp))"
  shows "unescape_loop (0x5c # sp @ tail @ 0 # rest) seg dest i =
    unescape_loop (tail @ 0 # rest) [] (put_char (put dest i seg) (i + length seg) c) (i + length seg + nat (U16_LENGTH c))"
proof -
  have "u_strlen (sp @ tail @ 0 # rest) = Some (length sp + length tail)"
    using strlen_loop_length [OF assms(1), of rest 0] by (simp add: u_strlen_def)
  then show ?thesis using assms(2,3) by (subst unescape_loop.simps) (simp add: Let_def)
qed

lemma unescape_item:
  assumes "item_ok x t" "\<And>d. d \<in> set t \<Longrightarrow> 0 < d \<and> d \<le> 0x7f" "\<nexists>c. x = Lit c"
  shows "unescape_loop (item_text x @ t @ 0 # rest) seg dest i =
    unescape_loop (t @ 0 # rest) [] (put_char (put dest i seg) (i + length seg) (item_value x)) (i + length seg + nat (U16_LENGTH (item_value x)))"
proof -
  obtain sp where sp: "item_text x = 0x5c # sp" using assms(3) by (cases x) auto
  let ?at = "\<lambda>k. (sp @ t @ 0 # rest) ! k"
  have z: "0 \<notin> set (sp @ t)" using item_ascii [OF assms(1)] assms(2) sp by fastforce
  have st: "stands ?at 0 (length sp + length t) sp" by (rule stands_text)
  have nx: "?at (length sp) = hd t" if "t \<noteq> []" using that by (cases t) (auto simp: nth_append)
  have nt: "\<not> is_trail (hd t)" if "t \<noteq> []" using assms(2) [OF hd_in_set [OF that]] by (auto simp: is_trail_def)
  have u: "u_unescapeAt ?at (int 0) (length sp + length t) = (item_value x, int (length sp)) \<and> sp \<noteq> []"
  proof (cases x)
    case (Esc e)
    then have e: "sp = spelled e" "escape_ok e" "t = [] \<or> \<not> continues e (hd t) \<and> (is_lead (escape_value e) \<longrightarrow> hd t \<noteq> 0x5c)" using assms(1) sp by auto
    have c: "length sp = length sp + length t \<or> \<not> continues e (?at (length sp))"
      "is_lead (escape_value e) \<longrightarrow> length sp = length sp + length t \<or> ?at (length sp) \<noteq> 0x5c \<and> \<not> is_trail (?at (length sp))"
      using e(3) nx nt by (cases "t = []"; simp)+
    have "u_unescapeAt ?at (int 0) (length sp + length t) = (escape_value e, int (length sp))"
      by (rule unescapeAt_form [OF e(2) st [unfolded e(1)] _ c [unfolded e(1)], folded e(1)]) (simp add: e(1))
    then show ?thesis using Esc e spelled_starts [OF e(2)] st by auto
  next
    case (Pair a b)
    then have e: "sp = spelled a @ 0x5c # spelled b" "escape_ok a" "escape_ok b" "is_lead (escape_value a)" "is_trail (escape_value b)" "t = [] \<or> \<not> continues b (hd t)"
      using assms(1) sp by auto
    have c: "length sp = length sp + length t \<or> \<not> continues b (?at (length sp))" using e(6) nx by (cases "t = []") simp_all
    have "u_unescapeAt ?at (int 0) (length sp + length t) = (get_supplementary (escape_value a) (escape_value b), int (length sp))"
      by (rule unescapeAt_pair [OF e(2-5) st [unfolded e(1)] _ c [unfolded e(1)], folded e(1)]) (simp add: e(1))
    then show ?thesis using Pair e(1) by simp
  qed (use assms(3) in auto)
  then show ?thesis using unescape_sequence [OF z _, of rest "item_value x" seg dest i] sp by simp
qed

lemma put_text:
  "length (pre @ us) \<le> length d \<Longrightarrow> put (Some (pre @ drop (length pre) d)) (length pre) us = Some ((pre @ us) @ drop (length (pre @ us)) d)"
  by (simp add: put_def add.commute)

lemma nat_U16_LENGTH: "nat (U16_LENGTH c) = length (cp_units c)"
  using length_cp_units [of c] by simp

lemma put_char_text:
  "length (pre @ cp_units c) \<le> length d \<Longrightarrow>
   put_char (Some (pre @ drop (length pre) d)) (length pre) c = Some ((pre @ cp_units c) @ drop (length (pre @ cp_units c)) d)"
  using put_text [of pre "cp_units c" d] length_cp_units [of c] by (simp add: put_char_def flip: length_cp_units)

lemma literal_units: "item_ok (Lit c) rest \<Longrightarrow> cp_units c = [c] \<and> c \<noteq> 0 \<and> c \<noteq> 0x5c"
  by (simp add: cp_units_def)

lemma unescape_loop_length:
  "items_ok xs \<Longrightarrow> \<exists>out. unescape_loop (written xs @ 0 # rest) seg dest i = Some (Inr (out, i + length seg + length (item_units xs)))"
proof (induction xs arbitrary: seg dest i)
  case Nil
  then show ?case by (subst unescape_loop.simps) simp
next
  case (Cons x xs)
  then have x: "item_ok x (written xs)" "items_ok xs" by auto
  show ?case
  proof (cases "\<exists>c. x = Lit c")
    case True
    then obtain c where c: "x = Lit c" by blast
    then show ?thesis using Cons.IH [OF x(2), of "seg @ [c]" dest i] literal_units [of c] x(1) by (simp add: unescape_literal)
  next
    case False
    then show ?thesis
      using Cons.IH [OF x(2), of "[]" "put_char (put dest i seg) (i + length seg) (item_value x)" "i + length seg + nat (U16_LENGTH (item_value x))"]
        unescape_item [OF x(1) written_ascii [OF x(2)] False, of rest seg dest i] by (simp add: nat_U16_LENGTH add.assoc)
  qed
qed

lemma unescape_loop_text:
  "items_ok xs \<Longrightarrow> length (pre @ seg @ item_units xs) \<le> length d \<Longrightarrow>
   unescape_loop (written xs @ 0 # rest) seg (Some (pre @ drop (length pre) d)) (length pre) =
     Some (Inr (Some ((pre @ seg @ item_units xs) @ drop (length (pre @ seg @ item_units xs)) d), length (pre @ seg @ item_units xs)))"
proof (induction xs arbitrary: pre seg)
  case Nil
  then show ?case using put_text [of pre seg d] by (subst unescape_loop.simps) simp
next
  case (Cons x xs)
  then have x: "item_ok x (written xs)" "items_ok xs" by auto
  show ?case
  proof (cases "\<exists>c. x = Lit c")
    case True
    then obtain c where c: "x = Lit c" by blast
    then show ?thesis using Cons.IH [OF x(2), of pre "seg @ [c]"] Cons.prems(2) literal_units [of c] x(1) by (simp add: unescape_literal)
  next
    case False
    let ?p = "pre @ seg" let ?c = "item_value x"
    have l: "length (?p @ cp_units ?c) \<le> length d" using Cons.prems(2) by simp
    then have "put_char (put (Some (pre @ drop (length pre) d)) (length pre) seg) (length ?p) ?c =
        Some ((?p @ cp_units ?c) @ drop (length (?p @ cp_units ?c)) d)"
      using put_text [of pre seg d] put_char_text [OF l] by simp
    then show ?thesis
      using Cons.IH [OF x(2), of "?p @ cp_units ?c" "[]"] Cons.prems(2) unescape_item [OF x(1) written_ascii [OF x(2)] False, of rest seg "Some (pre @ drop (length pre) d)" "length pre"]
      by (simp add: nat_U16_LENGTH add.assoc)
  qed
qed

lemma u_unescape_text:
  assumes "items_ok xs"
  shows "\<exists>out. u_unescape (written xs @ 0 # rest) dest = Some (out, length (item_units xs)) \<and>
    (\<forall>d. dest = Some d \<and> length (item_units xs) < length d \<longrightarrow> out = Some (item_units xs @ 0 # drop (length (item_units xs) + 1) d))"
proof -
  define us where "us = item_units xs"
  obtain out where l: "unescape_loop (written xs @ 0 # rest) [] dest 0 = Some (Inr (out, length us))"
    using unescape_loop_length [OF assms, of rest "[]" dest 0] by (auto simp: us_def)
  let ?o = "map_option (\<lambda>d. if length us < length d then d[length us := 0] else d) out"
  have u: "u_unescape (written xs @ 0 # rest) dest = Some (?o, length us)"
    using l by (simp add: u_unescape_def)
  have "?o = Some (us @ 0 # drop (length us + 1) d)" if d: "dest = Some d" "length us < length d" for d
  proof -
    have "out = Some (us @ drop (length us) d)"
      using unescape_loop_text [OF assms, of "[]" "[]" d rest, folded us_def] l d by simp
    moreover have "drop (length us) d = d ! length us # drop (Suc (length us)) d"
      using d(2) by (rule Cons_nth_drop_Suc [symmetric])
    ultimately show ?thesis using d(2) by (auto simp: list_update_append)
  qed
  then show ?thesis using u unfolding us_def by blast
qed

text \<open>
  Eight digits between braces are rejected: the loop stops at \<^verbatim>\<open>maxDig\<close> without reading the brace.
\<close>

lemma braces_with_eight_digits:
  "fst (u_unescapeAt (\<lambda>k. [0x78, 0x7b, 0x30, 0x30, 0x30, 0x30, 0x30, 0x30, 0x34, 0x31, 0x7d] ! k) 0 11) = -1 \<and>
   fst (u_unescapeAt (\<lambda>k. [0x78, 0x7b, 0x30, 0x30, 0x30, 0x30, 0x30, 0x34, 0x31, 0x7d] ! k) 0 10) = 0x41"
  by (simp add: u_unescapeAt.simps parse_digits_def digit_setup_def digit_loop.simps digit16_def digit8_def to_int32_def Let_def is_lead_def)

end
