(* ===== verification/UStringClaims.thy ===== *)
theory UStringClaims
  imports UStringSpan Unescape
begin

text \<open>
  What the string functions of \<^verbatim>\<open>common/ustring.cpp\<close> do, over the models of \<open>UString\<close>, \<open>UStringSpan\<close> and \<open>Unescape\<close>.
\<close>

section \<open>Searches\<close>

lemma end_readable_terminated: "has_text s len w \<Longrightarrow> end_readable s len w v \<Longrightarrow> end_readable s (int (length w)) w v"
  using has_text_end [of s w] by (cases "len = -1") (auto simp: end_readable_def is_trail_def)

text \<open>
  C25. \<^verbatim>\<open>u_strFindFirst\<close> and \<^verbatim>\<open>u_strFindLast\<close> return the first and the last occurrence of the substring that does not split a
  surrogate pair, or NULL when there is none, for NUL-terminated texts and for texts with a length. The substring is not empty, and
  not a single NUL in a NUL-terminated text. A text with a length that is searched for a substring which ends with a lead surrogate
  has a readable unit behind its end that is not a trail surrogate: the code reads it (lemma \<open>FindFirst_reads_behind_limit\<close>).
\<close>

theorem u_strFind_finds_matches:
  assumes "has_text s len w" "has_text sub sublen v" "v \<noteq> []" "len = -1 \<longrightarrow> v \<noteq> [0]" "end_readable s len w v"
  shows "u_strFindFirst (Some s) len (Some sub) sublen = Some (first_match w v) \<and>
    u_strFindLast (Some s) len (Some sub) sublen = Some (last_match w v)"
  using u_strFindFirst_finds [OF assms(1,2,5,4)] u_strFindLast_finds [OF assms(1-4) end_readable_terminated [OF assms(1,5)]] by simp

theorem u_strFind_finds_matches_witness:
  "u_strFindFirst (Some [0x61, 0xd800, 0xdc00, 0x62, 0xd800, 0x62, 0xd800, 0]) (-1) (Some [0xd800]) 1 = Some (Some 4) \<and>
   u_strFindLast (Some [0x61, 0xd800, 0xdc00, 0x62, 0xd800, 0x62, 0xd800, 0]) (-1) (Some [0xd800]) 1 = Some (Some 6)"
  using u_strFind_finds_matches [of "[0x61, 0xd800, 0xdc00, 0x62, 0xd800, 0x62, 0xd800, 0]" "-1" "[0x61, 0xd800, 0xdc00, 0x62, 0xd800, 0x62, 0xd800]" "[0xd800]" 1 "[0xd800]"]
  by (simp add: has_text_def end_readable_def first_match_def last_match_def matches_def boundary_def is_lead_def is_trail_def upt_rec)

text \<open>
  Behind the end of a text with a length the boundary test reads one more unit, and it rejects a match that ends there when
  that unit is a trail surrogate: with the length 1 the text is the single unit \<open>0xd800\<close>, which is not found in it.
\<close>

lemma FindFirst_reads_behind_limit:
  "u_strFindFirst (Some [0xd800, 0xdc00]) 1 (Some [0xd800]) 1 = Some None \<and> first_match [0xd800] [0xd800] = Some 0 \<and>
   u_strFindFirst (Some [0xd800]) 1 (Some [0xd800]) 1 = None"
  by code_simp

text \<open>
  C27. The searches for a code point (\<^verbatim>\<open>u_strchr32\<close>, \<^verbatim>\<open>u_strrchr32\<close>, \<^verbatim>\<open>u_memchr32\<close>, \<^verbatim>\<open>u_memrchr32\<close>) find its first and last
  occurrence as a code point: a supplementary one as a pair, a surrogate only outside of pairs; values that are no code
  points are never found. The code point is not U+0000, and a text with a length that is searched for a lead
  surrogate has a readable unit behind its end that is not a trail surrogate (see \<open>FindFirst_reads_behind_limit\<close>).
\<close>

theorem code_point_searches:
  assumes "has_text s (-1) w" "c \<noteq> 0" "has_text t len x" "len \<noteq> -1" "end_readable t len x [c]"
  shows "u_strchr32 s c = Some (if 0 \<le> c \<and> c \<le> 0x10ffff then first_match w (cp_units c) else None) \<and>
    u_strrchr32 s c = Some (if 0 \<le> c \<and> c \<le> 0x10ffff then last_match w (cp_units c) else None) \<and>
    u_memchr32 t c len = Some (if 0 \<le> c \<and> c \<le> 0x10ffff then first_match x (cp_units c) else None) \<and>
    u_memrchr32 t c len = Some (if 0 \<le> c \<and> c \<le> 0x10ffff then last_match x (cp_units c) else None)"
  using code_point_searches_terminated [OF assms(1,2)] code_point_searches_length [OF assms(3,4,5)] by simp

theorem code_point_searches_witness:
  "u_strchr32 [0x62, 0xd83d, 0xde00, 0xd83d, 0xde00, 0] 0x1f600 = Some (Some 1) \<and>
   u_strrchr32 [0x62, 0xd83d, 0xde00, 0xd83d, 0xde00, 0] 0x1f600 = Some (Some 3) \<and>
   u_memchr32 [0xd83d, 0xde00] 0x1f600 2 = Some (Some 0) \<and> u_memrchr32 [0xd83d, 0xde00] 0x1f600 2 = Some (Some 0)"
  using code_point_searches [of "[0x62, 0xd83d, 0xde00, 0xd83d, 0xde00, 0]" "[0x62, 0xd83d, 0xde00, 0xd83d, 0xde00]" "0x1f600" "[0xd83d, 0xde00]" 2 "[0xd83d, 0xde00]"]
  by (simp add: has_text_def end_readable_def first_match_def last_match_def matches_def boundary_def is_lead_def is_trail_def upt_rec cp_units_def U16_LEAD_def U16_TRAIL_def)

section \<open>Comparison and counting\<close>

text \<open>
  C26. \<^verbatim>\<open>u_strCompare\<close> returns a negative number, 0 or a positive number as the first text comes before, is equal to or comes
  after the second one in the lexicographic order of their code points (\<^verbatim>\<open>codePointOrder\<close>) or of their code units. The
  fix-up of the units that differ therefore is the order of the code points.
\<close>

theorem u_strCompare_orders:
  assumes "has_text s1 l1 w1" "has_text s2 l2 w2" "unit_list w1" "unit_list w2" "same \<longrightarrow> s1 = s2"
  shows "\<exists>x. u_strCompare (Some s1) l1 (Some s2) l2 same codePointOrder = Some x \<and>
    sgn x = compare_lists (compared codePointOrder w1) (compared codePointOrder w2)"
  using u_strCompare_compares [OF assms] .

theorem u_strCompare_orders_witness:
  "(\<exists>x. u_strCompare (Some [0xffff]) 1 (Some [0xd800, 0xdc00, 0]) (-1) False True = Some x \<and> sgn x = -1) \<and>
   (\<exists>x. u_strCompare (Some [0xffff]) 1 (Some [0xd800, 0xdc00, 0]) (-1) False False = Some x \<and> sgn x = 1)"
  using u_strCompare_orders [of "[0xffff]" 1 "[0xffff]" "[0xd800, 0xdc00, 0]" "-1" "[0xd800, 0xdc00]" False True]
    u_strCompare_orders [of "[0xffff]" 1 "[0xffff]" "[0xd800, 0xdc00, 0]" "-1" "[0xd800, 0xdc00]" False False]
  by (simp add: has_text_def compared_def is_lead_def is_trail_def get_supplementary_def)

lemma counts_agree:
  assumes "has_text s len w"
  shows "u_countChar32 (Some s) len = Some (length (code_points w))"
  using assms count_length_counts [of "nat len" s] count_terminated_counts [of s w]
  by (cases "len = -1") (auto simp: u_countChar32_def has_text_def)

lemma more_than_decides:
  assumes "has_text s len w"
  shows "u_strHasMoreChar32Than (Some s) len number = Some (number < int (length (code_points w)))"
proof (cases "number < 0 \<or> len = -1")
  case True
  then show ?thesis using assms more_terminated_decides [of s w "nat number"] by (auto simp: u_strHasMoreChar32Than_def)
next
  case False
  then have l: "0 \<le> len" "nat len \<le> length s" "w = take (nat len) s" "int (length w) = len" "0 \<le> number" using assms by (auto simp: has_text_def)
  have b: "length (code_points w) \<le> length w" "length w \<le> 2 * length (code_points w)" using code_points_bounds [of w] by auto
  show ?thesis
  proof (cases "(len + 1) div 2 > number \<or> len - number \<le> 0")
    case True
    then show ?thesis using l b False by (auto simp: u_strHasMoreChar32Than_def)
  next
    case f: False
    then show ?thesis using more_length_decides [OF l(2), of "len - number" "nat number"] l False by (simp add: u_strHasMoreChar32Than_def nat_less_iff)
  qed
qed

text \<open>
  \<^verbatim>\<open>u_countChar32\<close> counts the code points of a text, and \<^verbatim>\<open>u_strHasMoreChar32Than\<close>, which stops early at both sides,
  gives the answer that counting gives, for every number.
\<close>

theorem counting_code_points:
  assumes "has_text s len w"
  shows "u_countChar32 (Some s) len = Some (length (code_points w)) \<and>
    u_strHasMoreChar32Than (Some s) len number = map_option (\<lambda>n. number < int n) (u_countChar32 (Some s) len)"
  using counts_agree [OF assms] more_than_decides [OF assms] by simp

theorem counting_code_points_witness:
  "u_countChar32 (Some [0xd800, 0xdc00, 0x61, 0xd800]) 4 = Some 3 \<and>
   u_strHasMoreChar32Than (Some [0xd800, 0xdc00, 0x61, 0xd800]) 4 2 = Some True \<and>
   u_strHasMoreChar32Than (Some [0xd800, 0xdc00, 0x61, 0xd800]) 4 3 = Some False"
  using counting_code_points [of "[0xd800, 0xdc00, 0x61, 0xd800]" 4 "[0xd800, 0xdc00, 0x61, 0xd800]" 2]
    counting_code_points [of "[0xd800, 0xdc00, 0x61, 0xd800]" 4 "[0xd800, 0xdc00, 0x61, 0xd800]" 3]
  by (simp add: has_text_def is_lead_def is_trail_def)

section \<open>Spans and tokens\<close>

text \<open>
  The tokens of a sequence of code points, and the loop of a caller of \<^verbatim>\<open>u_strtok_r\<close>: the first call with the string, the
  next ones with NULL, until there is no token.
\<close>

function split_tokens :: "('a \<Rightarrow> bool) \<Rightarrow> 'a list \<Rightarrow> 'a list list" where
  "split_tokens D xs =
     (if dropWhile D xs = [] then []
      else takeWhile (\<lambda>x. \<not> D x) (dropWhile D xs) # split_tokens D (dropWhile (\<lambda>x. \<not> D x) (dropWhile D xs)))"
  by auto
termination
proof (relation "measure (\<lambda>(D, xs). length xs)", goal_cases)
  case (2 D xs)
  obtain y ys where y: "dropWhile D xs = y # ys" using 2 by (cases "dropWhile D xs") auto
  then have "\<not> D y" by (metis hd_dropWhile list.discI list.sel(1))
  then have "length (dropWhile (\<lambda>x. \<not> D x) (dropWhile D xs)) \<le> length ys" using y by (simp add: length_dropWhile_le)
  moreover have "length (y # ys) \<le> length xs" using y length_dropWhile_le by metis
  ultimately show ?case by simp
qed simp

declare split_tokens.simps [simp del]

fun strtok_texts :: "nat \<Rightarrow> int list \<Rightarrow> nat option \<Rightarrow> int list \<Rightarrow> nat option \<Rightarrow> int list list option" where
  "strtok_texts 0 block src delim saveState = None"
| "strtok_texts (Suc calls) block src delim saveState = do {
     (block', saveState', token) \<leftarrow> u_strtok_r block src delim saveState;
     case token of
       None \<Rightarrow> Some []
     | Some p \<Rightarrow> do {
         n \<leftarrow> u_strlen (drop p block');
         ts \<leftarrow> strtok_texts calls block' None delim saveState';
         Some (take n (drop p block') # ts)
       }
   }"

lemma delimiter_step:
  assumes "\<forall>c \<in> set m. \<not> is_surrogate c \<and> c \<le> 0xffff" "cps w = d # ds" "d \<in> set (cps m)"
  shows "cps (drop 1 w) = ds"
proof -
  have m: "cps m = m" using code_points_singles [of m "[]"] assms(1) by simp
  obtain c r where w: "w = c # r" using assms(2) by (cases w) auto
  have "d \<le> 0xffff" using assms(1,3) m by auto
  then have "\<not> (r \<noteq> [] \<and> is_lead c \<and> is_trail (hd r))"
    using assms(2) w by (auto simp: code_points_Cons get_supplementary_def is_lead_def is_trail_def)
  then show ?thesis using assms(2) w by (auto simp: code_points_Cons)
qed

lemma split_tokens_delimiter: "D d \<Longrightarrow> split_tokens D (d # ds) = split_tokens D ds"
  by (simp add: split_tokens.simps [of D "d # ds"] split_tokens.simps [of D ds])

lemma strtok_texts_end: "0 < calls \<Longrightarrow> strtok_texts calls block None delim None = Some []"
  by (cases calls) (simp_all add: u_strtok_r_def)

lemma strtok_texts_split:
  assumes m: "has_text delim (-1) m" "unit_list m" "\<forall>c \<in> set m. \<not> is_surrogate c"
  shows "(case src of Some p \<Rightarrow> Some p | None \<Rightarrow> saveState) = Some p \<Longrightarrow> has_text (drop p block) (-1) w \<Longrightarrow> unit_list w \<Longrightarrow>
    length w < calls \<Longrightarrow>
    \<exists>ts. strtok_texts calls block src delim saveState = Some ts \<and> map cps ts = split_tokens (\<lambda>x. x \<in> set (cps m)) (cps w)"
proof (induction calls arbitrary: block src saveState p w)
  case (Suc calls)
  let ?D = "\<lambda>x. x \<in> set (cps m)"
  define n where "n = run_length ?D w"
  define k where "k = run_length (\<lambda>x. \<not> ?D x) (drop n w)"
  note call = u_strtok_r_token [OF Suc.prems(1,2) m(1) Suc.prems(3) m(2) n_def k_def]
  note rn = run_length_splits [of ?D w, folded n_def] and rk = run_length_splits [of "\<lambda>x. \<not> ?D x" "drop n w", folded k_def]
  have nk: "n \<le> length w" "k \<le> length w - n" using rn(1) rk(1) by auto
  have eq: "split_tokens ?D (cps w) = (if n = length w then [] else cps (take k (drop n w)) # split_tokens ?D (cps (drop (n + k) w)))"
    unfolding split_tokens.simps [of ?D "cps w"] rn(4) [symmetric] rk(3) [symmetric] rk(4) [symmetric]
    using nk(1) by (simp add: code_points_nonempty add.commute)
  consider "n = length w" | "n < length w" "n + k = length w" | "n + k < length w" using nk by linarith
  then show ?case
  proof cases
    case 1
    then show ?thesis using call eq by simp
  next
    case 2
    have "u_strlen (drop (p + n) block) = Some (length w - n)" "take (length w - n) (drop (p + n) block) = drop n w"
      using u_strlen_length [OF has_text_drop [OF Suc.prems(2) nk(1)]] has_text_drop [OF Suc.prems(2) nk(1)] by (auto simp: has_text_def add.commute)
    moreover have "strtok_texts calls block None delim None = Some []" by (rule strtok_texts_end) (use 2 Suc.prems(4) in linarith)
    moreover have "split_tokens ?D [] = []" by (simp add: split_tokens.simps)
    moreover have "take k (drop n w) = drop n w" "drop (n + k) w = []" using 2 by auto
    ultimately show ?thesis using call 2 eq by simp
  next
    case 3
    define block' where "block' = block[p + n + k := 0]"
    note tr = token_and_rest [OF Suc.prems(2) 3 block'_def]
    have t: "u_strlen (drop (p + n) block') = Some k" "take k (drop (p + n) block') = take k (drop n w)"
      using u_strlen_length [OF tr(1)] tr(1) 3 by (auto simp: has_text_def)
    obtain d ds where d: "cps (drop (n + k) w) = d # ds" using code_points_nonempty [of "drop (n + k) w"] 3 by (cases "cps (drop (n + k) w)") auto
    have "dropWhile (\<lambda>x. \<not> ?D x) (cps (drop n w)) = d # ds" using rk(4) d by (simp only: drop_drop add.commute)
    then have D: "?D d" using hd_dropWhile [of "\<lambda>x. \<not> ?D x" "cps (drop n w)"] by (metis list.discI list.sel(1))
    have ds: "cps (drop (n + k + 1) w) = ds" using delimiter_step [OF _ d D] m(2,3) by auto
    have rest: "unit_list (drop (n + k + 1) w)" "length (drop (n + k + 1) w) < calls"
      using Suc.prems(3,4) 3 set_drop_subset [of "n + k + 1" w] by auto
    obtain ts where ts: "strtok_texts calls block' None delim (Some (p + n + k + 1)) = Some ts"
        "map cps ts = split_tokens ?D (cps (drop (n + k + 1) w))"
      using Suc.IH [of "Some (p + n + k + 1)" None "p + n + k + 1" block' "drop (n + k + 1) w"] tr(2) rest by auto
    have "u_strtok_r block src delim saveState = Some (block', Some (p + n + k + 1), Some (p + n))" using call 3 by (simp add: block'_def)
    then show ?thesis using t ts eq d ds 3 split_tokens_delimiter [of ?D d ds, OF D] by simp
  qed
qed simp

text \<open>
  C28. \<^verbatim>\<open>u_strspn\<close> and \<^verbatim>\<open>u_strcspn\<close> return the length of the longest prefix of code points in or out of the set, and
  \<^verbatim>\<open>u_strpbrk\<close> the first code point in the set; the prefix never ends inside a surrogate pair, and every call returns.
\<close>

theorem spans_of_code_points:
  assumes "has_text s (-1) w" "has_text matchSet (-1) m" "unit_list w" "unit_list m"
  shows "\<exists>i j. u_strspn s matchSet = Some (int i) \<and> u_strcspn s matchSet = Some (int j) \<and>
    u_strpbrk s matchSet = Some (if j < length w then Some j else None) \<and>
    cps (take i w) = takeWhile (\<lambda>x. x \<in> set (cps m)) (cps w) \<and> cps (drop i w) = dropWhile (\<lambda>x. x \<in> set (cps m)) (cps w) \<and>
    cps (take j w) = takeWhile (\<lambda>x. x \<notin> set (cps m)) (cps w) \<and> cps (drop j w) = dropWhile (\<lambda>x. x \<notin> set (cps m)) (cps w)"
  using spans_are_runs [OF assms] run_length_splits(3,4) [of "\<lambda>x. x \<in> set (cps m)" w] run_length_splits(3,4) [of "\<lambda>x. x \<notin> set (cps m)" w] by blast

theorem spans_of_code_points_witness:
  "\<exists>i. u_strspn [0xd800, 0xdc00, 0xd800, 0] [0xd800, 0xdc00, 0] = Some (int i) \<and> cps (take i [0xd800, 0xdc00, 0xd800]) = [0x10000]"
  using spans_of_code_points [of "[0xd800, 0xdc00, 0xd800, 0]" "[0xd800, 0xdc00, 0xd800]" "[0xd800, 0xdc00, 0]" "[0xd800, 0xdc00]"]
  by (auto simp: has_text_def is_lead_def is_trail_def get_supplementary_def)

text \<open>
  C29. Calling \<^verbatim>\<open>u_strtok_r\<close> with the string and then with NULL until it returns NULL ends after at most one call more than
  the string has units, and yields exactly the tokens of its code points between delimiters, for delimiters in the BMP.
\<close>

theorem u_strtok_r_yields_tokens:
  assumes "has_text block (-1) w" "has_text delim (-1) m" "unit_list w" "unit_list m" "\<forall>c \<in> set m. \<not> is_surrogate c" "length w < calls"
  shows "\<exists>ts. strtok_texts calls block (Some 0) delim saveState = Some ts \<and> map cps ts = split_tokens (\<lambda>x. x \<in> set (cps m)) (cps w)"
  by (rule strtok_texts_split [OF assms(2,4,5)]) (use assms in auto)

theorem u_strtok_r_yields_tokens_witness:
  "\<exists>ts. strtok_texts 7 [0x2c, 0x61, 0x2c, 0x2c, 0xd800, 0xdc00, 0] (Some 0) [0x2c, 0] None = Some ts \<and> map cps ts = [[0x61], [0x10000]]"
  using u_strtok_r_yields_tokens [of "[0x2c, 0x61, 0x2c, 0x2c, 0xd800, 0xdc00, 0]" "[0x2c, 0x61, 0x2c, 0x2c, 0xd800, 0xdc00]" "[0x2c, 0]" "[0x2c]" 7 None]
  by (simp add: has_text_def is_surrogate_def is_lead_def is_trail_def get_supplementary_def split_tokens.simps)

text \<open>
  Only one unit of the delimiter behind a token is overwritten: the trail surrogate of a supplementary delimiter comes to
  stand at the start of the next token.
\<close>

lemma strtok_supplementary_delimiter:
  "strtok_texts 5 [0x61, 0xd800, 0xdc00, 0x62, 0] (Some 0) [0xd800, 0xdc00, 0] None = Some [[0x61], [0xdc00, 0x62]]"
  by code_simp

section \<open>Escape sequences\<close>

text \<open>
  C30. \<^verbatim>\<open>u_unescape\<close> resolves every form of escape sequence in ASCII text: \<^verbatim>\<open>\uhhhh\<close>, \<^verbatim>\<open>\Uhhhhhhhh\<close>, \<^verbatim>\<open>\xhh\<close> with one or two digits, \<^verbatim>\<open>\x{h...}\<close>
  with one to seven (eight are rejected, lemma \<open>braces_with_eight_digits\<close>), \<^verbatim>\<open>\ooo\<close> with one to three octal digits, digits of either
  case, values at most U+10FFFF; the letters of the table; \<^verbatim>\<open>\cX\<close>; a backslash before any other character; and two sequences
  for a lead and a trail surrogate, which make one supplementary code point. A sequence with fewer digits than its maximum
  is not followed by a digit, a single lead surrogate not by another sequence. The result is the UTF-16 form of the values,
  written with its NUL when there is room, and its length is returned in any case.
\<close>

theorem u_unescape_resolves_escapes:
  assumes "items_ok xs"
  shows "\<exists>out. u_unescape (written xs @ 0 # rest) dest = Some (out, length (item_units xs)) \<and>
    (\<forall>d. dest = Some d \<and> length (item_units xs) < length d \<longrightarrow> out = Some (item_units xs @ 0 # drop (length (item_units xs) + 1) d))"
  using u_unescape_text [OF assms] .

theorem u_unescape_resolves_escapes_witness:
  "let xs = [Lit 0x61, Pair (Hex4 [0x64, 0x38, 0x33, 0x44]) (Hex4 [0x44, 0x45, 0x30, 0x30]), Esc (Letter 0x6e), Esc (Octal [0x31, 0x30]), Lit 0x39,
      Esc (Braced [0x31, 0x66, 0x36, 0x30, 0x30]), Esc (Hex2 [0x34, 0x31]), Esc (Control 0x41), Esc (Plain 0x5c)]
   in items_ok xs \<and> (\<exists>out. u_unescape (written xs @ [0]) None = Some (out, 11)) \<and>
      item_units xs = [0x61, 0xd83d, 0xde00, 0x0a, 0x08, 0x39, 0xd83d, 0xde00, 0x41, 0x01, 0x5c]"
proof -
  let ?xs = "[Lit 0x61, Pair (Hex4 [0x64, 0x38, 0x33, 0x44]) (Hex4 [0x44, 0x45, 0x30, 0x30]), Esc (Letter 0x6e), Esc (Octal [0x31, 0x30]), Lit 0x39,
      Esc (Braced [0x31, 0x66, 0x36, 0x30, 0x30]), Esc (Hex2 [0x34, 0x31]), Esc (Control 0x41), Esc (Plain 0x5c)]"
  have ok: "items_ok ?xs" by code_simp
  have u: "item_units ?xs = [0x61, 0xd83d, 0xde00, 0x0a, 0x08, 0x39, 0xd83d, 0xde00, 0x41, 0x01, 0x5c]" by code_simp
  then have "length (item_units ?xs) = 11" by (rule ssubst) simp
  then have "\<exists>out. u_unescape (written ?xs @ [0]) None = Some (out, 11)"
    using u_unescape_resolves_escapes [OF ok, of "[]" None] by (elim exE conjE) (rule exI, simp only:)
  then show ?thesis using ok u unfolding Let_def by blast
qed

text \<open>
  Every escape sequence that \<^verbatim>\<open>u_unescapeAt\<close> accepts gives a code point and moves the offset forward inside the text;
  otherwise it returns -1 and leaves the offset where it was.
\<close>

theorem u_unescapeAt_parses:
  assumes "\<And>k. 0 \<le> charAt k \<and> charAt k \<le> 0xffff"
  shows "u_unescapeAt charAt start len = (-1, start) \<or>
    (\<exists>r offset. u_unescapeAt charAt start len = (r, offset) \<and> start < offset \<and> offset \<le> int len \<and> 0 \<le> r \<and> r \<le> 0x10ffff)"
proof (cases "0 \<le> start \<and> start < int len")
  case True
  then show ?thesis using u_unescapeAt_bounds [of charAt start len, OF assms] by blast
next
  case False
  then show ?thesis by (subst (1) u_unescapeAt.simps) auto
qed

theorem u_unescapeAt_parses_witness:
  "u_unescapeAt (\<lambda>k. 0x75) 0 5 = (-1, 0) \<or>
    (\<exists>r offset. u_unescapeAt (\<lambda>k. 0x75) 0 5 = (r, offset) \<and> 0 < offset \<and> offset \<le> 5 \<and> 0 \<le> r \<and> r \<le> 0x10ffff)"
  using u_unescapeAt_parses [of "\<lambda>k. 0x75" 0 5] by simp

end
