(* ===== verification/UnicodeStr.thy ===== *)
theory UnicodeStr
  imports UString
begin

text \<open>
  The class \<^verbatim>\<open>UnicodeString\<close> (\<^verbatim>\<open>common/unistr.cpp\<close>, \<^verbatim>\<open>common/unicode/unistr.h\<close>): strings with a buffer inside the object, with a
  reference-counted buffer shared between copies, or as an alias of memory of the client.

  The model has an explicit store. String objects are numbered, as are the reference-counted blocks and the arrays of the client; a
  pointer is a region and an index into it. \<open>None\<close> is undefined behaviour: an access outside a block or to a freed block, a read of a
  member of the union that is not the active one, or an overflow of \<^verbatim>\<open>int32_t\<close> in \<^verbatim>\<open>allocate\<close>. One thread is modelled.
\<close>

section \<open>Objects and memory\<close>

datatype region = StackOf nat | Counted nat | Client nat

type_synonym ptr = "(region \<times> nat) option"

text \<open>The bit field \<^verbatim>\<open>fLengthAndFlags\<close> is its five flags and the length above them, which is negative for long strings.\<close>

record storage_flags =
  kBogus :: bool
  kUsingStackBuffer :: bool
  kRefCounted :: bool
  kBufferIsReadonly :: bool
  kOpenGetBuffer :: bool

definition kIsBogus :: storage_flags where
  "kIsBogus = \<lparr>kBogus = True, kUsingStackBuffer = False, kRefCounted = False, kBufferIsReadonly = False, kOpenGetBuffer = False\<rparr>"

definition kShortString :: storage_flags where
  "kShortString = \<lparr>kBogus = False, kUsingStackBuffer = True, kRefCounted = False, kBufferIsReadonly = False, kOpenGetBuffer = False\<rparr>"

definition kLongString :: storage_flags where
  "kLongString = \<lparr>kBogus = False, kUsingStackBuffer = False, kRefCounted = True, kBufferIsReadonly = False, kOpenGetBuffer = False\<rparr>"

definition kReadonlyAlias :: storage_flags where
  "kReadonlyAlias = \<lparr>kBogus = False, kUsingStackBuffer = False, kRefCounted = False, kBufferIsReadonly = True, kOpenGetBuffer = False\<rparr>"

definition kWritableAlias :: storage_flags where
  "kWritableAlias = \<lparr>kBogus = False, kUsingStackBuffer = False, kRefCounted = False, kBufferIsReadonly = False, kOpenGetBuffer = False\<rparr>"

text \<open>The union: \<open>fBuffer\<close>, or \<open>fArray\<close>, \<open>fCapacity\<close> and \<open>fLength\<close>, whichever was written last. Pointers have 64 bits.\<close>

definition US_STACKBUF_SIZE :: int where
  "US_STACKBUF_SIZE = 15"

definition kMaxShortLength :: int where
  "kMaxShortLength = 0x3ff"

definition kGrowSize :: int where
  "kGrowSize = 128"

datatype StackBufferOrFields = StackFields "int list" | Fields ptr int int

primrec fArray :: "StackBufferOrFields \<Rightarrow> ptr" where
  "fArray (StackFields b) = None"
| "fArray (Fields a c l) = a"

primrec fCapacity :: "StackBufferOrFields \<Rightarrow> int" where
  "fCapacity (StackFields b) = 0"
| "fCapacity (Fields a c l) = c"

primrec fLength :: "StackBufferOrFields \<Rightarrow> int" where
  "fLength (StackFields b) = 0"
| "fLength (Fields a c l) = l"

primrec fBuffer :: "int heap \<Rightarrow> StackBufferOrFields \<Rightarrow> int list" where
  "fBuffer e (StackFields b) = b"
| "fBuffer e (Fields a c l) = replicate (nat US_STACKBUF_SIZE) (junk e)"

record ustring =
  fFlags :: storage_flags
  fShortLength :: int
  fUnion :: StackBufferOrFields

record world =
  strs :: "nat \<Rightarrow> ustring option"
  blocks :: "nat \<Rightarrow> (int \<times> int list) option"
  nextBlock :: nat
  client :: "nat \<Rightarrow> int list"

definition put_str :: "nat \<Rightarrow> ustring \<Rightarrow> world \<Rightarrow> world" where
  "put_str t s w = w\<lparr>strs := (strs w)(t := Some s)\<rparr>"

definition put_block :: "nat \<Rightarrow> (int \<times> int list) option \<Rightarrow> world \<Rightarrow> world" where
  "put_block b x w = w\<lparr>blocks := (blocks w)(b := x)\<rparr>"

definition put_client :: "nat \<Rightarrow> int list \<Rightarrow> world \<Rightarrow> world" where
  "put_client c x w = w\<lparr>client := (client w)(c := x)\<rparr>"

text \<open>The memory from a pointer on, and writing \<open>us\<close> at index \<open>i\<close> of it.\<close>

fun mem :: "world \<Rightarrow> ptr \<Rightarrow> int list option" where
  "mem w None = None"
| "mem w (Some (StackOf t, i)) =
     (case strs w t of Some s \<Rightarrow> (case fUnion s of StackFields b \<Rightarrow> Some (drop i b) | Fields a c l \<Rightarrow> None) | None \<Rightarrow> None)"
| "mem w (Some (Counted b, i)) = (case blocks w b of Some (n, cs) \<Rightarrow> Some (drop i cs) | None \<Rightarrow> None)"
| "mem w (Some (Client c, i)) = Some (drop i (client w c))"

definition overlay :: "int list \<Rightarrow> nat \<Rightarrow> int list \<Rightarrow> int list" where
  "overlay cs i us = take i cs @ us @ drop (i + length us) cs"

fun poke :: "world \<Rightarrow> ptr \<Rightarrow> nat \<Rightarrow> int list \<Rightarrow> world option" where
  "poke w None i us = None"
| "poke w (Some (StackOf t, k)) i us =
     (case strs w t of
        Some s \<Rightarrow>
          (case fUnion s of
             StackFields b \<Rightarrow> if k + i + length us \<le> length b then Some (put_str t (s\<lparr>fUnion := StackFields (overlay b (k + i) us)\<rparr>) w) else None
           | Fields a c l \<Rightarrow> None)
      | None \<Rightarrow> None)"
| "poke w (Some (Counted b, k)) i us =
     (case blocks w b of
        Some (n, cs) \<Rightarrow> if k + i + length us \<le> length cs then Some (put_block b (Some (n, overlay cs (k + i) us)) w) else None
      | None \<Rightarrow> None)"
| "poke w (Some (Client c, k)) i us =
     (if k + i + length us \<le> length (client w c) then Some (put_client c (overlay (client w c) (k + i) us) w) else None)"

text \<open>A pointer argument: a local array of the caller, or memory of the store.\<close>

datatype source = Local "int list" | At ptr

primrec source_mem :: "world \<Rightarrow> source \<Rightarrow> int list option" where
  "source_mem w (Local xs) = Some xs"
| "source_mem w (At p) = mem w p"

definition us_arrayCopy :: "source \<Rightarrow> int \<Rightarrow> ptr \<Rightarrow> int \<Rightarrow> int \<Rightarrow> world \<Rightarrow> world option" where
  "us_arrayCopy src srcStart dst dstStart n w =
     (if n > 0 then do {
        cs \<leftarrow> source_mem w src;
        if 0 \<le> srcStart \<and> 0 \<le> dstStart \<and> srcStart + n \<le> int (length cs)
        then poke w dst (nat dstStart) (take (nat n) (drop (nat srcStart) cs)) else None
      } else Some w)"

section \<open>Queries on one object\<close>

definition us_length :: "ustring \<Rightarrow> int" where
  "us_length s = (if fShortLength s \<ge> 0 then fShortLength s else fLength (fUnion s))"

definition getCapacity :: "ustring \<Rightarrow> int" where
  "getCapacity s = (if kUsingStackBuffer (fFlags s) then US_STACKBUF_SIZE else fCapacity (fUnion s))"

definition getArrayStart :: "nat \<Rightarrow> ustring \<Rightarrow> ptr" where
  "getArrayStart t s = (if kUsingStackBuffer (fFlags s) then Some (StackOf t, 0) else fArray (fUnion s))"

definition us_isBogus :: "ustring \<Rightarrow> bool" where
  "us_isBogus s = kBogus (fFlags s)"

definition us_isEmpty :: "ustring \<Rightarrow> bool" where
  "us_isEmpty s \<longleftrightarrow> fShortLength s = 0"

definition isWritable :: "ustring \<Rightarrow> bool" where
  "isWritable s \<longleftrightarrow> \<not> (kOpenGetBuffer (fFlags s) \<or> kBogus (fFlags s))"

definition refCount :: "ptr \<Rightarrow> world \<Rightarrow> int option" where
  "refCount p w = (case p of Some (Counted b, i) \<Rightarrow> (case blocks w b of Some (n, cs) \<Rightarrow> Some n | None \<Rightarrow> None) | _ \<Rightarrow> None)"

definition isBufferWritable :: "ustring \<Rightarrow> world \<Rightarrow> bool option" where
  "isBufferWritable s w =
     (if kOpenGetBuffer (fFlags s) \<or> kBogus (fFlags s) \<or> kBufferIsReadonly (fFlags s) then Some False
      else if \<not> kRefCounted (fFlags s) then Some True
      else map_option (\<lambda>n. n = 1) (refCount (fArray (fUnion s)) w))"

definition pinIndex :: "ustring \<Rightarrow> int \<Rightarrow> int" where
  "pinIndex s start = (if start < 0 then 0 else if start > us_length s then us_length s else start)"

definition pinIndices :: "ustring \<Rightarrow> int \<Rightarrow> int \<Rightarrow> int \<times> int" where
  "pinIndices s start len =
     (let start' = (if start < 0 then 0 else if start > us_length s then us_length s else start) in
      (start', if len < 0 then 0 else if len > us_length s - start' then us_length s - start' else len))"

section \<open>Setting the fields\<close>

definition setZeroLength :: "ustring \<Rightarrow> ustring" where
  "setZeroLength s = s\<lparr>fShortLength := 0\<rparr>"

definition setShortLength :: "int \<Rightarrow> ustring \<Rightarrow> ustring" where
  "setShortLength len s = s\<lparr>fShortLength := len\<rparr>"

definition us_setLength :: "int \<Rightarrow> ustring \<Rightarrow> ustring" where
  "us_setLength len s =
     (if len \<le> kMaxShortLength then setShortLength len s
      else s\<lparr>fShortLength := -1, fUnion := Fields (fArray (fUnion s)) (fCapacity (fUnion s)) len\<rparr>)"

definition setFlags :: "storage_flags \<Rightarrow> ustring \<Rightarrow> ustring" where
  "setFlags f s = s\<lparr>fFlags := f, fShortLength := 0\<rparr>"

definition setFields :: "ptr \<Rightarrow> int \<Rightarrow> ustring \<Rightarrow> ustring" where
  "setFields a c s = s\<lparr>fUnion := Fields a c (fLength (fUnion s))\<rparr>"

definition setToEmpty :: "int heap \<Rightarrow> ustring \<Rightarrow> ustring" where
  "setToEmpty e s = (setFlags kShortString s)\<lparr>fUnion := StackFields (fBuffer e (fUnion s))\<rparr>"

definition setArray :: "ptr \<Rightarrow> int \<Rightarrow> int \<Rightarrow> ustring \<Rightarrow> ustring" where
  "setArray a len c s = setFields a c (us_setLength len s)"

definition us_upd :: "nat \<Rightarrow> (ustring \<Rightarrow> ustring) \<Rightarrow> world \<Rightarrow> world option" where
  "us_upd t f w = map_option (\<lambda>s. put_str t (f s) w) (strs w t)"

section \<open>Reference counts and allocation\<close>

definition addRef :: "ptr \<Rightarrow> world \<Rightarrow> world option" where
  "addRef p w =
     (case p of
        Some (Counted b, i) \<Rightarrow> (case blocks w b of Some (n, cs) \<Rightarrow> Some (put_block b (Some (n + 1, cs)) w) | None \<Rightarrow> None)
      | _ \<Rightarrow> None)"

definition removeRef :: "ptr \<Rightarrow> world \<Rightarrow> (world \<times> int) option" where
  "removeRef p w =
     (case p of
        Some (Counted b, i) \<Rightarrow> (case blocks w b of Some (n, cs) \<Rightarrow> Some (put_block b (Some (n - 1, cs)) w, n - 1) | None \<Rightarrow> None)
      | _ \<Rightarrow> None)"

definition free_block :: "ptr \<Rightarrow> world \<Rightarrow> world option" where
  "free_block p w =
     (case p of
        Some (Counted b, i) \<Rightarrow> if blocks w b = None then None else Some (put_block b None w)
      | _ \<Rightarrow> None)"

definition releaseArray :: "nat \<Rightarrow> world \<Rightarrow> world option" where
  "releaseArray t w = do {
     s \<leftarrow> strs w t;
     if kRefCounted (fFlags s) then do {
       (w1, n) \<leftarrow> removeRef (fArray (fUnion s)) w;
       if n = 0 then free_block (fArray (fUnion s)) w1 else Some w1
     } else Some w
   }"

definition us_allocate :: "int heap \<Rightarrow> int \<Rightarrow> nat \<Rightarrow> world \<Rightarrow> (world \<times> bool) option" where
  "us_allocate e capacity t w = do {
     s \<leftarrow> strs w t;
     if capacity \<le> US_STACKBUF_SIZE then Some (put_str t (setToEmpty e s) w, True)
     else if (capacity + 1) * 2 > INT32_MAX then None
     else
       let words = (4 + (capacity + 1) * 2 + 15) div 16 * 4 in
       case uprv_malloc e 4 words of
         Some x \<Rightarrow>
           (let c = (words - 1) * 2; b = nextBlock w in
            Some (put_str t (setFields (Some (Counted b, 0)) c (setFlags kLongString s))
                   (put_block b (Some (1, replicate (nat c) (junk e))) w\<lparr>nextBlock := b + 1\<rparr>), True))
       | None \<Rightarrow> Some (put_str t (setFields None 0 (setFlags kIsBogus s)) w, False)
   }"

definition setToBogus :: "nat \<Rightarrow> world \<Rightarrow> world option" where
  "setToBogus t w = do {
     w1 \<leftarrow> releaseArray t w;
     us_upd t (\<lambda>s. setFields None 0 (setFlags kIsBogus s)) w1
   }"

definition unBogus :: "int heap \<Rightarrow> nat \<Rightarrow> world \<Rightarrow> world option" where
  "unBogus e t w = us_upd t (\<lambda>s. if kBogus (fFlags s) then setToEmpty e s else s) w"

section \<open>Write access\<close>

text \<open>
  \<^verbatim>\<open>pBufferToDelete\<close> is there when \<open>delayed\<close> is true; the last component of the result is what is stored into it.
\<close>

definition cloneArrayIfNeeded :: "int heap \<Rightarrow> int \<Rightarrow> int \<Rightarrow> bool \<Rightarrow> bool \<Rightarrow> bool \<Rightarrow> nat \<Rightarrow> world \<Rightarrow> (world \<times> bool \<times> ptr) option" where
  "cloneArrayIfNeeded e newCapacity0 growCapacity0 doCopyArray delayed forceClone t w = do {
     s \<leftarrow> strs w t;
     let newCapacity = (if newCapacity0 = -1 then getCapacity s else newCapacity0);
     if \<not> isWritable s then Some (w, False, None)
     else do {
       shared \<leftarrow> (if kRefCounted (fFlags s) then map_option (\<lambda>n. n > 1) (refCount (fArray (fUnion s)) w) else Some False);
       if forceClone \<or> kBufferIsReadonly (fFlags s) \<or> shared \<or> newCapacity > getCapacity s then do {
         let growCapacity =
           (if growCapacity0 < 0 then newCapacity
            else if newCapacity \<le> US_STACKBUF_SIZE \<and> growCapacity0 > US_STACKBUF_SIZE then US_STACKBUF_SIZE
            else growCapacity0);
         let oldLength = us_length s;
         oldArray \<leftarrow>
           (if kUsingStackBuffer (fFlags s) then
              (if doCopyArray \<and> growCapacity > US_STACKBUF_SIZE
               then map_option (\<lambda>cs. Local (take (nat oldLength) cs)) (mem w (getArrayStart t s)) else Some (At None))
            else Some (At (fArray (fUnion s))));
         (w1, ok1) \<leftarrow> us_allocate e growCapacity t w;
         (w2, ok) \<leftarrow> (if ok1 then Some (w1, True)
                     else if newCapacity < growCapacity then us_allocate e newCapacity t w1 else Some (w1, False));
         if ok then do {
           s2 \<leftarrow> strs w2 t;
           w3 \<leftarrow>
             (if doCopyArray then do {
                let minLength = min oldLength (getCapacity s2);
                w' \<leftarrow> (if oldArray = At None then Some w2 else us_arrayCopy oldArray 0 (getArrayStart t s2) 0 minLength w2);
                us_upd t (us_setLength minLength) w'
              } else us_upd t setZeroLength w2);
           if kRefCounted (fFlags s) then do {
             (w4, n) \<leftarrow> removeRef (fArray (fUnion s)) w3;
             if n = 0 then
               (if delayed then Some (w4, True, fArray (fUnion s)) else map_option (\<lambda>w5. (w5, True, None)) (free_block (fArray (fUnion s)) w4))
             else Some (w4, True, None)
           } else Some (w3, True, None)
         } else do {
           w3 \<leftarrow> us_upd t (\<lambda>s2. (if kUsingStackBuffer (fFlags s) then s2 else setFields (fArray (fUnion s)) (fCapacity (fUnion s2)) s2)
                                \<lparr>fFlags := fFlags s, fShortLength := fShortLength s\<rparr>) w2;
           w4 \<leftarrow> setToBogus t w3;
           Some (w4, False, None)
         }
       } else Some (w, True, None)
     }
   }"

text \<open>\<^verbatim>\<open>cloneArrayIfNeeded()\<close> and \<^verbatim>\<open>cloneArrayIfNeeded(newCapacity)\<close> with the default arguments.\<close>

definition cloneArray :: "int heap \<Rightarrow> int \<Rightarrow> nat \<Rightarrow> world \<Rightarrow> (world \<times> bool) option" where
  "cloneArray e newCapacity t w = map_option (\<lambda>(w', ok, d). (w', ok)) (cloneArrayIfNeeded e newCapacity (-1) True False False t w)"

section \<open>Replacing\<close>

text \<open>
  The shortcuts for removals from a read-only alias: \<open>Some\<close> of the object when one applies.
\<close>

definition remove_readonly :: "int \<Rightarrow> int \<Rightarrow> int \<Rightarrow> ustring \<Rightarrow> ustring option" where
  "remove_readonly start len srcLength s =
     (if kBufferIsReadonly (fFlags s) \<and> srcLength = 0 then
        (if start = 0 then
           (let l = pinIndex s len in
            Some (us_setLength (us_length s - l)
                   (setFields (map_option (\<lambda>(r, i). (r, i + nat l)) (fArray (fUnion s))) (fCapacity (fUnion s) - l) s)))
         else
           (let st = pinIndex s start in
            if len \<ge> us_length s - st
            then Some (setFields (fArray (fUnion s)) st (us_setLength st s)) else None))
      else None)"

definition offset_ptr :: "source \<Rightarrow> int \<Rightarrow> source" where
  "offset_ptr src k = (case src of Local xs \<Rightarrow> Local xs | At p \<Rightarrow> At (map_option (\<lambda>(r, i). (r, i + nat k)) p))"

text \<open>Everything behind the shortcuts and the append: \<open>start\<close> and \<open>len\<close> are pinned.\<close>

definition replace_general :: "int heap \<Rightarrow> int \<Rightarrow> int \<Rightarrow> source \<Rightarrow> int \<Rightarrow> int \<Rightarrow> int \<Rightarrow> nat \<Rightarrow> world \<Rightarrow> world option" where
  "replace_general e start len src srcStart srcLength newLength t w = do {
     s \<leftarrow> strs w t;
     let oldLength = us_length s;
     oldArray \<leftarrow>
       (if kUsingStackBuffer (fFlags s) \<and> newLength > US_STACKBUF_SIZE
        then map_option (\<lambda>cs. Local (take (nat oldLength) cs)) (mem w (getArrayStart t s)) else Some (At (getArrayStart t s)));
     (w1, ok, bufferToDelete) \<leftarrow> cloneArrayIfNeeded e newLength (newLength + newLength div 4 + kGrowSize) False True False t w;
     if \<not> ok then Some w1
     else do {
       s1 \<leftarrow> strs w1 t;
       let newArray = getArrayStart t s1;
       w2 \<leftarrow>
         (if At newArray \<noteq> oldArray then do {
            w' \<leftarrow> us_arrayCopy oldArray 0 newArray 0 start w1;
            us_arrayCopy oldArray (start + len) newArray (start + srcLength) (oldLength - (start + len)) w'
          }
          else if len \<noteq> srcLength
          then us_arrayCopy oldArray (start + len) newArray (start + srcLength) (oldLength - (start + len)) w1
          else Some w1);
       w3 \<leftarrow> us_arrayCopy src srcStart newArray start srcLength w2;
       w4 \<leftarrow> us_upd t (us_setLength newLength) w3;
       if bufferToDelete = None then Some w4 else free_block bufferToDelete w4
     }
   }"

definition doReplace :: "int heap \<Rightarrow> int \<Rightarrow> int \<Rightarrow> source \<Rightarrow> int \<Rightarrow> int \<Rightarrow> nat \<Rightarrow> world \<Rightarrow> world option" where
  "doReplace e start len src0 srcStart0 srcLength0 t w = do {
     s \<leftarrow> strs w t;
     if \<not> isWritable s then Some w
     else
       let oldLength = us_length s in
       case remove_readonly start len srcLength0 s of
         Some s' \<Rightarrow> Some (put_str t s' w)
       | None \<Rightarrow> do {
           let start1 = (if kBufferIsReadonly (fFlags s) \<and> srcLength0 = 0 then pinIndex s start else start);
           let srcStart = (if src0 = At None then 0 else srcStart0);
           srcLength \<leftarrow>
             (if src0 = At None then Some 0
              else if srcLength0 < 0 then do {
                cs \<leftarrow> source_mem w src0;
                n \<leftarrow> u_strlen (drop (nat srcStart) cs);
                Some (int n)
              } else Some srcLength0);
           if start1 \<ge> oldLength then
             (if srcLength = 0 then Some w
              else do {
                let newLength = oldLength + srcLength;
                writable \<leftarrow> (if newLength \<le> getCapacity s then isBufferWritable s w else Some False);
                if writable then do {
                  w1 \<leftarrow> (if offset_ptr src0 srcStart \<noteq> offset_ptr (At (getArrayStart t s)) start1 \<or> start1 > oldLength
                         then us_arrayCopy src0 srcStart (getArrayStart t s) oldLength srcLength w else Some w);
                  us_upd t (us_setLength newLength) w1
                } else replace_general e oldLength 0 src0 srcStart srcLength newLength t w
              })
           else
             (case pinIndices s start1 len of
                (st, l) \<Rightarrow> replace_general e st l src0 srcStart srcLength (oldLength - l + srcLength) t w)
         }
   }"

text \<open>The variant for a string, \<open>src\<close>.\<close>

definition doReplace_string :: "int heap \<Rightarrow> int \<Rightarrow> int \<Rightarrow> nat \<Rightarrow> int \<Rightarrow> int \<Rightarrow> nat \<Rightarrow> world \<Rightarrow> world option" where
  "doReplace_string e start len src srcStart srcLength t w = do {
     s \<leftarrow> strs w src;
     if \<not> us_isBogus s then
       (case pinIndices s srcStart srcLength of (st, l) \<Rightarrow> doReplace e start len (At (getArrayStart src s)) st l t w)
     else doReplace e start len (At None) 0 0 t w
   }"

section \<open>Assignment\<close>

definition copyFrom :: "int heap \<Rightarrow> nat \<Rightarrow> bool \<Rightarrow> nat \<Rightarrow> world \<Rightarrow> world option" where
  "copyFrom e src fastCopy t w =
     (if t = src then Some w
      else do {
        s \<leftarrow> strs w src;
        if us_isBogus s then setToBogus t w
        else do {
          w1 \<leftarrow> releaseArray t w;
          if us_isEmpty s then us_upd t (setToEmpty e) w1
          else do {
            d0 \<leftarrow> strs w1 t;
            let d = d0\<lparr>fFlags := fFlags s, fShortLength := fShortLength s\<rparr>;
            let shared = d\<lparr>fUnion := Fields (fArray (fUnion s)) (fCapacity (fUnion s))
                            (if fShortLength s \<ge> 0 then fLength (fUnion d0) else fLength (fUnion s))\<rparr>;
            if fFlags s = kShortString then do {
              cs \<leftarrow> mem w1 (getArrayStart src s);
              Some (put_str t (d\<lparr>fUnion := StackFields (overlay (fBuffer e (fUnion d0)) 0 (take (nat (fShortLength s)) cs))\<rparr>) w1)
            }
            else if fFlags s = kLongString then do {
              w2 \<leftarrow> addRef (fArray (fUnion s)) w1;
              Some (put_str t shared w2)
            }
            else if fFlags s = kReadonlyAlias \<and> fastCopy then Some (put_str t shared w1)
            else if fFlags s = kReadonlyAlias \<or> fFlags s = kWritableAlias then do {
              (w2, ok) \<leftarrow> us_allocate e (us_length s) t (put_str t d w1);
              if ok then do {
                d2 \<leftarrow> strs w2 t;
                w3 \<leftarrow> us_arrayCopy (At (getArrayStart src s)) 0 (getArrayStart t d2) 0 (us_length s) w2;
                us_upd t (us_setLength (us_length s)) w3
              } else us_upd t (\<lambda>d. setFields None 0 (setFlags kIsBogus d)) w2
            }
            else Some (put_str t (setFields None 0 (setFlags kIsBogus d)) w1)
          }
        }
      })"

text \<open>Aliases of memory of the client. The memory of a writable alias must hold its capacity.\<close>

definition setTo_readonly :: "int heap \<Rightarrow> bool \<Rightarrow> ptr \<Rightarrow> int \<Rightarrow> nat \<Rightarrow> world \<Rightarrow> world option" where
  "setTo_readonly e isTerminated text textLength t w = do {
     s \<leftarrow> strs w t;
     if kOpenGetBuffer (fFlags s) then Some w
     else if text = None then do { w1 \<leftarrow> releaseArray t w; us_upd t (setToEmpty e) w1 }
     else do {
       cs \<leftarrow> mem w text;
       bad \<leftarrow> (if textLength < -1 \<or> (textLength = -1 \<and> \<not> isTerminated) then Some True
              else if textLength \<ge> 0 \<and> isTerminated then map_option (\<lambda>u. u \<noteq> 0) (unit_at cs (nat textLength)) else Some False);
       if bad then setToBogus t w
       else do {
         w1 \<leftarrow> releaseArray t w;
         n \<leftarrow> (if textLength = -1 then map_option int (u_strlen cs) else Some textLength);
         us_upd t (\<lambda>s. setArray text n (if isTerminated then n + 1 else n) (setFlags kReadonlyAlias s)) w1
       }
     }
   }"

definition setTo_writable :: "int heap \<Rightarrow> ptr \<Rightarrow> int \<Rightarrow> int \<Rightarrow> nat \<Rightarrow> world \<Rightarrow> world option" where
  "setTo_writable e buffer buffLength buffCapacity t w = do {
     s \<leftarrow> strs w t;
     if kOpenGetBuffer (fFlags s) then Some w
     else if buffer = None then do { w1 \<leftarrow> releaseArray t w; us_upd t (setToEmpty e) w1 }
     else if buffLength < -1 \<or> buffCapacity < 0 \<or> buffLength > buffCapacity then setToBogus t w
     else do {
       cs \<leftarrow> mem w buffer;
       let n = (if buffLength = -1 then int (length (takeWhile (\<lambda>u. u \<noteq> 0) (take (nat buffCapacity) cs))) else buffLength);
       w1 \<leftarrow> releaseArray t w;
       us_upd t (\<lambda>s. setArray buffer n buffCapacity (setFlags kWritableAlias s)) w1
     }
   }"

section \<open>Constructors and destructor\<close>

definition us_new :: "int heap \<Rightarrow> nat \<Rightarrow> world \<Rightarrow> world" where
  "us_new e t w =
     put_str t \<lparr>fFlags = kShortString, fShortLength = 0, fUnion = StackFields (replicate (nat US_STACKBUF_SIZE) (junk e))\<rparr> w"

definition us_new_copy :: "int heap \<Rightarrow> nat \<Rightarrow> nat \<Rightarrow> world \<Rightarrow> world option" where
  "us_new_copy e src t w = copyFrom e src False t (us_new e t w)"

definition us_new_text :: "int heap \<Rightarrow> source \<Rightarrow> int \<Rightarrow> nat \<Rightarrow> world \<Rightarrow> world option" where
  "us_new_text e text textLength t w = doReplace e 0 0 text 0 textLength t (us_new e t w)"

definition us_new_fill :: "int heap \<Rightarrow> int \<Rightarrow> int \<Rightarrow> int \<Rightarrow> nat \<Rightarrow> world \<Rightarrow> world option" where
  "us_new_fill e capacity c n t w = do {
     let w0 = put_str t \<lparr>fFlags = kWritableAlias, fShortLength = 0, fUnion = Fields None 0 0\<rparr> w;
     if n \<le> 0 \<or> \<not> (0 \<le> c \<and> c \<le> 0x10ffff) then map_option fst (us_allocate e capacity t w0)
     else do {
       let len = n * U16_LENGTH c;
       (w1, ok) \<leftarrow> (if len > INT32_MAX then None else us_allocate e (if capacity < len then len else capacity) t w0);
       s \<leftarrow> strs w1 t;
       w2 \<leftarrow> (if ok then poke w1 (getArrayStart t s) 0 (concat (replicate (nat n) (cp_units c))) else Some w1);
       us_upd t (us_setLength len) w2
     }
   }"

definition us_destroy :: "nat \<Rightarrow> world \<Rightarrow> world option" where
  "us_destroy t w = do {
     w1 \<leftarrow> releaseArray t w;
     Some (w1\<lparr>strs := (strs w1)(t := None)\<rparr>)
   }"

section \<open>Other operations that change the string\<close>

definition us_truncate :: "int heap \<Rightarrow> int \<Rightarrow> ustring \<Rightarrow> ustring \<times> bool" where
  "us_truncate e targetLength s =
     (if us_isBogus s \<and> targetLength = 0 then (setToEmpty e s, False)
      else if 0 \<le> targetLength \<and> targetLength < us_length s then (us_setLength targetLength s, True)
      else (s, False))"

definition us_remove_all :: "int heap \<Rightarrow> ustring \<Rightarrow> ustring" where
  "us_remove_all e s = (if us_isBogus s then setToEmpty e s else setZeroLength s)"

definition us_remove :: "int heap \<Rightarrow> int \<Rightarrow> int \<Rightarrow> nat \<Rightarrow> world \<Rightarrow> world option" where
  "us_remove e start len t w =
     (if start \<le> 0 \<and> len = INT32_MAX then us_upd t (us_remove_all e) w else doReplace e start len (At None) 0 0 t w)"

definition us_retainBetween :: "int heap \<Rightarrow> int \<Rightarrow> int \<Rightarrow> nat \<Rightarrow> world \<Rightarrow> world option" where
  "us_retainBetween e start limit t w = do {
     w1 \<leftarrow> us_upd t (\<lambda>s. fst (us_truncate e limit s)) w;
     doReplace e 0 start (At None) 0 0 t w1
   }"

definition setCharAt :: "int heap \<Rightarrow> int \<Rightarrow> int \<Rightarrow> nat \<Rightarrow> world \<Rightarrow> world option" where
  "setCharAt e offset c t w = do {
     s \<leftarrow> strs w t;
     let len = us_length s;
     (w1, ok) \<leftarrow> cloneArray e (-1) t w;
     s1 \<leftarrow> strs w1 t;
     if ok \<and> len > 0
     then poke w1 (getArrayStart t s1) (nat (if offset < 0 then 0 else if offset \<ge> len then len - 1 else offset)) [c]
     else Some w1
   }"

definition append_units :: "int \<Rightarrow> int list" where
  "append_units c = (if 0 \<le> c \<and> c \<le> 0x10ffff then cp_units c else [])"

definition us_append_char :: "int heap \<Rightarrow> int \<Rightarrow> nat \<Rightarrow> world \<Rightarrow> world option" where
  "us_append_char e c t w = do {
     s \<leftarrow> strs w t;
     if append_units c = [] then Some w
     else doReplace e (us_length s) 0 (Local (append_units c)) 0 (int (length (append_units c))) t w
   }"

definition us_replace_char :: "int heap \<Rightarrow> int \<Rightarrow> int \<Rightarrow> int \<Rightarrow> nat \<Rightarrow> world \<Rightarrow> world option" where
  "us_replace_char e start len c t w = doReplace e start len (Local (append_units c)) 0 (int (length (append_units c))) t w"

definition setTo_string :: "int heap \<Rightarrow> nat \<Rightarrow> int \<Rightarrow> int \<Rightarrow> nat \<Rightarrow> world \<Rightarrow> world option" where
  "setTo_string e src srcStart srcLength t w = do {
     w1 \<leftarrow> unBogus e t w;
     s \<leftarrow> strs w1 t;
     doReplace_string e 0 (us_length s) src srcStart srcLength t w1
   }"

definition getTerminatedBuffer :: "int heap \<Rightarrow> nat \<Rightarrow> world \<Rightarrow> (world \<times> ptr) option" where
  "getTerminatedBuffer e t w = do {
     s \<leftarrow> strs w t;
     if \<not> isWritable s then Some (w, None)
     else do {
       let array = getArrayStart t s;
       let len = us_length s;
       cs \<leftarrow> mem w array;
       counted1 \<leftarrow> (if kRefCounted (fFlags s) then map_option (\<lambda>n. n = 1) (refCount (fArray (fUnion s)) w) else Some True);
       terminated \<leftarrow> (if len < getCapacity s \<and> kBufferIsReadonly (fFlags s) then map_option (\<lambda>c. c = 0) (unit_at cs (nat len)) else Some False);
       if terminated then Some (w, array)
       else if len < getCapacity s \<and> \<not> kBufferIsReadonly (fFlags s) \<and> counted1 then do {
         w1 \<leftarrow> poke w array (nat len) [0];
         Some (w1, array)
       }
       else do {
         (w1, ok) \<leftarrow> cloneArray e (len + 1) t w;
         s1 \<leftarrow> strs w1 t;
         if ok then do {
           w2 \<leftarrow> poke w1 (getArrayStart t s1) (nat len) [0];
           Some (w2, getArrayStart t s1)
         } else Some (w1, None)
       }
     }
   }"

definition getBuffer :: "int heap \<Rightarrow> int \<Rightarrow> nat \<Rightarrow> world \<Rightarrow> (world \<times> ptr) option" where
  "getBuffer e minCapacity t w =
     (if minCapacity \<ge> -1 then do {
        (w1, ok) \<leftarrow> cloneArray e minCapacity t w;
        if ok then do {
          w2 \<leftarrow> us_upd t (\<lambda>s. setZeroLength (s\<lparr>fFlags := (fFlags s)\<lparr>kOpenGetBuffer := True\<rparr>\<rparr>)) w1;
          s \<leftarrow> strs w2 t;
          Some (w2, getArrayStart t s)
        } else Some (w1, None)
      } else Some (w, None))"

definition releaseBuffer :: "int \<Rightarrow> nat \<Rightarrow> world \<Rightarrow> world option" where
  "releaseBuffer newLength t w = do {
     s \<leftarrow> strs w t;
     if kOpenGetBuffer (fFlags s) \<and> newLength \<ge> -1 then do {
       let capacity = getCapacity s;
       cs \<leftarrow> mem w (getArrayStart t s);
       let n = (if newLength = -1 then int (length (takeWhile (\<lambda>u. u \<noteq> 0) (take (nat capacity) cs)))
                else if newLength > capacity then capacity else newLength);
       us_upd t (\<lambda>s. (us_setLength n s)\<lparr>fFlags := (fFlags s)\<lparr>kOpenGetBuffer := False\<rparr>\<rparr>) w
     } else Some w
   }"

definition padLeading :: "int heap \<Rightarrow> int \<Rightarrow> int \<Rightarrow> nat \<Rightarrow> world \<Rightarrow> (world \<times> bool) option" where
  "padLeading e targetLength padChar t w = do {
     s \<leftarrow> strs w t;
     let oldLength = us_length s;
     if oldLength \<ge> targetLength then Some (w, False)
     else do {
       (w1, ok) \<leftarrow> cloneArray e targetLength t w;
       if \<not> ok then Some (w1, False)
       else do {
         s1 \<leftarrow> strs w1 t;
         let array = getArrayStart t s1;
         let start = targetLength - oldLength;
         w2 \<leftarrow> us_arrayCopy (At array) 0 array start oldLength w1;
         w3 \<leftarrow> poke w2 array 0 (replicate (nat start) padChar);
         w4 \<leftarrow> us_upd t (us_setLength targetLength) w3;
         Some (w4, True)
       }
     }
   }"

definition padTrailing :: "int heap \<Rightarrow> int \<Rightarrow> int \<Rightarrow> nat \<Rightarrow> world \<Rightarrow> (world \<times> bool) option" where
  "padTrailing e targetLength padChar t w = do {
     s \<leftarrow> strs w t;
     let oldLength = us_length s;
     if oldLength \<ge> targetLength then Some (w, False)
     else do {
       (w1, ok) \<leftarrow> cloneArray e targetLength t w;
       if \<not> ok then Some (w1, False)
       else do {
         s1 \<leftarrow> strs w1 t;
         w2 \<leftarrow> poke w1 (getArrayStart t s1) (nat oldLength) (replicate (nat (targetLength - oldLength)) padChar);
         w3 \<leftarrow> us_upd t (us_setLength targetLength) w2;
         Some (w3, True)
       }
     }
   }"

end
