(* ===== verification/UnicodeStrProofs.thy ===== *)
theory UnicodeStrProofs
  imports UnicodeStr
begin

text \<open>
  The invariant of the store of \<open>UnicodeStr\<close>: every object is well formed, every block has as many references as there
  are strings that use it, and memory of the client that a string may write is used by no other string. The frame lemma says
  when a change of one object keeps the invariant and the texts of all others.
\<close>

section \<open>Texts and the invariant\<close>

definition us_text :: "world \<Rightarrow> nat \<Rightarrow> int list option" where
  "us_text w t =
     (case strs w t of
        None \<Rightarrow> None
      | Some s \<Rightarrow> if us_isBogus s then None else map_option (take (nat (us_length s))) (mem w (getArrayStart t s)))"

definition refs :: "ustring \<Rightarrow> nat \<Rightarrow> bool" where
  "refs s b \<longleftrightarrow> kRefCounted (fFlags s) \<and> fArray (fUnion s) = Some (Counted b, 0)"

definition owners :: "world \<Rightarrow> nat \<Rightarrow> nat set" where
  "owners w b = {t. \<exists>s. strs w t = Some s \<and> refs s b}"

definition aliases :: "ustring \<Rightarrow> nat \<Rightarrow> bool" where
  "aliases s c \<longleftrightarrow> (\<exists>i. fArray (fUnion s) = Some (Client c, i))"

definition short_wf :: "ustring \<Rightarrow> bool" where
  "short_wf s \<longleftrightarrow>
     \<not> kRefCounted (fFlags s) \<and> \<not> kBufferIsReadonly (fFlags s) \<and> 0 \<le> fShortLength s \<and> fShortLength s \<le> US_STACKBUF_SIZE \<and>
     (\<exists>b. fUnion s = StackFields b \<and> int (length b) = US_STACKBUF_SIZE)"

definition fields_wf :: "world \<Rightarrow> ustring \<Rightarrow> bool" where
  "fields_wf w s \<longleftrightarrow>
     0 \<le> us_length s \<and> us_length s \<le> getCapacity s \<and>
     (fShortLength s < 0 \<longrightarrow> kMaxShortLength < us_length s) \<and>
     (if kRefCounted (fFlags s)
      then \<not> kBufferIsReadonly (fFlags s) \<and>
        (\<exists>b n cs l. fUnion s = Fields (Some (Counted b, 0)) (int (length cs)) l \<and> blocks w b = Some (n, cs) \<and> (kOpenGetBuffer (fFlags s) \<longrightarrow> n = 1))
      else \<exists>c i k l. fUnion s = Fields (Some (Client c, i)) (int k) l \<and> i + k \<le> length (client w c))"

definition str_wf :: "world \<Rightarrow> ustring \<Rightarrow> bool" where
  "str_wf w s \<longleftrightarrow>
     (if kBogus (fFlags s) then fFlags s = kIsBogus \<and> (\<exists>l. fUnion s = Fields None 0 l)
      else (kOpenGetBuffer (fFlags s) \<longrightarrow> fShortLength s = 0 \<and> \<not> kBufferIsReadonly (fFlags s)) \<and>
        (if kUsingStackBuffer (fFlags s) then short_wf s else fields_wf w s))"

definition us_inv :: "world \<Rightarrow> bool" where
  "us_inv w \<longleftrightarrow>
     finite (dom (strs w)) \<and> (\<forall>t s. strs w t = Some s \<longrightarrow> str_wf w s) \<and>
     (\<forall>b n cs. blocks w b = Some (n, cs) \<longrightarrow> b < nextBlock w \<and> n = int (card (owners w b)) \<and> 0 < n) \<and>
     (\<forall>t u s r c. strs w t = Some s \<and> strs w u = Some r \<and> aliases s c \<and> \<not> kBufferIsReadonly (fFlags s) \<and> aliases r c \<longrightarrow> t = u)"

lemma put_simps [simp]:
  "strs (put_str t s w) = (strs w)(t := Some s)" "blocks (put_str t s w) = blocks w"
  "nextBlock (put_str t s w) = nextBlock w" "client (put_str t s w) = client w"
  "strs (put_block b x w) = strs w" "blocks (put_block b x w) = (blocks w)(b := x)"
  "nextBlock (put_block b x w) = nextBlock w" "client (put_block b x w) = client w"
  "strs (put_client c y w) = strs w" "blocks (put_client c y w) = blocks w"
  "nextBlock (put_client c y w) = nextBlock w" "client (put_client c y w) = (client w)(c := y)"
  by (simp_all add: put_str_def put_block_def put_client_def)

lemma finite_owners: "us_inv w \<Longrightarrow> finite (owners w b)"
  by (rule finite_subset [of _ "dom (strs w)"]) (auto simp: owners_def us_inv_def)

text \<open>An object that is not bogus has its cells, at least as many as its capacity.\<close>

lemma wf_cells:
  assumes "str_wf w s" "strs w t = Some s" "\<not> kBogus (fFlags s)"
  obtains cs where "mem w (getArrayStart t s) = Some cs" "getCapacity s \<le> int (length cs)" "0 \<le> us_length s" "us_length s \<le> getCapacity s"
    "kRefCounted (fFlags s) \<Longrightarrow> int (length cs) = getCapacity s" "kUsingStackBuffer (fFlags s) \<Longrightarrow> int (length cs) = getCapacity s"
proof (cases "kUsingStackBuffer (fFlags s)")
  case True
  then show ?thesis using assms that by (auto simp: str_wf_def short_wf_def getArrayStart_def getCapacity_def us_length_def)
next
  case False
  then have f: "fields_wf w s" using assms by (simp add: str_wf_def)
  show ?thesis
  proof (cases "kRefCounted (fFlags s)")
    case True
    then obtain b n cs l where "fUnion s = Fields (Some (Counted b, 0)) (int (length cs)) l" "blocks w b = Some (n, cs)"
      using f by (auto simp: fields_wf_def)
    then show ?thesis using False f that [of cs] by (auto simp: fields_wf_def getArrayStart_def getCapacity_def)
  next
    case c: False
    then obtain c i k l where "fUnion s = Fields (Some (Client c, i)) (int k) l" "i + k \<le> length (client w c)"
      using f by (auto simp: fields_wf_def)
    then show ?thesis using False c f that [of "drop i (client w c)"] by (auto simp: fields_wf_def getArrayStart_def getCapacity_def)
  qed
qed

lemma us_inv_wf: "us_inv w \<Longrightarrow> strs w t = Some s \<Longrightarrow> str_wf w s"
  by (auto simp: us_inv_def)

lemma us_inv_block: "us_inv w \<Longrightarrow> blocks w b = Some (n, cs) \<Longrightarrow> b < nextBlock w \<and> n = int (card (owners w b)) \<and> 0 < n"
  unfolding us_inv_def by blast

lemma refs_unique: "refs s b \<Longrightarrow> refs s b' \<Longrightarrow> b = b'"
  by (simp add: refs_def)

lemma refs_block: "us_inv w \<Longrightarrow> strs w t = Some s \<Longrightarrow> refs s b \<Longrightarrow> \<exists>n cs. blocks w b = Some (n, cs)"
  using us_inv_wf [of w t s] by (auto simp: refs_def str_wf_def short_wf_def fields_wf_def kIsBogus_def split: if_splits)

lemma counted_refs: "str_wf w s \<Longrightarrow> kRefCounted (fFlags s) \<Longrightarrow> \<exists>b n cs l. refs s b \<and> blocks w b = Some (n, cs) \<and> fUnion s = Fields (Some (Counted b, 0)) (int (length cs)) l"
  by (auto simp: refs_def str_wf_def short_wf_def fields_wf_def kIsBogus_def split: if_splits)

section \<open>The frame lemma\<close>

text \<open>What a change of object \<open>t\<close> may do to the rest of the store.\<close>

definition frame :: "nat \<Rightarrow> ustring \<Rightarrow> world \<Rightarrow> world \<Rightarrow> bool" where
  "frame t s' w w' \<longleftrightarrow>
     strs w' = (strs w)(t := Some s') \<and>
     (\<forall>b n cs. blocks w' b = Some (n, cs) \<longrightarrow>
        b < nextBlock w' \<and> n = int (card (owners w b - {t})) + of_bool (refs s' b) \<and> 0 < n) \<and>
     (\<forall>b u r. u \<noteq> t \<and> strs w u = Some r \<and> refs r b \<longrightarrow> (\<exists>n k cs. blocks w' b = Some (n, cs) \<and> blocks w b = Some (k, cs))) \<and>
     (\<forall>b u r. refs s' b \<and> u \<noteq> t \<and> strs w u = Some r \<and> refs r b \<longrightarrow> \<not> kOpenGetBuffer (fFlags r)) \<and>
     (\<forall>c u r. u \<noteq> t \<and> strs w u = Some r \<and> aliases r c \<longrightarrow> client w' c = client w c) \<and>
     (\<forall>c u r. u \<noteq> t \<and> strs w u = Some r \<and> aliases r c \<and> aliases s' c \<longrightarrow> kBufferIsReadonly (fFlags r) \<and> kBufferIsReadonly (fFlags s'))"

lemma frameD:
  assumes "frame t s' w w'"
  shows "strs w' = (strs w)(t := Some s')"
    and "blocks w' b = Some (n, cs) \<Longrightarrow> b < nextBlock w' \<and> n = int (card (owners w b - {t})) + of_bool (refs s' b) \<and> 0 < n"
    and "u \<noteq> t \<Longrightarrow> strs w u = Some r \<Longrightarrow> refs r b \<Longrightarrow> \<exists>n k cs. blocks w' b = Some (n, cs) \<and> blocks w b = Some (k, cs)"
    and "refs s' b \<Longrightarrow> u \<noteq> t \<Longrightarrow> strs w u = Some r \<Longrightarrow> refs r b \<Longrightarrow> \<not> kOpenGetBuffer (fFlags r)"
    and "u \<noteq> t \<Longrightarrow> strs w u = Some r \<Longrightarrow> aliases r c \<Longrightarrow> client w' c = client w c"
    and "u \<noteq> t \<Longrightarrow> strs w u = Some r \<Longrightarrow> aliases r c \<Longrightarrow> aliases s' c \<Longrightarrow> kBufferIsReadonly (fFlags r) \<and> kBufferIsReadonly (fFlags s')"
proof -
  note fr = assms[unfolded frame_def]
  show "strs w' = (strs w)(t := Some s')" using fr by blast
  show "blocks w' b = Some (n, cs) \<Longrightarrow> b < nextBlock w' \<and> n = int (card (owners w b - {t})) + of_bool (refs s' b) \<and> 0 < n" using fr by blast
  show "u \<noteq> t \<Longrightarrow> strs w u = Some r \<Longrightarrow> refs r b \<Longrightarrow> \<exists>n k cs. blocks w' b = Some (n, cs) \<and> blocks w b = Some (k, cs)" using fr by blast
  show "refs s' b \<Longrightarrow> u \<noteq> t \<Longrightarrow> strs w u = Some r \<Longrightarrow> refs r b \<Longrightarrow> \<not> kOpenGetBuffer (fFlags r)" using fr by blast
  show "u \<noteq> t \<Longrightarrow> strs w u = Some r \<Longrightarrow> aliases r c \<Longrightarrow> client w' c = client w c" using fr by blast
  show "u \<noteq> t \<Longrightarrow> strs w u = Some r \<Longrightarrow> aliases r c \<Longrightarrow> aliases s' c \<Longrightarrow> kBufferIsReadonly (fFlags r) \<and> kBufferIsReadonly (fFlags s')" using fr by blast
qed

lemma frameI:
  assumes "strs w' = (strs w)(t := Some s')"
    and "\<And>b n cs. blocks w' b = Some (n, cs) \<Longrightarrow> b < nextBlock w' \<and> n = int (card (owners w b - {t})) + of_bool (refs s' b) \<and> 0 < n"
    and "\<And>b u r. u \<noteq> t \<Longrightarrow> strs w u = Some r \<Longrightarrow> refs r b \<Longrightarrow> \<exists>n k cs. blocks w' b = Some (n, cs) \<and> blocks w b = Some (k, cs)"
    and "\<And>b u r. refs s' b \<Longrightarrow> u \<noteq> t \<Longrightarrow> strs w u = Some r \<Longrightarrow> refs r b \<Longrightarrow> \<not> kOpenGetBuffer (fFlags r)"
    and "\<And>c u r. u \<noteq> t \<Longrightarrow> strs w u = Some r \<Longrightarrow> aliases r c \<Longrightarrow> client w' c = client w c"
    and "\<And>c u r. u \<noteq> t \<Longrightarrow> strs w u = Some r \<Longrightarrow> aliases r c \<Longrightarrow> aliases s' c \<Longrightarrow> kBufferIsReadonly (fFlags r) \<and> kBufferIsReadonly (fFlags s')"
  shows "frame t s' w w'"
  unfolding frame_def using assms by (intro conjI allI impI; blast)

lemma owners_frame: "strs w' = (strs w)(t := Some s') \<Longrightarrow> owners w' b = (owners w b - {t}) \<union> (if refs s' b then {t} else {})"
  by (auto simp: owners_def)

lemma frame_wf_other:
  assumes "us_inv w" "frame t s' w w'" "strs w u = Some r" "u \<noteq> t"
  shows "str_wf w' r" "mem w' (getArrayStart u r) = mem w (getArrayStart u r)"
proof -
  have r: "str_wf w r" using us_inv_wf [OF assms(1,3)] .
  note fr = frameD [OF assms(2)]
  have "str_wf w' r \<and> mem w' (getArrayStart u r) = mem w (getArrayStart u r)"
  proof (cases "kBogus (fFlags r) \<or> kUsingStackBuffer (fFlags r)")
    case True
    then show ?thesis using r fr(1) assms(3,4) by (auto simp: str_wf_def getArrayStart_def kIsBogus_def)
  next
    case False
    then have f: "fields_wf w r" using r by (simp add: str_wf_def)
    show ?thesis
    proof (cases "kRefCounted (fFlags r)")
      case True
      obtain b n cs l where b: "refs r b" "blocks w b = Some (n, cs)" "fUnion r = Fields (Some (Counted b, 0)) (int (length cs)) l"
        using counted_refs [OF r True] by blast
      have u: "u \<in> owners w b - {t}" using b assms(3,4) by (auto simp: owners_def)
      obtain n' cs' where n': "blocks w' b = Some (n', cs')" "cs' = cs" using fr(3) [OF assms(4,3) b(1)] b(2) by auto
      have n2: "cs' = cs" "n' = int (card (owners w b - {t})) + of_bool (refs s' b)" using n'(2) fr(2) [OF n'(1)] by auto
      have "n' = 1" if "kOpenGetBuffer (fFlags r)"
      proof -
        have "n = 1" using f True that b by (auto simp: fields_wf_def)
        then have "card (owners w b) = 1" using us_inv_block [OF assms(1) b(2)] by simp
        then have "owners w b = {u}" using u by (auto simp: card_1_singleton_iff)
        moreover have "\<not> refs s' b" using fr(4) [OF _ assms(4,3) b(1)] that by blast
        ultimately show ?thesis using n2 assms(4) by simp
      qed
      then show ?thesis using f False True r b n' n2 by (simp add: str_wf_def fields_wf_def getArrayStart_def)
    next
      case c: False
      then obtain c i k l where k: "fUnion r = Fields (Some (Client c, i)) (int k) l" using f by (auto simp: fields_wf_def)
      then have "client w' c = client w c" using fr(5) [OF assms(4,3)] by (auto simp: aliases_def)
      then show ?thesis using f False c r k by (simp add: str_wf_def fields_wf_def getArrayStart_def)
    qed
  qed
  then show "str_wf w' r" "mem w' (getArrayStart u r) = mem w (getArrayStart u r)" by auto
qed

lemma frame_inv:
  assumes "us_inv w" "frame t s' w w'" "str_wf w' s'"
  shows "us_inv w'" "u \<noteq> t \<Longrightarrow> us_text w' u = us_text w u"
proof -
  note fr = frameD [OF assms(2)]
  note st = fr(1)
  have fin: "finite (dom (strs w'))" using assms(1) st by (simp add: us_inv_def)
  have wf: "str_wf w' r" if "strs w' v = Some r" for v r
    using that st assms(3) frame_wf_other(1) [OF assms(1,2), of v r] by (auto split: if_splits)
  have bl: "b < nextBlock w' \<and> n = int (card (owners w' b)) \<and> 0 < n" if "blocks w' b = Some (n, cs)" for b n cs
  proof -
    have "finite (owners w b - {t})" using finite_owners [OF assms(1)] by simp
    then have "int (card (owners w' b)) = int (card (owners w b - {t})) + of_bool (refs s' b)"
      unfolding owners_frame [OF st] by (subst card_Un_disjoint) auto
    then show ?thesis using fr(2) [OF that] by simp
  qed
  have al: "v = v'" if "strs w' v = Some r" "strs w' v' = Some r'" "aliases r c" "\<not> kBufferIsReadonly (fFlags r)" "aliases r' c" for v v' r r' c
  proof (rule ccontr)
    assume n: "v \<noteq> v'"
    have old: "strs w v = Some r \<and> strs w v' = Some r' \<Longrightarrow> v = v'" using assms(1) that(3-5) unfolding us_inv_def by blast
    consider "v = t" "v' \<noteq> t" | "v \<noteq> t" "v' = t" | "v \<noteq> t" "v' \<noteq> t" using n by blast
    then show False
    proof cases
      case 1
      then show ?thesis using that st fr(6) [of v' r' c] by simp
    next
      case 2
      then show ?thesis using that st fr(6) [of v r c] by simp
    next
      case 3
      then show ?thesis using that(1,2) st old n by simp
    qed
  qed
  show "us_inv w'" unfolding us_inv_def
  proof (intro conjI allI impI)
    show "finite (dom (strs w'))" by (rule fin)
    show "str_wf w' r" if "strs w' v = Some r" for v r using wf that .
    show "v = v'" if "strs w' v = Some r \<and> strs w' v' = Some r' \<and> aliases r c \<and> \<not> kBufferIsReadonly (fFlags r) \<and> aliases r' c" for v v' r r' c
      using al that by blast
  qed (use bl in auto)
  show "us_text w' u = us_text w u" if "u \<noteq> t"
  proof (cases "strs w u")
    case (Some r)
    then show ?thesis using frame_wf_other(2) [OF assms(1,2) Some that] st that by (simp add: us_text_def)
  next
    case None
    then show ?thesis using st that by (simp add: us_text_def)
  qed
qed

section \<open>Writing into the own array\<close>

definition with_union :: "ustring \<Rightarrow> int list \<Rightarrow> ustring" where
  "with_union s cs = (if kUsingStackBuffer (fFlags s) then s\<lparr>fUnion := StackFields cs\<rparr> else s)"

text \<open>The store with other cells in the array of \<open>t\<close>.\<close>

definition with_cells :: "nat \<Rightarrow> ustring \<Rightarrow> int list \<Rightarrow> world \<Rightarrow> world" where
  "with_cells t s cs w =
     (if kUsingStackBuffer (fFlags s) then put_str t (with_union s cs) w
      else case fArray (fUnion s) of
        Some (Counted b, i) \<Rightarrow> put_block b (map_option (\<lambda>(n, old). (n, take i old @ cs)) (blocks w b)) w
      | Some (Client c, i) \<Rightarrow> put_client c (take i (client w c) @ cs) w
      | _ \<Rightarrow> w)"

definition holds :: "nat \<Rightarrow> ustring \<Rightarrow> int list \<Rightarrow> world \<Rightarrow> bool" where
  "holds t s cs w \<longleftrightarrow> strs w t = Some s \<and> \<not> kBogus (fFlags s) \<and> str_wf w s \<and> mem w (getArrayStart t s) = Some cs"

lemma with_union_simps [simp]:
  "fFlags (with_union s cs) = fFlags s" "fShortLength (with_union s cs) = fShortLength s"
  "getCapacity (with_union s cs) = getCapacity s" "getArrayStart t (with_union s cs) = getArrayStart t s"
  "with_union (with_union s cs) cs' = with_union s cs'"
  by (auto simp: with_union_def getCapacity_def getArrayStart_def)

text \<open>The three kinds of storage of an object that holds a text.\<close>

lemma holds_cases:
  assumes "holds t s cs w"
  obtains (stack) "kUsingStackBuffer (fFlags s)" "\<not> kRefCounted (fFlags s)" "\<not> kBufferIsReadonly (fFlags s)" "fUnion s = StackFields cs"
      "int (length cs) = US_STACKBUF_SIZE" "0 \<le> fShortLength s" "fShortLength s \<le> US_STACKBUF_SIZE"
  | (counted) b n l where "\<not> kUsingStackBuffer (fFlags s)" "kRefCounted (fFlags s)" "\<not> kBufferIsReadonly (fFlags s)"
      "fUnion s = Fields (Some (Counted b, 0)) (int (length cs)) l" "blocks w b = Some (n, cs)" "refs s b"
  | (aliased) c i k l where "\<not> kUsingStackBuffer (fFlags s)" "\<not> kRefCounted (fFlags s)" "fUnion s = Fields (Some (Client c, i)) (int k) l"
      "cs = drop i (client w c)" "k \<le> length cs" "i \<le> length (client w c)" "aliases s c"
proof (cases "kUsingStackBuffer (fFlags s)")
  case True
  then show ?thesis using assms stack by (auto simp: holds_def str_wf_def short_wf_def getArrayStart_def)
next
  case False
  then have f: "fields_wf w s" using assms by (auto simp: holds_def str_wf_def)
  show ?thesis
  proof (cases "kRefCounted (fFlags s)")
    case True
    then show ?thesis using f False assms counted by (auto simp: holds_def fields_wf_def getArrayStart_def refs_def)
  next
    case c: False
    then obtain c i k l where "fUnion s = Fields (Some (Client c, i)) (int k) l" "i + k \<le> length (client w c)" using f by (auto simp: fields_wf_def)
    then show ?thesis using False c assms aliased [of c i k l] by (auto simp: holds_def getArrayStart_def aliases_def)
  qed
qed

lemma holds_capacity: "holds t s cs w \<Longrightarrow> getCapacity s \<le> int (length cs) \<and> 0 \<le> us_length s \<and> us_length s \<le> getCapacity s"
  using wf_cells [of w s t] unfolding holds_def by (metis option.inject)

lemma with_cells_strs: "holds t s cs0 w \<Longrightarrow> strs (with_cells t s cs w) = (strs w)(t := Some (with_union s cs))"
  by (frule holds_cases) (auto simp: with_cells_def with_union_def holds_def fun_eq_iff)

lemma with_cells_same: "holds t s cs w \<Longrightarrow> with_cells t s cs w = w"
proof -
  assume h: "holds t s cs w"
  have s: "strs w t = Some s" using h by (simp add: holds_def)
  from h show "with_cells t s cs w = w"
  proof (cases rule: holds_cases)
    case stack
    then have "s\<lparr>fUnion := StackFields cs\<rparr> = s" by simp
    then show ?thesis using s stack by (simp add: with_cells_def with_union_def put_str_def fun_upd_idem)
  qed (auto simp: with_cells_def put_block_def put_client_def fun_upd_idem)
qed

lemma with_cells_mem: "holds t s cs0 w \<Longrightarrow> mem (with_cells t s cs w) (getArrayStart t s) = Some cs"
  by (erule holds_cases) (auto simp: with_cells_def with_union_def getArrayStart_def)

lemma overlay_length [simp]: "i + length us \<le> length cs \<Longrightarrow> length (overlay cs i us) = length cs"
  by (simp add: overlay_def)

lemma overlay_append: "overlay (a @ cs) (length a + i) us = a @ overlay cs i us"
  by (simp add: overlay_def)

lemma poke_with_cells:
  assumes "holds t s cs0 w" "length cs = length cs0" "i + length us \<le> length cs"
  shows "poke (with_cells t s cs w) (getArrayStart t s) i us = Some (with_cells t s (overlay cs i us) w)"
  using assms(1)
proof (cases rule: holds_cases)
  case stack
  then show ?thesis using assms by (simp add: with_cells_def with_union_def getArrayStart_def put_str_def)
next
  case (counted b n l)
  then show ?thesis using assms by (simp add: with_cells_def getArrayStart_def put_block_def)
next
  case (aliased c i' k l)
  have "overlay (take i' (client w c) @ cs) (i' + i) us = take i' (client w c) @ overlay cs i us"
    using overlay_append [of "take i' (client w c)" cs i us] aliased(6) by simp
  then show ?thesis using assms aliased by (simp add: with_cells_def getArrayStart_def put_client_def)
qed

text \<open>Memory that writing into the array of \<open>t\<close> does not change.\<close>

fun elsewhere :: "nat \<Rightarrow> ustring \<Rightarrow> ptr \<Rightarrow> bool" where
  "elsewhere t s None \<longleftrightarrow> True"
| "elsewhere t s (Some (StackOf u, i)) \<longleftrightarrow> u \<noteq> t"
| "elsewhere t s (Some (Counted b, i)) \<longleftrightarrow> \<not> refs s b"
| "elsewhere t s (Some (Client c, i)) \<longleftrightarrow> \<not> aliases s c"

lemma with_cells_elsewhere: "holds t s cs0 w \<Longrightarrow> elsewhere t s p \<Longrightarrow> mem (with_cells t s cs w) p = mem w p"
proof (induction t s p rule: elsewhere.induct)
  case (2 t s u i)
  then show ?case using with_cells_strs [of t s cs0 w cs] by simp
next
  case (3 t s b i)
  from 3(1) show ?case
    by (cases rule: holds_cases) (use 3(2) in \<open>auto simp: with_cells_def refs_def\<close>)
next
  case (4 t s c i)
  from 4(1) show ?case
    by (cases rule: holds_cases) (use 4(2) in \<open>auto simp: with_cells_def aliases_def\<close>)
qed simp

lemma us_setLength_simps [simp]:
  "fFlags (us_setLength n s) = fFlags s" "fArray (fUnion (us_setLength n s)) = fArray (fUnion s)"
  "fCapacity (fUnion (us_setLength n s)) = fCapacity (fUnion s)"
  by (auto simp: us_setLength_def setShortLength_def)

lemma us_length_setLength [simp]: "0 \<le> n \<Longrightarrow> us_length (us_setLength n s) = n"
  by (simp add: us_setLength_def setShortLength_def us_length_def)

lemma getCapacity_setLength [simp]: "getCapacity (us_setLength n s) = getCapacity s"
  by (simp add: getCapacity_def)

lemma getArrayStart_setLength [simp]: "getArrayStart t (us_setLength n s) = getArrayStart t s"
  by (simp add: getArrayStart_def)

lemma refs_setLength [simp]: "refs (us_setLength n s) b = refs s b" "refs (with_union s cs) b \<longleftrightarrow> refs s b \<and> \<not> (kUsingStackBuffer (fFlags s) \<and> kRefCounted (fFlags s))"
  by (auto simp: refs_def with_union_def)

lemma aliases_setLength [simp]: "aliases (us_setLength n s) c = aliases s c"
  by (simp add: aliases_def)

text \<open>An array that only \<open>t\<close> uses and may write.\<close>

definition exclusive :: "ustring \<Rightarrow> world \<Rightarrow> bool" where
  "exclusive s w \<longleftrightarrow> \<not> kBufferIsReadonly (fFlags s) \<and> (\<forall>b n cs. refs s b \<and> blocks w b = Some (n, cs) \<longrightarrow> n = 1)"

lemma writable_exclusive:
  assumes "holds t s cs w" "isBufferWritable s w = Some True"
  shows "exclusive s w"
  using assms(1)
  by (cases rule: holds_cases) (use assms(2) in \<open>auto simp: exclusive_def isBufferWritable_def refCount_def refs_def split: if_splits\<close>)

lemma exclusive_owner:
  assumes "us_inv w" "strs w t = Some s" "exclusive s w" "refs s b"
  shows "owners w b = {t}"
proof -
  obtain n cs where b: "blocks w b = Some (n, cs)" using refs_block [OF assms(1,2,4)] by blast
  then have "n = 1" using assms(3,4) unfolding exclusive_def by blast
  then have "card (owners w b) = 1" using us_inv_block [OF assms(1) b] by simp
  moreover have "t \<in> owners w b" using assms(2,4) by (auto simp: owners_def)
  ultimately show ?thesis by (auto simp: card_1_singleton_iff)
qed

lemma owners_card_other:
  assumes "us_inv w" "strs w t = Some s" "\<not> refs s b"
  shows "owners w b - {t} = owners w b"
  using assms by (auto simp: owners_def)

lemma alias_exclusive:
  assumes "us_inv w" "strs w t = Some s" "aliases s c" "\<not> kBufferIsReadonly (fFlags s)" "strs w u = Some r" "u \<noteq> t"
  shows "\<not> aliases r c"
  using assms unfolding us_inv_def by blast

lemma with_cells_rest:
  assumes "holds t s cs0 w"
  shows "nextBlock (with_cells t s cs w) = nextBlock w"
    and "\<not> refs s b \<Longrightarrow> blocks (with_cells t s cs w) b = blocks w b"
    and "refs s b \<Longrightarrow> blocks (with_cells t s cs w) b = map_option (\<lambda>(n, old). (n, cs)) (blocks w b)"
    and "\<not> aliases s c \<Longrightarrow> client (with_cells t s cs w) c = client w c"
    and "length cs = length cs0 \<Longrightarrow> length (client (with_cells t s cs w) c) = length (client w c)"
  using assms by (cases rule: holds_cases; auto simp: with_cells_def refs_def aliases_def; fail)+

lemma own_frame:
  assumes "us_inv w" "holds t s cs0 w" "exclusive s w" "fFlags s' = fFlags s" "fArray (fUnion s') = fArray (fUnion s)"
  shows "frame t s' w (put_str t s' (with_cells t s cs w))"
proof -
  have st: "strs w t = Some s" using assms(2) by (simp add: holds_def)
  have rf: "refs s' b = refs s b" "aliases s' c = aliases s c" for b c using assms(4,5) by (auto simp: refs_def aliases_def)
  note wr = with_cells_rest [OF assms(2)]
  have cnt: "b < nextBlock w \<and> n = int (card (owners w b - {t})) + of_bool (refs s b) \<and> 0 < n" if b: "blocks (with_cells t s cs w) b = Some (n, x)" for b n x
  proof (cases "refs s b")
    case True
    then obtain old where o: "blocks w b = Some (n, old)" using b wr(3) by auto
    then have "n = 1" using True assms(3) unfolding exclusive_def by blast
    then show ?thesis using True exclusive_owner [OF assms(1) st assms(3)] us_inv_block [OF assms(1) o] by simp
  next
    case False
    then show ?thesis using b wr(2) us_inv_block [OF assms(1), of b n x] owners_card_other [OF assms(1) st False] by simp
  qed
  have keep: "\<exists>n k x. blocks (with_cells t s cs w) b = Some (n, x) \<and> blocks w b = Some (k, x)" if "u \<noteq> t" "strs w u = Some r" "refs r b" for b u r
  proof -
    have "u \<in> owners w b" using that by (auto simp: owners_def)
    then have "\<not> refs s b" using exclusive_owner [OF assms(1) st assms(3)] that(1) by auto
    then show ?thesis using wr(2) refs_block [OF assms(1) that(2,3)] by auto
  qed
  have excl: "\<not> aliases r c" if "u \<noteq> t" "strs w u = Some r" "aliases s c" for u r c
    using alias_exclusive [OF assms(1) st that(3) _ that(2,1)] assms(3) by (simp add: exclusive_def)
  have op: "False" if "refs s b" "u \<noteq> t" "strs w u = Some r" "refs r b" for b u r
    using exclusive_owner [OF assms(1) st assms(3) that(1)] that(2-4) by (auto simp: owners_def)
  show ?thesis
  proof (rule frameI, unfold put_simps rf)
    show "(strs (with_cells t s cs w))(t \<mapsto> s') = (strs w)(t \<mapsto> s')" using with_cells_strs [OF assms(2)] by simp
    show "b < nextBlock (with_cells t s cs w) \<and> n = int (card (owners w b - {t})) + of_bool (refs s b) \<and> 0 < n"
      if "blocks (with_cells t s cs w) b = Some (n, x)" for b n x using cnt [OF that] wr(1) by simp
    show "client (with_cells t s cs w) c = client w c" if "u \<noteq> t" "strs w u = Some r" "aliases r c" for c u r
      using excl [OF that(1,2)] that(3) wr(4) by blast
  qed (use keep op excl in blast)+
qed

lemmas setLength_defs = us_setLength_def setShortLength_def kMaxShortLength_def US_STACKBUF_SIZE_def

lemma own_set_holds:
  assumes "holds t s cs0 w" "length cs = length cs0" "0 \<le> n" "n \<le> getCapacity s" "kOpenGetBuffer (fFlags s) \<Longrightarrow> n = 0"
  shows "holds t (us_setLength n (with_union s cs)) cs (put_str t (us_setLength n (with_union s cs)) (with_cells t s cs w))"
  using assms(1)
proof (cases rule: holds_cases)
  case stack
  then show ?thesis using assms
    by (auto simp: holds_def str_wf_def short_wf_def with_cells_def with_union_def getArrayStart_def getCapacity_def setLength_defs)
next
  case (counted b k l)
  then show ?thesis using assms
    by (auto simp: holds_def str_wf_def fields_wf_def with_cells_def with_union_def getArrayStart_def getCapacity_def setLength_defs us_length_def)
next
  case (aliased c i k l)
  then show ?thesis using assms
    by (auto simp: holds_def str_wf_def fields_wf_def with_cells_def with_union_def getArrayStart_def getCapacity_def setLength_defs us_length_def)
qed

lemma holds_text: "holds t s cs w \<Longrightarrow> us_text w t = Some (take (nat (us_length s)) cs)"
  by (simp add: holds_def us_text_def us_isBogus_def)

text \<open>The result of an operation on \<open>t\<close>: the invariant, the text of \<open>t\<close>, and all other texts as before.\<close>

definition result_text :: "nat \<Rightarrow> int list option \<Rightarrow> world \<Rightarrow> world \<Rightarrow> bool" where
  "result_text t x w w' \<longleftrightarrow>
     us_inv w' \<and> us_text w' t = x \<and> (\<exists>s'. strs w' = (strs w)(t := Some s')) \<and> (\<forall>u. u \<noteq> t \<longrightarrow> us_text w' u = us_text w u)"

lemma frame_result: "us_inv w \<Longrightarrow> frame t s' w w' \<Longrightarrow> str_wf w' s' \<Longrightarrow> us_text w' t = x \<Longrightarrow> result_text t x w w'"
  using frame_inv frameD(1) unfolding result_text_def by blast

lemma own_write:
  assumes "us_inv w" "holds t s cs0 w" "exclusive s w" "length cs = length cs0" "0 \<le> n" "n \<le> getCapacity s" "kOpenGetBuffer (fFlags s) \<Longrightarrow> n = 0"
  shows "result_text t (Some (take (nat n) cs)) w (put_str t (us_setLength n (with_union s cs)) (with_cells t s cs w))"
proof -
  note h = own_set_holds [OF assms(2,4,5,6,7)]
  have "frame t (us_setLength n (with_union s cs)) w (put_str t (us_setLength n (with_union s cs)) (with_cells t s cs w))"
    by (rule own_frame [OF assms(1,2,3)]) (use assms(2) in \<open>auto simp: with_union_def elim: holds_cases\<close>)
  then show ?thesis by (rule frame_result [OF assms(1)]) (use h holds_text [OF h] assms(5) in \<open>auto simp: holds_def\<close>)
qed

section \<open>Releasing and allocating\<close>

text \<open>The blocks without the reference that \<open>t\<close> holds.\<close>

definition released :: "nat \<Rightarrow> world \<Rightarrow> nat \<Rightarrow> (int \<times> int list) option" where
  "released t w b =
     (case blocks w b of
        None \<Rightarrow> None
      | Some (n, cs) \<Rightarrow> if owners w b \<subseteq> {t} then None else Some (int (card (owners w b - {t})), cs))"

lemma released_other: "us_inv w \<Longrightarrow> strs w t = Some s \<Longrightarrow> \<not> refs s b \<Longrightarrow> released t w b = blocks w b"
proof -
  assume a: "us_inv w" "strs w t = Some s" "\<not> refs s b"
  show ?thesis
  proof (cases "blocks w b")
    case (Some x)
    obtain n cs where x: "x = (n, cs)" by (cases x)
    have "n = int (card (owners w b))" "0 < n" using us_inv_block [OF a(1), of b n cs] Some x by auto
    then have "owners w b \<noteq> {}" by auto
    moreover have "t \<notin> owners w b" using a by (auto simp: owners_def)
    ultimately show ?thesis using Some x \<open>n = int (card (owners w b))\<close> by (auto simp: released_def)
  qed (simp add: released_def)
qed

lemma released_own:
  assumes "us_inv w" "strs w t = Some s" "refs s b" "blocks w b = Some (n, cs)"
  shows "released t w b = (if n - 1 = 0 then None else Some (n - 1, cs))"
proof -
  have t: "t \<in> owners w b" using assms by (auto simp: owners_def)
  have n: "n = int (card (owners w b))" using us_inv_block [OF assms(1,4)] by simp
  have c: "card (owners w b - {t}) = card (owners w b) - 1" using t finite_owners [OF assms(1)] by simp
  show ?thesis
  proof (cases "owners w b \<subseteq> {t}")
    case True
    then have "owners w b = {t}" using t by blast
    then show ?thesis using True n assms(4) by (simp add: released_def)
  next
    case False
    then have "card (owners w b - {t}) \<noteq> 0" using finite_owners [OF assms(1)] by simp
    then show ?thesis using False n c assms(4) by (auto simp: released_def)
  qed
qed

text \<open>Only the flag and the array pointer of the object matter for releasing.\<close>

lemma releaseArray_like:
  assumes "us_inv w" "strs w t = Some s" "strs v t = Some r" "kRefCounted (fFlags r) = kRefCounted (fFlags s)"
    "kRefCounted (fFlags s) \<Longrightarrow> fArray (fUnion r) = fArray (fUnion s)" "blocks v = blocks w"
  shows "releaseArray t v = Some (v\<lparr>blocks := released t w\<rparr>)"
proof (cases "kRefCounted (fFlags s)")
  case True
  obtain b n cs l where b: "refs s b" "blocks w b = Some (n, cs)" "fUnion s = Fields (Some (Counted b, 0)) (int (length cs)) l"
    using counted_refs [OF us_inv_wf [OF assms(1,2)] True] by blast
  have "released t w = (blocks w)(b := (if n - 1 = 0 then None else Some (n - 1, cs)))"
    using released_own [OF assms(1,2) b(1,2)] released_other [OF assms(1,2)] refs_unique b(1) by (auto simp: fun_eq_iff)
  then show ?thesis using True assms b by (simp add: releaseArray_def removeRef_def free_block_def put_block_def)
next
  case False
  then have "released t w = blocks w" using released_other [OF assms(1,2)] by (auto simp: fun_eq_iff refs_def)
  then show ?thesis using False assms by (simp add: releaseArray_def)
qed

lemmas releaseArray_released = releaseArray_like [where v = w and r = s and w = w and s = s for w s, OF _ _ _ refl refl refl]

lemma released_kept:
  assumes "us_inv w" "u \<noteq> t" "strs w u = Some r" "refs r b"
  shows "\<exists>n k cs. released t w b = Some (n, cs) \<and> blocks w b = Some (k, cs)"
proof -
  obtain n cs where "blocks w b = Some (n, cs)" using refs_block [OF assms(1,3,4)] by blast
  moreover have "u \<in> owners w b" using assms(3,4) by (auto simp: owners_def)
  ultimately show ?thesis using assms(2) by (auto simp: released_def)
qed

lemma released_count:
  assumes "us_inv w" "released t w b = Some (n, cs)"
  shows "b < nextBlock w \<and> n = int (card (owners w b - {t})) \<and> 0 < n"
proof -
  obtain k where k: "blocks w b = Some (k, cs)" "\<not> owners w b \<subseteq> {t}" "n = int (card (owners w b - {t}))"
    using assms(2) by (auto simp: released_def split: option.splits if_splits)
  have "card (owners w b - {t}) \<noteq> 0" using finite_owners [OF assms(1)] k(2) by simp
  then show ?thesis using us_inv_block [OF assms(1) k(1)] k(3) by simp
qed

lemma released_frame:
  assumes "us_inv w" "strs w' = (strs w)(t := Some s')" "blocks w' = released t w" "client w' = client w" "nextBlock w' = nextBlock w"
    "\<And>b. \<not> refs s' b" "\<And>u r c. u \<noteq> t \<Longrightarrow> strs w u = Some r \<Longrightarrow> aliases r c \<Longrightarrow> aliases s' c \<Longrightarrow> kBufferIsReadonly (fFlags r) \<and> kBufferIsReadonly (fFlags s')"
  shows "frame t s' w w'"
  using assms(2) released_count [OF assms(1)] released_kept [OF assms(1)] assms(6,7)
  by (intro frameI) (simp_all add: assms(3,4,5))

lemma nextBlock_fresh: "us_inv w \<Longrightarrow> blocks w (nextBlock w) = None \<and> owners w (nextBlock w) = {}"
proof -
  assume a: "us_inv w"
  have "blocks w (nextBlock w) = None" using us_inv_block [OF a, of "nextBlock w"] by (cases "blocks w (nextBlock w)") auto
  moreover have "t \<notin> owners w (nextBlock w)" for t using refs_block [OF a, of t _ "nextBlock w"] calculation by (auto simp: owners_def)
  ultimately show ?thesis by blast
qed

definition fresh_store :: "nat \<Rightarrow> ustring \<Rightarrow> int list \<Rightarrow> world \<Rightarrow> world \<Rightarrow> bool" where
  "fresh_store t s' cs w w' \<longleftrightarrow>
     strs w' = (strs w)(t := Some s') \<and> client w' = client w \<and> 0 \<le> us_length s' \<and> us_length s' \<le> int (length cs) \<and>
     (fShortLength s' < 0 \<longrightarrow> kMaxShortLength < us_length s') \<and>
     ((fFlags s' = kShortString \<and> fUnion s' = StackFields cs \<and> int (length cs) = US_STACKBUF_SIZE \<and> 0 \<le> fShortLength s' \<and>
         blocks w' = released t w \<and> nextBlock w' = nextBlock w) \<or>
      (fFlags s' = kLongString \<and> (\<exists>l. fUnion s' = Fields (Some (Counted (nextBlock w), 0)) (int (length cs)) l) \<and>
         blocks w' = (released t w)(nextBlock w := Some (1, cs)) \<and> nextBlock w' = Suc (nextBlock w)))"

lemma fresh_holds: "fresh_store t s' cs w w' \<Longrightarrow> holds t s' cs w' \<and> exclusive s' w' \<and> int (length cs) = getCapacity s'"
  by (auto simp: fresh_store_def holds_def str_wf_def short_wf_def fields_wf_def kShortString_def kLongString_def getArrayStart_def getCapacity_def exclusive_def refs_def us_length_def)

lemma fresh_frame:
  assumes "us_inv w" "fresh_store t s' cs w w'"
  shows "frame t s' w w'"
proof (cases "fFlags s' = kShortString")
  case True
  then have "\<not> refs s' b" "\<not> aliases s' c" for b c using assms(2) by (auto simp: fresh_store_def kShortString_def kLongString_def refs_def aliases_def)
  then show ?thesis using assms(2) True by (intro released_frame [OF assms(1)]) (auto simp: fresh_store_def kShortString_def kLongString_def)
next
  case False
  then have f: "strs w' = (strs w)(t := Some s')" "client w' = client w" "fFlags s' = kLongString" "blocks w' = (released t w)(nextBlock w := Some (1, cs))"
    "nextBlock w' = Suc (nextBlock w)" "\<exists>l. fUnion s' = Fields (Some (Counted (nextBlock w), 0)) (int (length cs)) l" using assms(2) by (auto simp: fresh_store_def)
  have rf: "refs s' b \<longleftrightarrow> b = nextBlock w" "\<not> aliases s' c" for b c using f(3,6) by (auto simp: refs_def aliases_def kLongString_def)
  note nf = nextBlock_fresh [OF assms(1)]
  show ?thesis
  proof (rule frameI, unfold f rf)
    show "b < Suc (nextBlock w) \<and> n = int (card (owners w b - {t})) + of_bool (b = nextBlock w) \<and> 0 < n"
      if "((released t w)(nextBlock w \<mapsto> (1, cs))) b = Some (n, x)" for b n x
      using that nf released_count [OF assms(1), of t b n x] by (auto split: if_splits)
    show "\<exists>n k x. ((released t w)(nextBlock w \<mapsto> (1, cs))) b = Some (n, x) \<and> blocks w b = Some (k, x)"
      if "u \<noteq> t" "strs w u = Some r" "refs r b" for b u r
      using released_kept [OF assms(1) that] nf that(2,3) by (auto simp: owners_def)
    show "\<not> kOpenGetBuffer (fFlags r)" if "b = nextBlock w" "u \<noteq> t" "strs w u = Some r" "refs r b" for b u r
      using nf that by (auto simp: owners_def)
  qed (use rf(2) in auto)
qed

lemma fresh_result:
  assumes "us_inv w" "fresh_store t s' cs w w'"
  shows "result_text t (Some (take (nat (us_length s')) cs)) w w'"
  using frame_result [OF assms(1) fresh_frame [OF assms]] fresh_holds [OF assms(2)] holds_text by (auto simp: holds_def)

text \<open>The largest capacity whose size in bytes fits into \<^verbatim>\<open>int32_t\<close>.\<close>

definition max_capacity :: int where
  "max_capacity = 0x3ffffffe"

definition alloc_long :: "int heap \<Rightarrow> int \<Rightarrow> nat \<Rightarrow> ustring \<Rightarrow> world \<Rightarrow> world" where
  "alloc_long e c t s w =
     put_str t (setFields (Some (Counted (nextBlock w), 0)) c (setFlags kLongString s))
       (put_block (nextBlock w) (Some (1, replicate (nat c) (junk e))) w\<lparr>nextBlock := nextBlock w + 1\<rparr>)"

definition make_bogus :: "ustring \<Rightarrow> ustring" where
  "make_bogus s = setFields None 0 (setFlags kIsBogus s)"

lemma allocate_cases:
  assumes "strs w t = Some s" "capacity \<le> max_capacity"
  obtains (short) "capacity \<le> US_STACKBUF_SIZE" "us_allocate e capacity t w = Some (put_str t (setToEmpty e s) w, True)"
  | (long) c where "US_STACKBUF_SIZE < capacity" "capacity < c" "us_allocate e capacity t w = Some (alloc_long e c t s w, True)"
  | (fail) "US_STACKBUF_SIZE < capacity" "us_allocate e capacity t w = Some (put_str t (make_bogus s) w, False)" "\<exists>n. \<not> grants e n"
proof (cases "capacity \<le> US_STACKBUF_SIZE")
  case True
  then show ?thesis using short assms(1) by (simp add: us_allocate_def)
next
  case False
  define words where "words = (4 + (capacity + 1) * 2 + 15) div 16 * 4"
  have c: "capacity < (words - 1) * 2" unfolding words_def by presburger
  have n: "\<not> (capacity + 1) * 2 > INT32_MAX" using assms(2) by (simp add: INT32_MAX_def max_capacity_def)
  show ?thesis
  proof (cases "uprv_malloc e 4 words")
    case None
    then have "\<exists>n. \<not> grants e n" by (auto simp: uprv_malloc_def split: if_splits)
    then show ?thesis using fail False assms(1) n None by (simp add: us_allocate_def Let_def words_def make_bogus_def)
  next
    case (Some x)
    then show ?thesis using long [OF _ c] False assms(1) n by (simp add: us_allocate_def Let_def words_def alloc_long_def)
  qed
qed

lemma setFlags_simps [simp]:
  "fFlags (setFlags f s) = f" "fShortLength (setFlags f s) = 0" "fUnion (setFlags f s) = fUnion s"
  "fFlags (setFields a c s) = fFlags s" "fShortLength (setFields a c s) = fShortLength s" "fUnion (setFields a c s) = Fields a c (fLength (fUnion s))"
  "fFlags (setToEmpty e s) = kShortString" "fShortLength (setToEmpty e s) = 0" "fUnion (setToEmpty e s) = StackFields (fBuffer e (fUnion s))"
  "fFlags (make_bogus s) = kIsBogus" "fUnion (make_bogus s) = Fields None 0 (fLength (fUnion s))" "fShortLength (make_bogus s) = 0"
  by (simp_all add: setFlags_def setFields_def setToEmpty_def make_bogus_def)

lemma wf_fBuffer: "str_wf w s \<Longrightarrow> int (length (fBuffer e (fUnion s))) = US_STACKBUF_SIZE"
  by (auto simp: str_wf_def short_wf_def fields_wf_def US_STACKBUF_SIZE_def split: if_splits)

text \<open>The new array of \<open>t\<close>, before the reference to the old one is given up.\<close>

definition alloc_store :: "nat \<Rightarrow> ustring \<Rightarrow> int list \<Rightarrow> world \<Rightarrow> world \<Rightarrow> bool" where
  "alloc_store t s' cs w v \<longleftrightarrow>
     strs v = (strs w)(t := Some s') \<and> client v = client w \<and> 0 \<le> us_length s' \<and> us_length s' \<le> int (length cs) \<and>
     (fShortLength s' < 0 \<longrightarrow> kMaxShortLength < us_length s') \<and>
     ((fFlags s' = kShortString \<and> fUnion s' = StackFields cs \<and> int (length cs) = US_STACKBUF_SIZE \<and> 0 \<le> fShortLength s' \<and>
         blocks v = blocks w \<and> nextBlock v = nextBlock w) \<or>
      (fFlags s' = kLongString \<and> (\<exists>l. fUnion s' = Fields (Some (Counted (nextBlock w), 0)) (int (length cs)) l) \<and>
         blocks v = (blocks w)(nextBlock w := Some (1, cs)) \<and> nextBlock v = Suc (nextBlock w)))"

lemma alloc_holds: "alloc_store t s' cs w v \<Longrightarrow> holds t s' cs v \<and> int (length cs) = getCapacity s' \<and> \<not> kOpenGetBuffer (fFlags s')"
  by (auto simp: alloc_store_def holds_def str_wf_def short_wf_def fields_wf_def kShortString_def kLongString_def getArrayStart_def getCapacity_def us_length_def)

lemma alloc_long_store: "0 \<le> c \<Longrightarrow> alloc_store t (setFields (Some (Counted (nextBlock w), 0)) c (setFlags kLongString s)) (replicate (nat c) (junk e)) w (alloc_long e c t s w)"
  by (auto simp: alloc_store_def alloc_long_def us_length_def)

lemma alloc_short_store:
  "int (length (fBuffer e (fUnion s))) = US_STACKBUF_SIZE \<Longrightarrow> alloc_store t (setToEmpty e s) (fBuffer e (fUnion s)) w (put_str t (setToEmpty e s) w)"
  by (auto simp: alloc_store_def us_length_def US_STACKBUF_SIZE_def)

lemma alloc_write:
  assumes "alloc_store t s' cs w v" "length cs' = length cs" "0 \<le> n" "n \<le> int (length cs)"
  shows "alloc_store t (us_setLength n (with_union s' cs')) cs' w (put_str t (us_setLength n (with_union s' cs')) (with_cells t s' cs' v))"
proof -
  have h: "holds t s' cs v" using alloc_holds [OF assms(1)] by blast
  show ?thesis
  proof (cases "fFlags s' = kShortString")
    case True
    then show ?thesis using assms with_cells_strs [OF h, of cs']
      by (auto simp: alloc_store_def with_cells_def with_union_def kShortString_def kLongString_def setLength_defs us_length_def)
  next
    case False
    then show ?thesis using assms with_cells_strs [OF h, of cs']
      by (auto simp: alloc_store_def with_cells_def with_union_def kShortString_def kLongString_def setLength_defs us_length_def)
  qed
qed

lemma allocate_once:
  assumes "strs w t = Some s" "capacity \<le> max_capacity" "int (length (fBuffer e (fUnion s))) = US_STACKBUF_SIZE"
  obtains (ok) v s' cs where "us_allocate e capacity t w = Some (v, True)" "alloc_store t s' cs w v" "us_length s' = 0" "capacity \<le> int (length cs)"
  | (fail) "us_allocate e capacity t w = Some (put_str t (make_bogus s) w, False)" "\<exists>n. \<not> grants e n"
  using assms(1,2)
proof (cases rule: allocate_cases [where e = e])
  case short
  then show ?thesis using ok [OF short(2) alloc_short_store [OF assms(3)]] assms(3) by (simp add: us_length_def)
next
  case (long c)
  then show ?thesis using ok [OF long(3) alloc_long_store] by (simp add: us_length_def US_STACKBUF_SIZE_def)
next
  case fail
  then show ?thesis using that(2) by blast
qed

lemma alloc_store_again: "alloc_store t s' cs (put_str t r w) v \<Longrightarrow> alloc_store t s' cs w v"
  by (simp add: alloc_store_def)

lemma allocate_twice:
  assumes "strs w t = Some s" "str_wf w s" "newCapacity \<le> growCapacity" "growCapacity \<le> max_capacity"
  obtains w1 ok1 v where "us_allocate e growCapacity t w = Some (w1, ok1)"
    "(if ok1 then Some (w1, True) else if newCapacity < growCapacity then us_allocate e newCapacity t w1 else Some (w1, False)) = Some (v, True)"
    "\<exists>s' cs. alloc_store t s' cs w v \<and> us_length s' = 0 \<and> newCapacity \<le> int (length cs)"
  | w1 ok1 v r where "us_allocate e growCapacity t w = Some (w1, ok1)"
    "(if ok1 then Some (w1, True) else if newCapacity < growCapacity then us_allocate e newCapacity t w1 else Some (w1, False)) = Some (v, False)"
    "v = put_str t r w" "fFlags r = kIsBogus" "\<exists>l. fUnion r = Fields None 0 l" "\<exists>n. \<not> grants e n"
  using assms(1,4) wf_fBuffer [OF assms(2), of e]
proof (cases rule: allocate_once)
  case (ok v s' cs)
  moreover have "newCapacity \<le> int (length cs)" using ok(4) assms(3) by linarith
  ultimately show ?thesis using that(1) [OF ok(1), of v] by auto
next
  case fail
  show ?thesis
  proof (cases "newCapacity < growCapacity")
    case False
    then show ?thesis using that(2) [OF fail(1)] fail(2) by simp
  next
    case True
    have st: "strs (put_str t (make_bogus s) w) t = Some (make_bogus s)" by simp
    have len: "int (length (fBuffer e (fUnion (make_bogus s)))) = US_STACKBUF_SIZE" by (simp add: US_STACKBUF_SIZE_def)
    have "newCapacity \<le> max_capacity" using assms(3,4) by simp
    from st this len show ?thesis
    proof (cases rule: allocate_once)
      case (ok v s' cs)
      then have "\<exists>s' cs. alloc_store t s' cs w v \<and> us_length s' = 0 \<and> newCapacity \<le> int (length cs)" using alloc_store_again by blast
      then show ?thesis using that(1) [OF fail(1), of v] True ok(1) by simp
    next
      case fail2: fail
      then show ?thesis using fail(2) that(2) [OF fail(1), of "put_str t (make_bogus (make_bogus s)) w" "make_bogus (make_bogus s)"] True
        by (auto simp: put_str_def)
    qed
  qed
qed

text \<open>Giving up the reference to the old array turns the new array into a fresh store.\<close>

lemma alloc_release:
  assumes "us_inv w" "strs w t = Some s" "alloc_store t s' cs w v"
  shows "fresh_store t s' cs w (v\<lparr>blocks := (if fFlags s' = kShortString then released t w else (released t w)(nextBlock w := Some (1, cs)))\<rparr>)"
  using assms(3) by (auto simp: alloc_store_def fresh_store_def kShortString_def kLongString_def)

lemma remove_old:
  assumes "us_inv w" "strs w t = Some s" "kRefCounted (fFlags s)" "alloc_store t s' cs w v"
  obtains b n ocs where "refs s b" "blocks w b = Some (n, ocs)" "fArray (fUnion s) = Some (Counted b, 0)" "b \<noteq> nextBlock w"
    "removeRef (fArray (fUnion s)) v = Some (put_block b (Some (n - 1, ocs)) v, n - 1)"
    "n \<noteq> 1 \<longrightarrow> fresh_store t s' cs w (put_block b (Some (n - 1, ocs)) v)" "n = 1 \<longrightarrow> fresh_store t s' cs w (put_block b None v)"
proof -
  obtain b n ocs l where b: "refs s b" "blocks w b = Some (n, ocs)" "fUnion s = Fields (Some (Counted b, 0)) (int (length ocs)) l"
    using counted_refs [OF us_inv_wf [OF assms(1,2)] assms(3)] by blast
  have nb: "b \<noteq> nextBlock w" using nextBlock_fresh [OF assms(1)] b(2) by auto
  have rel: "released t w = (blocks w)(b := (if n - 1 = 0 then None else Some (n - 1, ocs)))"
    using released_own [OF assms(1,2) b(1,2)] released_other [OF assms(1,2)] refs_unique b(1) by (auto simp: fun_eq_iff)
  have v: "blocks v = (if fFlags s' = kShortString then blocks w else (blocks w)(nextBlock w := Some (1, cs)))"
    using assms(4) by (auto simp: alloc_store_def kShortString_def kLongString_def)
  have "v\<lparr>blocks := (if fFlags s' = kShortString then released t w else (released t w)(nextBlock w := Some (1, cs)))\<rparr> =
      put_block b (if n - 1 = 0 then None else Some (n - 1, ocs)) v"
    using v nb unfolding rel put_block_def by (auto simp: fun_upd_twist intro!: arg_cong2 [where f = blocks_update])
  then have "fresh_store t s' cs w (put_block b (if n - 1 = 0 then None else Some (n - 1, ocs)) v)" using alloc_release [OF assms(1,2,4)] by simp
  moreover have "removeRef (fArray (fUnion s)) v = Some (put_block b (Some (n - 1, ocs)) v, n - 1)"
    using b v nb by (simp add: removeRef_def)
  ultimately show ?thesis using that [OF b(1,2) _ nb] b(3) by (auto split: if_splits)
qed

lemma alloc_uncounted:
  assumes "us_inv w" "strs w t = Some s" "\<not> kRefCounted (fFlags s)" "alloc_store t s' cs w v"
  shows "fresh_store t s' cs w v"
proof -
  have "released t w = blocks w" using released_other [OF assms(1,2)] assms(3) by (auto simp: fun_eq_iff refs_def)
  then show ?thesis using assms(4) by (auto simp: alloc_store_def fresh_store_def)
qed

section \<open>Cloning the array\<close>

lemma bogus_result:
  assumes "us_inv w" "strs w' = (strs w)(t := Some r)" "fFlags r = kIsBogus" "\<exists>l. fUnion r = Fields None 0 l"
    "blocks w' = released t w" "client w' = client w" "nextBlock w' = nextBlock w"
  shows "result_text t None w w'"
proof -
  have "frame t r w w'" using assms by (intro released_frame) (auto simp: refs_def aliases_def kIsBogus_def)
  then show ?thesis by (rule frame_result [OF assms(1)]) (use assms in \<open>auto simp: str_wf_def kIsBogus_def us_text_def us_isBogus_def\<close>)
qed

text \<open>Setting a string to bogus after an allocation has failed.\<close>

lemma clone_fails:
  assumes "us_inv w" "strs w t = Some s" "v = put_str t r w" "fFlags r = kIsBogus" "\<exists>l. fUnion r = Fields None 0 l"
    "us_upd t (\<lambda>s2. (if kUsingStackBuffer (fFlags s) then s2 else setFields (fArray (fUnion s)) (fCapacity (fUnion s2)) s2)\<lparr>fFlags := fFlags s, fShortLength := fShortLength s\<rparr>) v = Some w3"
  shows "\<exists>w4. setToBogus t w3 = Some w4 \<and> result_text t None w w4"
proof -
  let ?r = "(if kUsingStackBuffer (fFlags s) then r else setFields (fArray (fUnion s)) (fCapacity (fUnion r)) r)\<lparr>fFlags := fFlags s, fShortLength := fShortLength s\<rparr>"
  have w3: "w3 = put_str t ?r v" using assms(3,6) by (simp add: us_upd_def)
  have "kRefCounted (fFlags s) \<Longrightarrow> \<not> kUsingStackBuffer (fFlags s)"
    using us_inv_wf [OF assms(1,2)] by (auto simp: str_wf_def short_wf_def kIsBogus_def split: if_splits)
  then have "releaseArray t w3 = Some (w3\<lparr>blocks := released t w\<rparr>)"
    by (intro releaseArray_like [OF assms(1,2), of w3 ?r]) (auto simp: w3 assms(3))
  then have "setToBogus t w3 = Some (put_str t (make_bogus ?r) (w3\<lparr>blocks := released t w\<rparr>))"
    by (simp add: setToBogus_def us_upd_def w3 make_bogus_def)
  moreover have "result_text t None w (put_str t (make_bogus ?r) (w3\<lparr>blocks := released t w\<rparr>))"
    by (rule bogus_result [OF assms(1)]) (auto simp: w3 assms(3))
  ultimately show ?thesis by blast
qed

text \<open>What write access gives: the old array when it can be written and is large enough, otherwise a new one.\<close>

definition needs_clone :: "int \<Rightarrow> ustring \<Rightarrow> world \<Rightarrow> bool" where
  "needs_clone newCapacity s w \<longleftrightarrow> isBufferWritable s w \<noteq> Some True \<or> newCapacity > getCapacity s"

lemma needs_clone_iff:
  assumes "us_inv w" "strs w t = Some s" "isWritable s"
  obtains shared where "(if kRefCounted (fFlags s) then map_option (\<lambda>n. n > 1) (refCount (fArray (fUnion s)) w) else Some False) = Some shared"
    "kBufferIsReadonly (fFlags s) \<or> shared \<or> newCapacity > getCapacity s \<longleftrightarrow> needs_clone newCapacity s w"
proof (cases "kRefCounted (fFlags s)")
  case True
  obtain b n cs l where b: "refs s b" "blocks w b = Some (n, cs)" "fUnion s = Fields (Some (Counted b, 0)) (int (length cs)) l"
    using counted_refs [OF us_inv_wf [OF assms(1,2)] True] by blast
  then have "0 < n" using us_inv_block [OF assms(1)] by blast
  then have "kBufferIsReadonly (fFlags s) \<or> n > 1 \<or> newCapacity > getCapacity s \<longleftrightarrow> needs_clone newCapacity s w"
    using True b assms(3) by (auto simp: needs_clone_def isBufferWritable_def refCount_def isWritable_def)
  moreover have "map_option (\<lambda>n. n > 1) (refCount (fArray (fUnion s)) w) = Some (n > 1)" using b by (simp add: refCount_def)
  ultimately show ?thesis using that [of "n > 1"] True by simp
next
  case False
  then have "kBufferIsReadonly (fFlags s) \<or> False \<or> newCapacity > getCapacity s \<longleftrightarrow> needs_clone newCapacity s w"
    using assms(3) by (auto simp: needs_clone_def isBufferWritable_def isWritable_def)
  then show ?thesis using that [of False] False by simp
qed

definition clone_result :: "nat \<Rightarrow> ustring \<Rightarrow> int list \<Rightarrow> bool \<Rightarrow> int \<Rightarrow> world \<Rightarrow> world \<Rightarrow> bool" where
  "clone_result t s cs0 doCopyArray newCapacity w w' \<longleftrightarrow>
     (\<exists>s' cs. fresh_store t s' cs w w' \<and> newCapacity \<le> int (length cs) \<and>
        (if doCopyArray then us_length s' = min (us_length s) (int (length cs)) \<and> take (nat (us_length s')) cs = take (nat (us_length s')) cs0
         else us_length s' = 0))"

text \<open>Copying the old contents into the new array.\<close>

lemma copy_contents:
  assumes "us_inv w" "holds t s cs0 w" "alloc_store t s' cs w v" "us_length s' = 0"
    "oldArray = (if kUsingStackBuffer (fFlags s) then Local (take (nat (us_length s)) cs0) else At (fArray (fUnion s)))"
  obtains w3 s3 cs3 where "us_arrayCopy oldArray 0 (getArrayStart t s') 0 (min (us_length s) (getCapacity s')) v \<bind> us_upd t (us_setLength (min (us_length s) (getCapacity s'))) = Some w3"
    "alloc_store t s3 cs3 w w3" "length cs3 = length cs" "us_length s3 = min (us_length s) (int (length cs))" "take (nat (us_length s3)) cs3 = take (nat (us_length s3)) cs0"
proof -
  have hs: "holds t s' cs v" "int (length cs) = getCapacity s'" using alloc_holds [OF assms(3)] by auto
  have l: "0 \<le> us_length s" "us_length s \<le> int (length cs0)" using holds_capacity [OF assms(2)] by auto
  define m where "m = min (us_length s) (getCapacity s')"
  have m: "0 \<le> m" "m \<le> us_length s" "m \<le> int (length cs)" "m \<le> int (length cs0)" using l hs(2) by (auto simp: m_def)
  have src: "\<exists>xs. source_mem v oldArray = Some xs \<and> m \<le> int (length xs) \<and> take (nat m) xs = take (nat m) cs0"
    using assms(2)
  proof (cases rule: holds_cases)
    case stack
    then show ?thesis using assms(5) m by (auto simp: min_def)
  next
    case (counted b n l)
    then have "b \<noteq> nextBlock w" using nextBlock_fresh [OF assms(1)] by auto
    then show ?thesis using assms(3,5) counted m by (auto simp: alloc_store_def)
  next
    case (aliased c i k l)
    then show ?thesis using assms(3,5) m by (auto simp: alloc_store_def)
  qed
  then obtain xs where xs: "source_mem v oldArray = Some xs" "m \<le> int (length xs)" "take (nat m) xs = take (nat m) cs0" by blast
  define cs3 where "cs3 = overlay cs 0 (take (nat m) cs0)"
  have len: "length (take (nat m) cs0) = nat m" using m by simp
  have "poke v (getArrayStart t s') 0 (take (nat m) cs0) = Some (with_cells t s' cs3 v)"
    using poke_with_cells [OF hs(1) refl, of 0 "take (nat m) cs0"] with_cells_same [OF hs(1)] m len by (simp add: cs3_def)
  then have "us_arrayCopy oldArray 0 (getArrayStart t s') 0 m v = Some (if m > 0 then with_cells t s' cs3 v else v)"
    using xs m by (simp add: us_arrayCopy_def)
  moreover have "m = 0 \<Longrightarrow> v = with_cells t s' cs3 v" using with_cells_same [OF hs(1)] by (simp add: cs3_def overlay_def)
  ultimately have c: "us_arrayCopy oldArray 0 (getArrayStart t s') 0 m v = Some (with_cells t s' cs3 v)" using m(1) by (cases "m > 0") auto
  have l3: "length cs3 = length cs" using len m by (simp add: cs3_def)
  have "us_upd t (us_setLength m) (with_cells t s' cs3 v) = Some (put_str t (us_setLength m (with_union s' cs3)) (with_cells t s' cs3 v))"
    using with_cells_strs [OF hs(1)] by (simp add: us_upd_def)
  then have "us_arrayCopy oldArray 0 (getArrayStart t s') 0 m v \<bind> us_upd t (us_setLength m) =
      Some (put_str t (us_setLength m (with_union s' cs3)) (with_cells t s' cs3 v))" using c by simp
  moreover have "take (nat m) cs3 = take (nat m) cs0" using len by (simp add: cs3_def overlay_def)
  ultimately show ?thesis using that [OF _ alloc_write [OF assms(3) l3 m(1,3)] l3] m(1) hs(2) unfolding m_def by simp
qed

text \<open>The new array with its contents, while the old one still has its reference.\<close>

lemma clone_copied:
  assumes "us_inv w" "holds t s cs0 w" "alloc_store t s' cs w v" "us_length s' = 0" "newCapacity \<le> int (length cs)"
    "kUsingStackBuffer (fFlags s) \<Longrightarrow> US_STACKBUF_SIZE < growCapacity"
  obtains oldArray w3 s3 cs3 where
    "(if kUsingStackBuffer (fFlags s) then
        (if doCopyArray \<and> growCapacity > US_STACKBUF_SIZE
         then map_option (\<lambda>cs. Local (take (nat (us_length s)) cs)) (mem w (getArrayStart t s)) else Some (At None))
      else Some (At (fArray (fUnion s)))) = Some oldArray"
    "(if doCopyArray then do {
        let minLength = min (us_length s) (getCapacity s');
        w' \<leftarrow> (if oldArray = At None then Some v else us_arrayCopy oldArray 0 (getArrayStart t s') 0 minLength v);
        us_upd t (us_setLength minLength) w'
      } else us_upd t setZeroLength v) = Some w3"
    "alloc_store t s3 cs3 w w3" "newCapacity \<le> int (length cs3)"
    "if doCopyArray then us_length s3 = min (us_length s) (int (length cs3)) \<and> take (nat (us_length s3)) cs3 = take (nat (us_length s3)) cs0 else us_length s3 = 0"
proof (cases doCopyArray)
  case True
  define old where "old = (if kUsingStackBuffer (fFlags s) then Local (take (nat (us_length s)) cs0) else At (fArray (fUnion s)))"
  have "old \<noteq> At None" using assms(2) by (cases rule: holds_cases) (auto simp: old_def)
  moreover have "mem w (getArrayStart t s) = Some cs0" using assms(2) by (simp add: holds_def)
  moreover obtain w3 s3 cs3 where "us_arrayCopy old 0 (getArrayStart t s') 0 (min (us_length s) (getCapacity s')) v \<bind> us_upd t (us_setLength (min (us_length s) (getCapacity s'))) = Some w3"
    "alloc_store t s3 cs3 w w3" "length cs3 = length cs" "us_length s3 = min (us_length s) (int (length cs))" "take (nat (us_length s3)) cs3 = take (nat (us_length s3)) cs0"
    by (rule copy_contents [OF assms(1-4) old_def])
  ultimately show ?thesis using True assms(5,6) that [of old w3 s3 cs3] by (auto simp: old_def Let_def)
next
  case False
  have "strs v t = Some s'" using assms(3) by (simp add: alloc_store_def)
  then have "us_upd t setZeroLength v = Some (put_str t (setZeroLength s') v)" by (simp add: us_upd_def)
  moreover have "alloc_store t (setZeroLength s') cs w (put_str t (setZeroLength s') v)"
    using assms(3) by (auto simp: alloc_store_def setZeroLength_def us_length_def)
  moreover have "us_length (setZeroLength s') = 0" by (simp add: setZeroLength_def us_length_def)
  ultimately show ?thesis using False assms(5) that [of "if kUsingStackBuffer (fFlags s) then At None else At (fArray (fUnion s))" _ "setZeroLength s'" cs] by auto
qed

lemma clone_spec:
  assumes "us_inv w" "holds t s cs0 w" "isWritable s" "newCapacity = (if newCapacity0 = -1 then getCapacity s else newCapacity0)"
    "growCapacity0 < 0 \<or> newCapacity \<le> growCapacity0" "growCapacity0 \<le> max_capacity" "newCapacity \<le> max_capacity"
  obtains (keep) "cloneArrayIfNeeded e newCapacity0 growCapacity0 doCopyArray delayed False t w = Some (w, True, None)" "\<not> needs_clone newCapacity s w"
  | (clone) w' where "cloneArrayIfNeeded e newCapacity0 growCapacity0 doCopyArray delayed False t w = Some (w', True, None)" "needs_clone newCapacity s w"
      "clone_result t s cs0 doCopyArray newCapacity w w'" "\<forall>b. delayed \<and> refs s b \<longrightarrow> released t w b \<noteq> None"
  | (delay) w' b ocs where "cloneArrayIfNeeded e newCapacity0 growCapacity0 doCopyArray delayed False t w = Some (put_block b (Some (0, ocs)) w', True, Some (Counted b, 0))"
      "needs_clone newCapacity s w" "clone_result t s cs0 doCopyArray newCapacity w w'" "delayed" "refs s b" "blocks w b = Some (1, ocs)" "blocks w' b = None" "b \<noteq> nextBlock w"
  | (fail) w' where "cloneArrayIfNeeded e newCapacity0 growCapacity0 doCopyArray delayed False t w = Some (w', False, None)" "needs_clone newCapacity s w" "result_text t None w w'" "\<exists>n. \<not> grants e n"
proof -
  have st: "strs w t = Some s" and wf: "str_wf w s" using assms(2) by (auto simp: holds_def)
  obtain shared where sh: "(if kRefCounted (fFlags s) then map_option (\<lambda>n. n > 1) (refCount (fArray (fUnion s)) w) else Some False) = Some shared"
    "kBufferIsReadonly (fFlags s) \<or> shared \<or> newCapacity > getCapacity s \<longleftrightarrow> needs_clone newCapacity s w"
    by (rule needs_clone_iff [OF assms(1) st assms(3)])
  define growCapacity where "growCapacity =
    (if growCapacity0 < 0 then newCapacity else if newCapacity \<le> US_STACKBUF_SIZE \<and> growCapacity0 > US_STACKBUF_SIZE then US_STACKBUF_SIZE else growCapacity0)"
  have g: "newCapacity \<le> growCapacity" "growCapacity \<le> max_capacity" using assms(5-7) by (auto simp: growCapacity_def max_capacity_def US_STACKBUF_SIZE_def)
  note eq = cloneArrayIfNeeded_def [of e newCapacity0 growCapacity0 doCopyArray delayed False t w,
    unfolded st Option.bind.simps Let_def, folded assms(4), folded growCapacity_def]
  show ?thesis
  proof (cases "needs_clone newCapacity s w")
    case False
    then show ?thesis using keep st sh assms(3,4) by (simp add: cloneArrayIfNeeded_def Let_def)
  next
    case True
    have big: "US_STACKBUF_SIZE < growCapacity" if "kUsingStackBuffer (fFlags s)"
    proof -
      have "isBufferWritable s w = Some True" using assms(2,3) that by (auto elim!: holds_cases simp: isBufferWritable_def isWritable_def)
      then show ?thesis using True that g(1) by (simp add: needs_clone_def getCapacity_def)
    qed
    from st wf g show ?thesis
    proof (cases rule: allocate_twice [where e = e])
      case (1 w1 ok1 v)
      obtain s' cs where a: "alloc_store t s' cs w v" "us_length s' = 0" "newCapacity \<le> int (length cs)" using 1(3) by blast
      have v: "strs v t = Some s'" using a(1) by (simp add: alloc_store_def)
      obtain oldArray w3 s3 cs3 where o:
        "(if kUsingStackBuffer (fFlags s) then
            (if doCopyArray \<and> growCapacity > US_STACKBUF_SIZE
             then map_option (\<lambda>cs. Local (take (nat (us_length s)) cs)) (mem w (getArrayStart t s)) else Some (At None))
          else Some (At (fArray (fUnion s)))) = Some oldArray"
        "(if doCopyArray then do {
            let minLength = min (us_length s) (getCapacity s');
            w' \<leftarrow> (if oldArray = At None then Some v else us_arrayCopy oldArray 0 (getArrayStart t s') 0 minLength v);
            us_upd t (us_setLength minLength) w'
          } else us_upd t setZeroLength v) = Some w3"
        and w3: "alloc_store t s3 cs3 w w3" "newCapacity \<le> int (length cs3)"
          "if doCopyArray then us_length s3 = min (us_length s) (int (length cs3)) \<and> take (nat (us_length s3)) cs3 = take (nat (us_length s3)) cs0 else us_length s3 = 0"
        by (rule clone_copied [OF assms(1,2) a big])
      have res: "clone_result t s cs0 doCopyArray newCapacity w w'" if "fresh_store t s3 cs3 w w'" for w'
        using that w3(2,3) unfolding clone_result_def by blast
      have call: "cloneArrayIfNeeded e newCapacity0 growCapacity0 doCopyArray delayed False t w =
        (if kRefCounted (fFlags s) then do {
           (w4, n) \<leftarrow> removeRef (fArray (fUnion s)) w3;
           if n = 0 then
             (if delayed then Some (w4, True, fArray (fUnion s)) else map_option (\<lambda>w5. (w5, True, None)) (free_block (fArray (fUnion s)) w4))
           else Some (w4, True, None)
         } else Some (w3, True, None))"
        unfolding eq sh(1) 1(1) Option.bind.simps prod.case 1(2) o(1) v o(2) [unfolded Let_def] using sh(2) True assms(3) by (simp split del: if_split)
      show ?thesis
      proof (cases "kRefCounted (fFlags s)")
        case False
        show ?thesis using clone [OF _ True res [OF alloc_uncounted [OF assms(1) st False w3(1)]]] call False by (simp add: refs_def)
      next
        case c: True
        obtain b n ocs where b: "refs s b" "blocks w b = Some (n, ocs)" "fArray (fUnion s) = Some (Counted b, 0)" "b \<noteq> nextBlock w"
          "removeRef (fArray (fUnion s)) w3 = Some (put_block b (Some (n - 1, ocs)) w3, n - 1)"
          "n \<noteq> 1 \<longrightarrow> fresh_store t s3 cs3 w (put_block b (Some (n - 1, ocs)) w3)" "n = 1 \<longrightarrow> fresh_store t s3 cs3 w (put_block b None w3)"
          by (rule remove_old [OF assms(1) st c w3(1)])
        consider "n \<noteq> 1" | "n = 1" "delayed" | "n = 1" "\<not> delayed" by blast
        then show ?thesis
        proof cases
          case 1
          have "\<forall>b'. refs s b' \<longrightarrow> released t w b' \<noteq> None" using released_own [OF assms(1) st b(1,2)] 1 refs_unique [OF b(1)] by auto
          then show ?thesis using clone [OF _ True res [OF b(6) [rule_format]]] call c b(5) 1 by simp
        next
          case 2
          have "put_block b (Some (0, ocs)) (put_block b None w3) = put_block b (Some (0, ocs)) w3" by (simp add: put_block_def)
          then show ?thesis using delay [OF _ True res [OF b(7) [rule_format]] 2(2) b(1)] call c b 2 by simp
        next
          case 3
          have "free_block (fArray (fUnion s)) (put_block b (Some (0, ocs)) w3) = Some (put_block b None w3)" using b(3) by (simp add: free_block_def put_block_def)
          then show ?thesis using clone [OF _ True res [OF b(7) [rule_format]]] call c b(5) 3 by simp
        qed
      qed
    next
      case (2 w1 ok1 v r)
      let ?f = "\<lambda>s2. (if kUsingStackBuffer (fFlags s) then s2 else setFields (fArray (fUnion s)) (fCapacity (fUnion s2)) s2)\<lparr>fFlags := fFlags s, fShortLength := fShortLength s\<rparr>"
      obtain w3 where w3: "us_upd t ?f v = Some w3" using 2(3) by (simp add: us_upd_def)
      obtain w4 where w4: "setToBogus t w3 = Some w4" "result_text t None w w4" using clone_fails [OF assms(1) st 2(3-5) w3] by blast
      have "\<exists>oldArray. (if kUsingStackBuffer (fFlags s) then
            (if doCopyArray \<and> growCapacity > US_STACKBUF_SIZE
             then map_option (\<lambda>cs. Local (take (nat (us_length s)) cs)) (mem w (getArrayStart t s)) else Some (At None))
          else Some (At (fArray (fUnion s)))) = Some oldArray" using assms(2) by (auto simp: holds_def)
      then have "cloneArrayIfNeeded e newCapacity0 growCapacity0 doCopyArray delayed False t w = Some (w4, False, None)"
        unfolding eq sh(1) 2(1) Option.bind.simps prod.case 2(2) using sh(2) True assms(3) w3 w4(1) by (auto simp: Let_def)
      then show ?thesis using fail [OF _ True w4(2) 2(6)] by blast
    qed
  qed
qed

end
