(* ===== verification/UnicodeStrReplace.thy ===== *)
theory UnicodeStrReplace
  imports UnicodeStrProofs
begin

text \<open>
  The replacement of a part of a string, \<^verbatim>\<open>doReplace\<close>, on which appending, inserting, removing and assigning of parts rest: in
  place, with the shortcuts for appending and for read-only aliases, and with a new array.
\<close>

section \<open>Copies into the own array\<close>

lemma overlay_Nil [simp]: "overlay cs i [] = cs"
  by (simp add: overlay_def)

lemma overlay_same: "i + k \<le> length cs \<Longrightarrow> overlay cs i (take k (drop i cs)) = cs"
proof -
  assume "i + k \<le> length cs"
  then have "overlay cs i (take k (drop i cs)) = take i cs @ (take k (drop i cs) @ drop k (drop i cs))" by (simp add: overlay_def add.commute)
  then show ?thesis by (simp only: append_take_drop_id)
qed

lemma copy_own:
  assumes "holds t s cs0 w" "length cs = length cs0" "n > 0 \<Longrightarrow> source_mem (with_cells t s cs w) src = Some xs" "0 \<le> n" "0 \<le> a" "0 \<le> b"
    "n > 0 \<Longrightarrow> a + n \<le> int (length xs)" "b + n \<le> int (length cs)"
  shows "us_arrayCopy src a (getArrayStart t s) b n (with_cells t s cs w) = Some (with_cells t s (overlay cs (nat b) (take (nat n) (drop (nat a) xs))) w)"
proof (cases "n > 0")
  case True
  have "length (take (nat n) (drop (nat a) xs)) = nat n" using assms(4,5,7) True by simp
  then have "poke (with_cells t s cs w) (getArrayStart t s) (nat b) (take (nat n) (drop (nat a) xs)) = Some (with_cells t s (overlay cs (nat b) (take (nat n) (drop (nat a) xs))) w)"
    using assms(4,6,8) by (intro poke_with_cells [OF assms(1,2)]) linarith
  then show ?thesis using True assms by (simp add: us_arrayCopy_def)
next
  case False
  then show ?thesis using assms(4) by (simp add: us_arrayCopy_def)
qed

lemma replaced_list:
  assumes "st + l + tail \<le> length old" "st + length us + tail \<le> length cs" "take st cs = take st old"
  shows "take (st + length us + tail) (overlay (overlay cs (st + length us) (take tail (drop (st + l) old))) st us) = take st old @ us @ take tail (drop (st + l) old)"
proof -
  have t: "length (take tail (drop (st + l) old)) = tail" using assms(1) by simp
  have "take st (overlay cs (st + length us) (take tail (drop (st + l) old))) = take st old" using assms(2,3) by (simp add: overlay_def min_def)
  moreover have "drop (st + length us) (overlay cs (st + length us) (take tail (drop (st + l) old))) = take tail (drop (st + l) old) @ drop (st + length us + tail) cs"
    using assms(2) t by (simp add: overlay_def)
  moreover have "length (take st old) = st" using assms(1) by simp
  ultimately show ?thesis using t by (simp add: overlay_def [of "overlay cs (st + length us) (take tail (drop (st + l) old))"])
qed

text \<open>A source whose memory an operation on \<open>t\<close> does not change before it is read.\<close>

fun foreign :: "world \<Rightarrow> nat \<Rightarrow> ustring \<Rightarrow> source \<Rightarrow> bool" where
  "foreign w t s (Local xs) \<longleftrightarrow> True"
| "foreign w t s (At None) \<longleftrightarrow> True"
| "foreign w t s (At (Some (StackOf u, i))) \<longleftrightarrow> u \<noteq> t"
| "foreign w t s (At (Some (Counted b, i))) \<longleftrightarrow> owners w b - {t} \<noteq> {}"
| "foreign w t s (At (Some (Client c, i))) \<longleftrightarrow> \<not> (aliases s c \<and> \<not> kBufferIsReadonly (fFlags s))"

lemma source_with_cells: "holds t s cs0 w \<Longrightarrow> (\<And>p. src = At p \<Longrightarrow> elsewhere t s p) \<Longrightarrow> source_mem (with_cells t s cs w) src = source_mem w src"
  using with_cells_elsewhere by (cases src) auto

lemma foreign_elsewhere:
  assumes "us_inv w" "holds t s cs w" "exclusive s w" "foreign w t s src" "src = At p"
  shows "elsewhere t s p"
proof -
  have st: "strs w t = Some s" using assms(2) by (simp add: holds_def)
  show ?thesis
  proof (cases "(t, s, p)" rule: elsewhere.cases)
    case (3 t' s' b i)
    then show ?thesis using assms(4,5) exclusive_owner [OF assms(1) st assms(3), of b] by auto
  next
    case (4 t' s' c i)
    then show ?thesis using assms(3,4,5) by (auto simp: exclusive_def)
  qed (use assms(4,5) in auto)
qed

lemma upd_with_cells: "holds t s cs0 w \<Longrightarrow> us_upd t f (with_cells t s cs w) = Some (put_str t (f (with_union s cs)) (with_cells t s cs w))"
  using with_cells_strs by (simp add: us_upd_def)

lemma result_trans: "result_text t x w v \<Longrightarrow> result_text t y v u \<Longrightarrow> result_text t y w u"
  by (auto simp: result_text_def)

section \<open>Replacing with a new array\<close>

text \<open>The world between the new array and the release of the old one, \<open>keeps\<close> the memory that is still read.\<close>

lemma fresh_source:
  assumes "us_inv w" "strs w t = Some s" "fresh_store t s' cs w v" "foreign w t s src"
  shows "source_mem v src = source_mem w src" "src = At p \<Longrightarrow> elsewhere t s' p"
proof -
  note nf = nextBlock_fresh [OF assms(1)]
  have kept: "owners w b - {t} \<noteq> {} \<Longrightarrow> mem v (Some (Counted b, i)) = mem w (Some (Counted b, i)) \<and> b \<noteq> nextBlock w" for b i
  proof -
    assume "owners w b - {t} \<noteq> {}"
    then obtain u r where u: "u \<noteq> t" "strs w u = Some r" "refs r b" by (auto simp: owners_def)
    have "b \<noteq> nextBlock w" using nf u by (auto simp: owners_def)
    then show ?thesis using released_kept [OF assms(1) u] assms(3) by (auto simp: fresh_store_def)
  qed
  have s': "refs s' b \<longleftrightarrow> fFlags s' = kLongString \<and> b = nextBlock w" "\<not> aliases s' c" for b c
    using assms(3) by (auto simp: fresh_store_def refs_def aliases_def kShortString_def kLongString_def)
  show "source_mem v src = source_mem w src" using assms(3,4) kept
    by (cases "(w, t, s, src)" rule: foreign.cases) (auto simp: fresh_store_def)
  show "elsewhere t s' p" if "src = At p" using assms(4) that kept s'
    by (cases "(t, s', p)" rule: elsewhere.cases) auto
qed

text \<open>The units that the replacement puts in: \<open>n\<close> units from index \<open>i\<close> of the source.\<close>

definition provides :: "world \<Rightarrow> source \<Rightarrow> int \<Rightarrow> int \<Rightarrow> int list \<Rightarrow> bool" where
  "provides w src i n us \<longleftrightarrow> 0 \<le> i \<and> int (length us) = n \<and> (n > 0 \<longrightarrow> (\<exists>xs. source_mem w src = Some xs \<and> i + n \<le> int (length xs) \<and> us = take (nat n) (drop (nat i) xs)))"

definition replaced :: "int list \<Rightarrow> int \<Rightarrow> int \<Rightarrow> int list \<Rightarrow> int list" where
  "replaced x st l us = take (nat st) x @ us @ drop (nat st + nat l) x"

lemma copy_provided:
  assumes "holds t s cs0 w" "length cs = length cs0" "provides (with_cells t s cs w) src i n us" "0 \<le> b" "b + n \<le> int (length cs)"
  shows "us_arrayCopy src i (getArrayStart t s) b n (with_cells t s cs w) = Some (with_cells t s (overlay cs (nat b) us) w)"
proof (cases "n > 0")
  case True
  then obtain xs where "source_mem (with_cells t s cs w) src = Some xs" "i + n \<le> int (length xs)" "us = take (nat n) (drop (nat i) xs)"
    using assms(3) by (auto simp: provides_def)
  then show ?thesis using copy_own [OF assms(1,2), of n src xs i b] assms(3,4,5) by (auto simp: provides_def)
next
  case False
  then show ?thesis using assms(3) by (auto simp: provides_def us_arrayCopy_def)
qed

text \<open>In place.\<close>

lemma replace_in_place:
  assumes "us_inv w" "holds t s cs0 w" "exclusive s w" "\<not> kOpenGetBuffer (fFlags s)" "foreign w t s src" "provides w src srcStart srcLength us"
    "0 \<le> st" "0 \<le> l" "st + l \<le> us_length s" "newLength = us_length s - l + srcLength" "newLength \<le> getCapacity s"
  shows "\<exists>w2 w3 w4. (if l \<noteq> srcLength then us_arrayCopy (At (getArrayStart t s)) (st + l) (getArrayStart t s) (st + srcLength) (us_length s - (st + l)) w else Some w) = Some w2 \<and>
    us_arrayCopy src srcStart (getArrayStart t s) st srcLength w2 = Some w3 \<and> us_upd t (us_setLength newLength) w3 = Some w4 \<and>
    result_text t (Some (replaced (take (nat (us_length s)) cs0) st l us)) w w4"
proof -
  define tail where "tail = us_length s - (st + l)"
  have cap: "getCapacity s \<le> int (length cs0)" "us_length s \<le> getCapacity s" using holds_capacity [OF assms(2)] by auto
  have n: "int (length us) = srcLength" "0 \<le> tail" using assms(6,9) by (auto simp: provides_def tail_def)
  define cs2 where "cs2 = overlay cs0 (nat (st + srcLength)) (take (nat tail) (drop (nat (st + l)) cs0))"
  have l2: "length cs2 = length cs0" unfolding cs2_def using n assms(7-11) cap by (intro overlay_length) (auto simp: tail_def)
  have "us_arrayCopy (At (getArrayStart t s)) (st + l) (getArrayStart t s) (st + srcLength) tail (with_cells t s cs0 w) = Some (with_cells t s cs2 w)"
    unfolding cs2_def by (rule copy_own [OF assms(2) refl]) (use n assms(7-11) cap with_cells_mem [OF assms(2), of cs0] in \<open>auto simp: tail_def\<close>)
  moreover have "with_cells t s cs2 w = w" if "l = srcLength"
  proof -
    have "nat (st + l) + nat tail \<le> length cs0" using assms(7-11) cap n by (auto simp: tail_def)
    then have "cs2 = cs0" using that overlay_same by (simp add: cs2_def)
    then show ?thesis using with_cells_same [OF assms(2)] by simp
  qed
  ultimately have c2: "(if l \<noteq> srcLength then us_arrayCopy (At (getArrayStart t s)) (st + l) (getArrayStart t s) (st + srcLength) tail w else Some w) = Some (with_cells t s cs2 w)"
    using with_cells_same [OF assms(2)] by auto
  define cs3 where "cs3 = overlay cs2 (nat st) us"
  have src: "provides (with_cells t s cs2 w) src srcStart srcLength us"
    using assms(6) source_with_cells [OF assms(2) foreign_elsewhere [OF assms(1,2,3,5)], of src cs2] by (simp add: provides_def)
  have c3: "us_arrayCopy src srcStart (getArrayStart t s) st srcLength (with_cells t s cs2 w) = Some (with_cells t s cs3 w)"
    unfolding cs3_def by (rule copy_provided [OF assms(2) l2 src assms(7)]) (use n assms(7-11) cap l2 in linarith)
  have l3: "length cs3 = length cs0" unfolding cs3_def l2 [symmetric] by (rule overlay_length) (use n assms(7-11) cap l2 in linarith)
  have new: "take (nat newLength) cs3 = replaced (take (nat (us_length s)) cs0) st l us"
  proof -
    have e: "nat newLength = nat st + length us + nat tail" "nat (st + srcLength) = nat st + length us" "nat (st + l) = nat st + nat l"
      using n assms(7-10) by (auto simp: tail_def)
    have "take (nat newLength) cs3 = take (nat st) cs0 @ us @ take (nat tail) (drop (nat st + nat l) cs0)"
      unfolding cs3_def cs2_def e by (rule replaced_list) (use n assms(7-11) cap in \<open>auto simp: tail_def\<close>)
    moreover have "nat (us_length s) = nat st + nat l + nat tail" using n assms(7-9) by (simp add: tail_def)
    ultimately show ?thesis by (simp add: replaced_def drop_take min_def)
  qed
  have "result_text t (Some (take (nat newLength) cs3)) w (put_str t (us_setLength newLength (with_union s cs3)) (with_cells t s cs3 w))"
    by (rule own_write [OF assms(1-3) l3]) (use assms(4,10,11) n assms(7-9) in auto)
  then show ?thesis using c2 c3 upd_with_cells [OF assms(2), of "us_setLength newLength" cs3] new by (auto simp: tail_def)
qed

text \<open>With a new array: \<open>v\<close> has the new array and still the memory of the old one.\<close>

lemma holds_more_blocks:
  assumes "holds t s cs w" "\<not> refs s b"
  shows "holds t s cs (put_block b x w)" "with_cells t s cs' (put_block b x w) = put_block b x (with_cells t s cs' w)"
proof -
  have "kRefCounted (fFlags s) \<longrightarrow> fArray (fUnion s) \<noteq> Some (Counted b, i)" for i
    using assms by (cases rule: holds_cases) (auto simp: refs_def)
  note ne = this
  from assms(1) show "holds t s cs (put_block b x w)"
    by (cases rule: holds_cases) (use assms(1) ne in \<open>auto simp: holds_def str_wf_def fields_wf_def getArrayStart_def split: if_splits\<close>)
  from assms(1) show "with_cells t s cs' (put_block b x w) = put_block b x (with_cells t s cs' w)"
    by (cases rule: holds_cases) (use assms(2) in \<open>auto simp: with_cells_def put_block_def put_str_def put_client_def refs_def fun_upd_twist\<close>)
qed

lemma replace_copies:
  assumes "holds t s' cs v" "source_mem v oldArray = Some old" "\<And>p. oldArray = At p \<Longrightarrow> elsewhere t s' p"
    "provides v src srcStart srcLength us" "\<And>p. src = At p \<Longrightarrow> elsewhere t s' p"
    "0 \<le> st" "0 \<le> l" "st + l + tail \<le> int (length old)" "0 \<le> tail" "st + srcLength + tail \<le> int (length cs)"
  obtains cs3 where "(us_arrayCopy oldArray 0 (getArrayStart t s') 0 st v \<bind> us_arrayCopy oldArray (st + l) (getArrayStart t s') (st + srcLength) tail) \<bind>
      us_arrayCopy src srcStart (getArrayStart t s') st srcLength = Some (with_cells t s' cs3 v)"
    "length cs3 = length cs" "take (nat (st + srcLength + tail)) cs3 = take (nat st) old @ us @ take (nat tail) (drop (nat st + nat l) old)"
proof -
  have n: "int (length us) = srcLength" using assms(4) by (simp add: provides_def)
  define cs1 where "cs1 = overlay cs 0 (take (nat st) old)"
  define cs2 where "cs2 = overlay cs1 (nat st + length us) (take (nat tail) (drop (nat st + nat l) old))"
  define cs3 where "cs3 = overlay cs2 (nat st) us"
  have l1: "length cs1 = length cs" unfolding cs1_def by (rule overlay_length) (use assms(6-10) n in auto)
  have l2: "length cs2 = length cs" unfolding cs2_def l1 [symmetric] by (rule overlay_length) (use assms(6-10) n l1 in auto)
  have l3: "length cs3 = length cs" unfolding cs3_def l2 [symmetric] by (rule overlay_length) (use assms(6-10) n l2 in auto)
  note src = source_with_cells [OF assms(1)]
  have "us_arrayCopy oldArray 0 (getArrayStart t s') 0 st (with_cells t s' cs v) = Some (with_cells t s' cs1 v)"
    using copy_own [OF assms(1) refl, of st oldArray old 0 0] src [of oldArray cs, OF assms(3)] assms(2,6-10) n by (simp add: cs1_def)
  then have c1: "us_arrayCopy oldArray 0 (getArrayStart t s') 0 st v = Some (with_cells t s' cs1 v)" using with_cells_same [OF assms(1)] by simp
  have e: "nat (st + srcLength) = nat st + length us" "nat (st + l) = nat st + nat l" using n assms(6,7) by auto
  have c2: "us_arrayCopy oldArray (st + l) (getArrayStart t s') (st + srcLength) tail (with_cells t s' cs1 v) = Some (with_cells t s' cs2 v)"
    using copy_own [OF assms(1) l1, of tail oldArray old "st + l" "st + srcLength"] src [of oldArray cs1, OF assms(3)] assms(2,6-10) n l1 by (simp add: cs2_def e)
  have c3: "us_arrayCopy src srcStart (getArrayStart t s') st srcLength (with_cells t s' cs2 v) = Some (with_cells t s' cs3 v)"
    using copy_provided [OF assms(1) l2, of src srcStart srcLength us st] src [of src cs2, OF assms(5)] assms(4,6-10) n l2 by (simp add: cs3_def provides_def)
  have k: "nat (st + srcLength + tail) = nat st + length us + nat tail" using n assms(6,7,9) by auto
  have "take (nat (st + srcLength + tail)) cs3 = take (nat st) old @ us @ take (nat tail) (drop (nat st + nat l) old)"
    unfolding cs3_def cs2_def k by (rule replaced_list) (use assms(6-10) n l1 in \<open>auto simp: cs1_def overlay_def\<close>)
  then show ?thesis using that [OF _ l3] c1 c2 c3 by simp
qed

text \<open>
  The outcome of an operation that may need memory: the new text, or a bogus string if the memory was refused.
\<close>

definition outcome :: "int heap \<Rightarrow> nat \<Rightarrow> int list \<Rightarrow> world \<Rightarrow> world option \<Rightarrow> bool" where
  "outcome e t x w r \<longleftrightarrow> (\<exists>w'. r = Some w' \<and> (result_text t (Some x) w w' \<or> (result_text t None w w' \<and> (\<exists>n. \<not> grants e n))))"

lemma replace_new_array:
  assumes "us_inv w" "holds t s cs0 w" "foreign w t s src" "provides w src srcStart srcLength us"
    "0 \<le> st" "0 \<le> l" "st + l \<le> us_length s" "newLength = us_length s - l + srcLength"
    "fresh_store t s' cs w v0" "us_length s' = 0" "newLength \<le> int (length cs)"
    "oldArray = (if kUsingStackBuffer (fFlags s) then Local (take (nat (us_length s)) cs0) else At (getArrayStart t s))"
    "(v = v0 \<and> (\<forall>b. refs s b \<longrightarrow> released t w b \<noteq> None) \<and> d = None) \<or>
     (\<exists>b ocs. v = put_block b (Some (0, ocs)) v0 \<and> refs s b \<and> blocks w b = Some (1, ocs) \<and> blocks v0 b = None \<and> b \<noteq> nextBlock w \<and> d = Some (Counted b, 0))"
  shows "\<exists>w3 w4 w5. (us_arrayCopy oldArray 0 (getArrayStart t s') 0 st v \<bind> us_arrayCopy oldArray (st + l) (getArrayStart t s') (st + srcLength) (us_length s - (st + l))) \<bind>
      us_arrayCopy src srcStart (getArrayStart t s') st srcLength = Some w3 \<and> us_upd t (us_setLength newLength) w3 = Some w4 \<and>
    (if d = None then Some w4 else free_block d w4) = Some w5 \<and> result_text t (Some (replaced (take (nat (us_length s)) cs0) st l us)) w w5"
proof -
  have st: "strs w t = Some s" using assms(2) by (simp add: holds_def)
  note nf = nextBlock_fresh [OF assms(1)] and fh = fresh_holds [OF assms(9)]
  have rs: "refs s' b \<longleftrightarrow> fFlags s' = kLongString \<and> b = nextBlock w" "\<not> aliases s' c" for b c
    using assms(9) by (auto simp: fresh_store_def refs_def aliases_def kShortString_def kLongString_def)
  obtain b x where vb: "v = (if d = None then v0 else put_block b x v0)" "d \<noteq> None \<longrightarrow> d = Some (Counted b, 0) \<and> x \<noteq> None \<and> \<not> refs s' b \<and> blocks v0 b = None"
    using assms(13) rs by (metis option.distinct(1))
  have v: "holds t s' cs v" "with_cells t s' cs' v = (if d = None then with_cells t s' cs' v0 else put_block b x (with_cells t s' cs' v0))" for cs'
    using vb fh holds_more_blocks [of t s' cs v0 b] by auto
  have srcv: "source_mem v src = source_mem w src"
  proof -
    have a: "source_mem v0 src = source_mem w src" using fresh_source(1) [OF assms(1) st assms(9,3)] .
    have "source_mem (put_block b x v0) src = source_mem v0 src" if "refs s b" "blocks w b = Some (1, ocs)" for b x ocs
    proof -
      have "card (owners w b) = 1" using us_inv_block [OF assms(1) that(2)] by simp
      moreover have "t \<in> owners w b" using st that(1) by (auto simp: owners_def)
      ultimately have "owners w b = {t}" by (auto simp: card_1_singleton_iff)
      then show ?thesis using assms(3) by (cases "(w, t, s, src)" rule: foreign.cases) auto
    qed
    then show ?thesis using a assms(13) by auto
  qed
  have old: "source_mem v oldArray = Some (if kUsingStackBuffer (fFlags s) then take (nat (us_length s)) cs0 else cs0)" "\<And>p. oldArray = At p \<Longrightarrow> elsewhere t s' p"
  proof -
    have "source_mem v oldArray = Some (if kUsingStackBuffer (fFlags s) then take (nat (us_length s)) cs0 else cs0) \<and> (\<forall>p. oldArray = At p \<longrightarrow> elsewhere t s' p)"
      using assms(2)
    proof (cases rule: holds_cases)
      case stack
      then show ?thesis using assms(12) by simp
    next
      case (counted b n k)
      have nb: "b \<noteq> nextBlock w" using nf counted(5) by auto
      have "\<exists>k. blocks v b = Some (k, cs0)"
      proof (cases "d = None")
        case True
        then obtain k x where "released t w b = Some (k, x)" "v = v0" using assms(13) counted(6) by force
        then show ?thesis using counted(5) nb assms(9) by (auto simp: fresh_store_def released_def split: if_splits)
      next
        case False
        then obtain b' ocs where o: "v = put_block b' (Some (0, ocs)) v0" "refs s b'" "blocks w b' = Some (1, ocs)" using assms(13) by auto
        then have "b' = b" using refs_unique counted(6) by blast
        then show ?thesis using o counted(5) by simp
      qed
      then show ?thesis using assms(12) counted nb rs by (auto simp: getArrayStart_def)
    next
      case (aliased c i k m)
      then show ?thesis using assms(9,12,13) rs by (auto simp: getArrayStart_def fresh_store_def)
    qed
    then show "source_mem v oldArray = Some (if kUsingStackBuffer (fFlags s) then take (nat (us_length s)) cs0 else cs0)" "\<And>p. oldArray = At p \<Longrightarrow> elsewhere t s' p" by auto
  qed
  define old where "old = (if kUsingStackBuffer (fFlags s) then take (nat (us_length s)) cs0 else cs0)"
  define tail where "tail = us_length s - (st + l)"
  have cap: "us_length s \<le> int (length cs0)" using holds_capacity [OF assms(2)] by auto
  have len: "us_length s \<le> int (length old)" "take (nat (us_length s)) old = take (nat (us_length s)) cs0" using cap assms(5-7) by (auto simp: old_def)
  have n: "int (length us) = srcLength" using assms(4) by (simp add: provides_def)
  have pv: "provides v src srcStart srcLength us" using assms(4) srcv by (simp add: provides_def)
  obtain cs3 where c: "(us_arrayCopy oldArray 0 (getArrayStart t s') 0 st v \<bind> us_arrayCopy oldArray (st + l) (getArrayStart t s') (st + srcLength) tail) \<bind>
      us_arrayCopy src srcStart (getArrayStart t s') st srcLength = Some (with_cells t s' cs3 v)"
    "length cs3 = length cs" "take (nat (st + srcLength + tail)) cs3 = take (nat st) old @ us @ take (nat tail) (drop (nat st + nat l) old)"
    by (rule replace_copies [OF v(1) old(1) [folded old_def] old(2) pv fresh_source(2) [OF assms(1) st assms(9,3)] assms(5,6), where tail = tail])
      (use assms(5-8,11) len n in \<open>auto simp: tail_def\<close>)
  have e: "newLength = st + srcLength + tail" "nat (us_length s) = nat st + nat l + nat tail" using assms(5-8) by (auto simp: tail_def)
  have new: "take (nat newLength) cs3 = replaced (take (nat (us_length s)) cs0) st l us"
    unfolding e(1) c(3) replaced_def len(2) [symmetric] by (simp add: e(2) drop_take min_def)
  let ?s = "us_setLength newLength (with_union s' cs3)"
  have res: "result_text t (Some (replaced (take (nat (us_length s)) cs0) st l us)) w (put_str t ?s (with_cells t s' cs3 v0))"
  proof (rule result_trans)
    show r0: "result_text t (Some (take (nat (us_length s')) cs)) w v0" by (rule fresh_result [OF assms(1,9)])
    have "kOpenGetBuffer (fFlags s') \<Longrightarrow> False" using assms(9) by (auto simp: fresh_store_def kShortString_def kLongString_def)
    then show "result_text t (Some (replaced (take (nat (us_length s)) cs0) st l us)) v0 (put_str t ?s (with_cells t s' cs3 v0))"
      using own_write [of v0 t s' cs cs3 newLength] r0 fh c(2) assms(5-8,11) n new by (auto simp: result_text_def)
  qed
  have w4: "us_upd t (us_setLength newLength) (with_cells t s' cs3 v) = Some (put_str t ?s (with_cells t s' cs3 v))" by (rule upd_with_cells [OF v(1)])
  have w5: "(if d = None then Some (put_str t ?s (with_cells t s' cs3 v)) else free_block d (put_str t ?s (with_cells t s' cs3 v))) = Some (put_str t ?s (with_cells t s' cs3 v0))"
  proof (cases "d = None")
    case False
    then have d: "d = Some (Counted b, 0)" "x \<noteq> None" "\<not> refs s' b" "blocks v0 b = None" using vb(2) by auto
    have "blocks (with_cells t s' cs3 v0) b = None" using with_cells_rest(2) [of t s' cs v0 b cs3] fh d by simp
    then have "put_block b None (put_str t ?s (put_block b x (with_cells t s' cs3 v0))) = put_str t ?s (with_cells t s' cs3 v0)"
      by (simp add: put_block_def put_str_def fun_upd_idem)
    then show ?thesis using False v(2) d(1,2) by (simp add: free_block_def)
  qed (use v(2) in simp)
  show ?thesis using c(1) w4 w5 res unfolding tail_def by blast
qed

lemma replace_general_outcome:
  assumes "us_inv w" "holds t s cs0 w" "isWritable s" "foreign w t s src" "provides w src srcStart srcLength us"
    "0 \<le> st" "0 \<le> l" "st + l \<le> us_length s" "newLength = us_length s - l + srcLength" "newLength + newLength div 4 + kGrowSize \<le> max_capacity"
  shows "outcome e t (replaced (take (nat (us_length s)) cs0) st l us) w (replace_general e st l src srcStart srcLength newLength t w)"
proof -
  have sw: "strs w t = Some s" "mem w (getArrayStart t s) = Some cs0" using assms(2) by (auto simp: holds_def)
  have n: "0 \<le> newLength" "newLength \<noteq> -1" using assms(5-9) by (auto simp: provides_def)
  have op: "\<not> kOpenGetBuffer (fFlags s)" using assms(3) by (simp add: isWritable_def)
  have stack: "kUsingStackBuffer (fFlags s) \<Longrightarrow> isBufferWritable s w = Some True \<and> getCapacity s = US_STACKBUF_SIZE"
    using assms(2,3) by (auto elim!: holds_cases simp: isBufferWritable_def isWritable_def getCapacity_def)
  have old: "(if kUsingStackBuffer (fFlags s) \<and> newLength > US_STACKBUF_SIZE
      then map_option (\<lambda>cs. Local (take (nat (us_length s)) cs)) (mem w (getArrayStart t s)) else Some (At (getArrayStart t s))) =
    Some (if kUsingStackBuffer (fFlags s) \<and> newLength > US_STACKBUF_SIZE then Local (take (nat (us_length s)) cs0) else At (getArrayStart t s))" using sw by simp
  note eq = replace_general_def [of e st l src srcStart srcLength newLength t w, unfolded sw(1) Option.bind.simps Let_def, unfolded old Option.bind.simps]
  have new: ?thesis
    if c: "cloneArrayIfNeeded e newLength (newLength + newLength div 4 + kGrowSize) False True False t w = Some (v, True, d)"
      "clone_result t s cs0 False newLength w v0" "needs_clone newLength s w"
      and vd: "(v = v0 \<and> (\<forall>b. refs s b \<longrightarrow> released t w b \<noteq> None) \<and> d = None) \<or>
        (\<exists>b ocs. v = put_block b (Some (0, ocs)) v0 \<and> refs s b \<and> blocks w b = Some (1, ocs) \<and> blocks v0 b = None \<and> b \<noteq> nextBlock w \<and> d = Some (Counted b, 0))" for v v0 d
  proof -
    obtain s' cs where f: "fresh_store t s' cs w v0" "newLength \<le> int (length cs)" "us_length s' = 0" using c(2) by (auto simp: clone_result_def)
    define oldArray where "oldArray = (if kUsingStackBuffer (fFlags s) then Local (take (nat (us_length s)) cs0) else At (getArrayStart t s))"
    have big: "kUsingStackBuffer (fFlags s) \<Longrightarrow> newLength > US_STACKBUF_SIZE" using stack c(3) by (auto simp: needs_clone_def)
    have sv: "strs v t = Some s'" using vd f(1) by (auto simp: fresh_store_def)
    have ne: "At (getArrayStart t s') \<noteq> oldArray"
      using assms(2)
    proof (cases rule: holds_cases)
      case (counted b n k)
      then have "b \<noteq> nextBlock w" using nextBlock_fresh [OF assms(1)] by auto
      then show ?thesis using f(1) counted by (auto simp: oldArray_def fresh_store_def getArrayStart_def kShortString_def kLongString_def)
    qed (use f(1) in \<open>auto simp: oldArray_def fresh_store_def getArrayStart_def kShortString_def kLongString_def\<close>)
    obtain w3 w4 w5 where r: "(us_arrayCopy oldArray 0 (getArrayStart t s') 0 st v \<bind> us_arrayCopy oldArray (st + l) (getArrayStart t s') (st + srcLength) (us_length s - (st + l))) \<bind>
        us_arrayCopy src srcStart (getArrayStart t s') st srcLength = Some w3" "us_upd t (us_setLength newLength) w3 = Some w4"
      "(if d = None then Some w4 else free_block d w4) = Some w5" "result_text t (Some (replaced (take (nat (us_length s)) cs0) st l us)) w w5"
      using replace_new_array [OF assms(1,2,4-9) f(1,3,2) oldArray_def vd] by blast
    obtain wa wb where ab: "us_arrayCopy oldArray 0 (getArrayStart t s') 0 st v = Some wa"
      "us_arrayCopy oldArray (st + l) (getArrayStart t s') (st + srcLength) (us_length s - (st + l)) wa = Some wb"
      "us_arrayCopy src srcStart (getArrayStart t s') st srcLength wb = Some w3" using r(1) by (auto simp: Option.bind_eq_Some_conv)
    have oa: "(if kUsingStackBuffer (fFlags s) \<and> newLength > US_STACKBUF_SIZE then Local (take (nat (us_length s)) cs0) else At (getArrayStart t s)) = oldArray"
      using big by (auto simp: oldArray_def)
    have "replace_general e st l src srcStart srcLength newLength t w = Some w5"
      unfolding eq c(1) oa using sv ne ab r(2,3) by simp
    then show ?thesis using r(4) by (auto simp: outcome_def)
  qed
  have "newLength \<le> newLength + newLength div 4 + kGrowSize" using n by (simp add: kGrowSize_def)
  then have b: "newLength + newLength div 4 + kGrowSize < 0 \<or> newLength \<le> newLength + newLength div 4 + kGrowSize" "newLength \<le> max_capacity" using assms(10) by auto
  have nc: "newLength = (if newLength = -1 then getCapacity s else newLength)" using n by simp
  from assms(1-3) nc b(1) assms(10) b(2) show ?thesis
  proof (cases rule: clone_spec [where e = e and doCopyArray = False and delayed = True])
    case keep
    then have k: "isBufferWritable s w = Some True" "newLength \<le> getCapacity s" by (auto simp: needs_clone_def)
    have old': "\<not> (kUsingStackBuffer (fFlags s) \<and> newLength > US_STACKBUF_SIZE)" using k(2) stack by auto
    obtain w2 w3 w4 where r: "(if l \<noteq> srcLength then us_arrayCopy (At (getArrayStart t s)) (st + l) (getArrayStart t s) (st + srcLength) (us_length s - (st + l)) w else Some w) = Some w2"
      "us_arrayCopy src srcStart (getArrayStart t s) st srcLength w2 = Some w3" "us_upd t (us_setLength newLength) w3 = Some w4"
      "result_text t (Some (replaced (take (nat (us_length s)) cs0) st l us)) w w4"
      using replace_in_place [OF assms(1,2) writable_exclusive [OF assms(2) k(1)] op assms(4-9) k(2)] by blast
    have oa: "(if kUsingStackBuffer (fFlags s) \<and> newLength > US_STACKBUF_SIZE then Local (take (nat (us_length s)) cs0) else At (getArrayStart t s)) = At (getArrayStart t s)"
      using old' by auto
    have "replace_general e st l src srcStart srcLength newLength t w = Some w4"
      unfolding eq keep(1) oa using sw(1) r(1-3) by simp
    then show ?thesis using r(4) by (auto simp: outcome_def)
  next
    case (clone w')
    then show ?thesis by (intro new [OF clone(1,3,2)]) auto
  next
    case (delay w' b ocs)
    then show ?thesis by (intro new [OF delay(1,3,2)]) auto
  next
    case (fail w')
    then have "replace_general e st l src srcStart srcLength newLength t w = Some w'" unfolding eq by simp
    then show ?thesis using fail(3,4) by (auto simp: outcome_def)
  qed
qed

section \<open>The whole of \<^verbatim>\<open>doReplace\<close>\<close>

definition pinned :: "int list \<Rightarrow> int \<Rightarrow> int" where
  "pinned x i = max 0 (min i (int (length x)))"

text \<open>The text after the replacement of \<open>len\<close> units at \<open>start\<close>, with both pinned to the text.\<close>

definition replace_text :: "int list \<Rightarrow> int \<Rightarrow> int \<Rightarrow> int list \<Rightarrow> int list" where
  "replace_text x start len us = replaced x (pinned x start) (max 0 (min len (int (length x) - pinned x start))) us"

lemma short_setLength: "0 \<le> n \<Longrightarrow> fShortLength (us_setLength n s) < 0 \<longleftrightarrow> kMaxShortLength < n"
  by (simp add: us_setLength_def setShortLength_def)

lemma length_setFields: "us_length (setFields a c s) = us_length s"
  by (simp add: us_length_def)

lemma getCapacity_setFields: "getCapacity (setFields a c s) = (if kUsingStackBuffer (fFlags s) then US_STACKBUF_SIZE else c)"
  by (simp add: getCapacity_def)

text \<open>Changing the object only.\<close>

lemma put_frame:
  assumes "us_inv w" "strs w t = Some s" "\<And>b. refs s' b \<longleftrightarrow> refs s b" "\<And>c. aliases s' c \<Longrightarrow> aliases s c" "kBufferIsReadonly (fFlags s') = kBufferIsReadonly (fFlags s)"
  shows "frame t s' w (put_str t s' w)"
proof (rule frameI)
  show "b < nextBlock (put_str t s' w) \<and> n = int (card (owners w b - {t})) + of_bool (refs s' b) \<and> 0 < n" if "blocks (put_str t s' w) b = Some (n, x)" for b n x
  proof (cases "refs s b")
    case True
    then have "t \<in> owners w b" using assms(2) by (auto simp: owners_def)
    then have "card (owners w b) = Suc (card (owners w b - {t}))" using finite_owners [OF assms(1)] by (rule card.remove [rotated])
    then show ?thesis using that us_inv_block [OF assms(1), of b n x] True assms(3) by simp
  next
    case False
    then show ?thesis using that us_inv_block [OF assms(1), of b n x] owners_card_other [OF assms(1,2) False] assms(3) by simp
  qed
  show "\<exists>n k cs. blocks (put_str t s' w) b = Some (n, cs) \<and> blocks w b = Some (k, cs)" if "u \<noteq> t" "strs w u = Some r" "refs r b" for b u r
    using refs_block [OF assms(1) that(2,3)] by auto
  show "\<not> kOpenGetBuffer (fFlags r)" if h: "refs s' b" "u \<noteq> t" "strs w u = Some r" "refs r b" for b u r
  proof
    assume o: "kOpenGetBuffer (fFlags r)"
    then obtain cs where b: "blocks w b = Some (1, cs)" using us_inv_wf [OF assms(1) h(3)] h(4)
      by (auto simp: str_wf_def short_wf_def fields_wf_def refs_def kIsBogus_def split: if_splits)
    then have "card (owners w b) = 1" using us_inv_block [OF assms(1) b] by simp
    moreover have "{t, u} \<subseteq> owners w b" using assms(2,3) h by (auto simp: owners_def)
    ultimately show False using h(2) by (auto simp: card_1_singleton_iff)
  qed
  show "kBufferIsReadonly (fFlags r) \<and> kBufferIsReadonly (fFlags s')" if "u \<noteq> t" "strs w u = Some r" "aliases r c" "aliases s' c" for c u r
    using alias_exclusive [OF assms(1) that(2,3) _ assms(2)] alias_exclusive [OF assms(1,2) assms(4) [OF that(4)] _ that(2,1)] that(1,3,4) assms(4,5) by auto
qed simp_all

text \<open>The shortcuts for a read-only alias.\<close>

lemma remove_readonly_result:
  assumes "us_inv w" "holds t s cs0 w" "isWritable s" "remove_readonly start len 0 s = Some s'"
  shows "result_text t (Some (replace_text (take (nat (us_length s)) cs0) start len [])) w (put_str t s' w)"
proof -
  have ro: "kBufferIsReadonly (fFlags s)" using assms(4) by (auto simp: remove_readonly_def split: if_splits)
  have st: "strs w t = Some s" using assms(2) by (simp add: holds_def)
  from assms(2) show ?thesis
  proof (cases rule: holds_cases)
    case (aliased c i k l)
    have b: "0 \<le> us_length s" "us_length s \<le> int k" "\<not> kBogus (fFlags s)" "\<not> kOpenGetBuffer (fFlags s)" "k \<le> length (client w c) - i"
      using holds_capacity [OF assms(2)] aliased assms(2,3) by (auto simp: getCapacity_def holds_def isWritable_def)
    let ?x = "take (nat (us_length s)) cs0"
    have lx: "int (length ?x) = us_length s" using b aliased(4,5) by simp
    obtain j m n where s': "s' = us_setLength n (setFields (Some (Client c, i + j)) m s) \<or> s' = setFields (Some (Client c, i + j)) m (us_setLength n s)"
      "0 \<le> n" "n \<le> m" "int j + m \<le> int k" "take (nat n) (drop j cs0) = replace_text ?x start len []"
    proof (cases "start = 0")
      case True
      define p where "p = pinIndex s len"
      have p: "0 \<le> p" "p \<le> us_length s" "p = max 0 (min len (us_length s))" using b by (auto simp: p_def pinIndex_def)
      have "replace_text ?x start len [] = drop (nat p) ?x" using True p lx by (simp add: replace_text_def replaced_def pinned_def)
      then have "take (nat (us_length s - p)) (drop (nat p) cs0) = replace_text ?x start len []" using p b by (simp add: drop_take nat_diff_distrib)
      moreover have "s' = us_setLength (us_length s - p) (setFields (Some (Client c, i + nat p)) (int k - p) s)"
        using assms(4) True aliased(3) ro by (simp add: remove_readonly_def Let_def p_def)
      moreover have "0 \<le> us_length s - p" "us_length s - p \<le> int k - p" "int (nat p) + (int k - p) \<le> int k" using p(1,2) b(2) by auto
      ultimately show ?thesis using that by blast
    next
      case False
      define p where "p = pinIndex s start"
      have p: "0 \<le> p" "p \<le> us_length s" "p = pinned ?x start" using b lx by (auto simp: p_def pinIndex_def pinned_def)
      have l: "len \<ge> us_length s - p" "s' = setFields (Some (Client c, i)) p (us_setLength p s)"
        using assms(4) False aliased(3) ro by (auto simp: remove_readonly_def Let_def p_def split: if_splits)
      have m: "max 0 (min len (us_length s - p)) = us_length s - p" using l(1) p(1,2) by simp
      have k: "nat p + nat (us_length s - p) = nat (us_length s)" "nat p \<le> nat (us_length s)" using p(1,2) by auto
      have "replace_text ?x start len [] = take (nat p) ?x @ drop (nat p + nat (us_length s - p)) ?x"
        unfolding replace_text_def lx p(3) [symmetric] m by (simp add: replaced_def)
      also have "\<dots> = take (nat p) cs0" unfolding k(1) using k(2) by (simp add: min_def)
      finally have "take (nat p) cs0 = replace_text ?x start len []" by simp
      then show ?thesis using that [of p 0 p] l(2) p b by simp
    qed
    have f: "fFlags s' = fFlags s" "fArray (fUnion s') = Some (Client c, i + j)" "us_length s' = n" "getCapacity s' = m" "fShortLength s' < 0 \<longrightarrow> kMaxShortLength < n"
      using s'(1,2) aliased(1) by (auto simp: length_setFields getCapacity_setFields short_setLength)
    obtain l' where u: "fUnion s' = Fields (Some (Client c, i + j)) m l'" using s'(1) by (cases "fUnion s'") (auto dest!: arg_cong [where f = fUnion] simp: us_setLength_def setShortLength_def split: if_splits)
    have wf: "str_wf (put_str t s' w) s'" proof -
      have "\<exists>c i k l. fUnion s' = Fields (Some (Client c, i)) (int k) l \<and> i + k \<le> length (client w c)"
        using u s'(2,3,4) b(5) aliased(5,6) by (intro exI [of _ c] exI [of _ "i + j"] exI [of _ "nat m"] exI [of _ l']) auto
      then show ?thesis using b f s'(2,3) aliased(1,2) ro by (simp add: str_wf_def fields_wf_def)
    qed
    have al: "aliases s' c' \<longleftrightarrow> aliases s c'" for c' using f(2) aliased(3) by (auto simp: aliases_def)
    have rf: "\<not> refs s' b" "\<not> refs s b" for b using aliased(2) f(1) by (auto simp: refs_def)
    have "frame t s' w (put_str t s' w)" by (rule put_frame [OF assms(1) st]) (use rf al f(1) in auto)
    moreover have "us_text (put_str t s' w) t = Some (replace_text ?x start len [])"
      using f b aliased(1,4) s'(5) by (simp add: us_text_def us_isBogus_def getArrayStart_def add.commute [of i j])
    ultimately show ?thesis using frame_result [OF assms(1)] wf by blast
  qed (use ro in auto)
qed

lemma pinIndices_pinned:
  assumes "us_length s = int (length x)"
  shows "pinIndices s start len = (pinned x start, max 0 (min len (int (length x) - pinned x start)))" "pinIndex s start = pinned x start"
  using assms by (auto simp: pinIndices_def pinIndex_def pinned_def Let_def)

text \<open>Appending in place.\<close>

lemma append_in_place:
  assumes "us_inv w" "holds t s cs0 w" "isBufferWritable s w = Some True" "\<not> kOpenGetBuffer (fFlags s)" "foreign w t s src"
    "provides w src srcStart srcLength us" "us_length s + srcLength \<le> getCapacity s"
  shows "\<exists>w1 w2. us_arrayCopy src srcStart (getArrayStart t s) (us_length s) srcLength w = Some w1 \<and>
    us_upd t (us_setLength (us_length s + srcLength)) w1 = Some w2 \<and> result_text t (Some (take (nat (us_length s)) cs0 @ us)) w w2"
proof -
  have l: "0 \<le> us_length s" using holds_capacity [OF assms(2)] by simp
  obtain w2 w3 w4 where "(if 0 \<noteq> srcLength then us_arrayCopy (At (getArrayStart t s)) (us_length s + 0) (getArrayStart t s) (us_length s + srcLength) (us_length s - (us_length s + 0)) w else Some w) = Some w2"
    "us_arrayCopy src srcStart (getArrayStart t s) (us_length s) srcLength w2 = Some w3" "us_upd t (us_setLength (us_length s + srcLength)) w3 = Some w4"
    "result_text t (Some (replaced (take (nat (us_length s)) cs0) (us_length s) 0 us)) w w4"
    using replace_in_place [OF assms(1,2) writable_exclusive [OF assms(2,3)] assms(4-6), of "us_length s" 0 "us_length s + srcLength"] l assms(7) by auto
  then show ?thesis by (auto simp: us_arrayCopy_def replaced_def split: if_splits)
qed

text \<open>The units that the arguments of a call name: none for NULL, up to a zero for a negative length.\<close>

definition argument :: "world \<Rightarrow> source \<Rightarrow> int \<Rightarrow> int \<Rightarrow> int list \<Rightarrow> bool" where
  "argument w src i n us \<longleftrightarrow>
     (if src = At None then us = []
      else if n < 0 then 0 \<le> i \<and> (\<exists>xs rest. source_mem w src = Some xs \<and> drop (nat i) xs = us @ 0 # rest \<and> 0 \<notin> set us)
      else provides w src i n us)"

lemma strlen_terminated: "0 \<notin> set us \<Longrightarrow> u_strlen (us @ 0 # rest) = Some (length us)"
proof -
  have "0 \<notin> set us \<Longrightarrow> strlen_loop (us @ 0 # rest) n = Some (n + length us)" for n by (induction us arbitrary: n) auto
  then show "0 \<notin> set us \<Longrightarrow> u_strlen (us @ 0 # rest) = Some (length us)" by (simp add: u_strlen_def)
qed

lemma argument_length:
  assumes "argument w src i n us"
  shows "(if src = At None then Some 0
      else if n < 0 then do {
        cs \<leftarrow> source_mem w src;
        k \<leftarrow> u_strlen (drop (nat (if src = At None then 0 else i)) cs);
        Some (int k)
      } else Some n) = Some (int (length us))"
    and "provides w src (if src = At None then 0 else i) (int (length us)) us"
proof -
  consider "src = At None" "us = []" | "src \<noteq> At None" "0 \<le> n" "provides w src i n us"
    | xs rest where "src \<noteq> At None" "n < 0" "0 \<le> i" "source_mem w src = Some xs" "drop (nat i) xs = us @ 0 # rest" "0 \<notin> set us"
    using assms by (auto simp: argument_def split: if_splits)
  then have "(if src = At None then Some 0 else if n < 0 then do { cs \<leftarrow> source_mem w src; k \<leftarrow> u_strlen (drop (nat (if src = At None then 0 else i)) cs); Some (int k) } else Some n) = Some (int (length us)) \<and>
    provides w src (if src = At None then 0 else i) (int (length us)) us"
  proof cases
    case 3
    have "i + int (length us) \<le> int (length xs)" using 3(3) arg_cong [OF 3(5), of length] by simp
    then show ?thesis using 3 strlen_terminated [OF 3(6), of rest] by (simp add: provides_def)
  qed (auto simp: provides_def)
  then show "(if src = At None then Some 0 else if n < 0 then do { cs \<leftarrow> source_mem w src; k \<leftarrow> u_strlen (drop (nat (if src = At None then 0 else i)) cs); Some (int k) } else Some n) = Some (int (length us))"
    "provides w src (if src = At None then 0 else i) (int (length us)) us" by auto
qed

lemma own_not_elsewhere: "holds t s cs w \<Longrightarrow> elsewhere t s p \<Longrightarrow> offset_ptr (At p) i \<noteq> offset_ptr (At (getArrayStart t s)) j"
proof -
  assume h: "holds t s cs w" "elsewhere t s p"
  from h(1) show ?thesis
    by (cases rule: holds_cases; cases "(t, s, p)" rule: elsewhere.cases) (use h(2) in \<open>auto simp: offset_ptr_def getArrayStart_def\<close>)
qed

lemma result_same: "us_inv w \<Longrightarrow> strs w t = Some s \<Longrightarrow> us_text w t = x \<Longrightarrow> result_text t x w w"
  unfolding result_text_def by (auto intro!: exI [of _ s])

lemma doReplace_outcome:
  assumes "us_inv w" "holds t s cs0 w" "isWritable s" "foreign w t s src" "argument w src srcStart srcLength us"
    "x = take (nat (us_length s)) cs0" "N = us_length s + int (length us)" "N + N div 4 + kGrowSize \<le> max_capacity"
  shows "outcome e t (replace_text x start len us) w (doReplace e start len src srcStart srcLength t w)"
proof -
  have sw: "strs w t = Some s" "us_text w t = Some x" using assms(2,6) holds_text [OF assms(2)] by (auto simp: holds_def)
  have cap: "0 \<le> us_length s" "us_length s \<le> int (length cs0)" using holds_capacity [OF assms(2)] by auto
  then have lx: "us_length s = int (length x)" using assms(6) by simp
  have op: "\<not> kOpenGetBuffer (fFlags s)" using assms(3) by (simp add: isWritable_def)
  define i where "i = (if src = At None then 0 else srcStart)"
  define start1 where "start1 = (if kBufferIsReadonly (fFlags s) \<and> srcLength = 0 then pinIndex s start else start)"
  note arg = argument_length [OF assms(5), folded i_def]
  have pin: "pinned x start1 = pinned x start" "replace_text x start1 len us = replace_text x start len us"
    using pinIndices_pinned(2) [OF lx] by (auto simp: start1_def replace_text_def pinned_def)
  show ?thesis
  proof (cases "remove_readonly start len srcLength s")
    case (Some s')
    then have z: "srcLength = 0" "remove_readonly start len 0 s = Some s'" by (auto simp: remove_readonly_def split: if_splits)
    have "us = []" using assms(5) z(1) by (auto simp: argument_def provides_def split: if_splits)
    then show ?thesis using remove_readonly_result [OF assms(1-3) z(2)] Some sw(1) assms(3,6) by (simp add: outcome_def doReplace_def)
  next
    case None
    have call: "doReplace e start len src srcStart srcLength t w =
      (if start1 \<ge> us_length s then
         (if int (length us) = 0 then Some w
          else do {
            writable \<leftarrow> (if us_length s + int (length us) \<le> getCapacity s then isBufferWritable s w else Some False);
            if writable then do {
              w1 \<leftarrow> (if offset_ptr src i \<noteq> offset_ptr (At (getArrayStart t s)) start1 \<or> start1 > us_length s
                     then us_arrayCopy src i (getArrayStart t s) (us_length s) (int (length us)) w else Some w);
              us_upd t (us_setLength (us_length s + int (length us))) w1
            } else replace_general e (us_length s) 0 src i (int (length us)) (us_length s + int (length us)) t w
          })
       else
         (case pinIndices s start1 len of
            (st, l) \<Rightarrow> replace_general e st l src i (int (length us)) (us_length s - l + int (length us)) t w))"
      unfolding doReplace_def sw(1) Option.bind.simps Let_def None option.case start1_def [symmetric] i_def [symmetric] arg(1) using assms(3) by simp
    show ?thesis
    proof (cases "start1 \<ge> us_length s")
      case False
      then have st: "pinned x start1 + max 0 (min len (int (length x) - pinned x start1)) \<le> us_length s" "0 \<le> pinned x start1"
        unfolding lx by (auto simp: pinned_def)
      let ?l = "max 0 (min len (int (length x) - pinned x start1))" let ?n = "us_length s - ?l + int (length us)"
      have "?n \<le> N" using assms(7) by simp
      then have "?n + ?n div 4 + kGrowSize \<le> N + N div 4 + kGrowSize" by (intro add_mono zdiv_mono1) auto
      then have "outcome e t (replaced x (pinned x start1) ?l us) w (replace_general e (pinned x start1) ?l src i (int (length us)) ?n t w)"
        by (intro replace_general_outcome [OF assms(1-4) arg(2) st(2) _ st(1) refl, of e, folded assms(6)]) (use assms(8) in linarith)+
      then show ?thesis using call False pinIndices_pinned(1) [OF lx, of start1 len] pin(2) by (simp add: replace_text_def)
    next
      case True
      then have new: "replace_text x start1 len us = x @ us" "replaced x (us_length s) 0 us = x @ us" using lx by (auto simp: replace_text_def replaced_def pinned_def)
      have gen: "outcome e t (x @ us) w (replace_general e (us_length s) 0 src i (int (length us)) (us_length s + int (length us)) t w)"
        using replace_general_outcome [OF assms(1-4) arg(2) cap(1), of 0 "us_length s + int (length us)" e, folded assms(6,7), unfolded new(2)] assms(8)
        by (simp flip: assms(7))
      have "\<exists>b. isBufferWritable s w = Some b"
        using assms(2) by (cases rule: holds_cases) (auto simp: isBufferWritable_def refCount_def)
      then obtain b where b: "isBufferWritable s w = Some b" by blast
      show ?thesis
      proof (cases "us = [] \<or> \<not> (b \<and> us_length s + int (length us) \<le> getCapacity s)")
        case t: True
        then show ?thesis using call True gen b new(1) pin(2) result_same [OF assms(1) sw] by (auto simp: outcome_def)
      next
        case f: False
        have bw: "isBufferWritable s w = Some True" using b f by simp
        have "src = At p \<Longrightarrow> elsewhere t s p" for p using foreign_elsewhere [OF assms(1,2) writable_exclusive [OF assms(2) bw] assms(4)] .
        then have "offset_ptr src i \<noteq> offset_ptr (At (getArrayStart t s)) start1"
          using own_not_elsewhere [OF assms(2)] by (cases src) (auto simp: offset_ptr_def)
        then show ?thesis using call True f bw append_in_place [OF assms(1,2) bw op assms(4) arg(2), folded assms(6)] new(1) pin(2) by (auto simp: outcome_def)
      qed
    qed
  qed
qed

end
