(* ===== verification/UnicodeStrOps.thy ===== *)
theory UnicodeStrOps
  imports UnicodeStrReplace
begin

text \<open>
  The other operations of \<^verbatim>\<open>UnicodeString\<close> on the store: assignment with shared buffers, aliases, construction and destruction,
  truncation, padding, single units, and the buffer that is handed to the client.
\<close>

section \<open>Write access\<close>

text \<open>An object that is not bogus holds its text.\<close>

lemma holds_exists:
  assumes "us_inv w" "strs w t = Some s" "\<not> kBogus (fFlags s)"
  obtains cs where "holds t s cs w"
  using wf_cells [OF us_inv_wf [OF assms(1,2)] assms(2,3)] assms us_inv_wf [OF assms(1,2)] by (auto simp: holds_def)

lemma clone_outcome:
  assumes "us_inv w" "holds t s cs0 w" "isWritable s" "newCapacity = (if n = -1 then getCapacity s else n)" "newCapacity \<le> max_capacity"
  obtains (ok) w' s' cs where "cloneArray e n t w = Some (w', True)" "result_text t (Some (take (nat (us_length s')) cs0)) w w'" "holds t s' cs w'" "exclusive s' w'" "isWritable s'"
      "newCapacity \<le> getCapacity s'" "us_length s' = min (us_length s) (getCapacity s')" "take (nat (us_length s')) cs = take (nat (us_length s')) cs0"
  | (fail) w' where "cloneArray e n t w = Some (w', False)" "result_text t None w w'" "\<exists>n. \<not> grants e n"
proof -
  have st: "strs w t = Some s" using assms(2) by (simp add: holds_def)
  have g: "(-1::int) < 0 \<or> newCapacity \<le> -1" "(-1::int) \<le> max_capacity" by (auto simp: max_capacity_def)
  have new: thesis if h: "clone_result t s cs0 True newCapacity w w'" "cloneArray e n t w = Some (w', True)" for w'
  proof -
    obtain s' cs where f: "fresh_store t s' cs w w'" "newCapacity \<le> int (length cs)" "us_length s' = min (us_length s) (int (length cs))"
      "take (nat (us_length s')) cs = take (nat (us_length s')) cs0" using h(1) unfolding clone_result_def by auto
    note fh = fresh_holds [OF f(1)] and fr = fresh_result [OF assms(1) f(1)]
    have "isWritable s'" using f(1) by (auto simp: fresh_store_def isWritable_def kShortString_def kLongString_def)
    then show ?thesis using ok [OF h(2), of s' cs] f fh fr by auto
  qed
  from assms(1-4) g assms(5) show ?thesis
  proof (cases rule: clone_spec [where e = e and doCopyArray = True and delayed = False])
    case keep
    then have k: "isBufferWritable s w = Some True" "newCapacity \<le> getCapacity s" by (auto simp: needs_clone_def)
    show ?thesis using keep(1) k(2) holds_capacity [OF assms(2)] result_same [OF assms(1) st holds_text [OF assms(2)]]
      by (intro ok [of w s cs0]) (auto simp: cloneArray_def assms(1-3) writable_exclusive [OF assms(2) k(1)])
  next
    case (clone w')
    then show ?thesis using new by (simp add: cloneArray_def)
  next
    case (fail w')
    then show ?thesis using that(2) [of w'] by (simp add: cloneArray_def)
  qed simp
qed

text \<open>Writing units into the own array after that.\<close>

lemma write_own:
  assumes "us_inv w" "holds t s cs w" "exclusive s w" "i + length us \<le> length cs" "0 \<le> n" "n \<le> getCapacity s" "kOpenGetBuffer (fFlags s) \<Longrightarrow> n = 0"
  shows "poke w (getArrayStart t s) i us = Some (with_cells t s (overlay cs i us) w)"
    "us_upd t (us_setLength n) (with_cells t s (overlay cs i us) w) = Some (put_str t (us_setLength n (with_union s (overlay cs i us))) (with_cells t s (overlay cs i us) w))"
    "result_text t (Some (take (nat n) (overlay cs i us))) w (put_str t (us_setLength n (with_union s (overlay cs i us))) (with_cells t s (overlay cs i us) w))"
  using poke_with_cells [OF assms(2) refl assms(4)] with_cells_same [OF assms(2)] upd_with_cells [OF assms(2)]
    own_write [OF assms(1-3) overlay_length [OF assms(4)] assms(5-7)] by auto

lemma with_union_length: "holds t s cs0 w \<Longrightarrow> us_length (with_union s cs) = us_length s"
proof -
  assume h: "holds t s cs0 w"
  then show ?thesis by (cases rule: holds_cases) (auto simp: with_union_def us_length_def)
qed

lemma with_cells_holds:
  assumes "holds t s cs0 w" "length cs = length cs0"
  shows "holds t (with_union s cs) cs (with_cells t s cs w)"
  using assms(1)
  by (cases rule: holds_cases)
    (use assms in \<open>auto simp: holds_def str_wf_def short_wf_def fields_wf_def with_cells_def with_union_def getArrayStart_def getCapacity_def us_length_def\<close>)

lemma write_units:
  assumes "us_inv w" "holds t s cs w" "exclusive s w" "i + length us \<le> length cs"
  shows "poke w (getArrayStart t s) i us = Some (with_cells t s (overlay cs i us) w)"
    "result_text t (Some (take (nat (us_length s)) (overlay cs i us))) w (with_cells t s (overlay cs i us) w)"
proof -
  show "poke w (getArrayStart t s) i us = Some (with_cells t s (overlay cs i us) w)"
    using poke_with_cells [OF assms(2) refl assms(4)] with_cells_same [OF assms(2)] by simp
  let ?cs = "overlay cs i us"
  have h: "holds t (with_union s ?cs) ?cs (with_cells t s ?cs w)" by (rule with_cells_holds [OF assms(2) overlay_length [OF assms(4)]])
  have "put_str t (with_union s ?cs) (with_cells t s ?cs w) = with_cells t s ?cs w"
    using h by (simp add: holds_def put_str_def fun_upd_idem)
  moreover have "frame t (with_union s ?cs) w (put_str t (with_union s ?cs) (with_cells t s ?cs w))"
    using assms(2) by (intro own_frame [OF assms(1-3)]) (auto elim!: holds_cases simp: with_union_def)
  ultimately show "result_text t (Some (take (nat (us_length s)) ?cs)) w (with_cells t s ?cs w)"
    using frame_result [OF assms(1)] h holds_text [OF h] with_union_length [OF assms(2)] by (auto simp: holds_def)
qed

lemma text_length: "holds t s cs w \<Longrightarrow> us_length s = int (length (take (nat (us_length s)) cs))"
proof -
  assume "holds t s cs w"
  then have "0 \<le> us_length s" "us_length s \<le> int (length cs)" using holds_capacity by force+
  then show ?thesis by simp
qed

text \<open>Write access with room for the text keeps it.\<close>

lemma write_access:
  assumes "us_inv w" "holds t s cs0 w" "isWritable s" "newCapacity = (if n = -1 then getCapacity s else n)" "newCapacity \<le> max_capacity"
    "us_length s \<le> newCapacity" "x = take (nat (us_length s)) cs0"
  obtains (ok) w' s' cs where "cloneArray e n t w = Some (w', True)" "us_inv w'" "result_text t (Some x) w w'" "holds t s' cs w'" "exclusive s' w'" "isWritable s'"
      "newCapacity \<le> getCapacity s'" "us_length s' = int (length x)" "take (length x) cs = x" "getCapacity s' \<le> int (length cs)"
  | (fail) w' r where "cloneArray e n t w = Some (w', False)" "result_text t None w w'" "\<exists>n. \<not> grants e n" "strs w' t = Some r"
  using assms(1-5)
proof (cases rule: clone_outcome [where e = e])
  case (ok w' s' cs)
  have l: "us_length s' = us_length s" using ok(6,7) assms(6) by simp
  have lx: "us_length s = int (length x)" using text_length [OF assms(2)] assms(7) by simp
  have r: "result_text t (Some x) w w'" using ok(2) unfolding l assms(7) .
  have "take (nat (us_length s)) cs = x" using ok(8) unfolding l assms(7) .
  then have tk: "take (length x) cs = x" unfolding lx by simp
  show ?thesis using that(1) [OF ok(1) _ r ok(3,4,5,6) _ tk] r l lx holds_capacity [OF ok(3)] by (simp add: result_text_def)
next
  case (fail w')
  then obtain r where "strs w' t = Some r" by (auto simp: result_text_def)
  then show ?thesis using that(2) fail by blast
qed

lemma setCharAt_outcome:
  assumes "us_inv w" "holds t s cs0 w" "isWritable s" "getCapacity s \<le> max_capacity" "x = take (nat (us_length s)) cs0"
  shows "outcome e t (if x = [] then x else x[nat (max 0 (min i (int (length x) - 1))) := c]) w (setCharAt e i c t w)"
proof -
  have st: "strs w t = Some s" using assms(2) by (simp add: holds_def)
  have lx: "us_length s = int (length x)" using text_length [OF assms(2)] assms(5) by simp
  have nc: "getCapacity s = (if (-1::int) = -1 then getCapacity s else -1)" "us_length s \<le> getCapacity s" using holds_capacity [OF assms(2)] by auto
  from assms(1-3) nc(1) assms(4) nc(2) assms(5) show ?thesis
  proof (cases rule: write_access [where e = e])
    case (fail w' r)
    then show ?thesis using st by (auto simp: setCharAt_def outcome_def)
  next
    case (ok w' s' cs)
    have s': "strs w' t = Some s'" using ok(4) by (simp add: holds_def)
    show ?thesis
    proof (cases "x = []")
      case True
      then show ?thesis using st s' ok(1,3) lx by (simp add: setCharAt_def outcome_def)
    next
      case False
      define k where "k = nat (max 0 (min i (int (length x) - 1)))"
      have "0 < length x" using False by simp
      then have k: "k < length x" "length x \<le> length cs" using ok(7,10) nc(2) lx unfolding k_def by linarith+
      have idx: "nat (if i < 0 then 0 else if i \<ge> us_length s then us_length s - 1 else i) = k" using False lx by (auto simp: k_def)
      have "k + length [c] \<le> length cs" using k by simp
      note wu = write_units [OF ok(2,4,5) this]
      have "take (nat (us_length s')) (overlay cs k [c]) = x[k := c]"
      proof -
        have "overlay cs k [c] = cs[k := c]" using k by (simp add: overlay_def upd_conv_take_nth_drop)
        then show ?thesis using ok(8,9) by (simp add: take_update_swap)
      qed
      then have "result_text t (Some (x[k := c])) w (with_cells t s' (overlay cs k [c]) w')" using wu(2) result_trans [OF ok(3)] by simp
      moreover have "setCharAt e i c t w = Some (with_cells t s' (overlay cs k [c]) w')"
        unfolding setCharAt_def st Option.bind.simps Let_def ok(1) prod.case s' idx using False lx wu(1) by simp
      ultimately show ?thesis using False by (auto simp: outcome_def k_def)
    qed
  qed
qed

section \<open>Lengths\<close>

lemma put_result:
  assumes "us_inv w" "strs w t = Some s" "\<And>b. refs s' b \<longleftrightarrow> refs s b" "\<And>c. aliases s' c \<Longrightarrow> aliases s c" "kBufferIsReadonly (fFlags s') = kBufferIsReadonly (fFlags s)"
    "holds t s' cs (put_str t s' w)"
  shows "result_text t (Some (take (nat (us_length s')) cs)) w (put_str t s' w)"
  using frame_result [OF assms(1) put_frame [OF assms(1-5)]] assms(6) holds_text [OF assms(6)] by (auto simp: holds_def)

text \<open>A shorter length leaves the array alone, also when it is shared.\<close>

lemma shorten_result:
  assumes "us_inv w" "holds t s cs w" "0 \<le> n" "n \<le> us_length s" "kOpenGetBuffer (fFlags s) \<Longrightarrow> n = 0"
  shows "result_text t (Some (take (nat n) cs)) w (put_str t (us_setLength n s) w)"
proof -
  have st: "strs w t = Some s" using assms(2) by (simp add: holds_def)
  have u: "with_union s cs = s" using assms(2) by (cases rule: holds_cases) (auto simp: with_union_def)
  have "n \<le> getCapacity s" using assms(4) holds_capacity [OF assms(2)] by simp
  then have "holds t (us_setLength n s) cs (put_str t (us_setLength n s) w)"
    using own_set_holds [OF assms(2) refl assms(3)] assms(5) with_cells_same [OF assms(2)] u by simp
  from put_result [OF assms(1) st _ _ _ this] show ?thesis using assms(3) by simp
qed

lemma bogus_empty_result:
  assumes "us_inv w" "strs w t = Some s" "kBogus (fFlags s)"
  shows "result_text t (Some []) w (put_str t (setToEmpty e s) w)"
proof -
  have s: "fFlags s = kIsBogus" "\<exists>l. fUnion s = Fields None 0 l" using us_inv_wf [OF assms(1,2)] assms(3) by (auto simp: str_wf_def)
  have h: "holds t (setToEmpty e s) (fBuffer e (fUnion s)) (put_str t (setToEmpty e s) w)"
    using wf_fBuffer [OF us_inv_wf [OF assms(1,2)], of e] by (auto simp: holds_def str_wf_def short_wf_def kShortString_def getArrayStart_def US_STACKBUF_SIZE_def)
  from put_result [OF assms(1,2) _ _ _ h] show ?thesis using s by (simp add: refs_def aliases_def kShortString_def kIsBogus_def us_length_def)
qed

lemma us_truncate_result:
  assumes "us_inv w" "holds t s cs w" "isWritable s" "x = take (nat (us_length s)) cs"
  shows "result_text t (Some (if 0 \<le> n then take (nat n) x else x)) w (put_str t (fst (us_truncate e n s)) w)"
proof (cases "0 \<le> n \<and> n < us_length s")
  case True
  then have "result_text t (Some (take (nat n) cs)) w (put_str t (us_setLength n s) w)"
    using shorten_result [OF assms(1,2), of n] assms(3) by (simp add: isWritable_def)
  moreover have "take (nat n) x = take (nat n) cs"
  proof -
    have "nat n \<le> nat (us_length s)" using True by linarith
    then show ?thesis unfolding assms(4) by (simp add: min_def)
  qed
  ultimately show ?thesis using True assms(2) by (simp add: us_truncate_def us_isBogus_def holds_def)
next
  case False
  have st: "strs w t = Some s" using assms(2) by (simp add: holds_def)
  have "(if 0 \<le> n then take (nat n) x else x) = x" using False text_length [OF assms(2)] assms(4) by auto
  moreover have "fst (us_truncate e n s) = s" using False assms(2) by (auto simp: us_truncate_def us_isBogus_def holds_def)
  moreover have "put_str t s w = w" using st by (simp add: put_str_def fun_upd_idem)
  ultimately show ?thesis using result_same [OF assms(1) st holds_text [OF assms(2)]] assms(4) by simp
qed

lemma zero_length: "setZeroLength s = us_setLength 0 s"
  by (simp add: setZeroLength_def us_setLength_def setShortLength_def kMaxShortLength_def)

lemma us_remove_all_result:
  assumes "us_inv w" "strs w t = Some s"
  shows "result_text t (Some []) w (put_str t (us_remove_all e s) w)"
proof (cases "kBogus (fFlags s)")
  case True
  then show ?thesis using bogus_empty_result [OF assms True] by (simp add: us_remove_all_def us_isBogus_def)
next
  case False
  obtain cs where h: "holds t s cs w" by (rule holds_exists [OF assms False])
  then show ?thesis using shorten_result [OF assms(1) h, of 0] holds_capacity [OF h] False by (simp add: us_remove_all_def us_isBogus_def zero_length)
qed

section \<open>Padding\<close>

lemma padTrailing_outcome:
  assumes "us_inv w" "holds t s cs0 w" "isWritable s" "x = take (nat (us_length s)) cs0" "n \<le> max_capacity"
  shows "outcome e t (x @ replicate (nat n - length x) c) w (map_option fst (padTrailing e n c t w))"
proof -
  have st: "strs w t = Some s" using assms(2) by (simp add: holds_def)
  have lx: "us_length s = int (length x)" using text_length [OF assms(2)] assms(4) by simp
  show ?thesis
  proof (cases "us_length s \<ge> n")
    case True
    have "nat n - length x = 0" using True lx by linarith
    then show ?thesis using True st result_same [OF assms(1) st holds_text [OF assms(2), folded assms(4)]] by (simp add: padTrailing_def outcome_def)
  next
    case False
    have nc: "n = (if n = -1 then getCapacity s else n)" "us_length s \<le> n" using False lx by auto
    from assms(1-3) nc(1) assms(5) nc(2) assms(4) show ?thesis
    proof (cases rule: write_access [where e = e])
      case (fail w' r)
      then show ?thesis using st False by (auto simp: padTrailing_def outcome_def)
    next
      case (ok w' s' cs)
      have s': "strs w' t = Some s'" using ok(4) by (simp add: holds_def)
      let ?us = "replicate (nat (n - us_length s)) c"
      have b: "length x + length ?us \<le> length cs" "0 \<le> n" using ok(7,10) lx False by auto
      note wo = write_own [OF ok(2,4,5) b ok(7)]
      have "nat n = length x + length ?us" using lx False by simp
      then have "take (nat n) (overlay cs (length x) ?us) = x @ ?us" using ok(9) by (simp add: overlay_def)
      moreover have "nat (n - us_length s) = nat n - length x" using lx by simp
      ultimately have r: "result_text t (Some (x @ replicate (nat n - length x) c)) w (put_str t (us_setLength n (with_union s' (overlay cs (length x) ?us))) (with_cells t s' (overlay cs (length x) ?us) w'))"
        using result_trans [OF ok(3) wo(3)] ok(6) by (simp add: isWritable_def)
      have "map_option fst (padTrailing e n c t w) = Some (put_str t (us_setLength n (with_union s' (overlay cs (length x) ?us))) (with_cells t s' (overlay cs (length x) ?us) w'))"
        using st False s' ok(1,6) wo(1,2) lx by (simp add: padTrailing_def isWritable_def Let_def)
      then show ?thesis using r by (auto simp: outcome_def)
    qed
  qed
qed

section \<open>Assignment\<close>

lemma storage_kinds:
  assumes "holds t s cs w" "\<not> kOpenGetBuffer (fFlags s)"
  obtains (short) "fFlags s = kShortString" "fUnion s = StackFields cs" "0 \<le> fShortLength s" "fShortLength s \<le> US_STACKBUF_SIZE" "int (length cs) = US_STACKBUF_SIZE"
  | (long) b n l where "fFlags s = kLongString" "fUnion s = Fields (Some (Counted b, 0)) (int (length cs)) l" "blocks w b = Some (n, cs)" "refs s b"
  | (readonly) c i k l where "fFlags s = kReadonlyAlias" "fUnion s = Fields (Some (Client c, i)) (int k) l" "cs = drop i (client w c)" "k \<le> length cs"
      "i \<le> length (client w c)" "aliases s c"
  | (writable) c i k l where "fFlags s = kWritableAlias" "fUnion s = Fields (Some (Client c, i)) (int k) l" "cs = drop i (client w c)" "k \<le> length cs"
      "i \<le> length (client w c)" "aliases s c"
proof -
  have nb: "\<not> kBogus (fFlags s)" using assms(1) by (simp add: holds_def)
  from assms(1) show ?thesis
  proof (cases rule: holds_cases)
    case stack
    then show ?thesis using short assms(2) nb by (cases "fFlags s") (simp add: kShortString_def)
  next
    case (counted b n l)
    then have "fFlags s = kLongString" using assms(2) nb by (cases "fFlags s") (simp add: kLongString_def)
    then show ?thesis using counted long by blast
  next
    case (aliased c i k l)
    then have "fFlags s = (if kBufferIsReadonly (fFlags s) then kReadonlyAlias else kWritableAlias)" using assms(2) nb
      by (cases "fFlags s") (simp add: kReadonlyAlias_def kWritableAlias_def)
    then show ?thesis using aliased readonly writable by (auto split: if_splits)
  qed
qed

lemma released_store: "alloc_store t s' cs (w\<lparr>blocks := released t w\<rparr>) v \<Longrightarrow> fresh_store t s' cs w v"
  by (simp add: alloc_store_def fresh_store_def)

text \<open>A second reference to the block of another string.\<close>

lemma share_frame:
  assumes "us_inv w" "t \<noteq> src" "strs w src = Some s" "\<not> kOpenGetBuffer (fFlags s)" "refs s b" "refs s' b" "blocks w b = Some (n, cs)"
  obtains w' where "addRef (Some (Counted b, 0)) (w\<lparr>blocks := released t w\<rparr>) = Some w'" "strs w' = strs w" "client w' = client w" "nextBlock w' = nextBlock w"
    "\<exists>k. blocks w' b = Some (k, cs)" "frame t s' w (put_str t s' w')"
proof -
  obtain k where k: "released t w b = Some (k, cs)" using released_kept [OF assms(1) assms(2) [symmetric] assms(3,5)] assms(7) by auto
  define w' where "w' = put_block b (Some (k + 1, cs)) (w\<lparr>blocks := released t w\<rparr>)"
  have rf: "refs s' b' \<longleftrightarrow> b' = b" for b' using assms(6) refs_unique by blast
  have no: "\<not> aliases s' c" for c using assms(6) by (auto simp: refs_def aliases_def)
  have src: "src \<in> owners w b" using assms(3,5) by (auto simp: owners_def)
  have "frame t s' w (put_str t s' w')"
  proof (rule frameI, unfold rf)
    show "strs (put_str t s' w') = (strs w)(t \<mapsto> s')" by (simp add: w'_def)
    show "b' < nextBlock (put_str t s' w') \<and> m = int (card (owners w b' - {t})) + of_bool (b' = b) \<and> 0 < m"
      if "blocks (put_str t s' w') b' = Some (m, x)" for b' m x
      using that released_count [OF assms(1) k] released_count [OF assms(1), of t b' m x] by (auto simp: w'_def split: if_splits)
    show "\<exists>n k x. blocks (put_str t s' w') b' = Some (n, x) \<and> blocks w b' = Some (k, x)" if "u \<noteq> t" "strs w u = Some r" "refs r b'" for b' u r
      using released_kept [OF assms(1) that] assms(7) by (auto simp: w'_def)
    show "\<not> kOpenGetBuffer (fFlags r)" if "b' = b" "u \<noteq> t" "strs w u = Some r" "refs r b'" for b' u r
    proof
      assume o: "kOpenGetBuffer (fFlags r)"
      have "n = 1" using us_inv_wf [OF assms(1) that(3)] that(1,4) o assms(7) by (auto simp: str_wf_def fields_wf_def short_wf_def refs_def kIsBogus_def split: if_splits)
      then have "card (owners w b) = 1" using us_inv_block [OF assms(1,7)] by simp
      moreover have "u \<in> owners w b" using that by (auto simp: owners_def)
      ultimately have "u = src" using src by (auto simp: card_1_singleton_iff)
      then show False using o that(3) assms(3,4) by simp
    qed
    show "client (put_str t s' w') c = client w c" for c by (simp add: w'_def)
  qed (use no in auto)
  then show ?thesis using that [of w'] k by (simp add: addRef_def w'_def)
qed

lemma copy_alias:
  assumes "us_inv w" "strs w t = Some d0" "t \<noteq> src" "holds src s cs w" "0 < us_length s" "us_length s \<le> max_capacity" "fUnion s = Fields (Some (Client c, i)) k l" "\<not> kUsingStackBuffer (fFlags s)"
    "fUnion d = fUnion d0" "x = take (nat (us_length s)) cs"
  shows "outcome e t x w (do {
      (w2, ok) \<leftarrow> us_allocate e (us_length s) t (put_str t d (w\<lparr>blocks := released t w\<rparr>));
      if ok then do {
        d2 \<leftarrow> strs w2 t;
        w3 \<leftarrow> us_arrayCopy (At (getArrayStart src s)) 0 (getArrayStart t d2) 0 (us_length s) w2;
        us_upd t (us_setLength (us_length s)) w3
      } else us_upd t (\<lambda>d. setFields None 0 (setFlags kIsBogus d)) w2
    })"
proof -
  let ?w = "w\<lparr>blocks := released t w\<rparr>"
  have src: "mem w (getArrayStart src s) = Some cs" "us_length s \<le> int (length cs)" using assms(4) holds_capacity [OF assms(4)] by (auto simp: holds_def)
  have p: "getArrayStart src s = Some (Client c, i)" using assms(7,8) by (simp add: getArrayStart_def)
  have st: "strs (put_str t d ?w) t = Some d" by simp
  have len: "int (length (fBuffer e (fUnion d))) = US_STACKBUF_SIZE" using wf_fBuffer [OF us_inv_wf [OF assms(1,2)]] assms(9) by simp
  from st assms(6) len show ?thesis
  proof (cases rule: allocate_once)
    case (ok v s' cs')
    have a: "alloc_store t s' cs' ?w v" by (rule alloc_store_again [OF ok(2)])
    have h: "holds t s' cs' v" "int (length cs') = getCapacity s'" using alloc_holds [OF a] by auto
    have v: "strs v t = Some s'" "mem v (getArrayStart src s) = Some cs" using a src(1) p by (auto simp: alloc_store_def)
    have e: "elsewhere t s' (getArrayStart src s)" using a p by (auto simp: alloc_store_def aliases_def)
    have "us_arrayCopy (At (getArrayStart src s)) 0 (getArrayStart t s') 0 (us_length s) v = Some (with_cells t s' (overlay cs' 0 x) v)"
      using copy_own [OF h(1) refl, of "us_length s" "At (getArrayStart src s)" cs 0 0] source_with_cells [OF h(1), of "At (getArrayStart src s)" cs'] e v(2) assms(5,10) src(2) ok(4) with_cells_same [OF h(1)]
      by simp
    moreover have n: "length (overlay cs' 0 x) = length cs'" using assms(10) src(2) ok(4) assms(5) by (intro overlay_length) simp
    ultimately have "outcome e t (take (nat (us_length s)) (overlay cs' 0 x)) w
        (us_arrayCopy (At (getArrayStart src s)) 0 (getArrayStart t s') 0 (us_length s) v \<bind> us_upd t (us_setLength (us_length s)))"
      using fresh_result [OF assms(1) released_store [OF alloc_write [OF a n, of "us_length s"]]] upd_with_cells [OF h(1)] assms(5) ok(4) by (simp add: outcome_def)
    moreover have "take (nat (us_length s)) (overlay cs' 0 x) = x" using assms(5,10) src(2) by (simp add: overlay_def)
    ultimately show ?thesis using ok(1) v(1) by simp
  next
    case fail
    have "result_text t None w (put_str t (make_bogus (make_bogus d)) (put_str t (make_bogus d) (put_str t d ?w)))"
      by (rule bogus_result [OF assms(1)]) auto
    then show ?thesis using fail by (simp add: outcome_def us_upd_def make_bogus_def)
  qed
qed

text \<open>A second alias of memory that is only read.\<close>

lemma share_alias_frame:
  assumes "us_inv w" "strs w src = Some s" "fFlags s = kReadonlyAlias" "fFlags s' = fFlags s" "fArray (fUnion s') = fArray (fUnion s)"
  shows "frame t s' w (put_str t s' (w\<lparr>blocks := released t w\<rparr>))"
proof -
  have no: "\<not> refs s' b" for b using assms(3,4) by (simp add: refs_def kReadonlyAlias_def)
  have ro: "kBufferIsReadonly (fFlags r)" if "strs w u = Some r" "aliases r c'" "aliases s' c'" for u r c'
  proof (rule ccontr)
    assume n: "\<not> kBufferIsReadonly (fFlags r)"
    have "aliases s c'" using that(3) assms(5) by (simp add: aliases_def)
    then have "u = src" using assms(1,2) that(1,2) n unfolding us_inv_def by blast
    then show False using n that(1) assms(2,3) by (simp add: kReadonlyAlias_def)
  qed
  show ?thesis by (rule released_frame [OF assms(1)]) (use no ro assms(3,4) in \<open>auto simp: kReadonlyAlias_def\<close>)
qed

lemma copy_short:
  assumes "us_inv w" "strs w t = Some d0" "fFlags d = kShortString" "0 \<le> fShortLength d" "fShortLength d \<le> US_STACKBUF_SIZE" "int (length cs) = US_STACKBUF_SIZE"
    "x = take (nat (fShortLength d)) cs"
  shows "result_text t (Some x) w (put_str t (d\<lparr>fUnion := StackFields (overlay (fBuffer e (fUnion d0)) 0 x)\<rparr>) (w\<lparr>blocks := released t w\<rparr>))"
proof -
  have len: "int (length (fBuffer e (fUnion d0))) = US_STACKBUF_SIZE" by (rule wf_fBuffer [OF us_inv_wf [OF assms(1,2)]])
  let ?cs = "overlay (fBuffer e (fUnion d0)) 0 x"
  have lc: "length ?cs = length (fBuffer e (fUnion d0))" by (rule overlay_length) (use assms len in auto)
  have "fresh_store t (d\<lparr>fUnion := StackFields ?cs\<rparr>) ?cs w (put_str t (d\<lparr>fUnion := StackFields ?cs\<rparr>) (w\<lparr>blocks := released t w\<rparr>))"
    using assms len lc by (simp add: fresh_store_def us_length_def)
  from fresh_result [OF assms(1) this] show ?thesis using assms by (simp add: us_length_def overlay_def)
qed

lemma copyFrom_text:
  assumes "us_inv w" "strs w t = Some d0" "t \<noteq> src" "holds src s cs w" "fShortLength s \<noteq> 0" "us_length s \<le> max_capacity" "x = take (nat (us_length s)) cs"
  shows "outcome e t x w (copyFrom e src fastCopy t w)"
proof -
  let ?w = "w\<lparr>blocks := released t w\<rparr>"
  have rel: "releaseArray t w = Some ?w" by (rule releaseArray_released [OF assms(1,2,2)])
  have src: "strs w src = Some s" and nb: "\<not> us_isBogus s" and ne: "\<not> us_isEmpty s" using assms(4,5) by (auto simp: holds_def us_isBogus_def us_isEmpty_def)
  have op: "\<not> kOpenGetBuffer (fFlags s)" using assms(4,5) by (auto simp: holds_def str_wf_def)
  have ln: "0 < us_length s" using assms(4,5) holds_capacity [OF assms(4)]
    by (auto simp: holds_def str_wf_def short_wf_def fields_wf_def us_length_def kMaxShortLength_def split: if_splits)
  define d where "d = d0\<lparr>fFlags := fFlags s, fShortLength := fShortLength s\<rparr>"
  define shared where "shared = d\<lparr>fUnion := Fields (fArray (fUnion s)) (fCapacity (fUnion s)) (if fShortLength s \<ge> 0 then fLength (fUnion d0) else fLength (fUnion s))\<rparr>"
  have sh: "fFlags shared = fFlags s" "fArray (fUnion shared) = fArray (fUnion s)" "us_length shared = us_length s"
    by (auto simp: shared_def d_def us_length_def)
  note call = copyFrom_def [of e src fastCopy t w, unfolded src rel Option.bind.simps Let_def]
  note kinds = kReadonlyAlias_def kWritableAlias_def kLongString_def kShortString_def
  note wf = holds_def str_wf_def fields_wf_def shared_def d_def getArrayStart_def getCapacity_def us_length_def
  from assms(4) op show ?thesis
  proof (cases rule: storage_kinds)
    case short
    have "x = take (nat (fShortLength d)) cs" using assms(7) short(3) by (simp add: us_length_def d_def)
    moreover have "mem ?w (getArrayStart src s) = Some cs" using short src by (simp add: getArrayStart_def kShortString_def)
    ultimately show ?thesis using copy_short [OF assms(1,2), of d cs x e] call assms(2,3) nb ne short by (simp add: outcome_def d_def)
  next
    case (long b n l)
    have rs: "refs shared b" using long(4) sh by (simp add: refs_def)
    obtain w' where w': "addRef (Some (Counted b, 0)) ?w = Some w'" "strs w' = strs w" "\<exists>k. blocks w' b = Some (k, cs)" "frame t shared w (put_str t shared w')"
      by (rule share_frame [OF assms(1,3) src op long(4) rs long(3)])
    have h: "holds t shared cs (put_str t shared w')" using assms(4) long w'(3) op by (auto simp: kLongString_def wf)
    have "result_text t (Some x) w (put_str t shared w')" using frame_result [OF assms(1) w'(4) _ holds_text [OF h]] h sh(3) assms(7) by (simp add: holds_def)
    moreover have "fArray (fUnion s) = Some (Counted b, 0)" using long(2) by simp
    ultimately show ?thesis using call assms(2,3) nb ne long(1) w'(1) by (simp add: outcome_def d_def shared_def kinds)
  next
    case (readonly c i k l)
    show ?thesis
    proof (cases fastCopy)
      case True
      have h: "holds t shared cs (put_str t shared ?w)" using assms(4) readonly op by (auto simp: kReadonlyAlias_def wf)
      have "result_text t (Some x) w (put_str t shared ?w)"
        using frame_result [OF assms(1) share_alias_frame [OF assms(1) src readonly(1) sh(1,2)] _ holds_text [OF h]] h sh(3) assms(7) by (simp add: holds_def)
      then show ?thesis using True call assms(2,3) nb ne readonly(1) by (simp add: outcome_def d_def shared_def kinds)
    next
      case False
      have "\<not> kUsingStackBuffer (fFlags s)" using readonly(1) by (simp add: kReadonlyAlias_def)
      from copy_alias [OF assms(1-4) ln assms(6) readonly(2) this _ assms(7), of d e] False show ?thesis
        unfolding call using assms(2,3) nb ne readonly(1) by (simp add: d_def kinds)
    qed
  next
    case (writable c i k l)
    have "\<not> kUsingStackBuffer (fFlags s)" using writable(1) by (simp add: kWritableAlias_def)
    from copy_alias [OF assms(1-4) ln assms(6) writable(2) this _ assms(7), of d e] show ?thesis
      unfolding call using assms(2,3) nb ne writable(1) by (simp add: d_def kinds)
  qed
qed

lemma emptied_result:
  assumes "us_inv w" "strs w t = Some d0"
  shows "result_text t (Some []) w (put_str t (setToEmpty e d0) (w\<lparr>blocks := released t w\<rparr>))"
proof -
  have "fresh_store t (setToEmpty e d0) (fBuffer e (fUnion d0)) w (put_str t (setToEmpty e d0) (w\<lparr>blocks := released t w\<rparr>))"
    by (rule released_store [OF alloc_short_store]) (rule wf_fBuffer [OF us_inv_wf [OF assms]])
  from fresh_result [OF assms(1) this] show ?thesis by (simp add: us_length_def)
qed

lemma setToBogus_result:
  assumes "us_inv w" "strs w t = Some d0"
  shows "\<exists>w'. setToBogus t w = Some w' \<and> result_text t None w w'"
proof -
  have "result_text t None w (put_str t (make_bogus d0) (w\<lparr>blocks := released t w\<rparr>))" by (rule bogus_result [OF assms(1)]) auto
  then show ?thesis using releaseArray_released [OF assms(1,2,2)] assms(2) by (simp add: setToBogus_def us_upd_def make_bogus_def)
qed

lemma copyFrom_outcome:
  assumes "us_inv w" "strs w t = Some d0" "strs w src = Some s" "\<And>x. us_text w src = Some x \<Longrightarrow> int (length x) \<le> max_capacity"
  shows "case us_text w src of
      Some x \<Rightarrow> outcome e t x w (copyFrom e src fastCopy t w)
    | None \<Rightarrow> \<exists>w'. copyFrom e src fastCopy t w = Some w' \<and> result_text t None w w'"
proof (cases "t = src")
  case True
  have c: "copyFrom e src fastCopy t w = Some w" using True by (simp add: copyFrom_def)
  show ?thesis unfolding c using result_same [OF assms(1,2) refl] True by (auto simp: outcome_def split: option.splits)
next
  case ne: False
  show ?thesis
  proof (cases "kBogus (fFlags s)")
    case True
    then show ?thesis using setToBogus_result [OF assms(1,2)] ne assms(3) by (simp add: copyFrom_def us_text_def us_isBogus_def)
  next
    case nb: False
    obtain cs where h: "holds src s cs w" by (rule holds_exists [OF assms(1,3) nb])
    have "outcome e t (take (nat (us_length s)) cs) w (copyFrom e src fastCopy t w)"
    proof (cases "fShortLength s = 0")
      case True
      then show ?thesis using emptied_result [OF assms(1,2)] releaseArray_released [OF assms(1,2,2)] ne nb assms(2,3)
        by (simp add: outcome_def copyFrom_def us_isBogus_def us_isEmpty_def us_upd_def us_length_def)
    qed (rule copyFrom_text [OF assms(1,2) ne h _ _ refl], use assms(4) [OF holds_text [OF h]] text_length [OF h] in auto)
    then show ?thesis using holds_text [OF h] by simp
  qed
qed

end
