(* ===== verification/UnicodeStrReverse.thy ===== *)
theory UnicodeStrReverse
  imports UnicodeStrOps
begin

text \<open>
  \<^verbatim>\<open>UnicodeString::doReverse\<close>: all code units are swapped end for end, then the surrogates of each pair are swapped back. The result is
  the text with its code points in reverse order.
\<close>

section \<open>The loops\<close>

text \<open>The part of the array from \<open>left\<close> to \<open>right\<close>, both inclusive, and whether it has a lead surrogate.\<close>

function reverse_loop :: "int list \<Rightarrow> nat \<Rightarrow> nat \<Rightarrow> bool \<Rightarrow> int list \<times> bool" where
  "reverse_loop cs left right hasSupplementary =
     (let swap = cs ! left;
          hs = hasSupplementary \<or> is_lead swap \<or> is_lead (cs ! right);
          cs' = cs[left := cs ! right, right := swap] in
      if left + 1 < right - 1 then reverse_loop cs' (left + 1) (right - 1) hs
      else (cs', hs \<or> is_lead (cs' ! (left + 1))))"
  by auto
termination by (relation "measure (\<lambda>(cs, left, right, s). right - left)") auto

function swap_loop :: "int list \<Rightarrow> nat \<Rightarrow> nat \<Rightarrow> int list" where
  "swap_loop cs left right =
     (if left < right then
        (if is_trail (cs ! left) \<and> is_lead (cs ! (left + 1))
         then swap_loop (cs[left := cs ! (left + 1), left + 1 := cs ! left]) (left + 2) right
         else swap_loop cs (left + 1) right)
      else cs)"
  by auto
termination by (relation "measure (\<lambda>(cs, left, right). right - left)") auto

declare reverse_loop.simps [simp del] swap_loop.simps [simp del]

definition reverse_units :: "int list \<Rightarrow> int list" where
  "reverse_units seg =
     (case reverse_loop seg 0 (length seg - 1) False of (seg', hasSupplementary) \<Rightarrow> if hasSupplementary then swap_loop seg' 0 (length seg - 1) else seg')"

definition doReverse :: "int heap \<Rightarrow> int \<Rightarrow> int \<Rightarrow> nat \<Rightarrow> world \<Rightarrow> world option" where
  "doReverse e start len t w =
     (if len \<le> 1 then Some w
      else do {
        (w1, ok) \<leftarrow> cloneArray e (-1) t w;
        if \<not> ok then Some w1
        else do {
          s \<leftarrow> strs w1 t;
          case pinIndices s start len of
            (st, l) \<Rightarrow>
              if l \<le> 1 then Some w1
              else do {
                cs \<leftarrow> mem w1 (getArrayStart t s);
                poke w1 (getArrayStart t s) (nat st) (reverse_units (take (nat l) (drop (nat st) cs)))
              }
        }
      })"

section \<open>The reference\<close>

text \<open>The code points of a text, each with its units.\<close>

fun characters :: "int list \<Rightarrow> int list list" where
  "characters [] = []"
| "characters [c] = [[c]]"
| "characters (c # c2 # rest) = (if is_lead c \<and> is_trail c2 then [c, c2] # characters rest else [c] # characters (c2 # rest))"

definition reverse_text :: "int list \<Rightarrow> int list" where
  "reverse_text x = concat (rev (characters x))"

fun swapped :: "int list \<Rightarrow> int list" where
  "swapped [] = []"
| "swapped [c] = [c]"
| "swapped (c # c2 # rest) = (if is_trail c \<and> is_lead c2 then c2 # c # swapped rest else c # swapped (c2 # rest))"

lemma concat_characters: "concat (characters x) = x"
  by (induction x rule: characters.induct) auto

lemma not_both: "is_lead c \<Longrightarrow> \<not> is_trail c"
  by (simp add: is_lead_def is_trail_def)

lemma swapped_pair: "is_trail a \<Longrightarrow> is_lead b \<Longrightarrow> swapped (ys @ [a, b]) = swapped ys @ [b, a]"
  by (induction ys rule: swapped.induct) (auto dest: not_both)

lemma swapped_single: "\<not> (ys \<noteq> [] \<and> is_trail (last ys) \<and> is_lead c) \<Longrightarrow> swapped (ys @ [c]) = swapped ys @ [c]"
  by (induction ys rule: swapped.induct) (auto split: if_splits)

lemma swapped_no_lead: "\<forall>c \<in> set ys. \<not> is_lead c \<Longrightarrow> swapped ys = ys"
  by (induction ys rule: swapped.induct) auto

lemma swapped_rev: "swapped (rev x) = reverse_text x"
proof (induction x rule: characters.induct)
  case (3 c c2 rest)
  show ?case
  proof (cases "is_lead c \<and> is_trail c2")
    case True
    then show ?thesis using 3(1) swapped_pair [of c2 c "rev rest"] by (simp add: reverse_text_def)
  next
    case False
    then show ?thesis using 3(2) swapped_single [of "rev (c2 # rest)" c] by (auto simp: reverse_text_def)
  qed
qed (simp_all add: reverse_text_def)

lemma reverse_text_length [simp]: "length (reverse_text x) = length x"
proof -
  have "length (concat (rev (characters x))) = length (concat (characters x))" by (simp add: length_concat rev_map [symmetric] sum_list_rev)
  then show ?thesis by (simp add: reverse_text_def concat_characters)
qed

section \<open>Equivalence\<close>

lemma reverse_loop_rev:
  assumes "2 \<le> length m"
  shows "reverse_loop (a @ m @ b) (length a) (length a + length m - 1) hs = (a @ rev m @ b, hs \<or> (\<exists>c \<in> set m. is_lead c))"
  using assms
proof (induction "length m" arbitrary: a m b hs rule: less_induct)
  case less
  obtain x m' y where m: "m = x # m' @ [y]"
  proof -
    obtain x ms where x: "m = x # ms" using less.prems by (cases m) auto
    then have "ms \<noteq> []" using less.prems by auto
    then obtain m' y where "ms = m' @ [y]" by (cases ms rule: rev_cases) auto
    then show ?thesis using that x by simp
  qed
  have left: "(a @ m @ b) ! length a = x" by (simp add: m)
  have right: "(a @ m @ b) ! (length a + length m - 1) = y" by (simp add: m nth_append)
  have upd: "(a @ m @ b)[length a := y, length a + length m - 1 := x] = (a @ [y]) @ m' @ ([x] @ b)" by (simp add: m list_update_append)
  show ?case
  proof (cases "2 \<le> length m'")
    case True
    have "reverse_loop ((a @ [y]) @ m' @ ([x] @ b)) (length (a @ [y])) (length (a @ [y]) + length m' - 1) (hs \<or> is_lead x \<or> is_lead y) =
        ((a @ [y]) @ rev m' @ ([x] @ b), (hs \<or> is_lead x \<or> is_lead y) \<or> (\<exists>c \<in> set m'. is_lead c))"
      by (rule less.hyps [OF _ True]) (simp add: m)
    moreover have "length a + 1 < length a + length m - 1 - 1" "length a + length m - 1 - 1 = length (a @ [y]) + length m' - 1" using True by (auto simp: m)
    ultimately show ?thesis unfolding reverse_loop.simps [of "a @ m @ b"] left right Let_def upd by (auto simp: m)
  next
    case False
    have "\<not> length a + 1 < length a + length m - 1 - 1" using False by (simp add: m)
    moreover have "m' = [] \<or> (\<exists>z. m' = [z])" using False by (cases m'; cases "tl m'") auto
    ultimately show ?thesis unfolding reverse_loop.simps [of "a @ m @ b"] left right Let_def upd by (auto simp: m nth_append)
  qed
qed

lemma swap_loop_swapped:
  assumes "n = length a + length m - 1"
  shows "swap_loop (a @ m) (length a) n = a @ swapped m"
  using assms
proof (induction m arbitrary: a rule: swapped.induct)
  case (3 c c2 rest)
  have n: "length a < n" using 3 by simp
  have c: "(a @ c # c2 # rest) ! length a = c" "(a @ c # c2 # rest) ! (length a + 1) = c2" by (auto simp: nth_append)
  show ?case
  proof (cases "is_trail c \<and> is_lead c2")
    case True
    have "(a @ c # c2 # rest)[length a := c2, length a + 1 := c] = (a @ [c2, c]) @ rest" by (simp add: list_update_append)
    then have "swap_loop (a @ c # c2 # rest) (length a) n = swap_loop ((a @ [c2, c]) @ rest) (length (a @ [c2, c])) n"
      using n True by (subst swap_loop.simps) (simp add: c [simplified] numeral_2_eq_2)
    moreover have "swap_loop ((a @ [c2, c]) @ rest) (length (a @ [c2, c])) n = (a @ [c2, c]) @ swapped rest"
    proof (cases rest)
      case Nil
      then show ?thesis using 3(3) by (simp add: swap_loop.simps)
    qed (use 3(1) [OF True, of "a @ [c2, c]"] 3(3) in simp)
    ultimately show ?thesis using True by simp
  next
    case False
    have "swap_loop (a @ c # c2 # rest) (length a) n = swap_loop ((a @ [c]) @ c2 # rest) (length (a @ [c])) n"
      using n False by (subst swap_loop.simps) (auto simp: c [simplified])
    then show ?thesis using False 3(2) [OF False, of "a @ [c]"] 3(3) by auto
  qed
next
  case 1
  then have "\<not> length a < n" by simp
  then show ?case by (simp add: swap_loop.simps)
qed (simp add: swap_loop.simps)

lemma reverse_units_reverses: "2 \<le> length seg \<Longrightarrow> reverse_units seg = reverse_text seg"
  using reverse_loop_rev [of seg "[]" "[]" False] swap_loop_swapped [of "length seg - 1" "[]" "rev seg"] swapped_rev [of seg] swapped_no_lead [of "rev seg"]
  by (auto simp: reverse_units_def)

definition reverse_part :: "int \<Rightarrow> int \<Rightarrow> int list \<Rightarrow> int list" where
  "reverse_part start len x =
     (let st = nat (pinned x start); l = nat (max 0 (min len (int (length x) - pinned x start))) in
      take st x @ reverse_text (take l (drop st x)) @ drop (st + l) x)"

lemma reverse_short: "l \<le> 1 \<Longrightarrow> take st x @ reverse_text (take l (drop st x)) @ drop (st + l) x = x"
proof -
  assume l: "l \<le> 1"
  have "reverse_text y = y" if "length y \<le> 1" for y
    using that by (cases y rule: characters.cases) (auto simp: reverse_text_def)
  then have "reverse_text (take l (drop st x)) = take l (drop st x)" using l by simp
  then show ?thesis by (simp add: add.commute [of st l] flip: drop_drop)
qed

lemma take_drop_take: "st + l \<le> n \<Longrightarrow> take l (drop st (take n cs)) = take l (drop st cs)"
  by (simp add: drop_take min_def)

lemma overlay_text:
  assumes "take n cs = x" "n \<le> length cs" "st + length us \<le> n"
  shows "take n (overlay cs st us) = take st x @ us @ drop (st + length us) x"
proof -
  obtain k where "n = st + length us + k" using le_Suc_ex [OF assms(3)] by blast
  moreover have "length (take st cs) = st" using assms(2,3) by simp
  ultimately show ?thesis using assms(1) by (auto simp: overlay_def drop_take min_def)
qed

lemma doReverse_outcome:
  assumes "us_inv w" "holds t s cs0 w" "isWritable s" "getCapacity s \<le> max_capacity" "x = take (nat (us_length s)) cs0"
  shows "outcome e t (reverse_part start len x) w (doReverse e start len t w)"
proof -
  have st: "strs w t = Some s" using assms(2) by (simp add: holds_def)
  have lx: "us_length s = int (length x)" using text_length [OF assms(2)] assms(5) by simp
  have short: "reverse_part start len x = x" if "max 0 (min len (int (length x) - pinned x start)) \<le> 1"
    unfolding reverse_part_def Let_def by (rule reverse_short) (use that in linarith)
  show ?thesis
  proof (cases "len \<le> 1")
    case True
    then show ?thesis using short result_same [OF assms(1) st holds_text [OF assms(2), folded assms(5)]] by (simp add: doReverse_def outcome_def)
  next
    case len: False
    have nc: "getCapacity s = (if (-1::int) = -1 then getCapacity s else -1)" "us_length s \<le> getCapacity s" using holds_capacity [OF assms(2)] by auto
    from assms(1-3) nc(1) assms(4) nc(2) assms(5) show ?thesis
    proof (cases rule: write_access [where e = e])
      case (fail w' r)
      then show ?thesis using len by (auto simp: doReverse_def outcome_def)
    next
      case (ok w' s' cs)
      have s': "strs w' t = Some s'" "mem w' (getArrayStart t s') = Some cs" using ok(4) by (auto simp: holds_def)
      let ?l = "max 0 (min len (int (length x) - pinned x start))"
      have p: "pinIndices s' start len = (pinned x start, ?l)" by (rule pinIndices_pinned(1) [OF ok(8)])
      show ?thesis
      proof (cases "?l \<le> 1")
        case True
        have "doReverse e start len t w = Some w'" unfolding doReverse_def ok(1) Option.bind.simps prod.case s'(1) p if_P [OF True] using len by simp
        then show ?thesis using ok(3) short [OF True] by (simp add: outcome_def)
      next
        case False
        have pin: "0 \<le> pinned x start" "pinned x start \<le> int (length x)" by (auto simp: pinned_def)
        then have b: "0 \<le> pinned x start" "nat (pinned x start) + nat ?l \<le> length x" by linarith+
        have lc: "length x \<le> length cs" using ok(7,10) nc(2) lx by linarith
        let ?seg = "take (nat ?l) (drop (nat (pinned x start)) cs)"
        have seg: "?seg = take (nat ?l) (drop (nat (pinned x start)) x)"
          using take_drop_take [OF b(2), of cs] ok(9) by simp
        have ls: "length (reverse_text ?seg) = nat ?l" using b(2) lc by simp
        have "2 \<le> length ?seg" using ls False unfolding reverse_text_length by linarith
        then have r: "reverse_units ?seg = reverse_text ?seg" by (rule reverse_units_reverses)
        have bound: "nat (pinned x start) + length (reverse_text ?seg) \<le> length cs" using ls b(2) lc by linarith
        note wu = write_units [OF ok(2,4,5) bound]
        have "take (length x) (overlay cs (nat (pinned x start)) (reverse_text ?seg)) = reverse_part start len x"
          using overlay_text [OF ok(9) lc, of "nat (pinned x start)" "reverse_text ?seg", unfolded ls, OF b(2)] unfolding reverse_part_def Let_def seg .
        then have "result_text t (Some (reverse_part start len x)) w (with_cells t s' (overlay cs (nat (pinned x start)) (reverse_text ?seg)) w')"
          using result_trans [OF ok(3) wu(2) [unfolded ok(8) nat_int]] by simp
        moreover have "doReverse e start len t w = Some (with_cells t s' (overlay cs (nat (pinned x start)) (reverse_text ?seg)) w')"
          unfolding doReverse_def ok(1) Option.bind.simps prod.case s' p if_not_P [OF False] r wu(1) using len by simp
        ultimately show ?thesis unfolding outcome_def by blast
      qed
    qed
  qed
qed

end
