(* ===== verification/UnicodeStrBuffers.thy ===== *)
theory UnicodeStrBuffers
  imports UnicodeStrReverse
begin

text \<open>
  Construction and destruction of strings, padding on the left, aliases of memory of the client, and the buffers that a client reads
  (\<^verbatim>\<open>getTerminatedBuffer\<close>) or fills (\<^verbatim>\<open>getBuffer\<close> and \<^verbatim>\<open>releaseBuffer\<close>).
\<close>

section \<open>Construction and destruction\<close>

lemma released_new:
  assumes "us_inv w" "strs w t = None"
  shows "released t w = blocks w"
proof
  fix b
  have t: "t \<notin> owners w b" using assms(2) by (simp add: owners_def)
  show "released t w b = blocks w b"
  proof (cases "blocks w b")
    case (Some y)
    then obtain n cs where y: "blocks w b = Some (n, cs)" by (cases y) auto
    then have "0 < card (owners w b)" "n = int (card (owners w b))" using us_inv_block [OF assms(1) y] by auto
    moreover have "owners w b - {t} = owners w b" using t by simp
    moreover have "\<not> owners w b \<subseteq> {t}" using t calculation(1) by (auto simp: subset_singleton_iff)
    ultimately show ?thesis using y by (simp add: released_def)
  qed (simp add: released_def)
qed

lemma us_new_result:
  assumes "us_inv w" "strs w t = None"
  shows "result_text t (Some []) w (us_new e t w)" "\<exists>cs. holds t \<lparr>fFlags = kShortString, fShortLength = 0, fUnion = StackFields cs\<rparr> cs (us_new e t w)"
proof -
  let ?b = "replicate (nat US_STACKBUF_SIZE) (junk e)"
  have "fresh_store t \<lparr>fFlags = kShortString, fShortLength = 0, fUnion = StackFields ?b\<rparr> ?b w (us_new e t w)"
    by (simp add: us_new_def fresh_store_def released_new [OF assms] us_length_def US_STACKBUF_SIZE_def)
  from fresh_result [OF assms(1) this] fresh_holds [OF this]
  show "result_text t (Some []) w (us_new e t w)" "\<exists>cs. holds t \<lparr>fFlags = kShortString, fShortLength = 0, fUnion = StackFields cs\<rparr> cs (us_new e t w)"
    by (auto simp: us_length_def)
qed

text \<open>The constructor with a capacity and a repeated code point.\<close>

lemma fill_length: "0 \<le> c \<Longrightarrow> int (length (concat (replicate k (cp_units c)))) = int k * U16_LENGTH c"
  by (induction k) (auto simp: cp_units_def U16_LENGTH_def algebra_simps)

lemma us_new_fill_outcome:
  assumes "us_inv w" "strs w t = None" "capacity \<le> max_capacity" "n * U16_LENGTH c \<le> max_capacity"
  shows "outcome e t (if n \<le> 0 \<or> \<not> (0 \<le> c \<and> c \<le> 0x10ffff) then [] else concat (replicate (nat n) (cp_units c))) w (us_new_fill e capacity c n t w)"
proof -
  let ?s0 = "\<lparr>fFlags = kWritableAlias, fShortLength = 0, fUnion = Fields None 0 0\<rparr>"
  let ?w0 = "put_str t ?s0 w"
  have s0: "strs ?w0 t = Some ?s0" "int (length (fBuffer e (fUnion ?s0))) = US_STACKBUF_SIZE" by (auto simp: US_STACKBUF_SIZE_def)
  have fresh: "fresh_store t s' cs w v" if "alloc_store t s' cs ?w0 v" for s' cs v
    using released_store [of t s' cs w v] alloc_store_again [OF that] released_new [OF assms(1,2)] by (simp add: alloc_store_def)
  have bogus: "result_text t None w (put_str t r v)" if "v = put_str t q ?w0" "fFlags r = kIsBogus" "\<exists>l. fUnion r = Fields None 0 l" for r q v
    by (rule bogus_result [OF assms(1) _ that(2,3)]) (use that(1) released_new [OF assms(1,2)] in auto)
  show ?thesis
  proof (cases "n \<le> 0 \<or> \<not> (0 \<le> c \<and> c \<le> 0x10ffff)")
    case True
    then have call: "us_new_fill e capacity c n t w = map_option fst (us_allocate e capacity t ?w0)" by (simp add: us_new_fill_def)
    from s0(1) assms(3) s0(2) show ?thesis
    proof (cases rule: allocate_once)
      case (ok v s' cs)
      then show ?thesis using fresh_result [OF assms(1) fresh [OF ok(2)]] True call by (simp add: outcome_def)
    next
      case fail
      then show ?thesis using bogus [OF refl, of "make_bogus ?s0" ?s0] True call by (auto simp: outcome_def put_str_def)
    qed
  next
    case False
    define us where "us = concat (replicate (nat n) (cp_units c))"
    let ?len = "n * U16_LENGTH c" let ?cap = "if capacity < ?len then ?len else capacity"
    have lu: "int (length us) = ?len" using False fill_length [of c "nat n"] by (simp add: us_def)
    have cap: "?cap \<le> max_capacity" "?len \<le> ?cap" "\<not> ?len > INT32_MAX" using assms(3,4) by (auto simp: max_capacity_def INT32_MAX_def)
    note call = us_new_fill_def [of e capacity c n t w, unfolded Let_def, folded us_def]
    from s0(1) cap(1) s0(2) show ?thesis
    proof (cases rule: allocate_once)
      case (ok v s' cs)
      have h: "holds t s' cs v" using alloc_holds [OF ok(2)] by simp
      have b: "0 + length us \<le> length cs" using lu ok(4) cap(2) by linarith
      let ?cs = "overlay cs 0 us"
      have nl: "nat ?len = length us" "0 \<le> ?len" "?len \<le> int (length cs)" using lu b by linarith+
      have "poke v (getArrayStart t s') 0 us = Some (with_cells t s' ?cs v)" using poke_with_cells [OF h refl b] with_cells_same [OF h] by simp
      moreover have "result_text t (Some us) w (put_str t (us_setLength ?len (with_union s' ?cs)) (with_cells t s' ?cs v))"
        using fresh_result [OF assms(1) fresh [OF alloc_write [OF ok(2) overlay_length [OF b] nl(2,3)]]] nl(1,2) by (simp add: overlay_def)
      moreover have "strs v t = Some s'" using h by (simp add: holds_def)
      ultimately show ?thesis unfolding call using ok(1) upd_with_cells [OF h] False cap(3) by (simp add: outcome_def us_def)
    next
      case fail
      let ?r = "us_setLength ?len (make_bogus ?s0)"
      have "result_text t None w (put_str t ?r (put_str t (make_bogus ?s0) ?w0))"
        by (rule bogus [OF refl]) (auto simp: us_setLength_def setShortLength_def make_bogus_def setFields_def setFlags_def)
      then show ?thesis unfolding call using fail False cap(3) by (simp add: outcome_def us_upd_def us_def)
    qed
  qed
qed

text \<open>An object without an array can go.\<close>

lemma remove_object:
  assumes "us_inv w" "strs w t = Some s" "\<And>b. \<not> refs s b"
  shows "us_inv (w\<lparr>strs := (strs w)(t := None)\<rparr>)" "u \<noteq> t \<Longrightarrow> us_text (w\<lparr>strs := (strs w)(t := None)\<rparr>) u = us_text w u"
proof -
  let ?w = "w\<lparr>strs := (strs w)(t := None)\<rparr>"
  have o: "owners ?w b = owners w b" for b using assms(2,3) by (auto simp: owners_def)
  have wf: "str_wf ?w r = str_wf w r" for r by (simp add: str_wf_def fields_wf_def)
  show "us_inv ?w" unfolding us_inv_def
  proof (intro conjI allI impI)
    show "finite (dom (strs ?w))" using assms(1) by (simp add: us_inv_def)
    show "str_wf ?w r" if "strs ?w v = Some r" for v r using that us_inv_wf [OF assms(1)] wf by (auto split: if_splits)
    show "v = v'" if "strs ?w v = Some r \<and> strs ?w v' = Some r' \<and> aliases r c \<and> \<not> kBufferIsReadonly (fFlags r) \<and> aliases r' c" for v v' r r' c
    proof -
      have "strs w v = Some r" "strs w v' = Some r'" using that by (auto split: if_splits)
      then show ?thesis using assms(1) that unfolding us_inv_def by blast
    qed
  qed (use us_inv_block [OF assms(1)] o in auto)
  show "us_text ?w u = us_text w u" if "u \<noteq> t"
  proof -
    have "mem ?w (getArrayStart u r) = mem w (getArrayStart u r)" if "strs w u = Some r" for r
    proof (cases "getArrayStart u r")
      case (Some p)
      have "region = StackOf u" if "fst p = region" "region = StackOf v" for v region
        using Some that \<open>strs w u = Some r\<close> us_inv_wf [OF assms(1) \<open>strs w u = Some r\<close>]
        by (auto simp: getArrayStart_def str_wf_def fields_wf_def kIsBogus_def split: if_splits)
      then show ?thesis using Some \<open>u \<noteq> t\<close> by (cases p; cases "fst p") auto
    qed simp
    then show ?thesis using that by (auto simp: us_text_def split: option.splits)
  qed
qed

lemma us_destroy_result:
  assumes "us_inv w" "strs w t = Some s"
  obtains w' where "us_destroy t w = Some w'" "us_inv w'" "strs w' = (strs w)(t := None)" "\<forall>u. u \<noteq> t \<longrightarrow> us_text w' u = us_text w u"
proof -
  let ?v = "put_str t (make_bogus s) (w\<lparr>blocks := released t w\<rparr>)"
  have "result_text t None w ?v" by (rule bogus_result [OF assms(1)]) auto
  then have v: "us_inv ?v" "\<And>u. u \<noteq> t \<Longrightarrow> us_text ?v u = us_text w u" by (auto simp: result_text_def)
  have n: "strs ?v t = Some (make_bogus s)" "\<And>b. \<not> refs (make_bogus s) b" by (auto simp: refs_def kIsBogus_def)
  have "us_destroy t w = Some (?v\<lparr>strs := (strs ?v)(t := None)\<rparr>)"
    using releaseArray_released [OF assms(1,2,2)] by (simp add: us_destroy_def put_str_def)
  then show ?thesis using that remove_object [OF v(1) n] v(2) by simp
qed

section \<open>Padding on the left\<close>

lemma padLeading_outcome:
  assumes "us_inv w" "holds t s cs0 w" "isWritable s" "x = take (nat (us_length s)) cs0" "n \<le> max_capacity"
  shows "outcome e t (replicate (nat n - length x) c @ x) w (map_option fst (padLeading e n c t w))"
proof -
  have st: "strs w t = Some s" using assms(2) by (simp add: holds_def)
  have lx: "us_length s = int (length x)" using text_length [OF assms(2)] assms(4) by simp
  show ?thesis
  proof (cases "us_length s \<ge> n")
    case True
    have "nat n - length x = 0" using True lx by linarith
    then show ?thesis using True st result_same [OF assms(1) st holds_text [OF assms(2), folded assms(4)]] by (simp add: padLeading_def outcome_def)
  next
    case False
    have nc: "n = (if n = -1 then getCapacity s else n)" "us_length s \<le> n" using False lx by auto
    from assms(1-3) nc(1) assms(5) nc(2) assms(4) show ?thesis
    proof (cases rule: write_access [where e = e])
      case (fail w' r)
      then show ?thesis using st False by (auto simp: padLeading_def outcome_def)
    next
      case (ok w' s' cs)
      have s': "strs w' t = Some s'" using ok(4) by (simp add: holds_def)
      define k where "k = nat n - length x"
      have k: "n - us_length s = int k" "nat n = k + length x" "k + length x \<le> length cs" "0 \<le> n" using False lx ok(7,10) by (auto simp: k_def)
      let ?cs1 = "overlay cs k x"
      have l1: "length ?cs1 = length cs" using k(3) by (intro overlay_length) simp
      have "take (length x) (drop 0 cs) = x" using ok(9) by simp
      then have c1: "us_arrayCopy (At (getArrayStart t s')) 0 (getArrayStart t s') (int k) (us_length s) w' = Some (with_cells t s' ?cs1 w')"
        using copy_own [OF ok(4) refl, of "us_length s" "At (getArrayStart t s')" cs 0 "int k"] with_cells_same [OF ok(4)] with_cells_mem [OF ok(4), of cs] k(3) lx by simp
      let ?cs2 = "overlay ?cs1 0 (replicate k c)"
      have c2: "poke (with_cells t s' ?cs1 w') (getArrayStart t s') 0 (replicate k c) = Some (with_cells t s' ?cs2 w')"
        by (rule poke_with_cells [OF ok(4) l1]) (use k(3) l1 in simp)
      have l2: "length ?cs2 = length cs" using l1 k(3) by (subst overlay_length) auto
      have tk: "take (nat n) ?cs2 = replicate k c @ x" unfolding k(2) using k(3) by (simp add: overlay_def min_def)
      have "result_text t (Some (replicate k c @ x)) w (put_str t (us_setLength n (with_union s' ?cs2)) (with_cells t s' ?cs2 w'))"
        using result_trans [OF ok(3) own_write [OF ok(2,4,5) l2 k(4) ok(7)]] ok(6) tk by (simp add: isWritable_def)
      moreover have "map_option fst (padLeading e n c t w) = Some (put_str t (us_setLength n (with_union s' ?cs2)) (with_cells t s' ?cs2 w'))"
        using st False s' ok(1) c1 c2 k(1) upd_with_cells [OF ok(4)] by (simp add: padLeading_def Let_def)
      ultimately show ?thesis by (auto simp: outcome_def k_def)
    qed
  qed
qed

section \<open>A buffer with a terminator\<close>

lemma terminated_write:
  assumes "us_inv w" "holds t s cs w" "exclusive s w" "us_length s < getCapacity s" "x = take (nat (us_length s)) cs"
  obtains w' rest where "poke w (getArrayStart t s) (nat (us_length s)) [0] = Some w'" "result_text t (Some x) w w'"
    "mem w' (getArrayStart t s) = Some (x @ 0 # rest)"
proof -
  have c: "0 \<le> us_length s" "us_length s < int (length cs)" using assms(4) holds_capacity [OF assms(2)] by auto
  let ?cs = "overlay cs (nat (us_length s)) [0]"
  have b: "nat (us_length s) + length [0::int] \<le> length cs" using c by simp
  have cs: "?cs = x @ 0 # drop (nat (us_length s) + 1) cs" using assms(5) by (simp add: overlay_def)
  moreover have "take (nat (us_length s)) ?cs = x" unfolding overlay_def using c assms(5) by simp
  ultimately show ?thesis using that [OF write_units(1) [OF assms(1-3) b]] write_units(2) [OF assms(1-3) b] with_cells_mem [OF assms(2), of ?cs] by simp
qed

lemma getTerminatedBuffer_outcome:
  assumes "us_inv w" "holds t s cs0 w" "isWritable s" "x = take (nat (us_length s)) cs0" "us_length s < max_capacity"
  obtains (ok) w' p rest where "getTerminatedBuffer e t w = Some (w', p)" "result_text t (Some x) w w'" "mem w' p = Some (x @ 0 # rest)"
  | (fail) w' where "getTerminatedBuffer e t w = Some (w', None)" "result_text t None w w'" "\<exists>n. \<not> grants e n"
proof -
  have st: "strs w t = Some s" "mem w (getArrayStart t s) = Some cs0" using assms(2) by (auto simp: holds_def)
  have lx: "us_length s = int (length x)" using text_length [OF assms(2)] assms(4) by simp
  have cap: "getCapacity s \<le> int (length cs0)" using holds_capacity [OF assms(2)] by simp
  obtain one where one: "(if kRefCounted (fFlags s) then map_option (\<lambda>n. n = 1) (refCount (fArray (fUnion s)) w) else Some True) = Some one"
    "isBufferWritable s w = Some (\<not> kBufferIsReadonly (fFlags s) \<and> one)"
    using assms(2) by (cases rule: holds_cases) (use assms(3) in \<open>auto simp: isBufferWritable_def refCount_def isWritable_def\<close>)
  have inside: "nat (us_length s) < length cs0" if "us_length s < getCapacity s" using that cap lx by linarith
  have read: "(if us_length s < getCapacity s \<and> kBufferIsReadonly (fFlags s) then map_option (\<lambda>c. c = 0) (unit_at cs0 (nat (us_length s))) else Some False) =
      Some (us_length s < getCapacity s \<and> kBufferIsReadonly (fFlags s) \<and> unit_at cs0 (nat (us_length s)) = Some 0)"
    using inside by (auto simp: unit_at_def)
  note call = getTerminatedBuffer_def [of e t w, unfolded st Option.bind.simps Let_def one(1) read]
  consider (read) "us_length s < getCapacity s" "kBufferIsReadonly (fFlags s)" "unit_at cs0 (nat (us_length s)) = Some 0"
    | (own) "us_length s < getCapacity s" "\<not> kBufferIsReadonly (fFlags s)" "one"
    | (clone) "\<not> (us_length s < getCapacity s \<and> kBufferIsReadonly (fFlags s) \<and> unit_at cs0 (nat (us_length s)) = Some 0)"
        "\<not> (us_length s < getCapacity s \<and> \<not> kBufferIsReadonly (fFlags s) \<and> one)" by blast
  then show ?thesis
  proof cases
    case read
    have b: "length x < length cs0" using read(1) cap lx by simp
    have z: "cs0 ! length x = 0" using read(3) lx by (simp add: unit_at_def split: if_splits)
    have "cs0 = take (length x) cs0 @ 0 # drop (Suc (length x)) cs0" using id_take_nth_drop [OF b] z by simp
    moreover have "take (length x) cs0 = x" using assms(4) lx by (metis nat_int)
    ultimately have "mem w (getArrayStart t s) = Some (x @ 0 # drop (Suc (length x)) cs0)" using st(2) by simp
    moreover have "getTerminatedBuffer e t w = Some (w, getArrayStart t s)" unfolding call using read assms(3) by simp
    ultimately show ?thesis using ok result_same [OF assms(1) st(1) holds_text [OF assms(2), folded assms(4)]] by blast
  next
    case own
    have "isBufferWritable s w = Some True" using one(2) own by simp
    obtain w' rest where "poke w (getArrayStart t s) (nat (us_length s)) [0] = Some w'" "result_text t (Some x) w w'" "mem w' (getArrayStart t s) = Some (x @ 0 # rest)"
      by (rule terminated_write [OF assms(1,2) writable_exclusive [OF assms(2) \<open>isBufferWritable s w = Some True\<close>] own(1) assms(4)])
    moreover from this(1) have "getTerminatedBuffer e t w = Some (w', getArrayStart t s)" unfolding call using own assms(3) by simp
    ultimately show ?thesis using ok by blast
  next
    case clone
    have call2: "getTerminatedBuffer e t w = do {
         (w1, ok) \<leftarrow> cloneArray e (us_length s + 1) t w;
         s1 \<leftarrow> strs w1 t;
         if ok then do { w2 \<leftarrow> poke w1 (getArrayStart t s1) (nat (us_length s)) [0]; Some (w2, getArrayStart t s1) } else Some (w1, None)
       }" unfolding call using clone assms(3) by auto
    have nc: "us_length s + 1 = (if us_length s + 1 = -1 then getCapacity s else us_length s + 1)" "us_length s + 1 \<le> max_capacity" "us_length s \<le> us_length s + 1"
      using lx assms(5) by auto
    from assms(1-3) nc assms(4) show ?thesis
    proof (cases rule: write_access [where e = e])
      case (fail w' r)
      then show ?thesis using that(2) [of w'] call2 by simp
    next
      case (ok w1 s1 cs)
      have s1: "strs w1 t = Some s1" "us_length s1 < getCapacity s1" "x = take (nat (us_length s1)) cs" using ok lx by (auto simp: holds_def)
      obtain w' rest where "poke w1 (getArrayStart t s1) (nat (us_length s1)) [0] = Some w'" "result_text t (Some x) w1 w'" "mem w' (getArrayStart t s1) = Some (x @ 0 # rest)"
        by (rule terminated_write [OF ok(2,4,5) s1(2,3)])
      then show ?thesis using that(1) [of w' "getArrayStart t s1" rest] call2 ok(1,8) lx s1(1) result_trans [OF ok(3)] by simp
    qed
  qed
qed

section \<open>A buffer for the client to fill\<close>

definition opened :: "ustring \<Rightarrow> ustring" where
  "opened s = setZeroLength (s\<lparr>fFlags := (fFlags s)\<lparr>kOpenGetBuffer := True\<rparr>\<rparr>)"

lemma opened_simps [simp]:
  "fUnion (opened s) = fUnion s" "us_length (opened s) = 0" "getCapacity (opened s) = getCapacity s" "getArrayStart t (opened s) = getArrayStart t s"
  "refs (opened s) b = refs s b" "aliases (opened s) c = aliases s c" "kBufferIsReadonly (fFlags (opened s)) = kBufferIsReadonly (fFlags s)"
  "kOpenGetBuffer (fFlags (opened s))"
  by (simp_all add: opened_def setZeroLength_def us_length_def getCapacity_def getArrayStart_def refs_def aliases_def)

lemma open_holds:
  assumes "holds t s cs w" "exclusive s w"
  shows "holds t (opened s) cs (put_str t (opened s) w)" "exclusive (opened s) (put_str t (opened s) w)"
proof -
  show "exclusive (opened s) (put_str t (opened s) w)" using assms(2) by (simp add: exclusive_def)
  from assms(1) show "holds t (opened s) cs (put_str t (opened s) w)"
    by (cases rule: holds_cases)
      (use assms in \<open>auto simp: holds_def str_wf_def short_wf_def fields_wf_def exclusive_def getArrayStart_def getCapacity_def opened_def setZeroLength_def us_length_def\<close>)
qed

lemma getBuffer_outcome:
  assumes "us_inv w" "holds t s cs0 w" "isWritable s" "-1 \<le> n" "newCapacity = (if n = -1 then getCapacity s else n)" "newCapacity \<le> max_capacity"
  obtains (ok) w' s' cs where "getBuffer e n t w = Some (w', getArrayStart t s')" "result_text t (Some []) w w'" "holds t s' cs w'" "exclusive s' w'"
      "kOpenGetBuffer (fFlags s')" "newCapacity \<le> getCapacity s'" "us_length s' = 0"
  | (fail) w' where "getBuffer e n t w = Some (w', None)" "result_text t None w w'" "\<exists>n. \<not> grants e n"
  using assms(1-3,5,6)
proof (cases rule: clone_outcome [where e = e])
  case (ok w1 s1 cs)
  have s1: "strs w1 t = Some s1" "us_inv w1" using ok by (auto simp: holds_def result_text_def)
  note h = open_holds [OF ok(3,4)]
  have "result_text t (Some (take (nat (us_length (opened s1))) cs)) w1 (put_str t (opened s1) w1)" by (rule put_result [OF s1(2,1) _ _ _ h(1)]) auto
  moreover have "getBuffer e n t w = Some (put_str t (opened s1) w1, getArrayStart t (opened s1))"
    using ok(1) s1(1) assms(4) by (simp add: getBuffer_def us_upd_def opened_def)
  ultimately show ?thesis using that(1) [OF _ _ h] result_trans [OF ok(2)] ok(6) by simp
next
  case (fail w')
  then show ?thesis using that(2) [of w'] assms(4) by (simp add: getBuffer_def)
qed

text \<open>The text that \<^verbatim>\<open>releaseBuffer\<close> leaves: up to the given length, or up to a terminator.\<close>

definition filled :: "int \<Rightarrow> int \<Rightarrow> int list \<Rightarrow> int list" where
  "filled newLength capacity cs = (if newLength = -1 then takeWhile (\<lambda>u. u \<noteq> 0) (take (nat capacity) cs) else take (nat (min newLength capacity)) cs)"

lemma take_takeWhile: "take (length (takeWhile P (take k cs))) cs = takeWhile P (take k cs)"
proof -
  have "take k cs = takeWhile P (take k cs) @ dropWhile P (take k cs)" by simp
  then have "cs = takeWhile P (take k cs) @ (dropWhile P (take k cs) @ drop k cs)" by (metis append.assoc append_take_drop_id)
  then show ?thesis by (metis append_eq_conv_conj)
qed

lemma releaseBuffer_result:
  assumes "us_inv w" "holds t s cs w" "kOpenGetBuffer (fFlags s)" "-1 \<le> n"
  obtains w' s' where "releaseBuffer n t w = Some w'" "result_text t (Some (filled n (getCapacity s) cs)) w w'" "strs w' t = Some s'" "\<not> kOpenGetBuffer (fFlags s')"
proof -
  have st: "strs w t = Some s" "mem w (getArrayStart t s) = Some cs" using assms(2) by (auto simp: holds_def)
  have cap: "getCapacity s \<le> int (length cs)" "0 \<le> getCapacity s" using holds_capacity [OF assms(2)] by auto
  define m where "m = (if n = -1 then int (length (takeWhile (\<lambda>u. u \<noteq> 0) (take (nat (getCapacity s)) cs))) else if n > getCapacity s then getCapacity s else n)"
  have "length (takeWhile (\<lambda>u. u \<noteq> 0) (take (nat (getCapacity s)) cs)) \<le> nat (getCapacity s)"
    using length_takeWhile_le [of "\<lambda>u. u \<noteq> 0" "take (nat (getCapacity s)) cs"] by simp
  then have m: "0 \<le> m" "m \<le> getCapacity s" using assms(4) cap by (auto simp: m_def)
  have tm: "take (nat m) cs = filled n (getCapacity s) cs" using take_takeWhile by (auto simp: m_def filled_def min_def)
  define s' where "s' = (us_setLength m s)\<lparr>fFlags := (fFlags s)\<lparr>kOpenGetBuffer := False\<rparr>\<rparr>"
  have s': "us_length s' = m" "refs s' b = refs s b" "aliases s' c = aliases s c" "kBufferIsReadonly (fFlags s') = kBufferIsReadonly (fFlags s)" for b c
    using m(1) by (auto simp: s'_def us_setLength_def setShortLength_def us_length_def refs_def aliases_def)
  have h: "holds t s' cs (put_str t s' w)"
    using assms(2)
    by (cases rule: holds_cases)
      (use assms(2) m in \<open>auto simp: holds_def str_wf_def short_wf_def fields_wf_def s'_def setLength_defs us_length_def getArrayStart_def getCapacity_def\<close>)
  have "result_text t (Some (take (nat m) cs)) w (put_str t s' w)" using put_result [OF assms(1) st(1) _ _ _ h] s' by simp
  moreover have "releaseBuffer n t w = Some (put_str t s' w)" using st assms(3,4) by (simp add: releaseBuffer_def Let_def us_upd_def s'_def m_def)
  ultimately show ?thesis using that [of "put_str t s' w" s'] tm by (simp add: s'_def)
qed

text \<open>The whole protocol: open with a capacity, write from the start, release.\<close>

definition fill :: "int heap \<Rightarrow> int \<Rightarrow> int list \<Rightarrow> int \<Rightarrow> nat \<Rightarrow> world \<Rightarrow> world option" where
  "fill e minCapacity us newLength t w = do {
     (w1, p) \<leftarrow> getBuffer e minCapacity t w;
     if p = None then Some w1
     else do {
       w2 \<leftarrow> poke w1 p 0 us;
       releaseBuffer newLength t w2
     }
   }"

lemma fill_outcome:
  assumes "us_inv w" "holds t s cs0 w" "isWritable s" "int (length us) \<le> n" "n \<le> max_capacity" "k = int (length us) \<or> k = -1 \<and> 0 \<in> set us"
  obtains w' s' where "fill e n us k t w = Some w'" "strs w' t = Some s'" "\<not> kOpenGetBuffer (fFlags s')"
    "result_text t (Some (if k = -1 then takeWhile (\<lambda>u. u \<noteq> 0) us else us)) w w' \<or> result_text t None w w' \<and> (\<exists>n. \<not> grants e n)"
proof -
  have n: "-1 \<le> n" "n = (if n = -1 then getCapacity s else n)" using assms(4) by auto
  from assms(1-3) n assms(5) show ?thesis
  proof (cases rule: getBuffer_outcome [where e = e])
    case (fail w')
    obtain s' where s': "strs w' t = Some s'" "us_inv w'" "us_text w' t = None" using fail(2) by (auto simp: result_text_def)
    have "fFlags s' = kIsBogus"
    proof (cases "kBogus (fFlags s')")
      case False
      obtain cs where "holds t s' cs w'" by (rule holds_exists [OF s'(2,1) False])
      then show ?thesis using holds_text s'(3) by fastforce
    qed (use us_inv_wf [OF s'(2,1)] in \<open>simp add: str_wf_def\<close>)
    then show ?thesis using that [of w' s'] fail s'(1) by (simp add: fill_def kIsBogus_def)
  next
    case (ok w1 s1 cs)
    have w1: "us_inv w1" using ok(2) by (simp add: result_text_def)
    have cap: "int (length us) \<le> getCapacity s1" "getCapacity s1 \<le> int (length cs)" using assms(4) ok(6) holds_capacity [OF ok(3)] by auto
    then have b: "0 + length us \<le> length cs" by simp
    let ?cs = "overlay cs 0 us" let ?w = "with_cells t s1 ?cs w1"
    note wu = write_units [OF w1 ok(3,4) b]
    have h: "holds t (with_union s1 ?cs) ?cs ?w" by (rule with_cells_holds [OF ok(3) overlay_length [OF b]])
    have o: "kOpenGetBuffer (fFlags (with_union s1 ?cs))" "-1 \<le> k" using ok(5) assms(6) by auto
    obtain w' s' where w': "releaseBuffer k t ?w = Some w'" "result_text t (Some (filled k (getCapacity (with_union s1 ?cs)) ?cs)) ?w w'"
      "strs w' t = Some s'" "\<not> kOpenGetBuffer (fFlags s')"
      using wu(2) by (auto simp: result_text_def intro: releaseBuffer_result [OF _ h o])
    have "filled k (getCapacity s1) ?cs = (if k = -1 then takeWhile (\<lambda>u. u \<noteq> 0) us else us)"
    proof (cases "k = -1")
      case True
      then have z: "0 \<in> set us" using assms(6) by auto
      then have "takeWhile (\<lambda>u. u \<noteq> 0) (us @ ys) = takeWhile (\<lambda>u. u \<noteq> 0) us" for ys by (intro takeWhile_append1) auto
      then show ?thesis using True cap by (simp add: filled_def overlay_def)
    next
      case False
      then show ?thesis using assms(6) cap by (auto simp: filled_def overlay_def min_def)
    qed
    then have "result_text t (Some (if k = -1 then takeWhile (\<lambda>u. u \<noteq> 0) us else us)) w w'"
      using result_trans [OF ok(2) result_trans [OF wu(2)]] w'(2) by simp
    moreover have "getArrayStart t s1 \<noteq> None" using ok(3) by (auto elim!: holds_cases simp: getArrayStart_def)
    ultimately show ?thesis using that [OF _ w'(3,4)] ok(1) wu(1) w'(1) by (auto simp: fill_def)
  qed
qed

section \<open>Aliases of memory of the client\<close>

lemma alias_result:
  assumes "us_inv w" "strs w t = Some d0" "fFlags s' = kReadonlyAlias \<or> fFlags s' = kWritableAlias" "\<exists>l. fUnion s' = Fields (Some (Client c, i)) (int k) l"
    "i + k \<le> length (client w c)" "0 \<le> us_length s'" "us_length s' \<le> int k" "fShortLength s' < 0 \<longrightarrow> kMaxShortLength < us_length s'"
    "\<And>u r. u \<noteq> t \<Longrightarrow> strs w u = Some r \<Longrightarrow> aliases r c \<Longrightarrow> kBufferIsReadonly (fFlags r) \<and> fFlags s' = kReadonlyAlias"
  shows "result_text t (Some (take (nat (us_length s')) (drop i (client w c)))) w (put_str t s' (w\<lparr>blocks := released t w\<rparr>))"
proof -
  let ?w = "put_str t s' (w\<lparr>blocks := released t w\<rparr>)"
  have al: "aliases s' c' \<longleftrightarrow> c' = c" "\<not> refs s' b" for c' b using assms(3,4) by (auto simp: aliases_def refs_def kReadonlyAlias_def kWritableAlias_def)
  have "frame t s' w ?w" by (rule released_frame [OF assms(1)]) (use al assms(9) in \<open>auto simp: kReadonlyAlias_def\<close>)
  moreover have "holds t s' (drop i (client w c)) ?w"
    using assms(3-8) by (auto simp: holds_def str_wf_def fields_wf_def kReadonlyAlias_def kWritableAlias_def getArrayStart_def getCapacity_def)
  ultimately show ?thesis using frame_result [OF assms(1)] holds_text by (auto simp: holds_def)
qed

lemma setArray_simps [simp]:
  "fFlags (setArray a n c s) = fFlags s" "fShortLength (setArray a n c s) = fShortLength (us_setLength n s)" "\<exists>l. fUnion (setArray a n c s) = Fields a c l"
  "0 \<le> n \<Longrightarrow> us_length (setArray a n c s) = n"
  by (auto simp: setArray_def length_setFields)

lemma setTo_readonly_result:
  assumes "us_inv w" "strs w t = Some d0" "\<not> kOpenGetBuffer (fFlags d0)" "drop i (client w c) = x @ (if isTerminated then 0 # rest else rest)" "i \<le> length (client w c)"
    "n = int (length x) \<or> n = -1 \<and> isTerminated \<and> 0 \<notin> set x" "\<And>u r. u \<noteq> t \<Longrightarrow> strs w u = Some r \<Longrightarrow> aliases r c \<Longrightarrow> kBufferIsReadonly (fFlags r)"
  shows "\<exists>w'. setTo_readonly e isTerminated (Some (Client c, i)) n t w = Some w' \<and> result_text t (Some x) w w'"
proof -
  let ?cs = "x @ (if isTerminated then 0 # rest else rest)"
  let ?k = "int (length x)" let ?m = "if isTerminated then ?k + 1 else ?k"
  let ?s = "setArray (Some (Client c, i)) ?k ?m (setFlags kReadonlyAlias d0)"
  have cs: "mem w (Some (Client c, i)) = Some ?cs" using assms(4) by simp
  have len: "i + length ?cs = length (client w c)" using arg_cong [OF assms(4), of length] assms(5) by simp
  have bad: "(if n < -1 \<or> (n = -1 \<and> \<not> isTerminated) then Some True
      else if n \<ge> 0 \<and> isTerminated then map_option (\<lambda>u. u \<noteq> 0) (unit_at ?cs (nat n)) else Some False) = Some False"
    using assms(6) by (auto simp: unit_at_def)
  have ln: "(if n = -1 then map_option int (u_strlen ?cs) else Some n) = Some ?k" using assms(6) strlen_terminated by auto
  have "setTo_readonly e isTerminated (Some (Client c, i)) n t w = Some (put_str t ?s (w\<lparr>blocks := released t w\<rparr>))"
    unfolding setTo_readonly_def assms(2) Option.bind.simps cs bad using assms(2,3) ln releaseArray_released [OF assms(1,2,2)] by (simp add: us_upd_def)
  moreover have "result_text t (Some (take (nat (us_length ?s)) (drop i (client w c)))) w (put_str t ?s (w\<lparr>blocks := released t w\<rparr>))"
  proof (rule alias_result [OF assms(1,2)])
    show "\<exists>l. fUnion ?s = Fields (Some (Client c, i)) (int (nat ?m)) l" by simp
    show "i + nat ?m \<le> length (client w c)" using len by auto
  qed (use assms(7) short_setLength in auto)
  ultimately show ?thesis using assms(4) by simp
qed

lemma setTo_writable_result:
  assumes "us_inv w" "strs w t = Some d0" "\<not> kOpenGetBuffer (fFlags d0)" "cs = drop i (client w c)" "0 \<le> capacity" "capacity \<le> int (length cs)"
    "i \<le> length (client w c)" "-1 \<le> n" "n \<le> capacity" "x = (if n = -1 then takeWhile (\<lambda>u. u \<noteq> 0) (take (nat capacity) cs) else take (nat n) cs)"
    "\<And>u r. u \<noteq> t \<Longrightarrow> strs w u = Some r \<Longrightarrow> \<not> aliases r c"
  shows "\<exists>w'. setTo_writable e (Some (Client c, i)) n capacity t w = Some w' \<and> result_text t (Some x) w w'"
proof -
  define k where "k = (if n = -1 then int (length (takeWhile (\<lambda>u. u \<noteq> 0) (take (nat capacity) cs))) else n)"
  let ?s = "setArray (Some (Client c, i)) k capacity (setFlags kWritableAlias d0)"
  have "length (takeWhile (\<lambda>u. u \<noteq> 0) (take (nat capacity) cs)) \<le> nat capacity"
    using length_takeWhile_le [of "\<lambda>u. u \<noteq> 0" "take (nat capacity) cs"] by simp
  then have k: "0 \<le> k" "k \<le> capacity" using assms(5,8,9) by (auto simp: k_def)
  have "setTo_writable e (Some (Client c, i)) n capacity t w = Some (put_str t ?s (w\<lparr>blocks := released t w\<rparr>))"
    using assms(2,3,4,5,8,9) releaseArray_released [OF assms(1,2,2)] by (simp add: setTo_writable_def Let_def us_upd_def k_def)
  moreover have "result_text t (Some (take (nat (us_length ?s)) (drop i (client w c)))) w (put_str t ?s (w\<lparr>blocks := released t w\<rparr>))"
  proof (rule alias_result [OF assms(1,2)])
    show "\<exists>l. fUnion ?s = Fields (Some (Client c, i)) (int (nat capacity)) l" using assms(5) by simp
    show "i + nat capacity \<le> length (client w c)" using assms(4-7) by auto
    show "fFlags ?s = kReadonlyAlias \<or> fFlags ?s = kWritableAlias" by simp
  qed (use assms(11) k short_setLength in auto)
  moreover have "take (nat (us_length ?s)) cs = x" using k take_takeWhile assms(10) by (auto simp: k_def)
  ultimately show ?thesis using assms(4) by simp
qed

text \<open>Arguments that name no memory, or no valid part of it.\<close>

lemma setTo_null_result:
  assumes "us_inv w" "strs w t = Some d0" "\<not> kOpenGetBuffer (fFlags d0)"
  shows "\<exists>w'. setTo_readonly e isTerminated None n t w = Some w' \<and> result_text t (Some []) w w'"
    "\<exists>w'. setTo_writable e None n capacity t w = Some w' \<and> result_text t (Some []) w w'"
  using emptied_result [OF assms(1,2), of e] releaseArray_released [OF assms(1,2,2)] assms
  by (auto simp: setTo_readonly_def setTo_writable_def us_upd_def)

lemma setTo_invalid_result:
  assumes "us_inv w" "strs w t = Some d0" "\<not> kOpenGetBuffer (fFlags d0)"
  shows "n < -1 \<or> (n = -1 \<and> \<not> isTerminated) \<Longrightarrow> \<exists>w'. setTo_readonly e isTerminated (Some (Client c, i)) n t w = Some w' \<and> result_text t None w w'"
    "n < -1 \<or> capacity < 0 \<or> n > capacity \<Longrightarrow> \<exists>w'. setTo_writable e (Some (Client c, i)) n capacity t w = Some w' \<and> result_text t None w w'"
  using setToBogus_result [OF assms(1,2)] assms by (auto simp: setTo_readonly_def setTo_writable_def)

end
