(* ===== verification/UnicodeStrCalls.thy ===== *)
theory UnicodeStrCalls
  imports UnicodeStrBuffers
begin

text \<open>
  The calls of a client of \<^verbatim>\<open>UnicodeString\<close> as a labelled step relation, and what they do to the values of the strings: the abstract
  specification, in which a string is a list of code units and nothing is shared.
\<close>

section \<open>No open buffer\<close>

text \<open>Postconditions of partial operations, with one rule per construct.\<close>

named_theorems post_intros \<open>rules for postconditions of partial operations\<close>

definition post :: "('a \<Rightarrow> bool) \<Rightarrow> 'a option \<Rightarrow> bool" where
  "post P r \<longleftrightarrow> (\<forall>v. r = Some v \<longrightarrow> P v)"

lemma post_Some [post_intros]: "P v \<Longrightarrow> post P (Some v)"
  by (simp add: post_def)

lemma post_None [post_intros]: "post P None"
  by (simp add: post_def)

lemma post_if [post_intros]: "(b \<Longrightarrow> post P r) \<Longrightarrow> (\<not> b \<Longrightarrow> post P q) \<Longrightarrow> post P (if b then r else q)"
  by simp

lemma post_pair [post_intros]: "(\<And>a b. x = (a, b) \<Longrightarrow> post P (f a b)) \<Longrightarrow> post P (case x of (a, b) \<Rightarrow> f a b)"
  by (cases x) auto

lemma post_case [post_intros]: "(x = None \<Longrightarrow> post P r) \<Longrightarrow> (\<And>v. x = Some v \<Longrightarrow> post P (f v)) \<Longrightarrow> post P (case x of None \<Rightarrow> r | Some v \<Rightarrow> f v)"
  by (cases x) auto

lemma post_map [post_intros]: "post (\<lambda>v. P (f v)) r \<Longrightarrow> post P (map_option f r)"
  by (auto simp: post_def)

lemma post_any: "(\<And>v. r = Some v \<Longrightarrow> post P (f v)) \<Longrightarrow> post P (r \<bind> f)"
  by (auto simp: post_def bind_eq_Some_conv)

lemma post_bind: "post Q r \<Longrightarrow> (\<And>v. r = Some v \<Longrightarrow> Q v \<Longrightarrow> post P (f v)) \<Longrightarrow> post P (r \<bind> f)"
  by (auto simp: post_def bind_eq_Some_conv)

lemma postD: "post P r \<Longrightarrow> r = Some v \<Longrightarrow> P v"
  by (simp add: post_def)

definition closed :: "world \<Rightarrow> bool" where
  "closed w \<longleftrightarrow> (\<forall>t s. strs w t = Some s \<longrightarrow> \<not> kOpenGetBuffer (fFlags s))"

lemma closed_put: "closed w \<Longrightarrow> \<not> kOpenGetBuffer (fFlags s) \<Longrightarrow> closed (put_str t s w)"
  by (simp add: closed_def)

lemma closed_str: "closed w \<Longrightarrow> strs w t = Some s \<Longrightarrow> \<not> kOpenGetBuffer (fFlags s)"
  by (simp add: closed_def)

lemma closed_same: "strs w' = strs w \<Longrightarrow> closed w' = closed w"
  by (simp add: closed_def)

lemma upd_closed: "closed w \<Longrightarrow> (\<And>s. \<not> kOpenGetBuffer (fFlags s) \<Longrightarrow> \<not> kOpenGetBuffer (fFlags (f s))) \<Longrightarrow> post closed (us_upd t f w)"
  by (auto simp: us_upd_def post_def intro!: closed_put dest: closed_str)

lemma poke_closed: "closed w \<Longrightarrow> post closed (poke w p i us)"
  by (cases "(w, p, i, us)" rule: poke.cases)
    (auto simp: post_def closed_same [of "put_block b x w" for b x w] closed_same [of "put_client c x w" for c x w] split: option.splits StackBufferOrFields.splits
      if_splits intro!: closed_put dest: closed_str)

lemma arrayCopy_closed: "closed w \<Longrightarrow> post closed (us_arrayCopy src i dst j n w)"
  unfolding us_arrayCopy_def by (intro post_intros post_any poke_closed)

lemma removeRef_closed: "closed w \<Longrightarrow> post (\<lambda>(w', n). closed w') (removeRef p w)"
  by (auto simp: post_def removeRef_def closed_def split: option.splits region.splits prod.splits)

lemma addRef_closed: "closed w \<Longrightarrow> post closed (addRef p w)"
  by (auto simp: post_def addRef_def closed_def split: option.splits region.splits prod.splits)

lemma free_block_closed: "closed w \<Longrightarrow> post closed (free_block p w)"
  by (auto simp: post_def free_block_def closed_def split: option.splits region.splits prod.splits if_splits)

lemma allocate_closed: "closed w \<Longrightarrow> post (\<lambda>(w', ok). closed w') (us_allocate e n t w)"
  by (auto simp: post_def us_allocate_def Let_def closed_def bind_eq_Some_conv kShortString_def kLongString_def kIsBogus_def split: option.splits if_splits)

lemma releaseArray_closed: "closed w \<Longrightarrow> post closed (releaseArray t w)"
  unfolding releaseArray_def
  by (rule post_any, rule post_if, rule post_bind [OF removeRef_closed]) (auto intro!: post_intros free_block_closed)

lemma setToBogus_closed: "closed w \<Longrightarrow> post closed (setToBogus t w)"
  unfolding setToBogus_def
  by (rule post_bind [OF releaseArray_closed]) (auto intro!: upd_closed simp: kIsBogus_def)

lemma cloneArrayIfNeeded_closed:
  assumes "closed w"
  shows "post (\<lambda>(w', ok, d). closed w') (cloneArrayIfNeeded e n g c delayed force t w)"
proof -
  have retry: "post (\<lambda>(w', ok). closed w') (if ok1 then Some (w1, True) else if b then us_allocate e k t w1 else Some (w1, False))" if "closed w1" for ok1 w1 b k
    using that allocate_closed by (intro post_intros) auto
  have copy: "post closed (do { w' \<leftarrow> (if b then Some w1 else us_arrayCopy src 0 p 0 k w1); us_upd t (us_setLength k) w' })" if "closed w1" for b w1 src p k
    by (rule post_bind [where Q = closed]) (use that in \<open>auto intro!: post_intros arrayCopy_closed upd_closed\<close>)
  have contents: "post closed (if c then do { w' \<leftarrow> (if b then Some w1 else us_arrayCopy src 0 p 0 k w1); us_upd t (us_setLength k) w' } else us_upd t setZeroLength w1)"
    if "closed w1" for b w1 src p k
    using that copy by (intro post_if upd_closed) (auto simp: setZeroLength_def)
  have restore: "post closed (us_upd t (\<lambda>s2. (if b then s2 else setFields q (fCapacity (fUnion s2)) s2)\<lparr>fFlags := fFlags s, fShortLength := fShortLength s\<rparr>) w1)"
    if "closed w1" "strs w t = Some s" for b s w1 q
    by (rule upd_closed [OF that(1)]) (use closed_str [OF assms that(2)] in simp)
  show ?thesis unfolding cloneArrayIfNeeded_def Let_def
    apply (rule post_any, rule post_if, rule post_Some, simp add: assms)
    apply (rule post_any, rule post_if, rule post_any)
     apply (rule post_bind [OF allocate_closed [OF assms]], rule post_pair, rule post_bind [OF retry], simp)
     apply (rule post_pair, rule post_if, rule post_any, rule post_bind [OF contents], simp)
      apply (rule post_if, rule post_bind [OF removeRef_closed], assumption)
       apply (auto intro!: post_intros free_block_closed) [2]
     apply (rule post_bind [OF restore], simp, assumption)
     apply (rule post_bind [OF setToBogus_closed], assumption)
     apply (auto intro!: post_intros simp: assms)
    done
qed

lemma cloneArray_closed: "closed w \<Longrightarrow> post (\<lambda>(w', ok). closed w') (cloneArray e n t w)"
  using cloneArrayIfNeeded_closed unfolding cloneArray_def post_def by fastforce

lemma setLength_closed: "closed w \<Longrightarrow> post closed (us_upd t (us_setLength n) w)"
  by (rule upd_closed) simp_all

lemma replace_general_closed:
  assumes "closed w"
  shows "post closed (replace_general e start len src i n k t w)"
proof -
  have copies: "post closed (if b then do { w' \<leftarrow> us_arrayCopy q 0 p 0 j w1; us_arrayCopy q j' p i' n' w' } else if d then us_arrayCopy q j' p i' n' w1 else Some w1)"
    if "closed w1" for b d q p j j' i' n' w1
    by (rule post_if, rule post_bind [OF arrayCopy_closed]) (use that in \<open>auto intro!: post_intros arrayCopy_closed\<close>)
  have rest: "post closed (do { w3 \<leftarrow> us_arrayCopy src i p start n w2; w4 \<leftarrow> us_upd t (us_setLength k) w3; if q = None then Some w4 else free_block q w4 })"
    if "closed w2" for w2 p q
    by (rule post_bind [OF arrayCopy_closed [OF that]], rule post_bind [OF setLength_closed]) (auto intro!: post_intros free_block_closed)
  show ?thesis unfolding replace_general_def Let_def
    by (rule post_any, rule post_any, rule post_bind [OF cloneArrayIfNeeded_closed [OF assms]], (rule post_pair)+, rule post_if, rule post_Some, simp,
        rule post_any, rule post_bind [OF copies], simp, rule rest)
qed

lemma doReplace_closed:
  assumes "closed w"
  shows "post closed (doReplace e start len src i n t w)"
proof -
  have short: "\<not> kOpenGetBuffer (fFlags s')" if "remove_readonly start len n s = Some s'" "strs w t = Some s" for s s'
    using that closed_str [OF assms that(2)] by (auto simp: remove_readonly_def Let_def split: if_splits)
  have app: "post closed (do { w1 \<leftarrow> (if b then us_arrayCopy src j p k m w else Some w); us_upd t (us_setLength m') w1 })" for b j p k m m'
    by (rule post_bind [where Q = closed]) (auto intro!: post_intros arrayCopy_closed setLength_closed simp: assms)
  show ?thesis unfolding doReplace_def Let_def
    by (rule post_any, rule post_if, rule post_Some, rule assms, rule post_case, rule post_any, rule post_if, rule post_if, rule post_Some, rule assms, rule post_any,
        rule post_if, rule app, rule replace_general_closed [OF assms], rule post_pair, rule replace_general_closed [OF assms], rule post_Some)
      (auto intro!: closed_put [OF assms] dest: short)
qed

lemma doReplace_string_closed: "closed w \<Longrightarrow> post closed (doReplace_string e start len src i n t w)"
  unfolding doReplace_string_def by (rule post_any) (auto intro!: post_intros doReplace_closed)

lemma copyFrom_closed:
  assumes "closed w"
  shows "post closed (copyFrom e src fastCopy t w)"
proof (cases "t = src")
  case False
  have alloc: "post closed (do {
      (w2, ok) \<leftarrow> us_allocate e n t w1;
      if ok then do { d2 \<leftarrow> strs w2 t; w3 \<leftarrow> us_arrayCopy q 0 (getArrayStart t d2) 0 n w2; us_upd t (us_setLength n) w3 }
      else us_upd t (\<lambda>d. setFields None 0 (setFlags kIsBogus d)) w2 })" if "closed w1" for w1 n q
    by (rule post_bind [OF allocate_closed [OF that]], rule post_pair, rule post_if, rule post_any, rule post_bind [OF arrayCopy_closed])
      (auto intro!: upd_closed simp: kIsBogus_def)
  show ?thesis unfolding copyFrom_def Let_def
    apply (rule post_if, rule post_Some, rule assms, rule post_any, rule post_if, rule setToBogus_closed [OF assms])
    apply (rule post_bind [OF releaseArray_closed [OF assms]], rule post_if, rule upd_closed, assumption, simp add: kShortString_def)
    apply (rule post_any, rule post_if, rule post_any, rule post_Some, rule closed_put, assumption, simp add: kShortString_def)
    apply (rule post_if, rule post_bind [OF addRef_closed], assumption, rule post_Some, rule closed_put, assumption, simp add: kLongString_def)
    apply (rule post_if, rule post_Some, rule closed_put, assumption, simp add: kReadonlyAlias_def)
    apply (rule post_if, rule alloc, rule closed_put, assumption)
    apply (auto simp: kReadonlyAlias_def kWritableAlias_def kIsBogus_def intro!: post_intros closed_put)
    done
qed (simp add: copyFrom_def post_def assms)

lemma setCharAt_closed: "closed w \<Longrightarrow> post closed (setCharAt e i c t w)"
  unfolding setCharAt_def Let_def
  by (rule post_any, rule post_bind [OF cloneArray_closed], assumption, rule post_pair, rule post_any) (auto intro!: post_intros poke_closed)

lemma doReverse_closed: "closed w \<Longrightarrow> post closed (doReverse e start len t w)"
  unfolding doReverse_def
  by (rule post_if, rule post_Some, assumption, rule post_bind [OF cloneArray_closed], assumption, rule post_pair, rule post_if, rule post_Some, simp, rule post_any,
      rule post_pair, rule post_if, rule post_Some, simp, rule post_any, rule poke_closed) simp

lemma new_fill_closed:
  assumes "closed w"
  shows "post closed (us_new_fill e capacity c n t w)"
proof -
  let ?w = "put_str t \<lparr>fFlags = kWritableAlias, fShortLength = 0, fUnion = Fields None 0 0\<rparr> w"
  have w: "closed ?w" using assms by (simp add: closed_put kWritableAlias_def)
  have alloc: "post (\<lambda>(w', ok). closed w') (if b then None else us_allocate e k t ?w)" for b k using allocate_closed [OF w] by (intro post_if post_None)
  have rest: "post closed (do { w2 \<leftarrow> (if ok then poke w1 p 0 us else Some w1); us_upd t (us_setLength k) w2 })" if "closed w1" for w1 ok p us k
    by (rule post_bind [where Q = closed]) (use that in \<open>auto intro!: post_intros poke_closed setLength_closed\<close>)
  show ?thesis unfolding us_new_fill_def Let_def
  proof (rule post_if)
    show "post closed (map_option fst (us_allocate e capacity t ?w))" using allocate_closed [OF w, of e capacity t] by (auto simp: post_def)
  qed (rule post_bind [OF alloc], rule post_pair, rule post_any, rule rest, simp)
qed

lemma getTerminatedBuffer_closed: "closed w \<Longrightarrow> post (\<lambda>(w', p). closed w') (getTerminatedBuffer e t w)"
proof -
  assume c: "closed w"
  have one: "post (\<lambda>(w', p). closed w') (do { w2 \<leftarrow> poke w1 p i us; Some (w2, p) })" if "closed w1" for w1 p i us
    by (rule post_bind [OF poke_closed [OF that]]) (auto intro: post_intros)
  show ?thesis unfolding getTerminatedBuffer_def Let_def
    by (rule post_any, rule post_if, rule post_Some, simp add: c, rule post_any, rule post_any, rule post_any, rule post_if, rule post_Some, simp add: c,
        rule post_if, rule one [OF c], rule post_bind [OF cloneArray_closed [OF c]], rule post_pair, rule post_any)
      (auto intro!: post_intros one)
qed

lemma padTrailing_closed: "closed w \<Longrightarrow> post (\<lambda>(w', b). closed w') (padTrailing e n c t w)"
  unfolding padTrailing_def Let_def
  by (rule post_any, rule post_if, rule post_Some, simp, rule post_bind [OF cloneArray_closed], assumption, rule post_pair, rule post_if, rule post_Some, simp,
      rule post_any, rule post_bind [OF poke_closed], simp, rule post_bind [OF setLength_closed]) (auto intro!: post_intros)

lemma padLeading_closed: "closed w \<Longrightarrow> post (\<lambda>(w', b). closed w') (padLeading e n c t w)"
  unfolding padLeading_def Let_def
  by (rule post_any, rule post_if, rule post_Some, simp, rule post_bind [OF cloneArray_closed], assumption, rule post_pair, rule post_if, rule post_Some, simp,
      rule post_any, rule post_bind [OF arrayCopy_closed], simp, rule post_bind [OF poke_closed], simp, rule post_bind [OF setLength_closed]) (auto intro!: post_intros)

section \<open>Calls and their specification\<close>

datatype call =
    New nat
  | NewCopy nat nat
  | NewText nat "int list"
  | NewFill nat int int int
  | Destroy nat
  | Assign nat nat bool
  | Replace nat int int "int list"
  | ReplaceString nat int int nat int int
  | ReplaceChar nat int int int
  | AppendChar nat int
  | SetToString nat nat int int
  | Remove nat int int
  | RetainBetween nat int int
  | RemoveAll nat
  | Truncate nat int
  | SetCharAt nat int int
  | Reverse nat int int
  | PadLeading nat int int
  | PadTrailing nat int int
  | Terminate nat
  | Fill nat int "int list" int
  | SetToBogus nat

text \<open>The calls, by the functions of \<open>UnicodeStr\<close>.\<close>

fun exec :: "int heap \<Rightarrow> call \<Rightarrow> world \<Rightarrow> world option" where
  "exec e (New t) w = Some (us_new e t w)"
| "exec e (NewCopy t u) w = us_new_copy e u t w"
| "exec e (NewText t us) w = us_new_text e (Local us) (int (length us)) t w"
| "exec e (NewFill t capacity c n) w = us_new_fill e capacity c n t w"
| "exec e (Destroy t) w = us_destroy t w"
| "exec e (Assign t u fast) w = copyFrom e u fast t w"
| "exec e (Replace t start len us) w = doReplace e start len (Local us) 0 (int (length us)) t w"
| "exec e (ReplaceString t start len u srcStart srcLength) w = doReplace_string e start len u srcStart srcLength t w"
| "exec e (ReplaceChar t start len c) w = us_replace_char e start len c t w"
| "exec e (AppendChar t c) w = us_append_char e c t w"
| "exec e (SetToString t u srcStart srcLength) w = setTo_string e u srcStart srcLength t w"
| "exec e (Remove t start len) w = us_remove e start len t w"
| "exec e (RetainBetween t start limit) w = us_retainBetween e start limit t w"
| "exec e (RemoveAll t) w = us_upd t (us_remove_all e) w"
| "exec e (Truncate t n) w = us_upd t (\<lambda>s. fst (us_truncate e n s)) w"
| "exec e (SetCharAt t i c) w = setCharAt e i c t w"
| "exec e (Reverse t start len) w = doReverse e start len t w"
| "exec e (PadLeading t n c) w = map_option fst (padLeading e n c t w)"
| "exec e (PadTrailing t n c) w = map_option fst (padTrailing e n c t w)"
| "exec e (Terminate t) w = map_option fst (getTerminatedBuffer e t w)"
| "exec e (Fill t n us k) w = fill e n us k t w"
| "exec e (SetToBogus t) w = setToBogus t w"

text \<open>The abstract state: which strings there are, and for each its text or that it is bogus.\<close>

type_synonym valuation = "nat \<Rightarrow> int list option option"

definition values_of :: "world \<Rightarrow> valuation" where
  "values_of w t = (if strs w t = None then None else Some (us_text w t))"

definition part_of :: "valuation \<Rightarrow> nat \<Rightarrow> int \<Rightarrow> int \<Rightarrow> int list" where
  "part_of a u i n =
     (case a u of
        Some (Some y) \<Rightarrow> take (nat (max 0 (min n (int (length y) - pinned y i)))) (drop (nat (pinned y i)) y)
      | _ \<Rightarrow> [])"

definition truncated :: "int \<Rightarrow> int list option \<Rightarrow> int list option" where
  "truncated n v = (case v of None \<Rightarrow> if n = 0 then Some [] else None | Some x \<Rightarrow> Some (if 0 \<le> n then take (nat n) x else x))"

fun target :: "call \<Rightarrow> nat" where
  "target (New t) = t"
| "target (NewCopy t u) = t"
| "target (NewText t us) = t"
| "target (NewFill t capacity c n) = t"
| "target (Destroy t) = t"
| "target (Assign t u fast) = t"
| "target (Replace t start len us) = t"
| "target (ReplaceString t start len u srcStart srcLength) = t"
| "target (ReplaceChar t start len c) = t"
| "target (AppendChar t c) = t"
| "target (SetToString t u srcStart srcLength) = t"
| "target (Remove t start len) = t"
| "target (RetainBetween t start limit) = t"
| "target (RemoveAll t) = t"
| "target (Truncate t n) = t"
| "target (SetCharAt t i c) = t"
| "target (Reverse t start len) = t"
| "target (PadLeading t n c) = t"
| "target (PadTrailing t n c) = t"
| "target (Terminate t) = t"
| "target (Fill t n us k) = t"
| "target (SetToBogus t) = t"

fun new_value :: "call \<Rightarrow> valuation \<Rightarrow> int list option \<Rightarrow> int list option" where
  "new_value (New t) a v = Some []"
| "new_value (NewCopy t u) a v = (case a u of Some y \<Rightarrow> y | None \<Rightarrow> None)"
| "new_value (NewText t us) a v = Some us"
| "new_value (NewFill t capacity c n) a v = Some (if n \<le> 0 \<or> \<not> (0 \<le> c \<and> c \<le> 0x10ffff) then [] else concat (replicate (nat n) (cp_units c)))"
| "new_value (Destroy t) a v = None"
| "new_value (Assign t u fast) a v = (case a u of Some y \<Rightarrow> y | None \<Rightarrow> None)"
| "new_value (Replace t start len us) a v = map_option (\<lambda>x. replace_text x start len us) v"
| "new_value (ReplaceString t start len u i n) a v = map_option (\<lambda>x. replace_text x start len (part_of a u i n)) v"
| "new_value (ReplaceChar t start len c) a v = map_option (\<lambda>x. replace_text x start len (append_units c)) v"
| "new_value (AppendChar t c) a v = map_option (\<lambda>x. x @ append_units c) v"
| "new_value (SetToString t u i n) a v = Some (part_of a u i n)"
| "new_value (Remove t start len) a v =
     (if start \<le> 0 \<and> len = INT32_MAX then Some [] else map_option (\<lambda>x. replace_text x start len []) v)"
| "new_value (RetainBetween t start limit) a v = map_option (\<lambda>x. replace_text x 0 start []) (truncated limit v)"
| "new_value (RemoveAll t) a v = Some []"
| "new_value (Truncate t n) a v = truncated n v"
| "new_value (SetCharAt t i c) a v = map_option (\<lambda>x. if x = [] then x else x[nat (max 0 (min i (int (length x) - 1))) := c]) v"
| "new_value (Reverse t start len) a v = map_option (reverse_part start len) v"
| "new_value (PadLeading t n c) a v = map_option (\<lambda>x. replicate (nat n - length x) c @ x) v"
| "new_value (PadTrailing t n c) a v = map_option (\<lambda>x. x @ replicate (nat n - length x) c) v"
| "new_value (Terminate t) a v = v"
| "new_value (Fill t n us k) a v = map_option (\<lambda>x. if k = -1 then takeWhile (\<lambda>u. u \<noteq> 0) us else us) v"
| "new_value (SetToBogus t) a v = None"

definition spec :: "call \<Rightarrow> valuation \<Rightarrow> valuation" where
  "spec c a =
     a(target c := (case c of Destroy t \<Rightarrow> None | _ \<Rightarrow> Some (new_value c a (case a (target c) of Some v \<Rightarrow> v | None \<Rightarrow> None))))"

text \<open>
  What the client has to ensure: objects exist or not, sizes stay below the limit of the allocation, and the source of a replacement
  is another string than its target.
\<close>

definition small :: "valuation \<Rightarrow> nat \<Rightarrow> int \<Rightarrow> bool" where
  "small a t k \<longleftrightarrow> (case a t of Some (Some x) \<Rightarrow> (let n = int (length x) + k in n + n div 4 + kGrowSize \<le> max_capacity) | _ \<Rightarrow> True)"

fun allowed :: "call \<Rightarrow> world \<Rightarrow> bool" where
  "allowed (New t) w \<longleftrightarrow> strs w t = None"
| "allowed (NewCopy t u) w \<longleftrightarrow> strs w t = None \<and> strs w u \<noteq> None \<and> small (values_of w) u 0"
| "allowed (NewText t us) w \<longleftrightarrow> strs w t = None \<and> (let n = int (length us) in n + n div 4 + kGrowSize \<le> max_capacity)"
| "allowed (NewFill t capacity c n) w \<longleftrightarrow> strs w t = None \<and> capacity \<le> max_capacity \<and> n * U16_LENGTH c \<le> max_capacity"
| "allowed (Destroy t) w \<longleftrightarrow> strs w t \<noteq> None"
| "allowed (Assign t u fast) w \<longleftrightarrow> strs w t \<noteq> None \<and> strs w u \<noteq> None \<and> small (values_of w) u 0"
| "allowed (Replace t start len us) w \<longleftrightarrow> strs w t \<noteq> None \<and> small (values_of w) t (int (length us))"
| "allowed (ReplaceString t start len u i n) w \<longleftrightarrow> strs w t \<noteq> None \<and> strs w u \<noteq> None \<and> t \<noteq> u \<and> small (values_of w) t (int (length (part_of (values_of w) u i n)))"
| "allowed (ReplaceChar t start len c) w \<longleftrightarrow> strs w t \<noteq> None \<and> small (values_of w) t 2"
| "allowed (AppendChar t c) w \<longleftrightarrow> strs w t \<noteq> None \<and> small (values_of w) t 2"
| "allowed (SetToString t u i n) w \<longleftrightarrow> strs w t \<noteq> None \<and> strs w u \<noteq> None \<and> t \<noteq> u \<and>
     small ((values_of w)(t := Some (case us_text w t of None \<Rightarrow> Some [] | Some x \<Rightarrow> Some x))) t (int (length (part_of (values_of w) u i n)))"
| "allowed (Remove t start len) w \<longleftrightarrow> strs w t \<noteq> None \<and> small (values_of w) t 0"
| "allowed (RetainBetween t start limit) w \<longleftrightarrow> strs w t \<noteq> None \<and> small (values_of w) t 0"
| "allowed (RemoveAll t) w \<longleftrightarrow> strs w t \<noteq> None"
| "allowed (Truncate t n) w \<longleftrightarrow> strs w t \<noteq> None"
| "allowed (SetCharAt t i c) w \<longleftrightarrow> (case strs w t of Some s \<Rightarrow> getCapacity s \<le> max_capacity | None \<Rightarrow> False)"
| "allowed (Reverse t start len) w \<longleftrightarrow> (case strs w t of Some s \<Rightarrow> getCapacity s \<le> max_capacity | None \<Rightarrow> False)"
| "allowed (PadLeading t n c) w \<longleftrightarrow> strs w t \<noteq> None \<and> n \<le> max_capacity"
| "allowed (PadTrailing t n c) w \<longleftrightarrow> strs w t \<noteq> None \<and> n \<le> max_capacity"
| "allowed (Terminate t) w \<longleftrightarrow> strs w t \<noteq> None \<and> small (values_of w) t 0"
| "allowed (Fill t n us k) w \<longleftrightarrow> strs w t \<noteq> None \<and> int (length us) \<le> n \<and> n \<le> max_capacity \<and> (k = int (length us) \<or> k = -1 \<and> 0 \<in> set us)"
| "allowed (SetToBogus t) w \<longleftrightarrow> strs w t \<noteq> None"

end
