(* ===== verification/UnicodeStrSteps.thy ===== *)
theory UnicodeStrSteps
  imports UnicodeStrCalls
begin

text \<open>
  Each call that the client may make returns, keeps the invariant, and changes the values as specified, or makes its target bogus when
  an allocation has failed.
\<close>

definition refines :: "int heap \<Rightarrow> nat \<Rightarrow> int list option \<Rightarrow> world \<Rightarrow> world option \<Rightarrow> bool" where
  "refines e t v w r \<longleftrightarrow> (\<exists>w'. r = Some w' \<and> closed w' \<and> (result_text t v w w' \<or> result_text t None w w' \<and> (\<exists>n. \<not> grants e n)))"

lemma outcome_refines: "outcome e t x w r \<Longrightarrow> post closed r \<Longrightarrow> refines e t (Some x) w r"
  unfolding outcome_def refines_def post_def by blast

lemma result_refines: "result_text t v w w' \<Longrightarrow> closed w' \<Longrightarrow> refines e t v w (Some w')"
  unfolding refines_def by blast

lemma refines_after: "result_text t x w v \<Longrightarrow> refines e t y v r \<Longrightarrow> refines e t y w r"
  using result_trans unfolding refines_def by metis

lemma bogus_iff: "us_inv w \<Longrightarrow> strs w t = Some s \<Longrightarrow> us_text w t = None \<longleftrightarrow> kBogus (fFlags s)"
  using wf_cells [OF us_inv_wf, of w t s] by (auto simp: us_text_def us_isBogus_def)

text \<open>An operation that does nothing to a bogus string.\<close>

lemma edit_refines:
  assumes "us_inv w" "closed w" "strs w t = Some s" "post closed r" "kBogus (fFlags s) \<Longrightarrow> r = Some w"
    "\<And>cs x. holds t s cs w \<Longrightarrow> isWritable s \<Longrightarrow> x = take (nat (us_length s)) cs \<Longrightarrow> us_text w t = Some x \<Longrightarrow> outcome e t (f x) w r"
  shows "refines e t (map_option f (us_text w t)) w r"
proof (cases "kBogus (fFlags s)")
  case True
  then have "us_text w t = None" using bogus_iff [OF assms(1,3)] by simp
  then show ?thesis using result_refines [OF result_same [OF assms(1,3)] assms(2)] assms(5) True by simp
next
  case False
  obtain cs where h: "holds t s cs w" by (rule holds_exists [OF assms(1,3) False])
  have "isWritable s" using False closed_str [OF assms(2,3)] by (simp add: isWritable_def)
  then show ?thesis using assms(4,6) h holds_text [OF h] outcome_refines by simp
qed

lemma small_room: "small (values_of w) t k \<Longrightarrow> strs w t = Some s \<Longrightarrow> us_text w t = Some x \<Longrightarrow> int (length x) + k + (int (length x) + k) div 4 + kGrowSize \<le> max_capacity"
  by (simp add: small_def values_of_def Let_def)

lemma small_max:
  assumes "small (values_of w) t 0" "strs w t = Some s" "us_text w t = Some x"
  shows "int (length x) < max_capacity"
proof -
  have "int (length x) + int (length x) div 4 + kGrowSize \<le> max_capacity" using small_room [OF assms] by simp
  moreover have "0 \<le> int (length x) div 4" by (rule pos_imp_zdiv_nonneg_iff [THEN iffD2]) auto
  ultimately show ?thesis by (simp add: kGrowSize_def)
qed

section \<open>Replacements\<close>

lemma doReplace_refines:
  assumes "us_inv w" "closed w" "strs w t = Some s" "foreign w t s src" "argument w src i n us" "small (values_of w) t (int (length us))"
  shows "refines e t (map_option (\<lambda>x. replace_text x start len us) (us_text w t)) w (doReplace e start len src i n t w)"
proof (rule edit_refines [OF assms(1-3) doReplace_closed [OF assms(2)]])
  show "doReplace e start len src i n t w = Some w" if "kBogus (fFlags s)" using that assms(3) by (simp add: doReplace_def isWritable_def)
  show "outcome e t (replace_text x start len us) w (doReplace e start len src i n t w)"
    if "holds t s cs w" "isWritable s" "x = take (nat (us_length s)) cs" "us_text w t = Some x" for cs x
    using doReplace_outcome [OF assms(1) that(1,2) assms(4,5) that(3) refl, of e start len] text_length [OF that(1)] that(3) small_room [OF assms(6,3) that(4)] by simp
qed

lemma local_refines:
  assumes "us_inv w" "closed w" "strs w t = Some s" "small (values_of w) t (int (length us))"
  shows "refines e t (map_option (\<lambda>x. replace_text x start len us) (us_text w t)) w (doReplace e start len (Local us) 0 (int (length us)) t w)"
  by (rule doReplace_refines [OF assms(1-3) _ _ assms(4)]) (auto simp: argument_def provides_def)

lemma null_refines:
  assumes "us_inv w" "closed w" "strs w t = Some s" "small (values_of w) t 0"
  shows "refines e t (map_option (\<lambda>x. replace_text x start len []) (us_text w t)) w (doReplace e start len (At None) 0 0 t w)"
  by (rule doReplace_refines [OF assms(1-3)]) (use assms(4) in \<open>auto simp: argument_def\<close>)

lemma foreign_string:
  assumes "us_inv w" "strs w t = Some s" "holds u r cs w" "u \<noteq> t"
  shows "foreign w t s (At (getArrayStart u r))"
proof -
  have u: "strs w u = Some r" using assms(3) by (simp add: holds_def)
  from assms(3) show ?thesis
  proof (cases rule: holds_cases)
    case stack
    then show ?thesis using assms(4) by (simp add: getArrayStart_def)
  next
    case (counted b n l)
    then have "u \<in> owners w b - {t}" using u assms(4) by (auto simp: owners_def)
    then show ?thesis using counted by (auto simp: getArrayStart_def)
  next
    case (aliased c i k l)
    then show ?thesis using alias_exclusive [OF assms(1,2) _ _ u assms(4), of c] by (auto simp: getArrayStart_def)
  qed
qed

lemma string_argument:
  assumes "holds u r cs w" "values_of w u = Some (Some y)" "pinIndices r i n = (st, l)"
  shows "argument w (At (getArrayStart u r)) st l (part_of (values_of w) u i n)"
proof -
  have r: "strs w u = Some r" "mem w (getArrayStart u r) = Some cs" using assms(1) by (auto simp: holds_def)
  have y: "y = take (nat (us_length r)) cs" using holds_text [OF assms(1)] assms(2) r(1) by (simp add: values_of_def)
  have ly: "us_length r = int (length y)" "length y \<le> length cs" using text_length [OF assms(1)] y by auto
  have st: "st = pinned y i" "l = max 0 (min n (int (length y) - pinned y i))" "0 \<le> st" "0 \<le> l" "st + l \<le> int (length y)"
    using pinIndices_pinned(1) [OF ly(1), of i n] assms(3) by (auto simp: pinned_def)
  have "part_of (values_of w) u i n = take (nat l) (drop (nat st) y)" using assms(2) st by (simp add: part_of_def)
  also have "\<dots> = take (nat l) (drop (nat st) cs)"
  proof -
    have "nat st + nat l \<le> length y" using st(3-5) by linarith
    moreover have "y = take (length y) cs" using y ly(1) by (metis nat_int)
    ultimately show ?thesis using take_drop_take [of "nat st" "nat l" "length y" cs] by simp
  qed
  finally have us: "part_of (values_of w) u i n = take (nat l) (drop (nat st) cs)" .
  have ln: "int (length (take (nat l) (drop (nat st) cs))) = l" using st(3-5) ly(2) by simp
  have "getArrayStart u r \<noteq> None" using assms(1) by (auto elim!: holds_cases simp: getArrayStart_def)
  moreover have "provides w (At (getArrayStart u r)) st l (take (nat l) (drop (nat st) cs))" using r(2) st(3-5) ly(2) ln by (simp add: provides_def)
  moreover have "\<not> l < 0" using st(4) by simp
  ultimately show ?thesis unfolding us argument_def by auto
qed

lemma string_refines:
  assumes "us_inv w" "closed w" "strs w t = Some s" "strs w u = Some r" "u \<noteq> t" "small (values_of w) t (int (length (part_of (values_of w) u i n)))"
  shows "refines e t (map_option (\<lambda>x. replace_text x start len (part_of (values_of w) u i n)) (us_text w t)) w (doReplace_string e start len u i n t w)"
proof (cases "kBogus (fFlags r)")
  case True
  then have z: "part_of (values_of w) u i n = []" using bogus_iff [OF assms(1,4)] assms(4) by (simp add: part_of_def values_of_def)
  show ?thesis using null_refines [OF assms(1-3), of e start len] assms(4,6) True z by (simp add: doReplace_string_def us_isBogus_def)
next
  case False
  obtain cs where h: "holds u r cs w" by (rule holds_exists [OF assms(1,4) False])
  obtain st l where p: "pinIndices r i n = (st, l)" by (cases "pinIndices r i n")
  have "values_of w u = Some (Some (take (nat (us_length r)) cs))" using holds_text [OF h] assms(4) by (simp add: values_of_def)
  from doReplace_refines [OF assms(1-3) foreign_string [OF assms(1,3) h assms(5)] string_argument [OF h this p] assms(6), of e start len]
  show ?thesis using assms(4) False p by (simp add: doReplace_string_def us_isBogus_def)
qed

section \<open>The other edits\<close>

lemma truncate_result:
  assumes "us_inv w" "closed w" "strs w t = Some s"
  shows "result_text t (truncated n (us_text w t)) w (put_str t (fst (us_truncate e n s)) w)" "closed (put_str t (fst (us_truncate e n s)) w)"
proof -
  show "closed (put_str t (fst (us_truncate e n s)) w)"
    using closed_str [OF assms(2,3)] by (intro closed_put [OF assms(2)]) (auto simp: us_truncate_def kShortString_def)
  show "result_text t (truncated n (us_text w t)) w (put_str t (fst (us_truncate e n s)) w)"
  proof (cases "kBogus (fFlags s)")
    case False
    obtain cs where h: "holds t s cs w" by (rule holds_exists [OF assms(1,3) False])
    have "isWritable s" using False closed_str [OF assms(2,3)] by (simp add: isWritable_def)
    then show ?thesis using us_truncate_result [OF assms(1) h _ refl, of n e] holds_text [OF h] by (simp add: truncated_def)
  next
    case True
    have b: "us_text w t = None" "fFlags s = kIsBogus" "\<exists>l. fUnion s = Fields None 0 l"
      using True bogus_iff [OF assms(1,3)] us_inv_wf [OF assms(1,3)] by (auto simp: str_wf_def)
    consider "n = 0" | "0 < n" "n < us_length s" | "n \<noteq> 0" "\<not> (0 < n \<and> n < us_length s)" by linarith
    then show ?thesis
    proof cases
      case 1
      then show ?thesis using bogus_empty_result [OF assms(1,3) True] True b by (simp add: us_truncate_def us_isBogus_def truncated_def)
    next
      case 2
      have "frame t (us_setLength n s) w (put_str t (us_setLength n s) w)" by (rule put_frame [OF assms(1,3)]) auto
      moreover have "fUnion (us_setLength n s) = Fields None 0 (if n \<le> kMaxShortLength then fLength (fUnion s) else n)"
        using b(3) by (auto simp: us_setLength_def setShortLength_def)
      ultimately have "result_text t None w (put_str t (us_setLength n s) w)"
        using b(2) by (intro frame_result [OF assms(1)]) (auto simp: str_wf_def us_text_def us_isBogus_def kIsBogus_def)
      then show ?thesis using 2 True b(1) by (simp add: us_truncate_def us_isBogus_def truncated_def)
    next
      case 3
      then have "fst (us_truncate e n s) = s" by (auto simp: us_truncate_def)
      moreover have "put_str t s w = w" using assms(3) by (simp add: put_str_def fun_upd_idem)
      ultimately show ?thesis using result_same [OF assms(1,3) b(1)] b(1) 3(1) by (simp add: truncated_def)
    qed
  qed
qed

lemma remove_all_result:
  assumes "us_inv w" "closed w" "strs w t = Some s"
  shows "refines e t (Some []) w (us_upd t (us_remove_all e) w)"
  using result_refines [OF us_remove_all_result [OF assms(1,3), of e]] postD [OF upd_closed [OF assms(2), of "us_remove_all e" t]] assms(3) closed_str [OF assms(2,3)]
  by (simp add: us_upd_def us_remove_all_def setZeroLength_def kShortString_def)

lemma setTo_string_refines:
  assumes "us_inv w" "closed w" "strs w t = Some s" "strs w u = Some r" "u \<noteq> t"
    "small ((values_of w)(t := Some (case us_text w t of None \<Rightarrow> Some [] | Some x \<Rightarrow> Some x))) t (int (length (part_of (values_of w) u i n)))"
  shows "refines e t (Some (part_of (values_of w) u i n)) w (setTo_string e u i n t w)"
proof -
  define s1 where "s1 = (if kBogus (fFlags s) then setToEmpty e s else s)"
  let ?w = "put_str t s1 w"
  have ub: "unBogus e t w = Some ?w" using assms(3) by (simp add: unBogus_def us_upd_def s1_def)
  have w1: "result_text t (Some (case us_text w t of None \<Rightarrow> [] | Some x \<Rightarrow> x)) w ?w"
  proof (cases "kBogus (fFlags s)")
    case True
    then show ?thesis using bogus_empty_result [OF assms(1,3) True, of e] bogus_iff [OF assms(1,3)] by (simp add: s1_def)
  next
    case False
    then have "?w = w" "us_text w t \<noteq> None" using assms(3) bogus_iff [OF assms(1,3)] by (auto simp: s1_def put_str_def fun_upd_idem)
    then show ?thesis using result_same [OF assms(1,3)] by auto
  qed
  then obtain x where x: "us_text ?w t = Some x" "x = (case us_text w t of None \<Rightarrow> [] | Some x \<Rightarrow> x)" and inv: "us_inv ?w" and tu: "us_text ?w u = us_text w u"
    using assms(5) by (auto simp: result_text_def)
  have cl: "closed ?w" using closed_str [OF assms(2,3)] by (intro closed_put [OF assms(2)]) (simp add: s1_def kShortString_def)
  have p: "part_of (values_of ?w) u i n = part_of (values_of w) u i n" using assms(4,5) tu by (simp add: part_of_def values_of_def)
  have "values_of ?w t = Some (case us_text w t of None \<Rightarrow> Some [] | Some x \<Rightarrow> Some x)" using x by (simp add: values_of_def split: option.splits)
  then have sm: "small (values_of ?w) t (int (length (part_of (values_of ?w) u i n)))" using assms(6) p by (simp add: small_def)
  have s1: "strs ?w t = Some s1" "strs ?w u = Some r" using assms(4,5) by auto
  have nb: "\<not> kBogus (fFlags s1)" by (simp add: s1_def kShortString_def)
  obtain cs where h: "holds t s1 cs ?w" by (rule holds_exists [OF inv s1(1) nb])
  have lx: "us_length s1 = int (length x)" using text_length [OF h] holds_text [OF h] x(1) by simp
  have "replace_text x 0 (int (length x)) us = us" for us by (simp add: replace_text_def replaced_def pinned_def)
  then have "refines e t (Some (part_of (values_of w) u i n)) ?w (doReplace_string e 0 (us_length s1) u i n t ?w)"
    using string_refines [OF inv cl s1 assms(5) sm, of e 0 "us_length s1"] x(1) lx p by simp
  then show ?thesis using refines_after [OF w1] ub s1(1) by (simp add: setTo_string_def)
qed

lemma retainBetween_refines:
  assumes "us_inv w" "closed w" "strs w t = Some s" "small (values_of w) t 0"
  shows "refines e t (map_option (\<lambda>x. replace_text x 0 start []) (truncated limit (us_text w t))) w (us_retainBetween e start limit t w)"
proof -
  let ?s = "fst (us_truncate e limit s)" let ?w = "put_str t ?s w"
  note tr = truncate_result [where n = limit and e = e, OF assms(1-3)]
  have inv: "us_inv ?w" "us_text ?w t = truncated limit (us_text w t)" using tr(1) by (auto simp: result_text_def)
  have "small (values_of ?w) t 0"
  proof (cases "us_text w t")
    case (Some x)
    let ?n = "int (length (if 0 \<le> limit then take (nat limit) x else x))"
    have "?n \<le> int (length x)" by simp
    then have "?n + ?n div 4 + kGrowSize \<le> int (length x) + int (length x) div 4 + kGrowSize" by (intro add_mono zdiv_mono1) auto
    then show ?thesis using small_room [OF assms(4,3) Some] inv(2) Some by (simp add: small_def values_of_def truncated_def)
  qed (use inv(2) in \<open>simp add: small_def values_of_def truncated_def kGrowSize_def max_capacity_def\<close>)
  then have "refines e t (map_option (\<lambda>x. replace_text x 0 start []) (truncated limit (us_text w t))) ?w (doReplace e 0 start (At None) 0 0 t ?w)"
    using null_refines [OF inv(1) tr(2), of t ?s e 0 start] inv(2) by simp
  then show ?thesis using refines_after [OF tr(1)] assms(3) by (simp add: us_retainBetween_def us_upd_def)
qed

lemma copyFrom_refines:
  assumes "us_inv w" "closed w" "strs w t = Some d" "strs w u = Some s" "small (values_of w) u 0"
  shows "refines e t (us_text w u) w (copyFrom e u fastCopy t w)"
proof -
  have "int (length x) \<le> max_capacity" if "us_text w u = Some x" for x using small_max [OF assms(5,4) that] by simp
  from copyFrom_outcome [OF assms(1,3,4) this, of e fastCopy] show ?thesis
    using copyFrom_closed [OF assms(2), of e u fastCopy t] outcome_refines result_refines by (auto simp: post_def split: option.splits)
qed

lemma append_length: "int (length (append_units c)) \<le> 2"
  by (auto simp: append_units_def cp_units_def)

lemma small_mono: "small a t k \<Longrightarrow> j \<le> k \<Longrightarrow> small a t j"
proof -
  assume s: "small a t k" and j: "j \<le> k"
  have "n + j + (n + j) div 4 + kGrowSize \<le> n + k + (n + k) div 4 + kGrowSize" for n using j by (intro add_mono zdiv_mono1) auto
  then have "n + k + (n + k) div 4 + kGrowSize \<le> max_capacity \<Longrightarrow> n + j + (n + j) div 4 + kGrowSize \<le> max_capacity" for n by (rule order_trans)
  then show ?thesis using s unfolding small_def Let_def by (cases "a t"; cases "the (a t)") simp_all
qed

lemma append_char_refines:
  assumes "us_inv w" "closed w" "strs w t = Some s" "small (values_of w) t 2"
  shows "refines e t (map_option (\<lambda>x. x @ append_units c) (us_text w t)) w (us_append_char e c t w)"
proof (cases "append_units c = []")
  case True
  then show ?thesis using result_refines [OF result_same [OF assms(1,3) refl] assms(2)] assms(3) by (simp add: us_append_char_def option.map_ident)
next
  case False
  have "refines e t (map_option (\<lambda>x. replace_text x (us_length s) 0 (append_units c)) (us_text w t)) w (us_append_char e c t w)"
    using local_refines [OF assms(1-3) small_mono [OF assms(4) append_length], of e "us_length s" 0 c] False assms(3) by (simp add: us_append_char_def)
  moreover have "map_option (\<lambda>x. replace_text x (us_length s) 0 (append_units c)) (us_text w t) = map_option (\<lambda>x. x @ append_units c) (us_text w t)"
  proof (cases "kBogus (fFlags s)")
    case False
    obtain cs where h: "holds t s cs w" by (rule holds_exists [OF assms(1,3) False])
    then show ?thesis using holds_text [OF h] text_length [OF h] by (simp add: replace_text_def replaced_def pinned_def)
  qed (use bogus_iff [OF assms(1,3)] in simp)
  ultimately show ?thesis by simp
qed

section \<open>All calls\<close>

lemma new_world:
  assumes "us_inv w" "closed w" "strs w t = None"
  shows "us_inv (us_new e t w)" "closed (us_new e t w)" "us_text (us_new e t w) t = Some []" "u \<noteq> t \<Longrightarrow> values_of (us_new e t w) u = values_of w u"
    "\<exists>s. strs (us_new e t w) t = Some s"
  using us_new_result(1) [OF assms(1,3), of e] assms(2)
  by (auto simp: result_text_def values_of_def us_new_def kShortString_def intro!: closed_put)

lemma new_copy_refines:
  assumes "us_inv w" "closed w" "strs w t = None" "strs w u = Some r" "small (values_of w) u 0"
  shows "refines e t (us_text w u) w (us_new_copy e u t w)"
proof -
  note nw = new_world [where e = e, OF assms(1-3)]
  obtain d where d: "strs (us_new e t w) t = Some d" using nw(5) by blast
  have ne: "u \<noteq> t" using assms(3,4) by auto
  then have r: "strs (us_new e t w) u = Some r" "us_text (us_new e t w) u = us_text w u" "small (values_of (us_new e t w)) u 0"
    using assms(4,5) nw(4) [of u] by (auto simp: us_new_def values_of_def small_def)
  show ?thesis using refines_after [OF us_new_result(1) [OF assms(1,3)] copyFrom_refines [OF nw(1,2) d r(1,3), of e False]] r(2) by (simp add: us_new_copy_def)
qed

lemma new_text_refines:
  assumes "us_inv w" "closed w" "strs w t = None" "int (length us) + int (length us) div 4 + kGrowSize \<le> max_capacity"
  shows "refines e t (Some us) w (us_new_text e (Local us) (int (length us)) t w)"
proof -
  note nw = new_world [where e = e, OF assms(1-3)]
  obtain d where d: "strs (us_new e t w) t = Some d" using nw(5) by blast
  have "small (values_of (us_new e t w)) t (int (length us))" using assms(4) nw(3) by (simp add: small_def values_of_def)
  from local_refines [OF nw(1,2) d this, of e 0 0] have "refines e t (Some us) (us_new e t w) (us_new_text e (Local us) (int (length us)) t w)"
    using nw(3) by (simp add: us_new_text_def replace_text_def replaced_def pinned_def)
  then show ?thesis by (rule refines_after [OF us_new_result(1) [OF assms(1,3)]])
qed

lemma fst_closed: "post (\<lambda>(w, p). closed w) r \<Longrightarrow> post closed (map_option fst r)"
  by (auto simp: post_def)

lemma clone_bogus: "strs w t = Some s \<Longrightarrow> kBogus (fFlags s) \<Longrightarrow> cloneArray e n t w = Some (w, False)"
  by (simp add: cloneArray_def cloneArrayIfNeeded_def isWritable_def Let_def)

lemma pad_bogus:
  assumes "strs w t = Some s" "kBogus (fFlags s)"
  shows "map_option fst (padLeading e n c t w) = Some w" "map_option fst (padTrailing e n c t w) = Some w"
  using assms clone_bogus [OF assms] by (auto simp: padLeading_def padTrailing_def Let_def)

lemma pad_refines:
  assumes "us_inv w" "closed w" "strs w t = Some s" "n \<le> max_capacity"
  shows "refines e t (map_option (\<lambda>x. replicate (nat n - length x) c @ x) (us_text w t)) w (map_option fst (padLeading e n c t w))"
    "refines e t (map_option (\<lambda>x. x @ replicate (nat n - length x) c) (us_text w t)) w (map_option fst (padTrailing e n c t w))"
  by (rule edit_refines [OF assms(1-3) fst_closed [OF padLeading_closed [OF assms(2)]] pad_bogus(1) [OF assms(3)]], assumption,
      rule padLeading_outcome [OF assms(1) _ _ _ assms(4)], assumption+,
      rule edit_refines [OF assms(1-3) fst_closed [OF padTrailing_closed [OF assms(2)]] pad_bogus(2) [OF assms(3)]], assumption,
      rule padTrailing_outcome [OF assms(1) _ _ _ assms(4)], assumption+)

lemma terminate_refines:
  assumes "us_inv w" "closed w" "strs w t = Some s" "small (values_of w) t 0"
  shows "refines e t (us_text w t) w (map_option fst (getTerminatedBuffer e t w))"
proof -
  have "refines e t (map_option (\<lambda>x. x) (us_text w t)) w (map_option fst (getTerminatedBuffer e t w))"
  proof (rule edit_refines [OF assms(1-3) fst_closed [OF getTerminatedBuffer_closed [OF assms(2)]]])
    show "outcome e t x w (map_option fst (getTerminatedBuffer e t w))"
      if h: "holds t s cs w" "isWritable s" "x = take (nat (us_length s)) cs" "us_text w t = Some x" for cs x
    proof -
      have "us_length s < max_capacity" using small_max [OF assms(4,3) h(4)] text_length [OF h(1)] h(3) by simp
      from assms(1) h(1-3) this show ?thesis by (cases rule: getTerminatedBuffer_outcome [where e = e]) (auto simp: outcome_def)
    qed
  qed (use assms(3) in \<open>auto simp: getTerminatedBuffer_def isWritable_def\<close>)
  then show ?thesis by (simp add: option.map_ident)
qed

lemma setCharAt_refines:
  assumes "us_inv w" "closed w" "strs w t = Some s" "getCapacity s \<le> max_capacity"
  shows "refines e t (map_option (\<lambda>x. if x = [] then x else x[nat (max 0 (min i (int (length x) - 1))) := c]) (us_text w t)) w (setCharAt e i c t w)"
proof (rule edit_refines [OF assms(1-3) setCharAt_closed [OF assms(2)]])
  show "setCharAt e i c t w = Some w" if "kBogus (fFlags s)" using clone_bogus [OF assms(3) that] assms(3) by (simp add: setCharAt_def)
qed (rule setCharAt_outcome [OF assms(1) _ _ assms(4)])

lemma doReverse_refines:
  assumes "us_inv w" "closed w" "strs w t = Some s" "getCapacity s \<le> max_capacity"
  shows "refines e t (map_option (reverse_part start len) (us_text w t)) w (doReverse e start len t w)"
proof (rule edit_refines [OF assms(1-3) doReverse_closed [OF assms(2)]])
  show "doReverse e start len t w = Some w" if "kBogus (fFlags s)" using clone_bogus [OF assms(3) that] by (simp add: doReverse_def)
qed (rule doReverse_outcome [OF assms(1) _ _ assms(4)])

lemma fill_refines:
  assumes "us_inv w" "closed w" "strs w t = Some s" "int (length us) \<le> n" "n \<le> max_capacity" "k = int (length us) \<or> k = -1 \<and> 0 \<in> set us"
  shows "refines e t (map_option (\<lambda>x. if k = -1 then takeWhile (\<lambda>u. u \<noteq> 0) us else us) (us_text w t)) w (fill e n us k t w)"
proof (cases "kBogus (fFlags s)")
  case True
  have "getBuffer e n t w = Some (w, None)" using clone_bogus [OF assms(3) True] assms(4) by (simp add: getBuffer_def)
  then show ?thesis using bogus_iff [OF assms(1,3)] True result_refines [OF result_same [OF assms(1,3)] assms(2)] by (simp add: fill_def)
next
  case False
  obtain cs where h: "holds t s cs w" by (rule holds_exists [OF assms(1,3) False])
  have "isWritable s" using False closed_str [OF assms(2,3)] by (simp add: isWritable_def)
  from fill_outcome [OF assms(1) h this assms(4-6), of e] obtain w' s' where w': "fill e n us k t w = Some w'" "strs w' t = Some s'" "\<not> kOpenGetBuffer (fFlags s')"
    "result_text t (Some (if k = -1 then takeWhile (\<lambda>u. u \<noteq> 0) us else us)) w w' \<or> result_text t None w w' \<and> (\<exists>n. \<not> grants e n)" by blast
  then have "closed w'" using assms(2) by (auto simp: result_text_def closed_def split: if_splits)
  then show ?thesis using w' holds_text [OF h] unfolding refines_def by auto
qed

lemma exec_refines:
  assumes "us_inv w" "closed w" "allowed c w" "\<And>t. c \<noteq> Destroy t"
  shows "refines e (target c) (new_value c (values_of w) (us_text w (target c))) w (exec e c w)"
proof -
  note a = assms(1,2)
  show ?thesis
  proof (cases c)
    case (New t)
    then show ?thesis using result_refines [OF us_new_result(1) [OF a(1)] new_world(2) [OF a]] assms(3) by simp
  next
    case (NewCopy t u)
    then show ?thesis using new_copy_refines [OF a, of t u] assms(3) by (auto simp: values_of_def)
  next
    case (NewText t us)
    then show ?thesis using new_text_refines [OF a] assms(3) by (simp add: Let_def)
  next
    case (NewFill t capacity d n)
    then show ?thesis using outcome_refines [OF us_new_fill_outcome [OF a(1)] new_fill_closed [OF a(2)]] assms(3) by simp
  next
    case (Assign t u fast)
    then show ?thesis using copyFrom_refines [OF a, of t _ u] assms(3) by (auto simp: values_of_def)
  next
    case (Replace t start len us)
    then show ?thesis using local_refines [OF a] assms(3) by auto
  next
    case (ReplaceString t start len u i n)
    then show ?thesis using string_refines [OF a, of t _ u] assms(3) by auto
  next
    case (ReplaceChar t start len d)
    then show ?thesis using local_refines [OF a, of t _ "append_units d"] small_mono [OF _ append_length] assms(3) by (auto simp: us_replace_char_def)
  next
    case (AppendChar t d)
    then show ?thesis using append_char_refines [OF a] assms(3) by auto
  next
    case (SetToString t u i n)
    then show ?thesis using setTo_string_refines [OF a, of t _ u] assms(3) by auto
  next
    case (Remove t start len)
    then show ?thesis using null_refines [OF a, of t] remove_all_result [OF a, of t] assms(3) by (auto simp: us_remove_def)
  next
    case (RetainBetween t start limit)
    then show ?thesis using retainBetween_refines [OF a] assms(3) by auto
  next
    case (RemoveAll t)
    then show ?thesis using remove_all_result [OF a] assms(3) by auto
  next
    case (Truncate t n)
    then show ?thesis using result_refines [OF truncate_result [OF a]] assms(3) by (auto simp: us_upd_def)
  next
    case (SetCharAt t i d)
    then show ?thesis using setCharAt_refines [OF a] assms(3) by (auto split: option.splits)
  next
    case (Reverse t start len)
    then show ?thesis using doReverse_refines [OF a] assms(3) by (auto split: option.splits)
  next
    case (PadLeading t n d)
    then show ?thesis using pad_refines(1) [OF a] assms(3) by auto
  next
    case (PadTrailing t n d)
    then show ?thesis using pad_refines(2) [OF a] assms(3) by auto
  next
    case (Terminate t)
    then show ?thesis using terminate_refines [OF a] assms(3) by auto
  next
    case (Fill t n us k)
    then obtain s where s: "strs w t = Some s" "int (length us) \<le> n" "n \<le> max_capacity" "k = int (length us) \<or> k = -1 \<and> 0 \<in> set us" using assms(3) by auto
    show ?thesis using fill_refines [OF a s, of e] Fill by simp
  next
    case (SetToBogus t)
    then obtain s where "strs w t = Some s" using assms(3) by auto
    then show ?thesis using setToBogus_result [OF a(1)] setToBogus_closed [OF a(2), of t] SetToBogus result_refines by (fastforce simp: post_def)
  qed (use assms(4) in auto)
qed

end
