(* ===== verification/UnicodeStrRead.thy ===== *)
theory UnicodeStrRead
  imports UnicodeStrSteps UStringClaims
begin

text \<open>
  The methods of \<^verbatim>\<open>UnicodeString\<close> that read: searches, counts and comparisons, which call the functions of \<^verbatim>\<open>ustring.cpp\<close> on a part of the
  array, and \<^verbatim>\<open>findAndReplace\<close>, which searches and replaces in turn.
\<close>

section \<open>Searching, counting, comparing\<close>

text \<open>The array; that of a bogus string is NULL, and nothing can be read from it.\<close>

definition us_array :: "world \<Rightarrow> nat \<Rightarrow> ustring \<Rightarrow> int list option" where
  "us_array w t s = (if us_isBogus s then Some [] else mem w (getArrayStart t s))"

definition index_result :: "int \<Rightarrow> nat option \<Rightarrow> int" where
  "index_result start found = (case found of None \<Rightarrow> -1 | Some k \<Rightarrow> start + int k)"

text \<open>What \<^verbatim>\<open>indexOf\<close> and \<^verbatim>\<open>lastIndexOf\<close> have in common, with \<open>finder\<close> for \<^verbatim>\<open>u_strFindFirst\<close> or \<^verbatim>\<open>u_strFindLast\<close>.\<close>

definition search_in :: "(int list option \<Rightarrow> int \<Rightarrow> int list option \<Rightarrow> int \<Rightarrow> nat option option) \<Rightarrow> source \<Rightarrow> int \<Rightarrow> int \<Rightarrow> int \<Rightarrow> int \<Rightarrow> nat \<Rightarrow> world \<Rightarrow> int option" where
  "search_in finder src srcStart srcLength start len t w = do {
     s \<leftarrow> strs w t;
     if us_isBogus s \<or> src = At None \<or> srcStart < 0 \<or> srcLength = 0 then Some (-1)
     else do {
       xs \<leftarrow> source_mem w src;
       empty \<leftarrow> (if srcLength < 0 then map_option (\<lambda>u. u = 0) (unit_at xs (nat srcStart)) else Some False);
       if empty then Some (-1)
       else (case pinIndices s start len of
         (st, l) \<Rightarrow> do {
           cs \<leftarrow> us_array w t s;
           map_option (index_result st) (finder (Some (drop (nat st) cs)) l (Some (drop (nat srcStart) xs)) srcLength)
         })
     }
   }"

definition us_indexOf :: "source \<Rightarrow> int \<Rightarrow> int \<Rightarrow> int \<Rightarrow> int \<Rightarrow> nat \<Rightarrow> world \<Rightarrow> int option" where
  "us_indexOf = search_in u_strFindFirst"

definition us_lastIndexOf :: "source \<Rightarrow> int \<Rightarrow> int \<Rightarrow> int \<Rightarrow> int \<Rightarrow> nat \<Rightarrow> world \<Rightarrow> int option" where
  "us_lastIndexOf = search_in u_strFindLast"

definition us_indexOf_string :: "nat \<Rightarrow> int \<Rightarrow> int \<Rightarrow> int \<Rightarrow> int \<Rightarrow> nat \<Rightarrow> world \<Rightarrow> int option" where
  "us_indexOf_string u srcStart srcLength start len t w = do {
     r \<leftarrow> strs w u;
     if us_isBogus r then Some (-1)
     else (case pinIndices r srcStart srcLength of
       (i, n) \<Rightarrow> if n > 0 then us_indexOf (At (getArrayStart u r)) i n start len t w else Some (-1))
   }"

text \<open>Part of the array for a search for one unit or code point, or a count.\<close>

definition on_part :: "(int list \<Rightarrow> int \<Rightarrow> 'a option) \<Rightarrow> int \<Rightarrow> int \<Rightarrow> nat \<Rightarrow> world \<Rightarrow> (int \<times> 'a) option" where
  "on_part f start len t w = do {
     s \<leftarrow> strs w t;
     cs \<leftarrow> us_array w t s;
     case pinIndices s start len of (st, l) \<Rightarrow> map_option (\<lambda>y. (st, y)) (f (drop (nat st) cs) l)
   }"

definition doIndexOf :: "int \<Rightarrow> int \<Rightarrow> int \<Rightarrow> nat \<Rightarrow> world \<Rightarrow> int option" where
  "doIndexOf c start len t w = map_option (\<lambda>(st, m). index_result st m) (on_part (\<lambda>cs l. u_memchr cs c l) start len t w)"

definition doIndexOf32 :: "int \<Rightarrow> int \<Rightarrow> int \<Rightarrow> nat \<Rightarrow> world \<Rightarrow> int option" where
  "doIndexOf32 c start len t w = map_option (\<lambda>(st, m). index_result st m) (on_part (\<lambda>cs l. u_memchr32 cs c l) start len t w)"

definition doLastIndexOf :: "int \<Rightarrow> int \<Rightarrow> int \<Rightarrow> nat \<Rightarrow> world \<Rightarrow> int option" where
  "doLastIndexOf c start len t w = do {
     s \<leftarrow> strs w t;
     if us_isBogus s then Some (-1)
     else map_option (\<lambda>(st, m). index_result st m) (on_part (\<lambda>cs l. u_memrchr cs c l) start len t w)
   }"

definition doLastIndexOf32 :: "int \<Rightarrow> int \<Rightarrow> int \<Rightarrow> nat \<Rightarrow> world \<Rightarrow> int option" where
  "doLastIndexOf32 c start len t w = map_option (\<lambda>(st, m). index_result st m) (on_part (\<lambda>cs l. u_memrchr32 cs c l) start len t w)"

definition us_countChar32 :: "int \<Rightarrow> int \<Rightarrow> nat \<Rightarrow> world \<Rightarrow> int option" where
  "us_countChar32 start len t w = map_option (\<lambda>(st, n). int n) (on_part (\<lambda>cs l. u_countChar32 (Some cs) l) start len t w)"

definition us_hasMoreChar32Than :: "int \<Rightarrow> int \<Rightarrow> int \<Rightarrow> nat \<Rightarrow> world \<Rightarrow> bool option" where
  "us_hasMoreChar32Than start len number t w = map_option snd (on_part (\<lambda>cs l. u_strHasMoreChar32Than (Some cs) l number) start len t w)"

text \<open>\<^verbatim>\<open>(int8_t)(result >> 15 | 1)\<close> for a difference of units.\<close>

definition sign_of :: "int \<Rightarrow> int" where
  "sign_of d = (let q = d div 0x8000 in if odd q then q else q + 1)"

fun compare_units :: "int list \<Rightarrow> int list \<Rightarrow> nat \<Rightarrow> int option" where
  "compare_units cs ds 0 = Some 0"
| "compare_units (c # cs) (d # ds) (Suc n) = (if c - d \<noteq> 0 then Some (sign_of (c - d)) else compare_units cs ds n)"
| "compare_units cs ds (Suc n) = None"

definition doCompare :: "int \<Rightarrow> int \<Rightarrow> source \<Rightarrow> int \<Rightarrow> int \<Rightarrow> nat \<Rightarrow> world \<Rightarrow> int option" where
  "doCompare start len src srcStart srcLength0 t w = do {
     s \<leftarrow> strs w t;
     if us_isBogus s then Some (-1)
     else (case pinIndices s start len of
       (st, l) \<Rightarrow>
         if src = At None then Some (if l = 0 then 0 else 1)
         else if srcStart < 0 then None
         else do {
           cs \<leftarrow> us_array w t s;
           xs \<leftarrow> source_mem w src;
           srcLength \<leftarrow> (if srcLength0 < 0 then map_option int (u_strlen (drop (nat srcStart + nat srcStart) xs)) else Some srcLength0);
           let minLength = min l srcLength;
           let lengthResult = (if l < srcLength then -1 else if l > srcLength then 1 else 0);
           if minLength > 0 \<and> offset_ptr (At (getArrayStart t s)) st \<noteq> offset_ptr src srcStart then do {
             r \<leftarrow> compare_units (drop (nat st) cs) (drop (nat srcStart) xs) (nat minLength);
             Some (if r \<noteq> 0 then r else lengthResult)
           } else Some lengthResult
         })
   }"

definition doCompare_string :: "int \<Rightarrow> int \<Rightarrow> nat \<Rightarrow> int \<Rightarrow> int \<Rightarrow> nat \<Rightarrow> world \<Rightarrow> int option" where
  "doCompare_string start len u srcStart srcLength t w = do {
     s \<leftarrow> strs w t;
     r \<leftarrow> strs w u;
     if us_isBogus r then Some (if us_isBogus s then 0 else 1)
     else (case pinIndices r srcStart srcLength of (i, n) \<Rightarrow> doCompare start len (At (getArrayStart u r)) i n t w)
   }"

definition doEquals :: "nat \<Rightarrow> int \<Rightarrow> nat \<Rightarrow> world \<Rightarrow> bool option" where
  "doEquals u len t w = do {
     s \<leftarrow> strs w t;
     r \<leftarrow> strs w u;
     cs \<leftarrow> us_array w t s;
     ds \<leftarrow> us_array w u r;
     if nat len \<le> length cs \<and> nat len \<le> length ds then Some (take (nat len) cs = take (nat len) ds) else None
   }"

definition us_equals :: "nat \<Rightarrow> nat \<Rightarrow> world \<Rightarrow> bool option" where
  "us_equals u t w = do {
     s \<leftarrow> strs w t;
     r \<leftarrow> strs w u;
     if us_isBogus s then Some (us_isBogus r)
     else if us_isBogus r \<or> us_length s \<noteq> us_length r then Some False
     else doEquals u (us_length s) t w
   }"

section \<open>Finding and replacing\<close>

partial_function (option) replace_loop :: "int heap \<Rightarrow> nat \<Rightarrow> int \<Rightarrow> int \<Rightarrow> nat \<Rightarrow> int \<Rightarrow> int \<Rightarrow> nat \<Rightarrow> int \<Rightarrow> int \<Rightarrow> world \<Rightarrow> world option" where
  "replace_loop e old oldStart oldLength new newStart newLength t start len w =
     (if len > 0 \<and> len \<ge> oldLength then
        Option.bind (us_indexOf_string old oldStart oldLength start len t w)
          (\<lambda>pos. if pos < 0 then Some w
             else Option.bind (doReplace_string e pos oldLength new newStart newLength t w)
               (\<lambda>w1. replace_loop e old oldStart oldLength new newStart newLength t (pos + newLength) (len - (pos + oldLength - start)) w1))
      else Some w)"

definition findAndReplace :: "int heap \<Rightarrow> int \<Rightarrow> int \<Rightarrow> nat \<Rightarrow> int \<Rightarrow> int \<Rightarrow> nat \<Rightarrow> int \<Rightarrow> int \<Rightarrow> nat \<Rightarrow> world \<Rightarrow> world option" where
  "findAndReplace e start0 len0 old oldStart0 oldLength0 new newStart0 newLength0 t w = do {
     s \<leftarrow> strs w t;
     o1 \<leftarrow> strs w old;
     n1 \<leftarrow> strs w new;
     if us_isBogus s \<or> us_isBogus o1 \<or> us_isBogus n1 then Some w
     else (case (pinIndices s start0 len0, pinIndices o1 oldStart0 oldLength0, pinIndices n1 newStart0 newLength0) of
       ((start, len), (oldStart, oldLength), (newStart, newLength)) \<Rightarrow>
         if oldLength = 0 then Some w else replace_loop e old oldStart oldLength new newStart newLength t start len w)
   }"

section \<open>What they answer\<close>

definition text_part :: "int list \<Rightarrow> int \<Rightarrow> int \<Rightarrow> int list" where
  "text_part x i n = take (nat (max 0 (min n (int (length x) - pinned x i)))) (drop (nat (pinned x i)) x)"

lemma pinned_range: "0 \<le> pinned x i" "pinned x i \<le> int (length x)" "pinned x i + max 0 (min n (int (length x) - pinned x i)) \<le> int (length x)"
  by (auto simp: pinned_def)

lemma text_part_length: "int (length (text_part x i n)) = max 0 (min n (int (length x) - pinned x i))"
  using pinned_range(1,2) [of x i] pinned_range(3) [of x i n] by (simp add: text_part_def)

lemma part_has_text:
  assumes "holds t s cs w" "x = take (nat (us_length s)) cs" "pinIndices s start len = (st, l)"
  shows "st = pinned x start" "l = int (length (text_part x start len))" "has_text (drop (nat st) cs) l (text_part x start len)" "nat st + nat l \<le> length cs"
proof -
  have lx: "us_length s = int (length x)" "length x \<le> length cs" using text_length [OF assms(1)] assms(2) by auto
  have p: "st = pinned x start" "l = max 0 (min len (int (length x) - pinned x start))" using pinIndices_pinned(1) [OF lx(1), of start len] assms(3) by auto
  note r = pinned_range(1,2) [of x start, folded p(1)] pinned_range(3) [of x start len, folded p]
  show "st = pinned x start" by (rule p)
  show l: "l = int (length (text_part x start len))" using text_part_length p(2) by simp
  have b: "nat st + nat l \<le> length x" using r p by linarith
  then show "nat st + nat l \<le> length cs" using lx(2) by simp
  have "take (length x) cs = x" using assms(2) lx(1) by (metis nat_int)
  then have "text_part x start len = take (nat l) (drop (nat st) cs)" unfolding text_part_def p(2) [symmetric] unfolding p(1) [symmetric] using take_drop_take [OF b, of cs] by simp
  then show "has_text (drop (nat st) cs) l (text_part x start len)" using b lx(2) l by (simp add: has_text_def)
qed

lemma array_holds: "holds t s cs w \<Longrightarrow> us_array w t s = Some cs \<and> \<not> us_isBogus s \<and> strs w t = Some s"
  by (simp add: holds_def us_array_def us_isBogus_def)

lemma on_part_text:
  assumes "holds t s cs w" "x = take (nat (us_length s)) cs"
  obtains cs' l where "has_text cs' l (text_part x start len)" "l \<noteq> -1" "\<forall>f. on_part f start len t w = map_option (\<lambda>y. (pinned x start, y)) (f cs' l)"
proof -
  obtain st l where p: "pinIndices s start len = (st, l)" by (cases "pinIndices s start len")
  note pt = part_has_text [OF assms p]
  show ?thesis by (rule that [OF pt(3)]) (use pt(1,2) p array_holds [OF assms(1)] in \<open>auto simp: on_part_def\<close>)
qed

text \<open>The argument as a string of \<open>ustring.cpp\<close>.\<close>

lemma argument_text:
  assumes "argument w src i n us" "us \<noteq> []" "-1 \<le> n" "0 \<le> i"
  obtains xs where "source_mem w src = Some xs" "has_text (drop (nat i) xs) n us" "src \<noteq> At None" "n \<noteq> 0" "n < 0 \<longrightarrow> (\<exists>c. unit_at xs (nat i) = Some c \<and> c \<noteq> 0)"
proof (cases "n < 0")
  case True
  then have n: "n = -1" using assms(3) by simp
  obtain xs rest where xs: "source_mem w src = Some xs" "drop (nat i) xs = us @ 0 # rest" "0 \<notin> set us" "src \<noteq> At None"
    using assms(1,2) True by (auto simp: argument_def split: if_splits)
  have "nat i < length xs" using arg_cong [OF xs(2), of length] by (cases "nat i < length xs") auto
  then have "xs ! nat i = hd us" using xs(2) assms(2) hd_drop_conv_nth [of "nat i" xs] by (cases us) auto
  then have "unit_at xs (nat i) = Some (hd us)" "hd us \<noteq> 0" using \<open>nat i < length xs\<close> xs(3) assms(2) by (auto simp: unit_at_def) (metis hd_in_set)
  then show ?thesis using that [OF xs(1)] xs n by (auto simp: has_text_def)
next
  case False
  then have p: "provides w src i n us" "src \<noteq> At None" using assms(1,2) by (auto simp: argument_def split: if_splits)
  then have "n > 0" using assms(2) by (auto simp: provides_def)
  then show ?thesis using that p by (auto simp: provides_def has_text_def)
qed

lemma search_in_text:
  assumes "holds t s cs w" "x = take (nat (us_length s)) cs" "argument w src i n us" "us \<noteq> []" "-1 \<le> n" "0 \<le> i"
    "\<And>a l b. has_text a l (text_part x start len) \<Longrightarrow> l \<noteq> -1 \<Longrightarrow> has_text b n us \<Longrightarrow> finder (Some a) l (Some b) n = Some m"
  shows "search_in finder src i n start len t w = Some (index_result (pinned x start) m)"
proof -
  obtain xs where xs: "source_mem w src = Some xs" "has_text (drop (nat i) xs) n us" "src \<noteq> At None" "n \<noteq> 0" "n < 0 \<longrightarrow> (\<exists>c. unit_at xs (nat i) = Some c \<and> c \<noteq> 0)"
    by (rule argument_text [OF assms(3-6)])
  obtain st l where p: "pinIndices s start len = (st, l)" by (cases "pinIndices s start len")
  note pt = part_has_text [OF assms(1,2) p] and ar = array_holds [OF assms(1)]
  have "(if n < 0 then map_option (\<lambda>u. u = 0) (unit_at xs (nat i)) else Some False) = Some False" using xs(5) by auto
  moreover have "finder (Some (drop (nat st) cs)) l (Some (drop (nat i) xs)) n = Some m" by (rule assms(7) [OF pt(3) _ xs(2)]) (simp add: pt(2))
  ultimately show ?thesis using xs ar p pt(1) assms(6) by (simp add: search_in_def)
qed

text \<open>A text that does not end in a lead surrogate is found where it matches at code point boundaries.\<close>

lemma indexOf_text:
  assumes "holds t s cs w" "x = take (nat (us_length s)) cs" "argument w src i n us" "us \<noteq> []" "-1 \<le> n" "0 \<le> i" "\<not> is_lead (last us)"
  shows "us_indexOf src i n start len t w = Some (index_result (pinned x start) (first_match (text_part x start len) us))"
    "us_lastIndexOf src i n start len t w = Some (index_result (pinned x start) (last_match (text_part x start len) us))"
  unfolding us_indexOf_def us_lastIndexOf_def
  by (rule search_in_text [OF assms(1-6)], rule u_strFindFirst_finds; simp add: end_readable_def assms(7))
    (rule search_in_text [OF assms(1-6)], rule u_strFindLast_finds; simp add: end_readable_def assms(4,7))

lemma single_searches:
  assumes "holds t s cs w" "x = take (nat (us_length s)) cs" "\<not> is_lead c"
  shows "doIndexOf32 c start len t w = Some (index_result (pinned x start) (if 0 \<le> c \<and> c \<le> 0x10ffff then first_match (text_part x start len) (cp_units c) else None))"
    "doLastIndexOf32 c start len t w = Some (index_result (pinned x start) (if 0 \<le> c \<and> c \<le> 0x10ffff then last_match (text_part x start len) (cp_units c) else None))"
    "us_countChar32 start len t w = Some (int (length (code_points (text_part x start len))))"
    "us_hasMoreChar32Than start len number t w = Some (number < int (length (code_points (text_part x start len))))"
proof -
  obtain cs' l where p: "has_text cs' l (text_part x start len)" "l \<noteq> -1" "\<forall>f :: int list \<Rightarrow> int \<Rightarrow> nat option option. on_part f start len t w = map_option (\<lambda>y. (pinned x start, y)) (f cs' l)"
    by (rule on_part_text [where start = start and len = len, OF assms(1,2)])
  have "end_readable cs' l (text_part x start len) [c]" using assms(3) by (simp add: end_readable_def)
  note sr = code_point_searches_length [OF p(1,2) this]
  show "doIndexOf32 c start len t w = Some (index_result (pinned x start) (if 0 \<le> c \<and> c \<le> 0x10ffff then first_match (text_part x start len) (cp_units c) else None))"
    "doLastIndexOf32 c start len t w = Some (index_result (pinned x start) (if 0 \<le> c \<and> c \<le> 0x10ffff then last_match (text_part x start len) (cp_units c) else None))"
    unfolding doIndexOf32_def doLastIndexOf32_def p(3) [rule_format] sr by simp_all
  obtain cs' l where q: "has_text cs' l (text_part x start len)" "\<forall>f :: int list \<Rightarrow> int \<Rightarrow> nat option. on_part f start len t w = map_option (\<lambda>y. (pinned x start, y)) (f cs' l)"
    by (rule on_part_text [where start = start and len = len, OF assms(1,2)])
  show "us_countChar32 start len t w = Some (int (length (code_points (text_part x start len))))"
    unfolding us_countChar32_def q(2) [rule_format] counts_agree [OF q(1)] by simp
  obtain cs' l where b: "has_text cs' l (text_part x start len)" "\<forall>f :: int list \<Rightarrow> int \<Rightarrow> bool option. on_part f start len t w = map_option (\<lambda>y. (pinned x start, y)) (f cs' l)"
    by (rule on_part_text [where start = start and len = len, OF assms(1,2)])
  show "us_hasMoreChar32Than start len number t w = Some (number < int (length (code_points (text_part x start len))))"
    unfolding us_hasMoreChar32Than_def b(2) [rule_format] more_than_decides [OF b(1)] by simp
qed

section \<open>Comparison\<close>

lemma sign_of_difference: "0 \<le> c \<Longrightarrow> c \<le> 0xffff \<Longrightarrow> 0 \<le> d \<Longrightarrow> d \<le> 0xffff \<Longrightarrow> c \<noteq> d \<Longrightarrow> sign_of (c - d) = (if c < d then -1 else 1)"
proof -
  assume b: "0 \<le> c" "c \<le> 0xffff" "0 \<le> d" "d \<le> 0xffff" "c \<noteq> d"
  have "(c - d) div 0x8000 \<in> {-2, -1} \<and> c < d \<or> (c - d) div 0x8000 \<in> {0, 1} \<and> d < c"
  proof (cases "c < d")
    case True
    then have "-2 \<le> (c - d) div 0x8000" "(c - d) div 0x8000 \<le> -1" using b by linarith+
    then show ?thesis using True by auto
  next
    case False
    then have "0 \<le> (c - d) div 0x8000" "(c - d) div 0x8000 \<le> 1" "d < c" using b by linarith+
    then show ?thesis by auto
  qed
  then show ?thesis by (auto simp: sign_of_def)
qed

lemma compare_units_lists:
  assumes "m \<le> length cs" "m \<le> length ds" "unit_list (take m cs)" "unit_list (take m ds)"
  shows "compare_units cs ds m = Some (compare_lists (take m cs) (take m ds))"
  using assms
proof (induction cs ds m rule: compare_units.induct)
  case (2 c cs d ds n)
  then show ?case using sign_of_difference [of c d] by auto
qed auto

lemma compare_lists_lengths:
  "compare_lists a b = (let m = min (length a) (length b); r = compare_lists (take m a) (take m b) in
     if r \<noteq> 0 then r else if length a < length b then -1 else if length a > length b then 1 else 0)"
  by (induction a b rule: compare_lists.induct) (auto simp: Let_def)

lemma mem_offset: "mem w (Some (r, a)) = Some cs \<Longrightarrow> mem w (Some (r, a + k)) = Some (drop k cs)"
  by (cases r) (auto simp: add.commute split: option.splits StackBufferOrFields.splits)

lemma same_memory:
  assumes "offset_ptr (At p) i = offset_ptr src j" "mem w p = Some cs" "source_mem w src = Some xs" "0 \<le> i" "0 \<le> j"
  shows "drop (nat i) cs = drop (nat j) xs"
proof -
  obtain r a where p: "p = Some (r, a)" using assms(2) by (cases p) auto
  obtain q where q: "src = At q" using assms(1) by (cases src) (auto simp: offset_ptr_def)
  obtain r' b where b: "q = Some (r', b)" using assms(3) q by (cases q) auto
  have "r = r'" "a + nat i = b + nat j" using assms(1) p q b by (auto simp: offset_ptr_def)
  then show ?thesis using mem_offset [of w r a cs "nat i"] mem_offset [of w r' b xs "nat j"] assms(2,3) p q b by simp
qed

lemma doCompare_text:
  assumes "holds t s cs w" "x = take (nat (us_length s)) cs" "provides w src i n us" "src \<noteq> At None" "0 < n" "unit_list x" "unit_list us"
  shows "doCompare start len src i n t w = Some (compare_lists (text_part x start len) us)"
proof -
  obtain xs where xs: "source_mem w src = Some xs" "i + n \<le> int (length xs)" "us = take (nat n) (drop (nat i) xs)" "0 \<le> i" "int (length us) = n"
    using assms(3,5) by (auto simp: provides_def)
  obtain st l where p: "pinIndices s start len = (st, l)" by (cases "pinIndices s start len")
  note pt = part_has_text [OF assms(1,2) p] and ar = array_holds [OF assms(1)]
  define seg where "seg = text_part x start len"
  have st: "0 \<le> st" using pt(1) pinned_range(1) by simp
  have l: "l = int (length seg)" "seg = take (nat l) (drop (nat st) cs)" using pt(2,3) by (auto simp: seg_def has_text_def)
  have ul: "unit_list seg" using assms(6) by (auto simp: seg_def text_part_def dest!: in_set_takeD in_set_dropD)
  define m where "m = min (length seg) (length us)"
  have mn: "nat (min l n) = m" "min l n > 0 \<longleftrightarrow> m > 0" using l(1) xs(5) by (auto simp: m_def)
  have ml: "m \<le> nat l" "m \<le> nat n" using mn(1) assms(5) by linarith+
  have tk: "take m seg = take m (drop (nat st) cs)" "take m us = take m (drop (nat i) xs)"
    by (subst l(2), simp add: ml min_absorb1, subst xs(3), simp add: ml min_absorb1)
  have cu: "compare_units (drop (nat st) cs) (drop (nat i) xs) m = Some (compare_lists (take m seg) (take m us))"
  proof -
    have "m \<le> length (drop (nat st) cs)" "m \<le> length (drop (nat i) xs)" using pt(4) l(1) xs(2,4,5) by (auto simp: m_def)
    moreover have "unit_list (take m seg)" "unit_list (take m us)" using ul assms(7) by (auto dest!: in_set_takeD)
    ultimately show ?thesis using compare_units_lists [of m "drop (nat st) cs" "drop (nat i) xs"] unfolding tk by blast
  qed
  have same: "compare_lists (take m seg) (take m us) = 0" if "offset_ptr (At (getArrayStart t s)) st = offset_ptr src i"
  proof -
    have "mem w (getArrayStart t s) = Some cs" using assms(1) by (simp add: holds_def)
    from same_memory [OF that this xs(1) st xs(4)] show ?thesis unfolding tk by simp
  qed
  have call: "doCompare start len src i n t w =
      (if m > 0 \<and> offset_ptr (At (getArrayStart t s)) st \<noteq> offset_ptr src i then do {
         r \<leftarrow> compare_units (drop (nat st) cs) (drop (nat i) xs) m;
         Some (if r \<noteq> 0 then r else if l < n then -1 else if l > n then 1 else 0)
       } else Some (if l < n then -1 else if l > n then 1 else 0))"
    using ar p assms(4,5) xs(1,4) mn by (simp add: doCompare_def Let_def)
  have "m = 0 \<Longrightarrow> compare_lists (take m seg) (take m us) = 0" by simp
  then show ?thesis unfolding call cu seg_def [symmetric] compare_lists_lengths [of seg us] Let_def m_def [symmetric] using same l(1) xs(5) by auto
qed

lemma equals_text:
  assumes "us_inv w" "strs w t = Some s" "strs w u = Some r"
  shows "us_equals u t w = Some (us_text w t = us_text w u)"
proof (cases "kBogus (fFlags s) \<or> kBogus (fFlags r)")
  case True
  then show ?thesis using bogus_iff [OF assms(1,2)] bogus_iff [OF assms(1,3)] assms(2,3) by (auto simp: us_equals_def us_isBogus_def)
next
  case False
  obtain cs where h: "holds t s cs w" using holds_exists [OF assms(1,2)] False by blast
  obtain ds where g: "holds u r ds w" using holds_exists [OF assms(1,3)] False by blast
  have "us_length s \<le> int (length cs)" "us_length r \<le> int (length ds)" "0 \<le> us_length s" "0 \<le> us_length r" using holds_capacity [OF h] holds_capacity [OF g] by auto
  moreover have "us_length s \<noteq> us_length r \<Longrightarrow> take (nat (us_length s)) cs \<noteq> take (nat (us_length r)) ds"
    using text_length [OF h] text_length [OF g] by metis
  ultimately show ?thesis using holds_text [OF h] holds_text [OF g] array_holds [OF h] array_holds [OF g]
    by (cases "us_length s = us_length r") (auto simp: us_equals_def doEquals_def)
qed

section \<open>The text after finding and replacing\<close>

lemma first_match_Some:
  assumes "first_match x v = Some k"
  shows "k + length v \<le> length x" "take (length v) (drop k x) = v"
  using assms by (auto simp: first_match_def find_Some_iff matches_def)

text \<open>Every occurrence, from left to right, none within a replacement.\<close>

function replace_all :: "int list \<Rightarrow> int list \<Rightarrow> int list \<Rightarrow> int list" where
  "replace_all v u x =
     (case first_match x v of
        None \<Rightarrow> x
      | Some k \<Rightarrow> if v = [] then x else take k x @ u @ replace_all v u (drop (k + length v) x))"
  by auto
termination
proof (relation "measure (\<lambda>(v, u, x). length x)", goal_cases)
  case (2 v u x k)
  then have "k + length v \<le> length x" "0 < length v" using first_match_Some(1) by auto
  then have "length x - (k + length v) < length x" by linarith
  then show ?case by simp
qed simp

declare replace_all.simps [simp del]

lemma pinIndices_twice: "pinIndices r i n = (j, k) \<Longrightarrow> 0 \<le> us_length r \<Longrightarrow> pinIndices r j k = (j, k)"
  by (auto simp: pinIndices_def Let_def split: if_splits)

lemma part_in_middle: "text_part (a @ seg @ b) (int (length a)) (int (length seg)) = seg" "pinned (a @ seg @ b) (int (length a)) = int (length a)"
  by (auto simp: text_part_def pinned_def)

lemma indexOf_string_text:
  assumes "us_inv w" "closed w" "strs w t = Some s" "us_text w t = Some (a @ seg @ b)" "strs w old = Some r" "pinIndices r i n = (i, n)" "0 < n"
    "part_of (values_of w) old i n = v" "int (length v) = n" "\<not> is_lead (last v)" "\<not> kBogus (fFlags r)"
  shows "us_indexOf_string old i n (int (length a)) (int (length seg)) t w = Some (index_result (int (length a)) (first_match seg v))"
proof -
  have nb: "\<not> kBogus (fFlags s)" using bogus_iff [OF assms(1,3)] assms(4) by simp
  obtain cs where h: "holds t s cs w" by (rule holds_exists [OF assms(1,3) nb])
  obtain ds where g: "holds old r ds w" by (rule holds_exists [OF assms(1,5,11)])
  have x: "a @ seg @ b = take (nat (us_length s)) cs" using holds_text [OF h] assms(4) by simp
  have "values_of w old = Some (Some (take (nat (us_length r)) ds))" using holds_text [OF g] assms(5) by (simp add: values_of_def)
  from string_argument [OF g this assms(6)] have arg: "argument w (At (getArrayStart old r)) i n v" using assms(8) by simp
  have "0 \<le> i" using part_has_text(1) [OF g refl assms(6)] pinned_range(1) [of "take (nat (us_length r)) ds" i] by linarith
  moreover have "v \<noteq> []" using assms(7,9) by auto
  ultimately show ?thesis using indexOf_text(1) [OF h x arg _ _ _ assms(10), of "int (length a)" "int (length seg)"] assms(5,6,7,11)
    by (simp add: us_indexOf_string_def us_isBogus_def part_in_middle)
qed

lemma bogus_loop:
  assumes "us_inv w" "strs w t = Some s" "us_text w t = None" "strs w old = Some r" "pinIndices r i n = (i, n)"
  shows "replace_loop e old i n new j m t start len w = Some w"
proof -
  have "kBogus (fFlags s)" using bogus_iff [OF assms(1,2)] assms(3) by simp
  then have "us_indexOf_string old i n start len t w = Some (-1)"
    using assms(2,4,5) by (simp add: us_indexOf_string_def us_indexOf_def search_in_def us_isBogus_def)
  then show ?thesis by (subst replace_loop.simps) simp
qed

text \<open>The room for all replacements: every unit may be replaced.\<close>

definition growth :: "nat \<Rightarrow> nat \<Rightarrow> nat \<Rightarrow> nat" where
  "growth k n m = k + n * Suc m"

lemma growth_step: "k + vl \<le> n \<Longrightarrow> 0 < vl \<Longrightarrow> growth (a + k + m) (n - (k + vl)) m \<le> growth a n m"
proof -
  assume b: "k + vl \<le> n" "0 < vl"
  obtain d where d: "n = k + vl + d" using le_Suc_ex [OF b(1)] by blast
  have "m \<le> vl * m" using b(2) by simp
  then have "m \<le> k * m + vl * m + vl" by linarith
  then show ?thesis unfolding growth_def d by (simp add: algebra_simps)
qed

lemma replace_middle:
  assumes "first_match seg v = Some k"
  shows "replace_text (a @ seg @ b) (int (length a) + int k) (int (length v)) u = (a @ take k seg @ u) @ drop (k + length v) seg @ b"
proof -
  have m: "k + length v \<le> length seg" by (rule first_match_Some(1) [OF assms])
  have p: "pinned (a @ seg @ b) (int (length a) + int k) = int (length a + k)" using m by (simp add: pinned_def)
  have "max 0 (min (int (length v)) (int (length (a @ seg @ b)) - int (length a + k))) = int (length v)" using m by simp
  then show ?thesis using m by (simp add: replace_text_def p replaced_def nat_add_distrib)
qed

lemma replace_loop_refines:
  assumes "us_inv w" "closed w" "strs w t = Some s" "us_text w t = Some (a @ seg @ b)" "strs w old = Some r" "strs w new = Some q" "old \<noteq> t" "new \<noteq> t"
    "pinIndices r i n = (i, n)" "part_of (values_of w) old i n = v" "part_of (values_of w) new j m = u" "int (length v) = n" "0 < n" "int (length u) = m"
    "\<not> is_lead (last v)" "\<not> kBogus (fFlags r)" "growth (length a) (length seg) (length u) + length b + length u \<le> N" "int N + int N div 4 + kGrowSize \<le> max_capacity"
  shows "refines e t (Some (a @ replace_all v u seg @ b)) w (replace_loop e old i n new j m t (int (length a)) (int (length seg)) w)"
  using assms(1-6,10,11,17)
proof (induction "length seg" arbitrary: a seg w s rule: less_induct)
  case less
  note inv = less.prems(1-4)
  have v: "v \<noteq> []" using assms(12,13) by auto
  have same: "refines e t (Some (a @ seg @ b)) w (Some w)" by (rule result_refines [OF result_same [OF inv(1,3,4)] inv(2)])
  have idx: "us_indexOf_string old i n (int (length a)) (int (length seg)) t w = Some (index_result (int (length a)) (first_match seg v))"
    by (rule indexOf_string_text [OF inv less.prems(5) assms(9,13) less.prems(7) assms(12,15,16)])
  show ?case
  proof (cases "first_match seg v")
    case None
    then have "replace_loop e old i n new j m t (int (length a)) (int (length seg)) w = Some w"
      using idx by (subst replace_loop.simps) (simp add: index_result_def)
    then show ?thesis using same None by (simp add: replace_all.simps)
  next
    case (Some k)
    note k = first_match_Some [OF Some]
    let ?a = "a @ take k seg @ u" let ?seg = "drop (k + length v) seg"
    let ?w1 = "doReplace_string e (int (length a) + int k) n new j m t w"
    have g: "0 < int (length seg)" "n \<le> int (length seg)" using k(1) v assms(12) by auto
    have call: "replace_loop e old i n new j m t (int (length a)) (int (length seg)) w =
        Option.bind ?w1 (replace_loop e old i n new j m t (int (length ?a)) (int (length ?seg)))"
    proof -
      have "int (length ?a) = int (length a) + int k + m" "int (length ?seg) = int (length seg) - (int (length a) + int k + n - int (length a))" using k(1) assms(12,14) by auto
      then show ?thesis using idx g Some by (subst replace_loop.simps) (simp add: index_result_def add.assoc)
    qed
    have len: "length (a @ seg @ b) + length u \<le> N" using less.prems(9) by (simp add: growth_def)
    then have "int (length (a @ seg @ b) + length u) + int (length (a @ seg @ b) + length u) div 4 + kGrowSize \<le> int N + int N div 4 + kGrowSize"
      by (intro add_mono zdiv_mono1) auto
    then have "small (values_of w) t (int (length u))" using assms(18) inv(3,4) by (simp add: small_def values_of_def Let_def)
    from string_refines [OF inv(1-3) less.prems(6) assms(8), of j m e "int (length a) + int k" n] this
    have rf: "refines e t (Some (?a @ ?seg @ b)) w ?w1" using less.prems(8) inv(4) replace_middle [OF Some, of a b u] assms(12) by simp
    then obtain w1 where w1: "?w1 = Some w1" "closed w1" "result_text t (Some (?a @ ?seg @ b)) w w1 \<or> result_text t None w w1 \<and> (\<exists>n. \<not> grants e n)"
      unfolding refines_def by blast
    then obtain s1 where s1: "strs w1 = (strs w)(t := Some s1)" "us_inv w1" "\<And>u. u \<noteq> t \<Longrightarrow> us_text w1 u = us_text w u" by (auto simp: result_text_def)
    have st: "strs w1 t = Some s1" "strs w1 old = Some r" "strs w1 new = Some q" using s1(1) less.prems(5,6) assms(7,8) by auto
    have parts: "part_of (values_of w1) old i n = v" "part_of (values_of w1) new j m = u"
      using less.prems(5-8) st s1(3) [OF assms(7)] s1(3) [OF assms(8)] by (auto simp: part_of_def values_of_def)
    have goal: "a @ replace_all v u seg @ b = ?a @ replace_all v u ?seg @ b" using Some v by (subst replace_all.simps) simp
    show ?thesis
    proof (cases "us_text w1 t")
      case None
      then have "result_text t None w w1 \<and> (\<exists>n. \<not> grants e n)" using w1(3) by (auto simp: result_text_def)
      moreover have "replace_loop e old i n new j m t (int (length ?a)) (int (length ?seg)) w1 = Some w1" by (rule bogus_loop [OF s1(2) st(1) None st(2) assms(9)])
      ultimately show ?thesis unfolding call w1(1) using w1(2) by (simp add: refines_def)
    next
      case t: (Some y)
      then have r1: "result_text t (Some (?a @ ?seg @ b)) w w1" "us_text w1 t = Some (?a @ ?seg @ b)" using w1(3) by (auto simp: result_text_def)
      have "growth (length ?a) (length ?seg) (length u) + length b + length u \<le> N"
        using growth_step [OF k(1), of "length a" "length u"] v less.prems(9) k(1) by (simp add: add.assoc)
      moreover have "length ?seg < length seg" using k(1) v by (cases v) auto
      ultimately have "refines e t (Some (?a @ replace_all v u ?seg @ b)) w1 (replace_loop e old i n new j m t (int (length ?a)) (int (length ?seg)) w1)"
        using less.hyps [of ?seg w1 s1 ?a] s1(2) w1(2) st r1(2) parts by simp
      then show ?thesis unfolding call w1(1) goal using refines_after [OF r1(1)] by simp
    qed
  qed
qed

lemma text_holds:
  assumes "us_inv w" "us_text w t = Some x" "strs w t = Some s"
  obtains cs where "holds t s cs w" "x = take (nat (us_length s)) cs"
proof -
  have nb: "\<not> kBogus (fFlags s)" using bogus_iff [OF assms(1,3)] assms(2) by simp
  obtain cs where h: "holds t s cs w" by (rule holds_exists [OF assms(1,3) nb])
  show thesis by (rule that [OF h]) (use holds_text [OF h] assms(2) in simp)
qed

lemma text_us_length:
  assumes "us_inv w" "strs w t = Some s" "us_text w t = Some x"
  shows "us_length s = int (length x)"
proof -
  obtain cs where "holds t s cs w" "x = take (nat (us_length s)) cs" by (rule text_holds [OF assms(1,3,2)])
  then show ?thesis using text_length by metis
qed

text \<open>The parts that the parameters name, and the parts after the first pinning.\<close>

lemma part_of_text: "us_text w u = Some y \<Longrightarrow> strs w u = Some r \<Longrightarrow> part_of (values_of w) u i n = text_part y i n"
  by (simp add: part_of_def values_of_def text_part_def)

lemma text_part_pinned: "text_part y (pinned y i) (max 0 (min n (int (length y) - pinned y i))) = text_part y i n"
  by (simp add: text_part_def pinned_def)

lemma text_parts: "take (nat (pinned x i)) x @ text_part x i n @ drop (nat (pinned x i) + length (text_part x i n)) x = x"
proof -
  have "text_part x i n = take (length (text_part x i n)) (drop (nat (pinned x i)) x)" unfolding text_part_def by (metis length_take take_take min.idem take_all_iff nle_le min_def)
  then show ?thesis by (metis append_take_drop_id drop_drop add.commute)
qed

definition replaced_all :: "int list \<Rightarrow> int \<Rightarrow> int \<Rightarrow> int list \<Rightarrow> int list \<Rightarrow> int list" where
  "replaced_all x start len v u =
     take (nat (pinned x start)) x @ replace_all v u (text_part x start len) @ drop (nat (pinned x start) + length (text_part x start len)) x"

lemma replaced_none: "replaced_all x start len [] u = x"
  using text_parts [of x start len] by (simp add: replaced_all_def replace_all.simps split: option.split)

lemma growth_bound: "la + ls + lb = n \<Longrightarrow> growth la ls m + lb + m \<le> n * Suc m + m"
  unfolding growth_def by (auto simp: algebra_simps)

lemma findAndReplace_refines:
  assumes "us_inv w" "closed w" "us_text w t = Some x" "us_text w old = Some y" "us_text w new = Some z" "old \<noteq> t" "new \<noteq> t"
    "v = text_part y oldStart oldLength" "u = text_part z newStart newLength" "v \<noteq> [] \<Longrightarrow> \<not> is_lead (last v)"
    "N = int (length x * Suc (length u) + length u)" "N + N div 4 + kGrowSize \<le> max_capacity"
  shows "refines e t (Some (replaced_all x start len v u)) w (findAndReplace e start len old oldStart oldLength new newStart newLength t w)"
proof -
  obtain s r q where st: "strs w t = Some s" "strs w old = Some r" "strs w new = Some q" using assms(3-5) by (auto simp: us_text_def split: option.splits)
  have nb: "\<not> kBogus (fFlags s)" "\<not> kBogus (fFlags r)" "\<not> kBogus (fFlags q)" using bogus_iff [OF assms(1) st(1)] bogus_iff [OF assms(1) st(2)] bogus_iff [OF assms(1) st(3)] assms(3-5) by auto
  have len: "us_length s = int (length x)" "us_length r = int (length y)" "us_length q = int (length z)"
    by (rule text_us_length [OF assms(1) st(1) assms(3)], rule text_us_length [OF assms(1) st(2) assms(4)], rule text_us_length [OF assms(1) st(3) assms(5)])
  have pins: "pinIndices s start len = (pinned x start, int (length (text_part x start len)))" "pinIndices r oldStart oldLength = (pinned y oldStart, int (length v))"
    "pinIndices q newStart newLength = (pinned z newStart, int (length u))"
    using pinIndices_pinned(1) [OF len(1)] pinIndices_pinned(1) [OF len(2)] pinIndices_pinned(1) [OF len(3)] text_part_length assms(8,9) by auto
  have call: "findAndReplace e start len old oldStart oldLength new newStart newLength t w =
      (if v = [] then Some w
       else replace_loop e old (pinned y oldStart) (int (length v)) new (pinned z newStart) (int (length u)) t (pinned x start) (int (length (text_part x start len))) w)"
    using st nb pins by (simp add: findAndReplace_def us_isBogus_def)
  show ?thesis
  proof (cases "v = []")
    case True
    then show ?thesis using result_refines [OF result_same [OF assms(1) st(1) assms(3)] assms(2)] by (simp add: call replaced_none)
  next
    case False
    let ?a = "take (nat (pinned x start)) x" let ?seg = "text_part x start len" let ?b = "drop (nat (pinned x start) + length (text_part x start len)) x"
    have la: "int (length ?a) = pinned x start" using pinned_range(1,2) [of x start] by simp
    have "growth (length ?a) (length ?seg) (length u) + length ?b + length u \<le> length x * Suc (length u) + length u"
      by (rule growth_bound) (metis text_parts length_append add.assoc)
    moreover have "us_text w t = Some (?a @ ?seg @ ?b)" using text_parts assms(3) by simp
    moreover have "part_of (values_of w) old (pinned y oldStart) (int (length v)) = v" "part_of (values_of w) new (pinned z newStart) (int (length u)) = u"
      using part_of_text [OF assms(4) st(2)] part_of_text [OF assms(5) st(3)] text_part_pinned text_part_length assms(8,9) by auto
    ultimately have "refines e t (Some (?a @ replace_all v u ?seg @ ?b)) w
        (replace_loop e old (pinned y oldStart) (int (length v)) new (pinned z newStart) (int (length u)) t (int (length ?a)) (int (length ?seg)) w)"
      using False assms(1,2,6,7,10-12) st nb(2) pinIndices_twice [OF pins(2)] len(2) by (intro replace_loop_refines [where N = "length x * Suc (length u) + length u"]) auto
    then show ?thesis using False unfolding call la replaced_all_def by simp
  qed
qed

section \<open>Comparison of two strings\<close>

text \<open>A bogus string is below all others.\<close>

definition compare_values :: "int list option \<Rightarrow> int list option \<Rightarrow> int" where
  "compare_values x y = (case (x, y) of (None, None) \<Rightarrow> 0 | (None, Some b) \<Rightarrow> -1 | (Some a, None) \<Rightarrow> 1 | (Some a, Some b) \<Rightarrow> compare_lists a b)"

lemma doCompare_nothing:
  assumes "holds t s cs w" "x = take (nat (us_length s)) cs" "source_mem w (At p) = Some xs" "0 \<le> i"
  shows "doCompare start len (At p) i 0 t w = Some (compare_lists (text_part x start len) [])"
proof -
  obtain st l where q: "pinIndices s start len = (st, l)" by (cases "pinIndices s start len")
  have "l = int (length (text_part x start len))" by (rule part_has_text(2) [OF assms(1,2) q])
  moreover have "p \<noteq> None" using assms(3) by (cases p) auto
  ultimately show ?thesis using array_holds [OF assms(1)] assms(3,4) q by (cases "text_part x start len") (auto simp: doCompare_def)
qed

lemma doCompare_string_texts:
  assumes "us_inv w" "us_text w t = Some x" "us_text w u = Some y" "unit_list x" "unit_list y"
  shows "doCompare_string start len u i n t w = Some (compare_lists (text_part x start len) (text_part y i n))"
proof -
  obtain s r where st: "strs w t = Some s" "strs w u = Some r" using assms(2,3) by (auto simp: us_text_def split: option.splits)
  obtain cs where h: "holds t s cs w" "x = take (nat (us_length s)) cs" by (rule text_holds [OF assms(1,2) st(1)])
  obtain ds where g: "holds u r ds w" "y = take (nat (us_length r)) ds" by (rule text_holds [OF assms(1,3) st(2)])
  obtain j m where p: "pinIndices r i n = (j, m)" by (cases "pinIndices r i n")
  note pt = part_has_text [OF g p]
  have src: "source_mem w (At (getArrayStart u r)) = Some ds" using g(1) by (simp add: holds_def)
  have j: "0 \<le> j" using pt(1) pinned_range(1) by simp
  have call: "doCompare_string start len u i n t w = doCompare start len (At (getArrayStart u r)) j m t w"
    using st p array_holds [OF g(1)] by (simp add: doCompare_string_def)
  show ?thesis
  proof (cases "m > 0")
    case True
    have "values_of w u = Some (Some y)" using assms(3) st(2) by (simp add: values_of_def)
    moreover have null: "At (getArrayStart u r) \<noteq> At None" using src by (cases "getArrayStart u r") auto
    ultimately have "provides w (At (getArrayStart u r)) j m (text_part y i n)"
      using string_argument [OF g(1) _ p] part_of_text [OF assms(3) st(2)] True by (simp add: argument_def)
    moreover have "unit_list (text_part y i n)" using assms(5) by (auto simp: text_part_def dest!: in_set_takeD in_set_dropD)
    ultimately show ?thesis using doCompare_text [OF h _ null True assms(4)] call by simp
  next
    case False
    then have "m = 0" "text_part y i n = []" using pt(2) by auto
    then show ?thesis using doCompare_nothing [OF h src j] call by simp
  qed
qed

lemma doCompare_string_values:
  assumes "us_inv w" "strs w t = Some s" "strs w u = Some r" "\<forall>x. us_text w t = Some x \<or> us_text w u = Some x \<longrightarrow> unit_list x"
  shows "doCompare_string start len u i n t w =
    Some (compare_values (map_option (\<lambda>x. text_part x start len) (us_text w t)) (map_option (\<lambda>y. text_part y i n) (us_text w u)))"
proof (cases "us_text w t"; cases "us_text w u")
  fix x y assume "us_text w t = Some x" "us_text w u = Some y"
  then show ?thesis using doCompare_string_texts [OF assms(1)] assms(4) by (simp add: compare_values_def)
qed (use bogus_iff [OF assms(1,2)] bogus_iff [OF assms(1,3)] assms(2,3) in \<open>auto simp: compare_values_def doCompare_string_def doCompare_def us_isBogus_def split: prod.split\<close>)

text \<open>Searches for part of another string.\<close>

lemma string_searches:
  assumes "us_inv w" "us_text w t = Some x" "us_text w u = Some y" "v = text_part y i n" "v \<noteq> []" "\<not> is_lead (last v)"
  shows "us_indexOf_string u i n start len t w = Some (index_result (pinned x start) (first_match (text_part x start len) v))"
proof -
  obtain s r where st: "strs w t = Some s" "strs w u = Some r" using assms(2,3) by (auto simp: us_text_def split: option.splits)
  obtain cs where h: "holds t s cs w" "x = take (nat (us_length s)) cs" by (rule text_holds [OF assms(1,2) st(1)])
  obtain ds where g: "holds u r ds w" "y = take (nat (us_length r)) ds" by (rule text_holds [OF assms(1,3) st(2)])
  obtain j m where p: "pinIndices r i n = (j, m)" by (cases "pinIndices r i n")
  note pt = part_has_text [OF g p]
  have "0 \<le> j" "0 < m" using pt(1,2) pinned_range(1) assms(4,5) by auto
  moreover have "argument w (At (getArrayStart u r)) j m v"
    using string_argument [OF g(1) _ p] part_of_text [OF assms(3) st(2)] assms(3,4) st(2) by (simp add: values_of_def)
  ultimately show ?thesis using indexOf_text(1) [OF h _ assms(5) _ _ assms(6)] st(2) p array_holds [OF g(1)] by (simp add: us_indexOf_string_def)
qed

end
