(* ===== verification/UnicodeStrClaims.thy ===== *)
theory UnicodeStrClaims
  imports UnicodeStrRead
begin

text \<open>
  What the clients of \<^verbatim>\<open>UnicodeString\<close> rely on: strings are values, whatever they share; the reference counts are right in every
  reachable store; and what goes wrong when a string is inserted into itself.
\<close>

section \<open>Refinement of a specification by partial calls\<close>

text \<open>
  A state with an invariant, calls with an obligation of the client, and an abstraction that the calls change as specified unless
  memory is refused.
\<close>

locale call_refinement =
  fixes invariant :: "'w \<Rightarrow> bool" and obligation :: "'c \<Rightarrow> 'w \<Rightarrow> bool" and call :: "'c \<Rightarrow> 'w \<Rightarrow> 'w option"
    and abstraction :: "'w \<Rightarrow> 'a" and specified :: "'c \<Rightarrow> 'a \<Rightarrow> 'a" and refused :: bool
  assumes call_ok: "invariant w \<Longrightarrow> obligation c w \<Longrightarrow>
    \<exists>w'. call c w = Some w' \<and> invariant w' \<and> (abstraction w' = specified c (abstraction w) \<or> refused)"
begin

primrec calls :: "'c list \<Rightarrow> 'w \<Rightarrow> 'w option" where
  "calls [] w = Some w"
| "calls (c # cs) w = call c w \<bind> calls cs"

primrec obligations :: "'c list \<Rightarrow> 'w \<Rightarrow> bool" where
  "obligations [] w \<longleftrightarrow> True"
| "obligations (c # cs) w \<longleftrightarrow> obligation c w \<and> (case call c w of Some w' \<Rightarrow> obligations cs w' | None \<Rightarrow> True)"

lemma calls_refine:
  assumes "invariant w" "obligations cs w"
  shows "\<exists>w'. calls cs w = Some w' \<and> invariant w' \<and> (abstraction w' = fold specified cs (abstraction w) \<or> refused)"
  using assms
proof (induction cs arbitrary: w)
  case (Cons c cs)
  obtain w1 where w1: "call c w = Some w1" "invariant w1" "abstraction w1 = specified c (abstraction w) \<or> refused"
    using call_ok [OF Cons.prems(1)] Cons.prems(2) by auto
  then show ?case using Cons.IH [OF w1(2)] Cons.prems(2) by auto
qed simp

end

text \<open>The same over the calls of the model, as functions that compute.\<close>

primrec run_calls :: "int heap \<Rightarrow> call list \<Rightarrow> world \<Rightarrow> world option" where
  "run_calls e [] w = Some w"
| "run_calls e (c # cs) w = exec e c w \<bind> run_calls e cs"

primrec calls_allowed :: "int heap \<Rightarrow> call list \<Rightarrow> world \<Rightarrow> bool" where
  "calls_allowed e [] w \<longleftrightarrow> True"
| "calls_allowed e (c # cs) w \<longleftrightarrow> allowed c w \<and> (case exec e c w of Some w' \<Rightarrow> calls_allowed e cs w' | None \<Rightarrow> True)"

definition start_world :: "(nat \<Rightarrow> int list) \<Rightarrow> world" where
  "start_world m = \<lparr>strs = \<lambda>t. None, blocks = \<lambda>b. None, nextBlock = 0, client = m\<rparr>"

lemma values_result: "result_text t v w w' \<Longrightarrow> values_of w' = (values_of w)(t := Some v)"
  by (rule ext) (auto simp: result_text_def values_of_def split: if_splits)

lemma exec_step:
  assumes "us_inv w" "closed w" "allowed c w"
  obtains w' where "exec e c w = Some w'" "us_inv w'" "closed w'"
    "values_of w' = spec c (values_of w) \<or> (\<exists>n. \<not> grants e n) \<and> values_of w' = (values_of w)(target c := Some None)"
proof (cases "\<exists>t. c = Destroy t")
  case True
  then obtain t s where t: "c = Destroy t" "strs w t = Some s" using assms(3) by auto
  obtain w' where w': "us_destroy t w = Some w'" "us_inv w'" "strs w' = (strs w)(t := None)" "\<forall>u. u \<noteq> t \<longrightarrow> us_text w' u = us_text w u"
    by (rule us_destroy_result [OF assms(1) t(2)])
  have "closed w'" using assms(2) w'(3) by (auto simp: closed_def split: if_splits)
  moreover have "values_of w' = spec c (values_of w)" using w'(3,4) t(1) by (auto simp: values_of_def spec_def fun_eq_iff)
  ultimately show ?thesis using that [of w'] w' t(1) by simp
next
  case False
  have v: "spec c (values_of w) = (values_of w)(target c := Some (new_value c (values_of w) (us_text w (target c))))"
  proof -
    have "(case values_of w (target c) of Some v \<Rightarrow> v | None \<Rightarrow> None) = us_text w (target c)" by (simp add: values_of_def us_text_def)
    then show ?thesis using False unfolding spec_def by (cases c) auto
  qed
  from exec_refines [OF assms, of e] False obtain w' where w': "exec e c w = Some w'" "closed w'"
    "result_text (target c) (new_value c (values_of w) (us_text w (target c))) w w' \<or> result_text (target c) None w w' \<and> (\<exists>n. \<not> grants e n)"
    unfolding refines_def by blast
  have "us_inv w'" using w'(3) by (auto simp: result_text_def)
  moreover have "values_of w' = spec c (values_of w) \<or> (\<exists>n. \<not> grants e n) \<and> values_of w' = (values_of w)(target c := Some None)"
    unfolding v using w'(3) values_result by blast
  ultimately show ?thesis using that [OF w'(1) _ w'(2)] by blast
qed

interpretation us: call_refinement "\<lambda>w. us_inv w \<and> closed w" allowed "exec e" values_of spec "\<exists>n. \<not> grants e n" for e
proof unfold_locales
  show "\<exists>w'. exec e c w = Some w' \<and> (us_inv w' \<and> closed w') \<and> (values_of w' = spec c (values_of w) \<or> (\<exists>n. \<not> grants e n))"
    if "us_inv w \<and> closed w" "allowed c w" for w c
    using that exec_step [of w c e] by metis
qed

lemma run_calls_eq: "us.calls e cs w = run_calls e cs w"
  by (induction cs arbitrary: w) (simp_all cong: Option.bind_cong)

lemma calls_allowed_eq: "us.obligations e cs w = calls_allowed e cs w"
  by (induction cs arbitrary: w) (simp_all split: option.splits)

lemma start_inv: "us_inv (start_world m) \<and> closed (start_world m)"
  by (simp add: start_world_def us_inv_def closed_def)

lemma start_values: "values_of (start_world m) = (\<lambda>t. None)"
  by (simp add: start_world_def values_of_def fun_eq_iff)

text \<open>
  C8. Strings are values: after any sequence of allowed calls with an allocator that grants all requests, the calls have returned and the
  values of all strings are those of the specification, which knows no buffers and no sharing. A call is allowed when its objects exist, sizes
  stay below the limit where \<^verbatim>\<open>allocate\<close> overflows, and the source of a replacement or of \<^verbatim>\<open>setTo\<close> is another string than its target: with
  itself as source the code gives wrong text (\<open>self_insert_wrong\<close>, \<open>self_append_overwritten\<close>).
\<close>

theorem UnicodeString_calls_refine_values:
  assumes "\<And>n. grants e n" "calls_allowed e cs (start_world m)"
  shows "\<exists>w. run_calls e cs (start_world m) = Some w \<and> values_of w = fold spec cs (\<lambda>t. None)"
  using us.calls_refine [of "start_world m" e cs, unfolded run_calls_eq calls_allowed_eq start_values, OF start_inv assms(2)] assms(1) by blast

definition sample_heap :: "int heap" where
  "sample_heap = \<lparr>grants = \<lambda>n. True, junk = 0\<rparr>"

theorem UnicodeString_calls_refine_values_witness:
  "\<exists>w. run_calls sample_heap [NewText 1 (replicate 20 97), NewCopy 2 1, Replace 2 3 4 [98], Destroy 1, PadLeading 2 20 99] (start_world (\<lambda>c. [])) = Some w \<and>
     values_of w = fold spec [NewText 1 (replicate 20 97), NewCopy 2 1, Replace 2 3 4 [98], Destroy 1, PadLeading 2 20 99] (\<lambda>t. None)"
  by (rule UnicodeString_calls_refine_values) (simp add: sample_heap_def, code_simp)

section \<open>Reachable stores\<close>

text \<open>
  The stores that clients can reach: by calls, by aliases of their memory, by opening, filling and releasing buffers, and by changes of
  memory that no string uses. Every call has its own allocator, which may refuse what an earlier one has granted.
\<close>

inductive reachable :: "world \<Rightarrow> bool" where
  start: "reachable (start_world m)"
| call: "reachable w \<Longrightarrow> allowed c w \<Longrightarrow> exec e c w = Some w' \<Longrightarrow> reachable w'"
| readonly: "reachable w \<Longrightarrow> strs w t = Some s \<Longrightarrow> i \<le> length (client w c) \<Longrightarrow> drop i (client w c) = x @ (if isTerminated then 0 # rest else rest) \<Longrightarrow>
    n = int (length x) \<or> n = -1 \<and> isTerminated \<and> 0 \<notin> set x \<Longrightarrow> \<forall>u r. u \<noteq> t \<and> strs w u = Some r \<and> aliases r c \<longrightarrow> kBufferIsReadonly (fFlags r) \<Longrightarrow>
    setTo_readonly e isTerminated (Some (Client c, i)) n t w = Some w' \<Longrightarrow> reachable w'"
| writable: "reachable w \<Longrightarrow> strs w t = Some s \<Longrightarrow> i \<le> length (client w c) \<Longrightarrow> 0 \<le> capacity \<Longrightarrow> int i + capacity \<le> int (length (client w c)) \<Longrightarrow>
    -1 \<le> n \<Longrightarrow> n \<le> capacity \<Longrightarrow> \<forall>u r. u \<noteq> t \<and> strs w u = Some r \<longrightarrow> \<not> aliases r c \<Longrightarrow>
    setTo_writable e (Some (Client c, i)) n capacity t w = Some w' \<Longrightarrow> reachable w'"
| memory: "reachable w \<Longrightarrow> \<forall>u r. strs w u = Some r \<longrightarrow> \<not> aliases r c \<Longrightarrow> reachable (put_client c ys w)"

inductive_cases reachable_cases: "reachable w"

lemma result_closed: "result_text t x w w' \<Longrightarrow> closed w \<Longrightarrow> strs w' t = Some s \<Longrightarrow> \<not> kOpenGetBuffer (fFlags s) \<Longrightarrow> closed w'"
  by (auto simp: result_text_def closed_def split: if_splits)

lemma readonly_closed: "closed w \<Longrightarrow> post closed (setTo_readonly e b p n t w)"
  unfolding setTo_readonly_def
  by (rule post_any, rule post_if, rule post_Some, assumption, rule post_if, rule post_bind [OF releaseArray_closed], assumption, rule upd_closed, assumption,
      simp add: kShortString_def, rule post_any, rule post_any, rule post_if, rule setToBogus_closed, assumption, rule post_bind [OF releaseArray_closed], assumption,
      rule post_any, rule upd_closed) (auto simp: kReadonlyAlias_def)

lemma writable_closed: "closed w \<Longrightarrow> post closed (setTo_writable e p n k t w)"
  unfolding setTo_writable_def Let_def
  by (rule post_any, rule post_if, rule post_Some, assumption, rule post_if, rule post_bind [OF releaseArray_closed], assumption, rule upd_closed, assumption,
      simp add: kShortString_def, rule post_if, rule setToBogus_closed, assumption, rule post_any, rule post_bind [OF releaseArray_closed], assumption,
      rule upd_closed) (auto simp: kWritableAlias_def)

lemma client_inv:
  assumes "us_inv w" "\<forall>u r. strs w u = Some r \<longrightarrow> \<not> aliases r c"
  shows "us_inv (put_client c ys w)"
proof -
  have "str_wf (put_client c ys w) r" if "strs w u = Some r" for u r
  proof -
    have "str_wf w r" "\<not> aliases r c" using us_inv_wf [OF assms(1) that] assms(2) that by auto
    then show ?thesis unfolding str_wf_def fields_wf_def aliases_def by fastforce
  qed
  moreover have "owners (put_client c ys w) b = owners w b" for b by (simp add: owners_def)
  ultimately show ?thesis using assms(1) unfolding us_inv_def put_simps by presburger
qed

lemma reachable_store_inv: "reachable w \<Longrightarrow> us_inv w \<and> closed w"
proof (induction rule: reachable.induct)
  case (start m)
  then show ?case by (rule start_inv)
next
  case (call w c e w')
  then show ?case using exec_step [of w c e] by (metis option.inject)
next
  case (readonly w t s i c x isTerminated rest n e w')
  then have "\<exists>v. setTo_readonly e isTerminated (Some (Client c, i)) n t w = Some v \<and> result_text t (Some x) w v"
    using closed_str [of w t s] by (intro setTo_readonly_result) auto
  then show ?case using readonly readonly_closed [of w e isTerminated "Some (Client c, i)" n t] by (auto simp: post_def result_text_def)
next
  case (writable w t s i c capacity n e w')
  then have "\<exists>v. setTo_writable e (Some (Client c, i)) n capacity t w = Some v \<and>
      result_text t (Some (if n = -1 then takeWhile (\<lambda>u. u \<noteq> 0) (take (nat capacity) (drop i (client w c))) else take (nat n) (drop i (client w c)))) w v"
    using closed_str [of w t s] by (intro setTo_writable_result [OF _ _ _ refl]) auto
  then show ?case using writable writable_closed [of w e "Some (Client c, i)" n capacity t] by (auto simp: post_def result_text_def)
next
  case (memory w c ys)
  then show ?case using client_inv [of w c ys] by (simp add: closed_def)
qed

lemma run_calls_reachable: "reachable w \<Longrightarrow> calls_allowed e cs w \<Longrightarrow> run_calls e cs w = Some w' \<Longrightarrow> reachable w'"
proof (induction cs arbitrary: w)
  case (Cons c cs)
  then obtain v where "exec e c w = Some v" "run_calls e cs v = Some w'" by (auto simp: bind_eq_Some_conv)
  then show ?case using Cons reachable.call [of w c e v] by auto
qed simp

text \<open>Two strings that share a block, a third one, and an alias of memory of the client.\<close>

definition sample_calls :: "call list" where
  "sample_calls = [NewText 1 (replicate 20 97), NewCopy 2 1, NewText 3 [98, 99]]"

definition sample_memory :: "nat \<Rightarrow> int list" where
  "sample_memory c = [100, 101, 0, 102]"

definition sample_world :: world where
  "sample_world = (case run_calls sample_heap sample_calls (start_world sample_memory) of Some w \<Rightarrow> w | None \<Rightarrow> start_world sample_memory)"

lemma sample_reachable: "reachable sample_world"
proof -
  have "run_calls sample_heap sample_calls (start_world sample_memory) \<noteq> None" "calls_allowed sample_heap sample_calls (start_world sample_memory)" by code_simp+
  then show ?thesis using run_calls_reachable [OF reachable.start] unfolding sample_world_def by (auto split: option.splits)
qed

text \<open>
  C9. In every reachable store the reference count of each block is the number of the strings that use it; so no block is freed while it
  is used, and once the last string is destroyed all memory has been freed.
\<close>

theorem UnicodeString_reference_counts:
  assumes "reachable w"
  shows "(\<forall>b n cs. blocks w b = Some (n, cs) \<longrightarrow> n = int (card {t. \<exists>s. strs w t = Some s \<and> kRefCounted (fFlags s) \<and> fArray (fUnion s) = Some (Counted b, 0)}) \<and> 0 < n) \<and>
    (\<forall>t s b i. strs w t = Some s \<and> kRefCounted (fFlags s) \<and> fArray (fUnion s) = Some (Counted b, i) \<longrightarrow> i = 0 \<and> blocks w b \<noteq> None) \<and>
    (strs w = (\<lambda>t. None) \<longrightarrow> blocks w = (\<lambda>b. None))"
proof -
  have inv: "us_inv w" using reachable_store_inv [OF assms] by simp
  have o: "owners w b = {t. \<exists>s. strs w t = Some s \<and> kRefCounted (fFlags s) \<and> fArray (fUnion s) = Some (Counted b, 0)}" for b by (simp add: owners_def refs_def)
  have bl: "n = int (card (owners w b)) \<and> 0 < n" if "blocks w b = Some (n, cs)" for b n cs using us_inv_block [OF inv that] by blast
  have us: "i = 0 \<and> blocks w b \<noteq> None" if "strs w t = Some s" "kRefCounted (fFlags s)" "fArray (fUnion s) = Some (Counted b, i)" for t s b i
    using counted_refs [OF us_inv_wf [OF inv that(1)] that(2)] that(3) by auto
  have "blocks w b = None" if "strs w = (\<lambda>t. None)" for b
  proof (cases "blocks w b")
    case (Some y)
    then obtain n cs where "blocks w b = Some (n, cs)" by (cases y) auto
    then show ?thesis using bl that by (auto simp: owners_def)
  qed simp
  then show ?thesis using bl us unfolding o by blast
qed

theorem UnicodeString_reference_counts_witness:
  "card {t. \<exists>s. strs sample_world t = Some s \<and> kRefCounted (fFlags s) \<and> fArray (fUnion s) = Some (Counted 0, 0)} = 2"
proof -
  have "map_option fst (blocks sample_world 0) = Some 2" by code_simp
  then obtain cs where "blocks sample_world 0 = Some (2, cs)" by auto
  then show ?thesis using UnicodeString_reference_counts [OF sample_reachable] by fastforce
qed

text \<open>
  C10. In every reachable store each call that the client may make returns. It changes no string but its target, though others may share
  its buffer; its target gets the value that the specification gives it, or becomes bogus, and that only when memory was refused.
\<close>

theorem UnicodeString_call_changes_its_target:
  assumes "reachable w" "allowed c w"
  shows "\<exists>w'. exec e c w = Some w' \<and> (\<forall>u. u \<noteq> target c \<longrightarrow> values_of w' u = values_of w u) \<and>
    (values_of w' (target c) = spec c (values_of w) (target c) \<or> (\<exists>n. \<not> grants e n) \<and> values_of w' (target c) = Some None)"
proof -
  have inv: "us_inv w" "closed w" using reachable_store_inv [OF assms(1)] by auto
  obtain w' where "exec e c w = Some w'"
    "values_of w' = spec c (values_of w) \<or> (\<exists>n. \<not> grants e n) \<and> values_of w' = (values_of w)(target c := Some None)"
    by (rule exec_step [OF inv assms(2)])
  then show ?thesis by (auto simp: spec_def)
qed

theorem UnicodeString_call_changes_its_target_witness:
  "\<exists>w'. exec sample_heap (SetCharAt 2 5 120) sample_world = Some w' \<and> (\<forall>u. u \<noteq> 2 \<longrightarrow> values_of w' u = values_of sample_world u) \<and>
    values_of w' 2 = Some (Some (replicate 5 97 @ 120 # replicate 14 97))"
proof -
  have "allowed (SetCharAt 2 5 120) sample_world" by code_simp
  moreover have "spec (SetCharAt 2 5 120) (values_of sample_world) 2 = Some (Some (replicate 5 97 @ 120 # replicate 14 97))" by code_simp
  moreover have "grants sample_heap n" for n by (simp add: sample_heap_def)
  ultimately show ?thesis using UnicodeString_call_changes_its_target [OF sample_reachable, of "SetCharAt 2 5 120" sample_heap] by auto
qed

section \<open>Replacement from any memory\<close>

text \<open>
  C11. \<^verbatim>\<open>doReplace\<close> with a pointer argument: the units that it names, up to a terminator when the length is negative and none for NULL, replace
  the part of the text between the pinned indices, or the string becomes bogus, and that only when memory was refused; no other string changes.
  The source must not lie in memory that only this string uses (then the result is wrong, \<open>self_insert_wrong\<close>), and the new length stays below
  the limit of the allocation.
\<close>

theorem doReplace_replaces:
  assumes "reachable w" "strs w t = Some s" "us_text w t = Some x" "foreign w t s src" "argument w src srcStart srcLength us"
    "N = int (length x) + int (length us)" "N + N div 4 + kGrowSize \<le> max_capacity"
  shows "\<exists>w'. doReplace e start len src srcStart srcLength t w = Some w' \<and> (\<forall>u. u \<noteq> t \<longrightarrow> us_text w' u = us_text w u) \<and>
    (us_text w' t = Some (take (nat (pinned x start)) x @ us @ drop (nat (pinned x start) + nat (max 0 (min len (int (length x) - pinned x start)))) x) \<or>
     us_text w' t = None \<and> (\<exists>n. \<not> grants e n))"
proof -
  have inv: "us_inv w" "closed w" using reachable_store_inv [OF assms(1)] by auto
  have "small (values_of w) t (int (length us))" using assms(2,3,6,7) by (simp add: small_def values_of_def Let_def)
  from doReplace_refines [OF inv assms(2,4,5) this, of e start len] show ?thesis
    unfolding refines_def assms(3) by (auto simp: result_text_def replace_text_def replaced_def)
qed

theorem doReplace_replaces_witness:
  "\<exists>w'. doReplace sample_heap 18 7 (At (Some (Client 0, 0))) 0 (-1) 2 sample_world = Some w' \<and> us_text w' 2 = Some (replicate 18 97 @ [100, 101]) \<and> us_text w' 1 = Some (replicate 20 97)"
proof -
  have t: "us_text sample_world 2 = Some (replicate 20 97)" "us_text sample_world 1 = Some (replicate 20 97)" by code_simp+
  obtain s where s: "strs sample_world 2 = Some s" using t(1) by (auto simp: us_text_def split: option.splits)
  have f: "case strs sample_world 2 of Some s \<Rightarrow> fArray (fUnion s) = Some (Counted 0, 0) | None \<Rightarrow> False" by code_simp
  have src: "foreign sample_world 2 s (At (Some (Client 0, 0)))" using f s by (simp add: aliases_def)
  have "client sample_world 0 = [100, 101, 0, 102]" by code_simp
  then have arg: "argument sample_world (At (Some (Client 0, 0))) 0 (-1) [100, 101]" by (simp add: argument_def)
  have g: "grants sample_heap n" for n by (simp add: sample_heap_def)
  have "(int (length (replicate 20 (97::int))) + int (length [100, 101::int])) + (int (length (replicate 20 (97::int))) + int (length [100, 101::int])) div 4 + kGrowSize \<le> max_capacity"
    by code_simp
  from doReplace_replaces [OF sample_reachable s t(1) src arg refl this, of sample_heap 18 7] g t(2) show ?thesis by (fastforce simp: pinned_def)
qed

text \<open>
  C12. \<^verbatim>\<open>getTerminatedBuffer\<close> of a string that is not bogus keeps the values of all strings and returns a pointer to the text with a zero unit behind it, or NULL for a
  string that then is bogus because memory was refused.
\<close>

theorem getTerminatedBuffer_terminates:
  assumes "reachable w" "strs w t = Some s" "us_text w t = Some x" "int (length x) < max_capacity"
  shows "\<exists>w' p. getTerminatedBuffer e t w = Some (w', p) \<and> (\<forall>u. u \<noteq> t \<longrightarrow> us_text w' u = us_text w u) \<and>
    ((\<exists>rest. us_text w' t = Some x \<and> mem w' p = Some (x @ 0 # rest)) \<or> p = None \<and> us_text w' t = None \<and> (\<exists>n. \<not> grants e n))"
proof -
  have inv: "us_inv w" "closed w" using reachable_store_inv [OF assms(1)] by auto
  have nb: "\<not> kBogus (fFlags s)" using bogus_iff [OF inv(1) assms(2)] assms(3) by simp
  obtain cs where h: "holds t s cs w" by (rule holds_exists [OF inv(1) assms(2) nb])
  have x: "x = take (nat (us_length s)) cs" using holds_text [OF h] assms(3) by simp
  have wr: "isWritable s" using nb closed_str [OF inv(2) assms(2)] by (simp add: isWritable_def)
  have n: "us_length s < max_capacity" using text_length [OF h] x assms(4) by simp
  from inv(1) h wr x n show ?thesis
    by (cases rule: getTerminatedBuffer_outcome [where e = e]) (auto simp: result_text_def)
qed

theorem getTerminatedBuffer_terminates_witness:
  "\<exists>w' p rest. getTerminatedBuffer sample_heap 2 sample_world = Some (w', p) \<and> mem w' p = Some (replicate 20 97 @ 0 # rest) \<and> us_text w' 1 = Some (replicate 20 97)"
proof -
  have t: "us_text sample_world 2 = Some (replicate 20 97)" "us_text sample_world 1 = Some (replicate 20 97)" by code_simp+
  obtain s where s: "strs sample_world 2 = Some s" using t(1) by (auto simp: us_text_def split: option.splits)
  have "int (length (replicate 20 (97::int))) < max_capacity" by (simp add: max_capacity_def)
  from getTerminatedBuffer_terminates [OF sample_reachable s t(1) this, of sample_heap] t(2) show ?thesis by (fastforce simp: sample_heap_def)
qed

section \<open>Inserting a string into itself\<close>

text \<open>
  The obligation on the source is needed. \<^verbatim>\<open>s.insert(0, s, 1, 1)\<close> on \<^verbatim>\<open>"ab"\<close> moves the text to make room and then reads the unit that it
  has moved: the text is \<^verbatim>\<open>"aab"\<close>, not \<^verbatim>\<open>"bab"\<close>. Appending a string of ten units to itself leaves the buffer inside the object; the fields
  of the new array overwrite that buffer before the units are read from it.
\<close>

definition self_world :: "int list \<Rightarrow> world" where
  "self_world us = (case run_calls sample_heap [NewText 1 us] (start_world (\<lambda>c. [])) of Some w \<Rightarrow> w | None \<Rightarrow> start_world (\<lambda>c. []))"

lemma self_insert_wrong:
  "(case doReplace_string sample_heap 0 0 1 1 1 1 (self_world [97, 98]) of Some w \<Rightarrow> us_text w 1 | None \<Rightarrow> None) = Some [97, 97, 98]"
  by code_simp

lemma self_append_overwritten:
  "doReplace_string sample_heap 10 0 1 0 10 1 (self_world [0, 1, 2, 3, 4, 5, 6, 7, 8, 9]) = None"
  by code_simp

section \<open>Comparing, finding and replacing\<close>

text \<open>
  C14. Comparison reads values only: the sign that \<^verbatim>\<open>doCompare\<close> of two \<^verbatim>\<open>UnicodeString\<close>s (the overload with a string argument) returns for pinned parts of them is the lexicographic order of their code units, with
  bogus strings below all others, and \<^verbatim>\<open>operator==\<close> decides whether the strings have the same value, whatever buffers they share.
\<close>

theorem UnicodeString_comparisons:
  assumes "reachable w" "strs w t = Some s" "strs w u = Some r" "\<forall>x. us_text w t = Some x \<or> us_text w u = Some x \<longrightarrow> unit_list x"
  shows "doCompare_string start len u srcStart srcLength t w =
      Some (compare_values (map_option (\<lambda>x. text_part x start len) (us_text w t)) (map_option (\<lambda>y. text_part y srcStart srcLength) (us_text w u))) \<and>
    us_equals u t w = Some (us_text w t = us_text w u)"
  using reachable_store_inv [OF assms(1)] doCompare_string_values [OF _ assms(2-4)] equals_text [OF _ assms(2,3)] by blast

theorem UnicodeString_comparisons_witness:
  "doCompare_string 18 7 3 0 1 2 sample_world = Some (-1) \<and> us_equals 1 2 sample_world = Some True"
proof -
  have t: "us_text sample_world 1 = Some (replicate 20 97)" "us_text sample_world 2 = Some (replicate 20 97)" "us_text sample_world 3 = Some [98, 99]" by code_simp+
  obtain s1 s2 s3 where s: "strs sample_world 1 = Some s1" "strs sample_world 2 = Some s2" "strs sample_world 3 = Some s3"
    using t by (auto simp: us_text_def split: option.splits)
  have "compare_lists (text_part (replicate 20 97) 18 7) (text_part [98, 99] 0 1) = -1" by code_simp
  moreover have "\<forall>x. us_text sample_world 2 = Some x \<or> us_text sample_world 3 = Some x \<longrightarrow> unit_list x"
    "\<forall>x. us_text sample_world 2 = Some x \<or> us_text sample_world 1 = Some x \<longrightarrow> unit_list x" using t by auto
  ultimately show ?thesis
    using UnicodeString_comparisons [OF sample_reachable s(2,3), of 18 7 0 1] UnicodeString_comparisons [OF sample_reachable s(2,1)] t(1-3)
    by (simp add: compare_values_def)
qed



text \<open>
  The length of a terminated argument is measured behind twice the offset: the text \<^verbatim>\<open>bc\<close> compares above \<^verbatim>\<open>e\<close>, the terminated text at index 1
  of the array, as if that were empty.
\<close>

lemma doCompare_offset_twice:
  "us_text sample_world 3 = Some [98, 99] \<and> argument sample_world (At (Some (Client 0, 0))) 1 (-1) [101] \<and> compare_lists [98, 99] [101] = -1 \<and>
    doCompare 0 2 (At (Some (Client 0, 0))) 1 (-1) 3 sample_world = Some 1"
proof -
  have "client sample_world 0 = [100, 101, 0, 102]" by code_simp
  then have "argument sample_world (At (Some (Client 0, 0))) 1 (-1) [101]" by (simp add: argument_def)
  moreover have "us_text sample_world 3 = Some [98, 99]" "doCompare 0 2 (At (Some (Client 0, 0))) 1 (-1) 3 sample_world = Some 1" by code_simp+
  ultimately show ?thesis by simp
qed

end
