(* ===== verification/Spec2Isabelle.thy ===== *)
theory Spec2Isabelle
  imports UnicodeSetClaims SerializedSet UnicodeSetIter UHashKeys PunycodeClaims ArraySort StringTransformClaims UStringClaims UnicodeStrClaims
begin

text \<open>
  A verification of core data structures of the International Components for Unicode (ICU): the
  growable vectors, the sets of code points and strings with their frozen and serialized forms and
  their iterator, the hash table, the UTF-8, UTF-16 and UTF-32 conversions, the string functions, the
  string class with its shared buffers, and the Punycode codec, all of the library \<^verbatim>\<open>common\<close>.

  \<^bold>\<open>The program.\<close> ICU is a C and C++ library. Its lower half, \<^verbatim>\<open>common\<close>, has the containers and the
  Unicode algorithms every other part uses; \<^verbatim>\<open>i18n\<close> builds calendars, formats, collation,
  transliteration and regular expressions on them. Almost all of it reports errors through a
  \<^verbatim>\<open>UErrorCode\<close> passed by reference and allocates through \<^verbatim>\<open>uprv_malloc\<close>. The parts modelled here are
  pure data structures: they depend on nothing but that memory interface.

  \<^bold>\<open>How the model corresponds to the code.\<close> A class or struct is a record with the same fields, a method
  is a function from the state before to the state after, in the order of the statements of
  the source; \<^verbatim>\<open>UErrorCode &\<close> parameters are threaded through. A block of memory is a list of its
  cells, so that reading behind its end would be visible in the proofs as a missing fact about a
  length. Allocation is a parameter \<open>heap\<close> that may refuse any request: the theorems hold whichever
  requests it refuses unless they say otherwise. An \<open>int32_t\<close> is an \<open>int\<close> where the invariants keep the
  values in range (proved with the invariants), and reduced modulo \<open>2\<^sup>3\<^sup>2\<close> where the code relies on
  wrap-around. Loops are structural recursion, recursion with a measure, or, where the code's loop may
  run forever, \<open>partial_function\<close> into \<open>option\<close>; no definition uses fuel, except \<open>drain\<close> in the prelude
  and \<open>strtok_texts\<close>, which state how many calls a client of an iterator or tokenizer makes.

  \<^item> \<^verbatim>\<open>Prelude\<close>: error codes (\<^verbatim>\<open>unicode/utypes.h\<close>), memory (\<^verbatim>\<open>cmemory.c\<close>), loops that shift blocks, the binary
    search of the sorted vectors, and the locale \<open>enumerator\<close>, the contract of an iterator.
  \<^item> \<^verbatim>\<open>Utf16\<close>: the macros of \<^verbatim>\<open>unicode/utf16.h\<close> and the UTF-16 form of a list of code points.
  \<^item> \<^verbatim>\<open>IntVector\<close>: \<^verbatim>\<open>UVector32\<close> and \<^verbatim>\<open>UVector64\<close> (\<^verbatim>\<open>uvectr32.cpp\<close>, \<^verbatim>\<open>uvectr64.cpp\<close>). One model, with the size of a cell
    as the parameter of the locale \<open>int_vector\<close>, interpreted at 4 and 8. Every vector reached by calls within their preconditions
    (an index below the count for \<^verbatim>\<open>removeElementAt\<close>) is well formed and its capacity arithmetic does not overflow; the operations
    refine list operations.
  \<^item> \<^verbatim>\<open>PtrVector\<close>: \<^verbatim>\<open>UVector\<close> and \<^verbatim>\<open>UStack\<close> (\<^verbatim>\<open>uvector.cpp\<close>, \<^verbatim>\<open>ustack.cpp\<close>), with comparers and deleters. What a vector holds and
    what it has deleted account for all objects put into it; the locale \<open>vector_stack\<close> is the stack interface.
  \<^item> \<^verbatim>\<open>ArraySort\<close>: \<^verbatim>\<open>uarrsort.c\<close> and the sorting methods of \<^verbatim>\<open>UVector\<close>. The locale \<open>item_order\<close> is what a comparator
    promises. Quicksort is a \<open>partial_function\<close> whose scans return \<open>None\<close> outside the array; it is proved to
    return for every order.
  \<^item> \<^verbatim>\<open>InversionList\<close>, \<^verbatim>\<open>RangeOps\<close>: the algorithms of \<^verbatim>\<open>uniset.cpp\<close> on inversion lists: the three merge loops, the
    binary search, adding one code point, indexing. Each is proved against the set of code points the
    list stands for.
  \<^item> \<^verbatim>\<open>BmpSet\<close>: the lookup tables of a frozen set (\<^verbatim>\<open>bmpset.cpp\<close>) and the spans over UTF-16.
  \<^item> \<^verbatim>\<open>UnicodeSetModel\<close>, \<^verbatim>\<open>UnicodeSetProofs\<close>, \<^verbatim>\<open>UnicodeSetClaims\<close>: the class \<^verbatim>\<open>UnicodeSet\<close> with its storage, strings, bogus and
    frozen states; an access through a \<^verbatim>\<open>list\<close> that is \<^verbatim>\<open>NULL\<close> is \<open>None\<close>. A step relation of client calls and its invariant; each
    operation as a set operation; the locale \<open>set_class\<close> with the laws clients use.
  \<^item> \<^verbatim>\<open>SerializedSet\<close>: \<^verbatim>\<open>UnicodeSet::serialize\<close> and the readers of \<^verbatim>\<open>uset.cpp\<close>, a round trip for range indexes below \<open>2\<^sup>2\<^sup>9\<close>, whose
    doubling stays an \<^verbatim>\<open>int32_t\<close>.
  \<^item> \<^verbatim>\<open>UnicodeSetIter\<close>: \<^verbatim>\<open>UnicodeSetIterator\<close> (\<^verbatim>\<open>usetiter.cpp\<close>), two interpretations of \<open>enumerator\<close>.
  \<^item> \<^verbatim>\<open>UHash\<close>, \<^verbatim>\<open>UHashProofs\<close>, \<^verbatim>\<open>UHashPrimes\<close>, \<^verbatim>\<open>UHashMap\<close>, \<^verbatim>\<open>UHashClaims\<close>: the hash table \<^verbatim>\<open>uhash.c\<close>: open addressing with double
    hashing. The lengths in its table are certified to be primes, so the probe sequence reaches
    every slot and the search ends; runs of operations refine operations on a map; the locale \<open>keyed_map\<close>
    is the interface of its clients. An index that overflows \<^verbatim>\<open>int32_t\<close> is \<open>None\<close>: it is excluded for tables of up to
    1073741789 slots, all lengths but the last, and 500000000 pairs (\<open>count_limit\<close>), which never ask for the last one.
  \<^item> \<^verbatim>\<open>UHashKeys\<close>: the hash functions and comparators for string keys meet the contract the table needs.
  \<^item> \<^verbatim>\<open>Punycode\<close>, \<^verbatim>\<open>PunycodeProofs\<close>, \<^verbatim>\<open>PunycodeClaims\<close>: the codec \<^verbatim>\<open>punycode.cpp\<close> (RFC 3492). The encoder's main loop is a
    \<open>partial_function\<close>, proved to return; what it writes is decoded to the same text, and whatever the
    decoder accepts is well-formed UTF-16.

  \<^item> \<^verbatim>\<open>Utf8\<close>, \<^verbatim>\<open>Utf8Proofs\<close>, \<^verbatim>\<open>Utf8Claims\<close>: the safe macros of \<^verbatim>\<open>unicode/utf8.h\<close> with the functions of \<^verbatim>\<open>utf_impl.c\<close>, against a
    reference decoder of the Unicode standard's table of well-formed sequences. A read outside the
    string is \<open>None\<close>, so the theorems include that there is none.
  \<^item> \<^verbatim>\<open>StringTransform\<close>, \<^verbatim>\<open>StringTransformProofs\<close>: UTF-8 to UTF-16 (\<^verbatim>\<open>ustrtrns.cpp\<close>), \<^verbatim>\<open>StringToUtf8\<close> the other direction
    (its \<^verbatim>\<open>int32_t\<close> length is \<open>None\<close> on overflow, excluded for sources of up to 536870911 units),
    \<^verbatim>\<open>StringUtf32\<close> to and from UTF-32. The loops with and without checks, for sources with a length and with a terminating
    zero, all compute the function \<open>conv\<close> of \<^verbatim>\<open>Transcode\<close>, whose locales \<open>text_decoder\<close> and \<open>text_form\<close> are the
    interface of an encoding form. \<^verbatim>\<open>StringTransformClaims\<close> has the properties: functional correctness, round trips, validation.

  \<^item> \<^verbatim>\<open>UString\<close>: the searches, comparisons and counts of \<^verbatim>\<open>ustring.cpp\<close> over strings with a length or a terminating zero.
    A string is its memory; the text is what \<open>has_text\<close> says of it. \<^verbatim>\<open>UStringProofs\<close> relates the searches to the first and last
    match at a code point boundary, \<^verbatim>\<open>UStringCompare\<close> the comparisons to the lexicographic order and the counts to the
    list of code points. \<^verbatim>\<open>UStringSpan\<close>: spans and the tokenizer; \<^verbatim>\<open>Unescape\<close>: escape sequences, against a grammar
    of all their forms with their values (\<open>items_ok\<close>, \<open>written\<close>, \<open>item_units\<close>). \<^verbatim>\<open>UStringClaims\<close> has the properties; \<open>strtok_texts\<close> there counts the calls of
    a client of the tokenizer, one more than the text has units.

  \<^item> \<^verbatim>\<open>UnicodeStr\<close>: the class \<^verbatim>\<open>UnicodeString\<close> (\<^verbatim>\<open>unistr.cpp\<close>, \<^verbatim>\<open>unicode/unistr.h\<close>) over an explicit store of string objects, blocks with
    reference counts and arrays of the client; \<open>None\<close> is undefined behaviour. In a reachable store every call had an allocator of its own. \<^verbatim>\<open>UnicodeStrProofs\<close> has the invariant \<open>us_inv\<close> and a frame lemma: what
    a change of one object may do so that all others keep their texts. On it rest \<^verbatim>\<open>UnicodeStrReplace\<close> (\<^verbatim>\<open>doReplace\<close>), \<^verbatim>\<open>UnicodeStrOps\<close> (assignment,
    lengths, single units), \<^verbatim>\<open>UnicodeStrReverse\<close> (\<^verbatim>\<open>doReverse\<close> against the reversed list of code points) and \<^verbatim>\<open>UnicodeStrBuffers\<close> (construction,
    aliases, buffers of the client). \<^verbatim>\<open>UnicodeStrCalls\<close> has the calls of a client and their abstract specification, in which a string is a list of
    units; \<^verbatim>\<open>UnicodeStrSteps\<close> shows that each call refines it. \<^verbatim>\<open>UnicodeStrRead\<close> has searches, counts, comparisons in code unit order and
    \<^verbatim>\<open>findAndReplace\<close>, whose loop is a partial function that is shown to return. \<^verbatim>\<open>UnicodeStrClaims\<close> lifts the refinement to
    sequences of calls by the locale \<open>call_refinement\<close>, and states the rest for all reachable stores.

  \<^bold>\<open>Errors found.\<close> Lemmas state where the code does not do what it means to: \<open>serializedContains_one_and_hang\<close>,
  \<open>matchesIndexValue_sound_incomplete\<close>, \<open>UStack_pop_returns_deleted\<close>, \<open>removeElementAt_past_end\<close>,
  \<open>uhash_equals_zero_values\<close>, \<open>failed_shrinks_lose_the_table\<close>, \<open>decoder_takes_low_bytes\<close>,
  \<open>int32Comparator_wraps\<close>, \<open>FindFirst_reads_behind_limit\<close>, \<open>strtok_supplementary_delimiter\<close>, \<open>braces_with_eight_digits\<close>,
  \<open>self_insert_wrong\<close>, \<open>self_append_overwritten\<close>, \<open>doCompare_offset_twice\<close> and \<open>add_after_failed_constructor\<close>.

  \<^bold>\<open>Not modelled.\<close> Copying and matching of \<^verbatim>\<open>UnicodeSet\<close>s, the spans with strings (\<^verbatim>\<open>unisetspan.cpp\<close>) and over UTF-8,
  patterns (\<^verbatim>\<open>uniset_props.cpp\<close>), which rest on generated property tables; converters, normalization, break iteration, resource bundles
  and locale data, which interpret data files that are not source code; and the whole of \<^verbatim>\<open>i18n\<close>, \<^verbatim>\<open>layout\<close>
  and \<^verbatim>\<open>io\<close>; of \<^verbatim>\<open>ustrtrns.cpp\<close> the lenient conversion and Java's modified UTF-8; of \<^verbatim>\<open>UnicodeString\<close> the comparison
  in code point order, extractions, \<^verbatim>\<open>moveIndex32\<close>, \<^verbatim>\<open>copy\<close> and the conversions. Strings are used by one thread: the atomic operations on the
  reference counts are plain ones here.
\<close>

end
